(* ===== verification/Prelude.thy ===== *)
theory Prelude
  imports Main "HOL-Library.List_Lexorder" "HOL-Library.Char_ord" "HOL-Library.AList"
begin

text \<open>
  Shared vocabulary of the development.  Go maps, Go string sets and the
  nondeterministic operations on them, with the lemmas every component uses.

  \<^item> A Go \<open>map[string]T\<close> is an association list (\<open>'a gomap\<close>).  The order of the list
    is the order in which this run's \<open>range\<close> loops visit the map, so a statement
    about every association list is a statement about every iteration order.
  \<^item> A \<open>sets.Set[string]\<close> is a list used as a set; \<open>pop_any\<close> is \<open>PopAny\<close>, whose
    choice is a parameter.
  \<^item> Go strings are compared bytewise; the lexicographic order of
    \<open>HOL-Library.List_Lexorder\<close> over \<open>char\<close> is that order.
\<close>

named_theorems gomap_simps \<open>lookups in updated association lists\<close>
named_theorems set_simps \<open>the element sets of the list operations on Go sets\<close>

type_synonym 'a gomap = "(string \<times> 'a) list"

definition map_keys :: "('k \<times> 'a) list \<Rightarrow> 'k list" where
  "map_keys m = map fst m"

definition map_get :: "'a \<Rightarrow> ('k \<times> 'a) list \<Rightarrow> 'k \<Rightarrow> 'a" where
  "map_get z m k = (case map_of m k of None \<Rightarrow> z | Some v \<Rightarrow> v)"

definition map_has :: "('k \<times> 'a) list \<Rightarrow> 'k \<Rightarrow> bool" where
  "map_has m k = (map_of m k \<noteq> None)"

definition map_put :: "'k \<Rightarrow> 'a \<Rightarrow> ('k \<times> 'a) list \<Rightarrow> ('k \<times> 'a) list" where
  "map_put k v m = AList.update k v m"

definition map_del :: "'k \<Rightarrow> ('k \<times> 'a) list \<Rightarrow> ('k \<times> 'a) list" where
  "map_del k m = AList.delete k m"

lemma map_of_put [simp, gomap_simps]: "map_of (map_put k v m) = (map_of m)(k \<mapsto> v)"
  by (simp add: map_put_def update_conv')

lemma map_of_del [simp, gomap_simps]: "map_of (map_del k m) = (map_of m)(k := None)"
  by (simp add: map_del_def delete_conv')

lemma map_get_put [simp, gomap_simps]:
  "map_get z (map_put k v m) x = (if x = k then v else map_get z m x)"
  by (simp add: map_get_def)

lemma map_get_del [simp, gomap_simps]:
  "map_get z (map_del k m) x = (if x = k then z else map_get z m x)"
  by (simp add: map_get_def)

lemma map_has_code [code]: "map_has m k = (case map_of m k of None \<Rightarrow> False | Some _ \<Rightarrow> True)"
  by (simp add: map_has_def split: option.split)

lemma map_has_put [simp, gomap_simps]: "map_has (map_put k v m) x = (x = k \<or> map_has m x)"
  by (simp add: map_has_def)

lemma map_has_del [simp, gomap_simps]: "map_has (map_del k m) x = (x \<noteq> k \<and> map_has m x)"
  by (simp add: map_has_def)

lemma map_has_Nil [simp]: "\<not> map_has [] k"
  by (simp add: map_has_def)

lemma map_get_Nil [simp]: "map_get z [] k = z"
  by (simp add: map_get_def)

lemma map_keys_Nil [simp]: "map_keys [] = []"
  by (simp add: map_keys_def)

lemma map_keys_Cons [simp]: "map_keys (x # m) = fst x # map_keys m"
  by (simp add: map_keys_def)

lemma map_has_iff_keys: "map_has m k \<longleftrightarrow> k \<in> set (map_keys m)"
  by (simp add: map_has_def map_keys_def map_of_eq_None_iff)

lemma map_get_absent: "\<not> map_has m k \<Longrightarrow> map_get z m k = z"
  by (simp add: map_has_def map_get_def)

lemma map_has_Some: "map_of m k = Some v \<Longrightarrow> map_has m k"
  by (simp add: map_has_def)

lemma map_get_Some: "map_of m k = Some v \<Longrightarrow> map_get z m k = v"
  by (simp add: map_get_def)

lemma map_empty_iff: "m = [] \<longleftrightarrow> (\<forall>k. \<not> map_has m k)"
  by (cases m) (auto simp: map_has_def)

lemma distinct_keys_put: "distinct (map_keys m) \<Longrightarrow> distinct (map_keys (map_put k v m))"
  by (simp add: map_keys_def map_put_def distinct_update)

lemma distinct_keys_del: "distinct (map_keys m) \<Longrightarrow> distinct (map_keys (map_del k m))"
  by (simp add: map_keys_def map_del_def distinct_delete)

lemma set_keys_put [simp]: "set (map_keys (map_put k v m)) = insert k (set (map_keys m))"
  by (rule set_eqI) (auto simp flip: map_has_iff_keys)

lemma set_keys_del: "set (map_keys (map_del k m)) = set (map_keys m) - {k}"
  by (rule set_eqI) (auto simp flip: map_has_iff_keys)

lemma length_map_put_has: "k \<in> set (map_keys m) \<Longrightarrow> length (map_put k v m) = length m"
  unfolding map_put_def map_keys_def by (induction m) auto

lemma length_map_put_new: "k \<notin> set (map_keys m) \<Longrightarrow> length (map_put k v m) = Suc (length m)"
  unfolding map_put_def map_keys_def by (induction m) auto

lemma length_map_del_has: "k \<in> set (map_keys m) \<Longrightarrow> length (map_del k m) < length m"
  unfolding map_del_def map_keys_def by (induction m) (force simp: less_Suc_eq_le length_delete_le Suc_le_eq)+

lemma length_map_del_le: "length (map_del k m) \<le> length m"
  by (simp add: map_del_def length_delete_le)

text \<open>A map filled by a loop: the last entry of a key wins.\<close>

lemma find_append_split:
  "find P (xs @ ys) = (case find P xs of None \<Rightarrow> find P ys | Some x \<Rightarrow> Some x)"
  by (induction xs) auto

lemma find_SomeD: "find P xs = Some x \<Longrightarrow> x \<in> set xs \<and> P x"
  by (induction xs) (auto split: if_splits)

lemma fold_put_of:
  "map_of (fold (\<lambda>x m. map_put (k x) (f x) m) xs m0) =
     (\<lambda>n. case find (\<lambda>x. k x = n) (rev xs) of Some x \<Rightarrow> Some (f x) | None \<Rightarrow> map_of m0 n)"
proof (induction xs arbitrary: m0)
  case (Cons x xs)
  show ?case by (rule ext) (auto simp: Cons find_append_split split: option.split)
qed (simp add: fun_eq_iff)

lemma fold_put_distinct:
  "distinct (map_keys m0) \<Longrightarrow> distinct (map_keys (fold (\<lambda>x m. map_put (k x) (f x) m) xs m0))"
  by (induction xs arbitrary: m0) (auto intro: distinct_keys_put)

lemma find_key:
  assumes "distinct (map k xs)" "x \<in> set xs"
  shows "find (\<lambda>y. k y = k x) (rev xs) = Some x"
proof (cases "find (\<lambda>y. k y = k x) (rev xs)")
  case None
  with assms(2) show ?thesis by (auto simp: find_None_iff)
next
  case (Some y)
  from find_SomeD [OF Some] have "y \<in> set xs" "k y = k x" by auto
  with assms have "y = x" by (metis distinct_map inj_onD)
  with Some show ?thesis by simp
qed

text \<open>Go sets as lists.\<close>

definition set_insert :: "'a \<Rightarrow> 'a list \<Rightarrow> 'a list" where
  "set_insert x xs = (if x \<in> set xs then xs else xs @ [x])"

lemma set_set_insert [simp, set_simps]: "set (set_insert x xs) = insert x (set xs)"
  by (auto simp: set_insert_def)

lemma distinct_set_insert [simp]: "distinct (set_insert x xs) = distinct xs"
  by (auto simp: set_insert_def)

definition pop_any :: "('a list \<Rightarrow> nat) \<Rightarrow> 'a list \<Rightarrow> 'a \<times> 'a list" where
  "pop_any pick xs = (let x = xs ! (pick xs mod length xs) in (x, removeAll x xs))"

lemma pop_any_in: "xs \<noteq> [] \<Longrightarrow> pop_any pick xs = (x, ys) \<Longrightarrow> x \<in> set xs"
  by (auto simp: pop_any_def Let_def)

lemma pop_any_rest: "pop_any pick xs = (x, ys) \<Longrightarrow> ys = removeAll x xs"
  by (auto simp: pop_any_def Let_def)

lemma length_removeAll_in: "x \<in> set xs \<Longrightarrow> length (removeAll x xs) < length xs"
  by (rule length_removeAll_less)

lemma pop_any_shorter:
  "xs \<noteq> [] \<Longrightarrow> pop_any pick xs = (x, ys) \<Longrightarrow> length ys < length xs"
  using pop_any_in [of xs pick x ys] pop_any_rest [of pick xs x ys]
  by (simp add: length_removeAll_in)

text \<open>\<open>for x := range set\<close>: some order of the elements, fixed by the choice function.\<close>

function range_set :: "('a list \<Rightarrow> nat) \<Rightarrow> 'a list \<Rightarrow> 'a list" where
  "range_set pick xs =
     (if xs = [] then [] else case pop_any pick xs of (x, ys) \<Rightarrow> x # range_set pick ys)"
  by pat_completeness auto
termination
  by (relation "measure (\<lambda>(pick, xs). length xs)") (auto dest!: pop_any_shorter sym [of "(_, _)"])

declare range_set.simps [simp del]

lemma range_set_Nil [simp]: "range_set pick [] = []"
  by (simp add: range_set.simps)

lemma set_range_set [simp, set_simps]: "set (range_set pick xs) = set xs"
proof (induction pick xs rule: range_set.induct)
  case (1 pick xs)
  show ?case
  proof (cases "xs = []")
    case False
    obtain x ys where p: "pop_any pick xs = (x, ys)" by fastforce
    with False 1 have "set (range_set pick xs) = insert x (set ys)"
      by (simp add: range_set.simps [of pick xs])
    with pop_any_in [OF False p] pop_any_rest [OF p] show ?thesis by auto
  qed simp
qed

lemma distinct_range_set [simp]: "distinct (range_set pick xs)"
proof (induction pick xs rule: range_set.induct)
  case (1 pick xs)
  show ?case
  proof (cases "xs = []")
    case False
    obtain x ys where p: "pop_any pick xs = (x, ys)" by fastforce
    with False 1 pop_any_rest [OF p] show ?thesis
      by (simp add: range_set.simps [of pick xs])
  qed simp
qed

definition sets_List :: "string list \<Rightarrow> string list" where
  "sets_List xs = sort (remdups xs)"

lemma set_sets_List [simp, set_simps]: "set (sets_List xs) = set xs"
  by (simp add: sets_List_def)

lemma sorted_sets_List [simp]: "sorted (sets_List xs)"
  by (simp add: sets_List_def)

lemma distinct_sets_List [simp]: "distinct (sets_List xs)"
  by (simp add: sets_List_def)

lemma sets_List_Nil_iff [simp]: "sets_List xs = [] \<longleftrightarrow> xs = []"
  by (metis set_empty set_sets_List)

lemma sets_List_Nil [simp]: "sets_List [] = []"
  by simp

lemma sets_List_cong: "set xs = set ys \<Longrightarrow> sets_List xs = sets_List ys"
  by (rule sorted_distinct_set_unique) simp_all

lemma length_filter_all: "length (filter P xs) = length xs \<longleftrightarrow> (\<forall>x \<in> set xs. P x)"
  by (metis filter_True length_filter_less less_irrefl)

lemma set_fold_set_insert [simp, set_simps]: "set (fold set_insert xs acc) = set acc \<union> set xs"
  by (induction xs arbitrary: acc) auto

text \<open>Finite relations.\<close>

lemma closed_successors_not_acyclic:
  assumes fin: "finite R" and ne: "R \<noteq> {}"
    and step: "\<And>x. x \<in> R \<Longrightarrow> \<exists>y \<in> R. (x, y) \<in> E"
  shows "\<not> acyclic E"
proof
  assume ac: "acyclic E"
  let ?F = "E \<inter> R \<times> R"
  have "acyclic ?F" using ac by (rule acyclic_subset) auto
  moreover have "finite ?F" using fin by auto
  ultimately have wf: "wf (?F\<inverse>)" by (simp add: finite_acyclic_wf_converse)
  from ne obtain x where "x \<in> R" by auto
  with wf obtain z where z: "z \<in> R" and min: "\<And>y. (y, z) \<in> ?F\<inverse> \<Longrightarrow> y \<notin> R"
    by (rule wfE_min) blast
  from step [OF z] obtain y where "y \<in> R" "(z, y) \<in> E" by blast
  with z have "(y, z) \<in> ?F\<inverse>" by simp
  with min \<open>y \<in> R\<close> show False by blast
qed

lemma Inr_projr: "\<not> isl x \<Longrightarrow> x = Inr (projr x)"
  by (cases x) auto

text \<open>\<open>%q\<close> of a name without special characters is the name in quotes.\<close>

definition quoted :: "string \<Rightarrow> string" where
  "quoted s = [CHR 0x22] @ s @ [CHR 0x22]"

end
