(* ===== verification/Levels.thy ===== *)
theory Levels
  imports Prelude
begin

text \<open>
  The abstract specification of phased execution, shared by the resolver planner
  (\<open>pkg/resolver/phase.go\<close> over \<open>pkg/dag\<close>) and the action planner
  (\<open>pkg/action/graph.go\<close>): a finite acyclic dependency graph is cut into phases,
  each of which holds exactly the nodes whose dependencies are in earlier phases.
\<close>

definition ready :: "'a set \<Rightarrow> ('a \<Rightarrow> 'a set) \<Rightarrow> 'a set \<Rightarrow> 'a set" where
  "ready N D S = {n \<in> N. n \<notin> S \<and> D n \<subseteq> S}"

fun schedule_from :: "'a set \<Rightarrow> ('a \<Rightarrow> 'a set) \<Rightarrow> 'a set \<Rightarrow> 'a list list \<Rightarrow> bool" where
  "schedule_from N D S [] = (N \<subseteq> S)"
| "schedule_from N D S (p # ps) =
     (p \<noteq> [] \<and> distinct p \<and> set p = ready N D S \<and> schedule_from N D (S \<union> set p) ps)"

definition phase_schedule :: "'a set \<Rightarrow> ('a \<Rightarrow> 'a set) \<Rightarrow> 'a list list \<Rightarrow> bool" where
  "phase_schedule N D ps = schedule_from N D {} ps"

definition dep_closed :: "'a set \<Rightarrow> ('a \<Rightarrow> 'a set) \<Rightarrow> 'a set \<Rightarrow> bool" where
  "dep_closed N D S = (S \<subseteq> N \<and> (\<forall>n \<in> S. D n \<subseteq> S))"

lemma dep_closed_empty [simp]: "dep_closed N D {}"
  by (simp add: dep_closed_def)

lemma dep_closed_ready: "dep_closed N D S \<Longrightarrow> dep_closed N D (S \<union> ready N D S)"
  by (auto simp: dep_closed_def ready_def)

subsection \<open>What a schedule guarantees\<close>

lemma schedule_from_covers:
  "schedule_from N D S ps \<Longrightarrow> S \<union> set (concat ps) = N \<union> S"
  by (induction ps arbitrary: S) (auto simp: ready_def)

lemma schedule_from_fresh:
  "schedule_from N D S ps \<Longrightarrow> set (concat ps) \<inter> S = {} \<and> set (concat ps) \<subseteq> N \<and> distinct (concat ps)"
proof (induction ps arbitrary: S)
  case Nil
  then show ?case by simp
next
  case (Cons p ps)
  then have IH: "set (concat ps) \<inter> (S \<union> set p) = {} \<and> set (concat ps) \<subseteq> N \<and> distinct (concat ps)"
    by (metis schedule_from.simps(2))
  from Cons.prems have "set p = ready N D S" "distinct p" by auto
  with IH show ?case by (auto simp: ready_def)
qed

lemma schedule_from_deps:
  "schedule_from N D S ps \<Longrightarrow> i < length ps \<Longrightarrow> n \<in> set (ps ! i) \<Longrightarrow> d \<in> D n \<Longrightarrow>
   d \<in> S \<or> (\<exists>j < i. d \<in> set (ps ! j))"
proof (induction ps arbitrary: S i)
  case Nil
  then show ?case by simp
next
  case (Cons p ps)
  show ?case
  proof (cases i)
    case 0
    with Cons.prems show ?thesis by (auto simp: ready_def)
  next
    case (Suc k)
    have "schedule_from N D (S \<union> set p) ps" "k < length ps" "n \<in> set (ps ! k)"
      using Cons.prems Suc by fastforce+
    then have "d \<in> S \<union> set p \<or> (\<exists>j < k. d \<in> set (ps ! j))"
      using Cons.IH Cons.prems(4) by blast
    with Suc show ?thesis by (metis Suc_less_eq Un_iff nth_Cons_0 nth_Cons_Suc zero_less_Suc)
  qed
qed

lemma schedule_from_tight:
  "schedule_from N D S ps \<Longrightarrow> Suc i < length ps \<Longrightarrow> n \<in> set (ps ! Suc i) \<Longrightarrow>
   \<exists>d \<in> D n. d \<in> set (ps ! i)"
proof (induction ps arbitrary: S i)
  case Nil
  then show ?case by simp
next
  case (Cons p ps)
  show ?case
  proof (cases i)
    case 0
    from Cons.prems obtain q qs where ps: "ps = q # qs" by (cases ps) auto
    with Cons.prems 0 have "n \<in> ready N D (S \<union> ready N D S)" "set p = ready N D S" by auto
    with 0 show ?thesis by (auto simp: ready_def)
  next
    case (Suc k)
    with Cons show ?thesis by auto
  qed
qed

lemma phase_schedule_partition:
  assumes "phase_schedule N D ps"
  shows "set (concat ps) = N \<and> distinct (concat ps)"
  using schedule_from_covers [of N D "{}" ps] schedule_from_fresh [of N D "{}" ps] assms
  by (auto simp: phase_schedule_def)

lemma phase_schedule_deps:
  assumes "phase_schedule N D ps" "i < length ps" "n \<in> set (ps ! i)" "d \<in> D n"
  shows "\<exists>j < i. d \<in> set (ps ! j)"
  using schedule_from_deps [of N D "{}" ps i n d] assms by (simp add: phase_schedule_def)

text \<open>No ordering that respects the dependencies can place a node earlier.\<close>

lemma phase_schedule_minimal:
  assumes sched: "phase_schedule N D ps"
    and rank: "\<And>n d. n \<in> N \<Longrightarrow> d \<in> D n \<Longrightarrow> (f d :: nat) < f n"
  shows "i < length ps \<Longrightarrow> n \<in> set (ps ! i) \<Longrightarrow> i \<le> f n"
proof (induction i arbitrary: n)
  case 0
  then show ?case by simp
next
  case (Suc i)
  have "schedule_from N D {} ps" using sched by (simp add: phase_schedule_def)
  then obtain d where d: "d \<in> D n" "d \<in> set (ps ! i)"
    using schedule_from_tight Suc.prems by metis
  have "n \<in> N" using phase_schedule_partition [OF sched] Suc.prems
    by (metis UN_I nth_mem set_concat)
  with d rank Suc show ?case by (metis Suc_leI Suc_lessD le_less_trans)
qed

text \<open>A graph that has a schedule is acyclic.\<close>

lemma acyclic_measure: "(\<And>a b. (a, b) \<in> r \<Longrightarrow> (f b :: nat) < f a) \<Longrightarrow> acyclic r"
proof -
  assume *: "\<And>a b. (a, b) \<in> r \<Longrightarrow> f b < f a"
  then have "r\<inverse> \<subseteq> measure f" by auto
  then have "wf (r\<inverse>)" by (rule wf_subset [OF wf_measure])
  then have "acyclic (r\<inverse>)" by (rule wf_acyclic)
  then show "acyclic r" by simp
qed

lemma phase_schedule_acyclic:
  assumes s: "phase_schedule N D ps"
  shows "acyclic {(n, d). n \<in> N \<and> d \<in> D n}"
proof (rule acyclic_measure)
  let ?idx = "\<lambda>n. LEAST i. i < length ps \<and> n \<in> set (ps ! i)"
  fix n d assume "(n, d) \<in> {(n, d). n \<in> N \<and> d \<in> D n}"
  then have n: "n \<in> set (concat ps)" and d: "d \<in> D n" using phase_schedule_partition [OF s] by auto
  from n have "\<exists>i. i < length ps \<and> n \<in> set (ps ! i)" by (auto simp: in_set_conv_nth [of _ ps])
  then have i: "?idx n < length ps \<and> n \<in> set (ps ! ?idx n)" by (rule LeastI_ex)
  then obtain j where j: "j < ?idx n" "d \<in> set (ps ! j)" using phase_schedule_deps [OF s _ _ d] by blast
  then have "?idx d \<le> j" using i by (intro Least_le) simp
  with j(1) show "?idx d < ?idx n" by simp
qed

subsection \<open>The interface of a planner\<close>

text \<open>
  A dependency graph on which phased execution can make progress.  The two
  planners interpret it on the graphs they build.
\<close>

locale dep_graph =
  fixes N :: "'a set" and D :: "'a \<Rightarrow> 'a set"
  assumes finite_nodes: "finite N"
    and deps_in: "n \<in> N \<Longrightarrow> D n \<subseteq> N"
    and acyclic_deps: "acyclic {(n, d). n \<in> N \<and> d \<in> D n}"
begin

lemma wf_deps: "wf {(d, n). n \<in> N \<and> d \<in> D n}"
proof -
  have "finite {(n, d). n \<in> N \<and> d \<in> D n}"
    by (rule finite_subset [of _ "N \<times> N"]) (use deps_in finite_nodes in auto)
  then have "wf ({(n, d). n \<in> N \<and> d \<in> D n}\<inverse>)"
    by (rule finite_acyclic_wf_converse [OF _ acyclic_deps])
  moreover have "{(n, d). n \<in> N \<and> d \<in> D n}\<inverse> = {(d, n). n \<in> N \<and> d \<in> D n}" by auto
  ultimately show ?thesis by simp
qed

text \<open>Progress: as long as a node is left, some node is ready.\<close>

lemma ready_nonempty:
  assumes "\<not> N \<subseteq> S"
  shows "ready N D S \<noteq> {}"
proof -
  from assms obtain x where "x \<in> N - S" by auto
  then obtain z where z: "z \<in> N - S" "\<And>y. (y, z) \<in> {(d, n). n \<in> N \<and> d \<in> D n} \<Longrightarrow> y \<notin> N - S"
    by (rule wfE_min [OF wf_deps]) blast
  then have "D z \<subseteq> S" using deps_in by blast
  with z show ?thesis by (auto simp: ready_def)
qed

lemma ready_empty_iff: "ready N D S = {} \<longleftrightarrow> N \<subseteq> S"
  using ready_nonempty [of S] by (auto simp: ready_def)

lemma ready_shrinks:
  assumes "\<not> N \<subseteq> S"
  shows "card (N - (S \<union> ready N D S)) < card (N - S)"
proof (rule psubset_card_mono)
  show "finite (N - S)" using finite_nodes by simp
  show "N - (S \<union> ready N D S) \<subset> N - S"
    using ready_nonempty [OF assms] by (auto simp: ready_def)
qed

end

end
