(* ===== verification/Dag.thy ===== *)
theory Dag
  imports Levels
begin

text \<open>
  Package \<open>pkg/dag\<close> (\<open>dag.go\<close>, \<open>types.go\<close>): construction of the dependency graph,
  cycle detection by Kahn's algorithm, reconstruction of the reported cycle, and
  the scheduling query \<open>GetCandidateDagObjects\<close>.

  A \<open>*Node\<close> is identified with its key: \<open>Build\<close> creates exactly one node per key
  and every pointer in a \<open>Prev\<close> or \<open>Next\<close> slice is to a node of the graph's map.
  A nil pointer dereference is the error value \<open>NilDereference\<close>.
\<close>

subsection \<open>Data\<close>

record node =
  n_key :: string
  n_prev :: "string list"
  n_next :: "string list"

record graph =
  g_nodes :: "node gomap"

datatype cycle_report =
    CyclePath "string list"
  | CycleInvolving string "string list"

datatype dag_error =
    DuplicateObject string
  | DependencyCycle cycle_report
  | MissingDependency string string
  | NilDereference string

definition newGraph :: graph where
  "newGraph = \<lparr>g_nodes = []\<rparr>"

definition no_node :: node where
  "no_node = \<lparr>n_key = [], n_prev = [], n_next = []\<rparr>"

definition node_at :: "graph \<Rightarrow> string \<Rightarrow> node" where
  "node_at g k = map_get no_node (g_nodes g) k"

definition prevs :: "graph \<Rightarrow> string \<Rightarrow> string list" where
  "prevs g k = n_prev (node_at g k)"

definition nexts :: "graph \<Rightarrow> string \<Rightarrow> string list" where
  "nexts g k = n_next (node_at g k)"

subsection \<open>Construction\<close>

definition addDagObject :: "string \<Rightarrow> graph \<Rightarrow> graph option" where
  "addDagObject k g =
     (if map_has (g_nodes g) k then None
      else Some (g\<lparr>g_nodes := map_put k \<lparr>n_key = k, n_prev = [], n_next = []\<rparr> (g_nodes g)\<rparr>))"

definition upd_node :: "string \<Rightarrow> (node \<Rightarrow> node) \<Rightarrow> graph \<Rightarrow> graph" where
  "upd_node k f g = g\<lparr>g_nodes := map_put k (f (node_at g k)) (g_nodes g)\<rparr>"

definition linkDagObjects :: "string \<Rightarrow> string \<Rightarrow> graph \<Rightarrow> graph" where
  "linkDagObjects prv nxt g =
     upd_node prv (\<lambda>n. n\<lparr>n_next := n_next n @ [nxt]\<rparr>)
       (upd_node nxt (\<lambda>n. n\<lparr>n_prev := n_prev n @ [prv]\<rparr>) g)"

definition addLink :: "string \<Rightarrow> string \<Rightarrow> graph \<Rightarrow> dag_error + graph" where
  "addLink r prv g =
     (if \<not> map_has (g_nodes g) prv then Inl (MissingDependency r prv)
      else if \<not> map_has (g_nodes g) r then Inl (NilDereference r)
      else Inr (linkDagObjects prv r g))"

fun add_objects :: "string list \<Rightarrow> graph \<Rightarrow> dag_error + graph" where
  "add_objects [] g = Inr g"
| "add_objects (k # ks) g =
     (case addDagObject k g of None \<Rightarrow> Inl (DuplicateObject k) | Some g' \<Rightarrow> add_objects ks g')"

fun add_links_of :: "string \<Rightarrow> string list \<Rightarrow> graph \<Rightarrow> dag_error + graph" where
  "add_links_of r [] g = Inr g"
| "add_links_of r (d # ds) g =
     (case addLink r d g of Inl e \<Rightarrow> Inl e | Inr g' \<Rightarrow> add_links_of r ds g')"

fun add_links :: "string list gomap \<Rightarrow> graph \<Rightarrow> dag_error + graph" where
  "add_links [] g = Inr g"
| "add_links ((r, ds) # rest) g =
     (case add_links_of r ds g of Inl e \<Rightarrow> Inl e | Inr g' \<Rightarrow> add_links rest g')"

subsection \<open>Cycle detection\<close>

definition deps_of :: "string list gomap \<Rightarrow> string \<Rightarrow> string list" where
  "deps_of deps k = map_get [] deps k"

record kahn =
  k_ind :: "string list"
  k_dag :: "string list gomap"
  k_children :: "string list gomap"

definition kahn_add_dep :: "string list gomap \<Rightarrow> string \<Rightarrow> string \<Rightarrow> kahn \<Rightarrow> kahn" where
  "kahn_add_dep deps obj d st =
     st\<lparr>k_ind := (if deps_of deps d = [] then set_insert d (k_ind st) else k_ind st),
        k_children := map_put d (set_insert obj (map_get [] (k_children st) d)) (k_children st)\<rparr>"

fun kahn_init :: "string list gomap \<Rightarrow> string list gomap \<Rightarrow> kahn \<Rightarrow> kahn" where
  "kahn_init deps [] st = st"
| "kahn_init deps ((obj, ds) # rest) st =
     (if ds = [] then kahn_init deps rest st
      else kahn_init deps rest
             (fold (kahn_add_dep deps obj) ds (st\<lparr>k_dag := map_put obj (remdups ds) (k_dag st)\<rparr>)))"

definition kahn_child :: "string \<Rightarrow> string \<Rightarrow> kahn \<Rightarrow> kahn" where
  "kahn_child parent child st =
     (let s = removeAll parent (map_get [] (k_dag st) child) in
      if s = [] then st\<lparr>k_ind := set_insert child (k_ind st), k_dag := map_del child (k_dag st)\<rparr>
      else st\<lparr>k_dag := map_put child s (k_dag st)\<rparr>)"

function kahn_children :: "(string list \<Rightarrow> nat) \<Rightarrow> string \<Rightarrow> string list \<Rightarrow> kahn \<Rightarrow> kahn" where
  "kahn_children pick parent cs st =
     (if cs = [] then st
      else (case pop_any pick cs of (c, cs') \<Rightarrow>
              kahn_children pick parent cs' (kahn_child parent c st)))"
  by pat_completeness auto
termination
  by (relation "measure (\<lambda>(pick, parent, cs, st). length cs)") (auto dest: pop_any_shorter [OF _ sym])

definition children_total :: "string list gomap \<Rightarrow> nat" where
  "children_total m = sum_list (map (length \<circ> snd) m)"

lemma children_total_clear:
  "map_of m p = Some cs \<Longrightarrow> children_total (map_put p [] m) + length cs = children_total m"
  by (induction m) (auto simp: children_total_def map_put_def split: if_splits)

lemma k_children_kahn_child [simp]: "k_children (kahn_child p c st) = k_children st"
  by (simp add: kahn_child_def Let_def)

declare kahn_children.simps [simp del]

lemma kahn_children_Nil [simp]: "kahn_children pick p [] st = st"
  by (simp add: kahn_children.simps)

lemma k_children_kahn_children [simp]: "k_children (kahn_children pick p cs st) = k_children st"
proof (induction pick p cs st rule: kahn_children.induct)
  case (1 pick p cs st)
  then show ?case by (cases "cs = []") (auto simp: kahn_children.simps [of pick p cs] split: prod.splits)
qed

definition kahn_clear :: "string \<Rightarrow> kahn \<Rightarrow> kahn" where
  "kahn_clear p st =
     (if map_has (k_children st) p then st\<lparr>k_children := map_put p [] (k_children st)\<rparr> else st)"

function kahn_loop :: "(string list \<Rightarrow> nat) \<Rightarrow> kahn \<Rightarrow> kahn" where
  "kahn_loop pick st =
     (if k_ind st = [] then st
      else (case pop_any pick (k_ind st) of (p, ind') \<Rightarrow>
              kahn_loop pick
                (kahn_children pick p (map_get [] (k_children st) p)
                   (kahn_clear p (st\<lparr>k_ind := ind'\<rparr>)))))"
  by pat_completeness auto
termination
proof (relation "measures [\<lambda>(pick, st). children_total (k_children st), \<lambda>(pick, st). length (k_ind st)]")
  fix pick :: "string list \<Rightarrow> nat" and st :: kahn and x :: "string \<times> string list" and p ind'
  assume ne: "k_ind st \<noteq> []" and x: "(p, ind') = pop_any pick (k_ind st)"
  show "((pick, kahn_children pick p (map_get [] (k_children st) p) (kahn_clear p (st\<lparr>k_ind := ind'\<rparr>))), pick, st)
    \<in> measures [\<lambda>(pick, st). children_total (k_children st), \<lambda>(pick, st). length (k_ind st)]"
  proof (cases "map_get [] (k_children st) p = []")
    case True
    have "children_total (k_children (kahn_clear p (st\<lparr>k_ind := ind'\<rparr>))) = children_total (k_children st)"
      using True children_total_clear [of "k_children st" p "[]"]
      by (auto simp: kahn_clear_def map_has_def map_get_def split: option.splits)
    moreover have "k_ind (kahn_clear p (st\<lparr>k_ind := ind'\<rparr>)) = ind'" by (simp add: kahn_clear_def)
    ultimately show ?thesis using True pop_any_shorter [OF ne x [symmetric]] by simp
  next
    case False
    then obtain cs where cs: "map_of (k_children st) p = Some cs" "cs \<noteq> []"
      by (auto simp: map_get_def split: option.splits)
    have "0 < length cs" using cs(2) by simp
    with children_total_clear [OF cs(1)]
    have "children_total (map_put p [] (k_children st)) < children_total (k_children st)" by linarith
    with cs show ?thesis by (simp add: kahn_clear_def map_has_def)
  qed
qed simp

definition kahn_start :: "string list gomap \<Rightarrow> kahn" where
  "kahn_start deps = kahn_init deps deps \<lparr>k_ind = [], k_dag = [], k_children = []\<rparr>"


subsection \<open>Reconstruction of the reported cycle\<close>

definition cycle_from :: "string list \<Rightarrow> string \<Rightarrow> string list" where
  "cycle_from path n = dropWhile (\<lambda>p. p \<noteq> n) path @ [n]"

text \<open>
  \<open>walkCycle(node)\<close> is \<open>walk_deps dag path [node] visited\<close>: its body is inlined in
  the loop over the dependencies that calls it.  The visited set is shared by
  reference in the code, so it is threaded through and returned.
\<close>

definition unvisited :: "string list gomap \<Rightarrow> string list \<Rightarrow> string set" where
  "unvisited dag vis = set (map_keys dag) - set vis"

function walk_deps ::
  "string list gomap \<Rightarrow> string list \<Rightarrow> string list \<Rightarrow> string list \<Rightarrow> string list option \<times> string list"
where
  "walk_deps dag path [] vis = (None, vis)"
| "walk_deps dag path (d # ds) vis =
     (if d \<in> set path then (Some (cycle_from path d), vis)
      else if d \<in> set vis then walk_deps dag path ds vis
      else (case walk_deps dag (path @ [d]) (sets_List (map_get [] dag d)) (d # vis) of
              (Some chain, vis') \<Rightarrow> (Some chain, vis')
            | (None, vis') \<Rightarrow> walk_deps dag path ds vis'))"
  by pat_completeness auto

lemma walk_deps_dom_visited:
  "walk_deps_dom (dag, path, ds, vis) \<Longrightarrow> set vis \<subseteq> set (snd (walk_deps dag path ds vis))"
proof (induction rule: walk_deps.pinduct)
  case (1 dag path vis)
  then show ?case by (simp add: walk_deps.psimps)
next
  case (2 dag path d ds vis)
  obtain c v where r: "walk_deps dag (path @ [d]) (sets_List (map_get [] dag d)) (d # vis) = (c, v)"
    by (cases "walk_deps dag (path @ [d]) (sets_List (map_get [] dag d)) (d # vis)")
  show ?case
  proof (cases "d \<in> set path \<or> d \<in> set vis")
    case True
    with 2 show ?thesis by (auto simp: walk_deps.psimps)
  next
    case False
    with 2(3) r have "set (d # vis) \<subseteq> set v" by simp
    moreover have "c = None \<Longrightarrow> set v \<subseteq> set (snd (walk_deps dag path ds v))"
      using 2(4) r False by simp
    ultimately show ?thesis
      using 2(1) r False by (cases c) (auto simp: walk_deps.psimps)
  qed
qed

lemma unvisited_mono: "set vis \<subseteq> set vis' \<Longrightarrow> card (unvisited dag vis') \<le> card (unvisited dag vis)"
  by (rule card_mono) (auto simp: unvisited_def)

lemma unvisited_visit:
  "map_has dag d \<Longrightarrow> d \<notin> set vis \<Longrightarrow> card (unvisited dag (d # vis)) < card (unvisited dag vis)"
  by (rule psubset_card_mono) (auto simp: unvisited_def map_has_iff_keys)

termination walk_deps
proof (relation "measures [\<lambda>(dag, path, ds, vis). card (unvisited dag vis), \<lambda>(dag, path, ds, vis). length ds]",
    goal_cases)
  case 1
  then show ?case by simp
next
  case (2 dag path d ds vis)
  then show ?case by simp
next
  case (3 dag path d ds vis)
  show ?case
  proof (cases "map_has dag d")
    case True
    with 3 unvisited_visit [of dag d vis] show ?thesis by simp
  next
    case False
    have "card (unvisited dag (d # vis)) \<le> card (unvisited dag vis)"
      by (rule unvisited_mono) auto
    with False show ?thesis by (auto simp: map_get_absent)
  qed
next
  case (4 dag path d ds vis a b)
  have "set (d # vis) \<subseteq> set b"
    using walk_deps_dom_visited [OF 4(5)] 4(3) by (metis snd_conv)
  then have "card (unvisited dag b) \<le> card (unvisited dag vis)"
    by (intro unvisited_mono) auto
  then show ?case by auto
qed

fun first_chain :: "string list gomap \<Rightarrow> string list \<Rightarrow> string list option" where
  "first_chain dag [] = None"
| "first_chain dag (s # ss) =
     (case fst (walk_deps dag [] [s] []) of Some chain \<Rightarrow> Some chain | None \<Rightarrow> first_chain dag ss)"

definition findCycleChain :: "string list gomap \<Rightarrow> string list option" where
  "findCycleChain dag = first_chain dag (sort (map_keys dag))"

definition smallest_key :: "string list gomap \<Rightarrow> string" where
  "smallest_key dag = fold (\<lambda>n acc. if acc = [] \<or> n < acc then n else acc) (map_keys dag) []"

definition getInterdependencyError :: "string list gomap \<Rightarrow> cycle_report option" where
  "getInterdependencyError dag =
     (if dag = [] then None
      else (case findCycleChain dag of
              Some (c # cs) \<Rightarrow> Some (CyclePath (c # cs))
            | _ \<Rightarrow> Some (CycleInvolving (smallest_key dag)
                      (sets_List (map_get [] dag (smallest_key dag))))))"

definition kahn_residual :: "(string list \<Rightarrow> nat) \<Rightarrow> string list gomap \<Rightarrow> string list gomap" where
  "kahn_residual pick deps = k_dag (kahn_loop pick (kahn_start deps))"

definition findCyclesInDependencies :: "(string list \<Rightarrow> nat) \<Rightarrow> string list gomap \<Rightarrow> cycle_report option" where
  "findCyclesInDependencies pick deps = getInterdependencyError (kahn_residual pick deps)"

definition Build ::
  "(string list \<Rightarrow> nat) \<Rightarrow> string list \<Rightarrow> string list gomap \<Rightarrow> dag_error + graph" where
  "Build pick objs deps =
     (case add_objects objs newGraph of
        Inl e \<Rightarrow> Inl e
      | Inr g \<Rightarrow> (case findCyclesInDependencies pick deps of
                    Some rep \<Rightarrow> Inl (DependencyCycle rep)
                  | None \<Rightarrow> add_links deps g))"

subsection \<open>Kahn's algorithm removes exactly the acyclic part\<close>

definition dep_edges :: "string list gomap \<Rightarrow> (string \<times> string) set" where
  "dep_edges deps = {(r, d). d \<in> set (deps_of deps r)}"

definition dset :: "kahn \<Rightarrow> string \<Rightarrow> string set" where
  "dset st k = set (map_get [] (k_dag st) k)"

definition cset :: "kahn \<Rightarrow> string \<Rightarrow> string set" where
  "cset st k = set (map_get [] (k_children st) k)"

lemma removeAll_Nil_iff: "removeAll p xs = [] \<longleftrightarrow> set xs - {p} = {}"
  by (metis set_empty set_removeAll)

lemma dset_kahn_child:
  "dset (kahn_child p c st) k = (if k = c then dset st c - {p} else dset st k)"
  by (auto simp: dset_def kahn_child_def Let_def removeAll_Nil_iff)

lemma has_kahn_child:
  "map_has (k_dag (kahn_child p c st)) k =
     (if k = c then dset st c - {p} \<noteq> {} else map_has (k_dag st) k)"
  by (auto simp: dset_def kahn_child_def Let_def removeAll_Nil_iff)

lemma ind_kahn_child:
  "set (k_ind (kahn_child p c st)) = set (k_ind st) \<union> (if dset st c - {p} = {} then {c} else {})"
  by (auto simp: dset_def kahn_child_def Let_def removeAll_Nil_iff)

lemmas kahn_child_effect = dset_kahn_child has_kahn_child ind_kahn_child

lemma kahn_children_members:
  assumes "cs \<noteq> []" "(c, cs') = pop_any pick cs"
  shows "set cs = insert c (set cs')" and "c \<notin> set cs'"
  using pop_any_in [OF assms(1) assms(2) [symmetric]] pop_any_rest [OF assms(2) [symmetric]]
  by auto

lemma kahn_children_step:
  assumes "cs \<noteq> []" "(c, cs') = pop_any pick cs"
  shows "kahn_children pick p cs st = kahn_children pick p cs' (kahn_child p c st)"
  using assms(1) by (simp add: kahn_children.simps [of pick p cs] flip: assms(2))

lemma dset_kahn_children:
  "dset (kahn_children pick p cs st) k = (if k \<in> set cs then dset st k - {p} else dset st k)"
proof (induction pick p cs st rule: kahn_children.induct)
  case (1 pick p cs st)
  show ?case
  proof (cases "cs = []")
    case False
    obtain c cs' where pop: "(c, cs') = pop_any pick cs" by (metis surj_pair)
    from kahn_children_step [OF False pop, of p st] kahn_children_members [OF False pop]
      "1.IH" [OF False pop]
    show ?thesis by (cases "k = c") (simp_all add: dset_kahn_child)
  qed simp
qed

lemma has_kahn_children:
  "map_has (k_dag (kahn_children pick p cs st)) k =
     (if k \<in> set cs then dset st k - {p} \<noteq> {} else map_has (k_dag st) k)"
proof (induction pick p cs st rule: kahn_children.induct)
  case (1 pick p cs st)
  show ?case
  proof (cases "cs = []")
    case False
    obtain c cs' where pop: "(c, cs') = pop_any pick cs" by (metis surj_pair)
    from kahn_children_step [OF False pop, of p st] kahn_children_members [OF False pop]
      "1.IH" [OF False pop]
    show ?thesis by (cases "k = c") (simp_all add: dset_kahn_child has_kahn_child)
  qed simp
qed

lemma ind_kahn_children:
  "set (k_ind (kahn_children pick p cs st)) = set (k_ind st) \<union> {c \<in> set cs. dset st c - {p} = {}}"
proof (induction pick p cs st rule: kahn_children.induct)
  case (1 pick p cs st)
  show ?case
  proof (cases "cs = []")
    case False
    obtain c cs' where pop: "(c, cs') = pop_any pick cs" by (metis surj_pair)
    note step = kahn_children_step [OF False pop, of p st] kahn_children_members [OF False pop]
    have "{x \<in> set cs'. dset (kahn_child p c st) x - {p} = {}} = {x \<in> set cs'. dset st x - {p} = {}}"
      using step(3) by (intro Collect_cong) (metis dset_kahn_child)
    with "1.IH" [OF False pop]
    have "set (k_ind (kahn_children pick p cs st)) =
        set (k_ind st) \<union> (if dset st c - {p} = {} then {c} else {}) \<union> {x \<in> set cs'. dset st x - {p} = {}}"
      unfolding step(1) ind_kahn_child by metis
    also have "\<dots> = set (k_ind st) \<union> {x \<in> set cs. dset st x - {p} = {}}"
      unfolding step(2) by (rule set_eqI) (cases "dset st c - {p} = {}"; simp; blast)
    finally show ?thesis .
  qed simp
qed

lemmas kahn_children_effect = dset_kahn_children has_kahn_children ind_kahn_children

lemma fold_kahn_add_dep:
  "k_dag (fold (kahn_add_dep deps obj) ds st) = k_dag st \<and>
   cset (fold (kahn_add_dep deps obj) ds st) k = cset st k \<union> (if k \<in> set ds then {obj} else {}) \<and>
   set (k_ind (fold (kahn_add_dep deps obj) ds st)) =
     set (k_ind st) \<union> {d \<in> set ds. deps_of deps d = []}"
  by (induction ds arbitrary: st) (auto simp: kahn_add_dep_def cset_def)

lemma map_get_Cons: "map_get z ((a, v) # m) k = (if k = a then v else map_get z m k)"
  by (simp add: map_get_def)

lemma map_get_notin: "k \<notin> fst ` set m \<Longrightarrow> map_get z m k = z"
  by (simp add: map_get_def map_of_eq_None_iff [THEN iffD2])

lemma range_Cons:
  assumes "map_get [] m r0 = []"
  shows "(\<exists>r. d \<in> set (map_get [] ((r0, ds) # m) r)) \<longleftrightarrow> d \<in> set ds \<or> (\<exists>r. d \<in> set (map_get [] m r))"
    and "{r. d \<in> set (map_get [] ((r0, ds) # m) r)} =
         (if d \<in> set ds then {r0} else {}) \<union> {r. d \<in> set (map_get [] m r)}"
  using assms by (auto simp: map_get_Cons split: if_splits) (metis empty_iff empty_set)+

lemma kahn_init_effect:
  "distinct (map fst rest) \<Longrightarrow>
   dset (kahn_init deps rest st) k =
     (if map_get [] rest k = [] then dset st k else set (map_get [] rest k)) \<and>
   map_has (k_dag (kahn_init deps rest st)) k = (map_has (k_dag st) k \<or> map_get [] rest k \<noteq> []) \<and>
   cset (kahn_init deps rest st) k = cset st k \<union> {r. k \<in> set (map_get [] rest r)} \<and>
   set (k_ind (kahn_init deps rest st)) =
     set (k_ind st) \<union> {d. deps_of deps d = [] \<and> (\<exists>r. d \<in> set (map_get [] rest r))}"
proof (induction deps rest st rule: kahn_init.induct)
  case (1 deps st)
  then show ?case by simp
next
  case (2 deps obj ds rest st)
  have fresh: "map_get [] rest obj = []" using 2(3) by (intro map_get_notin) auto
  show ?case
  proof (cases "ds = []")
    case True
    with 2 show ?thesis by (simp add: range_Cons [OF fresh]) (auto simp: map_get_Cons fresh)
  next
    case False
    define st1 where "st1 = st\<lparr>k_dag := map_put obj (remdups ds) (k_dag st)\<rparr>"
    have st1: "\<And>x. dset st1 x = (if x = obj then set ds else dset st x)"
      "\<And>x. map_has (k_dag st1) x = (x = obj \<or> map_has (k_dag st) x)"
      "\<And>x. cset st1 x = cset st x" "k_ind st1 = k_ind st"
      by (auto simp: st1_def dset_def cset_def)
    have fold1: "\<And>x. dset (fold (kahn_add_dep deps obj) ds st1) x = dset st1 x"
      by (simp add: dset_def fold_kahn_add_dep)
    have step: "kahn_init deps ((obj, ds) # rest) st =
        kahn_init deps rest (fold (kahn_add_dep deps obj) ds st1)"
      using False by (simp add: st1_def)
    have IH: "distinct (map fst rest)" using 2(3) by simp
    show ?thesis
      unfolding step range_Cons [OF fresh]
      using 2(2) [OF False IH, folded st1_def] False
      by (auto simp: map_get_Cons fresh fold1 fold_kahn_add_dep st1 split: if_splits)
  qed
qed


text \<open>
  The loop invariant: \<open>P\<close> is the set of nodes popped so far.  The residual map is the
  dependency relation without the popped nodes, the worklist holds unpopped nodes
  whose dependencies are all popped, and the popped part is acyclic.
\<close>

lemma acyclic_restrict_range:
  assumes "E \<subseteq> UNIV \<times> Q" and "acyclic (E \<inter> Q \<times> UNIV)"
  shows "acyclic E"
proof (rule acyclicI, rule allI, rule notI)
  fix x assume cyc: "(x, x) \<in> E\<^sup>+"
  have low: "(a, b) \<in> E\<^sup>+ \<Longrightarrow> b \<in> Q \<and> (a \<in> Q \<longrightarrow> (a, b) \<in> (E \<inter> Q \<times> UNIV)\<^sup>+)" for a b
  proof (induction rule: trancl.induct)
    case (r_into_trancl a b)
    with assms(1) show ?case by (auto intro: trancl.r_into_trancl)
  next
    case (trancl_into_trancl a b c)
    then have "(b, c) \<in> E \<inter> Q \<times> UNIV" by simp
    with trancl_into_trancl assms(1) show ?case by (auto intro: trancl.trancl_into_trancl)
  qed
  from low [OF cyc] assms(2) show False by (auto simp: acyclic_def)
qed

definition kahn_inv :: "(string \<times> string) set \<Rightarrow> string set \<Rightarrow> kahn \<Rightarrow> bool" where
  "kahn_inv E P st =
     ((\<forall>k. dset st k = {d. (k, d) \<in> E} - P) \<and>
      (\<forall>k. map_has (k_dag st) k = (dset st k \<noteq> {})) \<and>
      (\<forall>k. k \<notin> P \<longrightarrow> cset st k = {r. (r, k) \<in> E}) \<and>
      set (k_ind st) \<subseteq> {k. k \<notin> P \<and> (\<forall>d. (k, d) \<in> E \<longrightarrow> d \<in> P)} \<and>
      {k \<in> Range E. k \<notin> P \<and> (\<forall>d. (k, d) \<in> E \<longrightarrow> d \<in> P)} \<subseteq> set (k_ind st) \<and>
      (\<forall>k \<in> P. \<forall>d. (k, d) \<in> E \<longrightarrow> d \<in> P) \<and>
      acyclic (E \<inter> P \<times> UNIV))"

lemma kahn_invD:
  assumes "kahn_inv E P st"
  shows "dset st k = {d. (k, d) \<in> E} - P"
    and "map_has (k_dag st) k = (dset st k \<noteq> {})"
    and "k \<notin> P \<Longrightarrow> cset st k = {r. (r, k) \<in> E}"
    and "k \<in> set (k_ind st) \<Longrightarrow> k \<notin> P"
    and "k \<in> set (k_ind st) \<Longrightarrow> (k, d) \<in> E \<Longrightarrow> d \<in> P"
    and "(r, k) \<in> E \<Longrightarrow> k \<notin> P \<Longrightarrow> k \<notin> set (k_ind st) \<Longrightarrow> \<exists>d. (k, d) \<in> E \<and> d \<notin> P"
    and "k \<in> P \<Longrightarrow> (k, d) \<in> E \<Longrightarrow> d \<in> P"
    and "acyclic (E \<inter> P \<times> UNIV)"
  using assms unfolding kahn_inv_def by (simp, simp, simp, blast, blast, blast, blast, simp)

lemma kahn_inv_start:
  assumes "distinct (map_keys deps)"
  shows "kahn_inv (dep_edges deps) {} (kahn_start deps)"
proof -
  have d: "distinct (map fst deps)" using assms by (simp add: map_keys_def)
  have e: "dset \<lparr>k_ind = [], k_dag = [], k_children = []\<rparr> k = {}"
    "cset \<lparr>k_ind = [], k_dag = [], k_children = []\<rparr> k = {}" for k
    by (simp_all add: dset_def cset_def)
  show ?thesis
    using kahn_init_effect [OF d, of deps "\<lparr>k_ind = [], k_dag = [], k_children = []\<rparr>"]
    by (auto simp: kahn_inv_def kahn_start_def dep_edges_def deps_of_def e acyclic_def)
qed

lemma acyclic_add_sink:
  assumes "acyclic (E \<inter> P \<times> UNIV)" and "p \<notin> P" and "\<forall>k \<in> P. \<forall>d. (k, d) \<in> E \<longrightarrow> d \<in> P"
    and "\<forall>d. (p, d) \<in> E \<longrightarrow> d \<in> P"
  shows "acyclic (E \<inter> insert p P \<times> UNIV)"
proof (rule acyclicI, rule allI, rule notI)
  fix x
  assume cyc: "(x, x) \<in> (E \<inter> insert p P \<times> UNIV)\<^sup>+"
  have low: "(a, b) \<in> (E \<inter> insert p P \<times> UNIV)\<^sup>+ \<Longrightarrow>
      b \<in> P \<and> (a \<in> P \<longrightarrow> (a, b) \<in> (E \<inter> P \<times> UNIV)\<^sup>+)" for a b
    by (induction rule: trancl.induct)
      (use assms(3,4) in \<open>auto intro: trancl_into_trancl r_into_trancl\<close>)
  from low [OF cyc] have "(x, x) \<in> (E \<inter> P \<times> UNIV)\<^sup>+" by simp
  with assms(1) show False by (simp add: acyclic_def)
qed

lemma kahn_inv_step:
  assumes inv: "kahn_inv E P st" and ne: "k_ind st \<noteq> []"
    and pop: "pop_any pick (k_ind st) = (p, ind')"
  shows "kahn_inv E (insert p P)
    (kahn_children pick p (map_get [] (k_children st) p) (kahn_clear p (st\<lparr>k_ind := ind'\<rparr>)))"
proof -
  define cs where "cs = map_get [] (k_children st) p"
  define st1 where "st1 = kahn_clear p (st\<lparr>k_ind := ind'\<rparr>)"
  define st2 where "st2 = kahn_children pick p cs st1"
  have p: "p \<in> set (k_ind st)" "set ind' = set (k_ind st) - {p}"
    using pop_any_in [OF ne pop] pop_any_rest [OF pop] by auto
  have pP: "p \<notin> P" "\<forall>d. (p, d) \<in> E \<longrightarrow> d \<in> P" using inv p by (auto simp: kahn_inv_def)
  have st1: "k_dag st1 = k_dag st" "k_ind st1 = ind'"
    "cset st1 k = (if k = p then {} else cset st k)" for k
    by (auto simp: st1_def kahn_clear_def cset_def map_has_def map_get_def split: option.splits)
  have cs: "set cs = {r. (r, p) \<in> E}" using inv pP by (simp add: kahn_inv_def cs_def cset_def)
  have dset1: "dset st1 k = dset st k" for k by (simp add: dset_def st1)
  have cset2: "cset st2 k = cset st1 k" for k by (simp add: cset_def st2_def)
  have eff: "dset st2 k = (if k \<in> set cs then dset st k - {p} else dset st k)"
    "map_has (k_dag st2) k = (if k \<in> set cs then dset st k - {p} \<noteq> {} else map_has (k_dag st) k)" for k
    by (simp_all add: st2_def kahn_children_effect dset1 st1)
  have effi: "set (k_ind st2) = set ind' \<union> {c \<in> set cs. dset st c - {p} = {}}"
    by (simp add: st2_def kahn_children_effect dset1 st1)
  have d: "dset st k = {d. (k, d) \<in> E} - P" for k using inv by (simp add: kahn_inv_def)
  have d2: "dset st2 k = {d. (k, d) \<in> E} - insert p P" for k
    using eff(1) [of k] d [of k] cs by (auto split: if_splits)
  have h2: "map_has (k_dag st2) k = (dset st2 k \<noteq> {})" for k
    using eff [of k] inv by (simp add: kahn_inv_def)
  have c2: "k \<notin> insert p P \<Longrightarrow> cset st2 k = {r. (r, k) \<in> E}" for k
    using inv by (auto simp: cset2 st1 kahn_inv_def)
  have i2: "set (k_ind st2) = (set (k_ind st) - {p}) \<union> {c. (c, p) \<in> E \<and> dset st2 c = {}}"
    using effi eff(1) p cs by auto
  have dn: "\<forall>k \<in> P. \<forall>d. (k, d) \<in> E \<longrightarrow> d \<in> P" using kahn_invD(7) [OF inv] by blast
  have i3: "set (k_ind st2) \<subseteq> {k. k \<notin> insert p P \<and> (\<forall>d. (k, d) \<in> E \<longrightarrow> d \<in> insert p P)}"
  proof
    fix k assume "k \<in> set (k_ind st2)"
    then consider "k \<in> set (k_ind st)" "k \<noteq> p" | "(k, p) \<in> E" "{d. (k, d) \<in> E} \<subseteq> insert p P"
      unfolding i2 d2 by blast
    then show "k \<in> {k. k \<notin> insert p P \<and> (\<forall>d. (k, d) \<in> E \<longrightarrow> d \<in> insert p P)}"
    proof cases
      case 1
      then show ?thesis using kahn_invD(4,5) [OF inv] by blast
    next
      case 2
      then have "k \<noteq> p" "k \<notin> P" using pP dn by blast+
      with 2 show ?thesis by blast
    qed
  qed
  have i4: "{k \<in> Range E. k \<notin> insert p P \<and> (\<forall>d. (k, d) \<in> E \<longrightarrow> d \<in> insert p P)} \<subseteq> set (k_ind st2)"
  proof
    fix k assume "k \<in> {k \<in> Range E. k \<notin> insert p P \<and> (\<forall>d. (k, d) \<in> E \<longrightarrow> d \<in> insert p P)}"
    then obtain r where k: "(r, k) \<in> E" "k \<noteq> p" "k \<notin> P" "\<forall>d. (k, d) \<in> E \<longrightarrow> d \<in> insert p P" by blast
    show "k \<in> set (k_ind st2)"
    proof (cases "k \<in> set (k_ind st)")
      case True
      with k show ?thesis by (simp add: i2)
    next
      case False
      from kahn_invD(6) [OF inv k(1,3) False] k(4) have "(k, p) \<in> E" by blast
      with k(4) show ?thesis unfolding i2 d2 by blast
    qed
  qed
  have p5: "\<forall>k \<in> insert p P. \<forall>d. (k, d) \<in> E \<longrightarrow> d \<in> insert p P" using dn pP by auto
  have "acyclic (E \<inter> P \<times> UNIV)" using inv by (simp add: kahn_inv_def)
  then have ac: "acyclic (E \<inter> insert p P \<times> UNIV)" by (rule acyclic_add_sink [OF _ pP(1) dn pP(2)])
  have "kahn_inv E (insert p P) st2"
    unfolding kahn_inv_def
    by (intro conjI) (rule allI d2 | rule allI h2 | intro allI impI, erule c2 | fact i3 i4 p5 ac)+
  then show ?thesis by (simp add: st2_def st1_def cs_def)
qed

declare kahn_loop.simps [simp del]

lemma kahn_loop_inv:
  "kahn_inv E P st \<Longrightarrow> \<exists>Q. kahn_inv E Q (kahn_loop pick st) \<and> k_ind (kahn_loop pick st) = []"
proof (induction pick st arbitrary: P rule: kahn_loop.induct)
  case (1 pick st)
  show ?case
  proof (cases "k_ind st = []")
    case True
    with 1 show ?thesis by (auto simp: kahn_loop.simps [of pick st])
  next
    case False
    obtain p ind' where pop: "pop_any pick (k_ind st) = (p, ind')" by force
    from "1.IH" [OF False pop [symmetric] kahn_inv_step [OF "1.prems" False pop]]
    show ?thesis using False pop by (simp add: kahn_loop.simps [of pick st])
  qed
qed


text \<open>What remains after the loop: every key is blocked on another remaining key.\<close>

definition blocked :: "string list gomap \<Rightarrow> bool" where
  "blocked dag = (\<forall>k. map_has dag k \<longrightarrow> map_get [] dag k \<noteq> [] \<and> (\<forall>d \<in> set (map_get [] dag k). map_has dag d))"

lemma kahn_residual_facts:
  assumes "distinct (map_keys deps)"
  shows "blocked (kahn_residual pick deps)"
    and "set (map_get [] (kahn_residual pick deps) k) \<subseteq> set (deps_of deps k)"
    and "kahn_residual pick deps = [] \<longleftrightarrow> acyclic (dep_edges deps)"
proof -
  define E where "E = dep_edges deps"
  define st where "st = kahn_loop pick (kahn_start deps)"
  obtain Q where inv: "kahn_inv E Q st" and fin: "k_ind st = []"
    using kahn_loop_inv [OF kahn_inv_start [OF assms], of pick] by (auto simp: E_def st_def)
  have dset: "dset st k = {d. (k, d) \<in> E} - Q" for k using inv by (simp add: kahn_inv_def)
  have has: "map_has (k_dag st) k = (dset st k \<noteq> {})" for k using inv by (simp add: kahn_inv_def)
  have nxt: "(r, k) \<in> E \<Longrightarrow> k \<notin> Q \<Longrightarrow> \<exists>d. (k, d) \<in> E \<and> d \<notin> Q" for r k
    using kahn_invD(6) [OF inv] fin by simp
  have blk: "blocked (k_dag st)"
    unfolding blocked_def
  proof (intro allI impI conjI ballI)
    fix k assume k: "map_has (k_dag st) k"
    then show "map_get [] (k_dag st) k \<noteq> []" using has [of k] by (auto simp: dset_def)
    fix d assume "d \<in> set (map_get [] (k_dag st) k)"
    then have "(k, d) \<in> E" "d \<notin> Q" using dset [of k] by (auto simp: dset_def)
    then show "map_has (k_dag st) d" using nxt has [of d] dset [of d] by blast
  qed
  have sub: "set (map_get [] (k_dag st) k) \<subseteq> set (deps_of deps k)" for k
    using dset [of k] by (auto simp: dset_def E_def dep_edges_def)
  have "k_dag st = [] \<longleftrightarrow> acyclic E"
  proof
    assume "k_dag st = []"
    then have "\<And>k d. (k, d) \<in> E \<Longrightarrow> d \<in> Q" using dset by (auto simp: dset_def)
    moreover have "acyclic (E \<inter> Q \<times> UNIV)" using inv by (simp add: kahn_inv_def)
    moreover have "E \<subseteq> UNIV \<times> Q" using calculation(1) by auto
    ultimately show "acyclic E" by (metis acyclic_restrict_range)
  next
    assume ac: "acyclic E"
    let ?R = "{k. map_has (k_dag st) k}"
    have "finite ?R" by (simp add: map_has_iff_keys)
    moreover have "\<exists>d \<in> ?R. (k, d) \<in> E" if "k \<in> ?R" for k
    proof -
      from that blk obtain d where "d \<in> set (map_get [] (k_dag st) k)" "map_has (k_dag st) d"
        unfolding blocked_def by (metis list.set_intros(1) mem_Collect_eq neq_Nil_conv)
      with sub [of k] show ?thesis by (auto simp: E_def dep_edges_def)
    qed
    ultimately have "?R = {}" using closed_successors_not_acyclic [of ?R E] ac by blast
    then show "k_dag st = []" by (simp add: map_empty_iff)
  qed
  then show "kahn_residual pick deps = [] \<longleftrightarrow> acyclic (dep_edges deps)"
    by (simp add: kahn_residual_def st_def E_def)
  show "blocked (kahn_residual pick deps)" using blk by (simp add: kahn_residual_def st_def)
  show "set (map_get [] (kahn_residual pick deps) k) \<subseteq> set (deps_of deps k)"
    using sub [of k] by (simp add: kahn_residual_def st_def)
qed

subsection \<open>The reported chain is a cycle\<close>

definition dep_cycle :: "(string \<Rightarrow> string list) \<Rightarrow> string list \<Rightarrow> bool" where
  "dep_cycle ds chain =
     (2 \<le> length chain \<and> hd chain = last chain \<and> successively (\<lambda>a b. b \<in> set (ds a)) chain)"

lemma cycle_from_dep_cycle:
  assumes "successively (\<lambda>a b. b \<in> set (ds a)) path" "d \<in> set path" "d \<in> set (ds (last path))"
  shows "dep_cycle ds (cycle_from path d)"
proof -
  define rest where "rest = dropWhile (\<lambda>p. p \<noteq> d) path"
  have ne: "rest \<noteq> []" and hd: "hd rest = d"
    using assms(2) hd_dropWhile [of "\<lambda>p. p \<noteq> d" path] by (auto simp: rest_def dropWhile_eq_Nil_conv)
  have split: "path = takeWhile (\<lambda>p. p \<noteq> d) path @ rest" by (simp add: rest_def)
  then have lst: "last rest = last path" using ne by (metis last_appendR)
  have "successively (\<lambda>a b. b \<in> set (ds a)) rest"
    using assms(1) split by (metis successively_append_iff)
  then have "successively (\<lambda>a b. b \<in> set (ds a)) (rest @ [d])"
    using ne lst assms(3) by (simp add: successively_append_iff)
  moreover have "2 \<le> length (rest @ [d])" using ne by (cases rest) auto
  ultimately show ?thesis
    using ne hd by (simp add: dep_cycle_def cycle_from_def rest_def)
qed

lemma walk_deps_sound:
  "walk_deps dag path ds vis = (Some chain, v) \<Longrightarrow>
   successively (\<lambda>a b. b \<in> set (map_get [] dag a)) path \<Longrightarrow>
   path = [] \<or> set ds \<subseteq> set (map_get [] dag (last path)) \<Longrightarrow>
   dep_cycle (map_get [] dag) chain"
proof (induction dag path ds vis arbitrary: chain v rule: walk_deps.induct)
  case (1 dag path vis)
  then show ?case by simp
next
  case (2 dag path d ds vis)
  show ?case
  proof (cases "d \<in> set path")
    case True
    then have "chain = cycle_from path d" "path \<noteq> []" using "2.prems"(1) by auto
    with True "2.prems" show ?thesis by (auto intro: cycle_from_dep_cycle)
  next
    case notin: False
    show ?thesis
    proof (cases "d \<in> set vis")
      case True
      with notin 2 show ?thesis by (auto split: if_splits)
    next
      case False
      obtain c w where r: "walk_deps dag (path @ [d]) (sets_List (map_get [] dag d)) (d # vis) = (c, w)"
        by fastforce
      have ext: "successively (\<lambda>a b. b \<in> set (map_get [] dag a)) (path @ [d])"
        using "2.prems"(2,3) by (auto simp: successively_append_iff)
      show ?thesis
      proof (cases c)
        case None
        with r notin False "2.prems" "2.IH"(3) [OF notin False r [symmetric] None] show ?thesis
          by auto
      next
        case (Some a)
        with r notin False "2.prems"(1) have "chain = a" by auto
        with "2.IH"(2) [OF notin False] r Some ext show ?thesis by auto
      qed
    qed
  qed
qed

lemma walk_deps_complete:
  assumes "blocked dag"
  shows "ds \<noteq> [] \<Longrightarrow> \<forall>d \<in> set ds. map_has dag d \<Longrightarrow> set vis \<subseteq> set path \<Longrightarrow>
   fst (walk_deps dag path ds vis) \<noteq> None"
  using assms
proof (induction dag path ds vis rule: walk_deps.induct)
  case (1 dag path vis)
  then show ?case by simp
next
  case (2 dag path d ds vis)
  show ?case
  proof (cases "d \<in> set path")
    case True
    then show ?thesis by simp
  next
    case False
    then have nv: "d \<notin> set vis" using "2.prems" by auto
    have "map_get [] dag d \<noteq> []" "\<forall>x \<in> set (map_get [] dag d). map_has dag x"
      using "2.prems" by (auto simp: blocked_def)
    then have "fst (walk_deps dag (path @ [d]) (sets_List (map_get [] dag d)) (d # vis)) \<noteq> None"
      using "2.IH"(2) [OF False nv] "2.prems" by auto
    then show ?thesis using False nv by (auto split: prod.splits option.splits)
  qed
qed

lemma findCycleChain_blocked:
  assumes "blocked dag" "dag \<noteq> []"
  obtains chain where "findCycleChain dag = Some chain" "dep_cycle (map_get [] dag) chain"
proof -
  from assms(2) have "sort (map_keys dag) \<noteq> []"
    by (metis map_is_Nil_conv map_keys_def set_empty set_sort)
  then obtain s ss where ks: "sort (map_keys dag) = s # ss" by (cases "sort (map_keys dag)") auto
  then have "s \<in> set (map_keys dag)" by (metis list.set_intros(1) set_sort)
  then have "map_has dag s" by (simp add: map_has_iff_keys)
  then have "fst (walk_deps dag [] [s] []) \<noteq> None"
    using walk_deps_complete [OF assms(1), of "[s]" "[]" "[]"] by simp
  then obtain chain v where w: "walk_deps dag [] [s] [] = (Some chain, v)" by (metis not_None_eq prod.collapse)
  then have "dep_cycle (map_get [] dag) chain" by (rule walk_deps_sound) auto
  with w ks that show thesis by (simp add: findCycleChain_def)
qed

lemma dep_cycle_mono:
  assumes "dep_cycle f chain" and "\<And>k. set (f k) \<subseteq> set (g k)"
  shows "dep_cycle g chain"
proof -
  have "successively (\<lambda>a b. b \<in> set (f a)) chain" using assms(1) by (simp add: dep_cycle_def)
  then have "successively (\<lambda>a b. b \<in> set (g a)) chain"
    by (rule successively_mono) (rule subsetD [OF assms(2)])
  with assms(1) show ?thesis by (simp add: dep_cycle_def)
qed

lemma getInterdependencyError_blocked:
  assumes "blocked dag"
  shows "(dag = [] \<and> getInterdependencyError dag = None) \<or>
         (\<exists>chain. getInterdependencyError dag = Some (CyclePath chain) \<and> dep_cycle (map_get [] dag) chain)"
proof (cases "dag = []")
  case False
  obtain chain where c: "findCycleChain dag = Some chain" "dep_cycle (map_get [] dag) chain"
    using findCycleChain_blocked [OF assms False] .
  then have "chain \<noteq> []" by (auto simp: dep_cycle_def)
  with c False show ?thesis by (cases chain) (auto simp: getInterdependencyError_def)
qed (simp add: getInterdependencyError_def)

lemma findCycles_iff:
  assumes "distinct (map_keys deps)"
  shows "findCyclesInDependencies pick deps = None \<longleftrightarrow> acyclic (dep_edges deps)"
  using getInterdependencyError_blocked [OF kahn_residual_facts(1) [OF assms, of pick]]
    kahn_residual_facts(3) [OF assms, of pick]
  by (auto simp: findCyclesInDependencies_def getInterdependencyError_def)

lemma findCycles_chain:
  assumes "distinct (map_keys deps)" "findCyclesInDependencies pick deps = Some rep"
  obtains chain where "rep = CyclePath chain" "dep_cycle (deps_of deps) chain"
proof -
  from getInterdependencyError_blocked [OF kahn_residual_facts(1) [OF assms(1), of pick]] assms(2)
  obtain chain where c: "rep = CyclePath chain"
    and cyc: "dep_cycle (map_get [] (kahn_residual pick deps)) chain"
    unfolding findCyclesInDependencies_def by auto
  show thesis by (rule that [OF c dep_cycle_mono [OF cyc kahn_residual_facts(2) [OF assms(1)]]])
qed

subsection \<open>The report does not depend on map order or on the choices of PopAny\<close>

lemma finite_dep_edges: "finite (dep_edges deps)"
proof (rule finite_subset)
  show "dep_edges deps \<subseteq> Sigma (set (map_keys deps)) (\<lambda>r. set (deps_of deps r))"
  proof clarify
    fix r d assume "(r, d) \<in> dep_edges deps"
    then have d: "d \<in> set (deps_of deps r)" by (simp add: dep_edges_def)
    then have "map_has deps r" by (cases "map_has deps r") (simp_all add: deps_of_def map_get_absent)
    with d show "r \<in> set (map_keys deps) \<and> d \<in> set (deps_of deps r)" by (simp add: map_has_iff_keys)
  qed
qed simp

lemma residual_set:
  assumes "distinct (map_keys deps)"
  shows "set (map_get [] (kahn_residual pick deps) k) =
         {d. (k, d) \<in> dep_edges deps \<and> d \<notin> Wellfounded.acc ((dep_edges deps)\<inverse>)}"
proof -
  define E where "E = dep_edges deps"
  define st where "st = kahn_loop pick (kahn_start deps)"
  obtain Q where inv: "kahn_inv E Q st" and fin: "k_ind st = []"
    using kahn_loop_inv [OF kahn_inv_start [OF assms], of pick] by (auto simp: E_def st_def)
  have "finite (E \<inter> Q \<times> UNIV)" using finite_dep_edges [of deps] by (simp add: E_def)
  then have wf: "wf ((E \<inter> Q \<times> UNIV)\<inverse>)"
    using kahn_invD(8) [OF inv] by (simp add: finite_acyclic_wf_converse)
  have "x \<in> Q \<longrightarrow> x \<in> Wellfounded.acc (E\<inverse>)" for x
    using wf
  proof (induction x rule: wf_induct_rule)
    case (less x)
    show ?case
    proof
      assume "x \<in> Q"
      show "x \<in> Wellfounded.acc (E\<inverse>)"
      proof (rule accI)
        fix y assume "(y, x) \<in> E\<inverse>"
        with \<open>x \<in> Q\<close> have "(y, x) \<in> (E \<inter> Q \<times> UNIV)\<inverse>" "y \<in> Q" using kahn_invD(7) [OF inv] by auto
        with less show "y \<in> Wellfounded.acc (E\<inverse>)" by blast
      qed
    qed
  qed
  moreover have "x \<in> Wellfounded.acc (E\<inverse>) \<Longrightarrow> (r, x) \<in> E \<Longrightarrow> x \<in> Q" for x r
  proof (induction arbitrary: r rule: acc.induct)
    case (accI x)
    show ?case
    proof (rule ccontr)
      assume "x \<notin> Q"
      with kahn_invD(6) [OF inv accI.prems] fin obtain d where "(x, d) \<in> E" "d \<notin> Q" by auto
      with accI.IH show False by auto
    qed
  qed
  ultimately have "{d. (k, d) \<in> E} - Q = {d. (k, d) \<in> E \<and> d \<notin> Wellfounded.acc (E\<inverse>)}" by blast
  with kahn_invD(1) [OF inv, of k] show ?thesis
    by (simp add: dset_def E_def st_def kahn_residual_def)
qed

lemma walk_deps_cong:
  assumes "\<And>k. set (map_get [] dag k) = set (map_get [] dag' k)"
  shows "walk_deps dag path ds vis = walk_deps dag' path ds vis"
  using assms
proof (induction dag path ds vis rule: walk_deps.induct)
  case (1 dag path vis)
  then show ?case by simp
next
  case (2 dag path d ds vis)
  have eq: "sets_List (map_get [] dag d) = sets_List (map_get [] dag' d)"
    using "2.prems" by (rule sets_List_cong)
  show ?case
  proof (cases "d \<in> set path \<or> d \<in> set vis")
    case True
    with 2 show ?thesis by auto
  next
    case False
    obtain c w where r: "walk_deps dag (path @ [d]) (sets_List (map_get [] dag d)) (d # vis) = (c, w)"
      by fastforce
    have r': "walk_deps dag' (path @ [d]) (sets_List (map_get [] dag' d)) (d # vis) = (c, w)"
      using "2.IH"(2) "2.prems" False r by (simp add: eq)
    have "c = None \<Longrightarrow> walk_deps dag path ds w = walk_deps dag' path ds w"
      using "2.IH"(3) [OF _ _ r [symmetric]] "2.prems" False by blast
    with r r' False show ?thesis by (cases c) simp_all
  qed
qed

lemma first_chain_cong:
  "(\<And>k. set (map_get [] dag k) = set (map_get [] dag' k)) \<Longrightarrow> first_chain dag ss = first_chain dag' ss"
  by (induction ss)
    (simp_all only: first_chain.simps walk_deps_cong [of dag dag'] split: option.split)

text \<open>A map built by \<open>map_put\<close> and \<open>map_del\<close> keeps each key once.\<close>

lemma distinct_kahn_child:
  "distinct (map_keys (k_dag st)) \<Longrightarrow> distinct (map_keys (k_dag (kahn_child p c st)))"
  by (simp add: kahn_child_def Let_def distinct_keys_put distinct_keys_del)

lemma distinct_kahn_children:
  "distinct (map_keys (k_dag st)) \<Longrightarrow> distinct (map_keys (k_dag (kahn_children pick p cs st)))"
proof (induction pick p cs st rule: kahn_children.induct)
  case (1 pick p cs st)
  then show ?case
    by (cases "cs = []") (auto simp: kahn_children.simps [of pick p cs] distinct_kahn_child split: prod.splits)
qed

lemma distinct_kahn_loop:
  "distinct (map_keys (k_dag st)) \<Longrightarrow> distinct (map_keys (k_dag (kahn_loop pick st)))"
proof (induction pick st rule: kahn_loop.induct)
  case (1 pick st)
  have [simp]: "k_dag (kahn_clear p (st\<lparr>k_ind := ind'\<rparr>)) = k_dag st" for p ind'
    by (simp add: kahn_clear_def)
  from 1 show ?case
    by (cases "k_ind st = []")
      (auto simp: kahn_loop.simps [of pick st] distinct_kahn_children split: prod.splits)
qed

lemma distinct_kahn_init:
  "distinct (map_keys (k_dag st)) \<Longrightarrow> distinct (map_keys (k_dag (kahn_init deps rest st)))"
  by (induction deps rest st rule: kahn_init.induct) (simp_all add: fold_kahn_add_dep distinct_keys_put)

lemma distinct_residual: "distinct (map_keys (kahn_residual pick deps))"
  unfolding kahn_residual_def kahn_start_def
  by (intro distinct_kahn_loop distinct_kahn_init) (simp add: map_keys_def)

lemma findCycles_deterministic:
  assumes "distinct (map_keys deps)" "distinct (map_keys deps')" "dep_edges deps = dep_edges deps'"
  shows "findCyclesInDependencies pick deps = findCyclesInDependencies pick' deps'"
proof -
  define d1 where "d1 = kahn_residual pick deps"
  define d2 where "d2 = kahn_residual pick' deps'"
  have same: "set (map_get [] d1 k) = set (map_get [] d2 k)" for k
    using residual_set [OF assms(1), of pick k] residual_set [OF assms(2), of pick' k] assms(3)
    by (simp add: d1_def d2_def)
  have blk: "blocked d1" "blocked d2"
    using kahn_residual_facts(1) assms by (simp_all add: d1_def d2_def)
  have has: "map_has d1 k = map_has d2 k" for k
    using same [of k] blk map_get_absent [of d1 k "[]"] map_get_absent [of d2 k "[]"]
    unfolding blocked_def by (metis set_empty)
  then have nil: "d1 = [] \<longleftrightarrow> d2 = []" by (simp add: map_empty_iff)
  have "sort (map_keys d1) = sort (map_keys d2)"
    using has distinct_residual
    by (intro sorted_distinct_set_unique) (auto simp: map_has_iff_keys d1_def d2_def)
  then have chain: "findCycleChain d1 = findCycleChain d2"
    by (simp add: findCycleChain_def first_chain_cong [OF same])
  have "getInterdependencyError d1 = getInterdependencyError d2"
  proof (cases "d1 = []")
    case True
    with nil show ?thesis by simp
  next
    case False
    from findCycleChain_blocked [OF blk(1) False] obtain c where
      c: "findCycleChain d1 = Some c" "dep_cycle (map_get [] d1) c" .
    then have "c \<noteq> []" by (auto simp: dep_cycle_def)
    with c False nil chain show ?thesis by (cases c) (auto simp: getInterdependencyError_def)
  qed
  then show ?thesis by (simp add: findCyclesInDependencies_def d1_def d2_def)
qed

section \<open>Properties\<close>

text \<open>C12: Cycle detection is exact: on the dependency map of a Go map (no key twice) it reports nothing
  if and only if the dependency relation is acyclic, and what it reports is a closed chain
  of dependencies of the map.\<close>

theorem dag_cycle_detection:
  assumes "distinct (map_keys deps)"
  shows "case findCyclesInDependencies pick deps of
           None \<Rightarrow> acyclic (dep_edges deps)
         | Some rep \<Rightarrow> \<not> acyclic (dep_edges deps) \<and>
             (\<exists>chain. rep = CyclePath chain \<and> dep_cycle (deps_of deps) chain)"
proof (cases "findCyclesInDependencies pick deps")
  case None
  then show ?thesis using findCycles_iff [OF assms] by simp
next
  case (Some rep)
  then show ?thesis using findCycles_iff [OF assms, of pick] findCycles_chain [OF assms Some] by force
qed

theorem dag_cycle_detection_witness:
  "distinct (map_keys [(''b'', [''a'']), (''a'', [''b''])]) \<and>
   findCyclesInDependencies (\<lambda>_. 0) [(''b'', [''a'']), (''a'', [''b''])] = Some (CyclePath [''a'', ''b'', ''a'']) \<and>
   \<not> acyclic (dep_edges [(''b'', [''a'']), (''a'', [''b''])])"
proof -
  have d: "distinct (map_keys [(''b'', [''a'']), (''a'', [''b''])])" by (simp add: map_keys_def)
  have f: "findCyclesInDependencies (\<lambda>_. 0) [(''b'', [''a'']), (''a'', [''b''])] = Some (CyclePath [''a'', ''b'', ''a''])"
    by code_simp
  from dag_cycle_detection [OF d, of "\<lambda>_. 0"] show ?thesis using d unfolding f by simp
qed

text \<open>The report is deterministic: it depends neither on the order in which the maps are iterated nor on
  the elements \<open>PopAny\<close> picks, only on the dependencies themselves.\<close>

theorem dag_report_deterministic:
  assumes "distinct (map_keys deps)" "distinct (map_keys deps')" "dep_edges deps = dep_edges deps'"
  shows "findCyclesInDependencies pick deps = findCyclesInDependencies pick' deps'"
  by (rule findCycles_deterministic [OF assms])

theorem dag_report_deterministic_witness:
  "findCyclesInDependencies (\<lambda>_. 0) [(''b'', [''a'', ''c'']), (''a'', [''b''])] =
   findCyclesInDependencies (\<lambda>_. 1) [(''a'', [''b'']), (''b'', [''c'', ''a''])]"
proof (rule dag_report_deterministic)
  have "deps_of [(''b'', [''a'', ''c'']), (''a'', [''b''])] r =
      (if r = ''b'' then [''a'', ''c''] else if r = ''a'' then [''b''] else [])" for r
    by (simp add: deps_of_def map_get_def)
  moreover have "deps_of [(''a'', [''b'']), (''b'', [''c'', ''a''])] r =
      (if r = ''b'' then [''c'', ''a''] else if r = ''a'' then [''b''] else [])" for r
    by (simp add: deps_of_def map_get_def)
  ultimately show "dep_edges [(''b'', [''a'', ''c'']), (''a'', [''b''])] = dep_edges [(''a'', [''b'']), (''b'', [''c'', ''a''])]"
    by (auto simp: dep_edges_def)
qed (simp_all add: map_keys_def)

end
