(* ===== verification/Dag_Sched.thy ===== *)
theory Dag_Sched
  imports Dag
begin

text \<open>
  Package \<open>pkg/dag\<close>, second part: what \<open>Build\<close> constructs, the scheduling query
  \<open>GetCandidateDagObjects\<close> with its depth-first search \<open>findSchedulable\<close>.
\<close>

subsection \<open>What Build constructs\<close>

abbreviation has_node :: "graph \<Rightarrow> string \<Rightarrow> bool" where
  "has_node g k \<equiv> map_has (g_nodes g) k"

lemma node_at_absent: "\<not> has_node g k \<Longrightarrow> node_at g k = no_node"
  by (simp add: node_at_def map_get_absent)

lemma addDagObject_graph:
  "addDagObject k g = Some g' \<Longrightarrow>
   \<not> has_node g k \<and> has_node g' x = (x = k \<or> has_node g x) \<and> prevs g' x = prevs g x \<and> nexts g' x = nexts g x"
  by (auto simp: addDagObject_def prevs_def nexts_def node_at_def no_node_def map_get_absent split: if_splits)

lemma link_graph:
  "has_node (linkDagObjects p n g) x = (x = p \<or> x = n \<or> has_node g x)"
  "prevs (linkDagObjects p n g) x = (if x = n then prevs g x @ [p] else prevs g x)"
  "nexts (linkDagObjects p n g) x = (if x = p then nexts g x @ [n] else nexts g x)"
  by (auto simp: linkDagObjects_def upd_node_def prevs_def nexts_def node_at_def)

lemma distinct_link:
  "distinct (map_keys (g_nodes g)) \<Longrightarrow> distinct (map_keys (g_nodes (linkDagObjects p n g)))"
  by (simp add: linkDagObjects_def upd_node_def distinct_keys_put)

lemma add_objects_Inr:
  "add_objects ks g = Inr g' \<Longrightarrow>
   distinct ks \<and> (\<forall>k \<in> set ks. \<not> has_node g k) \<and> (\<forall>x. has_node g' x = (x \<in> set ks \<or> has_node g x)) \<and>
   (\<forall>x. prevs g' x = prevs g x) \<and> (\<forall>x. nexts g' x = nexts g x)"
proof (induction ks arbitrary: g)
  case (Cons k ks)
  from Cons.prems obtain g1 where g1: "addDagObject k g = Some g1" "add_objects ks g1 = Inr g'"
    by (auto split: option.splits)
  from Cons.IH [OF g1(2)] addDagObject_graph [OF g1(1)] show ?case by auto
qed simp

lemma add_objects_keys_distinct:
  "add_objects ks g = Inr g' \<Longrightarrow> distinct (map_keys (g_nodes g)) \<Longrightarrow> distinct (map_keys (g_nodes g'))"
  by (induction ks arbitrary: g)
    (auto simp: addDagObject_def distinct_keys_put split: option.splits if_splits)

lemma add_objects_exists:
  "distinct ks \<Longrightarrow> \<forall>k \<in> set ks. \<not> has_node g k \<Longrightarrow> \<exists>g'. add_objects ks g = Inr g'"
proof (induction ks arbitrary: g)
  case (Cons k ks)
  then obtain g1 where g1: "addDagObject k g = Some g1" by (auto simp: addDagObject_def)
  have "\<forall>x \<in> set ks. \<not> has_node g1 x" using Cons.prems addDagObject_graph [OF g1] by auto
  with Cons.IH [of g1] Cons.prems g1 show ?case by simp
qed simp

lemma add_objects_Inl:
  "add_objects ks g = Inl e \<Longrightarrow> \<exists>k \<in> set ks. e = DuplicateObject k"
  by (induction ks arbitrary: g) (auto split: option.splits)

lemma add_links_of_Inr:
  "add_links_of r ds g = Inr g' \<Longrightarrow>
   (ds = [] \<or> has_node g r) \<and> (\<forall>d \<in> set ds. has_node g d) \<and> (\<forall>x. has_node g' x = has_node g x) \<and>
   (\<forall>x. prevs g' x = (if x = r then prevs g x @ ds else prevs g x)) \<and>
   (\<forall>x. set (nexts g' x) = set (nexts g x) \<union> (if x \<in> set ds then {r} else {})) \<and>
   (distinct (map_keys (g_nodes g)) \<longrightarrow> distinct (map_keys (g_nodes g')))"
proof (induction ds arbitrary: g)
  case (Cons d ds)
  from Cons.prems obtain g1 where g1: "addLink r d g = Inr g1" "add_links_of r ds g1 = Inr g'"
    by (auto split: sum.splits)
  then have h: "has_node g d" "has_node g r" "g1 = linkDagObjects d r g"
    by (auto simp: addLink_def split: if_splits)
  from Cons.IH [OF g1(2)] h show ?case by (auto simp: link_graph distinct_link)
qed simp

lemma add_links_of_exists:
  "ds = [] \<or> has_node g r \<Longrightarrow> \<forall>d \<in> set ds. has_node g d \<Longrightarrow> \<exists>g'. add_links_of r ds g = Inr g'"
  by (induction ds arbitrary: g) (auto simp: addLink_def link_graph)

lemma add_links_Inr:
  "add_links deps g = Inr g' \<Longrightarrow> distinct (map fst deps) \<Longrightarrow>
   (\<forall>r d. d \<in> set (map_get [] deps r) \<longrightarrow> has_node g r \<and> has_node g d) \<and>
   (\<forall>x. has_node g' x = has_node g x) \<and>
   (\<forall>x. prevs g' x = prevs g x @ map_get [] deps x) \<and>
   (\<forall>x. set (nexts g' x) = set (nexts g x) \<union> {r. x \<in> set (map_get [] deps r)}) \<and>
   (distinct (map_keys (g_nodes g)) \<longrightarrow> distinct (map_keys (g_nodes g')))"
proof (induction deps g rule: add_links.induct)
  case (1 g)
  then show ?case by simp
next
  case (2 r ds rest g)
  from 2(2) obtain g1 where g1: "add_links_of r ds g = Inr g1" "add_links rest g1 = Inr g'"
    by (auto split: sum.splits)
  have fresh: "map_get [] rest r = []" using 2(3) by (intro map_get_notin) auto
  have "distinct (map fst rest)" using 2(3) by simp
  note IH = 2(1) [OF g1(1,2) this] and one = add_links_of_Inr [OF g1(1)]
  show ?case
    unfolding range_Cons [OF fresh]
    using IH one fresh by (auto simp: map_get_Cons split: if_splits)
qed

lemma add_links_exists:
  "\<forall>(r, ds) \<in> set deps. (ds = [] \<or> has_node g r) \<and> (\<forall>d \<in> set ds. has_node g d) \<Longrightarrow>
   \<exists>g'. add_links deps g = Inr g'"
proof (induction deps g rule: add_links.induct)
  case (2 r ds rest g)
  then obtain g1 where g1: "add_links_of r ds g = Inr g1" using add_links_of_exists [of ds g r] by auto
  have "\<forall>(r, ds) \<in> set rest. (ds = [] \<or> has_node g1 r) \<and> (\<forall>d \<in> set ds. has_node g1 d)"
    using 2(2) add_links_of_Inr [OF g1] by auto
  with 2(1) [OF g1] g1 show ?case by auto
qed simp

lemma new_graph [simp]: "\<not> has_node newGraph k" "prevs newGraph k = []" "nexts newGraph k = []"
  by (simp_all add: newGraph_def prevs_def nexts_def node_at_def no_node_def)

lemma Build_Inr:
  assumes dist: "distinct (map_keys deps)" and ok: "Build pick objs deps = Inr g"
  shows "distinct objs" and "acyclic (dep_edges deps)"
    and "has_node g k \<longleftrightarrow> k \<in> set objs"
    and "prevs g k = deps_of deps k"
    and "set (nexts g k) = {r. k \<in> set (deps_of deps r)}"
    and "d \<in> set (deps_of deps r) \<Longrightarrow> r \<in> set objs \<and> d \<in> set objs"
    and "distinct (map_keys (g_nodes g))"
proof -
  from ok obtain g0 where g0: "add_objects objs newGraph = Inr g0"
    and nc: "findCyclesInDependencies pick deps = None" and g: "add_links deps g0 = Inr g"
    by (auto simp: Build_def split: sum.splits option.splits)
  note objs = add_objects_Inr [OF g0]
  have d: "distinct (map fst deps)" using dist by (simp add: map_keys_def)
  note links = add_links_Inr [OF g d]
  show "distinct objs" using objs by simp
  show "acyclic (dep_edges deps)" using nc findCycles_iff [OF dist] by simp
  show "has_node g k \<longleftrightarrow> k \<in> set objs" "prevs g k = deps_of deps k"
    "set (nexts g k) = {r. k \<in> set (deps_of deps r)}"
    using objs links by (simp_all add: deps_of_def)
  show "d \<in> set (deps_of deps r) \<Longrightarrow> r \<in> set objs \<and> d \<in> set objs"
    using objs links by (simp add: deps_of_def)
  have "distinct (map_keys (g_nodes g0))"
    by (rule add_objects_keys_distinct [OF g0]) (simp add: newGraph_def map_keys_def)
  then show "distinct (map_keys (g_nodes g))" using links by simp
qed

lemma Build_exists:
  assumes dist: "distinct (map_keys deps)" and objs: "distinct objs" and ac: "acyclic (dep_edges deps)"
    and inn: "\<And>r d. d \<in> set (deps_of deps r) \<Longrightarrow> r \<in> set objs \<and> d \<in> set objs"
  shows "\<exists>g. Build pick objs deps = Inr g"
proof -
  obtain g0 where g0: "add_objects objs newGraph = Inr g0" using add_objects_exists [OF objs, of newGraph] by auto
  have "\<forall>(r, ds) \<in> set deps. (ds = [] \<or> has_node g0 r) \<and> (\<forall>d \<in> set ds. has_node g0 d)"
  proof clarify
    fix r ds assume rds: "(r, ds) \<in> set deps"
    with dist have "deps_of deps r = ds"
      by (simp add: deps_of_def map_keys_def map_get_Some [OF map_of_is_SomeI])
    with inn [of _ r] add_objects_Inr [OF g0]
    show "(ds = [] \<or> has_node g0 r) \<and> (\<forall>d \<in> set ds. has_node g0 d)" by (cases ds) auto
  qed
  from add_links_exists [OF this] g0 findCycles_iff [OF dist, of pick] ac
  show ?thesis by (auto simp: Build_def)
qed

subsection \<open>The scheduling query\<close>

definition getRoots :: "graph \<Rightarrow> string list" where
  "getRoots g = filter (\<lambda>k. prevs g k = []) (map_keys (g_nodes g))"

definition isSchedulable :: "string list \<Rightarrow> string list \<Rightarrow> bool" where
  "isSchedulable dn ps = (if ps = [] then True else length (filter (\<lambda>k. k \<in> set dn) ps) = length ps)"

lemma isSchedulable_iff: "isSchedulable dn ps \<longleftrightarrow> set ps \<subseteq> set dn"
  by (auto simp: isSchedulable_def length_filter_all)

text \<open>
  \<open>findSchedulable(n)\<close> is \<open>find_sched g dn [n] visited\<close>; the loop over the successors
  is the list argument.  The visited set is shared by reference in the code.
\<close>

definition g_unvisited :: "graph \<Rightarrow> string list \<Rightarrow> string set" where
  "g_unvisited g vis = set (map_keys (g_nodes g)) - set vis"

function find_sched ::
  "graph \<Rightarrow> string list \<Rightarrow> string list \<Rightarrow> string list \<Rightarrow> string list \<times> string list"
where
  "find_sched g dn [] vis = ([], vis)"
| "find_sched g dn (n # ns) vis =
     (if n \<in> set vis then find_sched g dn ns vis
      else if n \<in> set dn then
        (case find_sched g dn (nexts g n) (n # vis) of
           (s1, v1) \<Rightarrow> (case find_sched g dn ns v1 of (s2, v2) \<Rightarrow> (s1 @ s2, v2)))
      else (case find_sched g dn ns (n # vis) of
           (s2, v2) \<Rightarrow> ((if isSchedulable dn (prevs g n) then [n] else []) @ s2, v2)))"
  by pat_completeness auto

lemma find_sched_dom_visited:
  "find_sched_dom (g, dn, ns, vis) \<Longrightarrow> set vis \<subseteq> set (snd (find_sched g dn ns vis))"
proof (induction rule: find_sched.pinduct)
  case (1 g dn vis)
  then show ?case by (simp add: find_sched.psimps)
next
  case (2 g dn n ns vis)
  show ?case
  proof (cases "n \<in> set vis \<or> n \<notin> set dn")
    case True
    with 2 show ?thesis by (auto simp: find_sched.psimps split: prod.splits)
  next
    case False
    obtain s1 v1 where r: "find_sched g dn (nexts g n) (n # vis) = (s1, v1)" by fastforce
    with 2(3) False have "set (n # vis) \<subseteq> set v1" by simp
    moreover have "set v1 \<subseteq> set (snd (find_sched g dn ns v1))" using 2(4) r False by simp
    ultimately show ?thesis
      using 2(1) r False by (auto simp: find_sched.psimps split: prod.splits)
  qed
qed

lemma g_unvisited_mono: "set vis \<subseteq> set vis' \<Longrightarrow> card (g_unvisited g vis') \<le> card (g_unvisited g vis)"
  by (rule card_mono) (auto simp: g_unvisited_def)

lemma g_unvisited_visit:
  "has_node g n \<Longrightarrow> n \<notin> set vis \<Longrightarrow> card (g_unvisited g (n # vis)) < card (g_unvisited g vis)"
  by (rule psubset_card_mono) (auto simp: g_unvisited_def map_has_iff_keys)

termination find_sched
proof (relation "measures [\<lambda>(g, dn, ns, vis). card (g_unvisited g vis), \<lambda>(g, dn, ns, vis). length ns]",
    goal_cases)
  case 1
  then show ?case by simp
next
  case (2 g dn n ns vis)
  then show ?case by simp
next
  case (3 g dn n ns vis)
  show ?case
  proof (cases "has_node g n")
    case True
    with 3 g_unvisited_visit [of g n vis] show ?thesis by simp
  next
    case False
    have "card (g_unvisited g (n # vis)) \<le> card (g_unvisited g vis)" by (rule g_unvisited_mono) auto
    moreover have "nexts g n = []" using False by (simp add: nexts_def node_at_absent no_node_def)
    ultimately show ?thesis by auto
  qed
next
  case (4 g dn n ns vis s1 v1)
  have "set (n # vis) \<subseteq> set v1"
    using find_sched_dom_visited [OF 4(4)] 4(3) by (metis snd_conv)
  then have "card (g_unvisited g v1) \<le> card (g_unvisited g vis)"
    by (intro g_unvisited_mono) auto
  then show ?case by auto
next
  case (5 g dn n ns vis)
  have "card (g_unvisited g (n # vis)) \<le> card (g_unvisited g vis)" by (rule g_unvisited_mono) auto
  then show ?case by auto
qed

fun sched_roots ::
  "graph \<Rightarrow> string list \<Rightarrow> string list \<Rightarrow> string list \<Rightarrow> string list \<Rightarrow> string list \<times> string list"
where
  "sched_roots g dn [] vis acc = (acc, vis)"
| "sched_roots g dn (r # rs) vis acc =
     (case find_sched g dn [r] vis of (s, v) \<Rightarrow> sched_roots g dn rs v (fold set_insert s acc))"

definition DiffLeft :: "string list \<Rightarrow> string list \<Rightarrow> string list" where
  "DiffLeft left right = filter (\<lambda>s. s \<notin> set right) left"

text \<open>The error carries the completed keys that the search did not reach.\<close>

definition GetCandidateDagObjects :: "graph \<Rightarrow> string list \<Rightarrow> string list + string list" where
  "GetCandidateDagObjects g dn =
     (case sched_roots g dn (getRoots g) [] [] of
        (d, vis) \<Rightarrow>
          (let notVisited = DiffLeft dn vis in
           if notVisited \<noteq> [] then Inl notVisited else Inr d))"

subsection \<open>What the search visits\<close>

definition done_edges :: "graph \<Rightarrow> string list \<Rightarrow> (string \<times> string) set" where
  "done_edges g dn = {(m, n). m \<in> set dn \<and> n \<in> set (nexts g m)}"

definition sched_post :: "graph \<Rightarrow> string list \<Rightarrow> string list \<Rightarrow> string list \<Rightarrow> string list \<Rightarrow> string list \<Rightarrow> bool" where
  "sched_post g dn ns vis s v =
     (set vis \<union> set ns \<subseteq> set v \<and>
      (\<forall>m \<in> set v - set vis. m \<in> set dn \<longrightarrow> set (nexts g m) \<subseteq> set v) \<and>
      set v \<subseteq> set vis \<union> (done_edges g dn)\<^sup>* `` set ns \<and>
      set s = {n \<in> set v - set vis. n \<notin> set dn \<and> set (prevs g n) \<subseteq> set dn})"

lemma sched_postD:
  assumes "sched_post g dn ns vis s v"
  shows "set vis \<subseteq> set v" and "set ns \<subseteq> set v"
    and "m \<in> set v \<Longrightarrow> m \<notin> set vis \<Longrightarrow> m \<in> set dn \<Longrightarrow> set (nexts g m) \<subseteq> set v"
    and "set v \<subseteq> set vis \<union> (done_edges g dn)\<^sup>* `` set ns"
    and "set s = {n \<in> set v - set vis. n \<notin> set dn \<and> set (prevs g n) \<subseteq> set dn}"
  using assms unfolding sched_post_def by (blast, blast, blast, blast, simp)

lemma sched_postI:
  assumes "set vis \<union> set ns \<subseteq> set v"
    and "\<And>m. m \<in> set v \<Longrightarrow> m \<notin> set vis \<Longrightarrow> m \<in> set dn \<Longrightarrow> set (nexts g m) \<subseteq> set v"
    and "set v \<subseteq> set vis \<union> (done_edges g dn)\<^sup>* `` set ns"
    and "set s = {n \<in> set v - set vis. n \<notin> set dn \<and> set (prevs g n) \<subseteq> set dn}"
  shows "sched_post g dn ns vis s v"
  using assms unfolding sched_post_def by blast

lemma sched_post_done:
  assumes "n \<notin> set vis" "n \<in> set dn"
    and one: "sched_post g dn (nexts g n) (n # vis) s1 v1" and two: "sched_post g dn ns v1 s2 v2"
  shows "sched_post g dn (n # ns) vis (s1 @ s2) v2"
proof -
  have "(done_edges g dn)\<^sup>* `` set (nexts g n) \<subseteq> (done_edges g dn)\<^sup>* `` {n}"
    using assms(2) by (auto simp: done_edges_def intro: converse_rtrancl_into_rtrancl)
  then have reach: "set v2 \<subseteq> set vis \<union> (done_edges g dn)\<^sup>* `` set (n # ns)"
    using sched_postD(4) [OF one] sched_postD(4) [OF two] by fastforce
  have incl: "set vis \<union> set (n # ns) \<subseteq> set v2" "set (nexts g n) \<subseteq> set v1" "set v1 \<subseteq> set v2"
    "set (n # vis) \<subseteq> set v1"
    using sched_postD(1,2) [OF one] sched_postD(1,2) [OF two] by auto
  show ?thesis
  proof (rule sched_postI [OF incl(1) _ reach])
    fix m assume m: "m \<in> set v2" "m \<notin> set vis" "m \<in> set dn"
    consider "m = n" | "m \<in> set v1" "m \<notin> set (n # vis)" | "m \<notin> set v1" using m by auto
    then show "set (nexts g m) \<subseteq> set v2"
    proof cases
      case 1
      with incl show ?thesis by blast
    next
      case 2
      with sched_postD(3) [OF one] m(3) incl(3) show ?thesis by blast
    next
      case 3
      with sched_postD(3) [OF two m(1)] m(3) show ?thesis by blast
    qed
  next
    show "set (s1 @ s2) = {n \<in> set v2 - set vis. n \<notin> set dn \<and> set (prevs g n) \<subseteq> set dn}"
      using sched_postD(5) [OF one] sched_postD(5) [OF two] incl assms(1,2) by auto
  qed
qed

lemma sched_post_pending:
  assumes "n \<notin> set vis" "n \<notin> set dn" and rest: "sched_post g dn ns (n # vis) s v"
  shows "sched_post g dn (n # ns) vis ((if isSchedulable dn (prevs g n) then [n] else []) @ s) v"
  using assms by (auto simp: sched_post_def isSchedulable_iff)

lemma find_sched_post:
  "find_sched g dn ns vis = (s, v) \<Longrightarrow> sched_post g dn ns vis s v"
proof (induction g dn ns vis arbitrary: s v rule: find_sched.induct)
  case (1 g dn vis)
  then show ?case by (simp add: sched_post_def)
next
  case (2 g dn n ns vis)
  consider "n \<in> set vis" | "n \<notin> set vis" "n \<in> set dn" | "n \<notin> set vis" "n \<notin> set dn" by blast
  then show ?case
  proof cases
    case 1
    with 2 have "sched_post g dn ns vis s v" by simp
    with 1 show ?thesis by (auto simp: sched_post_def)
  next
    case 2
    obtain s1 v1 where r1: "find_sched g dn (nexts g n) (n # vis) = (s1, v1)" by fastforce
    obtain s2 v2 where r2: "find_sched g dn ns v1 = (s2, v2)" by fastforce
    have "s = s1 @ s2" "v = v2" using "2.prems" 2 r1 r2 by simp_all
    with sched_post_done [OF 2 "2.IH"(2) [OF 2 r1] "2.IH"(3) [OF 2 r1 [symmetric] r2]]
    show ?thesis by simp
  next
    case 3
    obtain s2 v2 where r2: "find_sched g dn ns (n # vis) = (s2, v2)" by fastforce
    have eq: "s = (if isSchedulable dn (prevs g n) then [n] else []) @ s2" "v = v2"
      using "2.prems" 3 r2 by simp_all
    show ?thesis unfolding eq by (rule sched_post_pending [OF 3 "2.IH"(4) [OF 3 r2]])
  qed
qed

lemma sched_post_chain:
  assumes "sched_post g dn ns vis s v" "sched_post g dn ns' v s' v'"
  shows "sched_post g dn (ns @ ns') vis (s @ s') v'"
proof (rule sched_postI)
  note one = sched_postD [OF assms(1)] and two = sched_postD [OF assms(2)]
  show "set vis \<union> set (ns @ ns') \<subseteq> set v'" using one(1,2) two(1,2) by auto
  show "set v' \<subseteq> set vis \<union> (done_edges g dn)\<^sup>* `` set (ns @ ns')" using one(4) two(4) by fastforce
  show "set (s @ s') = {n \<in> set v' - set vis. n \<notin> set dn \<and> set (prevs g n) \<subseteq> set dn}"
    using one(1,5) two(1,5) by auto
  fix m assume m: "m \<in> set v'" "m \<notin> set vis" "m \<in> set dn"
  show "set (nexts g m) \<subseteq> set v'"
  proof (cases "m \<in> set v")
    case True
    with one(3) [OF True m(2,3)] two(1) show ?thesis by blast
  next
    case False
    with two(3) m show ?thesis by blast
  qed
qed

lemma sched_roots_post:
  "sched_roots g dn rs vis acc = (d, v) \<Longrightarrow>
   \<exists>s. sched_post g dn rs vis s v \<and> set d = set acc \<union> set s"
proof (induction rs arbitrary: vis acc)
  case Nil
  then show ?case by (auto simp: sched_post_def intro: exI [of _ "[]"])
next
  case (Cons r rs)
  obtain s1 v1 where r1: "find_sched g dn [r] vis = (s1, v1)" by fastforce
  with Cons.prems have "sched_roots g dn rs v1 (fold set_insert s1 acc) = (d, v)" by simp
  from Cons.IH [OF this] obtain s where s: "sched_post g dn rs v1 s v" "set d = set acc \<union> set s1 \<union> set s"
    by auto
  with sched_post_chain [OF find_sched_post [OF r1] s(1)] show ?case
    by (intro exI [of _ "s1 @ s"]) auto
qed

text \<open>The nodes the query looks at: those reachable from a root through completed nodes.\<close>

definition done_reach :: "graph \<Rightarrow> string list \<Rightarrow> string set" where
  "done_reach g dn = (done_edges g dn)\<^sup>* `` set (getRoots g)"

lemma closed_reach:
  assumes "R \<subseteq> V" and "\<And>m n. m \<in> V \<Longrightarrow> (m, n) \<in> E \<Longrightarrow> n \<in> V"
  shows "E\<^sup>* `` R \<subseteq> V"
proof clarify
  fix r x assume "(r, x) \<in> E\<^sup>*" "r \<in> R"
  then show "x \<in> V" by (induction rule: rtrancl_induct) (use assms in auto)
qed

lemma sched_roots_reach:
  assumes "sched_roots g dn (getRoots g) [] [] = (d, v)"
  shows "set v = done_reach g dn"
    and "set d = {n \<in> done_reach g dn. n \<notin> set dn \<and> set (prevs g n) \<subseteq> set dn}"
proof -
  from sched_roots_post [OF assms] obtain s where
    post: "sched_post g dn (getRoots g) [] s v" and d: "set d = set s" by auto
  have "(done_edges g dn)\<^sup>* `` set (getRoots g) \<subseteq> set v"
    by (rule closed_reach) (use post in \<open>auto simp: sched_post_def done_edges_def\<close>)
  with post show v: "set v = done_reach g dn" by (auto simp: sched_post_def done_reach_def)
  with post d show "set d = {n \<in> done_reach g dn. n \<notin> set dn \<and> set (prevs g n) \<subseteq> set dn}"
    by (auto simp: sched_post_def)
qed

lemma GetCandidate_spec:
  "GetCandidateDagObjects g dn =
     (if set dn \<subseteq> done_reach g dn
      then Inr (fst (sched_roots g dn (getRoots g) [] []))
      else Inl (filter (\<lambda>k. k \<notin> done_reach g dn) dn))"
proof -
  obtain d v where r: "sched_roots g dn (getRoots g) [] [] = (d, v)" by fastforce
  note v = sched_roots_reach(1) [OF r]
  have "DiffLeft dn v = filter (\<lambda>k. k \<notin> done_reach g dn) dn" by (simp add: DiffLeft_def v)
  then show ?thesis by (auto simp: GetCandidateDagObjects_def r filter_empty_conv)
qed

lemma distinct_fold_set_insert [simp]: "distinct acc \<Longrightarrow> distinct (fold set_insert s acc)"
  by (induction s arbitrary: acc) auto

lemma distinct_sched_roots: "distinct acc \<Longrightarrow> distinct (fst (sched_roots g dn rs vis acc))"
  by (induction rs arbitrary: vis acc) (auto split: prod.splits)

subsection \<open>Built graphs are dependency graphs\<close>

text \<open>
  The nodes and dependencies of a successful \<open>Build\<close>, as the sets the planner
  interface speaks of; a failed build, or a list that repeats a key (no Go map
  does), gives the empty graph.
\<close>

definition built :: "(string list \<Rightarrow> nat) \<Rightarrow> string list \<Rightarrow> string list gomap \<Rightarrow> graph" where
  "built pick objs deps =
     (if distinct (map_keys deps)
      then (case Build pick objs deps of Inl e \<Rightarrow> newGraph | Inr g \<Rightarrow> g) else newGraph)"

definition built_nodes :: "(string list \<Rightarrow> nat) \<Rightarrow> string list \<Rightarrow> string list gomap \<Rightarrow> string set" where
  "built_nodes pick objs deps = {k. has_node (built pick objs deps) k}"

definition built_deps :: "(string list \<Rightarrow> nat) \<Rightarrow> string list \<Rightarrow> string list gomap \<Rightarrow> string \<Rightarrow> string set" where
  "built_deps pick objs deps k = set (prevs (built pick objs deps) k)"

lemma built_cases:
  obtains (empty) "built pick objs deps = newGraph"
  | (graph) g where "distinct (map_keys deps)" "Build pick objs deps = Inr g" "built pick objs deps = g"
  by (cases "distinct (map_keys deps)"; cases "Build pick objs deps") (auto simp: built_def)

interpretation built: dep_graph "built_nodes pick objs deps" "built_deps pick objs deps"
  for pick objs deps
proof
  show "finite (built_nodes pick objs deps)"
    by (simp add: built_nodes_def map_has_iff_keys)
next
  fix n assume "n \<in> built_nodes pick objs deps"
  show "built_deps pick objs deps n \<subseteq> built_nodes pick objs deps"
  proof (cases rule: built_cases [of pick objs deps])
    case empty
    then show ?thesis by (simp add: built_deps_def)
  next
    case (graph g)
    then show ?thesis
      by (auto simp: built_deps_def built_nodes_def Build_Inr(3,4) dest: Build_Inr(6))
  qed
next
  show "acyclic {(n, d). n \<in> built_nodes pick objs deps \<and> d \<in> built_deps pick objs deps n}"
  proof (cases rule: built_cases [of pick objs deps])
    case empty
    then show ?thesis by (simp add: built_nodes_def acyclic_def)
  next
    case (graph g)
    then have "{(n, d). n \<in> built_nodes pick objs deps \<and> d \<in> built_deps pick objs deps n} \<subseteq> dep_edges deps"
      by (auto simp: built_deps_def dep_edges_def Build_Inr(4))
    then show ?thesis by (rule acyclic_subset [OF Build_Inr(2) [OF graph(1,2)]])
  qed
qed

lemma built_graph:
  assumes "distinct (map_keys deps)" "Build pick objs deps = Inr g"
  shows "built pick objs deps = g" and "built_nodes pick objs deps = set objs"
    and "built_deps pick objs deps = (\<lambda>r. set (deps_of deps r))"
  using assms Build_Inr(3,4) [OF assms]
  by (auto simp: built_def built_nodes_def built_deps_def fun_eq_iff)

text \<open>
  For a completed set that is closed under dependencies the query fails never and
  returns exactly the nodes whose dependencies are all completed.
\<close>

lemma done_reach_node:
  assumes dist: "distinct (map_keys deps)" and ok: "Build pick objs deps = Inr g"
    and closed: "dep_closed (set objs) (\<lambda>r. set (deps_of deps r)) (set dn)"
  shows "n \<in> set objs \<Longrightarrow> set (deps_of deps n) \<subseteq> set dn \<Longrightarrow> n \<in> done_reach g dn"
proof (induction n rule: wf_induct_rule [OF built.wf_deps [of pick objs deps]])
  case (1 n)
  note b = Build_Inr [OF dist ok]
  show ?case
  proof (cases "deps_of deps n")
    case Nil
    then have "n \<in> set (getRoots g)" using 1 b(3,4) by (simp add: getRoots_def map_has_iff_keys)
    then show ?thesis by (auto simp: done_reach_def)
  next
    case (Cons d ds)
    then have d: "d \<in> set (deps_of deps n)" by simp
    then have dn: "d \<in> set dn" using 1 by auto
    then have "d \<in> done_reach g dn"
      using 1(1) [of d] 1(2) d closed built_graph [OF dist ok] by (auto simp: dep_closed_def)
    moreover have "(d, n) \<in> done_edges g dn" using dn d b(5) by (simp add: done_edges_def)
    ultimately show ?thesis unfolding done_reach_def by (auto intro: rtrancl_into_rtrancl)
  qed
qed

lemma done_reach_sub:
  assumes dist: "distinct (map_keys deps)" and ok: "Build pick objs deps = Inr g"
  shows "done_reach g dn \<subseteq> set objs"
  unfolding done_reach_def
proof (rule closed_reach)
  note b = Build_Inr [OF dist ok]
  show "set (getRoots g) \<subseteq> set objs" using b(3) by (auto simp: getRoots_def map_has_iff_keys)
  show "\<And>m n. m \<in> set objs \<Longrightarrow> (m, n) \<in> done_edges g dn \<Longrightarrow> n \<in> set objs"
    using b(5,6) by (auto simp: done_edges_def)
qed

lemma candidates_ready:
  assumes dist: "distinct (map_keys deps)" and ok: "Build pick objs deps = Inr g"
    and closed: "dep_closed (set objs) (\<lambda>r. set (deps_of deps r)) (set dn)"
  obtains c where "GetCandidateDagObjects g dn = Inr c" "distinct c"
    and "set c = ready (set objs) (\<lambda>r. set (deps_of deps r)) (set dn)"
proof -
  obtain d v where r: "sched_roots g dn (getRoots g) [] [] = (d, v)" by fastforce
  have "set dn \<subseteq> done_reach g dn"
    using done_reach_node [OF dist ok closed] closed by (auto simp: dep_closed_def)
  then have g: "GetCandidateDagObjects g dn = Inr d" by (simp add: GetCandidate_spec r)
  have "set d = ready (set objs) (\<lambda>r. set (deps_of deps r)) (set dn)"
    using sched_roots_reach(2) [OF r] done_reach_node [OF dist ok closed]
      subsetD [OF done_reach_sub [OF dist ok]]
    by (auto simp: ready_def Build_Inr(4) [OF dist ok])
  moreover have "distinct d" using distinct_sched_roots r by (metis distinct.simps(1) fst_conv)
  ultimately show thesis using that g by blast
qed

section \<open>Properties\<close>

text \<open>C13: Building the graph succeeds exactly for distinct objects, acyclic dependencies and references that
  all name objects, and then the predecessors of a node are its dependencies and the
  successors its dependents.\<close>

theorem dag_build_spec:
  assumes "distinct (map_keys deps)"
  shows "((\<exists>g. Build pick objs deps = Inr g) \<longleftrightarrow>
           distinct objs \<and> acyclic (dep_edges deps) \<and>
           (\<forall>r. \<forall>d \<in> set (deps_of deps r). r \<in> set objs \<and> d \<in> set objs)) \<and>
         (\<forall>g. Build pick objs deps = Inr g \<longrightarrow>
           (\<forall>k. (has_node g k \<longleftrightarrow> k \<in> set objs) \<and> prevs g k = deps_of deps k \<and>
                set (nexts g k) = {r. k \<in> set (deps_of deps r)}))"
proof (rule conjI)
  let ?ok = "distinct objs \<and> acyclic (dep_edges deps) \<and>
     (\<forall>r. \<forall>d \<in> set (deps_of deps r). r \<in> set objs \<and> d \<in> set objs)"
  have "?ok" if g: "Build pick objs deps = Inr g" for g
    using Build_Inr(1,2) [OF assms g] Build_Inr(6) [OF assms g] by simp
  moreover have "\<exists>g. Build pick objs deps = Inr g" if ?ok
    using that by (intro Build_exists [OF assms]) simp_all
  ultimately show "(\<exists>g. Build pick objs deps = Inr g) \<longleftrightarrow> ?ok" by blast
next
  show "\<forall>g. Build pick objs deps = Inr g \<longrightarrow> (\<forall>k. (has_node g k \<longleftrightarrow> k \<in> set objs) \<and>
     prevs g k = deps_of deps k \<and> set (nexts g k) = {r. k \<in> set (deps_of deps r)})"
    using Build_Inr(3,4,5) [OF assms] by simp
qed

theorem dag_build_spec_witness:
  "\<exists>g. Build (\<lambda>_. 0) [''a'', ''b''] [(''b'', [''a''])] = Inr g \<and> prevs g ''b'' = [''a''] \<and> ''b'' \<in> set (nexts g ''a'')"
proof -
  let ?B = "Build (\<lambda>_. 0) [''a'', ''b''] [(''b'', [''a''])]"
  have d: "distinct (map_keys [(''b'', [''a''])])" by (simp add: map_keys_def)
  have r: "deps_of [(''b'', [''a''])] ''b'' = [''a'']" by (simp add: deps_of_def map_get_def)
  have "\<not> isl ?B" by code_simp
  then obtain g where g: "?B = Inr g" by (cases ?B) auto
  with dag_build_spec [OF d, of "\<lambda>_. 0" "[''a'', ''b'']"]
  have "prevs g ''b'' = deps_of [(''b'', [''a''])] ''b''"
    "set (nexts g ''a'') = {r. ''a'' \<in> set (deps_of [(''b'', [''a''])] r)}" by blast+
  with g r show ?thesis by simp
qed

text \<open>Asked for candidates with a completed set that is closed under dependencies, the graph answers
  without error and returns, once each, exactly the nodes that are not completed and whose
  dependencies all are.\<close>

theorem dag_candidates_ready:
  assumes "distinct (map_keys deps)" "Build pick objs deps = Inr g"
    and "dep_closed (set objs) (\<lambda>r. set (deps_of deps r)) (set dn)"
  shows "\<exists>c. GetCandidateDagObjects g dn = Inr c \<and> distinct c \<and>
     set c = {n \<in> set objs. n \<notin> set dn \<and> set (deps_of deps n) \<subseteq> set dn}"
proof -
  from candidates_ready [OF assms] obtain c where "GetCandidateDagObjects g dn = Inr c" "distinct c"
    "set c = ready (set objs) (\<lambda>r. set (deps_of deps r)) (set dn)" .
  then show ?thesis by (auto simp: ready_def)
qed

theorem dag_candidates_ready_witness:
  "\<exists>g c. Build (\<lambda>_. 0) [''a'', ''b'', ''c''] [(''b'', [''a'']), (''c'', [''a'', ''b''])] = Inr g \<and>
     GetCandidateDagObjects g [''a''] = Inr c \<and> set c = {''b''}"
proof -
  let ?deps = "[(''b'', [''a'']), (''c'', [''a'', ''b''])]"
  have d: "distinct (map_keys ?deps)" by (simp add: map_keys_def)
  have r: "deps_of ?deps ''a'' = []" "deps_of ?deps ''b'' = [''a'']" "deps_of ?deps ''c'' = [''a'', ''b'']"
    by (simp_all add: deps_of_def map_get_def)
  have "\<not> isl (Build (\<lambda>_. 0) [''a'', ''b'', ''c''] ?deps)" by code_simp
  then obtain g where g: "Build (\<lambda>_. 0) [''a'', ''b'', ''c''] ?deps = Inr g"
    by (cases "Build (\<lambda>_. 0) [''a'', ''b'', ''c''] ?deps") auto
  have "dep_closed (set [''a'', ''b'', ''c'']) (\<lambda>r. set (deps_of ?deps r)) (set [''a''])"
    using r(1) by (simp add: dep_closed_def)
  from dag_candidates_ready [OF d g this] obtain c where c: "GetCandidateDagObjects g [''a''] = Inr c"
    "set c = {n \<in> set [''a'', ''b'', ''c'']. n \<notin> set [''a''] \<and> set (deps_of ?deps n) \<subseteq> set [''a'']}" by blast
  have "x \<in> set c \<longleftrightarrow> x = ''b''" for x
    unfolding c(2) mem_Collect_eq using r
    by (cases "x = ''a''"; cases "x = ''b''"; cases "x = ''c''") simp_all
  then have "set c = {''b''}" by blast
  then show ?thesis using g c(1) by blast
qed

end
