(* ===== verification/Resolver_Types.thy ===== *)
theory Resolver_Types
  imports Prelude
begin

text \<open>
  The data of package \<open>pkg/resolver\<close> (\<open>resolver.go\<close>, \<open>context.go\<close>) and of the parts of
  \<open>pkg/spec\<close> it embeds: values, value references, conditions, steps and resolvers.

  A Go value of type \<open>any\<close> is a \<open>gval\<close>; dynamic types the modelled code never
  inspects (floats, times, structs) are \<open>VOther\<close>.  A CEL expression and a Go
  template are their source strings; evaluating them is a parameter of the model.
\<close>

datatype gval =
    VNil
  | VBool bool
  | VInt int
  | VStr string
  | VList "gval list"
  | VMap "(string \<times> gval) list"
  | VOther nat

text \<open>\<open>spec.ValueRef\<close>: at most one of the pointer fields is set by its unmarshallers.\<close>

datatype value_ref =
    RefLiteral gval
  | RefResolver string
  | RefExpr string
  | RefTmpl string

text \<open>\<open>resolver.Condition\<close>: \<open>None\<close> is the nil \<open>Expr\<close>.\<close>

record condition =
  c_expr :: "string option"

datatype error_behavior = OnErrorUnset | OnErrorContinue | OnErrorFail | OnErrorOther string

record foreach_clause =
  fe_item :: string
  fe_index :: string
  fe_in :: "value_ref option"
  fe_concurrency :: int
  fe_keepSkipped :: bool
  fe_continueOnError :: "condition option"
  fe_onError :: error_behavior

record step_base =
  s_call :: string
  s_args :: "value_ref option gomap"
  s_provider :: string
  s_inputs :: "value_ref option gomap"
  s_when :: "condition option"

text \<open>\<open>ProviderSource\<close> and \<open>ProviderTransform\<close> have the same fields.\<close>

record provider_step = step_base +
  s_continueOnError :: "condition option"
  s_onError :: error_behavior
  s_forEach :: "foreach_clause option"

record provider_validation = step_base +
  s_message :: "value_ref option"

record resolve_phase =
  rp_with :: "provider_step list"
  rp_until :: "condition option"
  rp_when :: "condition option"

record transform_phase =
  tp_with :: "provider_step list"
  tp_when :: "condition option"

record validate_phase =
  vp_with :: "provider_validation list"
  vp_when :: "condition option"

record resolver =
  r_name :: string
  r_sensitive :: bool
  r_type :: string
  r_when :: "condition option"
  r_dependsOn :: "string list"
  r_resolve :: "resolve_phase option"
  r_transform :: "transform_phase option"
  r_validate :: "validate_phase option"
  r_message :: "value_ref option"

text \<open>\<open>spec.Call\<close> and the \<open>spec.ArgDef\<close> of its arguments.\<close>

record arg_def =
  ad_type :: string
  ad_required :: bool
  ad_default :: gval

record call_def =
  cd_args :: "arg_def option gomap"
  cd_provider :: string
  cd_inputs :: "value_ref option gomap"
  cd_dedup :: bool

end
