(* ===== verification/Go_Strings.thy ===== *)
theory Go_Strings
  imports Prelude
begin

text \<open>
  The operations of Go's \<open>strings\<close> and \<open>filepath\<close> packages that the components use, on strings of bytes.
\<close>

definition strings_HasPrefix :: "string \<Rightarrow> string \<Rightarrow> bool" where
  "strings_HasPrefix s p = (take (length p) s = p)"

definition strings_TrimPrefix :: "string \<Rightarrow> string \<Rightarrow> string" where
  "strings_TrimPrefix s p = (if strings_HasPrefix s p then drop (length p) s else s)"

fun strings_Contains :: "string \<Rightarrow> string \<Rightarrow> bool" where
  "strings_Contains [] p = (p = [])"
| "strings_Contains (c # cs) p = (strings_HasPrefix (c # cs) p \<or> strings_Contains cs p)"

text \<open>\<open>strings.SplitN\<close> with two parts, or \<open>strings.Cut\<close>: around the first occurrence.\<close>

fun strings_Cut :: "string \<Rightarrow> string \<Rightarrow> (string \<times> string) option" where
  "strings_Cut [] p = (if p = [] then Some ([], []) else None)"
| "strings_Cut (c # cs) p =
     (if strings_HasPrefix (c # cs) p then Some ([], drop (length p) (c # cs))
      else map_option (\<lambda>(a, b). (c # a, b)) (strings_Cut cs p))"

text \<open>\<open>strings.TrimSpace\<close>, the blanks of ASCII.\<close>

definition is_space :: "char \<Rightarrow> bool" where
  "is_space c = (let n = of_char c :: nat in n = 32 \<or> 9 \<le> n \<and> n \<le> 13)"

definition strings_TrimSpace :: "string \<Rightarrow> string" where
  "strings_TrimSpace s = rev (dropWhile is_space (rev (dropWhile is_space s)))"

definition is_digit :: "char \<Rightarrow> bool" where
  "is_digit c = (48 \<le> (of_char c :: nat) \<and> (of_char c :: nat) \<le> 57)"

definition is_letter :: "char \<Rightarrow> bool" where
  "is_letter c = (let n = of_char c :: nat in 97 \<le> n \<and> n \<le> 122 \<or> 65 \<le> n \<and> n \<le> 90)"

text \<open>\<open>strings.Split\<close> at the slashes.\<close>

fun split_slash :: "string \<Rightarrow> string list" where
  "split_slash [] = [[]]"
| "split_slash (c # cs) =
     (if c = CHR ''/'' then [] # split_slash cs
      else (case split_slash cs of [] \<Rightarrow> [[c]] | s # ss \<Rightarrow> (c # s) # ss))"

text \<open>
  \<open>filepath.Clean\<close> of a relative path, as its segments: empty and dot segments go, a parent segment
  takes the segment before it away unless that is a parent segment too.
\<close>

definition clean_segment :: "string \<Rightarrow> string list \<Rightarrow> string list" where
  "clean_segment s out =
     (if s = [] \<or> s = ''.'' then out
      else if s = ''..'' \<and> out \<noteq> [] \<and> last out \<noteq> ''..'' then butlast out
      else out @ [s])"

definition clean_segments :: "string \<Rightarrow> string list" where
  "clean_segments p = fold clean_segment (split_slash p) []"

definition is_alnum :: "char \<Rightarrow> bool" where
  "is_alnum c = (is_letter c \<or> is_digit c)"

lemma strings_Cut_Some: "strings_Cut s p = Some (a, b) \<Longrightarrow> s = a @ p @ b"
proof (induction s arbitrary: a b)
  case (Cons c cs)
  show ?case
  proof (cases "strings_HasPrefix (c # cs) p")
    case True
    with Cons.prems have "a = []" "b = drop (length p) (c # cs)" by auto
    with True show ?thesis
      unfolding strings_HasPrefix_def by (metis append_Nil append_take_drop_id)
  next
    case False
    with Cons.prems obtain a' where "strings_Cut cs p = Some (a', b)" "a = c # a'" by auto
    with Cons.IH show ?thesis by simp
  qed
qed (auto split: if_splits)

end
