(* ===== verification/Template_Deps.thy ===== *)
theory Template_Deps
  imports Go_Strings
begin

text \<open>
  \<open>pkg/gotmpl/resolverdeps.go\<close>: which resolvers a Go template refers to.

  The template parser itself (\<open>GetGoTemplateReferences\<close>, over the standard library's
  \<open>text/template/parse\<close>) is a parameter: a function from the template text and the
  two delimiters to the list of references, or \<open>None\<close> on a parse error.
\<close>

record tmpl_ref =
  tr_path :: string
  tr_scoped :: bool

type_synonym tmpl_parser = "string \<Rightarrow> string \<Rightarrow> string \<Rightarrow> tmpl_ref list option"

datatype path_kind = PathSpecial | PathExplicitResolver | PathField

text \<open>A Go \<open>map[string]bool\<close> used as a set is the list of its keys.\<close>

record deps_input =
  di_template :: string
  di_left :: string
  di_right :: string
  di_hasData :: bool
  di_dataKeys :: "string list"
  di_complete :: bool
  di_aliases :: "string list"

definition firstSegment :: "string \<Rightarrow> string" where
  "firstSegment p = takeWhile (\<lambda>c. c \<noteq> CHR ''.'') p"

definition classifyTemplatePath :: "string \<Rightarrow> string \<times> path_kind" where
  "classifyTemplatePath p =
     (if strings_HasPrefix p ''._.'' then (firstSegment (strings_TrimPrefix p ''._.''), PathExplicitResolver)
      else if strings_HasPrefix p ''.__'' then ('''', PathSpecial)
      else if strings_HasPrefix p ''._'' then (firstSegment (strings_TrimPrefix p ''._''), PathExplicitResolver)
      else if strings_HasPrefix p ''.'' then (firstSegment (strings_TrimPrefix p ''.''), PathField)
      else ('''', PathSpecial))"

text \<open>The closure \<open>add\<close>: de-duplicates, drops the empty name, keeps first-seen order.\<close>

definition add_name :: "string \<Rightarrow> string list \<Rightarrow> string list" where
  "add_name n ds = (if n \<noteq> [] then set_insert n ds else ds)"

definition resolver_dep_step :: "deps_input \<Rightarrow> tmpl_ref \<Rightarrow> string list \<Rightarrow> string list" where
  "resolver_dep_step inp r ds =
     (if tr_scoped r then ds
      else (case classifyTemplatePath (tr_path r) of
              (_, PathSpecial) \<Rightarrow> ds
            | (n, PathExplicitResolver) \<Rightarrow> add_name n ds
            | (n, PathField) \<Rightarrow>
                (if n \<in> set (di_aliases inp) then ds
                 else if \<not> di_hasData inp then add_name n ds
                 else if \<not> di_complete inp then ds
                 else if n \<in> set (di_dataKeys inp) then ds
                 else add_name n ds)))"

definition ExtractResolverDeps :: "tmpl_parser \<Rightarrow> deps_input \<Rightarrow> string list" where
  "ExtractResolverDeps prs inp =
     (case prs (di_template inp) (di_left inp) (di_right inp) of
        None \<Rightarrow> []
      | Some refs \<Rightarrow> fold (resolver_dep_step inp) refs [])"

definition explicit_ref_step :: "tmpl_ref \<Rightarrow> string list \<Rightarrow> string list" where
  "explicit_ref_step r ds =
     (if tr_scoped r then ds
      else (case classifyTemplatePath (tr_path r) of
              (n, k) \<Rightarrow> if k \<noteq> PathExplicitResolver \<or> n = [] \<or> n \<in> set ds then ds else ds @ [n]))"

definition ExtractExplicitResolverRefs :: "tmpl_parser \<Rightarrow> string \<Rightarrow> string \<Rightarrow> string \<Rightarrow> string list" where
  "ExtractExplicitResolverRefs prs t l r =
     (case prs t l r of None \<Rightarrow> [] | Some refs \<Rightarrow> fold explicit_ref_step refs [])"

definition unscoped_step :: "tmpl_ref \<Rightarrow> (string \<times> bool) list \<Rightarrow> (string \<times> bool) list" where
  "unscoped_step r us =
     (if tr_scoped r then us
      else (case classifyTemplatePath (tr_path r) of
              (n, k) \<Rightarrow> if n = [] \<or> k = PathSpecial then us
                        else set_insert (n, k = PathExplicitResolver) us))"

definition UnscopedResolverRefs :: "tmpl_parser \<Rightarrow> string \<Rightarrow> string \<Rightarrow> string \<Rightarrow> (string \<times> bool) list option" where
  "UnscopedResolverRefs prs t l r =
     (case prs t l r of None \<Rightarrow> None | Some refs \<Rightarrow> Some (fold unscoped_step refs []))"

subsection \<open>What the extractors return\<close>

text \<open>The names one reference contributes, as a set.\<close>

definition resolver_names :: "deps_input \<Rightarrow> tmpl_ref \<Rightarrow> string set" where
  "resolver_names inp r = set (resolver_dep_step inp r [])"

definition explicit_names :: "tmpl_ref \<Rightarrow> string set" where
  "explicit_names r = set (explicit_ref_step r [])"

definition unscoped_names :: "tmpl_ref \<Rightarrow> (string \<times> bool) set" where
  "unscoped_names r = set (unscoped_step r [])"

lemma resolver_dep_step_set: "set (resolver_dep_step inp r ds) = set ds \<union> resolver_names inp r"
  by (cases "classifyTemplatePath (tr_path r)"; cases "snd (classifyTemplatePath (tr_path r))")
    (simp_all add: resolver_names_def resolver_dep_step_def add_name_def)

lemma resolver_dep_step_ok:
  "distinct ds \<Longrightarrow> [] \<notin> set ds \<Longrightarrow>
   distinct (resolver_dep_step inp r ds) \<and> [] \<notin> set (resolver_dep_step inp r ds)"
  by (cases "classifyTemplatePath (tr_path r)"; cases "snd (classifyTemplatePath (tr_path r))")
    (simp_all add: resolver_dep_step_def add_name_def)

lemma explicit_ref_step_set: "set (explicit_ref_step r ds) = set ds \<union> explicit_names r"
  by (cases "classifyTemplatePath (tr_path r)") (auto simp: explicit_names_def explicit_ref_step_def)

lemma unscoped_step_set: "set (unscoped_step r ds) = set ds \<union> unscoped_names r"
  by (cases "classifyTemplatePath (tr_path r)") (auto simp: unscoped_names_def unscoped_step_def)

lemma set_fold_step:
  assumes "\<And>r ds. set (f r ds) = set ds \<union> h r"
  shows "set (fold f rs ds) = set ds \<union> (\<Union>r \<in> set rs. h r)"
  using assms by (induction rs arbitrary: ds) auto

lemma fold_resolver_ok:
  "distinct ds \<Longrightarrow> [] \<notin> set ds \<Longrightarrow>
   distinct (fold (resolver_dep_step inp) rs ds) \<and> [] \<notin> set (fold (resolver_dep_step inp) rs ds)"
  by (induction rs arbitrary: ds) (auto dest: resolver_dep_step_ok)

lemma ExtractResolverDeps_ok:
  "distinct (ExtractResolverDeps prs inp) \<and> [] \<notin> set (ExtractResolverDeps prs inp)"
  by (auto simp: ExtractResolverDeps_def fold_resolver_ok split: option.split)

lemma ExtractResolverDeps_set:
  "set (ExtractResolverDeps prs inp) =
     (case prs (di_template inp) (di_left inp) (di_right inp) of
        None \<Rightarrow> {} | Some rs \<Rightarrow> (\<Union>r \<in> set rs. resolver_names inp r))"
  by (simp add: ExtractResolverDeps_def set_fold_step [OF resolver_dep_step_set] UNION_eq split: option.split)

lemma ExtractExplicitResolverRefs_set:
  "set (ExtractExplicitResolverRefs prs t l r) =
     (case prs t l r of None \<Rightarrow> {} | Some rs \<Rightarrow> (\<Union>r \<in> set rs. explicit_names r))"
  by (simp add: ExtractExplicitResolverRefs_def set_fold_step [OF explicit_ref_step_set] UNION_eq split: option.split)

lemma UnscopedResolverRefs_set:
  "UnscopedResolverRefs prs t l r = Some us \<Longrightarrow>
   \<exists>rs. prs t l r = Some rs \<and> set us = (\<Union>r \<in> set rs. unscoped_names r)"
  by (auto simp: UnscopedResolverRefs_def set_fold_step [OF unscoped_step_set] split: option.splits)

lemma explicit_names_alt: "explicit_names r = {n. (n, True) \<in> unscoped_names r}"
  by (cases "classifyTemplatePath (tr_path r)"; cases "snd (classifyTemplatePath (tr_path r))")
    (simp_all add: explicit_names_def unscoped_names_def explicit_ref_step_def unscoped_step_def
      set_insert_def)

lemma explicit_resolver_names: "explicit_names r \<subseteq> resolver_names inp r"
  by (cases "classifyTemplatePath (tr_path r)"; cases "snd (classifyTemplatePath (tr_path r))")
    (simp_all add: explicit_names_def resolver_names_def explicit_ref_step_def
      resolver_dep_step_def add_name_def set_insert_def)

lemma resolver_unscoped_names: "resolver_names inp r \<subseteq> fst ` unscoped_names r"
  by (cases "classifyTemplatePath (tr_path r)"; cases "snd (classifyTemplatePath (tr_path r))")
    (simp_all add: resolver_names_def unscoped_names_def resolver_dep_step_def unscoped_step_def
      add_name_def set_insert_def)

section \<open>Properties\<close>

text \<open>What the template extractor returns: nothing for a template that does not parse; otherwise, without
  repetition and without the empty name, the names of the explicit resolver references together
  with the plain fields that are neither aliases nor, when the data is known, supplied by it.\<close>

theorem template_dependencies:
  "distinct (ExtractResolverDeps prs inp) \<and> [] \<notin> set (ExtractResolverDeps prs inp) \<and>
   (\<forall>n. n \<in> set (ExtractResolverDeps prs inp) \<longleftrightarrow>
      (n \<noteq> [] \<and> (\<exists>refs r. prs (di_template inp) (di_left inp) (di_right inp) = Some refs \<and> r \<in> set refs \<and>
         \<not> tr_scoped r \<and>
         (classifyTemplatePath (tr_path r) = (n, PathExplicitResolver) \<or>
          classifyTemplatePath (tr_path r) = (n, PathField) \<and> n \<notin> set (di_aliases inp) \<and>
          (di_hasData inp \<longrightarrow> di_complete inp \<and> n \<notin> set (di_dataKeys inp))))))"
proof -
  have names: "n \<in> resolver_names inp r \<longleftrightarrow> n \<noteq> [] \<and> \<not> tr_scoped r \<and>
         (classifyTemplatePath (tr_path r) = (n, PathExplicitResolver) \<or>
          classifyTemplatePath (tr_path r) = (n, PathField) \<and> n \<notin> set (di_aliases inp) \<and>
          (di_hasData inp \<longrightarrow> di_complete inp \<and> n \<notin> set (di_dataKeys inp)))" for n r
    by (cases "classifyTemplatePath (tr_path r)"; cases "snd (classifyTemplatePath (tr_path r))")
      (auto simp: resolver_names_def resolver_dep_step_def add_name_def set_insert_def)
  show ?thesis
    using ExtractResolverDeps_ok [of prs inp] unfolding ExtractResolverDeps_set
    by (auto simp: names split: option.split)
qed

theorem template_dependencies_witness:
  "ExtractResolverDeps (\<lambda>_ _ _. Some [\<lparr>tr_path = ''.region'', tr_scoped = False\<rparr>, \<lparr>tr_path = ''._.env.name'', tr_scoped = False\<rparr>,
      \<lparr>tr_path = ''.x'', tr_scoped = True\<rparr>])
     \<lparr>di_template = ''t'', di_left = [], di_right = [], di_hasData = True, di_dataKeys = [''region''], di_complete = True,
      di_aliases = []\<rparr> = [''env''] \<and>
   ''region'' \<notin> set (ExtractResolverDeps (\<lambda>_ _ _. Some [\<lparr>tr_path = ''.region'', tr_scoped = False\<rparr>])
     \<lparr>di_template = ''t'', di_left = [], di_right = [], di_hasData = True, di_dataKeys = [''region''], di_complete = True,
      di_aliases = []\<rparr>)"
proof
  show "''region'' \<notin> set (ExtractResolverDeps (\<lambda>_ _ _. Some [\<lparr>tr_path = ''.region'', tr_scoped = False\<rparr>])
     \<lparr>di_template = ''t'', di_left = [], di_right = [], di_hasData = True, di_dataKeys = [''region''], di_complete = True,
      di_aliases = []\<rparr>)"
    using template_dependencies [of "\<lambda>_ _ _. Some [\<lparr>tr_path = ''.region'', tr_scoped = False\<rparr>]"
      "\<lparr>di_template = ''t'', di_left = [], di_right = [], di_hasData = True, di_dataKeys = [''region''], di_complete = True,
      di_aliases = []\<rparr>"] by (simp add: classifyTemplatePath_def strings_HasPrefix_def)
qed code_simp

end
