(* ===== verification/Resolver_Deps.thy ===== *)
theory Resolver_Deps
  imports Resolver_Types Template_Deps
begin

text \<open>
  \<open>pkg/resolver/graph.go\<close> and \<open>call_graph.go\<close>: the resolvers a resolver definition
  refers to.  A set \<open>deps map[string]bool\<close> passed by reference is threaded through
  as a list of distinct names.

  Parameters (\<open>deps_env\<close>), none of which is read by this code: the CEL parser's
  \<open>GetUnderscoreVariables\<close>, \<open>GetUnderscoreVariablesByOptionality\<close> and \<open>MapLiteralKeys\<close>
  (\<open>None\<close> on a parse error), the Go template parser, the descriptor lookup with the
  \<open>ExtractDependencies\<close> function of a provider, and the order in which Go's map
  iteration lists a set.
\<close>

record tmpl_scan =
  ts_hasData :: bool
  ts_dataKeys :: "string list"
  ts_complete :: bool
  ts_aliases :: "string list"

type_synonym provider_extract = "gval gomap \<Rightarrow> tmpl_scan \<Rightarrow> string list option"

record deps_env =
  de_vars :: "string \<Rightarrow> string list option"
  de_byopt :: "string \<Rightarrow> (string list \<times> string list) option"
  de_mapkeys :: "string \<Rightarrow> string list option"
  de_tmpl :: tmpl_parser
  de_lookup :: "(string \<Rightarrow> provider_extract option) option"
  de_pick :: "string list \<Rightarrow> nat"

definition no_scan :: tmpl_scan where
  "no_scan = \<lparr>ts_hasData = False, ts_dataKeys = [], ts_complete = False, ts_aliases = []\<rparr>"

definition add_all :: "string list \<Rightarrow> string list \<Rightarrow> string list" where
  "add_all ns deps = fold set_insert ns deps"

definition extractDepsFromExpression :: "deps_env \<Rightarrow> string \<Rightarrow> string list \<Rightarrow> string list" where
  "extractDepsFromExpression env e deps =
     (case de_vars env e of None \<Rightarrow> deps | Some vs \<Rightarrow> add_all vs deps)"

definition extractHardDepsFromExpression :: "deps_env \<Rightarrow> string \<Rightarrow> string list \<Rightarrow> string list" where
  "extractHardDepsFromExpression env e deps =
     (case de_byopt env e of None \<Rightarrow> deps | Some (hard, _) \<Rightarrow> add_all hard deps)"

definition addOptionalFromExpression :: "deps_env \<Rightarrow> string \<Rightarrow> string list \<Rightarrow> string list" where
  "addOptionalFromExpression env e deps =
     (case de_byopt env e of None \<Rightarrow> deps | Some (_, opt) \<Rightarrow> add_all opt deps)"

definition depsInput :: "tmpl_scan \<Rightarrow> string \<Rightarrow> deps_input" where
  "depsInput sc t =
     \<lparr>di_template = t, di_left = '''', di_right = '''', di_hasData = ts_hasData sc,
      di_dataKeys = ts_dataKeys sc, di_complete = ts_complete sc, di_aliases = ts_aliases sc\<rparr>"

definition scanCtxFromExclude :: "string list \<Rightarrow> tmpl_scan" where
  "scanCtxFromExclude exc =
     (if exc = [] then no_scan
      else no_scan\<lparr>ts_hasData := True, ts_dataKeys := exc, ts_complete := True\<rparr>)"

definition extractDepsFromTemplateCtx ::
  "deps_env \<Rightarrow> tmpl_scan \<Rightarrow> string \<Rightarrow> string list \<Rightarrow> string list" where
  "extractDepsFromTemplateCtx env sc t deps =
     add_all (ExtractResolverDeps (de_tmpl env) (depsInput sc t)) deps"

definition extractDepsFromTemplate :: "deps_env \<Rightarrow> string \<Rightarrow> string list \<Rightarrow> string list" where
  "extractDepsFromTemplate env t deps = extractDepsFromTemplateCtx env no_scan t deps"

text \<open>\<open>v["k"].(string)\<close>: the entry when it is a string.\<close>

definition str_entry :: "(string \<times> gval) list \<Rightarrow> string \<Rightarrow> string option" where
  "str_entry m k = (case map_of m k of Some (VStr s) \<Rightarrow> Some s | _ \<Rightarrow> None)"

definition cel_like :: "string \<Rightarrow> bool" where
  "cel_like s = (strings_Contains s ''_.'' \<or> strings_Contains s ''_['')"

definition tmpl_like :: "string \<Rightarrow> bool" where
  "tmpl_like s = (strings_Contains s ''{{'' \<and> strings_Contains s ''}}'')"

definition literalDataKeys :: "deps_env \<Rightarrow> gval \<Rightarrow> string list option" where
  "literalDataKeys env v =
     (case v of
        VMap m \<Rightarrow>
          (case str_entry m ''expr'' of
             Some e \<Rightarrow>
               if length m = 1 then map_option remdups (de_mapkeys env e)
               else if map_has m ''rslvr'' \<or> map_has m ''tmpl'' then None
               else Some (map_keys m)
           | None \<Rightarrow>
               if map_has m ''rslvr'' \<or> map_has m ''tmpl'' then None else Some (map_keys m))
      | _ \<Rightarrow> None)"

text \<open>The value-reference keys of a literal map; \<open>None\<close> when it has none.\<close>

definition literal_ref ::
  "deps_env \<Rightarrow> (string \<times> gval) list \<Rightarrow> string list \<Rightarrow> string list \<Rightarrow> string list option" where
  "literal_ref env m exc deps =
     (let d1 = (case str_entry m ''rslvr'' of None \<Rightarrow> deps
                | Some r \<Rightarrow> if r \<in> set exc then deps else set_insert r deps);
          d2 = (case str_entry m ''expr'' of None \<Rightarrow> d1 | Some e \<Rightarrow> extractDepsFromExpression env e d1);
          d3 = (case str_entry m ''tmpl'' of None \<Rightarrow> d2
                | Some t \<Rightarrow> extractDepsFromTemplateCtx env (scanCtxFromExclude exc) t d2)
      in if str_entry m ''rslvr'' = None \<and> str_entry m ''expr'' = None \<and> str_entry m ''tmpl'' = None
         then None else Some d3)"

definition template_excludes :: "string list option \<Rightarrow> string \<Rightarrow> string list \<Rightarrow> string list" where
  "template_excludes dk k exc =
     (case dk of None \<Rightarrow> exc | Some ks \<Rightarrow> if k = ''template'' then ks else exc)"

definition data_keys :: "deps_env \<Rightarrow> (string \<times> gval) list \<Rightarrow> string list option" where
  "data_keys env m = (case map_of m ''data'' of None \<Rightarrow> None | Some d \<Rightarrow> literalDataKeys env d)"

definition literal_string :: "deps_env \<Rightarrow> string \<Rightarrow> string list \<Rightarrow> string list \<Rightarrow> string list" where
  "literal_string env s exc deps =
     (let d1 = (if cel_like s then extractDepsFromExpression env s deps else deps)
      in if tmpl_like s then extractDepsFromTemplateCtx env (scanCtxFromExclude exc) s d1 else d1)"

function (sequential) extractDepsFromLiteralWithExclusions ::
      "deps_env \<Rightarrow> gval \<Rightarrow> string list \<Rightarrow> string list \<Rightarrow> string list"
and literal_entries ::
      "deps_env \<Rightarrow> (string \<times> gval) list \<Rightarrow> string list option \<Rightarrow> string list \<Rightarrow> string list \<Rightarrow> string list"
and literal_elems ::
      "deps_env \<Rightarrow> gval list \<Rightarrow> string list \<Rightarrow> string list \<Rightarrow> string list"
where
  "extractDepsFromLiteralWithExclusions env (VStr s) exc deps = literal_string env s exc deps"
| "extractDepsFromLiteralWithExclusions env (VMap m) exc deps =
     (case literal_ref env m exc deps of
        Some d \<Rightarrow> d
      | None \<Rightarrow> literal_entries env m (data_keys env m) exc deps)"
| "extractDepsFromLiteralWithExclusions env (VList vs) exc deps = literal_elems env vs exc deps"
| "extractDepsFromLiteralWithExclusions env _ exc deps = deps"
| "literal_entries env [] dk exc deps = deps"
| "literal_entries env ((k, v) # m) dk exc deps =
     literal_entries env m dk exc
       (extractDepsFromLiteralWithExclusions env v (template_excludes dk k exc) deps)"
| "literal_elems env [] exc deps = deps"
| "literal_elems env (v # vs) exc deps =
     literal_elems env vs exc (extractDepsFromLiteralWithExclusions env v exc deps)"
  by pat_completeness auto
termination
  by (relation "measure (\<lambda>x. case x of Inl (_, v, _, _) \<Rightarrow> size v
      | Inr (Inl (_, m, _, _, _)) \<Rightarrow> size_list (size_prod (\<lambda>_. 0) size) m
      | Inr (Inr (_, vs, _, _)) \<Rightarrow> size_list size vs)") simp_all

definition extractDepsFromLiteral :: "deps_env \<Rightarrow> gval \<Rightarrow> string list \<Rightarrow> string list" where
  "extractDepsFromLiteral env v deps = extractDepsFromLiteralWithExclusions env v [] deps"

fun extractDepsFromValueRef :: "deps_env \<Rightarrow> value_ref option \<Rightarrow> string list \<Rightarrow> string list" where
  "extractDepsFromValueRef env None deps = deps"
| "extractDepsFromValueRef env (Some (RefResolver r)) deps = set_insert r deps"
| "extractDepsFromValueRef env (Some (RefExpr e)) deps = extractDepsFromExpression env e deps"
| "extractDepsFromValueRef env (Some (RefTmpl t)) deps = extractDepsFromTemplate env t deps"
| "extractDepsFromValueRef env (Some (RefLiteral v)) deps = extractDepsFromLiteral env v deps"

fun extractDepsFromValueRefTmpl ::
  "deps_env \<Rightarrow> tmpl_scan \<Rightarrow> value_ref option \<Rightarrow> string list \<Rightarrow> string list" where
  "extractDepsFromValueRefTmpl env sc None deps = deps"
| "extractDepsFromValueRefTmpl env sc (Some (RefResolver r)) deps = set_insert r deps"
| "extractDepsFromValueRefTmpl env sc (Some (RefExpr e)) deps = extractDepsFromExpression env e deps"
| "extractDepsFromValueRefTmpl env sc (Some (RefTmpl t)) deps = extractDepsFromTemplateCtx env sc t deps"
| "extractDepsFromValueRefTmpl env sc (Some (RefLiteral v)) deps =
     (case v of
        VStr s \<Rightarrow>
          (let d1 = (if cel_like s then extractDepsFromExpression env s deps else deps)
           in if tmpl_like s then extractDepsFromTemplateCtx env sc s d1 else d1)
      | _ \<Rightarrow> deps)"

definition valueRefDataScanKeys :: "deps_env \<Rightarrow> value_ref \<Rightarrow> string list \<times> bool" where
  "valueRefDataScanKeys env r =
     (case r of
        RefLiteral (VMap m) \<Rightarrow> (map_keys m, True)
      | RefExpr e \<Rightarrow> (case de_mapkeys env e of None \<Rightarrow> ([], False) | Some ks \<Rightarrow> (remdups ks, True))
      | _ \<Rightarrow> ([], False))"

definition buildTmplScanCtx ::
  "deps_env \<Rightarrow> value_ref option gomap \<Rightarrow> foreach_clause option \<Rightarrow> tmpl_scan" where
  "buildTmplScanCtx env inputs fe =
     (let al = (case fe of None \<Rightarrow> []
                | Some c \<Rightarrow> add_name (fe_index c) (add_name (fe_item c) []))
      in case map_of inputs ''data'' of
           Some (Some d) \<Rightarrow>
             (case valueRefDataScanKeys env d of
                (ks, c) \<Rightarrow> \<lparr>ts_hasData = True, ts_dataKeys = ks, ts_complete = c, ts_aliases = al\<rparr>)
         | _ \<Rightarrow> no_scan\<lparr>ts_aliases := al\<rparr>)"

text \<open>The raw inputs handed to a provider's own extraction function.\<close>

fun raw_input :: "value_ref option \<Rightarrow> gval option" where
  "raw_input None = None"
| "raw_input (Some (RefLiteral v)) = (if v = VNil then None else Some v)"
| "raw_input (Some (RefResolver r)) = Some (VMap [(''rslvr'', VStr r)])"
| "raw_input (Some (RefExpr e)) = Some (VMap [(''expr'', VStr e)])"
| "raw_input (Some (RefTmpl t)) = Some (VMap [(''tmpl'', VStr t)])"

definition raw_inputs :: "value_ref option gomap \<Rightarrow> gval gomap" where
  "raw_inputs ins = List.map_filter (\<lambda>(k, r). map_option (Pair k) (raw_input r)) ins"

definition extractDepsFromProviderInputs ::
  "deps_env \<Rightarrow> string \<Rightarrow> value_ref option gomap \<Rightarrow> foreach_clause option \<Rightarrow> string list \<Rightarrow> string list option"
where
  "extractDepsFromProviderInputs env p ins fe deps =
     (case de_lookup env of
        None \<Rightarrow> None
      | Some look \<Rightarrow>
          (case look p of
             None \<Rightarrow> None
           | Some ex \<Rightarrow>
               (case ex (raw_inputs ins) (buildTmplScanCtx env ins fe) of
                  None \<Rightarrow> None
                | Some ds \<Rightarrow> Some (add_all ds deps))))"

definition cond_deps :: "deps_env \<Rightarrow> condition option \<Rightarrow> string list \<Rightarrow> string list" where
  "cond_deps env c deps =
     (case c of Some k \<Rightarrow> (case c_expr k of None \<Rightarrow> deps | Some e \<Rightarrow> extractDepsFromExpression env e deps)
      | None \<Rightarrow> deps)"

definition generic_inputs ::
  "deps_env \<Rightarrow> value_ref option gomap \<Rightarrow> foreach_clause option \<Rightarrow> string list \<Rightarrow> string list" where
  "generic_inputs env ins fe deps =
     (let sc = buildTmplScanCtx env ins fe in
      fold (\<lambda>(k, r) d. if k = ''template'' then extractDepsFromValueRefTmpl env sc r d
                       else extractDepsFromValueRef env r d) ins deps)"

text \<open>The loop body over \<open>phase.With\<close>, the same for sources and transforms.\<close>

definition step_refs :: "deps_env \<Rightarrow> provider_step \<Rightarrow> string list \<Rightarrow> string list" where
  "step_refs env s deps =
     (case s_forEach s of None \<Rightarrow> (\<lambda>d. d) | Some fe \<Rightarrow> extractDepsFromValueRef env (fe_in fe))
       (cond_deps env (s_continueOnError s)
         (cond_deps env (s_when s)
           (fold (\<lambda>(k, r). extractDepsFromValueRef env r) (s_args s) deps)))"

definition step_deps :: "deps_env \<Rightarrow> provider_step \<Rightarrow> string list \<Rightarrow> string list" where
  "step_deps env s deps =
     (case extractDepsFromProviderInputs env (s_provider s) (s_inputs s) (s_forEach s) (step_refs env s deps) of
        Some d \<Rightarrow> d
      | None \<Rightarrow> generic_inputs env (s_inputs s) (s_forEach s) (step_refs env s deps))"

definition extractDepsFromResolvePhase ::
  "deps_env \<Rightarrow> resolve_phase option \<Rightarrow> string list \<Rightarrow> string list" where
  "extractDepsFromResolvePhase env ph deps =
     (case ph of None \<Rightarrow> deps
      | Some p \<Rightarrow> fold (step_deps env) (rp_with p) (cond_deps env (rp_until p) (cond_deps env (rp_when p) deps)))"

definition extractDepsFromTransformPhase ::
  "deps_env \<Rightarrow> transform_phase option \<Rightarrow> string list \<Rightarrow> string list" where
  "extractDepsFromTransformPhase env ph deps =
     (case ph of None \<Rightarrow> deps
      | Some p \<Rightarrow> fold (step_deps env) (tp_with p) (cond_deps env (tp_when p) deps))"

definition transform_deps :: "deps_env \<Rightarrow> resolver \<Rightarrow> string list" where
  "transform_deps env r =
     filter (\<lambda>d. d \<noteq> r_name r) (extractDepsFromTransformPhase env (r_transform r) [])"

definition extractInferredDependencies :: "deps_env \<Rightarrow> resolver \<Rightarrow> string list" where
  "extractInferredDependencies env r =
     range_set (de_pick env)
       (add_all (transform_deps env r)
         (extractDepsFromResolvePhase env (r_resolve r) (cond_deps env (r_when r) [])))"

definition extractDependencies :: "deps_env \<Rightarrow> resolver \<Rightarrow> string list" where
  "extractDependencies env r =
     range_set (de_pick env)
       (add_all (transform_deps env r)
         (extractDepsFromResolvePhase env (r_resolve r)
           (cond_deps env (r_when r) (fold add_name (r_dependsOn r) []))))"

subsection \<open>The validate phase\<close>

definition extractDepsFromValidationRule ::
  "deps_env \<Rightarrow> provider_validation \<Rightarrow> string list \<Rightarrow> string list" where
  "extractDepsFromValidationRule env v deps =
     (let d1 = fold (\<lambda>(k, r). extractDepsFromValueRef env r) (s_args v) deps;
          d2 = cond_deps env (s_when v) d1
      in case extractDepsFromProviderInputs env (s_provider v) (s_inputs v) None d2 of
           Some d \<Rightarrow> extractDepsFromValueRef env (s_message v) d
         | None \<Rightarrow>
             extractDepsFromValueRef env (s_message v)
               (fold (\<lambda>(k, r). extractDepsFromValueRef env r) (s_inputs v) d2))"

definition extractDepsFromValidatePhase ::
  "deps_env \<Rightarrow> validate_phase option \<Rightarrow> string list \<Rightarrow> string list" where
  "extractDepsFromValidatePhase env ph deps =
     (case ph of None \<Rightarrow> deps
      | Some p \<Rightarrow> fold (extractDepsFromValidationRule env) (vp_with p) (cond_deps env (vp_when p) deps))"

record validate_partition =
  pt_inline :: "nat list"
  pt_deferred :: "nat list"
  pt_refs :: "string list"
  pt_phaseWhen :: bool

definition HasDeferred :: "validate_partition \<Rightarrow> bool" where
  "HasDeferred p = (pt_deferred p \<noteq> [])"

definition empty_partition :: validate_partition where
  "empty_partition = \<lparr>pt_inline = [], pt_deferred = [], pt_refs = [], pt_phaseWhen = False\<rparr>"

definition classifyValidationRule :: "deps_env \<Rightarrow> provider_validation \<Rightarrow> string \<Rightarrow> string list" where
  "classifyValidationRule env v self = removeAll self (extractDepsFromValidationRule env v [])"

definition partition_rule ::
  "deps_env \<Rightarrow> string \<Rightarrow> nat \<times> provider_validation \<Rightarrow> validate_partition \<Rightarrow> validate_partition" where
  "partition_rule env self iv p =
     (let foreign = classifyValidationRule env (snd iv) self in
      if pt_phaseWhen p \<or> foreign \<noteq> []
      then p\<lparr>pt_deferred := pt_deferred p @ [fst iv], pt_refs := add_all foreign (pt_refs p)\<rparr>
      else p\<lparr>pt_inline := pt_inline p @ [fst iv]\<rparr>)"

definition partitionValidatePhaseFor ::
  "deps_env \<Rightarrow> validate_phase option \<Rightarrow> string \<Rightarrow> validate_partition" where
  "partitionValidatePhaseFor env ph self =
     (case ph of None \<Rightarrow> empty_partition
      | Some p \<Rightarrow>
          (let w = removeAll self (cond_deps env (vp_when p) []);
               p0 = (if w \<noteq> [] then empty_partition\<lparr>pt_phaseWhen := True, pt_refs := w\<rparr>
                     else empty_partition)
           in fold (partition_rule env self) (List.enumerate 0 (vp_with p)) p0))"

definition partitionValidatePhase :: "deps_env \<Rightarrow> resolver \<Rightarrow> validate_partition" where
  "partitionValidatePhase env r = partitionValidatePhaseFor env (r_validate r) (r_name r)"

subsection \<open>Strict references\<close>

function (sequential) extractStrictFromLiteral :: "deps_env \<Rightarrow> gval \<Rightarrow> string list \<Rightarrow> string list"
and strict_entries :: "deps_env \<Rightarrow> (string \<times> gval) list \<Rightarrow> string list \<Rightarrow> string list"
and strict_elems :: "deps_env \<Rightarrow> gval list \<Rightarrow> string list \<Rightarrow> string list"
where
  "extractStrictFromLiteral env (VStr s) deps =
     (if cel_like s then extractHardDepsFromExpression env s deps else deps)"
| "extractStrictFromLiteral env (VMap m) deps =
     (let d1 = (case str_entry m ''rslvr'' of None \<Rightarrow> deps | Some r \<Rightarrow> set_insert r deps);
          d2 = (case str_entry m ''expr'' of None \<Rightarrow> d1 | Some e \<Rightarrow> extractHardDepsFromExpression env e d1)
      in if str_entry m ''rslvr'' \<noteq> None \<or> str_entry m ''expr'' \<noteq> None \<or> str_entry m ''tmpl'' \<noteq> None
         then d2 else strict_entries env m d2)"
| "extractStrictFromLiteral env (VList vs) deps = strict_elems env vs deps"
| "extractStrictFromLiteral env _ deps = deps"
| "strict_entries env [] deps = deps"
| "strict_entries env ((k, v) # m) deps = strict_entries env m (extractStrictFromLiteral env v deps)"
| "strict_elems env [] deps = deps"
| "strict_elems env (v # vs) deps = strict_elems env vs (extractStrictFromLiteral env v deps)"
  by pat_completeness auto
termination
  by (relation "measure (\<lambda>x. case x of Inl (_, v, _) \<Rightarrow> size v
      | Inr (Inl (_, m, _)) \<Rightarrow> size_list (size_prod (\<lambda>_. 0) size) m
      | Inr (Inr (_, vs, _)) \<Rightarrow> size_list size vs)") simp_all

fun extractStrictFromValueRef :: "deps_env \<Rightarrow> value_ref option \<Rightarrow> string list \<Rightarrow> string list" where
  "extractStrictFromValueRef env None deps = deps"
| "extractStrictFromValueRef env (Some (RefResolver r)) deps = set_insert r deps"
| "extractStrictFromValueRef env (Some (RefExpr e)) deps = extractHardDepsFromExpression env e deps"
| "extractStrictFromValueRef env (Some (RefTmpl t)) deps = deps"
| "extractStrictFromValueRef env (Some (RefLiteral v)) deps = extractStrictFromLiteral env v deps"

definition strict_cond :: "deps_env \<Rightarrow> condition option \<Rightarrow> string list \<Rightarrow> string list" where
  "strict_cond env c deps =
     (case c of Some k \<Rightarrow> (case c_expr k of None \<Rightarrow> deps | Some e \<Rightarrow> extractHardDepsFromExpression env e deps)
      | None \<Rightarrow> deps)"

definition extractStrictFromInputs :: "deps_env \<Rightarrow> value_ref option gomap \<Rightarrow> string list \<Rightarrow> string list" where
  "extractStrictFromInputs env ins deps =
     fold (\<lambda>(k, r) d. if k = ''template'' then d else extractStrictFromValueRef env r d) ins deps"

definition strict_step :: "deps_env \<Rightarrow> provider_step \<Rightarrow> string list \<Rightarrow> string list" where
  "strict_step env s deps =
     extractStrictFromInputs env (s_inputs s)
       ((case s_forEach s of None \<Rightarrow> (\<lambda>d. d) | Some fe \<Rightarrow> extractStrictFromValueRef env (fe_in fe))
         (strict_cond env (s_continueOnError s)
           (strict_cond env (s_when s)
             (fold (\<lambda>(k, r). extractStrictFromValueRef env r) (s_args s) deps))))"

definition extractStrictFromResolvePhase ::
  "deps_env \<Rightarrow> resolve_phase option \<Rightarrow> string list \<Rightarrow> string list" where
  "extractStrictFromResolvePhase env ph deps =
     (case ph of None \<Rightarrow> deps
      | Some p \<Rightarrow> fold (strict_step env) (rp_with p) (strict_cond env (rp_until p) (strict_cond env (rp_when p) deps)))"

definition extractStrictFromTransformPhase ::
  "deps_env \<Rightarrow> transform_phase option \<Rightarrow> string list \<Rightarrow> string list" where
  "extractStrictFromTransformPhase env ph deps =
     (case ph of None \<Rightarrow> deps
      | Some p \<Rightarrow> fold (strict_step env) (tp_with p) (strict_cond env (tp_when p) deps))"

definition extractStrictDependencies :: "deps_env \<Rightarrow> resolver \<Rightarrow> string list" where
  "extractStrictDependencies env r =
     removeAll (r_name r)
       (extractStrictFromTransformPhase env (r_transform r)
         (extractStrictFromResolvePhase env (r_resolve r)
           (strict_cond env (r_when r) (fold add_name (r_dependsOn r) []))))"

definition extractDependenciesWithCalls :: "deps_env \<Rightarrow> resolver \<Rightarrow> string list" where
  "extractDependenciesWithCalls env r = extractDependencies env r"

definition extractStrictDependenciesWithCalls :: "deps_env \<Rightarrow> resolver \<Rightarrow> string list" where
  "extractStrictDependenciesWithCalls env r = extractStrictDependencies env r"


subsection \<open>Accumulators only grow, and in the order the code extends them\<close>

text \<open>
  \<open>additive f\<close>: the extractor \<open>f\<close> adds a fixed set of names to its accumulator.
  \<open>covers f g\<close>: what \<open>f\<close> collects, \<open>g\<close> collects too.
\<close>

definition additive :: "(string list \<Rightarrow> string list) \<Rightarrow> bool" where
  "additive f = (\<forall>d. set (f d) = set d \<union> set (f []))"

definition covers :: "(string list \<Rightarrow> string list) \<Rightarrow> (string list \<Rightarrow> string list) \<Rightarrow> bool" where
  "covers f g = (\<forall>d d'. set d \<subseteq> set d' \<longrightarrow> set (f d) \<subseteq> set (g d'))"

lemma additiveI: "(\<And>d. set (f d) = set d \<union> R) \<Longrightarrow> additive f"
  unfolding additive_def by auto

lemma additiveD: "additive f \<Longrightarrow> set (f d) = set d \<union> set (f [])"
  unfolding additive_def by blast

lemma additive_id [intro, simp]: "additive (\<lambda>d. d)"
  by (simp add: additive_def)

lemma additive_comp: "additive f \<Longrightarrow> additive g \<Longrightarrow> additive (\<lambda>d. f (g d))"
proof (rule additiveI)
  fix d assume fg: "additive f" "additive g"
  show "set (f (g d)) = set d \<union> (set (g []) \<union> set (f []))"
    using additiveD [OF fg(1), of "g d"] additiveD [OF fg(2), of d] by auto
qed

lemma additive_fold: "(\<And>x. x \<in> set xs \<Longrightarrow> additive (f x)) \<Longrightarrow> additive (fold f xs)"
proof (induction xs)
  case Nil
  then show ?case by (simp add: additive_def)
next
  case (Cons x xs)
  have "additive (fold f xs)" "additive (f x)" by (simp_all add: Cons)
  then have "additive (\<lambda>d. fold f xs (f x d))" by (rule additive_comp)
  then show ?case by (simp add: comp_def)
qed

lemma set_add_all [simp]: "set (add_all ns d) = set d \<union> set ns"
  by (simp add: add_all_def)

lemma additive_add_all [intro, simp]: "additive (add_all ns)"
  by (simp add: additive_def)

lemma additive_insert [intro, simp]: "additive (set_insert n)"
  by (simp add: additive_def)

lemma additive_add_name [intro, simp]: "additive (add_name n)"
  by (simp add: additive_def add_name_def)

lemma additive_expr [intro, simp]: "additive (extractDepsFromExpression env e)"
  by (simp add: additive_def extractDepsFromExpression_def split: option.split)

lemma additive_tmplctx [intro, simp]: "additive (extractDepsFromTemplateCtx env sc t)"
  by (simp add: additive_def extractDepsFromTemplateCtx_def)

lemma additive_tmpl [intro, simp]: "additive (extractDepsFromTemplate env t)"
  by (simp add: additive_def extractDepsFromTemplate_def extractDepsFromTemplateCtx_def)

lemma additive_cond [intro, simp]: "additive (cond_deps env c)"
  by (cases "c = None \<or> c_expr (the c) = None")
    (auto simp: additive_def cond_deps_def extractDepsFromExpression_def split: option.split)

lemma additive_if: "additive f \<Longrightarrow> additive g \<Longrightarrow> additive (\<lambda>d. if b then f d else g d)"
  by (cases b) simp_all

lemma additive_literal_string [intro, simp]: "additive (literal_string env s exc)"
proof (rule additiveI)
  fix d
  show "set (literal_string env s exc d) = set d \<union> set (literal_string env s exc [])"
    by (auto simp: literal_string_def Let_def extractDepsFromExpression_def
        extractDepsFromTemplateCtx_def split: option.split)
qed

text \<open>A literal map that is a value reference never reaches its other entries.\<close>

lemma literal_ref_cases:
  "literal_ref env m exc = (\<lambda>d. None) \<or> (\<exists>f. literal_ref env m exc = (\<lambda>d. Some (f d)) \<and> additive f)"
proof (cases "str_entry m ''rslvr'' = None \<and> str_entry m ''expr'' = None \<and> str_entry m ''tmpl'' = None")
  case True
  then show ?thesis by (simp add: literal_ref_def fun_eq_iff)
next
  case False
  define f1 where "f1 = (\<lambda>d. case str_entry m ''rslvr'' of None \<Rightarrow> d
                | Some r \<Rightarrow> if r \<in> set exc then d else set_insert r d)"
  define f2 where "f2 = (\<lambda>d. case str_entry m ''expr'' of None \<Rightarrow> d | Some e \<Rightarrow> extractDepsFromExpression env e d)"
  define f3 where "f3 = (\<lambda>d. case str_entry m ''tmpl'' of None \<Rightarrow> d
                | Some t \<Rightarrow> extractDepsFromTemplateCtx env (scanCtxFromExclude exc) t d)"
  have a1: "additive f1" unfolding f1_def
    by (cases "str_entry m ''rslvr''") (auto intro: additive_if)
  have a2: "additive f2" by (cases "str_entry m ''expr''") (simp_all add: f2_def)
  have a3: "additive f3" by (cases "str_entry m ''tmpl''") (simp_all add: f3_def)
  have "additive (\<lambda>d. f3 (f2 (f1 d)))" by (rule additive_comp [OF a3 additive_comp [OF a2 a1]])
  moreover have "literal_ref env m exc = (\<lambda>d. Some (f3 (f2 (f1 d))))"
    by (rule ext) (simp only: literal_ref_def Let_def f1_def f2_def f3_def False if_False)
  ultimately show ?thesis by (intro disjI2 exI [of _ "\<lambda>d. f3 (f2 (f1 d))"] conjI)
qed

lemma additive_literal [intro, simp]:
  "additive (extractDepsFromLiteralWithExclusions env v exc)"
  "additive (literal_entries env m dk exc)"
  "additive (literal_elems env vs exc)"
proof -
  fix d :: "string list"
  have
    "(\<lambda>_. additive (extractDepsFromLiteralWithExclusions env v exc)) d" and
    "(\<lambda>_. additive (literal_entries env m dk exc)) d" and
    "(\<lambda>_. additive (literal_elems env vs exc)) d"
  proof (induction env v exc d and env m dk exc d and env vs exc d
      rule: extractDepsFromLiteralWithExclusions_literal_entries_literal_elems.induct)
    case (2 env m exc deps)
    from literal_ref_cases [of env m exc] show ?case
    proof
      assume "literal_ref env m exc = (\<lambda>d. None)"
      with 2 show ?thesis by simp
    next
      assume "\<exists>f. literal_ref env m exc = (\<lambda>d. Some (f d)) \<and> additive f"
      then show ?thesis by auto
    qed
  qed (simp_all add: additive_comp)
  then show "additive (extractDepsFromLiteralWithExclusions env v exc)"
  "additive (literal_entries env m dk exc)"
  "additive (literal_elems env vs exc)" by simp_all
qed

lemma additive_literal_full [intro, simp]: "additive (extractDepsFromLiteral env v)"
proof -
  have "extractDepsFromLiteral env v = extractDepsFromLiteralWithExclusions env v []"
    by (rule ext) (simp only: extractDepsFromLiteral_def)
  then show ?thesis by simp
qed

lemma extractDepsFromValueRef_fun:
  "extractDepsFromValueRef env None = (\<lambda>d. d)"
  "extractDepsFromValueRef env (Some (RefResolver n)) = set_insert n"
  "extractDepsFromValueRef env (Some (RefExpr e)) = extractDepsFromExpression env e"
  "extractDepsFromValueRef env (Some (RefTmpl t)) = extractDepsFromTemplate env t"
  "extractDepsFromValueRef env (Some (RefLiteral l)) = extractDepsFromLiteral env l"
  by (rule ext, simp only: extractDepsFromValueRef.simps)+

lemma additive_valueref [intro, simp]: "additive (extractDepsFromValueRef env r)"
proof (cases r)
  case (Some v)
  then show ?thesis by (cases v) (simp_all only: extractDepsFromValueRef_fun additive_insert
        additive_expr additive_tmpl additive_literal_full)
qed (simp only: extractDepsFromValueRef_fun additive_id)

lemma additive_valueref_tmpl [intro, simp]: "additive (extractDepsFromValueRefTmpl env sc r)"
proof (rule additiveI)
  fix d
  show "set (extractDepsFromValueRefTmpl env sc r d) = set d \<union> set (extractDepsFromValueRefTmpl env sc r [])"
    by (cases "(env, sc, r, d)" rule: extractDepsFromValueRefTmpl.cases)
      (auto simp: Let_def extractDepsFromExpression_def extractDepsFromTemplateCtx_def
        split: option.split gval.split)
qed

lemma additive_pairs:
  "(\<And>k r. additive (f k r)) \<Longrightarrow> additive (fold (\<lambda>(k, r). f k r) kvs)"
  by (rule additive_fold) auto

lemma additive_generic [intro, simp]: "additive (generic_inputs env ins fe)"
proof -
  let ?sc = "buildTmplScanCtx env ins fe"
  have "additive (fold (\<lambda>(k, r). \<lambda>d. if k = ''template'' then extractDepsFromValueRefTmpl env ?sc r d
                       else extractDepsFromValueRef env r d) ins)"
    by (rule additive_pairs) (rule additive_if; simp)
  moreover have "generic_inputs env ins fe = fold (\<lambda>(k, r). \<lambda>d. if k = ''template''
      then extractDepsFromValueRefTmpl env ?sc r d else extractDepsFromValueRef env r d) ins"
    by (rule ext) (simp only: generic_inputs_def Let_def)
  ultimately show ?thesis by simp
qed

lemma provider_inputs_cases:
  "extractDepsFromProviderInputs env p ins fe = (\<lambda>d. None) \<or>
   (\<exists>f. extractDepsFromProviderInputs env p ins fe = (\<lambda>d. Some (f d)) \<and> additive f)"
  by (auto simp: extractDepsFromProviderInputs_def fun_eq_iff intro: exI [of _ "add_all _"]
      split: option.split)

lemma additive_step_refs [intro, simp]: "additive (step_refs env s)"
proof -
  define f where "f = (case s_forEach s of None \<Rightarrow> (\<lambda>d. d) | Some fe \<Rightarrow> extractDepsFromValueRef env (fe_in fe))"
  have f: "additive f" by (cases "s_forEach s") (simp_all add: f_def)
  have a: "additive (fold (\<lambda>(k, r). extractDepsFromValueRef env r) (s_args s))"
    by (rule additive_pairs) simp
  have "additive (\<lambda>d. f (cond_deps env (s_continueOnError s) (cond_deps env (s_when s)
           (fold (\<lambda>(k, r). extractDepsFromValueRef env r) (s_args s) d))))"
    by (rule additive_comp [OF f additive_comp [OF additive_cond additive_comp [OF additive_cond a]]])
  moreover have "step_refs env s = (\<lambda>d. f (cond_deps env (s_continueOnError s) (cond_deps env (s_when s)
           (fold (\<lambda>(k, r). extractDepsFromValueRef env r) (s_args s) d))))"
    by (rule ext) (simp only: step_refs_def f_def)
  ultimately show ?thesis by simp
qed

lemma additive_step_deps [intro, simp]: "additive (step_deps env s)"
  using provider_inputs_cases [of env "s_provider s" "s_inputs s" "s_forEach s"]
proof
  assume n: "extractDepsFromProviderInputs env (s_provider s) (s_inputs s) (s_forEach s) = (\<lambda>d. None)"
  have "step_deps env s = (\<lambda>d. generic_inputs env (s_inputs s) (s_forEach s) (step_refs env s d))"
    by (rule ext) (simp only: step_deps_def n option.case)
  then show ?thesis by (simp add: additive_comp)
next
  assume "\<exists>f. extractDepsFromProviderInputs env (s_provider s) (s_inputs s) (s_forEach s) = (\<lambda>d. Some (f d)) \<and> additive f"
  then obtain f where n: "extractDepsFromProviderInputs env (s_provider s) (s_inputs s) (s_forEach s) = (\<lambda>d. Some (f d))"
    and f: "additive f" by blast
  have "step_deps env s = (\<lambda>d. f (step_refs env s d))"
    by (rule ext) (simp only: step_deps_def n option.case)
  then show ?thesis by (simp add: additive_comp f)
qed

lemma additive_resolve_phase [intro, simp]: "additive (extractDepsFromResolvePhase env ph)"
proof (cases ph)
  case None
  then have "extractDepsFromResolvePhase env ph = (\<lambda>d. d)"
    by (intro ext) (simp add: extractDepsFromResolvePhase_def)
  then show ?thesis by simp
next
  case (Some p)
  have "additive (fold (step_deps env) (rp_with p))" by (rule additive_fold) simp
  from additive_comp [OF this additive_comp [OF additive_cond additive_cond]]
  have "additive (\<lambda>d. fold (step_deps env) (rp_with p) (cond_deps env (rp_until p) (cond_deps env (rp_when p) d)))" .
  moreover have "extractDepsFromResolvePhase env ph =
      (\<lambda>d. fold (step_deps env) (rp_with p) (cond_deps env (rp_until p) (cond_deps env (rp_when p) d)))"
    by (rule ext) (simp only: extractDepsFromResolvePhase_def Some option.case)
  ultimately show ?thesis by simp
qed

lemma additive_names [simp]: "additive (fold add_name ns)"
  by (rule additive_fold) simp

lemma set_fold_add_name: "set (fold add_name ns d) = set d \<union> (set ns - {[]})"
  by (induction ns arbitrary: d) (auto simp: add_name_def)

text \<open>The dependencies are the explicit ones and the inferred ones.\<close>

lemma extractDependencies_set:
  "set (extractDependencies env r) =
     (set (r_dependsOn r) - {[]}) \<union> set (extractInferredDependencies env r)"
proof -
  let ?P = "extractDepsFromResolvePhase env (r_resolve r)"
  let ?W = "cond_deps env (r_when r)"
  have "set (?P (?W d)) = set d \<union> set (?P (?W []))" for d
    by (rule additiveD) (simp add: additive_comp)
  from this [of "fold add_name (r_dependsOn r) []"] show ?thesis
    by (auto simp: extractDependencies_def extractInferredDependencies_def set_fold_add_name)
qed

lemma distinct_extractDependencies: "distinct (extractDependencies env r)"
  by (simp add: extractDependencies_def)

subsection \<open>Strict references are dependencies\<close>

text \<open>
  The comment of \<open>extractStrictDependencies\<close> promises a subset of \<open>ExtractDependencies\<close>.
  That holds when no provider replaces the generic extraction and no literal map pairs
  a \<open>template\<close> with a \<open>data\<close> entry (\<open>plain\<close>), given that the CEL parser's hard references
  are among its references.
\<close>

function (sequential) plain :: "gval \<Rightarrow> bool"
and plain_entries :: "(string \<times> gval) list \<Rightarrow> bool"
and plain_elems :: "gval list \<Rightarrow> bool"
where
  "plain (VMap m) = (\<not> (map_has m ''data'' \<and> map_has m ''template'') \<and> plain_entries m)"
| "plain (VList vs) = plain_elems vs"
| "plain _ = True"
| "plain_entries [] = True"
| "plain_entries ((k, v) # m) = (plain v \<and> plain_entries m)"
| "plain_elems [] = True"
| "plain_elems (v # vs) = (plain v \<and> plain_elems vs)"
  by pat_completeness auto
termination
  by (relation "measure (\<lambda>x. case x of Inl v \<Rightarrow> size v
      | Inr (Inl m) \<Rightarrow> size_list (size_prod (\<lambda>_. 0) size) m
      | Inr (Inr vs) \<Rightarrow> size_list size vs)") simp_all

definition plain_ref :: "value_ref option \<Rightarrow> bool" where
  "plain_ref r = (case r of Some (RefLiteral v) \<Rightarrow> plain v | _ \<Rightarrow> True)"

definition plain_step :: "provider_step \<Rightarrow> bool" where
  "plain_step s =
     ((\<forall>(k, r) \<in> set (s_args s). plain_ref r) \<and>
      (\<forall>(k, r) \<in> set (s_inputs s). k \<noteq> ''template'' \<longrightarrow> plain_ref r) \<and>
      (case s_forEach s of None \<Rightarrow> True | Some fe \<Rightarrow> plain_ref (fe_in fe)))"

definition plain_resolver :: "resolver \<Rightarrow> bool" where
  "plain_resolver r =
     ((case r_resolve r of None \<Rightarrow> True | Some p \<Rightarrow> list_all plain_step (rp_with p)) \<and>
      (case r_transform r of None \<Rightarrow> True | Some p \<Rightarrow> list_all plain_step (tp_with p)))"

definition hard_in_vars :: "deps_env \<Rightarrow> bool" where
  "hard_in_vars env =
     (\<forall>e h opts. de_byopt env e = Some (h, opts) \<longrightarrow>
        (case de_vars env e of None \<Rightarrow> False | Some vs \<Rightarrow> set h \<subseteq> set vs))"

definition generic_only :: "deps_env \<Rightarrow> bool" where
  "generic_only env = (case de_lookup env of None \<Rightarrow> True | Some look \<Rightarrow> \<forall>p. look p = None)"

lemma coversI: "(\<And>d d'. set d \<subseteq> set d' \<Longrightarrow> set (f d) \<subseteq> set (g d')) \<Longrightarrow> covers f g"
  by (simp add: covers_def)

lemma coversD: "covers f g \<Longrightarrow> set d \<subseteq> set d' \<Longrightarrow> set (f d) \<subseteq> set (g d')"
  unfolding covers_def by blast

lemma covers_fold:
  "(\<And>x. x \<in> set xs \<Longrightarrow> covers (f x) (g x)) \<Longrightarrow> covers (fold f xs) (fold g xs)"
proof (rule coversI)
  fix d d' :: "string list"
  show "(\<And>x. x \<in> set xs \<Longrightarrow> covers (f x) (g x)) \<Longrightarrow> set d \<subseteq> set d' \<Longrightarrow>
      set (fold f xs d) \<subseteq> set (fold g xs d')"
  proof (induction xs arbitrary: d d')
    case (Cons x xs)
    from Cons.prems have "covers (f x) (g x)" by simp
    from coversD [OF this Cons.prems(2)] show ?case by (simp add: Cons)
  qed simp
qed

lemma hard_sub_vars:
  assumes "hard_in_vars env" "set d \<subseteq> set d'"
  shows "set (extractHardDepsFromExpression env e d) \<subseteq> set (extractDepsFromExpression env e d')"
proof (cases "de_byopt env e")
  case (Some ho)
  obtain h opts where ho: "ho = (h, opts)" by fastforce
  from assms(1) Some ho obtain vs where "de_vars env e = Some vs" "set h \<subseteq> set vs"
    unfolding hard_in_vars_def by (cases "de_vars env e") fastforce+
  with assms(2) Some ho show ?thesis
    by (auto simp: extractHardDepsFromExpression_def extractDepsFromExpression_def)
qed (use assms(2) additiveD [OF additive_expr, of env e d'] in
      \<open>auto simp: extractHardDepsFromExpression_def\<close>)

lemma covers_hard: "hard_in_vars env \<Longrightarrow>
    covers (extractHardDepsFromExpression env e) (extractDepsFromExpression env e)"
  by (rule coversI) (rule hard_sub_vars)

lemma covers_cond: "hard_in_vars env \<Longrightarrow> covers (strict_cond env c) (cond_deps env c)"
  by (rule coversI) (auto simp: strict_cond_def cond_deps_def split: option.split
      dest: subsetD [OF hard_sub_vars])

lemma literal_string_expr:
  "cel_like s \<Longrightarrow> set (extractDepsFromExpression env s d) \<subseteq> set (literal_string env s exc d)"
  by (auto simp: literal_string_def Let_def extractDepsFromTemplateCtx_def)

lemma template_excludes_plain:
  "\<not> (map_has m ''data'' \<and> map_has m ''template'') \<Longrightarrow> k \<in> set (map_keys m) \<Longrightarrow>
   template_excludes (data_keys env m) k [] = []"
  by (cases "map_of m ''data''")
    (auto simp: template_excludes_def data_keys_def map_has_iff_keys [symmetric] map_has_def
      split: option.split)

lemma literal_ref_strict:
  assumes "hard_in_vars env" "set d \<subseteq> set d'"
  shows "literal_ref env m [] d' = Some x \<Longrightarrow> set (extractStrictFromLiteral env (VMap m) d) \<subseteq> set x"
    and "literal_ref env m [] d' = None \<Longrightarrow>
         extractStrictFromLiteral env (VMap m) d = strict_entries env m d"
proof -
  define s1 where "s1 = (case str_entry m ''rslvr'' of None \<Rightarrow> d | Some r \<Rightarrow> set_insert r d)"
  define s2 where "s2 = (case str_entry m ''expr'' of None \<Rightarrow> s1 | Some e \<Rightarrow> extractHardDepsFromExpression env e s1)"
  define t1 where "t1 = (case str_entry m ''rslvr'' of None \<Rightarrow> d'
                | Some r \<Rightarrow> if r \<in> set [] then d' else set_insert r d')"
  define t2 where "t2 = (case str_entry m ''expr'' of None \<Rightarrow> t1 | Some e \<Rightarrow> extractDepsFromExpression env e t1)"
  define t3 where "t3 = (case str_entry m ''tmpl'' of None \<Rightarrow> t2
                | Some t \<Rightarrow> extractDepsFromTemplateCtx env (scanCtxFromExclude []) t t2)"
  have "set s1 \<subseteq> set t1" using assms(2) by (auto simp: s1_def t1_def split: option.split)
  then have "set s2 \<subseteq> set t2" using hard_sub_vars [OF assms(1)]
    by (simp add: s2_def t2_def split: option.split)
  moreover have "set t2 \<subseteq> set t3" by (auto simp: t3_def extractDepsFromTemplateCtx_def split: option.split)
  ultimately have s: "set s2 \<subseteq> set t3" by blast
  let ?none = "str_entry m ''rslvr'' = None \<and> str_entry m ''expr'' = None \<and> str_entry m ''tmpl'' = None"
  have r: "literal_ref env m [] d' = (if ?none then None else Some t3)"
    by (simp only: literal_ref_def Let_def t1_def t2_def t3_def)
  have e: "extractStrictFromLiteral env (VMap m) d = (if ?none then strict_entries env m s2 else s2)"
    by (simp only: extractStrictFromLiteral.simps Let_def s1_def s2_def split: if_split) auto
  show "literal_ref env m [] d' = Some x \<Longrightarrow> set (extractStrictFromLiteral env (VMap m) d) \<subseteq> set x"
    using s by (simp only: r e split: if_splits) simp_all
  show "literal_ref env m [] d' = None \<Longrightarrow> extractStrictFromLiteral env (VMap m) d = strict_entries env m d"
    by (simp only: r e split: if_splits) (simp_all add: s1_def s2_def)
qed

lemma strict_string_sub:
  assumes h: "hard_in_vars env" and d: "set d \<subseteq> set d'"
  shows "set (extractStrictFromLiteral env (VStr s) d) \<subseteq> set (extractDepsFromLiteralWithExclusions env (VStr s) [] d')"
proof (cases "cel_like s")
  case True
  with hard_sub_vars [OF h d, of s] literal_string_expr [OF True, of env d' "[]"] show ?thesis by simp
next
  case False
  then show ?thesis using additiveD [OF additive_literal_string, of env s "[]" d'] d by auto
qed

lemma strict_literal_sub:
  assumes h: "hard_in_vars env"
  shows "plain v \<Longrightarrow> set d \<subseteq> set d' \<Longrightarrow>
           set (extractStrictFromLiteral env v d) \<subseteq> set (extractDepsFromLiteralWithExclusions env v [] d')"
    and "plain_entries m \<Longrightarrow> set d \<subseteq> set d' \<Longrightarrow> (\<forall>k \<in> set (map_keys m). template_excludes dk k [] = []) \<Longrightarrow>
           set (strict_entries env m d) \<subseteq> set (literal_entries env m dk [] d')"
    and "plain_elems vs \<Longrightarrow> set d \<subseteq> set d' \<Longrightarrow>
           set (strict_elems env vs d) \<subseteq> set (literal_elems env vs [] d')"
proof (induction v and m and vs arbitrary: d d' and d d' dk and d d' rule: plain_plain_entries_plain_elems.induct)
  case (1 m)
  show ?case
  proof (cases "literal_ref env m [] d'")
    case None
    have "set (strict_entries env m d) \<subseteq> set (literal_entries env m (data_keys env m) [] d')"
      using 1 template_excludes_plain [of m _ env] by simp
    with None literal_ref_strict(2) [OF h 1(3)] show ?thesis by simp
  next
    case (Some x)
    with literal_ref_strict(1) [OF h 1(3) Some] show ?thesis by simp
  qed
next
  case (5 k v m)
  then have t: "template_excludes dk k [] = []" by (simp add: map_keys_def)
  have "set (extractStrictFromLiteral env v d) \<subseteq> set (extractDepsFromLiteralWithExclusions env v [] d')"
    using 5 by simp
  with 5 t show ?case by (simp add: map_keys_def)
qed (use strict_string_sub [OF h] in simp_all)

lemma covers_valueref:
  assumes h: "hard_in_vars env" and p: "plain_ref r"
  shows "covers (extractStrictFromValueRef env r) (extractDepsFromValueRef env r)"
proof (rule coversI)
  fix d d' :: "string list" assume d: "set d \<subseteq> set d'"
  show "set (extractStrictFromValueRef env r d) \<subseteq> set (extractDepsFromValueRef env r d')"
  proof (cases r)
    case (Some v)
    show ?thesis
    proof (cases v)
      case (RefLiteral l)
      with strict_literal_sub(1) [OF h _ d, of l] p Some show ?thesis
        by (simp add: plain_ref_def extractDepsFromLiteral_def)
    next
      case (RefExpr e)
      with hard_sub_vars [OF h d] Some show ?thesis by simp
    next
      case (RefTmpl t)
      with d additiveD [OF additive_tmpl, of env t d'] Some show ?thesis by auto
    qed (use d Some in auto)
  qed (use d in simp)
qed

lemma covers_comp: "covers f g \<Longrightarrow> covers f' g' \<Longrightarrow> covers (\<lambda>d. f (f' d)) (\<lambda>d. g (g' d))"
  unfolding covers_def by blast

lemma covers_into: "covers f g \<Longrightarrow> (\<And>d. set (g d) \<subseteq> set (h d)) \<Longrightarrow> covers f h"
  unfolding covers_def by blast

lemma tmpl_input_grows: "set d \<subseteq> set (extractDepsFromValueRefTmpl env sc r d)"
  using additiveD [OF additive_valueref_tmpl, of env sc r d] by blast

lemma covers_inputs:
  assumes h: "hard_in_vars env"
    and p: "\<forall>(k, r) \<in> set ins. k \<noteq> ''template'' \<longrightarrow> plain_ref r"
  shows "covers (extractStrictFromInputs env ins) (generic_inputs env ins fe)"
proof -
  let ?sc = "buildTmplScanCtx env ins fe"
  have "covers (fold (\<lambda>(k, r). \<lambda>d. if k = ''template'' then d else extractStrictFromValueRef env r d) ins)
     (fold (\<lambda>(k, r). \<lambda>d. if k = ''template'' then extractDepsFromValueRefTmpl env ?sc r d
                       else extractDepsFromValueRef env r d) ins)"
  proof (rule covers_fold)
    fix x assume x: "x \<in> set ins"
    obtain k r where kr: "x = (k, r)" by fastforce
    show "covers (case x of (k, r) \<Rightarrow> \<lambda>d. if k = ''template'' then d else extractStrictFromValueRef env r d)
       (case x of (k, r) \<Rightarrow> \<lambda>d. if k = ''template'' then extractDepsFromValueRefTmpl env ?sc r d
                       else extractDepsFromValueRef env r d)"
    proof (cases "k = ''template''")
      case True
      with kr tmpl_input_grows [of _ env ?sc r] show ?thesis by (auto simp: covers_def)
    next
      case False
      with p x kr have "plain_ref r" by auto
      from covers_valueref [OF h this] False kr show ?thesis by simp
    qed
  qed
  then show ?thesis
    by (simp add: covers_def extractStrictFromInputs_def generic_inputs_def Let_def)
qed

lemma covers_step:
  assumes h: "hard_in_vars env" and g: "generic_only env" and p: "plain_step s"
  shows "covers (strict_step env s) (step_deps env s)"
proof -
  define f1 where "f1 = (case s_forEach s of None \<Rightarrow> (\<lambda>d. d) | Some fe \<Rightarrow> extractStrictFromValueRef env (fe_in fe))"
  define f2 where "f2 = (case s_forEach s of None \<Rightarrow> (\<lambda>d. d) | Some fe \<Rightarrow> extractDepsFromValueRef env (fe_in fe))"
  have f: "covers f1 f2" using p covers_valueref [OF h]
    by (cases "s_forEach s") (simp_all add: f1_def f2_def plain_step_def covers_def)
  have a: "covers (fold (\<lambda>(k, r). extractStrictFromValueRef env r) (s_args s))
       (fold (\<lambda>(k, r). extractDepsFromValueRef env r) (s_args s))"
    using p covers_valueref [OF h] by (intro covers_fold) (auto simp: plain_step_def)
  have i: "covers (extractStrictFromInputs env (s_inputs s)) (generic_inputs env (s_inputs s) (s_forEach s))"
    using p by (intro covers_inputs [OF h]) (auto simp: plain_step_def)
  have n: "extractDepsFromProviderInputs env p ins fe d = None" for p ins fe d
    using g by (auto simp: generic_only_def extractDepsFromProviderInputs_def split: option.splits)
  have c: "covers (strict_cond env c) (cond_deps env c)" for c by (rule covers_cond [OF h])
  from covers_comp [OF i covers_comp [OF f covers_comp [OF c covers_comp [OF c a]]]]
  show ?thesis unfolding covers_def
    by (simp only: strict_step_def step_deps_def step_refs_def n option.case f1_def f2_def)
qed

lemma covers_resolve:
  assumes "hard_in_vars env" "generic_only env" "case ph of None \<Rightarrow> True | Some p \<Rightarrow> list_all plain_step (rp_with p)"
  shows "covers (extractStrictFromResolvePhase env ph) (extractDepsFromResolvePhase env ph)"
proof (cases ph)
  case (Some p)
  have c: "covers (strict_cond env c) (cond_deps env c)" for c by (rule covers_cond [OF assms(1)])
  have "covers (fold (strict_step env) (rp_with p)) (fold (step_deps env) (rp_with p))"
    using assms Some by (intro covers_fold covers_step) (auto simp: list_all_iff)
  from covers_comp [OF this covers_comp [OF c c]] Some show ?thesis
    unfolding covers_def extractStrictFromResolvePhase_def extractDepsFromResolvePhase_def by simp
qed (simp add: covers_def extractStrictFromResolvePhase_def extractDepsFromResolvePhase_def)

lemma covers_transform:
  assumes "hard_in_vars env" "generic_only env" "case ph of None \<Rightarrow> True | Some p \<Rightarrow> list_all plain_step (tp_with p)"
  shows "covers (extractStrictFromTransformPhase env ph) (extractDepsFromTransformPhase env ph)"
proof (cases ph)
  case (Some p)
  have c: "covers (strict_cond env c) (cond_deps env c)" for c by (rule covers_cond [OF assms(1)])
  have "covers (fold (strict_step env) (tp_with p)) (fold (step_deps env) (tp_with p))"
    using assms Some by (intro covers_fold covers_step) (auto simp: list_all_iff)
  from covers_comp [OF this c] Some show ?thesis
    unfolding covers_def extractStrictFromTransformPhase_def extractDepsFromTransformPhase_def by simp
qed (simp add: covers_def extractStrictFromTransformPhase_def extractDepsFromTransformPhase_def)

lemma additive_transform_phase [intro, simp]: "additive (extractDepsFromTransformPhase env ph)"
proof (cases ph)
  case None
  then have "extractDepsFromTransformPhase env ph = (\<lambda>d. d)"
    by (intro ext) (simp add: extractDepsFromTransformPhase_def)
  then show ?thesis by simp
next
  case (Some p)
  have "additive (fold (step_deps env) (tp_with p))" by (rule additive_fold) simp
  from additive_comp [OF this additive_cond]
  have "additive (\<lambda>d. fold (step_deps env) (tp_with p) (cond_deps env (tp_when p) d))" .
  moreover have "extractDepsFromTransformPhase env ph =
      (\<lambda>d. fold (step_deps env) (tp_with p) (cond_deps env (tp_when p) d))"
    by (rule ext) (simp only: extractDepsFromTransformPhase_def Some option.case)
  ultimately show ?thesis by simp
qed

lemma strict_subset_dependencies:
  assumes h: "hard_in_vars env" and g: "generic_only env" and p: "plain_resolver r"
  shows "set (extractStrictDependencies env r) \<subseteq> set (extractDependencies env r)"
proof -
  have p1: "case r_resolve r of None \<Rightarrow> True | Some p \<Rightarrow> list_all plain_step (rp_with p)"
    and p2: "case r_transform r of None \<Rightarrow> True | Some p \<Rightarrow> list_all plain_step (tp_with p)"
    using p by (simp_all add: plain_resolver_def)
  let ?E = "fold add_name (r_dependsOn r) []"
  let ?D = "extractDepsFromResolvePhase env (r_resolve r) (cond_deps env (r_when r) ?E)"
  let ?S = "extractStrictFromResolvePhase env (r_resolve r) (strict_cond env (r_when r) ?E)"
  have "set (strict_cond env (r_when r) ?E) \<subseteq> set (cond_deps env (r_when r) ?E)"
    by (rule coversD [OF covers_cond [OF h] subset_refl])
  then have "set ?S \<subseteq> set ?D" by (rule coversD [OF covers_resolve [OF h g p1]])
  then have "set (extractStrictFromTransformPhase env (r_transform r) ?S)
      \<subseteq> set (extractDepsFromTransformPhase env (r_transform r) ?D)"
    by (rule coversD [OF covers_transform [OF h g p2]])
  also have "\<dots> = set ?D \<union> set (extractDepsFromTransformPhase env (r_transform r) [])"
    by (rule additiveD) simp
  finally show ?thesis
    by (auto simp: extractStrictDependencies_def extractDependencies_def transform_deps_def)
qed


subsection \<open>The partition of a validate phase\<close>

text \<open>A rule defers exactly when the phase guard or the rule itself refers to another resolver.\<close>

definition phase_foreign :: "deps_env \<Rightarrow> validate_phase \<Rightarrow> string \<Rightarrow> string set" where
  "phase_foreign env p self = set (cond_deps env (vp_when p) []) - {self}"

definition rule_foreign :: "deps_env \<Rightarrow> provider_validation \<Rightarrow> string \<Rightarrow> string set" where
  "rule_foreign env v self = set (extractDepsFromValidationRule env v []) - {self}"

lemma classify_set: "set (classifyValidationRule env v self) = rule_foreign env v self"
  by (simp add: classifyValidationRule_def rule_foreign_def)

lemma classify_Nil: "classifyValidationRule env v self = [] \<longleftrightarrow> rule_foreign env v self = {}"
  by (metis classify_set set_empty)

lemma fold_partition_rule:
  "pt_phaseWhen (fold (partition_rule env self) ivs p) = pt_phaseWhen p"
  "pt_inline (fold (partition_rule env self) ivs p) = pt_inline p @
     map fst (filter (\<lambda>(i, v). \<not> pt_phaseWhen p \<and> rule_foreign env v self = {}) ivs)"
  "pt_deferred (fold (partition_rule env self) ivs p) = pt_deferred p @
     map fst (filter (\<lambda>(i, v). pt_phaseWhen p \<or> rule_foreign env v self \<noteq> {}) ivs)"
  "set (pt_refs (fold (partition_rule env self) ivs p)) = set (pt_refs p) \<union>
     (\<Union>(i, v) \<in> set ivs. rule_foreign env v self)"
  by (induction ivs arbitrary: p)
    (auto simp: partition_rule_def Let_def classify_set classify_Nil split_def)

lemma partition_facts:
  assumes "ph = Some p"
  shows "pt_phaseWhen (partitionValidatePhaseFor env ph self) = (phase_foreign env p self \<noteq> {})"
    and "pt_inline (partitionValidatePhaseFor env ph self) =
           map fst (filter (\<lambda>(i, v). phase_foreign env p self = {} \<and> rule_foreign env v self = {})
             (List.enumerate 0 (vp_with p)))"
    and "pt_deferred (partitionValidatePhaseFor env ph self) =
           map fst (filter (\<lambda>(i, v). phase_foreign env p self \<noteq> {} \<or> rule_foreign env v self \<noteq> {})
             (List.enumerate 0 (vp_with p)))"
    and "set (pt_refs (partitionValidatePhaseFor env ph self)) =
           phase_foreign env p self \<union> (\<Union>v \<in> set (vp_with p). rule_foreign env v self)"
proof -
  let ?w = "removeAll self (cond_deps env (vp_when p) [])"
  have w: "?w = [] \<longleftrightarrow> phase_foreign env p self = {}"
    unfolding phase_foreign_def by (metis set_empty set_removeAll)
  have ws: "set ?w = phase_foreign env p self" by (simp add: phase_foreign_def)
  have u: "(\<Union>(i, v) \<in> set (List.enumerate 0 (vp_with p)). rule_foreign env v self)
      = (\<Union>v \<in> set (vp_with p). rule_foreign env v self)"
  proof -
    have "(\<Union>(i, v) \<in> set (List.enumerate 0 (vp_with p)). rule_foreign env v self)
      = (\<Union>v \<in> snd ` set (List.enumerate 0 (vp_with p)). rule_foreign env v self)" by auto
    also have "snd ` set (List.enumerate 0 (vp_with p)) = set (vp_with p)"
      by (metis list.set_map map_snd_enumerate)
    finally show ?thesis .
  qed
  note f = partitionValidatePhaseFor_def Let_def assms option.case fold_partition_rule empty_partition_def
  show "pt_phaseWhen (partitionValidatePhaseFor env ph self) = (phase_foreign env p self \<noteq> {})"
    by (simp add: f w)
  show "pt_inline (partitionValidatePhaseFor env ph self) =
           map fst (filter (\<lambda>(i, v). phase_foreign env p self = {} \<and> rule_foreign env v self = {})
             (List.enumerate 0 (vp_with p)))"
    by (simp add: f w)
  show "pt_deferred (partitionValidatePhaseFor env ph self) =
           map fst (filter (\<lambda>(i, v). phase_foreign env p self \<noteq> {} \<or> rule_foreign env v self \<noteq> {})
             (List.enumerate 0 (vp_with p)))"
    by (simp add: f w)
  show "set (pt_refs (partitionValidatePhaseFor env ph self)) =
           phase_foreign env p self \<union> (\<Union>v \<in> set (vp_with p). rule_foreign env v self)"
    using ws w by (auto simp: f u)
qed

section \<open>Properties\<close>

text \<open>A parser whose expressions are single variables, for the concrete instances.\<close>

definition sample_deps_env :: deps_env where
  "sample_deps_env = \<lparr>de_vars = (\<lambda>e. Some [e]), de_byopt = (\<lambda>e. Some ([e], [])), de_mapkeys = (\<lambda>_. None),
     de_tmpl = (\<lambda>t _ _. Some [\<lparr>tr_path = ''.'' @ t, tr_scoped = False\<rparr>]), de_lookup = None, de_pick = (\<lambda>_. 0)\<rparr>"

definition sample_step :: "value_ref \<Rightarrow> provider_step" where
  "sample_step v = \<lparr>s_call = [], s_args = [], s_provider = ''p'', s_inputs = [(''v'', Some v)], s_when = None,
     s_continueOnError = None, s_onError = OnErrorUnset, s_forEach = None\<rparr>"

definition sample_resolver :: "string \<Rightarrow> string list \<Rightarrow> value_ref \<Rightarrow> resolver" where
  "sample_resolver n on v = \<lparr>r_name = n, r_sensitive = False, r_type = [], r_when = None, r_dependsOn = on,
     r_resolve = Some \<lparr>rp_with = [sample_step v], rp_until = None, rp_when = None\<rparr>,
     r_transform = None, r_validate = None, r_message = None\<rparr>"

text \<open>The dependencies of a resolver are its non-empty \<open>dependsOn\<close> entries together with the inferred
  ones, each once; and the inferred ones do not depend on \<open>dependsOn\<close>.\<close>

theorem dependencies_explicit_and_inferred:
  "set (extractDependencies env r) = (set (r_dependsOn r) - {[]}) \<union> set (extractInferredDependencies env r) \<and>
   distinct (extractDependencies env r) \<and>
   extractInferredDependencies env (r\<lparr>r_dependsOn := on\<rparr>) = extractInferredDependencies env r"
  using extractDependencies_set [of env r] distinct_extractDependencies [of env r]
  by (simp add: extractInferredDependencies_def transform_deps_def)

text \<open>Strict references are dependencies, when the CEL parser's hard references are among its references,
  no provider replaces the generic extraction and no literal map pairs a template with data.\<close>

theorem strict_references_are_dependencies:
  assumes "hard_in_vars env" "generic_only env" "plain_resolver r"
  shows "set (extractStrictDependencies env r) \<subseteq> set (extractDependencies env r)"
  by (rule strict_subset_dependencies [OF assms])

theorem strict_references_are_dependencies_witness:
  "extractStrictDependencies sample_deps_env (sample_resolver ''b'' [] (RefResolver ''a'')) = [''a''] \<and>
   ''a'' \<in> set (extractDependencies sample_deps_env (sample_resolver ''b'' [] (RefResolver ''a'')))"
proof -
  let ?r = "sample_resolver ''b'' [] (RefResolver ''a'')"
  have "hard_in_vars sample_deps_env" by (simp add: hard_in_vars_def sample_deps_env_def)
  moreover have "generic_only sample_deps_env" by (simp add: generic_only_def sample_deps_env_def)
  moreover have "plain_resolver ?r"
    by (simp add: plain_resolver_def sample_resolver_def sample_step_def plain_step_def plain_ref_def)
  ultimately have "set (extractStrictDependencies sample_deps_env ?r) \<subseteq> set (extractDependencies sample_deps_env ?r)"
    by (rule strict_references_are_dependencies)
  moreover have s: "extractStrictDependencies sample_deps_env ?r = [''a'']" by code_simp
  ultimately show ?thesis by simp
qed

text \<open>The comment of \<open>extractStrictDependencies\<close> promises that subset for every resolver; it fails for a
  literal map whose template entry refers to a resolver that its data also names.\<close>

theorem strict_reference_missing:
  "\<exists>env r. hard_in_vars env \<and> generic_only env \<and>
     \<not> set (extractStrictDependencies env r) \<subseteq> set (extractDependencies env r)"
proof (intro exI conjI)
  let ?v = "RefLiteral (VMap [(''template'', VMap [(''rslvr'', VStr ''x'')]), (''data'', VMap [(''x'', VInt 1)])])"
  show "hard_in_vars sample_deps_env" by (simp add: hard_in_vars_def sample_deps_env_def)
  show "generic_only sample_deps_env" by (simp add: generic_only_def sample_deps_env_def)
  have "''x'' \<in> set (extractStrictDependencies sample_deps_env (sample_resolver ''b'' [] ?v))" by code_simp
  moreover have "\<not> ''x'' \<in> set (extractDependencies sample_deps_env (sample_resolver ''b'' [] ?v))" by code_simp
  ultimately show "\<not> set (extractStrictDependencies sample_deps_env (sample_resolver ''b'' [] ?v))
      \<subseteq> set (extractDependencies sample_deps_env (sample_resolver ''b'' [] ?v))" by blast
qed

text \<open>The partition of a validate phase: a rule is deferred exactly when the phase guard or the rule refers
  to another resolver, every rule is inline or deferred but not both, and the references of the
  deferred work are those of the guard and of all rules.\<close>

theorem validate_partition_spec:
  assumes "r_validate r = Some p"
  shows "let part = partitionValidatePhase env r;
             foreign = (\<lambda>i. phase_foreign env p (r_name r) \<noteq> {} \<or> rule_foreign env (vp_with p ! i) (r_name r) \<noteq> {}) in
         pt_deferred part = filter foreign [0 ..< length (vp_with p)] \<and>
         pt_inline part = filter (\<lambda>i. \<not> foreign i) [0 ..< length (vp_with p)] \<and>
         set (pt_refs part) = phase_foreign env p (r_name r) \<union> (\<Union>v \<in> set (vp_with p). rule_foreign env v (r_name r)) \<and>
         pt_phaseWhen part = (phase_foreign env p (r_name r) \<noteq> {})"
proof -
  have en: "map fst (filter (\<lambda>(i, v). P v) (List.enumerate 0 xs)) = filter (\<lambda>i. P (xs ! i)) [0 ..< length xs]"
    for P and xs :: "provider_validation list"
  proof -
    have "List.enumerate 0 xs = map (\<lambda>i. (i, xs ! i)) [0 ..< length xs]"
      by (rule nth_equalityI) (simp_all add: nth_enumerate_eq)
    then show ?thesis by (simp add: filter_map comp_def)
  qed
  show ?thesis
    using partition_facts [OF assms, of env "r_name r", unfolded en]
    by (simp add: Let_def partitionValidatePhase_def)
qed

theorem validate_partition_spec_witness:
  "pt_deferred (partitionValidatePhase sample_deps_env ((sample_resolver ''b'' [] (RefLiteral (VInt 1)))
     \<lparr>r_validate := Some \<lparr>vp_with = [\<lparr>s_call = [], s_args = [], s_provider = ''v'',
        s_inputs = [(''e'', Some (RefExpr ''b''))], s_when = None, s_message = None\<rparr>,
       \<lparr>s_call = [], s_args = [], s_provider = ''v'', s_inputs = [(''e'', Some (RefExpr ''a''))], s_when = None,
        s_message = None\<rparr>], vp_when = None\<rparr>\<rparr>)) = [1]"
proof -
  let ?p = "\<lparr>vp_with = [\<lparr>s_call = [], s_args = [], s_provider = ''v'',
        s_inputs = [(''e'', Some (RefExpr ''b''))], s_when = None, s_message = None\<rparr>,
       \<lparr>s_call = [], s_args = [], s_provider = ''v'', s_inputs = [(''e'', Some (RefExpr ''a''))], s_when = None,
        s_message = None\<rparr>], vp_when = None\<rparr>"
  let ?r = "(sample_resolver ''b'' [] (RefLiteral (VInt 1)))\<lparr>r_validate := Some ?p\<rparr>"
  have v: "r_validate ?r = Some ?p" by simp
  have n: "r_name ?r = ''b''" by (simp add: sample_resolver_def)
  have "phase_foreign sample_deps_env ?p ''b'' = {}" by (simp add: phase_foreign_def cond_deps_def)
  moreover have "classifyValidationRule sample_deps_env (vp_with ?p ! 0) ''b'' = []"
    "classifyValidationRule sample_deps_env (vp_with ?p ! 1) ''b'' = [''a'']" by code_simp+
  then have "rule_foreign sample_deps_env (vp_with ?p ! 0) ''b'' = {}"
    "rule_foreign sample_deps_env (vp_with ?p ! 1) ''b'' \<noteq> {}" unfolding classify_set [symmetric] by simp_all
  ultimately show ?thesis
    using validate_partition_spec [OF v, of sample_deps_env] unfolding Let_def n by (simp add: upt_rec)
qed

end
