(* ===== verification/Phases.thy ===== *)
theory Phases
  imports Dag_Sched Resolver_Deps
begin

text \<open>
  \<open>pkg/resolver/phase.go\<close>: grouping resolvers into execution phases.

  \<open>BuildPhasesWithCalls\<close> extracts the dependencies (\<open>Resolver_Deps\<close>), builds the DAG
  (\<open>Dag\<close>), and repeatedly asks it for the schedulable objects (\<open>Dag_Sched\<close>).
  Resolver pointers are never nil here; \<open>pick\<close> fixes the order of Go's set iteration
  and \<open>PopAny\<close>.
\<close>

record phase_group =
  pg_phase :: nat
  pg_resolvers :: "resolver list"

record plan =
  pl_phase :: nat
  pl_dependsOn :: "string list"
  pl_count :: nat

record deferred_unit =
  du_resolver :: string
  du_rules :: "nat list"
  du_dependsOn :: "string list"
  du_phaseWhen :: bool

datatype phase_error =
    GraphError dag_error
  | CandidateError nat "string list"
  | InfiniteLoop
  | MissingResolvers "string list"

record build_result =
  br_phases :: "phase_group list"
  br_plan :: "plan gomap"
  br_deps :: "string list gomap"
  br_deferred :: "deferred_unit list"

definition names :: "resolver list \<Rightarrow> string list" where
  "names rs = map r_name rs"

definition resolver_map :: "resolver list \<Rightarrow> resolver gomap" where
  "resolver_map rs = fold (\<lambda>r m. map_put (r_name r) r m) rs []"

definition effective_deps :: "deps_env \<Rightarrow> resolver gomap \<Rightarrow> resolver \<Rightarrow> string list" where
  "effective_deps env rm r =
     filter (\<lambda>d. map_has rm d \<or> d \<in> set (extractStrictDependenciesWithCalls env r))
       (extractDependenciesWithCalls env r)"

definition deps_map :: "deps_env \<Rightarrow> resolver list \<Rightarrow> string list gomap" where
  "deps_map env rs =
     fold (\<lambda>r m. map_put (r_name r) (effective_deps env (resolver_map rs) r) m) rs []"

definition phase_resolvers :: "resolver gomap \<Rightarrow> string list \<Rightarrow> resolver list" where
  "phase_resolvers rm ns = List.map_filter (map_of rm) ns"

function phase_loop ::
  "(string list \<Rightarrow> nat) \<Rightarrow> graph \<Rightarrow> resolver gomap \<Rightarrow> nat \<Rightarrow> nat \<Rightarrow> string list \<Rightarrow>
   phase_group list \<Rightarrow> phase_error + (phase_group list \<times> string list)"
where
  "phase_loop pick g rm n phaseNum dn phases =
     (case GetCandidateDagObjects g (sets_List dn) of
        Inl bad \<Rightarrow> Inl (CandidateError phaseNum bad)
      | Inr cs \<Rightarrow>
          (if cs = [] then Inr (phases, dn)
           else (let phases' = phases @ [\<lparr>pg_phase = phaseNum,
                                            pg_resolvers = phase_resolvers rm (range_set pick cs)\<rparr>];
                     dn' = fold set_insert cs dn
                 in if Suc phaseNum > n + 1 then Inl InfiniteLoop
                    else phase_loop pick g rm n (Suc phaseNum) dn' phases')))"
  by pat_completeness auto
termination
  by (relation "measure (\<lambda>(pick, g, rm, n, phaseNum, dn, phases). n + 1 - phaseNum)") auto

declare phase_loop.simps [simp del]

definition group_plan :: "string list gomap \<Rightarrow> phase_group \<Rightarrow> plan gomap \<Rightarrow> plan gomap" where
  "group_plan deps pg pm =
     fold (\<lambda>r m. let d = map_get [] deps (r_name r) in
                 map_put (r_name r)
                   \<lparr>pl_phase = pg_phase pg, pl_dependsOn = d, pl_count = length d\<rparr> m)
       (pg_resolvers pg) pm"

definition plan_data :: "string list gomap \<Rightarrow> phase_group list \<Rightarrow> plan gomap" where
  "plan_data deps phases = fold (group_plan deps) phases []"

definition deferred_unit_of :: "deps_env \<Rightarrow> resolver \<Rightarrow> deferred_unit option" where
  "deferred_unit_of env r =
     (let part = partitionValidatePhase env r in
      if \<not> HasDeferred part then None
      else Some \<lparr>du_resolver = r_name r, du_rules = pt_deferred part,
                 du_dependsOn = sort (pt_refs part), du_phaseWhen = pt_phaseWhen part\<rparr>)"

definition buildDeferredWork :: "deps_env \<Rightarrow> resolver list \<Rightarrow> deferred_unit list" where
  "buildDeferredWork env rs = List.map_filter (deferred_unit_of env) rs"

definition BuildPhasesWithCalls ::
  "(string list \<Rightarrow> nat) \<Rightarrow> deps_env \<Rightarrow> resolver list \<Rightarrow> phase_error + build_result"
where
  "BuildPhasesWithCalls pick env rs =
     (if rs = [] then Inr \<lparr>br_phases = [], br_plan = [], br_deps = [], br_deferred = []\<rparr>
      else
        (let deps = deps_map env rs; rm = resolver_map rs in
         case Build pick (names rs) deps of
           Inl e \<Rightarrow> Inl (GraphError e)
         | Inr g \<Rightarrow>
             (case phase_loop pick g rm (length rs) 1 [] [] of
                Inl e \<Rightarrow> Inl e
              | Inr (phases, dn) \<Rightarrow>
                  (if length dn \<noteq> length rs
                   then Inl (MissingResolvers (filter (\<lambda>n. n \<notin> set dn) (names rs)))
                   else Inr \<lparr>br_phases = phases, br_plan = plan_data deps phases, br_deps = deps,
                             br_deferred = buildDeferredWork env rs\<rparr>))))"

definition GetPhaseForResolver :: "phase_group list \<Rightarrow> string \<Rightarrow> nat" where
  "GetPhaseForResolver phases n =
     (case find (\<lambda>pg. n \<in> set (names (pg_resolvers pg))) phases of
        None \<Rightarrow> 0 | Some pg \<Rightarrow> pg_phase pg)"

definition GetMaxPhase :: "phase_group list \<Rightarrow> nat" where
  "GetMaxPhase phases = fold (\<lambda>pg m. if pg_phase pg > m then pg_phase pg else m) phases 0"

definition GetResolversInPhase :: "phase_group list \<Rightarrow> nat \<Rightarrow> resolver list" where
  "GetResolversInPhase phases k =
     (case find (\<lambda>pg. pg_phase pg = k) phases of None \<Rightarrow> [] | Some pg \<Rightarrow> pg_resolvers pg)"

definition plan_ToMap :: "plan gomap \<Rightarrow> gval" where
  "plan_ToMap p =
     VMap (map (\<lambda>(n, rp). (n, VMap [(''phase'', VInt (int (pl_phase rp))),
                                    (''dependsOn'', VList (map VStr (pl_dependsOn rp))),
                                    (''dependencyCount'', VInt (int (pl_count rp)))])) p)"

subsection \<open>The two maps\<close>

lemma resolver_map_has: "map_has (resolver_map rs) n \<longleftrightarrow> n \<in> set (names rs)"
  unfolding map_has_def resolver_map_def fold_put_of
  by (auto simp: names_def find_None_iff dest: find_SomeD split: option.split)

lemma resolver_map_of:
  "distinct (names rs) \<Longrightarrow> r \<in> set rs \<Longrightarrow> map_of (resolver_map rs) (r_name r) = Some r"
  unfolding resolver_map_def fold_put_of by (simp add: names_def find_key)

lemma deps_map_keys: "set (map_keys (deps_map env rs)) = set (names rs)"
proof (rule set_eqI)
  fix n
  show "n \<in> set (map_keys (deps_map env rs)) \<longleftrightarrow> n \<in> set (names rs)"
    unfolding map_has_iff_keys [symmetric] map_has_def deps_map_def fold_put_of
    by (auto simp: names_def find_None_iff dest: find_SomeD split: option.split)
qed

lemma deps_map_distinct: "distinct (map_keys (deps_map env rs))"
  unfolding deps_map_def by (rule fold_put_distinct) (simp add: map_keys_def)

lemma deps_map_of:
  "distinct (names rs) \<Longrightarrow> r \<in> set rs \<Longrightarrow>
   deps_of (deps_map env rs) (r_name r) = effective_deps env (resolver_map rs) r"
  unfolding deps_of_def map_get_def deps_map_def fold_put_of by (simp add: names_def find_key)

subsection \<open>The loop runs through a phase schedule\<close>

lemma names_phase_resolvers:
  assumes dist: "distinct (names rs)"
  shows "set ns \<subseteq> set (names rs) \<Longrightarrow> names (phase_resolvers (resolver_map rs) ns) = ns"
    and "set (phase_resolvers (resolver_map rs) ns) \<subseteq> set rs"
proof -
  have r: "\<exists>r \<in> set rs. map_of (resolver_map rs) n = Some r \<and> r_name r = n" if "n \<in> set (names rs)" for n
    using that resolver_map_of [OF dist] by (auto simp: names_def)
  show "set ns \<subseteq> set (names rs) \<Longrightarrow> names (phase_resolvers (resolver_map rs) ns) = ns"
  proof (induction ns)
    case (Cons n ns)
    with r [of n] show ?case by (auto simp: phase_resolvers_def names_def map_filter_simps)
  qed (simp add: phase_resolvers_def names_def map_filter_simps)
  have "map_of (resolver_map rs) n = Some r \<Longrightarrow> r \<in> set rs" for n r
    unfolding resolver_map_def fold_put_of by (auto dest: find_SomeD split: option.splits)
  then show "set (phase_resolvers (resolver_map rs) ns) \<subseteq> set rs"
    by (auto simp: phase_resolvers_def List.map_filter_def)
qed

lemma length_fold_set_insert:
  "distinct cs \<Longrightarrow> set cs \<inter> set dn = {} \<Longrightarrow> length (fold set_insert cs dn) = length dn + length cs"
  by (induction cs arbitrary: dn) (auto simp: set_insert_def)

definition phase_names :: "phase_group list \<Rightarrow> string list list" where
  "phase_names pgs = map (\<lambda>pg. names (pg_resolvers pg)) pgs"

lemma phase_loop_schedule:
  assumes dist: "distinct (map_keys deps)" and ok: "Build pick (names rs) deps = Inr g"
  shows "dep_closed (set (names rs)) (\<lambda>r. set (deps_of deps r)) (set dn) \<Longrightarrow> distinct dn \<Longrightarrow>
     phaseNum \<le> length dn + 1 \<Longrightarrow>
     \<exists>ps dn'. phase_loop pick' g (resolver_map rs) (length rs) phaseNum dn phases = Inr (phases @ ps, dn') \<and>
       set dn' = set (names rs) \<and> distinct dn' \<and>
       schedule_from (set (names rs)) (\<lambda>r. set (deps_of deps r)) (set dn) (phase_names ps) \<and>
       map pg_phase ps = [phaseNum ..< phaseNum + length ps] \<and>
       (\<forall>pg \<in> set ps. set (pg_resolvers pg) \<subseteq> set rs)"
proof (induction "length rs + 1 - phaseNum" arbitrary: phaseNum dn phases rule: less_induct)
  case less
  define N where "N = set (names rs)"
  define D where "D = (\<lambda>r. set (deps_of deps r))"
  have dn: "distinct (names rs)" using Build_Inr(1) [OF dist ok] .
  have card: "card N = length rs" using distinct_card [OF dn] by (simp add: N_def names_def)
  obtain cs where cs: "GetCandidateDagObjects g (sets_List dn) = Inr cs" "distinct cs"
    "set cs = ready N D (set dn)"
    using candidates_ready [OF dist ok, of "sets_List dn"] less.prems(1) by (auto simp: N_def D_def)
  show ?case
  proof (cases "cs = []")
    case True
    then have "ready N D (set dn) = {}" using cs(3) by simp
    then have "N \<subseteq> set dn"
      using built.ready_empty_iff [of pick "names rs" deps "set dn"] built_graph [OF dist ok]
      by (simp add: N_def D_def)
    moreover have "set dn \<subseteq> N" using less.prems(1) by (simp add: dep_closed_def N_def)
    ultimately have "set dn = N" by blast
    moreover have "phase_loop pick' g (resolver_map rs) (length rs) phaseNum dn phases = Inr (phases @ [], dn)"
      by (subst phase_loop.simps) (simp add: cs(1) True)
    ultimately show ?thesis using less.prems(2)
      by (intro exI [of _ "[]"] exI [of _ dn]) (simp add: N_def phase_names_def)
  next
    case False
    let ?pg = "\<lparr>pg_phase = phaseNum, pg_resolvers = phase_resolvers (resolver_map rs) (range_set pick' cs)\<rparr>"
    let ?dn = "fold set_insert cs dn"
    have sub: "set cs \<subseteq> N" and fresh: "set cs \<inter> set dn = {}" using cs(3) by (auto simp: ready_def)
    have len: "length ?dn = length dn + length cs" by (rule length_fold_set_insert [OF cs(2) fresh])
    have set_dn: "set ?dn = set dn \<union> set cs" by simp
    have closed: "dep_closed N D (set ?dn)"
      using dep_closed_ready [of N D "set dn"] less.prems(1) cs(3) by (simp add: N_def D_def)
    have ddn: "distinct ?dn" using less.prems(2) by simp
    have "length ?dn \<le> card N"
      using closed distinct_card [OF ddn] by (metis N_def List.finite_set card_mono dep_closed_def)
    moreover have cpos: "length cs > 0" using False by simp
    ultimately have le: "phaseNum \<le> length rs" using less.prems(3) len card by linarith
    have less1: "length rs + 1 - Suc phaseNum < length rs + 1 - phaseNum" using le by linarith
    have bound: "Suc phaseNum \<le> length ?dn + 1" using len cpos less.prems(3) by linarith
    obtain ps dn' where ps:
      "phase_loop pick' g (resolver_map rs) (length rs) (Suc phaseNum) ?dn (phases @ [?pg]) =
         Inr ((phases @ [?pg]) @ ps, dn')"
      "set dn' = N" "distinct dn'" "schedule_from N D (set ?dn) (phase_names ps)"
      "map pg_phase ps = [Suc phaseNum ..< Suc phaseNum + length ps]"
      "\<forall>pg \<in> set ps. set (pg_resolvers pg) \<subseteq> set rs"
      using less.hyps [OF less1 closed [unfolded N_def D_def] ddn bound, of "phases @ [?pg]"]
      unfolding N_def D_def by blast
    have step: "phase_loop pick' g (resolver_map rs) (length rs) phaseNum dn phases =
        Inr (phases @ (?pg # ps), dn')"
      by (subst phase_loop.simps) (use cs(1) False le ps(1) in \<open>simp add: Let_def\<close>)
    have nm: "names (pg_resolvers ?pg) = range_set pick' cs"
      using names_phase_resolvers(1) [OF dn, of "range_set pick' cs"] sub by (simp add: N_def)
    have ne: "range_set pick' cs \<noteq> []" using False by (metis set_empty set_range_set)
    have "schedule_from N D (set dn) (phase_names (?pg # ps))"
      using ps(4) ne cs(3) nm set_dn by (simp add: phase_names_def)
    moreover have "map pg_phase (?pg # ps) = [phaseNum ..< phaseNum + length (?pg # ps)]"
      using ps(5) by (simp add: upt_conv_Cons del: upt_Suc)
    moreover have "\<forall>pg \<in> set (?pg # ps). set (pg_resolvers pg) \<subseteq> set rs"
      using ps(6) names_phase_resolvers(2) [OF dn] by simp
    ultimately show ?thesis using step ps(2,3) unfolding N_def D_def by blast
  qed
qed

subsection \<open>What a successful build guarantees\<close>

definition phase_deps :: "build_result \<Rightarrow> string \<Rightarrow> string set" where
  "phase_deps br n = set (deps_of (br_deps br) n)"

lemma BuildPhases_cases:
  assumes ne: "rs \<noteq> []"
  shows "Build pick (names rs) (deps_map env rs) = Inl e \<Longrightarrow>
           BuildPhasesWithCalls pick env rs = Inl (GraphError e)"
    and "Build pick (names rs) (deps_map env rs) = Inr g \<Longrightarrow>
           \<exists>ps. BuildPhasesWithCalls pick env rs =
                  Inr \<lparr>br_phases = ps, br_plan = plan_data (deps_map env rs) ps, br_deps = deps_map env rs,
                       br_deferred = buildDeferredWork env rs\<rparr> \<and>
                phase_schedule (set (names rs)) (\<lambda>r. set (deps_of (deps_map env rs) r)) (phase_names ps) \<and>
                map pg_phase ps = [1 ..< 1 + length ps] \<and>
                (\<forall>pg \<in> set ps. set (pg_resolvers pg) \<subseteq> set rs)"
proof -
  show "Build pick (names rs) (deps_map env rs) = Inl e \<Longrightarrow>
           BuildPhasesWithCalls pick env rs = Inl (GraphError e)"
    using ne by (simp add: BuildPhasesWithCalls_def Let_def)
  assume ok: "Build pick (names rs) (deps_map env rs) = Inr g"
  obtain ps dn' where ps: "phase_loop pick g (resolver_map rs) (length rs) 1 [] [] = Inr ([] @ ps, dn')"
    "set dn' = set (names rs)" "distinct dn'"
    "schedule_from (set (names rs)) (\<lambda>r. set (deps_of (deps_map env rs) r)) (set []) (phase_names ps)"
    "map pg_phase ps = [1 ..< 1 + length ps]" "\<forall>pg \<in> set ps. set (pg_resolvers pg) \<subseteq> set rs"
    using phase_loop_schedule [OF deps_map_distinct ok, of "[]" 1 pick "[]"] by auto
  have "length dn' = length rs"
    using ps(2,3) Build_Inr(1) [OF deps_map_distinct ok] distinct_card [of dn'] distinct_card [of "names rs"]
    by (simp add: names_def)
  with ps ok ne show "\<exists>ps. BuildPhasesWithCalls pick env rs =
                  Inr \<lparr>br_phases = ps, br_plan = plan_data (deps_map env rs) ps, br_deps = deps_map env rs,
                       br_deferred = buildDeferredWork env rs\<rparr> \<and>
                phase_schedule (set (names rs)) (\<lambda>r. set (deps_of (deps_map env rs) r)) (phase_names ps) \<and>
                map pg_phase ps = [1 ..< 1 + length ps] \<and>
                (\<forall>pg \<in> set ps. set (pg_resolvers pg) \<subseteq> set rs)"
    by (intro exI [of _ ps]) (simp add: BuildPhasesWithCalls_def Let_def phase_schedule_def)
qed

lemma BuildPhases_Inr:
  assumes ok: "BuildPhasesWithCalls pick env rs = Inr br"
  shows "distinct (names rs)"
    and "phase_schedule (set (names rs)) (phase_deps br) (phase_names (br_phases br))"
    and "map pg_phase (br_phases br) = [1 ..< 1 + length (br_phases br)]"
    and "pg \<in> set (br_phases br) \<Longrightarrow> set (pg_resolvers pg) \<subseteq> set rs"
    and "r \<in> set rs \<Longrightarrow> deps_of (br_deps br) (r_name r) = effective_deps env (resolver_map rs) r"
    and "d \<in> phase_deps br n \<Longrightarrow> n \<in> set (names rs) \<and> d \<in> set (names rs)"
    and "acyclic {(n, d). d \<in> phase_deps br n}"
    and "br_plan br = plan_data (br_deps br) (br_phases br)"
    and "br_deferred br = buildDeferredWork env rs"
proof -
  have *: "distinct (names rs) \<and>
    phase_schedule (set (names rs)) (phase_deps br) (phase_names (br_phases br)) \<and>
    map pg_phase (br_phases br) = [1 ..< 1 + length (br_phases br)] \<and>
    (\<forall>pg \<in> set (br_phases br). set (pg_resolvers pg) \<subseteq> set rs) \<and>
    (\<forall>r \<in> set rs. deps_of (br_deps br) (r_name r) = effective_deps env (resolver_map rs) r) \<and>
    (\<forall>n d. d \<in> phase_deps br n \<longrightarrow> n \<in> set (names rs) \<and> d \<in> set (names rs)) \<and>
    acyclic {(n, d). d \<in> phase_deps br n} \<and>
    br_plan br = plan_data (br_deps br) (br_phases br) \<and> br_deferred br = buildDeferredWork env rs"
  proof (cases "rs = []")
    case True
    with ok have "br = \<lparr>br_phases = [], br_plan = [], br_deps = [], br_deferred = []\<rparr>"
      by (simp add: BuildPhasesWithCalls_def)
    with True show ?thesis
      by (simp add: names_def phase_schedule_def phase_deps_def phase_names_def deps_of_def
          plan_data_def buildDeferredWork_def map_filter_simps acyclic_def)
  next
    case False
    from ok BuildPhases_cases(1) [OF False] obtain g
      where g: "Build pick (names rs) (deps_map env rs) = Inr g"
      by (cases "Build pick (names rs) (deps_map env rs)") auto
    note b = Build_Inr [OF deps_map_distinct g]
    from BuildPhases_cases(2) [OF False g] ok obtain ps where
      br: "br = \<lparr>br_phases = ps, br_plan = plan_data (deps_map env rs) ps, br_deps = deps_map env rs,
                       br_deferred = buildDeferredWork env rs\<rparr>"
      and ps: "phase_schedule (set (names rs)) (\<lambda>r. set (deps_of (deps_map env rs) r)) (phase_names ps)"
        "map pg_phase ps = [1 ..< 1 + length ps]" "\<forall>pg \<in> set ps. set (pg_resolvers pg) \<subseteq> set rs"
      by auto
    have pd: "phase_deps br = (\<lambda>r. set (deps_of (deps_map env rs) r))"
      by (simp add: br phase_deps_def fun_eq_iff)
    show ?thesis unfolding pd using ps b(1,2,6) deps_map_of [OF b(1)]
      by (simp add: br dep_edges_def)
  qed
  then show "distinct (names rs)"
    "phase_schedule (set (names rs)) (phase_deps br) (phase_names (br_phases br))"
    "map pg_phase (br_phases br) = [1 ..< 1 + length (br_phases br)]"
    "pg \<in> set (br_phases br) \<Longrightarrow> set (pg_resolvers pg) \<subseteq> set rs"
    "r \<in> set rs \<Longrightarrow> deps_of (br_deps br) (r_name r) = effective_deps env (resolver_map rs) r"
    "d \<in> phase_deps br n \<Longrightarrow> n \<in> set (names rs) \<and> d \<in> set (names rs)"
    "acyclic {(n, d). d \<in> phase_deps br n}"
    "br_plan br = plan_data (br_deps br) (br_phases br)"
    "br_deferred br = buildDeferredWork env rs" by blast+
qed

text \<open>The internal errors of the loop are unreachable.\<close>

lemma BuildPhases_Inl:
  assumes "BuildPhasesWithCalls pick env rs = Inl e"
  shows "\<exists>ge. e = GraphError ge \<and> Build pick (names rs) (deps_map env rs) = Inl ge"
proof (cases "rs = []")
  case True
  with assms show ?thesis by (simp add: BuildPhasesWithCalls_def)
next
  case False
  then show ?thesis using BuildPhases_cases [OF False] assms
    by (cases "Build pick (names rs) (deps_map env rs)") fastforce+
qed

lemma BuildPhases_succeeds_iff:
  "(\<exists>br. BuildPhasesWithCalls pick env rs = Inr br) \<longleftrightarrow>
     distinct (names rs) \<and> acyclic (dep_edges (deps_map env rs)) \<and>
     (\<forall>r \<in> set rs. set (effective_deps env (resolver_map rs) r) \<subseteq> set (names rs))"
  (is "?L \<longleftrightarrow> ?R")
proof
  assume ?L
  then obtain br where br: "BuildPhasesWithCalls pick env rs = Inr br" by blast
  show ?R
  proof (cases "rs = []")
    case True
    then show ?thesis by (simp add: names_def dep_edges_def deps_of_def deps_map_def acyclic_def)
  next
    case False
    with br BuildPhases_cases(1) [OF False] obtain g where
      g: "Build pick (names rs) (deps_map env rs) = Inr g"
      by (cases "Build pick (names rs) (deps_map env rs)") auto
    note b = Build_Inr [OF deps_map_distinct g]
    have "set (effective_deps env (resolver_map rs) r) \<subseteq> set (names rs)" if "r \<in> set rs" for r
      using b(6) [of _ "r_name r"] deps_map_of [OF b(1) that, of env] by auto
    with b(1,2) show ?thesis by blast
  qed
next
  assume R: ?R
  have "d \<in> set (deps_of (deps_map env rs) n) \<Longrightarrow> n \<in> set (names rs) \<and> d \<in> set (names rs)" for d n
  proof -
    assume d: "d \<in> set (deps_of (deps_map env rs) n)"
    then have "map_has (deps_map env rs) n"
      by (cases "map_has (deps_map env rs) n") (simp_all add: deps_of_def map_get_absent)
    then have n: "n \<in> set (names rs)" by (simp add: map_has_iff_keys deps_map_keys)
    then obtain r where "r \<in> set rs" "r_name r = n" by (auto simp: names_def)
    with d R deps_map_of [of rs r env] n show ?thesis by auto
  qed
  from Build_exists [OF deps_map_distinct _ _ this, where pick = pick] R
  obtain g where "Build pick (names rs) (deps_map env rs) = Inr g" by blast
  then show ?L using BuildPhases_cases(2) [where rs = rs and pick = pick and env = env and g = g]
    by (cases "rs = []") (auto simp: BuildPhasesWithCalls_def)
qed

lemma phase_index:
  assumes ok: "BuildPhasesWithCalls pick env rs = Inr br" and i: "i < length (br_phases br)"
  shows "pg_phase (br_phases br ! i) = Suc i"
proof -
  have "map pg_phase (br_phases br) ! i = [1 ..< 1 + length (br_phases br)] ! i"
    using BuildPhases_Inr(3) [OF ok] by simp
  with i show ?thesis by (simp del: upt_Suc)
qed

lemma find_first:
  assumes "i < length xs" "P (xs ! i)" "\<And>j. j < length xs \<Longrightarrow> P (xs ! j) \<Longrightarrow> j = i"
  shows "find P xs = Some (xs ! i)"
  unfolding find_Some_iff using assms
  by (intro exI [of _ i]) (metis less_irrefl less_trans)

lemma distinct_concat_index:
  "distinct (concat xss) \<Longrightarrow> i < length xss \<Longrightarrow> j < length xss \<Longrightarrow> x \<in> set (xss ! i) \<Longrightarrow>
   x \<in> set (xss ! j) \<Longrightarrow> i = j"
proof (induction xss arbitrary: i j)
  case (Cons xs xss)
  have *: "x \<in> set (concat xss)" if "k < length xss" "x \<in> set (xss ! k)" for k
    using that by (metis UN_I nth_mem set_concat)
  have no: False if "x \<in> set xs" "x \<in> set (concat xss)" using that Cons.prems(1) by auto
  show ?case
  proof (cases i; cases j)
    fix k assume "i = 0" "j = Suc k"
    then show ?thesis using no * [of k] Cons.prems by simp
  next
    fix k assume "i = Suc k" "j = 0"
    then show ?thesis using no * [of k] Cons.prems by simp
  next
    fix k l assume "i = Suc k" "j = Suc l"
    then show ?thesis using Cons.IH [of k l] Cons.prems by simp
  qed simp
qed simp

text \<open>Every resolver has one phase, found by \<open>GetPhaseForResolver\<close>.\<close>

lemma resolver_phase:
  assumes ok: "BuildPhasesWithCalls pick env rs = Inr br"
  shows "n \<in> set (names rs) \<Longrightarrow>
           \<exists>i < length (br_phases br). n \<in> set (phase_names (br_phases br) ! i) \<and>
             GetPhaseForResolver (br_phases br) n = Suc i"
    and "i < length (br_phases br) \<Longrightarrow> n \<in> set (phase_names (br_phases br) ! i) \<Longrightarrow>
           GetPhaseForResolver (br_phases br) n = Suc i"
proof -
  let ?ps = "br_phases br"
  note part = phase_schedule_partition [OF BuildPhases_Inr(2) [OF ok]]
  show i: "GetPhaseForResolver ?ps n = Suc i"
    if i: "i < length ?ps" and n: "n \<in> set (phase_names ?ps ! i)" for i
  proof -
    have "find (\<lambda>pg. n \<in> set (names (pg_resolvers pg))) ?ps = Some (?ps ! i)"
    proof (rule find_first)
      show "i < length ?ps" "n \<in> set (names (pg_resolvers (?ps ! i)))" using i n by (simp_all add: phase_names_def)
      fix j assume "j < length ?ps" "n \<in> set (names (pg_resolvers (?ps ! j)))"
      then show "j = i" using distinct_concat_index [of "phase_names ?ps" j i n] part i n
        by (simp add: phase_names_def)
    qed
    then show ?thesis using phase_index [OF ok i] by (simp add: GetPhaseForResolver_def)
  qed
  assume "n \<in> set (names rs)"
  then have "n \<in> set (concat (phase_names ?ps))" using part by simp
  then obtain i where "i < length (phase_names ?ps)" "n \<in> set (phase_names ?ps ! i)"
    by (auto simp: in_set_conv_nth) (metis in_set_conv_nth)
  with i show "\<exists>i < length ?ps. n \<in> set (phase_names ?ps ! i) \<and> GetPhaseForResolver ?ps n = Suc i"
    by (auto simp: phase_names_def)
qed

lemma dependency_phase_before:
  assumes ok: "BuildPhasesWithCalls pick env rs = Inr br" and d: "d \<in> phase_deps br n"
  shows "0 < GetPhaseForResolver (br_phases br) d \<and>
         GetPhaseForResolver (br_phases br) d < GetPhaseForResolver (br_phases br) n"
proof -
  have "n \<in> set (names rs)" using BuildPhases_Inr(6) [OF ok d] by simp
  then obtain i where i: "i < length (br_phases br)" "n \<in> set (phase_names (br_phases br) ! i)"
    "GetPhaseForResolver (br_phases br) n = Suc i" using resolver_phase(1) [OF ok] by blast
  from phase_schedule_deps [OF BuildPhases_Inr(2) [OF ok] _ i(2) d] i(1)
  obtain j where j: "j < i" "d \<in> set (phase_names (br_phases br) ! j)" by (auto simp: phase_names_def)
  with i(1,3) resolver_phase(2) [OF ok _ j(2)] show ?thesis by simp
qed

lemma phase_minimal:
  assumes ok: "BuildPhasesWithCalls pick env rs = Inr br" and n: "n \<in> set (names rs)"
    and rank: "\<And>m d. m \<in> set (names rs) \<Longrightarrow> d \<in> phase_deps br m \<Longrightarrow> (f d :: nat) < f m"
  shows "GetPhaseForResolver (br_phases br) n \<le> f n + 1"
proof -
  obtain i where i: "i < length (br_phases br)" "n \<in> set (phase_names (br_phases br) ! i)"
    "GetPhaseForResolver (br_phases br) n = Suc i" using resolver_phase(1) [OF ok n] by blast
  from phase_schedule_minimal [OF BuildPhases_Inr(2) [OF ok] rank, where i = i and n = n] i
  show ?thesis by (simp add: phase_names_def)
qed

lemma GetMaxPhase_length:
  assumes ok: "BuildPhasesWithCalls pick env rs = Inr br"
  shows "GetMaxPhase (br_phases br) = length (br_phases br)"
proof -
  have *: "fold (\<lambda>pg m. if pg_phase pg > m then pg_phase pg else m) ps k = k + length ps"
    if "map pg_phase ps = [Suc k ..< Suc k + length ps]" for ps k
    using that by (induction ps arbitrary: k) (auto simp: upt_conv_Cons simp del: upt_Suc)
  show ?thesis using * [of "br_phases br" 0] BuildPhases_Inr(3) [OF ok] by (simp add: GetMaxPhase_def)
qed

lemma GetResolversInPhase_Suc:
  assumes ok: "BuildPhasesWithCalls pick env rs = Inr br" and i: "i < length (br_phases br)"
  shows "GetResolversInPhase (br_phases br) (Suc i) = pg_resolvers (br_phases br ! i)"
proof -
  have "find (\<lambda>pg. pg_phase pg = Suc i) (br_phases br) = Some (br_phases br ! i)"
    by (rule find_first) (use i phase_index [OF ok] in auto)
  then show ?thesis by (simp add: GetResolversInPhase_def)
qed

subsection \<open>The plan snapshot\<close>

lemma group_plan_of:
  "map_of (group_plan deps pg pm) n =
     (if n \<in> set (names (pg_resolvers pg))
      then Some \<lparr>pl_phase = pg_phase pg, pl_dependsOn = deps_of deps n, pl_count = length (deps_of deps n)\<rparr>
      else map_of pm n)"
  unfolding group_plan_def Let_def fold_put_of
  by (auto simp: names_def find_None_iff deps_of_def dest: find_SomeD split: option.split)

lemma plan_data_of:
  "map_of (fold (group_plan deps) pgs pm) n =
     (case find (\<lambda>pg. n \<in> set (names (pg_resolvers pg))) (rev pgs) of
        None \<Rightarrow> map_of pm n
      | Some pg \<Rightarrow> Some \<lparr>pl_phase = pg_phase pg, pl_dependsOn = deps_of deps n, pl_count = length (deps_of deps n)\<rparr>)"
  by (induction pgs arbitrary: pm) (auto simp: group_plan_of find_append_split split: option.split)

lemma plan_of_resolver:
  assumes ok: "BuildPhasesWithCalls pick env rs = Inr br" and n: "n \<in> set (names rs)"
  shows "map_of (br_plan br) n =
     Some \<lparr>pl_phase = GetPhaseForResolver (br_phases br) n, pl_dependsOn = deps_of (br_deps br) n,
           pl_count = length (deps_of (br_deps br) n)\<rparr>"
proof -
  let ?ps = "br_phases br" let ?P = "\<lambda>pg. n \<in> set (names (pg_resolvers pg))"
  obtain i where i: "i < length ?ps" "n \<in> set (phase_names ?ps ! i)"
    using resolver_phase(1) [OF ok n] by blast
  then have "?ps ! i \<in> set ?ps" "?P (?ps ! i)" by (simp_all add: phase_names_def)
  then obtain pg where pg: "find ?P (rev ?ps) = Some pg"
    by (cases "find ?P (rev ?ps)") (auto simp: find_None_iff)
  then have "pg \<in> set ?ps" "?P pg" by (auto dest: find_SomeD)
  then obtain j where j: "j < length ?ps" "pg = ?ps ! j" "n \<in> set (phase_names ?ps ! j)"
    by (auto simp: in_set_conv_nth phase_names_def)
  have "pg_phase pg = GetPhaseForResolver ?ps n"
    using phase_index [OF ok j(1)] resolver_phase(2) [OF ok j(1,3)] j(2) by simp
  with pg show ?thesis by (simp add: BuildPhases_Inr(8) [OF ok] plan_data_def plan_data_of)
qed

section \<open>Properties\<close>

text \<open>C10: Planning succeeds exactly when the resolver names are distinct, every effective dependency is a
  resolver and the dependencies have no cycle; the internal errors of the planner (an endless
  loop, missing resolvers, a bad candidate query) never happen.\<close>

theorem planning_succeeds_iff:
  "((\<exists>br. BuildPhasesWithCalls pick env rs = Inr br) \<longleftrightarrow>
     distinct (names rs) \<and> acyclic (dep_edges (deps_map env rs)) \<and>
     (\<forall>r \<in> set rs. set (effective_deps env (resolver_map rs) r) \<subseteq> set (names rs))) \<and>
   (\<forall>e. BuildPhasesWithCalls pick env rs = Inl e \<longrightarrow> (\<exists>ge. e = GraphError ge))"
  using BuildPhases_succeeds_iff [of pick env rs] BuildPhases_Inl [of pick env rs] by blast

theorem planning_succeeds_iff_witness:
  "\<exists>br. BuildPhasesWithCalls (\<lambda>_. 0) sample_deps_env
     [sample_resolver ''b'' [] (RefResolver ''a''), sample_resolver ''a'' [] (RefLiteral (VInt 1))] = Inr br"
proof -
  let ?B = "BuildPhasesWithCalls (\<lambda>_. 0) sample_deps_env
     [sample_resolver ''b'' [] (RefResolver ''a''), sample_resolver ''a'' [] (RefLiteral (VInt 1))]"
  have "(case ?B of Inl (GraphError _) \<Rightarrow> False | _ \<Rightarrow> True)" by code_simp
  with planning_succeeds_iff [of "\<lambda>_. 0" sample_deps_env
     "[sample_resolver ''b'' [] (RefResolver ''a''), sample_resolver ''a'' [] (RefLiteral (VInt 1))]"]
  show ?thesis by (cases ?B) auto
qed

text \<open>C11: In a plan every resolver is in exactly one phase, the phases are numbered from one, every dependency
  is in an earlier phase than its dependent, and no numbering that puts dependencies first gives
  a resolver a smaller phase: each runs as early as it can.\<close>

theorem plan_order:
  assumes "BuildPhasesWithCalls pick env rs = Inr br"
  shows "distinct (names rs) \<and> map pg_phase (br_phases br) = [1 ..< 1 + length (br_phases br)] \<and>
    (\<forall>n \<in> set (names rs). \<exists>!i. i < length (br_phases br) \<and> n \<in> set (phase_names (br_phases br) ! i)) \<and>
    (\<forall>n. \<forall>d \<in> phase_deps br n. 0 < GetPhaseForResolver (br_phases br) d \<and>
        GetPhaseForResolver (br_phases br) d < GetPhaseForResolver (br_phases br) n) \<and>
    (\<forall>f. (\<forall>m \<in> set (names rs). \<forall>d \<in> phase_deps br m. (f d :: nat) < f m) \<longrightarrow>
        (\<forall>n \<in> set (names rs). GetPhaseForResolver (br_phases br) n \<le> f n + 1))"
proof (intro conjI ballI allI impI)
  show "distinct (names rs)" "map pg_phase (br_phases br) = [1 ..< 1 + length (br_phases br)]"
    using BuildPhases_Inr(1,3) [OF assms] .
  show "\<exists>!i. i < length (br_phases br) \<and> n \<in> set (phase_names (br_phases br) ! i)" if nn: "n \<in> set (names rs)" for n
  proof -
    obtain i where i: "i < length (br_phases br)" "n \<in> set (phase_names (br_phases br) ! i)"
      using resolver_phase(1) [OF assms nn] by blast
    moreover have "j = i" if "j < length (br_phases br)" "n \<in> set (phase_names (br_phases br) ! j)" for j
      using resolver_phase(2) [OF assms that] resolver_phase(2) [OF assms i] by simp
    ultimately show ?thesis by blast
  qed
  fix n d assume "d \<in> phase_deps br n"
  from dependency_phase_before [OF assms this]
  show "0 < GetPhaseForResolver (br_phases br) d"
    "GetPhaseForResolver (br_phases br) d < GetPhaseForResolver (br_phases br) n" by simp_all
next
  fix f :: "string \<Rightarrow> nat" and n
  assume "\<forall>m \<in> set (names rs). \<forall>d \<in> phase_deps br m. f d < f m" "n \<in> set (names rs)"
  then show "GetPhaseForResolver (br_phases br) n \<le> f n + 1" by (intro phase_minimal [OF assms]) auto
qed

theorem plan_order_witness:
  "\<exists>br. BuildPhasesWithCalls (\<lambda>_. 0) sample_deps_env
       [sample_resolver ''b'' [] (RefResolver ''a''), sample_resolver ''a'' [] (RefLiteral (VInt 1))] = Inr br \<and>
     map pg_phase (br_phases br) = [1 ..< 1 + length (br_phases br)] \<and>
     map (map r_name \<circ> pg_resolvers) (br_phases br) = [[''a''], [''b'']]"
proof -
  let ?B = "BuildPhasesWithCalls (\<lambda>_. 0) sample_deps_env
     [sample_resolver ''b'' [] (RefResolver ''a''), sample_resolver ''a'' [] (RefLiteral (VInt 1))]"
  have e: "(case ?B of Inl _ \<Rightarrow> False | Inr br \<Rightarrow> map (map r_name \<circ> pg_resolvers) (br_phases br) = [[''a''], [''b'']])"
    by code_simp
  then obtain br where br: "?B = Inr br" by (cases ?B) auto
  with e plan_order [OF br] show ?thesis by simp
qed

text \<open>The plan data records for every resolver its phase and its dependencies, and the phase accessors agree:
  the last phase is the number of phases, and phase i holds the resolvers of the i-th group.\<close>

theorem plan_data_spec:
  assumes "BuildPhasesWithCalls pick env rs = Inr br"
  shows "(\<forall>n \<in> set (names rs). map_of (br_plan br) n =
            Some \<lparr>pl_phase = GetPhaseForResolver (br_phases br) n, pl_dependsOn = deps_of (br_deps br) n,
                  pl_count = length (deps_of (br_deps br) n)\<rparr>) \<and>
         GetMaxPhase (br_phases br) = length (br_phases br) \<and>
         (\<forall>i < length (br_phases br). GetResolversInPhase (br_phases br) (Suc i) = pg_resolvers (br_phases br ! i)) \<and>
         (\<forall>r \<in> set rs. deps_of (br_deps br) (r_name r) = effective_deps env (resolver_map rs) r)"
  using plan_of_resolver [OF assms] GetMaxPhase_length [OF assms] GetResolversInPhase_Suc [OF assms]
    BuildPhases_Inr(5) [OF assms] by simp

theorem plan_data_spec_witness:
  "\<exists>br. BuildPhasesWithCalls (\<lambda>_. 0) sample_deps_env
       [sample_resolver ''b'' [] (RefResolver ''a''), sample_resolver ''a'' [] (RefLiteral (VInt 1))] = Inr br \<and>
     GetMaxPhase (br_phases br) = 2 \<and>
     map_of (br_plan br) ''b'' = Some \<lparr>pl_phase = 2, pl_dependsOn = [''a''], pl_count = 1\<rparr>"
proof -
  let ?B = "BuildPhasesWithCalls (\<lambda>_. 0) sample_deps_env
     [sample_resolver ''b'' [] (RefResolver ''a''), sample_resolver ''a'' [] (RefLiteral (VInt 1))]"
  have e: "(case ?B of Inl _ \<Rightarrow> False | Inr br \<Rightarrow> length (br_phases br) = 2 \<and>
      GetPhaseForResolver (br_phases br) ''b'' = 2 \<and> deps_of (br_deps br) ''b'' = [''a''])"
    by code_simp
  then obtain br where br: "?B = Inr br" by (cases ?B) auto
  have "''b'' \<in> set (names [sample_resolver ''b'' [] (RefResolver ''a''), sample_resolver ''a'' [] (RefLiteral (VInt 1))])"
    by (simp add: names_def sample_resolver_def)
  with e br plan_data_spec [OF br] show ?thesis by simp
qed

end
