(* ===== verification/Value_Ref.thy ===== *)
theory Value_Ref
  imports Resolver_Types Template_Deps
begin

text \<open>
  \<open>pkg/spec/valueref.go\<close> and the evaluation part of \<open>pkg/spec/condition.go\<close>: resolving
  value references, the variables they mention, and conditions.

  Parameters (\<open>val_env\<close>): the CEL engine's \<open>RequiredVariables\<close>, \<open>GetUnderscoreVariables\<close>
  (\<open>None\<close> on a parse error) and \<open>EvaluateExpression\<close> (expression, resolver data,
  additional variables), the Go template parser and \<open>gotmpl.Execute\<close>; an error of an
  engine is its message.
\<close>

record val_env =
  ve_required :: "string \<Rightarrow> string list option"
  ve_underscore :: "string \<Rightarrow> string list option"
  ve_tmplrefs :: tmpl_parser
  ve_cel :: "string \<Rightarrow> gval gomap \<Rightarrow> gval gomap \<Rightarrow> string + gval"
  ve_exec :: "string \<Rightarrow> gval gomap \<Rightarrow> string + gval"

record iteration_context =
  ic_item :: gval
  ic_index :: nat
  ic_itemAlias :: string
  ic_indexAlias :: string

datatype ref_error =
    ResolverNotFound string
  | ExprFailed string
  | TmplFailed string
  | EmptyRef
  | TooDeep
  | BadNestedRef string
  | AtKey string ref_error
  | AtIndex nat ref_error

definition maxNestedValueRefDepth :: nat where
  "maxNestedValueRefDepth = 32"

text \<open>\<open>make(map[string]any)\<close> followed by copies and assignments: later entries win.\<close>

definition put_all :: "'a gomap \<Rightarrow> 'a gomap \<Rightarrow> 'a gomap" where
  "put_all new base = fold (\<lambda>(k, v) m. map_put k v m) new base"

definition put_alias :: "string \<Rightarrow> 'a \<Rightarrow> 'a gomap \<Rightarrow> 'a gomap" where
  "put_alias a v m = (if a \<noteq> [] then map_put a v m else m)"

definition iteration_vars :: "iteration_context \<Rightarrow> gval gomap \<Rightarrow> gval gomap" where
  "iteration_vars ic m =
     put_alias (ic_indexAlias ic) (VInt (int (ic_index ic)))
       (put_alias (ic_itemAlias ic) (ic_item ic)
         (map_put ''__index'' (VInt (int (ic_index ic))) (map_put ''__item'' (ic_item ic) m)))"

definition ref_vars :: "gval \<Rightarrow> iteration_context option \<Rightarrow> gval gomap" where
  "ref_vars self ic =
     (case ic of
        Some c \<Rightarrow> iteration_vars c [(''__self'', self)]
      | None \<Rightarrow> if self \<noteq> VNil then [(''__self'', self)] else [])"

definition template_data :: "gval gomap \<Rightarrow> gval \<Rightarrow> iteration_context option \<Rightarrow> gval gomap" where
  "template_data data self ic =
     (let td = map_put ''__self'' self (put_all data []) in
      case ic of None \<Rightarrow> td | Some c \<Rightarrow> iteration_vars c td)"

definition isValueRefMap :: "(string \<times> gval) list \<Rightarrow> bool" where
  "isValueRefMap m = (length m = 1 \<and> fst (hd m) \<in> {''rslvr'', ''expr'', ''tmpl''})"

fun nested_string :: "gval \<Rightarrow> (string \<Rightarrow> value_ref) \<Rightarrow> string \<Rightarrow> ref_error + value_ref" where
  "nested_string (VStr s) mk k = Inr (mk s)"
| "nested_string _ mk k = Inl (BadNestedRef k)"

definition parseNestedValueRef :: "(string \<times> gval) list \<Rightarrow> ref_error + value_ref" where
  "parseNestedValueRef m =
     (case map_of m ''rslvr'' of Some v \<Rightarrow> nested_string v RefResolver ''rslvr''
      | None \<Rightarrow>
     (case map_of m ''expr'' of Some v \<Rightarrow> nested_string v RefExpr ''expr''
      | None \<Rightarrow>
     (case map_of m ''tmpl'' of Some v \<Rightarrow> nested_string v RefTmpl ''tmpl''
      | None \<Rightarrow> Inl (BadNestedRef []))))"

definition lift_err :: "('a \<Rightarrow> 'b) \<Rightarrow> 'a + 'c \<Rightarrow> 'b + 'c" where
  "lift_err f r = (case r of Inl e \<Rightarrow> Inl (f e) | Inr v \<Rightarrow> Inr v)"

text \<open>The branches of \<open>ResolveWithIterationContext\<close> for a reference that is not a literal.\<close>

fun resolve_plain ::
  "val_env \<Rightarrow> gval gomap \<Rightarrow> gval \<Rightarrow> iteration_context option \<Rightarrow> value_ref \<Rightarrow> ref_error + gval" where
  "resolve_plain env data self ic (RefResolver r) =
     (case map_of data r of None \<Rightarrow> Inl (ResolverNotFound r) | Some v \<Rightarrow> Inr v)"
| "resolve_plain env data self ic (RefExpr e) = lift_err ExprFailed (ve_cel env e data (ref_vars self ic))"
| "resolve_plain env data self ic (RefTmpl t) = lift_err TmplFailed (ve_exec env t (template_data data self ic))"
| "resolve_plain env data self ic (RefLiteral v) = Inl EmptyRef"

function (sequential) resolveNestedValueRefsDepth ::
      "val_env \<Rightarrow> gval gomap \<Rightarrow> gval \<Rightarrow> iteration_context option \<Rightarrow> nat \<Rightarrow> gval \<Rightarrow> ref_error + gval"
and nested_entries ::
      "val_env \<Rightarrow> gval gomap \<Rightarrow> gval \<Rightarrow> iteration_context option \<Rightarrow> nat \<Rightarrow> (string \<times> gval) list \<Rightarrow>
       ref_error + (string \<times> gval) list"
and nested_elems ::
      "val_env \<Rightarrow> gval gomap \<Rightarrow> gval \<Rightarrow> iteration_context option \<Rightarrow> nat \<Rightarrow> nat \<Rightarrow> gval list \<Rightarrow>
       ref_error + gval list"
where
  "resolveNestedValueRefsDepth env data self ic depth (VMap m) =
     (if depth > maxNestedValueRefDepth then Inl TooDeep
      else if isValueRefMap m
      then (case parseNestedValueRef m of Inl e \<Rightarrow> Inl e | Inr r \<Rightarrow> resolve_plain env data self ic r)
      else (case nested_entries env data self ic (Suc depth) m of
              Inl e \<Rightarrow> Inl e | Inr m' \<Rightarrow> Inr (VMap m')))"
| "resolveNestedValueRefsDepth env data self ic depth (VList vs) =
     (if depth > maxNestedValueRefDepth then Inl TooDeep
      else (case nested_elems env data self ic (Suc depth) 0 vs of
              Inl e \<Rightarrow> Inl e | Inr vs' \<Rightarrow> Inr (VList vs')))"
| "resolveNestedValueRefsDepth env data self ic depth v =
     (if depth > maxNestedValueRefDepth then Inl TooDeep else Inr v)"
| "nested_entries env data self ic depth [] = Inr []"
| "nested_entries env data self ic depth ((k, v) # m) =
     (case resolveNestedValueRefsDepth env data self ic depth v of
        Inl e \<Rightarrow> Inl (AtKey k e)
      | Inr v' \<Rightarrow> (case nested_entries env data self ic depth m of
                    Inl e \<Rightarrow> Inl e | Inr m' \<Rightarrow> Inr ((k, v') # m')))"
| "nested_elems env data self ic depth i [] = Inr []"
| "nested_elems env data self ic depth i (v # vs) =
     (case resolveNestedValueRefsDepth env data self ic depth v of
        Inl e \<Rightarrow> Inl (AtIndex i e)
      | Inr v' \<Rightarrow> (case nested_elems env data self ic depth (Suc i) vs of
                    Inl e \<Rightarrow> Inl e | Inr vs' \<Rightarrow> Inr (v' # vs')))"
  by pat_completeness auto
termination
  by (relation "measure (\<lambda>x. case x of Inl (_, _, _, _, _, v) \<Rightarrow> size v
      | Inr (Inl (_, _, _, _, _, m)) \<Rightarrow> size_list (size_prod (\<lambda>_. 0) size) m
      | Inr (Inr (_, _, _, _, _, _, vs)) \<Rightarrow> size_list size vs)") simp_all

text \<open>\<open>ResolveWithIterationContext\<close>; a nil reference resolves to nil.\<close>

fun ResolveWithIterationContext ::
  "val_env \<Rightarrow> gval gomap \<Rightarrow> gval \<Rightarrow> iteration_context option \<Rightarrow> value_ref option \<Rightarrow> ref_error + gval" where
  "ResolveWithIterationContext env data self ic None = Inr VNil"
| "ResolveWithIterationContext env data self ic (Some (RefLiteral v)) =
     (if v = VNil then Inl EmptyRef else resolveNestedValueRefsDepth env data self ic 0 v)"
| "ResolveWithIterationContext env data self ic (Some r) = resolve_plain env data self ic r"

definition ref_Resolve :: "val_env \<Rightarrow> gval gomap \<Rightarrow> gval \<Rightarrow> value_ref option \<Rightarrow> ref_error + gval" where
  "ref_Resolve env data self r = ResolveWithIterationContext env data self None r"

subsection \<open>The variables a reference mentions\<close>

definition opt_list :: "'a list option \<Rightarrow> 'a list" where
  "opt_list xs = (case xs of None \<Rightarrow> [] | Some ys \<Rightarrow> ys)"

definition tmpl_root :: "tmpl_ref \<Rightarrow> string" where
  "tmpl_root r = firstSegment (strings_TrimPrefix (tr_path r) ''.'')"

fun plain_variables :: "val_env \<Rightarrow> value_ref \<Rightarrow> string list" where
  "plain_variables env (RefExpr e) = opt_list (ve_required env e) @ opt_list (ve_underscore env e)"
| "plain_variables env (RefTmpl t) =
     map tmpl_root (filter (\<lambda>r. \<not> tr_scoped r) (opt_list (ve_tmplrefs env t [] [])))"
| "plain_variables env _ = []"

function (sequential) nested_variables :: "val_env \<Rightarrow> nat \<Rightarrow> gval \<Rightarrow> string list"
and entry_variables :: "val_env \<Rightarrow> nat \<Rightarrow> (string \<times> gval) list \<Rightarrow> string list"
and elem_variables :: "val_env \<Rightarrow> nat \<Rightarrow> gval list \<Rightarrow> string list"
where
  "nested_variables env depth (VMap m) =
     (if depth > maxNestedValueRefDepth then []
      else if isValueRefMap m
      then (case parseNestedValueRef m of Inl e \<Rightarrow> [] | Inr r \<Rightarrow> plain_variables env r)
      else entry_variables env (Suc depth) m)"
| "nested_variables env depth (VList vs) =
     (if depth > maxNestedValueRefDepth then [] else elem_variables env (Suc depth) vs)"
| "nested_variables env depth _ = []"
| "entry_variables env depth [] = []"
| "entry_variables env depth ((k, v) # m) = nested_variables env depth v @ entry_variables env depth m"
| "elem_variables env depth [] = []"
| "elem_variables env depth (v # vs) = nested_variables env depth v @ elem_variables env depth vs"
  by pat_completeness auto
termination
  by (relation "measure (\<lambda>x. case x of Inl (_, _, v) \<Rightarrow> size v
      | Inr (Inl (_, _, m)) \<Rightarrow> size_list (size_prod (\<lambda>_. 0) size) m
      | Inr (Inr (_, _, vs)) \<Rightarrow> size_list size vs)") simp_all

fun ReferencedVariables :: "val_env \<Rightarrow> value_ref option \<Rightarrow> string list" where
  "ReferencedVariables env None = []"
| "ReferencedVariables env (Some (RefLiteral v)) = nested_variables env 0 v"
| "ReferencedVariables env (Some r) = plain_variables env r"

definition ReferencesVariable :: "val_env \<Rightarrow> value_ref option \<Rightarrow> string \<Rightarrow> bool" where
  "ReferencesVariable env r x = (x \<in> set (ReferencedVariables env r))"

subsection \<open>Conditions\<close>

datatype cond_error = CondEvalFailed string | CondNotBoolean

fun cond_bool :: "string + gval \<Rightarrow> cond_error + bool" where
  "cond_bool (Inl e) = Inl (CondEvalFailed e)"
| "cond_bool (Inr (VBool b)) = Inr b"
| "cond_bool (Inr v) = Inl CondNotBoolean"

definition EvaluateWithAdditionalVars ::
  "val_env \<Rightarrow> condition option \<Rightarrow> gval gomap \<Rightarrow> gval gomap \<Rightarrow> cond_error + bool" where
  "EvaluateWithAdditionalVars env c data vars =
     (case c of None \<Rightarrow> Inr True
      | Some k \<Rightarrow> (case c_expr k of None \<Rightarrow> Inr True | Some e \<Rightarrow> cond_bool (ve_cel env e data vars)))"

definition cond_Evaluate :: "val_env \<Rightarrow> condition option \<Rightarrow> gval gomap \<Rightarrow> cond_error + bool" where
  "cond_Evaluate env c data = EvaluateWithAdditionalVars env c data []"

subsection \<open>Literals\<close>

text \<open>A literal without reference maps, and how deep it nests.\<close>

function (sequential) ref_free :: "gval \<Rightarrow> bool"
and ref_free_entries :: "(string \<times> gval) list \<Rightarrow> bool"
and ref_free_elems :: "gval list \<Rightarrow> bool"
where
  "ref_free (VMap m) = (\<not> isValueRefMap m \<and> ref_free_entries m)"
| "ref_free (VList vs) = ref_free_elems vs"
| "ref_free _ = True"
| "ref_free_entries [] = True"
| "ref_free_entries ((k, v) # m) = (ref_free v \<and> ref_free_entries m)"
| "ref_free_elems [] = True"
| "ref_free_elems (v # vs) = (ref_free v \<and> ref_free_elems vs)"
  by pat_completeness auto
termination
  by (relation "measure (\<lambda>x. case x of Inl v \<Rightarrow> size v
      | Inr (Inl m) \<Rightarrow> size_list (size_prod (\<lambda>_. 0) size) m
      | Inr (Inr vs) \<Rightarrow> size_list size vs)") simp_all

function (sequential) nesting :: "gval \<Rightarrow> nat"
and nesting_entries :: "(string \<times> gval) list \<Rightarrow> nat"
and nesting_elems :: "gval list \<Rightarrow> nat"
where
  "nesting (VMap m) = nesting_entries m"
| "nesting (VList vs) = nesting_elems vs"
| "nesting _ = 0"
| "nesting_entries [] = 0"
| "nesting_entries ((k, v) # m) = max (Suc (nesting v)) (nesting_entries m)"
| "nesting_elems [] = 0"
| "nesting_elems (v # vs) = max (Suc (nesting v)) (nesting_elems vs)"
  by pat_completeness auto
termination
  by (relation "measure (\<lambda>x. case x of Inl v \<Rightarrow> size v
      | Inr (Inl m) \<Rightarrow> size_list (size_prod (\<lambda>_. 0) size) m
      | Inr (Inr vs) \<Rightarrow> size_list size vs)") simp_all

lemma resolve_ref_free:
  "ref_free v \<Longrightarrow> if depth + nesting v \<le> maxNestedValueRefDepth
     then resolveNestedValueRefsDepth env data self ic depth v = Inr v
     else \<exists>e. resolveNestedValueRefsDepth env data self ic depth v = Inl e"
  "ref_free_entries m \<Longrightarrow> if m = [] \<or> depth + nesting_entries m \<le> Suc maxNestedValueRefDepth
     then nested_entries env data self ic depth m = Inr m
     else \<exists>e. nested_entries env data self ic depth m = Inl e"
  "ref_free_elems vs \<Longrightarrow> if vs = [] \<or> depth + nesting_elems vs \<le> Suc maxNestedValueRefDepth
     then nested_elems env data self ic depth i vs = Inr vs
     else \<exists>e. nested_elems env data self ic depth i vs = Inl e"
proof (induction env data self ic depth v and env data self ic depth m and env data self ic depth i vs
    rule: resolveNestedValueRefsDepth_nested_entries_nested_elems.induct)
  case (1 env data self ic depth m)
  show ?case
  proof (cases "depth > maxNestedValueRefDepth")
    case False
    with 1 have "if m = [] \<or> Suc depth + nesting_entries m \<le> Suc maxNestedValueRefDepth
       then nested_entries env data self ic (Suc depth) m = Inr m
       else \<exists>e. nested_entries env data self ic (Suc depth) m = Inl e" by simp
    with 1(2) False show ?thesis by (cases "m = []") (auto split: if_splits)
  qed simp
next
  case (2 env data self ic depth vs)
  show ?case
  proof (cases "depth > maxNestedValueRefDepth")
    case False
    with 2 have "if vs = [] \<or> Suc depth + nesting_elems vs \<le> Suc maxNestedValueRefDepth
       then nested_elems env data self ic (Suc depth) 0 vs = Inr vs
       else \<exists>e. nested_elems env data self ic (Suc depth) 0 vs = Inl e" by simp
    with False show ?thesis by (cases "vs = []") (auto split: if_splits)
  qed simp
next
  case (5 env data self ic depth k v m)
  show ?case
  proof (cases "depth + nesting v \<le> maxNestedValueRefDepth")
    case True
    with 5 have v: "resolveNestedValueRefsDepth env data self ic depth v = Inr v" by simp
    from "5.IH"(2) [OF v] "5.prems" v True show ?thesis by (cases "m = []") (auto split: if_splits)
  next
    case False
    with 5 show ?thesis by auto
  qed
next
  case (7 env data self ic depth i v vs)
  show ?case
  proof (cases "depth + nesting v \<le> maxNestedValueRefDepth")
    case True
    with 7 have v: "resolveNestedValueRefsDepth env data self ic depth v = Inr v" by simp
    from "7.IH"(2) [OF v] "7.prems" v True show ?thesis by (cases "vs = []") (auto split: if_splits)
  next
    case False
    with 7 show ?thesis by auto
  qed
qed simp_all

text \<open>Resolving keeps the keys of a map and the length of a list.\<close>

lemma nested_shape:
  "nested_entries env data self ic depth m = Inr m' \<Longrightarrow> map fst m' = map fst m"
  by (induction m arbitrary: m') (auto split: sum.splits)

lemma nested_elems_length:
  "nested_elems env data self ic depth i vs = Inr vs' \<Longrightarrow> length vs' = length vs"
  by (induction vs arbitrary: i vs') (auto split: sum.splits)

section \<open>Properties\<close>

text \<open>Engines for the concrete instances: an expression or a template is the name of a variable.\<close>

definition sample_val_env :: val_env where
  "sample_val_env = \<lparr>ve_required = (\<lambda>e. Some [e]), ve_underscore = (\<lambda>e. Some []),
     ve_tmplrefs = (\<lambda>t _ _. Some [\<lparr>tr_path = ''.'' @ t, tr_scoped = False\<rparr>]),
     ve_cel = (\<lambda>e data vars. case map_of vars e of Some v \<Rightarrow> Inr v
                | None \<Rightarrow> (case map_of data e of Some v \<Rightarrow> Inr v | None \<Rightarrow> Inl ''undeclared'')),
     ve_exec = (\<lambda>t data. case map_of data t of Some v \<Rightarrow> Inr v | None \<Rightarrow> Inl ''no value'')\<rparr>"

text \<open>A literal that contains no reference map is resolved to itself, with no engine consulted, when its
  nesting is within the limit of 32, and is rejected when it is deeper.\<close>

theorem literal_resolution:
  assumes "ref_free v" "v \<noteq> VNil"
  shows "if nesting v \<le> maxNestedValueRefDepth
         then ResolveWithIterationContext env data self ic (Some (RefLiteral v)) = Inr v
         else \<exists>e. ResolveWithIterationContext env data self ic (Some (RefLiteral v)) = Inl e"
  using resolve_ref_free(1) [OF assms(1), of 0 env data self ic] assms(2) by simp

theorem literal_resolution_witness:
  "ResolveWithIterationContext sample_val_env [] VNil None (Some (RefLiteral (VMap [(''k'', VList [VInt 1, VMap []])]))) =
     Inr (VMap [(''k'', VList [VInt 1, VMap []])]) \<and>
   (\<exists>e. ResolveWithIterationContext sample_val_env [] VNil None
      (Some (RefLiteral (((\<lambda>v. VList [v]) ^^ 33) (VInt 1)))) = Inl e)"
proof
  have "ref_free (VMap [(''k'', VList [VInt 1, VMap []])])" by (simp add: isValueRefMap_def)
  moreover have "nesting (VMap [(''k'', VList [VInt 1, VMap []])]) \<le> maxNestedValueRefDepth"
    by (simp add: maxNestedValueRefDepth_def)
  ultimately show "ResolveWithIterationContext sample_val_env [] VNil None (Some (RefLiteral (VMap [(''k'', VList [VInt 1, VMap []])]))) =
     Inr (VMap [(''k'', VList [VInt 1, VMap []])])"
    using literal_resolution [of "VMap [(''k'', VList [VInt 1, VMap []])]" sample_val_env "[]" VNil None] by simp
  have "ref_free (((\<lambda>v. VList [v]) ^^ n) (VInt 1)) \<and> nesting (((\<lambda>v. VList [v]) ^^ n) (VInt 1)) = n" for n
    by (induction n) simp_all
  then show "\<exists>e. ResolveWithIterationContext sample_val_env [] VNil None
      (Some (RefLiteral (((\<lambda>v. VList [v]) ^^ 33) (VInt 1)))) = Inl e"
    using literal_resolution [of "((\<lambda>v. VList [v]) ^^ 33) (VInt 1)" sample_val_env "[]" VNil None]
    by (simp add: maxNestedValueRefDepth_def numeral_eq_Suc)
qed

text \<open>Inside an iteration an expression sees, beside \<open>__self\<close>, the item and the index under their fixed
  names and under the configured aliases; an alias hides every earlier variable of its name, the
  index alias last.\<close>

theorem iteration_variables:
  "map_of (ref_vars self (Some c)) x =
     (if x = ic_indexAlias c \<and> x \<noteq> [] then Some (VInt (int (ic_index c)))
      else if x = ic_itemAlias c \<and> x \<noteq> [] then Some (ic_item c)
      else if x = ''__index'' then Some (VInt (int (ic_index c)))
      else if x = ''__item'' then Some (ic_item c)
      else if x = ''__self'' then Some self else None)"
  by (simp add: ref_vars_def iteration_vars_def put_alias_def)

end
