(* ===== verification/Action_Types.thy ===== *)
theory Action_Types
  imports Value_Ref "HOL-Library.Word"
begin

text \<open>
  The data of package \<open>pkg/action\<close> (\<open>types.go\<close>, \<open>deferred.go\<close>, the graph types of
  \<open>graph.go\<close>) and the names of forEach iterations (\<open>foreach.go\<close>).

  Durations are Go's \<open>int64\<close> nanoseconds.  A JSON schema is opaque (a number the
  schema validator, a parameter of the executor, interprets).
\<close>

type_synonym duration = "64 word"

datatype backoff = BackoffFixed | BackoffLinear | BackoffExponential | BackoffUnset | BackoffOther string

record retry_config =
  rc_maxAttempts :: int
  rc_backoff :: backoff
  rc_initialDelay :: "duration option"
  rc_maxDelay :: "duration option"
  rc_retryIf :: "string option"

datatype schema_mode = SchemaUnset | SchemaError | SchemaWarn | SchemaIgnore | SchemaOther string

datatype fp_scope = ScopeUnset | ScopeAll | ScopeFiles | ScopeOther string

record action =
  a_call :: string
  a_args :: "value_ref option gomap"
  a_alias :: string
  a_explicit :: bool
  a_provider :: string
  a_inputs :: "value_ref option gomap"
  a_dependsOn :: "string list"
  a_exclusive :: "string list"
  a_sources :: "string list"
  a_generates :: "string list"
  a_fingerprint :: "fp_scope option"
  a_when :: "condition option"
  a_continueOnError :: "condition option"
  a_onError :: error_behavior
  a_timeout :: "duration option"
  a_retry :: "retry_config option"
  a_forEach :: "foreach_clause option"
  a_schema :: "nat option"
  a_schemaMode :: schema_mode

text \<open>A section is a map from names to pointers; a nil action is \<open>None\<close>.\<close>

record workflow =
  w_actions :: "action option gomap"
  w_finally :: "action option gomap"
  w_schemaMode :: schema_mode

record deferred_value =
  dv_expr :: string
  dv_tmpl :: string

record foreach_meta =
  fm_from :: string
  fm_index :: nat
  fm_item :: gval

record expanded_action =
  ea_action :: action
  ea_name :: string
  ea_materialized :: "gval gomap"
  ea_deferred :: "deferred_value gomap"
  ea_section :: string
  ea_forEach :: "foreach_meta option"
  ea_dependencies :: "string list"
  ea_crossRefs :: "string list"
  ea_whenSkipped :: bool
  ea_exclusive :: "string list"

record action_graph =
  ag_actions :: "expanded_action gomap"
  ag_order :: "string list list"
  ag_finally :: "string list list"
  ag_aliases :: "string gomap"

datatype status =
    StatusPending | StatusRunning | StatusSucceeded | StatusFailed | StatusSkipped
  | StatusTimeout | StatusCancelled

definition IsTerminal :: "status \<Rightarrow> bool" where
  "IsTerminal s = (s \<in> {StatusSucceeded, StatusFailed, StatusSkipped, StatusTimeout, StatusCancelled})"

definition status_IsSuccess :: "status \<Rightarrow> bool" where
  "status_IsSuccess s = (s = StatusSucceeded)"

definition backoff_OrDefault :: "backoff \<Rightarrow> backoff" where
  "backoff_OrDefault b = (if b = BackoffUnset then BackoffFixed else b)"

definition schema_OrDefault :: "schema_mode \<Rightarrow> schema_mode" where
  "schema_OrDefault m = (if m = SchemaUnset then SchemaError else m)"

definition fingerprintScope :: "action \<Rightarrow> fp_scope" where
  "fingerprintScope a =
     (case a_fingerprint a of None \<Rightarrow> ScopeAll
      | Some s \<Rightarrow> if s = ScopeUnset then ScopeAll else s)"

definition SectionActions :: "workflow \<Rightarrow> string \<Rightarrow> action option gomap" where
  "SectionActions w s =
     (if s = ''actions'' then w_actions w else if s = ''finally'' then w_finally w else [])"

definition IsForEachIteration_action :: "expanded_action \<Rightarrow> bool" where
  "IsForEachIteration_action e = (ea_forEach e \<noteq> None)"

definition GetOriginalName :: "expanded_action \<Rightarrow> string" where
  "GetOriginalName e = (case ea_forEach e of Some m \<Rightarrow> fm_from m | None \<Rightarrow> ea_name e)"

definition HasDeferredInputs :: "expanded_action \<Rightarrow> bool" where
  "HasDeferredInputs e = (ea_deferred e \<noteq> [])"

subsection \<open>Names of iterations\<close>

definition digit_char :: "nat \<Rightarrow> char" where
  "digit_char d = char_of (48 + d)"

definition char_digit :: "char \<Rightarrow> nat" where
  "char_digit c = of_char c - 48"

text \<open>\<open>%d\<close> of a non-negative integer.\<close>

fun decimal :: "nat \<Rightarrow> string" where
  "decimal n = (if n < 10 then [digit_char n] else decimal (n div 10) @ [digit_char (n mod 10)])"

declare decimal.simps [simp del]

definition CreateIterationName :: "string \<Rightarrow> nat \<Rightarrow> string" where
  "CreateIterationName b i = b @ ''['' @ decimal i @ '']''"

text \<open>The two scans from the closing bracket to the left.\<close>

definition bracket_digits :: "string \<Rightarrow> string" where
  "bracket_digits n = rev (takeWhile (\<lambda>c. c \<noteq> CHR ''['') (tl (rev n)))"

definition before_bracket :: "string \<Rightarrow> string option" where
  "before_bracket n =
     (case dropWhile (\<lambda>c. c \<noteq> CHR ''['') (tl (rev n)) of [] \<Rightarrow> None | _ # b \<Rightarrow> Some (rev b))"

definition IsForEachIteration :: "string \<Rightarrow> bool" where
  "IsForEachIteration n =
     (4 \<le> length n \<and> last n = CHR '']'' \<and>
      (\<forall>c \<in> set (bracket_digits n). is_digit c) \<and>
      (case before_bracket n of None \<Rightarrow> False | Some b \<Rightarrow> b \<noteq> []) \<and>
      bracket_digits n \<noteq> [])"

text \<open>The index is computed in Go's \<open>int\<close>, 64 bits wide.\<close>

definition parse_index :: "string \<Rightarrow> 64 word" where
  "parse_index ds = fold (\<lambda>c acc. acc * 10 + of_nat (char_digit c)) ds 0"

definition ParseIterationName :: "string \<Rightarrow> (string \<times> int) option" where
  "ParseIterationName n =
     (if \<not> IsForEachIteration n then None
      else (case before_bracket n of None \<Rightarrow> None
            | Some b \<Rightarrow> Some (b, sint (parse_index (bracket_digits n)))))"

lemma is_digit_digit_char [simp]: "d < 10 \<Longrightarrow> is_digit (digit_char d)"
  by (simp add: is_digit_def digit_char_def)

lemma char_digit_digit_char [simp]: "d < 10 \<Longrightarrow> char_digit (digit_char d) = d"
  by (simp add: char_digit_def digit_char_def)

lemma bracket_not_digit [simp]: "\<not> is_digit (CHR ''['')"
  by (simp add: is_digit_def)

lemma decimal_digits: "\<forall>c \<in> set (decimal n). is_digit c"
  by (induction n rule: decimal.induct) (subst decimal.simps, auto)

lemma decimal_not_Nil [simp]: "decimal n \<noteq> []"
  by (subst decimal.simps) auto

lemma parse_index_decimal: "parse_index (decimal n) = of_nat n"
proof (induction n rule: decimal.induct)
  case (1 n)
  show ?case
  proof (cases "n < 10")
    case True
    then show ?thesis by (subst decimal.simps) (simp add: parse_index_def)
  next
    case False
    have "parse_index (decimal n) = parse_index (decimal (n div 10)) * 10 + of_nat (n mod 10)"
      using False by (subst decimal.simps) (simp add: parse_index_def)
    also have "\<dots> = of_nat (n div 10 * 10 + n mod 10)"
      by (simp only: 1 [OF False] of_nat_add of_nat_mult of_nat_numeral)
    finally show ?thesis by (simp only: div_mult_mod_eq)
  qed
qed

lemma iteration_name_scan:
  "bracket_digits (CreateIterationName b i) = decimal i"
  "before_bracket (CreateIterationName b i) = Some b"
proof -
  have r: "rev (CreateIterationName b i) = CHR '']'' # rev (decimal i) @ CHR ''['' # rev b"
    by (simp add: CreateIterationName_def)
  have d: "c \<noteq> CHR ''[''" if "c \<in> set (rev (decimal i))" for c
    using decimal_digits [of i] that by fastforce
  show "bracket_digits (CreateIterationName b i) = decimal i"
    using takeWhile_append2 [of "rev (decimal i)" "\<lambda>c. c \<noteq> CHR ''[''" "CHR ''['' # rev b"] d
    by (simp add: bracket_digits_def r)
  show "before_bracket (CreateIterationName b i) = Some b"
    using dropWhile_append2 [of "rev (decimal i)" "\<lambda>c. c \<noteq> CHR ''[''" "CHR ''['' # rev b"] d
    by (simp add: before_bracket_def r)
qed

lemma iteration_name_roundtrip:
  assumes "b \<noteq> []" "i < 2 ^ 63"
  shows "ParseIterationName (CreateIterationName b i) = Some (b, int i)"
proof -
  have "1 \<le> length b" "1 \<le> length (decimal i)" using assms(1) by (auto simp: Suc_le_eq)
  then have len: "4 \<le> length (CreateIterationName b i)" by (simp add: CreateIterationName_def)
  have last: "last (CreateIterationName b i) = CHR '']''" by (simp add: CreateIterationName_def)
  have "IsForEachIteration (CreateIterationName b i)"
    using len last assms(1) decimal_digits by (simp add: IsForEachIteration_def iteration_name_scan)
  moreover have "sint (of_nat i :: 64 word) = int i"
    using assms(2) by (simp add: signed_of_nat signed_take_bit_int_eq_self)
  ultimately show ?thesis by (simp add: ParseIterationName_def iteration_name_scan parse_index_decimal)
qed

lemma decimal_value: "fold (\<lambda>c acc. acc * 10 + char_digit c) (decimal n) 0 = n"
proof (induction n rule: decimal.induct)
  case (1 n)
  then show ?case by (subst decimal.simps) (cases "n < 10", simp_all)
qed

lemma decimal_inj: "decimal i = decimal j \<Longrightarrow> i = j"
  by (metis decimal_value)

lemma iteration_name_inj:
  "CreateIterationName b i = CreateIterationName b' i' \<longleftrightarrow> b = b' \<and> i = i'"
  by (metis iteration_name_scan option.inject decimal_inj)

section \<open>Properties\<close>

definition sample_action :: "string list \<Rightarrow> string list \<Rightarrow> action" where
  "sample_action on ex = \<lparr>a_call = [], a_args = [], a_alias = [], a_explicit = False, a_provider = ''p'',
     a_inputs = [(''v'', Some (RefLiteral (VInt 1)))], a_dependsOn = on, a_exclusive = ex, a_sources = [],
     a_generates = [], a_fingerprint = None, a_when = None, a_continueOnError = None, a_onError = OnErrorUnset,
     a_timeout = None, a_retry = None, a_forEach = None, a_schema = None, a_schemaMode = SchemaUnset\<rparr>"

definition sample_workflow :: workflow where
  "sample_workflow = \<lparr>w_actions = [(''a'', Some (sample_action [] [])), (''b'', Some (sample_action [''a''] [''c''])),
      (''c'', Some (sample_action [''a''] []))],
     w_finally = [(''f'', Some (sample_action [] []))], w_schemaMode = SchemaUnset\<rparr>"

text \<open>The name of a forEach iteration reads back as the name and the index it was made of, for a non-empty
  base name and every index a Go slice can have.\<close>

theorem iteration_names_roundtrip:
  assumes "b \<noteq> []" "i < 2 ^ 63"
  shows "ParseIterationName (CreateIterationName b i) = Some (b, int i)"
  by (rule iteration_name_roundtrip [OF assms])

theorem iteration_names_roundtrip_witness:
  "CreateIterationName ''deploy'' 10 = ''deploy[10]'' \<and> ParseIterationName ''deploy[10]'' = Some (''deploy'', 10)"
proof -
  have "CreateIterationName ''deploy'' 10 = ''deploy[10]''" by code_simp
  with iteration_names_roundtrip [of "''deploy''" 10] show ?thesis by simp
qed

text \<open>Different iterations have different names: no base name and index collide with another.\<close>

theorem iteration_names_unique:
  "CreateIterationName b i = CreateIterationName b' i' \<longleftrightarrow> b = b' \<and> i = i'"
  by (rule iteration_name_inj)

end
