(* ===== verification/Closure.thy ===== *)
theory Closure
  imports Phases Action_Types
begin

text \<open>
  Transitive closures: \<open>pkg/resolver/partition.go\<close> (breadth-first, over the resolver
  dependencies) and \<open>pkg/action/filter.go\<close> (depth-first, over \<open>dependsOn\<close>).
\<close>

subsection \<open>Breadth-first search\<close>

fun bfs_visit :: "string list \<Rightarrow> string list \<Rightarrow> string list \<Rightarrow> string list \<times> string list" where
  "bfs_visit [] res q = (res, q)"
| "bfs_visit (d # ds) res q =
     (if d \<in> set res then bfs_visit ds res q else bfs_visit ds (res @ [d]) (q @ [d]))"

definition adj_targets :: "string list gomap \<Rightarrow> string set" where
  "adj_targets adj = (\<Union>(_, ds) \<in> set adj. set ds)"

function bfs :: "string list gomap \<Rightarrow> string list \<Rightarrow> string list \<Rightarrow> string list" where
  "bfs adj [] res = res"
| "bfs adj (c # q) res =
     (case bfs_visit (map_get [] adj c) res q of (res', q') \<Rightarrow> bfs adj q' res')"
  by pat_completeness auto

lemma finite_adj_targets [simp]: "finite (adj_targets adj)"
  by (auto simp: adj_targets_def)

lemma adj_targets_get: "set (map_get [] adj c) \<subseteq> adj_targets adj"
  by (cases "map_of adj c") (auto simp: map_get_def adj_targets_def dest: map_of_SomeD)

lemma bfs_visit_facts:
  "bfs_visit ds res q = (res', q') \<Longrightarrow>
     set res' = set res \<union> set ds \<and> set q' = set q \<union> (set ds - set res)"
  by (induction ds arbitrary: res q) (auto split: if_splits)

lemma bfs_visit_measure:
  assumes "finite U"
  shows "bfs_visit ds res q = (res', q') \<Longrightarrow> set ds \<subseteq> U \<Longrightarrow>
     2 * card (U - set res') + length q' \<le> 2 * card (U - set res) + length q"
proof (induction ds arbitrary: res q)
  case (Cons d ds)
  show ?case
  proof (cases "d \<in> set res")
    case False
    have "U - set (res @ [d]) = (U - set res) - {d}" by auto
    moreover have "d \<in> U - set res" using False Cons.prems(2) by simp
    ultimately have "Suc (card (U - set (res @ [d]))) = card (U - set res)"
      using assms by (metis card_Suc_Diff1 finite_Diff)
    moreover have "2 * card (U - set res') + length q' \<le> 2 * card (U - set (res @ [d])) + length (q @ [d])"
      using Cons.prems False by (intro Cons.IH) auto
    ultimately show ?thesis by simp
  qed (use Cons in auto)
qed simp

termination bfs
proof (relation "measure (\<lambda>(adj, q, res). 2 * card (adj_targets adj - set res) + length q)", goal_cases)
  case (2 adj c q res res' q')
  then have "bfs_visit (map_get [] adj c) res q = (res', q')" by simp
  from bfs_visit_measure [OF finite_adj_targets this adj_targets_get] show ?case by simp
qed simp

definition adj_edges :: "string list gomap \<Rightarrow> (string \<times> string) set" where
  "adj_edges adj = {(x, y). y \<in> set (map_get [] adj x)}"

lemma bfs_spec:
  "set q \<subseteq> set res \<Longrightarrow> (\<forall>x \<in> set res - set q. set (map_get [] adj x) \<subseteq> set res) \<Longrightarrow>
   set (bfs adj q res) = (adj_edges adj)\<^sup>* `` set res"
proof (induction adj q res rule: bfs.induct)
  case (1 adj res)
  have "(adj_edges adj) `` set res \<subseteq> set res" using 1 by (auto simp: adj_edges_def)
  then show ?case using Image_closed_trancl by (metis bfs.simps(1))
next
  case (2 adj c q res)
  obtain res' q' where v: "bfs_visit (map_get [] adj c) res q = (res', q')" by fastforce
  note f = bfs_visit_facts [OF v]
  have "set q' \<subseteq> set res'" using f 2(2) by auto
  moreover have "\<forall>x \<in> set res' - set q'. set (map_get [] adj x) \<subseteq> set res'" using f 2(3) by auto
  ultimately have "set (bfs adj q' res') = (adj_edges adj)\<^sup>* `` set res'" using 2(1) [OF v [symmetric]] by blast
  moreover have "(adj_edges adj)\<^sup>* `` set res' = (adj_edges adj)\<^sup>* `` set res"
  proof
    have "set res' \<subseteq> (adj_edges adj)\<^sup>* `` set res"
    proof
      fix x assume "x \<in> set res'"
      then have "x \<in> set res \<or> (c, x) \<in> adj_edges adj" using f by (auto simp: adj_edges_def)
      moreover have "c \<in> set res" using 2(2) by simp
      ultimately show "x \<in> (adj_edges adj)\<^sup>* `` set res" by blast
    qed
    then show "(adj_edges adj)\<^sup>* `` set res' \<subseteq> (adj_edges adj)\<^sup>* `` set res"
      by (auto intro: rtrancl_trans)
    show "(adj_edges adj)\<^sup>* `` set res \<subseteq> (adj_edges adj)\<^sup>* `` set res'" using f by auto
  qed
  ultimately show ?case using v by simp
qed

subsection \<open>Resolver closures\<close>

definition stepUsesProvider :: "call_def option gomap \<Rightarrow> string \<Rightarrow> 'a step_base_scheme \<Rightarrow> bool" where
  "stepUsesProvider calls p s =
     (s_provider s = p \<or>
      s_call s \<noteq> [] \<and> (case map_of calls (s_call s) of Some (Some d) \<Rightarrow> cd_provider d = p | _ \<Rightarrow> False))"

definition resolverUsesProvider :: "call_def option gomap \<Rightarrow> string \<Rightarrow> resolver \<Rightarrow> bool" where
  "resolverUsesProvider calls p r =
     ((case r_resolve r of None \<Rightarrow> False | Some ph \<Rightarrow> list_ex (stepUsesProvider calls p) (rp_with ph)) \<or>
      (case r_transform r of None \<Rightarrow> False | Some ph \<Rightarrow> list_ex (stepUsesProvider calls p) (tp_with ph)) \<or>
      (case r_validate r of None \<Rightarrow> False | Some ph \<Rightarrow> list_ex (stepUsesProvider calls p) (vp_with ph)))"

definition ResolversUsingProvider :: "call_def option gomap \<Rightarrow> string \<Rightarrow> resolver list \<Rightarrow> string list" where
  "ResolversUsingProvider calls p rs =
     (if p = [] then []
      else fold (\<lambda>r seed. if resolverUsesProvider calls p r then set_insert (r_name r) seed else seed) rs [])"

definition reverse_deps :: "deps_env \<Rightarrow> resolver list \<Rightarrow> string list gomap" where
  "reverse_deps env rs =
     fold (\<lambda>r m. fold (\<lambda>d m. map_put d (map_get [] m d @ [r_name r]) m)
                   (extractDependenciesWithCalls env r) m) rs []"

definition forward_deps :: "deps_env \<Rightarrow> resolver list \<Rightarrow> string list gomap" where
  "forward_deps env rs = fold (\<lambda>r m. map_put (r_name r) (extractDependenciesWithCalls env r) m) rs []"

definition TransitiveDependents ::
  "(string list \<Rightarrow> nat) \<Rightarrow> deps_env \<Rightarrow> resolver list \<Rightarrow> string list \<Rightarrow> string list" where
  "TransitiveDependents pick env rs seed =
     (if seed = [] then [] else bfs (reverse_deps env rs) (range_set pick seed) seed)"

definition TransitiveDependencies ::
  "(string list \<Rightarrow> nat) \<Rightarrow> deps_env \<Rightarrow> resolver list \<Rightarrow> string list \<Rightarrow> string list" where
  "TransitiveDependencies pick env rs roots =
     (if roots = [] then [] else bfs (forward_deps env rs) (range_set pick roots) roots)"

definition ProviderDependencyClosure ::
  "(string list \<Rightarrow> nat) \<Rightarrow> deps_env \<Rightarrow> call_def option gomap \<Rightarrow> string \<Rightarrow> resolver list \<Rightarrow> string list" where
  "ProviderDependencyClosure pick env calls p rs =
     TransitiveDependents pick env rs (ResolversUsingProvider calls p rs)"

text \<open>\<open>(r, d)\<close>: some resolver named \<open>r\<close> depends on \<open>d\<close>.\<close>

definition resolver_edges :: "deps_env \<Rightarrow> resolver list \<Rightarrow> (string \<times> string) set" where
  "resolver_edges env rs =
     {(n, d). \<exists>r \<in> set rs. r_name r = n \<and> d \<in> set (extractDependenciesWithCalls env r)}"

lemma reverse_inner:
  "set (map_get [] (fold (\<lambda>d m. map_put d (map_get [] m d @ [n]) m) ds m) x) =
     set (map_get [] m x) \<union> {y. y = n \<and> x \<in> set ds}"
  by (induction ds arbitrary: m) auto

lemma reverse_edges: "adj_edges (reverse_deps env rs) = (resolver_edges env rs)\<inverse>"
proof -
  have "set (map_get [] (fold (\<lambda>r m. fold (\<lambda>d m. map_put d (map_get [] m d @ [r_name r]) m)
                   (extractDependenciesWithCalls env r) m) rs m) x) =
      set (map_get [] m x) \<union> {n. (n, x) \<in> resolver_edges env rs}" for m x
  proof (induction rs arbitrary: m)
    case (Cons r rs)
    show ?case by (simp add: Cons reverse_inner) (auto simp: resolver_edges_def)
  qed (simp add: resolver_edges_def)
  then show ?thesis by (auto simp: adj_edges_def reverse_deps_def)
qed

lemma forward_edges:
  assumes "distinct (names rs)"
  shows "adj_edges (forward_deps env rs) = resolver_edges env rs"
proof -
  have "d \<in> set (map_get [] (forward_deps env rs) n) \<longleftrightarrow> (n, d) \<in> resolver_edges env rs" for n d
  proof (cases "\<exists>r \<in> set rs. r_name r = n")
    case True
    then obtain r where r: "r \<in> set rs" "r_name r = n" by blast
    have "find (\<lambda>x. r_name x = n) (rev rs) = Some r"
      using find_key [of r_name rs r] assms r by (simp add: names_def)
    then have g: "map_get [] (forward_deps env rs) n = extractDependenciesWithCalls env r"
      unfolding forward_deps_def map_get_def fold_put_of by simp
    have "r' = r" if "r' \<in> set rs" "r_name r' = n" for r'
      using that r assms by (metis names_def distinct_map inj_onD)
    with r have "(n, d) \<in> resolver_edges env rs \<longleftrightarrow> d \<in> set (extractDependenciesWithCalls env r)"
      unfolding resolver_edges_def by blast
    with g show ?thesis by simp
  next
    case False
    then have "find (\<lambda>x. r_name x = n) (rev rs) = None" by (auto simp: find_None_iff)
    with False show ?thesis
      unfolding forward_deps_def map_get_def fold_put_of resolver_edges_def by auto
  qed
  then show ?thesis by (auto simp: adj_edges_def)
qed

lemma using_provider_set:
  "set (ResolversUsingProvider calls p rs) =
     (if p = [] then {} else {r_name r | r. r \<in> set rs \<and> resolverUsesProvider calls p r})"
proof -
  have "set (fold (\<lambda>r seed. if resolverUsesProvider calls p r then set_insert (r_name r) seed else seed) rs acc)
      = set acc \<union> {r_name r | r. r \<in> set rs \<and> resolverUsesProvider calls p r}" for acc
    by (induction rs arbitrary: acc) auto
  then show ?thesis by (simp add: ResolversUsingProvider_def)
qed

lemma dependents_closure:
  "set (TransitiveDependents pick env rs seed) = {n. \<exists>s \<in> set seed. (n, s) \<in> (resolver_edges env rs)\<^sup>*}"
proof (cases "seed = []")
  case False
  have "set (bfs (reverse_deps env rs) (range_set pick seed) seed) = ((resolver_edges env rs)\<inverse>)\<^sup>* `` set seed"
    unfolding reverse_edges [symmetric] by (rule bfs_spec) auto
  with False show ?thesis by (auto simp: TransitiveDependents_def rtrancl_converse)
qed (simp add: TransitiveDependents_def)

lemma dependencies_closure:
  assumes "distinct (names rs)"
  shows "set (TransitiveDependencies pick env rs roots) = (resolver_edges env rs)\<^sup>* `` set roots"
proof (cases "roots = []")
  case False
  have "set (bfs (forward_deps env rs) (range_set pick roots) roots) = (resolver_edges env rs)\<^sup>* `` set roots"
    unfolding forward_edges [OF assms, symmetric] by (rule bfs_spec) auto
  with False show ?thesis by (simp add: TransitiveDependencies_def)
qed (simp add: TransitiveDependencies_def)

subsection \<open>Filtering a workflow\<close>

datatype filter_error = ActionNotFound string "string list" | NilActionDereference

text \<open>\<open>collectDeps\<close>: the pending calls of the recursive closure are the list of names.\<close>

function collectDeps :: "action option gomap \<Rightarrow> string list \<Rightarrow> string list \<Rightarrow> string list" where
  "collectDeps as [] needed = needed"
| "collectDeps as (n # ns) needed =
     (if n \<in> set needed then collectDeps as ns needed
      else (case map_of as n of
              Some (Some a) \<Rightarrow> collectDeps as (a_dependsOn a @ ns) (needed @ [n])
            | _ \<Rightarrow> collectDeps as ns needed))"
  by pat_completeness auto
termination
proof (relation "measures [\<lambda>(as, ns, needed). card (set (map_keys as) - set needed), \<lambda>(as, ns, needed). length ns]", goal_cases)
  case (5 as n ns needed oa a)
  then have "n \<in> set (map_keys as) - set needed" using map_has_iff_keys [of as n] by (simp add: map_has_def)
  moreover have "set (map_keys as) - set (needed @ [n]) = (set (map_keys as) - set needed) - {n}" by auto
  ultimately have "card (set (map_keys as) - set (needed @ [n])) < card (set (map_keys as) - set needed)"
    by (metis List.finite_set card_Diff1_less finite_Diff)
  then show ?case by simp
qed auto

definition restrict_actions :: "action option gomap \<Rightarrow> string list \<Rightarrow> action option gomap" where
  "restrict_actions as needed = fold (\<lambda>n m. map_put n (map_get None as n) m) needed []"

fun find_explicit :: "action option gomap \<Rightarrow> filter_error + bool" where
  "find_explicit [] = Inr False"
| "find_explicit ((_, None) # as) = Inl NilActionDereference"
| "find_explicit ((_, Some a) # as) = (if a_explicit a then Inr True else find_explicit as)"

fun collect_implicit ::
  "action option gomap \<Rightarrow> action option gomap \<Rightarrow> string list \<Rightarrow> filter_error + string list" where
  "collect_implicit all [] needed = Inr needed"
| "collect_implicit all ((_, None) # as) needed = Inl NilActionDereference"
| "collect_implicit all ((n, Some a) # as) needed =
     collect_implicit all as (if a_explicit a then needed else collectDeps all [n] needed)"

definition alias_name :: "action option \<Rightarrow> string" where
  "alias_name a = (case a of None \<Rightarrow> [] | Some x \<Rightarrow> a_alias x)"

definition filter_aliases :: "action option gomap \<Rightarrow> string gomap" where
  "filter_aliases as = fold (\<lambda>(n, a) m. if alias_name a \<noteq> [] then map_put (alias_name a) n m else m) as []"

fun resolve_targets ::
  "action option gomap \<Rightarrow> string gomap \<Rightarrow> string list \<Rightarrow> filter_error + string list" where
  "resolve_targets as al [] = Inr []"
| "resolve_targets as al (t # ts) =
     (let n = map_get t al t in
      if \<not> map_has as n then Inl (ActionNotFound t (sort (map_keys as)))
      else (case resolve_targets as al ts of Inl e \<Rightarrow> Inl e | Inr ns \<Rightarrow> Inr (n # ns)))"

definition FilterWorkflowActions :: "workflow \<Rightarrow> string list \<Rightarrow> filter_error + workflow" where
  "FilterWorkflowActions w targets =
     (if targets = []
      then (case find_explicit (w_actions w) of
              Inl e \<Rightarrow> Inl e
            | Inr False \<Rightarrow> Inr w
            | Inr True \<Rightarrow>
                (case collect_implicit (w_actions w) (w_actions w) [] of
                   Inl e \<Rightarrow> Inl e
                 | Inr needed \<Rightarrow> Inr (w\<lparr>w_actions := restrict_actions (w_actions w) needed\<rparr>)))
      else (case resolve_targets (w_actions w) (filter_aliases (w_actions w)) targets of
              Inl e \<Rightarrow> Inl e
            | Inr ns \<Rightarrow>
                (let needed = fold (\<lambda>n d. collectDeps (w_actions w) [n] d) ns []
                 in Inr (w\<lparr>w_actions := restrict_actions (w_actions w) needed\<rparr>))))"

text \<open>The actions that exist, and the edges between them.\<close>

definition real_actions :: "action option gomap \<Rightarrow> string set" where
  "real_actions as = {n. \<exists>a. map_of as n = Some (Some a)}"

definition depends_edges :: "action option gomap \<Rightarrow> (string \<times> string) set" where
  "depends_edges as =
     {(n, d). \<exists>a. map_of as n = Some (Some a) \<and> d \<in> set (a_dependsOn a) \<and> d \<in> real_actions as}"

lemma collectDeps_spec:
  "set needed \<subseteq> real_actions as \<Longrightarrow>
   (\<forall>x \<in> set needed. depends_edges as `` {x} \<subseteq> set needed \<union> set ns) \<Longrightarrow>
   set (collectDeps as ns needed) =
     set needed \<union> (depends_edges as)\<^sup>* `` (set ns \<inter> real_actions as)"
proof (induction as ns needed rule: collectDeps.induct)
  case (1 as needed)
  then show ?case by simp
next
  case (2 as n ns needed)
  let ?E = "depends_edges as"
  show ?case
  proof (cases "n \<in> set needed")
    case True
    have closed: "\<forall>x \<in> set needed. ?E `` {x} \<subseteq> set needed \<union> set ns" using "2.prems"(2) True by auto
    have "set (collectDeps as ns needed) = set needed \<union> ?E\<^sup>* `` (set ns \<inter> real_actions as)"
      by (rule "2.IH"(1) [OF True "2.prems"(1) closed])
    moreover have "?E\<^sup>* `` {n} \<subseteq> set needed \<union> ?E\<^sup>* `` (set ns \<inter> real_actions as)"
    proof
      fix y assume "y \<in> ?E\<^sup>* `` {n}"
      then have "(n, y) \<in> ?E\<^sup>*" by simp
      then show "y \<in> set needed \<union> ?E\<^sup>* `` (set ns \<inter> real_actions as)"
      proof (induction rule: rtrancl_induct)
        case (step y z)
        have "z \<in> real_actions as" using step(2) by (auto simp: depends_edges_def)
        with step closed show ?case by (auto intro: rtrancl_into_rtrancl)
      qed (use True in simp)
    qed
    ultimately show ?thesis using True by (auto simp: Image_Un)
  next
    case False
    show ?thesis
    proof (cases "n \<in> real_actions as")
      case True
      then obtain a where a: "map_of as n = Some (Some a)" by (auto simp: real_actions_def)
      have En: "?E `` {n} = set (a_dependsOn a) \<inter> real_actions as" using a by (auto simp: depends_edges_def)
      have "set (needed @ [n]) \<subseteq> real_actions as" using "2.prems"(1) True by simp
      moreover have "\<forall>x \<in> set (needed @ [n]). ?E `` {x} \<subseteq> set (needed @ [n]) \<union> set (a_dependsOn a @ ns)"
        using "2.prems"(2) En by auto
      ultimately have "set (collectDeps as (a_dependsOn a @ ns) (needed @ [n])) =
          set (needed @ [n]) \<union> ?E\<^sup>* `` (set (a_dependsOn a @ ns) \<inter> real_actions as)"
        using "2.IH"(4) [OF False a refl] by simp
      also have "\<dots> = set needed \<union> ({n} \<union> ?E\<^sup>* `` (?E `` {n})) \<union> ?E\<^sup>* `` (set ns \<inter> real_actions as)"
        by (auto simp: En Image_Un)
      also have "{n} \<union> ?E\<^sup>* `` (?E `` {n}) = ?E\<^sup>* `` {n}"
        by (auto intro: converse_rtrancl_into_rtrancl elim: converse_rtranclE)
      finally show ?thesis using False a True by (auto simp: Image_Un)
    next
      case nr: False
      then have step: "collectDeps as (n # ns) needed = collectDeps as ns needed"
        using False by (auto simp: real_actions_def split: option.split)
      have closed: "\<forall>x \<in> set needed. ?E `` {x} \<subseteq> set needed \<union> set ns"
        using "2.prems"(2) nr by (auto simp: depends_edges_def)
      have "set (collectDeps as ns needed) = set needed \<union> ?E\<^sup>* `` (set ns \<inter> real_actions as)"
      proof (cases "map_of as n")
        case None
        from "2.IH"(2) [OF False None "2.prems"(1) closed] show ?thesis .
      next
        case (Some oa)
        with nr have o: "oa = None" by (cases oa) (auto simp: real_actions_def)
        from "2.IH"(3) [OF False Some o "2.prems"(1) closed] show ?thesis .
      qed
      with step nr show ?thesis by auto
    qed
  qed
qed
declare collectDeps.simps(2) [simp del]

lemma restrict_actions_of:
  assumes "set needed \<subseteq> real_actions as"
  shows "map_of (restrict_actions as needed) = map_of as |` set needed"
proof -
  have *: "map_of (fold (\<lambda>n m. map_put n (map_get None as n) m) ns m) =
      (\<lambda>n. if n \<in> set ns then Some (map_get None as n) else map_of m n)" for ns m
    by (induction ns arbitrary: m) (auto simp: fun_eq_iff)
  show ?thesis
  proof (rule ext)
    fix n
    show "map_of (restrict_actions as needed) n = (map_of as |` set needed) n"
      using assms unfolding restrict_actions_def *
      by (cases "n \<in> set needed") (auto simp: real_actions_def map_get_def restrict_map_def)
  qed
qed

lemma reach_real: "(depends_edges as)\<^sup>* `` (A \<inter> real_actions as) \<subseteq> real_actions as"
proof
  fix y assume "y \<in> (depends_edges as)\<^sup>* `` (A \<inter> real_actions as)"
  then obtain x where "x \<in> real_actions as" "(x, y) \<in> (depends_edges as)\<^sup>*" by blast
  from this(2,1) show "y \<in> real_actions as"
    by (induction rule: rtrancl_induct) (auto simp: depends_edges_def)
qed

text \<open>Collecting from a closed set of needed names adds what the new names reach.\<close>

lemma collectDeps_closed:
  assumes "set needed = (depends_edges as)\<^sup>* `` (A \<inter> real_actions as)"
  shows "set (collectDeps as ns needed) = (depends_edges as)\<^sup>* `` ((A \<union> set ns) \<inter> real_actions as)"
proof -
  have "set needed \<subseteq> real_actions as" using reach_real assms by blast
  moreover have "\<forall>x \<in> set needed. depends_edges as `` {x} \<subseteq> set needed \<union> set ns"
    unfolding assms by (auto intro: rtrancl_into_rtrancl)
  ultimately have "set (collectDeps as ns needed) =
     set needed \<union> (depends_edges as)\<^sup>* `` (set ns \<inter> real_actions as)" by (rule collectDeps_spec)
  then show ?thesis unfolding assms by (simp add: Int_Un_distrib2 Image_Un)
qed

lemma collect_targets:
  "set needed = (depends_edges as)\<^sup>* `` (A \<inter> real_actions as) \<Longrightarrow>
   set (fold (\<lambda>n d. collectDeps as [n] d) ns needed) = (depends_edges as)\<^sup>* `` ((A \<union> set ns) \<inter> real_actions as)"
proof (induction ns arbitrary: needed A)
  case (Cons n ns)
  have "set (collectDeps as [n] needed) = (depends_edges as)\<^sup>* `` ((A \<union> {n}) \<inter> real_actions as)"
    using collectDeps_closed [OF Cons.prems, of "[n]"] by simp
  from Cons.IH [OF this] show ?case by simp
qed simp

lemma resolve_targets_Inr:
  "resolve_targets as al ts = Inr ns \<Longrightarrow> ns = map (\<lambda>t. map_get t al t) ts \<and> (\<forall>n \<in> set ns. map_has as n)"
  by (induction ts arbitrary: ns) (auto simp: Let_def split: if_splits sum.splits)

lemma resolve_targets_Inl:
  "resolve_targets as al ts = Inl e \<Longrightarrow>
     \<exists>t \<in> set ts. e = ActionNotFound t (sort (map_keys as)) \<and> \<not> map_has as (map_get t al t)"
  by (induction ts) (auto simp: Let_def split: if_splits sum.splits)

definition target_names :: "workflow \<Rightarrow> string list \<Rightarrow> string set" where
  "target_names w ts = (\<lambda>t. map_get t (filter_aliases (w_actions w)) t) ` set ts"

definition needed_actions :: "workflow \<Rightarrow> string set \<Rightarrow> string set" where
  "needed_actions w A = (depends_edges (w_actions w))\<^sup>* `` (A \<inter> real_actions (w_actions w))"

lemma filter_targets:
  assumes "FilterWorkflowActions w ts = Inr w'" "ts \<noteq> []"
  shows "w' = w\<lparr>w_actions := w_actions w'\<rparr> \<and>
     map_of (w_actions w') = map_of (w_actions w) |` needed_actions w (target_names w ts)"
proof -
  let ?as = "w_actions w"
  from assms obtain ns where ns: "resolve_targets ?as (filter_aliases ?as) ts = Inr ns"
    and w': "w' = w\<lparr>w_actions := restrict_actions ?as (fold (\<lambda>n d. collectDeps ?as [n] d) ns [])\<rparr>"
    by (auto simp: FilterWorkflowActions_def Let_def split: sum.splits)
  have "set ns = target_names w ts" using resolve_targets_Inr [OF ns] by (simp add: target_names_def)
  moreover have "set (fold (\<lambda>n d. collectDeps ?as [n] d) ns []) = (depends_edges ?as)\<^sup>* `` (({} \<union> set ns) \<inter> real_actions ?as)"
    by (rule collect_targets) simp
  ultimately have s: "set (fold (\<lambda>n d. collectDeps ?as [n] d) ns []) = needed_actions w (target_names w ts)"
    by (simp add: needed_actions_def)
  then have "set (fold (\<lambda>n d. collectDeps ?as [n] d) ns []) \<subseteq> real_actions ?as"
    unfolding needed_actions_def using reach_real by blast
  from restrict_actions_of [OF this] s w' show ?thesis by simp
qed

definition implicit_actions :: "action option gomap \<Rightarrow> string set" where
  "implicit_actions as = {n. \<exists>a. (n, Some a) \<in> set as \<and> \<not> a_explicit a}"

lemma collect_implicit_Inr:
  "collect_implicit all as needed = Inr out \<Longrightarrow>
   set needed = (depends_edges all)\<^sup>* `` (A \<inter> real_actions all) \<Longrightarrow>
   set out = (depends_edges all)\<^sup>* `` ((A \<union> implicit_actions as) \<inter> real_actions all)"
proof (induction as arbitrary: needed A)
  case Nil
  then show ?case by (simp add: implicit_actions_def)
next
  case (Cons x as)
  obtain n oa where x: "x = (n, oa)" by fastforce
  with Cons.prems(1) obtain a where a: "oa = Some a" by (cases oa) auto
  show ?case
  proof (cases "a_explicit a")
    case True
    then have "implicit_actions (x # as) = implicit_actions as" using x a by (auto simp: implicit_actions_def)
    with Cons.IH [of needed A] Cons.prems x a True show ?thesis by simp
  next
    case False
    then have i: "implicit_actions (x # as) = insert n (implicit_actions as)" using x a by (auto simp: implicit_actions_def)
    have "set (collectDeps all [n] needed) = (depends_edges all)\<^sup>* `` ((A \<union> {n}) \<inter> real_actions all)"
      using collectDeps_closed [OF Cons.prems(2), of "[n]"] by simp
    moreover have "collect_implicit all as (collectDeps all [n] needed) = Inr out"
      using Cons.prems(1) x a False by simp
    ultimately show ?thesis using Cons.IH [of "collectDeps all [n] needed" "A \<union> {n}"] i by simp
  qed
qed

lemma filter_implicit:
  assumes "FilterWorkflowActions w [] = Inr w'" "distinct (map_keys (w_actions w))"
  shows "w' = w\<lparr>w_actions := w_actions w'\<rparr> \<and>
     map_of (w_actions w') = map_of (w_actions w) |` needed_actions w (implicit_actions (w_actions w))"
proof (cases "find_explicit (w_actions w) = Inr True")
  case True
  let ?as = "w_actions w"
  from assms(1) True obtain needed where n: "collect_implicit ?as ?as [] = Inr needed"
    and w': "w' = w\<lparr>w_actions := restrict_actions ?as needed\<rparr>"
    by (auto simp: FilterWorkflowActions_def split: sum.splits)
  have "set needed = (depends_edges ?as)\<^sup>* `` (({} \<union> implicit_actions ?as) \<inter> real_actions ?as)"
    by (rule collect_implicit_Inr [OF n]) simp
  then have s: "set needed = needed_actions w (implicit_actions ?as)" by (simp add: needed_actions_def)
  then have "set needed \<subseteq> real_actions ?as" unfolding needed_actions_def using reach_real by blast
  from restrict_actions_of [OF this] s w' show ?thesis by simp
next
  case False
  let ?as = "w_actions w"
  from assms(1) False have f: "find_explicit ?as = Inr False" and w': "w' = w"
    by (auto simp: FilterWorkflowActions_def split: sum.splits if_splits bool.splits)
  have all: "find_explicit as = Inr False \<Longrightarrow> \<forall>(n, oa) \<in> set as. \<exists>a. oa = Some a \<and> \<not> a_explicit a" for as
    by (induction as rule: find_explicit.induct) (auto split: if_splits)
  have "map_of ?as n = None \<or> n \<in> needed_actions w (implicit_actions ?as)" for n
  proof (cases "map_of ?as n")
    case (Some oa)
    then have m: "(n, oa) \<in> set ?as" by (rule map_of_SomeD)
    with all [OF f] obtain a where "oa = Some a" "\<not> a_explicit a" by blast
    with m Some show ?thesis by (auto simp: needed_actions_def implicit_actions_def real_actions_def)
  qed simp
  then have "map_of ?as = map_of ?as |` needed_actions w (implicit_actions ?as)"
    by (auto simp: restrict_map_def fun_eq_iff)
  with w' show ?thesis by simp
qed

section \<open>Properties\<close>

text \<open>The transitive dependents of a set of resolvers are exactly the names from which the set is reached
  over dependency edges.\<close>

theorem transitive_dependents:
  "set (TransitiveDependents pick env rs seed) = {n. \<exists>s \<in> set seed. (n, s) \<in> (resolver_edges env rs)\<^sup>*}"
  by (rule dependents_closure)

text \<open>The transitive dependencies of a set of resolvers are exactly the names it reaches over dependency
  edges; the resolvers' names are distinct.\<close>

theorem transitive_dependencies:
  assumes "distinct (names rs)"
  shows "set (TransitiveDependencies pick env rs roots) = (resolver_edges env rs)\<^sup>* `` set roots"
  by (rule dependencies_closure [OF assms])

theorem transitive_dependencies_witness:
  "''a'' \<in> (resolver_edges sample_deps_env
     [sample_resolver ''c'' [] (RefResolver ''b''), sample_resolver ''b'' [] (RefResolver ''a'')])\<^sup>* `` {''c''}"
proof -
  let ?rs = "[sample_resolver ''c'' [] (RefResolver ''b''), sample_resolver ''b'' [] (RefResolver ''a'')]"
  have "distinct (names ?rs)" by (simp add: names_def sample_resolver_def)
  from transitive_dependencies [OF this, of "\<lambda>_. 0" sample_deps_env "[''c'']"]
  have "set (TransitiveDependencies (\<lambda>_. 0) sample_deps_env ?rs [''c'']) = (resolver_edges sample_deps_env ?rs)\<^sup>* `` {''c''}"
    by simp
  moreover have "''a'' \<in> set (TransitiveDependencies (\<lambda>_. 0) sample_deps_env ?rs [''c''])" by code_simp
  ultimately show ?thesis by blast
qed

text \<open>Running selected targets keeps, unchanged, exactly the actions the targets (by name or by alias) reach
  over \<open>dependsOn\<close> edges; the rest of the workflow is untouched.\<close>

theorem filtered_targets:
  assumes "FilterWorkflowActions w ts = Inr w'" "ts \<noteq> []"
  shows "w' = w\<lparr>w_actions := w_actions w'\<rparr> \<and>
     map_of (w_actions w') = map_of (w_actions w) |` needed_actions w (target_names w ts)"
  by (rule filter_targets [OF assms])

theorem filtered_targets_witness:
  "\<exists>w'. FilterWorkflowActions sample_workflow [''b''] = Inr w' \<and> map_keys (w_actions w') = [''b'', ''a''] \<and>
     map_of (w_actions w') = map_of (w_actions sample_workflow) |` needed_actions sample_workflow (target_names sample_workflow [''b''])"
proof -
  let ?F = "FilterWorkflowActions sample_workflow [''b'']"
  have e: "\<not> isl ?F" "map_keys (w_actions (projr ?F)) = [''b'', ''a'']" by code_simp+
  have w': "?F = Inr (projr ?F)" by (rule Inr_projr [OF e(1)])
  from filtered_targets [OF w'] e(2) w' show ?thesis by blast
qed

text \<open>Without targets the explicit actions are dropped unless an action that is not explicit needs them.\<close>

theorem filtered_explicit:
  assumes "FilterWorkflowActions w [] = Inr w'" "distinct (map_keys (w_actions w))"
  shows "w' = w\<lparr>w_actions := w_actions w'\<rparr> \<and>
     map_of (w_actions w') = map_of (w_actions w) |` needed_actions w (implicit_actions (w_actions w))"
  by (rule filter_implicit [OF assms])

theorem filtered_explicit_witness:
  "\<exists>w'. FilterWorkflowActions (sample_workflow\<lparr>w_actions := [(''a'', Some (sample_action [] [])),
       (''x'', Some ((sample_action [] [])\<lparr>a_explicit := True\<rparr>))]\<rparr>) [] = Inr w' \<and> map_keys (w_actions w') = [''a''] \<and>
     w' = sample_workflow\<lparr>w_actions := w_actions w'\<rparr>"
proof -
  let ?w = "sample_workflow\<lparr>w_actions := [(''a'', Some (sample_action [] [])),
       (''x'', Some ((sample_action [] [])\<lparr>a_explicit := True\<rparr>))]\<rparr>"
  have e: "\<not> isl (FilterWorkflowActions ?w [])" "map_keys (w_actions (projr (FilterWorkflowActions ?w []))) = [''a'']"
    by code_simp+
  have w': "FilterWorkflowActions ?w [] = Inr (projr (FilterWorkflowActions ?w []))" by (rule Inr_projr [OF e(1)])
  have "distinct (map_keys (w_actions ?w))" by (simp add: map_keys_def)
  from filtered_explicit [OF w' this] have "projr (FilterWorkflowActions ?w []) =
      ?w\<lparr>w_actions := w_actions (projr (FilterWorkflowActions ?w []))\<rparr>" by (rule conjunct1)
  then have "projr (FilterWorkflowActions ?w []) =
      sample_workflow\<lparr>w_actions := w_actions (projr (FilterWorkflowActions ?w []))\<rparr>"
    by (simp only: workflow.update_convs sample_workflow_def)
  with e(2) w' show ?thesis by blast
qed

end
