(* ===== verification/Action_Refs.thy ===== *)
theory Action_Refs
  imports Action_Types
begin

text \<open>
  \<open>parseActionsRefsFromString\<close> and its helpers (\<open>pkg/action/validation.go\<close>): the action
  names mentioned as \<open>__actions.name\<close> or \<open>__actions["name"]\<close> outside string literals.

  The byte index of the Go loop is the remaining suffix here; \<open>quote\<close> is \<open>quoteChar\<close>
  (\<open>None\<close> is the zero byte).
\<close>

definition quote_chars :: "char list" where
  "quote_chars = [CHR 0x22, CHR 0x27, CHR 0x60]"

definition ident_char :: "char \<Rightarrow> bool" where
  "ident_char c =
     (let n = (of_char c :: nat) in
      97 \<le> n \<and> n \<le> 122 \<or> 65 \<le> n \<and> n \<le> 90 \<or> 48 \<le> n \<and> n \<le> 57 \<or> c = CHR ''_'' \<or> c = CHR ''-'')"

definition parseIdentifier :: "string \<Rightarrow> string" where
  "parseIdentifier s = takeWhile ident_char s"

definition parseQuotedString :: "string \<Rightarrow> string" where
  "parseQuotedString s =
     (if length s < 2 then []
      else if hd s \<noteq> CHR 0x22 \<and> hd s \<noteq> CHR 0x27 then []
      else if hd s \<notin> set (tl s) then []
      else takeWhile (\<lambda>c. c \<noteq> hd s) (tl s))"

definition skip_bracket :: "string \<Rightarrow> string" where
  "skip_bracket s = (if s \<noteq> [] \<and> hd s = CHR '']'' then tl s else s)"

function (sequential) parse_refs :: "char option \<Rightarrow> string \<Rightarrow> string list \<Rightarrow> string list" where
  "parse_refs q [] refs = refs"
| "parse_refs (Some q) (c # s) refs =
     (if q \<noteq> CHR 0x60 \<and> c = CHR 0x5C \<and> s \<noteq> [] then parse_refs (Some q) (tl s) refs
      else if c = q then parse_refs None s refs
      else parse_refs (Some q) s refs)"
| "parse_refs None (c # s) refs =
     (if c \<in> set quote_chars then parse_refs (Some c) s refs
      else if \<not> strings_HasPrefix (c # s) ''__actions'' then parse_refs None s refs
      else (case drop 9 (c # s) of
              [] \<Rightarrow> refs
            | d # r \<Rightarrow>
                (if d = CHR ''.''
                 then (let n = parseIdentifier r in
                       if n \<noteq> [] then parse_refs None (drop (length n) r) (set_insert n refs)
                       else parse_refs None r refs)
                 else if d = CHR ''[''
                 then (let n = parseQuotedString r in
                       if n \<noteq> [] then parse_refs None (skip_bracket (drop (length n + 2) r)) (set_insert n refs)
                       else parse_refs None r refs)
                 else parse_refs None (d # r) refs)))"
  by pat_completeness auto

lemma drop_sentinel: "drop 8 s = d # r \<Longrightarrow> length s = length r + 9"
  using length_drop [of 8 s] by simp

lemma skip_bracket_le: "length (skip_bracket s) \<le> length s"
  by (simp add: skip_bracket_def)

lemma bracket_rest_le: "length (skip_bracket (drop n r)) \<le> length r"
  using skip_bracket_le [of "drop n r"] by simp

termination parse_refs
  by (relation "measure (\<lambda>(q, s, refs). length s)")
    (auto simp: less_Suc_eq_le dest!: drop_sentinel intro: le_trans [OF bracket_rest_le])

declare parse_refs.simps [simp del]

definition parseActionsRefsForGraph :: "string \<Rightarrow> string list" where
  "parseActionsRefsForGraph s = parse_refs None s []"

subsection \<open>What the scanner finds\<close>

lemma parse_refs_grows: "set refs \<subseteq> set (parse_refs q s refs)"
proof (induction q s refs rule: parse_refs.induct)
  case (2 q c s refs)
  then show ?case by (subst parse_refs.simps) auto
next
  case (3 c s refs)
  then show ?case by (subst parse_refs.simps) (auto simp: Let_def split: list.split)
qed (simp add: parse_refs.simps)

text \<open>A string literal contributes nothing.\<close>

lemma parse_refs_inside:
  "q \<in> set quote_chars \<Longrightarrow> q \<notin> set w \<Longrightarrow> CHR 0x5C \<notin> set w \<or> q = CHR 0x60 \<Longrightarrow>
   parse_refs (Some q) (w @ q # s) refs = parse_refs None s refs"
proof (induction w)
  case Nil
  then show ?case by (auto simp: parse_refs.simps(2) quote_chars_def)
next
  case (Cons c w)
  then show ?case by (auto simp: parse_refs.simps(2))
qed

lemma parse_refs_literal:
  assumes "q \<in> set quote_chars" "q \<notin> set w" "CHR 0x5C \<notin> set w \<or> q = CHR 0x60"
  shows "parse_refs None (q # w @ q # s) refs = parse_refs None s refs"
  using parse_refs_inside [OF assms] assms(1) by (simp add: parse_refs.simps(3))

lemma parse_refs_dot:
  assumes n: "n \<noteq> []" "\<forall>c \<in> set n. ident_char c" and rest: "rest = [] \<or> \<not> ident_char (hd rest)"
  shows "parse_refs None (''__actions.'' @ n @ rest) refs = parse_refs None rest (set_insert n refs)"
proof -
  have "takeWhile ident_char (n @ rest) = n"
    using n(2) rest by (cases rest) (auto simp: takeWhile_append2)
  then have "parseIdentifier (n @ rest) = n" by (simp add: parseIdentifier_def)
  with n(1) show ?thesis
    by (simp add: parse_refs.simps(3) quote_chars_def strings_HasPrefix_def Let_def)
qed

lemma parse_refs_bracket:
  assumes n: "n \<noteq> []" "q \<notin> set n" and q: "q = CHR 0x22 \<or> q = CHR 0x27"
  shows "parse_refs None (''__actions['' @ q # n @ q # '']'' @ rest) refs = parse_refs None rest (set_insert n refs)"
proof -
  have "takeWhile (\<lambda>c. c \<noteq> q) (n @ q # '']'' @ rest) = n"
    using n(2) by (subst takeWhile_append2) auto
  then have "parseQuotedString (q # n @ q # '']'' @ rest) = n" using n q by (auto simp: parseQuotedString_def)
  with n(1) show ?thesis
    by (simp add: parse_refs.simps(3) quote_chars_def strings_HasPrefix_def Let_def skip_bracket_def)
qed

end
