(* ===== verification/Action_Graph.thy ===== *)
theory Action_Graph
  imports Action_Refs Levels
begin

text \<open>
  \<open>pkg/action/graph.go\<close> with the deferral of \<open>deferred.go\<close>: expanding the actions of a
  workflow, their dependencies and exclusions, and the phases they run in.

  \<open>pick\<close> fixes the iteration order of Go's maps where a set is listed; the section
  maps are association lists visited in their order.
\<close>

datatype graph_error =
    NilWorkflow
  | ForEachInMissing string
  | ForEachFailed string ref_error
  | ForEachNotArray string
  | DeferFailed string string
  | MaterializeFailed string string ref_error
  | ActionCycle

definition resolve_in_graph ::
  "val_env \<Rightarrow> gval gomap \<Rightarrow> iteration_context option \<Rightarrow> value_ref option \<Rightarrow> ref_error + gval" where
  "resolve_in_graph env data ic r = ResolveWithIterationContext env data VNil ic r"

definition evaluateForEachArray ::
  "val_env \<Rightarrow> gval gomap \<Rightarrow> string \<Rightarrow> foreach_clause \<Rightarrow> graph_error + gval list" where
  "evaluateForEachArray env data name fe =
     (case fe_in fe of None \<Rightarrow> Inl (ForEachInMissing name)
      | Some r \<Rightarrow>
          (case ref_Resolve env data VNil (Some r) of
             Inl e \<Rightarrow> Inl (ForEachFailed name e)
           | Inr (VList vs) \<Rightarrow> Inr vs
           | Inr VNil \<Rightarrow> Inr []
           | Inr _ \<Rightarrow> Inl (ForEachNotArray name)))"

definition alias_of :: "action option \<Rightarrow> string" where
  "alias_of a = (case a of None \<Rightarrow> [] | Some x \<Rightarrow> a_alias x)"

definition buildAliasNames :: "action option gomap list \<Rightarrow> string list" where
  "buildAliasNames sections = fold (\<lambda>s acc. fold (\<lambda>(_, a) d. add_name (alias_of a) d) s acc) sections []"

definition runtime_vars :: "string list" where
  "runtime_vars = [''__actions'', ''__cwd'', ''__execution'']"

definition referencesActionsOrAlias :: "val_env \<Rightarrow> value_ref option \<Rightarrow> string list \<Rightarrow> bool" where
  "referencesActionsOrAlias env r aliases =
     (let vars = ReferencedVariables env r in
      (\<exists>x \<in> set runtime_vars. x \<in> set vars) \<or> (\<exists>a \<in> set aliases. a \<in> set vars))"

definition conditionReferencesActions :: "val_env \<Rightarrow> condition option \<Rightarrow> string list \<Rightarrow> bool" where
  "conditionReferencesActions env c aliases =
     (case c of None \<Rightarrow> False
      | Some k \<Rightarrow>
          (case c_expr k of None \<Rightarrow> False
           | Some e \<Rightarrow>
               (case ve_required env e of None \<Rightarrow> True
                | Some vars \<Rightarrow> \<exists>v \<in> set vars. v \<in> set runtime_vars \<or> v \<in> set aliases)))"

fun materializeDeferred :: "value_ref \<Rightarrow> deferred_value option" where
  "materializeDeferred (RefExpr e) = Some \<lparr>dv_expr = e, dv_tmpl = []\<rparr>"
| "materializeDeferred (RefTmpl t) = Some \<lparr>dv_expr = [], dv_tmpl = t\<rparr>"
| "materializeDeferred _ = None"

text \<open>The loop over the inputs: materialized values and deferred ones.\<close>

fun materialize_inputs ::
  "val_env \<Rightarrow> gval gomap \<Rightarrow> iteration_context option \<Rightarrow> string list \<Rightarrow> string \<Rightarrow>
   value_ref option gomap \<Rightarrow> gval gomap \<Rightarrow> deferred_value gomap \<Rightarrow>
   graph_error + (gval gomap \<times> deferred_value gomap)" where
  "materialize_inputs env data ic aliases name [] ms ds = Inr (ms, ds)"
| "materialize_inputs env data ic aliases name ((k, None) # ins) ms ds =
     materialize_inputs env data ic aliases name ins (map_put k VNil ms) ds"
| "materialize_inputs env data ic aliases name ((k, Some r) # ins) ms ds =
     (if referencesActionsOrAlias env (Some r) aliases
      then (case materializeDeferred r of
              None \<Rightarrow> Inl (DeferFailed name k)
            | Some dv \<Rightarrow> materialize_inputs env data ic aliases name ins ms (map_put k dv ds))
      else (case resolve_in_graph env data ic (Some r) of
              Inl e \<Rightarrow> Inl (MaterializeFailed name k e)
            | Inr v \<Rightarrow> materialize_inputs env data ic aliases name ins (map_put k v ms) ds))"

definition new_expanded :: "action \<Rightarrow> string \<Rightarrow> string \<Rightarrow> foreach_meta option \<Rightarrow> expanded_action" where
  "new_expanded a section name fm =
     \<lparr>ea_action = a, ea_name = name, ea_materialized = [], ea_deferred = [], ea_section = section,
      ea_forEach = fm, ea_dependencies = [], ea_crossRefs = [], ea_whenSkipped = False,
      ea_exclusive = []\<rparr>"

text \<open>\<open>index\<close> and \<open>item\<close> are given together, for an iteration only.\<close>

definition createExpandedAction ::
  "val_env \<Rightarrow> bool \<Rightarrow> gval gomap \<Rightarrow> string list \<Rightarrow> action \<Rightarrow> string \<Rightarrow> (nat \<times> gval) option \<Rightarrow> string \<Rightarrow>
   graph_error + expanded_action" where
  "createExpandedAction env skip data aliases a section iter name =
     (let fm = map_option (\<lambda>(i, v). \<lparr>fm_from = name, fm_index = i, fm_item = v\<rparr>) iter;
          ea = new_expanded a section name fm
      in if \<not> skip \<and> a_when a \<noteq> None \<and> \<not> conditionReferencesActions env (a_when a) aliases \<and>
            cond_Evaluate env (a_when a) data = Inr False
         then Inr (ea\<lparr>ea_whenSkipped := True\<rparr>)
         else if skip then Inr ea
         else
           (let ic = (case (iter, a_forEach a) of
                        (Some (i, v), Some fe) \<Rightarrow>
                           Some \<lparr>ic_item = v, ic_index = i, ic_itemAlias = fe_item fe, ic_indexAlias = fe_index fe\<rparr>
                      | _ \<Rightarrow> None)
            in case materialize_inputs env data ic aliases name (a_inputs a) [] [] of
                 Inl e \<Rightarrow> Inl e
               | Inr (ms, ds) \<Rightarrow> Inr (ea\<lparr>ea_materialized := ms, ea_deferred := ds\<rparr>)))"

subsection \<open>Expanding a section\<close>

fun expand_items ::
  "val_env \<Rightarrow> bool \<Rightarrow> gval gomap \<Rightarrow> string list \<Rightarrow> action \<Rightarrow> string \<Rightarrow> string \<Rightarrow> nat \<Rightarrow> gval list \<Rightarrow>
   expanded_action gomap \<Rightarrow> graph_error + expanded_action gomap" where
  "expand_items env skip data aliases a section name i [] ex = Inr ex"
| "expand_items env skip data aliases a section name i (v # vs) ex =
     (case createExpandedAction env skip data aliases a section (Some (i, v)) name of
        Inl e \<Rightarrow> Inl e
      | Inr ea \<Rightarrow>
          expand_items env skip data aliases a section name (Suc i) vs
            (map_put (CreateIterationName name i) (ea\<lparr>ea_name := CreateIterationName name i\<rparr>) ex))"

definition iteration_names :: "string \<Rightarrow> nat \<Rightarrow> string list" where
  "iteration_names name n = map (CreateIterationName name) [0 ..< n]"

fun expand_actions ::
  "val_env \<Rightarrow> bool \<Rightarrow> gval gomap \<Rightarrow> string list \<Rightarrow> string \<Rightarrow> action option gomap \<Rightarrow>
   expanded_action gomap \<Rightarrow> string list gomap \<Rightarrow>
   graph_error + (expanded_action gomap \<times> string list gomap)" where
  "expand_actions env skip data aliases section [] ex fe = Inr (ex, fe)"
| "expand_actions env skip data aliases section ((name, None) # as) ex fe =
     expand_actions env skip data aliases section as ex fe"
| "expand_actions env skip data aliases section ((name, Some a) # as) ex fe =
     (case a_forEach a of
        Some cl \<Rightarrow>
          (case evaluateForEachArray env data name cl of
             Inl e \<Rightarrow> Inl e
           | Inr items \<Rightarrow>
               (case expand_items env skip data aliases a section name 0 items ex of
                  Inl e \<Rightarrow> Inl e
                | Inr ex' \<Rightarrow>
                    expand_actions env skip data aliases section as ex'
                      (map_put name (iteration_names name (length items)) fe)))
      | None \<Rightarrow>
          (case createExpandedAction env skip data aliases a section None name of
             Inl e \<Rightarrow> Inl e
           | Inr ea \<Rightarrow> expand_actions env skip data aliases section as (map_put name ea ex) fe))"

text \<open>The references of an action, in the order the code inserts them.\<close>

definition deferred_refs :: "deferred_value \<Rightarrow> string list" where
  "deferred_refs dv =
     sets_List ((if dv_expr dv \<noteq> [] then parseActionsRefsForGraph (dv_expr dv) else []) @
                (if dv_tmpl dv \<noteq> [] then parseActionsRefsForGraph (dv_tmpl dv) else []))"

fun valueref_refs :: "value_ref option \<Rightarrow> string list" where
  "valueref_refs (Some (RefExpr e)) = sets_List (parseActionsRefsForGraph e)"
| "valueref_refs (Some (RefTmpl t)) = sets_List (parseActionsRefsForGraph t)"
| "valueref_refs _ = []"

definition when_refs :: "condition option \<Rightarrow> string list" where
  "when_refs c = (case c of None \<Rightarrow> [] | Some k \<Rightarrow>
     (case c_expr k of None \<Rightarrow> [] | Some e \<Rightarrow> parseActionsRefsForGraph e))"

definition raw_refs :: "expanded_action \<Rightarrow> string list" where
  "raw_refs ea =
     a_dependsOn (ea_action ea) @ concat (map (deferred_refs \<circ> snd) (ea_deferred ea)) @
     when_refs (a_when (ea_action ea)) @ concat (map (valueref_refs \<circ> snd) (a_args (ea_action ea)))"

definition expand_ref :: "string list gomap \<Rightarrow> string \<Rightarrow> string list" where
  "expand_ref fe r = (case map_of fe r of Some ns \<Rightarrow> ns | None \<Rightarrow> [r])"

definition computeEffectiveDependencies ::
  "expanded_action \<Rightarrow> string list gomap \<Rightarrow> string list \<Rightarrow> string list \<times> string list" where
  "computeEffectiveDependencies ea fe names =
     (let refs = concat (map (expand_ref fe) (raw_refs ea)) in
      (sets_List (filter (\<lambda>r. r \<in> set names) refs), sets_List (filter (\<lambda>r. r \<notin> set names) refs)))"

definition computeExpandedExclusive :: "expanded_action \<Rightarrow> string list gomap \<Rightarrow> string list" where
  "computeExpandedExclusive ea fe =
     sets_List (concat (map (expand_ref fe) (a_exclusive (ea_action ea))))"

definition finish_expanded ::
  "string list gomap \<Rightarrow> string list \<Rightarrow> expanded_action \<Rightarrow> expanded_action" where
  "finish_expanded fe names ea =
     (case computeEffectiveDependencies ea fe names of
        (same, cross) \<Rightarrow> ea\<lparr>ea_dependencies := same, ea_crossRefs := cross,
                            ea_exclusive := computeExpandedExclusive ea fe\<rparr>)"

definition expandSection ::
  "val_env \<Rightarrow> bool \<Rightarrow> gval gomap \<Rightarrow> string list \<Rightarrow> string \<Rightarrow> action option gomap \<Rightarrow>
   graph_error + (expanded_action gomap \<times> string list gomap)" where
  "expandSection env skip data aliases section as =
     (case expand_actions env skip data aliases section as [] [] of
        Inl e \<Rightarrow> Inl e
      | Inr (ex, fe) \<Rightarrow>
          (let ex' = map (\<lambda>(n, ea). (n, finish_expanded fe (map_keys ex) ea)) ex
           in Inr (ex', map (\<lambda>(n, ea). (n, ea_dependencies ea)) ex')))"

subsection \<open>Execution phases\<close>

text \<open>\<open>inDegree\<close> and \<open>dependents\<close> of \<open>computeExecutionPhases\<close>.\<close>

definition count_dep ::
  "'a gomap \<Rightarrow> string \<Rightarrow> string \<Rightarrow> int gomap \<times> string list gomap \<Rightarrow> int gomap \<times> string list gomap" where
  "count_dep actions name dep st =
     (if map_has actions dep
      then (map_put name (map_get 0 (fst st) name + 1) (fst st),
            map_put dep (map_get [] (snd st) dep @ [name]) (snd st))
      else st)"

definition in_degrees ::
  "'a gomap \<Rightarrow> string list gomap \<Rightarrow> int gomap \<times> string list gomap" where
  "in_degrees actions deps =
     fold (\<lambda>(name, ds). fold (count_dep actions name) ds) deps (map (\<lambda>(n, _). (n, 0)) actions, [])"

definition decrement :: "string \<Rightarrow> int gomap \<Rightarrow> int gomap" where
  "decrement d ind = (if map_has ind d then map_put d (map_get 0 ind d - 1) ind else ind)"

definition process_name :: "string list gomap \<Rightarrow> string \<Rightarrow> int gomap \<Rightarrow> int gomap" where
  "process_name dpts name ind = fold decrement (map_get [] dpts name) (map_del name ind)"

definition zero_phase :: "int gomap \<Rightarrow> string list" where
  "zero_phase ind = sort (map fst (filter (\<lambda>(_, d). d = 0) ind))"

function phases_loop ::
  "string list gomap \<Rightarrow> int gomap \<Rightarrow> nat \<Rightarrow> string list list \<Rightarrow> graph_error + string list list" where
  "phases_loop dpts ind remaining phases =
     (if remaining = 0 then Inr phases
      else (let phase = zero_phase ind in
            if phase = [] then Inl ActionCycle
            else phases_loop dpts (fold (process_name dpts) phase ind) (remaining - length phase)
                   (phases @ [phase])))"
  by pat_completeness auto
termination
  by (relation "measure (\<lambda>(dpts, ind, remaining, phases). remaining)") (auto simp: Let_def)

declare phases_loop.simps [simp del]

definition computeExecutionPhases ::
  "'a gomap \<Rightarrow> string list gomap \<Rightarrow> graph_error + string list list" where
  "computeExecutionPhases actions deps =
     (if actions = [] then Inr []
      else (case in_degrees actions deps of
              (ind, dpts) \<Rightarrow> phases_loop dpts ind (length actions) []))"

subsection \<open>Exclusive actions\<close>

definition add_conflict :: "string \<Rightarrow> string \<Rightarrow> string list gomap \<Rightarrow> string list gomap" where
  "add_conflict a b m = map_put a (set_insert b (map_get [] m a)) m"

definition conflict_graph :: "string list \<Rightarrow> expanded_action gomap \<Rightarrow> string list gomap" where
  "conflict_graph phase actions =
     fold (\<lambda>name m.
        case map_of actions name of None \<Rightarrow> m
        | Some ea \<Rightarrow>
            fold (\<lambda>excl m. if excl \<in> set phase then add_conflict excl name (add_conflict name excl m) else m)
              (ea_exclusive ea) m)
       phase (fold (\<lambda>n m. map_put n [] m) phase [])"

text \<open>The least color not used by a colored neighbor.\<close>

function first_free :: "nat \<Rightarrow> nat list \<Rightarrow> nat" where
  "first_free c used = (if c \<in> set used then first_free (Suc c) (removeAll c used) else c)"
  by pat_completeness auto
termination
  by (relation "measure (\<lambda>(c, used). length used)") (auto simp: length_removeAll_less)

declare first_free.simps [simp del]

definition used_colors :: "string list \<Rightarrow> (string \<rightharpoonup> nat) \<Rightarrow> nat list" where
  "used_colors ns color = List.map_filter color ns"

fun color_phase :: "string list gomap \<Rightarrow> string list \<Rightarrow> (string \<rightharpoonup> nat) \<Rightarrow> (string \<rightharpoonup> nat)" where
  "color_phase cf [] color = color"
| "color_phase cf (n # ns) color =
     color_phase cf ns (color(n \<mapsto> first_free 0 (used_colors (sets_List (map_get [] cf n)) color)))"

definition max_color :: "string list \<Rightarrow> (string \<rightharpoonup> nat) \<Rightarrow> nat" where
  "max_color phase color = fold (\<lambda>n m. max m (case color n of None \<Rightarrow> 0 | Some c \<Rightarrow> Suc c)) phase 0"

definition splitPhaseForExclusive :: "string list \<Rightarrow> expanded_action gomap \<Rightarrow> string list list" where
  "splitPhaseForExclusive phase actions =
     (if phase = [] then []
      else if length phase = 1 then [phase]
      else (let cf = conflict_graph phase actions in
            if \<forall>(_, c) \<in> set cf. c = [] then [phase]
            else (let color = color_phase cf phase Map.empty in
                  map (\<lambda>c. filter (\<lambda>n. color n = Some c) phase) [0 ..< max_color phase color])))"

definition splitPhasesForExclusive ::
  "string list list \<Rightarrow> expanded_action gomap \<Rightarrow> string list list" where
  "splitPhasesForExclusive phases actions = concat (map (\<lambda>p. splitPhaseForExclusive p actions) phases)"

subsection \<open>Building the graph\<close>

definition put_actions :: "expanded_action gomap \<Rightarrow> expanded_action gomap \<Rightarrow> expanded_action gomap" where
  "put_actions new m = fold (\<lambda>(n, ea) m. map_put n ea m) new m"

definition alias_map :: "action option gomap list \<Rightarrow> string gomap" where
  "alias_map sections =
     fold (\<lambda>s m. fold (\<lambda>(n, a) m. if alias_of a \<noteq> [] then map_put (alias_of a) n m else m) s m) sections []"

definition BuildGraph ::
  "val_env \<Rightarrow> bool \<Rightarrow> workflow option \<Rightarrow> gval gomap \<Rightarrow> graph_error + action_graph" where
  "BuildGraph env skip wo data =
     (case wo of None \<Rightarrow> Inl NilWorkflow
      | Some w \<Rightarrow>
        (let aliases = buildAliasNames [w_actions w, w_finally w] in
         case expandSection env skip data aliases ''actions'' (w_actions w) of Inl e \<Rightarrow> Inl e
         | Inr (main, mdeps) \<Rightarrow>
        (case expandSection env skip data aliases ''finally'' (w_finally w) of Inl e \<Rightarrow> Inl e
         | Inr (fin, fdeps) \<Rightarrow>
        (case computeExecutionPhases main mdeps of Inl e \<Rightarrow> Inl e
         | Inr morder \<Rightarrow>
        (case (if fin = [] then Inr [] else computeExecutionPhases fin fdeps) of Inl e \<Rightarrow> Inl e
         | Inr forder \<Rightarrow>
             Inr \<lparr>ag_actions = put_actions fin (put_actions main []),
                  ag_order = splitPhasesForExclusive morder main,
                  ag_finally = (if fin = [] then [] else splitPhasesForExclusive forder fin),
                  ag_aliases = alias_map [w_actions w, w_finally w]\<rparr>)))))"

subsection \<open>Queries on a graph\<close>

definition GetAllActionNames :: "action_graph \<Rightarrow> string list" where
  "GetAllActionNames g = sort (map_keys (ag_actions g))"

definition section_names :: "action_graph \<Rightarrow> string \<Rightarrow> string list" where
  "section_names g s = sort (map fst (filter (\<lambda>(_, ea). ea_section ea = s) (ag_actions g)))"

definition GetMainActionNames :: "action_graph \<Rightarrow> string list" where
  "GetMainActionNames g = section_names g ''actions''"

definition GetFinallyActionNames :: "action_graph \<Rightarrow> string list" where
  "GetFinallyActionNames g = section_names g ''finally''"

definition GetForEachIterations :: "action_graph \<Rightarrow> string \<Rightarrow> string list" where
  "GetForEachIterations g b =
     sort (map fst (filter (\<lambda>(_, ea). case ea_forEach ea of None \<Rightarrow> False | Some m \<Rightarrow> fm_from m = b) (ag_actions g)))"

definition phase_actions :: "action_graph \<Rightarrow> string list list \<Rightarrow> int \<Rightarrow> expanded_action list" where
  "phase_actions g order k =
     (if k < 0 \<or> k \<ge> int (length order) then []
      else List.map_filter (map_of (ag_actions g)) (order ! nat k))"

definition GetActionsByPhase :: "action_graph \<Rightarrow> int \<Rightarrow> expanded_action list" where
  "GetActionsByPhase g k = phase_actions g (ag_order g) k"

definition GetFinallyActionsByPhase :: "action_graph \<Rightarrow> int \<Rightarrow> expanded_action list" where
  "GetFinallyActionsByPhase g k = phase_actions g (ag_finally g) k"

subsection \<open>Phase computation meets the specification\<close>

definition section_deps :: "'a gomap \<Rightarrow> string list gomap \<Rightarrow> string \<Rightarrow> string set" where
  "section_deps actions deps n = set (map_get [] deps n) \<inter> set (map_keys actions)"

definition dep_pairs :: "'a gomap \<Rightarrow> string list gomap \<Rightarrow> (string \<times> string) list" where
  "dep_pairs actions deps =
     concat (map (\<lambda>(n, ds). map (Pair n) (filter (map_has actions) ds)) deps)"

lemma in_degrees_pairs:
  "in_degrees actions deps =
     fold (\<lambda>(n, d). count_dep actions n d) (dep_pairs actions deps) (map (\<lambda>(n, _). (n, 0)) actions, [])"
proof -
  have inner: "fold (count_dep actions n) ds st =
      fold (\<lambda>(n, d). count_dep actions n d) (map (Pair n) (filter (map_has actions) ds)) st" for n ds st
    by (induction ds arbitrary: st) (auto simp: count_dep_def)
  have "fold (\<lambda>(n, ds). fold (count_dep actions n) ds) deps st =
      fold (\<lambda>(n, d). count_dep actions n d) (dep_pairs actions deps) st" for st
    by (induction deps arbitrary: st) (auto simp: dep_pairs_def inner)
  then show ?thesis by (simp add: in_degrees_def)
qed

lemma count_pairs:
  assumes "distinct ps" "\<And>n d. (n, d) \<in> set ps \<Longrightarrow> map_has actions d"
    and "fold (\<lambda>(n, d). count_dep actions n d) ps (ind0, []) = (ind, dpts)"
    and "\<And>n d. (n, d) \<in> set ps \<Longrightarrow> map_has ind0 n" "distinct (map_keys ind0)"
  shows "map_get 0 ind n = map_get 0 ind0 n + int (card {d. (n, d) \<in> set ps}) \<and>
         set (map_keys ind) = set (map_keys ind0) \<and> distinct (map_keys ind) \<and>
         set (map_get [] dpts d) = {n. (n, d) \<in> set ps} \<and> distinct (map_get [] dpts d)"
  using assms
proof (induction ps arbitrary: n d ind dpts rule: rev_induct)
  case Nil
  then show ?case by simp
next
  case (snoc p ps)
  obtain a b where p: "p = (a, b)" by fastforce
  obtain i0 d0 where st: "fold (\<lambda>(n, d). count_dep actions n d) ps (ind0, []) = (i0, d0)" by fastforce
  have IH: "map_get 0 i0 n = map_get 0 ind0 n + int (card {d. (n, d) \<in> set ps}) \<and>
         set (map_keys i0) = set (map_keys ind0) \<and> distinct (map_keys i0) \<and>
         set (map_get [] d0 d) = {n. (n, d) \<in> set ps} \<and> distinct (map_get [] d0 d)" for n d
    by (rule snoc.IH) (use snoc.prems st in auto)
  have b: "map_has actions b" and a: "map_has ind0 a" using snoc.prems(2,4) p by auto
  have fresh: "(a, b) \<notin> set ps" using snoc.prems(1) p by simp
  have ind: "ind = map_put a (map_get 0 i0 a + 1) i0" and dpts: "dpts = map_put b (map_get [] d0 b @ [a]) d0"
  proof -
    have "count_dep actions a b (i0, d0) = (ind, dpts)" using snoc.prems(3) st p by simp
    with b show "ind = map_put a (map_get 0 i0 a + 1) i0" "dpts = map_put b (map_get [] d0 b @ [a]) d0"
      by (simp_all add: count_dep_def)
  qed
  have "{d. (n, d) \<in> set (ps @ [p])} = (if n = a then insert b {d. (n, d) \<in> set ps} else {d. (n, d) \<in> set ps})"
    using p by auto
  moreover have "finite {d. (a, d) \<in> set ps}"
    by (rule finite_subset [of _ "snd ` set ps"]) force+
  ultimately have c: "map_get 0 ind n = map_get 0 ind0 n + int (card {d. (n, d) \<in> set (ps @ [p])})"
    using fresh IH [of n] IH [of a] by (simp add: ind)
  have k: "set (map_keys ind) = set (map_keys ind0)" "distinct (map_keys ind)"
    using IH [of n d] a by (auto simp: ind map_has_iff_keys intro: distinct_keys_put)
  have e: "set (map_get [] dpts d) = {n. (n, d) \<in> set (ps @ [p])}" "distinct (map_get [] dpts d)"
    using IH [of n d] IH [of n b] fresh p by (auto simp: dpts)
  from c k e show ?case by simp
qed

lemma dep_pairs_facts:
  assumes k: "distinct (map_keys deps)" and ds: "\<And>n ds. (n, ds) \<in> set deps \<Longrightarrow> distinct ds"
  shows "distinct (dep_pairs actions deps)"
    and "(n, d) \<in> set (dep_pairs actions deps) \<longleftrightarrow> d \<in> section_deps actions deps n"
proof -
  show "distinct (dep_pairs actions deps)" using assms
  proof (induction deps)
    case (Cons x deps)
    obtain n ds where x: "x = (n, ds)" by fastforce
    have IH: "distinct (dep_pairs actions deps)"
      using Cons by (auto simp: map_keys_def)
    have "n \<notin> fst ` set deps" using Cons.prems(1) x by (simp add: map_keys_def)
    then have "(n, d) \<notin> set (dep_pairs actions deps)" for d by (force simp: dep_pairs_def)
    then have "set (map (Pair n) xs) \<inter> set (dep_pairs actions deps) = {}" for xs by auto
    moreover have "distinct (map (Pair n) (filter (map_has actions) ds))"
      using Cons.prems(2) [of n ds] x by (simp add: distinct_map inj_on_def)
    moreover have "dep_pairs actions (x # deps) =
        map (Pair n) (filter (map_has actions) ds) @ dep_pairs actions deps"
      by (simp add: dep_pairs_def x)
    ultimately show ?case using IH by (simp only: distinct_append)
  qed (simp add: dep_pairs_def)
  have "(n, d) \<in> set (dep_pairs actions deps) \<longleftrightarrow> (\<exists>ds. (n, ds) \<in> set deps \<and> d \<in> set ds) \<and> map_has actions d"
    by (auto simp: dep_pairs_def intro!: bexI [of _ "(n, _)"])
  also have "(\<exists>ds. (n, ds) \<in> set deps \<and> d \<in> set ds) \<longleftrightarrow> d \<in> set (map_get [] deps n)"
  proof -
    have "(n, xs) \<in> set deps \<longleftrightarrow> map_of deps n = Some xs" for xs
      using k by (simp add: map_keys_def map_of_eq_Some_iff)
    then show ?thesis by (cases "map_of deps n") (simp_all add: map_get_def)
  qed
  finally show "(n, d) \<in> set (dep_pairs actions deps) \<longleftrightarrow> d \<in> section_deps actions deps n"
    by (simp add: section_deps_def map_has_iff_keys)
qed

lemma decrement_facts:
  "map_get 0 (decrement d ind) n = (if n = d \<and> map_has ind d then map_get 0 ind n - 1 else map_get 0 ind n)"
  "set (map_keys (decrement d ind)) = set (map_keys ind)"
  "distinct (map_keys ind) \<Longrightarrow> distinct (map_keys (decrement d ind))"
  by (auto simp: decrement_def map_has_iff_keys intro: distinct_keys_put)

lemma fold_decrement:
  "distinct ds \<Longrightarrow>
   map_get 0 (fold decrement ds ind) n =
     (if n \<in> set ds \<and> n \<in> set (map_keys ind) then map_get 0 ind n - 1 else map_get 0 ind n) \<and>
   set (map_keys (fold decrement ds ind)) = set (map_keys ind) \<and>
   (distinct (map_keys ind) \<longrightarrow> distinct (map_keys (fold decrement ds ind)))"
  by (induction ds arbitrary: ind) (auto simp: decrement_facts map_has_iff_keys)

lemma process_name_facts:
  assumes "\<And>p. distinct (map_get [] dpts p)"
  shows "n \<noteq> p \<Longrightarrow> n \<in> set (map_keys ind) \<Longrightarrow> map_get 0 (process_name dpts p ind) n =
           map_get 0 ind n - (if n \<in> set (map_get [] dpts p) then 1 else 0)"
    and "set (map_keys (process_name dpts p ind)) = set (map_keys ind) - {p}"
    and "distinct (map_keys ind) \<Longrightarrow> distinct (map_keys (process_name dpts p ind))"
  using fold_decrement [OF assms, of p "map_del p ind" n]
  by (auto simp: process_name_def set_keys_del distinct_keys_del)

lemma process_names_facts:
  assumes d: "\<And>p. distinct (map_get [] dpts p)"
  shows "distinct ps \<Longrightarrow> n \<notin> set ps \<Longrightarrow> n \<in> set (map_keys ind) \<Longrightarrow>
           map_get 0 (fold (process_name dpts) ps ind) n =
             map_get 0 ind n - int (card {p \<in> set ps. n \<in> set (map_get [] dpts p)})"
    and "set (map_keys (fold (process_name dpts) ps ind)) = set (map_keys ind) - set ps"
    and "distinct (map_keys ind) \<Longrightarrow> distinct (map_keys (fold (process_name dpts) ps ind))"
proof -
  show "set (map_keys (fold (process_name dpts) ps ind)) = set (map_keys ind) - set ps" for ps
    by (induction ps arbitrary: ind) (auto simp: process_name_facts [OF d])
  show "distinct (map_keys ind) \<Longrightarrow> distinct (map_keys (fold (process_name dpts) ps ind))" for ps
    by (induction ps arbitrary: ind) (auto simp: process_name_facts [OF d])
  show "distinct ps \<Longrightarrow> n \<notin> set ps \<Longrightarrow> n \<in> set (map_keys ind) \<Longrightarrow>
           map_get 0 (fold (process_name dpts) ps ind) n =
             map_get 0 ind n - int (card {p \<in> set ps. n \<in> set (map_get [] dpts p)})"
  proof (induction ps arbitrary: ind)
    case (Cons p ps)
    have np: "n \<noteq> p" "p \<notin> set ps" using Cons.prems by auto
    have "map_get 0 (fold (process_name dpts) ps (process_name dpts p ind)) n =
        map_get 0 (process_name dpts p ind) n - int (card {q \<in> set ps. n \<in> set (map_get [] dpts q)})"
      using Cons.prems np by (intro Cons.IH) (auto simp: process_name_facts [OF d])
    moreover have "{q \<in> set (p # ps). n \<in> set (map_get [] dpts q)} =
        (if n \<in> set (map_get [] dpts p) then insert p {q \<in> set ps. n \<in> set (map_get [] dpts q)}
         else {q \<in> set ps. n \<in> set (map_get [] dpts q)})" by auto
    ultimately show ?case using process_name_facts(1) [OF d np(1) Cons.prems(3)] np(2) by simp
  qed simp
qed

lemma zero_phase_facts:
  assumes "distinct (map_keys ind)"
  shows "set (zero_phase ind) = {n \<in> set (map_keys ind). map_get 0 ind n = 0}"
    and "distinct (zero_phase ind)" and "sorted (zero_phase ind)"
proof -
  have eq: "(n, x) \<in> set ind \<longleftrightarrow> map_of ind n = Some x" for n x
    using assms by (simp add: map_keys_def map_of_eq_Some_iff)
  have "n \<in> fst ` {x \<in> set ind. snd x = 0} \<longleftrightarrow> map_of ind n = Some 0" for n
    by (force simp flip: eq)
  moreover have "map_of ind n = Some 0 \<longleftrightarrow> n \<in> set (map_keys ind) \<and> map_get 0 ind n = 0" for n
    by (cases "map_of ind n") (simp_all add: map_get_def map_has_def flip: map_has_iff_keys)
  ultimately have "n \<in> fst ` {x \<in> set ind. snd x = 0} \<longleftrightarrow> n \<in> set (map_keys ind) \<and> map_get 0 ind n = 0" for n
    by blast
  then show "set (zero_phase ind) = {n \<in> set (map_keys ind). map_get 0 ind n = 0}"
    by (intro set_eqI) (simp add: zero_phase_def split_def)
  show "distinct (zero_phase ind)" using assms
    by (simp add: zero_phase_def map_keys_def distinct_map_filter)
  show "sorted (zero_phase ind)" by (simp add: zero_phase_def)
qed

definition degrees_inv ::
  "string set \<Rightarrow> (string \<Rightarrow> string set) \<Rightarrow> string list gomap \<Rightarrow> string set \<Rightarrow> int gomap \<Rightarrow> bool" where
  "degrees_inv N D dpts S ind =
     (set (map_keys ind) = N - S \<and> distinct (map_keys ind) \<and>
      (\<forall>n \<in> N - S. map_get 0 ind n = int (card (D n - S))) \<and>
      (\<forall>p. set (map_get [] dpts p) = {n. p \<in> D n} \<and> distinct (map_get [] dpts p)))"

lemma degrees_phase:
  assumes inv: "degrees_inv N D dpts S ind" and fin: "\<And>n. finite (D n)"
  shows "set (zero_phase ind) = ready N D S"
    and "degrees_inv N D dpts (S \<union> ready N D S) (fold (process_name dpts) (zero_phase ind) ind)"
proof -
  let ?P = "zero_phase ind" let ?ind = "fold (process_name dpts) ?P ind"
  have keys: "set (map_keys ind) = N - S" and dk: "distinct (map_keys ind)"
    and deg: "\<And>n. n \<in> N - S \<Longrightarrow> map_get 0 ind n = int (card (D n - S))"
    and dp: "\<And>p. set (map_get [] dpts p) = {n. p \<in> D n}" and dd: "\<And>p. distinct (map_get [] dpts p)"
    using inv by (auto simp: degrees_inv_def)
  note z = zero_phase_facts [OF dk]
  have zero: "map_get 0 ind n = 0 \<longleftrightarrow> D n \<subseteq> S" if "n \<in> N - S" for n
    using deg [OF that] fin [of n] by (simp add: card_eq_0_iff)
  show P: "set ?P = ready N D S"
    unfolding z(1) keys ready_def using zero by blast
  have "map_get 0 ?ind n = int (card (D n - (S \<union> ready N D S)))" if n: "n \<in> N - (S \<union> ready N D S)" for n
  proof -
    have "map_get 0 ?ind n = map_get 0 ind n - int (card {p \<in> set ?P. n \<in> set (map_get [] dpts p)})"
      using n P keys by (intro process_names_facts(1) [OF dd z(2)]) auto
    also have "{p \<in> set ?P. n \<in> set (map_get [] dpts p)} = D n \<inter> ready N D S" using dp P by auto
    also have "map_get 0 ind n = int (card (D n - S))" using deg n by simp
    also have "int (card (D n - S)) - int (card (D n \<inter> ready N D S)) = int (card (D n - S - (D n \<inter> ready N D S)))"
    proof -
      have sub: "D n \<inter> ready N D S \<subseteq> D n - S" by (auto simp: ready_def)
      have f: "finite (D n \<inter> ready N D S)" "finite (D n - S)" using fin by auto
      show ?thesis using card_Diff_subset [OF f(1) sub] card_mono [OF f(2) sub] by simp
    qed
    also have "D n - S - (D n \<inter> ready N D S) = D n - (S \<union> ready N D S)" by auto
    finally show ?thesis .
  qed
  moreover have "set (map_keys ?ind) = N - (S \<union> ready N D S)"
    using process_names_facts(2) [OF dd] keys P by auto
  ultimately show "degrees_inv N D dpts (S \<union> ready N D S) ?ind"
    using process_names_facts(3) [OF dd dk] dp dd by (simp add: degrees_inv_def)
qed

lemma phases_loop_spec:
  assumes fN: "finite N" and fin: "\<And>n. finite (D n)"
  shows "degrees_inv N D dpts S ind \<Longrightarrow> remaining = card (N - S) \<Longrightarrow>
     (case phases_loop dpts ind remaining phases of
        Inl e \<Rightarrow> e = ActionCycle \<and> (\<exists>S'. \<not> N \<subseteq> S' \<and> ready N D S' = {})
      | Inr r \<Rightarrow> \<exists>ps. r = phases @ ps \<and> schedule_from N D S ps \<and> (\<forall>p \<in> set ps. sorted p))"
proof (induction dpts ind remaining phases arbitrary: S rule: phases_loop.induct)
  case (1 dpts ind remaining phases)
  have fin': "finite (N - S)" using fN by simp
  let ?P = "zero_phase ind" and ?ind = "fold (process_name dpts) (zero_phase ind) ind"
  note ph = degrees_phase [OF "1.prems"(1) fin]
  have dist: "distinct ?P" "sorted ?P" using zero_phase_facts "1.prems"(1) by (simp_all add: degrees_inv_def)
  show ?case
  proof (cases "remaining = 0")
    case True
    then have "N \<subseteq> S" using "1.prems"(2) fin' by simp
    with True show ?thesis by (subst phases_loop.simps) simp
  next
    case False
    then have ns: "\<not> N \<subseteq> S" using "1.prems"(2) fin' by (auto simp: card_eq_0_iff)
    show ?thesis
    proof (cases "?P = []")
      case True
      with ph(1) ns have "\<exists>S'. \<not> N \<subseteq> S' \<and> ready N D S' = {}" by auto
      with False True show ?thesis by (subst phases_loop.simps) simp
    next
      case ne: False
      have sub: "ready N D S \<subseteq> N - S" by (auto simp: ready_def)
      have "remaining - length ?P = card (N - S) - card (ready N D S)"
        using "1.prems"(2) ph(1) distinct_card [OF dist(1)] by simp
      also have "\<dots> = card (N - S - ready N D S)"
        using card_Diff_subset [OF _ sub] finite_subset [OF sub fin'] by simp
      also have "N - S - ready N D S = N - (S \<union> ready N D S)" by auto
      finally have rem: "remaining - length ?P = card (N - (S \<union> ready N D S))" .
      have IH: "case phases_loop dpts ?ind (remaining - length ?P) (phases @ [?P]) of
          Inl e \<Rightarrow> e = ActionCycle \<and> (\<exists>S'. \<not> N \<subseteq> S' \<and> ready N D S' = {})
        | Inr r \<Rightarrow> \<exists>ps. r = (phases @ [?P]) @ ps \<and> schedule_from N D (S \<union> ready N D S) ps \<and> (\<forall>p \<in> set ps. sorted p)"
        by (rule "1.IH" [OF False refl ne ph(2) rem])
      have step: "phases_loop dpts ind remaining phases =
          phases_loop dpts ?ind (remaining - length ?P) (phases @ [?P])"
        using False ne by (subst phases_loop.simps) (simp add: Let_def)
      show ?thesis
      proof (cases "phases_loop dpts ?ind (remaining - length ?P) (phases @ [?P])")
        case (Inl e)
        with IH step show ?thesis by simp
      next
        case (Inr r)
        with IH obtain ps where ps: "r = (phases @ [?P]) @ ps" "schedule_from N D (S \<union> ready N D S) ps"
          "\<forall>p \<in> set ps. sorted p" by auto
        have "schedule_from N D S (?P # ps)" using ne dist(1) ph(1) ps(2) by simp
        moreover have "phases_loop dpts ind remaining phases = Inr (phases @ (?P # ps))"
          using Inr step ps(1) by simp
        ultimately show ?thesis using ps(3) dist(2)
          by (simp only: sum.case) (intro exI [of _ "?P # ps"], simp del: schedule_from.simps)
      qed
    qed
  qed
qed

text \<open>
  On a section (the map of its actions and the map of their dependency lists, over
  the same names) the phases exist exactly when the dependencies are acyclic, and
  they are the phase schedule of the section.
\<close>

definition section_maps :: "'a gomap \<Rightarrow> string list gomap \<Rightarrow> bool" where
  "section_maps actions deps =
     (map_keys deps = map_keys actions \<and> distinct (map_keys actions) \<and> (\<forall>(_, ds) \<in> set deps. distinct ds))"

lemma in_degrees_inv:
  assumes sm: "section_maps actions deps" and id: "in_degrees actions deps = (ind, dpts)"
  shows "degrees_inv (set (map_keys actions)) (section_deps actions deps) dpts {} ind"
proof -
  let ?ps = "dep_pairs actions deps" and ?i0 = "map (\<lambda>(n, _). (n, 0::int)) actions"
  have k: "map_keys deps = map_keys actions" "distinct (map_keys actions)" "distinct (map_keys deps)"
    "\<And>n ds. (n, ds) \<in> set deps \<Longrightarrow> distinct ds"
    using sm by (auto simp: section_maps_def)
  have dp: "distinct (dep_pairs actions deps)"
    "(n, d) \<in> set (dep_pairs actions deps) \<longleftrightarrow> d \<in> section_deps actions deps n" for n d
    using dep_pairs_facts [OF k(3)] k(4) by blast+
  have k0: "map_keys ?i0 = map_keys actions" by (simp add: map_keys_def split_def comp_def)
  have z0: "map_get 0 ?i0 n = 0" for n
    by (auto simp: map_get_def split: option.split dest: map_of_SomeD)
  have pair: "map_has actions d" "map_has ?i0 n" if "(n, d) \<in> set ?ps" for n d
  proof -
    show "map_has actions d" using that dp(2) by (simp add: section_deps_def map_has_iff_keys)
    have "n \<in> set (map_keys deps)" using that by (force simp: dep_pairs_def map_keys_def)
    then show "map_has ?i0 n" using k(1) k0 by (simp add: map_has_iff_keys)
  qed
  have f: "fold (\<lambda>(n, d). count_dep actions n d) ?ps (?i0, []) = (ind, dpts)"
    using id by (simp add: in_degrees_pairs)
  have c: "map_get 0 ind n = map_get 0 ?i0 n + int (card {d. (n, d) \<in> set ?ps}) \<and>
         set (map_keys ind) = set (map_keys ?i0) \<and> distinct (map_keys ind) \<and>
         set (map_get [] dpts d) = {n. (n, d) \<in> set ?ps} \<and> distinct (map_get [] dpts d)" for n d
    by (rule count_pairs [OF dp(1) _ f]) (use pair k0 k(2) in auto)
  show ?thesis using c by (simp add: degrees_inv_def k0 z0 dp(2))
qed

lemma section_graph:
  assumes "section_maps actions deps"
    and "acyclic {(n, d). n \<in> set (map_keys actions) \<and> d \<in> section_deps actions deps n}"
  shows "dep_graph (set (map_keys actions)) (section_deps actions deps)"
  using assms(2) by unfold_locales (auto simp: section_deps_def)

lemma computeExecutionPhases_spec:
  assumes sm: "section_maps actions deps"
  shows "case computeExecutionPhases actions deps of
      Inl e \<Rightarrow> e = ActionCycle \<and> \<not> acyclic {(n, d). n \<in> set (map_keys actions) \<and> d \<in> section_deps actions deps n}
    | Inr ps \<Rightarrow> phase_schedule (set (map_keys actions)) (section_deps actions deps) ps \<and> (\<forall>p \<in> set ps. sorted p)"
proof (cases "actions = []")
  case True
  then show ?thesis by (simp add: computeExecutionPhases_def phase_schedule_def map_keys_def)
next
  case False
  let ?N = "set (map_keys actions)" and ?D = "section_deps actions deps"
  obtain ind dpts where id: "in_degrees actions deps = (ind, dpts)" by fastforce
  have "length actions = card (?N - {})"
    using sm by (metis Diff_empty distinct_card length_map map_keys_def section_maps_def)
  from phases_loop_spec [OF _ _ in_degrees_inv [OF sm id] this, of "[]"]
  have *: "case phases_loop dpts ind (length actions) [] of
        Inl e \<Rightarrow> e = ActionCycle \<and> (\<exists>S'. \<not> ?N \<subseteq> S' \<and> ready ?N ?D S' = {})
      | Inr r \<Rightarrow> \<exists>ps. r = [] @ ps \<and> schedule_from ?N ?D {} ps \<and> (\<forall>p \<in> set ps. sorted p)"
    by (simp add: section_deps_def)
  have no: "\<not> acyclic {(n, d). n \<in> ?N \<and> d \<in> ?D n}" if "\<not> ?N \<subseteq> S'" "ready ?N ?D S' = {}" for S'
    using dep_graph.ready_nonempty [OF section_graph [OF sm] that(1)] that(2) by blast
  have c: "computeExecutionPhases actions deps = phases_loop dpts ind (length actions) []"
    using False id by (simp add: computeExecutionPhases_def)
  show ?thesis
  proof (cases "phases_loop dpts ind (length actions) []")
    case (Inl e)
    with * no show ?thesis unfolding c by auto
  next
    case (Inr r)
    with * show ?thesis unfolding c by (simp add: phase_schedule_def)
  qed
qed

subsection \<open>Sub-phases keep exclusive actions apart\<close>

definition excludes :: "expanded_action gomap \<Rightarrow> string \<Rightarrow> string \<Rightarrow> bool" where
  "excludes actions a b = (case map_of actions a of None \<Rightarrow> False | Some ea \<Rightarrow> b \<in> set (ea_exclusive ea))"

definition conflicting :: "expanded_action gomap \<Rightarrow> string \<Rightarrow> string \<Rightarrow> bool" where
  "conflicting actions a b = (excludes actions a b \<or> excludes actions b a)"

lemma conflict_inner:
  "set (map_get [] (fold (\<lambda>excl m. if excl \<in> set phase then add_conflict excl name (add_conflict name excl m) else m) es m) x)
   = set (map_get [] m x) \<union> {b. b \<in> set es \<and> b \<in> set phase \<and> x = name} \<union>
     {b. b = name \<and> x \<in> set es \<and> x \<in> set phase}"
proof (induction es arbitrary: m)
  case (Cons e es)
  show ?case by (auto simp: Cons add_conflict_def)
qed auto

lemma conflict_outer:
  "set (map_get [] (fold (\<lambda>name m.
        case map_of actions name of None \<Rightarrow> m
        | Some ea \<Rightarrow>
            fold (\<lambda>excl m. if excl \<in> set phase then add_conflict excl name (add_conflict name excl m) else m)
              (ea_exclusive ea) m) ns m) x)
   = set (map_get [] m x) \<union> {b \<in> set phase. x \<in> set ns \<and> excludes actions x b} \<union>
     {b \<in> set ns. x \<in> set phase \<and> excludes actions b x}"
proof (induction ns arbitrary: m)
  case Nil
  then show ?case by simp
next
  case (Cons n ns)
  show ?case
  proof (cases "map_of actions n")
    case None
    then have "\<not> excludes actions n b" for b by (simp add: excludes_def)
    with None show ?thesis by (auto simp: Cons)
  next
    case (Some ea)
    then have "excludes actions n b \<longleftrightarrow> b \<in> set (ea_exclusive ea)" for b by (simp add: excludes_def)
    with Some show ?thesis by (simp add: Cons conflict_inner) auto
  qed
qed

lemma empty_conflicts: "map_get [] (fold (\<lambda>n m. map_put n [] m) ns m) x = (if x \<in> set ns then [] else map_get [] m x)"
  by (induction ns arbitrary: m) auto

lemma conflict_graph_set:
  assumes "x \<in> set phase"
  shows "set (map_get [] (conflict_graph phase actions) x) = {b \<in> set phase. conflicting actions x b}"
  using assms by (auto simp: conflict_graph_def conflict_outer empty_conflicts conflicting_def)

lemma first_free_facts:
  "first_free c used \<notin> set used" "c \<le> first_free c used"
  "c \<le> k \<Longrightarrow> k < first_free c used \<Longrightarrow> k \<in> set used"
proof (induction c used rule: first_free.induct)
  case (1 c used)
  {
    case 1
    show ?case
    proof (cases "c \<in> set used")
      case True
      with "1.IH" show ?thesis by (subst first_free.simps) (metis DiffI Suc_n_not_le_n set_removeAll singletonD)
    qed (simp add: first_free.simps)
  next
    case 2
    show ?case
    proof (cases "c \<in> set used")
      case True
      with "1.IH"(2) show ?thesis by (subst first_free.simps) simp
    qed (simp add: first_free.simps)
  next
    case 3
    show ?case
    proof (cases "c \<in> set used")
      case True
      have "k = c \<or> Suc c \<le> k" using 3(1) by linarith
      with 3 True "1.IH"(3) [OF True] show ?thesis
        by (subst (asm) first_free.simps) auto
    next
      case False
      with 3 show ?thesis by (simp add: first_free.simps)
    qed
  }
qed

definition coloring_ok :: "string list gomap \<Rightarrow> (string \<rightharpoonup> nat) \<Rightarrow> bool" where
  "coloring_ok cf col =
     ((\<forall>x y c. col x = Some c \<longrightarrow> col y = Some c \<longrightarrow> y \<in> set (map_get [] cf x) \<longrightarrow> x = y) \<and>
      (\<forall>x c k. col x = Some c \<longrightarrow> k < c \<longrightarrow> (\<exists>y \<in> set (map_get [] cf x). col y = Some k)))"

lemma used_colors_set: "set (used_colors ns col) = {c. \<exists>y \<in> set ns. col y = Some c}"
  by (force simp: used_colors_def List.map_filter_def image_iff)

lemma color_step:
  assumes ok: "coloring_ok cf col" and new: "col n = None"
    and sym: "\<And>x. x \<in> dom col \<Longrightarrow> n \<in> set (map_get [] cf x) \<Longrightarrow> x \<in> set (map_get [] cf n)"
  shows "coloring_ok cf (col(n \<mapsto> first_free 0 (used_colors (sets_List (map_get [] cf n)) col)))"
    (is "coloring_ok cf (col(n \<mapsto> ?c))")
proof -
  have free: "\<And>y. y \<in> set (map_get [] cf n) \<Longrightarrow> col y \<noteq> Some ?c"
    using first_free_facts(1) [of 0 "used_colors (sets_List (map_get [] cf n)) col"]
    by (auto simp: used_colors_set)
  have below: "\<exists>y \<in> set (map_get [] cf n). col y = Some k" if "k < ?c" for k
    using first_free_facts(3) [OF _ that] by (auto simp: used_colors_set)
  have ok1: "\<And>x y c. col x = Some c \<Longrightarrow> col y = Some c \<Longrightarrow> y \<in> set (map_get [] cf x) \<Longrightarrow> x = y"
    and ok2: "\<And>x c k. col x = Some c \<Longrightarrow> k < c \<Longrightarrow> \<exists>y \<in> set (map_get [] cf x). col y = Some k"
    using ok unfolding coloring_ok_def by blast+
  let ?col = "col(n \<mapsto> ?c)"
  have "x = y" if c: "?col x = Some c" "?col y = Some c" "y \<in> set (map_get [] cf x)" for x y c
  proof (cases "x = n")
    case True
    with c free [of y] show ?thesis by (auto split: if_splits)
  next
    case False
    show ?thesis
    proof (cases "y = n")
      case True
      have "x \<in> dom col" "c = ?c" using c False True by auto
      then have "x \<in> set (map_get [] cf n)" using sym c(3) True by blast
      with free [of x] c(1) False \<open>c = ?c\<close> show ?thesis by simp
    next
      case ny: False
      with False c ok1 [of x c y] show ?thesis by simp
    qed
  qed
  moreover have "\<exists>y \<in> set (map_get [] cf x). ?col y = Some k" if c: "?col x = Some c" "k < c" for x c k
  proof (cases "x = n")
    case True
    then have "k < ?c" using c by simp
    from below [OF this] obtain y where "y \<in> set (map_get [] cf n)" "col y = Some k" by blast
    with True new show ?thesis by (intro bexI [of _ y]) auto
  next
    case False
    with c ok2 [of x c k] obtain y where "y \<in> set (map_get [] cf x)" "col y = Some k" by auto
    with new show ?thesis by (intro bexI [of _ y]) auto
  qed
  ultimately show ?thesis unfolding coloring_ok_def by blast
qed

lemma color_phase_ok:
  assumes sym: "\<And>x y. x \<in> P \<Longrightarrow> y \<in> P \<Longrightarrow> y \<in> set (map_get [] cf x) \<Longrightarrow> x \<in> set (map_get [] cf y)"
  shows "coloring_ok cf col \<Longrightarrow> distinct ns \<Longrightarrow> set ns \<inter> dom col = {} \<Longrightarrow> set ns \<union> dom col \<subseteq> P \<Longrightarrow>
     coloring_ok cf (color_phase cf ns col) \<and> dom (color_phase cf ns col) = dom col \<union> set ns"
proof (induction ns arbitrary: col)
  case (Cons n ns)
  let ?c = "first_free 0 (used_colors (sets_List (map_get [] cf n)) col)"
  have n: "col n = None" using Cons.prems(3) by auto
  have "coloring_ok cf (col(n \<mapsto> ?c))"
  proof (rule color_step [OF Cons.prems(1) n])
    fix x assume x: "x \<in> dom col" "n \<in> set (map_get [] cf x)"
    have "x \<in> P" "n \<in> P" using Cons.prems(4) x(1) by auto
    then show "x \<in> set (map_get [] cf n)" using sym x(2) by blast
  qed
  moreover have "set ns \<inter> dom (col(n \<mapsto> ?c)) = {}" "set ns \<union> dom (col(n \<mapsto> ?c)) \<subseteq> P"
    using Cons.prems(2-4) by auto
  moreover have "distinct ns" using Cons.prems(2) by simp
  ultimately have "coloring_ok cf (color_phase cf ns (col(n \<mapsto> ?c))) \<and>
      dom (color_phase cf ns (col(n \<mapsto> ?c))) = dom (col(n \<mapsto> ?c)) \<union> set ns"
    using Cons.IH by blast
  then show ?case by auto
qed simp

lemma max_color_less: "k < max_color phase col \<longleftrightarrow> (\<exists>n \<in> set phase. \<exists>c. col n = Some c \<and> k \<le> c)"
proof -
  have "k < fold (\<lambda>n m. max m (case col n of None \<Rightarrow> 0 | Some c \<Rightarrow> Suc c)) phase m \<longleftrightarrow>
      k < m \<or> (\<exists>n \<in> set phase. \<exists>c. col n = Some c \<and> k \<le> c)" for m
    by (induction phase arbitrary: m) (auto simp: less_max_iff_disj less_Suc_eq_le split: option.splits)
  then show ?thesis by (simp add: max_color_def)
qed

text \<open>
  The sub-phases of a phase: they partition it, none is empty, they keep the order,
  and no two members of one sub-phase exclude each other.
\<close>

lemma splitPhase_spec:
  assumes dist: "distinct phase" and qs: "qs = splitPhaseForExclusive phase actions"
  shows "set (concat qs) = set phase" and "distinct (concat qs)" and "q \<in> set qs \<Longrightarrow> q \<noteq> []"
    and "q \<in> set qs \<Longrightarrow> \<exists>P. q = filter P phase"
    and "q \<in> set qs \<Longrightarrow> a \<in> set q \<Longrightarrow> b \<in> set q \<Longrightarrow> a \<noteq> b \<Longrightarrow> \<not> conflicting actions a b"
proof -
  define cf where "cf = conflict_graph phase actions"
  define col where "col = color_phase cf phase Map.empty"
  have cfs: "set (map_get [] cf x) = {b \<in> set phase. conflicting actions x b}" if "x \<in> set phase" for x
    using conflict_graph_set [OF that] by (simp add: cf_def)
  have sym: "x \<in> set phase \<Longrightarrow> y \<in> set phase \<Longrightarrow> y \<in> set (map_get [] cf x) \<Longrightarrow> x \<in> set (map_get [] cf y)" for x y
    by (auto simp: cfs conflicting_def)
  have "coloring_ok cf Map.empty" by (simp add: coloring_ok_def)
  from color_phase_ok [OF sym this dist]
  have ok: "coloring_ok cf col" and dom: "dom col = set phase" by (auto simp: col_def)
  have split: "qs = [] \<and> phase = [] \<or> qs = [phase] \<and> phase \<noteq> [] \<and>
      (\<forall>a \<in> set phase. \<forall>b \<in> set phase. a \<noteq> b \<longrightarrow> \<not> conflicting actions a b) \<or>
      qs = map (\<lambda>c. filter (\<lambda>n. col n = Some c) phase) [0 ..< max_color phase col]"
  proof (cases "phase = [] \<or> length phase = 1")
    case True
    then show ?thesis by (auto simp: qs splitPhaseForExclusive_def length_Suc_conv)
  next
    case False
    show ?thesis
    proof (cases "\<forall>(_, c) \<in> set cf. c = []")
      case True
      have "map_get [] cf x = []" for x
      proof (cases "map_of cf x")
        case (Some v)
        then have "(x, v) \<in> set cf" by (rule map_of_SomeD)
        with True Some show ?thesis by (auto simp: map_get_def)
      qed (simp add: map_get_def)
      then have "\<not> conflicting actions a b" if "a \<in> set phase" "b \<in> set phase" for a b
        using cfs [OF that(1)] that(2) by auto
      moreover have "qs = [phase]" using True False by (simp add: qs splitPhaseForExclusive_def cf_def)
      ultimately show ?thesis using False by blast
    next
      case nc: False
      have "qs = (if phase = [] then [] else if length phase = 1 then [phase]
          else if \<forall>(_, c) \<in> set cf. c = [] then [phase]
          else map (\<lambda>c. filter (\<lambda>n. col n = Some c) phase) [0 ..< max_color phase col])"
        by (simp add: qs splitPhaseForExclusive_def Let_def cf_def col_def)
      then show ?thesis using False by (simp only: if_not_P [OF nc]) simp
    qed
  qed
  have colored: "n \<in> set phase \<Longrightarrow> \<exists>c < max_color phase col. col n = Some c" for n
  proof -
    assume n: "n \<in> set phase"
    then have "n \<in> dom col" using dom by simp
    then obtain c where "col n = Some c" by blast
    with n max_color_less [of c phase col] show ?thesis by blast
  qed
  show "set (concat qs) = set phase" using split
  proof (elim disjE)
    assume "qs = map (\<lambda>c. filter (\<lambda>n. col n = Some c) phase) [0 ..< max_color phase col]"
    then show ?thesis using colored by fastforce
  qed auto
  show "distinct (concat qs)" using split
  proof (elim disjE)
    have "distinct (concat (map (\<lambda>c. filter (\<lambda>n. col n = Some c) phase) [0 ..< k]))" for k
      using dist by (induction k) auto
    then show "qs = map (\<lambda>c. filter (\<lambda>n. col n = Some c) phase) [0 ..< max_color phase col] \<Longrightarrow> ?thesis"
      by simp
  qed (use dist in auto)
  show "\<exists>P. q = filter P phase" if "q \<in> set qs" using split
  proof (elim disjE)
    assume "qs = [phase] \<and> phase \<noteq> [] \<and>
      (\<forall>a \<in> set phase. \<forall>b \<in> set phase. a \<noteq> b \<longrightarrow> \<not> conflicting actions a b)"
    with that show ?thesis by (intro exI [of _ "\<lambda>_. True"]) simp
  qed (use that in auto)
  show "q \<noteq> []" if q: "q \<in> set qs" using split
  proof (elim disjE)
    assume "qs = map (\<lambda>c. filter (\<lambda>n. col n = Some c) phase) [0 ..< max_color phase col]"
    with q obtain c where c: "c < max_color phase col" and q: "q = filter (\<lambda>n. col n = Some c) phase" by auto
    from c obtain n k where n: "n \<in> set phase" "col n = Some k" "c \<le> k"
      using max_color_less [of c phase col] by blast
    have "\<exists>m \<in> set phase. col m = Some c"
    proof (cases "c = k")
      case False
      then have "c < k" using n(3) by simp
      with ok n(2) obtain y where "col y = Some c" unfolding coloring_ok_def by blast
      then show ?thesis using dom by (intro bexI [of _ y]) auto
    qed (use n in auto)
    then show ?thesis unfolding q by (simp add: filter_empty_conv)
  qed (use q in auto)
  show "\<not> conflicting actions a b" if q: "q \<in> set qs" "a \<in> set q" "b \<in> set q" "a \<noteq> b" using split
  proof (elim disjE)
    assume "qs = map (\<lambda>c. filter (\<lambda>n. col n = Some c) phase) [0 ..< max_color phase col]"
    with q obtain c where ab: "a \<in> set phase" "b \<in> set phase" "col a = Some c" "col b = Some c" by auto
    then have "b \<notin> set (map_get [] cf a)" using ok q(4) unfolding coloring_ok_def by blast
    with cfs [OF ab(1)] ab(2) show ?thesis by simp
  qed (use q in auto)
qed

subsection \<open>The planner of actions is a dependency graph\<close>

text \<open>
  The sections for which phases were computed, as the planner interface sees them;
  any other input is the empty graph.
\<close>

definition planned :: "'a gomap \<Rightarrow> string list gomap \<Rightarrow> bool" where
  "planned actions deps =
     (section_maps actions deps \<and> (case computeExecutionPhases actions deps of Inl _ \<Rightarrow> False | Inr _ \<Rightarrow> True))"

definition planned_nodes :: "'a gomap \<Rightarrow> string list gomap \<Rightarrow> string set" where
  "planned_nodes actions deps = (if planned actions deps then set (map_keys actions) else {})"

interpretation planned: dep_graph "planned_nodes actions deps" "\<lambda>n. section_deps actions deps n \<inter> planned_nodes actions deps"
  for actions deps
proof
  show "finite (planned_nodes actions deps)" by (simp add: planned_nodes_def)
  show "section_deps actions deps n \<inter> planned_nodes actions deps \<subseteq> planned_nodes actions deps" for n by simp
  show "acyclic {(n, d). n \<in> planned_nodes actions deps \<and> d \<in> section_deps actions deps n \<inter> planned_nodes actions deps}"
  proof (cases "planned actions deps")
    case True
    then obtain ps where sm: "section_maps actions deps" and ps: "computeExecutionPhases actions deps = Inr ps"
      by (auto simp: planned_def split: sum.splits)
    from computeExecutionPhases_spec [OF sm] ps
    have "phase_schedule (set (map_keys actions)) (section_deps actions deps) ps" by simp
    from phase_schedule_acyclic [OF this] show ?thesis
      by (rule acyclic_subset) (auto simp: planned_nodes_def)
  qed (simp add: planned_nodes_def acyclic_def)
qed

subsection \<open>The order of a built graph\<close>

fun deps_before :: "('a \<Rightarrow> 'a set) \<Rightarrow> 'a set \<Rightarrow> 'a list list \<Rightarrow> bool" where
  "deps_before D S [] = True"
| "deps_before D S (p # ps) = ((\<forall>n \<in> set p. D n \<subseteq> S) \<and> deps_before D (S \<union> set p) ps)"

lemma deps_before_schedule: "schedule_from N D S ps \<Longrightarrow> deps_before D S ps"
  by (induction ps arbitrary: S) (auto simp: ready_def)

lemma deps_before_sub: "(\<And>n. D' n \<subseteq> D n) \<Longrightarrow> deps_before D S ps \<Longrightarrow> deps_before D' S ps"
proof (induction ps arbitrary: S)
  case (Cons p ps)
  have "\<forall>n \<in> set p. D' n \<subseteq> S" using Cons.prems by (meson deps_before.simps(2) order_trans)
  with Cons show ?case by simp
qed simp

lemma deps_before_split:
  "(\<forall>n \<in> set (concat qs). D n \<subseteq> S) \<Longrightarrow> deps_before D (S \<union> set (concat qs)) rest \<Longrightarrow>
   deps_before D S (qs @ rest)"
proof (induction qs arbitrary: S)
  case (Cons q qs)
  have "\<forall>n \<in> set (concat qs). D n \<subseteq> S \<union> set q" using Cons.prems(1) by auto
  moreover have "deps_before D (S \<union> set q \<union> set (concat qs)) rest"
    using Cons.prems(2) by (simp add: Un_assoc)
  ultimately have "deps_before D (S \<union> set q) (qs @ rest)" by (rule Cons.IH)
  with Cons.prems(1) show ?case by simp
qed simp

lemma deps_before_nth:
  "deps_before D S ps \<Longrightarrow> i < length ps \<Longrightarrow> n \<in> set (ps ! i) \<Longrightarrow> d \<in> D n \<Longrightarrow>
   d \<in> S \<or> (\<exists>j < i. d \<in> set (ps ! j))"
proof (induction ps arbitrary: S i)
  case (Cons p ps)
  show ?case
  proof (cases i)
    case 0
    with Cons.prems show ?thesis by auto
  next
    case (Suc k)
    have "d \<in> S \<union> set p \<or> (\<exists>j < k. d \<in> set (ps ! j))"
      by (rule Cons.IH) (use Cons.prems Suc in auto)
    with Suc show ?thesis by (metis Suc_less_eq Un_iff nth_Cons_0 nth_Cons_Suc zero_less_Suc)
  qed
qed simp

text \<open>
  What an execution order promises of a section: it runs every action once, each
  after its dependencies, never two exclusive actions in one phase.
\<close>

definition order_ok :: "expanded_action gomap \<Rightarrow> string list list \<Rightarrow> bool" where
  "order_ok actions order =
     (set (concat order) = set (map_keys actions) \<and> distinct (concat order) \<and> (\<forall>p \<in> set order. p \<noteq> []) \<and>
      deps_before (\<lambda>n. case map_of actions n of None \<Rightarrow> {} | Some ea \<Rightarrow> set (ea_dependencies ea)) {} order \<and>
      (\<forall>p \<in> set order. \<forall>a \<in> set p. \<forall>b \<in> set p. a \<noteq> b \<longrightarrow> \<not> conflicting actions a b))"

lemma split_deps_before:
  "deps_before D S ps \<Longrightarrow> distinct (concat ps) \<Longrightarrow> deps_before D S (splitPhasesForExclusive ps actions)"
proof (induction ps arbitrary: S)
  case (Cons p ps)
  have dp: "distinct p" using Cons.prems by simp
  note sp = splitPhase_spec(1) [OF dp refl, of actions]
  have "deps_before D (S \<union> set p) (splitPhasesForExclusive ps actions)"
    using Cons by simp
  moreover have "\<forall>n \<in> set p. D n \<subseteq> S" using Cons.prems(1) by simp
  ultimately have "deps_before D S (splitPhaseForExclusive p actions @ splitPhasesForExclusive ps actions)"
    by (intro deps_before_split; unfold sp)
  then show ?case by (simp add: splitPhasesForExclusive_def)
qed (simp add: splitPhasesForExclusive_def)

lemma split_concat:
  "distinct (concat ps) \<Longrightarrow> set (concat (splitPhasesForExclusive ps actions)) = set (concat ps) \<and>
     distinct (concat (splitPhasesForExclusive ps actions))"
proof (induction ps)
  case (Cons p ps)
  have dp: "distinct p" using Cons.prems by simp
  note sp = splitPhase_spec(1,2) [OF dp refl, of actions]
  have IH: "set (concat (splitPhasesForExclusive ps actions)) = set (concat ps)"
    "distinct (concat (splitPhasesForExclusive ps actions))" using Cons by simp_all
  have "splitPhasesForExclusive (p # ps) actions = splitPhaseForExclusive p actions @ splitPhasesForExclusive ps actions"
    by (simp add: splitPhasesForExclusive_def)
  then have c: "concat (splitPhasesForExclusive (p # ps) actions) =
      concat (splitPhaseForExclusive p actions) @ concat (splitPhasesForExclusive ps actions)" by simp
  show ?case unfolding c set_append distinct_append using sp IH Cons.prems by simp
qed (simp add: splitPhasesForExclusive_def)

lemma split_member:
  "q \<in> set (splitPhasesForExclusive ps actions) \<Longrightarrow> \<exists>p \<in> set ps. q \<in> set (splitPhaseForExclusive p actions)"
  by (auto simp: splitPhasesForExclusive_def)

lemma distinct_concat_member: "distinct (concat ps) \<Longrightarrow> p \<in> set ps \<Longrightarrow> distinct p"
  by (induction ps) auto

lemma section_order_ok:
  assumes sm: "section_maps actions deps" and ps: "computeExecutionPhases actions deps = Inr ps"
    and dep: "\<And>n ea. map_of actions n = Some ea \<Longrightarrow>
       map_get [] deps n = ea_dependencies ea \<and> set (ea_dependencies ea) \<subseteq> set (map_keys actions)"
  shows "order_ok actions (splitPhasesForExclusive ps actions)"
proof -
  let ?D = "\<lambda>n. case map_of actions n of None \<Rightarrow> {} | Some ea \<Rightarrow> set (ea_dependencies ea)"
  have sched: "phase_schedule (set (map_keys actions)) (section_deps actions deps) ps"
    using computeExecutionPhases_spec [OF sm] ps by simp
  have "section_deps actions deps n = ?D n" if "n \<in> set (map_keys actions)" for n
  proof -
    from that obtain ea where "map_of actions n = Some ea"
      by (auto simp: map_has_def simp flip: map_has_iff_keys)
    with dep [OF this] show ?thesis by (auto simp: section_deps_def)
  qed
  moreover have "?D n = {}" if "n \<notin> set (map_keys actions)" for n
    using that by (simp add: map_has_def flip: map_has_iff_keys)
  ultimately have sub: "?D n \<subseteq> section_deps actions deps n" for n
    by (cases "n \<in> set (map_keys actions)") simp_all
  note part = phase_schedule_partition [OF sched]
  have "deps_before (section_deps actions deps) {} ps"
    using deps_before_schedule sched unfolding phase_schedule_def by blast
  then have "deps_before (section_deps actions deps) {} (splitPhasesForExclusive ps actions)"
    using part by (intro split_deps_before) simp_all
  then have db: "deps_before ?D {} (splitPhasesForExclusive ps actions)" by (rule deps_before_sub [OF sub])
  have mem: "distinct p" if "p \<in> set ps" for p using distinct_concat_member part that by blast
  have "q \<noteq> []" "\<forall>a \<in> set q. \<forall>b \<in> set q. a \<noteq> b \<longrightarrow> \<not> conflicting actions a b"
    if q: "q \<in> set (splitPhasesForExclusive ps actions)" for q
  proof -
    from split_member [OF q] obtain p where p: "p \<in> set ps" "q \<in> set (splitPhaseForExclusive p actions)" by blast
    note sp = splitPhase_spec(3,5) [OF mem [OF p(1)] refl, where actions = actions]
    show "q \<noteq> []" using sp(1) p(2) by blast
    show "\<forall>a \<in> set q. \<forall>b \<in> set q. a \<noteq> b \<longrightarrow> \<not> conflicting actions a b" using sp(2) p(2) by blast
  qed
  with split_concat [of ps actions] part db show ?thesis by (simp add: order_ok_def)
qed

lemma expand_items_distinct:
  "expand_items env skip data aliases a section name i vs ex = Inr ex' \<Longrightarrow>
   distinct (map_keys ex) \<Longrightarrow> distinct (map_keys ex')"
proof (induction vs arbitrary: i ex)
  case (Cons v vs)
  then obtain ea where "createExpandedAction env skip data aliases a section (Some (i, v)) name = Inr ea"
    by (auto split: sum.splits)
  with Cons.prems show ?case by (auto intro: Cons.IH distinct_keys_put)
qed simp

lemma expand_actions_distinct:
  "expand_actions env skip data aliases section as ex fe = Inr (ex', fe') \<Longrightarrow>
   distinct (map_keys ex) \<Longrightarrow> distinct (map_keys ex')"
proof (induction as arbitrary: ex fe)
  case (Cons x as)
  obtain name oa where x: "x = (name, oa)" by fastforce
  show ?case
  proof (cases oa)
    case None
    with Cons x show ?thesis by simp
  next
    case (Some a)
    show ?thesis
    proof (cases "a_forEach a")
      case None
      with Cons x Some show ?thesis by (auto split: sum.splits intro: distinct_keys_put)
    next
      case (Some cl)
      with Cons.prems x \<open>oa = Some a\<close> obtain items ex1 where
        "expand_items env skip data aliases a section name 0 items ex = Inr ex1"
        "expand_actions env skip data aliases section as ex1 (map_put name (iteration_names name (length items)) fe) = Inr (ex', fe')"
        by (auto split: sum.splits)
      with Cons show ?thesis using expand_items_distinct by blast
    qed
  qed
qed simp

lemma finish_expanded_facts:
  "set (ea_dependencies (finish_expanded fe names ea)) \<subseteq> set names"
  "distinct (ea_dependencies (finish_expanded fe names ea))"
  by (auto simp: finish_expanded_def computeEffectiveDependencies_def Let_def)

lemma expandSection_Inr:
  assumes "expandSection env skip data aliases section as = Inr (ex, deps)"
  shows "section_maps ex deps"
    and "map_of ex n = Some ea \<Longrightarrow>
       map_get [] deps n = ea_dependencies ea \<and> set (ea_dependencies ea) \<subseteq> set (map_keys ex)"
proof -
  from assms obtain ex0 fe where e: "expand_actions env skip data aliases section as [] [] = Inr (ex0, fe)"
    and ex: "ex = map (\<lambda>(n, ea). (n, finish_expanded fe (map_keys ex0) ea)) ex0"
    and deps: "deps = map (\<lambda>(n, ea). (n, ea_dependencies ea)) ex"
    by (auto simp: expandSection_def Let_def split: sum.splits)
  have d: "distinct (map_keys ex0)"
    using expand_actions_distinct [OF e] by (simp add: map_keys_def)
  have k: "map_keys ex = map_keys ex0" "map_keys deps = map_keys ex"
    by (simp_all add: ex deps map_keys_def split_def comp_def)
  show "section_maps ex deps" using d k
    by (auto simp: section_maps_def deps ex finish_expanded_facts)
  assume n: "map_of ex n = Some ea"
  have "map_of deps n = Some (ea_dependencies ea)" using n by (simp add: deps map_of_map)
  moreover have "set (ea_dependencies ea) \<subseteq> set (map_keys ex)"
    using n k(1) finish_expanded_facts(1) by (auto simp: ex map_of_map)
  ultimately show "map_get [] deps n = ea_dependencies ea \<and> set (ea_dependencies ea) \<subseteq> set (map_keys ex)"
    by (simp add: map_get_def)
qed

lemma BuildGraph_Inr:
  assumes "BuildGraph env skip (Some w) data = Inr g"
  obtains main mdeps fin fdeps where
    "expandSection env skip data (buildAliasNames [w_actions w, w_finally w]) ''actions'' (w_actions w) = Inr (main, mdeps)"
    "expandSection env skip data (buildAliasNames [w_actions w, w_finally w]) ''finally'' (w_finally w) = Inr (fin, fdeps)"
    "ag_actions g = put_actions fin (put_actions main [])"
    "order_ok main (ag_order g)" "order_ok fin (ag_finally g)"
proof -
  let ?al = "buildAliasNames [w_actions w, w_finally w]"
  from assms obtain main mdeps where
    m: "expandSection env skip data ?al ''actions'' (w_actions w) = Inr (main, mdeps)"
    unfolding BuildGraph_def by (auto simp: Let_def split: sum.splits)
  from assms m obtain fin fdeps where
    f: "expandSection env skip data ?al ''finally'' (w_finally w) = Inr (fin, fdeps)"
    unfolding BuildGraph_def by (auto simp: Let_def split: sum.splits)
  from assms m f obtain mo where mo: "computeExecutionPhases main mdeps = Inr mo"
    unfolding BuildGraph_def by (auto simp: Let_def split: sum.splits)
  from assms m f mo obtain fo where
    fo: "(if fin = [] then Inr [] else computeExecutionPhases fin fdeps) = Inr fo"
    unfolding BuildGraph_def by (auto simp: Let_def split: sum.splits if_splits)
  have g: "ag_actions g = put_actions fin (put_actions main [])" "ag_order g = splitPhasesForExclusive mo main"
    "ag_finally g = (if fin = [] then [] else splitPhasesForExclusive fo fin)"
    using assms m f mo fo unfolding BuildGraph_def by (auto simp: Let_def split: if_splits)
  have "order_ok main (ag_order g)"
    unfolding g(2) by (rule section_order_ok [OF expandSection_Inr(1) [OF m] mo expandSection_Inr(2) [OF m]])
  moreover have "order_ok fin (ag_finally g)"
  proof (cases "fin = []")
    case True
    then show ?thesis by (simp add: g(3) order_ok_def map_keys_def)
  next
    case False
    with fo have "computeExecutionPhases fin fdeps = Inr fo" by simp
    from section_order_ok [OF expandSection_Inr(1) [OF f] this expandSection_Inr(2) [OF f]] False
    show ?thesis by (simp add: g(3))
  qed
  ultimately show ?thesis using that m f g(1) by blast
qed

text \<open>A dependency cycle inside a section is the only way the phases can fail.\<close>

lemma BuildGraph_cycle:
  assumes "BuildGraph env skip (Some w) data = Inl ActionCycle"
    and m: "expandSection env skip data (buildAliasNames [w_actions w, w_finally w]) ''actions'' (w_actions w) = Inr (main, mdeps)"
    and f: "expandSection env skip data (buildAliasNames [w_actions w, w_finally w]) ''finally'' (w_finally w) = Inr (fin, fdeps)"
  shows "\<not> acyclic {(n, d). n \<in> set (map_keys main) \<and> d \<in> section_deps main mdeps n} \<or>
         \<not> acyclic {(n, d). n \<in> set (map_keys fin) \<and> d \<in> section_deps fin fdeps n}"
proof (cases "computeExecutionPhases main mdeps")
  case (Inl e)
  with computeExecutionPhases_spec [OF expandSection_Inr(1) [OF m]] show ?thesis by simp
next
  case (Inr mo)
  with assms have "computeExecutionPhases fin fdeps = Inl ActionCycle"
    by (auto simp: BuildGraph_def Let_def split: sum.splits if_splits)
  with computeExecutionPhases_spec [OF expandSection_Inr(1) [OF f]] show ?thesis by simp
qed

subsection \<open>Deferral of inputs\<close>

text \<open>
  Every input ends up materialized or deferred, except a literal with a nested
  reference to a runtime variable: it asks for deferral, which the code refuses.
\<close>

lemma materialize_inputs_keys:
  "materialize_inputs env data ic aliases name ins ms ds = Inr (ms', ds') \<Longrightarrow>
   set (map_keys ms') \<union> set (map_keys ds') = set (map_keys ms) \<union> set (map_keys ds) \<union> set (map_keys ins)"
proof (induction env data ic aliases name ins ms ds rule: materialize_inputs.induct)
  case (3 env data ic aliases name k r ins ms ds)
  show ?case
  proof (cases "referencesActionsOrAlias env (Some r) aliases")
    case True
    with "3.prems" obtain dv where dv: "materializeDeferred r = Some dv"
      "materialize_inputs env data ic aliases name ins ms (map_put k dv ds) = Inr (ms', ds')"
      by (auto split: option.splits)
    from "3.IH"(1) [OF True dv] show ?thesis by auto
  next
    case False
    with "3.prems" obtain v where v: "resolve_in_graph env data ic (Some r) = Inr v"
      "materialize_inputs env data ic aliases name ins (map_put k v ms) ds = Inr (ms', ds')"
      by (auto split: sum.splits)
    from "3.IH"(2) [OF False v] show ?thesis by auto
  qed
qed auto

lemma nested_reference_fails:
  assumes "referencesActionsOrAlias env (Some (RefLiteral v)) aliases" "(k, Some (RefLiteral v)) \<in> set ins"
  shows "\<exists>e. materialize_inputs env data ic aliases name ins ms ds = Inl e"
  using assms
proof (induction env data ic aliases name ins ms ds rule: materialize_inputs.induct)
  case (3 env data ic aliases name k' r ins ms ds)
  then show ?case by (auto split: option.splits sum.splits)
qed auto

section \<open>Properties\<close>

text \<open>C14: In a graph that was built, the phases of each section hold every action of the section once, no phase
  is empty, the dependencies of an action are all in earlier phases, and no phase holds two actions
  that exclude each other.\<close>

theorem graph_phases:
  assumes "BuildGraph env skip (Some w) data = Inr g"
  shows "\<exists>main fin. ag_actions g = put_actions fin (put_actions main []) \<and>
     order_ok main (ag_order g) \<and> order_ok fin (ag_finally g)"
proof -
  from BuildGraph_Inr [OF assms] obtain main mdeps fin fdeps where
    "ag_actions g = put_actions fin (put_actions main [])" "order_ok main (ag_order g)" "order_ok fin (ag_finally g)"
    by metis
  then show ?thesis by blast
qed

theorem graph_phases_witness:
  "\<exists>g main fin. BuildGraph sample_val_env False (Some sample_workflow) [] = Inr g \<and>
     ag_order g = [[''a''], [''b''], [''c'']] \<and> ag_finally g = [[''f'']] \<and>
     order_ok main (ag_order g) \<and> order_ok fin (ag_finally g)"
proof -
  let ?B = "BuildGraph sample_val_env False (Some sample_workflow) []"
  have e: "(case ?B of Inl _ \<Rightarrow> False | Inr g \<Rightarrow> ag_order g = [[''a''], [''b''], [''c'']] \<and> ag_finally g = [[''f'']])"
    by code_simp
  then obtain g where g: "?B = Inr g" by (cases ?B) auto
  with e graph_phases [OF g] show ?thesis by auto
qed

text \<open>An input given as a literal that nests a reference to a runtime variable makes the materialization of
  the inputs fail: such a literal is recognised as a reference but cannot be deferred.\<close>

theorem nested_runtime_reference_fails:
  assumes "referencesActionsOrAlias env (Some (RefLiteral v)) aliases" "(k, Some (RefLiteral v)) \<in> set ins"
  shows "\<exists>e. materialize_inputs env data ic aliases name ins ms ds = Inl e"
  by (rule nested_reference_fails [OF assms])

theorem nested_runtime_reference_fails_witness:
  "\<exists>e. materialize_inputs sample_val_env [] None [] ''a''
     [(''v'', Some (RefLiteral (VMap [(''x'', VMap [(''expr'', VStr ''__actions'')])])))] [] [] = Inl e"
proof -
  have "referencesActionsOrAlias sample_val_env
      (Some (RefLiteral (VMap [(''x'', VMap [(''expr'', VStr ''__actions'')])]))) []" by code_simp
  then show ?thesis by (rule nested_runtime_reference_fails) simp
qed

end
