(* ===== verification/Action_Context.thy ===== *)
theory Action_Context
  imports Action_Types
begin

text \<open>
  \<open>pkg/action/context.go\<close>: the results of the actions of a run, kept by name, and the
  results of the iterations of a forEach action; and \<open>AggregateForEachResults\<close> of
  \<open>foreach.go\<close>.  Every method of the Go type holds the mutex for its whole body, so each is
  one step on the state; a point in time is an integer, and \<open>now\<close> is an argument.
\<close>

datatype skip_reason = SkipNone | SkipCondition | SkipDependencyFailed | SkipUpToDate

record action_result =
  ar_inputs :: "gval gomap"
  ar_results :: gval
  ar_status :: status
  ar_skipReason :: skip_reason
  ar_start :: "int option"
  ar_end :: "int option"
  ar_error :: string
  ar_attempts :: int
  ar_streamed :: bool

record iteration_result =
  ir_index :: nat
  ir_name :: string
  ir_results :: gval
  ir_status :: status
  ir_start :: "int option"
  ir_end :: "int option"
  ir_error :: string

record action_ctx =
  ac_actions :: "action_result gomap"
  ac_iterations :: "iteration_result list gomap"

fun status_string :: "status \<Rightarrow> string" where
  "status_string StatusPending = ''pending''"
| "status_string StatusRunning = ''running''"
| "status_string StatusSucceeded = ''succeeded''"
| "status_string StatusFailed = ''failed''"
| "status_string StatusSkipped = ''skipped''"
| "status_string StatusTimeout = ''timeout''"
| "status_string StatusCancelled = ''cancelled''"

fun skip_string :: "skip_reason \<Rightarrow> string" where
  "skip_string SkipNone = []"
| "skip_string SkipCondition = ''condition''"
| "skip_string SkipDependencyFailed = ''dependency-failed''"
| "skip_string SkipUpToDate = ''up-to-date''"

text \<open>The zero \<open>ActionResult\<close>, which the struct literals of the code start from.\<close>

definition zero_result :: action_result where
  "zero_result = \<lparr>ar_inputs = [], ar_results = VNil, ar_status = StatusPending,
     ar_skipReason = SkipNone, ar_start = None, ar_end = None, ar_error = [],
     ar_attempts = 0, ar_streamed = False\<rparr>"

definition NewContext :: action_ctx where
  "NewContext = \<lparr>ac_actions = [], ac_iterations = []\<rparr>"

definition SetResult :: "string \<Rightarrow> action_result \<Rightarrow> action_ctx \<Rightarrow> action_ctx" where
  "SetResult n r c = c\<lparr>ac_actions := map_put n r (ac_actions c)\<rparr>"

definition GetResult :: "action_ctx \<Rightarrow> string \<Rightarrow> action_result option" where
  "GetResult c n = map_of (ac_actions c) n"

definition HasResult :: "action_ctx \<Rightarrow> string \<Rightarrow> bool" where
  "HasResult c n = map_has (ac_actions c) n"

definition actionResultToMap :: "(int \<Rightarrow> string) \<Rightarrow> action_result \<Rightarrow> gval" where
  "actionResultToMap rfc3339 r = VMap
     ([(''inputs'', VMap (ar_inputs r)), (''results'', ar_results r),
       (''status'', VStr (status_string (ar_status r)))] @
      (if ar_skipReason r \<noteq> SkipNone then [(''skipReason'', VStr (skip_string (ar_skipReason r)))] else []) @
      (case ar_start r of None \<Rightarrow> [] | Some t \<Rightarrow> [(''startTime'', VStr (rfc3339 t))]) @
      (case ar_end r of None \<Rightarrow> [] | Some t \<Rightarrow> [(''endTime'', VStr (rfc3339 t))]) @
      (if ar_error r \<noteq> [] then [(''error'', VStr (ar_error r))] else []))"

definition GetNamespace :: "(int \<Rightarrow> string) \<Rightarrow> action_ctx \<Rightarrow> gval gomap" where
  "GetNamespace rfc3339 c = map (\<lambda>(n, r). (n, actionResultToMap rfc3339 r)) (ac_actions c)"

subsection \<open>Marking\<close>

text \<open>Changing the result in place when there is one, storing a new one otherwise.\<close>

definition mark ::
  "(action_result \<Rightarrow> action_result) \<Rightarrow> action_result \<Rightarrow> string \<Rightarrow> action_ctx \<Rightarrow> action_ctx" where
  "mark upd fresh n c =
     c\<lparr>ac_actions := map_put n (case map_of (ac_actions c) n of Some r \<Rightarrow> upd r | None \<Rightarrow> fresh)
                       (ac_actions c)\<rparr>"

definition mark_existing :: "(action_result \<Rightarrow> action_result) \<Rightarrow> string \<Rightarrow> action_ctx \<Rightarrow> action_ctx" where
  "mark_existing upd n c =
     (case map_of (ac_actions c) n of
        Some r \<Rightarrow> c\<lparr>ac_actions := map_put n (upd r) (ac_actions c)\<rparr> | None \<Rightarrow> c)"

definition MarkRunning :: "int \<Rightarrow> string \<Rightarrow> gval gomap \<Rightarrow> action_ctx \<Rightarrow> action_ctx" where
  "MarkRunning now n inputs =
     SetResult n (zero_result\<lparr>ar_inputs := inputs, ar_status := StatusRunning, ar_start := Some now\<rparr>)"

definition MarkSucceeded :: "int \<Rightarrow> string \<Rightarrow> gval \<Rightarrow> action_ctx \<Rightarrow> action_ctx" where
  "MarkSucceeded now n results =
     mark (\<lambda>r. r\<lparr>ar_results := results, ar_status := StatusSucceeded, ar_end := Some now\<rparr>)
       (zero_result\<lparr>ar_results := results, ar_status := StatusSucceeded, ar_start := Some now, ar_end := Some now\<rparr>) n"

definition MarkStreamed :: "string \<Rightarrow> action_ctx \<Rightarrow> action_ctx" where
  "MarkStreamed n = mark_existing (\<lambda>r. r\<lparr>ar_streamed := True\<rparr>) n"

definition RecordAttempts :: "string \<Rightarrow> int \<Rightarrow> action_ctx \<Rightarrow> action_ctx" where
  "RecordAttempts n k = mark_existing (\<lambda>r. r\<lparr>ar_attempts := k\<rparr>) n"

definition MarkFailed :: "int \<Rightarrow> string \<Rightarrow> string \<Rightarrow> action_ctx \<Rightarrow> action_ctx" where
  "MarkFailed now n msg =
     mark (\<lambda>r. r\<lparr>ar_status := StatusFailed, ar_end := Some now, ar_error := msg\<rparr>)
       (zero_result\<lparr>ar_status := StatusFailed, ar_start := Some now, ar_end := Some now, ar_error := msg\<rparr>) n"

definition MarkSkipped :: "int \<Rightarrow> string \<Rightarrow> skip_reason \<Rightarrow> action_ctx \<Rightarrow> action_ctx" where
  "MarkSkipped now n reason =
     SetResult n (zero_result\<lparr>ar_status := StatusSkipped, ar_skipReason := reason,
                              ar_start := Some now, ar_end := Some now\<rparr>)"

definition MarkTimeout :: "int \<Rightarrow> string \<Rightarrow> action_ctx \<Rightarrow> action_ctx" where
  "MarkTimeout now n =
     mark (\<lambda>r. r\<lparr>ar_status := StatusTimeout, ar_end := Some now, ar_error := ''action timed out''\<rparr>)
       (zero_result\<lparr>ar_status := StatusTimeout, ar_start := Some now, ar_end := Some now,
                    ar_error := ''action timed out''\<rparr>) n"

definition MarkCancelled :: "int \<Rightarrow> string \<Rightarrow> action_ctx \<Rightarrow> action_ctx" where
  "MarkCancelled now n =
     mark (\<lambda>r. r\<lparr>ar_status := StatusCancelled, ar_end := Some now\<rparr>)
       (zero_result\<lparr>ar_status := StatusCancelled, ar_start := Some now, ar_end := Some now\<rparr>) n"

definition AllActionNames :: "(string list \<Rightarrow> nat) \<Rightarrow> action_ctx \<Rightarrow> string list" where
  "AllActionNames pick c = range_set pick (map_keys (ac_actions c))"

definition ActionCount :: "action_ctx \<Rightarrow> nat" where
  "ActionCount c = length (ac_actions c)"

definition ctx_Reset :: "action_ctx \<Rightarrow> action_ctx" where
  "ctx_Reset c = NewContext"

text \<open>\<open>Clone\<close> copies the fields it names; the others keep their zero value.\<close>

definition clone_result :: "action_result \<Rightarrow> action_result" where
  "clone_result r = zero_result\<lparr>ar_inputs := ar_inputs r, ar_results := ar_results r,
     ar_status := ar_status r, ar_skipReason := ar_skipReason r, ar_error := ar_error r,
     ar_start := ar_start r, ar_end := ar_end r\<rparr>"

definition ctx_Clone :: "action_ctx \<Rightarrow> action_ctx" where
  "ctx_Clone c = \<lparr>ac_actions = map (\<lambda>(n, r). (n, clone_result r)) (ac_actions c),
                  ac_iterations = ac_iterations c\<rparr>"

subsection \<open>Iterations\<close>

definition AddIteration :: "string \<Rightarrow> iteration_result \<Rightarrow> action_ctx \<Rightarrow> action_ctx" where
  "AddIteration n r c =
     c\<lparr>ac_iterations := map_put n (map_get [] (ac_iterations c) n @ [r]) (ac_iterations c)\<rparr>"

definition GetIterations :: "action_ctx \<Rightarrow> string \<Rightarrow> iteration_result list" where
  "GetIterations c n = map_get [] (ac_iterations c) n"

definition failed_status :: "status \<Rightarrow> bool" where
  "failed_status s = (s = StatusFailed \<or> s = StatusTimeout)"

record aggregation =
  ag_results :: "gval list"
  ag_start :: "int option"
  ag_end :: "int option"
  ag_hasError :: bool
  ag_firstError :: string
  ag_allSucceeded :: bool

definition aggregate_step :: "iteration_result \<Rightarrow> aggregation \<Rightarrow> aggregation" where
  "aggregate_step it a =
     (let a = a\<lparr>ag_results := ag_results a @ [ir_results it]\<rparr>;
          a = (case ir_start it of None \<Rightarrow> a
               | Some t \<Rightarrow> (case ag_start a of
                            None \<Rightarrow> a\<lparr>ag_start := Some t\<rparr>
                          | Some t0 \<Rightarrow> if t < t0 then a\<lparr>ag_start := Some t\<rparr> else a));
          a = (case ir_end it of None \<Rightarrow> a
               | Some t \<Rightarrow> (case ag_end a of
                            None \<Rightarrow> a\<lparr>ag_end := Some t\<rparr>
                          | Some t0 \<Rightarrow> if t > t0 then a\<lparr>ag_end := Some t\<rparr> else a)) in
      if failed_status (ir_status it)
      then (let a = a\<lparr>ag_allSucceeded := False\<rparr> in
            if \<not> ag_hasError a then a\<lparr>ag_hasError := True, ag_firstError := ir_error it\<rparr> else a)
      else if ir_status it \<noteq> StatusSucceeded then a\<lparr>ag_allSucceeded := False\<rparr>
      else a)"

definition aggregate :: "iteration_result list \<Rightarrow> aggregation" where
  "aggregate its = fold aggregate_step its
     \<lparr>ag_results = [], ag_start = None, ag_end = None, ag_hasError = False,
      ag_firstError = [], ag_allSucceeded = True\<rparr>"

definition aggregate_result :: "iteration_result list \<Rightarrow> gval gomap \<Rightarrow> action_result" where
  "aggregate_result its inputs =
     (let a = aggregate its in
      zero_result\<lparr>ar_inputs := inputs, ar_results := VList (ag_results a),
        ar_status := (if ag_allSucceeded a then StatusSucceeded else StatusFailed),
        ar_start := ag_start a, ar_end := ag_end a, ar_error := ag_firstError a\<rparr>)"

definition FinalizeForEach :: "string \<Rightarrow> gval gomap \<Rightarrow> action_ctx \<Rightarrow> action_result \<times> action_ctx" where
  "FinalizeForEach n inputs c =
     (let its = map_get [] (ac_iterations c) n in
      if its = []
      then (zero_result\<lparr>ar_inputs := inputs, ar_results := VList [], ar_status := StatusSucceeded\<rparr>, c)
      else (let r = aggregate_result its inputs in (r, SetResult n r c)))"

text \<open>\<open>AggregateForEachResults\<close>: a nil iteration leaves a nil result in its place.\<close>

definition aggregate_opt :: "iteration_result option \<Rightarrow> aggregation \<Rightarrow> aggregation" where
  "aggregate_opt it a =
     (case it of None \<Rightarrow> a\<lparr>ag_results := ag_results a @ [VNil]\<rparr> | Some i \<Rightarrow> aggregate_step i a)"

definition AggregateForEachResults :: "iteration_result option list \<Rightarrow> gval gomap \<Rightarrow> action_result" where
  "AggregateForEachResults its inputs =
     (if its = []
      then zero_result\<lparr>ar_inputs := inputs, ar_results := VList [], ar_status := StatusSucceeded\<rparr>
      else (let a = fold aggregate_opt its
                      \<lparr>ag_results = [], ag_start = None, ag_end = None, ag_hasError = False,
                       ag_firstError = [], ag_allSucceeded = True\<rparr> in
            zero_result\<lparr>ar_inputs := inputs, ar_results := VList (ag_results a),
              ar_status := (if ag_allSucceeded a then StatusSucceeded else StatusFailed),
              ar_start := ag_start a, ar_end := ag_end a, ar_error := ag_firstError a\<rparr>))"

subsection \<open>Lemmas\<close>

lemmas mark_defs = MarkRunning_def MarkSucceeded_def MarkStreamed_def RecordAttempts_def MarkFailed_def
  MarkSkipped_def MarkTimeout_def MarkCancelled_def

definition status_of :: "action_ctx \<Rightarrow> string \<Rightarrow> status option" where
  "status_of c n = map_option ar_status (GetResult c n)"

lemma GetResult_SetResult [simp]:
  "GetResult (SetResult n r c) m = (if m = n then Some r else GetResult c m)"
  by (simp add: GetResult_def SetResult_def)

lemma GetResult_mark [simp]:
  "GetResult (mark u f n c) m =
     (if m = n then Some (case GetResult c n of Some r \<Rightarrow> u r | None \<Rightarrow> f) else GetResult c m)"
  by (simp add: GetResult_def mark_def)

lemma GetResult_mark_existing [simp]:
  "GetResult (mark_existing u n c) m = (if m = n then map_option u (GetResult c n) else GetResult c m)"
  by (simp add: GetResult_def mark_existing_def split: option.split)

lemma GetResult_NewContext [simp]: "GetResult NewContext n = None"
  by (simp add: GetResult_def NewContext_def)

text \<open>What each operation makes of the status of an action.\<close>

lemma status_marks [simp]:
  "status_of (MarkRunning t n i c) m = (if m = n then Some StatusRunning else status_of c m)"
  "status_of (MarkSucceeded t n v c) m = (if m = n then Some StatusSucceeded else status_of c m)"
  "status_of (MarkFailed t n e c) m = (if m = n then Some StatusFailed else status_of c m)"
  "status_of (MarkSkipped t n s c) m = (if m = n then Some StatusSkipped else status_of c m)"
  "status_of (MarkTimeout t n c) m = (if m = n then Some StatusTimeout else status_of c m)"
  "status_of (MarkCancelled t n c) m = (if m = n then Some StatusCancelled else status_of c m)"
  "status_of (MarkStreamed n c) m = status_of c m"
  "status_of (RecordAttempts n k c) m = status_of c m"
  by (auto simp: status_of_def mark_defs option.map_comp o_def split: option.split)

text \<open>The operations on one name leave the results of the others alone.\<close>

lemma marks_other [simp]:
  "m \<noteq> n \<Longrightarrow> GetResult (MarkRunning t n i c) m = GetResult c m"
  "m \<noteq> n \<Longrightarrow> GetResult (MarkSucceeded t n v c) m = GetResult c m"
  "m \<noteq> n \<Longrightarrow> GetResult (MarkFailed t n e c) m = GetResult c m"
  "m \<noteq> n \<Longrightarrow> GetResult (MarkSkipped t n s c) m = GetResult c m"
  "m \<noteq> n \<Longrightarrow> GetResult (MarkTimeout t n c) m = GetResult c m"
  "m \<noteq> n \<Longrightarrow> GetResult (MarkCancelled t n c) m = GetResult c m"
  "m \<noteq> n \<Longrightarrow> GetResult (MarkStreamed n c) m = GetResult c m"
  "m \<noteq> n \<Longrightarrow> GetResult (RecordAttempts n k c) m = GetResult c m"
  by (auto simp: mark_defs)

lemma status_NewContext [simp]: "status_of NewContext n = None"
  by (simp add: status_of_def)

text \<open>What the aggregation computes.\<close>

lemma aggregate_fold:
  fixes its :: "iteration_result list"
  defines "r a \<equiv> fold aggregate_step its a"
  shows "ag_results (r a) = ag_results a @ map ir_results its"
    and "ag_allSucceeded (r a) = (ag_allSucceeded a \<and> (\<forall>i \<in> set its. ir_status i = StatusSucceeded))"
    and "ag_hasError (r a) = (ag_hasError a \<or> (\<exists>i \<in> set its. failed_status (ir_status i)))"
    and "ag_firstError (r a) = (if ag_hasError a then ag_firstError a
          else case find (\<lambda>i. failed_status (ir_status i)) its of None \<Rightarrow> ag_firstError a | Some i \<Rightarrow> ir_error i)"
  unfolding r_def
  by (induction its arbitrary: a)
    (auto simp: aggregate_step_def Let_def failed_status_def split: option.splits if_splits)

lemma aggregate_times:
  "ag_start (fold aggregate_step its a) =
     fold (\<lambda>i b. case ir_start i of None \<Rightarrow> b | Some t \<Rightarrow> Some (case b of None \<Rightarrow> t | Some t0 \<Rightarrow> min t0 t)) its (ag_start a)"
  "ag_end (fold aggregate_step its a) =
     fold (\<lambda>i b. case ir_end i of None \<Rightarrow> b | Some t \<Rightarrow> Some (case b of None \<Rightarrow> t | Some t0 \<Rightarrow> max t0 t)) its (ag_end a)"
  by (induction its arbitrary: a)
    (auto simp: aggregate_step_def Let_def min_def max_def split: option.split)

lemma aggregate_result_spec:
  "ar_results (aggregate_result its inputs) = VList (map ir_results its)"
  "ar_status (aggregate_result its inputs) =
     (if \<forall>i \<in> set its. ir_status i = StatusSucceeded then StatusSucceeded else StatusFailed)"
  "ar_error (aggregate_result its inputs) =
     (case find (\<lambda>i. failed_status (ir_status i)) its of None \<Rightarrow> [] | Some i \<Rightarrow> ir_error i)"
  by (simp_all add: aggregate_result_def aggregate_def Let_def aggregate_fold zero_result_def split: option.split)

lemma aggregate_opt_Some:
  "fold aggregate_opt (map Some its) a = fold aggregate_step its a"
  by (induction its arbitrary: a) (simp_all add: aggregate_opt_def)

text \<open>The two aggregations of the code agree.\<close>

lemma aggregations_agree:
  "AggregateForEachResults (map Some (GetIterations c n)) inputs = fst (FinalizeForEach n inputs c)"
  by (simp add: AggregateForEachResults_def FinalizeForEach_def GetIterations_def Let_def
      aggregate_result_def aggregate_def aggregate_opt_Some)

lemma GetIterations_Add [simp]:
  "GetIterations (AddIteration n r c) m = (if m = n then GetIterations c n @ [r] else GetIterations c m)"
  by (simp add: GetIterations_def AddIteration_def)

lemma clone_result_alt: "clone_result r = r\<lparr>ar_attempts := 0, ar_streamed := False\<rparr>"
  by (cases r) (simp add: clone_result_def zero_result_def)

lemma clone_loses:
  "GetResult (ctx_Clone c) n = map_option (\<lambda>r. r\<lparr>ar_attempts := 0, ar_streamed := False\<rparr>) (GetResult c n)"
  by (simp add: GetResult_def ctx_Clone_def map_of_map clone_result_alt)

section \<open>Properties\<close>

text \<open>Each marking operation gives its action the status it names and leaves the results of every other
  action as they are.\<close>

theorem marks_set_status:
  "status_of (MarkRunning t n i c) n = Some StatusRunning \<and> status_of (MarkSucceeded t n v c) n = Some StatusSucceeded \<and>
   status_of (MarkFailed t n e c) n = Some StatusFailed \<and> status_of (MarkSkipped t n s c) n = Some StatusSkipped \<and>
   status_of (MarkTimeout t n c) n = Some StatusTimeout \<and> status_of (MarkCancelled t n c) n = Some StatusCancelled \<and>
   (m = n \<or> (\<forall>op \<in> {MarkRunning t n i, MarkSucceeded t n v, MarkFailed t n e, MarkSkipped t n s, MarkTimeout t n,
       MarkCancelled t n, MarkStreamed n, RecordAttempts n k}. GetResult (op c) m = GetResult c m))"
  by auto

theorem marks_set_status_witness:
  "status_of (MarkSucceeded 2 ''a'' (VInt 7) (MarkRunning 1 ''a'' [] NewContext)) ''a'' = Some StatusSucceeded \<and>
   GetResult (MarkFailed 2 ''a'' ''e'' (MarkRunning 1 ''b'' [] NewContext)) ''b'' = GetResult (MarkRunning 1 ''b'' [] NewContext) ''b''"
proof
  show "status_of (MarkSucceeded 2 ''a'' (VInt 7) (MarkRunning 1 ''a'' [] NewContext)) ''a'' = Some StatusSucceeded"
    using marks_set_status [of 2 "''a''" "[]" "MarkRunning 1 ''a'' [] NewContext" "VInt 7"] by blast
  show "GetResult (MarkFailed 2 ''a'' ''e'' (MarkRunning 1 ''b'' [] NewContext)) ''b'' = GetResult (MarkRunning 1 ''b'' [] NewContext) ''b''"
    using marks_set_status [of 2 "''a''" "[]" "MarkRunning 1 ''b'' [] NewContext" "VNil" "''e''" SkipNone "''b''" 0] by simp
qed

text \<open>The aggregate of a forEach action has the results of the iterations in their order; it succeeds if and
  only if every iteration succeeded, and its error is that of the first iteration that failed or timed
  out; the two aggregation routines of the package agree.\<close>

theorem foreach_aggregation:
  "ar_results (aggregate_result its inputs) = VList (map ir_results its) \<and>
   (ar_status (aggregate_result its inputs) = StatusSucceeded) = list_all (\<lambda>i. ir_status i = StatusSucceeded) its \<and>
   ar_error (aggregate_result its inputs) =
     (case find (\<lambda>i. failed_status (ir_status i)) its of None \<Rightarrow> [] | Some i \<Rightarrow> ir_error i) \<and>
   AggregateForEachResults (map Some (GetIterations c n)) inputs = fst (FinalizeForEach n inputs c)"
  by (simp add: aggregate_result_spec aggregations_agree list_all_iff)

text \<open>The clone of a context is not a full copy: it loses the attempts and the streamed mark of every result,
  and nothing else of it.\<close>

theorem clone_loses_fields:
  "GetResult (ctx_Clone c) n = map_option (\<lambda>r. r\<lparr>ar_attempts := 0, ar_streamed := False\<rparr>) (GetResult c n)"
  by (rule clone_loses)

end
