(* ===== verification/Retry.thy ===== *)
theory Retry
  imports Action_Types "HOL-Library.Signed_Division"
begin

text \<open>
  \<open>pkg/action/retry.go\<close> and \<open>pkg/action/error_context.go\<close>: the backoff delays, the retry
  decision, the retry loop and the \<open>__error\<close> variables of its conditions.

  A Go error is what the code observes of it: its message and what \<open>errors.As\<close> and
  \<open>errors.Is\<close> find in its chain.  The environment of the loop is the CEL engine on an
  expression without resolver data, the name \<open>%T\<close> prints, the optional jitter function and
  what the processor makes of a float that does not fit an \<open>int64\<close>, which the Go
  specification leaves to the implementation.  What happens around one attempt (the state of
  the context, the outcome of the select, the result of the function) is an observation
  \<open>attempt_obs\<close>, one for each attempt.
\<close>

subsection \<open>Errors and their context\<close>

record go_error =
  er_msg :: string
  er_http :: "int option"
  er_exit :: "int option"
  er_deadline :: bool

datatype ctx_err = Canceled | DeadlineExceeded

definition new_error :: "string \<Rightarrow> go_error" where
  "new_error m = \<lparr>er_msg = m, er_http = None, er_exit = None, er_deadline = False\<rparr>"

definition wrap_error :: "string \<Rightarrow> go_error \<Rightarrow> go_error" where
  "wrap_error pre e = e\<lparr>er_msg := pre @ er_msg e\<rparr>"

definition first_some :: "'a option \<Rightarrow> 'a option \<Rightarrow> 'a option" where
  "first_some a b = (case a of None \<Rightarrow> b | Some x \<Rightarrow> Some x)"

text \<open>An error that wraps two: the chain of the first is searched before that of the second.\<close>

definition wrap_two :: "string \<Rightarrow> go_error \<Rightarrow> go_error \<Rightarrow> go_error" where
  "wrap_two m a b =
     \<lparr>er_msg = m, er_http = first_some (er_http a) (er_http b),
      er_exit = first_some (er_exit a) (er_exit b), er_deadline = (er_deadline a \<or> er_deadline b)\<rparr>"

definition errors_Join :: "go_error \<Rightarrow> go_error \<Rightarrow> go_error" where
  "errors_Join a b = wrap_two (er_msg a @ [CHR 0x0A] @ er_msg b) a b"

definition ctx_error :: "ctx_err \<Rightarrow> go_error" where
  "ctx_error c =
     (case c of Canceled \<Rightarrow> new_error ''context canceled''
      | DeadlineExceeded \<Rightarrow> (new_error ''context deadline exceeded'')\<lparr>er_deadline := True\<rparr>)"

record error_context =
  ec_message :: string
  ec_type :: string
  ec_statusCode :: int
  ec_exitCode :: int
  ec_attempt :: int
  ec_maxAttempts :: int

text \<open>
  \<open>strings.ToLower\<close> as far as the search of an ASCII word can see it: the letters A to Z, and
  the two other runes whose lower case is ASCII (U+0130 and U+212A).
\<close>

fun to_lower :: "string \<Rightarrow> string" where
  "to_lower [] = []"
| "to_lower (c # s) =
     (if 65 \<le> (of_char c :: nat) \<and> (of_char c :: nat) \<le> 90 then char_of ((of_char c :: nat) + 32) # to_lower s
      else if c = CHR 0xC4 \<and> s \<noteq> [] \<and> hd s = CHR 0xB0 then CHR ''i'' # to_lower (tl s)
      else if c = CHR 0xE2 \<and> 2 \<le> length s \<and> hd s = CHR 0x84 \<and> hd (tl s) = CHR 0xAA
           then CHR ''k'' # to_lower (drop 2 s)
      else c # to_lower s)"

definition mentions :: "go_error \<Rightarrow> string \<Rightarrow> bool" where
  "mentions e w = strings_Contains (to_lower (er_msg e)) w"

definition NewErrorContext :: "go_error \<Rightarrow> int \<Rightarrow> int \<Rightarrow> error_context" where
  "NewErrorContext e attempt maxAttempts =
     (let c = \<lparr>ec_message = er_msg e, ec_type = ''unknown'', ec_statusCode = 0, ec_exitCode = 0,
               ec_attempt = attempt, ec_maxAttempts = maxAttempts\<rparr> in
      case er_http e of Some s \<Rightarrow> c\<lparr>ec_type := ''http'', ec_statusCode := s\<rparr>
      | None \<Rightarrow>
     (case er_exit e of Some x \<Rightarrow> c\<lparr>ec_type := ''exec'', ec_exitCode := x\<rparr>
      | None \<Rightarrow>
        if er_deadline e \<or> mentions e ''timeout'' \<or> mentions e ''deadline exceeded''
        then c\<lparr>ec_type := ''timeout''\<rparr>
        else if mentions e ''validation'' \<or> mentions e ''invalid''
        then c\<lparr>ec_type := ''validation''\<rparr>
        else c))"

definition ec_ToMap :: "error_context \<Rightarrow> gval" where
  "ec_ToMap c = VMap [(''message'', VStr (ec_message c)), (''type'', VStr (ec_type c)),
     (''statusCode'', VInt (ec_statusCode c)), (''exitCode'', VInt (ec_exitCode c)),
     (''attempt'', VInt (ec_attempt c)), (''maxAttempts'', VInt (ec_maxAttempts c))]"

subsection \<open>Delays\<close>

datatype float_out = FloatNaN | FloatPos | FloatNeg

record retry_env =
  re_cel :: "string \<Rightarrow> gval gomap \<Rightarrow> string + gval"
  re_type :: "gval \<Rightarrow> string"
  re_jitter :: "(duration \<Rightarrow> duration) option"
  re_conv :: "float_out \<Rightarrow> duration"

definition time_Second :: duration where "time_Second = 1000000000"
definition time_Minute :: duration where "time_Minute = 60000000000"

fun bit_length :: "nat \<Rightarrow> nat" where
  "bit_length n = (if n = 0 then 0 else Suc (bit_length (n div 2)))"

declare bit_length.simps [simp del]

text \<open>\<open>float64\<close> of an integer: 53 bits, round to nearest, ties to even.\<close>

definition float64_of_int :: "int \<Rightarrow> int" where
  "float64_of_int x =
     (let a = nat \<bar>x\<bar>; e = bit_length a - 53; q = a div 2 ^ e; r = a mod 2 ^ e; h = 2 ^ (e - 1) in
      if e = 0 then x
      else sgn x * int ((if r > h \<or> (r = h \<and> odd q) then q + 1 else q) * 2 ^ e))"

text \<open>\<open>time.Duration(float64(d) * math.Pow(2, k))\<close>: a product with a power of two is exact.\<close>

definition exponential_delay :: "retry_env \<Rightarrow> duration \<Rightarrow> nat \<Rightarrow> duration" where
  "exponential_delay env d k =
     (let f = float64_of_int (sint d); v = f * 2 ^ k in
      if 1024 \<le> k \<and> f = 0 then re_conv env FloatNaN
      else if - (2 ^ 63) \<le> v \<and> v < 2 ^ 63 then word_of_int v
      else if 0 < v then re_conv env FloatPos else re_conv env FloatNeg)"

definition the_default :: "'a \<Rightarrow> 'a option \<Rightarrow> 'a" where
  "the_default d x = (case x of None \<Rightarrow> d | Some y \<Rightarrow> y)"

definition base_delay :: "retry_env \<Rightarrow> retry_config \<Rightarrow> int \<Rightarrow> duration" where
  "base_delay env c attempt =
     (let initialDelay = the_default time_Second (rc_initialDelay c); retryNumber = attempt - 1 in
      case backoff_OrDefault (rc_backoff c) of
        BackoffFixed \<Rightarrow> initialDelay
      | BackoffLinear \<Rightarrow> initialDelay * word_of_int retryNumber
      | BackoffExponential \<Rightarrow>
          (if retryNumber \<le> 0 then initialDelay
           else exponential_delay env initialDelay (nat (retryNumber - 1)))
      | _ \<Rightarrow> initialDelay)"

definition CalculateDelay :: "retry_env \<Rightarrow> retry_config option \<Rightarrow> int \<Rightarrow> duration" where
  "CalculateDelay env config attempt =
     (case config of None \<Rightarrow> 0
      | Some c \<Rightarrow>
          if attempt \<le> 1 then 0
          else (let maxDelay = the_default (5 * time_Minute) (rc_maxDelay c);
                    delay = base_delay env c attempt;
                    delay = (if word_sless maxDelay delay then maxDelay else delay) in
                case re_jitter env of None \<Rightarrow> delay | Some f \<Rightarrow> f delay))"

definition MaxAttempts :: "retry_config option \<Rightarrow> int" where
  "MaxAttempts config =
     (case config of None \<Rightarrow> 1 | Some c \<Rightarrow> if rc_maxAttempts c < 1 then 1 else rc_maxAttempts c)"

subsection \<open>The decision to retry\<close>

definition evaluateRetryCondition ::
  "retry_env \<Rightarrow> retry_config \<Rightarrow> string \<Rightarrow> go_error \<Rightarrow> int \<Rightarrow> go_error + bool" where
  "evaluateRetryCondition env c expr err attempt =
     (case re_cel env expr
             [(''__error'', ec_ToMap (NewErrorContext err attempt (MaxAttempts (Some c))))] of
        Inl m \<Rightarrow> Inl (new_error (''failed to evaluate retryIf expression: '' @ m))
      | Inr (VBool b) \<Rightarrow> Inr b
      | Inr v \<Rightarrow> Inl (new_error (''retryIf expression must return boolean, got '' @ re_type env v)))"

definition ShouldRetry ::
  "retry_env \<Rightarrow> retry_config option \<Rightarrow> ctx_err option \<Rightarrow> go_error option \<Rightarrow> int \<Rightarrow> go_error + bool" where
  "ShouldRetry env config ctx err attempt =
     (case err of None \<Rightarrow> Inr False
      | Some e \<Rightarrow>
     (case config of None \<Rightarrow> Inr False
      | Some c \<Rightarrow>
          if attempt \<ge> MaxAttempts config then Inr False
          else if ctx \<noteq> None then Inr False
          else (case rc_retryIf c of
                  Some expr \<Rightarrow> evaluateRetryCondition env c expr e attempt
                | None \<Rightarrow> Inr True)))"

subsection \<open>The retry loop\<close>

record 'o attempt_obs =
  ao_before :: "ctx_err option"
  ao_delay :: "ctx_err option"
  ao_result :: "go_error + 'o"
  ao_after :: "ctx_err option"

datatype retry_event = Notified int go_error | Waited duration | Executed int

record 'o retry_outcome =
  ro_result :: "go_error + 'o"
  ro_attempts :: int
  ro_log :: "retry_event list"

definition attempts_failed :: "int \<Rightarrow> go_error \<Rightarrow> go_error" where
  "attempts_failed n e =
     wrap_error (''action failed after '' @ decimal (nat n) @ '' attempt(s): '') e"

definition condition_failed :: "go_error \<Rightarrow> go_error \<Rightarrow> go_error" where
  "condition_failed re e =
     wrap_two (''action failed and retryIf evaluation failed: '' @ er_msg re @
       '' (original error: '' @ er_msg e @ '')'') re e"

text \<open>
  The head of an attempt: the check of the context, the notification and the wait.  \<open>Inl\<close> is
  the error of a cancelled run.
\<close>

definition begin_attempt ::
  "retry_env \<Rightarrow> retry_config option \<Rightarrow> 'o attempt_obs \<Rightarrow> int \<Rightarrow> go_error option \<Rightarrow> retry_event list \<Rightarrow>
   (go_error \<times> retry_event list) + retry_event list" where
  "begin_attempt env config obs attempt lastErr log =
     (case ao_before obs of
        Some c \<Rightarrow> Inl (wrap_error ''execution cancelled: '' (ctx_error c), log)
      | None \<Rightarrow>
          if attempt > 1
          then (let delay = CalculateDelay env config attempt;
                    log = (case lastErr of None \<Rightarrow> log | Some e \<Rightarrow> log @ [Notified attempt e]) in
                if word_sless 0 delay
                then (case ao_delay obs of
                        Some c \<Rightarrow> Inl (wrap_error ''execution cancelled during retry delay: '' (ctx_error c), log)
                      | None \<Rightarrow> Inr (log @ [Waited delay]))
                else Inr log)
          else Inr log)"

text \<open>The loop from \<open>attempt\<close> on, with \<open>left\<close> attempts left.\<close>

fun retry_loop ::
  "retry_env \<Rightarrow> retry_config option \<Rightarrow> (nat \<Rightarrow> 'o attempt_obs) \<Rightarrow> nat \<Rightarrow> int \<Rightarrow> go_error option \<Rightarrow>
   retry_event list \<Rightarrow> 'o retry_outcome" where
  "retry_loop env config obs 0 attempt lastErr log =
     \<lparr>ro_result = Inl (attempts_failed (MaxAttempts config) (the_default (new_error ''%!w(<nil>)'') lastErr)),
      ro_attempts = MaxAttempts config, ro_log = log\<rparr>"
| "retry_loop env config obs (Suc left) attempt lastErr log =
     (let o1 = obs (nat attempt) in
      case begin_attempt env config o1 attempt lastErr log of
        Inl (e, log') \<Rightarrow> \<lparr>ro_result = Inl e, ro_attempts = attempt - 1, ro_log = log'\<rparr>
      | Inr log' \<Rightarrow>
          (let log2 = log' @ [Executed attempt] in
           case ao_result o1 of
             Inr out \<Rightarrow> \<lparr>ro_result = Inr out, ro_attempts = attempt, ro_log = log2\<rparr>
           | Inl err \<Rightarrow>
               (case ShouldRetry env config (ao_after o1) (Some err) attempt of
                  Inl re \<Rightarrow> \<lparr>ro_result = Inl (condition_failed re err), ro_attempts = attempt, ro_log = log2\<rparr>
                | Inr False \<Rightarrow> \<lparr>ro_result = Inl (attempts_failed attempt err), ro_attempts = attempt, ro_log = log2\<rparr>
                | Inr True \<Rightarrow> retry_loop env config obs left (attempt + 1) (Some err) log2)))"

definition ExecuteWithRetry ::
  "retry_env \<Rightarrow> retry_config option \<Rightarrow> (nat \<Rightarrow> 'o attempt_obs) \<Rightarrow> 'o retry_outcome" where
  "ExecuteWithRetry env config obs = retry_loop env config obs (nat (MaxAttempts config)) 1 None []"

text \<open>\<open>ExecuteWithRetryDetailed\<close>, which collects the errors.\<close>

record 'o retry_result =
  rr_output :: "'o option"
  rr_attempts :: int
  rr_finalError :: "go_error option"
  rr_attemptErrors :: "go_error list"

fun detailed_loop ::
  "retry_env \<Rightarrow> retry_config option \<Rightarrow> (nat \<Rightarrow> 'o attempt_obs) \<Rightarrow> nat \<Rightarrow> int \<Rightarrow> 'o retry_result \<Rightarrow> 'o retry_result"
where
  "detailed_loop env config obs 0 attempt res = res"
| "detailed_loop env config obs (Suc left) attempt res =
     (let o1 = obs (nat attempt) in
      case begin_attempt env config o1 attempt (rr_finalError res) [] of
        Inl (e, _) \<Rightarrow> res\<lparr>rr_finalError := Some e, rr_attempts := attempt\<rparr>
      | Inr _ \<Rightarrow>
          (case ao_result o1 of
             Inr out \<Rightarrow> res\<lparr>rr_attempts := attempt, rr_output := Some out, rr_finalError := None\<rparr>
           | Inl err \<Rightarrow>
               (let res = res\<lparr>rr_attempts := attempt, rr_finalError := Some err,
                              rr_attemptErrors := rr_attemptErrors res @ [err]\<rparr> in
                case ShouldRetry env config (ao_after o1) (Some err) attempt of
                  Inl re \<Rightarrow> res\<lparr>rr_finalError := Some (condition_failed re err)\<rparr>
                | Inr False \<Rightarrow> res
                | Inr True \<Rightarrow> detailed_loop env config obs left (attempt + 1) res)))"

definition ExecuteWithRetryDetailed ::
  "retry_env \<Rightarrow> retry_config option \<Rightarrow> (nat \<Rightarrow> 'o attempt_obs) \<Rightarrow> 'o retry_result" where
  "ExecuteWithRetryDetailed env config obs =
     detailed_loop env config obs (nat (MaxAttempts config)) 1
       \<lparr>rr_output = None, rr_attempts = 0, rr_finalError = None, rr_attemptErrors = []\<rparr>"

subsection \<open>Delays\<close>

lemma float64_exact: "\<bar>x\<bar> < 2 ^ 53 \<Longrightarrow> float64_of_int x = x"
proof -
  have bl: "bit_length n \<le> k" if "n < 2 ^ k" for n k
    using that
  proof (induction n arbitrary: k rule: bit_length.induct)
    case (1 n)
    show ?case
    proof (cases "n = 0")
      case False
      with "1.prems" obtain k' where k: "k = Suc k'" by (cases k) auto
      with "1.prems" have "n div 2 < 2 ^ k'" by auto
      from "1.IH" [OF False this] k False show ?thesis by (subst bit_length.simps) simp
    qed (simp add: bit_length.simps)
  qed
  assume "\<bar>x\<bar> < 2 ^ 53"
  then have "nat \<bar>x\<bar> < 2 ^ 53" by (simp add: nat_less_iff)
  from bl [OF this] show ?thesis by (simp add: float64_of_int_def Let_def)
qed

lemma exponential_delay_exact:
  assumes "0 \<le> sint d" "sint d < 2 ^ 53" "sint d * 2 ^ k < 2 ^ 63" "sint d \<noteq> 0"
  shows "sint (exponential_delay env d k) = sint d * 2 ^ k"
proof -
  have f: "float64_of_int (sint d) = sint d" using assms by (intro float64_exact) simp
  have nn: "0 \<le> sint d * 2 ^ k" using assms by simp
  then have lo: "- (2 ^ 63) \<le> sint d * 2 ^ k" by (rule order_trans [rotated]) simp
  have e: "exponential_delay env d k = word_of_int (sint d * 2 ^ k)"
    using assms lo by (simp add: exponential_delay_def f Let_def del: of_int_mult)
  have "sint (word_of_int (sint d * 2 ^ k) :: duration) = signed_take_bit 63 (sint d * 2 ^ k)"
    by (simp add: sint_sbintrunc' del: of_int_mult)
  also have "\<dots> = sint d * 2 ^ k" using nn assms(3) by (intro signed_take_bit_int_eq_self) auto
  finally show ?thesis unfolding e .
qed

lemma sint_product:
  assumes "- (2 ^ 63) \<le> sint (d :: duration) * n" "sint d * n < 2 ^ 63"
  shows "sint (d * word_of_int n) = sint d * n"
proof -
  have "d * word_of_int n = word_of_int (sint d * n)"
    by (simp add: of_int_sint)
  moreover have "sint (word_of_int (sint d * n) :: duration) = signed_take_bit 63 (sint d * n)"
    by (simp add: sint_sbintrunc' del: of_int_mult)
  ultimately have "sint (d * word_of_int n) = signed_take_bit 63 (sint d * n)" by (simp only:)
  also have "\<dots> = sint d * n" using assms by (intro signed_take_bit_int_eq_self) auto
  finally show ?thesis .
qed

text \<open>The product the backoff promises, before the cap.\<close>

fun nominal_delay :: "backoff \<Rightarrow> int \<Rightarrow> nat \<Rightarrow> int" where
  "nominal_delay BackoffLinear d k = d * int k"
| "nominal_delay BackoffExponential d k = d * 2 ^ (k - 1)"
| "nominal_delay _ d k = d"

abbreviation initial_delay :: "retry_config \<Rightarrow> duration" where
  "initial_delay c \<equiv> the_default time_Second (rc_initialDelay c)"

abbreviation max_delay :: "retry_config \<Rightarrow> duration" where
  "max_delay c \<equiv> the_default (5 * time_Minute) (rc_maxDelay c)"

lemma base_delay_nominal:
  assumes "0 < sint (initial_delay c)" "sint (initial_delay c) < 2 ^ 53" "0 < k"
    and "nominal_delay (rc_backoff c) (sint (initial_delay c)) k < 2 ^ 63"
  shows "sint (base_delay env c (int k + 1)) = nominal_delay (rc_backoff c) (sint (initial_delay c)) k"
proof (cases "rc_backoff c")
  case BackoffLinear
  let ?d = "sint (initial_delay c)"
  have "- (2 ^ 63) \<le> ?d * int k" by (rule order_trans [of _ 0]) (use assms in simp_all)
  then have "sint (initial_delay c * word_of_int (int k)) = ?d * int k"
    using assms BackoffLinear by (intro sint_product) simp_all
  with BackoffLinear show ?thesis by (simp add: base_delay_def backoff_OrDefault_def)
next
  case BackoffExponential
  have "nat (int k - 1) = k - 1" by simp
  moreover have "sint (exponential_delay env (initial_delay c) (k - 1)) = sint (initial_delay c) * 2 ^ (k - 1)"
    using assms BackoffExponential by (intro exponential_delay_exact) auto
  ultimately show ?thesis using BackoffExponential assms(3)
    by (simp add: base_delay_def backoff_OrDefault_def Let_def)
qed (simp_all add: base_delay_def backoff_OrDefault_def)

lemma delay_spec:
  assumes "0 < sint (initial_delay c)" "sint (initial_delay c) < 2 ^ 53" "0 < k"
    and "nominal_delay (rc_backoff c) (sint (initial_delay c)) k < 2 ^ 63"
    and "re_jitter env = None"
  shows "sint (CalculateDelay env (Some c) (int k + 1)) =
     min (nominal_delay (rc_backoff c) (sint (initial_delay c)) k) (sint (max_delay c))"
  using base_delay_nominal [OF assms(1-4), of env] assms(3,5)
  by (simp add: CalculateDelay_def Let_def word_sless_alt min_def)

lemma delay_capped:
  "re_jitter env = None \<Longrightarrow> 1 < attempt \<Longrightarrow> sint (CalculateDelay env (Some c) attempt) \<le> sint (max_delay c)"
  by (simp add: CalculateDelay_def Let_def word_sless_alt)

lemma nominal_delay_mono: "0 \<le> d \<Longrightarrow> 0 < k \<Longrightarrow> k \<le> m \<Longrightarrow> nominal_delay b d k \<le> nominal_delay b d m"
  by (cases b) (auto intro!: mult_left_mono power_increasing diff_le_mono)

lemma delay_mono:
  assumes "0 < sint (initial_delay c)" "sint (initial_delay c) < 2 ^ 53" "0 < k" "k \<le> m"
    and "nominal_delay (rc_backoff c) (sint (initial_delay c)) m < 2 ^ 63" "re_jitter env = None"
  shows "sint (CalculateDelay env (Some c) (int k + 1)) \<le> sint (CalculateDelay env (Some c) (int m + 1))"
proof -
  have le: "nominal_delay (rc_backoff c) (sint (initial_delay c)) k \<le> nominal_delay (rc_backoff c) (sint (initial_delay c)) m"
    using assms by (intro nominal_delay_mono) auto
  with assms have "sint (CalculateDelay env (Some c) (int k + 1)) =
     min (nominal_delay (rc_backoff c) (sint (initial_delay c)) k) (sint (max_delay c))"
    by (intro delay_spec) auto
  moreover from assms have "sint (CalculateDelay env (Some c) (int m + 1)) =
     min (nominal_delay (rc_backoff c) (sint (initial_delay c)) m) (sint (max_delay c))"
    by (intro delay_spec) auto
  ultimately show ?thesis using le by (simp add: min_le_iff_disj)
qed

subsection \<open>The retry loop\<close>

text \<open>Attempt \<open>j\<close> failed and is followed by another one.\<close>

definition attempt_again :: "retry_env \<Rightarrow> retry_config option \<Rightarrow> (nat \<Rightarrow> 'o attempt_obs) \<Rightarrow> nat \<Rightarrow> bool" where
  "attempt_again env config obs j =
     (ao_before (obs j) = None \<and>
      (1 < j \<and> word_sless 0 (CalculateDelay env config (int j)) \<longrightarrow> ao_delay (obs j) = None) \<and>
      (\<exists>e. ao_result (obs j) = Inl e \<and> ShouldRetry env config (ao_after (obs j)) (Some e) (int j) = Inr True))"

text \<open>What the loop returns when \<open>j\<close> is its last attempt.\<close>

definition attempt_end ::
  "retry_env \<Rightarrow> retry_config option \<Rightarrow> (nat \<Rightarrow> 'o attempt_obs) \<Rightarrow> nat \<Rightarrow> (go_error + 'o) \<times> int" where
  "attempt_end env config obs j =
     (case ao_before (obs j) of
        Some c \<Rightarrow> (Inl (wrap_error ''execution cancelled: '' (ctx_error c)), int j - 1)
      | None \<Rightarrow>
          (case (if 1 < j \<and> word_sless 0 (CalculateDelay env config (int j)) then ao_delay (obs j) else None) of
             Some c \<Rightarrow> (Inl (wrap_error ''execution cancelled during retry delay: '' (ctx_error c)), int j - 1)
           | None \<Rightarrow>
               (case ao_result (obs j) of
                  Inr out \<Rightarrow> (Inr out, int j)
                | Inl err \<Rightarrow>
                    (case ShouldRetry env config (ao_after (obs j)) (Some err) (int j) of
                       Inl re \<Rightarrow> (Inl (condition_failed re err), int j)
                     | Inr _ \<Rightarrow> (Inl (attempts_failed (int j) err), int j)))))"

lemma ShouldRetry_last: "MaxAttempts config \<le> n \<Longrightarrow> ShouldRetry env config ctx err n = Inr False"
  by (auto simp: ShouldRetry_def split: option.split)

lemma retry_loop_spec:
  assumes "MaxAttempts config = int j + int left - 1" "0 < left" "0 < j"
  shows "\<exists>n \<ge> j. n < j + left \<and> (\<forall>i \<in> {j..<n}. attempt_again env config obs i) \<and>
     \<not> attempt_again env config obs n \<and>
     (ro_result (retry_loop env config obs left (int j) lastErr log),
      ro_attempts (retry_loop env config obs left (int j) lastErr log)) = attempt_end env config obs n"
  using assms
proof (induction left arbitrary: j lastErr log)
  case (Suc left)
  show ?case
  proof (cases "attempt_again env config obs j")
    case True
    then have left: "0 < left" using Suc.prems ShouldRetry_last [of config "int j" env]
      by (cases left) (auto simp: attempt_again_def)
    from True obtain e where e: "ao_result (obs j) = Inl e"
        "ShouldRetry env config (ao_after (obs j)) (Some e) (int j) = Inr True"
      by (auto simp: attempt_again_def)
    from True obtain log1 where "begin_attempt env config (obs j) (int j) lastErr log = Inr log1"
      by (cases "begin_attempt env config (obs j) (int j) lastErr log")
        (auto simp: attempt_again_def begin_attempt_def Let_def split: option.splits if_splits)
    with e have step: "retry_loop env config obs (Suc left) (int j) lastErr log =
        retry_loop env config obs left (int (Suc j)) (Some e) (log1 @ [Executed (int j)])"
      by (simp add: Let_def add.commute)
    obtain n where n: "Suc j \<le> n" "n < Suc j + left" "\<forall>i \<in> {Suc j..<n}. attempt_again env config obs i"
       "\<not> attempt_again env config obs n"
       "(ro_result (retry_loop env config obs left (int (Suc j)) (Some e) (log1 @ [Executed (int j)])),
         ro_attempts (retry_loop env config obs left (int (Suc j)) (Some e) (log1 @ [Executed (int j)]))) = attempt_end env config obs n"
      using Suc.IH [of "Suc j" "Some e" "log1 @ [Executed (int j)]"] Suc.prems left by auto
    have "{j..<n} = insert j {Suc j..<n}" using n(1) by auto
    with n(3) True have "\<forall>i \<in> {j..<n}. attempt_again env config obs i" by simp
    then show ?thesis unfolding step using n by (intro exI [of _ n]) simp
  next
    case False
    then have "(ro_result (retry_loop env config obs (Suc left) (int j) lastErr log),
      ro_attempts (retry_loop env config obs (Suc left) (int j) lastErr log)) = attempt_end env config obs j"
      by (auto simp: attempt_again_def attempt_end_def begin_attempt_def Let_def split: option.split sum.split bool.split)
    with False show ?thesis by (intro exI [of _ j]) auto
  qed
qed simp

lemma MaxAttempts_pos: "1 \<le> MaxAttempts config"
  by (simp add: MaxAttempts_def split: option.split)

lemma ExecuteWithRetry_spec:
  "\<exists>n. 1 \<le> n \<and> int n \<le> MaxAttempts config \<and> (\<forall>i \<in> {1..<n}. attempt_again env config obs i) \<and>
     \<not> attempt_again env config obs n \<and>
     (ro_result (ExecuteWithRetry env config obs), ro_attempts (ExecuteWithRetry env config obs)) =
       attempt_end env config obs n"
proof -
  have "MaxAttempts config = int 1 + int (nat (MaxAttempts config)) - 1" "0 < nat (MaxAttempts config)"
    using MaxAttempts_pos [of config] by auto
  from retry_loop_spec [OF this, of env obs None "[]"]
  show ?thesis by (fastforce simp: ExecuteWithRetry_def)
qed

text \<open>The function runs once for every attempt reported.\<close>

definition executions :: "retry_event list \<Rightarrow> int list" where
  "executions log = concat (map (\<lambda>ev. case ev of Executed n \<Rightarrow> [n] | _ \<Rightarrow> []) log)"

lemma executions_append [simp]: "executions (a @ b) = executions a @ executions b"
  by (simp add: executions_def)

lemma begin_attempt_executions:
  "begin_attempt env config obs attempt lastErr log = Inr log' \<Longrightarrow> executions log' = executions log"
  "begin_attempt env config obs attempt lastErr log = Inl (e, log') \<Longrightarrow> executions log' = executions log"
  by (auto simp: begin_attempt_def Let_def executions_def split: option.splits if_splits)

lemma retry_loop_executions:
  assumes "MaxAttempts config = attempt + int left - 1" "0 < left"
  shows "attempt - 1 \<le> ro_attempts (retry_loop env config obs left attempt lastErr log) \<and>
    executions (ro_log (retry_loop env config obs left attempt lastErr log)) =
     executions log @ [attempt .. ro_attempts (retry_loop env config obs left attempt lastErr log)]"
  using assms
proof (induction left arbitrary: attempt lastErr log)
  case (Suc left)
  let ?o = "obs (nat attempt)"
  show ?case
  proof (cases "begin_attempt env config ?o attempt lastErr log")
    case (Inl x)
    obtain e log' where x: "x = (e, log')" by fastforce
    with begin_attempt_executions(2) Inl show ?thesis by (fastforce simp: Let_def)
  next
    case (Inr log')
    have l: "executions log' = executions log" by (rule begin_attempt_executions(1) [OF Inr])
    let ?log2 = "log' @ [Executed attempt]"
    have l2: "executions ?log2 = executions log @ [attempt]" by (simp add: l) (simp add: executions_def)
    show ?thesis
    proof (cases "\<exists>e. ao_result ?o = Inl e \<and> ShouldRetry env config (ao_after ?o) (Some e) attempt = Inr True")
      case True
      then obtain e where e: "ao_result ?o = Inl e" "ShouldRetry env config (ao_after ?o) (Some e) attempt = Inr True" by blast
      then have "0 < left" using Suc.prems ShouldRetry_last [of config attempt env] by (cases left) auto
      with Suc.IH [of "attempt + 1" "Some e" ?log2] Suc.prems l2 Inr e upto_rec1 [of attempt]
      show ?thesis by (auto simp: Let_def)
    next
      case False
      with Inr l2 show ?thesis by (auto simp: Let_def split: sum.split bool.split)
    qed
  qed
qed simp

lemma ExecuteWithRetry_executions:
  "executions (ro_log (ExecuteWithRetry env config obs)) = [1 .. ro_attempts (ExecuteWithRetry env config obs)]"
proof -
  have "MaxAttempts config = 1 + int (nat (MaxAttempts config)) - 1" "0 < nat (MaxAttempts config)"
    using MaxAttempts_pos [of config] by auto
  from retry_loop_executions [OF this, of env obs None "[]"]
  show ?thesis by (simp add: ExecuteWithRetry_def executions_def)
qed

text \<open>The detailed loop returns the same output after the same attempts.\<close>

lemma begin_attempt_log:
  "(\<exists>x. begin_attempt env config obs attempt lastErr log = Inl x) =
   (\<exists>x. begin_attempt env config obs attempt lastErr log' = Inl x)"
  by (auto simp: begin_attempt_def Let_def split: option.split)

lemma detailed_loop_output:
  "rr_output res = None \<Longrightarrow>
   rr_output (detailed_loop env config obs left attempt res) =
     (case ro_result (retry_loop env config obs left attempt lastErr log) of Inl _ \<Rightarrow> None | Inr x \<Rightarrow> Some x) \<and>
   (rr_output (detailed_loop env config obs left attempt res) \<noteq> None \<longrightarrow>
    rr_attempts (detailed_loop env config obs left attempt res) = ro_attempts (retry_loop env config obs left attempt lastErr log))"
proof (induction left arbitrary: attempt res lastErr log)
  case (Suc left)
  let ?o = "obs (nat attempt)"
  have same: "(\<exists>x. begin_attempt env config ?o attempt (rr_finalError res) [] = Inl x) =
     (\<exists>x. begin_attempt env config ?o attempt lastErr log = Inl x)"
    by (auto simp: begin_attempt_def Let_def split: option.split)
  show ?case
  proof (cases "begin_attempt env config ?o attempt lastErr log")
    case (Inl x)
    with same obtain y where "begin_attempt env config ?o attempt (rr_finalError res) [] = Inl y" by blast
    with Inl Suc.prems show ?thesis by (cases x; cases y) (simp add: Let_def)
  next
    case (Inr log')
    with same obtain y where y: "begin_attempt env config ?o attempt (rr_finalError res) [] = Inr y"
      by (cases "begin_attempt env config ?o attempt (rr_finalError res) []") auto
    show ?thesis
    proof (cases "\<exists>e. ao_result ?o = Inl e \<and> ShouldRetry env config (ao_after ?o) (Some e) attempt = Inr True")
      case True
      then obtain e where e: "ao_result ?o = Inl e"
        "ShouldRetry env config (ao_after ?o) (Some e) attempt = Inr True" by blast
      let ?res = "res\<lparr>rr_attempts := attempt, rr_finalError := Some e,
                      rr_attemptErrors := rr_attemptErrors res @ [e]\<rparr>"
      have "rr_output ?res = None" using Suc.prems by simp
      from Suc.IH [OF this, of "attempt + 1" "Some e" "log' @ [Executed attempt]"] Inr y e
      show ?thesis by (simp add: Let_def)
    next
      case False
      with Inr y Suc.prems show ?thesis by (auto simp: Let_def split: sum.split bool.split)
    qed
  qed
qed simp

lemma detailed_output:
  "rr_output (ExecuteWithRetryDetailed env config obs) =
     (case ro_result (ExecuteWithRetry env config obs) of Inl _ \<Rightarrow> None | Inr x \<Rightarrow> Some x)"
  "rr_output (ExecuteWithRetryDetailed env config obs) \<noteq> None \<Longrightarrow>
   rr_attempts (ExecuteWithRetryDetailed env config obs) = ro_attempts (ExecuteWithRetry env config obs)"
  unfolding ExecuteWithRetryDetailed_def ExecuteWithRetry_def
  using detailed_loop_output [of "\<lparr>rr_output = None, rr_attempts = 0, rr_finalError = None, rr_attemptErrors = []\<rparr>"
      env config obs "nat (MaxAttempts config)" 1 None "[]"] by simp_all

section \<open>Properties\<close>

text \<open>The delay before the retry number k is the initial delay times one, k or 2 to the k-1, by the
  strategy, capped by the maximal delay; this holds as long as the product fits 64 bits and the
  initial delay is below 2 to the 53 nanoseconds (104 days), where a float is exact.\<close>

theorem retry_delay:
  assumes "0 < sint (initial_delay c)" "sint (initial_delay c) < 2 ^ 53" "0 < k"
    and "nominal_delay (rc_backoff c) (sint (initial_delay c)) k < 2 ^ 63" "re_jitter env = None"
  shows "sint (CalculateDelay env (Some c) (int k + 1)) =
     min (nominal_delay (rc_backoff c) (sint (initial_delay c)) k) (sint (max_delay c))"
  by (rule delay_spec [OF assms])

definition sample_retry_env :: retry_env where
  "sample_retry_env = \<lparr>re_cel = (\<lambda>_ _. Inr (VBool True)), re_type = (\<lambda>_. ''value''), re_jitter = None,
     re_conv = (\<lambda>_. 0x8000000000000000)\<rparr>"

definition sample_retry :: "backoff \<Rightarrow> int \<Rightarrow> retry_config" where
  "sample_retry b n = \<lparr>rc_maxAttempts = n, rc_backoff = b, rc_initialDelay = None, rc_maxDelay = None, rc_retryIf = None\<rparr>"

theorem retry_delay_witness:
  "sint (CalculateDelay sample_retry_env (Some (sample_retry BackoffExponential 10)) 4) = 4000000000"
  using retry_delay [of "sample_retry BackoffExponential 10" 3 sample_retry_env]
  by (simp add: sample_retry_def sample_retry_env_def the_default_def time_Second_def time_Minute_def)

text \<open>Under the same bounds a later retry never waits shorter than an earlier one.\<close>

theorem retry_delay_monotone:
  assumes "0 < sint (initial_delay c)" "sint (initial_delay c) < 2 ^ 53" "0 < k" "k \<le> m"
    and "nominal_delay (rc_backoff c) (sint (initial_delay c)) m < 2 ^ 63" "re_jitter env = None"
  shows "sint (CalculateDelay env (Some c) (int k + 1)) \<le> sint (CalculateDelay env (Some c) (int m + 1))"
  by (rule delay_mono [OF assms])

theorem retry_delay_monotone_witness:
  "sint (CalculateDelay sample_retry_env (Some (sample_retry BackoffLinear 10)) 3)
     \<le> sint (CalculateDelay sample_retry_env (Some (sample_retry BackoffLinear 10)) 6)"
  using retry_delay_monotone [of "sample_retry BackoffLinear 10" 2 5 sample_retry_env]
  by (simp add: sample_retry_def sample_retry_env_def the_default_def time_Second_def)

text \<open>Beyond the bounds the exponential delay is not monotone: with the default delays and a conversion that
  gives the smallest integer for a float out of range (as on amd64), the wait before attempt 35 is
  the maximum of five minutes, and from attempt 36 on it is negative, which the loop treats as no
  wait at all.\<close>

theorem exponential_delay_collapses:
  "CalculateDelay sample_retry_env (Some (sample_retry BackoffExponential 100)) 35 = 5 * time_Minute \<and>
   list_all (\<lambda>k. \<not> word_sless 0 (CalculateDelay sample_retry_env (Some (sample_retry BackoffExponential 100)) (int k + 2)))
     [34 ..< 99]"
proof
  have f: "float64_of_int 1000000000 = 1000000000" by (rule float64_exact) simp
  show "CalculateDelay sample_retry_env (Some (sample_retry BackoffExponential 100)) 35 = 5 * time_Minute"
    by (simp add: CalculateDelay_def Let_def base_delay_def backoff_OrDefault_def exponential_delay_def
        the_default_def time_Second_def time_Minute_def f word_sless_alt sample_retry_def sample_retry_env_def)
  show "list_all (\<lambda>k. \<not> word_sless 0 (CalculateDelay sample_retry_env (Some (sample_retry BackoffExponential 100)) (int k + 2)))
     [34 ..< 99]"
    unfolding list_all_iff
  proof
    fix k :: nat assume "k \<in> set [34 ..< 99]"
    then have k: "34 \<le> k" "k < 99" unfolding set_upt by (simp_all only: atLeastLessThan_iff)
    then have "(2::int) ^ 34 \<le> 2 ^ k" by (intro power_increasing) simp_all
    then have "\<not> 1000000000 * 2 ^ k < (2 ^ 63 :: int)" "0 < 1000000000 * (2::int) ^ k" by simp_all
    then have "exponential_delay sample_retry_env time_Second k = 0x8000000000000000"
      using k by (simp add: exponential_delay_def Let_def time_Second_def f sample_retry_env_def)
    moreover have "nat (int k) = k" by simp
    ultimately show "\<not> word_sless 0 (CalculateDelay sample_retry_env (Some (sample_retry BackoffExponential 100)) (int k + 2))"
      by (simp add: CalculateDelay_def Let_def base_delay_def backoff_OrDefault_def the_default_def
          time_Minute_def word_sless_alt sample_retry_def) (simp add: sample_retry_env_def)
  qed
qed

text \<open>The retry loop stops at the first attempt that is not followed by another one, at the latest at the
  configured maximum, and returns what that attempt decides: the output of a success, the error of a
  cancellation, of a failed condition, or the last error with the number of attempts.\<close>

theorem retry_loop_result:
  "\<exists>n. 1 \<le> n \<and> int n \<le> MaxAttempts config \<and> (\<forall>i \<in> {1..<n}. attempt_again env config obs i) \<and>
     \<not> attempt_again env config obs n \<and>
     (ro_result (ExecuteWithRetry env config obs), ro_attempts (ExecuteWithRetry env config obs)) =
       attempt_end env config obs n"
  by (rule ExecuteWithRetry_spec)

theorem retry_loop_result_witness:
  "\<exists>n. 1 \<le> n \<and> int n \<le> MaxAttempts (Some (sample_retry BackoffFixed 3)) \<and>
     (ro_result (ExecuteWithRetry sample_retry_env (Some (sample_retry BackoffFixed 3)) (\<lambda>i.
        \<lparr>ao_before = None, ao_delay = None, ao_result = (if i < 2 then Inl (new_error ''busy'') else Inr i), ao_after = None\<rparr>)),
      ro_attempts (ExecuteWithRetry sample_retry_env (Some (sample_retry BackoffFixed 3)) (\<lambda>i.
        \<lparr>ao_before = None, ao_delay = None, ao_result = (if i < 2 then Inl (new_error ''busy'') else Inr i), ao_after = None\<rparr>)))
       = attempt_end sample_retry_env (Some (sample_retry BackoffFixed 3)) (\<lambda>i.
        \<lparr>ao_before = None, ao_delay = None, ao_result = (if i < 2 then Inl (new_error ''busy'') else Inr i), ao_after = None\<rparr>) n"
  using retry_loop_result [of "Some (sample_retry BackoffFixed 3)" sample_retry_env] by blast

text \<open>The function is executed once for each attempt reported, attempts one to the number returned; and the
  detailed variant returns the same output after the same attempts.\<close>

theorem retry_attempts_counted:
  "executions (ro_log (ExecuteWithRetry env config obs)) = [1 .. ro_attempts (ExecuteWithRetry env config obs)] \<and>
   rr_output (ExecuteWithRetryDetailed env config obs) =
     (case ro_result (ExecuteWithRetry env config obs) of Inl _ \<Rightarrow> None | Inr x \<Rightarrow> Some x) \<and>
   (rr_output (ExecuteWithRetryDetailed env config obs) = None \<or>
    rr_attempts (ExecuteWithRetryDetailed env config obs) = ro_attempts (ExecuteWithRetry env config obs))"
  using ExecuteWithRetry_executions [of env config obs] detailed_output [of env config obs] by blast

text \<open>When a run is cancelled before an attempt, the detailed variant counts that attempt although it was never
  made; the plain variant does not.\<close>

theorem detailed_attempts_overcount:
  "\<exists>obs :: nat \<Rightarrow> unit attempt_obs. rr_attempts (ExecuteWithRetryDetailed sample_retry_env None obs) = 1 \<and>
     ro_attempts (ExecuteWithRetry sample_retry_env None obs) = 0 \<and>
     executions (ro_log (ExecuteWithRetry sample_retry_env None obs)) = []"
  by (rule exI [of _ "\<lambda>_. \<lparr>ao_before = Some Canceled, ao_delay = None, ao_result = Inr (), ao_after = None\<rparr>"])
    (simp add: ExecuteWithRetryDetailed_def ExecuteWithRetry_def MaxAttempts_def begin_attempt_def executions_def)

end
