(* ===== verification/Call.thy ===== *)
theory Call
  imports Value_Ref
begin

text \<open>
  \<open>pkg/call\<close>: binding the arguments of a call (\<open>call.go\<close>) and the memo that
  de-duplicates identical calls of a run (\<open>memo.go\<close>).

  \<open>coerce\<close> stands for \<open>spec.CoerceType\<close> (target type, value) and \<open>json\<close> for the
  canonical JSON of the arguments; a Go error is its message.
\<close>

datatype call_error =
    NilDefinition
  | UnknownArgs "string list" "string list"
  | MissingArg string
  | BadArg string string string

definition ArgsNamespace :: string where "ArgsNamespace = ''args''"

definition declaredArgNames :: "call_def \<Rightarrow> string list" where
  "declaredArgNames def = sort (map_keys (cd_args def))"

definition checkUnknownArgs :: "call_def \<Rightarrow> gval gomap \<Rightarrow> call_error option" where
  "checkUnknownArgs def resolved =
     (let unknown = filter (\<lambda>n. \<not> map_has (cd_args def) n) (map_keys resolved) in
      if unknown = [] then None else Some (UnknownArgs (sort unknown) (declaredArgNames def)))"

definition argType :: "string \<Rightarrow> string" where
  "argType t = (if t = [] then ''any'' else t)"

definition empty_arg :: arg_def where
  "empty_arg = \<lparr>ad_type = [], ad_required = False, ad_default = VNil\<rparr>"

definition arg_definition :: "call_def \<Rightarrow> string \<Rightarrow> arg_def" where
  "arg_definition def n = (case map_get None (cd_args def) n of None \<Rightarrow> empty_arg | Some a \<Rightarrow> a)"

definition arg_value :: "arg_def \<Rightarrow> gval gomap \<Rightarrow> string \<Rightarrow> call_error + gval" where
  "arg_value a resolved n =
     (case map_of resolved n of
        Some v \<Rightarrow> Inr v
      | None \<Rightarrow>
          if ad_required a then Inl (MissingArg n)
          else if ad_default a \<noteq> VNil then Inr (ad_default a)
          else Inr VNil)"

fun bind_loop ::
  "(string \<Rightarrow> gval \<Rightarrow> string + gval) \<Rightarrow> call_def \<Rightarrow> gval gomap \<Rightarrow> string list \<Rightarrow> gval gomap \<Rightarrow>
   call_error + gval gomap" where
  "bind_loop coerce def resolved [] bound = Inr bound"
| "bind_loop coerce def resolved (n # ns) bound =
     (let a = arg_definition def n in
      case arg_value a resolved n of
        Inl e \<Rightarrow> Inl e
      | Inr v \<Rightarrow>
          (case coerce (ad_type a) v of
             Inl m \<Rightarrow> Inl (BadArg n (argType (ad_type a)) m)
           | Inr c \<Rightarrow> bind_loop coerce def resolved ns (map_put n c bound)))"

definition BindArgs ::
  "(string \<Rightarrow> gval \<Rightarrow> string + gval) \<Rightarrow> call_def option \<Rightarrow> gval gomap \<Rightarrow> call_error + gval gomap" where
  "BindArgs coerce d resolved =
     (case d of None \<Rightarrow> Inl NilDefinition
      | Some def \<Rightarrow>
          (case checkUnknownArgs def resolved of
             Some e \<Rightarrow> Inl e
           | None \<Rightarrow> bind_loop coerce def resolved (declaredArgNames def) []))"

definition ExpandData :: "gval gomap \<Rightarrow> gval gomap \<Rightarrow> gval gomap" where
  "ExpandData data bound = map_put ArgsNamespace (VMap bound) (put_all data [])"

definition DedupKey :: "(gval gomap \<Rightarrow> string + string) \<Rightarrow> string \<Rightarrow> gval gomap \<Rightarrow> string + string" where
  "DedupKey json n bound =
     (case json bound of
        Inl e \<Rightarrow> Inl (''call '' @ n @ '': failed to canonicalize args for dedup: '' @ e)
      | Inr s \<Rightarrow> Inr (n @ [CHR 0x00] @ s))"

subsection \<open>The memo\<close>

text \<open>
  An entry is the result of the one computation of its key; the mutex and the \<open>sync.Once\<close>
  make a call of \<open>Do\<close> atomic for the callers of its key.
\<close>

type_synonym ('e, 'v) memo = "(string \<times> ('e + 'v)) list"

definition memo_Do :: "string \<Rightarrow> ('e + 'v) \<Rightarrow> ('e, 'v) memo \<Rightarrow> ('e + 'v) \<times> ('e, 'v) memo" where
  "memo_Do key computed m =
     (case map_of m key of Some r \<Rightarrow> (r, m) | None \<Rightarrow> (computed, map_put key computed m))"

subsection \<open>Lemmas\<close>

lemma bind_loop_Inr:
  "bind_loop coerce def resolved ns bound = Inr out \<Longrightarrow> distinct ns \<Longrightarrow>
   (\<forall>n. if n \<in> set ns
        then \<exists>v. arg_value (arg_definition def n) resolved n = Inr v \<and>
             (\<exists>c. coerce (ad_type (arg_definition def n)) v = Inr c \<and> map_of out n = Some c)
        else map_of out n = map_of bound n)"
proof (induction ns arbitrary: bound)
  case (Cons n ns)
  then obtain v c where v: "arg_value (arg_definition def n) resolved n = Inr v"
    and c: "coerce (ad_type (arg_definition def n)) v = Inr c"
    and b: "bind_loop coerce def resolved ns (map_put n c bound) = Inr out"
    by (auto simp: Let_def split: sum.splits)
  from Cons.IH [OF b] Cons.prems(2)
  have IH: "\<forall>m. if m \<in> set ns
        then \<exists>v. arg_value (arg_definition def m) resolved m = Inr v \<and>
             (\<exists>c. coerce (ad_type (arg_definition def m)) v = Inr c \<and> map_of out m = Some c)
        else map_of out m = map_of (map_put n c bound) m" by simp
  show ?case
  proof
    fix m
    show "if m \<in> set (n # ns)
        then \<exists>v. arg_value (arg_definition def m) resolved m = Inr v \<and>
             (\<exists>c. coerce (ad_type (arg_definition def m)) v = Inr c \<and> map_of out m = Some c)
        else map_of out m = map_of bound m"
      using spec [OF IH, of m] v c Cons.prems(2) by (cases "m = n") (auto split: if_splits)
  qed
qed simp

lemma declaredArgNames_facts:
  "distinct (map_keys (cd_args def)) \<Longrightarrow> distinct (declaredArgNames def)"
  "set (declaredArgNames def) = set (map_keys (cd_args def))"
  by (simp_all add: declaredArgNames_def)

text \<open>A successful binding has exactly the declared arguments, each the coercion of its value.\<close>

lemma BindArgs_Inr:
  assumes "BindArgs coerce (Some def) resolved = Inr bound" "distinct (map_keys (cd_args def))"
  shows "dom (map_of bound) = dom (map_of (cd_args def))"
    and "dom (map_of resolved) \<subseteq> dom (map_of (cd_args def))"
    and "n \<in> dom (map_of (cd_args def)) \<Longrightarrow>
       \<exists>v. arg_value (arg_definition def n) resolved n = Inr v \<and>
           (\<exists>c. coerce (ad_type (arg_definition def n)) v = Inr c \<and> map_of bound n = Some c)"
proof -
  have u: "checkUnknownArgs def resolved = None"
    and b: "bind_loop coerce def resolved (declaredArgNames def) [] = Inr bound"
    using assms(1) by (auto simp: BindArgs_def split: option.splits)
  note spec = bind_loop_Inr [OF b declaredArgNames_facts(1) [OF assms(2)]]
  have keys: "m \<in> set (declaredArgNames def) \<longleftrightarrow> m \<in> dom (map_of (cd_args def))" for m
    by (simp add: declaredArgNames_facts map_keys_def dom_map_of_conv_image_fst)
  show "n \<in> dom (map_of (cd_args def)) \<Longrightarrow>
       \<exists>v. arg_value (arg_definition def n) resolved n = Inr v \<and>
           (\<exists>c. coerce (ad_type (arg_definition def n)) v = Inr c \<and> map_of bound n = Some c)"
    using spec keys by metis
  show "dom (map_of bound) = dom (map_of (cd_args def))"
  proof (rule set_eqI)
    fix m show "m \<in> dom (map_of bound) \<longleftrightarrow> m \<in> dom (map_of (cd_args def))"
      using spec [rule_format, of m] keys [of m]
      by (cases "m \<in> set (declaredArgNames def)") auto
  qed
  show "dom (map_of resolved) \<subseteq> dom (map_of (cd_args def))"
  proof
    fix m assume "m \<in> dom (map_of resolved)"
    then have "m \<in> set (map_keys resolved)" by (simp add: map_keys_def dom_map_of_conv_image_fst)
    with u show "m \<in> dom (map_of (cd_args def))"
      by (auto simp: checkUnknownArgs_def Let_def filter_empty_conv map_has_def split: if_splits)
  qed
qed

lemma bind_loop_missing:
  "bind_loop coerce def resolved ns bound = Inl (MissingArg n) \<Longrightarrow>
   n \<in> set ns \<and> ad_required (arg_definition def n) \<and> map_of resolved n = None"
  by (induction ns arbitrary: bound)
    (auto simp: Let_def arg_value_def split: sum.splits option.splits if_splits)

lemma BindArgs_missing:
  assumes "ad_required (arg_definition def n)" "n \<in> dom (map_of (cd_args def))" "map_of resolved n = None"
    and "distinct (map_keys (cd_args def))"
  shows "\<exists>e. BindArgs coerce (Some def) resolved = Inl e"
proof (cases "BindArgs coerce (Some def) resolved")
  case (Inr bound)
  from BindArgs_Inr(3) [OF this assms(4,2)] assms(1,3) show ?thesis by (simp add: arg_value_def)
qed simp

text \<open>The computation of a key happens once: what a later call computes is ignored.\<close>

lemma memo_Do_once:
  "memo_Do key b (snd (memo_Do key a m)) = (fst (memo_Do key a m), snd (memo_Do key a m))"
  by (simp add: memo_Do_def split: option.split)

lemma memo_Do_other: "k \<noteq> key \<Longrightarrow> map_of (snd (memo_Do key a m)) k = map_of m k"
  by (simp add: memo_Do_def split: option.split)

lemma ExpandData_lookup:
  "distinct (map_keys data) \<Longrightarrow>
   map_of (ExpandData data bound) k = (if k = ''args'' then Some (VMap bound) else map_of data k)"
proof -
  have "distinct (map fst xs) \<Longrightarrow> map_of (fold (\<lambda>(k, v) m. map_put k v m) xs m0) k =
      (case map_of xs k of None \<Rightarrow> map_of m0 k | Some v \<Rightarrow> Some v)"
    for xs :: "gval gomap" and m0
  proof (induction xs arbitrary: m0)
    case (Cons x xs)
    then have "map_of xs (fst x) = None" by (simp add: map_of_eq_None_iff)
    with Cons show ?case by (cases x) (auto split: option.split)
  qed simp
  moreover assume "distinct (map_keys data)"
  ultimately show ?thesis
    by (simp add: ExpandData_def ArgsNamespace_def put_all_def map_keys_def split: option.split)
qed

section \<open>Properties\<close>

text \<open>A successful binding has exactly the declared arguments, no undeclared argument was supplied, and each
  bound value is the coercion, to the declared type, of the supplied value, of the default or of nil.\<close>

theorem bound_arguments:
  assumes "BindArgs coerce (Some def) resolved = Inr bound" "distinct (map_keys (cd_args def))"
  shows "dom (map_of bound) = dom (map_of (cd_args def)) \<and> dom (map_of resolved) \<subseteq> dom (map_of (cd_args def)) \<and>
     (\<forall>n \<in> dom (map_of (cd_args def)). \<exists>v c.
        v = (case map_of resolved n of Some x \<Rightarrow> x | None \<Rightarrow> ad_default (arg_definition def n)) \<and>
        (map_of resolved n = None \<longrightarrow> \<not> ad_required (arg_definition def n)) \<and>
        coerce (ad_type (arg_definition def n)) v = Inr c \<and> map_of bound n = Some c)"
proof (intro conjI ballI)
  show "dom (map_of bound) = dom (map_of (cd_args def))" "dom (map_of resolved) \<subseteq> dom (map_of (cd_args def))"
    using BindArgs_Inr(1,2) [OF assms] .
  fix n assume "n \<in> dom (map_of (cd_args def))"
  from BindArgs_Inr(3) [OF assms this] show "\<exists>v c.
        v = (case map_of resolved n of Some x \<Rightarrow> x | None \<Rightarrow> ad_default (arg_definition def n)) \<and>
        (map_of resolved n = None \<longrightarrow> \<not> ad_required (arg_definition def n)) \<and>
        coerce (ad_type (arg_definition def n)) v = Inr c \<and> map_of bound n = Some c"
    by (auto simp: arg_value_def split: option.splits if_splits)
qed

theorem bound_arguments_witness:
  "\<exists>bound. BindArgs (\<lambda>_ v. Inr v) (Some \<lparr>cd_args = [(''x'', Some \<lparr>ad_type = ''int'', ad_required = True, ad_default = VNil\<rparr>),
       (''y'', None)], cd_provider = ''p'', cd_inputs = [], cd_dedup = False\<rparr>) [(''x'', VInt 1)] = Inr bound \<and>
     dom (map_of bound) = {''x'', ''y''}"
proof -
  let ?d = "\<lparr>cd_args = [(''x'', Some \<lparr>ad_type = ''int'', ad_required = True, ad_default = VNil\<rparr>), (''y'', None)],
     cd_provider = ''p'', cd_inputs = [], cd_dedup = False\<rparr>"
  let ?B = "BindArgs (\<lambda>_ v. Inr v) (Some ?d) [(''x'', VInt 1)]"
  have "\<not> isl ?B" by code_simp
  then obtain bound where b: "?B = Inr bound" by (cases ?B) auto
  have "distinct (map_keys (cd_args ?d))" by (simp add: map_keys_def)
  from bound_arguments [OF b this] b show ?thesis by (auto simp: dom_def)
qed

text \<open>The memo computes a key once: whatever a second call offers, it gets the first result and the memo stays.\<close>

theorem memo_computes_once:
  "memo_Do key b (snd (memo_Do key a m)) = (fst (memo_Do key a m), snd (memo_Do key a m))"
  by (rule memo_Do_once)

end
