(* ===== verification/Action_Exec.thy ===== *)
theory Action_Exec
  imports Action_Graph Action_Context Retry Call
begin

text \<open>
  \<open>pkg/action/executor.go\<close> and \<open>call.go\<close>: running the graph of a workflow.

  An action is a goroutine.  Its program is cut at the points where it touches the shared
  context: it reads the namespace, decides, and writes the entries of its own name one by
  one, each under the context's mutex.  What the world answers (the provider, the clock, the
  file fingerprints, the deadline) is an observation \<open>action_obs\<close> of the action.

  A section (\<open>executePhases\<close>) is a transition system: the main goroutine filters a phase and
  starts its goroutines, these pass the semaphore in any order and interleave their steps,
  the main goroutine collects the errors, and the context may be cancelled at any time.

  Parameters (\<open>exec_env\<close>): the engines of \<open>val_env\<close>, the provider registry (the capabilities
  of a provider), \<open>CoerceType\<close>, the JSON encoder, the schema validator, the text of a
  problem and of a time.
\<close>

datatype problem =
    ProbCond cond_error
  | ProbRef string ref_error
  | ProbDeferred string string
  | ProbCall call_error
  | ProbCallMissing string
  | ProbCallNil string string
  | ProbArg string string string
  | ProbTimeout duration

record prov_output =
  po_data :: gval
  po_streamed :: bool

record exec_env =
  xe_val :: val_env
  xe_retry :: retry_env
  xe_data :: "gval gomap"
  xe_execution :: "gval option"
  xe_cwd :: string
  xe_max :: int
  xe_timeout :: duration
  xe_schemaMode :: schema_mode
  xe_validate :: "nat \<Rightarrow> gval \<Rightarrow> go_error option"
  xe_rfc3339 :: "int \<Rightarrow> string"
  xe_registry :: "(string \<Rightarrow> string list option) option"
  xe_calls :: "call_def option gomap"
  xe_coerce :: "string \<Rightarrow> gval \<Rightarrow> string + gval"
  xe_json :: "gval gomap \<Rightarrow> string + string"
  xe_fingerprints :: bool
  xe_noCache :: bool
  xe_text :: "problem \<Rightarrow> string"

definition problem_error :: "exec_env \<Rightarrow> problem \<Rightarrow> go_error" where
  "problem_error env p = new_error (xe_text env p)"

subsection \<open>Continue on error\<close>

definition effectiveOnErrorPolicy :: "expanded_action \<Rightarrow> condition option \<times> error_behavior" where
  "effectiveOnErrorPolicy e =
     (case (if IsForEachIteration_action e then a_forEach (ea_action e) else None) of
        Some fe \<Rightarrow>
          (if fe_continueOnError fe \<noteq> None \<or> fe_onError fe \<noteq> OnErrorUnset
           then (fe_continueOnError fe, fe_onError fe)
           else (a_continueOnError (ea_action e), a_onError (ea_action e)))
      | None \<Rightarrow> (a_continueOnError (ea_action e), a_onError (ea_action e)))"

definition onError_OrDefault :: "error_behavior \<Rightarrow> error_behavior" where
  "onError_OrDefault b = (if b = OnErrorUnset then OnErrorFail else b)"

definition continueOnErrorVars :: "expanded_action \<Rightarrow> go_error option \<Rightarrow> int \<Rightarrow> int \<Rightarrow> gval gomap" where
  "continueOnErrorVars e err attempt maxAttempts =
     (let vars = (case err of None \<Rightarrow> []
                  | Some x \<Rightarrow> [(''__error'', ec_ToMap (NewErrorContext x attempt maxAttempts))]) in
      case ea_forEach e of
        None \<Rightarrow> vars
      | Some m \<Rightarrow>
          (let vars = map_put ''__index'' (VInt (int (fm_index m))) (map_put ''__item'' (fm_item m) vars) in
           case a_forEach (ea_action e) of
             None \<Rightarrow> vars
           | Some fe \<Rightarrow> put_alias (fe_index fe) (VInt (int (fm_index m))) (put_alias (fe_item fe) (fm_item m) vars)))"

definition actionShouldContinue ::
  "exec_env \<Rightarrow> expanded_action \<Rightarrow> go_error option \<Rightarrow> int \<Rightarrow> int \<Rightarrow> go_error + bool" where
  "actionShouldContinue env e err attempt maxAttempts =
     (let (c, fallback) = effectiveOnErrorPolicy e in
      case (case c of None \<Rightarrow> None | Some k \<Rightarrow> c_expr k) of
        Some expr \<Rightarrow>
          (case ve_cel (xe_val env) expr (xe_data env) (continueOnErrorVars e err attempt maxAttempts) of
             Inl m \<Rightarrow> Inl (new_error (''continueOnError condition evaluation failed: '' @ m))
           | Inr (VBool b) \<Rightarrow> Inr b
           | Inr v \<Rightarrow> Inl (new_error (''continueOnError condition must evaluate to boolean, got '' @
                                     re_type (xe_retry env) v)))
      | None \<Rightarrow> Inr (onError_OrDefault fallback = OnErrorContinue))"

subsection \<open>Variables and inputs\<close>

definition buildAdditionalVars :: "exec_env \<Rightarrow> string gomap \<Rightarrow> action_ctx \<Rightarrow> gval gomap" where
  "buildAdditionalVars env aliases c =
     (let ns = GetNamespace (xe_rfc3339 env) c;
          vars = [(''__actions'', VMap ns), (''__cwd'', VStr (xe_cwd env))];
          vars = (case xe_execution env of None \<Rightarrow> vars | Some x \<Rightarrow> map_put ''__execution'' x vars) in
      fold (\<lambda>(alias, n) m. case map_of ns n of None \<Rightarrow> m | Some d \<Rightarrow> map_put alias d m) aliases vars)"

text \<open>\<open>DeferredValue.Evaluate\<close>; every value of \<open>ea_deferred\<close> is deferred.\<close>

definition deferred_Evaluate ::
  "val_env \<Rightarrow> gval gomap \<Rightarrow> gval gomap \<Rightarrow> deferred_value \<Rightarrow> string + gval" where
  "deferred_Evaluate env data vars d =
     (if dv_expr d \<noteq> []
      then lift_err (\<lambda>m. ''failed to evaluate deferred expression: '' @ m) (ve_cel env (dv_expr d) data vars)
      else if dv_tmpl d \<noteq> []
      then lift_err (\<lambda>m. ''failed to execute deferred template: '' @ m)
             (ve_exec env (dv_tmpl d) (put_all vars (put_all data [])))
      else Inl ''deferred value has no expression or template'')"

fun resolve_deferred ::
  "exec_env \<Rightarrow> gval gomap \<Rightarrow> deferred_value gomap \<Rightarrow> gval gomap \<Rightarrow> problem + gval gomap" where
  "resolve_deferred env vars [] inputs = Inr inputs"
| "resolve_deferred env vars ((n, d) # ds) inputs =
     (case deferred_Evaluate (xe_val env) (xe_data env) vars d of
        Inl m \<Rightarrow> Inl (ProbDeferred n m)
      | Inr v \<Rightarrow> resolve_deferred env vars ds (map_put n v inputs))"

definition resolveInputs :: "exec_env \<Rightarrow> expanded_action \<Rightarrow> string gomap \<Rightarrow> action_ctx \<Rightarrow> problem + gval gomap" where
  "resolveInputs env e aliases c =
     (let inputs = put_all (ea_materialized e) [] in
      if ea_deferred e \<noteq> []
      then resolve_deferred env (buildAdditionalVars env aliases c) (ea_deferred e) inputs
      else Inr inputs)"

subsection \<open>Calls\<close>

record call_plan =
  cp_provider :: string
  cp_inputs :: "gval gomap"
  cp_dedup :: "string option"

definition resolveArgRef ::
  "exec_env \<Rightarrow> gval gomap \<Rightarrow> string \<Rightarrow> string \<Rightarrow> value_ref \<Rightarrow> problem + gval" where
  "resolveArgRef env vars callName n r =
     (if ReferencesVariable (xe_val env) (Some r) ''__actions''
      then (case r of
              RefExpr x \<Rightarrow> lift_err (ProbArg callName n) (ve_cel (xe_val env) x (xe_data env) vars)
            | RefTmpl t \<Rightarrow> lift_err (ProbArg callName n)
                (ve_exec (xe_val env) t (put_all vars (put_all (xe_data env) [])))
            | _ \<Rightarrow> Inl (ProbArg callName n
                         ''argument references __actions but is not an expression or template''))
      else lift_err (ProbRef n) (ref_Resolve (xe_val env) (xe_data env) VNil (Some r)))"

fun resolve_args ::
  "exec_env \<Rightarrow> gval gomap \<Rightarrow> string \<Rightarrow> value_ref option gomap \<Rightarrow> gval gomap \<Rightarrow> problem + gval gomap" where
  "resolve_args env vars callName [] out = Inr out"
| "resolve_args env vars callName ((n, None) # as) out = Inl (ProbCallNil callName n)"
| "resolve_args env vars callName ((n, Some r) # as) out =
     (case resolveArgRef env vars callName n r of
        Inl p \<Rightarrow> Inl p
      | Inr v \<Rightarrow> resolve_args env vars callName as (map_put n v out))"

fun resolve_call_inputs ::
  "exec_env \<Rightarrow> gval gomap \<Rightarrow> string \<Rightarrow> value_ref option gomap \<Rightarrow> gval gomap \<Rightarrow> problem + gval gomap" where
  "resolve_call_inputs env data callName [] out = Inr out"
| "resolve_call_inputs env data callName ((n, None) # as) out = Inl (ProbCallNil callName n)"
| "resolve_call_inputs env data callName ((n, Some r) # as) out =
     (case ref_Resolve (xe_val env) data VNil (Some r) of
        Inl x \<Rightarrow> Inl (ProbRef n x)
      | Inr v \<Rightarrow> resolve_call_inputs env data callName as (map_put n v out))"

definition expandActionCall ::
  "exec_env \<Rightarrow> expanded_action \<Rightarrow> string gomap \<Rightarrow> action_ctx \<Rightarrow> problem + call_plan" where
  "expandActionCall env e aliases c =
     (let callName = a_call (ea_action e) in
      case map_get None (xe_calls env) callName of
        None \<Rightarrow> Inl (ProbCallMissing callName)
      | Some def \<Rightarrow>
     (case resolve_args env (buildAdditionalVars env aliases c) callName (a_args (ea_action e)) [] of
        Inl p \<Rightarrow> Inl p
      | Inr args \<Rightarrow>
     (case BindArgs (xe_coerce env) (Some def) args of
        Inl x \<Rightarrow> Inl (ProbCall x)
      | Inr bound \<Rightarrow>
     (case resolve_call_inputs env (ExpandData (xe_data env) bound) callName (cd_inputs def) [] of
        Inl p \<Rightarrow> Inl p
      | Inr inputs \<Rightarrow>
          Inr \<lparr>cp_provider = cd_provider def, cp_inputs = inputs,
               cp_dedup = (if cd_dedup def
                           then (case DedupKey (xe_json env) callName bound of Inl _ \<Rightarrow> None | Inr k \<Rightarrow> Some k)
                           else None)\<rparr>))))"

subsection \<open>One action\<close>

datatype fp_check = FpInvalid string | FpFailed string | FpFresh | FpStale

record action_obs =
  ob_files :: fp_check
  ob_inputs :: fp_check
  ob_attempts :: "nat \<Rightarrow> prov_output option attempt_obs"
  ob_done :: "ctx_err option"

text \<open>The writes of an action to its own entry of the context.\<close>

datatype ctx_write =
    WSkipped skip_reason | WFailed string | WRunning "gval gomap" | WAttempts int
  | WTimeout | WSucceeded gval | WStreamed

fun apply_write :: "int \<Rightarrow> string \<Rightarrow> ctx_write \<Rightarrow> action_ctx \<Rightarrow> action_ctx" where
  "apply_write now n (WSkipped s) c = MarkSkipped now n s c"
| "apply_write now n (WFailed m) c = MarkFailed now n m c"
| "apply_write now n (WRunning i) c = MarkRunning now n i c"
| "apply_write now n (WAttempts k) c = RecordAttempts n k c"
| "apply_write now n WTimeout c = MarkTimeout now n c"
| "apply_write now n (WSucceeded v) c = MarkSucceeded now n v c"
| "apply_write now n WStreamed c = MarkStreamed n c"

definition apply_writes :: "int \<Rightarrow> string \<Rightarrow> ctx_write list \<Rightarrow> action_ctx \<Rightarrow> action_ctx" where
  "apply_writes now n ws c = fold (apply_write now n) ws c"

text \<open>The condition: \<open>Inl\<close> the last writes and the error returned, \<open>Inr\<close> to go on.\<close>

definition check_when ::
  "exec_env \<Rightarrow> string gomap \<Rightarrow> expanded_action \<Rightarrow> action_ctx \<Rightarrow> (ctx_write list \<times> go_error option) + unit" where
  "check_when env aliases e c =
     (if ea_whenSkipped e then Inl ([WSkipped SkipCondition], None)
      else (case a_when (ea_action e) of
              None \<Rightarrow> Inr ()
            | Some w \<Rightarrow>
                (case EvaluateWithAdditionalVars (xe_val env) (Some w) (xe_data env) (buildAdditionalVars env aliases c) of
                   Inl x \<Rightarrow> (let err = problem_error env (ProbCond x) in
                             Inl ([WFailed (''condition evaluation failed: '' @ er_msg err)], Some err))
                 | Inr False \<Rightarrow> Inl ([WSkipped SkipCondition], None)
                 | Inr True \<Rightarrow> Inr ())))"

text \<open>The fingerprints and the inputs: \<open>Inr\<close> is the provider, its inputs and the memo key.\<close>

definition files_fresh :: "exec_env \<Rightarrow> expanded_action \<Rightarrow> action_obs \<Rightarrow> string + bool" where
  "files_fresh env e obs =
     (if xe_fingerprints env \<and> \<not> xe_noCache env \<and> a_sources (ea_action e) \<noteq> []
      then (case ob_files obs of
              FpInvalid m \<Rightarrow> Inl m | FpFailed _ \<Rightarrow> Inr False | FpFresh \<Rightarrow> Inr True | FpStale \<Rightarrow> Inr False)
      else Inr False)"

definition provider_inputs ::
  "exec_env \<Rightarrow> string gomap \<Rightarrow> expanded_action \<Rightarrow> action_ctx \<Rightarrow> problem + call_plan" where
  "provider_inputs env aliases e c =
     (if a_call (ea_action e) \<noteq> [] then expandActionCall env e aliases c
      else (case resolveInputs env e aliases c of
              Inl p \<Rightarrow> Inl p
            | Inr i \<Rightarrow> Inr \<lparr>cp_provider = a_provider (ea_action e), cp_inputs = i, cp_dedup = None\<rparr>))"

definition prepare ::
  "exec_env \<Rightarrow> string gomap \<Rightarrow> expanded_action \<Rightarrow> action_obs \<Rightarrow> action_ctx \<Rightarrow>
   (ctx_write list \<times> go_error option) + call_plan" where
  "prepare env aliases e obs c =
     (case files_fresh env e obs of
        Inl m \<Rightarrow> Inl ([WFailed (''invalid sources/generates pattern: '' @ m)], Some (new_error m))
      | Inr fresh \<Rightarrow>
          (case provider_inputs env aliases e c of
             Inl p \<Rightarrow> (let err = problem_error env p in
                       Inl ([WFailed (''input resolution failed: '' @ er_msg err)], Some err))
           | Inr plan \<Rightarrow>
               if fresh \<and> (fingerprintScope (ea_action e) = ScopeFiles \<or> ob_inputs obs = FpFresh)
               then Inl ([WSkipped SkipUpToDate], None)
               else Inr plan))"

text \<open>
  \<open>callProvider\<close> on the registry; \<open>r\<close> is what the provider returns when it is called.
\<close>

definition callProvider ::
  "exec_env \<Rightarrow> string \<Rightarrow> go_error + prov_output option \<Rightarrow> go_error + prov_output option" where
  "callProvider env p r =
     (case xe_registry env of
        None \<Rightarrow> Inl (new_error ''no provider registry configured'')
      | Some reg \<Rightarrow>
          (case reg p of
             None \<Rightarrow> Inl (new_error (''provider '' @ quoted p @ '' not found''))
           | Some caps \<Rightarrow>
               if ''action'' \<notin> set caps
               then Inl (new_error (''provider '' @ quoted p @ '' does not support action capability''))
               else r))"

type_synonym run_memo = "(go_error, prov_output option) memo"

text \<open>The attempts of an action: with a memo key they all get the result of the key.\<close>

definition run_attempts ::
  "exec_env \<Rightarrow> call_plan \<Rightarrow> action_obs \<Rightarrow> run_memo \<Rightarrow> nat \<Rightarrow> prov_output option attempt_obs" where
  "run_attempts env plan obs memo i =
     (let o1 = ob_attempts obs i; r = callProvider env (cp_provider plan) (ao_result o1) in
      case cp_dedup plan of
        None \<Rightarrow> o1\<lparr>ao_result := r\<rparr>
      | Some key \<Rightarrow>
          o1\<lparr>ao_result := fst (memo_Do key (callProvider env (cp_provider plan) (ao_result (ob_attempts obs 1))) memo)\<rparr>)"

definition memo_after ::
  "exec_env \<Rightarrow> call_plan \<Rightarrow> action_obs \<Rightarrow> int \<Rightarrow> run_memo \<Rightarrow> run_memo" where
  "memo_after env plan obs attempts memo =
     (case cp_dedup plan of
        None \<Rightarrow> memo
      | Some key \<Rightarrow>
          if 1 \<le> attempts
          then snd (memo_Do key (callProvider env (cp_provider plan) (ao_result (ob_attempts obs 1))) memo)
          else memo)"

definition fail_action ::
  "exec_env \<Rightarrow> expanded_action \<Rightarrow> go_error \<Rightarrow> go_error \<Rightarrow> int \<Rightarrow> ctx_write list \<times> go_error option" where
  "fail_action env e err returned attempts =
     (case actionShouldContinue env e (Some err) attempts (MaxAttempts (a_retry (ea_action e))) of
        Inl de \<Rightarrow> ([WAttempts attempts, WFailed (er_msg err)], Some (errors_Join returned de))
      | Inr True \<Rightarrow> ([WAttempts attempts, WFailed (er_msg err)], None)
      | Inr False \<Rightarrow> ([WAttempts attempts, WFailed (er_msg err)], Some returned))"

definition effective_schemaMode :: "exec_env \<Rightarrow> expanded_action \<Rightarrow> schema_mode" where
  "effective_schemaMode env e =
     schema_OrDefault (if a_schemaMode (ea_action e) = SchemaUnset then xe_schemaMode env
                       else a_schemaMode (ea_action e))"

definition schema_failure :: "exec_env \<Rightarrow> expanded_action \<Rightarrow> gval \<Rightarrow> go_error option" where
  "schema_failure env e results =
     (case a_schema (ea_action e) of
        None \<Rightarrow> None
      | Some s \<Rightarrow> if effective_schemaMode env e = SchemaError then xe_validate env s results else None)"

definition action_timeout :: "exec_env \<Rightarrow> expanded_action \<Rightarrow> duration" where
  "action_timeout env e = the_default (xe_timeout env) (a_timeout (ea_action e))"

text \<open>From the attempts to the last writes and the error returned.\<close>

definition finish_action ::
  "exec_env \<Rightarrow> expanded_action \<Rightarrow> action_obs \<Rightarrow> prov_output option retry_outcome \<Rightarrow>
   ctx_write list \<times> go_error option" where
  "finish_action env e obs out =
     (let k = ro_attempts out in
      if ob_done obs = Some DeadlineExceeded
      then ([WAttempts k, WTimeout], Some (problem_error env (ProbTimeout (action_timeout env e))))
      else (case ro_result out of
              Inl err \<Rightarrow> fail_action env e err err k
            | Inr po \<Rightarrow>
                (let results = (case po of None \<Rightarrow> VNil | Some p \<Rightarrow> po_data p) in
                 case schema_failure env e results of
                   Some v \<Rightarrow> fail_action env e v (wrap_error ''result schema validation failed: '' v) k
                 | None \<Rightarrow>
                     ([WAttempts k, WSucceeded results] @
                        (case po of Some p \<Rightarrow> if po_streamed p then [WStreamed] else [] | None \<Rightarrow> []), None))))"

definition run_provider ::
  "exec_env \<Rightarrow> expanded_action \<Rightarrow> call_plan \<Rightarrow> action_obs \<Rightarrow> run_memo \<Rightarrow>
   (ctx_write list \<times> go_error option) \<times> run_memo" where
  "run_provider env e plan obs memo =
     (let out = ExecuteWithRetry (xe_retry env) (a_retry (ea_action e)) (run_attempts env plan obs memo) in
      (finish_action env e obs out, memo_after env plan obs (ro_attempts out) memo))"

text \<open>\<open>executeAction\<close> without interference: the three parts one after the other.\<close>

definition executeAction ::
  "exec_env \<Rightarrow> action_graph \<Rightarrow> string \<Rightarrow> int \<Rightarrow> action_obs \<Rightarrow> action_ctx \<Rightarrow> run_memo \<Rightarrow>
   go_error option \<times> action_ctx \<times> run_memo" where
  "executeAction env g n now obs c memo =
     (case map_of (ag_actions g) n of
        None \<Rightarrow> (Some (new_error ''action not found in graph''), c, memo)
      | Some e \<Rightarrow>
          (case check_when env (ag_aliases g) e c of
             Inl (ws, err) \<Rightarrow> (err, apply_writes now n ws c, memo)
           | Inr _ \<Rightarrow>
               (case prepare env (ag_aliases g) e obs c of
                  Inl (ws, err) \<Rightarrow> (err, apply_writes now n ws c, memo)
                | Inr plan \<Rightarrow>
                    (let c = MarkRunning now n (cp_inputs plan) c;
                         ((ws, err), memo) = run_provider env e plan obs memo in
                     (err, apply_writes now n ws c, memo)))))"

subsection \<open>A section\<close>

text \<open>The goroutine of an action.\<close>

datatype gpc =
    Queued
  | Abandoning
  | Entered
  | Preparing
  | Writing "ctx_write list" gpc
  | Invoking call_plan
  | Ended "go_error option"

datatype section_state =
    Between nat
  | Running nat "string list" "string \<Rightarrow> gpc"
  | Over "go_error option"

record section_cfg =
  sc_state :: section_state
  sc_ctx :: action_ctx
  sc_memo :: run_memo
  sc_cancel :: "ctx_err option"
  sc_cancellable :: bool

datatype choice =
    CBegin int                    \<comment> \<open>the main goroutine starts the next phase\<close>
  | CAcquire string               \<comment> \<open>a goroutine passes the semaphore\<close>
  | CAbandon string               \<comment> \<open>a queued goroutine sees the cancellation\<close>
  | CStep string action_obs int   \<comment> \<open>a goroutine makes its next step\<close>
  | CCollect string int           \<comment> \<open>all have ended; the first error is that of the name\<close>
  | CCancel ctx_err               \<comment> \<open>the context is cancelled\<close>

text \<open>The filter of \<open>executePhase\<close>: the names to run, and the context with the others skipped.\<close>

definition dep_failed :: "expanded_action \<Rightarrow> action_ctx \<Rightarrow> bool" where
  "dep_failed e c =
     (\<exists>d \<in> set (ea_dependencies e).
        case GetResult c d of None \<Rightarrow> False | Some r \<Rightarrow> failed_status (ar_status r))"

fun phase_filter ::
  "int \<Rightarrow> action_graph \<Rightarrow> string list \<Rightarrow> action_ctx \<Rightarrow> string list \<times> action_ctx" where
  "phase_filter now g [] c = ([], c)"
| "phase_filter now g (n # ns) c =
     (case map_of (ag_actions g) n of
        None \<Rightarrow> phase_filter now g ns c
      | Some e \<Rightarrow>
          if dep_failed e c then phase_filter now g ns (MarkSkipped now n SkipDependencyFailed c)
          else (let (run, c') = phase_filter now g ns c in (n # run, c')))"

definition sem_limit :: "exec_env \<Rightarrow> string list \<Rightarrow> nat" where
  "sem_limit env run =
     (if 0 < xe_max env \<and> int (length run) > xe_max env then nat (xe_max env) else length run)"

fun holding :: "gpc \<Rightarrow> bool" where
  "holding Queued = False"
| "holding Abandoning = False"
| "holding (Ended _) = False"
| "holding _ = True"

definition holders :: "string list \<Rightarrow> (string \<Rightarrow> gpc) \<Rightarrow> nat" where
  "holders run pcs = length (filter (\<lambda>n. holding (pcs n)) run)"

fun gpc_error :: "gpc \<Rightarrow> go_error option" where
  "gpc_error (Ended e) = e"
| "gpc_error _ = None"

fun has_ended :: "gpc \<Rightarrow> bool" where
  "has_ended (Ended _) = True"
| "has_ended _ = False"

text \<open>The step of a goroutine that holds the semaphore, or has given up waiting for it.\<close>

fun goroutine_step ::
  "exec_env \<Rightarrow> action_graph \<Rightarrow> string \<Rightarrow> action_obs \<Rightarrow> int \<Rightarrow> gpc \<Rightarrow> action_ctx \<Rightarrow> run_memo \<Rightarrow>
   (gpc \<times> action_ctx \<times> run_memo) option" where
  "goroutine_step env g n obs now Entered c memo =
     (case map_of (ag_actions g) n of
        None \<Rightarrow> Some (Ended (Some (new_error ''action not found in graph'')), c, memo)
      | Some e \<Rightarrow>
          (case check_when env (ag_aliases g) e c of
             Inl (ws, err) \<Rightarrow> Some (Writing ws (Ended err), c, memo)
           | Inr _ \<Rightarrow> Some (Preparing, c, memo)))"
| "goroutine_step env g n obs now Preparing c memo =
     (case map_of (ag_actions g) n of
        None \<Rightarrow> None
      | Some e \<Rightarrow>
          (case prepare env (ag_aliases g) e obs c of
             Inl (ws, err) \<Rightarrow> Some (Writing ws (Ended err), c, memo)
           | Inr plan \<Rightarrow> Some (Writing [WRunning (cp_inputs plan)] (Invoking plan), c, memo)))"
| "goroutine_step env g n obs now Abandoning c memo = Some (Ended None, MarkCancelled now n c, memo)"
| "goroutine_step env g n obs now (Writing [] k) c memo = Some (k, c, memo)"
| "goroutine_step env g n obs now (Writing (w # ws) k) c memo = Some (Writing ws k, apply_write now n w c, memo)"
| "goroutine_step env g n obs now (Invoking plan) c memo =
     (case map_of (ag_actions g) n of
        None \<Rightarrow> None
      | Some e \<Rightarrow>
          (let ((ws, err), memo') = run_provider env e plan obs memo in
           Some (Writing ws (Ended err), c, memo')))"
| "goroutine_step env g n obs now _ c memo = None"

text \<open>The errors of a phase: does every failed action of it let the workflow continue?\<close>

definition action_continues :: "exec_env \<Rightarrow> action_graph \<Rightarrow> action_ctx \<Rightarrow> string \<Rightarrow> bool" where
  "action_continues env g c n =
     (case map_of (ag_actions g) n of
        None \<Rightarrow> True
      | Some e \<Rightarrow>
          (case GetResult c n of
             None \<Rightarrow> True
           | Some r \<Rightarrow>
               if ar_error r = [] then True
               else (let attempts = (if ar_attempts r > 0 then ar_attempts r else 1) in
                     case actionShouldContinue env e (Some (new_error (ar_error r))) attempts
                            (MaxAttempts (a_retry (ea_action e))) of
                       Inl _ \<Rightarrow> False | Inr b \<Rightarrow> b)))"

definition skip_remaining :: "int \<Rightarrow> string list list \<Rightarrow> action_ctx \<Rightarrow> action_ctx" where
  "skip_remaining now phases c = fold (\<lambda>n. MarkSkipped now n SkipDependencyFailed) (concat phases) c"

definition cancel_phase :: "int \<Rightarrow> string list \<Rightarrow> action_ctx \<Rightarrow> action_ctx" where
  "cancel_phase now phase c = fold (MarkCancelled now) phase c"

definition phase_error :: "string \<Rightarrow> go_error \<Rightarrow> go_error" where
  "phase_error n e = wrap_error ''phase execution failed: '' (wrap_error (''action '' @ quoted n @ '': '') e)"

definition after_phase ::
  "exec_env \<Rightarrow> action_graph \<Rightarrow> string list list \<Rightarrow> nat \<Rightarrow> go_error \<Rightarrow> int \<Rightarrow> action_ctx \<Rightarrow>
   section_state \<times> action_ctx" where
  "after_phase env g phases k err now c =
     (if list_all (action_continues env g c) (phases ! k) then (Between (Suc k), c)
      else (Over (Some err), skip_remaining now (drop (Suc k) phases) c))"

text \<open>A transition of the section; \<open>None\<close> when the choice is not possible.\<close>

fun section_step ::
  "exec_env \<Rightarrow> action_graph \<Rightarrow> string list list \<Rightarrow> choice \<Rightarrow> section_cfg \<Rightarrow> section_cfg option" where
  "section_step env g phases (CCancel x) s =
     (if sc_cancellable s \<and> sc_cancel s = None then Some (s\<lparr>sc_cancel := Some x\<rparr>) else None)"
| "section_step env g phases (CBegin now) s =
     (case sc_state s of
        Between k \<Rightarrow>
          (if k \<ge> length phases then Some (s\<lparr>sc_state := Over None\<rparr>)
           else (case sc_cancel s of
                   Some x \<Rightarrow> Some (s\<lparr>sc_state := Over (Some (ctx_error x)),
                                    sc_ctx := cancel_phase now (phases ! k) (sc_ctx s)\<rparr>)
                 | None \<Rightarrow>
                     (let (run, c) = phase_filter now g (phases ! k) (sc_ctx s) in
                      Some (s\<lparr>sc_state := Running k run (\<lambda>_. Queued), sc_ctx := c\<rparr>))))
      | _ \<Rightarrow> None)"
| "section_step env g phases (CAcquire n) s =
     (case sc_state s of
        Running k run pcs \<Rightarrow>
          (if n \<in> set run \<and> pcs n = Queued \<and> holders run pcs < sem_limit env run
           then Some (s\<lparr>sc_state := Running k run (pcs(n := Entered))\<rparr>) else None)
      | _ \<Rightarrow> None)"
| "section_step env g phases (CAbandon n) s =
     (case sc_state s of
        Running k run pcs \<Rightarrow>
          (if n \<in> set run \<and> pcs n = Queued \<and> sc_cancel s \<noteq> None
           then Some (s\<lparr>sc_state := Running k run (pcs(n := Abandoning))\<rparr>) else None)
      | _ \<Rightarrow> None)"
| "section_step env g phases (CStep n obs now) s =
     (case sc_state s of
        Running k run pcs \<Rightarrow>
          (if n \<in> set run
           then (case goroutine_step env g n obs now (pcs n) (sc_ctx s) (sc_memo s) of
                   None \<Rightarrow> None
                 | Some (p, c, memo) \<Rightarrow>
                     Some (s\<lparr>sc_state := Running k run (pcs(n := p)), sc_ctx := c, sc_memo := memo\<rparr>))
           else None)
      | _ \<Rightarrow> None)"
| "section_step env g phases (CCollect n now) s =
     (case sc_state s of
        Running k run pcs \<Rightarrow>
          (if list_all (\<lambda>m. has_ended (pcs m)) run
           then (if list_all (\<lambda>m. gpc_error (pcs m) = None) run
                 then Some (s\<lparr>sc_state := Between (Suc k)\<rparr>)
                 else if n \<in> set run
                 then (case gpc_error (pcs n) of
                         None \<Rightarrow> None
                       | Some e \<Rightarrow>
                           (let (st, c) = after_phase env g phases k (phase_error n e) now (sc_ctx s) in
                            Some (s\<lparr>sc_state := st, sc_ctx := c\<rparr>)))
                 else None)
           else None)
      | _ \<Rightarrow> None)"

inductive section_reach ::
  "exec_env \<Rightarrow> action_graph \<Rightarrow> string list list \<Rightarrow> section_cfg \<Rightarrow> section_cfg \<Rightarrow> bool"
  for env g phases s0 where
  reach_start: "section_reach env g phases s0 s0"
| reach_step: "section_reach env g phases s0 s \<Longrightarrow> section_step env g phases ch s = Some s' \<Longrightarrow>
     section_reach env g phases s0 s'"

text \<open>\<open>executePhases\<close>: from the first phase to its return value.\<close>

definition section_start :: "action_ctx \<Rightarrow> run_memo \<Rightarrow> ctx_err option \<Rightarrow> bool \<Rightarrow> section_cfg" where
  "section_start c memo x cancellable =
     \<lparr>sc_state = Between 0, sc_ctx = c, sc_memo = memo, sc_cancel = x, sc_cancellable = cancellable\<rparr>"

definition executePhases ::
  "exec_env \<Rightarrow> action_graph \<Rightarrow> string list list \<Rightarrow> section_cfg \<Rightarrow> go_error option \<Rightarrow> section_cfg \<Rightarrow> bool" where
  "executePhases env g phases s err s' =
     (section_reach env g phases s s' \<and> sc_state s' = Over err)"

subsection \<open>A workflow\<close>

datatype execution_status = ExecutionSucceeded | ExecutionFailed | ExecutionCancelled | ExecutionPartialSuccess

record execution_result =
  er_actions :: "action_result gomap"
  er_finalStatus :: execution_status
  er_failed :: "string list"
  er_skipped :: "string list"

fun collect_results :: "action_ctx \<Rightarrow> string list \<Rightarrow> execution_result \<Rightarrow> execution_result" where
  "collect_results c [] r = r"
| "collect_results c (n # ns) r =
     (case GetResult c n of
        None \<Rightarrow> collect_results c ns r
      | Some ar \<Rightarrow>
          (let r = r\<lparr>er_actions := map_put n ar (er_actions r)\<rparr>;
               r = (if failed_status (ar_status ar) then r\<lparr>er_failed := er_failed r @ [n]\<rparr>
                    else if ar_status ar = StatusSkipped then r\<lparr>er_skipped := er_skipped r @ [n]\<rparr>
                    else r) in
           collect_results c ns r))"

definition determineFinalStatus ::
  "bool \<Rightarrow> go_error option \<Rightarrow> go_error option \<Rightarrow> execution_result \<Rightarrow> execution_status" where
  "determineFinalStatus cancelled mainErr finallyErr r =
     (if cancelled then ExecutionCancelled
      else if er_failed r = [] \<and> mainErr = None \<and> finallyErr = None then ExecutionSucceeded
      else if mainErr = None \<and> er_failed r \<noteq> [] then ExecutionPartialSuccess
      else ExecutionFailed)"

definition empty_execution :: execution_result where
  "empty_execution = \<lparr>er_actions = [], er_finalStatus = ExecutionSucceeded, er_failed = [], er_skipped = []\<rparr>"

text \<open>The context of the finally section: the background context when the run is cancelled.\<close>

definition finally_start :: "section_cfg \<Rightarrow> section_cfg" where
  "finally_start s =
     (if sc_cancel s = None then section_start (sc_ctx s) (sc_memo s) None (sc_cancellable s)
      else section_start (sc_ctx s) (sc_memo s) None False)"

definition finish_execution ::
  "(string list \<Rightarrow> nat) \<Rightarrow> action_graph \<Rightarrow> action_ctx \<Rightarrow> bool \<Rightarrow> go_error option \<Rightarrow> go_error option \<Rightarrow>
   execution_result \<times> go_error option" where
  "finish_execution pick g c cancelled mainErr finallyErr =
     (let r = collect_results c (range_set pick (map_keys (ag_actions g))) empty_execution;
          r = r\<lparr>er_finalStatus := determineFinalStatus cancelled mainErr finallyErr r\<rparr> in
      (r, if mainErr \<noteq> None \<and> er_finalStatus r = ExecutionFailed then mainErr else None))"

text \<open>
  \<open>Execute\<close>: the workflow run from a context \<open>c\<close>; \<open>cancelled\<close> is the state of the caller's
  context at the end, which a run cannot leave before.
\<close>

inductive Execute ::
  "exec_env \<Rightarrow> (string list \<Rightarrow> nat) \<Rightarrow> action_ctx \<Rightarrow> workflow option \<Rightarrow>
   graph_error + (execution_result \<times> go_error option \<times> action_ctx) \<Rightarrow> bool"
  for env pick c where
  execute_nil: "Execute env pick c None (Inl NilWorkflow)"
| execute_graph: "BuildGraph (xe_val env) False (Some w) (xe_data env) = Inl e \<Longrightarrow>
     Execute env pick c (Some w) (Inl e)"
| execute_main: "BuildGraph (xe_val env) False (Some w) (xe_data env) = Inr g \<Longrightarrow> ag_finally g = [] \<Longrightarrow>
     executePhases (env\<lparr>xe_schemaMode := w_schemaMode w\<rparr>) g (ag_order g) (section_start c [] x True) mainErr s1 \<Longrightarrow>
     (sc_cancel s1 \<noteq> None \<longrightarrow> cancelled) \<Longrightarrow>
     finish_execution pick g (sc_ctx s1) cancelled mainErr None = (r, err) \<Longrightarrow>
     Execute env pick c (Some w) (Inr (r, err, sc_ctx s1))"
| execute_both: "BuildGraph (xe_val env) False (Some w) (xe_data env) = Inr g \<Longrightarrow> ag_finally g \<noteq> [] \<Longrightarrow>
     executePhases (env\<lparr>xe_schemaMode := w_schemaMode w\<rparr>) g (ag_order g) (section_start c [] x True) mainErr s1 \<Longrightarrow>
     executePhases (env\<lparr>xe_schemaMode := w_schemaMode w\<rparr>) g (ag_finally g) (finally_start s1) finallyErr s2 \<Longrightarrow>
     (sc_cancel s1 \<noteq> None \<or> sc_cancel s2 \<noteq> None \<longrightarrow> cancelled) \<Longrightarrow>
     finish_execution pick g (sc_ctx s2) cancelled mainErr finallyErr = (r, err) \<Longrightarrow>
     Execute env pick c (Some w) (Inr (r, err, sc_ctx s2))"

end
