(* ===== verification/Action_Run.thy ===== *)
theory Action_Run
  imports Action_Exec
begin

text \<open>
  Lemmas on the execution of a graph: what an action leaves in the context, the invariant of
  a section, its progress and its termination.
\<close>

subsection \<open>The writes of an action\<close>

fun wr_status :: "ctx_write \<Rightarrow> status option \<Rightarrow> status option" where
  "wr_status (WSkipped _) st = Some StatusSkipped"
| "wr_status (WFailed _) st = Some StatusFailed"
| "wr_status (WRunning _) st = Some StatusRunning"
| "wr_status (WAttempts _) st = st"
| "wr_status WTimeout st = Some StatusTimeout"
| "wr_status (WSucceeded _) st = Some StatusSucceeded"
| "wr_status WStreamed st = st"

definition wr_statuses :: "ctx_write list \<Rightarrow> status option \<Rightarrow> status option" where
  "wr_statuses ws st = fold wr_status ws st"

definition terminal :: "status option \<Rightarrow> bool" where
  "terminal st = (\<exists>s. st = Some s \<and> IsTerminal s)"

text \<open>A final status of a run: an action is cancelled only if the run is.\<close>

definition final :: "ctx_err option \<Rightarrow> status option \<Rightarrow> bool" where
  "final x st = (terminal st \<and> (st = Some StatusCancelled \<longrightarrow> x \<noteq> None))"

lemma terminal_simps [simp]:
  "terminal (Some StatusSkipped)" "terminal (Some StatusFailed)" "terminal (Some StatusTimeout)"
  "terminal (Some StatusSucceeded)" "terminal (Some StatusCancelled)"
  "\<not> terminal None" "\<not> terminal (Some StatusRunning)" "\<not> terminal (Some StatusPending)"
  by (simp_all add: terminal_def IsTerminal_def)

lemma status_apply_write:
  "status_of (apply_write now n w c) m = (if m = n then wr_status w (status_of c n) else status_of c m)"
  by (cases w) simp_all

lemma apply_write_other: "m \<noteq> n \<Longrightarrow> GetResult (apply_write now n w c) m = GetResult c m"
  by (cases w) simp_all

lemma status_apply_writes:
  "status_of (apply_writes now n ws c) n = wr_statuses ws (status_of c n)"
  by (induction ws arbitrary: c) (simp_all add: apply_writes_def wr_statuses_def status_apply_write)

lemma apply_writes_other: "m \<noteq> n \<Longrightarrow> GetResult (apply_writes now n ws c) m = GetResult c m"
  by (induction ws arbitrary: c) (simp_all add: apply_writes_def apply_write_other)

lemma final_simps [simp]:
  "final x (Some StatusSkipped)" "final x (Some StatusFailed)" "final x (Some StatusTimeout)"
  "final x (Some StatusSucceeded)" "final x (Some StatusCancelled) = (x \<noteq> None)"
  "\<not> final x None"
  by (simp_all add: final_def)

lemma final_mono: "final None st \<Longrightarrow> final x st"
  by (auto simp: final_def)

text \<open>Every way an action ends leaves a final status.\<close>

lemma check_when_terminal:
  "check_when env al e c = Inl (ws, err) \<Longrightarrow> final x (wr_statuses ws st) \<and> length ws = 1"
  by (auto simp: check_when_def Let_def wr_statuses_def
      split: if_splits option.splits sum.splits bool.splits)

lemma prepare_terminal:
  "prepare env al e obs c = Inl (ws, err) \<Longrightarrow> final x (wr_statuses ws st) \<and> length ws = 1"
  by (auto simp: prepare_def Let_def wr_statuses_def split: if_splits sum.splits)

lemma fail_action_writes:
  "fst (fail_action env e err ret k) = [WAttempts k, WFailed (er_msg err)]"
  by (simp add: fail_action_def split: sum.split bool.split)

lemma finish_terminal:
  "finish_action env e obs out = (ws, err) \<Longrightarrow> final x (wr_statuses ws st) \<and> length ws \<le> 3"
proof -
  assume a: "finish_action env e obs out = (ws, err)"
  have f: "fail_action env e er ret k = (ws, err) \<Longrightarrow> ws = [WAttempts k, WFailed (er_msg er)]" for er ret k
    using fail_action_writes [of env e er ret k] by simp
  from a show ?thesis
    by (auto simp: finish_action_def Let_def wr_statuses_def dest!: f
        split: if_splits sum.splits option.splits)
qed

lemma run_provider_terminal:
  "run_provider env e plan obs memo = ((ws, err), memo') \<Longrightarrow> final x (wr_statuses ws st) \<and> length ws \<le> 3"
  by (auto simp: run_provider_def Let_def dest: finish_terminal)

subsection \<open>The goroutines\<close>

fun pc_ok :: "ctx_err option \<Rightarrow> gpc \<Rightarrow> status option \<Rightarrow> bool" where
  "pc_ok x (Ended _) st = final x st"
| "pc_ok x (Writing ws k) st = pc_ok x k (wr_statuses ws st)"
| "pc_ok x (Invoking _) st = (st = Some StatusRunning)"
| "pc_ok x Abandoning st = (x \<noteq> None)"
| "pc_ok x _ st = True"

lemma pc_ok_mono: "pc_ok None p st \<Longrightarrow> pc_ok x p st"
  by (induction p arbitrary: st) (auto intro: final_mono)

fun pc_weight :: "gpc \<Rightarrow> nat" where
  "pc_weight (Ended _) = 0"
| "pc_weight (Writing ws k) = Suc (length ws) + pc_weight k"
| "pc_weight (Invoking _) = 5"
| "pc_weight Preparing = 8"
| "pc_weight Entered = 9"
| "pc_weight Queued = 10"
| "pc_weight Abandoning = 1"

lemma goroutine_step_facts:
  assumes "goroutine_step env g n obs now pc c memo = Some (pc', c', memo')"
    and "n \<in> dom (map_of (ag_actions g))" "pc_ok x pc (status_of c n)"
  shows "pc_ok x pc' (status_of c' n)" and "m \<noteq> n \<Longrightarrow> GetResult c' m = GetResult c m"
    and "pc_weight pc' < pc_weight pc" and "pc \<noteq> Queued" and "\<not> holding pc \<Longrightarrow> \<not> holding pc'"
proof -
  from assms(2) obtain e where e: "map_of (ag_actions g) n = Some e" by blast
  have "pc_ok x pc' (status_of c' n) \<and> (m \<noteq> n \<longrightarrow> GetResult c' m = GetResult c m) \<and> pc_weight pc' < pc_weight pc \<and>
      pc \<noteq> Queued \<and> (\<not> holding pc \<longrightarrow> \<not> holding pc')"
  proof (cases pc)
    case Queued
    with assms(1) show ?thesis by simp
  next
    case Abandoning
    with assms(1,3) show ?thesis by auto
  next
    case Entered
    with assms(1) e show ?thesis
      by (cases "check_when env (ag_aliases g) e c") (auto dest: check_when_terminal)
  next
    case Preparing
    with assms(1) e show ?thesis
      by (cases "prepare env (ag_aliases g) e obs c") (auto dest: prepare_terminal simp: wr_statuses_def)
  next
    case (Writing ws k)
    with assms(1,3) show ?thesis
      by (cases ws) (auto simp: wr_statuses_def status_apply_write apply_write_other)
  next
    case (Invoking plan)
    obtain ws err memo2 where r: "run_provider env e plan obs memo = ((ws, err), memo2)"
      by (metis prod.exhaust)
    with run_provider_terminal [OF r, of x "status_of c n"] Invoking assms(1) e show ?thesis by auto
  next
    case (Ended x)
    with assms(1) show ?thesis by simp
  qed
  then show "pc_ok x pc' (status_of c' n)" and "m \<noteq> n \<Longrightarrow> GetResult c' m = GetResult c m"
    and "pc_weight pc' < pc_weight pc" and "pc \<noteq> Queued" and "\<not> holding pc \<Longrightarrow> \<not> holding pc'"
    by simp_all
qed

lemma goroutine_can_step:
  assumes "n \<in> dom (map_of (ag_actions g))" "pc \<noteq> Queued" "\<not> has_ended pc"
  shows "\<exists>r. goroutine_step env g n obs now pc c memo = Some r"
proof -
  from assms(1) obtain e where e: "map_of (ag_actions g) n = Some e" by blast
  show ?thesis
  proof (cases pc)
    case (Writing ws k)
    then show ?thesis by (cases ws) simp_all
  qed (use e assms in \<open>auto split: sum.split prod.split\<close>)
qed

text \<open>Uninterrupted, the steps of a goroutine are \<open>executeAction\<close>.\<close>

inductive goroutine_run ::
  "exec_env \<Rightarrow> action_graph \<Rightarrow> string \<Rightarrow> action_obs \<Rightarrow> int \<Rightarrow> gpc \<times> action_ctx \<times> run_memo \<Rightarrow>
   gpc \<times> action_ctx \<times> run_memo \<Rightarrow> bool"
  for env g n obs now where
  run_refl: "goroutine_run env g n obs now x x"
| run_step: "goroutine_step env g n obs now pc c memo = Some y \<Longrightarrow> goroutine_run env g n obs now y z \<Longrightarrow>
     goroutine_run env g n obs now (pc, c, memo) z"

lemma run_writes:
  "goroutine_run env g n obs now (k, apply_writes now n ws c, memo) z \<Longrightarrow>
   goroutine_run env g n obs now (Writing ws k, c, memo) z"
  by (induction ws arbitrary: c) (auto simp: apply_writes_def intro: run_step)

lemma goroutine_executes:
  assumes "map_of (ag_actions g) n = Some e" "executeAction env g n now obs c memo = (err, c', memo')"
  shows "goroutine_run env g n obs now (Entered, c, memo) (Ended err, c', memo')"
proof (cases "check_when env (ag_aliases g) e c")
  case (Inl x)
  obtain ws er where x: "x = (ws, er)" by fastforce
  with Inl assms have "er = err" "c' = apply_writes now n ws c" "memo' = memo" by (auto simp: executeAction_def)
  then have "goroutine_run env g n obs now (Writing ws (Ended er), c, memo) (Ended err, c', memo')"
    by (intro run_writes) (simp add: run_refl)
  then show ?thesis by (rule run_step [rotated]) (simp add: assms(1) Inl x)
next
  case (Inr u)
  have "goroutine_run env g n obs now (Preparing, c, memo) (Ended err, c', memo')"
  proof (cases "prepare env (ag_aliases g) e obs c")
    case (Inl x)
    obtain ws er where x: "x = (ws, er)" by fastforce
    with Inl Inr assms have "er = err" "c' = apply_writes now n ws c" "memo' = memo" by (auto simp: executeAction_def)
    then have "goroutine_run env g n obs now (Writing ws (Ended er), c, memo) (Ended err, c', memo')"
      by (intro run_writes) (simp add: run_refl)
    then show ?thesis by (rule run_step [rotated]) (simp add: assms(1) Inl x)
  next
    case (Inr plan)
    obtain ws er memo2 where r: "run_provider env e plan obs memo = ((ws, er), memo2)" by (metis prod.exhaust)
    let ?c = "MarkRunning now n (cp_inputs plan) c"
    from r Inr \<open>check_when env (ag_aliases g) e c = Inr u\<close> assms
    have "er = err" "c' = apply_writes now n ws ?c" "memo' = memo2" by (auto simp: executeAction_def Let_def)
    then have "goroutine_run env g n obs now (Writing ws (Ended er), ?c, memo2) (Ended err, c', memo')"
      by (intro run_writes) (simp add: run_refl)
    then have "goroutine_run env g n obs now (Invoking plan, ?c, memo) (Ended err, c', memo')"
      by (rule run_step [rotated]) (simp add: assms(1) r)
    then have "goroutine_run env g n obs now (Writing [WRunning (cp_inputs plan)] (Invoking plan), c, memo) (Ended err, c', memo')"
      by (intro run_writes) (simp add: apply_writes_def)
    then show ?thesis by (rule run_step [rotated]) (simp add: assms(1) Inr)
  qed
  then show ?thesis by (rule run_step [rotated]) (simp add: assms(1) Inr)
qed

subsection \<open>The invariant of a section\<close>

definition action_deps :: "action_graph \<Rightarrow> string \<Rightarrow> string set" where
  "action_deps g n = (case map_of (ag_actions g) n of None \<Rightarrow> {} | Some ea \<Rightarrow> set (ea_dependencies ea))"

definition phases_ok :: "action_graph \<Rightarrow> string list list \<Rightarrow> bool" where
  "phases_ok g phases = (distinct (concat phases) \<and> deps_before (action_deps g) {} phases)"

definition real_names :: "action_graph \<Rightarrow> string set" where
  "real_names g = dom (map_of (ag_actions g))"

definition settled :: "action_graph \<Rightarrow> ctx_err option \<Rightarrow> action_ctx \<Rightarrow> string set \<Rightarrow> bool" where
  "settled g x c N = (\<forall>n \<in> N \<inter> real_names g. final x (status_of c n))"

definition names_before :: "string list list \<Rightarrow> nat \<Rightarrow> string set" where
  "names_before phases k = set (concat (take k phases))"

definition deps_unfailed :: "action_graph \<Rightarrow> action_ctx \<Rightarrow> string \<Rightarrow> bool" where
  "deps_unfailed g c n = (\<forall>d \<in> action_deps g n. \<forall>s. status_of c d = Some s \<longrightarrow> \<not> failed_status s)"

fun state_inv :: "exec_env \<Rightarrow> action_graph \<Rightarrow> string list list \<Rightarrow> ctx_err option \<Rightarrow> action_ctx \<Rightarrow> section_state \<Rightarrow> bool" where
  "state_inv env g phases x c (Between k) = (k \<le> length phases \<and> settled g x c (names_before phases k))"
| "state_inv env g phases x c (Running k run pcs) =
     (k < length phases \<and> settled g x c (names_before phases k) \<and>
      set run \<subseteq> set (phases ! k) \<inter> real_names g \<and> distinct run \<and>
      settled g x c (set (phases ! k) - set run) \<and>
      (\<forall>n \<in> set run. pc_ok x (pcs n) (status_of c n) \<and> deps_unfailed g c n) \<and>
      holders run pcs \<le> sem_limit env run)"
| "state_inv env g phases x c (Over r) = (x = None \<or> r = None \<longrightarrow> settled g x c (set (concat phases)))"

definition section_inv :: "exec_env \<Rightarrow> action_graph \<Rightarrow> string list list \<Rightarrow> section_cfg \<Rightarrow> bool" where
  "section_inv env g phases s = state_inv env g phases (sc_cancel s) (sc_ctx s) (sc_state s)"

lemma settled_other:
  "settled g x c N \<Longrightarrow> (\<And>m. m \<in> N \<Longrightarrow> GetResult c' m = GetResult c m) \<Longrightarrow> settled g x c' N"
  by (auto simp: settled_def status_of_def)

lemma settled_Un: "settled g x c (A \<union> B) = (settled g x c A \<and> settled g x c B)"
  by (auto simp: settled_def)

lemma deps_unfailed_alt:
  "map_of (ag_actions g) n = Some e \<Longrightarrow> deps_unfailed g c n = (\<not> dep_failed e c)"
  by (auto simp: deps_unfailed_def dep_failed_def action_deps_def status_of_def split: option.splits)

lemma deps_before_take:
  "deps_before D S ps \<Longrightarrow> k < length ps \<Longrightarrow> n \<in> set (ps ! k) \<Longrightarrow> D n \<subseteq> S \<union> set (concat (take k ps))"
proof (induction ps arbitrary: S k)
  case (Cons p ps)
  then show ?case by (cases k) fastforce+
qed simp

lemma deps_in_earlier:
  "phases_ok g phases \<Longrightarrow> k < length phases \<Longrightarrow> n \<in> set (phases ! k) \<Longrightarrow>
   action_deps g n \<subseteq> names_before phases k"
  using deps_before_take [of "action_deps g" "{}" phases k n] by (simp add: phases_ok_def names_before_def)

lemma earlier_disjoint:
  assumes "phases_ok g phases" "k < length phases"
  shows "names_before phases k \<inter> set (phases ! k) = {}" "distinct (phases ! k)"
proof -
  have "concat phases = concat (take k phases) @ phases ! k @ concat (drop (Suc k) phases)"
    using assms(2) by (metis append.assoc concat.simps(2) concat_append id_take_nth_drop)
  then have "distinct (concat (take k phases) @ phases ! k @ concat (drop (Suc k) phases))"
    using assms(1) by (simp add: phases_ok_def)
  then show "names_before phases k \<inter> set (phases ! k) = {}" "distinct (phases ! k)"
    by (auto simp: names_before_def)
qed

lemma names_before_Suc:
  "k < length phases \<Longrightarrow> names_before phases (Suc k) = names_before phases k \<union> set (phases ! k)"
  by (auto simp: names_before_def take_Suc_conv_app_nth)

text \<open>The filter of a phase.\<close>

lemma phase_filter_spec:
  assumes "phase_filter now g ns c = (run, c')" "distinct ns" "\<And>n. n \<in> set ns \<Longrightarrow> action_deps g n \<inter> set ns = {}"
  shows "distinct run \<and> set run = {n \<in> set ns. n \<in> real_names g \<and> deps_unfailed g c n} \<and>
    (\<forall>n \<in> set ns - set run. n \<in> real_names g \<longrightarrow> status_of c' n = Some StatusSkipped) \<and>
    (\<forall>m. m \<notin> set ns - set run \<longrightarrow> GetResult c' m = GetResult c m)"
  using assms
proof (induction ns arbitrary: run c)
  case (Cons n ns)
  have d: "action_deps g m \<inter> set ns = {}" if "m \<in> set ns" for m using Cons.prems(3) that by auto
  have unf: "deps_unfailed g (MarkSkipped now n r c) m = deps_unfailed g c m" if "m \<in> set ns" for m r
    using Cons.prems(3) [of m] that by (auto simp: deps_unfailed_def)
  show ?case
  proof (cases "map_of (ag_actions g) n")
    case None
    then have r: "n \<notin> real_names g" by (auto simp: real_names_def)
    from None Cons.prems(1) have "phase_filter now g ns c = (run, c')" by simp
    from Cons.IH [OF this _ d] Cons.prems(2) r show ?thesis by auto
  next
    case (Some e)
    then have r: "n \<in> real_names g" by (auto simp: real_names_def)
    note u = deps_unfailed_alt [OF Some, of c]
    show ?thesis
    proof (cases "dep_failed e c")
      case True
      let ?c = "MarkSkipped now n SkipDependencyFailed c"
      from True Some Cons.prems(1) have "phase_filter now g ns ?c = (run, c')" by simp
      from Cons.IH [OF this _ d] Cons.prems(2)
      have IH: "distinct run" "set run = {m \<in> set ns. m \<in> real_names g \<and> deps_unfailed g ?c m}"
        "\<forall>m \<in> set ns - set run. m \<in> real_names g \<longrightarrow> status_of c' m = Some StatusSkipped"
        "\<forall>m. m \<notin> set ns - set run \<longrightarrow> GetResult c' m = GetResult ?c m" by simp_all
      have n: "n \<notin> set ns" using Cons.prems(2) by simp
      then have "status_of c' n = Some StatusSkipped"
        using IH(4) by (simp add: status_of_def) (simp add: mark_defs)
      moreover have "set run = {m \<in> set (n # ns). m \<in> real_names g \<and> deps_unfailed g c m}"
        using IH(2) unf True u by auto
      moreover have "\<forall>m. m \<notin> set (n # ns) - set run \<longrightarrow> GetResult c' m = GetResult c m"
      proof (intro allI impI)
        fix m assume m: "m \<notin> set (n # ns) - set run"
        then have "m \<noteq> n" using IH(2) n by auto
        with m IH(4) show "GetResult c' m = GetResult c m" by simp
      qed
      ultimately show ?thesis using IH(1,3) by auto
    next
      case False
      obtain run' where r': "phase_filter now g ns c = (run', c')" and run: "run = n # run'"
        using False Some Cons.prems(1) by (auto split: prod.splits)
      from Cons.IH [OF r' _ d] Cons.prems(2)
      have IH: "distinct run'" "set run' = {m \<in> set ns. m \<in> real_names g \<and> deps_unfailed g c m}"
        "\<forall>m \<in> set ns - set run'. m \<in> real_names g \<longrightarrow> status_of c' m = Some StatusSkipped"
        "\<forall>m. m \<notin> set ns - set run' \<longrightarrow> GetResult c' m = GetResult c m" by simp_all
      have "n \<notin> set ns" using Cons.prems(2) by simp
      with IH run r u False show ?thesis by auto
    qed
  qed
qed simp

lemma skip_remaining_status:
  "status_of (skip_remaining now ps c) m = (if m \<in> set (concat ps) then Some StatusSkipped else status_of c m)"
proof -
  have "status_of (fold (\<lambda>n. MarkSkipped now n r) ns c) m = (if m \<in> set ns then Some StatusSkipped else status_of c m)"
    for ns r by (induction ns arbitrary: c) simp_all
  then show ?thesis by (simp only: skip_remaining_def)
qed

lemma concat_split:
  "k < length phases \<Longrightarrow> set (concat phases) = names_before phases (Suc k) \<union> set (concat (drop (Suc k) phases))"
  by (metis append_take_drop_id concat_append names_before_def set_append)

lemma sem_limit_pos: "run \<noteq> [] \<Longrightarrow> 0 < sem_limit env run"
  by (simp add: sem_limit_def)

lemma holders_upd:
  assumes "distinct run" "n \<in> set run"
  shows "holders run (pcs(n := p)) + of_bool (holding (pcs n)) = holders run pcs + of_bool (holding p)"
  using assms
proof (induction run)
  case (Cons a run)
  show ?case
  proof (cases "a = n")
    case True
    with Cons.prems have "filter (\<lambda>m. holding ((pcs(n := p)) m)) run = filter (\<lambda>m. holding (pcs m)) run"
      by (intro filter_cong) auto
    with True show ?thesis by (simp add: holders_def)
  next
    case False
    with Cons show ?thesis by (simp add: holders_def)
  qed
qed simp

lemma holders_Queued: "holders run (\<lambda>_. Queued) = 0"
  by (simp add: holders_def)

text \<open>A step of one goroutine keeps what the others have.\<close>

lemma running_update:
  assumes inv: "state_inv env g phases x c (Running k run pcs)" and pok: "phases_ok g phases"
    and n: "n \<in> set run" and others: "\<And>m. m \<noteq> n \<Longrightarrow> GetResult c' m = GetResult c m"
    and ok: "pc_ok x p (status_of c' n)" and hold: "holders run (pcs(n := p)) \<le> sem_limit env run"
  shows "state_inv env g phases x c' (Running k run (pcs(n := p)))"
proof -
  have st: "status_of c' m = status_of c m" if "m \<noteq> n" for m using others [OF that] by (simp add: status_of_def)
  have k: "k < length phases" and nk: "n \<in> set (phases ! k)" using inv n by auto
  have nb: "n \<notin> names_before phases k" using earlier_disjoint(1) [OF pok k] nk by blast
  have "settled g x c' (names_before phases k)"
    by (rule settled_other [of g x c]) (use inv nb in \<open>auto intro: others\<close>)
  moreover have "settled g x c' (set (phases ! k) - set run)"
    by (rule settled_other [of g x c]) (use inv n in \<open>auto intro: others\<close>)
  moreover have "pc_ok x ((pcs(n := p)) m) (status_of c' m) \<and> deps_unfailed g c' m" if m: "m \<in> set run" for m
  proof -
    have "m \<in> set (phases ! k)" using inv m by auto
    then have "n \<notin> action_deps g m" using deps_in_earlier [OF pok k] nb by blast
    then have "status_of c' d = status_of c d" if "d \<in> action_deps g m" for d using st that by metis
    then have "deps_unfailed g c' m = deps_unfailed g c m" by (simp add: deps_unfailed_def)
    then show ?thesis using inv m ok st by (cases "m = n") auto
  qed
  ultimately show ?thesis using inv hold by simp
qed

lemma section_inv_step:
  assumes inv: "section_inv env g phases s" and pok: "phases_ok g phases"
    and step: "section_step env g phases ch s = Some s'"
  shows "section_inv env g phases s'"
proof (cases ch)
  case (CCancel y)
  with step have s': "s' = s\<lparr>sc_cancel := Some y\<rparr>" "sc_cancel s = None" by (auto split: if_splits)
  with inv show ?thesis
    by (cases "sc_state s") (auto simp: section_inv_def settled_def intro: final_mono pc_ok_mono)
next
  case (CBegin now)
  with step obtain k where k: "sc_state s = Between k" by (cases "sc_state s") auto
  with inv have set: "k \<le> length phases" "settled g (sc_cancel s) (sc_ctx s) (names_before phases k)"
    by (simp_all add: section_inv_def)
  show ?thesis
  proof (cases "k \<ge> length phases")
    case True
    then have "names_before phases k = set (concat phases)" by (simp add: names_before_def)
    with CBegin step k set True show ?thesis by (auto simp: section_inv_def)
  next
    case False
    then have kl: "k < length phases" by simp
    show ?thesis
    proof (cases "sc_cancel s")
      case (Some y)
      with CBegin step k False show ?thesis by (auto simp: section_inv_def)
    next
      case None
      obtain run c where f: "phase_filter now g (phases ! k) (sc_ctx s) = (run, c)" by fastforce
      with CBegin step k False None
      have s': "s' = s\<lparr>sc_state := Running k run (\<lambda>_. Queued), sc_ctx := c\<rparr>" by simp
      note dis = earlier_disjoint [OF pok kl]
      have d: "action_deps g n \<inter> set (phases ! k) = {}" if "n \<in> set (phases ! k)" for n
        using deps_in_earlier [OF pok kl that] dis(1) by blast
      note spec = phase_filter_spec [OF f dis(2) d]
      have same: "GetResult c m = GetResult (sc_ctx s) m" if "m \<in> names_before phases k" for m
        using spec dis(1) that by blast
      have "settled g (sc_cancel s) c (names_before phases k)" by (rule settled_other [OF set(2) same])
      moreover have "settled g (sc_cancel s) c (set (phases ! k) - set run)"
        using spec by (auto simp: settled_def)
      moreover have "deps_unfailed g c n" if "n \<in> set run" for n
      proof -
        have n: "n \<in> set (phases ! k)" "deps_unfailed g (sc_ctx s) n" using spec that by auto
        have "GetResult c m = GetResult (sc_ctx s) m" if "m \<in> action_deps g n" for m
          using same deps_in_earlier [OF pok kl n(1)] that by blast
        with n(2) show ?thesis by (simp add: deps_unfailed_def status_of_def)
      qed
      moreover have "set run \<subseteq> set (phases ! k) \<inter> real_names g" "distinct run" using spec by auto
      ultimately show ?thesis by (simp add: s' section_inv_def kl holders_Queued)
    qed
  qed
next
  case (CAcquire n)
  with step obtain k run pcs where st: "sc_state s = Running k run pcs" and n: "n \<in> set run" "pcs n = Queued"
    and lim: "holders run pcs < sem_limit env run"
    and s': "s' = s\<lparr>sc_state := Running k run (pcs(n := Entered))\<rparr>"
    by (cases "sc_state s") (auto split: if_splits)
  have i: "state_inv env g phases (sc_cancel s) (sc_ctx s) (Running k run pcs)"
    using inv st by (simp add: section_inv_def)
  then have "distinct run" by simp
  from holders_upd [OF this n(1), of pcs Entered] n(2) lim
  have "holders run (pcs(n := Entered)) \<le> sem_limit env run" by simp
  from running_update [OF i pok n(1) _ _ this] show ?thesis by (simp add: section_inv_def s')
next
  case (CAbandon n)
  with step obtain k run pcs where st: "sc_state s = Running k run pcs" and n: "n \<in> set run" "pcs n = Queued" "sc_cancel s \<noteq> None"
    and s': "s' = s\<lparr>sc_state := Running k run (pcs(n := Abandoning))\<rparr>"
    by (cases "sc_state s") (auto split: if_splits)
  have i: "state_inv env g phases (sc_cancel s) (sc_ctx s) (Running k run pcs)"
    using inv st by (simp add: section_inv_def)
  then have "distinct run" "holders run pcs \<le> sem_limit env run" by simp_all
  with holders_upd [OF _ n(1), of pcs Abandoning] n(2)
  have "holders run (pcs(n := Abandoning)) \<le> sem_limit env run" by simp
  from running_update [OF i pok n(1) refl _ this] n(3) show ?thesis by (simp add: section_inv_def s')
next
  case (CStep n obs now)
  with step obtain k run pcs p c memo where st: "sc_state s = Running k run pcs" and n: "n \<in> set run"
    and g: "goroutine_step env g n obs now (pcs n) (sc_ctx s) (sc_memo s) = Some (p, c, memo)"
    and s': "s' = s\<lparr>sc_state := Running k run (pcs(n := p)), sc_ctx := c, sc_memo := memo\<rparr>"
    by (cases "sc_state s") (auto split: if_splits option.splits)
  have i: "state_inv env g phases (sc_cancel s) (sc_ctx s) (Running k run pcs)"
    using inv st by (simp add: section_inv_def)
  then have dist: "distinct run" and lim: "holders run pcs \<le> sem_limit env run"
    and dom: "n \<in> dom (map_of (ag_actions g))" and ok: "pc_ok (sc_cancel s) (pcs n) (status_of (sc_ctx s) n)"
    using n by (auto simp: real_names_def)
  note facts = goroutine_step_facts [OF g dom ok]
  have "holders run (pcs(n := p)) \<le> sem_limit env run"
    using holders_upd [OF dist n, of pcs p] lim facts(5) by (cases "holding (pcs n)"; cases "holding p") simp_all
  from running_update [OF i pok n facts(2) facts(1) this] show ?thesis by (simp add: section_inv_def s')
next
  case (CCollect n now)
  with step obtain k run pcs where st: "sc_state s = Running k run pcs"
    and ended: "list_all (\<lambda>m. has_ended (pcs m)) run"
    by (cases "sc_state s") (auto split: if_splits)
  have i: "state_inv env g phases (sc_cancel s) (sc_ctx s) (Running k run pcs)"
    using inv st by (simp add: section_inv_def)
  then have kl: "k < length phases" by simp
  have "final (sc_cancel s) (status_of (sc_ctx s) m)" if m: "m \<in> set run" for m
  proof -
    obtain e where "pcs m = Ended e" using ended m by (cases "pcs m") (auto simp: list_all_iff)
    with i m show ?thesis by fastforce
  qed
  with i have before: "settled g (sc_cancel s) (sc_ctx s) (names_before phases (Suc k))"
    by (auto simp: names_before_Suc [OF kl] settled_def)
  show ?thesis
  proof (cases "list_all (\<lambda>m. gpc_error (pcs m) = None) run")
    case True
    with CCollect step st ended have "s' = s\<lparr>sc_state := Between (Suc k)\<rparr>" by simp
    with before kl show ?thesis by (simp add: section_inv_def)
  next
    case False
    with CCollect step st ended obtain e s2 c where
      a: "after_phase env g phases k (phase_error n e) now (sc_ctx s) = (s2, c)"
      and s': "s' = s\<lparr>sc_state := s2, sc_ctx := c\<rparr>"
      by (auto split: if_splits option.splits prod.splits)
    show ?thesis
    proof (cases "list_all (action_continues env g (sc_ctx s)) (phases ! k)")
      case True
      with a before kl show ?thesis by (auto simp: s' section_inv_def after_phase_def)
    next
      case False
      with a have s2: "s2 = Over (Some (phase_error n e))" and c: "c = skip_remaining now (drop (Suc k) phases) (sc_ctx s)"
        by (auto simp: after_phase_def)
      have "settled g (sc_cancel s) c (set (concat phases))"
        using before unfolding concat_split [OF kl] c settled_def by (auto simp: skip_remaining_status)
      then show ?thesis by (cases "sc_cancel s") (simp_all add: s' section_inv_def s2)
    qed
  qed
qed

lemma section_inv_reach:
  assumes "section_reach env g phases s s'" "section_inv env g phases s" "phases_ok g phases"
  shows "section_inv env g phases s'"
  using assms(1)
proof (induction rule: section_reach.induct)
  case (reach_step s ch s')
  then show ?case using section_inv_step assms(3) by blast
qed (rule assms(2))

lemma section_inv_start: "section_inv env g phases (section_start c memo x b)"
  by (simp add: section_inv_def section_start_def settled_def names_before_def)

text \<open>
  What the invariant gives of a run: a goroutine that got through the semaphore finds every
  dependency of its action settled without failure.
\<close>

lemma running_deps:
  assumes reach: "section_reach env g phases (section_start c memo x b) s" and pok: "phases_ok g phases"
    and st: "sc_state s = Running k run pcs" and n: "n \<in> set run"
    and d: "d \<in> action_deps g n" "d \<in> real_names g"
  shows "\<exists>t. status_of (sc_ctx s) d = Some t \<and> IsTerminal t \<and> \<not> failed_status t"
proof -
  have i: "state_inv env g phases (sc_cancel s) (sc_ctx s) (Running k run pcs)"
    using section_inv_reach [OF reach section_inv_start pok] st by (simp add: section_inv_def)
  then have k: "k < length phases" and nk: "n \<in> set (phases ! k)" and u: "deps_unfailed g (sc_ctx s) n"
    and se: "settled g (sc_cancel s) (sc_ctx s) (names_before phases k)"
    using n by auto
  have "d \<in> names_before phases k" using deps_in_earlier [OF pok k nk] d(1) by blast
  with se d(2) have "terminal (status_of (sc_ctx s) d)" by (simp add: settled_def final_def)
  with u d(1) show ?thesis by (auto simp: terminal_def deps_unfailed_def)
qed

lemma invoking_running:
  assumes "section_reach env g phases (section_start c memo x b) s" "phases_ok g phases"
    and "sc_state s = Running k run pcs" "n \<in> set run" "pcs n = Invoking plan"
  shows "status_of (sc_ctx s) n = Some StatusRunning"
  using section_inv_reach [OF assms(1) section_inv_start assms(2)] assms(3-5)
  by (auto simp: section_inv_def)

lemma run_in_phase:
  assumes "section_reach env g phases (section_start c memo x b) s" "phases_ok g phases"
    and "sc_state s = Running k run pcs"
  shows "k < length phases" "set run \<subseteq> set (phases ! k)" "distinct run" "holders run pcs \<le> sem_limit env run"
  using section_inv_reach [OF assms(1) section_inv_start assms(2)] assms(3)
  by (auto simp: section_inv_def)

lemma concurrency_bound:
  assumes "section_reach env g phases (section_start c memo x b) s" "phases_ok g phases"
    and "sc_state s = Running k run pcs" "0 < xe_max env"
  shows "int (holders run pcs) \<le> xe_max env"
  using run_in_phase(4) [OF assms(1-3)] assms(4) by (auto simp: sem_limit_def split: if_splits)

subsection \<open>Progress and termination\<close>

definition phases_weight :: "string list list \<Rightarrow> nat" where
  "phases_weight ps = sum_list (map (\<lambda>p. 10 * length p + 2) ps)"

fun state_weight :: "string list list \<Rightarrow> section_state \<Rightarrow> nat" where
  "state_weight phases (Between k) = Suc (phases_weight (drop k phases))"
| "state_weight phases (Running k run pcs) =
     Suc (Suc (phases_weight (drop (Suc k) phases))) + sum_list (map (\<lambda>n. pc_weight (pcs n)) run)"
| "state_weight phases (Over r) = 0"

definition section_weight :: "string list list \<Rightarrow> section_cfg \<Rightarrow> nat" where
  "section_weight phases s =
     state_weight phases (sc_state s) + of_bool (sc_cancellable s \<and> sc_cancel s = None)"

lemma sum_upd_less:
  assumes "n \<in> set run" "distinct run" "pc_weight p < pc_weight (pcs n)"
  shows "sum_list (map (\<lambda>m. pc_weight ((pcs(n := p)) m)) run) < sum_list (map (\<lambda>m. pc_weight (pcs m)) run)"
  using assms
proof (induction run)
  case (Cons a run)
  show ?case
  proof (cases "a = n")
    case True
    with Cons.prems have "map (\<lambda>m. pc_weight ((pcs(n := p)) m)) run = map (\<lambda>m. pc_weight (pcs m)) run" by auto
    then have "sum_list (map (\<lambda>m. pc_weight ((pcs(n := p)) m)) run) = sum_list (map (\<lambda>m. pc_weight (pcs m)) run)"
      by (rule arg_cong)
    with True Cons.prems show ?thesis by (simp del: fun_upd_apply) simp
  next
    case False
    with Cons show ?thesis by simp
  qed
qed simp

lemma sum_Queued: "sum_list (map (\<lambda>n. pc_weight Queued) run) = 10 * length run"
  by (induction run) simp_all

lemma phase_filter_length: "phase_filter now g ns c = (run, c') \<Longrightarrow> length run \<le> length ns"
proof (induction ns arbitrary: run c c')
  case (Cons n ns)
  show ?case
  proof (cases "map_of (ag_actions g) n")
    case None
    with Cons show ?thesis by (auto intro: le_SucI)
  next
    case (Some e)
    show ?thesis
    proof (cases "dep_failed e c")
      case True
      with Some Cons show ?thesis by (auto intro: le_SucI)
    next
      case False
      obtain r c1 where "phase_filter now g ns c = (r, c1)" by fastforce
      with Cons.IH [OF this] Some False Cons.prems show ?thesis by auto
    qed
  qed
qed simp

lemma section_weight_step:
  assumes inv: "section_inv env g phases s" and step: "section_step env g phases ch s = Some s'"
  shows "section_weight phases s' < section_weight phases s"
proof (cases ch)
  case (CCancel y)
  with step show ?thesis by (auto simp: section_weight_def split: if_splits)
next
  case (CBegin now)
  with step obtain k where k: "sc_state s = Between k" by (cases "sc_state s") auto
  show ?thesis
  proof (cases "k \<ge> length phases \<or> sc_cancel s \<noteq> None")
    case True
    with CBegin step k show ?thesis by (auto simp: section_weight_def split: if_splits)
  next
    case False
    then have d: "drop k phases = phases ! k # drop (Suc k) phases" by (simp add: Cons_nth_drop_Suc)
    obtain run c where f: "phase_filter now g (phases ! k) (sc_ctx s) = (run, c)" by fastforce
    with CBegin step k False
    have s': "s' = s\<lparr>sc_state := Running k run (\<lambda>_. Queued), sc_ctx := c\<rparr>" by simp
    have "sum_list (map (\<lambda>n. pc_weight Queued) run) = 10 * length run" by (rule sum_Queued)
    then show ?thesis using phase_filter_length [OF f] unfolding s'
      by (simp add: section_weight_def k d phases_weight_def sum_list_triv)
  qed
next
  case (CAcquire n)
  with step obtain k run pcs where st: "sc_state s = Running k run pcs" and n: "n \<in> set run" "pcs n = Queued"
    and s': "s' = s\<lparr>sc_state := Running k run (pcs(n := Entered))\<rparr>"
    by (cases "sc_state s") (auto split: if_splits)
  have "distinct run" using inv st by (simp add: section_inv_def)
  from sum_upd_less [OF n(1) this, of Entered pcs] n(2) show ?thesis
    by (simp add: section_weight_def s' st)
next
  case (CAbandon n)
  with step obtain k run pcs where st: "sc_state s = Running k run pcs" and n: "n \<in> set run" "pcs n = Queued"
    and s': "s' = s\<lparr>sc_state := Running k run (pcs(n := Abandoning))\<rparr>"
    by (cases "sc_state s") (auto split: if_splits)
  have "distinct run" using inv st by (simp add: section_inv_def)
  from sum_upd_less [OF n(1) this, of Abandoning pcs] n(2) show ?thesis
    by (simp add: section_weight_def s' st)
next
  case (CStep n obs now)
  with step obtain k run pcs p c memo where st: "sc_state s = Running k run pcs" and n: "n \<in> set run"
    and g: "goroutine_step env g n obs now (pcs n) (sc_ctx s) (sc_memo s) = Some (p, c, memo)"
    and s': "s' = s\<lparr>sc_state := Running k run (pcs(n := p)), sc_ctx := c, sc_memo := memo\<rparr>"
    by (cases "sc_state s") (auto split: if_splits option.splits)
  have i: "state_inv env g phases (sc_cancel s) (sc_ctx s) (Running k run pcs)"
    using inv st by (simp add: section_inv_def)
  then have dist: "distinct run" and dom: "n \<in> dom (map_of (ag_actions g))"
    and ok: "pc_ok (sc_cancel s) (pcs n) (status_of (sc_ctx s) n)"
    using n by (auto simp: real_names_def)
  from sum_upd_less [of n run p pcs, OF n dist goroutine_step_facts(3) [OF g dom ok]] show ?thesis
    by (simp add: section_weight_def s' st)
next
  case (CCollect n now)
  with step obtain k run pcs where st: "sc_state s = Running k run pcs" by (cases "sc_state s") auto
  with CCollect step show ?thesis
    by (auto simp: section_weight_def after_phase_def split: if_splits option.splits)
qed

text \<open>Until it is over, a section can make a step without being cancelled.\<close>

lemma section_progress:
  assumes inv: "section_inv env g phases s" and "\<forall>r. sc_state s \<noteq> Over r"
  shows "\<exists>ch s'. section_step env g phases ch s = Some s'"
proof (cases "sc_state s")
  case (Between k)
  then have "\<exists>s'. section_step env g phases (CBegin 0) s = Some s'" by (auto split: option.split prod.split)
  then show ?thesis by blast
next
  case (Over r)
  with assms show ?thesis by blast
next
  case (Running k run pcs)
  have i: "state_inv env g phases (sc_cancel s) (sc_ctx s) (Running k run pcs)"
    using inv Running by (simp add: section_inv_def)
  show ?thesis
  proof (cases "list_all (\<lambda>m. has_ended (pcs m)) run")
    case True
    show ?thesis
    proof (cases "list_all (\<lambda>m. gpc_error (pcs m) = None) run")
      case t: True
      with True Running have "\<exists>s'. section_step env g phases (CCollect [] 0) s = Some s'" by simp
      then show ?thesis by blast
    next
      case False
      then obtain n e where "n \<in> set run" "gpc_error (pcs n) = Some e" by (auto simp: list_all_iff)
      with True False Running have "\<exists>s'. section_step env g phases (CCollect n 0) s = Some s'"
        by (auto split: prod.split)
      then show ?thesis by blast
    qed
  next
    case False
    then obtain n where n: "n \<in> set run" "\<not> has_ended (pcs n)" by (auto simp: list_all_iff)
    show ?thesis
    proof (cases "\<exists>m \<in> set run. pcs m \<noteq> Queued \<and> \<not> has_ended (pcs m)")
      case True
      then obtain m where m: "m \<in> set run" "pcs m \<noteq> Queued" "\<not> has_ended (pcs m)" by blast
      have "m \<in> dom (map_of (ag_actions g))" using i m(1) by (auto simp: real_names_def)
      from goroutine_can_step [OF this m(2,3)] obtain r where
        r: "goroutine_step env g m undefined 0 (pcs m) (sc_ctx s) (sc_memo s) = Some r" by blast
      obtain p c memo where "r = (p, c, memo)" by (metis prod.exhaust)
      with Running m(1) r have "\<exists>s'. section_step env g phases (CStep m undefined 0) s = Some s'" by simp
      then show ?thesis by blast
    next
      case False
      then have "\<not> holding (pcs m)" if "m \<in> set run" for m
        using that by (cases "pcs m") auto
      then have "holders run pcs = 0" by (simp add: holders_def)
      moreover have "pcs n = Queued" "run \<noteq> []" using n False by auto
      ultimately have "\<exists>s'. section_step env g phases (CAcquire n) s = Some s'"
        using Running n(1) sem_limit_pos by simp
      then show ?thesis by blast
    qed
  qed
qed

text \<open>Every run of a section can be completed, within a bound on its steps.\<close>

lemma section_completes:
  assumes "section_inv env g phases s" "phases_ok g phases"
  shows "\<exists>r s'. executePhases env g phases s r s'"
  using assms
proof (induction "section_weight phases s" arbitrary: s rule: less_induct)
  case less
  show ?case
  proof (cases "\<exists>r. sc_state s = Over r")
    case True
    then obtain r where "sc_state s = Over r" by blast
    then have "executePhases env g phases s r s" by (simp add: executePhases_def reach_start)
    then show ?thesis by blast
  next
    case False
    with section_progress less.prems obtain ch s' where st: "section_step env g phases ch s = Some s'" by blast
    have trans: "section_reach env g phases s t" if "section_reach env g phases s' t" for t
      using that by (induction rule: section_reach.induct) (auto intro: reach_start reach_step st)
    from less.hyps [OF section_weight_step [OF less.prems(1) st] section_inv_step [OF less.prems(1,2) st] less.prems(2)]
    obtain r t where "executePhases env g phases s' r t" by blast
    then have "executePhases env g phases s r t" using trans by (simp add: executePhases_def)
    then show ?thesis by blast
  qed
qed

inductive section_run ::
  "exec_env \<Rightarrow> action_graph \<Rightarrow> string list list \<Rightarrow> nat \<Rightarrow> section_cfg \<Rightarrow> section_cfg \<Rightarrow> bool"
  for env g phases where
  no_steps: "section_run env g phases 0 s s"
| more_steps: "section_step env g phases ch s = Some s' \<Longrightarrow> section_run env g phases k s' t \<Longrightarrow>
     section_run env g phases (Suc k) s t"

lemma section_run_bound:
  "section_run env g phases k s t \<Longrightarrow> section_inv env g phases s \<Longrightarrow> phases_ok g phases \<Longrightarrow>
   k + section_weight phases t \<le> section_weight phases s"
proof (induction rule: section_run.induct)
  case (more_steps ch s s' k t)
  from section_weight_step [OF more_steps.prems(1) more_steps.hyps(1)]
    more_steps.IH [OF section_inv_step [OF more_steps.prems(1,2) more_steps.hyps(1)] more_steps.prems(2)]
  show ?case by simp
qed simp

lemma section_start_weight:
  "section_weight phases (section_start c memo x b) \<le> 2 + phases_weight phases"
  by (simp add: section_weight_def section_start_def)

text \<open>A section that ends without being cancelled leaves every action of it with a final status.\<close>

lemma section_settles:
  assumes "executePhases env g phases (section_start c memo x b) r s" "phases_ok g phases"
    and "sc_cancel s = None \<or> r = None" "n \<in> set (concat phases)" "n \<in> real_names g"
  shows "\<exists>t. status_of (sc_ctx s) n = Some t \<and> IsTerminal t \<and> (t = StatusCancelled \<longrightarrow> sc_cancel s \<noteq> None)"
proof -
  have "section_reach env g phases (section_start c memo x b) s" using assms(1) by (simp add: executePhases_def)
  from section_inv_reach [OF this section_inv_start assms(2)] have "section_inv env g phases s" .
  with assms show ?thesis by (auto simp: section_inv_def executePhases_def settled_def terminal_def final_def)
qed

subsection \<open>The frame of a section\<close>

lemma cancel_phase_other: "m \<notin> set ns \<Longrightarrow> GetResult (cancel_phase now ns c) m = GetResult c m"
  by (induction ns arbitrary: c) (simp_all add: cancel_phase_def)

lemma skip_remaining_other: "m \<notin> set (concat ps) \<Longrightarrow> GetResult (skip_remaining now ps c) m = GetResult c m"
proof -
  have "m \<notin> set ns \<Longrightarrow> GetResult (fold (\<lambda>n. MarkSkipped now n r) ns c) m = GetResult c m" for ns r
    by (induction ns arbitrary: c) simp_all
  then show "m \<notin> set (concat ps) \<Longrightarrow> GetResult (skip_remaining now ps c) m = GetResult c m"
    by (simp only: skip_remaining_def)
qed

lemma phase_filter_other: "m \<notin> set ns \<Longrightarrow> GetResult (snd (phase_filter now g ns c)) m = GetResult c m"
proof (induction ns arbitrary: c)
  case (Cons n ns)
  then show ?case
    by (cases "map_of (ag_actions g) n") (auto simp: split_beta Let_def)
qed simp

lemma nth_in_concat: "k < length ps \<Longrightarrow> m \<in> set (ps ! k) \<Longrightarrow> m \<in> set (concat ps)"
  by auto

lemma section_step_other:
  assumes inv: "section_inv env g phases s" and step: "section_step env g phases ch s = Some s'"
    and m: "m \<notin> set (concat phases)"
  shows "GetResult (sc_ctx s') m = GetResult (sc_ctx s) m"
proof (cases ch)
  case (CBegin now)
  with step obtain k where k: "sc_state s = Between k" by (cases "sc_state s") auto
  show ?thesis
  proof (cases "k \<ge> length phases")
    case False
    then have nm: "m \<notin> set (phases ! k)" using nth_in_concat m by auto
    obtain run c where f: "phase_filter now g (phases ! k) (sc_ctx s) = (run, c)" by fastforce
    from phase_filter_other [OF nm, of now g "sc_ctx s"] f have "GetResult c m = GetResult (sc_ctx s) m" by simp
    with CBegin step k False f cancel_phase_other [OF nm] show ?thesis
      by (auto split: option.splits)
  qed (use CBegin step k in auto)
next
  case (CStep n obs now)
  with step obtain k run pcs p c memo where st: "sc_state s = Running k run pcs" and n: "n \<in> set run"
    and g: "goroutine_step env g n obs now (pcs n) (sc_ctx s) (sc_memo s) = Some (p, c, memo)"
    and s': "s' = s\<lparr>sc_state := Running k run (pcs(n := p)), sc_ctx := c, sc_memo := memo\<rparr>"
    by (cases "sc_state s") (auto split: if_splits option.splits)
  have i: "state_inv env g phases (sc_cancel s) (sc_ctx s) (Running k run pcs)"
    using inv st by (simp add: section_inv_def)
  then have k: "k < length phases" "n \<in> set (phases ! k)" and dom: "n \<in> dom (map_of (ag_actions g))"
    and ok: "pc_ok (sc_cancel s) (pcs n) (status_of (sc_ctx s) n)"
    using n by (auto simp: real_names_def)
  have "m \<noteq> n" using nth_in_concat [OF k] m by blast
  from goroutine_step_facts(2) [OF g dom ok this] show ?thesis by (simp add: s')
next
  case (CCollect n now)
  with step obtain k run pcs where st: "sc_state s = Running k run pcs" by (cases "sc_state s") auto
  have "m \<notin> set (concat (drop (Suc k) phases))" using m set_drop_subset by fastforce
  with CCollect step st show ?thesis
    by (auto simp: after_phase_def skip_remaining_other split: if_splits option.splits)
qed (use step in \<open>auto split: if_splits section_state.splits\<close>)

lemma section_reach_other:
  assumes "section_reach env g phases s s'" "section_inv env g phases s" "phases_ok g phases" "m \<notin> set (concat phases)"
  shows "GetResult (sc_ctx s') m = GetResult (sc_ctx s) m"
  using assms(1)
proof (induction rule: section_reach.induct)
  case (reach_step s1 ch s2)
  with section_step_other [OF section_inv_reach [OF reach_step.hyps(1) assms(2,3)] reach_step.hyps(2) assms(4)]
  show ?case by simp
qed simp

subsection \<open>Workflows\<close>

lemma put_actions_of: "distinct (map_keys new) \<Longrightarrow> map_of (put_actions new m) = map_of m ++ map_of new"
  unfolding put_actions_def
proof (induction new arbitrary: m)
  case (Cons x new)
  obtain k v where x: "x = (k, v)" by fastforce
  with Cons.prems have "map_of new k = None" by (simp add: map_keys_def map_of_eq_None_iff)
  with Cons x show ?case by (auto simp: fun_eq_iff map_add_def split: option.splits)
qed simp

definition graph_separate :: "action_graph \<Rightarrow> bool" where
  "graph_separate g = (set (concat (ag_order g)) \<inter> set (concat (ag_finally g)) = {})"

lemma graph_sections:
  assumes "BuildGraph env skip (Some w) data = Inr g" "graph_separate g"
  shows "phases_ok g (ag_order g)" and "phases_ok g (ag_finally g)"
    and "real_names g = set (concat (ag_order g)) \<union> set (concat (ag_finally g))"
    and "p \<in> set (ag_order g) \<union> set (ag_finally g) \<Longrightarrow> a \<in> set p \<Longrightarrow> b \<in> set p \<Longrightarrow> a \<noteq> b \<Longrightarrow>
          \<not> conflicting (ag_actions g) a b"
proof -
  from BuildGraph_Inr [OF assms(1)] obtain main mdeps fin fdeps where
    m: "expandSection env skip data (buildAliasNames [w_actions w, w_finally w]) ''actions'' (w_actions w) = Inr (main, mdeps)"
    and f: "expandSection env skip data (buildAliasNames [w_actions w, w_finally w]) ''finally'' (w_finally w) = Inr (fin, fdeps)"
    and g: "ag_actions g = put_actions fin (put_actions main [])"
    and om: "order_ok main (ag_order g)" and of: "order_ok fin (ag_finally g)" by metis
  have d: "distinct (map_keys main)" "distinct (map_keys fin)"
    using expandSection_Inr(1) [OF m] expandSection_Inr(1) [OF f] by (simp_all add: section_maps_def)
  have map: "map_of (ag_actions g) = map_of main ++ map_of fin" by (simp add: g put_actions_of d)
  have keys: "set (concat (ag_order g)) = dom (map_of main)" "set (concat (ag_finally g)) = dom (map_of fin)"
    using om of by (simp_all add: order_ok_def map_keys_def dom_map_of_conv_image_fst)
  with assms(2) have dis: "dom (map_of main) \<inter> dom (map_of fin) = {}" by (simp add: graph_separate_def)
  have "map_of (ag_actions g) n = map_of main n" if "n \<in> dom (map_of main)" for n
  proof -
    have "n \<notin> dom (map_of fin)" using that dis by blast
    then show ?thesis by (simp add: map map_add_dom_app_simps(3))
  qed
  note lm = this
  have "map_of (ag_actions g) n = map_of fin n" if "n \<in> dom (map_of fin)" for n
    using that by (simp add: map map_add_dom_app_simps(1))
  note lf = this
  have D: "deps_before (action_deps g) S ps" if "deps_before (\<lambda>n. case map_of as n of None \<Rightarrow> {} | Some ea \<Rightarrow> set (ea_dependencies ea)) S ps"
    "\<And>n. n \<in> set (concat ps) \<Longrightarrow> map_of (ag_actions g) n = map_of as n" for as ps S
    using that by (induction ps arbitrary: S) (simp_all add: action_deps_def)
  show "phases_ok g (ag_order g)" unfolding phases_ok_def
    using om lm keys(1) by (auto simp: order_ok_def intro!: D [of main])
  show "phases_ok g (ag_finally g)" unfolding phases_ok_def
    using of lf keys(2) by (auto simp: order_ok_def intro!: D [of fin])
  show "real_names g = set (concat (ag_order g)) \<union> set (concat (ag_finally g))"
    unfolding keys by (auto simp: real_names_def map)
  have ex: "excludes (ag_actions g) a b = excludes as a b" if "map_of (ag_actions g) a = map_of as a" for as a b
    using that by (simp add: excludes_def)
  assume p: "p \<in> set (ag_order g) \<union> set (ag_finally g)" "a \<in> set p" "b \<in> set p" "a \<noteq> b"
  then consider "p \<in> set (ag_order g)" | "p \<in> set (ag_finally g)" by blast
  then show "\<not> conflicting (ag_actions g) a b"
  proof cases
    case 1
    then have "a \<in> dom (map_of main)" "b \<in> dom (map_of main)" using keys(1) p by auto
    with lm have "conflicting (ag_actions g) a b = conflicting main a b"
      using ex [of a main] ex [of b main] by (simp add: conflicting_def)
    with om 1 p show ?thesis by (simp add: order_ok_def)
  next
    case 2
    then have "a \<in> dom (map_of fin)" "b \<in> dom (map_of fin)" using keys(2) p by auto
    with lf have "conflicting (ag_actions g) a b = conflicting fin a b"
      using ex [of a fin] ex [of b fin] by (simp add: conflicting_def)
    with of 2 p show ?thesis by (simp add: order_ok_def)
  qed
qed

lemma collect_results_spec:
  "er_failed (collect_results c ns r) = er_failed r @ filter (\<lambda>n. \<exists>t. status_of c n = Some t \<and> failed_status t) ns"
  "er_skipped (collect_results c ns r) = er_skipped r @ filter (\<lambda>n. status_of c n = Some StatusSkipped) ns"
  "map_of (er_actions (collect_results c ns r)) m =
     (if m \<in> set ns \<and> GetResult c m \<noteq> None then GetResult c m else map_of (er_actions r) m)"
  by (induction ns arbitrary: r)
    (auto simp: status_of_def Let_def failed_status_def split: option.splits)

text \<open>The state a completed run leaves.\<close>

lemma Execute_state:
  assumes "Execute env pick c (Some w) (Inr (r, err, c'))"
    and "BuildGraph (xe_val env) False (Some w) (xe_data env) = Inr g" "graph_separate g"
  obtains cancelled mainErr finallyErr where
    "finish_execution pick g c' cancelled mainErr finallyErr = (r, err)"
    "cancelled \<or> settled g None c' (real_names g)"
  using assms(1)
proof (cases rule: Execute.cases)
  case (execute_main g' x mainErr s1 cancelled)
  then have g: "g' = g" using assms(2) by simp
  note pok = graph_sections [OF assms(2,3)]
  have "settled g None c' (real_names g)" if "\<not> cancelled"
  proof -
    have x: "sc_cancel s1 = None" using that execute_main by auto
    have "real_names g = set (concat (ag_order g))" using pok(3) execute_main g by simp
    with section_settles [OF execute_main(4) [unfolded g] pok(1)] x execute_main(1) show ?thesis
      by (fastforce simp: settled_def final_def terminal_def)
  qed
  with that execute_main g show ?thesis by blast
next
  case (execute_both g' x mainErr s1 finallyErr s2 cancelled)
  then have g: "g' = g" using assms(2) by simp
  note pok = graph_sections [OF assms(2,3)]
  have "settled g None c' (real_names g)" if "\<not> cancelled"
  proof -
    have x: "sc_cancel s1 = None" "sc_cancel s2 = None" using that execute_both by auto
    then have st: "finally_start s1 = section_start (sc_ctx s1) (sc_memo s1) None (sc_cancellable s1)"
      by (simp add: finally_start_def)
    have main: "final None (status_of (sc_ctx s2) n)" if "n \<in> set (concat (ag_order g))" "n \<in> real_names g" for n
    proof -
      have "n \<notin> set (concat (ag_finally g))" using that(1) assms(3) by (auto simp: graph_separate_def)
      moreover have "section_reach (env\<lparr>xe_schemaMode := w_schemaMode w\<rparr>) g (ag_finally g) (finally_start s1) s2"
        using execute_both g by (simp add: executePhases_def)
      ultimately have "GetResult (sc_ctx s2) n = GetResult (sc_ctx s1) n"
        using section_reach_other [OF _ section_inv_start pok(2)] unfolding st by (fastforce simp: section_start_def)
      then have "status_of (sc_ctx s2) n = status_of (sc_ctx s1) n" by (simp add: status_of_def)
      with section_settles [OF execute_both(4) [unfolded g] pok(1) _ that] x show ?thesis
        by (fastforce simp: final_def terminal_def)
    qed
    have "final None (status_of (sc_ctx s2) n)" if "n \<in> set (concat (ag_finally g))" "n \<in> real_names g" for n
      using section_settles [OF execute_both(5) [unfolded g st] pok(2) _ that] x
      by (fastforce simp: final_def terminal_def)
    with main show ?thesis using pok(3) execute_both(1) by (auto simp: settled_def)
  qed
  with that execute_both g show ?thesis by blast
qed

lemma Execute_succeeded:
  assumes "Execute env pick c (Some w) (Inr (r, err, c'))"
    and "BuildGraph (xe_val env) False (Some w) (xe_data env) = Inr g" "graph_separate g"
    and "er_finalStatus r = ExecutionSucceeded" "n \<in> real_names g"
  shows "status_of c' n = Some StatusSucceeded \<or> status_of c' n = Some StatusSkipped" "err = None"
proof -
  obtain cancelled mainErr finallyErr where
    fe: "finish_execution pick g c' cancelled mainErr finallyErr = (r, err)"
    and se: "cancelled \<or> settled g None c' (real_names g)"
    by (rule Execute_state [OF assms(1-3)])
  let ?ns = "range_set pick (map_keys (ag_actions g))"
  have r: "er_failed (collect_results c' ?ns empty_execution) = []" "\<not> cancelled" "mainErr = None"
    using fe assms(4) by (auto simp: finish_execution_def determineFinalStatus_def Let_def split: if_splits)
  then show "err = None" using fe by (auto simp: finish_execution_def Let_def)
  have "n \<in> set ?ns" using assms(5) by (simp add: set_range_set real_names_def map_keys_def dom_map_of_conv_image_fst)
  with r(1) have nf: "\<And>t. status_of c' n = Some t \<Longrightarrow> \<not> failed_status t"
    by (auto simp: collect_results_spec filter_empty_conv)
  have "final None (status_of c' n)" using se r(2) assms(5) by (simp add: settled_def)
  then obtain t where t: "status_of c' n = Some t" "IsTerminal t" "t \<noteq> StatusCancelled"
    by (auto simp: final_def terminal_def)
  with nf [OF t(1)] show "status_of c' n = Some StatusSucceeded \<or> status_of c' n = Some StatusSkipped"
    by (cases t) (auto simp: IsTerminal_def failed_status_def)
qed

lemma Execute_reports:
  assumes "Execute env pick c (Some w) (Inr (r, err, c'))"
    and "BuildGraph (xe_val env) False (Some w) (xe_data env) = Inr g" "graph_separate g"
  shows "set (er_failed r) = {n \<in> real_names g. \<exists>t. status_of c' n = Some t \<and> failed_status t}"
    and "set (er_skipped r) = {n \<in> real_names g. status_of c' n = Some StatusSkipped}"
    and "n \<in> real_names g \<Longrightarrow> map_of (er_actions r) n = GetResult c' n"
proof -
  obtain cancelled mainErr finallyErr where
    fe: "finish_execution pick g c' cancelled mainErr finallyErr = (r, err)"
    by (rule Execute_state [OF assms])
  let ?ns = "range_set pick (map_keys (ag_actions g))"
  have ns: "set ?ns = real_names g" by (simp add: set_range_set real_names_def map_keys_def dom_map_of_conv_image_fst)
  have r: "er_failed r = er_failed (collect_results c' ?ns empty_execution)"
    "er_skipped r = er_skipped (collect_results c' ?ns empty_execution)"
    "er_actions r = er_actions (collect_results c' ?ns empty_execution)"
    using fe by (auto simp: finish_execution_def Let_def)
  show "set (er_failed r) = {n \<in> real_names g. \<exists>t. status_of c' n = Some t \<and> failed_status t}"
    "set (er_skipped r) = {n \<in> real_names g. status_of c' n = Some StatusSkipped}"
    using ns by (auto simp: r collect_results_spec empty_execution_def)
  show "n \<in> real_names g \<Longrightarrow> map_of (er_actions r) n = GetResult c' n"
    using ns by (cases "GetResult c' n") (auto simp: r collect_results_spec empty_execution_def)
qed

text \<open>Every workflow can be executed to its end.\<close>

lemma Execute_total:
  assumes "\<And>g. BuildGraph (xe_val env) False (Some w) (xe_data env) = Inr g \<Longrightarrow> graph_separate g"
  shows "\<exists>res. Execute env pick c (Some w) res"
proof (cases "BuildGraph (xe_val env) False (Some w) (xe_data env)")
  case (Inl e)
  then show ?thesis by (blast intro: execute_graph)
next
  case (Inr g)
  note pok = graph_sections [OF Inr assms [OF Inr]]
  let ?env = "env\<lparr>xe_schemaMode := w_schemaMode w\<rparr>"
  obtain mainErr s1 where m: "executePhases ?env g (ag_order g) (section_start c [] None True) mainErr s1"
    using section_completes [OF section_inv_start pok(1)] by blast
  show ?thesis
  proof (cases "ag_finally g = []")
    case True
    obtain r err where "finish_execution pick g (sc_ctx s1) True mainErr None = (r, err)" by fastforce
    from execute_main [OF Inr True m _ this] show ?thesis by blast
  next
    case False
    have "section_inv ?env g (ag_finally g) (finally_start s1)" by (simp add: finally_start_def section_inv_start)
    from section_completes [OF this pok(2)] obtain finallyErr s2 where
      f: "executePhases ?env g (ag_finally g) (finally_start s1) finallyErr s2" by blast
    obtain r err where "finish_execution pick g (sc_ctx s2) True mainErr finallyErr = (r, err)" by fastforce
    from execute_both [OF Inr False m f _ this] show ?thesis by blast
  qed
qed


section \<open>Properties\<close>

text \<open>A run given by its choices, to evaluate concrete runs.\<close>

fun section_play ::
  "exec_env \<Rightarrow> action_graph \<Rightarrow> string list list \<Rightarrow> choice list \<Rightarrow> section_cfg \<Rightarrow> section_cfg option" where
  "section_play env g phases [] s = Some s"
| "section_play env g phases (ch # chs) s =
     (case section_step env g phases ch s of None \<Rightarrow> None | Some s' \<Rightarrow> section_play env g phases chs s')"

lemma section_play_reach:
  "section_play env g phases chs s = Some s' \<Longrightarrow> section_reach env g phases s0 s \<Longrightarrow> section_reach env g phases s0 s'"
  by (induction chs arbitrary: s) (auto split: option.splits intro: reach_step)

lemma section_play_the:
  "section_play env g phases chs s \<noteq> None \<Longrightarrow> section_reach env g phases s (the (section_play env g phases chs s))"
  using section_play_reach [OF _ reach_start] by fastforce

lemma section_play_run:
  "section_play env g phases chs s = Some s' \<Longrightarrow> section_run env g phases (length chs) s s'"
  by (induction chs arbitrary: s) (auto split: option.splits intro: section_run.intros)

lemma section_run_reach: "section_run env g phases k s t \<Longrightarrow> section_reach env g phases s t"
proof (induction rule: section_run.induct)
  case (more_steps ch s s' k t)
  have "section_reach env g phases s u" if "section_reach env g phases s' u" for u
    using that by (induction rule: section_reach.induct) (auto intro: reach_start reach_step more_steps.hyps(1))
  with more_steps.IH show ?case by blast
qed (rule reach_start)

definition sample_env :: "exec_env" where
  "sample_env = \<lparr>xe_val = sample_val_env, xe_retry = sample_retry_env, xe_data = [], xe_execution = None, xe_cwd = ''/w'',
     xe_max = 1, xe_timeout = 0, xe_schemaMode = SchemaUnset, xe_validate = (\<lambda>_ _. None), xe_rfc3339 = (\<lambda>_. []),
     xe_registry = Some (\<lambda>_. Some [''action'']), xe_calls = [], xe_coerce = (\<lambda>_ v. Inr v),
     xe_json = (\<lambda>_. Inr ''k''), xe_fingerprints = False, xe_noCache = False, xe_text = (\<lambda>_. ''problem'')\<rparr>"

definition sample_obs :: "(go_error + prov_output option) \<Rightarrow> action_obs" where
  "sample_obs r = \<lparr>ob_files = FpStale, ob_inputs = FpStale,
     ob_attempts = (\<lambda>_. \<lparr>ao_before = None, ao_delay = None, ao_result = r, ao_after = None\<rparr>), ob_done = None\<rparr>"

definition sample_ok :: "go_error + prov_output option" where
  "sample_ok = Inr (Some \<lparr>po_data = VInt 1, po_streamed = False\<rparr>)"

definition sample_goroutine :: "string \<Rightarrow> (go_error + prov_output option) \<Rightarrow> choice list" where
  "sample_goroutine n r = CAcquire n # replicate 8 (CStep n (sample_obs r) 1)"

definition sample_graph :: action_graph where
  "sample_graph = projr (BuildGraph sample_val_env False (Some sample_workflow) [])"

lemma sample_graph_built: "BuildGraph sample_val_env False (Some sample_workflow) [] = Inr sample_graph"
  unfolding sample_graph_def by (rule Inr_projr) code_simp

lemma sample_graph_separate: "graph_separate sample_graph"
  unfolding graph_separate_def by code_simp

definition sample_start :: section_cfg where
  "sample_start = section_start NewContext [] None True"

definition sample_phases :: "string list list" where
  "sample_phases = [[''a''], [''b''], [''c'']]"

definition sample_middle :: section_cfg where
  "sample_middle = the (section_play sample_env sample_graph sample_phases
     ([CBegin 0] @ sample_goroutine ''a'' sample_ok @ [CCollect ''a'' 1, CBegin 2, CAcquire ''b'']) sample_start)"

definition sample_end :: section_cfg where
  "sample_end = the (section_play sample_env sample_graph sample_phases
     ([CBegin 0] @ sample_goroutine ''a'' sample_ok @ [CCollect ''a'' 1, CBegin 2] @ sample_goroutine ''b'' sample_ok @
      [CCollect ''b'' 1, CBegin 2] @ sample_goroutine ''c'' sample_ok @ [CCollect ''c'' 1, CBegin 2]) sample_start)"

lemma sample_order: "ag_order sample_graph = sample_phases"
  by code_simp

lemma sample_middle_reach: "section_reach sample_env sample_graph (ag_order sample_graph) sample_start sample_middle"
proof -
  have "section_play sample_env sample_graph sample_phases
     ([CBegin 0] @ sample_goroutine ''a'' sample_ok @ [CCollect ''a'' 1, CBegin 2, CAcquire ''b'']) sample_start \<noteq> None"
    by code_simp
  then show ?thesis unfolding sample_order sample_middle_def by (rule section_play_the)
qed

lemma sample_end_reach:
  "section_reach sample_env sample_graph (ag_order sample_graph) sample_start sample_end"
  "sc_state sample_end = Over None" "sc_cancel sample_end = None"
  "status_of (sc_ctx sample_end) ''c'' = Some StatusSucceeded"
proof -
  have "section_play sample_env sample_graph sample_phases
     ([CBegin 0] @ sample_goroutine ''a'' sample_ok @ [CCollect ''a'' 1, CBegin 2] @ sample_goroutine ''b'' sample_ok @
      [CCollect ''b'' 1, CBegin 2] @ sample_goroutine ''c'' sample_ok @ [CCollect ''c'' 1, CBegin 2]) sample_start \<noteq> None"
    by code_simp
  then show "section_reach sample_env sample_graph (ag_order sample_graph) sample_start sample_end"
    unfolding sample_order sample_end_def by (rule section_play_the)
  have "(case sc_state sample_end of Over r \<Rightarrow> r = None | _ \<Rightarrow> False)" by code_simp
  then show "sc_state sample_end = Over None" by (auto split: section_state.splits)
  show "sc_cancel sample_end = None" "status_of (sc_ctx sample_end) ''c'' = Some StatusSucceeded" by code_simp+
qed





text \<open>C2: Termination and progress: a run of a section that was built makes at most 2 steps more than ten for each
  action and two for each phase, whatever the choices; and a reached state that is not over has a next
  step, so the section cannot be stuck.\<close>

theorem section_terminates:
  assumes "BuildGraph (xe_val env) False (Some w) data = Inr g" "graph_separate g"
    and "phases = ag_order g \<or> phases = ag_finally g"
    and "section_run env g phases k (section_start c memo x b) s"
  shows "k \<le> 2 + sum_list (map (\<lambda>p. 10 * length p + 2) phases) \<and>
     ((\<exists>r. sc_state s = Over r) \<or> (\<exists>ch s'. section_step env g phases ch s = Some s'))"
proof -
  have pok: "phases_ok g phases" using graph_sections(1,2) [OF assms(1,2)] assms(3) by blast
  have inv: "section_inv env g phases s"
    using section_inv_reach [OF section_run_reach [OF assms(4)] section_inv_start pok] .
  from section_run_bound [OF assms(4) section_inv_start pok] section_start_weight [of phases c memo x b]
  have "k \<le> 2 + phases_weight phases" by linarith
  with section_progress [OF inv] show ?thesis by (auto simp: phases_weight_def)
qed

definition sample_cancelled :: section_cfg where
  "sample_cancelled = the (section_play sample_env sample_graph sample_phases [CBegin 0, CAcquire ''a'', CCancel Canceled] sample_start)"

lemma sample_cancelled_run:
  "section_run sample_env sample_graph (ag_order sample_graph) 3 sample_start sample_cancelled"
proof -
  have "section_play sample_env sample_graph sample_phases [CBegin 0, CAcquire ''a'', CCancel Canceled] sample_start \<noteq> None"
    by code_simp
  then have "section_play sample_env sample_graph sample_phases [CBegin 0, CAcquire ''a'', CCancel Canceled] sample_start =
      Some sample_cancelled" by (auto simp: sample_cancelled_def simp del: section_play.simps)
  from section_play_run [OF this] show ?thesis unfolding sample_order by (simp add: numeral_3_eq_3)
qed

theorem section_terminates_witness:
  "section_run sample_env sample_graph (ag_order sample_graph) 3 sample_start sample_cancelled \<and>
   3 \<le> 2 + sum_list (map (\<lambda>p. 10 * length p + 2) (ag_order sample_graph)) \<and>
   (\<exists>ch s'. section_step sample_env sample_graph (ag_order sample_graph) ch sample_cancelled = Some s')"
proof -
  have e: "BuildGraph (xe_val sample_env) False (Some sample_workflow) [] = Inr sample_graph"
    by (simp add: sample_env_def sample_graph_built)
  have "\<not> (case sc_state sample_cancelled of Over r \<Rightarrow> True | _ \<Rightarrow> False)" by code_simp
  then have "\<nexists>x. sc_state sample_cancelled = Over x" by (auto split: section_state.splits)
  with section_terminates [OF e sample_graph_separate disjI1 [OF refl] sample_cancelled_run [unfolded sample_start_def]]
    sample_cancelled_run
  show ?thesis by blast
qed

text \<open>A section that ends and was not cancelled has given every one of its actions a final status other than
  cancelled.\<close>

theorem section_settles_all:
  assumes "BuildGraph (xe_val env) False (Some w) data = Inr g" "graph_separate g"
    and "phases = ag_order g \<or> phases = ag_finally g"
    and "executePhases env g phases (section_start c memo x b) r s" "sc_cancel s = None"
    and "n \<in> set (concat phases)"
  shows "\<exists>t. status_of (sc_ctx s) n = Some t \<and> IsTerminal t \<and> t \<noteq> StatusCancelled"
proof -
  have pok: "phases_ok g phases" using graph_sections(1,2) [OF assms(1,2)] assms(3) by blast
  have "n \<in> real_names g" using graph_sections(3) [OF assms(1,2)] assms(3,6) by auto
  from section_settles [OF assms(4) pok disjI1 [OF assms(5)] assms(6) this] assms(5) show ?thesis by blast
qed

theorem section_settles_all_witness:
  "executePhases sample_env sample_graph (ag_order sample_graph) sample_start None sample_end \<and>
   (\<exists>t. status_of (sc_ctx sample_end) ''c'' = Some t \<and> IsTerminal t \<and> t \<noteq> StatusCancelled)"
proof -
  have e: "BuildGraph (xe_val sample_env) False (Some sample_workflow) [] = Inr sample_graph"
    by (simp add: sample_env_def sample_graph_built)
  have x: "executePhases sample_env sample_graph (ag_order sample_graph) sample_start None sample_end"
    using sample_end_reach by (simp add: executePhases_def)
  have "''c'' \<in> set (concat (ag_order sample_graph))" by code_simp
  from section_settles_all [OF e sample_graph_separate disjI1 [OF refl] x [unfolded sample_start_def] sample_end_reach(3) this] x
  show ?thesis by blast
qed



definition sample_finally_end :: section_cfg where
  "sample_finally_end = the (section_play sample_env sample_graph [[''f'']]
     ([CBegin 3] @ sample_goroutine ''f'' sample_ok @ [CCollect ''f'' 4, CBegin 5]) (finally_start sample_end))"

definition sample_result :: "execution_result \<times> go_error option" where
  "sample_result = finish_execution (\<lambda>_. 0) sample_graph (sc_ctx sample_finally_end) False None None"

lemma sample_Execute:
  "Execute sample_env (\<lambda>_. 0) NewContext (Some sample_workflow)
     (Inr (fst sample_result, None, sc_ctx sample_finally_end))"
  "er_finalStatus (fst sample_result) = ExecutionSucceeded"
  "er_failed (fst sample_result) = []"
proof -
  have e: "BuildGraph (xe_val sample_env) False (Some sample_workflow) (xe_data sample_env) = Inr sample_graph"
    by (simp add: sample_env_def sample_graph_built)
  have f: "ag_finally sample_graph = [[''f'']]" by code_simp
  have m: "executePhases sample_env sample_graph (ag_order sample_graph) (section_start NewContext [] None True) None sample_end"
    using sample_end_reach by (simp add: executePhases_def sample_start_def)
  have s: "sample_env\<lparr>xe_schemaMode := w_schemaMode sample_workflow\<rparr> = sample_env"
    by (simp add: sample_env_def sample_workflow_def)
  have p: "section_play sample_env sample_graph [[''f'']]
     ([CBegin 3] @ sample_goroutine ''f'' sample_ok @ [CCollect ''f'' 4, CBegin 5]) (finally_start sample_end) \<noteq> None"
    by code_simp
  have "section_reach sample_env sample_graph [[''f'']] (finally_start sample_end) sample_finally_end"
    unfolding sample_finally_end_def by (rule section_play_the [OF p])
  moreover have "(case sc_state sample_finally_end of Over r \<Rightarrow> r = None | _ \<Rightarrow> False)" by code_simp
  ultimately have fin: "executePhases sample_env sample_graph (ag_finally sample_graph) (finally_start sample_end) None sample_finally_end"
    by (auto simp: executePhases_def f split: section_state.splits)
  have x: "sc_cancel sample_finally_end = None" "snd sample_result = None" by code_simp+
  have "finish_execution (\<lambda>_. 0) sample_graph (sc_ctx sample_finally_end) False None None = (fst sample_result, None)"
    using x(2) by (simp add: sample_result_def prod_eq_iff)
  then have r: "finish_execution (\<lambda>_. 0) sample_graph (sc_ctx sample_finally_end) False None None = (fst sample_result, None)" .
  have nf: "ag_finally sample_graph \<noteq> []" unfolding f by simp
  have c: "sc_cancel sample_end \<noteq> None \<or> sc_cancel sample_finally_end \<noteq> None \<longrightarrow> False"
    unfolding x(1) sample_end_reach(3) by simp
  show "Execute sample_env (\<lambda>_. 0) NewContext (Some sample_workflow)
     (Inr (fst sample_result, None, sc_ctx sample_finally_end))"
    by (rule execute_both [OF e nf _ _ c r]) (unfold s, rule m, rule fin)
  show "er_finalStatus (fst sample_result) = ExecutionSucceeded" "er_failed (fst sample_result) = []" by code_simp+
qed

text \<open>C4: A workflow reported as succeeded has run: every action of it, of both sections, succeeded or was skipped,
  and no error is returned.\<close>

theorem success_means_settled:
  assumes "Execute env pick c (Some w) (Inr (r, err, c'))"
    and "BuildGraph (xe_val env) False (Some w) (xe_data env) = Inr g" "graph_separate g"
    and "er_finalStatus r = ExecutionSucceeded" "n \<in> real_names g"
  shows "(status_of c' n = Some StatusSucceeded \<or> status_of c' n = Some StatusSkipped) \<and> err = None"
  using Execute_succeeded [OF assms] by blast

theorem success_means_settled_witness:
  "status_of (sc_ctx sample_finally_end) ''c'' = Some StatusSucceeded \<or>
   status_of (sc_ctx sample_finally_end) ''c'' = Some StatusSkipped"
proof -
  have e: "BuildGraph (xe_val sample_env) False (Some sample_workflow) (xe_data sample_env) = Inr sample_graph"
    by (simp add: sample_env_def sample_graph_built)
  have "map_of (ag_actions sample_graph) ''c'' \<noteq> None" by code_simp
  then have "''c'' \<in> real_names sample_graph" by (auto simp: real_names_def)
  from success_means_settled [OF sample_Execute(1) e sample_graph_separate sample_Execute(2) this] show ?thesis by blast
qed

text \<open>The report of a run is faithful to the context it leaves: the failed and the skipped actions are exactly
  those with such a status, and each action's result is the one recorded.\<close>

theorem report_is_faithful:
  assumes "Execute env pick c (Some w) (Inr (r, err, c'))"
    and "BuildGraph (xe_val env) False (Some w) (xe_data env) = Inr g" "graph_separate g"
  shows "set (er_failed r) = {n \<in> real_names g. \<exists>t. status_of c' n = Some t \<and> failed_status t} \<and>
    set (er_skipped r) = {n \<in> real_names g. status_of c' n = Some StatusSkipped} \<and>
    (\<forall>n \<in> real_names g. map_of (er_actions r) n = GetResult c' n)"
  using Execute_reports [OF assms] by blast

theorem report_is_faithful_witness:
  "map_of (er_actions (fst sample_result)) ''c'' = GetResult (sc_ctx sample_finally_end) ''c'' \<and>
   (''c'' \<in> set (er_failed (fst sample_result))) = False"
proof -
  have e: "BuildGraph (xe_val sample_env) False (Some sample_workflow) (xe_data sample_env) = Inr sample_graph"
    by (simp add: sample_env_def sample_graph_built)
  have "map_of (ag_actions sample_graph) ''c'' \<noteq> None" by code_simp
  then have "''c'' \<in> real_names sample_graph" by (auto simp: real_names_def)
  with report_is_faithful [OF sample_Execute(1) e sample_graph_separate] sample_Execute(3) show ?thesis by simp
qed

text \<open>Every workflow whose two sections share no action name can be executed to its end: a result or an error of
  the graph is reached.\<close>

theorem workflow_completes:
  assumes "\<And>g. BuildGraph (xe_val env) False (Some w) (xe_data env) = Inr g \<Longrightarrow> graph_separate g"
  shows "\<exists>res. Execute env pick c (Some w) res"
  using Execute_total [OF assms] .

theorem workflow_completes_witness:
  "\<exists>res. Execute sample_env (\<lambda>_. 0) NewContext (Some sample_workflow) res"
proof (rule workflow_completes)
  fix g assume "BuildGraph (xe_val sample_env) False (Some sample_workflow) (xe_data sample_env) = Inr g"
  then have "g = sample_graph" using sample_graph_built by (simp add: sample_env_def)
  then show "graph_separate g" by (simp add: sample_graph_separate)
qed

text \<open>The retries of a call with a memo key are void: every attempt gets the result of the first call made with
  that key, so a failure that is memoised fails every attempt.\<close>

theorem dedup_defeats_retry:
  assumes "cp_dedup plan = Some key"
  shows "ao_result (run_attempts env plan obs memo i) = ao_result (run_attempts env plan obs memo 1)"
  using assms by (simp add: run_attempts_def)

theorem dedup_defeats_retry_witness:
  "ao_result (run_attempts sample_env \<lparr>cp_provider = ''p'', cp_inputs = [], cp_dedup = Some ''k''\<rparr>
      ((sample_obs sample_ok)\<lparr>ob_attempts := \<lambda>i. \<lparr>ao_before = None, ao_delay = None,
          ao_result = (if i = 1 then Inl (new_error ''flaky'') else sample_ok), ao_after = None\<rparr>\<rparr>) [] 2) = Inl (new_error ''flaky'')"
  using dedup_defeats_retry [of "\<lparr>cp_provider = ''p'', cp_inputs = [], cp_dedup = Some ''k''\<rparr>" "''k''" sample_env
      "(sample_obs sample_ok)\<lparr>ob_attempts := \<lambda>i. \<lparr>ao_before = None, ao_delay = None,
          ao_result = (if i = 1 then Inl (new_error ''flaky'') else sample_ok), ao_after = None\<rparr>\<rparr>" "[]" 2]
  by (simp add: run_attempts_def callProvider_def sample_env_def memo_Do_def)

end
