(* ===== verification/Resolver_Proc.thy ===== *)
theory Resolver_Proc
  imports Phases Call Action_Types "HOL-Library.Multiset"
begin

text \<open>
  The shared state of a resolver run (\<open>pkg/resolver/context.go\<close>, the map of failed resolvers,
  the memo) and the programs that run on it.

  The goroutines of a phase share the context without a lock around their work: every access
  is one operation of a \<open>sync.Map\<close>.  A program is therefore a tree of requests: it asks for one
  access, one provider call, one choice of the scheduler, and continues with the answer.
  A run interleaves the requests of the programs in any order.
\<close>

subsection \<open>Errors and results\<close>

text \<open>
  An error: its text, whether \<open>errors.As\<close> finds an \<open>AggregatedValidationError\<close> in its chain, and
  the phase of the first \<open>ExecutionError\<close> of the chain.
\<close>

record rerror =
  xr_msg :: string
  xr_agg :: bool
  xr_exec :: "string option"

definition plain_err :: "string \<Rightarrow> rerror" where
  "plain_err m = \<lparr>xr_msg = m, xr_agg = False, xr_exec = None\<rparr>"

definition wrap_err :: "string \<Rightarrow> rerror \<Rightarrow> rerror" where
  "wrap_err pre e = e\<lparr>xr_msg := pre @ xr_msg e\<rparr>"

datatype failure_kind = failureFatal | failureValidation

definition classifyFailure :: "rerror \<Rightarrow> failure_kind" where
  "classifyFailure e = (if xr_agg e \<or> xr_exec e = Some ''validate'' then failureValidation else failureFatal)"

record provider_attempt =
  at_provider :: string
  at_phase :: string
  at_error :: string
  at_onError :: error_behavior
  at_step :: nat

datatype rstatus = RSuccess | RFailed | RSkipped | RUnset

record rresult =
  rs_value :: gval
  rs_status :: rstatus
  rs_phase :: nat
  rs_error :: "rerror option"
  rs_metrics :: "string list"
  rs_calls :: nat
  rs_size :: nat
  rs_deps :: nat
  rs_attempts :: "provider_attempt list"

definition new_result :: "nat \<Rightarrow> rresult" where
  "new_result phase = \<lparr>rs_value = VNil, rs_status = RSuccess, rs_phase = phase, rs_error = None, rs_metrics = [],
     rs_calls = 0, rs_size = 0, rs_deps = 0, rs_attempts = []\<rparr>"

subsection \<open>The context\<close>

text \<open>A cell of the data map: a value, or the list of attempts kept under \<open>__failed_attempts\<close>.\<close>

datatype cell = CVal gval | CAttempts "provider_attempt list"

record rctx =
  rc_data :: "cell gomap"
  rc_results :: "rresult gomap"
  rc_failed :: "failure_kind gomap"
  rc_memo :: "(rerror, gval) memo"

definition rctx_New :: rctx where
  "rctx_New = \<lparr>rc_data = [], rc_results = [], rc_failed = [], rc_memo = []\<rparr>"

definition rctx_Set :: "string \<Rightarrow> gval \<Rightarrow> rctx \<Rightarrow> rctx" where
  "rctx_Set n v c = c\<lparr>rc_data := map_put n (CVal v) (rc_data c),
     rc_results := map_put n ((new_result 0)\<lparr>rs_value := v\<rparr>) (rc_results c)\<rparr>"

definition rctx_SetResult :: "string \<Rightarrow> rresult \<Rightarrow> rctx \<Rightarrow> rctx" where
  "rctx_SetResult n r c = c\<lparr>rc_data := map_put n (CVal (rs_value r)) (rc_data c),
     rc_results := map_put n r (rc_results c)\<rparr>"

definition rctx_Get :: "string \<Rightarrow> rctx \<Rightarrow> cell option" where
  "rctx_Get n c = map_of (rc_data c) n"

definition rctx_GetResult :: "rctx \<Rightarrow> string \<Rightarrow> rresult option" where
  "rctx_GetResult c n = map_of (rc_results c) n"

definition rctx_Has :: "string \<Rightarrow> rctx \<Rightarrow> bool" where
  "rctx_Has n c = map_has (rc_data c) n"

text \<open>\<open>ToMap\<close>; \<open>disp\<close> is the value an expression sees for the list of attempts.\<close>

definition cell_value :: "(provider_attempt list \<Rightarrow> gval) \<Rightarrow> cell \<Rightarrow> gval" where
  "cell_value disp x = (case x of CVal v \<Rightarrow> v | CAttempts as \<Rightarrow> disp as)"

definition rctx_ToMap :: "(provider_attempt list \<Rightarrow> gval) \<Rightarrow> rctx \<Rightarrow> gval gomap" where
  "rctx_ToMap disp c = map (\<lambda>(n, x). (n, cell_value disp x)) (rc_data c)"

definition rctx_GetAllResults :: "rctx \<Rightarrow> rresult gomap" where
  "rctx_GetAllResults c = rc_results c"

subsection \<open>Requests and programs\<close>

datatype exec_mode = NoMode | ModeFrom | ModeTransform

text \<open>What a provider is called with.\<close>

record prov_call =
  pc_provider :: string
  pc_mode :: exec_mode
  pc_scalar :: "string option"
  pc_data :: "gval gomap"
  pc_inputs :: "gval gomap"
  pc_iter :: "iteration_context option"

datatype outcome = OErr rerror | OSkipped | ODepSkipped | ODone

datatype request =
    QSnapshot
  | QLoad string
  | QStore string cell
  | QDelete string
  | QSetResult string rresult
  | QResult string
  | QFailed string
  | QStoreFailed string failure_kind
  | QInvoke prov_call
  | QOnce string "rerror + prov_call"
  | QPick "nat list"
  | QAcquire
  | QRelease
  | QExpired
  | QSend string outcome

datatype response =
    PUnit
  | PData "gval gomap"
  | PCell "cell option"
  | PResult "rresult option"
  | PFailed "failure_kind option"
  | PProv "rerror + gval option"
  | POnce "rerror + gval"
  | PNat nat
  | PBool bool

fun the_data :: "response \<Rightarrow> gval gomap" where "the_data (PData d) = d" | "the_data _ = []"
fun the_cell :: "response \<Rightarrow> cell option" where "the_cell (PCell x) = x" | "the_cell _ = None"
fun the_result :: "response \<Rightarrow> rresult option" where "the_result (PResult x) = x" | "the_result _ = None"
fun the_failed :: "response \<Rightarrow> failure_kind option" where "the_failed (PFailed k) = k" | "the_failed _ = None"
fun the_prov :: "response \<Rightarrow> rerror + gval option" where "the_prov (PProv r) = r" | "the_prov _ = Inr None"
fun the_once :: "response \<Rightarrow> rerror + gval" where "the_once (POnce r) = r" | "the_once _ = Inr VNil"
fun the_nat :: "response \<Rightarrow> nat" where "the_nat (PNat n) = n" | "the_nat _ = 0"
fun the_bool :: "response \<Rightarrow> bool" where "the_bool (PBool b) = b" | "the_bool _ = False"

datatype 'r prog = Ret 'r | Ask request "response \<Rightarrow> 'r prog"

primrec bindP :: "'r prog \<Rightarrow> ('r \<Rightarrow> 's prog) \<Rightarrow> 's prog" where
  "bindP (Ret x) k = k x"
| "bindP (Ask q f) k = Ask q (\<lambda>r. bindP (f r) k)"

definition doP :: "request \<Rightarrow> 'r prog \<Rightarrow> 'r prog" where
  "doP q p = Ask q (\<lambda>_. p)"

lemma bindP_doP [simp]: "bindP (doP q p) k = doP q (bindP p k)"
  by (simp add: doP_def)

lemma bindP_assoc: "bindP (bindP p k) l = bindP p (\<lambda>x. bindP (k x) l)"
  by (induction p) (simp_all add: fun_eq_iff)

lemma bindP_Ret: "bindP p Ret = p"
  by (induction p) (simp_all add: fun_eq_iff)

subsection \<open>Goroutines of a program\<close>

text \<open>
  A loop over items that starts one goroutine each and waits for all: an idle goroutine waits
  for the semaphore of \<open>limit\<close> (0 for none), a live one has its remaining program.  The scheduler
  picks among those that can move.
\<close>

datatype 'r thread = Idle "'r prog" | Live "'r prog"

fun is_moving :: "'r thread \<Rightarrow> bool" where
  "is_moving (Live (Ask q f)) = True"
| "is_moving _ = False"

fun can_move :: "int \<Rightarrow> nat \<Rightarrow> 'r thread \<Rightarrow> bool" where
  "can_move limit n (Idle p) = (limit \<le> 0 \<or> int n < limit)"
| "can_move limit n (Live (Ask q f)) = True"
| "can_move limit n (Live (Ret x)) = False"

definition movable :: "int \<Rightarrow> 'r thread list \<Rightarrow> nat list" where
  "movable limit ts =
     (let n = length (filter is_moving ts) in filter (\<lambda>i. can_move limit n (ts ! i)) [0 ..< length ts])"

fun thread_result :: "'r thread \<Rightarrow> 'r list" where
  "thread_result (Live (Ret x)) = [x]"
| "thread_result _ = []"

definition pick_from :: "nat list \<Rightarrow> nat \<Rightarrow> nat" where
  "pick_from is k = is ! (k mod length is)"

text \<open>The order by which the goroutines shrink.\<close>

definition subprog :: "('r prog \<times> 'r prog) set" where
  "subprog = {(f x, Ask q f) | f x q. True}"

lemma subprogI: "(f x, Ask q f) \<in> subprog"
  by (auto simp: subprog_def)

lemma wf_subprog: "wf subprog"
proof (rule wfUNIVI)
  fix P :: "'r prog \<Rightarrow> bool" and p
  assume step: "\<forall>x. (\<forall>y. (y, x) \<in> subprog \<longrightarrow> P y) \<longrightarrow> P x"
  show "P p"
  proof (induction p)
    case (Ret x)
    show ?case by (rule mp [OF spec [OF step]]) (simp add: subprog_def)
  next
    case (Ask q f)
    have "\<forall>y. (y, Ask q f) \<in> subprog \<longrightarrow> P y" using Ask by (auto simp: subprog_def)
    then show ?case by (rule mp [OF spec [OF step]])
  qed
qed

fun thread_key :: "'r thread \<Rightarrow> 'r prog \<times> nat" where
  "thread_key (Idle p) = (p, 1)"
| "thread_key (Live p) = (p, 0)"

definition thread_less :: "(('r prog \<times> nat) \<times> ('r prog \<times> nat)) set" where
  "thread_less = subprog <*lex*> less_than"

definition threads_less :: "('r thread list \<times> 'r thread list) set" where
  "threads_less = inv_image (mult thread_less) (\<lambda>ts. mset (map thread_key ts))"

lemma wf_threads_less: "wf threads_less"
  by (simp add: threads_less_def thread_less_def wf_mult wf_lex_prod wf_subprog)

lemma threads_less_update:
  assumes "i < length ts" "(thread_key t, thread_key (ts ! i)) \<in> thread_less"
  shows "(ts[i := t], ts) \<in> threads_less"
proof -
  let ?M = "mset (map thread_key ts) - {#thread_key (ts ! i)#}"
  have m: "thread_key (ts ! i) \<in># mset (map thread_key ts)" using assms(1) by simp
  have "mset (map thread_key (ts[i := t])) = ?M + {#thread_key t#}"
    using assms(1) by (simp add: map_update mset_update)
  moreover have "mset (map thread_key ts) = ?M + {#thread_key (ts ! i)#}" using m by simp
  ultimately have "(mset (map thread_key (ts[i := t])), mset (map thread_key ts)) \<in> mult1 thread_less"
    using assms(2) by (intro mult1I [of _ "thread_key (ts ! i)" ?M _ "{#thread_key t#}"]) simp_all
  then show ?thesis by (simp add: threads_less_def mult_def)
qed

lemma pick_from_in: "is \<noteq> [] \<Longrightarrow> pick_from is k \<in> set is"
  by (simp add: pick_from_def)

lemma movable_in: "i \<in> set (movable limit ts) \<Longrightarrow> i < length ts \<and> (\<exists>n. can_move limit n (ts ! i))"
  by (auto simp: movable_def Let_def)

function par :: "int \<Rightarrow> 'r thread list \<Rightarrow> 'r list prog" where
  "par limit ts =
     (case movable limit ts of
        [] \<Rightarrow> Ret (concat (map thread_result ts))
      | j # js \<Rightarrow>
          Ask (QPick (j # js)) (\<lambda>r.
            case ts ! pick_from (j # js) (the_nat r) of
              Idle p \<Rightarrow> par limit (ts[pick_from (j # js) (the_nat r) := Live p])
            | Live (Ask q f) \<Rightarrow> Ask q (\<lambda>a. par limit (ts[pick_from (j # js) (the_nat r) := Live (f a)]))
            | Live (Ret x) \<Rightarrow> Ret []))"
  by pat_completeness auto
termination par
proof (relation "inv_image threads_less snd", goal_cases)
  case 1
  show ?case by (simp add: wf_threads_less)
next
  case (2 limit ts j js r p)
  let ?i = "pick_from (j # js) (the_nat r)"
  have "?i < length ts" using movable_in [of ?i limit ts] pick_from_in [of "j # js" "the_nat r"] 2(1) by simp
  then show ?case using 2(2) by (auto intro!: threads_less_update simp: thread_less_def subprogI)
next
  case (3 limit ts j js r p q f a)
  let ?i = "pick_from (j # js) (the_nat r)"
  have "?i < length ts" using movable_in [of ?i limit ts] pick_from_in [of "j # js" "the_nat r"] 3(1) by simp
  then show ?case using 3(2,3) by (auto intro!: threads_less_update simp: thread_less_def subprogI)
qed

declare par.simps [simp del]

definition go_all :: "int \<Rightarrow> 'r prog list \<Rightarrow> 'r list prog" where
  "go_all limit ps = par limit (map Idle ps)"

subsection \<open>Runs\<close>

text \<open>
  The state of a phase: the context, the goroutines by the name of their resolver, how many hold
  the semaphore, whether the phase's deadline has passed, and what was sent on the result channel.
\<close>

record phase_cfg =
  pz_ctx :: rctx
  pz_threads :: "(string \<times> unit prog) list"
  pz_held :: nat
  pz_expired :: bool
  pz_sent :: "(string \<times> outcome) list"

text \<open>What the world decides: a provider's result, the scheduler's pick, the ready case of a select.\<close>

datatype decision = DNone | DProv "rerror + gval option" | DNat nat | DBool bool

fun dec_prov :: "decision \<Rightarrow> rerror + gval option" where
  "dec_prov (DProv r) = r" | "dec_prov _ = Inr None"

definition provider_output :: "rerror + gval option \<Rightarrow> rerror + gval" where
  "provider_output r =
     (case r of Inl e \<Rightarrow> Inl e | Inr None \<Rightarrow> Inl (plain_err ''provider returned nil output'') | Inr (Some v) \<Rightarrow> Inr v)"

text \<open>
  One request.  \<open>None\<close>: it has to wait.  \<open>limit\<close> is the semaphore of the phase; the memo runs the
  call of a key the first time it is asked for.
\<close>

fun respond ::
  "(provider_attempt list \<Rightarrow> gval) \<Rightarrow> nat \<Rightarrow> request \<Rightarrow> decision \<Rightarrow> phase_cfg \<Rightarrow> (response \<times> phase_cfg) option" where
  "respond disp limit QSnapshot d s = Some (PData (rctx_ToMap disp (pz_ctx s)), s)"
| "respond disp limit (QLoad n) d s = Some (PCell (rctx_Get n (pz_ctx s)), s)"
| "respond disp limit (QStore n x) d s =
     Some (PUnit, s\<lparr>pz_ctx := (pz_ctx s)\<lparr>rc_data := map_put n x (rc_data (pz_ctx s))\<rparr>\<rparr>)"
| "respond disp limit (QDelete n) d s =
     Some (PUnit, s\<lparr>pz_ctx := (pz_ctx s)\<lparr>rc_data := map_del n (rc_data (pz_ctx s))\<rparr>\<rparr>)"
| "respond disp limit (QSetResult n r) d s = Some (PUnit, s\<lparr>pz_ctx := rctx_SetResult n r (pz_ctx s)\<rparr>)"
| "respond disp limit (QResult n) d s = Some (PResult (rctx_GetResult (pz_ctx s) n), s)"
| "respond disp limit (QFailed n) d s = Some (PFailed (map_of (rc_failed (pz_ctx s)) n), s)"
| "respond disp limit (QStoreFailed n k) d s =
     Some (PUnit, s\<lparr>pz_ctx := (pz_ctx s)\<lparr>rc_failed := map_put n k (rc_failed (pz_ctx s))\<rparr>\<rparr>)"
| "respond disp limit (QInvoke c) d s = Some (PProv (dec_prov d), s)"
| "respond disp limit (QOnce key req) d s =
     (let result = (case req of Inl e \<Rightarrow> Inl e | Inr c \<Rightarrow> provider_output (dec_prov d));
          (r, memo) = memo_Do key result (rc_memo (pz_ctx s)) in
      Some (POnce r, s\<lparr>pz_ctx := (pz_ctx s)\<lparr>rc_memo := memo\<rparr>\<rparr>))"
| "respond disp limit (QPick is) d s = Some (PNat (case d of DNat k \<Rightarrow> k | _ \<Rightarrow> 0), s)"
| "respond disp limit QAcquire d s =
     (if d = DBool False \<and> pz_expired s then Some (PBool False, s)
      else if d \<noteq> DBool False \<and> pz_held s < limit then Some (PBool True, s\<lparr>pz_held := Suc (pz_held s)\<rparr>)
      else None)"
| "respond disp limit QRelease d s = Some (PUnit, s\<lparr>pz_held := pz_held s - 1\<rparr>)"
| "respond disp limit QExpired d s = Some (PBool (pz_expired s), s)"
| "respond disp limit (QSend n x) d s = Some (PUnit, s\<lparr>pz_sent := pz_sent s @ [(n, x)]\<rparr>)"

datatype move = Advance nat decision | Expire

fun phase_step ::
  "(provider_attempt list \<Rightarrow> gval) \<Rightarrow> nat \<Rightarrow> move \<Rightarrow> phase_cfg \<Rightarrow> phase_cfg option" where
  "phase_step disp limit Expire s = (if pz_expired s then None else Some (s\<lparr>pz_expired := True\<rparr>))"
| "phase_step disp limit (Advance i d) s =
     (if i < length (pz_threads s)
      then (case pz_threads s ! i of
              (n, Ret _) \<Rightarrow> None
            | (n, Ask q f) \<Rightarrow>
                (case respond disp limit q d s of
                   None \<Rightarrow> None
                 | Some (r, s') \<Rightarrow> Some (s'\<lparr>pz_threads := (pz_threads s)[i := (n, f r)]\<rparr>)))
      else None)"

inductive phase_runs ::
  "(provider_attempt list \<Rightarrow> gval) \<Rightarrow> nat \<Rightarrow> phase_cfg \<Rightarrow> phase_cfg \<Rightarrow> bool" for disp limit s0 where
  run_start: "phase_runs disp limit s0 s0"
| run_next: "phase_runs disp limit s0 s \<Longrightarrow> phase_step disp limit m s = Some s' \<Longrightarrow> phase_runs disp limit s0 s'"

definition all_returned :: "phase_cfg \<Rightarrow> bool" where
  "all_returned s = list_all (\<lambda>(n, p). case p of Ret _ \<Rightarrow> True | Ask _ _ \<Rightarrow> False) (pz_threads s)"

text \<open>A program that no other goroutine interleaves with.\<close>

inductive alone ::
  "(provider_attempt list \<Rightarrow> gval) \<Rightarrow> 'r prog \<Rightarrow> phase_cfg \<Rightarrow> 'r \<Rightarrow> phase_cfg \<Rightarrow> bool" for disp where
  alone_ret: "alone disp (Ret x) s x s"
| alone_ask:
    "respond disp limit q d s = Some (a, s') \<Longrightarrow> alone disp (f a) s' x s'' \<Longrightarrow> alone disp (Ask q f) s x s''"

end
