(* ===== verification/Resolver_Exec.thy ===== *)
theory Resolver_Exec
  imports Resolver_Proc
begin

text \<open>
  \<open>pkg/resolver/executor.go\<close> and \<open>call.go\<close>: executing one resolver, a phase of resolvers and a
  run, as programs over the shared context of \<open>Resolver_Proc\<close>.

  Parameters (\<open>renv\<close>): the engines of \<open>val_env\<close> and \<open>deps_env\<close>; the provider registry (which names
  exist, and the write operations of a descriptor, \<open>None\<close> when it does not classify them);
  \<open>CoerceType\<close>; the JSON encoder; the type name \<open>%T\<close> and the text \<open>%v\<close> of a value; the texts of the
  errors of \<open>Value_Ref\<close> and \<open>Call\<close>; the size of a value as JSON; and how an expression sees Go values
  that are not \<open>gval\<close>s: the list of failed attempts, the record of a failed or completed iteration,
  the pointer to a value.  The other fields are the options of the executor.
\<close>

record renv =
  rx_val :: val_env
  rx_deps :: deps_env
  rx_registry :: "string \<Rightarrow> bool"
  rx_write :: "string \<Rightarrow> (string \<Rightarrow> bool) option"
  rx_calls :: "call_def option gomap"
  rx_coerce :: "string \<Rightarrow> gval \<Rightarrow> string + gval"
  rx_json :: "gval gomap \<Rightarrow> string + string"
  rx_type :: "gval \<Rightarrow> string"
  rx_show :: "gval \<Rightarrow> string"
  rx_ref_text :: "ref_error \<Rightarrow> string"
  rx_call_text :: "string \<Rightarrow> call_error \<Rightarrow> string"
  rx_size :: "gval \<Rightarrow> nat"
  rx_attempts :: "provider_attempt list \<Rightarrow> gval"
  rx_iteration :: "nat \<Rightarrow> string + gval \<Rightarrow> gval \<Rightarrow> gval"
  rx_pointer :: "gval \<Rightarrow> gval"
  rx_maxConcurrency :: nat
  rx_validateAll :: bool
  rx_nonFatal :: bool
  rx_skipValidation :: bool
  rx_skipTransform :: bool
  rx_deferred :: bool
  rx_mocked :: "gval gomap"
  rx_seeded :: "rresult option gomap"
  rx_maxSize :: nat

definition snapshot :: "(gval gomap \<Rightarrow> 'r prog) \<Rightarrow> 'r prog" where
  "snapshot k = Ask QSnapshot (\<lambda>r. k (the_data r))"

definition fail_text :: "string \<Rightarrow> rerror + 'a" where
  "fail_text m = Inl (plain_err m)"

subsection \<open>Conditions\<close>

definition plan_data_of :: "gval gomap \<Rightarrow> gval gomap" where
  "plan_data_of data = map_del ''__plan'' data"

definition plan_vars :: "gval gomap \<Rightarrow> gval gomap \<Rightarrow> gval gomap" where
  "plan_vars data vars = (case map_of data ''__plan'' of None \<Rightarrow> vars | Some p \<Rightarrow> map_put ''__plan'' p vars)"

definition bool_result :: "renv \<Rightarrow> string \<Rightarrow> string + gval \<Rightarrow> rerror + bool" where
  "bool_result env prefix r =
     (case r of
        Inl m \<Rightarrow> fail_text (prefix @ '' evaluation failed: '' @ m)
      | Inr (VBool b) \<Rightarrow> Inr b
      | Inr v \<Rightarrow> fail_text (prefix @ '' must evaluate to boolean, got '' @ rx_type env v))"

text \<open>The condition with additional variables; \<open>__plan\<close> is moved from the data to the variables.\<close>

definition condition_with ::
  "renv \<Rightarrow> string \<Rightarrow> condition option \<Rightarrow> gval gomap \<Rightarrow> bool \<Rightarrow> (rerror + bool) prog" where
  "condition_with env prefix c vars dflt =
     (case (case c of None \<Rightarrow> None | Some k \<Rightarrow> c_expr k) of
        None \<Rightarrow> Ret (Inr dflt)
      | Some x \<Rightarrow> snapshot (\<lambda>data.
          Ret (bool_result env prefix (ve_cel (rx_val env) x (plan_data_of data) (plan_vars data vars)))))"

definition rx_evaluateCondition :: "renv \<Rightarrow> condition option \<Rightarrow> (rerror + bool) prog" where
  "rx_evaluateCondition env c = condition_with env ''condition'' c [] True"

definition evaluateConditionWithSelf :: "renv \<Rightarrow> condition option \<Rightarrow> gval \<Rightarrow> (rerror + bool) prog" where
  "evaluateConditionWithSelf env c self = condition_with env ''condition'' c [(''__self'', self)] True"

definition evaluateContinueCondition :: "renv \<Rightarrow> condition option \<Rightarrow> rerror \<Rightarrow> (rerror + bool) prog" where
  "evaluateContinueCondition env c e =
     condition_with env ''continueOnError condition'' c [(''__error'', VStr (xr_msg e))] False"

text \<open>\<open>evaluateConditionWithIterationContext\<close> leaves \<open>__plan\<close> in the data.\<close>

definition evaluateConditionWithIteration ::
  "renv \<Rightarrow> condition option \<Rightarrow> gval \<Rightarrow> iteration_context \<Rightarrow> (rerror + bool) prog" where
  "evaluateConditionWithIteration env c self ic =
     (case (case c of None \<Rightarrow> None | Some k \<Rightarrow> c_expr k) of
        None \<Rightarrow> Ret (Inr True)
      | Some x \<Rightarrow> snapshot (\<lambda>data.
          Ret (bool_result env ''condition''
                (ve_cel (rx_val env) x data (iteration_vars ic [(''__self'', self)])))))"

definition effectiveShouldFail :: "renv \<Rightarrow> condition option \<Rightarrow> rerror \<Rightarrow> bool \<Rightarrow> (rerror + bool) prog" where
  "effectiveShouldFail env c e baseFail =
     (case (case c of None \<Rightarrow> None | Some k \<Rightarrow> c_expr k) of
        None \<Rightarrow> Ret (Inr baseFail)
      | Some _ \<Rightarrow> bindP (evaluateContinueCondition env c e)
          (\<lambda>r. Ret (case r of Inl x \<Rightarrow> Inl x | Inr cont \<Rightarrow> Inr (\<not> cont))))"

subsection \<open>Provider calls\<close>

text \<open>The inputs of a step; a nil input is an error (\<open>strict\<close>) or resolves to nil.\<close>

fun resolve_step_inputs ::
  "renv \<Rightarrow> bool \<Rightarrow> gval gomap \<Rightarrow> gval \<Rightarrow> iteration_context option \<Rightarrow> value_ref option gomap \<Rightarrow> gval gomap \<Rightarrow>
   rerror + gval gomap" where
  "resolve_step_inputs env strict data self ic [] ins = Inr ins"
| "resolve_step_inputs env strict data self ic ((k, r) # rs) ins =
     (if strict \<and> r = None
      then fail_text (''input '' @ quoted k @ '' has no value (nil); check for dangling YAML keys with no value'')
      else (case ResolveWithIterationContext (rx_val env) data self ic r of
              Inl x \<Rightarrow> fail_text (''failed to resolve input '' @ quoted k @ '': '' @ rx_ref_text env x)
            | Inr v \<Rightarrow> resolve_step_inputs env strict data self ic rs (map_put k v ins)))"

definition ValidateWriteOperation :: "renv \<Rightarrow> exec_mode \<Rightarrow> string \<Rightarrow> gval gomap \<Rightarrow> rerror option" where
  "ValidateWriteOperation env mode p ins =
     (case rx_write env p of
        None \<Rightarrow> None
      | Some writes \<Rightarrow>
          if mode = NoMode then None
          else (case map_of ins ''operation'' of
                  Some (VStr opn) \<Rightarrow>
                    if opn = [] then None
                    else if writes opn
                    then Some (plain_err (''operation '' @ quoted opn @
                           '' is a write operation and cannot be used in read-only execution mode '' @
                           quoted (case mode of ModeFrom \<Rightarrow> ''from'' | _ \<Rightarrow> ''transform'') @ ''; use a workflow action instead''))
                    else None
                | _ \<Rightarrow> None))"

definition context_data :: "gval gomap \<Rightarrow> gval \<Rightarrow> iteration_context option \<Rightarrow> gval gomap" where
  "context_data data self ic =
     (case ic of
        None \<Rightarrow> if self \<noteq> VNil then map_put ''__self'' self data else data
      | Some c \<Rightarrow> iteration_vars c (map_put ''__self'' self data))"

record step_ctx =
  sx_mode :: exec_mode
  sx_scalar :: "string option"

text \<open>From the inputs to the call; the provider exists.\<close>

definition prepare_call ::
  "renv \<Rightarrow> step_ctx \<Rightarrow> bool \<Rightarrow> string \<Rightarrow> value_ref option gomap \<Rightarrow> gval \<Rightarrow> iteration_context option \<Rightarrow>
   gval gomap \<Rightarrow> rerror + prov_call" where
  "prepare_call env sx strict p inputs self ic data =
     (case resolve_step_inputs env strict data self ic inputs [] of
        Inl e \<Rightarrow> Inl e
      | Inr ins \<Rightarrow>
          (case ValidateWriteOperation env (sx_mode sx) p ins of
             Some e \<Rightarrow> Inl e
           | None \<Rightarrow> Inr \<lparr>pc_provider = p, pc_mode = sx_mode sx, pc_scalar = sx_scalar sx,
                          pc_data = context_data data self ic, pc_inputs = ins, pc_iter = ic\<rparr>))"

definition no_provider :: "string \<Rightarrow> rerror + 'a" where
  "no_provider p = fail_text (''provider '' @ quoted p @ '' not found'')"

definition invoke :: "prov_call \<Rightarrow> (rerror + gval) prog" where
  "invoke c = Ask (QInvoke c) (\<lambda>r. Ret (provider_output (the_prov r)))"

text \<open>\<open>executeProviderWithSelf\<close> (no iteration) and \<open>executeProviderWithIterationContext\<close>.\<close>

definition executeProvider ::
  "renv \<Rightarrow> step_ctx \<Rightarrow> string \<Rightarrow> value_ref option gomap \<Rightarrow> gval \<Rightarrow> iteration_context option \<Rightarrow> (rerror + gval) prog" where
  "executeProvider env sx p inputs self ic =
     (if \<not> rx_registry env p then Ret (no_provider p)
      else snapshot (\<lambda>data.
        case prepare_call env sx (ic = None) p inputs self ic data of Inl e \<Rightarrow> Ret (Inl e) | Inr c \<Rightarrow> invoke c))"

fun resolve_step_args ::
  "renv \<Rightarrow> string \<Rightarrow> gval gomap \<Rightarrow> gval \<Rightarrow> iteration_context option \<Rightarrow> value_ref option gomap \<Rightarrow> gval gomap \<Rightarrow>
   rerror + gval gomap" where
  "resolve_step_args env name data self ic [] args = Inr args"
| "resolve_step_args env name data self ic ((k, None) # rs) args =
     fail_text (''call '' @ quoted name @ '': argument '' @ quoted k @ '' has no value (nil)'')"
| "resolve_step_args env name data self ic ((k, Some r) # rs) args =
     (case ResolveWithIterationContext (rx_val env) data self ic (Some r) of
        Inl x \<Rightarrow> fail_text (''call '' @ quoted name @ '': failed to resolve argument '' @ quoted k @ '': '' @ rx_ref_text env x)
      | Inr v \<Rightarrow> resolve_step_args env name data self ic rs (map_put k v args))"

text \<open>\<open>runCallProvider\<close>: the call is prepared before the memo is asked, for it only reads \<open>data\<close>.\<close>

definition runCallProvider ::
  "renv \<Rightarrow> step_ctx \<Rightarrow> call_def \<Rightarrow> gval gomap \<Rightarrow> gval \<Rightarrow> iteration_context option \<Rightarrow> gval gomap \<Rightarrow> rerror + prov_call" where
  "runCallProvider env sx def bound self ic data =
     (if \<not> rx_registry env (cd_provider def) then no_provider (cd_provider def)
      else prepare_call env sx True (cd_provider def) (cd_inputs def) self ic (ExpandData data bound))"

definition expandAndRunCall ::
  "renv \<Rightarrow> step_ctx \<Rightarrow> string \<Rightarrow> value_ref option gomap \<Rightarrow> gval \<Rightarrow> iteration_context option \<Rightarrow> (rerror + gval) prog" where
  "expandAndRunCall env sx name args self ic =
     (case map_get None (rx_calls env) name of
        None \<Rightarrow> Ret (fail_text (''call '' @ quoted name @ '' not found''))
      | Some def \<Rightarrow> snapshot (\<lambda>data.
          case resolve_step_args env name data self ic args [] of
            Inl e \<Rightarrow> Ret (Inl e)
          | Inr resolved \<Rightarrow>
              (case BindArgs (rx_coerce env) (Some def) resolved of
                 Inl x \<Rightarrow> Ret (fail_text (rx_call_text env name x))
               | Inr bound \<Rightarrow>
                   (let req = runCallProvider env sx def bound self ic data;
                        key = (if cd_dedup def then DedupKey (rx_json env) name bound else Inl []) in
                    case key of
                      Inr k \<Rightarrow> Ask (QOnce k req) (\<lambda>r. Ret (the_once r))
                    | Inl _ \<Rightarrow> (case req of Inl e \<Rightarrow> Ret (Inl e) | Inr c \<Rightarrow> invoke c)))))"

definition runStepProvider ::
  "renv \<Rightarrow> step_ctx \<Rightarrow> 'a step_base_scheme \<Rightarrow> gval \<Rightarrow> iteration_context option \<Rightarrow> (rerror + gval) prog" where
  "runStepProvider env sx s self ic =
     (if s_call s \<noteq> [] then expandAndRunCall env sx (s_call s) (s_args s) self ic
      else executeProvider env sx (s_provider s) (s_inputs s) self ic)"

definition trackFailedAttempt ::
  "string \<Rightarrow> string \<Rightarrow> rerror \<Rightarrow> error_behavior \<Rightarrow> nat \<Rightarrow> 'r prog \<Rightarrow> 'r prog" where
  "trackFailedAttempt p phase e onErr i k =
     Ask (QLoad ''__failed_attempts'') (\<lambda>r.
       let old = (case the_cell r of Some (CAttempts as) \<Rightarrow> as | _ \<Rightarrow> []);
           new = \<lparr>at_provider = p, at_phase = phase, at_error = xr_msg e, at_onError = onErr, at_step = i\<rparr> in
       doP (QStore ''__failed_attempts'' (CAttempts (old @ [new]))) k)"

subsection \<open>forEach\<close>

definition toSlice :: "gval \<Rightarrow> gval list option" where
  "toSlice v = (case v of VList vs \<Rightarrow> Some vs | _ \<Rightarrow> None)"

text \<open>One iteration: its result and the number of provider calls.\<close>

definition foreach_iteration ::
  "renv \<Rightarrow> step_ctx \<Rightarrow> provider_step \<Rightarrow> gval \<Rightarrow> iteration_context \<Rightarrow> ((rerror + gval) \<times> nat) prog" where
  "foreach_iteration env sx s self ic =
     bindP (evaluateConditionWithIteration env (s_when s) self ic) (\<lambda>w.
       case w of
         Inl e \<Rightarrow> Ret (Inl (wrap_err ''when condition evaluation failed: '' e), 0)
       | Inr False \<Rightarrow> Ret (Inr VNil, 0)
       | Inr True \<Rightarrow> bindP (runStepProvider env sx s self (Some ic)) (\<lambda>r. Ret (r, 1)))"

definition iteration_of :: "foreach_clause \<Rightarrow> nat \<times> gval \<Rightarrow> iteration_context" where
  "iteration_of fe iv = \<lparr>ic_item = snd iv, ic_index = fst iv, ic_itemAlias = fe_item fe, ic_indexAlias = fe_index fe\<rparr>"

definition iteration_record :: "renv \<Rightarrow> (nat \<times> gval) \<times> (rerror + gval) \<Rightarrow> gval" where
  "iteration_record env x = rx_iteration env (fst (fst x)) (lift_err xr_msg (snd x)) (snd (fst x))"

text \<open>The end of both forEach functions: \<open>label\<close> is ``source'' or ``step''.\<close>

definition foreach_results ::
  "renv \<Rightarrow> string \<Rightarrow> nat \<Rightarrow> provider_step \<Rightarrow> foreach_clause \<Rightarrow> gval list \<Rightarrow> (rerror + gval) list \<Rightarrow> rerror + gval" where
  "foreach_results env label i s fe items rs =
     (case find (\<lambda>jr. isl (snd jr)) (List.enumerate 0 rs) of
        Some (j, Inl e) \<Rightarrow>
          if s_onError s = OnErrorContinue
          then Inr (VList (map (iteration_record env) (zip (List.enumerate 0 items) rs)))
          else Inl (wrap_err (label @ '' '' @ decimal (Suc i) @ '' forEach iteration '' @ decimal j @ '' failed: '') e)
      | _ \<Rightarrow>
          if s_when s \<noteq> None \<and> \<not> fe_keepSkipped fe
          then Inr (VList (filter (\<lambda>v. v \<noteq> VNil) (map projr rs)))
          else Inr (VList (map projr rs)))"

definition foreach_items ::
  "renv \<Rightarrow> step_ctx \<Rightarrow> string \<Rightarrow> nat \<Rightarrow> provider_step \<Rightarrow> foreach_clause \<Rightarrow> gval \<Rightarrow> gval \<Rightarrow> ((rerror + gval) \<times> nat) prog" where
  "foreach_items env sx label i s fe self input =
     (case toSlice input of
        None \<Rightarrow> Ret (fail_text (''resolver '' @ quoted [] @ '' transform step '' @ decimal i @
                            '': forEach requires array input, got '' @ rx_type env input), 0)
      | Some [] \<Rightarrow> Ret (Inr (VList []), 0)
      | Some items \<Rightarrow>
          bindP (go_all (fe_concurrency fe)
                  (map (\<lambda>iv. foreach_iteration env sx s self (iteration_of fe iv)) (List.enumerate 0 items)))
            (\<lambda>rs. Ret (foreach_results env label i s fe items (map fst rs), sum_list (map snd rs))))"

definition executeForEachSource ::
  "renv \<Rightarrow> step_ctx \<Rightarrow> nat \<Rightarrow> provider_step \<Rightarrow> foreach_clause \<Rightarrow> ((rerror + gval) \<times> nat) prog" where
  "executeForEachSource env sx i s fe = snapshot (\<lambda>data.
     case fe_in fe of
       None \<Rightarrow> Ret (fail_text (''source '' @ decimal (Suc i) @
                        '': forEach.in is required on resolve steps (no __self available)''), 0)
     | Some ref \<Rightarrow>
         (case ResolveWithIterationContext (rx_val env) data VNil None (Some ref) of
            Inl x \<Rightarrow> Ret (fail_text (''source '' @ decimal (Suc i) @ '': failed to resolve forEach.in: '' @ rx_ref_text env x), 0)
          | Inr v \<Rightarrow> foreach_items env sx ''source'' i s fe VNil v))"

definition executeForEachTransform ::
  "renv \<Rightarrow> step_ctx \<Rightarrow> nat \<Rightarrow> provider_step \<Rightarrow> foreach_clause \<Rightarrow> gval \<Rightarrow> ((rerror + gval) \<times> nat) prog" where
  "executeForEachTransform env sx i s fe cur = snapshot (\<lambda>data.
     case fe_in fe of
       None \<Rightarrow> foreach_items env sx ''step'' i s fe cur cur
     | Some ref \<Rightarrow>
         (case ResolveWithIterationContext (rx_val env) data cur None (Some ref) of
            Inl x \<Rightarrow> Ret (fail_text (''step '' @ decimal (Suc i) @ '': failed to resolve forEach.in: '' @ rx_ref_text env x), 0)
          | Inr v \<Rightarrow> foreach_items env sx ''step'' i s fe cur v))"

subsection \<open>The resolve phase\<close>

text \<open>\<open>Some\<close> error: the failure of a step ends the phase; \<open>None\<close>: it is recovered.\<close>

definition step_failure ::
  "renv \<Rightarrow> provider_step \<Rightarrow> string \<Rightarrow> rerror \<Rightarrow> bool \<Rightarrow> rerror \<Rightarrow> rerror option prog" where
  "step_failure env s pre e baseFail final =
     bindP (effectiveShouldFail env (s_continueOnError s) e baseFail) (\<lambda>d.
       Ret (case d of Inl x \<Rightarrow> Some (wrap_err (pre @ '': '') x) | Inr True \<Rightarrow> Some final | Inr False \<Rightarrow> None))"

definition step_label :: "string \<Rightarrow> nat \<Rightarrow> provider_step \<Rightarrow> string" where
  "step_label label i s = label @ '' '' @ decimal (Suc i) @ '' ('' @ s_provider s @ '')''"

definition source_success :: "renv \<Rightarrow> condition option \<Rightarrow> gval \<Rightarrow> nat \<Rightarrow> ((rerror + gval) \<times> nat) prog" where
  "source_success env until v calls =
     (case until of
        None \<Rightarrow> Ret (Inr v, calls)
      | Some c \<Rightarrow> bindP (evaluateConditionWithSelf env (Some c) v) (\<lambda>u.
          case u of
            Inl e \<Rightarrow> Ret (Inl (wrap_err ''until condition evaluation failed: '' e), calls)
          | Inr stop \<Rightarrow> Ret (Inr v, calls)))"

text \<open>One source: \<open>next\<close> continues the loop with the last error and the number of calls.\<close>

definition run_source ::
  "renv \<Rightarrow> step_ctx \<Rightarrow> condition option \<Rightarrow> nat \<Rightarrow> provider_step \<Rightarrow> nat \<Rightarrow>
   (rerror \<Rightarrow> nat \<Rightarrow> ((rerror + gval) \<times> nat) prog) \<Rightarrow> ((rerror + gval) \<times> nat) prog" where
  "run_source env sx until i s calls k =
     (case s_forEach s of
        Some fe \<Rightarrow> bindP (executeForEachSource env sx i s fe) (\<lambda>(r, n).
          case r of
            Inr v \<Rightarrow> Ret (Inr v, calls + n)
          | Inl e \<Rightarrow>
              bindP (step_failure env s (step_label ''source'' i s @ '' forEach'') e (s_onError s = OnErrorFail)
                      (wrap_err (step_label ''source'' i s @ '' forEach failed: '') e)) (\<lambda>f.
                case f of Some x \<Rightarrow> Ret (Inl x, calls + n) | None \<Rightarrow> k e (calls + n)))
      | None \<Rightarrow> bindP (runStepProvider env sx s VNil None) (\<lambda>r.
          case r of
            Inr v \<Rightarrow> source_success env until v (Suc calls)
          | Inl e \<Rightarrow> trackFailedAttempt (s_provider s) ''resolve'' e (s_onError s) i
              (bindP (step_failure env s (step_label ''source'' i s) e (s_onError s = OnErrorFail)
                      (wrap_err (step_label ''source'' i s @ '' failed: '') e)) (\<lambda>f.
                case f of Some x \<Rightarrow> Ret (Inl x, Suc calls) | None \<Rightarrow> k e (Suc calls)))))"

fun resolve_sources ::
  "renv \<Rightarrow> step_ctx \<Rightarrow> condition option \<Rightarrow> nat \<Rightarrow> provider_step list \<Rightarrow> rerror option \<Rightarrow> nat \<Rightarrow>
   ((rerror + gval) \<times> nat) prog" where
  "resolve_sources env sx until i [] lastErr calls =
     Ret (case lastErr of
            Some e \<Rightarrow> Inl (wrap_err ''all sources failed, last error: '' e)
          | None \<Rightarrow> fail_text ''no sources produced a value'', calls)"
| "resolve_sources env sx until i (s # ss) lastErr calls =
     (case s_when s of
        None \<Rightarrow> run_source env sx until i s calls (\<lambda>e n. resolve_sources env sx until (Suc i) ss (Some e) n)
      | Some c \<Rightarrow> bindP (rx_evaluateCondition env (Some c)) (\<lambda>w.
          case w of
            Inl e \<Rightarrow>
              if s_onError s = OnErrorFail
              then Ret (Inl (wrap_err (''source '' @ decimal (Suc i) @ '': when condition evaluation failed: '') e), calls)
              else resolve_sources env sx until (Suc i) ss (Some e) calls
          | Inr False \<Rightarrow> resolve_sources env sx until (Suc i) ss lastErr calls
          | Inr True \<Rightarrow>
              run_source env sx until i s calls (\<lambda>e n. resolve_sources env sx until (Suc i) ss (Some e) n)))"

definition executeResolvePhase ::
  "renv \<Rightarrow> string option \<Rightarrow> resolve_phase option \<Rightarrow> ((rerror + gval) \<times> nat) prog" where
  "executeResolvePhase env scalar ph =
     (case ph of
        None \<Rightarrow> Ret (fail_text ''resolve phase is required'', 0)
      | Some p \<Rightarrow>
          (let run = resolve_sources env \<lparr>sx_mode = ModeFrom, sx_scalar = scalar\<rparr> (rp_until p) 0 (rp_with p) None 0 in
           case rp_when p of
             None \<Rightarrow> run
           | Some c \<Rightarrow> bindP (rx_evaluateCondition env (Some c)) (\<lambda>w.
               case w of
                 Inl e \<Rightarrow> Ret (Inl (wrap_err ''failed to evaluate resolve phase when condition: '' e), 0)
               | Inr False \<Rightarrow> Ret (fail_text ''resolve phase skipped by when condition'', 0)
               | Inr True \<Rightarrow> run)))"

subsection \<open>The transform phase\<close>

definition run_transform ::
  "renv \<Rightarrow> step_ctx \<Rightarrow> nat \<Rightarrow> provider_step \<Rightarrow> gval \<Rightarrow> nat \<Rightarrow>
   (gval \<Rightarrow> nat \<Rightarrow> ((rerror + gval) \<times> nat) prog) \<Rightarrow> ((rerror + gval) \<times> nat) prog" where
  "run_transform env sx i s cur calls k =
     bindP (runStepProvider env sx s cur None) (\<lambda>r.
       case r of
         Inr v \<Rightarrow> k v (Suc calls)
       | Inl e \<Rightarrow> trackFailedAttempt (s_provider s) ''transform'' e (s_onError s) i
           (bindP (step_failure env s (step_label ''step'' i s) e (s_onError s \<noteq> OnErrorContinue)
                   (wrap_err (step_label ''step'' i s @ '' failed: '') e)) (\<lambda>f.
             case f of Some x \<Rightarrow> Ret (Inl x, Suc calls) | None \<Rightarrow> k cur (Suc calls))))"

fun transform_steps ::
  "renv \<Rightarrow> step_ctx \<Rightarrow> nat \<Rightarrow> provider_step list \<Rightarrow> gval \<Rightarrow> nat \<Rightarrow> ((rerror + gval) \<times> nat) prog" where
  "transform_steps env sx i [] cur calls = Ret (Inr cur, calls)"
| "transform_steps env sx i (s # ss) cur calls =
     (case s_forEach s of
        Some fe \<Rightarrow> bindP (executeForEachTransform env sx i s fe cur) (\<lambda>(r, n).
          case r of
            Inr v \<Rightarrow> transform_steps env sx (Suc i) ss v (calls + n)
          | Inl e \<Rightarrow>
              bindP (step_failure env s (step_label ''step'' i s @ '' forEach'') e (s_onError s \<noteq> OnErrorContinue) e) (\<lambda>f.
                case f of
                  Some x \<Rightarrow> Ret (Inl x, calls + n)
                | None \<Rightarrow> transform_steps env sx (Suc i) ss cur (calls + n)))
      | None \<Rightarrow>
          (case s_when s of
             None \<Rightarrow> run_transform env sx i s cur calls (\<lambda>v n. transform_steps env sx (Suc i) ss v n)
           | Some c \<Rightarrow> bindP (evaluateConditionWithSelf env (Some c) cur) (\<lambda>w.
               case w of
                 Inl e \<Rightarrow>
                   if s_onError s = OnErrorContinue then transform_steps env sx (Suc i) ss cur calls
                   else Ret (Inl (wrap_err (''step '' @ decimal (Suc i) @ '': when condition evaluation failed: '') e), calls)
               | Inr False \<Rightarrow> transform_steps env sx (Suc i) ss cur calls
               | Inr True \<Rightarrow> run_transform env sx i s cur calls (\<lambda>v n. transform_steps env sx (Suc i) ss v n))))"

definition executeTransformPhase ::
  "renv \<Rightarrow> transform_phase option \<Rightarrow> gval \<Rightarrow> ((rerror + gval) \<times> nat) prog" where
  "executeTransformPhase env ph v =
     (case ph of
        None \<Rightarrow> Ret (Inr v, 0)
      | Some p \<Rightarrow>
          (let run = transform_steps env \<lparr>sx_mode = ModeTransform, sx_scalar = None\<rparr> 0 (tp_with p) v 0 in
           case tp_when p of
             None \<Rightarrow> run
           | Some c \<Rightarrow> bindP (rx_evaluateCondition env (Some c)) (\<lambda>w.
               case w of
                 Inl e \<Rightarrow> Ret (Inl (wrap_err ''failed to evaluate transform phase when condition: '' e), 0)
               | Inr False \<Rightarrow> Ret (Inr v, 0)
               | Inr True \<Rightarrow> run)))"

subsection \<open>The validate phase\<close>

record vfailure =
  vf_rule :: nat
  vf_provider :: string
  vf_message :: string
  vf_cause :: "string option"
  vf_sensitive :: bool

text \<open>\<open>ValidationFailure.Error\<close> and \<open>AggregatedValidationError.Error\<close>.\<close>

definition failure_text :: "vfailure \<Rightarrow> string" where
  "failure_text f =
     (if vf_message f \<noteq> [] then vf_message f
      else case vf_cause f of Some c \<Rightarrow> c | None \<Rightarrow> ''rule '' @ decimal (vf_rule f) @ '' failed'')"

fun failure_lines :: "nat \<Rightarrow> vfailure list \<Rightarrow> string" where
  "failure_lines i [] = []"
| "failure_lines i (f # fs) =
     ''  - [rule '' @ decimal (Suc i) @ ''] '' @ failure_text f @ [CHR 0x0A] @ failure_lines (Suc i) fs"

definition trim_newline :: "string \<Rightarrow> string" where
  "trim_newline s = (if s \<noteq> [] \<and> last s = CHR 0x0A then butlast s else s)"

definition validation_text :: "string \<Rightarrow> string \<Rightarrow> vfailure list \<Rightarrow> string" where
  "validation_text name custom fs =
     (let head = ''resolver '' @ quoted name @ '' validation failed'' in
      if custom \<noteq> [] then head @ '': '' @ custom
      else case fs of
        [] \<Rightarrow> head @ '' (no details)''
      | [f] \<Rightarrow> head @ '': '' @ failure_text f
      | _ \<Rightarrow> trim_newline (head @ '' with '' @ decimal (length fs) @ '' errors:'' @ [CHR 0x0A] @ failure_lines 0 fs))"

definition validation_error :: "string \<Rightarrow> string \<Rightarrow> vfailure list \<Rightarrow> rerror" where
  "validation_error name custom fs = \<lparr>xr_msg = validation_text name custom fs, xr_agg = True, xr_exec = None\<rparr>"

text \<open>The author's message: an error of its resolution or another type leaves the provider's.\<close>

definition rule_message :: "renv \<Rightarrow> value_ref option \<Rightarrow> gval \<Rightarrow> string \<Rightarrow> (string \<Rightarrow> 'r prog) \<Rightarrow> 'r prog" where
  "rule_message env ref v dflt k =
     (case ref of
        None \<Rightarrow> k dflt
      | Some m \<Rightarrow> snapshot (\<lambda>data.
          case ResolveWithIterationContext (rx_val env) data (rx_pointer env v) None (Some m) of
            Inr (VStr s) \<Rightarrow> k s
          | _ \<Rightarrow> k dflt))"

definition redactForLog :: "string \<Rightarrow> bool \<Rightarrow> string" where
  "redactForLog s sensitive = (if sensitive then ''[REDACTED]'' else s)"

text \<open>The rule's provider is called with no execution mode in the context.\<close>

definition run_rule ::
  "renv \<Rightarrow> nat \<Rightarrow> bool \<Rightarrow> provider_validation \<Rightarrow> gval \<Rightarrow> (nat \<times> (rerror + vfailure option)) prog" where
  "run_rule env i sensitive v subject =
     bindP (runStepProvider env \<lparr>sx_mode = NoMode, sx_scalar = None\<rparr> v subject None) (\<lambda>r.
       case r of
         Inr _ \<Rightarrow> Ret (1, Inr None)
       | Inl e \<Rightarrow> rule_message env (s_message v) subject (xr_msg e) (\<lambda>m.
           Ret (1, Inr (Some \<lparr>vf_rule = i, vf_provider = s_provider v, vf_message = redactForLog m sensitive,
                              vf_cause = Some (xr_msg e), vf_sensitive = sensitive\<rparr>))))"

definition evaluateValidationRule ::
  "renv \<Rightarrow> nat \<Rightarrow> bool \<Rightarrow> provider_validation \<Rightarrow> gval \<Rightarrow> (nat \<times> (rerror + vfailure option)) prog" where
  "evaluateValidationRule env i sensitive v subject =
     (case s_when v of
        None \<Rightarrow> run_rule env i sensitive v subject
      | Some c \<Rightarrow> bindP (evaluateConditionWithSelf env (Some c) subject) (\<lambda>w.
          case w of
            Inl e \<Rightarrow> Ret (0, Inl (wrap_err (''failed to evaluate validate rule '' @ decimal (Suc i) @ '' when condition: '') e))
          | Inr False \<Rightarrow> Ret (0, Inr None)
          | Inr True \<Rightarrow> run_rule env i sensitive v subject))"

datatype validation = Valid | ValidationBroken rerror | Invalid "vfailure list"

fun inline_rules ::
  "renv \<Rightarrow> bool \<Rightarrow> gval \<Rightarrow> (nat \<times> provider_validation) list \<Rightarrow> nat \<Rightarrow> vfailure list \<Rightarrow> (nat \<times> validation) prog" where
  "inline_rules env sensitive value [] calls fs = Ret (calls, if fs = [] then Valid else Invalid fs)"
| "inline_rules env sensitive value ((i, v) # rs) calls fs =
     bindP (evaluateValidationRule env i sensitive v value) (\<lambda>(n, r).
       case r of
         Inl e \<Rightarrow> Ret (calls + n, ValidationBroken e)
       | Inr f \<Rightarrow> inline_rules env sensitive value rs (calls + n)
                     (fs @ (case f of None \<Rightarrow> [] | Some x \<Rightarrow> [x])))"

definition indexed_rules :: "validate_phase \<Rightarrow> nat list \<Rightarrow> (nat \<times> provider_validation) list" where
  "indexed_rules p is = map (\<lambda>i. (i, vp_with p ! i)) is"

definition executeValidatePhase ::
  "renv \<Rightarrow> string \<Rightarrow> bool \<Rightarrow> validate_phase option \<Rightarrow> gval \<Rightarrow> (nat \<times> validation) prog" where
  "executeValidatePhase env name sensitive ph value =
     (case ph of
        None \<Rightarrow> Ret (0, Valid)
      | Some p \<Rightarrow>
          (let part = partitionValidatePhaseFor (rx_deps env) (Some p) name;
               run = inline_rules env sensitive value (indexed_rules p (pt_inline part)) 0 [] in
           if pt_phaseWhen part \<or> pt_inline part = [] then Ret (0, Valid)
           else case vp_when p of
             None \<Rightarrow> run
           | Some c \<Rightarrow> bindP (evaluateConditionWithSelf env (Some c) value) (\<lambda>w.
               case w of
                 Inl e \<Rightarrow> Ret (0, ValidationBroken (wrap_err ''failed to evaluate validate phase when condition: '' e))
               | Inr False \<Rightarrow> Ret (0, Valid)
               | Inr True \<Rightarrow> run)))"

subsection \<open>A resolver\<close>

definition resolveCustomErrorMessage :: "renv \<Rightarrow> resolver \<Rightarrow> string \<Rightarrow> (string \<Rightarrow> 'r prog) \<Rightarrow> 'r prog" where
  "resolveCustomErrorMessage env r err k =
     (case r_message r of
        None \<Rightarrow> k []
      | Some ref \<Rightarrow> snapshot (\<lambda>data.
          case ResolveWithIterationContext (rx_val env) (map_put ''__error'' (VStr err) data) (VStr err) None (Some ref) of
            Inl _ \<Rightarrow> k []
          | Inr (VStr s) \<Rightarrow> k s
          | Inr v \<Rightarrow> k (rx_show env v)))"

definition detailed :: "string \<Rightarrow> string \<Rightarrow> string" where
  "detailed custom cause = (if custom \<noteq> [] then custom @ '' (detail: '' @ cause @ '')'' else cause)"

definition exec_error :: "string \<Rightarrow> string \<Rightarrow> string \<Rightarrow> rerror \<Rightarrow> rerror" where
  "exec_error name phase custom cause =
     \<lparr>xr_msg = ''resolver '' @ quoted name @ '' failed in '' @ phase @ '' phase (step 0): '' @ detailed custom (xr_msg cause),
      xr_agg = xr_agg cause, xr_exec = Some phase\<rparr>"

definition coercion_error :: "string \<Rightarrow> string \<Rightarrow> string \<Rightarrow> string \<Rightarrow> string \<Rightarrow> string \<Rightarrow> rerror" where
  "coercion_error name phase source target custom cause =
     plain_err (''resolver '' @ quoted name @ '': type coercion from '' @ source @ '' to '' @ target @
                '' failed after '' @ phase @ '' phase: '' @ detailed custom cause)"

definition size_error :: "string \<Rightarrow> nat \<Rightarrow> nat \<Rightarrow> rerror" where
  "size_error name actual limit =
     plain_err (''resolver '' @ quoted name @ '' value size '' @ decimal actual @ '' bytes exceeds maximum '' @
                decimal limit @ '' bytes'')"

definition calculateValueSize :: "renv \<Rightarrow> gval \<Rightarrow> nat" where
  "calculateValueSize env v = (if v = VNil then 0 else rx_size env v)"

definition IsScalar :: "string \<Rightarrow> bool" where
  "IsScalar t = (t \<in> {''string'', ''int'', ''float'', ''bool''})"

definition counting_deps :: "renv \<Rightarrow> resolver \<Rightarrow> nat" where
  "counting_deps env r = length (extractDependencies ((rx_deps env)\<lparr>de_lookup := None\<rparr>) r)"

text \<open>The deferred function: collects the attempts, stores the result; the pair is what the function returns.\<close>

definition store_result :: "renv \<Rightarrow> resolver \<Rightarrow> rresult \<Rightarrow> 'r prog \<Rightarrow> 'r prog" where
  "store_result env r res k =
     (if rs_status res = RSkipped then k else doP (QSetResult (r_name r) res) k)"

definition finish_resolver ::
  "renv \<Rightarrow> resolver \<Rightarrow> rresult \<Rightarrow> bool \<Rightarrow> rerror option \<Rightarrow> (bool \<times> rerror option) prog" where
  "finish_resolver env r res skipped err =
     (let res' = res\<lparr>rs_size := calculateValueSize env (rs_value res), rs_deps := counting_deps env r\<rparr> in
      Ask (QLoad ''__failed_attempts'') (\<lambda>x.
        case the_cell x of
          None \<Rightarrow> store_result env r res' (Ret (skipped, err))
        | Some c \<Rightarrow>
            doP (QDelete ''__failed_attempts'')
              (store_result env r (case c of CAttempts as \<Rightarrow> res'\<lparr>rs_attempts := as\<rparr> | CVal _ \<Rightarrow> res')
                (Ret (skipped, err)))))"

definition fail_resolver ::
  "renv \<Rightarrow> resolver \<Rightarrow> rresult \<Rightarrow> gval \<Rightarrow> rerror \<Rightarrow> (bool \<times> rerror option) prog" where
  "fail_resolver env r res v e =
     finish_resolver env r (res\<lparr>rs_value := v, rs_status := RFailed, rs_error := Some e\<rparr>) False (Some e)"

definition size_step :: "renv \<Rightarrow> resolver \<Rightarrow> rresult \<Rightarrow> gval \<Rightarrow> (bool \<times> rerror option) prog" where
  "size_step env r res v =
     (if 0 < calculateValueSize env v \<and> 0 < rx_maxSize env \<and> rx_maxSize env < calculateValueSize env v
      then fail_resolver env r res v (size_error (r_name r) (calculateValueSize env v) (rx_maxSize env))
      else finish_resolver env r (res\<lparr>rs_value := v\<rparr>) False None)"

definition validate_step :: "renv \<Rightarrow> resolver \<Rightarrow> rresult \<Rightarrow> gval \<Rightarrow> (bool \<times> rerror option) prog" where
  "validate_step env r res v =
     (if r_validate r = None \<or> rx_skipValidation env \<or> rx_skipTransform env then size_step env r res v
      else bindP (executeValidatePhase env (r_name r) (r_sensitive r) (r_validate r) v) (\<lambda>(n, out).
        let res' = res\<lparr>rs_calls := rs_calls res + n, rs_metrics := rs_metrics res @ [''validate'']\<rparr> in
        case out of
          Valid \<Rightarrow> size_step env r res' v
        | ValidationBroken e \<Rightarrow> fail_resolver env r res' v e
        | Invalid fs \<Rightarrow>
            resolveCustomErrorMessage env r (validation_text (r_name r) [] fs) (\<lambda>m.
              fail_resolver env r res' v (validation_error (r_name r) m fs))))"

definition coerce_step :: "renv \<Rightarrow> resolver \<Rightarrow> rresult \<Rightarrow> string \<Rightarrow> gval \<Rightarrow> (bool \<times> rerror option) prog" where
  "coerce_step env r res phase v =
     (if r_type r \<noteq> [] \<and> r_type r \<noteq> ''any''
      then (case rx_coerce env (r_type r) v of
              Inl m \<Rightarrow> resolveCustomErrorMessage env r m (\<lambda>c.
                fail_resolver env r res v (coercion_error (r_name r) phase (rx_type env v) (r_type r) c m))
            | Inr v' \<Rightarrow> validate_step env r res v')
      else validate_step env r res v)"

definition transform_step :: "renv \<Rightarrow> resolver \<Rightarrow> rresult \<Rightarrow> gval \<Rightarrow> (bool \<times> rerror option) prog" where
  "transform_step env r res v =
     (if r_transform r = None \<or> rx_skipTransform env then coerce_step env r res ''resolve'' v
      else bindP (executeTransformPhase env (r_transform r) v) (\<lambda>(out, n).
        let res' = res\<lparr>rs_calls := rs_calls res + n, rs_metrics := rs_metrics res @ [''transform'']\<rparr> in
        case out of
          Inl e \<Rightarrow> resolveCustomErrorMessage env r (xr_msg e) (\<lambda>c.
            fail_resolver env r res' v (exec_error (r_name r) ''transform'' c e))
        | Inr v' \<Rightarrow> coerce_step env r res' ''transform'' v'))"

definition resolve_step :: "renv \<Rightarrow> resolver \<Rightarrow> rresult \<Rightarrow> (bool \<times> rerror option) prog" where
  "resolve_step env r res =
     bindP (executeResolvePhase env (if IsScalar (r_type r) then Some (r_type r) else None) (r_resolve r)) (\<lambda>(out, n).
       let res' = res\<lparr>rs_calls := rs_calls res + n, rs_metrics := rs_metrics res @ [''resolve'']\<rparr> in
       case out of
         Inl e \<Rightarrow> resolveCustomErrorMessage env r (xr_msg e) (\<lambda>c.
           fail_resolver env r res' VNil (exec_error (r_name r) ''resolve'' c e))
       | Inr v \<Rightarrow> transform_step env r res' v)"

definition when_step :: "renv \<Rightarrow> resolver \<Rightarrow> rresult \<Rightarrow> (bool \<times> rerror option) prog" where
  "when_step env r res =
     (case r_when r of
        None \<Rightarrow> resolve_step env r res
      | Some c \<Rightarrow> bindP (rx_evaluateCondition env (Some c)) (\<lambda>w.
          case w of
            Inl e \<Rightarrow> fail_resolver env r res VNil (wrap_err ''failed to evaluate when condition: '' e)
          | Inr False \<Rightarrow> finish_resolver env r (res\<lparr>rs_status := RSkipped\<rparr>) True None
          | Inr True \<Rightarrow> resolve_step env r res))"

definition isMocked :: "renv \<Rightarrow> string \<Rightarrow> bool" where
  "isMocked env n = map_has (rx_mocked env) n"

definition seededResult :: "renv \<Rightarrow> string \<Rightarrow> rresult option" where
  "seededResult env n = map_get None (rx_seeded env) n"

definition use_seeded :: "renv \<Rightarrow> resolver \<Rightarrow> rresult \<Rightarrow> rresult \<Rightarrow> (bool \<times> rerror option) prog" where
  "use_seeded env r res sd =
     (let res' = res\<lparr>rs_value := rs_value sd, rs_status := rs_status sd, rs_error := rs_error sd\<rparr> in
      if rs_status sd = RFailed
      then (let e = (case rs_error sd of Some x \<Rightarrow> x
                     | None \<Rightarrow> plain_err (''seeded resolver '' @ quoted (r_name r) @ '' has a failed result'')) in
            finish_resolver env r (res'\<lparr>rs_error := Some e\<rparr>) False (Some e))
      else finish_resolver env r
             (if rs_status sd = RUnset then res'\<lparr>rs_status := RSuccess\<rparr> else res') False None)"

definition seeded_step :: "renv \<Rightarrow> resolver \<Rightarrow> rresult \<Rightarrow> (bool \<times> rerror option) prog" where
  "seeded_step env r res =
     (case seededResult env (r_name r) of Some sd \<Rightarrow> use_seeded env r res sd | None \<Rightarrow> when_step env r res)"

definition executeResolver :: "renv \<Rightarrow> resolver \<Rightarrow> nat \<Rightarrow> (bool \<times> rerror option) prog" where
  "executeResolver env r phase =
     (let res = new_result phase in
      Ask (QLoad (r_name r)) (\<lambda>has.
        if the_cell has \<noteq> None \<and> isMocked env (r_name r)
        then Ask (QLoad (r_name r)) (\<lambda>x.
               finish_resolver env r
                 (res\<lparr>rs_value := (case the_cell x of None \<Rightarrow> VNil | Some c \<Rightarrow> cell_value (rx_attempts env) c)\<rparr>) False None)
        else seeded_step env r res))"

end
