(* ===== verification/Deferred_Order.thy ===== *)
theory Deferred_Order
  imports Phases "HOL-Library.Multiset"
begin

text \<open>
  \<open>pkg/resolver/deferred_graph.go\<close>: the order in which deferred validations are evaluated,
  Tarjan's strongly connected components of the references between their owners.

  \<open>strongConnect\<close> takes a bound on the depth of its recursion: every call gives an index to one
  more unit, so the number of units is enough, which the theorems below establish.
\<close>

record deferred_plan =
  dp_order :: "string list"
  dp_cycles :: "string list list"

record tarjan =
  tj_index :: "nat gomap"
  tj_lowlink :: "nat gomap"
  tj_onStack :: "bool gomap"
  tj_stack :: "string list"
  tj_counter :: nat
  tj_sccs :: "string list list"

definition empty_tarjan :: tarjan where
  "empty_tarjan = \<lparr>tj_index = [], tj_lowlink = [], tj_onStack = [], tj_stack = [], tj_counter = 0, tj_sccs = []\<rparr>"

text \<open>The stack has its top at the head of \<open>tj_stack\<close>.\<close>

definition visit_node :: "string \<Rightarrow> tarjan \<Rightarrow> tarjan" where
  "visit_node v t = t\<lparr>tj_index := map_put v (tj_counter t) (tj_index t),
     tj_lowlink := map_put v (tj_counter t) (tj_lowlink t),
     tj_counter := Suc (tj_counter t), tj_stack := v # tj_stack t, tj_onStack := map_put v True (tj_onStack t)\<rparr>"

definition lower :: "string \<Rightarrow> nat \<Rightarrow> tarjan \<Rightarrow> tarjan" where
  "lower v k t = (if k < map_get 0 (tj_lowlink t) v then t\<lparr>tj_lowlink := map_put v k (tj_lowlink t)\<rparr> else t)"

text \<open>The pops down to \<open>v\<close>; popping an empty stack panics, here the loop ends.\<close>

fun pop_scc :: "string \<Rightarrow> string list \<Rightarrow> string list \<Rightarrow> bool gomap \<Rightarrow> string list \<times> string list \<times> bool gomap" where
  "pop_scc v [] scc on = (scc, [], on)"
| "pop_scc v (w # st) scc on =
     (if w = v then (scc @ [w], st, map_put w False on)
      else pop_scc v st (scc @ [w]) (map_put w False on))"

definition close_scc :: "string \<Rightarrow> tarjan \<Rightarrow> tarjan" where
  "close_scc v t =
     (if map_get 0 (tj_lowlink t) v = map_get 0 (tj_index t) v
      then (let (scc, st, on) = pop_scc v (tj_stack t) [] (tj_onStack t) in
            t\<lparr>tj_stack := st, tj_onStack := on, tj_sccs := tj_sccs t @ [scc]\<rparr>)
      else t)"

text \<open>\<open>d\<close> is the depth still allowed; \<open>connect_edges\<close> is the loop over the edges of \<open>v\<close>.\<close>

fun strongConnect :: "string list gomap \<Rightarrow> nat \<Rightarrow> string \<Rightarrow> tarjan \<Rightarrow> tarjan"
and connect_edges :: "string list gomap \<Rightarrow> nat \<Rightarrow> string \<Rightarrow> string list \<Rightarrow> tarjan \<Rightarrow> tarjan"
where
  "strongConnect adj 0 v t = t"
| "strongConnect adj (Suc d) v t = close_scc v (connect_edges adj d v (map_get [] adj v) (visit_node v t))"
| "connect_edges adj d v [] t = t"
| "connect_edges adj d v (w # ws) t =
     connect_edges adj d v ws
       (if \<not> map_has (tj_index t) w
        then (let t' = strongConnect adj d w t in lower v (map_get 0 (tj_lowlink t') w) t')
        else if map_get False (tj_onStack t) w then lower v (map_get 0 (tj_index t) w) t
        else t)"

definition connect_all :: "string list gomap \<Rightarrow> nat \<Rightarrow> string list \<Rightarrow> tarjan \<Rightarrow> tarjan" where
  "connect_all adj d ns t =
     fold (\<lambda>n t. if map_has (tj_index t) n then t else strongConnect adj d n t) ns t"

definition owner_edges :: "deferred_unit list \<Rightarrow> deferred_unit \<Rightarrow> string list" where
  "owner_edges us u =
     sort (filter (\<lambda>d. d \<noteq> du_resolver u \<and> d \<in> set (map du_resolver us)) (du_dependsOn u))"

definition deferred_adj :: "deferred_unit list \<Rightarrow> string list gomap" where
  "deferred_adj us = fold (\<lambda>u m. map_put (du_resolver u) (owner_edges us u) m) us []"

definition plan_of_sccs :: "string list list \<Rightarrow> deferred_plan" where
  "plan_of_sccs cs = \<lparr>dp_order = concat (map sort cs), dp_cycles = map sort (filter (\<lambda>c. 1 < length c) cs)\<rparr>"

text \<open>The recursion is at most as deep as there are units.\<close>

definition buildDeferredReportingPlan :: "deferred_unit list \<Rightarrow> deferred_plan" where
  "buildDeferredReportingPlan us =
     plan_of_sccs (tj_sccs
       (connect_all (deferred_adj us) (length us) (sort (map du_resolver us)) empty_tarjan))"

section \<open>The invariant of the traversal\<close>

definition edges :: "string list gomap \<Rightarrow> (string \<times> string) set" where
  "edges adj = {(x, y). y \<in> set (map_get [] adj x)}"

abbreviation num :: "tarjan \<Rightarrow> string \<Rightarrow> nat" where
  "num t x \<equiv> map_get 0 (tj_index t) x"

abbreviation low :: "tarjan \<Rightarrow> string \<Rightarrow> nat" where
  "low t x \<equiv> map_get 0 (tj_lowlink t) x"

definition visited :: "tarjan \<Rightarrow> string set" where
  "visited t = {x. map_has (tj_index t) x}"

text \<open>Edges lead from a component to itself and to earlier ones.\<close>

definition backward :: "string list gomap \<Rightarrow> string list list \<Rightarrow> bool" where
  "backward adj cs = (\<forall>i < length cs. \<forall>x \<in> set (cs ! i). \<forall>y. (x, y) \<in> edges adj \<longrightarrow> (\<exists>j \<le> i. y \<in> set (cs ! j)))"

definition connected :: "string list gomap \<Rightarrow> string list \<Rightarrow> bool" where
  "connected adj c = (\<forall>x \<in> set c. \<forall>y \<in> set c. (x, y) \<in> (edges adj)\<^sup>*)"

text \<open>\<open>grey\<close> are the nodes whose call has not returned.\<close>

definition tarjan_inv :: "string list gomap \<Rightarrow> string set \<Rightarrow> string set \<Rightarrow> tarjan \<Rightarrow> bool" where
  "tarjan_inv adj V grey t =
     (visited t \<subseteq> V \<and> set (tj_stack t) \<subseteq> visited t \<and> grey \<subseteq> set (tj_stack t) \<and>
      (\<forall>x. map_get False (tj_onStack t) x = (x \<in> set (tj_stack t))) \<and>
      (\<forall>x \<in> visited t. num t x < tj_counter t) \<and>
      sorted_wrt (\<lambda>x y. num t y < num t x) (tj_stack t) \<and>
      set (concat (tj_sccs t)) = visited t - set (tj_stack t) \<and> distinct (concat (tj_sccs t)) \<and> [] \<notin> set (tj_sccs t) \<and>
      backward adj (tj_sccs t) \<and> (\<forall>c \<in> set (tj_sccs t). connected adj c) \<and>
      (\<forall>x \<in> set (tj_stack t) - grey. edges adj `` {x} \<subseteq> visited t) \<and>
      (\<forall>x \<in> set (tj_stack t). \<forall>y \<in> set (tj_stack t). num t x \<le> num t y \<longrightarrow> (x, y) \<in> (edges adj)\<^sup>*) \<and>
      (\<forall>y \<in> set (tj_stack t). \<exists>g \<in> grey. num t g \<le> num t y \<and> (y, g) \<in> (edges adj)\<^sup>*))"

lemma tarjan_invD:
  assumes "tarjan_inv adj V grey t"
  shows "visited t \<subseteq> V" "set (tj_stack t) \<subseteq> visited t" "grey \<subseteq> set (tj_stack t)"
    "map_get False (tj_onStack t) x = (x \<in> set (tj_stack t))"
    "x \<in> visited t \<Longrightarrow> num t x < tj_counter t"
    "sorted_wrt (\<lambda>x y. num t y < num t x) (tj_stack t)"
    "set (concat (tj_sccs t)) = visited t - set (tj_stack t)" "distinct (concat (tj_sccs t))" "[] \<notin> set (tj_sccs t)"
    "backward adj (tj_sccs t)" "c \<in> set (tj_sccs t) \<Longrightarrow> connected adj c"
    "x \<in> set (tj_stack t) \<Longrightarrow> x \<notin> grey \<Longrightarrow> (x, y) \<in> edges adj \<Longrightarrow> y \<in> visited t"
    "x \<in> set (tj_stack t) \<Longrightarrow> y \<in> set (tj_stack t) \<Longrightarrow> num t x \<le> num t y \<Longrightarrow> (x, y) \<in> (edges adj)\<^sup>*"
    "y \<in> set (tj_stack t) \<Longrightarrow> \<exists>g \<in> grey. num t g \<le> num t y \<and> (y, g) \<in> (edges adj)\<^sup>*"
  using assms unfolding tarjan_inv_def by blast+

text \<open>What a call may change: it extends the visited nodes, the components and the stack.\<close>

definition extends :: "tarjan \<Rightarrow> string list \<Rightarrow> tarjan \<Rightarrow> bool" where
  "extends t new t' =
     (visited t \<subseteq> visited t' \<and> (\<forall>x \<in> visited t. num t' x = num t x \<and> low t' x = low t x) \<and>
      tj_stack t' = new @ tj_stack t \<and> set new \<inter> visited t = {} \<and>
      (\<forall>x \<in> visited t' - visited t. tj_counter t \<le> num t' x) \<and> tj_counter t \<le> tj_counter t')"

text \<open>The postcondition of \<open>strongConnect v\<close>: its low link bounds the edges back into the old stack, and is the
  number of a node there that \<open>v\<close> reaches, if \<open>v\<close> stays on the stack.\<close>

definition connect_post :: "string list gomap \<Rightarrow> string set \<Rightarrow> string set \<Rightarrow> string \<Rightarrow> tarjan \<Rightarrow> tarjan \<Rightarrow> bool" where
  "connect_post adj V grey v t t' =
     (tarjan_inv adj V grey t' \<and> v \<in> visited t' \<and>
      (\<exists>new. extends t new t' \<and>
         (\<forall>x \<in> set new. \<forall>z \<in> set (tj_stack t). (x, z) \<in> edges adj \<longrightarrow> low t' v \<le> num t z) \<and>
         (if new = [] then tj_counter t \<le> low t' v
          else \<exists>z \<in> set (tj_stack t). num t z = low t' v \<and> (v, z) \<in> (edges adj)\<^sup>*)))"

text \<open>The invariant of the loop over the edges of \<open>v\<close>; \<open>dn\<close> are those already followed.\<close>

definition loop_inv ::
  "string list gomap \<Rightarrow> string set \<Rightarrow> string set \<Rightarrow> string \<Rightarrow> tarjan \<Rightarrow> string set \<Rightarrow> tarjan \<Rightarrow> bool" where
  "loop_inv adj V grey v t0 dn t =
     (tarjan_inv adj V (insert v grey) t \<and> num t v = tj_counter t0 \<and> low t v \<le> num t v \<and> dn \<subseteq> visited t \<and>
      (\<exists>new. extends t0 (new @ [v]) t \<and>
         (\<forall>x \<in> set new. \<forall>z \<in> set (tj_stack t0). (x, z) \<in> edges adj \<longrightarrow> low t v \<le> num t0 z)) \<and>
      (\<forall>z \<in> dn \<inter> set (tj_stack t0). low t v \<le> num t0 z) \<and>
      (low t v = num t v \<or> (\<exists>z \<in> set (tj_stack t0). num t0 z = low t v \<and> (v, z) \<in> (edges adj)\<^sup>*)))"

definition callable :: "string list gomap \<Rightarrow> string set \<Rightarrow> string set \<Rightarrow> string \<Rightarrow> tarjan \<Rightarrow> bool" where
  "callable adj V grey v t =
     (tarjan_inv adj V grey t \<and> v \<in> V \<and> v \<notin> visited t \<and> (\<forall>g \<in> grey. (g, v) \<in> (edges adj)\<^sup>*))"

subsection \<open>Visiting a node\<close>

lemma visit_simps [simp]:
  "visited (visit_node v t) = insert v (visited t)"
  "tj_stack (visit_node v t) = v # tj_stack t"
  "tj_sccs (visit_node v t) = tj_sccs t"
  "tj_counter (visit_node v t) = Suc (tj_counter t)"
  "num (visit_node v t) x = (if x = v then tj_counter t else num t x)"
  "low (visit_node v t) x = (if x = v then tj_counter t else low t x)"
  "map_get False (tj_onStack (visit_node v t)) x = (x = v \<or> map_get False (tj_onStack t) x)"
  by (auto simp: visit_node_def visited_def)

lemma visit_loop_inv:
  assumes "callable adj V grey v t"
  shows "loop_inv adj V grey v t {} (visit_node v t)"
proof -
  from assms have inv: "tarjan_inv adj V grey t" and v: "v \<in> V" "v \<notin> visited t"
    and g: "\<And>g. g \<in> grey \<Longrightarrow> (g, v) \<in> (edges adj)\<^sup>*" by (auto simp: callable_def)
  note i = tarjan_invD [OF inv]
  have vs: "v \<notin> set (tj_stack t)" using i(2) v(2) by blast
  have lt: "x \<in> set (tj_stack t) \<Longrightarrow> num t x < tj_counter t" for x using i(2,5) by blast
  have toV: "(x, v) \<in> (edges adj)\<^sup>*" if "x \<in> set (tj_stack t)" for x
    using i(14) [OF that] g by (meson rtrancl_trans)
  have num: "num (visit_node v t) x = num t x" if "x \<in> set (tj_stack t)" for x using vs that by auto
  have "tarjan_inv adj V (insert v grey) (visit_node v t)"
    unfolding tarjan_inv_def
  proof (intro conjI)
    show "visited (visit_node v t) \<subseteq> V" "set (tj_stack (visit_node v t)) \<subseteq> visited (visit_node v t)"
      "insert v grey \<subseteq> set (tj_stack (visit_node v t))" using i(1,2,3) v by auto
    show "\<forall>x. map_get False (tj_onStack (visit_node v t)) x = (x \<in> set (tj_stack (visit_node v t)))" using i(4) by simp
    show "\<forall>x \<in> visited (visit_node v t). num (visit_node v t) x < tj_counter (visit_node v t)"
      using i(5) by (auto simp: less_SucI)
    have "sorted_wrt (\<lambda>x y. num (visit_node v t) y < num (visit_node v t) x) (tj_stack t)"
      by (rule sorted_wrt_mono_rel [OF _ i(6)]) (simp only: num)
    moreover have "\<forall>y \<in> set (tj_stack t). num (visit_node v t) y < num (visit_node v t) v"
      using lt vs by auto
    ultimately show "sorted_wrt (\<lambda>x y. num (visit_node v t) y < num (visit_node v t) x) (tj_stack (visit_node v t))"
      by (simp del: visit_simps(5))
    show "set (concat (tj_sccs (visit_node v t))) = visited (visit_node v t) - set (tj_stack (visit_node v t))"
      using i(7) v(2) by auto
    show "distinct (concat (tj_sccs (visit_node v t)))" "[] \<notin> set (tj_sccs (visit_node v t))"
      "backward adj (tj_sccs (visit_node v t))" using i(8,9,10) by simp_all
    show "\<forall>c \<in> set (tj_sccs (visit_node v t)). connected adj c" using i(11) by simp
    show "\<forall>x \<in> set (tj_stack (visit_node v t)) - insert v grey. edges adj `` {x} \<subseteq> visited (visit_node v t)"
      using i(12) by auto
    show "\<forall>x \<in> set (tj_stack (visit_node v t)). \<forall>y \<in> set (tj_stack (visit_node v t)).
        num (visit_node v t) x \<le> num (visit_node v t) y \<longrightarrow> (x, y) \<in> (edges adj)\<^sup>*"
      using i(13) toV lt by (auto simp: not_le [symmetric])
    show "\<forall>y \<in> set (tj_stack (visit_node v t)). \<exists>g \<in> insert v grey.
        num (visit_node v t) g \<le> num (visit_node v t) y \<and> (y, g) \<in> (edges adj)\<^sup>*"
    proof
      fix y assume "y \<in> set (tj_stack (visit_node v t))"
      then consider "y = v" | "y \<in> set (tj_stack t)" by auto
      then show "\<exists>g \<in> insert v grey. num (visit_node v t) g \<le> num (visit_node v t) y \<and> (y, g) \<in> (edges adj)\<^sup>*"
      proof cases
        case 2
        from i(14) [OF 2] obtain g where "g \<in> grey" "num t g \<le> num t y" "(y, g) \<in> (edges adj)\<^sup>*" by blast
        moreover have "g \<in> set (tj_stack t)" using i(3) \<open>g \<in> grey\<close> by blast
        ultimately show ?thesis using num 2 by (intro bexI [of _ g]) (simp_all del: visit_simps(5))
      qed auto
    qed
  qed
  moreover have "extends t ([] @ [v]) (visit_node v t)" using v by (auto simp: extends_def)
  ultimately show ?thesis unfolding loop_inv_def by (intro conjI exI [of _ "[]"]) auto
qed

subsection \<open>Following the edges\<close>

lemma lower_simps [simp]:
  "visited (lower v k t) = visited t" "tj_stack (lower v k t) = tj_stack t" "tj_sccs (lower v k t) = tj_sccs t"
  "tj_index (lower v k t) = tj_index t" "tj_counter (lower v k t) = tj_counter t" "tj_onStack (lower v k t) = tj_onStack t"
  "low (lower v k t) x = (if x = v then min k (low t v) else low t x)"
  by (auto simp: lower_def visited_def min_def)

lemma tarjan_inv_lower [simp]: "tarjan_inv adj V grey (lower v k t) = tarjan_inv adj V grey t"
  by (simp add: tarjan_inv_def)

lemma extends_trans:
  assumes "extends t0 new t" "extends t new' t'"
  shows "extends t0 (new' @ new) t'"
proof -
  have v: "visited t0 \<subseteq> visited t" "visited t \<subseteq> visited t'" using assms by (auto simp: extends_def)
  have c: "tj_counter t0 \<le> tj_counter t" "tj_counter t \<le> tj_counter t'" using assms by (auto simp: extends_def)
  have "tj_counter t0 \<le> num t' x" if "x \<in> visited t'" "x \<notin> visited t0" for x
  proof (cases "x \<in> visited t")
    case True
    with assms that show ?thesis by (simp add: extends_def)
  next
    case False
    with assms(2) that have "tj_counter t \<le> num t' x" by (simp add: extends_def)
    with c show ?thesis by simp
  qed
  moreover have "num t' x = num t0 x \<and> low t' x = low t0 x" if "x \<in> visited t0" for x
    using assms v that by (simp add: extends_def subset_iff)
  moreover have "tj_stack t' = (new' @ new) @ tj_stack t0" "set (new' @ new) \<inter> visited t0 = {}"
    using assms v by (auto simp: extends_def)
  ultimately show ?thesis using v c unfolding extends_def by auto
qed

lemma extends_lower: "extends t0 new t \<Longrightarrow> v \<notin> visited t0 \<Longrightarrow> extends t0 new (lower v k t)"
  by (auto simp: extends_def)

lemma old_stack_num:
  assumes "tarjan_inv adj V grey t" "tj_stack t = new @ v # st" "z \<in> set (tj_stack t)" "num t z < num t v"
  shows "z \<in> set st"
proof -
  have "sorted_wrt (\<lambda>x y. num t y < num t x) (new @ v # st)" using tarjan_invD(6) [OF assms(1)] assms(2) by simp
  then have "\<And>x. x \<in> set new \<Longrightarrow> num t v < num t x" by (simp add: sorted_wrt_append)
  with assms(2-4) show ?thesis by fastforce
qed

lemma new_notin_old:
  assumes "extends t0 new t" "set (tj_stack t0) \<subseteq> visited t0"
  shows "x \<in> set (tj_stack t0) \<Longrightarrow> num t x = num t0 x \<and> x \<in> visited t0"
  using assms by (auto simp: extends_def)

lemma loop_step_call:
  assumes pre: "callable adj V grey v t0" and inv: "loop_inv adj V grey v t0 dn t"
    and w: "w \<notin> visited t" and e: "(v, w) \<in> edges adj" and post: "connect_post adj V (insert v grey) w t t'"
  shows "loop_inv adj V grey v t0 (insert w dn) (lower v (low t' w) t')"
proof -
  from pre have inv0: "tarjan_inv adj V grey t0" and v0: "v \<notin> visited t0" by (auto simp: callable_def)
  note i0 = tarjan_invD [OF inv0]
  from inv obtain new where it: "tarjan_inv adj V (insert v grey) t" and nv: "num t v = tj_counter t0"
    and lv: "low t v \<le> num t v" and dn: "dn \<subseteq> visited t" and ex: "extends t0 (new @ [v]) t"
    and q1: "\<And>x z. x \<in> set new \<Longrightarrow> z \<in> set (tj_stack t0) \<Longrightarrow> (x, z) \<in> edges adj \<Longrightarrow> low t v \<le> num t0 z"
    and dlow: "\<And>z. z \<in> dn \<Longrightarrow> z \<in> set (tj_stack t0) \<Longrightarrow> low t v \<le> num t0 z"
    and q2: "low t v = num t v \<or> (\<exists>z \<in> set (tj_stack t0). num t0 z = low t v \<and> (v, z) \<in> (edges adj)\<^sup>*)"
    unfolding loop_inv_def by blast
  note i = tarjan_invD [OF it]
  from post obtain new' where it': "tarjan_inv adj V (insert v grey) t'" and wv: "w \<in> visited t'"
    and ex': "extends t new' t'"
    and p1: "\<And>x z. x \<in> set new' \<Longrightarrow> z \<in> set (tj_stack t) \<Longrightarrow> (x, z) \<in> edges adj \<Longrightarrow> low t' w \<le> num t z"
    and p2: "if new' = [] then tj_counter t \<le> low t' w
          else \<exists>z \<in> set (tj_stack t). num t z = low t' w \<and> (w, z) \<in> (edges adj)\<^sup>*"
    unfolding connect_post_def by blast
  have st: "tj_stack t = new @ v # tj_stack t0" using ex by (simp add: extends_def)
  have vt: "v \<in> visited t" using i(2) st by auto
  have old: "num t z = num t0 z \<and> z \<in> visited t0 \<and> z \<in> set (tj_stack t)" if "z \<in> set (tj_stack t0)" for z
    using new_notin_old [OF ex i0(2) that] that st by simp
  have v': "num t' v = num t v" "low t' v = low t v" using ex' vt by (simp_all add: extends_def)
  have nvc: "num t v < tj_counter t" using i(5) [OF vt] .
  let ?l = "min (low t' w) (low t v)"
  have l: "low (lower v (low t' w) t') v = ?l" by (simp add: v'(2))
  have q1': "?l \<le> num t0 z" if "x \<in> set (new' @ new)" "z \<in> set (tj_stack t0)" "(x, z) \<in> edges adj" for x z
    using that p1 [of x z] q1 [of x z] old [of z] by (auto simp: min_le_iff_disj)
  have wold: "w \<notin> set (tj_stack t0)" using w old i(2) by blast
  have dl: "?l \<le> num t0 z" if "z \<in> insert w dn" "z \<in> set (tj_stack t0)" for z
    using that dlow wold by (auto simp: min_le_iff_disj)
  have q2': "?l = num t' v \<or> (\<exists>z \<in> set (tj_stack t0). num t0 z = ?l \<and> (v, z) \<in> (edges adj)\<^sup>*)"
  proof (cases "low t' w < low t v")
    case False
    with q2 show ?thesis by (simp add: v' min_def not_less)
  next
    case True
    with lv nvc have "new' \<noteq> []" using p2 by (auto split: if_splits)
    with p2 obtain z where z: "z \<in> set (tj_stack t)" "num t z = low t' w" "(w, z) \<in> (edges adj)\<^sup>*" by auto
    have "num t z < num t v" using z(2) True lv by simp
    from old_stack_num [OF it st z(1) this] have "z \<in> set (tj_stack t0)" .
    moreover have "(v, z) \<in> (edges adj)\<^sup>*" using e z(3) by (rule converse_rtrancl_into_rtrancl)
    ultimately show ?thesis using True z(2) old [of z] by (auto simp: min_def)
  qed
  have ext: "extends t0 ((new' @ new) @ [v]) (lower v (low t' w) t')"
    using extends_lower [OF extends_trans [OF ex ex'] v0] by simp
  have "dn \<subseteq> visited t'" using dn ex' by (auto simp: extends_def)
  then show ?thesis
    unfolding loop_inv_def tarjan_inv_lower lower_simps(1,4) l
    using it' nv v'(1) lv wv ext q1' dl q2' by (intro conjI exI [of _ "new' @ new"]) auto
qed

lemma loop_step_seen:
  assumes pre: "callable adj V grey v t0" and inv: "loop_inv adj V grey v t0 dn t"
    and w: "w \<in> visited t" and e: "(v, w) \<in> edges adj"
  shows "loop_inv adj V grey v t0 (insert w dn)
     (if map_get False (tj_onStack t) w then lower v (num t w) t else t)"
proof -
  from pre have inv0: "tarjan_inv adj V grey t0" and v0: "v \<notin> visited t0" by (auto simp: callable_def)
  note i0 = tarjan_invD [OF inv0]
  from inv obtain new where it: "tarjan_inv adj V (insert v grey) t" and nv: "num t v = tj_counter t0"
    and lv: "low t v \<le> num t v" and dn: "dn \<subseteq> visited t" and ex: "extends t0 (new @ [v]) t"
    and q1: "\<And>x z. x \<in> set new \<Longrightarrow> z \<in> set (tj_stack t0) \<Longrightarrow> (x, z) \<in> edges adj \<Longrightarrow> low t v \<le> num t0 z"
    and dlow: "\<And>z. z \<in> dn \<Longrightarrow> z \<in> set (tj_stack t0) \<Longrightarrow> low t v \<le> num t0 z"
    and q2: "low t v = num t v \<or> (\<exists>z \<in> set (tj_stack t0). num t0 z = low t v \<and> (v, z) \<in> (edges adj)\<^sup>*)"
    unfolding loop_inv_def by blast
  note i = tarjan_invD [OF it]
  have st: "tj_stack t = new @ v # tj_stack t0" using ex by (simp add: extends_def)
  have old: "num t z = num t0 z" if "z \<in> set (tj_stack t0)" for z
    using new_notin_old [OF ex i0(2) that] by simp
  show ?thesis
  proof (cases "w \<in> set (tj_stack t)")
    case False
    then have "w \<notin> set (tj_stack t0)" using st by auto
    then show ?thesis using False inv w i(4) unfolding loop_inv_def by auto
  next
    case True
    let ?l = "min (num t w) (low t v)"
    have l: "low (lower v (num t w) t) v = ?l" by simp
    have q2': "?l = num t v \<or> (\<exists>z \<in> set (tj_stack t0). num t0 z = ?l \<and> (v, z) \<in> (edges adj)\<^sup>*)"
    proof (cases "num t w < low t v")
      case False
      with q2 show ?thesis by (simp add: min_def not_less)
    next
      case less: True
      with lv have "num t w < num t v" by simp
      from old_stack_num [OF it st True this] have "w \<in> set (tj_stack t0)" .
      with less e old [of w] show ?thesis by (auto simp: min_def)
    qed
    have q1': "?l \<le> num t0 z" if "x \<in> set new" "z \<in> set (tj_stack t0)" "(x, z) \<in> edges adj" for x z
      using q1 [OF that] by (simp add: min_le_iff_disj)
    have dl: "?l \<le> num t0 z" if "z \<in> insert w dn" "z \<in> set (tj_stack t0)" for z
      using that dlow [of z] old [of z] by (auto simp: min_le_iff_disj)
    have "loop_inv adj V grey v t0 (insert w dn) (lower v (num t w) t)"
      unfolding loop_inv_def tarjan_inv_lower lower_simps(1,4) l
      using it nv lv w dn extends_lower [OF ex v0] q1' dl q2' by (intro conjI exI [of _ new]) auto
    with True i(4) show ?thesis by simp
  qed
qed

subsection \<open>Closing a node\<close>

lemma pop_scc_spec:
  "v \<notin> set new \<Longrightarrow> \<exists>on'. pop_scc v (new @ v # st) scc on = (scc @ new @ [v], st, on') \<and>
     (\<forall>x. map_get False on' x = (x \<notin> set new \<and> x \<noteq> v \<and> map_get False on x))"
proof (induction new arbitrary: scc on)
  case (Cons w new)
  from Cons.prems have "v \<notin> set new" by simp
  from Cons.IH [OF this, of "scc @ [w]" "map_put w False on"] obtain on' where
    "pop_scc v (new @ v # st) (scc @ [w]) (map_put w False on) = ((scc @ [w]) @ new @ [v], st, on')"
    "\<forall>x. map_get False on' x = (x \<notin> set new \<and> x \<noteq> v \<and> map_get False (map_put w False on) x)" by blast
  with Cons.prems show ?case by (intro exI [of _ on']) auto
qed auto

lemma sorted_num_distinct: "sorted_wrt (\<lambda>x y. (f y :: nat) < f x) xs \<Longrightarrow> distinct xs"
  by (induction xs) auto

lemma edge_closed_reach: "\<lbrakk>(x, y) \<in> r\<^sup>*; x \<in> A; \<And>x y. x \<in> A \<Longrightarrow> (x, y) \<in> r \<Longrightarrow> y \<in> A\<rbrakk> \<Longrightarrow> y \<in> A"
  by (induction rule: rtrancl_induct) auto

lemma backward_closed:
  "backward adj cs \<Longrightarrow> x \<in> set (concat cs) \<Longrightarrow> (x, y) \<in> edges adj \<Longrightarrow> y \<in> set (concat cs)"
proof -
  assume b: "backward adj cs" and x: "x \<in> set (concat cs)" and e: "(x, y) \<in> edges adj"
  from x obtain c where "c \<in> set cs" "x \<in> set c" by auto
  then obtain i where i: "i < length cs" "x \<in> set (cs ! i)" by (metis in_set_conv_nth)
  with b e obtain j where "j \<le> i" "y \<in> set (cs ! j)" unfolding backward_def by blast
  moreover from this i have "cs ! j \<in> set cs" by (intro nth_mem) simp
  ultimately show "y \<in> set (concat cs)" by auto
qed

lemma backward_snoc:
  assumes "backward adj cs" "\<And>x y. x \<in> set c \<Longrightarrow> (x, y) \<in> edges adj \<Longrightarrow> y \<in> set c \<union> set (concat cs)"
  shows "backward adj (cs @ [c])"
  unfolding backward_def
proof (intro allI impI ballI)
  fix i x y assume i: "i < length (cs @ [c])" and x: "x \<in> set ((cs @ [c]) ! i)" and e: "(x, y) \<in> edges adj"
  show "\<exists>j \<le> i. y \<in> set ((cs @ [c]) ! j)"
  proof (cases "i < length cs")
    case True
    with x have "x \<in> set (cs ! i)" by (simp add: nth_append)
    with assms(1) e True obtain j where "j \<le> i" "y \<in> set (cs ! j)" unfolding backward_def by blast
    with True show ?thesis by (intro exI [of _ j]) (simp add: nth_append)
  next
    case False
    with i have i: "i = length cs" by simp
    with x have "x \<in> set c" by simp
    from assms(2) [OF this e] consider "y \<in> set c" | "y \<in> set (concat cs)" by blast
    then show ?thesis
    proof cases
      case 1
      then show ?thesis using i by (intro exI [of _ i]) simp
    next
      case 2
      then obtain d where "d \<in> set cs" "y \<in> set d" by auto
      then obtain j where "j < length cs" "y \<in> set (cs ! j)" by (metis in_set_conv_nth)
      then show ?thesis using i by (intro exI [of _ j]) (simp add: nth_append)
    qed
  qed
qed

lemma close_root:
  assumes pre: "callable adj V grey v t0" and inv: "loop_inv adj V grey v t0 (set (map_get [] adj v)) t"
    and root: "low t v = num t v"
  shows "connect_post adj V grey v t0 (close_scc v t)"
proof -
  from pre have inv0: "tarjan_inv adj V grey t0" and v0: "v \<notin> visited t0" by (auto simp: callable_def)
  note i0 = tarjan_invD [OF inv0]
  from inv obtain new where it: "tarjan_inv adj V (insert v grey) t" and nv: "num t v = tj_counter t0"
    and dn: "set (map_get [] adj v) \<subseteq> visited t" and ex: "extends t0 (new @ [v]) t"
    and q1: "\<And>x z. x \<in> set new \<Longrightarrow> z \<in> set (tj_stack t0) \<Longrightarrow> (x, z) \<in> edges adj \<Longrightarrow> low t v \<le> num t0 z"
    and dlow: "\<And>z. z \<in> set (map_get [] adj v) \<Longrightarrow> z \<in> set (tj_stack t0) \<Longrightarrow> low t v \<le> num t0 z"
    unfolding loop_inv_def by blast
  note i = tarjan_invD [OF it]
  have st: "tj_stack t = new @ v # tj_stack t0" using ex by (simp add: extends_def)
  have sw: "sorted_wrt (\<lambda>x y. num t y < num t x) (new @ v # tj_stack t0)" using i(6) st by simp
  then have vnew: "v \<notin> set new" and st0: "set (tj_stack t0) \<inter> insert v (set new) = {}"
    by (fastforce simp: sorted_wrt_append)+
  have num0: "num t z = num t0 z \<and> num t0 z < num t v" if "z \<in> set (tj_stack t0)" for z
    using new_notin_old [OF ex i0(2) that] i0(2,5) that nv by auto
  let ?S = "insert v (set new)" and ?C = "set (concat (tj_sccs t))"
  have step: "y \<in> ?S \<union> ?C" if x: "x \<in> ?S" and e: "(x, y) \<in> edges adj" for x y
  proof -
    have "y \<in> visited t"
    proof (cases "x = v")
      case True
      then show ?thesis using e dn by (auto simp: edges_def)
    next
      case False
      then have "x \<in> set new" using x by simp
      moreover have "grey \<subseteq> set (tj_stack t0)" using i0(3) .
      ultimately have "x \<notin> insert v grey" using False st0 by auto
      with i(12) [of x y] \<open>x \<in> set new\<close> e st show ?thesis by simp
    qed
    moreover have "y \<notin> set (tj_stack t0)"
    proof
      assume y: "y \<in> set (tj_stack t0)"
      then have "low t v \<le> num t0 y" using q1 [of x y] dlow [of y] x e by (auto simp: edges_def)
      with num0 [OF y] root show False by simp
    qed
    ultimately show ?thesis using i(7) st by auto
  qed
  have closed: "y \<in> ?S \<union> ?C" if "x \<in> ?S \<union> ?C" "(x, y) \<in> edges adj" for x y
    using that step backward_closed [OF i(10)] by blast
  have backs: "(y, v) \<in> (edges adj)\<^sup>*" if y: "y \<in> ?S" for y
  proof -
    have "y \<in> set (tj_stack t)" using y st by auto
    from i(14) [OF this] obtain g where g: "g \<in> insert v grey" "(y, g) \<in> (edges adj)\<^sup>*" by blast
    have "g \<in> ?S \<union> ?C" by (rule edge_closed_reach [OF g(2)]) (use y closed in auto)
    moreover have "g \<notin> ?S \<union> ?C" if "g \<in> grey"
      using that i0(3) st0 i(7) st by auto
    ultimately show ?thesis using g by blast
  qed
  have forths: "(v, y) \<in> (edges adj)\<^sup>*" if y: "y \<in> ?S" for y
  proof -
    have "num t v \<le> num t y" using y sw by (auto simp: sorted_wrt_append less_imp_le)
    then show ?thesis using i(13) [of v y] y st by auto
  qed
  have conn: "connected adj (new @ [v])"
    unfolding connected_def
  proof (intro ballI)
    fix x y assume "x \<in> set (new @ [v])" "y \<in> set (new @ [v])"
    then have "(x, v) \<in> (edges adj)\<^sup>*" "(v, y) \<in> (edges adj)\<^sup>*" using backs forths by auto
    then show "(x, y) \<in> (edges adj)\<^sup>*" by (rule rtrancl_trans)
  qed
  obtain on' where pop: "pop_scc v (new @ v # tj_stack t0) [] (tj_onStack t) = (new @ [v], tj_stack t0, on')"
    and on': "\<And>x. map_get False on' x = (x \<notin> set new \<and> x \<noteq> v \<and> map_get False (tj_onStack t) x)"
    using pop_scc_spec [OF vnew, of "tj_stack t0" "[]" "tj_onStack t"] by auto
  let ?t = "t\<lparr>tj_stack := tj_stack t0, tj_onStack := on', tj_sccs := tj_sccs t @ [new @ [v]]\<rparr>"
  have closing: "close_scc v t = ?t" using root by (simp add: close_scc_def st pop)
  have vis: "visited ?t = visited t" by (simp add: visited_def)
  have sub: "set (tj_stack t0) \<subseteq> set (tj_stack t)" using st by auto
  have "tarjan_inv adj V grey ?t"
    unfolding tarjan_inv_def vis
  proof (intro conjI)
    show "visited t \<subseteq> V" using i(1) .
    show "set (tj_stack ?t) \<subseteq> visited t" using i(2) st by auto
    show "grey \<subseteq> set (tj_stack ?t)" using i0(3) by simp
    show "\<forall>x. map_get False (tj_onStack ?t) x = (x \<in> set (tj_stack ?t))"
      using on' i(4) st st0 by auto
    show "\<forall>x \<in> visited t. num ?t x < tj_counter ?t" using i(5) by simp
    show "sorted_wrt (\<lambda>x y. num ?t y < num ?t x) (tj_stack ?t)" using sw by (simp add: sorted_wrt_append)
    show "set (concat (tj_sccs ?t)) = visited t - set (tj_stack ?t)"
      using i(2,7) st st0 by auto
    show "distinct (concat (tj_sccs ?t))"
    proof -
      have "distinct (new @ [v])" using sw vnew by (auto simp: sorted_wrt_append intro: sorted_num_distinct)
      moreover have "?C \<inter> ?S = {}" using i(7) st by auto
      ultimately show ?thesis using i(8) by auto
    qed
    show "[] \<notin> set (tj_sccs ?t)" using i(9) by simp
    show "backward adj (tj_sccs ?t)" using backward_snoc [OF i(10)] step by fastforce
    show "\<forall>c \<in> set (tj_sccs ?t). connected adj c" using i(11) conn by auto
    show "\<forall>x \<in> set (tj_stack ?t) - grey. edges adj `` {x} \<subseteq> visited t"
    proof (clarsimp)
      fix x y assume x: "x \<in> set (tj_stack t0)" "x \<notin> grey" "(x, y) \<in> edges adj"
      then have "x \<notin> insert v grey" using st0 by auto
      with x i(12) [of x y] sub show "y \<in> visited t" by blast
    qed
    show "\<forall>x \<in> set (tj_stack ?t). \<forall>y \<in> set (tj_stack ?t). num ?t x \<le> num ?t y \<longrightarrow> (x, y) \<in> (edges adj)\<^sup>*"
      using i(13) sub by auto
    show "\<forall>y \<in> set (tj_stack ?t). \<exists>g \<in> grey. num ?t g \<le> num ?t y \<and> (y, g) \<in> (edges adj)\<^sup>*"
    proof
      fix y assume y: "y \<in> set (tj_stack ?t)"
      then have "y \<in> set (tj_stack t)" using sub by auto
      from i(14) [OF this] obtain g where g: "g \<in> insert v grey" "num t g \<le> num t y" "(y, g) \<in> (edges adj)\<^sup>*" by blast
      have "g \<noteq> v" using g(2) num0 [of y] y by auto
      with g show "\<exists>g \<in> grey. num ?t g \<le> num ?t y \<and> (y, g) \<in> (edges adj)\<^sup>*" by auto
    qed
  qed
  moreover have "extends t0 [] ?t" using ex by (auto simp: extends_def visited_def)
  moreover have "v \<in> visited t" using i(2) st by auto
  ultimately show ?thesis
    unfolding closing connect_post_def vis using nv root by (intro conjI exI [of _ "[]"]) auto
qed

lemma close_inner:
  assumes pre: "callable adj V grey v t0" and inv: "loop_inv adj V grey v t0 (set (map_get [] adj v)) t"
    and inner: "low t v \<noteq> num t v"
  shows "connect_post adj V grey v t0 (close_scc v t)"
proof -
  from pre have inv0: "tarjan_inv adj V grey t0" and v0: "v \<notin> visited t0" by (auto simp: callable_def)
  note i0 = tarjan_invD [OF inv0]
  from inv obtain new where it: "tarjan_inv adj V (insert v grey) t" and lv: "low t v \<le> num t v"
    and dn: "set (map_get [] adj v) \<subseteq> visited t" and ex: "extends t0 (new @ [v]) t"
    and q1: "\<And>x z. x \<in> set new \<Longrightarrow> z \<in> set (tj_stack t0) \<Longrightarrow> (x, z) \<in> edges adj \<Longrightarrow> low t v \<le> num t0 z"
    and dlow: "\<And>z. z \<in> set (map_get [] adj v) \<Longrightarrow> z \<in> set (tj_stack t0) \<Longrightarrow> low t v \<le> num t0 z"
    and q2: "low t v = num t v \<or> (\<exists>z \<in> set (tj_stack t0). num t0 z = low t v \<and> (v, z) \<in> (edges adj)\<^sup>*)"
    unfolding loop_inv_def by blast
  note i = tarjan_invD [OF it]
  have st: "tj_stack t = new @ v # tj_stack t0" using ex by (simp add: extends_def)
  from q2 inner obtain z where z: "z \<in> set (tj_stack t0)" "num t0 z = low t v" "(v, z) \<in> (edges adj)\<^sup>*" by auto
  have nz: "num t z < num t v" using new_notin_old [OF ex i0(2) z(1)] z(2) lv inner by simp
  have zt: "z \<in> set (tj_stack t)" using z(1) st by simp
  from i(14) [OF zt] obtain g where g: "g \<in> insert v grey" "num t g \<le> num t z" "(z, g) \<in> (edges adj)\<^sup>*" by blast
  then have gg: "g \<in> grey" using nz by auto
  have "tarjan_inv adj V grey t"
    unfolding tarjan_inv_def
  proof (intro conjI)
    show "grey \<subseteq> set (tj_stack t)" using i(3) by simp
    show "\<forall>x \<in> set (tj_stack t) - grey. edges adj `` {x} \<subseteq> visited t"
    proof (clarsimp)
      fix x y assume x: "x \<in> set (tj_stack t)" "x \<notin> grey" "(x, y) \<in> edges adj"
      show "y \<in> visited t"
      proof (cases "x = v")
        case True
        with x dn show ?thesis by (auto simp: edges_def)
      next
        case False
        with x i(12) [of x y] show ?thesis by simp
      qed
    qed
    show "\<forall>y \<in> set (tj_stack t). \<exists>g \<in> grey. num t g \<le> num t y \<and> (y, g) \<in> (edges adj)\<^sup>*"
    proof
      fix y assume "y \<in> set (tj_stack t)"
      from i(14) [OF this] obtain h where h: "h \<in> insert v grey" "num t h \<le> num t y" "(y, h) \<in> (edges adj)\<^sup>*" by blast
      show "\<exists>g \<in> grey. num t g \<le> num t y \<and> (y, g) \<in> (edges adj)\<^sup>*"
      proof (cases "h = v")
        case True
        then have "(y, g) \<in> (edges adj)\<^sup>*" using h(3) z(3) g(3) by (meson rtrancl_trans)
        moreover have "num t g \<le> num t y" using g(2) nz h(2) True by simp
        ultimately show ?thesis using gg by blast
      qed (use h in blast)
    qed
  qed (use i in auto)
  moreover have "close_scc v t = t" using inner by (simp add: close_scc_def)
  moreover have "v \<in> visited t" using i(2) st by auto
  moreover have "low t v \<le> num t0 y" if "x \<in> set (new @ [v])" "y \<in> set (tj_stack t0)" "(x, y) \<in> edges adj" for x y
    using that q1 [of x y] dlow [of y] by (auto simp: edges_def)
  ultimately show ?thesis
    unfolding connect_post_def using ex z by (auto intro!: exI [of _ "new @ [v]"])
qed

subsection \<open>The traversal\<close>

lemma loop_callable:
  assumes pre: "callable adj V grey v t0" and inv: "loop_inv adj V grey v t0 dn t"
    and e: "(v, w) \<in> edges adj" and w: "w \<in> V" "w \<notin> visited t"
  shows "callable adj V (insert v grey) w t"
proof -
  have "(g, w) \<in> (edges adj)\<^sup>*" if "g \<in> insert v grey" for g
  proof -
    have "(g, v) \<in> (edges adj)\<^sup>*" using that pre by (auto simp: callable_def)
    then show ?thesis using e by (rule rtrancl_into_rtrancl)
  qed
  then show ?thesis using inv w by (auto simp: callable_def loop_inv_def)
qed

lemma strongConnect_post:
  assumes fin: "finite V" and closed: "\<And>x y. x \<in> V \<Longrightarrow> (x, y) \<in> edges adj \<Longrightarrow> y \<in> V"
  shows "callable adj V grey v t \<Longrightarrow> card (V - visited t) \<le> d \<Longrightarrow> connect_post adj V grey v t (strongConnect adj d v t)"
    and "callable adj V grey v t0 \<Longrightarrow> loop_inv adj V grey v t0 dn t \<Longrightarrow> set ws \<subseteq> set (map_get [] adj v) \<Longrightarrow>
       card (V - visited t) \<le> d \<Longrightarrow> loop_inv adj V grey v t0 (dn \<union> set ws) (connect_edges adj d v ws t)"
  using closed
proof (induction adj d v t and adj d v ws t arbitrary: grey and grey t0 dn rule: strongConnect_connect_edges.induct)
  case (1 adj v t)
  then have "v \<in> V - visited t" by (auto simp: callable_def)
  with fin 1(2) show ?case by (metis card_0_eq empty_iff finite_Diff le_zero_eq)
next
  case (2 adj d v t)
  have v: "v \<in> V" "v \<notin> visited t" using "2.prems"(1) by (auto simp: callable_def)
  have "V - visited (visit_node v t) \<subset> V - visited t" using v by auto
  then have "card (V - visited (visit_node v t)) < card (V - visited t)" using fin by (simp add: psubset_card_mono)
  then have "card (V - visited (visit_node v t)) \<le> d" using "2.prems"(2) by linarith
  from "2.IH" [OF "2.prems"(1) visit_loop_inv [OF "2.prems"(1)] _ this "2.prems"(3)]
  have "loop_inv adj V grey v t (set (map_get [] adj v)) (connect_edges adj d v (map_get [] adj v) (visit_node v t))"
    by simp
  then show ?case using close_root close_inner "2.prems"(1) by simp blast
next
  case (3 adj d v t)
  then show ?case by simp
next
  case (4 adj d v w ws t)
  have e: "(v, w) \<in> edges adj" using "4.prems"(3) by (simp add: edges_def)
  have "v \<in> V" using "4.prems"(1) by (simp add: callable_def)
  then have wV: "w \<in> V" using "4.prems"(5) e by blast
  have ws: "set ws \<subseteq> set (map_get [] adj v)" using "4.prems"(3) by simp
  show ?case
  proof (cases "map_has (tj_index t) w")
    case False
    then have nw: "w \<notin> visited t" by (simp add: visited_def)
    let ?t = "strongConnect adj d w t"
    have post: "connect_post adj V (insert v grey) w t ?t"
      using "4.IH"(1) [OF False loop_callable [OF "4.prems"(1,2) e wV nw] "4.prems"(4,5)] .
    have "visited t \<subseteq> visited ?t" using post by (auto simp: connect_post_def extends_def)
    then have "card (V - visited (lower v (low ?t w) ?t)) \<le> card (V - visited t)"
      using fin by (auto intro: card_mono)
    then have "card (V - visited (lower v (low ?t w) ?t)) \<le> d" using "4.prems"(4) by linarith
    from "4.IH"(2) [OF "4.prems"(1) _ ws, of "insert w dn"] loop_step_call [OF "4.prems"(1,2) nw e post] this "4.prems"(5) False
    show ?thesis by (simp add: Let_def)
  next
    case True
    then have w: "w \<in> visited t" by (simp add: visited_def)
    have "visited (if map_get False (tj_onStack t) w then lower v (num t w) t else t) = visited t" by simp
    with "4.IH"(2) [OF "4.prems"(1) _ ws, of "insert w dn"] loop_step_seen [OF "4.prems"(1,2) w e] "4.prems"(4,5) True
    show ?thesis by simp
  qed
qed

section \<open>The plan\<close>

lemma connect_all_inv:
  assumes fin: "finite V" and closed: "edges adj `` V \<subseteq> V"
    and d: "card V \<le> d"
  shows "tarjan_inv adj V {} t \<Longrightarrow> set ns \<subseteq> V \<Longrightarrow>
     tarjan_inv adj V {} (connect_all adj d ns t) \<and> visited t \<union> set ns \<subseteq> visited (connect_all adj d ns t)"
proof (induction ns arbitrary: t)
  case Nil
  then show ?case by (simp add: connect_all_def)
next
  case (Cons n ns)
  let ?t = "if map_has (tj_index t) n then t else strongConnect adj d n t"
  have step: "tarjan_inv adj V {} ?t \<and> insert n (visited t) \<subseteq> visited ?t"
  proof (cases "map_has (tj_index t) n")
    case True
    then show ?thesis using Cons.prems by (auto simp: visited_def)
  next
    case False
    then have "callable adj V {} n t" using Cons.prems by (auto simp: callable_def visited_def)
    moreover have "card (V - visited t) \<le> d" using d fin by (meson Diff_subset card_mono le_trans)
    ultimately have "connect_post adj V {} n t (strongConnect adj d n t)"
      by (intro strongConnect_post(1) [OF fin]) (use closed in auto)
    then show ?thesis using False by (auto simp: connect_post_def extends_def)
  qed
  have "connect_all adj d (n # ns) t = connect_all adj d ns ?t" by (simp add: connect_all_def)
  with Cons.IH [of ?t] step Cons.prems(2) show ?case by auto
qed

lemma empty_inv: "tarjan_inv adj V {} empty_tarjan"
  by (simp add: tarjan_inv_def empty_tarjan_def visited_def backward_def)

text \<open>The references between the owners of deferred rules.\<close>

definition owners :: "deferred_unit list \<Rightarrow> string set" where
  "owners us = set (map du_resolver us)"

definition owner_refs :: "deferred_unit list \<Rightarrow> (string \<times> string) set" where
  "owner_refs us =
     {(x, y). \<exists>u \<in> set us. du_resolver u = x \<and> y \<in> set (du_dependsOn u) \<and> y \<noteq> x \<and> y \<in> owners us}"

lemma deferred_adj_edges:
  assumes "distinct (map du_resolver us)"
  shows "edges (deferred_adj us) = owner_refs us"
proof -
  have "map_get [] (deferred_adj us) x =
      (case find (\<lambda>u. du_resolver u = x) (rev us) of Some u \<Rightarrow> owner_edges us u | None \<Rightarrow> [])" for x
    unfolding map_get_def deferred_adj_def fold_put_of by (simp split: option.split)
  note get = this
  have "(x, y) \<in> edges (deferred_adj us) \<longleftrightarrow> (x, y) \<in> owner_refs us" for x y
  proof (cases "find (\<lambda>u. du_resolver u = x) (rev us)")
    case None
    then have "\<forall>u \<in> set us. du_resolver u \<noteq> x" by (auto simp: find_None_iff)
    then have "(x, y) \<notin> owner_refs us" by (auto simp: owner_refs_def)
    with None show ?thesis by (simp add: edges_def get)
  next
    case (Some u)
    then have u: "u \<in> set us" "du_resolver u = x" by (auto dest: find_SomeD)
    have "v = u" if "v \<in> set us" "du_resolver v = x" for v
      using find_key [OF assms that(1)] Some that(2) by simp
    then have "(x, y) \<in> owner_refs us \<longleftrightarrow> y \<in> set (du_dependsOn u) \<and> y \<noteq> x \<and> y \<in> owners us"
      using u unfolding owner_refs_def by blast
    moreover have "y \<in> set (owner_edges us u) \<longleftrightarrow> y \<in> set (du_dependsOn u) \<and> y \<noteq> x \<and> y \<in> owners us"
      by (simp only: owner_edges_def owners_def set_sort set_filter mem_Collect_eq u)
    ultimately have "(x, y) \<in> owner_refs us \<longleftrightarrow> y \<in> set (owner_edges us u)" by (simp only:)
    with Some show ?thesis by (simp add: edges_def get)
  qed
  then show ?thesis by auto
qed

definition precedes :: "'a list \<Rightarrow> 'a \<Rightarrow> 'a \<Rightarrow> bool" where
  "precedes xs y x = (\<exists>as bs. xs = as @ bs \<and> y \<in> set as \<and> x \<in> set bs)"

lemma backward_reach:
  assumes "backward adj cs" "(x, y) \<in> (edges adj)\<^sup>*" "i < length cs" "x \<in> set (cs ! i)"
  shows "\<exists>j \<le> i. y \<in> set (cs ! j)"
  using assms(2-)
proof (induction rule: rtrancl_induct)
  case (step y z)
  then obtain j where "j \<le> i" "y \<in> set (cs ! j)" by blast
  with step assms(1) obtain k where "k \<le> j" "z \<in> set (cs ! k)" unfolding backward_def by (meson le_less_trans)
  with \<open>j \<le> i\<close> show ?case using le_trans by blast
qed auto

lemma sccs_facts:
  assumes "distinct (map du_resolver us)"
  defines "cs \<equiv> tj_sccs (connect_all (deferred_adj us) (length us) (sort (map du_resolver us)) empty_tarjan)"
  shows "distinct (concat cs)" "set (concat cs) = owners us" "backward (deferred_adj us) cs"
    "c \<in> set cs \<Longrightarrow> connected (deferred_adj us) c"
proof -
  let ?t = "connect_all (deferred_adj us) (length us) (sort (map du_resolver us)) empty_tarjan"
  have closed: "edges (deferred_adj us) `` owners us \<subseteq> owners us"
    unfolding deferred_adj_edges [OF assms(1)] by (auto simp: owner_refs_def)
  have "card (owners us) \<le> length us" unfolding owners_def by (metis card_length length_map)
  from connect_all_inv [OF _ closed this empty_inv, of "sort (map du_resolver us)"]
  have inv: "tarjan_inv (deferred_adj us) (owners us) {} ?t" and vis: "owners us \<subseteq> visited ?t"
    by (auto simp: owners_def)
  note i = tarjan_invD [OF inv]
  have "set (tj_stack ?t) = {}"
  proof (rule equals0I)
    fix y assume "y \<in> set (tj_stack ?t)"
    from i(14) [OF this] show False by (simp only: bex_empty)
  qed
  then have "set (concat cs) = visited ?t" unfolding cs_def i(7) by simp
  also have "\<dots> = owners us" using i(1) vis by (rule equalityI)
  finally show "set (concat cs) = owners us" .
  show "distinct (concat cs)" "backward (deferred_adj us) cs" "c \<in> set cs \<Longrightarrow> connected (deferred_adj us) c"
    using i(8,10,11) unfolding cs_def by auto
qed

lemma same_component:
  assumes "distinct (concat cs)" "backward adj cs" "i < length cs" "j < length cs" "x \<in> set (cs ! i)" "y \<in> set (cs ! j)"
    "(x, y) \<in> (edges adj)\<^sup>*" "(y, x) \<in> (edges adj)\<^sup>*"
  shows "i = j"
proof -
  from backward_reach [OF assms(2,7,3,5)] obtain k where "k \<le> i" "y \<in> set (cs ! k)" by blast
  moreover from this have "k = j" using distinct_concat_index [OF assms(1), of k j y] assms(3,4,6) by simp
  moreover from backward_reach [OF assms(2,8,4,6)] obtain l where "l \<le> j" "x \<in> set (cs ! l)" by blast
  moreover from this have "l = i" using distinct_concat_index [OF assms(1), of l i x] assms(3,4,5) by simp
  ultimately show ?thesis by simp
qed

lemma concat_precedes:
  assumes "j < i" "i < length cs" "y \<in> set (cs ! j)" "x \<in> set (cs ! i)"
  shows "precedes (concat (map sort cs)) y x"
  unfolding precedes_def
proof (intro exI conjI)
  show "concat (map sort cs) = concat (map sort (take i cs)) @ concat (map sort (drop i cs))"
    by (metis append_take_drop_id concat_append map_append)
  have "cs ! j \<in> set (take i cs)" using assms(1,2) by (auto simp: in_set_conv_nth intro!: exI [of _ j])
  then show "y \<in> set (concat (map sort (take i cs)))" using assms(3) by auto
  have "cs ! i \<in> set (drop i cs)" using assms(2) by (metis Cons_nth_drop_Suc list.set_intros(1))
  then show "x \<in> set (concat (map sort (drop i cs)))" using assms(4) by auto
qed

lemma order_facts:
  assumes "distinct (map du_resolver us)"
  defines "p \<equiv> buildDeferredReportingPlan us"
  shows "distinct (dp_order p)" "set (dp_order p) = owners us"
    "(x, y) \<in> owner_refs us \<Longrightarrow> precedes (dp_order p) y x \<or> (y, x) \<in> (owner_refs us)\<^sup>*"
    "x \<in> owners us \<Longrightarrow> y \<in> owners us \<Longrightarrow> x \<noteq> y \<Longrightarrow>
       (\<exists>c \<in> set (dp_cycles p). x \<in> set c \<and> y \<in> set c) \<longleftrightarrow> (x, y) \<in> (owner_refs us)\<^sup>* \<and> (y, x) \<in> (owner_refs us)\<^sup>*"
proof -
  define cs where "cs = tj_sccs (connect_all (deferred_adj us) (length us) (sort (map du_resolver us)) empty_tarjan)"
  note f = sccs_facts [OF assms(1), folded cs_def]
  note E = deferred_adj_edges [OF assms(1)]
  have p: "dp_order p = concat (map sort cs)" "dp_cycles p = map sort (filter (\<lambda>c. 1 < length c) cs)"
    by (simp_all add: p_def buildDeferredReportingPlan_def plan_of_sccs_def cs_def)
  have "mset (concat (map sort cs)) = mset (concat cs)" by (induction cs) simp_all
  then show "distinct (dp_order p)" "set (dp_order p) = owners us"
    using f(1,2) p(1) by (metis mset_eq_imp_distinct_iff, metis mset_eq_setD)
  have idx: "\<exists>i < length cs. x \<in> set (cs ! i)" if x: "x \<in> owners us" for x
  proof -
    from x f(2) obtain c where "c \<in> set cs" "x \<in> set c" by auto
    then show ?thesis by (metis in_set_conv_nth)
  qed
  show "precedes (dp_order p) y x \<or> (y, x) \<in> (owner_refs us)\<^sup>*" if e: "(x, y) \<in> owner_refs us" for x y
  proof -
    have "x \<in> owners us" using e by (auto simp: owner_refs_def owners_def)
    then obtain i where i: "i < length cs" "x \<in> set (cs ! i)" using idx by blast
    with f(3) e E obtain j where j: "j \<le> i" "y \<in> set (cs ! j)" unfolding backward_def by blast
    show ?thesis
    proof (cases "j = i")
      case True
      have "cs ! i \<in> set cs" using i(1) by simp
      with f(4) have "connected (deferred_adj us) (cs ! i)" by blast
      with True i j show ?thesis unfolding connected_def E by blast
    next
      case False
      with j have "j < i" by simp
      from concat_precedes [OF this i(1) j(2) i(2)] show ?thesis by (simp add: p)
    qed
  qed
  show "(\<exists>c \<in> set (dp_cycles p). x \<in> set c \<and> y \<in> set c) \<longleftrightarrow> (x, y) \<in> (owner_refs us)\<^sup>* \<and> (y, x) \<in> (owner_refs us)\<^sup>*"
    if x: "x \<in> owners us" and y: "y \<in> owners us" and ne: "x \<noteq> y" for x y
  proof
    assume "\<exists>c \<in> set (dp_cycles p). x \<in> set c \<and> y \<in> set c"
    then obtain c where "c \<in> set cs" "x \<in> set c" "y \<in> set c" by (auto simp: p)
    with f(4) show "(x, y) \<in> (owner_refs us)\<^sup>* \<and> (y, x) \<in> (owner_refs us)\<^sup>*" unfolding connected_def E by blast
  next
    assume r: "(x, y) \<in> (owner_refs us)\<^sup>* \<and> (y, x) \<in> (owner_refs us)\<^sup>*"
    obtain i j where ij: "i < length cs" "x \<in> set (cs ! i)" "j < length cs" "y \<in> set (cs ! j)" using idx x y by blast
    from same_component [OF f(1,3) ij(1,3,2,4)] r have "i = j" by (simp add: E)
    have two: "{x, y} \<subseteq> set (cs ! i)" using ij \<open>i = j\<close> by simp
    have "card {x, y} \<le> length (cs ! i)" using card_mono [OF _ two] card_length [of "cs ! i"] by simp
    then have "1 < length (cs ! i)" using ne by simp
    then have "sort (cs ! i) \<in> set (dp_cycles p)" using ij(1) by (auto simp: p)
    with two show "\<exists>c \<in> set (dp_cycles p). x \<in> set c \<and> y \<in> set c" by (intro bexI [of _ "sort (cs ! i)"]) auto
  qed
qed

section \<open>Properties\<close>

text \<open>C9: The reporting order holds every owner of deferred rules once; an owner comes after every owner it refers to,
  unless the two refer to each other in a cycle; and two owners are listed in one cycle exactly when
  each reaches the other, so that without cycles the order is a topological one.\<close>

theorem deferred_order_spec:
  assumes "distinct (map du_resolver us)"
  shows "distinct (dp_order (buildDeferredReportingPlan us)) \<and>
    set (dp_order (buildDeferredReportingPlan us)) = set (map du_resolver us) \<and>
    (\<forall>x y. (x, y) \<in> owner_refs us \<longrightarrow>
       precedes (dp_order (buildDeferredReportingPlan us)) y x \<or> (y, x) \<in> (owner_refs us)\<^sup>*) \<and>
    (\<forall>x \<in> owners us. \<forall>y \<in> owners us. x \<noteq> y \<longrightarrow>
       (\<exists>c \<in> set (dp_cycles (buildDeferredReportingPlan us)). x \<in> set c \<and> y \<in> set c) =
       ((x, y) \<in> (owner_refs us)\<^sup>* \<and> (y, x) \<in> (owner_refs us)\<^sup>*))"
  using order_facts [OF assms] by (auto simp: owners_def)

definition sample_unit :: "string \<Rightarrow> string list \<Rightarrow> deferred_unit" where
  "sample_unit n ds = \<lparr>du_resolver = n, du_rules = [0], du_dependsOn = ds, du_phaseWhen = False\<rparr>"

definition sample_units :: "deferred_unit list" where
  "sample_units = [sample_unit ''a'' [''b''], sample_unit ''b'' [''c'', ''d''], sample_unit ''c'' [''b''], sample_unit ''d'' []]"

theorem deferred_order_spec_witness:
  "dp_order (buildDeferredReportingPlan sample_units) = [''d'', ''b'', ''c'', ''a''] \<and>
   dp_cycles (buildDeferredReportingPlan sample_units) = [[''b'', ''c'']] \<and>
   set (dp_order (buildDeferredReportingPlan sample_units)) = set (map du_resolver sample_units)"
proof -
  have "dp_order (buildDeferredReportingPlan sample_units) = [''d'', ''b'', ''c'', ''a''] \<and>
     dp_cycles (buildDeferredReportingPlan sample_units) = [[''b'', ''c'']]" by code_simp
  moreover have "distinct (map du_resolver sample_units)" by (simp add: sample_units_def sample_unit_def)
  ultimately show ?thesis using deferred_order_spec [of sample_units] by simp
qed

end
