(* ===== verification/Resolver_Phase.thy ===== *)
theory Resolver_Phase
  imports Resolver_Exec Deferred_Order
begin

text \<open>
  \<open>pkg/resolver/executor.go\<close>: a phase of resolvers, the collected errors and the whole run.

  A phase starts one goroutine per resolver over the shared context; \<open>phase_runs\<close> of
  \<open>Resolver_Proc\<close> interleaves their requests.  The messages sent on the result channel are read
  after all goroutines have returned, in the order in which they were sent.
\<close>

subsection \<open>The collected errors\<close>

text \<open>\<open>AggregatedExecutionError\<close>; an entry is the name, the phase and the error.\<close>

record agg_error =
  ag_errors :: "(string \<times> nat \<times> rerror) list"
  ag_skippedCount :: nat
  ag_skipped :: "string list"
  ag_succeeded :: nat

definition no_errors :: agg_error where
  "no_errors = \<lparr>ag_errors = [], ag_skippedCount = 0, ag_skipped = [], ag_succeeded = 0\<rparr>"

definition agg_Add :: "string \<Rightarrow> nat \<Rightarrow> rerror \<Rightarrow> agg_error \<Rightarrow> agg_error" where
  "agg_Add n phase e a = a\<lparr>ag_errors := ag_errors a @ [(n, phase, e)]\<rparr>"

definition agg_AddSkipped :: "string \<Rightarrow> agg_error \<Rightarrow> agg_error" where
  "agg_AddSkipped n a = a\<lparr>ag_skippedCount := Suc (ag_skippedCount a), ag_skipped := ag_skipped a @ [n]\<rparr>"

definition agg_IncrementSucceeded :: "agg_error \<Rightarrow> agg_error" where
  "agg_IncrementSucceeded a = a\<lparr>ag_succeeded := Suc (ag_succeeded a)\<rparr>"

definition agg_HasErrors :: "agg_error \<Rightarrow> bool" where
  "agg_HasErrors a = (ag_errors a \<noteq> [])"

subsection \<open>A goroutine of a phase\<close>

definition collectErrors :: "renv \<Rightarrow> bool" where
  "collectErrors env = (rx_validateAll env \<or> rx_nonFatal env)"

text \<open>\<open>k\<close> receives whether a dependency has failed.\<close>

fun check_deps :: "renv \<Rightarrow> string list \<Rightarrow> (bool \<Rightarrow> 'r prog) \<Rightarrow> 'r prog" where
  "check_deps env [] k = k False"
| "check_deps env (d # ds) k =
     Ask (QFailed d) (\<lambda>x.
       case the_failed x of
         None \<Rightarrow> check_deps env ds k
       | Some kind \<Rightarrow>
           if kind = failureValidation \<and> rx_nonFatal env then check_deps env ds k else k True)"

definition fail_goroutine :: "string \<Rightarrow> failure_kind \<Rightarrow> rerror \<Rightarrow> unit prog" where
  "fail_goroutine n kind e = doP (QStoreFailed n kind) (doP (QSend n (OErr e)) (Ret ()))"

definition failed_error :: "string \<Rightarrow> rerror \<Rightarrow> rerror" where
  "failed_error n e = wrap_err (''resolver '' @ quoted n @ '' failed: '') e"

definition report_resolver :: "resolver \<Rightarrow> bool \<times> rerror option \<Rightarrow> unit prog" where
  "report_resolver r out =
     (case snd out of
        Some e \<Rightarrow> fail_goroutine (r_name r) (classifyFailure e) (failed_error (r_name r) e)
      | None \<Rightarrow> doP (QSend (r_name r) (if fst out then OSkipped else ODone)) (Ret ()))"

definition run_resolver :: "renv \<Rightarrow> resolver \<Rightarrow> nat \<Rightarrow> unit prog" where
  "run_resolver env r phase =
     Ask QExpired (\<lambda>x.
       if the_bool x
       then fail_goroutine (r_name r) failureFatal
              (plain_err (''resolver '' @ quoted (r_name r) @ '': phase timeout''))
       else bindP (executeResolver env r phase) (report_resolver r))"

definition limited :: "renv \<Rightarrow> resolver \<Rightarrow> unit prog \<Rightarrow> unit prog" where
  "limited env r p =
     (if rx_maxConcurrency env = 0 then p
      else Ask QAcquire (\<lambda>x.
        if the_bool x then bindP p (\<lambda>_. doP QRelease (Ret ()))
        else fail_goroutine (r_name r) failureFatal
               (plain_err (''resolver '' @ quoted (r_name r) @ '': phase timeout before execution''))))"

definition resolver_goroutine :: "renv \<Rightarrow> string list gomap \<Rightarrow> nat \<Rightarrow> resolver \<Rightarrow> unit prog" where
  "resolver_goroutine env deps phase r =
     check_deps env (if collectErrors env then map_get [] deps (r_name r) else []) (\<lambda>failed.
       if failed
       then doP (QStoreFailed (r_name r) failureFatal) (doP (QSend (r_name r) ODepSkipped) (Ret ()))
       else limited env r (run_resolver env r phase))"

subsection \<open>A phase\<close>

definition start_phase :: "renv \<Rightarrow> string list gomap \<Rightarrow> phase_group \<Rightarrow> rctx \<Rightarrow> phase_cfg" where
  "start_phase env deps pg c =
     \<lparr>pz_ctx = c,
      pz_threads = map (\<lambda>r. (r_name r, resolver_goroutine env deps (pg_phase pg) r)) (pg_resolvers pg),
      pz_held = 0, pz_expired = False, pz_sent = []\<rparr>"

definition resolver_run :: "renv \<Rightarrow> phase_cfg \<Rightarrow> phase_cfg \<Rightarrow> bool" where
  "resolver_run env s s' = phase_runs (rx_attempts env) (rx_maxConcurrency env) s s'"

text \<open>One message read from the channel.\<close>

fun collect_message :: "nat \<Rightarrow> string \<times> outcome \<Rightarrow> agg_error \<Rightarrow> agg_error" where
  "collect_message phase (n, OErr e) a = agg_Add n phase e a"
| "collect_message phase (n, ODepSkipped) a = agg_AddSkipped n a"
| "collect_message phase (n, OSkipped) a = a"
| "collect_message phase (n, ODone) a = agg_IncrementSucceeded a"

definition phase_errors :: "(string \<times> outcome) list \<Rightarrow> rerror list" where
  "phase_errors ms = List.map_filter (\<lambda>m. case snd m of OErr e \<Rightarrow> Some e | _ \<Rightarrow> None) ms"

text \<open>The error of a phase is the first one sent.\<close>

definition phase_failure :: "(string \<times> outcome) list \<Rightarrow> rerror option" where
  "phase_failure ms = (case phase_errors ms of [] \<Rightarrow> None | e # _ \<Rightarrow> Some e)"

inductive executes_phase ::
  "renv \<Rightarrow> string list gomap \<Rightarrow> phase_group \<Rightarrow> rctx \<times> agg_error \<Rightarrow> rctx \<times> agg_error \<Rightarrow> rerror option \<Rightarrow> bool"
  for env deps pg where
  phase_done:
    "resolver_run env (start_phase env deps pg c) s \<Longrightarrow> all_returned s \<Longrightarrow>
     a' = (if collectErrors env then fold (collect_message (pg_phase pg)) (pz_sent s) a else a) \<Longrightarrow>
     executes_phase env deps pg (c, a) (pz_ctx s, a') (phase_failure (pz_sent s))"

text \<open>The loop over the phases; an error ends it unless the errors are collected.\<close>

inductive executes_phases ::
  "renv \<Rightarrow> string list gomap \<Rightarrow> phase_group list \<Rightarrow> rctx \<times> agg_error \<Rightarrow> rctx \<times> agg_error \<Rightarrow> rerror option \<Rightarrow> bool"
  for env deps where
  phases_end: "executes_phases env deps [] ca ca None"
| phases_next:
    "executes_phase env deps pg ca ca' e \<Longrightarrow> e = None \<or> collectErrors env \<Longrightarrow>
     executes_phases env deps pgs ca' ca'' e' \<Longrightarrow> executes_phases env deps (pg # pgs) ca ca'' e'"
| phases_fail:
    "executes_phase env deps pg ca ca' (Some e) \<Longrightarrow> \<not> collectErrors env \<Longrightarrow>
     executes_phases env deps (pg # pgs) ca ca'
       (Some (wrap_err (''phase '' @ decimal (pg_phase pg) @ '' failed: '') e))"

subsection \<open>A run\<close>

definition inject_seeded :: "rresult option gomap \<Rightarrow> rctx \<Rightarrow> rctx" where
  "inject_seeded seeds c =
     fold (\<lambda>(n, x) c. case x of
             None \<Rightarrow> c
           | Some r \<Rightarrow> if rs_status r = RSkipped then c else rctx_SetResult n r c) seeds c"

definition initial_context :: "renv \<Rightarrow> build_result \<Rightarrow> gval gomap \<Rightarrow> rctx" where
  "initial_context env br params =
     inject_seeded (rx_seeded env)
       (fold (\<lambda>(n, v) c. rctx_SetResult n ((new_result 0)\<lparr>rs_value := v\<rparr>) c) (rx_mocked env)
         (fold (\<lambda>(k, v) c. rctx_Set k v c) params
           (rctx_Set ''__plan'' (plan_ToMap (br_plan br)) rctx_New)))"

subsection \<open>Deferred validation\<close>

text \<open>\<open>DeferredValidationFailure\<close> and \<open>DeferredValidationSummary\<close> (\<open>deferred_validation.go\<close>).\<close>

record deferred_failure =
  df_resolver :: string
  df_failures :: "vfailure list"
  df_sensitive :: bool

record deferred_summary =
  ds_evaluated :: nat
  ds_failed :: nat
  ds_skipped :: nat
  ds_results :: "deferred_failure list"
  ds_suppressed :: "string list"
  ds_cycles :: "string list list"

definition HasFailures :: "deferred_summary \<Rightarrow> bool" where
  "HasFailures ds = (0 < ds_failed ds)"

text \<open>\<open>k\<close> receives the result of a resolver that has one with a usable value.\<close>

definition with_usable :: "string \<Rightarrow> (rresult option \<Rightarrow> 'r prog) \<Rightarrow> 'r prog" where
  "with_usable n k =
     Ask (QResult n) (\<lambda>x.
       case the_result x of
         None \<Rightarrow> k None
       | Some r \<Rightarrow>
           (case rs_status r of
              RSuccess \<Rightarrow> k (Some r)
            | RFailed \<Rightarrow> Ask (QFailed n) (\<lambda>y. k (if the_failed y = Some failureValidation then Some r else None))
            | _ \<Rightarrow> k None))"

definition firstDeferredFailure :: "string list \<Rightarrow> string list \<Rightarrow> string option" where
  "firstDeferredFailure refs bad = find (\<lambda>r. r \<in> set bad) refs"

fun firstValuelessRef :: "string list \<Rightarrow> (string option \<Rightarrow> 'r prog) \<Rightarrow> 'r prog" where
  "firstValuelessRef [] k = k None"
| "firstValuelessRef (n # ns) k = with_usable n (\<lambda>u. case u of None \<Rightarrow> k (Some n) | Some _ \<Rightarrow> firstValuelessRef ns k)"

definition rule_failures :: "resolver \<Rightarrow> string \<Rightarrow> string option \<Rightarrow> (nat \<times> provider_validation) list \<Rightarrow> vfailure list" where
  "rule_failures r m cause rules =
     map (\<lambda>(i, v). \<lparr>vf_rule = i, vf_provider = s_provider v, vf_message = m, vf_cause = cause,
                   vf_sensitive = r_sensitive r\<rparr>) rules"

definition add_failures :: "resolver \<Rightarrow> vfailure list \<Rightarrow> deferred_summary \<Rightarrow> deferred_summary" where
  "add_failures r fs ds = ds\<lparr>ds_failed := ds_failed ds + length fs,
     ds_results := ds_results ds @ [\<lparr>df_resolver = r_name r, df_failures = fs, df_sensitive = r_sensitive r\<rparr>]\<rparr>"

definition skip_rules :: "nat \<Rightarrow> deferred_summary \<Rightarrow> deferred_summary" where
  "skip_rules n ds = ds\<lparr>ds_skipped := ds_skipped ds + n\<rparr>"

text \<open>The rules of one resolver: the summary's counters and the failures.\<close>

fun deferred_rules ::
  "renv \<Rightarrow> resolver \<Rightarrow> gval \<Rightarrow> (nat \<times> provider_validation) list \<Rightarrow> deferred_summary \<Rightarrow> vfailure list \<Rightarrow>
   (deferred_summary \<times> vfailure list) prog" where
  "deferred_rules env r value [] ds fs = Ret (ds, fs)"
| "deferred_rules env r value ((i, v) # rs) ds fs =
     bindP (evaluateValidationRule env i (r_sensitive r) v value) (\<lambda>(n, x).
       let f = (case x of
                  Inl e \<Rightarrow> Some \<lparr>vf_rule = i, vf_provider = s_provider v, vf_message = xr_msg e,
                                vf_cause = Some (xr_msg e), vf_sensitive = r_sensitive r\<rparr>
                | Inr f \<Rightarrow> f);
           ds' = (if 0 < n then ds\<lparr>ds_evaluated := Suc (ds_evaluated ds)\<rparr>
                  else if f = None then skip_rules 1 ds else ds) in
       deferred_rules env r value rs ds' (fs @ (case f of None \<Rightarrow> [] | Some y \<Rightarrow> [y])))"

text \<open>One resolver; the list is \<open>deferredFailed\<close>.\<close>

definition deferred_resolver ::
  "renv \<Rightarrow> deferred_unit \<Rightarrow> resolver \<Rightarrow> validate_phase \<Rightarrow> deferred_summary \<times> string list \<Rightarrow>
   (deferred_summary \<times> string list) prog" where
  "deferred_resolver env u r p st =
     (let (ds, bad) = st;
          name = du_resolver u;
          rules = indexed_rules p (du_rules u);
          n = length (du_rules u);
          run = (\<lambda>value. bindP (deferred_rules env r value rules ds []) (\<lambda>(ds', fs).
                   if fs = [] then Ret (ds', bad)
                   else Ret (ds'\<lparr>ds_failed := ds_failed ds' + length fs,
                               ds_results := ds_results ds' @ [\<lparr>df_resolver = name, df_failures = fs, df_sensitive = r_sensitive r\<rparr>]\<rparr>,
                             name # bad))) in
      with_usable name (\<lambda>own.
        case own of
          None \<Rightarrow> Ret (skip_rules n ds, bad)
        | Some res \<Rightarrow>
            if firstDeferredFailure (du_dependsOn u) bad \<noteq> None
            then Ret (skip_rules n (ds\<lparr>ds_suppressed := ds_suppressed ds @ [name]\<rparr>), bad)
            else firstValuelessRef (du_dependsOn u) (\<lambda>missing.
              case missing of
                Some m \<Rightarrow>
                  Ret (add_failures r
                         (rule_failures r (''deferred validation references resolver '' @ quoted m @
                                           '' which did not produce a value'') None rules) ds, name # bad)
              | None \<Rightarrow>
                  (case vp_when p of
                     None \<Rightarrow> run (rs_value res)
                   | Some c \<Rightarrow> bindP (evaluateConditionWithSelf env (Some c) (rs_value res)) (\<lambda>w.
                       case w of
                         Inl e \<Rightarrow>
                           Ret (add_failures r
                                  (rule_failures r (''failed to evaluate deferred validate phase when condition: '' @ xr_msg e)
                                     (Some (xr_msg e)) rules) ds, name # bad)
                       | Inr False \<Rightarrow> Ret (skip_rules n ds, bad)
                       | Inr True \<Rightarrow> run (rs_value res))))))"

definition unit_map :: "deferred_unit list \<Rightarrow> deferred_unit gomap" where
  "unit_map us = fold (\<lambda>u m. map_put (du_resolver u) u m) us []"

fun deferred_loop ::
  "renv \<Rightarrow> deferred_unit gomap \<Rightarrow> resolver gomap \<Rightarrow> string list \<Rightarrow> deferred_summary \<times> string list \<Rightarrow>
   deferred_summary prog" where
  "deferred_loop env um rm [] st = Ret (fst st)"
| "deferred_loop env um rm (n # ns) st =
     (case map_of um n of
        None \<Rightarrow> deferred_loop env um rm ns st
      | Some u \<Rightarrow>
          (case map_of rm n of
             None \<Rightarrow> deferred_loop env um rm ns st
           | Some r \<Rightarrow>
               (case r_validate r of
                  None \<Rightarrow> deferred_loop env um rm ns st
                | Some p \<Rightarrow> bindP (deferred_resolver env u r p st) (deferred_loop env um rm ns))))"

definition runDeferredValidation ::
  "renv \<Rightarrow> deferred_unit list \<Rightarrow> resolver gomap \<Rightarrow> deferred_summary prog" where
  "runDeferredValidation env us rm =
     (let plan = buildDeferredReportingPlan us in
      deferred_loop env (unit_map us) rm (dp_order plan)
        (\<lparr>ds_evaluated = 0, ds_failed = 0, ds_skipped = 0, ds_results = [], ds_suppressed = [],
          ds_cycles = dp_cycles plan\<rparr>, []))"

subsection \<open>Execute\<close>

text \<open>\<open>agg_text\<close> is the text of \<open>AggregatedValidationError\<close> for a deferred failure.\<close>

definition fold_deferred :: "nat \<Rightarrow> deferred_summary \<Rightarrow> agg_error \<Rightarrow> agg_error" where
  "fold_deferred phase ds a =
     fold (\<lambda>f a. agg_Add (df_resolver f) phase (validation_error (df_resolver f) [] (df_failures f)) a) (ds_results ds) a"

datatype run_outcome =
    RunSucceeded
  | RunUnplanned phase_error
  | RunPhaseFailed rerror
  | RunDeferredFailed "deferred_failure list" "string list"
  | RunAggregated agg_error

definition defers :: "renv \<Rightarrow> build_result \<Rightarrow> bool" where
  "defers env br =
     (rx_deferred env \<and> \<not> rx_skipValidation env \<and> \<not> rx_skipTransform env \<and> br_deferred br \<noteq> [])"

definition aggregated_outcome :: "renv \<Rightarrow> agg_error \<Rightarrow> run_outcome" where
  "aggregated_outcome env a =
     (if collectErrors env \<and> agg_HasErrors a then RunAggregated a else RunSucceeded)"

definition deferred_outcome :: "renv \<Rightarrow> build_result \<Rightarrow> agg_error \<Rightarrow> deferred_summary \<Rightarrow> run_outcome" where
  "deferred_outcome env br a ds =
     (if \<not> HasFailures ds then aggregated_outcome env a
      else if collectErrors env
      then aggregated_outcome env (fold_deferred (length (br_phases br) + 1) ds a)
      else RunDeferredFailed (ds_results ds) (ds_suppressed ds))"

definition after_phases :: "rctx \<Rightarrow> phase_cfg" where
  "after_phases c = \<lparr>pz_ctx = c, pz_threads = [], pz_held = 0, pz_expired = False, pz_sent = []\<rparr>"

inductive executes ::
  "renv \<Rightarrow> resolver list \<Rightarrow> gval gomap \<Rightarrow> rctx option \<Rightarrow> deferred_summary option \<Rightarrow> run_outcome \<Rightarrow> bool"
  for env rs params where
  run_unplanned:
    "BuildPhasesWithCalls (de_pick (rx_deps env)) (rx_deps env) rs = Inl e \<Longrightarrow>
     executes env rs params None None (RunUnplanned e)"
| run_failed:
    "BuildPhasesWithCalls (de_pick (rx_deps env)) (rx_deps env) rs = Inr br \<Longrightarrow>
     executes_phases env (br_deps br) (br_phases br) (initial_context env br params, no_errors) (c, a) (Some e) \<Longrightarrow>
     executes env rs params (Some c) None (RunPhaseFailed e)"
| run_finished:
    "BuildPhasesWithCalls (de_pick (rx_deps env)) (rx_deps env) rs = Inr br \<Longrightarrow>
     executes_phases env (br_deps br) (br_phases br) (initial_context env br params, no_errors) (c, a) None \<Longrightarrow>
     \<not> defers env br \<Longrightarrow>
     executes env rs params (Some c) None (aggregated_outcome env a)"
| run_deferred:
    "BuildPhasesWithCalls (de_pick (rx_deps env)) (rx_deps env) rs = Inr br \<Longrightarrow>
     executes_phases env (br_deps br) (br_phases br) (initial_context env br params, no_errors) (c, a) None \<Longrightarrow>
     defers env br \<Longrightarrow>
     alone (rx_attempts env) (runDeferredValidation env (br_deferred br) (resolver_map rs)) (after_phases c) ds s \<Longrightarrow>
     executes env rs params (Some c) (Some ds) (deferred_outcome env br a ds)"

end
