(* ===== verification/Resolver_Logic.thy ===== *)
theory Resolver_Logic
  imports Resolver_Phase
begin

text \<open>
  A program logic for the programs of \<open>Resolver_Proc\<close> and its meaning for a phase.

  A \<open>protocol\<close> says which requests a program may make in a local state, which answers it can
  count on and how the state changes.  \<open>wp\<close> is the weakest precondition of a program under a
  protocol.  The locale \<open>shared_view\<close> connects it with the interleavings of a phase: a goroutine
  sees the shared configuration through a view that only its own requests change.
\<close>

named_theorems prog_simps \<open>weakest preconditions of program constructors\<close>

record 's protocol =
  pr_may :: "request \<Rightarrow> 's \<Rightarrow> bool"
  pr_answer :: "request \<Rightarrow> 's \<Rightarrow> response \<Rightarrow> bool"
  pr_after :: "request \<Rightarrow> response \<Rightarrow> 's \<Rightarrow> 's"

primrec wp :: "'s protocol \<Rightarrow> 'r prog \<Rightarrow> ('r \<Rightarrow> 's \<Rightarrow> bool) \<Rightarrow> 's \<Rightarrow> bool" where
  "wp pr (Ret x) Q = (\<lambda>s. Q x s)"
| "wp pr (Ask q f) Q = (\<lambda>s. pr_may pr q s \<and> (\<forall>a. pr_answer pr q s a \<longrightarrow> wp pr (f a) Q (pr_after pr q a s)))"

text \<open>All requests of a program; all its results.\<close>

primrec within :: "(request \<Rightarrow> bool) \<Rightarrow> 'r prog \<Rightarrow> bool" where
  "within G (Ret x) = True"
| "within G (Ask q f) = (G q \<and> (\<forall>a. within G (f a)))"

primrec yields :: "('r \<Rightarrow> bool) \<Rightarrow> 'r prog \<Rightarrow> bool" where
  "yields P (Ret x) = P x"
| "yields P (Ask q f) = (\<forall>a. yields P (f a))"

subsection \<open>Rules\<close>

lemma wp_bindP [prog_simps]: "wp pr (bindP p k) Q s = wp pr p (\<lambda>x. wp pr (k x) Q) s"
  by (induction p arbitrary: s) auto

lemma within_bindP: "within G p \<Longrightarrow> (\<And>x. within G (k x)) \<Longrightarrow> within G (bindP p k)"
  by (induction p) auto

lemma yields_bindP [prog_simps]: "yields P (bindP p k) = yields (\<lambda>x. yields P (k x)) p"
  by (induction p) auto

lemma within_doP [prog_simps]: "within G (doP q p) = (G q \<and> within G p)"
  by (simp add: doP_def)

lemma yields_doP [prog_simps]: "yields P (doP q p) = yields P p"
  by (simp add: doP_def)

lemma wp_doP [prog_simps]:
  "wp pr (doP q p) Q s = (pr_may pr q s \<and> (\<forall>a. pr_answer pr q s a \<longrightarrow> wp pr p Q (pr_after pr q a s)))"
  by (simp add: doP_def)

lemma wp_mono: "wp pr p Q s \<Longrightarrow> (\<And>x s. Q x s \<Longrightarrow> Q' x s) \<Longrightarrow> wp pr p Q' s"
  by (induction p arbitrary: s) auto

lemma yields_mono: "yields P p \<Longrightarrow> (\<And>x. P x \<Longrightarrow> P' x) \<Longrightarrow> yields P' p"
  by (induction p) auto

lemma yields_UNIV [simp]: "(\<And>x. P x) \<Longrightarrow> yields P p"
  by (induction p) auto

lemma within_mono: "within G p \<Longrightarrow> (\<And>q. G q \<Longrightarrow> H q) \<Longrightarrow> within H p"
  by (induction p) auto

text \<open>A program whose requests leave the local state alone.\<close>

definition quiet :: "'s protocol \<Rightarrow> request \<Rightarrow> bool" where
  "quiet pr q = (\<forall>s. pr_may pr q s \<and> (\<forall>a. pr_after pr q a s = s))"

lemma wp_quiet: "within (quiet pr) p \<Longrightarrow> yields (\<lambda>x. Q x s) p \<Longrightarrow> wp pr p Q s"
  by (induction p) (auto simp: quiet_def)

lemma wp_quiet_any: "within (quiet pr) p \<Longrightarrow> (\<And>x. Q x s) \<Longrightarrow> wp pr p Q s"
  by (rule wp_quiet) auto

subsection \<open>Goroutines of a program\<close>

fun thread_prog :: "'r thread \<Rightarrow> 'r prog" where
  "thread_prog (Idle p) = p"
| "thread_prog (Live p) = p"

lemma movable_Nil:
  assumes "movable limit ts = []" "t \<in> set ts"
  shows "\<exists>x. t = Live (Ret x)"
proof -
  let ?n = "length (filter is_moving ts)"
  have no: "\<not> can_move limit ?n u" if "u \<in> set ts" for u
    using assms(1) that by (auto simp: movable_def Let_def filter_empty_conv in_set_conv_nth)
  have "\<not> is_moving u" if "u \<in> set ts" for u
    using no [OF that] by (cases u rule: is_moving.cases) auto
  then have "filter is_moving ts = []" by (simp add: filter_empty_conv)
  then have "?n = 0" by simp
  then show ?thesis using no [OF assms(2)] by (cases t rule: is_moving.cases) auto
qed

lemma pick_movable:
  assumes "movable limit ts = j # js" "i = pick_from (j # js) k"
  shows "i < length ts" "\<And>x. ts ! i \<noteq> Live (Ret x)"
proof -
  have "i \<in> set (movable limit ts)" using pick_from_in [of "j # js" k] assms by simp
  from movable_in [OF this] show "i < length ts" "\<And>x. ts ! i \<noteq> Live (Ret x)" by auto
qed

lemma within_par:
  assumes "\<And>is. G (QPick is)"
  shows "(\<And>t. t \<in> set ts \<Longrightarrow> within G (thread_prog t)) \<Longrightarrow> within G (par limit ts)"
proof (induction limit ts rule: par.induct)
  case (1 limit ts)
  show ?case
  proof (cases "movable limit ts")
    case Nil
    then show ?thesis by (simp add: par.simps)
  next
    case (Cons j js)
    have step: "within G (case ts ! i of
              Idle p \<Rightarrow> par limit (ts[i := Live p])
            | Live (Ask q f) \<Rightarrow> Ask q (\<lambda>a. par limit (ts[i := Live (f a)]))
            | Live (Ret x) \<Rightarrow> Ret [])" if i: "i = pick_from (j # js) (the_nat r)" for i r
    proof -
      have len: "i < length ts" using pick_movable(1) [OF Cons i] .
      have mem: "ts ! i \<in> set ts" using len by simp
      have upd: "\<And>u t. t \<in> set (ts[i := u]) \<Longrightarrow> t = u \<or> t \<in> set ts"
        by (meson set_update_subset_insert in_mono insert_iff)
      show ?thesis
      proof (cases "ts ! i")
        case (Idle p)
        have "within G (par limit (ts[i := Live p]))"
          using "1.IH"(1) [OF Cons, of r p] "1.prems" upd [of _ "Live p"] "1.prems" [OF mem] Idle i by fastforce
        then show ?thesis using Idle by simp
      next
        case (Live p)
        show ?thesis
        proof (cases p)
          case (Ask q f)
          have w: "within G (Ask q f)" using "1.prems" [OF mem] Live Ask by simp
          have "within G (par limit (ts[i := Live (f a)]))" for a
            using "1.IH"(2) [OF Cons, of r p q f a] "1.prems" upd [of _ "Live (f a)"] w Live Ask i by fastforce
          then show ?thesis using Live Ask w by simp
        qed (use Live in simp)
      qed
    qed
    show ?thesis using step assms by (subst par.simps) (simp add: Cons)
  qed
qed

lemma yields_par:
  "list_all2 (\<lambda>P t. yields P (thread_prog t)) Ps ts \<Longrightarrow> yields (\<lambda>rs. list_all2 (\<lambda>P x. P x) Ps rs) (par limit ts)"
proof (induction limit ts rule: par.induct)
  case (1 limit ts)
  show ?case
  proof (cases "movable limit ts")
    case Nil
    have "\<And>t. t \<in> set ts \<Longrightarrow> \<exists>x. t = Live (Ret x)" using movable_Nil [OF Nil] .
    with "1.prems" have "list_all2 (\<lambda>P x. P x) Ps (concat (map thread_result ts))"
      by (induction Ps ts rule: list_all2_induct) fastforce+
    then show ?thesis by (simp add: par.simps Nil)
  next
    case (Cons j js)
    have step: "yields (\<lambda>rs. list_all2 (\<lambda>P x. P x) Ps rs) (case ts ! i of
              Idle p \<Rightarrow> par limit (ts[i := Live p])
            | Live (Ask q f) \<Rightarrow> Ask q (\<lambda>a. par limit (ts[i := Live (f a)]))
            | Live (Ret x) \<Rightarrow> Ret [])" if i: "i = pick_from (j # js) (the_nat r)" for i r
    proof -
      have len: "i < length ts" using pick_movable(1) [OF Cons i] .
      have y: "yields (Ps ! i) (thread_prog (ts ! i))" using "1.prems" len by (simp add: list_all2_conv_all_nth)
      have upd: "list_all2 (\<lambda>P t. yields P (thread_prog t)) Ps (ts[i := u])" if "yields (Ps ! i) (thread_prog u)" for u
        using "1.prems" that len by (auto simp: list_all2_conv_all_nth nth_list_update)
      show ?thesis
      proof (cases "ts ! i")
        case (Idle p)
        then show ?thesis using "1.IH"(1) [OF Cons, of r p] upd [of "Live p"] y i by simp
      next
        case (Live p)
        show ?thesis
        proof (cases p)
          case (Ret x)
          then show ?thesis using pick_movable(2) [OF Cons i, of x] Live by simp
        next
          case (Ask q f)
          have "yields (\<lambda>rs. list_all2 (\<lambda>P x. P x) Ps rs) (par limit (ts[i := Live (f a)]))" for a
            using "1.IH"(2) [OF Cons, of r p q f a] upd [of "Live (f a)"] y Live Ask i by simp
          then show ?thesis using Live Ask by simp
        qed
      qed
    qed
    show ?thesis using step by (subst par.simps) (simp add: Cons)
  qed
qed

lemma within_go_all:
  "(\<And>is. G (QPick is)) \<Longrightarrow> (\<And>p. p \<in> set ps \<Longrightarrow> within G p) \<Longrightarrow> within G (go_all limit ps)"
  unfolding go_all_def by (rule within_par) auto

lemma yields_go_all:
  "list_all2 (\<lambda>P p. yields P p) Ps ps \<Longrightarrow> yields (\<lambda>rs. list_all2 (\<lambda>P x. P x) Ps rs) (go_all limit ps)"
  unfolding go_all_def by (rule yields_par) (simp add: list_all2_map2)

subsection \<open>Views of a phase\<close>

text \<open>
  \<open>view n s\<close> is what the goroutine of resolver \<open>n\<close> knows of the configuration \<open>s\<close>: its own requests
  change it as the protocol \<open>pr n\<close> says, the requests of the other goroutines do not change it.
\<close>

locale shared_view =
  fixes view :: "string \<Rightarrow> phase_cfg \<Rightarrow> 's"
    and pr :: "string \<Rightarrow> 's protocol"
    and disp :: "provider_attempt list \<Rightarrow> gval"
    and limit :: nat
    and group :: "string set"
  assumes own: "respond disp limit q d s = Some (a, s') \<Longrightarrow> n \<in> group \<Longrightarrow> pr_may (pr n) q (view n s) \<Longrightarrow>
      pr_answer (pr n) q (view n s) a \<and> view n s' = pr_after (pr n) q a (view n s)"
    and others: "respond disp limit q d s = Some (a, s') \<Longrightarrow> n \<in> group \<Longrightarrow> m \<in> group \<Longrightarrow> m \<noteq> n \<Longrightarrow>
      pr_may (pr m) q (view m s) \<Longrightarrow> view n s' = view n s"
    and unrelated: "view n (s\<lparr>pz_threads := ts\<rparr>) = view n s" "view n (s\<lparr>pz_expired := x\<rparr>) = view n s"
begin

definition obeys :: "(string \<Rightarrow> 's \<Rightarrow> bool) \<Rightarrow> phase_cfg \<Rightarrow> bool" where
  "obeys Q s = (distinct (map fst (pz_threads s)) \<and> fst ` set (pz_threads s) \<subseteq> group \<and>
     (\<forall>(n, p) \<in> set (pz_threads s). wp (pr n) p (\<lambda>_. Q n) (view n s)))"

lemma obeys_step:
  assumes "obeys Q s" "phase_step disp limit m s = Some s'"
  shows "obeys Q s' \<and> map fst (pz_threads s') = map fst (pz_threads s)"
proof (cases m)
  case Expire
  with assms show ?thesis by (auto simp: obeys_def unrelated image_subset_iff split: if_splits)
next
  case (Advance i d)
  with assms(2) obtain n q f a s1 where i: "i < length (pz_threads s)" "pz_threads s ! i = (n, Ask q f)"
    and r: "respond disp limit q d s = Some (a, s1)"
    and s': "s' = s1\<lparr>pz_threads := (pz_threads s)[i := (n, f a)]\<rparr>"
    by (auto split: if_splits prod.splits prog.splits option.splits)
  have mem: "(n, Ask q f) \<in> set (pz_threads s)" using i by (metis nth_mem)
  with assms(1) have n: "n \<in> group" and w: "wp (pr n) (Ask q f) (\<lambda>_. Q n) (view n s)"
    by (auto simp: obeys_def)
  then have may: "pr_may (pr n) q (view n s)" by simp
  note o = own [OF r n may]
  have fsts: "map fst ((pz_threads s)[i := (n, f a)]) = map fst (pz_threads s)"
    using i by (metis fst_conv list_update_id map_update)
  have "wp (pr k) p (\<lambda>_. Q k) (view k s')" if kp: "(k, p) \<in> set (pz_threads s')" for k p
  proof (cases "k = n")
    case True
    from kp s' obtain j where j: "j < length (pz_threads s)" "(pz_threads s)[i := (n, f a)] ! j = (k, p)"
      by (auto simp: in_set_conv_nth)
    have "fst (pz_threads s ! j) = n" using j True i by (cases "j = i") auto
    moreover have "distinct (map fst (pz_threads s))" using assms(1) by (simp add: obeys_def)
    ultimately have "j = i" using i j by (metis fst_conv length_map nth_eq_iff_index_eq nth_map)
    with j i have "p = f a" by simp
    then show ?thesis using w o True by (simp add: s' unrelated)
  next
    case False
    from kp s' have "(k, p) \<in> insert (n, f a) (set (pz_threads s))"
      using set_update_subset_insert [of "pz_threads s" i "(n, f a)"] by auto
    with False have "(k, p) \<in> set (pz_threads s)" by simp
    then have "k \<in> group" "wp (pr k) p (\<lambda>_. Q k) (view k s)" using assms(1) by (auto simp: obeys_def)
    moreover have "view k s' = view k s" using others [OF r \<open>k \<in> group\<close> n _ may] False by (simp add: s' unrelated)
    ultimately show ?thesis by simp
  qed
  then show ?thesis using assms(1) fsts unfolding obeys_def s' by (auto simp flip: set_map)
qed

lemma obeys_runs:
  "phase_runs disp limit s0 s \<Longrightarrow> obeys Q s0 \<Longrightarrow> obeys Q s \<and> map fst (pz_threads s) = map fst (pz_threads s0)"
  by (induction rule: phase_runs.induct) (auto dest: obeys_step)

text \<open>A property of configurations that the allowed requests keep.\<close>

lemma runs_invariant:
  assumes "phase_runs disp limit s0 s" "obeys Q s0" "I s0"
    and keep: "\<And>q d s a s' n. respond disp limit q d s = Some (a, s') \<Longrightarrow> n \<in> group \<Longrightarrow>
      pr_may (pr n) q (view n s) \<Longrightarrow> I s \<Longrightarrow> I s'"
    and stable: "\<And>s ts. I s \<Longrightarrow> I (s\<lparr>pz_threads := ts\<rparr>)" "\<And>s x. I s \<Longrightarrow> I (s\<lparr>pz_expired := x\<rparr>)"
  shows "I s"
  using assms(1-3)
proof (induction rule: phase_runs.induct)
  case (run_next s m s')
  then have o: "obeys Q s" and i: "I s" using obeys_runs by auto
  show ?case
  proof (cases m)
    case Expire
    then show ?thesis using run_next(2) i stable by (auto split: if_splits)
  next
    case (Advance j d)
    with run_next(2) obtain n q f a s1 where j: "j < length (pz_threads s)" "pz_threads s ! j = (n, Ask q f)"
      and r: "respond disp limit q d s = Some (a, s1)"
      and s': "s' = s1\<lparr>pz_threads := (pz_threads s)[j := (n, f a)]\<rparr>"
      by (auto split: if_splits prod.splits prog.splits option.splits)
    have "(n, Ask q f) \<in> set (pz_threads s)" using j by (metis nth_mem)
    with o have "n \<in> group" "pr_may (pr n) q (view n s)" by (auto simp: obeys_def)
    from keep [OF r this i] show ?thesis by (simp add: s' stable)
  qed
qed simp

text \<open>At the end every goroutine has established its postcondition.\<close>

lemma obeys_end:
  assumes "phase_runs disp limit s0 s" "obeys Q s0" "all_returned s" "n \<in> fst ` set (pz_threads s0)"
  shows "Q n (view n s)"
proof -
  note o = obeys_runs [OF assms(1,2)]
  have "n \<in> set (map fst (pz_threads s))" using o assms(4) by simp
  then obtain p where p: "(n, p) \<in> set (pz_threads s)" by auto
  then obtain x where "p = Ret x" using assms(3) by (auto simp: all_returned_def list_all_iff split: prog.splits)
  then show ?thesis using o p by (auto simp: obeys_def)
qed

end

end
