(* ===== verification/Resolver_Run.thy ===== *)
theory Resolver_Run
  imports Resolver_Logic
begin

text \<open>
  What a run of resolvers does: which entries of the shared context a goroutine writes, what
  its outcome says about the stored result, how failed dependencies stop dependents, the order
  of forEach results, termination and completion of a phase and of the run.
\<close>

section \<open>The requests of the executor\<close>

text \<open>A call that mutates state according to the provider's descriptor.\<close>

definition write_operation :: "renv \<Rightarrow> prov_call \<Rightarrow> bool" where
  "write_operation env c =
     (case rx_write env (pc_provider c) of
        None \<Rightarrow> False
      | Some writes \<Rightarrow>
          (case map_of (pc_inputs c) ''operation'' of Some (VStr opn) \<Rightarrow> opn \<noteq> [] \<and> writes opn | _ \<Rightarrow> False))"

definition read_only :: "renv \<Rightarrow> prov_call \<Rightarrow> bool" where
  "read_only env c = (pc_mode c \<noteq> NoMode \<longrightarrow> \<not> write_operation env c)"

fun calls_read_only :: "renv \<Rightarrow> request \<Rightarrow> bool" where
  "calls_read_only env (QInvoke c) = read_only env c"
| "calls_read_only env (QOnce k (Inr c)) = read_only env c"
| "calls_read_only env _ = True"

text \<open>
  What the steps of a resolver ask for: reads, the list of failed attempts, and providers, with a
  write operation only where no execution mode is set.
\<close>

fun step_request :: "renv \<Rightarrow> request \<Rightarrow> bool" where
  "step_request env QSnapshot = True"
| "step_request env (QLoad n) = True"
| "step_request env (QInvoke c) = calls_read_only env (QInvoke c)"
| "step_request env (QOnce k c) = calls_read_only env (QOnce k c)"
| "step_request env (QPick is) = True"
| "step_request env (QStore n x) = (n = ''__failed_attempts'')"
| "step_request env (QDelete n) = (n = ''__failed_attempts'')"
| "step_request env _ = False"

named_theorems request_intros \<open>programs within the requests of a step\<close>

lemma within_snapshot [request_intros]: "(\<And>d. within (step_request env) (k d)) \<Longrightarrow> within (step_request env) (snapshot k)"
  by (simp add: snapshot_def)

lemma within_step_bindP [request_intros]:
  "within (step_request env) p \<Longrightarrow> (\<And>x. within (step_request env) (k x)) \<Longrightarrow> within (step_request env) (bindP p k)"
  by (rule within_bindP)

lemma within_invoke [request_intros]: "read_only env c \<Longrightarrow> within (step_request env) (invoke c)"
  by (simp add: invoke_def)

lemma prepare_call_read_only: "prepare_call env sx b p ins v ic d = Inr c \<Longrightarrow> read_only env c"
  by (auto simp: prepare_call_def read_only_def write_operation_def ValidateWriteOperation_def
      split: sum.splits option.splits gval.splits if_splits)

lemma runCallProvider_read_only: "runCallProvider env sx def bound v ic d = Inr c \<Longrightarrow> read_only env c"
  by (auto simp: runCallProvider_def no_provider_def fail_text_def split: if_splits dest: prepare_call_read_only)

lemma once_read_only: "(\<And>c. req = Inr c \<Longrightarrow> read_only env c) \<Longrightarrow> calls_read_only env (QOnce k req)"
  by (cases req) auto

lemma within_condition [request_intros]: "within (step_request env) (condition_with env pre c vars d)"
  by (auto simp: condition_with_def split: option.split intro!: request_intros)

lemma within_conditions [request_intros]:
  "within (step_request env) (rx_evaluateCondition env c)"
  "within (step_request env) (evaluateConditionWithSelf env c v)"
  "within (step_request env) (evaluateContinueCondition env c e)"
  "within (step_request env) (evaluateConditionWithIteration env c v ic)"
  by (auto simp: rx_evaluateCondition_def evaluateConditionWithSelf_def evaluateContinueCondition_def
      evaluateConditionWithIteration_def split: option.split intro!: request_intros)

lemma within_provider [request_intros]: "within (step_request env) (executeProvider env sx p ins v ic)"
  by (auto simp: executeProvider_def split: sum.split intro!: request_intros intro: prepare_call_read_only)

lemma within_call [request_intros]: "within (step_request env) (expandAndRunCall env sx n args v ic)"
  by (auto simp: expandAndRunCall_def Let_def split: option.split sum.split
      intro!: request_intros once_read_only intro: runCallProvider_read_only)

lemma within_step_provider [request_intros]: "within (step_request env) (runStepProvider env sx s v ic)"
  by (simp add: runStepProvider_def request_intros)

lemma within_track [request_intros]:
  "within (step_request env) k \<Longrightarrow> within (step_request env) (trackFailedAttempt p ph e oe i k)"
  by (simp add: trackFailedAttempt_def Let_def prog_simps)

lemma within_should_fail [request_intros]: "within (step_request env) (effectiveShouldFail env c e b)"
  by (auto simp: effectiveShouldFail_def split: option.split intro!: request_intros)

lemma within_step_failure [request_intros]: "within (step_request env) (step_failure env s pre e b final)"
  by (auto simp: step_failure_def intro!: request_intros)

lemma within_iteration [request_intros]: "within (step_request env) (foreach_iteration env sx s v ic)"
  by (auto simp: foreach_iteration_def split: sum.split bool.split intro!: request_intros)

lemma within_items [request_intros]: "within (step_request env) (foreach_items env sx l i s fe v input)"
  by (auto simp: foreach_items_def split: option.split list.split intro!: request_intros within_go_all)

lemma within_foreach [request_intros]:
  "within (step_request env) (executeForEachSource env sx i s fe)"
  "within (step_request env) (executeForEachTransform env sx i s fe v)"
  by (auto simp: executeForEachSource_def executeForEachTransform_def split: option.split sum.split
      intro!: request_intros)

lemma within_source_success [request_intros]: "within (step_request env) (source_success env u v n)"
  by (auto simp: source_success_def split: option.split sum.split intro!: request_intros)

lemma within_run_source [request_intros]:
  "(\<And>e n. within (step_request env) (k e n)) \<Longrightarrow> within (step_request env) (run_source env sx u i s n k)"
  by (auto simp: run_source_def split: option.split sum.split prod.split intro!: request_intros)

lemma within_sources [request_intros]: "within (step_request env) (resolve_sources env sx u i ss le n)"
  by (induction ss arbitrary: i le n)
    (auto split: option.split sum.split bool.split intro!: request_intros)

lemma within_resolve [request_intros]: "within (step_request env) (executeResolvePhase env sc ph)"
  by (auto simp: executeResolvePhase_def Let_def split: option.split sum.split bool.split intro!: request_intros)

lemma within_run_transform [request_intros]:
  "(\<And>v n. within (step_request env) (k v n)) \<Longrightarrow> within (step_request env) (run_transform env sx i s v n k)"
  by (auto simp: run_transform_def split: option.split sum.split intro!: request_intros)

lemma within_transforms [request_intros]: "within (step_request env) (transform_steps env sx i ss v n)"
  by (induction ss arbitrary: i v n)
    (auto split: option.split sum.split bool.split prod.split intro!: request_intros)

lemma within_transform [request_intros]: "within (step_request env) (executeTransformPhase env ph v)"
  by (auto simp: executeTransformPhase_def Let_def split: option.split sum.split bool.split intro!: request_intros)

lemma within_run_rule [request_intros]: "within (step_request env) (run_rule env i b v x)"
  by (auto simp: run_rule_def rule_message_def split: option.split sum.split gval.split intro!: request_intros)

lemma within_rule [request_intros]: "within (step_request env) (evaluateValidationRule env i b v x)"
  by (auto simp: evaluateValidationRule_def split: option.split sum.split bool.split intro!: request_intros)

lemma within_inline [request_intros]: "within (step_request env) (inline_rules env b x rs n fs)"
  by (induction rs arbitrary: n fs) (auto split: sum.split prod.split intro!: request_intros)

lemma within_validate [request_intros]: "within (step_request env) (executeValidatePhase env n b ph v)"
  by (auto simp: executeValidatePhase_def Let_def split: option.split sum.split bool.split intro!: request_intros)

section \<open>The view of a goroutine\<close>

text \<open>
  What belongs to one resolver of a phase, and what the phase does not change: the failures of
  the resolvers outside the group.
\<close>

record own_view =
  ov_result :: "rresult option"
  ov_failed :: "failure_kind option"
  ov_sent :: "outcome list"
  ov_outer :: "string \<Rightarrow> failure_kind option"

definition own_view_of :: "string set \<Rightarrow> string \<Rightarrow> phase_cfg \<Rightarrow> own_view" where
  "own_view_of grp n s =
     \<lparr>ov_result = map_of (rc_results (pz_ctx s)) n,
      ov_failed = map_of (rc_failed (pz_ctx s)) n,
      ov_sent = map snd (filter (\<lambda>m. fst m = n) (pz_sent s)),
      ov_outer = (\<lambda>m. if m \<in> grp then None else map_of (rc_failed (pz_ctx s)) m)\<rparr>"

fun own_may :: "string \<Rightarrow> request \<Rightarrow> bool" where
  "own_may n (QSetResult m r) = (m = n)"
| "own_may n (QStoreFailed m k) = (m = n)"
| "own_may n (QSend m x) = (m = n)"
| "own_may n (QStore m x) = (m = ''__failed_attempts'')"
| "own_may n (QDelete m) = (m = ''__failed_attempts'')"
| "own_may n _ = True"

fun own_answer :: "string set \<Rightarrow> request \<Rightarrow> own_view \<Rightarrow> response \<Rightarrow> bool" where
  "own_answer grp (QFailed m) s a = (m \<notin> grp \<longrightarrow> a = PFailed (ov_outer s m))"
| "own_answer grp _ s a = True"

fun own_after :: "request \<Rightarrow> own_view \<Rightarrow> own_view" where
  "own_after (QSetResult m r) s = s\<lparr>ov_result := Some r\<rparr>"
| "own_after (QStoreFailed m k) s = s\<lparr>ov_failed := Some k\<rparr>"
| "own_after (QSend m x) s = s\<lparr>ov_sent := ov_sent s @ [x]\<rparr>"
| "own_after _ s = s"

definition own_protocol :: "string set \<Rightarrow> string \<Rightarrow> own_view protocol" where
  "own_protocol grp n =
     \<lparr>pr_may = (\<lambda>q s. own_may n q), pr_answer = own_answer grp, pr_after = (\<lambda>q a s. own_after q s)\<rparr>"

lemma own_protocol_simps [simp]:
  "pr_may (own_protocol grp n) q s = own_may n q"
  "pr_answer (own_protocol grp n) = own_answer grp"
  "pr_after (own_protocol grp n) q a s = own_after q s"
  by (simp_all add: own_protocol_def)

interpretation own: shared_view "own_view_of grp" "own_protocol grp" disp limit grp
proof (unfold_locales, goal_cases)
  case (1 q d s a s' n)
  then show ?case
    by (cases q) (auto simp: own_view_of_def rctx_SetResult_def Let_def fun_eq_iff split: if_splits prod.splits)
next
  case (2 q d s a s' n m)
  then show ?case
    by (cases q) (auto simp: own_view_of_def rctx_SetResult_def Let_def fun_eq_iff split: if_splits prod.splits)
next
  case (3 n s ts)
  then show ?case by (auto simp: own_view_of_def fun_eq_iff)
next
  case (4 n s x)
  then show ?case by (auto simp: own_view_of_def fun_eq_iff)
qed

lemma step_quiet: "step_request env q \<Longrightarrow> quiet (own_protocol grp n) q"
  by (cases q) (auto simp: quiet_def)

text \<open>A step leaves the view alone, whatever it returns.\<close>

lemma wp_step:
  "within (step_request env) p \<Longrightarrow> (\<And>x. wp (own_protocol grp n) (k x) Q s) \<Longrightarrow> wp (own_protocol grp n) (bindP p k) Q s"
  unfolding wp_bindP by (rule wp_quiet_any) (auto intro: within_mono step_quiet)

lemma wp_custom_message:
  "(\<And>m. wp (own_protocol grp n) (k m) Q s) \<Longrightarrow> wp (own_protocol grp n) (resolveCustomErrorMessage env r err k) Q s"
  by (auto simp: resolveCustomErrorMessage_def snapshot_def split: option.split sum.split gval.split)

section \<open>One resolver\<close>

text \<open>What \<open>executeResolver\<close> returns against what it has stored; the view changes only in the result.\<close>

definition resolver_post :: "renv \<Rightarrow> string \<Rightarrow> own_view \<Rightarrow> bool \<times> rerror option \<Rightarrow> own_view \<Rightarrow> bool" where
  "resolver_post env n s0 out s =
     (s = s0\<lparr>ov_result := ov_result s\<rparr> \<and>
      (case snd out of
         Some e \<Rightarrow> \<not> fst out \<and> (\<exists>r. ov_result s = Some r \<and> rs_status r = RFailed \<and> rs_error r = Some e)
       | None \<Rightarrow>
           if fst out then ov_result s = ov_result s0
           else (\<exists>r. ov_result s = Some r \<and> rs_status r = RSuccess) \<or>
                (\<exists>sd. seededResult env n = Some sd \<and> rs_status sd = RSkipped \<and> ov_result s = ov_result s0)))"

lemma wp_finish:
  assumes "rs_status res = RSkipped \<Longrightarrow> Q (skipped, err) s"
    and "\<And>r. rs_status res \<noteq> RSkipped \<Longrightarrow> rs_status r = rs_status res \<Longrightarrow> rs_error r = rs_error res \<Longrightarrow>
           Q (skipped, err) (s\<lparr>ov_result := Some r\<rparr>)"
  shows "wp (own_protocol grp (r_name r)) (finish_resolver env r res skipped err) Q s"
  using assms by (auto simp: finish_resolver_def store_result_def Let_def wp_doP split: option.split cell.split)

lemma wp_fail:
  "wp (own_protocol grp (r_name r)) (fail_resolver env r res v e) (resolver_post env (r_name r) s) s"
  unfolding fail_resolver_def by (rule wp_finish) (auto simp: resolver_post_def)

lemma wp_size_step:
  "rs_status res = RSuccess \<Longrightarrow>
   wp (own_protocol grp (r_name r)) (size_step env r res v) (resolver_post env (r_name r) s) s"
  unfolding size_step_def by (auto intro!: wp_fail wp_finish simp: resolver_post_def)

lemma wp_validate_step:
  "rs_status res = RSuccess \<Longrightarrow>
   wp (own_protocol grp (r_name r)) (validate_step env r res v) (resolver_post env (r_name r) s) s"
  unfolding validate_step_def Let_def
  by (auto intro!: wp_step request_intros wp_size_step wp_fail wp_custom_message split: validation.split prod.split)

lemma wp_coerce_step:
  "rs_status res = RSuccess \<Longrightarrow>
   wp (own_protocol grp (r_name r)) (coerce_step env r res ph v) (resolver_post env (r_name r) s) s"
  unfolding coerce_step_def Let_def
  by (auto intro!: wp_validate_step wp_fail wp_custom_message split: sum.split)

lemma wp_transform_step:
  "rs_status res = RSuccess \<Longrightarrow>
   wp (own_protocol grp (r_name r)) (transform_step env r res v) (resolver_post env (r_name r) s) s"
  unfolding transform_step_def Let_def
  by (auto intro!: wp_step request_intros wp_coerce_step wp_fail wp_custom_message split: sum.split prod.split)

lemma wp_resolve_step:
  "rs_status res = RSuccess \<Longrightarrow>
   wp (own_protocol grp (r_name r)) (resolve_step env r res) (resolver_post env (r_name r) s) s"
  unfolding resolve_step_def Let_def
  by (auto intro!: wp_step request_intros wp_transform_step wp_fail wp_custom_message split: sum.split prod.split)

lemma wp_when_step:
  "rs_status res = RSuccess \<Longrightarrow>
   wp (own_protocol grp (r_name r)) (when_step env r res) (resolver_post env (r_name r) s) s"
  unfolding when_step_def
  by (auto intro!: wp_step request_intros wp_resolve_step wp_fail wp_finish simp: resolver_post_def
      split: sum.split option.split bool.split)

lemma wp_use_seeded:
  "seededResult env (r_name r) = Some sd \<Longrightarrow>
   wp (own_protocol grp (r_name r)) (use_seeded env r res sd) (resolver_post env (r_name r) s) s"
  unfolding use_seeded_def Let_def
  by (cases "rs_status sd") (auto intro!: wp_finish simp: resolver_post_def split: option.split)

lemma new_result_status [simp]: "rs_status (new_result phase) = RSuccess"
  by (simp add: new_result_def)

lemma wp_executeResolver:
  "wp (own_protocol grp (r_name r)) (executeResolver env r phase) (resolver_post env (r_name r) s) s"
  unfolding executeResolver_def seeded_step_def Let_def
  by (auto intro!: wp_use_seeded wp_when_step wp_finish simp: resolver_post_def split: option.split)

section \<open>One goroutine\<close>

definition blocking :: "renv \<Rightarrow> (string \<Rightarrow> failure_kind option) \<Rightarrow> string \<Rightarrow> bool" where
  "blocking env failed d =
     (case failed d of None \<Rightarrow> False | Some k \<Rightarrow> \<not> (k = failureValidation \<and> rx_nonFatal env))"

lemma wp_check_deps:
  "set ds \<inter> grp = {} \<Longrightarrow> wp (own_protocol grp n) (k (\<exists>d \<in> set ds. blocking env (ov_outer s) d)) Q s \<Longrightarrow>
   wp (own_protocol grp n) (check_deps env ds k) Q s"
proof (induction ds)
  case (Cons d ds)
  from Cons.prems(1) have d: "d \<notin> grp" and ds: "set ds \<inter> grp = {}" by auto
  show ?case
  proof (cases "blocking env (ov_outer s) d")
    case True
    with Cons.prems(2) d show ?thesis by (auto simp: blocking_def split: option.splits)
  next
    case False
    with Cons.prems(2) have "wp (own_protocol grp n) (check_deps env ds k) Q s" by (intro Cons.IH [OF ds]) simp
    with False d show ?thesis by (auto simp: blocking_def split: option.splits)
  qed
qed simp

definition timeout_errors :: "string \<Rightarrow> rerror set" where
  "timeout_errors n = {plain_err (''resolver '' @ quoted n @ '': phase timeout''),
                       plain_err (''resolver '' @ quoted n @ '': phase timeout before execution'')}"

text \<open>What a message says about the stored result and the recorded failure.\<close>

definition message_meaning ::
  "renv \<Rightarrow> string \<Rightarrow> rresult option \<Rightarrow> failure_kind option \<Rightarrow> outcome \<Rightarrow> rresult option \<Rightarrow> failure_kind option \<Rightarrow> bool" where
  "message_meaning env n result0 failed0 msg result failed =
     (case msg of
        OErr e \<Rightarrow>
          (e \<in> timeout_errors n \<and> result = result0 \<and> failed = Some failureFatal) \<or>
          (\<exists>r x. result = Some r \<and> rs_status r = RFailed \<and> rs_error r = Some x \<and>
                 failed = Some (classifyFailure x) \<and> e = failed_error n x)
      | OSkipped \<Rightarrow> result = result0 \<and> failed = failed0
      | ODepSkipped \<Rightarrow> result = result0 \<and> failed = Some failureFatal
      | ODone \<Rightarrow> failed = failed0 \<and>
          ((\<exists>r. result = Some r \<and> rs_status r = RSuccess) \<or>
           (\<exists>sd. seededResult env n = Some sd \<and> rs_status sd = RSkipped \<and> result = result0)))"

lemma message_failed:
  assumes "rs_status r = RFailed" "rs_error r = Some x"
  shows "message_meaning env n result0 failed0 (OErr (failed_error n x))
           (Some r) (Some (classifyFailure x))"
proof -
  have "\<exists>r' x'. Some r = Some r' \<and> rs_status r' = RFailed \<and> rs_error r' = Some x' \<and>
      Some (classifyFailure x) = Some (classifyFailure x') \<and>
      failed_error n x = failed_error n x'"
    using assms by blast
  then show ?thesis unfolding message_meaning_def outcome.case by blast
qed

definition goroutine_post ::
  "renv \<Rightarrow> string list \<Rightarrow> string \<Rightarrow> own_view \<Rightarrow> own_view \<Rightarrow> bool" where
  "goroutine_post env deps n s0 s =
     (\<exists>msg. ov_sent s = ov_sent s0 @ [msg] \<and>
        (msg = ODepSkipped) = (collectErrors env \<and> (\<exists>d \<in> set deps. blocking env (ov_outer s0) d)) \<and>
        message_meaning env n (ov_result s0) (ov_failed s0) msg (ov_result s) (ov_failed s))"

lemma resolver_post_failed:
  "resolver_post env n s0 (b, Some e) s \<Longrightarrow>
   s = s0\<lparr>ov_result := ov_result s\<rparr> \<and> (\<exists>r. ov_result s = Some r \<and> rs_status r = RFailed \<and> rs_error r = Some e)"
  by (simp add: resolver_post_def)

definition ran_post :: "renv \<Rightarrow> string \<Rightarrow> own_view \<Rightarrow> own_view \<Rightarrow> bool" where
  "ran_post env n s0 s =
     (\<exists>msg. ov_sent s = ov_sent s0 @ [msg] \<and> msg \<noteq> ODepSkipped \<and>
        message_meaning env n (ov_result s0) (ov_failed s0) msg (ov_result s) (ov_failed s))"

lemma wp_report:
  assumes "resolver_post env (r_name r) s x s'"
  shows "wp (own_protocol grp (r_name r)) (report_resolver r x) (\<lambda>_. ran_post env (r_name r) s) s'"
proof -
  obtain b err where x: "x = (b, err)" by (cases x)
  from assms have s': "s' = s\<lparr>ov_result := ov_result s'\<rparr>" by (simp add: resolver_post_def)
  then have eqs: "ov_failed s' = ov_failed s" "ov_sent s' = ov_sent s" by (cases s; cases s'; simp)+
  show ?thesis
  proof (cases err)
    case None
    then show ?thesis
      using assms eqs by (auto simp: x report_resolver_def ran_post_def message_meaning_def wp_doP resolver_post_def)
  next
    case (Some e)
    with assms obtain ra where "ov_result s' = Some ra" "rs_status ra = RFailed" "rs_error ra = Some e"
      by (auto simp: resolver_post_def x)
    then show ?thesis
      using eqs by (simp add: x Some report_resolver_def ran_post_def fail_goroutine_def wp_doP message_failed)
  qed
qed

lemma wp_timeout:
  "e \<in> timeout_errors (r_name r) \<Longrightarrow>
   wp (own_protocol grp (r_name r)) (fail_goroutine (r_name r) failureFatal e) (\<lambda>_. ran_post env (r_name r) s) s"
  by (simp add: fail_goroutine_def wp_doP ran_post_def message_meaning_def)

lemma wp_run_resolver:
  "wp (own_protocol grp (r_name r)) (run_resolver env r phase) (\<lambda>_. ran_post env (r_name r) s) s"
  by (auto simp: run_resolver_def wp_bindP timeout_errors_def intro!: wp_timeout
      intro: wp_mono [OF wp_executeResolver] wp_report)

lemma wp_limited:
  assumes "wp (own_protocol grp (r_name r)) p (\<lambda>_. ran_post env (r_name r) s) s"
  shows "wp (own_protocol grp (r_name r)) (limited env r p) (\<lambda>_. ran_post env (r_name r) s) s"
proof -
  have "wp (own_protocol grp (r_name r)) (bindP p (\<lambda>_. doP QRelease (Ret ()))) (\<lambda>_. ran_post env (r_name r) s) s"
    unfolding wp_bindP by (rule wp_mono [OF assms]) (simp add: wp_doP)
  then show ?thesis using assms by (auto simp: limited_def timeout_errors_def intro!: wp_timeout)
qed

lemma wp_goroutine:
  assumes "set (map_get [] deps (r_name r)) \<inter> grp = {}"
  shows "wp (own_protocol grp (r_name r)) (resolver_goroutine env deps phase r)
           (\<lambda>_. goroutine_post env (map_get [] deps (r_name r)) (r_name r) s) s"
proof -
  let ?ds = "if collectErrors env then map_get [] deps (r_name r) else []"
  have run: "wp (own_protocol grp (r_name r)) (limited env r (run_resolver env r phase))
      (\<lambda>_. goroutine_post env (map_get [] deps (r_name r)) (r_name r) s) s"
    if "\<not> (collectErrors env \<and> (\<exists>d \<in> set (map_get [] deps (r_name r)). blocking env (ov_outer s) d))"
    by (rule wp_mono [OF wp_limited [OF wp_run_resolver]]) (use that in \<open>auto simp: ran_post_def goroutine_post_def\<close>)
  show ?thesis
    unfolding resolver_goroutine_def
  proof (rule wp_check_deps)
    show "set ?ds \<inter> grp = {}" using assms by auto
    show "wp (own_protocol grp (r_name r))
       (if \<exists>d \<in> set ?ds. blocking env (ov_outer s) d
        then doP (QStoreFailed (r_name r) failureFatal) (doP (QSend (r_name r) ODepSkipped) (Ret ()))
        else limited env r (run_resolver env r phase))
       (\<lambda>_. goroutine_post env (map_get [] deps (r_name r)) (r_name r) s) s"
    proof (cases "\<exists>d \<in> set ?ds. blocking env (ov_outer s) d")
      case True
      then show ?thesis by (auto simp: wp_doP goroutine_post_def message_meaning_def split: if_splits)
    next
      case False
      then show ?thesis using run by (auto split: if_splits)
    qed
  qed
qed

section \<open>A phase\<close>

text \<open>The dependencies of a phase's resolvers lie outside the phase, as planning ensures.\<close>

definition separated :: "string list gomap \<Rightarrow> phase_group \<Rightarrow> bool" where
  "separated deps pg =
     (distinct (names (pg_resolvers pg)) \<and>
      (\<forall>r \<in> set (pg_resolvers pg). set (map_get [] deps (r_name r)) \<inter> set (names (pg_resolvers pg)) = {}))"

lemma start_phase_simps [simp]:
  "pz_ctx (start_phase env deps pg c) = c"
  "pz_threads (start_phase env deps pg c) =
     map (\<lambda>r. (r_name r, resolver_goroutine env deps (pg_phase pg) r)) (pg_resolvers pg)"
  "pz_held (start_phase env deps pg c) = 0"
  "pz_sent (start_phase env deps pg c) = []"
  by (simp_all add: start_phase_def)

lemma start_obeys:
  assumes "separated deps pg"
  shows "own.obeys (set (names (pg_resolvers pg)))
     (\<lambda>n. goroutine_post env (map_get [] deps n) n
        (own_view_of (set (names (pg_resolvers pg))) n (start_phase env deps pg c))) (start_phase env deps pg c)"
  using assms by (auto simp: own.obeys_def separated_def names_def comp_def intro!: wp_goroutine)

definition outside_unchanged :: "string set \<Rightarrow> rctx \<Rightarrow> rctx \<Rightarrow> bool" where
  "outside_unchanged grp c c' =
     (\<forall>m. m \<notin> grp \<longrightarrow>
        map_of (rc_results c') m = map_of (rc_results c) m \<and>
        map_of (rc_failed c') m = map_of (rc_failed c) m \<and>
        (m \<noteq> ''__failed_attempts'' \<longrightarrow> map_of (rc_data c') m = map_of (rc_data c) m))"

lemma respond_outside:
  assumes "respond disp limit q d s = Some (a, s')" "n \<in> grp" "own_may n q" "outside_unchanged grp c (pz_ctx s)"
  shows "outside_unchanged grp c (pz_ctx s')"
  using assms
  by (cases q) (auto simp: outside_unchanged_def rctx_SetResult_def Let_def split: if_splits prod.splits)

text \<open>A phase only writes the entries of its own resolvers.\<close>

lemma phase_frame:
  assumes "resolver_run env (start_phase env deps pg c) s" "separated deps pg"
  shows "outside_unchanged (set (names (pg_resolvers pg))) c (pz_ctx s)"
proof (rule own.runs_invariant [OF assms(1) [unfolded resolver_run_def] start_obeys [OF assms(2)],
        where I = "\<lambda>s. outside_unchanged (set (names (pg_resolvers pg))) c (pz_ctx s)"], goal_cases)
  case 1
  show ?case by (simp add: outside_unchanged_def)
next
  case (2 q d s a s' n)
  then show ?case by (auto intro: respond_outside)
qed simp_all

lemma phase_views:
  assumes "resolver_run env (start_phase env deps pg c) s" "separated deps pg" "all_returned s"
    and "r \<in> set (pg_resolvers pg)"
  shows "goroutine_post env (map_get [] deps (r_name r)) (r_name r)
     (own_view_of (set (names (pg_resolvers pg))) (r_name r) (start_phase env deps pg c))
     (own_view_of (set (names (pg_resolvers pg))) (r_name r) s)"
  using own.obeys_end [OF assms(1) [unfolded resolver_run_def] start_obeys [OF assms(2)] assms(3)] assms(4)
  by (auto simp: image_image)

text \<open>Nothing is sent for names outside the phase.\<close>

lemma phase_sent_names:
  assumes "resolver_run env (start_phase env deps pg c) s" "separated deps pg"
  shows "fst ` set (pz_sent s) \<subseteq> set (names (pg_resolvers pg))"
proof (rule own.runs_invariant [OF assms(1) [unfolded resolver_run_def] start_obeys [OF assms(2)],
        where I = "\<lambda>s. fst ` set (pz_sent s) \<subseteq> set (names (pg_resolvers pg))"], goal_cases)
  case (2 q d s a s' n)
  then show ?case by (cases q) (auto simp: Let_def image_subset_iff split: if_splits prod.splits)
qed auto

definition one_message :: "(string \<times> outcome) list \<Rightarrow> string \<Rightarrow> outcome \<Rightarrow> bool" where
  "one_message ms n msg = (filter (\<lambda>m. fst m = n) ms = [(n, msg)])"

lemma map_snd_filter: "map snd (filter (\<lambda>m. fst m = n) ms) = [x] \<Longrightarrow> filter (\<lambda>m. fst m = n) ms = [(n, x)]"
proof -
  assume a: "map snd (filter (\<lambda>m. fst m = n) ms) = [x]"
  then obtain y where y: "filter (\<lambda>m. fst m = n) ms = [y]" "snd y = x" by auto
  then have "y \<in> set (filter (\<lambda>m. fst m = n) ms)" by simp
  then have "fst y = n" by simp
  with y show ?thesis by (cases y) simp
qed

lemma goroutine_message:
  assumes "goroutine_post env ds n (own_view_of grp n s0) (own_view_of grp n s)" "pz_sent s0 = []"
    and "set ds \<inter> grp = {}"
  shows "\<exists>msg. one_message (pz_sent s) n msg \<and>
     (msg = ODepSkipped) = (collectErrors env \<and> (\<exists>d \<in> set ds. blocking env (map_of (rc_failed (pz_ctx s0))) d)) \<and>
     message_meaning env n (map_of (rc_results (pz_ctx s0)) n) (map_of (rc_failed (pz_ctx s0)) n) msg
       (map_of (rc_results (pz_ctx s)) n) (map_of (rc_failed (pz_ctx s)) n)"
proof -
  have b: "blocking env (ov_outer (own_view_of grp n s0)) d = blocking env (map_of (rc_failed (pz_ctx s0))) d"
    if "d \<in> set ds" for d
    using assms(3) that by (auto simp: blocking_def own_view_of_def)
  from assms(1) obtain msg where "ov_sent (own_view_of grp n s) = ov_sent (own_view_of grp n s0) @ [msg]"
    and m: "(msg = ODepSkipped) = (collectErrors env \<and> (\<exists>d \<in> set ds. blocking env (ov_outer (own_view_of grp n s0)) d))"
      "message_meaning env n (ov_result (own_view_of grp n s0)) (ov_failed (own_view_of grp n s0)) msg
         (ov_result (own_view_of grp n s)) (ov_failed (own_view_of grp n s))"
    by (auto simp: goroutine_post_def)
  then have "map snd (filter (\<lambda>m. fst m = n) (pz_sent s)) = [msg]" using assms(2) by (simp add: own_view_of_def)
  then have "one_message (pz_sent s) n msg" unfolding one_message_def by (rule map_snd_filter)
  with m b show ?thesis by (auto simp: own_view_of_def)
qed

text \<open>The data map holds the value of every stored result.\<close>

definition coherent :: "rctx \<Rightarrow> bool" where
  "coherent c = (\<forall>n r. map_of (rc_results c) n = Some r \<longrightarrow> n \<noteq> ''__failed_attempts'' \<longrightarrow>
     map_of (rc_data c) n = Some (CVal (rs_value r)))"

lemma coherent_SetResult [simp]: "coherent c \<Longrightarrow> coherent (rctx_SetResult n r c)"
  by (auto simp: coherent_def rctx_SetResult_def)

lemma coherent_Set [simp]: "coherent c \<Longrightarrow> coherent (rctx_Set n v c)"
  by (auto simp: coherent_def rctx_Set_def)

lemma phase_coherent:
  assumes "resolver_run env (start_phase env deps pg c) s" "separated deps pg" "coherent c"
  shows "coherent (pz_ctx s)"
proof (rule own.runs_invariant [OF assms(1) [unfolded resolver_run_def] start_obeys [OF assms(2)],
        where I = "\<lambda>s. coherent (pz_ctx s)"], goal_cases)
  case 1
  show ?case using assms(3) by simp
next
  case (2 q d s a s' n)
  then show ?case
    by (cases q) (auto simp: Let_def coherent_def rctx_SetResult_def split: if_splits prod.splits)
qed simp_all

section \<open>The phases of a run\<close>

primrec layered :: "string list gomap \<Rightarrow> phase_group list \<Rightarrow> bool" where
  "layered deps [] = True"
| "layered deps (pg # pgs) =
     (separated deps pg \<and> set (names (pg_resolvers pg)) \<inter> set (concat (phase_names pgs)) = {} \<and>
      (\<forall>n \<in> set (names (pg_resolvers pg)). set (map_get [] deps n) \<inter> set (concat (phase_names pgs)) = {}) \<and>
      layered deps pgs)"

lemma phase_names_in: "n \<in> set (concat (phase_names pgs)) \<longleftrightarrow> (\<exists>i < length pgs. n \<in> set (phase_names pgs ! i))"
proof -
  have "n \<in> set (concat (phase_names pgs)) \<longleftrightarrow> (\<exists>ns \<in> set (phase_names pgs). n \<in> set ns)" by simp
  also have "\<dots> \<longleftrightarrow> (\<exists>i < length (phase_names pgs). n \<in> set (phase_names pgs ! i))"
    by (metis in_set_conv_nth)
  finally show ?thesis by (simp add: phase_names_def)
qed

lemma plan_layered:
  assumes ok: "BuildPhasesWithCalls pick env rs = Inr br"
  shows "layered (br_deps br) (br_phases br)"
proof -
  let ?ps = "br_phases br"
  have idx: "j = i" if "i < length ?ps" "j < length ?ps" "n \<in> set (phase_names ?ps ! i)" "n \<in> set (phase_names ?ps ! j)" for i j n
    using resolver_phase(2) [OF ok that(1,3)] resolver_phase(2) [OF ok that(2,4)] by simp
  have dep: "j < i" if "i < length ?ps" "j < length ?ps" "n \<in> set (phase_names ?ps ! i)" "d \<in> set (phase_names ?ps ! j)"
      "d \<in> set (map_get [] (br_deps br) n)" for i j n d
  proof -
    have "d \<in> phase_deps br n" using that(5) by (simp add: phase_deps_def deps_of_def)
    from dependency_phase_before [OF ok this] resolver_phase(2) [OF ok that(1,3)] resolver_phase(2) [OF ok that(2,4)]
    show ?thesis by simp
  qed
  have dist: "distinct (names (pg_resolvers (?ps ! i)))" if "i < length ?ps" for i
  proof -
    have "distinct (concat (phase_names ?ps))" using phase_schedule_partition [OF BuildPhases_Inr(2) [OF ok]] by simp
    moreover have "phase_names ?ps ! i \<in> set (phase_names ?ps)" using that by (simp add: phase_names_def)
    ultimately show ?thesis using that by (auto simp: distinct_concat_iff phase_names_def)
  qed
  have "layered (br_deps br) (drop i ?ps)" if "i \<le> length ?ps" for i
    using that
  proof (induction "length ?ps - i" arbitrary: i)
    case (Suc k)
    then have i: "i < length ?ps" by simp
    have pn: "phase_names ?ps ! i = names (pg_resolvers (?ps ! i))" using i by (simp add: phase_names_def)
    have later: "\<exists>j. i < j \<and> j < length ?ps \<and> n \<in> set (phase_names ?ps ! j)"
      if "n \<in> set (concat (phase_names (drop (Suc i) ?ps)))" for n
    proof -
      from that obtain k where "k < length (drop (Suc i) ?ps)" "n \<in> set (phase_names (drop (Suc i) ?ps) ! k)"
        unfolding phase_names_in by blast
      then show ?thesis by (intro exI [of _ "Suc i + k"]) (simp add: phase_names_def)
    qed
    have "separated (br_deps br) (?ps ! i)"
      unfolding separated_def using dist [OF i] dep [OF i i] pn by (fastforce simp: names_def)
    moreover have "set (names (pg_resolvers (?ps ! i))) \<inter> set (concat (phase_names (drop (Suc i) ?ps))) = {}"
      using later idx [OF i] pn by fastforce
    moreover have "set (map_get [] (br_deps br) n) \<inter> set (concat (phase_names (drop (Suc i) ?ps))) = {}"
      if "n \<in> set (names (pg_resolvers (?ps ! i)))" for n
      using later dep [OF i] pn that by fastforce
    moreover have "layered (br_deps br) (drop (Suc i) ?ps)" using Suc by simp
    ultimately show ?case using i by (simp add: Cons_nth_drop_Suc [symmetric])
  qed simp
  from this [of 0] show ?thesis by simp
qed

definition resolver_meaning :: "renv \<Rightarrow> string list gomap \<Rightarrow> rctx \<Rightarrow> rctx \<Rightarrow> string \<Rightarrow> outcome \<Rightarrow> bool" where
  "resolver_meaning env deps c c' n msg =
     ((msg = ODepSkipped) = (collectErrors env \<and> (\<exists>d \<in> set (map_get [] deps n). blocking env (map_of (rc_failed c')) d)) \<and>
      message_meaning env n (map_of (rc_results c) n) (map_of (rc_failed c) n) msg
        (map_of (rc_results c') n) (map_of (rc_failed c') n))"

lemma outside_trans:
  "outside_unchanged A c c1 \<Longrightarrow> outside_unchanged B c1 c2 \<Longrightarrow> outside_unchanged (A \<union> B) c c2"
  by (auto simp: outside_unchanged_def)

lemma blocking_cong: "failed d = failed' d \<Longrightarrow> blocking env failed d = blocking env failed' d"
  by (simp add: blocking_def)

lemma phase_meaning:
  assumes "resolver_run env (start_phase env deps pg c) s" "separated deps pg" "all_returned s"
    and "n \<in> set (names (pg_resolvers pg))"
  shows "\<exists>msg. one_message (pz_sent s) n msg \<and> resolver_meaning env deps c (pz_ctx s) n msg"
proof -
  from assms(4) obtain r where r: "r \<in> set (pg_resolvers pg)" "n = r_name r" by (auto simp: names_def)
  have sep: "set (map_get [] deps n) \<inter> set (names (pg_resolvers pg)) = {}"
    using assms(2) r by (auto simp: separated_def)
  note out = phase_frame [OF assms(1,2)]
  have b: "blocking env (map_of (rc_failed (pz_ctx s))) d = blocking env (map_of (rc_failed c)) d"
    if "d \<in> set (map_get [] deps n)" for d
    by (rule blocking_cong) (use out sep that in \<open>auto simp: outside_unchanged_def\<close>)
  from goroutine_message [OF phase_views [OF assms(1-3) r(1)]] sep r(2)
  show ?thesis using b by (auto simp: resolver_meaning_def)
qed

lemma not_failed: "phase_failure ms = None \<Longrightarrow> (n, OErr e) \<notin> set ms"
  unfolding phase_failure_def phase_errors_def
  by (auto simp: List.map_filter_def filter_empty_conv split: list.splits)

text \<open>What a run of some phases has done to the context.\<close>

lemma phases_meaning:
  assumes "executes_phases env deps pgs ca ca' None" "layered deps pgs"
  shows "outside_unchanged (set (concat (phase_names pgs))) (fst ca) (fst ca') \<and>
    (coherent (fst ca) \<longrightarrow> coherent (fst ca')) \<and>
    (\<forall>n \<in> set (concat (phase_names pgs)). \<exists>msg.
       resolver_meaning env deps (fst ca) (fst ca') n msg \<and> (\<not> collectErrors env \<longrightarrow> (\<forall>e. msg \<noteq> OErr e)))"
  using assms
proof (induction pgs ca ca' "None :: rerror option" rule: executes_phases.induct)
  case (phases_end ca)
  show ?case by (simp add: outside_unchanged_def phase_names_def)
next
  case (phases_next pg ca ca1 e pgs ca')
  let ?A = "set (names (pg_resolvers pg))" let ?B = "set (concat (phase_names pgs))"
  from phases_next.prems have sep: "separated deps pg" and AB: "?A \<inter> ?B = {}"
    and dB: "\<And>n. n \<in> ?A \<Longrightarrow> set (map_get [] deps n) \<inter> ?B = {}" and lay: "layered deps pgs" by auto
  note IH = phases_next.hyps(4) [OF lay]
  from phases_next.hyps(1) obtain c a s a1 where ca: "ca = (c, a)" "ca1 = (pz_ctx s, a1)"
    and run: "resolver_run env (start_phase env deps pg c) s" "all_returned s" and e: "e = phase_failure (pz_sent s)"
    by (cases rule: executes_phase.cases) auto
  have o1: "outside_unchanged ?A c (pz_ctx s)" using phase_frame [OF run(1) sep] .
  have o2: "outside_unchanged ?B (pz_ctx s) (fst ca')" using IH ca by simp
  have names: "set (concat (phase_names (pg # pgs))) = ?A \<union> ?B" by (simp add: phase_names_def)
  have head: "\<exists>msg. resolver_meaning env deps c (fst ca') n msg \<and> (\<not> collectErrors env \<longrightarrow> (\<forall>e. msg \<noteq> OErr e))"
    if n: "n \<in> ?A" for n
  proof -
    obtain msg where msg: "one_message (pz_sent s) n msg" "resolver_meaning env deps c (pz_ctx s) n msg"
      using phase_meaning [OF run(1) sep run(2) n] by blast
    have "n \<notin> ?B" using AB n by blast
    then have same: "map_of (rc_results (fst ca')) n = map_of (rc_results (pz_ctx s)) n"
      "map_of (rc_failed (fst ca')) n = map_of (rc_failed (pz_ctx s)) n" using o2 by (simp_all add: outside_unchanged_def)
    have "blocking env (map_of (rc_failed (fst ca'))) d = blocking env (map_of (rc_failed (pz_ctx s))) d"
      if "d \<in> set (map_get [] deps n)" for d
      by (rule blocking_cong) (use o2 dB [OF n] that in \<open>auto simp: outside_unchanged_def\<close>)
    then have "resolver_meaning env deps c (fst ca') n msg" using msg(2) same by (simp add: resolver_meaning_def)
    moreover have "msg \<noteq> OErr x" if "\<not> collectErrors env" for x
    proof
      assume "msg = OErr x"
      then have "(n, OErr x) \<in> set (filter (\<lambda>m. fst m = n) (pz_sent s))" using msg(1) by (simp add: one_message_def)
      moreover have "phase_failure (pz_sent s) = None" using phases_next.hyps(2) that e by simp
      ultimately show False using not_failed by fastforce
    qed
    ultimately show ?thesis by blast
  qed
  have tail: "\<exists>msg. resolver_meaning env deps c (fst ca') n msg \<and> (\<not> collectErrors env \<longrightarrow> (\<forall>e. msg \<noteq> OErr e))"
    if n: "n \<in> ?B" for n
  proof -
    have "n \<notin> ?A" using AB n by blast
    then have "map_of (rc_results (pz_ctx s)) n = map_of (rc_results c) n"
      "map_of (rc_failed (pz_ctx s)) n = map_of (rc_failed c) n" using o1 by (simp_all add: outside_unchanged_def)
    then have "resolver_meaning env deps c (fst ca') n msg = resolver_meaning env deps (pz_ctx s) (fst ca') n msg" for msg
      by (simp only: resolver_meaning_def)
    with conjunct2 [OF conjunct2 [OF IH]] n show ?thesis by (simp only: ca fst_conv)
  qed
  have out: "outside_unchanged (?A \<union> ?B) c (fst ca')" using outside_trans [OF o1 o2] .
  have coh: "coherent c \<longrightarrow> coherent (fst ca')"
    using phase_coherent [OF run(1) sep] conjunct1 [OF conjunct2 [OF IH]] by (simp add: ca)
  show ?case
    unfolding names ca(1) fst_conv using out coh head tail by blast
qed

end
