(* ===== verification/Resolver_Live.thy ===== *)
theory Resolver_Live
  imports Resolver_Run
begin

text \<open>
  Termination and progress of a phase, and completion of a run: every step of a goroutine
  shortens its program, a goroutine that waits for the semaphore waits for one that can move, and
  therefore every run of resolvers ends with an outcome, with or without the deadline.
\<close>

section \<open>Termination\<close>

definition phase_moves :: "(provider_attempt list \<Rightarrow> gval) \<Rightarrow> nat \<Rightarrow> (phase_cfg \<times> phase_cfg) set" where
  "phase_moves disp limit = {(s', s). \<exists>m. phase_step disp limit m s = Some s'}"

definition phase_rank :: "phase_cfg \<Rightarrow> unit prog multiset \<times> nat" where
  "phase_rank s = (mset (map snd (pz_threads s)), if pz_expired s then 0 else 1)"

lemma advance_cases:
  assumes "phase_step disp limit (Advance i d) s = Some s'"
  obtains n q f a s1 where "i < length (pz_threads s)" "pz_threads s ! i = (n, Ask q f)"
    "respond disp limit q d s = Some (a, s1)" "s' = s1\<lparr>pz_threads := (pz_threads s)[i := (n, f a)]\<rparr>"
  using assms by (auto split: if_splits prod.splits prog.splits option.splits)

lemma respond_expired: "respond disp limit q d s = Some (a, s') \<Longrightarrow> pz_expired s' = pz_expired s"
  by (cases q) (auto simp: Let_def split: if_splits prod.splits)

lemma mult_update:
  assumes "i < length ps" "(p, ps ! i) \<in> r"
  shows "(mset (ps[i := p]), mset ps) \<in> mult r"
proof -
  let ?M = "mset ps - {#ps ! i#}"
  have "ps ! i \<in># mset ps" using assms(1) by simp
  then have "mset ps = ?M + {#ps ! i#}" by simp
  moreover have "mset (ps[i := p]) = ?M + {#p#}" using assms(1) by (simp add: mset_update)
  ultimately have "(mset (ps[i := p]), mset ps) \<in> mult1 r"
    using assms(2) by (intro mult1I [of _ "ps ! i" ?M _ "{#p#}"]) simp_all
  then show ?thesis by (simp add: mult_def)
qed

lemma phase_moves_rank:
  "phase_moves disp limit \<subseteq> inv_image (mult subprog <*lex*> less_than) phase_rank"
proof (clarsimp simp: phase_moves_def)
  fix s' s m assume st: "phase_step disp limit m s = Some s'"
  show "(phase_rank s', phase_rank s) \<in> mult subprog <*lex*> less_than"
  proof (cases m)
    case Expire
    with st show ?thesis by (auto simp: phase_rank_def split: if_splits)
  next
    case (Advance i d)
    with st obtain n q f a s1 where i: "i < length (pz_threads s)" "pz_threads s ! i = (n, Ask q f)"
      and s': "s' = s1\<lparr>pz_threads := (pz_threads s)[i := (n, f a)]\<rparr>"
      using advance_cases by metis
    have "(mset ((map snd (pz_threads s))[i := f a]), mset (map snd (pz_threads s))) \<in> mult subprog"
      by (rule mult_update) (use i in \<open>simp_all add: subprogI\<close>)
    then show ?thesis by (simp add: phase_rank_def s' map_update)
  qed
qed

lemma wf_phase_moves: "wf (phase_moves disp limit)"
  by (rule wf_subset [OF _ phase_moves_rank]) (simp add: wf_lex_prod wf_mult wf_subprog)

section \<open>The semaphore\<close>

fun sem_may :: "nat \<Rightarrow> request \<Rightarrow> bool \<Rightarrow> bool" where
  "sem_may limit QAcquire h = (\<not> h \<and> 0 < limit)"
| "sem_may limit QRelease h = h"
| "sem_may limit _ h = True"

fun sem_after :: "request \<Rightarrow> response \<Rightarrow> bool \<Rightarrow> bool" where
  "sem_after QAcquire a h = the_bool a"
| "sem_after QRelease a h = False"
| "sem_after _ a h = h"

definition sem_protocol :: "nat \<Rightarrow> bool protocol" where
  "sem_protocol limit = \<lparr>pr_may = sem_may limit, pr_answer = (\<lambda>q h a. True), pr_after = sem_after\<rparr>"

lemma sem_protocol_simps [simp]:
  "pr_may (sem_protocol limit) = sem_may limit" "pr_answer (sem_protocol limit) q h a"
  "pr_after (sem_protocol limit) = sem_after"
  by (simp_all add: sem_protocol_def)

text \<open>Neither acquires nor releases.\<close>

fun plain_request :: "request \<Rightarrow> bool" where
  "plain_request QAcquire = False"
| "plain_request QRelease = False"
| "plain_request _ = True"

lemma plain_quiet: "plain_request q \<Longrightarrow> quiet (sem_protocol limit) q"
  by (cases q) (auto simp: quiet_def)

definition sem_ok :: "nat \<Rightarrow> unit prog \<Rightarrow> bool \<Rightarrow> bool" where
  "sem_ok limit p h = wp (sem_protocol limit) p (\<lambda>_ h. \<not> h) h"

definition sem_inv :: "nat \<Rightarrow> phase_cfg \<Rightarrow> bool" where
  "sem_inv limit s =
     (\<exists>H \<subseteq> {..<length (pz_threads s)}. card H = pz_held s \<and>
        (\<forall>i < length (pz_threads s). sem_ok limit (snd (pz_threads s ! i)) (i \<in> H)))"

lemma respond_held:
  assumes "respond disp limit q d s = Some (a, s')" "finite H" "card H = pz_held s" "sem_may limit q (i \<in> H)"
  shows "\<exists>H' \<subseteq> insert i H. card H' = pz_held s' \<and> (i \<in> H') = sem_after q a (i \<in> H) \<and> (\<forall>j. j \<noteq> i \<longrightarrow> (j \<in> H') = (j \<in> H))"
proof (cases "plain_request q")
  case True
  with assms have "pz_held s' = pz_held s" "sem_after q a (i \<in> H) = (i \<in> H)"
    by (cases q; auto simp: Let_def split: if_splits prod.splits)+
  with assms(3) show ?thesis by (intro exI [of _ H]) auto
next
  case False
  then consider "q = QAcquire" | "q = QRelease" by (cases q) auto
  then show ?thesis
  proof cases
    case 1
    show ?thesis
    proof (cases "the_bool a")
      case True
      with 1 assms show ?thesis by (intro exI [of _ "insert i H"]) (auto split: if_splits)
    next
      case False
      with 1 assms show ?thesis by (intro exI [of _ H]) (auto split: if_splits)
    qed
  next
    case 2
    with assms show ?thesis by (intro exI [of _ "H - {i}"]) auto
  qed
qed

lemma sem_inv_step:
  assumes "sem_inv limit s" "phase_step disp limit m s = Some s'"
  shows "sem_inv limit s'"
proof (cases m)
  case Expire
  with assms(2) have "pz_threads s' = pz_threads s" "pz_held s' = pz_held s" by (auto split: if_splits)
  with assms(1) show ?thesis by (simp only: sem_inv_def)
next
  case (Advance i d)
  with assms(2) obtain n q f a s1 where i: "i < length (pz_threads s)" "pz_threads s ! i = (n, Ask q f)"
    and r: "respond disp limit q d s = Some (a, s1)"
    and s': "s' = s1\<lparr>pz_threads := (pz_threads s)[i := (n, f a)]\<rparr>"
    using advance_cases by metis
  from assms(1) obtain H where H: "H \<subseteq> {..<length (pz_threads s)}" "card H = pz_held s"
    and ok: "\<And>j. j < length (pz_threads s) \<Longrightarrow> sem_ok limit (snd (pz_threads s ! j)) (j \<in> H)"
    by (auto simp: sem_inv_def)
  have oki: "sem_may limit q (i \<in> H)" "sem_ok limit (f a) (sem_after q a (i \<in> H))"
    using ok [OF i(1)] i(2) by (auto simp: sem_ok_def)
  have "finite H" using H(1) finite_subset by blast
  from respond_held [OF r this H(2) oki(1)] obtain H' where H': "H' \<subseteq> insert i H" "card H' = pz_held s1"
    "(i \<in> H') = sem_after q a (i \<in> H)" "\<And>j. j \<noteq> i \<Longrightarrow> (j \<in> H') = (j \<in> H)" by blast
  have "H' \<subseteq> {..<length (pz_threads s')}" using H'(1) H(1) i(1) by (auto simp: s')
  moreover have "sem_ok limit (snd (pz_threads s' ! j)) (j \<in> H')" if "j < length (pz_threads s')" for j
    using that ok H'(3,4) oki(2) by (cases "j = i") (auto simp: s')
  ultimately show ?thesis using H'(2) unfolding sem_inv_def by (intro exI [of _ H']) (auto simp: s')
qed

lemma respond_some:
  assumes "q \<noteq> QAcquire"
  shows "\<exists>d a s'. respond disp limit q d s = Some (a, s')"
  using assms by (cases q) (auto simp: Let_def split: prod.split)

text \<open>Some goroutine can move, even if the deadline never passes.\<close>

lemma phase_progress:
  assumes "sem_inv limit s" "\<not> all_returned s"
  shows "\<exists>i d s'. phase_step disp limit (Advance i d) s = Some s'"
proof -
  from assms(1) obtain H where H: "H \<subseteq> {..<length (pz_threads s)}" "card H = pz_held s"
    and ok: "\<And>j. j < length (pz_threads s) \<Longrightarrow> sem_ok limit (snd (pz_threads s ! j)) (j \<in> H)"
    by (auto simp: sem_inv_def)
  have move: ?thesis if "i < length (pz_threads s)" "pz_threads s ! i = (n, Ask q f)"
    "respond disp limit q d s = Some (a, s')" for i n q f d a s'
    using that by (intro exI [of _ i] exI [of _ d]) simp
  show ?thesis
  proof (cases "\<exists>i n q f. i < length (pz_threads s) \<and> pz_threads s ! i = (n, Ask q f) \<and> q \<noteq> QAcquire")
    case True
    then show ?thesis using move respond_some by metis
  next
    case False
    have "j \<notin> H" if j: "j < length (pz_threads s)" for j
    proof (cases "pz_threads s ! j")
      case (Pair n p)
      with ok [OF j] False j show ?thesis by (cases p) (auto simp: sem_ok_def)
    qed
    with H(1) have "H = {}" by auto
    with H(2) have held: "pz_held s = 0" by simp
    from assms(2) obtain n q f where "(n, Ask q f) \<in> set (pz_threads s)"
      by (auto simp: all_returned_def list_all_iff split: prog.splits)
    then obtain i where i: "i < length (pz_threads s)" "pz_threads s ! i = (n, Ask q f)"
      by (auto simp: in_set_conv_nth)
    with False have q: "q = QAcquire" by auto
    have "0 < limit" using ok [OF i(1)] i(2) q by (simp add: sem_ok_def)
    then show ?thesis using move [OF i, of "DBool True"] held q by simp
  qed
qed

lemma runs_trans: "phase_runs disp limit s1 s2 \<Longrightarrow> phase_runs disp limit s0 s1 \<Longrightarrow> phase_runs disp limit s0 s2"
  by (induction rule: phase_runs.induct) (auto intro: phase_runs.intros)

lemma sem_inv_runs: "phase_runs disp limit s0 s \<Longrightarrow> sem_inv limit s0 \<Longrightarrow> sem_inv limit s"
  by (induction rule: phase_runs.induct) (auto intro: sem_inv_step)

lemma completes:
  assumes "sem_inv limit s"
  shows "\<exists>s'. phase_runs disp limit s s' \<and> all_returned s'"
  using assms
proof (induction s rule: wf_induct_rule [OF wf_phase_moves [of disp limit]])
  case (1 s)
  show ?case
  proof (cases "all_returned s")
    case True
    then show ?thesis using run_start by blast
  next
    case False
    from phase_progress [OF 1(2) False] obtain i d s1 where st: "phase_step disp limit (Advance i d) s = Some s1" by blast
    then have "(s1, s) \<in> phase_moves disp limit" unfolding phase_moves_def by blast
    from "1.IH" [OF this sem_inv_step [OF 1(2) st]] obtain s' where "phase_runs disp limit s1 s'" "all_returned s'" by blast
    moreover have "phase_runs disp limit s s1" using run_next [OF run_start st] .
    ultimately show ?thesis using runs_trans by blast
  qed
qed

section \<open>The goroutines release what they acquire\<close>

text \<open>Neither acquires nor releases, and calls writing providers only where no mode is set.\<close>

fun tame :: "renv \<Rightarrow> request \<Rightarrow> bool" where
  "tame env QAcquire = False"
| "tame env QRelease = False"
| "tame env (QInvoke c) = calls_read_only env (QInvoke c)"
| "tame env (QOnce k c) = calls_read_only env (QOnce k c)"
| "tame env _ = True"

lemma tame_plain: "tame env q \<Longrightarrow> plain_request q"
  by (cases q) auto

lemma step_tame: "step_request env q \<Longrightarrow> tame env q"
  by (cases q) auto

named_theorems plain_intros \<open>programs that neither acquire nor release\<close>

lemma plain_step [plain_intros]: "within (step_request env) p \<Longrightarrow> within (tame env) p"
  by (erule within_mono) (rule step_tame)

lemma plain_message [plain_intros]:
  "(\<And>m. within (tame env) (k m)) \<Longrightarrow> within (tame env) (resolveCustomErrorMessage env r err k)"
  by (auto simp: resolveCustomErrorMessage_def snapshot_def split: option.split sum.split gval.split)

lemma plain_finish [plain_intros]: "within (tame env) (finish_resolver env r res sk err)"
  by (auto simp: finish_resolver_def store_result_def Let_def within_doP split: option.split)

lemma plain_bind [plain_intros]:
  "within (step_request env) p \<Longrightarrow> (\<And>x. within (tame env) (k x)) \<Longrightarrow> within (tame env) (bindP p k)"
  by (rule within_bindP) (auto intro: plain_step)

lemma plain_fail [plain_intros]: "within (tame env) (fail_resolver env r res v e)"
  by (simp add: fail_resolver_def plain_intros)

lemma plain_size [plain_intros]: "within (tame env) (size_step env r res v)"
  by (auto simp: size_step_def intro!: plain_fail plain_finish)

lemma plain_validate [plain_intros]: "within (tame env) (validate_step env r res v)"
  by (auto simp: validate_step_def Let_def split: prod.split validation.split
      intro!: plain_bind plain_size plain_fail plain_message request_intros)

lemma plain_coerce [plain_intros]: "within (tame env) (coerce_step env r res ph v)"
  by (auto simp: coerce_step_def split: sum.split intro!: plain_validate plain_fail plain_message)

lemma plain_transform [plain_intros]: "within (tame env) (transform_step env r res v)"
  by (auto simp: transform_step_def Let_def split: prod.split sum.split
      intro!: plain_bind plain_coerce plain_fail plain_message request_intros)

lemma plain_resolve [plain_intros]: "within (tame env) (resolve_step env r res)"
  by (auto simp: resolve_step_def Let_def split: prod.split sum.split
      intro!: plain_bind plain_transform plain_fail plain_message request_intros)

lemma plain_when [plain_intros]: "within (tame env) (when_step env r res)"
  by (auto simp: when_step_def split: option.split sum.split bool.split
      intro!: plain_bind plain_resolve plain_fail plain_finish request_intros)

lemma plain_executeResolver [plain_intros]: "within (tame env) (executeResolver env r phase)"
  by (auto simp: executeResolver_def seeded_step_def use_seeded_def Let_def split: option.split
      intro!: plain_when plain_finish)

lemma plain_fail_goroutine [plain_intros]: "within (tame env) (fail_goroutine n k e)"
  by (simp add: fail_goroutine_def within_doP)

lemma plain_report [plain_intros]: "within (tame env) (report_resolver r out)"
  by (auto simp: report_resolver_def within_doP split: option.split intro!: plain_fail_goroutine)

lemma plain_run_resolver [plain_intros]: "within (tame env) (run_resolver env r phase)"
  by (auto simp: run_resolver_def intro!: within_bindP plain_report plain_executeResolver plain_fail_goroutine)

lemma sem_plain: "within (tame env) p \<Longrightarrow> (\<And>x. Q x h) \<Longrightarrow> wp (sem_protocol limit) p Q h"
  by (rule wp_quiet_any) (auto intro: within_mono plain_quiet tame_plain)

lemma sem_check_deps:
  "(\<And>b. wp (sem_protocol limit) (k b) Q h) \<Longrightarrow> wp (sem_protocol limit) (check_deps env ds k) Q h"
  by (induction ds) (auto split: option.split)

lemma sem_goroutine: "sem_ok (rx_maxConcurrency env) (resolver_goroutine env deps phase r) False"
proof -
  have "wp (sem_protocol (rx_maxConcurrency env)) (limited env r (run_resolver env r phase)) (\<lambda>_ h. \<not> h) False"
    unfolding limited_def
    by (auto simp: wp_bindP intro: sem_plain [OF plain_run_resolver] sem_plain [OF plain_fail_goroutine] simp: wp_doP)
  then show ?thesis
    unfolding sem_ok_def resolver_goroutine_def by (intro sem_check_deps) (simp add: wp_doP)
qed

lemma start_sem: "sem_inv (rx_maxConcurrency env) (start_phase env deps pg c)"
  unfolding sem_inv_def by (intro exI [of _ "{}"]) (auto simp: sem_goroutine)

text \<open>The programs of the goroutines in any configuration of a phase.\<close>

lemma within_check_deps: "(\<And>d. G (QFailed d)) \<Longrightarrow> (\<And>b. within G (k b)) \<Longrightarrow> within G (check_deps env ds k)"
  by (induction ds) (auto split: option.split)

lemma calls_goroutine: "within (calls_read_only env) (resolver_goroutine env deps phase r)"
proof -
  have "tame env q \<Longrightarrow> calls_read_only env q" for q by (cases q) auto
  then have "within (calls_read_only env) (run_resolver env r phase)" "within (calls_read_only env) (fail_goroutine n k e)" for n k e
    using within_mono [OF plain_run_resolver] within_mono [OF plain_fail_goroutine] by blast+
  then show ?thesis
    by (auto simp: resolver_goroutine_def limited_def within_doP intro!: within_check_deps within_bindP)
qed

lemma threads_within:
  assumes "phase_runs disp limit s0 s" "\<forall>(n, p) \<in> set (pz_threads s0). within G p"
  shows "\<forall>(n, p) \<in> set (pz_threads s). within G p"
  using assms
proof (induction rule: phase_runs.induct)
  case (run_next s m s')
  show ?case
  proof (cases m)
    case Expire
    with run_next show ?thesis by (auto split: if_splits)
  next
    case (Advance i d)
    with run_next(2) obtain n q f a s1 where i: "i < length (pz_threads s)" "pz_threads s ! i = (n, Ask q f)"
      and s': "s' = s1\<lparr>pz_threads := (pz_threads s)[i := (n, f a)]\<rparr>"
      using advance_cases by metis
    have "(n, Ask q f) \<in> set (pz_threads s)" using i by (metis nth_mem)
    then have "within G (f a)" using run_next by auto
    moreover have "set (pz_threads s') \<subseteq> insert (n, f a) (set (pz_threads s))"
      using set_update_subset_insert by (simp add: s')
    ultimately show ?thesis using run_next by auto
  qed
qed simp

section \<open>Completion\<close>

lemma phase_completes_from:
  assumes "resolver_run env (start_phase env deps pg c) s"
  shows "\<exists>s'. resolver_run env s s' \<and> resolver_run env (start_phase env deps pg c) s' \<and> all_returned s'"
  using completes [OF sem_inv_runs [OF assms [unfolded resolver_run_def] start_sem]] assms runs_trans
  unfolding resolver_run_def by blast

lemma executes_phases_exist: "\<exists>ca' e. executes_phases env deps pgs ca ca' e"
proof (induction pgs arbitrary: ca)
  case Nil
  then show ?case using phases_end by blast
next
  case (Cons pg pgs)
  obtain c a where ca: "ca = (c, a)" by (cases ca)
  have "resolver_run env (start_phase env deps pg c) (start_phase env deps pg c)"
    unfolding resolver_run_def by (rule run_start)
  from phase_completes_from [OF this] obtain s where s: "resolver_run env (start_phase env deps pg c) s" "all_returned s"
    by blast
  then obtain a' where p: "executes_phase env deps pg ca (pz_ctx s, a') (phase_failure (pz_sent s))"
    using phase_done [OF s refl] ca by blast
  show ?case
  proof (cases "phase_failure (pz_sent s) = None \<or> collectErrors env")
    case True
    then show ?thesis using Cons.IH phases_next [OF p True] by blast
  next
    case False
    then obtain e where "phase_failure (pz_sent s) = Some e" by auto
    with p False show ?thesis using phases_fail by (metis (no_types))
  qed
qed

lemma alone_exists:
  "within (tame env) p \<Longrightarrow> \<exists>x s'. alone disp p s x s'"
proof (induction p arbitrary: s)
  case (Ret x)
  show ?case by (intro exI) (rule alone_ret)
next
  case (Ask q f)
  then have "q \<noteq> QAcquire" by auto
  from respond_some [OF this, of disp 0 s] obtain d a s1 where r: "respond disp 0 q d s = Some (a, s1)" by blast
  have "within (tame env) (f a)" using Ask.prems by simp
  from Ask.IH [OF rangeI this, of s1] obtain x s' where "alone disp (f a) s1 x s'" by blast
  then show ?case by (intro exI) (rule alone_ask [OF r])
qed

lemma plain_usable: "(\<And>u. within (tame env) (k u)) \<Longrightarrow> within (tame env) (with_usable n k)"
  by (auto simp: with_usable_def split: option.split rstatus.split)

lemma plain_valueless: "(\<And>u. within (tame env) (k u)) \<Longrightarrow> within (tame env) (firstValuelessRef ns k)"
  by (induction ns) (auto intro!: plain_usable split: option.split)

lemma plain_deferred_rules: "within (tame env) (deferred_rules env r v rs ds fs)"
  by (induction rs arbitrary: ds fs) (auto simp: Let_def split: prod.split intro!: plain_bind request_intros)

lemma plain_deferred_resolver: "within (tame env) (deferred_resolver env u r p st)"
  by (auto simp: deferred_resolver_def Let_def split: prod.split option.split sum.split bool.split
      intro!: plain_usable plain_valueless within_bindP plain_deferred_rules plain_step [OF within_conditions(2)])

lemma plain_deferred_loop: "within (tame env) (deferred_loop env um rm ns st)"
  by (induction ns arbitrary: st) (auto split: option.split intro!: within_bindP plain_deferred_resolver)

lemma plain_deferred: "within (tame env) (runDeferredValidation env us rm)"
  by (simp add: runDeferredValidation_def Let_def plain_deferred_loop)

lemma executes_exist: "\<exists>c ds out. executes env rs params c ds out"
proof (cases "BuildPhasesWithCalls (de_pick (rx_deps env)) (rx_deps env) rs")
  case (Inl e)
  then show ?thesis using run_unplanned by blast
next
  case (Inr br)
  obtain c a e where p: "executes_phases env (br_deps br) (br_phases br) (initial_context env br params, no_errors) (c, a) e"
    using executes_phases_exist by (metis surj_pair)
  show ?thesis
  proof (cases e)
    case (Some x)
    then show ?thesis using run_failed [OF Inr] p by blast
  next
    case None
    obtain ds s where "alone (rx_attempts env) (runDeferredValidation env (br_deferred br) (resolver_map rs)) (after_phases c) ds s"
      using alone_exists [OF plain_deferred] by blast
    with None p show ?thesis using run_finished [OF Inr] run_deferred [OF Inr] by blast
  qed
qed

end
