(* ===== verification/Resolver_Props.thy ===== *)
theory Resolver_Props
  imports Resolver_Live
begin

text \<open>
  The properties of the resolver executor (\<open>pkg/resolver/executor.go\<close>), with sample runs.
\<close>

section \<open>Sample runs\<close>

fun play_phase ::
  "(provider_attempt list \<Rightarrow> gval) \<Rightarrow> nat \<Rightarrow> move list \<Rightarrow> phase_cfg \<Rightarrow> phase_cfg option" where
  "play_phase disp limit [] s = Some s"
| "play_phase disp limit (m # ms) s =
     (case phase_step disp limit m s of None \<Rightarrow> None | Some s' \<Rightarrow> play_phase disp limit ms s')"

lemma play_phase_runs:
  "play_phase disp limit ms s = Some s' \<Longrightarrow> phase_runs disp limit s0 s \<Longrightarrow> phase_runs disp limit s0 s'"
  by (induction ms arbitrary: s) (auto split: option.splits intro: run_next)

definition sample_renv :: renv where
  "sample_renv = \<lparr>rx_val = sample_val_env, rx_deps = sample_deps_env, rx_registry = (\<lambda>_. True),
     rx_write = (\<lambda>p. Some (\<lambda>opn. opn = ''delete'')), rx_calls = [], rx_coerce = (\<lambda>t v. Inr v),
     rx_json = (\<lambda>_. Inr ''{}''), rx_type = (\<lambda>_. ''any''), rx_show = (\<lambda>_. []), rx_ref_text = (\<lambda>_. ''reference error''),
     rx_call_text = (\<lambda>n _. n), rx_size = (\<lambda>_. 1), rx_attempts = (\<lambda>as. VInt (int (length as))),
     rx_iteration = (\<lambda>i r v. VList [VInt (int i), v]), rx_pointer = (\<lambda>v. v), rx_maxConcurrency = 0,
     rx_validateAll = False, rx_nonFatal = True, rx_skipValidation = False, rx_skipTransform = False,
     rx_deferred = True, rx_mocked = [], rx_seeded = [], rx_maxSize = 0\<rparr>"

definition play_sample :: "move list \<Rightarrow> phase_cfg \<Rightarrow> phase_cfg option" where
  "play_sample ms s = play_phase (rx_attempts sample_renv) (rx_maxConcurrency sample_renv) ms s"

lemma play_sample_run: "play_sample ms s = Some s' \<Longrightarrow> resolver_run sample_renv s s'"
  unfolding play_sample_def resolver_run_def by (erule play_phase_runs) (rule run_start)

text \<open>\<open>n\<close> moves of goroutine \<open>i\<close>, one of them a provider's result.\<close>

definition turns :: "nat \<Rightarrow> nat \<Rightarrow> move list" where
  "turns i n = replicate n (Advance i DNone)"

definition two_resolvers :: phase_group where
  "two_resolvers = \<lparr>pg_phase = 1, pg_resolvers =
     [sample_resolver ''a'' [] (RefLiteral (VInt 1)), sample_resolver ''b'' [] (RefLiteral (VInt 2))]\<rparr>"

definition swapped_moves :: "move list" where
  "swapped_moves = turns 0 3 @ [Advance 0 (DProv (Inl (plain_err ''refused'')))] @ turns 0 2 @
     turns 1 3 @ [Advance 1 (DProv (Inr (Some (VInt 2))))] @ turns 1 4 @ turns 0 4"

definition swapped_end :: phase_cfg where
  "swapped_end = the (play_sample swapped_moves (start_phase sample_renv [] two_resolvers rctx_New))"

definition attempts_of :: "phase_cfg \<Rightarrow> string \<Rightarrow> (rstatus \<times> string list) option" where
  "attempts_of s n = map_option (\<lambda>r. (rs_status r, map at_error (rs_attempts r))) (map_of (rc_results (pz_ctx s)) n)"

lemma swapped_facts:
  "case play_sample swapped_moves (start_phase sample_renv [] two_resolvers rctx_New) of
     None \<Rightarrow> False
   | Some s \<Rightarrow> all_returned s \<and> attempts_of s ''a'' = Some (RFailed, []) \<and>
       attempts_of s ''b'' = Some (RSuccess, [''refused''])"
  by code_simp

section \<open>Helper facts\<close>

lemma initial_coherent: "coherent (initial_context env br params)"
proof -
  have set: "coherent c \<Longrightarrow> coherent (fold (\<lambda>(k, v) c. rctx_Set k v c) ps c)" for ps c
    by (induction ps arbitrary: c) auto
  have mock: "coherent c \<Longrightarrow> coherent (fold (\<lambda>(n, v) c. rctx_SetResult n ((new_result 0)\<lparr>rs_value := v\<rparr>) c) ps c)" for ps c
    by (induction ps arbitrary: c) auto
  have seed: "coherent c \<Longrightarrow> coherent (inject_seeded ps c)" for ps c
    unfolding inject_seeded_def by (induction ps arbitrary: c) (auto split: option.split)
  have "coherent rctx_New" by (simp add: coherent_def rctx_New_def)
  then show ?thesis unfolding initial_context_def by (intro seed mock set coherent_Set)
qed

lemma concat_phase_names:
  assumes "BuildPhasesWithCalls pick env rs = Inr br"
  shows "set (concat (phase_names (br_phases br))) = set (names rs)"
  using phase_schedule_partition [OF BuildPhases_Inr(2) [OF assms]] by simp

lemma plan_separated:
  assumes ok: "BuildPhasesWithCalls pick env rs = Inr br" and pg: "pg \<in> set (br_phases br)"
  shows "separated (br_deps br) pg"
proof -
  have "layered deps pgs \<Longrightarrow> pg \<in> set pgs \<Longrightarrow> separated deps pg" for deps pgs
    by (induction pgs) auto
  with plan_layered [OF ok] pg show ?thesis by blast
qed

text \<open>What the iterations of a forEach return.\<close>

definition foreach_summary ::
  "renv \<Rightarrow> string \<Rightarrow> nat \<Rightarrow> provider_step \<Rightarrow> foreach_clause \<Rightarrow> gval list \<Rightarrow> ((rerror + gval) \<times> nat) list \<Rightarrow> (rerror + gval) \<times> nat"
where
  "foreach_summary env l i s fe items rs = (foreach_results env l i s fe items (map fst rs), sum_list (map snd rs))"

lemma yields_bind_any: "yields (\<lambda>x. yields P (k x)) p \<Longrightarrow> yields P (bindP p k)"
  by (simp add: yields_bindP)

lemma foreach_items_yields:
  assumes ne: "items \<noteq> []"
    and it: "\<And>j. j < length items \<Longrightarrow>
      yields (\<lambda>x. x \<in> R j) (foreach_iteration env sx s self (iteration_of fe (j, items ! j)))"
  shows "yields (\<lambda>out. \<exists>rs. list_all2 (\<lambda>j x. x \<in> R j) [0..<length items] rs \<and> out = foreach_summary env l i s fe items rs)
     (foreach_items env sx l i s fe self (VList items))"
proof -
  let ?ps = "map (\<lambda>iv. foreach_iteration env sx s self (iteration_of fe iv)) (List.enumerate 0 items)"
  let ?Rs = "map (\<lambda>j x. x \<in> R j) [0..<length items]"
  have "list_all2 (\<lambda>P p. yields P p) ?Rs ?ps"
    using it by (auto simp: list_all2_conv_all_nth nth_enumerate_eq)
  from yields_go_all [OF this, of "fe_concurrency fe"]
  have "yields (\<lambda>rs. list_all2 (\<lambda>j x. x \<in> R j) [0..<length items] rs) (go_all (fe_concurrency fe) ?ps)"
    by (simp add: list_all2_map1)
  then have "yields (\<lambda>rs. \<exists>rs'. list_all2 (\<lambda>j x. x \<in> R j) [0..<length items] rs' \<and>
      (foreach_results env l i s fe items (map fst rs), sum_list (map snd rs)) = foreach_summary env l i s fe items rs')
    (go_all (fe_concurrency fe) ?ps)"
    by (rule yields_mono) (auto simp: foreach_summary_def)
  then show ?thesis
    using ne by (cases items) (simp_all add: foreach_items_def toSlice_def yields_bindP)
qed

text \<open>The messages of the failures of a sensitive resolver.\<close>

definition redacted :: "vfailure \<Rightarrow> bool" where
  "redacted f = (vf_message f = ''[REDACTED]'' \<and> vf_sensitive f)"

definition rule_redacted_post :: "nat \<times> (rerror + vfailure option) \<Rightarrow> bool" where
  "rule_redacted_post x = (case snd x of Inr (Some f) \<Rightarrow> redacted f | _ \<Rightarrow> True)"

lemma yields_rule_message: "(\<And>m. yields P (k m)) \<Longrightarrow> yields P (rule_message env ref u d k)"
  by (auto simp: rule_message_def snapshot_def split: option.split sum.split gval.split)

lemma run_rule_redacted: "yields rule_redacted_post (run_rule env i True v u)"
  unfolding run_rule_def
  by (rule yields_bind_any, rule yields_UNIV)
    (auto simp: rule_redacted_post_def redacted_def redactForLog_def split: sum.split intro!: yields_rule_message)

lemma yields_condition:
  "(\<And>r. yields P (k r)) \<Longrightarrow> yields P (bindP (evaluateConditionWithSelf env c u) k)"
  by (rule yields_bind_any) (rule yields_UNIV)

lemma rule_redacted: "yields rule_redacted_post (evaluateValidationRule env i True v u)"
  unfolding evaluateValidationRule_def
  by (auto split: option.split sum.split bool.split intro!: run_rule_redacted yields_condition)
    (simp_all add: rule_redacted_post_def)

lemma inline_redacted:
  "list_all redacted fs \<Longrightarrow>
   yields (\<lambda>x. case snd x of Invalid gs \<Rightarrow> list_all redacted gs | _ \<Rightarrow> True) (inline_rules env True u rs n fs)"
proof (induction rs arbitrary: n fs)
  case (Cons iv rs)
  obtain i v where iv: "iv = (i, v)" by (cases iv)
  show ?case unfolding iv inline_rules.simps
  proof (rule yields_bind_any, rule yields_mono [OF rule_redacted [of env i v u]])
    fix x :: "nat \<times> (rerror + vfailure option)"
    assume x: "rule_redacted_post x"
    show "yields (\<lambda>x. case snd x of Invalid gs \<Rightarrow> list_all redacted gs | _ \<Rightarrow> True)
        (case x of (k, r) \<Rightarrow> (case r of Inl e \<Rightarrow> Ret (n + k, ValidationBroken e)
           | Inr f \<Rightarrow> inline_rules env True u rs (n + k) (fs @ (case f of None \<Rightarrow> [] | Some y \<Rightarrow> [y]))))"
      using x Cons.IH Cons.prems by (auto simp: rule_redacted_post_def split: prod.split sum.split option.split)
  qed
qed simp

section \<open>Properties\<close>

definition sample_rs :: "resolver list" where
  "sample_rs = [sample_resolver ''b'' [] (RefResolver ''a''), sample_resolver ''a'' [] (RefLiteral (VInt 1))]"

definition sample_br :: build_result where
  "sample_br = projr (BuildPhasesWithCalls (de_pick (rx_deps sample_renv)) (rx_deps sample_renv) sample_rs)"

definition sample_pg :: "nat \<Rightarrow> phase_group" where
  "sample_pg i = br_phases sample_br ! i"

definition sample_c0 :: rctx where
  "sample_c0 = initial_context sample_renv sample_br []"

definition play_from :: "nat \<Rightarrow> rctx \<Rightarrow> move list \<Rightarrow> phase_cfg option" where
  "play_from i c ms = play_sample ms (start_phase sample_renv (br_deps sample_br) (sample_pg i) c)"

lemma play_from_run:
  "play_from i c ms = Some s \<Longrightarrow> resolver_run sample_renv (start_phase sample_renv (br_deps sample_br) (sample_pg i) c) s"
  unfolding play_from_def by (rule play_sample_run)

lemma sample_plan:
  "BuildPhasesWithCalls (de_pick (rx_deps sample_renv)) (rx_deps sample_renv) sample_rs = Inr sample_br"
proof -
  have "\<not> isl (BuildPhasesWithCalls (de_pick (rx_deps sample_renv)) (rx_deps sample_renv) sample_rs)" by code_simp
  then show ?thesis unfolding sample_br_def by (rule Inr_projr)
qed

lemma sample_phases: "br_phases sample_br = [sample_pg 0, sample_pg 1]"
proof -
  have "length (br_phases sample_br) = 2" by code_simp
  then obtain p q where "br_phases sample_br = [p, q]"
    by (metis (no_types) One_nat_def Suc_1 length_0_conv length_Suc_conv)
  then show ?thesis by (simp add: sample_pg_def)
qed

definition ok_moves :: "nat \<Rightarrow> gval \<Rightarrow> move list" where
  "ok_moves n v = turns 0 n @ [Advance 0 (DProv (Inr (Some v)))] @ turns 0 3"

definition sample_s1 :: phase_cfg where
  "sample_s1 = the (play_from 0 sample_c0 (ok_moves 3 (VInt 1)))"

definition sample_s2 :: phase_cfg where
  "sample_s2 = the (play_from 1 (pz_ctx sample_s1) (ok_moves 4 (VInt 2)))"

lemma some_the: "(case x of None \<Rightarrow> False | Some s \<Rightarrow> P s) \<Longrightarrow> x = Some (the x) \<and> P (the x)"
  by (cases x) auto

lemma sample_s1_facts:
  "play_from 0 sample_c0 (ok_moves 3 (VInt 1)) = Some sample_s1"
  "all_returned sample_s1" "phase_failure (pz_sent sample_s1) = None"
proof -
  have "case play_from 0 sample_c0 (ok_moves 3 (VInt 1)) of None \<Rightarrow> False
    | Some s \<Rightarrow> all_returned s \<and> phase_failure (pz_sent s) = None" by code_simp
  from some_the [OF this] show "play_from 0 sample_c0 (ok_moves 3 (VInt 1)) = Some sample_s1"
    "all_returned sample_s1" "phase_failure (pz_sent sample_s1) = None" by (simp_all add: sample_s1_def)
qed

lemma sample_s2_facts:
  "play_from 1 (pz_ctx sample_s1) (ok_moves 4 (VInt 2)) = Some sample_s2"
  "all_returned sample_s2" "phase_failure (pz_sent sample_s2) = None"
  "map_option rs_value (map_of (rc_results (pz_ctx sample_s2)) ''b'') = Some (VInt 2)"
proof -
  have "case play_from 1 (pz_ctx sample_s1) (ok_moves 4 (VInt 2)) of None \<Rightarrow> False
    | Some s \<Rightarrow> all_returned s \<and> phase_failure (pz_sent s) = None \<and>
        map_option rs_value (map_of (rc_results (pz_ctx s)) ''b'') = Some (VInt 2)" by code_simp
  from some_the [OF this] show "play_from 1 (pz_ctx sample_s1) (ok_moves 4 (VInt 2)) = Some sample_s2"
    "all_returned sample_s2" "phase_failure (pz_sent sample_s2) = None"
    "map_option rs_value (map_of (rc_results (pz_ctx sample_s2)) ''b'') = Some (VInt 2)" by (simp_all add: sample_s2_def)
qed

lemma sample_execution:
  "\<exists>a. executes_phases sample_renv (br_deps sample_br) (br_phases sample_br) (sample_c0, no_errors) (pz_ctx sample_s2, a) None"
proof -
  note p1 = phase_done [OF play_from_run [OF sample_s1_facts(1)] sample_s1_facts(2) refl, where a = no_errors]
  note p2 = phase_done [OF play_from_run [OF sample_s2_facts(1)] sample_s2_facts(2) refl]
  show ?thesis unfolding sample_phases
    by (intro exI) (rule phases_next [OF p1 _ phases_next [OF p2 _ phases_end]];
      simp add: sample_s1_facts(3) sample_s2_facts(3))
qed

text \<open>C5: When the phases of a planned run are over, every resolver has reported one outcome: it was skipped
  because of a dependency exactly when errors are collected and a dependency failed without a
  usable value; a failure is recorded with the kind of its error and its result is stored as
  failed, or it never started because of the deadline; a success has stored a successful result;
  a resolver skipped by its condition has stored nothing.  Without collecting errors nothing has
  failed.  The data map shows the value of every stored result, and nothing else was touched.\<close>

theorem run_reports_every_resolver:
  assumes "BuildPhasesWithCalls (de_pick (rx_deps env)) (rx_deps env) rs = Inr br"
    and "executes_phases env (br_deps br) (br_phases br) (initial_context env br params, no_errors) (c, a) None"
  shows "(\<forall>n \<in> set (names rs). \<exists>msg. resolver_meaning env (br_deps br) (initial_context env br params) c n msg \<and>
            (collectErrors env \<or> (\<forall>e. msg \<noteq> OErr e))) \<and>
         coherent c \<and> outside_unchanged (set (names rs)) (initial_context env br params) c"
  using phases_meaning [OF assms(2) plan_layered [OF assms(1)]] initial_coherent [of env br params]
  unfolding concat_phase_names [OF assms(1)] by auto

theorem run_reports_every_resolver_witness:
  "map_of (rc_data (pz_ctx sample_s2)) ''b'' = Some (CVal (VInt 2))"
proof -
  from sample_execution obtain a where
    "executes_phases sample_renv (br_deps sample_br) (br_phases sample_br) (initial_context sample_renv sample_br [], no_errors)
       (pz_ctx sample_s2, a) None" by (auto simp: sample_c0_def)
  from run_reports_every_resolver [OF sample_plan this] have "coherent (pz_ctx sample_s2)" by blast
  with sample_s2_facts(4) show ?thesis by (auto simp: coherent_def)
qed

text \<open>C6: While a phase of the plan runs, in every interleaving of its goroutines, nothing outside the phase's own
  resolvers changes but the list of failed attempts; the dependencies of its resolvers are outside, so
  every read of a dependency sees the same final value.\<close>

theorem dependencies_are_stable:
  assumes "BuildPhasesWithCalls pick denv rs = Inr br" "pg \<in> set (br_phases br)"
    and "resolver_run env (start_phase env (br_deps br) pg c) s"
  shows "outside_unchanged (set (names (pg_resolvers pg))) c (pz_ctx s) \<and>
    (\<forall>n \<in> set (names (pg_resolvers pg)). phase_deps br n \<inter> set (names (pg_resolvers pg)) = {})"
  using phase_frame [OF assms(3) plan_separated [OF assms(1,2)]] plan_separated [OF assms(1,2)]
  by (auto simp: separated_def names_def phase_deps_def deps_of_def)

theorem dependencies_are_stable_witness:
  "map_of (rc_results (pz_ctx sample_s1)) ''b'' = map_of (rc_results sample_c0) ''b''"
proof -
  have "names (pg_resolvers (sample_pg 0)) = [''a'']" by code_simp
  moreover have "sample_pg 0 \<in> set (br_phases sample_br)" by (simp add: sample_phases)
  ultimately show ?thesis
    using dependencies_are_stable [OF sample_plan _ play_from_run [OF sample_s1_facts(1)]]
    by (simp add: outside_unchanged_def)
qed



text \<open>Every set of resolvers can be executed to an outcome.\<close>

theorem resolver_run_completes: "\<exists>c ds out. executes env rs params c ds out"
  by (rule executes_exist)

text \<open>The results of a forEach do not depend on the schedule of its iterations: if every iteration can only
  end with the one result given for its index, the loop can only end with the results in the order
  of the items.\<close>

theorem foreach_keeps_order:
  assumes "items \<noteq> []"
    and "\<forall>j < length items. yields (\<lambda>x. x = f j) (foreach_iteration env sx s self (iteration_of fe (j, items ! j)))"
  shows "yields (\<lambda>out. out = foreach_summary env l i s fe items (map f [0..<length items]))
     (foreach_items env sx l i s fe self (VList items))"
proof -
  have "yields (\<lambda>out. \<exists>rs. list_all2 (\<lambda>j x. x \<in> {f j}) [0..<length items] rs \<and> out = foreach_summary env l i s fe items rs)
     (foreach_items env sx l i s fe self (VList items))"
    by (rule foreach_items_yields) (use assms in auto)
  then show ?thesis
  proof (rule yields_mono)
    fix out assume "\<exists>rs. list_all2 (\<lambda>j x. x \<in> {f j}) [0..<length items] rs \<and> out = foreach_summary env l i s fe items rs"
    then obtain rs where rs: "list_all2 (\<lambda>j x. x \<in> {f j}) [0..<length items] rs" and out: "out = foreach_summary env l i s fe items rs"
      by blast
    from rs have "rs = map f [0..<length items]" by (auto simp: list_all2_conv_all_nth intro: nth_equalityI)
    with out show "out = foreach_summary env l i s fe items (map f [0..<length items])" by simp
  qed
qed

definition no_registry :: renv where
  "no_registry = sample_renv\<lparr>rx_registry := (\<lambda>_. False)\<rparr>"

definition sample_clause :: foreach_clause where
  "sample_clause = \<lparr>fe_item = [], fe_index = [], fe_in = None, fe_concurrency = 1, fe_keepSkipped = False,
     fe_continueOnError = None, fe_onError = OnErrorUnset\<rparr>"

theorem foreach_keeps_order_witness:
  "yields (\<lambda>out. out = foreach_summary no_registry ''step'' 0 (sample_step (RefLiteral (VInt 1))) sample_clause [VNil, VNil]
       [(no_provider ''p'', 1), (no_provider ''p'', 1)])
     (foreach_items no_registry \<lparr>sx_mode = ModeTransform, sx_scalar = None\<rparr> ''step'' 0 (sample_step (RefLiteral (VInt 1)))
       sample_clause VNil (VList [VNil, VNil]))"
proof -
  have "foreach_iteration no_registry \<lparr>sx_mode = ModeTransform, sx_scalar = None\<rparr> (sample_step (RefLiteral (VInt 1))) VNil ic =
      Ret (no_provider ''p'', 1)" for ic
    by (simp add: foreach_iteration_def sample_step_def evaluateConditionWithIteration_def runStepProvider_def
        executeProvider_def no_registry_def)
  then show ?thesis
    using foreach_keeps_order [of "[VNil, VNil]" "\<lambda>_. (no_provider ''p'', 1)" no_registry
        "\<lparr>sx_mode = ModeTransform, sx_scalar = None\<rparr>" "sample_step (RefLiteral (VInt 1))" VNil sample_clause "''step''" 0]
    by simp
qed


definition asking :: "phase_cfg \<Rightarrow> request option" where
  "asking s = (case pz_threads s of (n, Ask q f) # _ \<Rightarrow> Some q | _ \<Rightarrow> None)"


definition delete_rule :: provider_validation where
  "delete_rule = \<lparr>s_call = [], s_args = [], s_provider = ''p'', s_inputs = [(''operation'', Some (RefLiteral (VStr ''delete'')))],
     s_when = None, s_message = None\<rparr>"

text \<open>A validation rule is run with no execution mode, so its provider is called with a write operation that the
  other phases refuse.\<close>

theorem validation_may_write:
  "\<exists>k g c. evaluateValidationRule sample_renv 0 False delete_rule VNil = Ask QSnapshot k \<and>
     k (PData []) = Ask (QInvoke c) g \<and> write_operation sample_renv c"
  by (simp add: evaluateValidationRule_def run_rule_def delete_rule_def runStepProvider_def executeProvider_def
      snapshot_def invoke_def prepare_call_def ValidateWriteOperation_def sample_renv_def write_operation_def)

text \<open>Every validation failure of a sensitive resolver carries the redacted message.\<close>

theorem sensitive_messages_redacted:
  "yields (\<lambda>x. case snd x of Invalid fs \<Rightarrow> list_all redacted fs | _ \<Rightarrow> True)
     (executeValidatePhase env n True ph v)"
  unfolding executeValidatePhase_def Let_def
  by (auto split: option.split sum.split bool.split intro!: inline_redacted yields_condition)

text \<open>A value found is returned whatever the \<open>until\<close> condition says: it can only turn success into an error of its
  own evaluation, never continue with the next source.\<close>

theorem until_is_ignored:
  "yields (\<lambda>x. snd x = calls \<and> (fst x = Inr v \<or>
       (\<exists>e. fst x = Inl (wrap_err ''until condition evaluation failed: '' e)))) (source_success env until v calls)"
  unfolding source_success_def by (auto split: option.split sum.split intro!: yields_condition)

text \<open>The list of failed attempts is shared by the goroutines of a phase: in this run the failed resolver loses its
  attempt and the successful one reports it.\<close>

theorem attempts_can_be_swapped:
  "\<exists>s. resolver_run sample_renv (start_phase sample_renv [] two_resolvers rctx_New) s \<and> all_returned s \<and>
     attempts_of s ''a'' = Some (RFailed, []) \<and> attempts_of s ''b'' = Some (RSuccess, [''refused''])"
  using some_the [OF swapped_facts] play_sample_run by blast

definition nested_error :: rerror where
  "nested_error = \<lparr>xr_msg = ''nested'', xr_agg = True, xr_exec = None\<rparr>"

definition nested_moves :: "move list" where
  "nested_moves = turns 0 3 @ [Advance 0 (DProv (Inl nested_error))] @ turns 0 7"

definition nested_s1 :: phase_cfg where
  "nested_s1 = the (play_from 0 sample_c0 nested_moves)"

lemma nested_s1_facts:
  "play_from 0 sample_c0 nested_moves = Some nested_s1" "all_returned nested_s1"
  "map_of (rc_failed (pz_ctx nested_s1)) ''a'' = Some failureValidation"
proof -
  have "case play_from 0 sample_c0 nested_moves of None \<Rightarrow> False
    | Some s \<Rightarrow> all_returned s \<and> map_of (rc_failed (pz_ctx s)) ''a'' = Some failureValidation" by code_simp
  from some_the [OF this] show "play_from 0 sample_c0 nested_moves = Some nested_s1" "all_returned nested_s1"
    "map_of (rc_failed (pz_ctx nested_s1)) ''a'' = Some failureValidation" by (simp_all add: nested_s1_def)
qed

definition asks_with_nil :: "phase_cfg \<Rightarrow> bool" where
  "asks_with_nil s = (case asking s of Some (QInvoke c) \<Rightarrow> pc_inputs c = [(''v'', VNil)] | _ \<Rightarrow> False)"

text \<open>A resolver whose provider returned the validation error of a nested run is recorded as a validation failure, as
  if it had a value; with non-fatal validation its dependent then runs and reads nil.\<close>

theorem nested_failure_feeds_nil:
  "\<exists>s1 s2. resolver_run sample_renv (start_phase sample_renv (br_deps sample_br) (sample_pg 0) sample_c0) s1 \<and>
     all_returned s1 \<and> map_of (rc_failed (pz_ctx s1)) ''a'' = Some failureValidation \<and>
     resolver_run sample_renv (start_phase sample_renv (br_deps sample_br) (sample_pg 1) (pz_ctx s1)) s2 \<and>
     asks_with_nil s2"
proof -
  have "case play_from 1 (pz_ctx nested_s1) (turns 0 4) of None \<Rightarrow> False | Some s \<Rightarrow> asks_with_nil s" by code_simp
  from some_the [OF this] show ?thesis using nested_s1_facts play_from_run by blast
qed

end
