(* ===== verification/Cycle_Search.thy ===== *)
theory Cycle_Search
  imports Dag
begin

text \<open>
  \<open>findCycle\<close> of \<open>pkg/action/validation.go\<close>: depth-first search for a cycle in the \<open>dependsOn\<close>
  relation of a section.

  The closure \<open>dfs\<close> recurses once per unvisited node; \<open>d\<close> is the depth still allowed, and the
  number of names in the graph is enough (\<open>search_node_spec\<close>).  The result of a call is the cycle it
  found, if any, with the maps \<open>state\<close> (0 unvisited, 1 visiting, 2 visited) and \<open>parent\<close>.
\<close>

record cycle_state =
  cy_state :: "nat gomap"
  cy_parent :: "string gomap"

text \<open>The loop over the parents, from the node to the dependency that closes the cycle.\<close>

fun unwind :: "nat \<Rightarrow> string gomap \<Rightarrow> string \<Rightarrow> string \<Rightarrow> string list \<Rightarrow> string list" where
  "unwind 0 par cur dep cyc = cyc"
| "unwind (Suc d) par cur dep cyc =
     (if cur = dep then cyc else unwind d par (map_get [] par cur) dep (cur # cyc))"

definition cycle_path :: "nat \<Rightarrow> string gomap \<Rightarrow> string \<Rightarrow> string \<Rightarrow> string list" where
  "cycle_path d par node dep = unwind d par node dep [dep] @ [dep]"

fun search_node :: "nat \<Rightarrow> string list gomap \<Rightarrow> nat \<Rightarrow> string \<Rightarrow> cycle_state \<Rightarrow> string list option \<times> cycle_state"
and search_deps :: "nat \<Rightarrow> string list gomap \<Rightarrow> nat \<Rightarrow> string \<Rightarrow> string list \<Rightarrow> cycle_state \<Rightarrow> string list option \<times> cycle_state"
where
  "search_node N deps 0 node st = (None, st)"
| "search_node N deps (Suc d) node st =
     (let st = st\<lparr>cy_state := map_put node 1 (cy_state st)\<rparr> in
      (case search_deps N deps d node (map_get [] deps node) st of
         (Some c, st) \<Rightarrow> (Some c, st)
       | (None, st) \<Rightarrow> (None, st\<lparr>cy_state := map_put node 2 (cy_state st)\<rparr>)))"
| "search_deps N deps d node [] st = (None, st)"
| "search_deps N deps d node (dep # ds) st =
     (if map_get 0 (cy_state st) dep = 1 then (Some (cycle_path N (cy_parent st) node dep), st)
      else if map_get 0 (cy_state st) dep = 0
      then (let st = st\<lparr>cy_parent := map_put dep node (cy_parent st)\<rparr> in
            (case search_node N deps d dep st of
               (Some c, st) \<Rightarrow> (Some c, st)
             | (None, st) \<Rightarrow> search_deps N deps d node ds st))
      else search_deps N deps d node ds st)"

fun search_all :: "nat \<Rightarrow> string list gomap \<Rightarrow> string list \<Rightarrow> cycle_state \<Rightarrow> string list option" where
  "search_all N deps [] st = None"
| "search_all N deps (n # ns) st =
     (if map_get 0 (cy_state st) n = 0
      then (case search_node N deps N n st of
              (Some c, st) \<Rightarrow> Some c
            | (None, st) \<Rightarrow> search_all N deps ns st)
      else search_all N deps ns st)"

definition graph_names :: "string list gomap \<Rightarrow> string list" where
  "graph_names deps = remdups (map_keys deps @ concat (map snd deps))"

definition findCycle :: "string list gomap \<Rightarrow> string list option" where
  "findCycle deps =
     search_all (length (graph_names deps)) deps (map_keys deps) \<lparr>cy_state = [], cy_parent = []\<rparr>"

section \<open>What the search establishes\<close>

definition dep_relation :: "string list gomap \<Rightarrow> (string \<times> string) set" where
  "dep_relation deps = {(a, b). b \<in> set (map_get [] deps a)}"

definition seen :: "cycle_state \<Rightarrow> string set" where
  "seen st = {x. map_get 0 (cy_state st) x = 2}"

definition parents_follow :: "string gomap \<Rightarrow> string list \<Rightarrow> bool" where
  "parents_follow par path = successively (\<lambda>x y. map_get [] par x = y) path"

text \<open>\<open>path\<close> is the stack of the open calls, the innermost first.\<close>

definition cycle_inv :: "string list gomap \<Rightarrow> string list \<Rightarrow> cycle_state \<Rightarrow> bool" where
  "cycle_inv deps path st =
     ((\<forall>x. map_get 0 (cy_state st) x = 1 \<longleftrightarrow> x \<in> set path) \<and> distinct path \<and>
      set path \<subseteq> set (graph_names deps) \<and>
      (\<forall>x \<in> seen st. \<forall>y. (x, y) \<in> dep_relation deps \<longrightarrow> y \<in> seen st) \<and>
      acyclic (dep_relation deps \<inter> seen st \<times> UNIV) \<and>
      parents_follow (cy_parent st) path \<and> successively (\<lambda>x y. (y, x) \<in> dep_relation deps) path \<and>
      (\<forall>x. map_get 0 (cy_state st) x \<le> 2))"

text \<open>What is reported: the way round a cycle after its first node, and that node twice.\<close>

definition reported_cycle :: "string list gomap \<Rightarrow> string list \<Rightarrow> bool" where
  "reported_cycle deps c =
     (\<exists>dep ys. c = ys @ [dep, dep] \<and> successively (\<lambda>x y. (x, y) \<in> dep_relation deps) (dep # ys @ [dep]))"

lemma cycle_invD:
  assumes "cycle_inv deps path st"
  shows "map_get 0 (cy_state st) x = 1 \<longleftrightarrow> x \<in> set path" "distinct path" "set path \<subseteq> set (graph_names deps)"
    "x \<in> seen st \<Longrightarrow> (x, y) \<in> dep_relation deps \<Longrightarrow> y \<in> seen st" "acyclic (dep_relation deps \<inter> seen st \<times> UNIV)"
    "parents_follow (cy_parent st) path" "successively (\<lambda>x y. (y, x) \<in> dep_relation deps) path"
    "map_get 0 (cy_state st) x \<le> 2"
  using assms unfolding cycle_inv_def by blast+

lemma unwind_follows:
  assumes "parents_follow par (pre @ dep # post)" "distinct (pre @ dep # post)" "length pre < d"
  shows "unwind d par (hd (pre @ [dep])) dep cyc = rev pre @ cyc"
  using assms
proof (induction pre arbitrary: d cyc)
  case Nil
  then show ?case by (cases d) auto
next
  case (Cons x pre)
  obtain d' where d: "d = Suc d'" using Cons.prems(3) by (cases d) auto
  have next_parent: "map_get [] par x = hd (pre @ [dep])"
    using Cons.prems(1) by (cases pre) (auto simp: parents_follow_def)
  have "parents_follow par (pre @ dep # post)"
    using Cons.prems(1) by (cases pre) (auto simp: parents_follow_def)
  from Cons.IH [OF this, of d' "x # cyc"] Cons.prems show ?case by (simp add: d next_parent)
qed

lemma successively_rev_path:
  "successively (\<lambda>x y. (y, x) \<in> E) path = successively (\<lambda>x y. (x, y) \<in> E) (rev path)"
  by (simp add: successively_rev)

lemma names_of_deps: "(x, y) \<in> dep_relation deps \<Longrightarrow> y \<in> set (graph_names deps)"
proof -
  assume "(x, y) \<in> dep_relation deps"
  then obtain ds where "map_of deps x = Some ds" "y \<in> set ds"
    by (cases "map_of deps x") (auto simp: dep_relation_def map_get_def)
  hence "(x, ds) \<in> set deps" "y \<in> set ds" by (auto dest: map_of_SomeD)
  thus ?thesis by (force simp: graph_names_def)
qed

lemma distinct_names: "distinct xs \<Longrightarrow> set xs \<subseteq> set (graph_names deps) \<Longrightarrow> length xs \<le> length (graph_names deps)"
  using card_mono [of "set (graph_names deps)" "set xs"] distinct_card [of "graph_names deps"]
  by (simp add: distinct_card graph_names_def)

lemma close_cycle:
  assumes inv: "cycle_inv deps (node # path) st" and e: "(node, dep) \<in> dep_relation deps"
    and grey: "map_get 0 (cy_state st) dep = 1" and N: "N = length (graph_names deps)"
  shows "reported_cycle deps (cycle_path N (cy_parent st) node dep)"
proof -
  have "dep \<in> set (node # path)" using cycle_invD(1) [OF inv] grey by blast
  then obtain pre post where split: "node # path = pre @ dep # post" by (meson split_list)
  have dist: "distinct (pre @ dep # post)" using cycle_invD(2) [OF inv] split by simp
  have "length (node # path) \<le> N"
    unfolding N using cycle_invD(2,3) [OF inv] by (rule distinct_names)
  hence short: "length pre < N" using arg_cong [OF split, of length] by simp
  have node: "node = hd (pre @ [dep])" using arg_cong [OF split, of hd] by (cases pre) auto
  have "parents_follow (cy_parent st) (pre @ dep # post)" using cycle_invD(6) [OF inv] split by simp
  from unwind_follows [OF this dist short, of "[dep]"]
  have path: "cycle_path N (cy_parent st) node dep = rev pre @ [dep, dep]" by (simp add: cycle_path_def node)
  have "successively (\<lambda>x y. (x, y) \<in> dep_relation deps) (rev post @ dep # rev pre)"
    using cycle_invD(7) [OF inv] unfolding split successively_rev_path by simp
  hence "successively (\<lambda>x y. (x, y) \<in> dep_relation deps) (dep # rev pre)"
    by (simp add: successively_append_iff)
  moreover have "last (dep # rev pre) = node" using node by (cases pre) auto
  ultimately have "successively (\<lambda>x y. (x, y) \<in> dep_relation deps) ((dep # rev pre) @ [dep])"
    using e unfolding successively_append_iff by simp
  thus ?thesis unfolding reported_cycle_def path by (intro exI [of _ dep] exI [of _ "rev pre"]) simp
qed


lemma push_node:
  assumes inv: "cycle_inv deps path st" and fresh: "map_get 0 (cy_state st) node = 0"
    and name: "node \<in> set (graph_names deps)"
    and link: "path \<noteq> [] \<Longrightarrow> map_get [] (cy_parent st) node = hd path \<and> (hd path, node) \<in> dep_relation deps"
  shows "cycle_inv deps (node # path) (st\<lparr>cy_state := map_put node 1 (cy_state st)\<rparr>)"
    "seen (st\<lparr>cy_state := map_put node 1 (cy_state st)\<rparr>) = seen st"
proof -
  show seen: "seen (st\<lparr>cy_state := map_put node 1 (cy_state st)\<rparr>) = seen st" using fresh by (auto simp: seen_def)
  have new: "node \<notin> set path" using cycle_invD(1) [OF inv, of node] fresh by simp
  show "cycle_inv deps (node # path) (st\<lparr>cy_state := map_put node 1 (cy_state st)\<rparr>)"
    using inv new name link unfolding cycle_inv_def seen
    by (cases path) (auto simp: parents_follow_def)
qed

lemma pop_node:
  assumes inv: "cycle_inv deps (node # path) st" and all: "set (map_get [] deps node) \<subseteq> seen st"
  shows "cycle_inv deps path (st\<lparr>cy_state := map_put node 2 (cy_state st)\<rparr>)"
    "seen (st\<lparr>cy_state := map_put node 2 (cy_state st)\<rparr>) = insert node (seen st)"
proof -
  show seen: "seen (st\<lparr>cy_state := map_put node 2 (cy_state st)\<rparr>) = insert node (seen st)" by (auto simp: seen_def)
  have grey: "map_get 0 (cy_state st) node = 1" using cycle_invD(1) [OF inv] by simp
  hence "node \<notin> seen st" by (simp add: seen_def)
  moreover have out: "\<forall>d. (node, d) \<in> dep_relation deps \<longrightarrow> d \<in> seen st" using all by (auto simp: dep_relation_def)
  ultimately have ac: "acyclic (dep_relation deps \<inter> insert node (seen st) \<times> UNIV)"
    using cycle_invD(4,5) [OF inv] by (intro acyclic_add_sink) auto
  have suc: "parents_follow (cy_parent st) path" "successively (\<lambda>x y. (y, x) \<in> dep_relation deps) path"
    using cycle_invD(6,7) [OF inv] by (cases path; simp add: parents_follow_def)+
  have dist: "node \<notin> set path" "distinct path" using cycle_invD(2) [OF inv] by simp_all
  show "cycle_inv deps path (st\<lparr>cy_state := map_put node 2 (cy_state st)\<rparr>)"
    unfolding cycle_inv_def seen
  proof (intro conjI)
    show "\<forall>x. (map_get 0 (cy_state (st\<lparr>cy_state := map_put node 2 (cy_state st)\<rparr>)) x = 1) = (x \<in> set path)"
      using cycle_invD(1) [OF inv] dist by auto
    show "set path \<subseteq> set (graph_names deps)" using cycle_invD(3) [OF inv] by simp
    show "\<forall>x \<in> insert node (seen st). \<forall>y. (x, y) \<in> dep_relation deps \<longrightarrow> y \<in> insert node (seen st)"
      using cycle_invD(4) [OF inv] out by blast
    show "\<forall>x. map_get 0 (cy_state (st\<lparr>cy_state := map_put node 2 (cy_state st)\<rparr>)) x \<le> 2"
      using cycle_invD(8) [OF inv] by simp
  qed (use ac suc dist in simp_all)
qed

lemma set_parent:
  assumes inv: "cycle_inv deps path st" and fresh: "map_get 0 (cy_state st) x = 0"
  shows "cycle_inv deps path (st\<lparr>cy_parent := map_put x n (cy_parent st)\<rparr>)"
    "seen (st\<lparr>cy_parent := map_put x n (cy_parent st)\<rparr>) = seen st"
proof -
  show seen: "seen (st\<lparr>cy_parent := map_put x n (cy_parent st)\<rparr>) = seen st" by (simp add: seen_def)
  have "x \<notin> set path" using cycle_invD(1) [OF inv, of x] fresh by simp
  hence "parents_follow (map_put x n (cy_parent st)) path"
    using cycle_invD(6) [OF inv] unfolding parents_follow_def
    by (induction path) (auto simp: successively_Cons)
  thus "cycle_inv deps path (st\<lparr>cy_parent := map_put x n (cy_parent st)\<rparr>)"
    using inv unfolding cycle_inv_def seen by simp
qed

lemma search_spec:
  "N = length (graph_names deps) \<Longrightarrow> cycle_inv deps path st \<Longrightarrow> map_get 0 (cy_state st) node = 0 \<Longrightarrow>
   node \<in> set (graph_names deps) \<Longrightarrow>
   (path \<noteq> [] \<Longrightarrow> map_get [] (cy_parent st) node = hd path \<and> (hd path, node) \<in> dep_relation deps) \<Longrightarrow>
   N \<le> d + length path \<Longrightarrow> search_node N deps d node st = (r, st') \<Longrightarrow>
   (case r of Some c \<Rightarrow> reported_cycle deps c
    | None \<Rightarrow> cycle_inv deps path st' \<and> seen st \<subseteq> seen st' \<and> node \<in> seen st')"
  "N = length (graph_names deps) \<Longrightarrow> cycle_inv deps (node # path) st \<Longrightarrow> set ds \<subseteq> set (map_get [] deps node) \<Longrightarrow>
   N \<le> d + length (node # path) \<Longrightarrow> search_deps N deps d node ds st = (r, st') \<Longrightarrow>
   (case r of Some c \<Rightarrow> reported_cycle deps c
    | None \<Rightarrow> cycle_inv deps (node # path) st' \<and> seen st \<subseteq> seen st' \<and> set ds \<subseteq> seen st')"
proof (induction N deps d node st and N deps d node ds st arbitrary: path r st' and path r st'
    rule: search_node_search_deps.induct)
  case (1 N deps node st)
  have "node \<notin> set path" using cycle_invD(1) [OF "1.prems"(2), of node] "1.prems"(3) by simp
  hence "length (node # path) \<le> N"
    unfolding "1.prems"(1) using cycle_invD(2,3) [OF "1.prems"(2)] "1.prems"(4) by (intro distinct_names) simp_all
  with "1.prems"(6) show ?case by simp
next
  case (2 N deps d node st)
  let ?st = "st\<lparr>cy_state := map_put node 1 (cy_state st)\<rparr>"
  note push = push_node [OF "2.prems"(2,3,4,5)]
  obtain r1 st1 where call: "search_deps N deps d node (map_get [] deps node) ?st = (r1, st1)" by fastforce
  have "N \<le> d + length (node # path)" using "2.prems"(6) by simp
  note ih = "2.IH" [OF refl "2.prems"(1) push(1) subset_refl this call]
  show ?case
  proof (cases r1)
    case None
    note done1 = ih [unfolded None option.case(1)]
    have "r = None" "st' = st1\<lparr>cy_state := map_put node 2 (cy_state st1)\<rparr>"
      using "2.prems"(7) call None by (simp_all add: Let_def)
    with done1 pop_node [of deps node path st1] push(2) show ?thesis by auto
  next
    case (Some c)
    with "2.prems"(7) ih call show ?thesis by (auto simp: Let_def)
  qed
next
  case (3 N deps d node st)
  then show ?case by auto
next
  case (4 N deps d node dep ds st)
  note inv = "4.prems"(2)
  have e: "(node, dep) \<in> dep_relation deps" using "4.prems"(3) by (simp add: dep_relation_def)
  have sub: "set ds \<subseteq> set (map_get [] deps node)" using "4.prems"(3) by simp
  consider (grey) "map_get 0 (cy_state st) dep = 1" | (white) "map_get 0 (cy_state st) dep = 0"
    | (black) "map_get 0 (cy_state st) dep \<noteq> 1" "map_get 0 (cy_state st) dep \<noteq> 0" by blast
  then show ?case
  proof cases
    case grey
    with "4.prems"(5) have "r = Some (cycle_path N (cy_parent st) node dep)" by auto
    with close_cycle [OF inv e grey "4.prems"(1)] show ?thesis by simp
  next
    case white
    let ?st = "st\<lparr>cy_parent := map_put dep node (cy_parent st)\<rparr>"
    note par = set_parent [OF inv white, of node]
    obtain r1 st1 where call: "search_node N deps d dep ?st = (r1, st1)" by fastforce
    have w: "map_get 0 (cy_state st) dep \<noteq> 1" using white by simp
    note ih = "4.IH"(1) [OF w white refl "4.prems"(1) par(1) _ names_of_deps [OF e] _ "4.prems"(4) call]
    have ih: "case r1 of Some c \<Rightarrow> reported_cycle deps c
        | None \<Rightarrow> cycle_inv deps (node # path) st1 \<and> seen ?st \<subseteq> seen st1 \<and> dep \<in> seen st1"
      by (rule ih) (use white e in simp_all)
    show ?thesis
    proof (cases r1)
      case None
      note ok = ih [unfolded None option.case(1)]
      have rest: "search_deps N deps d node ds st1 = (r, st')"
        using "4.prems"(5) white call None by simp
      from "4.IH"(2) [OF w white refl call [symmetric] None "4.prems"(1) _ sub "4.prems"(4) rest] ok
      have "case r of Some c \<Rightarrow> reported_cycle deps c
        | None \<Rightarrow> cycle_inv deps (node # path) st' \<and> seen st1 \<subseteq> seen st' \<and> set ds \<subseteq> seen st'" by blast
      with ok par(2) show ?thesis by (cases r) auto
    next
      case (Some c)
      with "4.prems"(5) ih white call show ?thesis by auto
    qed
  next
    case black
    hence "dep \<in> seen st" using cycle_invD(8) [OF inv, of dep] by (simp add: seen_def)
    moreover have rest: "search_deps N deps d node ds st = (r, st')" using "4.prems"(5) black by simp
    note "4.IH"(3) [OF black "4.prems"(1) inv sub "4.prems"(4) rest]
    ultimately show ?thesis by (cases r) auto
  qed
qed

lemma search_all_spec:
  "cycle_inv deps [] st \<Longrightarrow> set ns \<subseteq> set (graph_names deps) \<Longrightarrow>
   (case search_all (length (graph_names deps)) deps ns st of
      Some c \<Rightarrow> reported_cycle deps c
    | None \<Rightarrow> \<exists>st'. cycle_inv deps [] st' \<and> seen st \<subseteq> seen st' \<and> set ns \<subseteq> seen st')"
proof (induction ns arbitrary: st)
  case (Cons n ns)
  let ?N = "length (graph_names deps)"
  show ?case
  proof (cases "map_get 0 (cy_state st) n = 0")
    case True
    obtain r st1 where call: "search_node ?N deps ?N n st = (r, st1)" by fastforce
    have spec: "case r of Some c \<Rightarrow> reported_cycle deps c
        | None \<Rightarrow> cycle_inv deps [] st1 \<and> seen st \<subseteq> seen st1 \<and> n \<in> seen st1"
      by (rule search_spec(1) [OF refl Cons.prems(1) True _ _ _ call]) (use Cons.prems(2) in simp_all)
    show ?thesis
    proof (cases r)
      case None
      with spec have ok: "cycle_inv deps [] st1" "seen st \<subseteq> seen st1" "n \<in> seen st1" by simp_all
      have "search_all ?N deps (n # ns) st = search_all ?N deps ns st1" using True call None by simp
      with Cons.IH [OF ok(1)] Cons.prems(2) ok show ?thesis
        by (simp split: option.splits) blast
    next
      case (Some c)
      with True call spec show ?thesis by simp
    qed
  next
    case False
    hence "n \<in> seen st" using cycle_invD(1,8) [OF Cons.prems(1), of n] by (simp add: seen_def)
    with False Cons.IH [OF Cons.prems(1)] Cons.prems(2) show ?thesis by (simp split: option.splits) blast
  qed
qed auto

lemma reported_not_acyclic: "reported_cycle deps c \<Longrightarrow> \<not> acyclic (dep_relation deps)"
proof -
  have path: "(hd xs, last xs) \<in> E\<^sup>+" if "successively (\<lambda>x y. (x, y) \<in> E) xs" "2 \<le> length xs" for E :: "(string \<times> string) set" and xs
    using that
  proof (induction xs)
    case (Cons x xs)
    then obtain y ys where xs: "xs = y # ys" by (cases xs) auto
    show ?case
    proof (cases ys)
      case Nil
      with Cons.prems xs show ?thesis by auto
    next
      case (Cons z zs)
      with Cons.prems Cons.IH xs show ?thesis by (auto intro: trancl_into_trancl2)
    qed
  qed simp
  assume "reported_cycle deps c"
  then obtain dep ys where "successively (\<lambda>x y. (x, y) \<in> dep_relation deps) (dep # ys @ [dep])"
    by (auto simp: reported_cycle_def)
  from path [OF this] show ?thesis by (auto simp: acyclic_def)
qed

lemma search_order_spec:
  assumes order: "set order = set (map_keys deps)"
  shows "case search_all (length (graph_names deps)) deps order \<lparr>cy_state = [], cy_parent = []\<rparr> of
     Some c \<Rightarrow> reported_cycle deps c
   | None \<Rightarrow> acyclic (dep_relation deps)"
proof -
  let ?st = "\<lparr>cy_state = [], cy_parent = []\<rparr>"
  let ?s = "search_all (length (graph_names deps)) deps order ?st"
  have init: "cycle_inv deps [] ?st" by (simp add: cycle_inv_def seen_def parents_follow_def acyclic_def)
  have sub: "set order \<subseteq> set (graph_names deps)" by (auto simp: graph_names_def order)
  show ?thesis
  proof (cases ?s)
    case None
    with search_all_spec [OF init sub] obtain st' where
      st': "cycle_inv deps [] st'" "set (map_keys deps) \<subseteq> seen st'" by (auto simp: order)
    have "dep_relation deps \<subseteq> dep_relation deps \<inter> seen st' \<times> UNIV"
    proof
      fix e assume e: "e \<in> dep_relation deps"
      then obtain a b where ab: "e = (a, b)" and b: "b \<in> set (map_get [] deps a)"
        by (cases e) (auto simp: dep_relation_def)
      have "map_has deps a" using b map_get_absent [of deps a "[]"] by (cases "map_has deps a") auto
      hence "a \<in> set (map_keys deps)" by (simp add: map_has_iff_keys)
      with e ab st'(2) show "e \<in> dep_relation deps \<inter> seen st' \<times> UNIV" by auto
    qed
    with cycle_invD(5) [OF st'(1)] None show ?thesis by (auto intro: acyclic_subset)
  next
    case (Some c)
    with search_all_spec [OF init sub] show ?thesis by simp
  qed
qed

lemma findCycle_spec:
  "case findCycle deps of
     Some c \<Rightarrow> reported_cycle deps c
   | None \<Rightarrow> acyclic (dep_relation deps)"
  unfolding findCycle_def by (rule search_order_spec) (rule refl)

section \<open>Properties\<close>

text \<open>C20: The search reports nothing exactly when the relation has no cycle, and what it reports is a cycle read from
  the node after the one it was entered at, with the entry node written twice at the end.\<close>

theorem cycle_search_spec:
  "(findCycle deps = None \<longleftrightarrow> acyclic (dep_relation deps)) \<and>
   (case findCycle deps of None \<Rightarrow> True
    | Some c \<Rightarrow> \<exists>dep ys. c = ys @ [dep, dep] \<and> successively (\<lambda>x y. (x, y) \<in> dep_relation deps) (dep # ys @ [dep]))"
  using findCycle_spec [of deps] reported_not_acyclic [of deps]
  by (cases "findCycle deps") (auto simp: reported_cycle_def)

text \<open>The path printed for two actions that depend on each other has an edge from an action to itself that is
  not in the workflow.\<close>

theorem cycle_path_repeats_node:
  "findCycle [(''a'', [''b'']), (''b'', [''a''])] = Some [''b'', ''a'', ''a''] \<and>
   \<not> dep_cycle (map_get [] [(''a'', [''b'']), (''b'', [''a''])]) [''b'', ''a'', ''a'']"
proof -
  have "findCycle [(''a'', [''b'']), (''b'', [''a''])] = Some [''b'', ''a'', ''a'']" by code_simp
  thus ?thesis by (simp add: dep_cycle_def)
qed

end
