(* ===== verification/Action_Validation.thy ===== *)
theory Action_Validation
  imports Cycle_Search Action_Refs
begin

text \<open>
  \<open>pkg/action/validation.go\<close>: \<open>ValidateWorkflow\<close> and its checks.

  Every \<open>errs.AddError\<close> appends one \<open>validation_error\<close>; the message is a constructor that carries what
  the text of the message is made of.  Parameters: the CEL variable extraction and the template
  parser (\<open>val_env\<close>), the provider registry (\<open>None\<close> when none is given) and
  \<open>doublestar.ValidatePattern\<close>.  A section is visited in the order of its association list.
\<close>

datatype registry_entry = NameOnly | NoDescriptor | HasCapabilities "string list"

record validation_env =
  vd_val :: val_env
  vd_registry :: "(string \<Rightarrow> registry_entry option) option"
  vd_glob :: "string \<Rightarrow> bool"

datatype validation_message =
    WorkflowNil | ActionNil
  | BadSchemaMode schema_mode | BadOnError error_behavior | BadBackoff backoff | BadFingerprintScope fp_scope
  | NamePattern string | NameReserved | NameBrackets | NameDefined string string
  | AliasPattern string | AliasPrefix string | AliasReserved string | AliasIsAction string string | AliasUsed string string
  | DependsUnknown string string bool | DependsSelf
  | ExclusiveSelf | ExclusiveUnknown string string
  | CallAndProvider string string | ProviderRequired | ProviderNotFound string | ProviderNoDescriptor string
  | ProviderNotAction string
  | RefSelf string | RefNotFound string
  | ForEachInFinally | BadConcurrency int | BadMaxAttempts int
  | BadGlob string | GlobAbsolute string | GlobTraversal string | GeneratesNeedsSources
  | CircularDependency "string list"

record validation_error =
  v_section :: string
  v_action :: string
  v_field :: string
  v_message :: validation_message

definition add_error :: "string \<Rightarrow> string \<Rightarrow> string \<Rightarrow> validation_message \<Rightarrow> validation_error" where
  "add_error s n f m = \<lparr>v_section = s, v_action = n, v_field = f, v_message = m\<rparr>"

definition when_err :: "bool \<Rightarrow> 'a \<Rightarrow> 'a list" where
  "when_err b e = (if b then [e] else [])"

lemma when_err_Nil [simp]: "when_err b e = [] \<longleftrightarrow> \<not> b"
  by (simp add: when_err_def)

section \<open>Names and aliases\<close>

text \<open>The regular expression \<open>^[a-zA-Z_][a-zA-Z0-9_-]*$\<close>.\<close>

definition actionNameRegex :: "string \<Rightarrow> bool" where
  "actionNameRegex s =
     (case s of [] \<Rightarrow> False
      | c # cs \<Rightarrow> (is_letter c \<or> c = CHR ''_'') \<and>
          list_all (\<lambda>d. is_letter d \<or> is_digit d \<or> d = CHR ''_'' \<or> d = CHR ''-'') cs)"

definition reservedNames :: "string list" where
  "reservedNames =
     [''_'', ''__actions'', ''__item'', ''__index'', ''__error'', ''__self'', ''true'', ''false'', ''null'']"

definition validateActionName :: "string \<Rightarrow> string \<Rightarrow> string gomap \<Rightarrow> validation_error list" where
  "validateActionName name section allNames =
     when_err (\<not> actionNameRegex name) (add_error section name ''name'' (NamePattern name)) @
     when_err (strings_HasPrefix name ''__'') (add_error section name ''name'' NameReserved) @
     when_err (CHR ''['' \<in> set name \<or> CHR '']'' \<in> set name) (add_error section name ''name'' NameBrackets) @
     (case map_of allNames name of
        Some s \<Rightarrow> [add_error section name ''name'' (NameDefined name s)]
      | None \<Rightarrow> [])"

definition validateAlias ::
  "string \<Rightarrow> string \<Rightarrow> string \<Rightarrow> string gomap \<Rightarrow> string gomap \<Rightarrow> validation_error list \<times> string gomap" where
  "validateAlias alias name section allActionNames allAliases =
     (when_err (\<not> actionNameRegex alias) (add_error section name ''alias'' (AliasPattern alias)) @
      when_err (strings_HasPrefix alias ''__'') (add_error section name ''alias'' (AliasPrefix alias)) @
      when_err (alias \<in> set reservedNames) (add_error section name ''alias'' (AliasReserved alias)) @
      (case map_of allActionNames alias of
         Some s \<Rightarrow> [add_error section name ''alias'' (AliasIsAction alias s)] | None \<Rightarrow> []) @
      (case map_of allAliases alias of
         Some a \<Rightarrow> [add_error section name ''alias'' (AliasUsed alias a)] | None \<Rightarrow> []),
      map_put alias (section @ ''.'' @ name) allAliases)"

section \<open>References\<close>

definition validateDependsOn :: "action \<Rightarrow> string \<Rightarrow> string \<Rightarrow> workflow \<Rightarrow> validation_error list" where
  "validateDependsOn a name section w =
     concat (map (\<lambda>dep.
       when_err (\<not> map_has (SectionActions w section) dep)
         (add_error section name ''dependsOn'' (DependsUnknown dep section (section = ''finally''))) @
       when_err (dep = name) (add_error section name ''dependsOn'' DependsSelf)) (a_dependsOn a))"

definition exclusive_field :: "nat \<Rightarrow> string" where
  "exclusive_field i = ''exclusive['' @ decimal i @ '']''"

definition validateExclusive :: "action \<Rightarrow> string \<Rightarrow> string \<Rightarrow> workflow \<Rightarrow> validation_error list" where
  "validateExclusive a name section w =
     concat (map (\<lambda>(i, ref).
       if ref = name then [add_error section name (exclusive_field i) ExclusiveSelf]
       else when_err (\<not> map_has (SectionActions w section) ref)
              (add_error section name (exclusive_field i) (ExclusiveUnknown ref section)))
       (enumerate 0 (a_exclusive a)))"

definition capability_action :: string where
  "capability_action = ''action''"

definition validateProvider :: "validation_env \<Rightarrow> action \<Rightarrow> string \<Rightarrow> string \<Rightarrow> validation_error list" where
  "validateProvider env a name section =
     (let err = (\<lambda>m. [add_error section name ''provider'' m]); p = a_provider a in
      if a_call a \<noteq> [] then (if p \<noteq> [] then err (CallAndProvider (a_call a) p) else [])
      else if p = [] then err ProviderRequired
      else
        (case vd_registry env of
           None \<Rightarrow> []
         | Some get \<Rightarrow>
             (case get p of
                None \<Rightarrow> err (ProviderNotFound p)
              | Some NameOnly \<Rightarrow> []
              | Some NoDescriptor \<Rightarrow> err (ProviderNoDescriptor p)
              | Some (HasCapabilities cs) \<Rightarrow> if capability_action \<in> set cs then [] else err (ProviderNotAction p))))"

text \<open>The references of an expression count when it mentions \<open>__actions\<close>; unparsable ones are skipped.\<close>

definition extractRefsFromExpression :: "val_env \<Rightarrow> string \<Rightarrow> string list \<Rightarrow> string list" where
  "extractRefsFromExpression env e refs =
     (case ve_required env e of
        None \<Rightarrow> refs
      | Some vars \<Rightarrow> if ''__actions'' \<in> set vars then parse_refs None e refs else refs)"

definition template_ref_step :: "tmpl_ref \<Rightarrow> string list \<Rightarrow> string list" where
  "template_ref_step r refs =
     (if tr_scoped r then refs
      else if strings_HasPrefix (tr_path r) ''.__actions.'' \<or> strings_HasPrefix (tr_path r) ''__actions.''
      then parse_refs None (tr_path r) refs else refs)"

definition extractRefsFromTemplate :: "val_env \<Rightarrow> string \<Rightarrow> string list \<Rightarrow> string list" where
  "extractRefsFromTemplate env t refs =
     (case ve_tmplrefs env t [] [] of None \<Rightarrow> refs | Some rs \<Rightarrow> fold template_ref_step rs refs)"

definition extractRefsFromValueRef :: "val_env \<Rightarrow> value_ref option \<Rightarrow> string list \<Rightarrow> string list" where
  "extractRefsFromValueRef env v refs =
     (case v of
        Some (RefExpr e) \<Rightarrow> extractRefsFromExpression env e refs
      | Some (RefTmpl t) \<Rightarrow> extractRefsFromTemplate env t refs
      | _ \<Rightarrow> refs)"

definition input_refs :: "val_env \<Rightarrow> action \<Rightarrow> string list" where
  "input_refs env a = fold (\<lambda>(k, v) refs. extractRefsFromValueRef env v refs) (a_inputs a) []"

definition condition_refs :: "val_env \<Rightarrow> action \<Rightarrow> string list" where
  "condition_refs env a =
     (case a_when a of
        None \<Rightarrow> []
      | Some c \<Rightarrow> (case c_expr c of None \<Rightarrow> [] | Some e \<Rightarrow> extractRefsFromExpression env e []))"

definition validateActionsReferences :: "validation_env \<Rightarrow> action \<Rightarrow> string \<Rightarrow> string \<Rightarrow> workflow \<Rightarrow> validation_error list" where
  "validateActionsReferences env a name section w =
     (let inputs = input_refs (vd_val env) a; conds = condition_refs (vd_val env) a;
          refs = sort (remdups (inputs @ conds))
      in concat (map (\<lambda>ref.
           let field = (if ref \<in> set inputs then ''inputs'' else ''when'') in
           if ref = name then [add_error section name field (RefSelf ref)]
           else
             when_err (section = ''actions'' \<and> \<not> map_has (w_actions w) ref)
               (add_error section name field (RefNotFound ref)) @
             when_err (section = ''finally'' \<and> \<not> map_has (w_actions w) ref \<and> \<not> map_has (w_finally w) ref)
               (add_error section name field (RefNotFound ref))) refs))"

section \<open>Fields\<close>

definition onError_IsValid :: "error_behavior \<Rightarrow> bool" where
  "onError_IsValid b = (b = OnErrorFail \<or> b = OnErrorContinue \<or> b = OnErrorUnset)"

definition schemaMode_IsValid :: "schema_mode \<Rightarrow> bool" where
  "schemaMode_IsValid m = (m = SchemaError \<or> m = SchemaWarn \<or> m = SchemaIgnore \<or> m = SchemaUnset)"

definition scope_IsValid :: "fp_scope \<Rightarrow> bool" where
  "scope_IsValid s = (s = ScopeAll \<or> s = ScopeFiles \<or> s = ScopeUnset)"

definition backoff_IsValid :: "backoff \<Rightarrow> bool" where
  "backoff_IsValid b = (b = BackoffFixed \<or> b = BackoffLinear \<or> b = BackoffExponential \<or> b = BackoffUnset)"

definition validateForEach :: "foreach_clause \<Rightarrow> string \<Rightarrow> string \<Rightarrow> validation_error list" where
  "validateForEach fe name section =
     when_err (fe_onError fe \<noteq> OnErrorUnset \<and> \<not> onError_IsValid (fe_onError fe))
       (add_error section name ''forEach.onError'' (BadOnError (fe_onError fe))) @
     when_err (fe_concurrency fe < 0) (add_error section name ''forEach.concurrency'' (BadConcurrency (fe_concurrency fe)))"

definition validateRetry :: "retry_config \<Rightarrow> string \<Rightarrow> string \<Rightarrow> validation_error list" where
  "validateRetry r name section =
     when_err (rc_maxAttempts r < 1) (add_error section name ''retry.maxAttempts'' (BadMaxAttempts (rc_maxAttempts r))) @
     when_err (rc_backoff r \<noteq> BackoffUnset \<and> \<not> backoff_IsValid (rc_backoff r))
       (add_error section name ''retry.backoff'' (BadBackoff (rc_backoff r)))"

subsection \<open>Patterns\<close>

definition validateGlobSafety :: "string \<Rightarrow> validation_message option" where
  "validateGlobSafety p =
     (if strings_HasPrefix p ''/'' then Some (GlobAbsolute p)
      else if ''..'' \<in> set (clean_segments p) then Some (GlobTraversal p)
      else None)"

definition validate_pattern :: "validation_env \<Rightarrow> string \<Rightarrow> string \<Rightarrow> string \<Rightarrow> string \<Rightarrow> validation_error list" where
  "validate_pattern env name section field p =
     when_err (\<not> vd_glob env p) (add_error section name field (BadGlob p)) @
     (case validateGlobSafety p of Some m \<Rightarrow> [add_error section name field m] | None \<Rightarrow> [])"

definition validateSources :: "validation_env \<Rightarrow> action \<Rightarrow> string \<Rightarrow> string \<Rightarrow> validation_error list" where
  "validateSources env a name section =
     concat (map (validate_pattern env name section ''sources'') (a_sources a)) @
     concat (map (validate_pattern env name section ''generates'') (a_generates a)) @
     when_err (a_generates a \<noteq> [] \<and> a_sources a = []) (add_error section name ''generates'' GeneratesNeedsSources) @
     (case a_fingerprint a of
        Some sc \<Rightarrow> when_err (\<not> scope_IsValid sc) (add_error section name ''fingerprint.scope'' (BadFingerprintScope sc))
      | None \<Rightarrow> [])"

section \<open>Actions, sections, workflows\<close>

definition validateAction :: "validation_env \<Rightarrow> action \<Rightarrow> string \<Rightarrow> string \<Rightarrow> workflow \<Rightarrow> validation_error list" where
  "validateAction env a name section w =
     validateDependsOn a name section w @
     (if a_exclusive a \<noteq> [] then validateExclusive a name section w else []) @
     validateProvider env a name section @
     validateActionsReferences env a name section w @
     when_err (a_forEach a \<noteq> None \<and> section = ''finally'') (add_error section name ''forEach'' ForEachInFinally) @
     (case a_forEach a of Some fe \<Rightarrow> validateForEach fe name section | None \<Rightarrow> []) @
     (case a_retry a of Some r \<Rightarrow> validateRetry r name section | None \<Rightarrow> []) @
     when_err (a_onError a \<noteq> OnErrorUnset \<and> \<not> onError_IsValid (a_onError a))
       (add_error section name ''onError'' (BadOnError (a_onError a))) @
     when_err (a_schemaMode a \<noteq> SchemaUnset \<and> \<not> schemaMode_IsValid (a_schemaMode a))
       (add_error section name ''resultSchemaMode'' (BadSchemaMode (a_schemaMode a))) @
     validateSources env a name section"

definition validateNoCycles :: "action option gomap \<Rightarrow> string \<Rightarrow> validation_error list" where
  "validateNoCycles actions section =
     (let deps = List.map_filter (\<lambda>(n, a). map_option (\<lambda>a. (n, a_dependsOn a)) a) actions in
      (case findCycle deps of
         Some c \<Rightarrow> [add_error section [] ''dependsOn'' (CircularDependency c)]
       | None \<Rightarrow> []))"

type_synonym validation_state = "validation_error list \<times> string gomap \<times> string gomap"

definition validate_entry ::
  "validation_env \<Rightarrow> string \<Rightarrow> string gomap \<Rightarrow> workflow \<Rightarrow> string \<times> action option \<Rightarrow> validation_state \<Rightarrow> validation_state" where
  "validate_entry env section allActionNames w = (\<lambda>(name, action) (errs, allNames, allAliases).
     (let errs = errs @ validateActionName name section allNames;
          allNames = (if map_has allNames name then allNames else map_put name section allNames)
      in (case action of
            None \<Rightarrow> (errs @ [add_error section name [] ActionNil], allNames, allAliases)
          | Some a \<Rightarrow>
              (let (aliasErrs, allAliases) =
                     (if a_alias a \<noteq> [] then validateAlias (a_alias a) name section allActionNames allAliases
                      else ([], allAliases))
               in (errs @ aliasErrs @ validateAction env a name section w, allNames, allAliases)))))"

definition validateSection ::
  "validation_env \<Rightarrow> action option gomap \<Rightarrow> string \<Rightarrow> string gomap \<Rightarrow> workflow \<Rightarrow> validation_state \<Rightarrow> validation_state" where
  "validateSection env actions section allActionNames w st =
     (let (errs, allNames, allAliases) = fold (validate_entry env section allActionNames w) actions st
      in (errs @ validateNoCycles actions section, allNames, allAliases))"

definition all_action_names :: "workflow \<Rightarrow> string gomap" where
  "all_action_names w =
     fold (\<lambda>(n, a) m. if map_has m n then m else map_put n ''finally'' m) (w_finally w)
       (fold (\<lambda>(n, a) m. map_put n ''actions'' m) (w_actions w) [])"

text \<open>The errors of \<open>ValidateWorkflow\<close>; the empty list is the nil error.\<close>

definition ValidateWorkflow :: "validation_env \<Rightarrow> workflow option \<Rightarrow> validation_error list" where
  "ValidateWorkflow env wo =
     (case wo of
        None \<Rightarrow> [add_error [] [] [] WorkflowNil]
      | Some w \<Rightarrow>
          (let errs = when_err (w_schemaMode w \<noteq> SchemaUnset \<and> \<not> schemaMode_IsValid (w_schemaMode w))
                        (add_error [] [] ''resultSchemaMode'' (BadSchemaMode (w_schemaMode w)));
               allActionNames = all_action_names w;
               st = validateSection env (w_actions w) ''actions'' allActionNames w (errs, [], [])
           in fst (validateSection env (w_finally w) ''finally'' allActionNames w st)))"

section \<open>Valid workflows\<close>

text \<open>A pattern that never climbs above the directory it starts in.\<close>

fun stays_below :: "nat \<Rightarrow> string list \<Rightarrow> bool" where
  "stays_below d [] = True"
| "stays_below d (s # ss) =
     (if s = [] \<or> s = ''.'' then stays_below d ss
      else if s = ''..'' then (case d of 0 \<Rightarrow> False | Suc d' \<Rightarrow> stays_below d' ss)
      else stays_below (Suc d) ss)"

definition safe_pattern :: "string \<Rightarrow> bool" where
  "safe_pattern p = (\<not> strings_HasPrefix p ''/'' \<and> stays_below 0 (split_slash p))"

lemma parent_stays: "''..'' \<in> set out \<Longrightarrow> ''..'' \<in> set (clean_segment s out)"
  by (cases out rule: rev_cases) (auto simp: clean_segment_def)

lemma parent_stays_fold: "''..'' \<in> set out \<Longrightarrow> ''..'' \<in> set (fold clean_segment ss out)"
  by (induction ss arbitrary: out) (auto simp: parent_stays)

lemma clean_fold:
  "''..'' \<notin> set out \<Longrightarrow> ''..'' \<notin> set (fold clean_segment ss out) \<longleftrightarrow> stays_below (length out) ss"
proof (induction ss arbitrary: out)
  case (Cons s ss)
  consider (skip) "s = [] \<or> s = ''.''" | (up) "s = ''..''" "out \<noteq> []" | (above) "s = ''..''" "out = []"
    | (down) "s \<noteq> []" "s \<noteq> ''.''" "s \<noteq> ''..''" by blast
  then show ?case
  proof cases
    case skip
    then have "clean_segment s out = out" by (simp add: clean_segment_def)
    with skip Cons show ?thesis by auto
  next
    case up
    then have "last out \<noteq> ''..''" using Cons.prems last_in_set [OF up(2)] by metis
    with up have "clean_segment s out = butlast out" by (simp add: clean_segment_def)
    moreover have "''..'' \<notin> set (butlast out)" using Cons.prems by (auto dest: in_set_butlastD)
    moreover obtain n where "length out = Suc n" using up(2) by (cases out) auto
    ultimately show ?thesis using Cons.IH [of "butlast out"] up(1) by simp
  next
    case above
    then have "clean_segment s out = [''..'']" by (simp add: clean_segment_def)
    with above parent_stays_fold [of "[''..'']" ss] show ?thesis by simp
  next
    case down
    then have "clean_segment s out = out @ [s]" by (simp add: clean_segment_def)
    with down Cons.IH [of "out @ [s]"] Cons.prems show ?thesis by simp
  qed
qed simp

lemma glob_safe_iff: "validateGlobSafety p = None \<longleftrightarrow> safe_pattern p"
  using clean_fold [of "[]" "split_slash p"] by (auto simp: validateGlobSafety_def safe_pattern_def clean_segments_def)

definition valid_name :: "string \<Rightarrow> bool" where
  "valid_name n = (actionNameRegex n \<and> \<not> strings_HasPrefix n ''__'')"

definition valid_provider :: "validation_env \<Rightarrow> action \<Rightarrow> bool" where
  "valid_provider env a =
     (if a_call a \<noteq> [] then a_provider a = []
      else a_provider a \<noteq> [] \<and>
        (case vd_registry env of
           None \<Rightarrow> True
         | Some get \<Rightarrow> get (a_provider a) = Some NameOnly \<or>
             (\<exists>cs. get (a_provider a) = Some (HasCapabilities cs) \<and> capability_action \<in> set cs)))"

definition valid_patterns :: "validation_env \<Rightarrow> action \<Rightarrow> bool" where
  "valid_patterns env a =
     ((\<forall>p \<in> set (a_sources a @ a_generates a). vd_glob env p \<and> safe_pattern p) \<and>
      (a_generates a \<noteq> [] \<longrightarrow> a_sources a \<noteq> []) \<and>
      (\<forall>sc. a_fingerprint a = Some sc \<longrightarrow> scope_IsValid sc))"

definition valid_options :: "action \<Rightarrow> bool" where
  "valid_options a =
     ((\<forall>fe. a_forEach a = Some fe \<longrightarrow> onError_IsValid (fe_onError fe) \<and> 0 \<le> fe_concurrency fe) \<and>
      (\<forall>r. a_retry a = Some r \<longrightarrow> 1 \<le> rc_maxAttempts r \<and> backoff_IsValid (rc_backoff r)) \<and>
      onError_IsValid (a_onError a) \<and> schemaMode_IsValid (a_schemaMode a))"

definition valid_action :: "validation_env \<Rightarrow> workflow \<Rightarrow> string \<Rightarrow> string \<Rightarrow> action \<Rightarrow> bool" where
  "valid_action env w section name a =
     ((\<forall>d \<in> set (a_dependsOn a). d \<noteq> name \<and> map_has (SectionActions w section) d) \<and>
      (\<forall>d \<in> set (a_exclusive a). d \<noteq> name \<and> map_has (SectionActions w section) d) \<and>
      (\<forall>r \<in> set (input_refs (vd_val env) a) \<union> set (condition_refs (vd_val env) a).
         r \<noteq> name \<and> (map_has (w_actions w) r \<or> section = ''finally'' \<and> map_has (w_finally w) r)) \<and>
      (section = ''finally'' \<longrightarrow> a_forEach a = None) \<and>
      valid_provider env a \<and> valid_options a \<and> valid_patterns env a)"

lemma validateAlias_Nil:
  "fst (validateAlias al n s all as) = [] \<longleftrightarrow>
     valid_name al \<and> al \<notin> set reservedNames \<and> \<not> map_has all al \<and> \<not> map_has as al"
  by (auto simp: validateAlias_def valid_name_def map_has_def split: option.splits)

lemma regex_no_bracket: "actionNameRegex n \<Longrightarrow> CHR ''['' \<notin> set n \<and> CHR '']'' \<notin> set n"
  by (cases n) (auto simp: actionNameRegex_def list_all_iff is_letter_def is_digit_def)

lemma validateActionName_Nil: "validateActionName n s as = [] \<longleftrightarrow> valid_name n \<and> \<not> map_has as n"
  using regex_no_bracket [of n] by (auto simp: validateActionName_def valid_name_def map_has_def split: option.splits)

lemma validateProvider_Nil: "validateProvider env a n s = [] \<longleftrightarrow> valid_provider env a"
  by (auto simp: validateProvider_def valid_provider_def Let_def split: option.splits registry_entry.splits)

lemma concat_Nil_iff: "concat (map f xs) = [] \<longleftrightarrow> (\<forall>x \<in> set xs. f x = [])"
  by simp

lemma validateExclusive_Nil:
  "validateExclusive a n s w = [] \<longleftrightarrow> (\<forall>d \<in> set (a_exclusive a). d \<noteq> n \<and> map_has (SectionActions w s) d)"
proof -
  have "validateExclusive a n s w = [] \<longleftrightarrow>
      (\<forall>ir \<in> set (enumerate 0 (a_exclusive a)). snd ir \<noteq> n \<and> map_has (SectionActions w s) (snd ir))"
    unfolding validateExclusive_def concat_Nil_iff by (rule ball_cong) (auto split: if_splits)
  also have "\<dots> \<longleftrightarrow> (\<forall>d \<in> snd ` set (enumerate 0 (a_exclusive a)). d \<noteq> n \<and> map_has (SectionActions w s) d)" by simp
  also have "snd ` set (enumerate 0 (a_exclusive a)) = set (a_exclusive a)"
    by (metis list.set_map map_snd_enumerate)
  finally show ?thesis .
qed

lemma validateActionsReferences_Nil:
  assumes "s = ''actions'' \<or> s = ''finally''"
  shows "validateActionsReferences env a n s w = [] \<longleftrightarrow>
    (\<forall>r \<in> set (input_refs (vd_val env) a) \<union> set (condition_refs (vd_val env) a).
       r \<noteq> n \<and> (map_has (w_actions w) r \<or> s = ''finally'' \<and> map_has (w_finally w) r))"
proof -
  let ?I = "input_refs (vd_val env) a" and ?C = "condition_refs (vd_val env) a"
  have one: "(if r = n then [add_error s n f (RefSelf r)]
      else when_err (s = ''actions'' \<and> \<not> map_has (w_actions w) r) (add_error s n f (RefNotFound r)) @
           when_err (s = ''finally'' \<and> \<not> map_has (w_actions w) r \<and> \<not> map_has (w_finally w) r)
             (add_error s n f (RefNotFound r))) = [] \<longleftrightarrow>
      r \<noteq> n \<and> (map_has (w_actions w) r \<or> s = ''finally'' \<and> map_has (w_finally w) r)" for r f
    using assms by (cases "r = n") auto
  show ?thesis
    unfolding validateActionsReferences_def Let_def concat_Nil_iff one by simp
qed

lemma validateSources_Nil: "validateSources env a n s = [] \<longleftrightarrow> valid_patterns env a"
proof -
  have "validate_pattern env n s f p = [] \<longleftrightarrow> vd_glob env p \<and> safe_pattern p" for f p
    using glob_safe_iff [of p] by (auto simp: validate_pattern_def split: option.splits)
  thus ?thesis by (auto simp: validateSources_def valid_patterns_def split: option.splits)
qed

lemma options_Nil:
  "(case a_forEach a of Some fe \<Rightarrow> validateForEach fe n s | None \<Rightarrow> []) = [] \<and>
   (case a_retry a of Some r \<Rightarrow> validateRetry r n s | None \<Rightarrow> []) = [] \<and>
   \<not> (a_onError a \<noteq> OnErrorUnset \<and> \<not> onError_IsValid (a_onError a)) \<and>
   \<not> (a_schemaMode a \<noteq> SchemaUnset \<and> \<not> schemaMode_IsValid (a_schemaMode a)) \<longleftrightarrow> valid_options a"
proof -
  have fe: "validateForEach fe n s = [] \<longleftrightarrow> onError_IsValid (fe_onError fe) \<and> 0 \<le> fe_concurrency fe" for fe
    by (auto simp: validateForEach_def onError_IsValid_def)
  have re: "validateRetry r n s = [] \<longleftrightarrow> 1 \<le> rc_maxAttempts r \<and> backoff_IsValid (rc_backoff r)" for r
    by (auto simp: validateRetry_def backoff_IsValid_def)
  have "onError_IsValid OnErrorUnset" "schemaMode_IsValid SchemaUnset"
    by (simp_all add: onError_IsValid_def schemaMode_IsValid_def)
  thus ?thesis unfolding valid_options_def by (cases "a_forEach a"; cases "a_retry a") (auto simp: fe re)
qed

lemma validateAction_Nil:
  assumes "s = ''actions'' \<or> s = ''finally''"
  shows "validateAction env a n s w = [] \<longleftrightarrow> valid_action env w s n a"
proof -
  have dep: "validateDependsOn a n s w = [] \<longleftrightarrow>
      (\<forall>d \<in> set (a_dependsOn a). d \<noteq> n \<and> map_has (SectionActions w s) d)"
    by (auto simp: validateDependsOn_def)
  have excl: "(if a_exclusive a \<noteq> [] then validateExclusive a n s w else []) = [] \<longleftrightarrow>
      (\<forall>d \<in> set (a_exclusive a). d \<noteq> n \<and> map_has (SectionActions w s) d)"
    using validateExclusive_Nil [of a n s w] by auto
  show ?thesis
    unfolding validateAction_def append_is_Nil_conv when_err_Nil dep excl validateProvider_Nil
      validateActionsReferences_Nil [OF assms] validateSources_Nil valid_action_def
      options_Nil [where a = a and n = n and s = s, symmetric]
    by auto
qed

section \<open>The loops\<close>

definition aliases_of :: "action option gomap \<Rightarrow> string list" where
  "aliases_of kvs = filter (\<lambda>a. a \<noteq> []) (List.map_filter (\<lambda>(n, a). map_option a_alias a) kvs)"

definition valid_alias :: "string gomap \<Rightarrow> string \<Rightarrow> bool" where
  "valid_alias names al = (valid_name al \<and> al \<notin> set reservedNames \<and> \<not> map_has names al)"

definition entries_ok ::
  "validation_env \<Rightarrow> workflow \<Rightarrow> string \<Rightarrow> string gomap \<Rightarrow> string gomap \<Rightarrow> string gomap \<Rightarrow> action option gomap \<Rightarrow> bool" where
  "entries_ok env w section all names als kvs =
     ((\<forall>(n, a) \<in> set kvs. valid_name n \<and> \<not> map_has names n \<and> (\<exists>x. a = Some x \<and> valid_action env w section n x)) \<and>
      distinct (aliases_of kvs) \<and> (\<forall>al \<in> set (aliases_of kvs). valid_alias all al \<and> \<not> map_has als al))"

lemma aliases_of_Cons:
  "aliases_of ((n, a) # kvs) =
     (case a of Some x \<Rightarrow> if a_alias x \<noteq> [] then a_alias x # aliases_of kvs else aliases_of kvs | None \<Rightarrow> aliases_of kvs)"
  by (simp add: aliases_of_def List.map_filter_def split: option.split)

lemma validateAlias_snd: "snd (validateAlias al n s all as) = map_put al (s @ ''.'' @ n) as"
  by (simp add: validateAlias_def)

lemma entries_spec:
  assumes s: "s = ''actions'' \<or> s = ''finally''"
  shows "distinct (map_keys kvs) \<Longrightarrow>
    fold (validate_entry env s all w) kvs (errs, names, als) = (errs', names', als') \<Longrightarrow>
    (\<forall>x. map_has names' x \<longleftrightarrow> map_has names x \<or> x \<in> set (map_keys kvs)) \<and>
    (\<forall>x. map_has als' x \<longleftrightarrow> map_has als x \<or> x \<in> set (aliases_of kvs)) \<and>
    (errs' = [] \<longleftrightarrow> errs = [] \<and> entries_ok env w s all names als kvs)"
proof (induction kvs arbitrary: errs names als)
  case Nil
  then show ?case by (simp add: aliases_of_def List.map_filter_def entries_ok_def)
next
  case (Cons na kvs)
  obtain n a where na: "na = (n, a)" by (cases na)
  define names1 where "names1 = (if map_has names n then names else map_put n s names)"
  have has1: "map_has names1 x \<longleftrightarrow> map_has names x \<or> x = n" for x by (auto simp: names1_def)
  define aliasing where "aliasing = (case a of Some x \<Rightarrow> if a_alias x \<noteq> [] then validateAlias (a_alias x) n s all als
       else ([], als) | None \<Rightarrow> ([], als))"
  define body where "body = (case a of Some x \<Rightarrow> validateAction env x n s w | None \<Rightarrow> [add_error s n [] ActionNil])"
  define errs1 where "errs1 = errs @ validateActionName n s names @ fst aliasing @ body"
  have step: "validate_entry env s all w na (errs, names, als) = (errs1, names1, snd aliasing)"
    by (auto simp: validate_entry_def na Let_def names1_def errs1_def aliasing_def body_def
        split: option.split prod.split)
  have rec: "fold (validate_entry env s all w) kvs (errs1, names1, snd aliasing) = (errs', names', als')"
    using Cons.prems(2) by (simp add: step)
  have dist: "distinct (map_keys kvs)" "n \<notin> set (map_keys kvs)" using Cons.prems(1) by (simp_all add: na)
  note ih = Cons.IH [OF dist(1) rec]
  have al1: "map_has (snd aliasing) x \<longleftrightarrow> map_has als x \<or> (\<exists>y. a = Some y \<and> a_alias y \<noteq> [] \<and> x = a_alias y)" for x
    by (auto simp: aliasing_def validateAlias_snd split: option.split)
  have e1: "errs1 = [] \<longleftrightarrow> errs = [] \<and> valid_name n \<and> \<not> map_has names n \<and>
      (\<exists>x. a = Some x \<and> valid_action env w s n x) \<and>
      (\<forall>x. a = Some x \<longrightarrow> a_alias x \<noteq> [] \<longrightarrow> valid_alias all (a_alias x) \<and> \<not> map_has als (a_alias x))"
    by (cases a) (auto simp: errs1_def validateActionName_Nil aliasing_def body_def validateAlias_Nil validateAction_Nil [OF s]
        valid_alias_def)
  have fresh: "(\<forall>(m, y) \<in> set kvs. \<not> map_has names1 m) \<longleftrightarrow> (\<forall>(m, y) \<in> set kvs. \<not> map_has names m)"
    using dist(2) by (force simp: has1 map_keys_def)
  have ok: "errs1 = [] \<and> entries_ok env w s all names1 (snd aliasing) kvs \<longleftrightarrow>
      errs = [] \<and> entries_ok env w s all names als (na # kvs)"
  proof (cases a)
    case None
    then show ?thesis using e1 by (simp add: entries_ok_def na)
  next
    case (Some x)
    show ?thesis
      using fresh unfolding e1 entries_ok_def na aliases_of_Cons Some al1
      by (auto split: if_splits)
  qed
  have keys: "\<forall>x. map_has names' x \<longleftrightarrow> map_has names x \<or> x \<in> set (map_keys (na # kvs))"
    using ih by (auto simp: has1 na)
  have "\<forall>x. map_has als' x \<longleftrightarrow> map_has als x \<or> x \<in> set (aliases_of (na # kvs))"
    using ih by (auto simp: al1 na aliases_of_Cons split: option.split)
  with keys ih ok show ?case by blast
qed

lemma map_has_Cons: "map_has ((k, v) # kvs) x \<longleftrightarrow> x = k \<or> map_has kvs x"
  by (simp add: map_has_def)

definition section_relation :: "action option gomap \<Rightarrow> (string \<times> string) set" where
  "section_relation m = {(n, d). \<exists>a. (n, Some a) \<in> set m \<and> d \<in> set (a_dependsOn a)}"

lemma validated_graph:
  assumes "distinct (map_keys m)"
  shows "dep_relation (List.map_filter (\<lambda>(n, a). map_option (\<lambda>a. (n, a_dependsOn a)) a) m) = section_relation m"
proof -
  have "map_of (List.map_filter (\<lambda>(n, a). map_option (\<lambda>a. (n, a_dependsOn a)) a) m) n =
      (case map_of m n of Some (Some a) \<Rightarrow> Some (a_dependsOn a) | _ \<Rightarrow> None)" for n
    using assms
  proof (induction m)
    case (Cons x m)
    obtain k a where x: "x = (k, a)" by (cases x)
    have "map_of m k = None" using Cons.prems by (simp add: x map_of_eq_None_iff map_keys_def)
    with Cons show ?case by (cases a) (auto simp: x List.map_filter_def)
  qed (simp add: List.map_filter_def)
  moreover have "(n, Some a) \<in> set m \<longleftrightarrow> map_of m n = Some (Some a)" for n a
    using assms by (simp add: map_keys_def)
  ultimately show ?thesis
    by (auto simp: dep_relation_def section_relation_def map_get_def split: option.splits)
qed

lemma validateNoCycles_Nil:
  "distinct (map_keys m) \<Longrightarrow> validateNoCycles m s = [] \<longleftrightarrow> acyclic (section_relation m)"
proof -
  assume d: "distinct (map_keys m)"
  let ?deps = "List.map_filter (\<lambda>(n, a). map_option (\<lambda>a. (n, a_dependsOn a)) a) m"
  show ?thesis
  proof (cases "findCycle ?deps")
    case None
    with findCycle_spec [of ?deps] show ?thesis by (simp add: validateNoCycles_def validated_graph d)
  next
    case (Some c)
    with findCycle_spec [of ?deps] have "reported_cycle ?deps c" by simp
    from reported_not_acyclic [OF this] Some show ?thesis by (simp add: validateNoCycles_def validated_graph d)
  qed
qed

lemma all_action_names_has:
  "map_has (all_action_names w) x \<longleftrightarrow> map_has (w_actions w) x \<or> map_has (w_finally w) x"
proof -
  have a: "map_has (fold (\<lambda>(n, a) m. map_put n ''actions'' m) kvs m0) x \<longleftrightarrow> map_has m0 x \<or> map_has kvs x"
    for kvs :: "action option gomap" and m0
  proof (induction kvs arbitrary: m0)
    case (Cons kv kvs)
    obtain k v where kv: "kv = (k, v)" by (cases kv)
    show ?case using Cons.IH [of "map_put k ''actions'' m0"] by (simp add: kv map_has_Cons) blast
  qed simp
  have f: "map_has (fold (\<lambda>(n, a) m. if map_has m n then m else map_put n ''finally'' m) kvs m0) x \<longleftrightarrow>
      map_has m0 x \<or> map_has kvs x" for kvs :: "action option gomap" and m0
  proof (induction kvs arbitrary: m0)
    case (Cons kv kvs)
    obtain k v where kv: "kv = (k, v)" by (cases kv)
    show ?case
    proof (cases "map_has m0 k")
      case True
      then have "map_has m0 x" if "x = k" using that by simp
      with True Cons.IH [of m0] show ?thesis by (simp add: kv map_has_Cons) blast
    next
      case False
      with Cons.IH [of "map_put k ''finally'' m0"] show ?thesis by (simp add: kv map_has_Cons) blast
    qed
  qed simp
  show ?thesis by (simp add: all_action_names_def a f)
qed

text \<open>What \<open>ValidateWorkflow\<close> promises of a workflow it accepts.\<close>

definition valid_section :: "validation_env \<Rightarrow> workflow \<Rightarrow> string \<Rightarrow> action option gomap \<Rightarrow> bool" where
  "valid_section env w section m =
     ((\<forall>(n, a) \<in> set m. valid_name n \<and> (\<exists>x. a = Some x \<and> valid_action env w section n x)) \<and>
      acyclic (section_relation m))"

definition valid_workflow :: "validation_env \<Rightarrow> workflow \<Rightarrow> bool" where
  "valid_workflow env w =
     (schemaMode_IsValid (w_schemaMode w) \<and>
      valid_section env w ''actions'' (w_actions w) \<and> valid_section env w ''finally'' (w_finally w) \<and>
      set (map_keys (w_actions w)) \<inter> set (map_keys (w_finally w)) = {} \<and>
      (let als = aliases_of (w_actions w) @ aliases_of (w_finally w) in
       distinct als \<and> (\<forall>al \<in> set als. valid_name al \<and> al \<notin> set reservedNames \<and>
         al \<notin> set (map_keys (w_actions w)) \<and> al \<notin> set (map_keys (w_finally w)))))"

lemma ValidateWorkflow_spec:
  assumes d: "distinct (map_keys (w_actions w))" "distinct (map_keys (w_finally w))"
  shows "ValidateWorkflow env (Some w) = [] \<longleftrightarrow> valid_workflow env w"
proof -
  let ?all = "all_action_names w"
  define e0 where "e0 = when_err (w_schemaMode w \<noteq> SchemaUnset \<and> \<not> schemaMode_IsValid (w_schemaMode w))
                        (add_error [] [] ''resultSchemaMode'' (BadSchemaMode (w_schemaMode w)))"
  have e0: "e0 = [] \<longleftrightarrow> schemaMode_IsValid (w_schemaMode w)" by (auto simp: e0_def schemaMode_IsValid_def)
  obtain e1 n1 a1 where r1: "fold (validate_entry env ''actions'' ?all w) (w_actions w) (e0, [], []) = (e1, n1, a1)"
    by (metis prod_cases3)
  define e2 where "e2 = e1 @ validateNoCycles (w_actions w) ''actions''"
  obtain e3 n3 a3 where r3: "fold (validate_entry env ''finally'' ?all w) (w_finally w) (e2, n1, a1) = (e3, n3, a3)"
    by (metis prod_cases3)
  have res: "ValidateWorkflow env (Some w) = e3 @ validateNoCycles (w_finally w) ''finally''"
    by (simp add: ValidateWorkflow_def validateSection_def Let_def e0_def [symmetric] r1 e2_def [symmetric] r3)
  note l1 = entries_spec [OF disjI1 [OF refl] d(1) r1] and l3 = entries_spec [OF disjI2 [OF refl] d(2) r3]
  note s1 = conjunct1 [OF l1] conjunct1 [OF conjunct2 [OF l1]] conjunct2 [OF conjunct2 [OF l1]]
    and s3 = conjunct2 [OF conjunct2 [OF l3]]
  have keys: "(\<forall>(n, a) \<in> set (w_finally w). \<not> map_has n1 n) \<longleftrightarrow>
      set (map_keys (w_actions w)) \<inter> set (map_keys (w_finally w)) = {}"
    using s1(1) by (force simp: map_keys_def)
  have al: "valid_alias ?all al \<longleftrightarrow> valid_name al \<and> al \<notin> set reservedNames \<and>
         al \<notin> set (map_keys (w_actions w)) \<and> al \<notin> set (map_keys (w_finally w))" for al
    unfolding valid_alias_def all_action_names_has by (simp add: map_has_iff_keys)
  have ok1: "entries_ok env w ''actions'' ?all [] [] (w_actions w) \<longleftrightarrow>
      (\<forall>(n, a) \<in> set (w_actions w). valid_name n \<and> (\<exists>x. a = Some x \<and> valid_action env w ''actions'' n x)) \<and>
      distinct (aliases_of (w_actions w)) \<and> (\<forall>al \<in> set (aliases_of (w_actions w)). valid_alias ?all al)"
    by (simp add: entries_ok_def)
  have ok3: "entries_ok env w ''finally'' ?all n1 a1 (w_finally w) \<longleftrightarrow>
      (\<forall>(n, a) \<in> set (w_finally w). valid_name n \<and> (\<exists>x. a = Some x \<and> valid_action env w ''finally'' n x)) \<and>
      (\<forall>(n, a) \<in> set (w_finally w). \<not> map_has n1 n) \<and> distinct (aliases_of (w_finally w)) \<and>
      (\<forall>al \<in> set (aliases_of (w_finally w)). valid_alias ?all al) \<and>
      set (aliases_of (w_actions w)) \<inter> set (aliases_of (w_finally w)) = {}"
    using s1(2) unfolding entries_ok_def by fastforce
  show ?thesis
    unfolding res append_is_Nil_conv s3 e2_def s1(3) e0 validateNoCycles_Nil [OF d(1)] validateNoCycles_Nil [OF d(2)]
      ok1 ok3 keys valid_workflow_def valid_section_def Let_def distinct_append set_append ball_Un al
    by blast
qed

section \<open>Properties\<close>

text \<open>C19: ValidateWorkflow accepts exactly the valid workflows: names and aliases well formed and used once, dependencies
  and exclusions within the section, references to existing actions, no cycle, providers that can act, options in
  their ranges and patterns that stay below the solution; in whatever order the maps are visited.\<close>

theorem validation_accepts_iff:
  assumes "distinct (map_keys (w_actions w))" "distinct (map_keys (w_finally w))"
  shows "ValidateWorkflow env (Some w) = [] \<longleftrightarrow> valid_workflow env w"
  by (rule ValidateWorkflow_spec [OF assms])

definition sample_validation_env :: validation_env where
  "sample_validation_env = \<lparr>vd_val = sample_val_env, vd_registry = Some (\<lambda>p. if p = ''p'' then Some NameOnly else None),
     vd_glob = (\<lambda>_. True)\<rparr>"

theorem validation_accepts_iff_witness:
  "valid_workflow sample_validation_env sample_workflow \<and>
   \<not> valid_workflow sample_validation_env (sample_workflow\<lparr>w_actions :=
       [(''a'', Some (sample_action [''b''] [])), (''b'', Some (sample_action [''a''] []))]\<rparr>)"
proof -
  have "ValidateWorkflow sample_validation_env (Some sample_workflow) = []" by code_simp
  moreover have "ValidateWorkflow sample_validation_env (Some (sample_workflow\<lparr>w_actions :=
       [(''a'', Some (sample_action [''b''] [])), (''b'', Some (sample_action [''a''] []))]\<rparr>)) \<noteq> []" by code_simp
  ultimately show ?thesis
    using validation_accepts_iff [of sample_workflow sample_validation_env]
      validation_accepts_iff [of "sample_workflow\<lparr>w_actions :=
       [(''a'', Some (sample_action [''b''] [])), (''b'', Some (sample_action [''a''] []))]\<rparr>" sample_validation_env]
    by (simp add: sample_workflow_def)
qed

text \<open>C30: A glob pattern is refused exactly when it is absolute or some prefix of it climbs above the directory it
  starts in; nothing that comes later in the pattern makes up for that.\<close>

theorem glob_safety_spec:
  "validateGlobSafety p = None \<longleftrightarrow> \<not> strings_HasPrefix p ''/'' \<and> stays_below 0 (split_slash p)"
  using glob_safe_iff [of p] by (simp add: safe_pattern_def)

end
