(* ===== verification/Coerce.thy ===== *)
theory Coerce
  imports Action_Types
begin

text \<open>
  \<open>pkg/spec/types.go\<close>: coercion of dynamic Go values to the declared type of a resolver, an
  argument or a parameter.

  A value of type \<open>any\<close> is \<open>go_any\<close>: the type switches of the source distinguish its constructors.
  The integers have their width; slices and maps carry their type name and elements, since
  \<open>reflect\<close> accepts every slice type and every map type with string keys.  A \<open>float64\<close> is its bit
  pattern; what the hardware and the standard library compute with floats, times and durations is
  the parameter \<open>coerce_env\<close>.  \<open>int\<close> has 64 bits.  Type names are ASCII.
\<close>

type_synonym float_bits = "64 word"

datatype go_time = ZeroTime | UnixTime "64 word" "64 word" | ParsedTime string string

datatype pb_value = PbNilPointer | PbNull | PbOther

datatype go_any =
    NilV | StringV string
  | IntV "64 word" | Int8V "8 word" | Int16V "16 word" | Int32V "32 word" | Int64V "64 word"
  | UintV "64 word" | Uint8V "8 word" | Uint16V "16 word" | Uint32V "32 word" | Uint64V "64 word"
  | Float32V float_bits | Float64V float_bits | BoolV bool
  | TimeV go_time | DurationV "64 word"
  | SliceV string "go_any list"
  | MapV string bool "(string \<times> go_any) list"
  | NullEnumV | StructpbV pb_value
  | OtherV string

record coerce_env =
  ev_formatFloat :: "nat \<Rightarrow> float_bits \<Rightarrow> string"
  ev_parseFloat :: "string \<Rightarrow> float_bits option"
  ev_widen :: "float_bits \<Rightarrow> float_bits"
  ev_floatOfInt :: "int \<Rightarrow> float_bits"
  ev_float32OfInt :: "int \<Rightarrow> float_bits"
  ev_truncate :: "float_bits \<Rightarrow> 64 word"
  ev_floatEq :: "float_bits \<Rightarrow> float_bits \<Rightarrow> bool"
  ev_floatLess :: "float_bits \<Rightarrow> float_bits \<Rightarrow> bool"
  ev_fractionNanos :: "float_bits \<Rightarrow> 64 word \<Rightarrow> 64 word"
  ev_timesSecond :: "float_bits \<Rightarrow> 64 word"
  ev_formatTime :: "go_time \<Rightarrow> string"
  ev_parseTime :: "string \<Rightarrow> string \<Rightarrow> go_time option"
  ev_formatDuration :: "64 word \<Rightarrow> string"
  ev_parseDuration :: "string \<Rightarrow> 64 word option"

text \<open>A declared type is a string; \<open>TypeOther\<close> holds the names that are none of the constants.\<close>

datatype spec_type =
    TypeString | TypeInt | TypeFloat | TypeBool | TypeArray | TypeObject | TypeTime | TypeDuration | TypeAny
  | TypeUnset | TypeOther string

datatype coerce_error =
    UnknownType spec_type
  | CannotCoerce go_any spec_type
  | ExceedsIntRange go_any
  | HasDecimalPart go_any
  | BadString string spec_type
  | MapKeyNotString go_any

section \<open>Types\<close>

definition ascii_lower :: "char \<Rightarrow> char" where
  "ascii_lower c = (let n = of_char c :: nat in if 65 \<le> n \<and> n \<le> 90 then char_of (n + 32) else c)"

definition normalizeType :: "spec_type \<Rightarrow> spec_type" where
  "normalizeType t =
     (case t of
        TypeOther n \<Rightarrow>
          (let l = map ascii_lower n in
           if l = ''timestamp'' \<or> l = ''datetime'' then TypeTime
           else if l = ''integer'' then TypeInt
           else if l = ''number'' then TypeFloat
           else if l = ''boolean'' then TypeBool
           else if l = ''map'' then TypeObject
           else t)
      | _ \<Rightarrow> t)"

definition IsScalar :: "spec_type \<Rightarrow> bool" where
  "IsScalar t = (t = TypeString \<or> t = TypeInt \<or> t = TypeFloat \<or> t = TypeBool)"

definition isNullValue :: "go_any \<Rightarrow> bool" where
  "isNullValue v =
     (case v of NilV \<Rightarrow> True | NullEnumV \<Rightarrow> True | StructpbV PbNilPointer \<Rightarrow> True | StructpbV PbNull \<Rightarrow> True
      | _ \<Rightarrow> False)"

definition any_slice :: string where
  "any_slice = ''[]interface {}''"

definition any_map :: string where
  "any_map = ''map[string]interface {}''"

definition zeroValueForType :: "spec_type \<Rightarrow> go_any" where
  "zeroValueForType t =
     (case t of
        TypeString \<Rightarrow> StringV []
      | TypeInt \<Rightarrow> IntV 0
      | TypeFloat \<Rightarrow> Float64V 0
      | TypeBool \<Rightarrow> BoolV False
      | TypeArray \<Rightarrow> SliceV any_slice []
      | TypeObject \<Rightarrow> MapV any_map True []
      | TypeTime \<Rightarrow> TimeV ZeroTime
      | TypeDuration \<Rightarrow> DurationV 0
      | _ \<Rightarrow> NilV)"

section \<open>Decimal integers and booleans\<close>

definition maxInt :: int where
  "maxInt = 2 ^ 63 - 1"

definition FormatInt :: "int \<Rightarrow> string" where
  "FormatInt n = (if n < 0 then CHR ''-'' # decimal (nat (- n)) else decimal (nat n))"

definition digits_value :: "string \<Rightarrow> nat" where
  "digits_value ds = fold (\<lambda>c acc. acc * 10 + char_digit c) ds 0"

text \<open>\<open>strconv.ParseInt(s, 10, 64)\<close>: an optional sign, digits, and a value of 64 bits.\<close>

definition ParseInt :: "string \<Rightarrow> 64 word option" where
  "ParseInt s =
     (let neg = (s \<noteq> [] \<and> hd s = CHR ''-'');
          ds = (if s \<noteq> [] \<and> (hd s = CHR ''-'' \<or> hd s = CHR ''+'') then tl s else s);
          n = (if neg then - int (digits_value ds) else int (digits_value ds))
      in if ds = [] \<or> \<not> list_all is_digit ds \<or> n > maxInt \<or> n < - maxInt - 1 then None
         else Some (word_of_int n))"

definition FormatBool :: "bool \<Rightarrow> string" where
  "FormatBool b = (if b then ''true'' else ''false'')"

definition ParseBool :: "string \<Rightarrow> bool option" where
  "ParseBool s =
     (if s \<in> {''1'', ''t'', ''T'', ''true'', ''TRUE'', ''True''} then Some True
      else if s \<in> {''0'', ''f'', ''F'', ''false'', ''FALSE'', ''False''} then Some False
      else None)"

section \<open>The coercions\<close>

definition coerceToString :: "coerce_env \<Rightarrow> go_any \<Rightarrow> coerce_error + string" where
  "coerceToString env v =
     (case v of
        StringV s \<Rightarrow> Inr s
      | IntV n \<Rightarrow> Inr (FormatInt (sint n)) | Int8V n \<Rightarrow> Inr (FormatInt (sint n))
      | Int16V n \<Rightarrow> Inr (FormatInt (sint n)) | Int32V n \<Rightarrow> Inr (FormatInt (sint n))
      | Int64V n \<Rightarrow> Inr (FormatInt (sint n))
      | UintV n \<Rightarrow> Inr (decimal (unat n)) | Uint8V n \<Rightarrow> Inr (decimal (unat n))
      | Uint16V n \<Rightarrow> Inr (decimal (unat n)) | Uint32V n \<Rightarrow> Inr (decimal (unat n))
      | Uint64V n \<Rightarrow> Inr (decimal (unat n))
      | Float32V f \<Rightarrow> Inr (ev_formatFloat env 32 (ev_widen env f))
      | Float64V f \<Rightarrow> Inr (ev_formatFloat env 64 f)
      | BoolV b \<Rightarrow> Inr (FormatBool b)
      | TimeV t \<Rightarrow> Inr (ev_formatTime env t)
      | DurationV d \<Rightarrow> Inr (ev_formatDuration env d)
      | _ \<Rightarrow> Inl (CannotCoerce v TypeString))"

definition coerceToInt :: "coerce_env \<Rightarrow> go_any \<Rightarrow> coerce_error + 64 word" where
  "coerceToInt env v =
     (case v of
        IntV n \<Rightarrow> Inr n
      | Int8V n \<Rightarrow> Inr (scast n) | Int16V n \<Rightarrow> Inr (scast n) | Int32V n \<Rightarrow> Inr (scast n)
      | Int64V n \<Rightarrow> if sint n > maxInt \<or> sint n < - maxInt - 1 then Inl (ExceedsIntRange v) else Inr n
      | UintV n \<Rightarrow> if uint n > maxInt then Inl (ExceedsIntRange v) else Inr n
      | Uint8V n \<Rightarrow> Inr (ucast n) | Uint16V n \<Rightarrow> Inr (ucast n) | Uint32V n \<Rightarrow> Inr (ucast n)
      | Uint64V n \<Rightarrow> if uint n > maxInt then Inl (ExceedsIntRange v) else Inr n
      | Float32V f \<Rightarrow>
          if \<not> ev_floatEq env (ev_float32OfInt env (sint (ev_truncate env f))) f then Inl (HasDecimalPart v)
          else Inr (ev_truncate env f)
      | Float64V f \<Rightarrow>
          if \<not> ev_floatEq env (ev_floatOfInt env (sint (ev_truncate env f))) f then Inl (HasDecimalPart v)
          else if ev_floatLess env (ev_floatOfInt env maxInt) f \<or> ev_floatLess env f (ev_floatOfInt env (- maxInt - 1))
          then Inl (ExceedsIntRange v)
          else Inr (ev_truncate env f)
      | StringV s \<Rightarrow>
          (case ParseInt s of
             None \<Rightarrow> Inl (BadString s TypeInt)
           | Some i \<Rightarrow> if sint i > maxInt \<or> sint i < - maxInt - 1 then Inl (ExceedsIntRange v) else Inr i)
      | BoolV b \<Rightarrow> Inr (if b then 1 else 0)
      | _ \<Rightarrow> Inl (CannotCoerce v TypeInt))"

definition coerceToFloat :: "coerce_env \<Rightarrow> go_any \<Rightarrow> coerce_error + float_bits" where
  "coerceToFloat env v =
     (case v of
        Float32V f \<Rightarrow> Inr (ev_widen env f)
      | Float64V f \<Rightarrow> Inr f
      | IntV n \<Rightarrow> Inr (ev_floatOfInt env (sint n)) | Int8V n \<Rightarrow> Inr (ev_floatOfInt env (sint n))
      | Int16V n \<Rightarrow> Inr (ev_floatOfInt env (sint n)) | Int32V n \<Rightarrow> Inr (ev_floatOfInt env (sint n))
      | Int64V n \<Rightarrow> Inr (ev_floatOfInt env (sint n))
      | UintV n \<Rightarrow> Inr (ev_floatOfInt env (uint n)) | Uint8V n \<Rightarrow> Inr (ev_floatOfInt env (uint n))
      | Uint16V n \<Rightarrow> Inr (ev_floatOfInt env (uint n)) | Uint32V n \<Rightarrow> Inr (ev_floatOfInt env (uint n))
      | Uint64V n \<Rightarrow> Inr (ev_floatOfInt env (uint n))
      | StringV s \<Rightarrow> (case ev_parseFloat env s of None \<Rightarrow> Inl (BadString s TypeFloat) | Some f \<Rightarrow> Inr f)
      | BoolV b \<Rightarrow> Inr (ev_floatOfInt env (if b then 1 else 0))
      | _ \<Rightarrow> Inl (CannotCoerce v TypeFloat))"

definition coerceToBool :: "coerce_env \<Rightarrow> go_any \<Rightarrow> coerce_error + bool" where
  "coerceToBool env v =
     (case v of
        BoolV b \<Rightarrow> Inr b
      | StringV s \<Rightarrow> (case ParseBool s of None \<Rightarrow> Inl (BadString s TypeBool) | Some b \<Rightarrow> Inr b)
      | IntV n \<Rightarrow> Inr (n \<noteq> 0) | Int8V n \<Rightarrow> Inr (n \<noteq> 0) | Int16V n \<Rightarrow> Inr (n \<noteq> 0) | Int32V n \<Rightarrow> Inr (n \<noteq> 0)
      | Int64V n \<Rightarrow> Inr (n \<noteq> 0)
      | UintV n \<Rightarrow> Inr (n \<noteq> 0) | Uint8V n \<Rightarrow> Inr (n \<noteq> 0) | Uint16V n \<Rightarrow> Inr (n \<noteq> 0) | Uint32V n \<Rightarrow> Inr (n \<noteq> 0)
      | Uint64V n \<Rightarrow> Inr (n \<noteq> 0)
      | Float32V f \<Rightarrow> Inr (\<not> ev_floatEq env (ev_widen env f) 0) | Float64V f \<Rightarrow> Inr (\<not> ev_floatEq env f 0)
      | _ \<Rightarrow> Inl (CannotCoerce v TypeBool))"

text \<open>A map is copied entry by entry into a new map; the order of the copy is that of \<open>MapKeys\<close>.\<close>

definition coerceToObject :: "go_any \<Rightarrow> coerce_error + go_any" where
  "coerceToObject v =
     (case v of
        MapV ty stringKey kvs \<Rightarrow>
          if \<not> stringKey then Inl (MapKeyNotString v)
          else Inr (MapV any_map True (fold (\<lambda>(k, x) m. map_put k x m) kvs []))
      | _ \<Rightarrow> Inl (CannotCoerce v TypeObject))"

definition coerceToArray :: "go_any \<Rightarrow> go_any" where
  "coerceToArray v = (case v of SliceV ty xs \<Rightarrow> SliceV any_slice xs | _ \<Rightarrow> SliceV any_slice [v])"

definition time_formats :: "string list" where
  "time_formats =
     [''2006-01-02T15:04:05Z07:00'', ''2006-01-02T15:04:05.999999999Z07:00'', ''2006-01-02T15:04:05'',
      ''2006-01-02 15:04:05'', ''2006-01-02'']"

fun first_format :: "(string \<Rightarrow> 'a option) \<Rightarrow> string list \<Rightarrow> 'a option" where
  "first_format f [] = None"
| "first_format f (l # ls) = (case f l of Some t \<Rightarrow> Some t | None \<Rightarrow> first_format f ls)"

definition coerceToTime :: "coerce_env \<Rightarrow> go_any \<Rightarrow> coerce_error + go_time" where
  "coerceToTime env v =
     (case v of
        TimeV t \<Rightarrow> Inr t
      | StringV s \<Rightarrow>
          (case first_format (\<lambda>l. ev_parseTime env l s) time_formats of
             Some t \<Rightarrow> Inr t
           | None \<Rightarrow> (case ParseInt s of Some i \<Rightarrow> Inr (UnixTime i 0) | None \<Rightarrow> Inl (BadString s TypeTime)))
      | IntV n \<Rightarrow> Inr (UnixTime n 0) | Int32V n \<Rightarrow> Inr (UnixTime (scast n) 0) | Int64V n \<Rightarrow> Inr (UnixTime n 0)
      | Float64V f \<Rightarrow> let sec = ev_truncate env f in Inr (UnixTime sec (ev_fractionNanos env f sec))
      | _ \<Rightarrow> Inl (CannotCoerce v TypeTime))"

definition coerceToDuration :: "coerce_env \<Rightarrow> go_any \<Rightarrow> coerce_error + 64 word" where
  "coerceToDuration env v =
     (case v of
        DurationV d \<Rightarrow> Inr d
      | StringV s \<Rightarrow> (case ev_parseDuration env s of None \<Rightarrow> Inl (BadString s TypeDuration) | Some d \<Rightarrow> Inr d)
      | IntV n \<Rightarrow> Inr n | Int64V n \<Rightarrow> Inr n
      | Float64V f \<Rightarrow> Inr (ev_timesSecond env f)
      | _ \<Rightarrow> Inl (CannotCoerce v TypeDuration))"

definition map_right :: "('a \<Rightarrow> 'b) \<Rightarrow> 'e + 'a \<Rightarrow> 'e + 'b" where
  "map_right f r = (case r of Inl e \<Rightarrow> Inl e | Inr x \<Rightarrow> Inr (f x))"

definition CoerceType :: "coerce_env \<Rightarrow> go_any \<Rightarrow> spec_type \<Rightarrow> coerce_error + go_any" where
  "CoerceType env v ty =
     (let t = normalizeType ty in
      if t = TypeAny \<or> t = TypeUnset then Inr v
      else if isNullValue v then Inr (zeroValueForType t)
      else
        (case t of
           TypeString \<Rightarrow> map_right StringV (coerceToString env v)
         | TypeInt \<Rightarrow> map_right IntV (coerceToInt env v)
         | TypeFloat \<Rightarrow> map_right Float64V (coerceToFloat env v)
         | TypeBool \<Rightarrow> map_right BoolV (coerceToBool env v)
         | TypeArray \<Rightarrow> Inr (coerceToArray v)
         | TypeObject \<Rightarrow> coerceToObject v
         | TypeTime \<Rightarrow> map_right TimeV (coerceToTime env v)
         | TypeDuration \<Rightarrow> map_right DurationV (coerceToDuration env v)
         | _ \<Rightarrow> Inl (UnknownType t)))"

section \<open>Typing\<close>

text \<open>The Go type a coerced value has, for each declared type; a type name that is no type is only given to null.\<close>

definition hasType :: "go_any \<Rightarrow> spec_type \<Rightarrow> bool" where
  "hasType v t =
     (case t of
        TypeString \<Rightarrow> \<exists>s. v = StringV s
      | TypeInt \<Rightarrow> \<exists>n. v = IntV n
      | TypeFloat \<Rightarrow> \<exists>f. v = Float64V f
      | TypeBool \<Rightarrow> \<exists>b. v = BoolV b
      | TypeArray \<Rightarrow> \<exists>xs. v = SliceV any_slice xs
      | TypeObject \<Rightarrow> \<exists>m. v = MapV any_map True m \<and> distinct (map_keys m)
      | TypeTime \<Rightarrow> \<exists>x. v = TimeV x
      | TypeDuration \<Rightarrow> \<exists>d. v = DurationV d
      | TypeAny \<Rightarrow> True
      | TypeUnset \<Rightarrow> True
      | TypeOther n \<Rightarrow> v = NilV)"

lemma map_right_Inr: "map_right f r = Inr y \<longleftrightarrow> (\<exists>x. r = Inr x \<and> y = f x)"
  by (cases r) (auto simp: map_right_def)

lemma object_hasType: "coerceToObject v = Inr r \<Longrightarrow> \<exists>m. r = MapV any_map True m \<and> distinct (map_keys m)"
  using fold_put_distinct [of "[]" fst snd]
  by (auto simp: coerceToObject_def case_prod_unfold split: go_any.splits if_splits)

lemma array_hasType: "\<exists>xs. coerceToArray v = SliceV any_slice xs"
  by (cases v) (simp_all add: coerceToArray_def)

lemma CoerceType_hasType:
  assumes "CoerceType env v ty = Inr r"
  shows "hasType r (normalizeType ty)"
proof -
  show ?thesis
    using assms object_hasType [of v r] unfolding CoerceType_def Let_def
    by (cases "normalizeType ty") (auto simp: hasType_def map_right_Inr zeroValueForType_def array_hasType split: if_splits)
qed

lemma fold_put_id:
  "distinct (map_keys (m0 @ m)) \<Longrightarrow> fold (\<lambda>(k, x) m. map_put k x m) m m0 = m0 @ m"
proof (induction m arbitrary: m0)
  case (Cons kx m)
  obtain k x where kx: "kx = (k, x)" by (cases kx)
  have "k \<notin> set (map_keys m0)" using Cons.prems by (auto simp: kx map_keys_def)
  hence "map_put k x m0 = m0 @ [(k, x)]"
    unfolding map_put_def map_keys_def by (induction m0) auto
  with Cons show ?case by (simp add: kx)
qed simp

text \<open>A value that has the type already is left as it is.\<close>

lemma CoerceType_typed:
  assumes "hasType r (normalizeType ty)"
  shows "CoerceType env r ty = Inr r"
proof -
  have obj: "coerceToObject (MapV any_map True m) = Inr (MapV any_map True m)" if "distinct (map_keys m)" for m
    using fold_put_id [of "[]" m] that by (simp add: coerceToObject_def)
  show ?thesis
    using assms unfolding CoerceType_def Let_def
    by (cases "normalizeType ty") (auto simp: hasType_def coerceToString_def coerceToInt_def coerceToFloat_def
        coerceToBool_def obj coerceToArray_def coerceToTime_def coerceToDuration_def map_right_def isNullValue_def
        zeroValueForType_def)
qed

section \<open>Integers\<close>

text \<open>The integer a value denotes, whatever its Go type.\<close>

definition int_value :: "go_any \<Rightarrow> int option" where
  "int_value v =
     (case v of
        IntV n \<Rightarrow> Some (sint n) | Int8V n \<Rightarrow> Some (sint n) | Int16V n \<Rightarrow> Some (sint n) | Int32V n \<Rightarrow> Some (sint n)
      | Int64V n \<Rightarrow> Some (sint n)
      | UintV n \<Rightarrow> Some (uint n) | Uint8V n \<Rightarrow> Some (uint n) | Uint16V n \<Rightarrow> Some (uint n) | Uint32V n \<Rightarrow> Some (uint n)
      | Uint64V n \<Rightarrow> Some (uint n)
      | _ \<Rightarrow> None)"

lemma sint64_range: "- maxInt - 1 \<le> sint (n :: 64 word)" "sint (n :: 64 word) \<le> maxInt"
  using sint_ge [of n] sint_lt [of n] by (simp_all add: maxInt_def)

lemma sint_of_range: "- maxInt - 1 \<le> z \<Longrightarrow> z \<le> maxInt \<Longrightarrow> sint (word_of_int z :: 64 word) = z"
  by (simp add: maxInt_def sint_sbintrunc' signed_take_bit_int_eq_self)

lemma sint_up [simp]:
  "sint (scast (a :: 8 word) :: 64 word) = sint a" "sint (scast (b :: 16 word) :: 64 word) = sint b"
  "sint (scast (c :: 32 word) :: 64 word) = sint c"
  by (simp_all add: sint_up_scast is_up)

lemma uint_small: "uint (a :: 8 word) \<le> maxInt" "uint (b :: 16 word) \<le> maxInt" "uint (c :: 32 word) \<le> maxInt"
  using uint_lt2p [of a] uint_lt2p [of b] uint_lt2p [of c] by (simp_all add: maxInt_def)

lemma sint_zero_up [simp]:
  "sint (ucast (a :: 8 word) :: 64 word) = uint a" "sint (ucast (b :: 16 word) :: 64 word) = uint b"
  "sint (ucast (c :: 32 word) :: 64 word) = uint c"
proof -
  have u: "sint (word_of_int z :: 64 word) = z" if "0 \<le> z" "z \<le> maxInt" for z
    using that by (intro sint_of_range) (simp_all add: maxInt_def)
  show "sint (ucast a :: 64 word) = uint a" "sint (ucast b :: 64 word) = uint b" "sint (ucast c :: 64 word) = uint c"
    unfolding ucast_eq by (intro u; simp add: uint_small)+
qed

lemma sint_as_uint: "uint (n :: 64 word) \<le> maxInt \<Longrightarrow> sint n = uint n"
  using sint_of_range [of "uint n"] uint_ge_0 [of n] by (auto simp: maxInt_def)

lemma sint_small: "sint (a :: 8 word) \<le> maxInt" "sint (b :: 16 word) \<le> maxInt" "sint (c :: 32 word) \<le> maxInt"
  using sint64_range(2) [of "scast a"] sint64_range(2) [of "scast b"] sint64_range(2) [of "scast c"] by simp_all

lemma sint64_not_less: "\<not> sint (n :: 64 word) < - maxInt - 1" "\<not> maxInt < sint n"
  using sint64_range [of n] by simp_all

lemma coerceToInt_value:
  assumes "int_value v = Some z"
  shows "if z \<le> maxInt then \<exists>n. coerceToInt env v = Inr n \<and> sint n = z
         else coerceToInt env v = Inl (ExceedsIntRange v)"
  using assms by (cases v)
    (auto simp: int_value_def coerceToInt_def sint_as_uint sint64_not_less sint64_range uint_small sint_small)

lemma ParseInt_FormatInt: "- maxInt - 1 \<le> z \<Longrightarrow> z \<le> maxInt \<Longrightarrow> ParseInt (FormatInt z) = Some (word_of_int z)"
proof -
  assume r: "- maxInt - 1 \<le> z" "z \<le> maxInt"
  have dg: "list_all is_digit (decimal n)" for n using decimal_digits [of n] by (simp add: list_all_iff)
  have hd: "hd (decimal n) \<noteq> CHR ''-''" "hd (decimal n) \<noteq> CHR ''+''" for n
  proof -
    have "is_digit (hd (decimal n))" using decimal_digits [of n] by (simp add: hd_in_set)
    thus "hd (decimal n) \<noteq> CHR ''-''" "hd (decimal n) \<noteq> CHR ''+''" by (auto simp: is_digit_def)
  qed
  have val: "digits_value (decimal n) = n" for n by (simp add: digits_value_def decimal_value)
  show ?thesis
    using r by (cases "z < 0") (simp_all add: ParseInt_def FormatInt_def Let_def val dg hd)
qed

section \<open>Properties\<close>

text \<open>C31: Whatever the value and the declared type: a coercion that succeeds gives a value of the Go type the
  declared type stands for, and coercing that value once more changes nothing.\<close>

theorem coerced_value_has_type:
  assumes "CoerceType env v ty = Inr r"
  shows "hasType r (normalizeType ty) \<and> CoerceType env r ty = Inr r"
  using CoerceType_hasType [OF assms] CoerceType_typed by blast

definition sample_coerce_env :: coerce_env where
  "sample_coerce_env = \<lparr>ev_formatFloat = (\<lambda>_ _. []), ev_parseFloat = (\<lambda>_. None), ev_widen = id,
     ev_floatOfInt = word_of_int, ev_float32OfInt = word_of_int, ev_truncate = id, ev_floatEq = (=),
     ev_floatLess = (\<lambda>a b. sint a < sint b), ev_fractionNanos = (\<lambda>_ _. 0), ev_timesSecond = id,
     ev_formatTime = (\<lambda>_. []), ev_parseTime = (\<lambda>_ _. None), ev_formatDuration = (\<lambda>_. []),
     ev_parseDuration = (\<lambda>_. None)\<rparr>"

theorem coerced_value_has_type_witness:
  "CoerceType sample_coerce_env (StringV ''-17'') (TypeOther ''Integer'') = Inr (IntV (- 17)) \<and>
   CoerceType sample_coerce_env (IntV (- 17)) (TypeOther ''Integer'') = Inr (IntV (- 17))"
proof -
  have "CoerceType sample_coerce_env (StringV ''-17'') (TypeOther ''Integer'') = Inr (IntV (- 17))" by code_simp
  with coerced_value_has_type [OF this] show ?thesis by blast
qed

text \<open>Integers keep their value: an integer of any Go type coerces to the int of the same value, and exactly
  the unsigned values beyond the largest int are refused.\<close>

theorem integer_coercion_lossless:
  assumes "int_value v = Some z"
  shows "if z \<le> maxInt then \<exists>n. CoerceType env v TypeInt = Inr (IntV n) \<and> sint n = z
         else CoerceType env v TypeInt = Inl (ExceedsIntRange v)"
proof -
  have "\<not> isNullValue v" using assms by (cases v) (simp_all add: int_value_def isNullValue_def)
  thus ?thesis
    using coerceToInt_value [OF assms, of env]
    by (auto simp: CoerceType_def Let_def normalizeType_def map_right_def split: if_splits)
qed

theorem integer_coercion_lossless_witness:
  "CoerceType sample_coerce_env (Uint64V 0x8000000000000000) TypeInt = Inl (ExceedsIntRange (Uint64V 0x8000000000000000))"
proof -
  have "int_value (Uint64V 0x8000000000000000) = Some 9223372036854775808" by code_simp
  from integer_coercion_lossless [OF this, of sample_coerce_env] show ?thesis by (simp add: maxInt_def)
qed

text \<open>An int written as a string reads back as the same int, and so does a bool.\<close>

theorem string_coercion_roundtrip:
  "CoerceType env (case CoerceType env (IntV n) TypeString of Inr s \<Rightarrow> s | Inl e \<Rightarrow> NilV) TypeInt = Inr (IntV n) \<and>
   CoerceType env (case CoerceType env (BoolV b) TypeString of Inr s \<Rightarrow> s | Inl e \<Rightarrow> NilV) TypeBool = Inr (BoolV b)"
proof -
  have "ParseInt (FormatInt (sint n)) = Some n"
    using ParseInt_FormatInt [OF sint64_range] by simp
  moreover have "ParseBool (FormatBool b) = Some b" by (cases b) (simp_all add: ParseBool_def FormatBool_def)
  ultimately show ?thesis
    by (simp add: CoerceType_def Let_def normalizeType_def isNullValue_def coerceToString_def coerceToInt_def
        coerceToBool_def map_right_def sint64_not_less)
qed

text \<open>A null value passes for a type that does not exist: it becomes nil without an error, while any other
  value is refused.\<close>

theorem null_hides_unknown_type:
  assumes "normalizeType (TypeOther n) = TypeOther n"
  shows "CoerceType env v (TypeOther n) = (if isNullValue v then Inr NilV else Inl (UnknownType (TypeOther n)))"
  by (simp add: CoerceType_def assms zeroValueForType_def)

theorem null_hides_unknown_type_witness:
  "CoerceType sample_coerce_env NilV (TypeOther ''strng'') = Inr NilV \<and>
   CoerceType sample_coerce_env (StringV ''x'') (TypeOther ''strng'') = Inl (UnknownType (TypeOther ''strng''))"
proof -
  have "normalizeType (TypeOther ''strng'') = TypeOther ''strng''" by code_simp
  from null_hides_unknown_type [OF this] show ?thesis by (simp add: isNullValue_def)
qed

end
