(* ===== verification/Lru_Spec.thy ===== *)
theory Lru_Spec
  imports Prelude
begin

text \<open>
  The contract of a bounded least-recently-used cache, shared by the template cache
  (\<open>pkg/gotmpl/cache.go\<close>) and the TTL cache (\<open>pkg/cache/ttlcache.go\<close>).

  The abstract state is the list of the cached items, the most recently used first.
  \<open>lru_touch\<close> moves an item to the front, \<open>lru_drop\<close> forgets it, \<open>lru_put\<close> stores an item in
  front and cuts the list at the capacity.  The locale \<open>recency_cache\<close> states that an
  implementation with an item list \<open>items\<close>, an invariant \<open>inv\<close> and operations \<open>get\<close> and
  \<open>put\<close> behaves as these list operations do; the facts about every sequence of operations
  (the bound, distinct keys, how long an item survives) are proved once inside it.

  The file also holds Go's \<open>container/list\<close>: a list of element identities.
\<close>

section \<open>Lists of elements\<close>

text \<open>
  \<open>container/list\<close>: the list is the sequence of its elements' identities, front first; an
  element's value lives in a heap.  \<open>MoveToFront\<close> and \<open>Remove\<close> do nothing to an element that is
  not (or no longer) in the list.
\<close>

type_synonym elem = nat

definition MoveToFront :: "elem \<Rightarrow> elem list \<Rightarrow> elem list" where
  "MoveToFront e l = (if e \<in> set l then e # removeAll e l else l)"

definition list_remove :: "elem \<Rightarrow> elem list \<Rightarrow> elem list" where
  "list_remove e l = removeAll e l"

definition list_back :: "elem list \<Rightarrow> elem option" where
  "list_back l = (if l = [] then None else Some (last l))"

lemma set_MoveToFront [simp, set_simps]: "set (MoveToFront e l) = set l"
  by (auto simp: MoveToFront_def)

lemma distinct_MoveToFront [simp]: "distinct l \<Longrightarrow> distinct (MoveToFront e l)"
  by (simp add: MoveToFront_def distinct_removeAll)

lemma length_MoveToFront [simp]: "distinct l \<Longrightarrow> length (MoveToFront e l) = length l"
  by (metis distinct_MoveToFront distinct_card set_MoveToFront)

lemma set_list_remove [simp, set_simps]: "set (list_remove e l) = set l - {e}"
  by (simp add: list_remove_def)

lemma distinct_list_remove [simp]: "distinct l \<Longrightarrow> distinct (list_remove e l)"
  by (simp add: list_remove_def distinct_removeAll)

lemma list_back_iff: "list_back l = Some e \<longleftrightarrow> l \<noteq> [] \<and> e = last l"
  by (auto simp: list_back_def)

lemma list_back_in: "list_back l = Some e \<Longrightarrow> e \<in> set l"
  by (auto simp: list_back_def split: if_splits)

lemma remove_last: "distinct l \<Longrightarrow> l \<noteq> [] \<Longrightarrow> list_remove (last l) l = butlast l"
  by (cases l rule: rev_cases) (auto simp: list_remove_def)

lemma length_list_remove_le: "length (list_remove e l) \<le> length l"
  by (simp add: list_remove_def)

lemma length_list_remove_in: "e \<in> set l \<Longrightarrow> length (list_remove e l) < length l"
  by (simp add: list_remove_def length_removeAll_less)

section \<open>Recency lists\<close>

definition lru_drop :: "'k \<Rightarrow> ('k \<times> 'v) list \<Rightarrow> ('k \<times> 'v) list" where
  "lru_drop k xs = filter (\<lambda>p. fst p \<noteq> k) xs"

definition lru_touch :: "'k \<Rightarrow> ('k \<times> 'v) list \<Rightarrow> ('k \<times> 'v) list" where
  "lru_touch k xs = (case map_of xs k of None \<Rightarrow> xs | Some v \<Rightarrow> (k, v) # lru_drop k xs)"

definition lru_put :: "nat \<Rightarrow> 'k \<Rightarrow> 'v \<Rightarrow> ('k \<times> 'v) list \<Rightarrow> ('k \<times> 'v) list" where
  "lru_put n k v xs = take n ((k, v) # lru_drop k xs)"

definition lru_ok :: "nat \<Rightarrow> ('k \<times> 'v) list \<Rightarrow> bool" where
  "lru_ok n xs = (distinct (map fst xs) \<and> length xs \<le> n)"

lemma keys_lru_drop [simp]: "fst ` set (lru_drop k xs) = fst ` set xs - {k}"
  by (auto simp: lru_drop_def)

lemma lru_drop_id: "k \<notin> fst ` set xs \<Longrightarrow> lru_drop k xs = xs"
  by (induction xs) (auto simp: lru_drop_def)

lemma lru_drop_append [simp]: "lru_drop k (xs @ ys) = lru_drop k xs @ lru_drop k ys"
  by (simp add: lru_drop_def)

lemma map_of_lru_drop [simp]: "map_of (lru_drop k xs) = (map_of xs)(k := None)"
  by (induction xs) (auto simp: lru_drop_def fun_eq_iff)

lemma distinct_lru_drop: "distinct (map fst xs) \<Longrightarrow> distinct (map fst (lru_drop k xs))"
  by (simp add: lru_drop_def distinct_map_filter)

lemma length_lru_drop_in:
  "k \<in> fst ` set xs \<Longrightarrow> length (lru_drop k xs) < length xs"
  by (induction xs) (auto simp: lru_drop_def le_imp_less_Suc)

lemma length_lru_drop: "length (lru_drop k xs) \<le> length xs"
  by (simp add: lru_drop_def)

lemma map_of_lru_touch [simp]: "map_of (lru_touch k xs) = map_of xs"
  by (auto simp: lru_touch_def fun_eq_iff split: option.split)

lemma lru_ok_drop: "lru_ok n xs \<Longrightarrow> lru_ok n (lru_drop k xs)"
  unfolding lru_ok_def using length_lru_drop [of k xs] by (auto intro: distinct_lru_drop)

lemma lru_ok_touch: "lru_ok n xs \<Longrightarrow> lru_ok n (lru_touch k xs)"
  using length_lru_drop_in [of k xs]
  by (auto simp: lru_ok_def lru_touch_def distinct_lru_drop dest: map_of_SomeD split: option.split)
    (force dest: map_of_SomeD)

lemma lru_ok_put: "lru_ok n xs \<Longrightarrow> lru_ok n (lru_put n k v xs)"
  by (simp add: lru_ok_def lru_put_def take_map [symmetric] distinct_lru_drop distinct_take)

lemma lru_put_front: "0 < n \<Longrightarrow> map_of (lru_put n k v xs) k = Some v"
  by (cases n) (auto simp: lru_put_def)

lemma map_list_remove:
  assumes "distinct (map fst (map f l))" "e \<in> set l"
  shows "map f (removeAll e l) = lru_drop (fst (f e)) (map f l)"
  using assms
proof (induction l)
  case (Cons x l)
  show ?case
  proof (cases "x = e")
    case True
    hence "e \<notin> set l" using Cons.prems by auto
    moreover have "fst (f e) \<notin> fst ` set (map f l)" using Cons.prems True by (auto simp: image_image)
    ultimately show ?thesis using True lru_drop_id [of "fst (f e)" "map f l"] by (simp add: lru_drop_def)
  next
    case False
    with Cons.prems have "fst (f x) \<noteq> fst (f e)" by force
    with False Cons show ?thesis by (simp add: lru_drop_def)
  qed
qed simp

lemma map_MoveToFront:
  assumes "distinct (map fst (map f l))" "e \<in> set l"
  shows "map f (MoveToFront e l) = f e # lru_drop (fst (f e)) (map f l)"
  using map_list_remove [OF assms] assms(2) by (simp add: MoveToFront_def)

lemma lru_drop_cong:
  assumes "\<And>x. x \<in> set l \<Longrightarrow> fst (f x) = fst (g x)" "\<And>x. x \<in> set l \<Longrightarrow> fst (g x) \<noteq> k \<Longrightarrow> f x = g x"
  shows "lru_drop k (map f l) = lru_drop k (map g l)"
proof -
  have "filter (\<lambda>x. fst (f x) \<noteq> k) l = filter (\<lambda>x. fst (g x) \<noteq> k) l"
    using assms(1) by (intro filter_cong) auto
  thus ?thesis using assms(2) by (simp add: lru_drop_def filter_map o_def)
qed

text \<open>The items in front of a key: the ones used since it was used last.\<close>

definition ahead :: "'k \<Rightarrow> ('k \<times> 'v) list \<Rightarrow> 'k set" where
  "ahead k xs = fst ` set (takeWhile (\<lambda>p. fst p \<noteq> k) xs)"

lemma ahead_Cons [simp]: "ahead k (p # xs) = (if fst p = k then {} else insert (fst p) (ahead k xs))"
  by (auto simp: ahead_def)

lemma ahead_Nil [simp]: "ahead k [] = {}"
  by (simp add: ahead_def)

lemma ahead_lru_drop: "j \<noteq> k \<Longrightarrow> ahead k (lru_drop j xs) \<subseteq> ahead k xs"
  by (induction xs) (auto simp: lru_drop_def)

lemma ahead_lru_touch: "j \<noteq> k \<Longrightarrow> ahead k (lru_touch j xs) \<subseteq> insert j (ahead k xs)"
  using ahead_lru_drop [of j k xs] by (auto simp: lru_touch_def split: option.split)

lemma ahead_take: "ahead k (take n xs) \<subseteq> ahead k xs"
  by (induction xs arbitrary: n) (auto simp: take_Cons split: nat.splits)

lemma ahead_lru_put: "j \<noteq> k \<Longrightarrow> ahead k (lru_put n j v xs) \<subseteq> insert j (ahead k xs)"
  using ahead_take [of k n "(j, v) # lru_drop j xs"] ahead_lru_drop [of j k xs]
  by (auto simp: lru_put_def)

lemma position_ahead:
  assumes "distinct (map fst xs)" "map_of xs k = Some v" "card (ahead k xs) < n"
  shows "map_of (take n xs) k = Some v"
proof -
  obtain ys p zs where xs: "xs = ys @ p # zs" and p: "fst p = k" and ys: "\<forall>q \<in> set ys. fst q \<noteq> k"
  proof -
    have "\<exists>q \<in> set xs. fst q = k" using map_of_SomeD [OF assms(2)] by force
    from split_list_first_prop [OF this] that show thesis by blast
  qed
  have tw: "takeWhile (\<lambda>p. fst p \<noteq> k) xs = ys" unfolding xs using ys p by (subst takeWhile_append2) auto
  have nin: "map_of ys k = None" using ys by (auto simp: map_of_eq_None_iff)
  obtain k' v' where pv: "p = (k', v')" by (cases p)
  with p have pv: "p = (k, v')" by simp
  from assms(2) nin have v: "v' = v" by (simp add: xs pv map_add_def)
  have "distinct (map fst ys)" using assms(1) by (simp add: xs)
  hence "card (ahead k xs) = length ys"
    using distinct_card [of "map fst ys"] by (simp add: ahead_def tw)
  hence "length ys < n" using assms(3) by simp
  hence "take n xs = ys @ p # take (n - length ys - 1) zs" by (simp add: xs take_Cons')
  with nin pv v show ?thesis by (simp add: map_add_def)
qed

section \<open>The interface\<close>

datatype ('c, 'k, 'w) cache_op = CacheGet 'c 'k | CachePut 'c 'k 'w

fun op_key :: "('c, 'k, 'w) cache_op \<Rightarrow> 'k" where
  "op_key (CacheGet c k) = k"
| "op_key (CachePut c k w) = k"

text \<open>
  \<open>'c\<close> is what an operation reads besides the cache (the clock), \<open>'w\<close> what the client stores,
  \<open>'v\<close> the item kept for it, \<open>'r\<close> what a lookup returns.
\<close>

locale recency_cache =
  fixes inv :: "'s \<Rightarrow> bool"
    and items :: "'s \<Rightarrow> ('k \<times> 'v) list"
    and capacity :: "'s \<Rightarrow> nat"
    and stamp :: "'c \<Rightarrow> 'w \<Rightarrow> 'v"
    and fresh :: "'c \<Rightarrow> 's \<Rightarrow> 'v \<Rightarrow> bool"
    and read :: "'v \<Rightarrow> 'r option"
    and get :: "'c \<Rightarrow> 'k \<Rightarrow> 's \<Rightarrow> 'r option \<times> 's"
    and put :: "'c \<Rightarrow> 'k \<Rightarrow> 'w \<Rightarrow> 's \<Rightarrow> 's"
  assumes inv_ok: "inv s \<Longrightarrow> lru_ok (capacity s) (items s)"
    and capacity_pos: "inv s \<Longrightarrow> 0 < capacity s"
    and get_result: "inv s \<Longrightarrow>
      fst (get c k s) = (case map_of (items s) k of
                           None \<Rightarrow> None | Some v \<Rightarrow> if fresh c s v then read v else None)"
    and get_items: "inv s \<Longrightarrow>
      items (snd (get c k s)) = (case map_of (items s) k of
                                   None \<Rightarrow> items s
                                 | Some v \<Rightarrow> if fresh c s v then lru_touch k (items s)
                                            else lru_drop k (items s))"
    and get_inv: "inv s \<Longrightarrow> inv (snd (get c k s))"
    and get_capacity: "inv s \<Longrightarrow> capacity (snd (get c k s)) = capacity s"
    and get_fresh: "inv s \<Longrightarrow> fresh c' (snd (get c k s)) v = fresh c' s v"
    and put_items: "inv s \<Longrightarrow> items (put c k w s) = lru_put (capacity s) k (stamp c w) (items s)"
    and put_inv: "inv s \<Longrightarrow> inv (put c k w s)"
    and put_capacity: "inv s \<Longrightarrow> capacity (put c k w s) = capacity s"
    and put_fresh: "inv s \<Longrightarrow> fresh c' (put c k w s) v = fresh c' s v"
begin

fun run :: "('c, 'k, 'w) cache_op list \<Rightarrow> 's \<Rightarrow> 's" where
  "run [] s = s"
| "run (CacheGet c k # ops) s = run ops (snd (get c k s))"
| "run (CachePut c k w # ops) s = run ops (put c k w s)"

lemma run_inv: "inv s \<Longrightarrow> inv (run ops s)"
  by (induction ops s rule: run.induct) (auto simp: get_inv put_inv)

lemma run_capacity: "inv s \<Longrightarrow> capacity (run ops s) = capacity s"
  by (induction ops s rule: run.induct) (auto simp: get_inv put_inv get_capacity put_capacity)

lemma run_fresh: "inv s \<Longrightarrow> fresh c (run ops s) v = fresh c s v"
  by (induction ops s rule: run.induct) (auto simp: get_inv put_inv get_fresh put_fresh)

text \<open>The bound holds and no key is cached twice, whatever the clients do.\<close>

lemma run_bounded: "inv s \<Longrightarrow> length (items (run ops s)) \<le> capacity s"
  using inv_ok [OF run_inv] run_capacity by (fastforce simp: lru_ok_def)

lemma run_distinct: "inv s \<Longrightarrow> distinct (map fst (items (run ops s)))"
  using inv_ok [OF run_inv] by (simp add: lru_ok_def)

lemma get_after_put:
  "inv s \<Longrightarrow> fst (get c' k (put c k w s)) = (if fresh c' s (stamp c w) then read (stamp c w) else None)"
  by (simp add: get_result put_inv put_items put_fresh lru_put_front capacity_pos)

text \<open>Operations on other keys keep the item as long as few enough of them are distinct.\<close>

lemma survives:
  assumes "inv s" "map_of (items s) k = Some v"
    and "k \<notin> op_key ` set ops"
    and "card (ahead k (items s) \<union> op_key ` set ops) < capacity s"
  shows "map_of (items (run ops s)) k = Some v"
  using assms
proof (induction ops s rule: run.induct)
  case (2 c j ops s)
  let ?s = "snd (get c j s)"
  have jk: "j \<noteq> k" using 2(4) by auto
  have sub: "ahead k (items ?s) \<subseteq> insert j (ahead k (items s))"
    using ahead_lru_touch [OF jk, of "items s"] ahead_lru_drop [OF jk, of "items s"]
    by (auto simp: get_items 2(2) split: option.splits if_splits)
  have fin: "finite (ahead k (items s))" by (simp add: ahead_def)
  have "card (ahead k (items ?s) \<union> op_key ` set ops) \<le> card (ahead k (items s) \<union> op_key ` set (CacheGet c j # ops))"
    using sub fin by (intro card_mono) auto
  moreover have "map_of (items ?s) k = Some v"
    using 2(3) jk by (auto simp: get_items 2(2) split: option.split)
  ultimately show ?case
    using 2(1) [OF get_inv [OF 2(2)]] 2(4,5) by (simp add: get_capacity 2(2))
next
  case (3 c j w ops s)
  let ?s = "put c j w s"
  have jk: "j \<noteq> k" using 3(4) by auto
  have sub: "ahead k (items ?s) \<subseteq> insert j (ahead k (items s))"
    using ahead_lru_put [OF jk] by (simp add: put_items 3(2))
  have fin: "finite (ahead k (items s))" by (simp add: ahead_def)
  have le: "card (ahead k (items ?s) \<union> op_key ` set ops) \<le> card (ahead k (items s) \<union> op_key ` set (CachePut c j w # ops))"
    using sub fin by (intro card_mono) auto
  have "card (ahead k ((j, stamp c w) # lru_drop j (items s))) \<le> card (ahead k (items s) \<union> op_key ` set (CachePut c j w # ops))"
    using ahead_lru_drop [OF jk, of "items s"] fin jk by (intro card_mono) auto
  hence "map_of (items ?s) k = Some v"
    using 3(3,5) jk inv_ok [OF 3(2)]
    by (simp add: put_items 3(2) lru_put_def, intro position_ahead)
      (auto simp: lru_ok_def distinct_lru_drop)
  with le show ?case
    using 3(1) [OF put_inv [OF 3(2)]] 3(4,5) by (simp add: put_capacity 3(2))
qed simp

text \<open>The guarantee of the policy: an item is still there until \<open>capacity\<close> other keys were used.\<close>

lemma put_survives:
  assumes "inv s" "k \<notin> op_key ` set ops" "card (op_key ` set ops) < capacity s"
  shows "fst (get c' k (run ops (put c k w s))) =
           (if fresh c' s (stamp c w) then read (stamp c w) else None)"
proof -
  let ?s = "put c k w s"
  have inv: "inv ?s" by (rule put_inv [OF assms(1)])
  obtain n where n: "capacity s = Suc n" using capacity_pos [OF assms(1)] by (cases "capacity s") auto
  have "ahead k (items ?s) = {}" by (simp add: put_items assms(1) lru_put_def n)
  hence "map_of (items (run ops ?s)) k = Some (stamp c w)"
    using inv assms n by (intro survives) (simp_all add: put_items lru_put_def put_capacity)
  thus ?thesis by (simp add: get_result run_inv inv run_fresh put_fresh assms(1))
qed

end

end
