(* ===== verification/Template_Cache.thy ===== *)
theory Template_Cache
  imports Lru_Spec "HOL-Library.Word"
begin

text \<open>
  \<open>pkg/gotmpl/cache.go\<close>: the LRU cache of compiled Go templates and its metrics.

  Every method runs under the cache's lock, so an operation is one step of the state
  \<open>template_cache\<close>.  A compiled template is a value of the type \<open>'t\<close>; its \<open>Clone\<close> is a parameter
  (\<open>None\<close> is an error).  Counters are Go's \<open>uint64\<close>.  The time of an access is an argument.  The
  order of the association list of the metrics is the order in which \<open>range\<close> visits them.
\<close>

record template_metric =
  tm_name :: string
  tm_hits :: "64 word"
  tm_lastAccess :: nat

record 't cache_entry =
  ce_tmpl :: 't
  ce_element :: elem
  ce_name :: string

record 't template_cache =
  tc_cache :: "'t cache_entry gomap"
  tc_lru :: "elem list"
  tc_elems :: "(elem \<times> string) list"
  tc_next :: elem
  tc_maxSize :: int
  tc_hits :: "64 word"
  tc_misses :: "64 word"
  tc_evictions :: "64 word"
  tc_tmplHits :: "template_metric gomap"
  tc_metricsLimit :: int

definition NewTemplateCache :: "int \<Rightarrow> 't template_cache" where
  "NewTemplateCache n =
     \<lparr>tc_cache = [], tc_lru = [], tc_elems = [], tc_next = 0, tc_maxSize = (if n \<le> 0 then 100 else n),
      tc_hits = 0, tc_misses = 0, tc_evictions = 0, tc_tmplHits = [], tc_metricsLimit = 1000\<rparr>"

text \<open>The scan for the metric with the fewest hits: only a strictly smaller count replaces the minimum.\<close>

definition min_metric_step :: "string \<times> template_metric \<Rightarrow> 64 word \<times> string \<Rightarrow> 64 word \<times> string" where
  "min_metric_step nm m = (if tm_hits (snd nm) < fst m then (tm_hits (snd nm), fst nm) else m)"

definition min_metric :: "template_metric gomap \<Rightarrow> string" where
  "min_metric ms = snd (fold min_metric_step ms (- 1, []))"

definition evictLeastAccessedMetric :: "template_metric gomap \<Rightarrow> template_metric gomap" where
  "evictLeastAccessedMetric ms =
     (if ms = [] then ms
      else let n = min_metric ms in if n \<noteq> [] then map_del n ms else ms)"

definition trackTemplateHit :: "nat \<Rightarrow> string \<Rightarrow> 't template_cache \<Rightarrow> 't template_cache" where
  "trackTemplateHit now name c =
     (case map_of (tc_tmplHits c) name of
        Some m \<Rightarrow> c\<lparr>tc_tmplHits := map_put name (m\<lparr>tm_hits := tm_hits m + 1, tm_lastAccess := now\<rparr>) (tc_tmplHits c)\<rparr>
      | None \<Rightarrow>
          let ms = (if int (length (tc_tmplHits c)) \<ge> tc_metricsLimit c
                    then evictLeastAccessedMetric (tc_tmplHits c) else tc_tmplHits c)
          in c\<lparr>tc_tmplHits := map_put name \<lparr>tm_name = name, tm_hits = 1, tm_lastAccess = now\<rparr> ms\<rparr>)"

definition tc_Get :: "('t \<Rightarrow> 't option) \<Rightarrow> nat \<Rightarrow> string \<Rightarrow> 't template_cache \<Rightarrow> 't option \<times> 't template_cache" where
  "tc_Get clone now key c =
     (case map_of (tc_cache c) key of
        None \<Rightarrow> (None, c\<lparr>tc_misses := tc_misses c + 1\<rparr>)
      | Some e \<Rightarrow>
          let c = c\<lparr>tc_lru := MoveToFront (ce_element e) (tc_lru c), tc_hits := tc_hits c + 1\<rparr>;
              c = trackTemplateHit now (ce_name e) c
          in (case clone (ce_tmpl e) of
                None \<Rightarrow> (None, c\<lparr>tc_hits := tc_hits c - 1, tc_misses := tc_misses c + 1\<rparr>)
              | Some t \<Rightarrow> (Some t, c)))"

definition tc_evictOldest :: "'t template_cache \<Rightarrow> 't template_cache" where
  "tc_evictOldest c =
     (case list_back (tc_lru c) of
        None \<Rightarrow> c
      | Some el \<Rightarrow>
          let c = c\<lparr>tc_lru := list_remove el (tc_lru c)\<rparr>
          in (case map_of (tc_elems c) el of
                None \<Rightarrow> c
              | Some key \<Rightarrow> c\<lparr>tc_cache := map_del key (tc_cache c), tc_evictions := tc_evictions c + 1\<rparr>))"

definition tc_push :: "string \<Rightarrow> 't \<Rightarrow> string \<Rightarrow> 't template_cache \<Rightarrow> 't template_cache" where
  "tc_push key t name c =
     c\<lparr>tc_lru := tc_next c # tc_lru c, tc_elems := map_put (tc_next c) key (tc_elems c),
       tc_next := Suc (tc_next c),
       tc_cache := map_put key \<lparr>ce_tmpl = t, ce_element = tc_next c, ce_name = name\<rparr> (tc_cache c)\<rparr>"

definition tc_Put :: "string \<Rightarrow> 't \<Rightarrow> string \<Rightarrow> 't template_cache \<Rightarrow> 't template_cache" where
  "tc_Put key t name c =
     (case map_of (tc_cache c) key of
        Some e \<Rightarrow> c\<lparr>tc_cache := map_put key (e\<lparr>ce_tmpl := t, ce_name := name\<rparr>) (tc_cache c),
                    tc_lru := MoveToFront (ce_element e) (tc_lru c)\<rparr>
      | None \<Rightarrow> tc_push key t name (if int (length (tc_cache c)) \<ge> tc_maxSize c then tc_evictOldest c else c))"

definition tc_Clear :: "'t template_cache \<Rightarrow> 't template_cache" where
  "tc_Clear c = c\<lparr>tc_cache := [], tc_lru := []\<rparr>"

definition tc_ResetStats :: "'t template_cache \<Rightarrow> 't template_cache" where
  "tc_ResetStats c = c\<lparr>tc_hits := 0, tc_misses := 0, tc_evictions := 0, tc_tmplHits := []\<rparr>"

definition tc_ClearWithStats :: "'t template_cache \<Rightarrow> 't template_cache" where
  "tc_ClearWithStats c = c\<lparr>tc_cache := [], tc_lru := [], tc_hits := 0, tc_misses := 0, tc_evictions := 0, tc_tmplHits := []\<rparr>"

text \<open>
  The statistics.  The hit rate is the quotient of the two counters (\<open>None\<close> when it is the constant
  0 of an unused cache); Go's \<open>float64\<close> division is not evaluated.
\<close>

record cache_stats =
  cs_size :: nat
  cs_maxSize :: int
  cs_hits :: "64 word"
  cs_misses :: "64 word"
  cs_evictions :: "64 word"
  cs_hitRate :: "(64 word \<times> 64 word) option"
  cs_total :: "64 word"
  cs_top :: "template_metric list"

definition hitRate :: "'t template_cache \<Rightarrow> (64 word \<times> 64 word) option" where
  "hitRate c = (let total = tc_hits c + tc_misses c in if total = 0 then None else Some (tc_hits c, total))"

definition tc_Stats :: "'t template_cache \<Rightarrow> cache_stats" where
  "tc_Stats c = \<lparr>cs_size = length (tc_cache c), cs_maxSize = tc_maxSize c, cs_hits = tc_hits c, cs_misses = tc_misses c,
     cs_evictions = tc_evictions c, cs_hitRate = hitRate c, cs_total = tc_hits c + tc_misses c, cs_top = []\<rparr>"

text \<open>\<open>sort.Slice\<close> by descending hits; the order of equal counts is not specified, here it is stable.\<close>

definition GetDetailedStats :: "int \<Rightarrow> 't template_cache \<Rightarrow> cache_stats" where
  "GetDetailedStats topN c =
     (let ts = sort_key (\<lambda>m. - int (unat (tm_hits m))) (map snd (tc_tmplHits c));
          ts = (if 0 < topN \<and> topN < int (length ts) then take (nat topN) ts else ts)
      in (tc_Stats c)\<lparr>cs_top := ts\<rparr>)"

section \<open>The invariant\<close>

text \<open>
  The map and the list hold the same keys: the elements of the list are the elements of the entries,
  each with its entry's key.
\<close>

definition tc_key :: "'t template_cache \<Rightarrow> elem \<Rightarrow> string" where
  "tc_key c e = map_get [] (tc_elems c) e"

definition tc_inv :: "'t template_cache \<Rightarrow> bool" where
  "tc_inv c =
     (distinct (map_keys (tc_cache c)) \<and> distinct (map (tc_key c) (tc_lru c)) \<and>
      tc_key c ` set (tc_lru c) = set (map_keys (tc_cache c)) \<and>
      (\<forall>el \<in> set (tc_lru c). el < tc_next c \<and> map_has (tc_elems c) el) \<and>
      (\<forall>k e. map_of (tc_cache c) k = Some e \<longrightarrow> ce_element e \<in> set (tc_lru c) \<and> tc_key c (ce_element e) = k) \<and>
      0 < tc_maxSize c \<and> int (length (tc_cache c)) \<le> tc_maxSize c)"

definition tc_value :: "'t template_cache \<Rightarrow> string \<Rightarrow> 't \<times> string" where
  "tc_value c k = (case the (map_of (tc_cache c) k) of e \<Rightarrow> (ce_tmpl e, ce_name e))"

definition tc_items :: "'t template_cache \<Rightarrow> (string \<times> ('t \<times> string)) list" where
  "tc_items c = map (\<lambda>el. (tc_key c el, tc_value c (tc_key c el))) (tc_lru c)"

lemma fst_tc_items [simp]: "map fst (tc_items c) = map (tc_key c) (tc_lru c)"
  by (simp add: tc_items_def)

lemma map_of_tc_items:
  assumes "tc_inv c"
  shows "map_of (tc_items c) k = map_option (\<lambda>e. (ce_tmpl e, ce_name e)) (map_of (tc_cache c) k)"
proof -
  have keys: "k \<in> tc_key c ` set (tc_lru c) \<longleftrightarrow> map_of (tc_cache c) k \<noteq> None"
    using assms by (simp add: tc_inv_def flip: map_has_iff_keys) (simp add: map_has_def)
  have "map_of (map (\<lambda>el. (tc_key c el, tc_value c (tc_key c el))) l) k =
          (if k \<in> tc_key c ` set l then Some (tc_value c k) else None)" for l
    by (induction l) auto
  from this [of "tc_lru c"] show ?thesis
    unfolding tc_items_def keys by (auto simp: tc_value_def)
qed

lemma tc_length: "tc_inv c \<Longrightarrow> length (tc_lru c) = length (tc_cache c)"
  by (metis tc_inv_def distinct_card length_map list.set_map map_keys_def)

lemma tc_inv_ok: "tc_inv c \<Longrightarrow> lru_ok (nat (tc_maxSize c)) (tc_items c)"
proof -
  assume inv: "tc_inv c"
  have "length (tc_items c) = length (tc_cache c)" by (simp add: tc_items_def tc_length inv)
  moreover have "int (length (tc_cache c)) \<le> tc_maxSize c" using inv by (simp add: tc_inv_def)
  ultimately show ?thesis using inv by (simp add: lru_ok_def) (simp add: tc_inv_def)
qed

lemma track_same [simp]:
  "tc_cache (trackTemplateHit now name c) = tc_cache c" "tc_lru (trackTemplateHit now name c) = tc_lru c"
  "tc_elems (trackTemplateHit now name c) = tc_elems c" "tc_next (trackTemplateHit now name c) = tc_next c"
  "tc_maxSize (trackTemplateHit now name c) = tc_maxSize c" "tc_hits (trackTemplateHit now name c) = tc_hits c"
  "tc_misses (trackTemplateHit now name c) = tc_misses c"
  by (simp_all add: trackTemplateHit_def Let_def split: option.split)

text \<open>The invariant and the items depend on the map, the list and the elements only.\<close>

lemma tc_cong:
  assumes "tc_cache d = tc_cache c" "tc_elems d = tc_elems c" "tc_next d = tc_next c" "tc_maxSize d = tc_maxSize c"
  shows "tc_key d = tc_key c" "tc_value d = tc_value c"
    "tc_lru d = tc_lru c \<Longrightarrow> tc_inv d = tc_inv c" "tc_lru d = tc_lru c \<Longrightarrow> tc_items d = tc_items c"
proof -
  show k: "tc_key d = tc_key c" and v: "tc_value d = tc_value c"
    using assms by (simp_all add: tc_key_def tc_value_def fun_eq_iff)
  show "tc_inv d = tc_inv c" "tc_items d = tc_items c" if "tc_lru d = tc_lru c"
    using assms that k v by (simp_all add: tc_inv_def tc_items_def)
qed

lemma tc_Get_items_inv:
  assumes "tc_inv c" "map_of (tc_cache c) key = Some e"
    and d: "tc_cache d = tc_cache c" "tc_elems d = tc_elems c" "tc_next d = tc_next c" "tc_maxSize d = tc_maxSize c"
    and l: "tc_lru d = MoveToFront (ce_element e) (tc_lru c)"
  shows "tc_inv d" "tc_items d = lru_touch key (tc_items c)"
proof -
  have el: "ce_element e \<in> set (tc_lru c)" "tc_key c (ce_element e) = key"
    using assms(1,2) by (auto simp: tc_inv_def)
  have dk: "distinct (map (tc_key c) (tc_lru c))" using assms(1) by (simp add: tc_inv_def)
  note same = tc_cong(1,2) [OF d]
  have "distinct (map (tc_key c) (MoveToFront (ce_element e) (tc_lru c)))"
    using dk by (auto simp: distinct_map)
  thus "tc_inv d" using assms(1) unfolding tc_inv_def same d l by simp
  have "map_of (tc_items c) key = Some (ce_tmpl e, ce_name e)" by (simp add: map_of_tc_items assms)
  moreover have "tc_value c key = (ce_tmpl e, ce_name e)" by (simp add: tc_value_def assms(2))
  moreover have "tc_items d = (\<lambda>el. (tc_key c el, tc_value c (tc_key c el))) (ce_element e) # lru_drop key (tc_items c)"
    unfolding tc_items_def same l
    using map_MoveToFront [of "\<lambda>el. (tc_key c el, tc_value c (tc_key c el))" "tc_lru c" "ce_element e"] el dk
    by (simp add: o_def)
  ultimately show "tc_items d = lru_touch key (tc_items c)" by (simp add: lru_touch_def el)
qed
lemma tc_Put_hit:
  assumes inv: "tc_inv c" and e: "map_of (tc_cache c) key = Some e"
  shows "tc_inv (tc_Put key t name c)"
    "tc_items (tc_Put key t name c) = (key, (t, name)) # lru_drop key (tc_items c)"
proof -
  let ?d = "tc_Put key t name c"
  have el: "ce_element e \<in> set (tc_lru c)" "tc_key c (ce_element e) = key"
    using inv e by (auto simp: tc_inv_def)
  have dk: "distinct (map (tc_key c) (tc_lru c))" using inv by (simp add: tc_inv_def)
  have d: "tc_elems ?d = tc_elems c" "tc_next ?d = tc_next c" "tc_maxSize ?d = tc_maxSize c"
    "tc_lru ?d = MoveToFront (ce_element e) (tc_lru c)"
    "tc_cache ?d = map_put key (e\<lparr>ce_tmpl := t, ce_name := name\<rparr>) (tc_cache c)"
    by (simp_all add: tc_Put_def e)
  have key: "tc_key ?d = tc_key c" by (simp add: tc_key_def d fun_eq_iff)
  have has: "key \<in> set (map_keys (tc_cache c))" using e by (auto simp flip: map_has_iff_keys intro: map_has_Some)
  have len: "length (tc_cache ?d) = length (tc_cache c)"
    unfolding d(5) using length_map_put_has [OF has] .
  have dk': "distinct (map (tc_key c) (MoveToFront (ce_element e) (tc_lru c)))"
    using dk by (auto simp: distinct_map)
  show "tc_inv ?d"
    using inv dk' el has unfolding tc_inv_def key d(1-4) len
    by (auto simp: d(5) distinct_keys_put insert_absorb)
  let ?f = "\<lambda>el. (tc_key c el, tc_value c (tc_key c el))"
  let ?g = "\<lambda>el. (tc_key c el, tc_value ?d (tc_key c el))"
  have "tc_items ?d = map ?g (MoveToFront (ce_element e) (tc_lru c))"
    by (simp add: tc_items_def key d(4))
  also have "\<dots> = ?g (ce_element e) # lru_drop key (map ?g (tc_lru c))"
    using map_MoveToFront [of ?g "tc_lru c" "ce_element e"] dk el by (simp add: o_def)
  also have "lru_drop key (map ?g (tc_lru c)) = lru_drop key (map ?f (tc_lru c))"
    by (rule lru_drop_cong) (auto simp: tc_value_def d(5))
  finally show "tc_items ?d = (key, (t, name)) # lru_drop key (tc_items c)"
    by (simp add: tc_items_def el tc_value_def d(5))
qed

lemma tc_push_spec:
  assumes inv: "tc_inv c" and new: "map_of (tc_cache c) key = None"
    and room: "int (length (tc_cache c)) < tc_maxSize c"
  shows "tc_inv (tc_push key t name c)"
    "tc_items (tc_push key t name c) = (key, (t, name)) # tc_items c"
proof -
  let ?d = "tc_push key t name c"
  have nl: "tc_next c \<notin> set (tc_lru c)" using inv by (auto simp: tc_inv_def)
  have key: "tc_key ?d el = (if el = tc_next c then key else tc_key c el)" for el
    by (simp add: tc_key_def tc_push_def)
  have keys: "map (tc_key ?d) (tc_lru c) = map (tc_key c) (tc_lru c)"
    "tc_key ?d ` set (tc_lru c) = tc_key c ` set (tc_lru c)" using nl by (auto simp: key)
  have nk: "key \<notin> tc_key c ` set (tc_lru c)" "key \<notin> set (map_keys (tc_cache c))"
    using inv new by (auto simp: tc_inv_def map_has_def simp flip: map_has_iff_keys)
  have len: "length (tc_cache ?d) = Suc (length (tc_cache c))"
    by (simp add: tc_push_def length_map_put_new [OF nk(2)])
  have d: "tc_lru ?d = tc_next c # tc_lru c" "tc_next ?d = Suc (tc_next c)" "tc_maxSize ?d = tc_maxSize c"
    "tc_cache ?d = map_put key \<lparr>ce_tmpl = t, ce_element = tc_next c, ce_name = name\<rparr> (tc_cache c)"
    "tc_elems ?d = map_put (tc_next c) key (tc_elems c)"
    by (simp_all add: tc_push_def)
  show "tc_inv ?d"
  proof (unfold tc_inv_def, intro conjI)
    show "distinct (map_keys (tc_cache ?d))" using inv by (simp add: d tc_inv_def distinct_keys_put)
    show "distinct (map (tc_key ?d) (tc_lru ?d))"
      using inv nk(1) by (simp add: d keys key) (simp add: tc_inv_def)
    show "tc_key ?d ` set (tc_lru ?d) = set (map_keys (tc_cache ?d))"
      using inv unfolding d(1,4) list.set(2) image_insert keys(2) set_keys_put
      by (simp add: key) (simp add: tc_inv_def)
    show "\<forall>el \<in> set (tc_lru ?d). el < tc_next ?d \<and> map_has (tc_elems ?d) el"
      using inv by (auto simp: d tc_inv_def)
    show "\<forall>k e. map_of (tc_cache ?d) k = Some e \<longrightarrow> ce_element e \<in> set (tc_lru ?d) \<and> tc_key ?d (ce_element e) = k"
    proof (intro allI impI)
      fix k e assume k: "map_of (tc_cache ?d) k = Some e"
      have old: "ce_element e \<in> set (tc_lru c) \<and> tc_key c (ce_element e) = k" if "map_of (tc_cache c) k = Some e"
        using that inv by (auto simp: tc_inv_def)
      show "ce_element e \<in> set (tc_lru ?d) \<and> tc_key ?d (ce_element e) = k"
        using k old nl by (auto simp: d key split: if_splits)
    qed
    show "0 < tc_maxSize ?d" "int (length (tc_cache ?d)) \<le> tc_maxSize ?d"
      using inv room by (simp_all add: len d(3) tc_inv_def)
  qed
  have "tc_value ?d (tc_key c el) = tc_value c (tc_key c el)" if "el \<in> set (tc_lru c)" for el
    using that nk(1) by (auto simp: tc_value_def d(4))
  thus "tc_items ?d = (key, (t, name)) # tc_items c"
    using nl by (auto simp: tc_items_def d(1) key tc_value_def d(4))
qed

lemma tc_evict_spec:
  assumes inv: "tc_inv c" and ne: "tc_cache c \<noteq> []"
  shows "tc_inv (tc_evictOldest c)" "tc_items (tc_evictOldest c) = butlast (tc_items c)"
    "length (tc_cache (tc_evictOldest c)) < length (tc_cache c)"
proof -
  let ?d = "tc_evictOldest c"
  have lne: "tc_lru c \<noteq> []" using tc_length [OF inv] ne by auto
  let ?el = "last (tc_lru c)"
  have el: "?el \<in> set (tc_lru c)" using lne by simp
  hence "map_has (tc_elems c) ?el" using inv by (auto simp: tc_inv_def)
  then obtain k where k: "map_of (tc_elems c) ?el = Some k" by (auto simp: map_has_def)
  hence kk: "tc_key c ?el = k" by (simp add: tc_key_def map_get_def)
  have dk: "distinct (map (tc_key c) (tc_lru c))" using inv by (simp add: tc_inv_def)
  hence dl: "distinct (tc_lru c)" by (simp add: distinct_map)
  have d: "tc_lru ?d = butlast (tc_lru c)" "tc_cache ?d = map_del k (tc_cache c)"
    "tc_elems ?d = tc_elems c" "tc_next ?d = tc_next c" "tc_maxSize ?d = tc_maxSize c"
    using lne by (simp_all add: tc_evictOldest_def list_back_def k remove_last [OF dl] Let_def)
  have key: "tc_key ?d = tc_key c" by (simp add: tc_key_def d fun_eq_iff)
  obtain l where l: "tc_lru c = l @ [?el]" using lne by (metis append_butlast_last_id)
  have bl: "butlast (tc_lru c) = l" by (subst l) simp
  have kl: "k \<notin> tc_key c ` set l" using dk kk by (subst (asm) l) auto
  have kin: "k \<in> set (map_keys (tc_cache c))" using inv el kk by (auto simp: tc_inv_def)
  show len: "length (tc_cache ?d) < length (tc_cache c)" unfolding d(2) by (rule length_map_del_has [OF kin])
  have ks: "tc_key c ` set l = set (map_keys (tc_cache c)) - {k}"
  proof -
    have "set (map_keys (tc_cache c)) = insert k (tc_key c ` set l)"
    proof -
      have "set (map_keys (tc_cache c)) = tc_key c ` set (l @ [?el])"
        using inv by (simp only: l [symmetric] tc_inv_def)
      with kk show ?thesis by simp
    qed
    with kl show ?thesis by auto
  qed
  show "tc_inv ?d"
  proof (unfold tc_inv_def, intro conjI)
    show "distinct (map_keys (tc_cache ?d))" using inv by (simp add: d tc_inv_def distinct_keys_del)
    show "distinct (map (tc_key ?d) (tc_lru ?d))" using dk by (simp add: d(1) key bl) (subst (asm) l, simp)
    show "tc_key ?d ` set (tc_lru ?d) = set (map_keys (tc_cache ?d))"
      by (simp add: key d(1,2) bl ks set_keys_del)
    have sub: "set (tc_lru ?d) \<subseteq> set (tc_lru c)" by (subst l) (auto simp: d bl)
    show "\<forall>el \<in> set (tc_lru ?d). el < tc_next ?d \<and> map_has (tc_elems ?d) el"
      using inv sub by (auto simp: d(3,4) tc_inv_def)
    show "\<forall>k e. map_of (tc_cache ?d) k = Some e \<longrightarrow> ce_element e \<in> set (tc_lru ?d) \<and> tc_key ?d (ce_element e) = k"
    proof (intro allI impI)
      fix j e assume "map_of (tc_cache ?d) j = Some e"
      hence j: "j \<noteq> k" "map_of (tc_cache c) j = Some e" by (auto simp: d(2) split: if_splits)
      hence e: "ce_element e \<in> set (tc_lru c)" "tc_key c (ce_element e) = j" using inv by (auto simp: tc_inv_def)
      hence "ce_element e \<noteq> ?el" using kk j(1) by auto
      with e(1) have "ce_element e \<in> set l" by (subst (asm) l) simp
      with e(2) show "ce_element e \<in> set (tc_lru ?d) \<and> tc_key ?d (ce_element e) = j" by (simp add: d(1) bl key)
    qed
    show "0 < tc_maxSize ?d" "int (length (tc_cache ?d)) \<le> tc_maxSize ?d"
      using inv len by (simp_all add: d(5) tc_inv_def)
  qed
  have "tc_value ?d (tc_key c el) = tc_value c (tc_key c el)" if "el \<in> set l" for el
    using that kl by (auto simp: tc_value_def d(2))
  thus "tc_items ?d = butlast (tc_items c)"
    by (simp add: tc_items_def d(1) key map_butlast [symmetric] bl)
qed

lemma tc_Put_spec:
  assumes inv: "tc_inv c"
  shows "tc_inv (tc_Put key t name c) \<and>
    tc_items (tc_Put key t name c) = lru_put (nat (tc_maxSize c)) key (t, name) (tc_items c)"
proof (cases "map_of (tc_cache c) key")
  case (Some e)
  have "key \<in> fst ` set (tc_items c)"
    using map_of_tc_items [OF inv, of key] Some by (force dest: map_of_SomeD)
  hence "length (lru_drop key (tc_items c)) < nat (tc_maxSize c)"
    using length_lru_drop_in [of key "tc_items c"] tc_inv_ok [OF inv] by (simp add: lru_ok_def)
  with tc_Put_hit [OF inv Some] show ?thesis by (simp add: lru_put_def)
next
  case None
  have absent: "lru_drop key (tc_items c) = tc_items c"
    using map_of_tc_items [OF inv, of key] None
    by (intro lru_drop_id) (simp add: map_of_eq_None_iff)
  have len: "length (tc_items c) = length (tc_cache c)" by (simp add: tc_items_def tc_length inv)
  have cap: "int (length (tc_cache c)) \<le> tc_maxSize c" "0 < tc_maxSize c" using inv by (simp_all add: tc_inv_def)
  show ?thesis
  proof (cases "int (length (tc_cache c)) \<ge> tc_maxSize c")
    case True
    with cap have full: "length (tc_items c) = nat (tc_maxSize c)" and ne: "tc_cache c \<noteq> []" by (auto simp: len)
    let ?c = "tc_evictOldest c"
    note ev = tc_evict_spec [OF inv ne]
    have ms: "tc_maxSize ?c = tc_maxSize c" by (simp add: tc_evictOldest_def Let_def split: option.split)
    have "map_of (tc_items ?c) key = None"
    proof -
      have "map_of (tc_items c) key = None" using None map_of_tc_items [OF inv, of key] by simp
      thus ?thesis unfolding ev(2) map_of_eq_None_iff by (auto dest: in_set_butlastD)
    qed
    hence none: "map_of (tc_cache ?c) key = None" using map_of_tc_items [OF ev(1), of key] by simp
    have "int (length (tc_cache ?c)) < tc_maxSize ?c" using ev(3) cap(1) ms by simp
    note push = tc_push_spec [OF ev(1) none this]
    have "tc_Put key t name c = tc_push key t name ?c" by (simp add: tc_Put_def None True)
    moreover have "take (nat (tc_maxSize c)) ((key, t, name) # tc_items c) = (key, t, name) # butlast (tc_items c)"
      using full cap(2) by (simp add: take_Cons' butlast_conv_take)
    ultimately show ?thesis using push ev(2) by (simp add: lru_put_def absent)
  next
    case False
    hence "tc_Put key t name c = tc_push key t name c" by (simp add: tc_Put_def None)
    with False tc_push_spec [OF inv None] show ?thesis by (simp add: lru_put_def absent len)
  qed
qed

lemma tc_Put_maxSize [simp]: "tc_maxSize (tc_Put key t name c) = tc_maxSize c"
  by (simp add: tc_Put_def tc_push_def tc_evictOldest_def Let_def split: option.split)

lemma tc_Get_spec:
  assumes inv: "tc_inv c"
  shows "fst (tc_Get clone now key c) = (case map_of (tc_items c) key of None \<Rightarrow> None | Some v \<Rightarrow> clone (fst v))"
    "tc_items (snd (tc_Get clone now key c)) = lru_touch key (tc_items c)"
    "tc_inv (snd (tc_Get clone now key c))"
    "tc_maxSize (snd (tc_Get clone now key c)) = tc_maxSize c"
proof -
  let ?d = "snd (tc_Get clone now key c)"
  show "tc_maxSize ?d = tc_maxSize c" by (simp add: tc_Get_def Let_def split: option.split)
  show "fst (tc_Get clone now key c) = (case map_of (tc_items c) key of None \<Rightarrow> None | Some v \<Rightarrow> clone (fst v))"
    by (simp add: tc_Get_def map_of_tc_items inv Let_def split: option.split)
  have "tc_items ?d = lru_touch key (tc_items c) \<and> tc_inv ?d"
  proof (cases "map_of (tc_cache c) key")
    case None
    have same: "tc_cache ?d = tc_cache c" "tc_elems ?d = tc_elems c" "tc_next ?d = tc_next c"
      "tc_maxSize ?d = tc_maxSize c" "tc_lru ?d = tc_lru c"
      by (simp_all add: tc_Get_def None)
    show ?thesis
      using tc_cong(3,4) [OF same] map_of_tc_items [OF inv, of key] inv None by (simp add: lru_touch_def)
  next
    case (Some e)
    have same: "tc_cache ?d = tc_cache c" "tc_elems ?d = tc_elems c" "tc_next ?d = tc_next c"
      "tc_maxSize ?d = tc_maxSize c" "tc_lru ?d = MoveToFront (ce_element e) (tc_lru c)"
      by (simp_all add: tc_Get_def Some Let_def split: option.split)
    from tc_Get_items_inv [OF inv Some same] show ?thesis by simp
  qed
  thus "tc_items ?d = lru_touch key (tc_items c)" "tc_inv ?d" by blast+
qed

lemma NewTemplateCache_inv: "tc_inv (NewTemplateCache n)"
  by (simp add: tc_inv_def NewTemplateCache_def)

lemma tc_Clear_inv: "tc_inv c \<Longrightarrow> tc_inv (tc_Clear c) \<and> tc_items (tc_Clear c) = []"
  by (simp add: tc_inv_def tc_Clear_def tc_items_def)

definition tc_put_op :: "nat \<Rightarrow> string \<Rightarrow> 't \<times> string \<Rightarrow> 't template_cache \<Rightarrow> 't template_cache" where
  "tc_put_op now key tn c = tc_Put key (fst tn) (snd tn) c"

interpretation tc: recency_cache tc_inv tc_items "\<lambda>c. nat (tc_maxSize c)" "\<lambda>now tn. tn" "\<lambda>now c v. True"
  "\<lambda>v. clone (fst v)" "tc_Get clone" tc_put_op for clone :: "'t \<Rightarrow> 't option"
proof unfold_locales
  fix s :: "'t template_cache" and c k w
  assume inv: "tc_inv s"
  show "lru_ok (nat (tc_maxSize s)) (tc_items s)" by (rule tc_inv_ok [OF inv])
  show "0 < nat (tc_maxSize s)" using inv by (simp add: tc_inv_def)
  show "fst (tc_Get clone c k s) =
      (case map_of (tc_items s) k of None \<Rightarrow> None | Some v \<Rightarrow> if True then clone (fst v) else None)"
    by (simp add: tc_Get_spec(1) inv split: option.split)
  show "tc_items (snd (tc_Get clone c k s)) =
      (case map_of (tc_items s) k of None \<Rightarrow> tc_items s
       | Some v \<Rightarrow> if True then lru_touch k (tc_items s) else lru_drop k (tc_items s))"
    by (simp add: tc_Get_spec(2) inv lru_touch_def split: option.split)
  show "tc_inv (snd (tc_Get clone c k s))" "nat (tc_maxSize (snd (tc_Get clone c k s))) = nat (tc_maxSize s)"
    by (simp_all add: tc_Get_spec inv)
  show "tc_items (tc_put_op c k w s) = lru_put (nat (tc_maxSize s)) k w (tc_items s)" "tc_inv (tc_put_op c k w s)"
    "nat (tc_maxSize (tc_put_op c k w s)) = nat (tc_maxSize s)"
    using tc_Put_spec [OF inv] by (simp_all add: tc_put_op_def)
qed simp_all

section \<open>Sequences of operations\<close>

fun tc_run :: "('t \<Rightarrow> 't option) \<Rightarrow> (nat, string, 't \<times> string) cache_op list \<Rightarrow> 't template_cache \<Rightarrow> 't template_cache" where
  "tc_run clone [] c = c"
| "tc_run clone (CacheGet now k # ops) c = tc_run clone ops (snd (tc_Get clone now k c))"
| "tc_run clone (CachePut now k tn # ops) c = tc_run clone ops (tc_put_op now k tn c)"

lemma tc_run_eq: "tc_run clone ops c = recency_cache.run (tc_Get clone) tc_put_op ops c"
  by (induction clone ops c rule: tc_run.induct) (simp_all add: tc.run.simps)

lemma tc_run_inv: "tc_inv c \<Longrightarrow> tc_inv (tc_run clone ops c)"
  unfolding tc_run_eq by (rule tc.run_inv)

lemma tc_run_maxSize: "tc_inv c \<Longrightarrow> nat (tc_maxSize (tc_run clone ops c)) = nat (tc_maxSize c)"
  unfolding tc_run_eq by (rule tc.run_capacity)

lemma NewTemplateCache_maxSize: "tc_maxSize (NewTemplateCache n) = (if n \<le> 0 then 100 else n)"
  by (simp add: NewTemplateCache_def)

section \<open>The metrics\<close>

text \<open>Every lookup counts once, as a hit or as a miss, a failed clone included.\<close>

lemma tc_Get_counts: "tc_hits (snd (tc_Get clone now key c)) + tc_misses (snd (tc_Get clone now key c)) =
    tc_hits c + tc_misses c + 1"
  by (simp add: tc_Get_def Let_def split: option.split)

lemma tc_Put_counts: "tc_hits (tc_Put key t name c) = tc_hits c \<and> tc_misses (tc_Put key t name c) = tc_misses c"
  by (simp add: tc_Put_def tc_push_def tc_evictOldest_def Let_def split: option.split)

definition is_get :: "('c, 'k, 'w) cache_op \<Rightarrow> bool" where
  "is_get x = (case x of CacheGet c k \<Rightarrow> True | CachePut c k w \<Rightarrow> False)"

lemma tc_run_counts:
  "tc_hits (tc_run clone ops c) + tc_misses (tc_run clone ops c) =
     tc_hits c + tc_misses c + of_nat (length (filter is_get ops))"
  by (induction clone ops c rule: tc_run.induct) (simp_all add: tc_Get_counts tc_Put_counts is_get_def tc_put_op_def)

text \<open>The minimum scan finds a metric of minimal count.\<close>

lemma min_metric_fold:
  "fold min_metric_step ms m = m \<and> (\<forall>(n, x) \<in> set ms. fst m \<le> tm_hits x) \<or>
   (\<exists>(n, x) \<in> set ms. fold min_metric_step ms m = (tm_hits x, n) \<and> tm_hits x < fst m \<and>
      (\<forall>(n', x') \<in> set ms. tm_hits x \<le> tm_hits x'))"
proof (induction ms arbitrary: m)
  case (Cons a ms)
  obtain n x where a: "a = (n, x)" by (cases a)
  let ?m = "if tm_hits x < fst m then (tm_hits x, n) else m"
  have step: "fold min_metric_step (a # ms) m = fold min_metric_step ms ?m"
    by (simp add: a min_metric_step_def)
  consider (old) "fold min_metric_step ms ?m = ?m" "\<forall>(n, x) \<in> set ms. fst ?m \<le> tm_hits x"
    | (new) n' x' where "(n', x') \<in> set ms" "fold min_metric_step ms ?m = (tm_hits x', n')" "tm_hits x' < fst ?m"
        "\<forall>(n'', x'') \<in> set ms. tm_hits x' \<le> tm_hits x''"
    using Cons [of ?m] by blast
  thus ?case
  proof cases
    case old
    show ?thesis unfolding step using old by (cases "tm_hits x < fst m") (auto simp: a)
  next
    case new
    have lt: "tm_hits x' < fst m" "tm_hits x' \<le> tm_hits x" using new(3) by (auto split: if_splits)
    show ?thesis unfolding step using new(1,2,4) lt by (intro disjI2 bexI [of _ "(n', x')"]) (auto simp: a)
  qed
qed simp

lemma min_metric_in:
  assumes "(n, x) \<in> set ms" "tm_hits x < - 1"
  shows "\<exists>y. (min_metric ms, y) \<in> set ms \<and> (\<forall>(n', x') \<in> set ms. tm_hits y \<le> tm_hits x')"
  using min_metric_fold [of ms "(- 1, [])"] assms unfolding min_metric_def by fastforce

text \<open>
  The metrics stay within their limit as long as no cached template has an empty name and no count
  reaches the largest \<open>uint64\<close>.
\<close>

definition metrics_ok :: "'t template_cache \<Rightarrow> bool" where
  "metrics_ok c = (0 < tc_metricsLimit c \<and> int (length (tc_tmplHits c)) \<le> tc_metricsLimit c \<and>
     (\<forall>(n, m) \<in> set (tc_tmplHits c). n \<noteq> [] \<and> tm_hits m < - 1))"

lemma evict_metric_shrinks:
  assumes "(n, x) \<in> set ms" "\<forall>(n, m) \<in> set ms. n \<noteq> [] \<and> tm_hits m < - 1"
  shows "length (evictLeastAccessedMetric ms) < length ms"
proof -
  obtain y where y: "(min_metric ms, y) \<in> set ms" using min_metric_in [OF assms(1)] assms by fastforce
  hence "min_metric ms \<noteq> []" using assms(2) by blast
  moreover have "min_metric ms \<in> set (map_keys ms)" using y by (force simp: map_keys_def)
  ultimately show ?thesis
    using length_map_del_has assms(1) by (auto simp: evictLeastAccessedMetric_def Let_def)
qed

lemma track_metrics_bound:
  assumes "metrics_ok c"
  shows "int (length (tc_tmplHits (trackTemplateHit now name c))) \<le> tc_metricsLimit c"
proof (cases "map_of (tc_tmplHits c) name")
  case (Some m)
  hence "name \<in> set (map_keys (tc_tmplHits c))" by (auto simp flip: map_has_iff_keys intro: map_has_Some)
  with Some assms show ?thesis by (simp add: trackTemplateHit_def metrics_ok_def length_map_put_has)
next
  case None
  have put: "length (map_put name x ms) \<le> Suc (length ms)" for x :: template_metric and ms
    using length_map_put_has [of name ms x] length_map_put_new [of name ms x] by linarith
  show ?thesis
  proof (cases "int (length (tc_tmplHits c)) \<ge> tc_metricsLimit c")
    case True
    with assms have "tc_tmplHits c \<noteq> []" by (auto simp: metrics_ok_def)
    then obtain n x where "(n, x) \<in> set (tc_tmplHits c)" by (cases "tc_tmplHits c") auto
    from evict_metric_shrinks [OF this] assms
    have "length (evictLeastAccessedMetric (tc_tmplHits c)) < length (tc_tmplHits c)" by (simp add: metrics_ok_def)
    moreover note put [of "\<lparr>tm_name = name, tm_hits = 1, tm_lastAccess = now\<rparr>" "evictLeastAccessedMetric (tc_tmplHits c)"]
    ultimately show ?thesis using True assms by (simp add: trackTemplateHit_def None metrics_ok_def)
  next
    case False
    with put [of "\<lparr>tm_name = name, tm_hits = 1, tm_lastAccess = now\<rparr>" "tc_tmplHits c"]
    show ?thesis by (simp add: trackTemplateHit_def None)
  qed
qed

section \<open>Properties\<close>

text \<open>A compiled template that was stored is found again, and is the one stored last, until as many other
  keys as the cache holds have been looked up or stored; only a template that cannot be cloned is a miss.\<close>

theorem template_cache_keeps_recent:
  assumes "c = tc_run clone before (NewTemplateCache n)" "k \<notin> op_key ` set ops"
    and "int (card (op_key ` set ops)) < (if n \<le> 0 then 100 else n)"
  shows "fst (tc_Get clone now k (tc_run clone ops (tc_Put k t name c))) = clone t"
proof -
  have inv: "tc_inv c" using tc_run_inv [OF NewTemplateCache_inv] assms(1) by simp
  have "nat (tc_maxSize c) = nat (if n \<le> 0 then 100 else n)"
    by (simp add: assms(1) tc_run_maxSize [OF NewTemplateCache_inv] NewTemplateCache_maxSize)
  hence card: "card (op_key ` set ops) < nat (tc_maxSize c)" using assms(3) by (simp split: if_splits)
  show ?thesis
    using tc.put_survives [OF inv assms(2) card, of clone now now "(t, name)"]
    by (simp add: tc_run_eq [symmetric] tc_put_op_def)
qed

theorem template_cache_keeps_recent_witness:
  "fst (tc_Get Some 9 ''b'' (tc_run Some [CachePut 3 ''c'' (3, ''t3''), CacheGet 4 ''c'']
     (tc_Put ''b'' 2 ''t2'' (tc_run Some [CachePut 1 ''a'' (1, ''t1'')] (NewTemplateCache 2))))) = Some (2::nat)"
  using template_cache_keeps_recent [where clone = Some and before = "[CachePut 1 ''a'' (1::nat, ''t1'')]" and n = 2
      and k = "''b''" and ops = "[CachePut 3 ''c'' (3, ''t3''), CacheGet 4 ''c'']" and now = 9 and t = 2
      and name = "''t2''", OF refl]
  by (simp del: tc_run.simps)

text \<open>Hits and misses together count the lookups (modulo 2 to the 64), whatever is stored, evicted or
  fails to clone in between, and the cache never holds more templates than its limit.\<close>

theorem template_cache_statistics:
  "cs_total (tc_Stats (tc_run clone ops (NewTemplateCache n))) = of_nat (length (filter is_get ops)) \<and>
   int (cs_size (tc_Stats (tc_run clone ops (NewTemplateCache n)))) \<le> (if n \<le> 0 then 100 else n)"
proof -
  let ?c = "tc_run clone ops (NewTemplateCache n)"
  have inv: "tc_inv ?c" by (rule tc_run_inv [OF NewTemplateCache_inv])
  have "nat (tc_maxSize ?c) = nat (if n \<le> 0 then 100 else n)"
    by (simp add: tc_run_maxSize [OF NewTemplateCache_inv] NewTemplateCache_maxSize)
  hence "tc_maxSize ?c = (if n \<le> 0 then 100 else n)" using inv by (auto simp: tc_inv_def split: if_splits)
  moreover have "int (length (tc_cache ?c)) \<le> tc_maxSize ?c" using inv by (simp add: tc_inv_def)
  moreover have "tc_hits ?c + tc_misses ?c = of_nat (length (filter is_get ops))"
    by (simp add: tc_run_counts) (simp add: NewTemplateCache_def)
  ultimately show ?thesis by (simp add: tc_Stats_def)
qed

end
