(* ===== verification/Ttl_Cache.thy ===== *)
theory Ttl_Cache
  imports Lru_Spec "HOL-Library.Word" "HOL-Library.Transitive_Closure_Table"
begin

text \<open>
  \<open>pkg/cache/ttlcache.go\<close>: the LRU cache whose entries expire.

  The elements of the recency list and the entries they point to live in a heap, since an entry is
  changed in place while other goroutines hold its element.  Instants are integers (nanoseconds),
  durations Go's \<open>int64\<close>.  \<open>Get\<close> takes the lock twice: it reads under the read lock (\<open>get_read\<close>) and
  promotes or removes the element under the write lock (\<open>get_finish\<close>), and other operations can come
  between; the other methods are one critical section each.
\<close>

record ('k, 'v) ttl_entry =
  te_key :: 'k
  te_value :: 'v
  te_expiresAt :: int

datatype ('k, 'v) elem_value = NilValue | EntryValue "('k, 'v) ttl_entry" | OtherValue

record ('k, 'v) ttl_cache =
  lt_size :: int
  lt_expiryBuffer :: "64 word"
  lt_store :: "('k \<times> elem option) list"
  lt_order :: "elem list"
  lt_heap :: "(elem \<times> ('k, 'v) elem_value) list"
  lt_next :: elem

definition ttl_defaultSize :: int where
  "ttl_defaultSize = 1024"

definition isExpired :: "int \<Rightarrow> 64 word \<Rightarrow> ('k, 'v) ttl_entry \<Rightarrow> bool" where
  "isExpired now buffer e = (now > te_expiresAt e + sint (- buffer))"

datatype ttl_option = WithSize int | WithExpiryBuffer "64 word"

definition apply_option :: "ttl_option \<Rightarrow> ('k, 'v) ttl_cache \<Rightarrow> ('k, 'v) ttl_cache" where
  "apply_option opt c =
     (case opt of
        WithSize n \<Rightarrow> if n > 0 then c\<lparr>lt_size := n\<rparr> else c
      | WithExpiryBuffer d \<Rightarrow> c\<lparr>lt_expiryBuffer := d\<rparr>)"

definition NewLRUWithTTL :: "ttl_option list \<Rightarrow> ('k, 'v) ttl_cache" where
  "NewLRUWithTTL opts =
     fold apply_option opts
       \<lparr>lt_size = ttl_defaultSize, lt_expiryBuffer = 0, lt_store = [], lt_order = [], lt_heap = [], lt_next = 0\<rparr>"

definition elem_val :: "('k, 'v) ttl_cache \<Rightarrow> elem \<Rightarrow> ('k, 'v) elem_value" where
  "elem_val c el = map_get NilValue (lt_heap c) el"

text \<open>The helpers, each one critical section.\<close>

definition ttl_promote :: "elem \<Rightarrow> ('k, 'v) ttl_cache \<Rightarrow> ('k, 'v) ttl_cache" where
  "ttl_promote el c = c\<lparr>lt_order := MoveToFront el (lt_order c)\<rparr>"

definition removeEntry :: "'k \<Rightarrow> elem \<Rightarrow> ('k, 'v) ttl_cache \<Rightarrow> ('k, 'v) ttl_cache" where
  "removeEntry k el c = c\<lparr>lt_order := list_remove el (lt_order c), lt_store := map_del k (lt_store c)\<rparr>"

definition removeBadEntry :: "'k \<Rightarrow> elem option \<Rightarrow> ('k, 'v) ttl_cache \<Rightarrow> ('k, 'v) ttl_cache" where
  "removeBadEntry k p c =
     (case p of
        Some el \<Rightarrow> removeEntry k el c
      | None \<Rightarrow> c\<lparr>lt_store := map_del k (lt_store c)\<rparr>)"

datatype ('k, 'v) read_outcome =
    ReadMissing
  | ReadBad "elem option"
  | ReadExpired elem
  | ReadHit elem 'v

definition get_read :: "int \<Rightarrow> 'k \<Rightarrow> ('k, 'v) ttl_cache \<Rightarrow> ('k, 'v) read_outcome" where
  "get_read now k c =
     (case map_of (lt_store c) k of
        None \<Rightarrow> ReadMissing
      | Some None \<Rightarrow> ReadBad None
      | Some (Some el) \<Rightarrow>
          (case elem_val c el of
             NilValue \<Rightarrow> ReadBad (Some el)
           | OtherValue \<Rightarrow> ReadBad (Some el)
           | EntryValue e \<Rightarrow>
               if isExpired now (lt_expiryBuffer c) e then ReadExpired el else ReadHit el (te_value e)))"

definition get_finish :: "'k \<Rightarrow> ('k, 'v) read_outcome \<Rightarrow> ('k, 'v) ttl_cache \<Rightarrow> ('k, 'v) ttl_cache" where
  "get_finish k o' c =
     (case o' of
        ReadMissing \<Rightarrow> c
      | ReadBad p \<Rightarrow> removeBadEntry k p c
      | ReadExpired el \<Rightarrow> removeEntry k el c
      | ReadHit el v \<Rightarrow> ttl_promote el c)"

definition get_result :: "('k, 'v) read_outcome \<Rightarrow> 'v option" where
  "get_result o' = (case o' of ReadHit el v \<Rightarrow> Some v | _ \<Rightarrow> None)"

text \<open>\<open>Get\<close> of a client that no other goroutine disturbs.\<close>

definition lt_Get :: "int \<Rightarrow> 'k \<Rightarrow> ('k, 'v) ttl_cache \<Rightarrow> 'v option \<times> ('k, 'v) ttl_cache" where
  "lt_Get now k c = (let o' = get_read now k c in (get_result o', get_finish k o' c))"

definition ttl_evictOldest :: "('k, 'v) ttl_cache \<Rightarrow> ('k, 'v) ttl_cache" where
  "ttl_evictOldest c =
     (case list_back (lt_order c) of
        None \<Rightarrow> c
      | Some el \<Rightarrow>
          let c = (case elem_val c el of EntryValue e \<Rightarrow> c\<lparr>lt_store := map_del (te_key e) (lt_store c)\<rparr> | _ \<Rightarrow> c)
          in c\<lparr>lt_order := list_remove el (lt_order c)\<rparr>)"

definition ttl_insert :: "'k \<Rightarrow> 'v \<Rightarrow> int \<Rightarrow> ('k, 'v) ttl_cache \<Rightarrow> ('k, 'v) ttl_cache" where
  "ttl_insert k v exp c =
     (let el = lt_next c;
          c = c\<lparr>lt_heap := map_put el (EntryValue \<lparr>te_key = k, te_value = v, te_expiresAt = exp\<rparr>) (lt_heap c),
                lt_next := Suc el, lt_order := el # lt_order c, lt_store := map_put k (Some el) (lt_store c)\<rparr>
      in if int (length (lt_order c)) > lt_size c then ttl_evictOldest c else c)"

definition lt_Set :: "int \<Rightarrow> 'k \<Rightarrow> 'v \<Rightarrow> 64 word \<Rightarrow> ('k, 'v) ttl_cache \<Rightarrow> ('k, 'v) ttl_cache" where
  "lt_Set now k v ttl c =
     (let exp = now + sint ttl in
      case map_of (lt_store c) k of
        Some (Some el) \<Rightarrow>
          let c = ttl_promote el c in
          (case elem_val c el of
             EntryValue e \<Rightarrow>
               c\<lparr>lt_heap := map_put el (EntryValue (e\<lparr>te_value := v, te_expiresAt := exp\<rparr>)) (lt_heap c)\<rparr>
           | _ \<Rightarrow> ttl_insert k v exp c)
      | _ \<Rightarrow> ttl_insert k v exp c)"

definition lt_Delete :: "'k \<Rightarrow> ('k, 'v) ttl_cache \<Rightarrow> ('k, 'v) ttl_cache" where
  "lt_Delete k c =
     (case map_of (lt_store c) k of None \<Rightarrow> c | Some p \<Rightarrow> removeBadEntry k p c)"

definition lt_Len :: "('k, 'v) ttl_cache \<Rightarrow> nat" where
  "lt_Len c = length (lt_order c)"

definition cleanup_one :: "int \<Rightarrow> 'k \<times> elem option \<Rightarrow> ('k, 'v) ttl_cache \<Rightarrow> ('k, 'v) ttl_cache" where
  "cleanup_one now kp c =
     (case snd kp of
        None \<Rightarrow> removeBadEntry (fst kp) None c
      | Some el \<Rightarrow>
          (case elem_val c el of
             NilValue \<Rightarrow> removeEntry (fst kp) el c
           | EntryValue e \<Rightarrow> if isExpired now (lt_expiryBuffer c) e then removeEntry (fst kp) el c else c
           | OtherValue \<Rightarrow> c))"

definition ttl_cleanup :: "int \<Rightarrow> ('k, 'v) ttl_cache \<Rightarrow> ('k, 'v) ttl_cache" where
  "ttl_cleanup now c = fold (cleanup_one now) (lt_store c) c"

section \<open>Interleavings\<close>

text \<open>
  A state holds the cache and what each goroutine that is inside \<open>Get\<close> has read.
\<close>

type_synonym ('k, 'v) ttl_state =
  "('k, 'v) ttl_cache \<times> (nat \<Rightarrow> ('k \<times> ('k, 'v) read_outcome) option)"

inductive ttl_step :: "('k, 'v) ttl_state \<Rightarrow> ('k, 'v) ttl_state \<Rightarrow> bool" where
  ttl_read: "p i = None \<Longrightarrow> ttl_step (c, p) (c, p(i := Some (k, get_read now k c)))"
| ttl_finish: "p i = Some (k, r) \<Longrightarrow> ttl_step (c, p) (get_finish k r c, p(i := None))"
| ttl_set: "ttl_step (c, p) (lt_Set now k v ttl c, p)"
| ttl_delete: "ttl_step (c, p) (lt_Delete k c, p)"
| ttl_sweep: "ttl_step (c, p) (ttl_cleanup now c, p)"

definition ttl_reachable :: "ttl_option list \<Rightarrow> ('k, 'v) ttl_state \<Rightarrow> bool" where
  "ttl_reachable opts s = ttl_step\<^sup>*\<^sup>* (NewLRUWithTTL opts, \<lambda>i. None) s"

inductive_cases ttl_stepE: "ttl_step (c, p) s'"

text \<open>What holds of the cache in every interleaving.\<close>

definition stores :: "('k, 'v) ttl_cache \<Rightarrow> 'k \<Rightarrow> elem \<Rightarrow> bool" where
  "stores c k el = (\<exists>e. elem_val c el = EntryValue e \<and> te_key e = k)"

definition ttl_linked :: "('k, 'v) ttl_cache \<Rightarrow> bool" where
  "ttl_linked c =
     (distinct (map_keys (lt_store c)) \<and> distinct (lt_order c) \<and>
      (\<forall>k p. map_of (lt_store c) k = Some p \<longrightarrow> (\<exists>el. p = Some el \<and> el \<in> set (lt_order c) \<and> stores c k el)) \<and>
      (\<forall>k el. stores c k el \<longrightarrow> el < lt_next c) \<and>
      (\<forall>el \<in> set (lt_order c). \<exists>k. stores c k el))"

definition ttl_base :: "('k, 'v) ttl_cache \<Rightarrow> bool" where
  "ttl_base c = (ttl_linked c \<and> 0 < lt_size c \<and> int (length (lt_order c)) \<le> lt_size c)"

definition pending_ok :: "('k, 'v) ttl_cache \<Rightarrow> 'k \<Rightarrow> ('k, 'v) read_outcome \<Rightarrow> bool" where
  "pending_ok c k r =
     (case r of ReadMissing \<Rightarrow> True | ReadBad p \<Rightarrow> False | ReadExpired el \<Rightarrow> stores c k el | ReadHit el v \<Rightarrow> stores c k el)"

lemma stores_fun: "stores c k el \<Longrightarrow> stores c j el \<Longrightarrow> k = j"
  by (auto simp: stores_def)

lemma stores_heap: "lt_heap d = lt_heap c \<Longrightarrow> stores d = stores c"
  by (simp add: stores_def elem_val_def fun_eq_iff)

lemma ttl_linkedD:
  assumes "ttl_linked c"
  shows "distinct (map_keys (lt_store c))" "distinct (lt_order c)"
    "map_of (lt_store c) k = Some p \<Longrightarrow> \<exists>el. p = Some el \<and> el \<in> set (lt_order c) \<and> stores c k el"
    "stores c k el \<Longrightarrow> el < lt_next c" "el \<in> set (lt_order c) \<Longrightarrow> \<exists>k. stores c k el"
  using assms by (auto simp: ttl_linked_def)

text \<open>Every operation keeps the entries reachable from the elements under their keys.\<close>

lemma heap_same [simp]:
  "lt_heap (ttl_promote el c) = lt_heap c" "lt_heap (removeEntry k el c) = lt_heap c"
  "lt_heap (removeBadEntry k p c) = lt_heap c" "lt_heap (get_finish k r c) = lt_heap c"
  "lt_heap (ttl_evictOldest c) = lt_heap c" "lt_heap (lt_Delete k c) = lt_heap c"
  by (simp_all add: ttl_promote_def removeEntry_def removeBadEntry_def get_finish_def ttl_evictOldest_def
      lt_Delete_def Let_def split: option.split read_outcome.split elem_value.split)

lemma size_same [simp]:
  "lt_size (ttl_promote el c) = lt_size c" "lt_size (removeEntry k el c) = lt_size c"
  "lt_size (removeBadEntry k p c) = lt_size c" "lt_size (get_finish k r c) = lt_size c"
  "lt_size (ttl_evictOldest c) = lt_size c" "lt_size (lt_Delete k c) = lt_size c"
  by (simp_all add: ttl_promote_def removeEntry_def removeBadEntry_def get_finish_def ttl_evictOldest_def
      lt_Delete_def Let_def split: option.split read_outcome.split elem_value.split)

lemma size_insert [simp]: "lt_size (ttl_insert k v exp c) = lt_size c"
  by (simp add: ttl_insert_def Let_def)

lemma size_Set [simp]: "lt_size (lt_Set now k v ttl c) = lt_size c"
  by (simp add: lt_Set_def Let_def split: option.split elem_value.split)

lemma cleanup_one_same: "lt_heap (cleanup_one now kp c) = lt_heap c \<and> lt_size (cleanup_one now kp c) = lt_size c"
  by (simp add: cleanup_one_def split: option.split elem_value.split)

lemma ttl_cleanup_same [simp]:
  "lt_heap (ttl_cleanup now c) = lt_heap c" "lt_size (ttl_cleanup now c) = lt_size c"
proof -
  have "lt_heap (fold (cleanup_one now) xs c) = lt_heap c \<and> lt_size (fold (cleanup_one now) xs c) = lt_size c" for xs
    by (induction xs arbitrary: c) (simp_all add: cleanup_one_same)
  thus "lt_heap (ttl_cleanup now c) = lt_heap c" "lt_size (ttl_cleanup now c) = lt_size c"
    by (simp_all add: ttl_cleanup_def)
qed

lemma elem_val_insert: "elem_val (ttl_insert k v exp c) el =
    (if el = lt_next c then EntryValue \<lparr>te_key = k, te_value = v, te_expiresAt = exp\<rparr> else elem_val c el)"
  by (simp add: ttl_insert_def Let_def elem_val_def)

lemma stores_insert: "ttl_linked c \<Longrightarrow> stores c j el \<Longrightarrow> stores (ttl_insert k v exp c) j el"
  using ttl_linkedD(4) by (fastforce simp: stores_def elem_val_insert)

subsection \<open>Removing, promoting, inserting\<close>

lemma linked_promote: "ttl_linked c \<Longrightarrow> ttl_linked (ttl_promote el c)"
  unfolding ttl_linked_def using stores_heap [of "ttl_promote el c" c] by (simp add: ttl_promote_def)

lemma linked_remove:
  assumes "ttl_linked c" "stores c k el"
  shows "ttl_linked (removeEntry k el c)"
proof -
  note heap = stores_heap [of "removeEntry k el c" c, simplified]
  have d: "lt_order (removeEntry k el c) = list_remove el (lt_order c)" "lt_next (removeEntry k el c) = lt_next c"
    "lt_store (removeEntry k el c) = map_del k (lt_store c)" by (simp_all add: removeEntry_def)
  have "x \<noteq> el" if "j \<noteq> k" "stores c j x" for j x using stores_fun assms(2) that by metis
  thus ?thesis
    using assms unfolding ttl_linked_def heap d by (fastforce simp: distinct_keys_del split: if_splits)
qed

lemma linked_evict:
  assumes "ttl_linked c" "lt_order c \<noteq> []"
  shows "ttl_linked (ttl_evictOldest c)" "length (lt_order (ttl_evictOldest c)) < length (lt_order c)"
proof -
  let ?el = "last (lt_order c)"
  have el: "?el \<in> set (lt_order c)" using assms(2) by simp
  from ttl_linkedD(5) [OF assms(1) el] obtain e where e: "elem_val c ?el = EntryValue e"
    by (auto simp: stores_def)
  have s: "stores c (te_key e) ?el" by (simp add: stores_def e)
  have "ttl_evictOldest c = removeEntry (te_key e) ?el c"
    using assms(2) by (simp add: ttl_evictOldest_def list_back_def e removeEntry_def)
  thus "ttl_linked (ttl_evictOldest c)" "length (lt_order (ttl_evictOldest c)) < length (lt_order c)"
    using linked_remove [OF assms(1) s] length_list_remove_in [OF el] by (simp_all add: removeEntry_def)
qed

lemma base_promote: "ttl_base c \<Longrightarrow> ttl_base (ttl_promote el c)"
  unfolding ttl_base_def using linked_promote [of c el] ttl_linkedD(2) [of c]
  by (auto simp: ttl_promote_def)

lemma base_remove: "ttl_base c \<Longrightarrow> stores c k el \<Longrightarrow> ttl_base (removeEntry k el c)"
  unfolding ttl_base_def using linked_remove [of c k el] length_list_remove_le [of el "lt_order c"]
  by (auto simp: removeEntry_def)

lemma linked_push:
  assumes "ttl_linked c" "map_of (lt_store c) k = None"
    and d: "d = c\<lparr>lt_heap := map_put (lt_next c) (EntryValue \<lparr>te_key = k, te_value = v, te_expiresAt = exp\<rparr>) (lt_heap c),
                  lt_next := Suc (lt_next c), lt_order := lt_next c # lt_order c,
                  lt_store := map_put k (Some (lt_next c)) (lt_store c)\<rparr>"
  shows "ttl_linked d"
proof -
  have val: "elem_val d el = (if el = lt_next c then EntryValue \<lparr>te_key = k, te_value = v, te_expiresAt = exp\<rparr>
                              else elem_val c el)" for el
    by (simp add: d elem_val_def)
  have new: "lt_next c \<notin> set (lt_order c)" using ttl_linkedD(4,5) [OF assms(1)] by fastforce
  have st: "stores d j el = (if el = lt_next c then j = k else stores c j el)" for j el
    by (auto simp: stores_def val)
  have f: "lt_order d = lt_next c # lt_order c" "lt_store d = map_put k (Some (lt_next c)) (lt_store c)"
    "lt_next d = Suc (lt_next c)" by (simp_all add: d)
  show ?thesis
    unfolding ttl_linked_def
  proof (intro conjI)
    show "distinct (map_keys (lt_store d))" "distinct (lt_order d)"
      using ttl_linkedD(1,2) [OF assms(1)] new by (simp_all add: f distinct_keys_put)
    show "\<forall>j p. map_of (lt_store d) j = Some p \<longrightarrow> (\<exists>el. p = Some el \<and> el \<in> set (lt_order d) \<and> stores d j el)"
    proof (intro allI impI)
      fix j p assume p: "map_of (lt_store d) j = Some p"
      show "\<exists>el. p = Some el \<and> el \<in> set (lt_order d) \<and> stores d j el"
      proof (cases "j = k")
        case True
        with p show ?thesis by (intro exI [of _ "lt_next c"]) (simp add: f st)
      next
        case False
        with p have "map_of (lt_store c) j = Some p" by (simp add: f)
        from ttl_linkedD(3) [OF assms(1) this] obtain el where
          el: "p = Some el" "el \<in> set (lt_order c)" "stores c j el" by blast
        with new have "el \<noteq> lt_next c" by auto
        with el show ?thesis by (intro exI [of _ el]) (simp add: f st)
      qed
    qed
    show "\<forall>j el. stores d j el \<longrightarrow> el < lt_next d"
      using ttl_linkedD(4) [OF assms(1)] by (auto simp: f st less_Suc_eq)
    show "\<forall>el \<in> set (lt_order d). \<exists>j. stores d j el"
      using ttl_linkedD(5) [OF assms(1)] by (auto simp: f st)
  qed
qed

lemma base_insert:
  assumes "ttl_base c" "map_of (lt_store c) k = None"
  shows "ttl_base (ttl_insert k v exp c)"
proof -
  define d where "d = c\<lparr>lt_heap := map_put (lt_next c) (EntryValue \<lparr>te_key = k, te_value = v, te_expiresAt = exp\<rparr>) (lt_heap c),
                  lt_next := Suc (lt_next c), lt_order := lt_next c # lt_order c,
                  lt_store := map_put k (Some (lt_next c)) (lt_store c)\<rparr>"
  have l: "ttl_linked d" using assms by (intro linked_push [OF _ _ d_def]) (simp_all add: ttl_base_def)
  have o: "lt_order d = lt_next c # lt_order c" "lt_size d = lt_size c" by (simp_all add: d_def)
  have "ttl_insert k v exp c = (if int (length (lt_order d)) > lt_size d then ttl_evictOldest d else d)"
    by (simp add: ttl_insert_def Let_def d_def)
  thus ?thesis using l linked_evict [OF l] assms by (auto simp: ttl_base_def o)
qed

lemma base_Set:
  assumes "ttl_base c"
  shows "ttl_base (lt_Set now k v ttl c)"
proof (cases "map_of (lt_store c) k")
  case None
  thus ?thesis using base_insert [OF assms None] by (simp add: lt_Set_def Let_def)
next
  case (Some p)
  have l: "ttl_linked c" using assms by (simp add: ttl_base_def)
  from ttl_linkedD(3) [OF l Some] obtain el e where p: "p = Some el" "el \<in> set (lt_order c)"
    "elem_val c el = EntryValue e" "te_key e = k" by (auto simp: stores_def)
  have v: "elem_val (ttl_promote el c) el = EntryValue e" using p(3) by (simp add: elem_val_def)
  define d where "d = lt_Set now k v ttl c"
  have d: "d = (ttl_promote el c)\<lparr>lt_heap := map_put el (EntryValue (e\<lparr>te_value := v, te_expiresAt := now + sint ttl\<rparr>)) (lt_heap c)\<rparr>"
    by (simp add: d_def lt_Set_def Let_def Some p(1) v)
  have "elem_val d x = (if x = el then EntryValue (e\<lparr>te_value := v, te_expiresAt := now + sint ttl\<rparr>) else elem_val c x)" for x
    by (simp add: d elem_val_def)
  hence "stores d = stores c" using p(3) by (auto simp: stores_def fun_eq_iff)
  hence st: "stores d = stores (ttl_promote el c)" using stores_heap [of "ttl_promote el c" c] by simp
  have f: "lt_order d = lt_order (ttl_promote el c)" "lt_store d = lt_store (ttl_promote el c)"
    "lt_next d = lt_next (ttl_promote el c)" "lt_size d = lt_size (ttl_promote el c)" by (simp_all add: d)
  show ?thesis
    using base_promote [OF assms, of el] unfolding d_def [symmetric] ttl_base_def ttl_linked_def st f .
qed

lemma stores_Set: "ttl_base c \<Longrightarrow> stores c j el \<Longrightarrow> stores (lt_Set now k v ttl c) j el"
proof (cases "map_of (lt_store c) k")
  case None
  assume "ttl_base c" "stores c j el"
  with None show ?thesis by (simp add: lt_Set_def Let_def stores_insert ttl_base_def)
next
  case (Some p)
  assume b: "ttl_base c" and s: "stores c j el"
  hence l: "ttl_linked c" by (simp add: ttl_base_def)
  from ttl_linkedD(3) [OF l Some] obtain x e where p: "p = Some x" "elem_val c x = EntryValue e"
    by (auto simp: stores_def)
  have v: "elem_val (ttl_promote x c) x = EntryValue e" using p(2) by (simp add: elem_val_def)
  have "elem_val (lt_Set now k v ttl c) y = (if y = x then EntryValue (e\<lparr>te_value := v, te_expiresAt := now + sint ttl\<rparr>)
     else elem_val c y)" for y
    by (simp add: lt_Set_def Let_def Some p(1) v) (simp add: elem_val_def)
  with s p(2) show ?thesis by (auto simp: stores_def)
qed

lemma base_removeBad: "ttl_base c \<Longrightarrow> map_of (lt_store c) k = Some p \<Longrightarrow> ttl_base (removeBadEntry k p c)"
  using ttl_linkedD(3) [of c k p] base_remove [of c k] by (auto simp: ttl_base_def removeBadEntry_def)

lemma base_Delete: "ttl_base c \<Longrightarrow> ttl_base (lt_Delete k c)"
  by (auto simp: lt_Delete_def base_removeBad split: option.split)

lemma base_finish: "ttl_base c \<Longrightarrow> pending_ok c k r \<Longrightarrow> ttl_base (get_finish k r c)"
  by (auto simp: get_finish_def pending_ok_def base_remove base_promote split: read_outcome.splits)

lemma get_read_ok: "ttl_base c \<Longrightarrow> pending_ok c k (get_read now k c)"
  using ttl_linkedD(3) [of c k]
  by (fastforce simp: ttl_base_def pending_ok_def get_read_def stores_def split: option.splits elem_value.splits)

text \<open>The sweep visits keys whose elements are stored; removing one leaves the others as they are.\<close>

lemma cleanup_fold:
  assumes "ttl_base c" "distinct (map fst kps)" "\<forall>(k, p) \<in> set kps. map_of (lt_store c) k = Some p"
  shows "ttl_base (fold (cleanup_one now) kps c)"
  using assms
proof (induction kps arbitrary: c)
  case (Cons kp kps)
  obtain k p where kp: "kp = (k, p)" by (cases kp)
  from Cons.prems ttl_linkedD(3) [of c k p] obtain el e where p: "p = Some el" "elem_val c el = EntryValue e" "te_key e = k"
    by (auto simp: kp ttl_base_def stores_def)
  hence s: "stores c k el" by (simp add: stores_def)
  have "ttl_base (cleanup_one now kp c)"
    using base_remove [OF Cons.prems(1) s] Cons.prems(1) by (simp add: cleanup_one_def kp p)
  moreover have "\<forall>(j, q) \<in> set kps. map_of (lt_store (cleanup_one now kp c)) j = Some q"
    using Cons.prems(2,3) by (force simp: cleanup_one_def kp p removeEntry_def)
  ultimately show ?case using Cons by (simp add: kp)
qed simp

lemma base_cleanup: "ttl_base c \<Longrightarrow> ttl_base (ttl_cleanup now c)"
  unfolding ttl_cleanup_def
  by (rule cleanup_fold) (auto simp: ttl_base_def ttl_linked_def map_keys_def)

lemma pending_mono:
  "(\<And>j el. stores c j el \<Longrightarrow> stores d j el) \<Longrightarrow> pending_ok c k r \<Longrightarrow> pending_ok d k r"
  by (cases r) (auto simp: pending_ok_def)

lemma pending_heap: "lt_heap d = lt_heap c \<Longrightarrow> pending_ok d k r = pending_ok c k r"
  using stores_heap [of d c] by (cases r) (simp_all add: pending_ok_def)

definition ttl_state_ok :: "('k, 'v) ttl_state \<Rightarrow> bool" where
  "ttl_state_ok s = (ttl_base (fst s) \<and> (\<forall>i k r. snd s i = Some (k, r) \<longrightarrow> pending_ok (fst s) k r))"

lemma NewLRU_base: "ttl_base (NewLRUWithTTL opts)"
proof -
  have "ttl_base (fold apply_option opts c) " if "ttl_base c" "lt_order c = []" for c :: "('k, 'v) ttl_cache"
    using that
  proof (induction opts arbitrary: c)
    case (Cons opt opts)
    have "stores (apply_option opt c) = stores c" by (rule stores_heap) (simp add: apply_option_def split: ttl_option.split)
    with Cons.prems have "ttl_base (apply_option opt c)" "lt_order (apply_option opt c) = []"
      by (auto simp: ttl_base_def ttl_linked_def apply_option_def split: ttl_option.split)
    with Cons.IH show ?case by simp
  qed simp
  from this [of "\<lparr>lt_size = ttl_defaultSize, lt_expiryBuffer = 0, lt_store = [], lt_order = [], lt_heap = [], lt_next = 0\<rparr>"]
  show ?thesis
    by (simp add: NewLRUWithTTL_def) (simp add: ttl_base_def ttl_linked_def ttl_defaultSize_def stores_def elem_val_def)
qed

lemma NewLRU_ok: "ttl_state_ok (NewLRUWithTTL opts, \<lambda>i. None)"
  by (simp add: ttl_state_ok_def NewLRU_base)

lemma ttl_step_ok: "ttl_step s s' \<Longrightarrow> ttl_state_ok s \<Longrightarrow> ttl_state_ok s'"
proof (induction rule: ttl_step.induct)
  case (ttl_read p i c k now)
  thus ?case by (auto simp: ttl_state_ok_def get_read_ok)
next
  case (ttl_finish p i k r c)
  have "ttl_base (get_finish k r c)" using ttl_finish by (intro base_finish) (auto simp: ttl_state_ok_def)
  moreover have "pending_ok (get_finish k r c) = pending_ok c" by (intro ext pending_heap) simp
  ultimately show ?case using ttl_finish(2) unfolding ttl_state_ok_def fst_conv snd_conv
    by (metis fun_upd_apply option.distinct(1))
next
  case (ttl_set c p now k v ttl)
  hence b: "ttl_base c" by (simp add: ttl_state_ok_def)
  have "pending_ok (lt_Set now k v ttl c) j r" if "pending_ok c j r" for j r
    by (rule pending_mono [OF stores_Set [OF b] that])
  with ttl_set base_Set [OF b] show ?case unfolding ttl_state_ok_def fst_conv snd_conv by blast
next
  case (ttl_delete c p k)
  have "pending_ok (lt_Delete k c) = pending_ok c" by (intro ext pending_heap) simp
  with ttl_delete show ?case by (simp add: ttl_state_ok_def base_Delete)
next
  case (ttl_sweep c p now)
  have "pending_ok (ttl_cleanup now c) = pending_ok c" by (intro ext pending_heap) simp
  with ttl_sweep show ?case by (simp add: ttl_state_ok_def base_cleanup)
qed

lemma ttl_reachable_ok: "ttl_reachable opts s \<Longrightarrow> ttl_state_ok s"
  unfolding ttl_reachable_def
  by (induction rule: rtranclp_induct) (auto simp: NewLRU_ok intro: ttl_step_ok)

text \<open>The size never changes after construction.\<close>

lemma ttl_step_size: "ttl_step s s' \<Longrightarrow> lt_size (fst s') = lt_size (fst s)"
  by (induction rule: ttl_step.induct) simp_all

lemma ttl_reachable_size: "ttl_reachable opts s \<Longrightarrow> lt_size (fst s) = lt_size (NewLRUWithTTL opts :: ('k, 'v) ttl_cache)"
  for s :: "('k, 'v) ttl_state"
  unfolding ttl_reachable_def
  by (induction rule: rtranclp_induct) (auto simp: ttl_step_size)

text \<open>The stored keys have different elements, all of them in the list.\<close>

lemma store_le_order:
  assumes "ttl_linked c"
  shows "length (lt_store c) \<le> length (lt_order c)"
proof -
  let ?f = "\<lambda>k. the (the (map_of (lt_store c) k))"
  have D: "?f k \<in> set (lt_order c) \<and> stores c k (?f k)" if "k \<in> set (map_keys (lt_store c))" for k
  proof -
    from that obtain p where "map_of (lt_store c) k = Some p" by (auto simp: map_has_def simp flip: map_has_iff_keys)
    with ttl_linkedD(3) [OF assms this] show ?thesis by auto
  qed
  have "card (set (map_keys (lt_store c))) \<le> card (set (lt_order c))"
  proof (rule card_inj_on_le [of ?f])
    show "inj_on ?f (set (map_keys (lt_store c)))" 
    proof (rule inj_onI)
      fix j k assume "j \<in> set (map_keys (lt_store c))" "k \<in> set (map_keys (lt_store c))" "?f j = ?f k"
      with D [of j] D [of k] have "stores c j (?f k)" "stores c k (?f k)" by simp_all
      thus "j = k" by (rule stores_fun)
    qed
    show "?f ` set (map_keys (lt_store c)) \<subseteq> set (lt_order c)" using D by blast
  qed simp
  moreover have "card (set (map_keys (lt_store c))) = length (lt_store c)"
    using ttl_linkedD(1) [OF assms] distinct_card [of "map_keys (lt_store c)"] by (simp add: map_keys_def)
  ultimately show ?thesis using ttl_linkedD(2) [OF assms] by (simp add: distinct_card)
qed

section \<open>One client at a time\<close>

text \<open>Without interleaving the map and the list hold the same elements, and the cache is a recency list.\<close>

definition lt_inv :: "('k, 'v) ttl_cache \<Rightarrow> bool" where
  "lt_inv c = (ttl_base c \<and> (\<forall>el k. el \<in> set (lt_order c) \<longrightarrow> stores c k el \<longrightarrow> map_of (lt_store c) k = Some (Some el)))"

fun the_entry :: "('k, 'v) elem_value \<Rightarrow> ('k, 'v) ttl_entry" where
  "the_entry (EntryValue e) = e"

definition ttl_item :: "('k, 'v) ttl_cache \<Rightarrow> elem \<Rightarrow> 'k \<times> ('v \<times> int)" where
  "ttl_item c el = (let e = the_entry (elem_val c el) in (te_key e, (te_value e, te_expiresAt e)))"

definition ttl_items :: "('k, 'v) ttl_cache \<Rightarrow> ('k \<times> ('v \<times> int)) list" where
  "ttl_items c = map (ttl_item c) (lt_order c)"

lemma lt_invD:
  assumes "lt_inv c"
  shows "ttl_base c" "ttl_linked c" "el \<in> set (lt_order c) \<Longrightarrow> stores c k el \<Longrightarrow> map_of (lt_store c) k = Some (Some el)"
  using assms by (auto simp: lt_inv_def ttl_base_def)

lemma stores_item: "stores c k el \<Longrightarrow> fst (ttl_item c el) = k"
  by (auto simp: stores_def ttl_item_def Let_def)

lemma ttl_item_heap: "lt_heap d = lt_heap c \<Longrightarrow> ttl_item d = ttl_item c"
  by (simp add: ttl_item_def elem_val_def fun_eq_iff)

lemma ttl_items_distinct: "lt_inv c \<Longrightarrow> distinct (map fst (map (ttl_item c) (lt_order c)))"
proof -
  assume inv: "lt_inv c"
  note l = lt_invD(2) [OF inv]
  have "inj_on (\<lambda>el. fst (ttl_item c el)) (set (lt_order c))"
  proof (rule inj_onI)
    fix x y assume xy: "x \<in> set (lt_order c)" "y \<in> set (lt_order c)" "fst (ttl_item c x) = fst (ttl_item c y)"
    from ttl_linkedD(5) [OF l xy(1)] ttl_linkedD(5) [OF l xy(2)] obtain j k where s: "stores c j x" "stores c k y" by blast
    with xy(3) stores_item have "j = k" by metis
    with lt_invD(3) [OF inv xy(1) s(1)] lt_invD(3) [OF inv xy(2) s(2)] show "x = y" by simp
  qed
  thus ?thesis using ttl_linkedD(2) [OF l] by (simp add: distinct_map o_def)
qed

lemma map_of_ttl_items:
  assumes inv: "lt_inv c"
  shows "map_of (ttl_items c) k =
    (case map_of (lt_store c) k of None \<Rightarrow> None | Some p \<Rightarrow> Some (snd (ttl_item c (the p))))"
proof (cases "map_of (lt_store c) k")
  case None
  have "k \<notin> fst ` set (ttl_items c)"
  proof
    assume "k \<in> fst ` set (ttl_items c)"
    then obtain el where el: "el \<in> set (lt_order c)" "fst (ttl_item c el) = k" by (auto simp: ttl_items_def)
    from ttl_linkedD(5) [OF lt_invD(2) [OF inv] el(1)] obtain j where j: "stores c j el" by blast
    with el(2) stores_item have "j = k" by metis
    with lt_invD(3) [OF inv el(1) j] None show False by simp
  qed
  hence "map_of (ttl_items c) k = None" by (simp only: map_of_eq_None_iff not_False_eq_True)
  with None show ?thesis by simp
next
  case (Some p)
  from ttl_linkedD(3) [OF lt_invD(2) [OF inv] Some] obtain el where
    el: "p = Some el" "el \<in> set (lt_order c)" "stores c k el" by blast
  have "(k, snd (ttl_item c el)) \<in> set (ttl_items c)"
    using el(2) stores_item [OF el(3)] by (auto simp: ttl_items_def intro!: image_eqI [of _ _ el] prod_eqI)
  with ttl_items_distinct [OF inv] Some el(1) show ?thesis by (simp add: ttl_items_def)
qed

lemma lt_inv_ok: "lt_inv c \<Longrightarrow> lru_ok (nat (lt_size c)) (ttl_items c)"
  using ttl_items_distinct [of c] lt_invD(1) [of c] by (auto simp: lru_ok_def ttl_items_def ttl_base_def)

lemma promote_spec:
  assumes "lt_inv c" "stores c k el" "map_of (lt_store c) k = Some (Some el)"
  shows "lt_inv (ttl_promote el c)" "ttl_items (ttl_promote el c) = lru_touch k (ttl_items c)"
proof -
  note st = stores_heap [of "ttl_promote el c" c, simplified]
  show "lt_inv (ttl_promote el c)"
    using assms(1) base_promote [OF lt_invD(1) [OF assms(1)], of el] unfolding lt_inv_def st by (simp add: ttl_promote_def)
  have el: "el \<in> set (lt_order c)" using ttl_linkedD(3) [OF lt_invD(2) [OF assms(1)] assms(3)] by auto
  have "ttl_items (ttl_promote el c) = map (ttl_item c) (MoveToFront el (lt_order c))"
    using ttl_item_heap [of "ttl_promote el c" c] by (simp add: ttl_items_def ttl_promote_def)
  also have "\<dots> = ttl_item c el # lru_drop k (ttl_items c)"
    using map_MoveToFront [OF ttl_items_distinct [OF assms(1)] el] stores_item [OF assms(2)] by (simp add: ttl_items_def)
  also have "ttl_item c el = (k, snd (ttl_item c el))" using stores_item [OF assms(2)] by (metis prod.collapse)
  finally show "ttl_items (ttl_promote el c) = lru_touch k (ttl_items c)"
    by (simp add: lru_touch_def map_of_ttl_items assms)
qed

lemma remove_spec:
  assumes "lt_inv c" "stores c k el" "map_of (lt_store c) k = Some (Some el)"
  shows "lt_inv (removeEntry k el c)" "ttl_items (removeEntry k el c) = lru_drop k (ttl_items c)"
proof -
  note st = stores_heap [of "removeEntry k el c" c, simplified]
  have el: "el \<in> set (lt_order c)" using ttl_linkedD(3) [OF lt_invD(2) [OF assms(1)] assms(3)] by auto
  have d: "lt_order (removeEntry k el c) = list_remove el (lt_order c)"
    "lt_store (removeEntry k el c) = map_del k (lt_store c)" by (simp_all add: removeEntry_def)
  have "map_of (map_del k (lt_store c)) j = Some (Some x)" if "x \<in> set (lt_order c)" "x \<noteq> el" "stores c j x" for j x
    using lt_invD(3) [OF assms(1) that(1,3)] assms(3) that(2) by auto
  thus "lt_inv (removeEntry k el c)"
    using base_remove [OF lt_invD(1) [OF assms(1)] assms(2)] unfolding lt_inv_def st d by simp
  show "ttl_items (removeEntry k el c) = lru_drop k (ttl_items c)"
    using map_list_remove [OF ttl_items_distinct [OF assms(1)] el] stores_item [OF assms(2)]
      ttl_item_heap [of "removeEntry k el c" c] by (simp add: ttl_items_def d list_remove_def)
qed

definition ttl_fresh :: "int \<Rightarrow> ('k, 'v) ttl_cache \<Rightarrow> 'v \<times> int \<Rightarrow> bool" where
  "ttl_fresh now c v = (\<not> now > snd v + sint (- lt_expiryBuffer c))"

lemma get_spec:
  assumes inv: "lt_inv c"
  shows "fst (lt_Get now k c) = (case map_of (ttl_items c) k of
           None \<Rightarrow> None | Some v \<Rightarrow> if ttl_fresh now c v then Some (fst v) else None)"
    "ttl_items (snd (lt_Get now k c)) = (case map_of (ttl_items c) k of
           None \<Rightarrow> ttl_items c | Some v \<Rightarrow> if ttl_fresh now c v then lru_touch k (ttl_items c) else lru_drop k (ttl_items c))"
    "lt_inv (snd (lt_Get now k c))"
proof -
  have "fst (lt_Get now k c) = (case map_of (ttl_items c) k of
           None \<Rightarrow> None | Some v \<Rightarrow> if ttl_fresh now c v then Some (fst v) else None) \<and>
    ttl_items (snd (lt_Get now k c)) = (case map_of (ttl_items c) k of
           None \<Rightarrow> ttl_items c | Some v \<Rightarrow> if ttl_fresh now c v then lru_touch k (ttl_items c) else lru_drop k (ttl_items c)) \<and>
    lt_inv (snd (lt_Get now k c))"
  proof (cases "map_of (lt_store c) k")
    case None
    thus ?thesis using inv by (simp add: lt_Get_def get_read_def get_result_def get_finish_def map_of_ttl_items)
  next
    case (Some p)
    from ttl_linkedD(3) [OF lt_invD(2) [OF inv] Some] obtain el e where
      p: "p = Some el" "stores c k el" "elem_val c el = EntryValue e" by (auto simp: stores_def)
    have m: "map_of (ttl_items c) k = Some (te_value e, te_expiresAt e)"
      by (simp add: map_of_ttl_items inv Some p ttl_item_def)
    show ?thesis
      using promote_spec [OF inv p(2)] remove_spec [OF inv p(2)] Some
      by (simp add: lt_Get_def get_read_def get_result_def get_finish_def p m isExpired_def ttl_fresh_def)
  qed
  thus "fst (lt_Get now k c) = (case map_of (ttl_items c) k of
           None \<Rightarrow> None | Some v \<Rightarrow> if ttl_fresh now c v then Some (fst v) else None)"
    "ttl_items (snd (lt_Get now k c)) = (case map_of (ttl_items c) k of
           None \<Rightarrow> ttl_items c | Some v \<Rightarrow> if ttl_fresh now c v then lru_touch k (ttl_items c) else lru_drop k (ttl_items c))"
    "lt_inv (snd (lt_Get now k c))" by blast+
qed

lemma push_spec:
  assumes inv: "lt_inv c" and new: "map_of (lt_store c) k = None"
    and d: "d = c\<lparr>lt_heap := map_put (lt_next c) (EntryValue \<lparr>te_key = k, te_value = v, te_expiresAt = exp\<rparr>) (lt_heap c),
                  lt_next := Suc (lt_next c), lt_order := lt_next c # lt_order c,
                  lt_store := map_put k (Some (lt_next c)) (lt_store c)\<rparr>"
  shows "\<forall>el k. el \<in> set (lt_order d) \<longrightarrow> stores d k el \<longrightarrow> map_of (lt_store d) k = Some (Some el)"
    "ttl_items d = (k, (v, exp)) # ttl_items c"
proof -
  note l = lt_invD(2) [OF inv]
  have val: "elem_val d el = (if el = lt_next c then EntryValue \<lparr>te_key = k, te_value = v, te_expiresAt = exp\<rparr>
                              else elem_val c el)" for el
    by (simp add: d elem_val_def)
  have nl: "lt_next c \<notin> set (lt_order c)" using ttl_linkedD(4,5) [OF l] by fastforce
  have o: "lt_order d = lt_next c # lt_order c" "lt_store d = map_put k (Some (lt_next c)) (lt_store c)"
    by (simp_all add: d)
  show "\<forall>el j. el \<in> set (lt_order d) \<longrightarrow> stores d j el \<longrightarrow> map_of (lt_store d) j = Some (Some el)"
  proof (intro allI impI)
    fix el j assume el: "el \<in> set (lt_order d)" "stores d j el"
    show "map_of (lt_store d) j = Some (Some el)"
    proof (cases "el = lt_next c")
      case True
      with el(2) show ?thesis by (simp add: stores_def val o)
    next
      case False
      with el have "el \<in> set (lt_order c)" "stores c j el" by (simp_all add: o stores_def val)
      from lt_invD(3) [OF inv this] new show ?thesis by (auto simp: o)
    qed
  qed
  have "ttl_item d el = ttl_item c el" if "el \<in> set (lt_order c)" for el
    using that nl by (auto simp: ttl_item_def val)
  thus "ttl_items d = (k, (v, exp)) # ttl_items c" by (simp add: ttl_items_def o ttl_item_def val)
qed

lemma evict_spec:
  assumes l: "ttl_linked d" and bij: "\<forall>el k. el \<in> set (lt_order d) \<longrightarrow> stores d k el \<longrightarrow> map_of (lt_store d) k = Some (Some el)"
    and ne: "lt_order d \<noteq> []"
  shows "\<forall>el k. el \<in> set (lt_order (ttl_evictOldest d)) \<longrightarrow> stores (ttl_evictOldest d) k el \<longrightarrow>
      map_of (lt_store (ttl_evictOldest d)) k = Some (Some el)"
    "ttl_items (ttl_evictOldest d) = butlast (ttl_items d)"
proof -
  let ?el = "last (lt_order d)" and ?d = "ttl_evictOldest d"
  have el: "?el \<in> set (lt_order d)" using ne by simp
  from ttl_linkedD(5) [OF l el] obtain e where e: "elem_val d ?el = EntryValue e" by (auto simp: stores_def)
  have s: "stores d (te_key e) ?el" by (simp add: stores_def e)
  have o: "lt_order ?d = butlast (lt_order d)" "lt_store ?d = map_del (te_key e) (lt_store d)"
    using ne remove_last [OF ttl_linkedD(2) [OF l] ne] by (simp_all add: ttl_evictOldest_def list_back_def e)
  have nl: "?el \<notin> set (butlast (lt_order d))"
    using ttl_linkedD(2) [OF l] ne by (cases "lt_order d" rule: rev_cases) auto
  have st: "stores ?d = stores d" by (rule stores_heap) simp
  show "\<forall>el k. el \<in> set (lt_order ?d) \<longrightarrow> stores ?d k el \<longrightarrow> map_of (lt_store ?d) k = Some (Some el)"
  proof (intro allI impI)
    fix x k assume x: "x \<in> set (lt_order ?d)" "stores ?d k x"
    hence "x \<in> set (lt_order d)" "x \<noteq> ?el" using nl by (auto simp: o dest: in_set_butlastD)
    moreover from this x(2) bij have m: "map_of (lt_store d) k = Some (Some x)" by (simp add: st)
    moreover have "map_of (lt_store d) (te_key e) = Some (Some ?el)" using bij el s by blast
    ultimately have "k \<noteq> te_key e" by auto
    with m show "map_of (lt_store ?d) k = Some (Some x)" by (simp add: o)
  qed
  show "ttl_items ?d = butlast (ttl_items d)"
    using ttl_item_heap [of ?d d] by (simp add: ttl_items_def o map_butlast)
qed

lemma Set_hit_spec:
  assumes inv: "lt_inv c" and k: "map_of (lt_store c) k = Some (Some el)" "stores c k el"
  shows "lt_inv (lt_Set now k v ttl c)"
    "ttl_items (lt_Set now k v ttl c) = (k, (v, now + sint ttl)) # lru_drop k (ttl_items c)"
proof -
  from k(2) obtain e where e: "elem_val c el = EntryValue e" "te_key e = k" by (auto simp: stores_def)
  define d where "d = lt_Set now k v ttl c"
  have pv: "elem_val (ttl_promote el c) el = EntryValue e" using e(1) by (simp add: elem_val_def)
  have d: "d = (ttl_promote el c)\<lparr>lt_heap := map_put el (EntryValue (e\<lparr>te_value := v, te_expiresAt := now + sint ttl\<rparr>)) (lt_heap c)\<rparr>"
    by (simp add: d_def lt_Set_def Let_def k(1) pv)
  have val: "elem_val d x = (if x = el then EntryValue (e\<lparr>te_value := v, te_expiresAt := now + sint ttl\<rparr>) else elem_val c x)" for x
    by (simp add: d elem_val_def)
  hence st: "stores d = stores c" using e(1) by (auto simp: stores_def fun_eq_iff)
  have o: "lt_order d = MoveToFront el (lt_order c)" "lt_store d = lt_store c" by (simp_all add: d ttl_promote_def)
  have "ttl_base d" using base_Set [OF lt_invD(1) [OF inv]] by (simp add: d_def)
  thus "lt_inv (lt_Set now k v ttl c)"
    using inv unfolding d_def [symmetric] lt_inv_def st o by simp
  have el: "el \<in> set (lt_order c)" using ttl_linkedD(3) [OF lt_invD(2) [OF inv] k(1)] by auto
  have "fst (ttl_item d x) = fst (ttl_item c x)" for x by (simp add: ttl_item_def val e)
  hence ds: "distinct (map fst (map (ttl_item d) (lt_order c)))"
    using ttl_items_distinct [OF inv] by (simp add: o_def)
  have "ttl_items d = map (ttl_item d) (MoveToFront el (lt_order c))" by (simp add: ttl_items_def o)
  also have "\<dots> = ttl_item d el # lru_drop k (map (ttl_item d) (lt_order c))"
    using map_MoveToFront [OF ds el] e by (simp add: ttl_item_def val)
  also have "lru_drop k (map (ttl_item d) (lt_order c)) = lru_drop k (map (ttl_item c) (lt_order c))"
    by (rule lru_drop_cong) (auto simp: ttl_item_def val e)
  finally show "ttl_items (lt_Set now k v ttl c) = (k, (v, now + sint ttl)) # lru_drop k (ttl_items c)"
    by (simp add: d_def [symmetric] ttl_items_def ttl_item_def val e)
qed

lemma Set_spec:
  assumes inv: "lt_inv c"
  shows "lt_inv (lt_Set now k v ttl c) \<and>
    ttl_items (lt_Set now k v ttl c) = lru_put (nat (lt_size c)) k (v, now + sint ttl) (ttl_items c)"
proof (cases "map_of (lt_store c) k")
  case (Some p)
  from ttl_linkedD(3) [OF lt_invD(2) [OF inv] Some] obtain el where p: "p = Some el" "stores c k el" by blast
  have "k \<in> fst ` set (ttl_items c)"
    using map_of_ttl_items [OF inv, of k] Some by (force dest: map_of_SomeD)
  hence "length (lru_drop k (ttl_items c)) < nat (lt_size c)"
    using length_lru_drop_in [of k "ttl_items c"] lt_inv_ok [OF inv] by (simp add: lru_ok_def)
  with Set_hit_spec [OF inv _ p(2)] Some p(1) show ?thesis by (simp add: lru_put_def)
next
  case None
  define d where "d = c\<lparr>lt_heap := map_put (lt_next c) (EntryValue \<lparr>te_key = k, te_value = v, te_expiresAt = now + sint ttl\<rparr>) (lt_heap c),
                  lt_next := Suc (lt_next c), lt_order := lt_next c # lt_order c,
                  lt_store := map_put k (Some (lt_next c)) (lt_store c)\<rparr>"
  note push = push_spec [OF inv None d_def]
  have l: "ttl_linked d" by (rule linked_push [OF lt_invD(2) [OF inv] None d_def])
  have o: "lt_order d = lt_next c # lt_order c" "lt_size d = lt_size c" by (simp_all add: d_def)
  have set: "lt_Set now k v ttl c = (if int (length (lt_order d)) > lt_size d then ttl_evictOldest d else d)"
    by (simp add: lt_Set_def None Let_def ttl_insert_def d_def)
  have base: "ttl_base (lt_Set now k v ttl c)" by (rule base_Set [OF lt_invD(1) [OF inv]])
  have "map_of (ttl_items c) k = None" by (simp add: map_of_ttl_items inv None)
  hence absent: "lru_drop k (ttl_items c) = ttl_items c" by (intro lru_drop_id) (simp add: map_of_eq_None_iff)
  have sz: "0 < lt_size c" "int (length (lt_order c)) \<le> lt_size c" using lt_invD(1) [OF inv] by (simp_all add: ttl_base_def)
  have len: "length (ttl_items c) = length (lt_order c)" by (simp add: ttl_items_def)
  show ?thesis
  proof (cases "int (length (lt_order d)) > lt_size d")
    case True
    have n: "nat (lt_size c) = length (lt_order c)" using True sz by (simp add: o)
    have "take (nat (lt_size c)) ((k, v, now + sint ttl) # ttl_items c) = butlast (ttl_items d)"
      unfolding n by (simp add: push(2) butlast_conv_take o len)
    with True evict_spec [OF l push(1)] base show ?thesis by (simp add: set lt_inv_def lru_put_def absent o)
  next
    case False
    with push base show ?thesis by (simp add: set lt_inv_def lru_put_def absent o len)
  qed
qed

lemma apply_options_order: "lt_order (fold apply_option opts c) = lt_order c"
  by (induction opts arbitrary: c) (simp_all add: apply_option_def split: ttl_option.split)

lemma NewLRU_order: "lt_order (NewLRUWithTTL opts) = []"
  by (simp add: NewLRUWithTTL_def apply_options_order)

lemma NewLRU_inv: "lt_inv (NewLRUWithTTL opts)"
  by (simp add: lt_inv_def NewLRU_base NewLRU_order)

definition ttl_put_op :: "int \<Rightarrow> 'k \<Rightarrow> 'v \<times> 64 word \<Rightarrow> ('k, 'v) ttl_cache \<Rightarrow> ('k, 'v) ttl_cache" where
  "ttl_put_op now k w c = lt_Set now k (fst w) (snd w) c"

lemma buffer_same [simp]:
  "lt_expiryBuffer (lt_Set now k v ttl c) = lt_expiryBuffer c"
  "lt_expiryBuffer (snd (lt_Get now k c)) = lt_expiryBuffer c"
  by (simp_all add: lt_Set_def lt_Get_def get_finish_def removeBadEntry_def removeEntry_def ttl_promote_def
      ttl_insert_def ttl_evictOldest_def Let_def split: option.split elem_value.split read_outcome.split)

interpretation ttl: recency_cache lt_inv ttl_items "\<lambda>c. nat (lt_size c)" "\<lambda>now w. (fst w, now + sint (snd w))"
  ttl_fresh "\<lambda>v. Some (fst v)" lt_Get ttl_put_op
proof unfold_locales
  fix s :: "('k, 'v) ttl_cache" and c c' k w v
  assume inv: "lt_inv s"
  show "lru_ok (nat (lt_size s)) (ttl_items s)" by (rule lt_inv_ok [OF inv])
  show "0 < nat (lt_size s)" using lt_invD(1) [OF inv] by (simp add: ttl_base_def)
  note get_spec [OF inv]
  thus "fst (lt_Get c k s) = (case map_of (ttl_items s) k of
           None \<Rightarrow> None | Some v \<Rightarrow> if ttl_fresh c s v then Some (fst v) else None)"
    "ttl_items (snd (lt_Get c k s)) = (case map_of (ttl_items s) k of
           None \<Rightarrow> ttl_items s | Some v \<Rightarrow> if ttl_fresh c s v then lru_touch k (ttl_items s) else lru_drop k (ttl_items s))"
    "lt_inv (snd (lt_Get c k s))" .
  show "nat (lt_size (snd (lt_Get c k s))) = nat (lt_size s)" by (simp add: lt_Get_def Let_def)
  show "ttl_fresh c' (snd (lt_Get c k s)) v = ttl_fresh c' s v" by (simp add: ttl_fresh_def)
  show "ttl_items (ttl_put_op c k w s) = lru_put (nat (lt_size s)) k (fst w, c + sint (snd w)) (ttl_items s)"
    "lt_inv (ttl_put_op c k w s)" using Set_spec [OF inv] by (simp_all add: ttl_put_op_def)
  show "nat (lt_size (ttl_put_op c k w s)) = nat (lt_size s)" by (simp add: ttl_put_op_def)
  show "ttl_fresh c' (ttl_put_op c k w s) v = ttl_fresh c' s v" by (simp add: ttl_fresh_def ttl_put_op_def)
qed

section \<open>Sequences of operations\<close>

fun lt_run :: "(int, 'k, 'v \<times> 64 word) cache_op list \<Rightarrow> ('k, 'v) ttl_cache \<Rightarrow> ('k, 'v) ttl_cache" where
  "lt_run [] c = c"
| "lt_run (CacheGet now k # ops) c = lt_run ops (snd (lt_Get now k c))"
| "lt_run (CachePut now k w # ops) c = lt_run ops (ttl_put_op now k w c)"

lemma lt_run_eq: "lt_run ops c = recency_cache.run lt_Get ttl_put_op ops c"
  by (induction ops c rule: lt_run.induct) (simp_all add: ttl.run.simps)

lemma lt_run_inv: "lt_inv c \<Longrightarrow> lt_inv (lt_run ops c)"
  unfolding lt_run_eq by (rule ttl.run_inv)

lemma lt_run_size: "lt_inv c \<Longrightarrow> nat (lt_size (lt_run ops c)) = nat (lt_size c)"
  unfolding lt_run_eq by (rule ttl.run_capacity)

lemma lt_run_buffer: "lt_inv c \<Longrightarrow> ttl_fresh now (lt_run ops c) v = ttl_fresh now c v"
  unfolding lt_run_eq by (rule ttl.run_fresh)

section \<open>Properties\<close>


definition sample_ttl :: "(string, nat) ttl_cache" where
  "sample_ttl = lt_Set 2 ''c'' 3 10 (lt_Set 1 ''b'' 2 10 (lt_Set 0 ''a'' 1 10 (NewLRUWithTTL [WithSize 2])))"

lemma sample_ttl_reachable: "ttl_reachable [WithSize 2] (sample_ttl, \<lambda>i. None)"
  unfolding ttl_reachable_def sample_ttl_def
  by (rule rtranclp.rtrancl_into_rtrancl [rotated], rule ttl_set)+ (rule rtranclp.rtrancl_refl)


text \<open>An entry is found again, with the value stored last, until it expires or as many other keys as the
  cache has room for have been used; what the other operations are does not matter.\<close>

theorem ttl_cache_keeps_recent:
  fixes c :: "('k, 'v) ttl_cache"
  assumes "c = lt_run before (NewLRUWithTTL opts)" "k \<notin> op_key ` set ops"
    and "int (card (op_key ` set ops)) < lt_size (NewLRUWithTTL opts :: ('k, 'v) ttl_cache)"
  shows "fst (lt_Get now k (lt_run ops (lt_Set now' k v ttl c))) =
    (if now > now' + sint ttl + sint (- lt_expiryBuffer c) then None else Some v)"
proof -
  have inv: "lt_inv c" using lt_run_inv [OF NewLRU_inv] assms(1) by simp
  have "nat (lt_size c) = nat (lt_size (NewLRUWithTTL opts :: ('k, 'v) ttl_cache))"
    using lt_run_size [OF NewLRU_inv] assms(1) by simp
  hence card: "card (op_key ` set ops) < nat (lt_size c)" using assms(3) by simp
  have "fst (lt_Get now k (lt_run ops (ttl_put_op now' k (v, ttl) c))) =
      (if ttl_fresh now c (v, now' + sint ttl) then Some v else None)"
    using ttl.put_survives [OF inv assms(2) card, of now now' "(v, ttl)"] by (simp add: lt_run_eq)
  thus ?thesis by (simp add: ttl_put_op_def ttl_fresh_def)
qed

theorem ttl_cache_keeps_recent_witness:
  "fst (lt_Get 5 ''b'' (lt_run [CachePut 2 ''c'' (3, 10), CacheGet 3 ''c''] (lt_Set 1 ''b'' 2 10
     (lt_run [CachePut 0 ''a'' (1, 10)] (NewLRUWithTTL [WithSize 2]))))) = Some (2::nat)"
proof -
  have "lt_size (NewLRUWithTTL [WithSize 2] :: (string, nat) ttl_cache) = 2" by code_simp
  moreover have "lt_expiryBuffer (lt_run [CachePut 0 ''a'' (1::nat, 10)] (NewLRUWithTTL [WithSize 2])) = 0" by code_simp
  ultimately show ?thesis
    using ttl_cache_keeps_recent [OF refl, of "''b''" "[CachePut 2 ''c'' (3::nat, 10), CacheGet 3 ''c'']" "[WithSize 2]"
        5 1 2 10 "[CachePut 0 ''a'' (1, 10)]"] by simp
qed

text \<open>Get drops its lock between finding an expired entry and removing it.  A goroutine that does so after
  another one has deleted the key and stored it again removes the new entry from the map: the value stored
  10 ticks ago with a life of 100 is gone, although nobody deleted it, and its element stays in the list.\<close>

theorem ttl_get_removes_fresh_entry:
  "\<exists>c p c' p'. ttl_reachable [] (lt_Set 10 ''a'' (2::nat) 100 c, p) \<and> ttl_step (lt_Set 10 ''a'' 2 100 c, p) (c', p') \<and>
     fst (lt_Get 20 ''a'' (lt_Set 10 ''a'' 2 100 c)) = Some 2 \<and> fst (lt_Get 20 ''a'' c') = None \<and>
     lt_store c' = [] \<and> lt_Len c' = 1"
proof -
  define c1 where "c1 = lt_Set 0 ''a'' (1::nat) 1 (NewLRUWithTTL [])"
  define r where "r = get_read 10 ''a'' c1"
  define p where "p = (\<lambda>i::nat. None)(0 := Some (''a'', r))"
  define c2 where "c2 = lt_Set 10 ''a'' 2 100 (lt_Delete ''a'' c1)"
  define c3 where "c3 = get_finish ''a'' r c2"
  have s1: "ttl_step (NewLRUWithTTL [], \<lambda>i. None) (c1, \<lambda>i. None)" unfolding c1_def by (rule ttl_set)
  have s2: "ttl_step (c1, \<lambda>i. None) (c1, p)" unfolding p_def r_def by (rule ttl_read) simp
  have s3: "ttl_step (c1, p) (lt_Delete ''a'' c1, p)" by (rule ttl_delete)
  have s4: "ttl_step (lt_Delete ''a'' c1, p) (c2, p)" unfolding c2_def by (rule ttl_set)
  have reach: "ttl_reachable [] (c2, p)"
    unfolding ttl_reachable_def
    by (rule converse_rtranclp_into_rtranclp [where r = ttl_step], rule s1 s2 s3 s4)+ (rule rtranclp.rtrancl_refl)
  have step: "ttl_step (c2, p) (c3, p(0 := None))" unfolding c3_def p_def by (rule ttl_finish) simp
  have "fst (lt_Get 20 ''a'' c2) = Some 2 \<and> fst (lt_Get 20 ''a'' c3) = None \<and> lt_store c3 = [] \<and> lt_Len c3 = 1"
    unfolding c3_def c2_def r_def c1_def by code_simp
  with reach step show ?thesis unfolding c2_def by blast
qed

end
