(* ===== verification/State_Data.thy ===== *)
theory State_Data
  imports Closure Resolver_Proc
begin

text \<open>
  The data of \<open>pkg/state\<close> (\<open>types.go\<close>, \<open>project.go\<close>, \<open>decode.go\<close>, \<open>merge.go\<close>, \<open>override.go\<close>) and the
  recording of resolver values (\<open>immutable.go\<close>).

  Instants are numbers, \<open>None\<close> is the zero time.  The entries of a decoded state document are pointers
  and may be nil (\<open>None\<close>).  The JSON decoder and encoder are parameters (\<open>json_env\<close>).
\<close>

section \<open>Documents and configuration\<close>

record component_id =
  ci_name :: string
  ci_version :: string

record state_metadata =
  md_solution :: string
  md_version :: string
  md_createdAt :: "nat option"
  md_lastUpdatedAt :: "nat option"
  md_engine :: component_id
  md_cli :: component_id

record command_info =
  cmd_subcommand :: string
  cmd_parameters :: "string gomap"

record persisted_entry =
  pe_value :: gval
  pe_type :: string
  pe_immutable :: bool
  pe_createdAt :: "nat option"
  pe_updatedAt :: "nat option"

record fingerprint_entry =
  fpe_value :: string
  fpe_updatedAt :: "nat option"

record state_data =
  sd_schemaVersion :: int
  sd_metadata :: state_metadata
  sd_command :: command_info
  sd_parameters :: "gval gomap"
  sd_resolvers :: "persisted_entry option gomap"
  sd_fingerprints :: "fingerprint_entry option gomap"
  sd_attestation :: string

record load_config =
  lc_provider :: string
  lc_inputs :: "value_ref option gomap"

record parameter_projection =
  pp_include :: "string list"
  pp_exclude :: "string list"

record save_target =
  sv_extends :: string
  sv_provider :: string
  sv_format :: string
  sv_parameters :: "parameter_projection option"
  sv_inputs :: "value_ref option gomap"
  sv_enabled :: "value_ref option"
  sv_checkpoint :: bool

record state_config =
  sc_enabled :: "value_ref option"
  sc_load :: "load_config option"
  sc_save :: "save_target list"

text \<open>The resolver fields the state package reads besides those of \<open>resolver\<close>.\<close>

record state_resolver = resolver +
  r_immutable :: bool
  r_persist :: bool

definition SchemaVersionCurrent :: int where "SchemaVersionCurrent = 3"
definition SchemaVersionMinimum :: int where "SchemaVersionMinimum = 2"
definition ReadProviderName :: string where "ReadProviderName = ''state''"
definition FileProviderName :: string where "FileProviderName = ''file''"
definition FileInputPath :: string where "FileInputPath = ''path''"
definition FormatFull :: string where "FormatFull = ''full''"
definition FormatIntent :: string where "FormatIntent = ''intent''"
definition ExtendsLoad :: string where "ExtendsLoad = ''load''"

definition zero_metadata :: state_metadata where
  "zero_metadata = \<lparr>md_solution = [], md_version = [], md_createdAt = None, md_lastUpdatedAt = None,
     md_engine = \<lparr>ci_name = [], ci_version = []\<rparr>, md_cli = \<lparr>ci_name = [], ci_version = []\<rparr>\<rparr>"

definition NewData :: state_data where
  "NewData = \<lparr>sd_schemaVersion = SchemaVersionCurrent, sd_metadata = zero_metadata,
     sd_command = \<lparr>cmd_subcommand = [], cmd_parameters = []\<rparr>, sd_parameters = [], sd_resolvers = [],
     sd_fingerprints = [], sd_attestation = []\<rparr>"

datatype state_error =
    UnsupportedSchemaVersion int
  | IncompatibleSchemaVersion int bool
  | UnknownFormat string
  | IncludeAndExclude
  | OutputConflict
  | ImmutableMismatch string
  | NilEntryPanic string
  | MissingLocks string string "string list"
  | NotFoundError string string
  | MissingParamsError "string list" state_error
  | EnabledFailed ref_error
  | InputFailed string ref_error
  | ProviderNameEmpty
  | ProviderUnknown string
  | ProviderNoState string
  | ProviderFailed string
  | BadOutput string
  | DecodeFailed string
  | ExtendsWithoutLoad
  | BadExtends string
  | SaveEnabledFailed nat state_error
  | SaveFailed nat state_error
  | CycleError string "string list"
  | UnknownStateRefError string "string list"
  | NoRunner
  | PreloadFailed string
  | NoResolverContext

section \<open>Merging, overriding, projecting\<close>

definition MergeParameters :: "gval gomap \<Rightarrow> gval gomap \<Rightarrow> gval gomap" where
  "MergeParameters saved cli = put_all cli (put_all saved [])"

record overrides =
  ov_loadFile :: string
  ov_outputFile :: string
  ov_noOutput :: bool

definition overrides_IsZero :: "overrides \<Rightarrow> bool" where
  "overrides_IsZero ov = (ov_loadFile ov = [] \<and> ov_outputFile ov = [] \<and> \<not> ov_noOutput ov)"

definition merge_inputs :: "value_ref option gomap \<Rightarrow> value_ref option gomap \<Rightarrow> value_ref option gomap" where
  "merge_inputs own base = fold (\<lambda>(k, v) m. if v \<noteq> None then map_put k v m else m) own (put_all base [])"

definition materialize_target :: "load_config option \<Rightarrow> save_target \<Rightarrow> save_target" where
  "materialize_target ld t =
     (case ld of
        Some l \<Rightarrow>
          if sv_extends t = ExtendsLoad
          then t\<lparr>sv_provider := lc_provider l, sv_inputs := merge_inputs (sv_inputs t) (lc_inputs l), sv_extends := []\<rparr>
          else t
      | None \<Rightarrow> t)"

definition materializeExtends :: "state_config option \<Rightarrow> state_config option" where
  "materializeExtends cfg =
     map_option (\<lambda>c. c\<lparr>sc_save := map (materialize_target (sc_load c)) (sc_save c)\<rparr>) cfg"

definition empty_config :: state_config where
  "empty_config = \<lparr>sc_enabled = None, sc_load = None, sc_save = []\<rparr>"

definition file_inputs :: "string \<Rightarrow> value_ref option gomap" where
  "file_inputs f = [(FileInputPath, Some (RefLiteral (VStr f)))]"

definition ApplyOverrides :: "state_config option \<Rightarrow> overrides \<Rightarrow> state_error + state_config option" where
  "ApplyOverrides declared ov =
     (if ov_outputFile ov \<noteq> [] \<and> ov_noOutput ov then Inl OutputConflict
      else if overrides_IsZero ov then Inr declared
      else if declared = None \<and> ov_loadFile ov = [] \<and> ov_outputFile ov = [] then Inr None
      else
        (let cfg = (case materializeExtends declared of None \<Rightarrow> empty_config | Some c \<Rightarrow> c);
             cfg = (if ov_loadFile ov \<noteq> [] \<or> ov_outputFile ov \<noteq> []
                    then cfg\<lparr>sc_enabled := Some (RefLiteral (VBool True))\<rparr> else cfg);
             cfg = (if ov_loadFile ov \<noteq> []
                    then cfg\<lparr>sc_load := Some \<lparr>lc_provider = FileProviderName, lc_inputs = file_inputs (ov_loadFile ov)\<rparr>\<rparr>
                    else cfg);
             cfg = (if ov_outputFile ov \<noteq> []
                    then cfg\<lparr>sc_save := [\<lparr>sv_extends = [], sv_provider = FileProviderName, sv_format = FormatFull,
                           sv_parameters = None, sv_inputs = file_inputs (ov_outputFile ov), sv_enabled = None,
                           sv_checkpoint = False\<rparr>]\<rparr>
                    else if ov_noOutput ov then cfg\<lparr>sc_save := []\<rparr> else cfg)
         in Inr (Some cfg)))"

record override_info =
  oi_replacedLoad :: bool
  oi_replacedLoadProvider :: string
  oi_replacedSaveTargets :: nat
  oi_overridesEnabled :: bool

definition alwaysEnabled :: "value_ref option \<Rightarrow> bool" where
  "alwaysEnabled e = (e = None \<or> e = Some (RefLiteral (VBool True)))"

definition DescribeOverrides :: "state_config option \<Rightarrow> overrides \<Rightarrow> override_info" where
  "DescribeOverrides declared ov =
     (let info = \<lparr>oi_replacedLoad = False, oi_replacedLoadProvider = [], oi_replacedSaveTargets = 0,
                   oi_overridesEnabled = False\<rparr>
      in case declared of
        None \<Rightarrow> info
      | Some c \<Rightarrow>
          (let info = (case sc_load c of
                         Some l \<Rightarrow> if ov_loadFile ov \<noteq> []
                                   then info\<lparr>oi_replacedLoad := True, oi_replacedLoadProvider := lc_provider l\<rparr> else info
                       | None \<Rightarrow> info);
               info = (if ov_outputFile ov \<noteq> [] \<or> ov_noOutput ov
                       then info\<lparr>oi_replacedSaveTargets := length (sc_save c)\<rparr> else info)
           in if (ov_loadFile ov \<noteq> [] \<or> ov_outputFile ov \<noteq> []) \<and> \<not> alwaysEnabled (sc_enabled c)
              then info\<lparr>oi_overridesEnabled := True\<rparr> else info))"

text \<open>What a save target receives.\<close>

record intent =
  in_schemaVersion :: int
  in_solution :: string
  in_version :: string
  in_parameters :: "gval gomap"
  in_attestation :: string

datatype state_document = FullDocument state_data | IntentDocument intent

definition narrowParameters :: "gval gomap \<Rightarrow> parameter_projection option \<Rightarrow> gval gomap" where
  "narrowParameters params proj =
     (case proj of
        None \<Rightarrow> params
      | Some p \<Rightarrow>
          if pp_include p \<noteq> []
          then fold (\<lambda>n m. case map_of params n of Some v \<Rightarrow> map_put n v m | None \<Rightarrow> m) (pp_include p) []
          else if pp_exclude p \<noteq> []
          then fold (\<lambda>(k, v) m. if k \<notin> set (pp_exclude p) then map_put k v m else m) params []
          else put_all params [])"

definition projectState :: "state_data \<Rightarrow> save_target \<Rightarrow> state_error + state_document" where
  "projectState d t =
     (if sv_format t = [] \<or> sv_format t = FormatFull then Inr (FullDocument d)
      else if sv_format t = FormatIntent then
        (if (case sv_parameters t of Some p \<Rightarrow> pp_include p \<noteq> [] \<and> pp_exclude p \<noteq> [] | None \<Rightarrow> False)
         then Inl IncludeAndExclude
         else Inr (IntentDocument
                \<lparr>in_schemaVersion = sd_schemaVersion d, in_solution = md_solution (sd_metadata d),
                 in_version = md_version (sd_metadata d),
                 in_parameters = narrowParameters (sd_parameters d) (sv_parameters t),
                 in_attestation = sd_attestation d\<rparr>))
      else Inl (UnknownFormat (sv_format t)))"

section \<open>Decoding\<close>

text \<open>
  The top-level keys of a JSON value (\<open>None\<close> when it is neither an object nor null), its
  \<open>schemaVersion\<close> and the decoded document; errors of the decoder are messages.
\<close>

record json_env =
  js_keys :: "string \<Rightarrow> string list option"
  js_version :: "string \<Rightarrow> string + int option"
  js_data :: "string \<Rightarrow> string + state_data"

definition is_space :: "char \<Rightarrow> bool" where
  "is_space c = (let n = of_char c :: nat in n = 32 \<or> 9 \<le> n \<and> n \<le> 13)"

definition isContentless :: "json_env \<Rightarrow> string \<Rightarrow> bool" where
  "isContentless env raw =
     (let trimmed = rev (dropWhile is_space (rev (dropWhile is_space raw))) in
      trimmed = [] \<or> js_keys env trimmed = Some [])"

definition validateSchemaVersion :: "int \<Rightarrow> bool \<Rightarrow> state_error option" where
  "validateSchemaVersion v explicit =
     (if v > SchemaVersionCurrent then Some (UnsupportedSchemaVersion v)
      else if v < SchemaVersionMinimum then Some (IncompatibleSchemaVersion v explicit)
      else None)"

text \<open>\<open>normalizeData\<close> only replaces nil maps by empty ones, which the model does not distinguish.\<close>

definition DecodeData :: "json_env \<Rightarrow> string \<Rightarrow> state_error + state_data" where
  "DecodeData env raw =
     (if isContentless env raw then Inr NewData
      else (case js_version env raw of
              Inl e \<Rightarrow> Inl (DecodeFailed e)
            | Inr v \<Rightarrow>
                (case validateSchemaVersion (case v of Some n \<Rightarrow> n | None \<Rightarrow> 0) (v \<noteq> None) of
                   Some e \<Rightarrow> Inl e
                 | None \<Rightarrow> (case js_data env raw of Inl e \<Rightarrow> Inl (DecodeFailed e) | Inr d \<Rightarrow> Inr d))))"

definition isEmptyData :: "state_data \<Rightarrow> bool" where
  "isEmptyData d =
     (sd_schemaVersion d = 0 \<and> sd_parameters d = [] \<and> sd_resolvers d = [] \<and> sd_fingerprints d = [] \<and>
      sd_attestation d = [] \<and> sd_metadata d = zero_metadata \<and> cmd_subcommand (sd_command d) = [] \<and>
      cmd_parameters (sd_command d) = [])"

section \<open>Persisted and immutable values\<close>

text \<open>The comparison of two values through JSON, with the printed form when one cannot be encoded.\<close>

record value_env =
  vl_json :: "gval \<Rightarrow> string option"
  vl_print :: "gval \<Rightarrow> string"

definition immutableValuesEqual :: "value_env \<Rightarrow> gval \<Rightarrow> gval \<Rightarrow> bool" where
  "immutableValuesEqual env a b =
     (if a = VNil \<and> b = VNil then True
      else if a = VNil \<or> b = VNil then False
      else (case (vl_json env a, vl_json env b) of
              (Some x, Some y) \<Rightarrow> x = y
            | _ \<Rightarrow> vl_print env a = vl_print env b))"

definition succeeded :: "rctx \<Rightarrow> string \<Rightarrow> rresult option" where
  "succeeded ctx n =
     (case rctx_GetResult ctx n of
        Some r \<Rightarrow> if rs_status r = RSuccess then Some r else None
      | None \<Rightarrow> None)"

definition persist_entry :: "nat \<Rightarrow> state_resolver \<Rightarrow> bool \<Rightarrow> persisted_entry option \<Rightarrow> gval \<Rightarrow> persisted_entry" where
  "persist_entry now r immut prior v =
     \<lparr>pe_value = v, pe_type = r_type r, pe_immutable = immut,
      pe_createdAt = (case prior of Some e \<Rightarrow> pe_createdAt e | None \<Rightarrow> Some now), pe_updatedAt = Some now\<rparr>"

text \<open>The work on one resolver; a nil entry is dereferenced when it is looked at.\<close>

definition persist_one ::
  "value_env \<Rightarrow> nat \<Rightarrow> rctx \<Rightarrow> string list \<Rightarrow> state_resolver \<Rightarrow> persisted_entry option gomap \<Rightarrow>
   persisted_entry option gomap \<times> state_error option" where
  "persist_one env now ctx skip r es =
     (if \<not> r_immutable r \<and> \<not> r_persist r then (es, None)
      else (case succeeded ctx (r_name r) of
              None \<Rightarrow> (es, None)
            | Some res \<Rightarrow>
                (case map_of es (r_name r) of
                   Some None \<Rightarrow> (es, Some (NilEntryPanic (r_name r)))
                 | prior \<Rightarrow>
                     (let entry = (case prior of Some (Some e) \<Rightarrow> Some e | _ \<Rightarrow> None);
                          locked = (case entry of Some e \<Rightarrow> pe_immutable e | None \<Rightarrow> False)
                      in if r_immutable r then
                           (if \<not> locked
                            then (if r_name r \<in> set skip then (es, None)
                                  else (map_put (r_name r) (Some (persist_entry now r True entry (rs_value res))) es, None))
                            else (es, if immutableValuesEqual env (case entry of Some e \<Rightarrow> pe_value e | None \<Rightarrow> VNil) (rs_value res)
                                      then None else Some (ImmutableMismatch (r_name r))))
                         else if locked then (es, None)
                         else (map_put (r_name r) (Some (persist_entry now r False entry (rs_value res))) es, None)))))"

fun persist_all ::
  "value_env \<Rightarrow> nat \<Rightarrow> rctx \<Rightarrow> string list \<Rightarrow> state_resolver list \<Rightarrow> persisted_entry option gomap \<Rightarrow>
   persisted_entry option gomap \<times> state_error option" where
  "persist_all env now ctx skip [] es = (es, None)"
| "persist_all env now ctx skip (r # rs) es =
     (case persist_one env now ctx skip r es of
        (es', Some e) \<Rightarrow> (es', Some e)
      | (es', None) \<Rightarrow> persist_all env now ctx skip rs es')"

definition PersistResolvers ::
  "value_env \<Rightarrow> nat \<Rightarrow> rctx \<Rightarrow> state_resolver list \<Rightarrow> string list \<Rightarrow> state_data option \<Rightarrow> state_data option \<times> state_error option" where
  "PersistResolvers env now ctx rs skip sd =
     (case sd of
        None \<Rightarrow> (None, None)
      | Some d \<Rightarrow> (case persist_all env now ctx skip rs (sd_resolvers d) of (es, e) \<Rightarrow> (Some (d\<lparr>sd_resolvers := es\<rparr>), e)))"

fun VerifyImmutables ::
  "value_env \<Rightarrow> rctx \<Rightarrow> state_data option \<Rightarrow> state_resolver list \<Rightarrow> state_error option" where
  "VerifyImmutables env ctx None rs = None"
| "VerifyImmutables env ctx (Some d) [] = None"
| "VerifyImmutables env ctx (Some d) (r # rs) =
     (if \<not> r_immutable r then VerifyImmutables env ctx (Some d) rs
      else (case map_of (sd_resolvers d) (r_name r) of
              None \<Rightarrow> VerifyImmutables env ctx (Some d) rs
            | Some None \<Rightarrow> Some (NilEntryPanic (r_name r))
            | Some (Some e) \<Rightarrow>
                if \<not> pe_immutable e then VerifyImmutables env ctx (Some d) rs
                else (case succeeded ctx (r_name r) of
                        None \<Rightarrow> VerifyImmutables env ctx (Some d) rs
                      | Some res \<Rightarrow>
                          if immutableValuesEqual env (pe_value e) (rs_value res)
                          then VerifyImmutables env ctx (Some d) rs
                          else Some (ImmutableMismatch (r_name r)))))"
section \<open>Laws of the data operations\<close>

lemma put_all_of [simp]: "map_of (put_all new base) = map_of base ++ map_of (rev new)"
proof -
  have "map_of (fold (\<lambda>(k, v) m. map_put k v m) new b) = map_of b ++ map_of (rev new)" for b :: "'a gomap"
    by (induction new arbitrary: b) (auto simp: fun_eq_iff map_add_def split: option.splits)
  then show ?thesis by (simp add: put_all_def)
qed

lemma map_of_rev_distinct: "distinct (map_keys m) \<Longrightarrow> map_of (rev m) = map_of m"
  by (metis map_keys_def map_of_inject_set rev_map set_rev distinct_rev)

lemma MergeParameters_of:
  "distinct (map_keys saved) \<Longrightarrow> distinct (map_keys cli) \<Longrightarrow>
   map_of (MergeParameters saved cli) = map_of saved ++ map_of cli"
  by (simp add: MergeParameters_def map_of_rev_distinct)

lemma values_equal_refl: "immutableValuesEqual env v v"
  by (simp add: immutableValuesEqual_def split: option.splits)

text \<open>A locked entry: present, not nil and immutable.\<close>

definition lock_of :: "persisted_entry option gomap \<Rightarrow> string \<Rightarrow> persisted_entry option" where
  "lock_of es n = (case map_of es n of Some (Some e) \<Rightarrow> if pe_immutable e then Some e else None | _ \<Rightarrow> None)"

definition no_nil :: "persisted_entry option gomap \<Rightarrow> bool" where
  "no_nil es = (\<forall>n. map_of es n \<noteq> Some None)"

lemma lock_of_put:
  "lock_of (map_put k (Some e) es) n = (if n = k then (if pe_immutable e then Some e else None) else lock_of es n)"
  by (simp add: lock_of_def)

lemma no_nil_put: "no_nil es \<Longrightarrow> no_nil (map_put k (Some e) es)"
  by (simp add: no_nil_def)

lemma persist_entry_sel [simp]:
  "pe_immutable (persist_entry now r b p v) = b" "pe_value (persist_entry now r b p v) = v"
  by (simp_all add: persist_entry_def)

text \<open>The work on one resolver by cases.\<close>

lemma persist_one_cases:
  fixes env :: value_env and now :: nat and ctx :: rctx and skip :: "string list" and r :: state_resolver
    and es :: "persisted_entry option gomap"
  obtains (idle) "persist_one env now ctx skip r es = (es, None)"
      "\<not> r_immutable r \<or> succeeded ctx (r_name r) = None \<or> r_name r \<in> set skip \<and> lock_of es (r_name r) = None"
    | (nil) "persist_one env now ctx skip r es = (es, Some (NilEntryPanic (r_name r)))" "map_of es (r_name r) = Some None"
    | (verified) res e where "persist_one env now ctx skip r es = (es, None)" "succeeded ctx (r_name r) = Some res"
      "lock_of es (r_name r) = Some e" "immutableValuesEqual env (pe_value e) (rs_value res)" "r_immutable r"
    | (mismatch) res e where "persist_one env now ctx skip r es = (es, Some (ImmutableMismatch (r_name r)))"
      "succeeded ctx (r_name r) = Some res" "lock_of es (r_name r) = Some e"
      "\<not> immutableValuesEqual env (pe_value e) (rs_value res)" "r_immutable r"
    | (stored) res p where "succeeded ctx (r_name r) = Some res" "lock_of es (r_name r) = None"
      "persist_one env now ctx skip r es =
        (map_put (r_name r) (Some (persist_entry now r (r_immutable r) p (rs_value res))) es, None)"
      "p = (case map_of es (r_name r) of Some e \<Rightarrow> e | None \<Rightarrow> None)"
proof (cases "\<not> r_immutable r \<and> \<not> r_persist r")
  case True
  then show ?thesis by (intro idle) (simp_all add: persist_one_def)
next
  case a: False
  show ?thesis
  proof (cases "succeeded ctx (r_name r)")
    case None
    with a show ?thesis by (intro idle) (auto simp: persist_one_def)
  next
    case (Some res)
    note b = a Some
    show ?thesis
    proof (cases "map_of es (r_name r)")
      case None
      have l: "lock_of es (r_name r) = None" by (simp add: lock_of_def None)
      show ?thesis
      proof (cases "r_immutable r \<and> r_name r \<in> set skip")
        case True
        with b None l show ?thesis by (intro idle) (simp_all add: persist_one_def)
      next
        case False
        with b None l show ?thesis by (intro stored) (auto simp: persist_one_def)
      qed
    next
      case (Some oe)
      note c = b Some
      show ?thesis
      proof (cases oe)
        case None
        with c show ?thesis by (intro nil) (auto simp: persist_one_def)
      next
        case (Some e)
        note d = c Some
        consider (lock) "pe_immutable e" "r_immutable r" | (keep) "pe_immutable e" "\<not> r_immutable r"
          | (skip) "\<not> pe_immutable e" "r_immutable r" "r_name r \<in> set skip"
          | (put) "\<not> pe_immutable e" "\<not> (r_immutable r \<and> r_name r \<in> set skip)" by blast
        then show ?thesis
        proof cases
          case lock
          then have l: "lock_of es (r_name r) = Some e" using d by (simp add: lock_of_def)
          show ?thesis
          proof (cases "immutableValuesEqual env (pe_value e) (rs_value res)")
            case True
            with lock l d show ?thesis by (intro verified) (simp_all add: persist_one_def)
          next
            case False
            with lock l d show ?thesis by (intro mismatch) (simp_all add: persist_one_def)
          qed
        next
          case keep
          with d show ?thesis by (intro idle) (auto simp: persist_one_def)
        next
          case skip
          with d show ?thesis by (intro idle) (auto simp: persist_one_def lock_of_def)
        next
          case put
          with d show ?thesis by (intro stored) (auto simp: persist_one_def lock_of_def Let_def)
        qed
      qed
    qed
  qed
qed

subsection \<open>Locks\<close>

lemma persist_one_lock:
  assumes "lock_of es n = Some e" shows "lock_of (fst (persist_one env now ctx skip r es)) n = Some e"
  using assms by (cases rule: persist_one_cases [of env now ctx skip r es]) (auto simp: lock_of_put)

lemma persist_all_lock:
  "lock_of es n = Some e \<Longrightarrow> lock_of (fst (persist_all env now ctx skip rs es)) n = Some e"
proof (induction rs arbitrary: es)
  case (Cons r rs)
  from persist_one_lock [OF Cons.prems] have "lock_of (fst (persist_one env now ctx skip r es)) n = Some e" .
  then show ?case using Cons.IH by (auto split: prod.split option.split)
qed simp

lemma persist_one_no_nil:
  assumes "no_nil es" shows "no_nil (fst (persist_one env now ctx skip r es))"
  using assms by (cases rule: persist_one_cases [of env now ctx skip r es]) (auto simp: no_nil_put)

text \<open>What holds of one resolver afterwards: its value agrees with the lock of its name.\<close>

definition agrees :: "value_env \<Rightarrow> rctx \<Rightarrow> persisted_entry option gomap \<Rightarrow> state_resolver \<Rightarrow> bool" where
  "agrees env ctx es r =
     (case succeeded ctx (r_name r) of
        None \<Rightarrow> True
      | Some res \<Rightarrow> (case lock_of es (r_name r) of
                      None \<Rightarrow> True | Some e \<Rightarrow> immutableValuesEqual env (pe_value e) (rs_value res)))"

definition recorded :: "value_env \<Rightarrow> rctx \<Rightarrow> persisted_entry option gomap \<Rightarrow> state_resolver \<Rightarrow> bool" where
  "recorded env ctx es r =
     (case succeeded ctx (r_name r) of
        None \<Rightarrow> True
      | Some res \<Rightarrow> \<exists>e. lock_of es (r_name r) = Some e \<and> immutableValuesEqual env (pe_value e) (rs_value res))"

lemma recorded_mono:
  "recorded env ctx es r \<Longrightarrow> (\<And>e. lock_of es (r_name r) = Some e \<Longrightarrow> lock_of es' (r_name r) = Some e) \<Longrightarrow>
   recorded env ctx es' r"
  by (auto simp: recorded_def split: option.splits)

lemma persist_one_records:
  assumes "snd (persist_one env now ctx skip r es) = None" "r_immutable r" "r_name r \<notin> set skip"
  shows "recorded env ctx (fst (persist_one env now ctx skip r es)) r"
  using assms
  by (cases rule: persist_one_cases [of env now ctx skip r es])
    (auto simp: recorded_def lock_of_put values_equal_refl)

lemma persist_all_records:
  "snd (persist_all env now ctx skip rs es) = None \<Longrightarrow> r \<in> set rs \<Longrightarrow> r_immutable r \<Longrightarrow> r_name r \<notin> set skip \<Longrightarrow>
   recorded env ctx (fst (persist_all env now ctx skip rs es)) r"
proof (induction rs arbitrary: es)
  case (Cons x rs)
  obtain es' where o: "persist_one env now ctx skip x es = (es', None)"
    using Cons.prems(1) by (cases "persist_one env now ctx skip x es") (auto split: option.splits)
  then have e: "persist_all env now ctx skip (x # rs) es = persist_all env now ctx skip rs es'" by simp
  show ?case
  proof (cases "r \<in> set rs")
    case True
    with Cons.IH [of es'] Cons.prems e show ?thesis by simp
  next
    case False
    with Cons.prems(2) have "r = x" by simp
    with persist_one_records [of env now ctx skip x es] o Cons.prems have "recorded env ctx es' r" by simp
    then show ?thesis unfolding e by (rule recorded_mono) (rule persist_all_lock)
  qed
qed simp

text \<open>An entry of a name that no immutable or persisted resolver has is left alone.\<close>

lemma persist_one_other:
  "n \<noteq> r_name r \<or> \<not> r_immutable r \<and> \<not> r_persist r \<Longrightarrow>
   map_of (fst (persist_one env now ctx skip r es)) n = map_of es n"
proof (cases "r_immutable r \<or> r_persist r")
  case True
  assume "n \<noteq> r_name r \<or> \<not> r_immutable r \<and> \<not> r_persist r"
  with True have "n \<noteq> r_name r" by blast
  then show ?thesis by (cases rule: persist_one_cases [of env now ctx skip r es]) auto
qed (simp add: persist_one_def)

lemma persist_all_other:
  "\<forall>r \<in> set rs. n \<noteq> r_name r \<or> \<not> r_immutable r \<and> \<not> r_persist r \<Longrightarrow>
   map_of (fst (persist_all env now ctx skip rs es)) n = map_of es n"
proof (induction rs arbitrary: es)
  case (Cons r rs)
  then have "map_of (fst (persist_one env now ctx skip r es)) n = map_of es n" by (intro persist_one_other) simp
  then show ?case using Cons by (auto split: prod.split option.split)
qed simp

subsection \<open>Verification before the actions and locking after them\<close>

lemma verify_agrees:
  assumes "no_nil (sd_resolvers d)"
  shows "VerifyImmutables env ctx (Some d) rs = None \<longleftrightarrow>
     (\<forall>r \<in> set rs. r_immutable r \<longrightarrow> agrees env ctx (sd_resolvers d) r)"
proof (induction rs)
  case (Cons r rs)
  have "map_of (sd_resolvers d) (r_name r) \<noteq> Some None" using assms by (simp add: no_nil_def)
  with Cons show ?case
    by (cases "map_of (sd_resolvers d) (r_name r)") (auto simp: agrees_def lock_of_def split: option.splits)
qed simp

lemma agrees_persist_one:
  assumes "agrees env ctx es x" "snd (persist_one env now ctx skip r es) = None" "r_immutable r"
  shows "agrees env ctx (fst (persist_one env now ctx skip r es)) x"
  using assms(2,3)
proof (cases rule: persist_one_cases [of env now ctx skip r es])
  case (stored res p)
  show ?thesis
  proof (cases "r_name x = r_name r")
    case True
    then show ?thesis using stored assms(3) by (simp add: agrees_def lock_of_put values_equal_refl)
  next
    case False
    then have "lock_of (fst (persist_one env now ctx skip r es)) (r_name x) = lock_of es (r_name x)"
      unfolding stored(3) by (simp add: lock_of_put)
    then show ?thesis using assms(1) by (simp add: agrees_def split: option.splits)
  qed
qed (use assms in auto)

lemma agrees_persist_plain:
  assumes "agrees env ctx es x" "\<not> r_immutable r"
  shows "agrees env ctx (fst (persist_one env now ctx skip r es)) x"
  using assms(2)
proof (cases rule: persist_one_cases [of env now ctx skip r es])
  case (stored res p)
  then show ?thesis using assms by (auto simp: agrees_def lock_of_put split: option.splits)
qed (use assms in auto)

lemma persist_all_agree:
  "no_nil es \<Longrightarrow> snd (persist_all env now ctx skip rs es) = None \<longleftrightarrow> (\<forall>r \<in> set rs. r_immutable r \<longrightarrow> agrees env ctx es r)"
proof (induction rs arbitrary: es)
  case (Cons r rs)
  obtain es' e where o: "persist_one env now ctx skip r es = (es', e)" by fastforce
  have n: "no_nil es'" using persist_one_no_nil [OF Cons.prems, of env now ctx skip r] o by simp
  have notnil: "map_of es (r_name r) \<noteq> Some None" using Cons.prems by (simp add: no_nil_def)
  show ?case
  proof (cases e)
    case None
    have own: "r_immutable r \<Longrightarrow> agrees env ctx es r"
      using o None by (cases rule: persist_one_cases [of env now ctx skip r es]) (auto simp: agrees_def split: option.splits)
    have same: "agrees env ctx es' x \<longleftrightarrow> agrees env ctx es x" for x
    proof
      assume a: "agrees env ctx es' x"
      have "lock_of es (r_name x) = Some e \<Longrightarrow> lock_of es' (r_name x) = Some e" for e
        using persist_one_lock [of es "r_name x" e env now ctx skip r] o by simp
      with a show "agrees env ctx es x" by (auto simp: agrees_def split: option.splits)
    next
      assume a: "agrees env ctx es x"
      show "agrees env ctx es' x"
      proof (cases "r_immutable r")
        case True
        with agrees_persist_one [OF a, of now skip r] o None show ?thesis by simp
      next
        case False
        with agrees_persist_plain [OF a, of r now skip] o show ?thesis by simp
      qed
    qed
    from o None Cons.IH [OF n] own same show ?thesis by auto
  next
    case (Some err)
    have "\<not> agrees env ctx es r \<and> r_immutable r"
      using o Some notnil
      by (cases rule: persist_one_cases [of env now ctx skip r es]) (auto simp: agrees_def)
    with o Some show ?thesis by auto
  qed
qed simp

section \<open>Properties\<close>

definition plain_values :: value_env where
  "plain_values = \<lparr>vl_json = (\<lambda>v. case v of VStr s \<Rightarrow> Some s | _ \<Rightarrow> None), vl_print = (\<lambda>_. ''?'')\<rparr>"

definition sample_state_resolver :: "string \<Rightarrow> bool \<Rightarrow> state_resolver" where
  "sample_state_resolver n imm = resolver.extend (sample_resolver n [] (RefLiteral VNil)) (state_resolver.fields imm True)"

definition sample_state_ctx :: "string \<Rightarrow> gval \<Rightarrow> rctx" where
  "sample_state_ctx n v = rctx_Set n v rctx_New"

definition sample_entry :: "bool \<Rightarrow> gval \<Rightarrow> persisted_entry" where
  "sample_entry imm v = \<lparr>pe_value = v, pe_type = [], pe_immutable = imm, pe_createdAt = Some 1, pe_updatedAt = Some 1\<rparr>"

definition sample_state :: state_data where
  "sample_state = NewData\<lparr>sd_resolvers := [(''id'', Some (sample_entry True (VStr ''v1'')))]\<rparr>"



text \<open>Replacing where a run reads from leaves the place of every save target as declared, when a load block is
  declared: the manager writes the declared targets, resolved against the declared load block.\<close>

theorem override_keeps_targets:
  assumes "ApplyOverrides (Some c) ov = Inr cfg" "sc_load c \<noteq> None" "ov_outputFile ov = []" "\<not> ov_noOutput ov"
  shows "\<exists>c'. materializeExtends cfg = Some c' \<and> sc_save c' = map (materialize_target (sc_load c)) (sc_save c) \<and>
    (\<forall>t \<in> set (sc_save c'). sv_extends t \<noteq> ExtendsLoad)"
proof -
  obtain l where l: "sc_load c = Some l" using assms(2) by blast
  have never: "sv_extends (materialize_target (Some l) t) \<noteq> ExtendsLoad" for t
    by (simp add: materialize_target_def ExtendsLoad_def)
  then have idem: "materialize_target (Some x) (materialize_target (Some l) t) = materialize_target (Some l) t" for x t
    by (simp add: materialize_target_def [of "Some x"])
  have "\<exists>c' x. materializeExtends cfg = Some c' \<and> sc_save c' = map (materialize_target (sc_load c)) (sc_save c)"
  proof (cases "overrides_IsZero ov")
    case True
    with assms show ?thesis by (auto simp: ApplyOverrides_def materializeExtends_def)
  next
    case False
    with assms(3,4) have "ov_loadFile ov \<noteq> []" by (simp add: overrides_IsZero_def)
    with False assms(1,3,4) l show ?thesis
      by (auto simp: ApplyOverrides_def materializeExtends_def Let_def idem)
  qed
  with never l show ?thesis by auto
qed

definition sample_load :: load_config where
  "sample_load = \<lparr>lc_provider = ''file'', lc_inputs = [(''path'', Some (RefLiteral (VStr ''declared.json'')))]\<rparr>"

definition extends_target :: save_target where
  "extends_target = \<lparr>sv_extends = ''load'', sv_provider = [], sv_format = [], sv_parameters = None, sv_inputs = [],
     sv_enabled = None, sv_checkpoint = False\<rparr>"

definition read_override :: overrides where
  "read_override = \<lparr>ov_loadFile = ''input.json'', ov_outputFile = [], ov_noOutput = False\<rparr>"

theorem override_keeps_targets_witness:
  "map sv_inputs (case materializeExtends (projr (ApplyOverrides
        (Some \<lparr>sc_enabled = None, sc_load = Some sample_load, sc_save = [extends_target]\<rparr>) read_override))
      of Some c \<Rightarrow> sc_save c | None \<Rightarrow> []) = [[(''path'', Some (RefLiteral (VStr ''declared.json'')))]]"
proof -
  let ?c = "\<lparr>sc_enabled = None, sc_load = Some sample_load, sc_save = [extends_target]\<rparr>"
  let ?A = "ApplyOverrides (Some ?c) read_override"
  have e: "\<not> isl ?A" by code_simp
  from override_keeps_targets [OF Inr_projr [OF e]] obtain c' where
    "materializeExtends (projr ?A) = Some c'" "sc_save c' = map (materialize_target (Some sample_load)) [extends_target]"
    by (auto simp: read_override_def)
  moreover have "map sv_inputs (map (materialize_target (Some sample_load)) [extends_target]) =
      [[(''path'', Some (RefLiteral (VStr ''declared.json'')))]]" by code_simp
  ultimately show ?thesis by simp
qed

end
