(* ===== verification/State_Manager.thy ===== *)
theory State_Manager
  imports State_Data
begin

text \<open>
  The state lifecycle of \<open>pkg/state\<close>: the partition of the resolvers (\<open>partition.go\<close>), loading in one or
  two phases (\<open>manager.go\<close>, \<open>twophase.go\<close>), the guard against lost locks (\<open>immutable.go\<close>) and writing
  (\<open>manager.go\<close>).

  The calls of state providers are recorded in a history; what a provider answers is a function of the
  history and the call (\<open>me_exec\<close>, which stands for \<open>provider.Execute\<close> and the provider).  A Go context
  only carries the loaded document and the execution mode and is left out.
\<close>

section \<open>Which resolvers depend on state\<close>

record partition =
  pt_stateDependent :: "string list"
  pt_known :: "string list"

definition BuildPartition ::
  "deps_env \<Rightarrow> call_def option gomap \<Rightarrow> string \<Rightarrow> resolver list \<Rightarrow> partition" where
  "BuildPartition env calls p rs =
     \<lparr>pt_stateDependent = ProviderDependencyClosure (de_pick env) env calls p rs,
      pt_known = fold (\<lambda>r known. set_insert (r_name r) known) rs []\<rparr>"

definition IsStateDependent :: "partition option \<Rightarrow> string \<Rightarrow> bool" where
  "IsStateDependent p n = (case p of None \<Rightarrow> False | Some x \<Rightarrow> n \<in> set (pt_stateDependent x))"

definition IsKnown :: "partition option \<Rightarrow> string \<Rightarrow> bool" where
  "IsKnown p n = (case p of None \<Rightarrow> False | Some x \<Rightarrow> n \<in> set (pt_known x))"

definition ref_location :: "deps_env \<Rightarrow> string \<Rightarrow> value_ref option \<Rightarrow> (string \<times> string list) list" where
  "ref_location env loc v =
     (if v = None then []
      else (let refs = extractDepsFromValueRef env v [] in if refs \<noteq> [] then [(loc, refs)] else []))"

definition stateConfigRefLocations :: "deps_env \<Rightarrow> state_config option \<Rightarrow> (string \<times> string list) list" where
  "stateConfigRefLocations env cfg =
     (case cfg of
        None \<Rightarrow> []
      | Some c \<Rightarrow>
          ref_location env ''state.enabled'' (sc_enabled c) @
          (case sc_load c of
             None \<Rightarrow> []
           | Some l \<Rightarrow>
               concat (map (\<lambda>k. ref_location env (''state.load.inputs.'' @ k) (map_get None (lc_inputs l) k))
                         (sort (map_keys (lc_inputs l))))))"

fun validate_locations :: "partition option \<Rightarrow> (string \<times> string list) list \<Rightarrow> state_error option" where
  "validate_locations p [] = None"
| "validate_locations p ((loc, refs) # ls) =
     (let unknown = filter (\<lambda>x. \<not> IsKnown p x) refs;
          dependent = filter (\<lambda>x. IsKnown p x \<and> IsStateDependent p x) refs
      in if unknown \<noteq> [] then Some (UnknownStateRefError loc (sort unknown))
         else if dependent \<noteq> [] then Some (CycleError loc (sort dependent))
         else validate_locations p ls)"

definition ValidateStateRefs :: "deps_env \<Rightarrow> state_config option \<Rightarrow> partition option \<Rightarrow> state_error option" where
  "ValidateStateRefs env cfg p = validate_locations p (stateConfigRefLocations env cfg)"

definition PhaseARoots :: "deps_env \<Rightarrow> state_config option \<Rightarrow> partition option \<Rightarrow> string list" where
  "PhaseARoots env cfg p =
     fold (\<lambda>(_, refs) roots. fold (\<lambda>x rt. if IsKnown p x \<and> \<not> IsStateDependent p x then set_insert x rt else rt) refs roots)
       (stateConfigRefLocations env cfg) []"

section \<open>The manager\<close>

record provenance =
  pv_engineName :: string
  pv_engineVersion :: string
  pv_cliName :: string
  pv_cliVersion :: string

definition ResolvedCLIName :: "provenance \<Rightarrow> string" where
  "ResolvedCLIName p = (if pv_cliName p \<noteq> [] then pv_cliName p else pv_engineName p)"

definition ResolvedCLIVersion :: "provenance \<Rightarrow> string" where
  "ResolvedCLIVersion p = (if pv_cliVersion p \<noteq> [] then pv_cliVersion p else pv_engineVersion p)"

record manager =
  mg_config :: "state_config option"
  mg_runtime :: provenance
  mg_requireExisting :: bool
  mg_workingDir :: string

datatype manager_option = WithRequireExisting | WithWorkingDirectory string

fun apply_option :: "manager_option \<Rightarrow> manager \<Rightarrow> manager" where
  "apply_option WithRequireExisting m = m\<lparr>mg_requireExisting := True\<rparr>"
| "apply_option (WithWorkingDirectory dir) m = m\<lparr>mg_workingDir := dir\<rparr>"

definition NewManager :: "state_config option \<Rightarrow> provenance \<Rightarrow> manager_option list \<Rightarrow> manager" where
  "NewManager cfg rt opts =
     fold apply_option opts
       \<lparr>mg_config = materializeExtends cfg, mg_runtime = rt, mg_requireExisting = False, mg_workingDir = []\<rparr>"

record state_call =
  sp_provider :: string
  sp_dir :: string
  sp_inputs :: "gval gomap"

text \<open>What a load returns: the \<open>found\<close> and \<open>data\<close> entries of the output map, if it is one.\<close>

datatype payload = PayloadData state_data | PayloadMap "(string \<times> gval) list" | PayloadOther
datatype load_output = OutNil | OutNoMap | OutMap "gval option" "payload option"

record manager_env =
  me_vals :: val_env
  me_prefixVars :: "string \<Rightarrow> string list option"
  me_registry :: "string \<Rightarrow> string list option"
  me_exec :: "state_call list \<Rightarrow> state_call \<Rightarrow> string + load_output"
  me_json :: json_env
  me_marshal :: "(string \<times> gval) list \<Rightarrow> string + string"
  me_encode :: "state_document \<Rightarrow> string + gval"
  me_zero :: "nat \<Rightarrow> bool"

definition var_params :: string where "var_params = ''__params''"
definition CapabilityState :: string where "CapabilityState = ''state''"

text \<open>\<open>me_zero\<close> tells which opaque values are the float zero.\<close>

fun isTruthy :: "manager_env \<Rightarrow> gval \<Rightarrow> bool" where
  "isTruthy env VNil = False"
| "isTruthy env (VBool b) = b"
| "isTruthy env (VStr s) = (s \<noteq> [] \<and> s \<noteq> ''false'' \<and> s \<noteq> ''0'')"
| "isTruthy env (VInt i) = (i \<noteq> 0)"
| "isTruthy env (VOther n) = (\<not> me_zero env n)"
| "isTruthy env v = True"

fun resolveWithParams ::
  "manager_env \<Rightarrow> value_ref option \<Rightarrow> gval gomap \<Rightarrow> gval gomap \<Rightarrow> ref_error + gval" where
  "resolveWithParams env None data params = Inr VNil"
| "resolveWithParams env (Some (RefExpr e)) data params =
     lift_err ExprFailed (ve_cel (me_vals env) e data [(var_params, VMap params)])"
| "resolveWithParams env (Some (RefTmpl t)) data params =
     lift_err TmplFailed (ve_exec (me_vals env) t (map_put var_params (VMap params) (put_all data [])))"
| "resolveWithParams env (Some v) data params =
     (if v = RefLiteral VNil then Inl EmptyRef else ref_Resolve (me_vals env) data VNil (Some v))"

definition evaluateEnabled ::
  "manager_env \<Rightarrow> value_ref option \<Rightarrow> gval gomap \<Rightarrow> gval gomap \<Rightarrow> ref_error + bool" where
  "evaluateEnabled env e data params =
     (case e of
        None \<Rightarrow> Inr True
      | Some v \<Rightarrow> (case resolveWithParams env (Some v) data params of Inl x \<Rightarrow> Inl x | Inr b \<Rightarrow> Inr (isTruthy env b)))"

text \<open>The iteration order of the input map is the order of its list.\<close>

fun resolve_inputs ::
  "manager_env \<Rightarrow> gval gomap \<Rightarrow> gval gomap \<Rightarrow> value_ref option gomap \<Rightarrow> gval gomap \<Rightarrow> state_error + gval gomap" where
  "resolve_inputs env data params [] acc = Inr acc"
| "resolve_inputs env data params ((k, None) # ins) acc = resolve_inputs env data params ins acc"
| "resolve_inputs env data params ((k, Some v) # ins) acc =
     (case resolveWithParams env (Some v) data params of
        Inl e \<Rightarrow> Inl (InputFailed k e)
      | Inr x \<Rightarrow> resolve_inputs env data params ins (map_put k x acc))"

definition resolveInputs ::
  "manager_env \<Rightarrow> value_ref option gomap \<Rightarrow> gval gomap \<Rightarrow> gval gomap \<Rightarrow> state_error + gval gomap" where
  "resolveInputs env ins data params = resolve_inputs env data params ins []"

definition getStateProvider :: "manager_env \<Rightarrow> string \<Rightarrow> state_error option" where
  "getStateProvider env n =
     (if n = [] then Some ProviderNameEmpty
      else (case me_registry env n of
              None \<Rightarrow> Some (ProviderUnknown n)
            | Some caps \<Rightarrow> if CapabilityState \<in> set caps then None else Some (ProviderNoState n)))"

definition str_input :: "gval gomap \<Rightarrow> string \<Rightarrow> string" where
  "str_input ins k = (case map_of ins k of Some (VStr s) \<Rightarrow> s | _ \<Rightarrow> [])"

definition resolveLocation :: "gval gomap \<Rightarrow> string" where
  "resolveLocation ins =
     (if str_input ins ''path'' \<noteq> [] then str_input ins ''path'' else str_input ins ''url'')"

definition normalizeFormat :: "string \<Rightarrow> string" where
  "normalizeFormat f = (if f = [] then FormatFull else f)"

section \<open>Parameters the configuration needs\<close>

definition param_of_path :: "string \<Rightarrow> string option" where
  "param_of_path p =
     (let prefix = ''.__params.'' in
      if length p > length prefix \<and> strings_HasPrefix p prefix then Some (firstSegment (drop (length prefix) p)) else None)"

fun extractParamRefs :: "manager_env \<Rightarrow> value_ref option \<Rightarrow> string list \<Rightarrow> string list" where
  "extractParamRefs env (Some (RefExpr e)) seen =
     (case me_prefixVars env e of None \<Rightarrow> seen | Some vs \<Rightarrow> fold set_insert vs seen)"
| "extractParamRefs env (Some (RefTmpl t)) seen =
     (case ve_tmplrefs (me_vals env) t [] [] of
        None \<Rightarrow> seen
      | Some refs \<Rightarrow> fold (\<lambda>r s. case param_of_path (tr_path r) of Some k \<Rightarrow> set_insert k s | None \<Rightarrow> s) refs seen)"
| "extractParamRefs env v seen = seen"

definition RequiredParams :: "manager_env \<Rightarrow> state_config option \<Rightarrow> string list" where
  "RequiredParams env cfg =
     (case cfg of
        None \<Rightarrow> []
      | Some c \<Rightarrow>
          (let seen = extractParamRefs env (sc_enabled c) [];
               seen = (case sc_load c of
                         None \<Rightarrow> seen
                       | Some l \<Rightarrow> fold (\<lambda>(_, v) s. extractParamRefs env v s) (lc_inputs l) seen)
           in sort seen))"

definition MissingParams :: "manager_env \<Rightarrow> state_config option \<Rightarrow> gval gomap \<Rightarrow> string list" where
  "MissingParams env cfg params = filter (\<lambda>k. \<not> map_has params k) (RequiredParams env cfg)"

definition with_missing :: "manager_env \<Rightarrow> state_config \<Rightarrow> gval gomap \<Rightarrow> state_error \<Rightarrow> state_error" where
  "with_missing env c params e =
     (let missing = MissingParams env (Some c) params in if missing \<noteq> [] then MissingParamsError missing e else e)"
section \<open>Loading\<close>

definition extractStateData :: "manager_env \<Rightarrow> load_output \<Rightarrow> state_error + state_data \<times> bool" where
  "extractStateData env out =
     (case out of
        OutNil \<Rightarrow> Inl (BadOutput ''nil execution result'')
      | OutNoMap \<Rightarrow> Inl (BadOutput ''expected map output'')
      | OutMap found sd \<Rightarrow>
          if (case found of Some f \<Rightarrow> \<not> isTruthy env f | None \<Rightarrow> False) then Inr (NewData, False)
          else (case sd of
                  None \<Rightarrow> Inl (BadOutput ''missing data field'')
                | Some (PayloadData d) \<Rightarrow>
                    if isEmptyData d then Inr (NewData, True)
                    else (case validateSchemaVersion (sd_schemaVersion d) True of
                            Some e \<Rightarrow> Inl e
                          | None \<Rightarrow> Inr (d, True))
                | Some (PayloadMap m) \<Rightarrow>
                    (case me_marshal env m of
                       Inl e \<Rightarrow> Inl (DecodeFailed e)
                     | Inr raw \<Rightarrow> (case DecodeData (me_json env) raw of Inl e \<Rightarrow> Inl e | Inr d \<Rightarrow> Inr (d, True)))
                | Some PayloadOther \<Rightarrow> Inl (BadOutput ''unexpected data'')))"

record load_result =
  lr_data :: "state_data option"
  lr_mergedParams :: "gval gomap"
  lr_skipped :: bool
  lr_loaded :: bool
  lr_firstRun :: bool
  lr_loadedParams :: nat
  lr_loadedResolvers :: nat
  lr_provider :: string
  lr_location :: string

definition skipped_load :: load_result where
  "skipped_load = \<lparr>lr_data = None, lr_mergedParams = [], lr_skipped = True, lr_loaded = False, lr_firstRun = False,
     lr_loadedParams = 0, lr_loadedResolvers = 0, lr_provider = [], lr_location = []\<rparr>"

definition empty_load :: "command_info \<Rightarrow> gval gomap \<Rightarrow> load_result" where
  "empty_load cmd params =
     (let d = NewData\<lparr>sd_command := cmd\<rparr> in
      \<lparr>lr_data = Some d, lr_mergedParams = MergeParameters (sd_parameters d) params, lr_skipped = False,
       lr_loaded = False, lr_firstRun = True, lr_loadedParams = 0, lr_loadedResolvers = 0, lr_provider = [],
       lr_location = []\<rparr>)"

definition loaded_result :: "string \<Rightarrow> string \<Rightarrow> command_info \<Rightarrow> gval gomap \<Rightarrow> state_data \<Rightarrow> load_result" where
  "loaded_result p loc cmd params d =
     \<lparr>lr_data = Some (d\<lparr>sd_command := cmd\<rparr>), lr_mergedParams = MergeParameters (sd_parameters d) params,
      lr_skipped = False, lr_loaded = True,
      lr_firstRun = (md_createdAt (sd_metadata d) = None \<and> sd_parameters d = [] \<and> sd_resolvers d = []),
      lr_loadedParams = length (sd_parameters d), lr_loadedResolvers = length (sd_resolvers d), lr_provider = p,
      lr_location = loc\<rparr>"

text \<open>Reading the document: the history after the call and the result.\<close>

definition load_document ::
  "manager_env \<Rightarrow> manager \<Rightarrow> load_config \<Rightarrow> state_call list \<Rightarrow> gval gomap \<Rightarrow> gval gomap \<Rightarrow> command_info \<Rightarrow>
   state_call list \<times> (state_error + load_result)" where
  "load_document env m l hist inputs params cmd =
     (case getStateProvider env (lc_provider l) of
        Some e \<Rightarrow> (hist, Inl e)
      | None \<Rightarrow>
          (let loc = resolveLocation inputs;
               call = \<lparr>sp_provider = lc_provider l, sp_dir = mg_workingDir m,
                       sp_inputs = map_put ''operation'' (VStr ''state_load'') inputs\<rparr>
           in (hist @ [call],
               case me_exec env hist call of
                 Inl e \<Rightarrow> Inl (ProviderFailed e)
               | Inr out \<Rightarrow>
                   (case extractStateData env out of
                      Inl e \<Rightarrow> Inl e
                    | Inr (d, found) \<Rightarrow>
                        if \<not> found \<and> mg_requireExisting m then Inl (NotFoundError loc (lc_provider l))
                        else Inr (loaded_result (lc_provider l) loc cmd params d)))))"

definition load ::
  "manager_env \<Rightarrow> manager \<Rightarrow> state_call list \<Rightarrow> gval gomap \<Rightarrow> gval gomap \<Rightarrow> command_info \<Rightarrow>
   state_call list \<times> (state_error + load_result)" where
  "load env m hist data params cmd =
     (case mg_config m of
        None \<Rightarrow> (hist, Inr skipped_load)
      | Some c \<Rightarrow>
          (case evaluateEnabled env (sc_enabled c) data params of
             Inl e \<Rightarrow> (hist, Inl (with_missing env c params (EnabledFailed e)))
           | Inr False \<Rightarrow> (hist, Inr skipped_load)
           | Inr True \<Rightarrow>
               (case sc_load c of
                  None \<Rightarrow> (hist, Inr (empty_load cmd params))
                | Some l \<Rightarrow>
                    (case resolveInputs env (lc_inputs l) data params of
                       Inl e \<Rightarrow> (hist, Inl (with_missing env c params e))
                     | Inr inputs \<Rightarrow> load_document env m l hist inputs params cmd))))"

definition Load ::
  "manager_env \<Rightarrow> manager \<Rightarrow> state_call list \<Rightarrow> gval gomap \<Rightarrow> command_info \<Rightarrow>
   state_call list \<times> (state_error + load_result)" where
  "Load env m hist params cmd = load env m hist [] params cmd"

subsection \<open>Two phases\<close>

text \<open>
  The runner executes resolvers (with the CLI parameters) and returns their context, which may be nil;
  \<open>tp_view\<close> is the value \<open>ToMap\<close> shows for the list of failed attempts.
\<close>

record two_phase_input =
  ti_resolvers :: "state_resolver list"
  ti_deps :: deps_env
  ti_calls :: "call_def option gomap"
  ti_provider :: string
  ti_run :: "(state_resolver list \<Rightarrow> string + rctx option) option"
  ti_view :: "provider_attempt list \<Rightarrow> gval"

definition plain :: "state_resolver list \<Rightarrow> resolver list" where
  "plain rs = map resolver.truncate rs"

definition filterResolvers :: "state_resolver list \<Rightarrow> string list \<Rightarrow> state_resolver list" where
  "filterResolvers rs inc = filter (\<lambda>r. r_name r \<in> set inc) rs"

definition collectSeed :: "rctx \<Rightarrow> string list \<Rightarrow> rresult gomap" where
  "collectSeed ctx ns =
     fold (\<lambda>n m. case rctx_GetResult ctx n of Some r \<Rightarrow> map_put n r m | None \<Rightarrow> m) ns []"

definition state_partition :: "two_phase_input \<Rightarrow> partition" where
  "state_partition ti =
     BuildPartition (ti_deps ti) (ti_calls ti) (if ti_provider ti = [] then ReadProviderName else ti_provider ti)
       (plain (ti_resolvers ti))"

definition phase_a_set :: "two_phase_input \<Rightarrow> string list \<Rightarrow> string list" where
  "phase_a_set ti roots = TransitiveDependencies (de_pick (ti_deps ti)) (ti_deps ti) (plain (ti_resolvers ti)) roots"

definition phase_a_subset :: "two_phase_input \<Rightarrow> string list \<Rightarrow> state_resolver list" where
  "phase_a_subset ti roots = filterResolvers (ti_resolvers ti) (phase_a_set ti roots)"

definition with_seed ::
  "rresult gomap \<Rightarrow> state_call list \<times> (state_error + load_result) \<Rightarrow>
   state_call list \<times> (state_error + load_result \<times> rresult gomap)" where
  "with_seed seed x = (case x of (h, Inl e) \<Rightarrow> (h, Inl e) | (h, Inr r) \<Rightarrow> (h, Inr (r, seed)))"

definition LoadTwoPhase ::
  "manager_env \<Rightarrow> manager \<Rightarrow> state_call list \<Rightarrow> gval gomap \<Rightarrow> command_info \<Rightarrow> two_phase_input \<Rightarrow>
   state_call list \<times> (state_error + load_result \<times> rresult gomap)" where
  "LoadTwoPhase env m hist params cmd ti =
     (if mg_config m = None then with_seed [] (load env m hist [] params cmd)
      else
        (let part = Some (state_partition ti) in
         case ValidateStateRefs (ti_deps ti) (mg_config m) part of
           Some e \<Rightarrow> (hist, Inl e)
         | None \<Rightarrow>
             (let roots = PhaseARoots (ti_deps ti) (mg_config m) part in
              if roots = [] then with_seed [] (load env m hist [] params cmd)
              else (case ti_run ti of
                      None \<Rightarrow> (hist, Inl NoRunner)
                    | Some run \<Rightarrow>
                        (case run (phase_a_subset ti roots) of
                           Inl e \<Rightarrow> (hist, Inl (PreloadFailed e))
                         | Inr None \<Rightarrow> (hist, Inl NoResolverContext)
                         | Inr (Some ctx) \<Rightarrow>
                             with_seed (collectSeed ctx (phase_a_set ti roots))
                               (load env m hist (rctx_ToMap (ti_view ti) ctx) params cmd))))))"

subsection \<open>Locks that are missing\<close>

definition missing_locks :: "state_data \<Rightarrow> state_resolver list \<Rightarrow> string list" where
  "missing_locks d rs =
     map r_name (filter (\<lambda>r. r_immutable r \<and>
       \<not> (case map_of (sd_resolvers d) (r_name r) of Some (Some e) \<Rightarrow> pe_immutable e | _ \<Rightarrow> False)) rs)"

definition CheckMissingLocks :: "load_result option \<Rightarrow> state_resolver list \<Rightarrow> state_error option" where
  "CheckMissingLocks lr rs =
     (case lr of
        None \<Rightarrow> None
      | Some r \<Rightarrow>
          if lr_skipped r \<or> \<not> lr_loaded r then None
          else (case lr_data r of
                  None \<Rightarrow> None
                | Some d \<Rightarrow>
                    if md_createdAt (sd_metadata d) \<noteq> None \<or> lr_loadedParams r = 0 then None
                    else if missing_locks d rs = [] then None
                    else Some (MissingLocks (lr_location r) (lr_provider r) (sort (missing_locks d rs)))))"

section \<open>Writing\<close>

record target_write =
  tw_provider :: string
  tw_location :: string
  tw_format :: string
  tw_skipped :: bool

definition runtimeMetadata :: "provenance \<Rightarrow> component_id \<times> component_id" where
  "runtimeMetadata p =
     (\<lparr>ci_name = pv_engineName p, ci_version = pv_engineVersion p\<rparr>,
      \<lparr>ci_name = ResolvedCLIName p, ci_version = ResolvedCLIVersion p\<rparr>)"

definition evaluateTargetEnabled ::
  "manager_env \<Rightarrow> save_target \<Rightarrow> gval gomap \<Rightarrow> gval gomap \<Rightarrow> ref_error + bool" where
  "evaluateTargetEnabled env t data params =
     (case sv_enabled t of
        None \<Rightarrow> Inr True
      | Some v \<Rightarrow> (case resolveWithParams env (Some v) data params of Inl x \<Rightarrow> Inl x | Inr b \<Rightarrow> Inr (isTruthy env b)))"

definition writeTarget ::
  "manager_env \<Rightarrow> manager \<Rightarrow> state_call list \<Rightarrow> save_target \<Rightarrow> state_data \<Rightarrow> gval gomap \<Rightarrow> gval gomap \<Rightarrow>
   state_call list \<times> (state_error + target_write)" where
  "writeTarget env m hist t d data params =
     (if sv_extends t \<noteq> [] then
        (hist, Inl (if sv_extends t = ExtendsLoad then ExtendsWithoutLoad else BadExtends (sv_extends t)))
      else
        (case resolveInputs env (sv_inputs t) data params of
           Inl e \<Rightarrow> (hist, Inl e)
         | Inr inputs \<Rightarrow>
             (case getStateProvider env (sv_provider t) of
                Some e \<Rightarrow> (hist, Inl e)
              | None \<Rightarrow>
                  (case projectState d t of
                     Inl e \<Rightarrow> (hist, Inl e)
                   | Inr doc \<Rightarrow>
                       (case me_encode env doc of
                          Inl e \<Rightarrow> (hist, Inl (DecodeFailed e))
                        | Inr v \<Rightarrow>
                            (let call = \<lparr>sp_provider = sv_provider t, sp_dir = mg_workingDir m,
                                   sp_inputs = map_put ''data'' v (map_put ''operation'' (VStr ''state_save'') inputs)\<rparr>
                             in (hist @ [call],
                                 case me_exec env hist call of
                                   Inl e \<Rightarrow> Inl (ProviderFailed e)
                                 | Inr _ \<Rightarrow> Inr \<lparr>tw_provider = sv_provider t, tw_location = resolveLocation inputs,
                                              tw_format = normalizeFormat (sv_format t), tw_skipped = False\<rparr>)))))))"

text \<open>The loop over the targets: \<open>i\<close> is the index of the first one, \<open>ws\<close> the writes reported so far.\<close>

fun write_targets ::
  "manager_env \<Rightarrow> manager \<Rightarrow> state_data \<Rightarrow> gval gomap \<Rightarrow> gval gomap \<Rightarrow> bool \<Rightarrow> nat \<Rightarrow> save_target list \<Rightarrow>
   state_call list \<Rightarrow> target_write list \<Rightarrow> state_call list \<times> target_write list \<times> state_error option" where
  "write_targets env m d data params cp i [] hist ws = (hist, ws, None)"
| "write_targets env m d data params cp i (t # ts) hist ws =
     (if cp \<and> \<not> sv_checkpoint t then write_targets env m d data params cp (Suc i) ts hist ws
      else
        (case evaluateTargetEnabled env t data params of
           Inl e \<Rightarrow> (hist, ws, Some (SaveEnabledFailed i (EnabledFailed e)))
         | Inr False \<Rightarrow>
             write_targets env m d data params cp (Suc i) ts hist
               (ws @ [\<lparr>tw_provider = sv_provider t, tw_location = [], tw_format = normalizeFormat (sv_format t), tw_skipped = True\<rparr>])
         | Inr True \<Rightarrow>
             (case writeTarget env m hist t d data params of
                (hist', Inl e) \<Rightarrow> (hist', ws, Some (SaveFailed i e))
              | (hist', Inr w) \<Rightarrow> write_targets env m d data params cp (Suc i) ts hist' (ws @ [w]))))"

definition stamp :: "manager \<Rightarrow> nat \<Rightarrow> string \<times> string \<Rightarrow> state_data \<Rightarrow> state_data" where
  "stamp m now meta d =
     (let md = sd_metadata d; (engine, cli) = runtimeMetadata (mg_runtime m) in
      d\<lparr>sd_schemaVersion := SchemaVersionCurrent,
        sd_metadata := md\<lparr>md_createdAt := (if md_createdAt md = None then Some now else md_createdAt md),
          md_lastUpdatedAt := Some now, md_solution := fst meta, md_version := snd meta, md_engine := engine,
          md_cli := cli\<rparr>\<rparr>)"

text \<open>The stamped document, the history, the writes and the error.\<close>

definition state_write ::
  "manager_env \<Rightarrow> manager \<Rightarrow> nat \<Rightarrow> state_call list \<Rightarrow> state_data \<Rightarrow> gval gomap \<Rightarrow> gval gomap \<Rightarrow> string \<times> string \<Rightarrow>
   bool \<Rightarrow> state_data \<times> state_call list \<times> target_write list \<times> state_error option" where
  "state_write env m now hist d data params meta cp =
     (let d' = stamp m now meta d;
          targets = (case mg_config m of Some c \<Rightarrow> sc_save c | None \<Rightarrow> [])
      in (d', write_targets env m d' data params cp 0 targets hist []))"

definition hasCheckpointTargets :: "manager \<Rightarrow> bool" where
  "hasCheckpointTargets m = (case mg_config m of Some c \<Rightarrow> list_ex sv_checkpoint (sc_save c) | None \<Rightarrow> False)"

text \<open>The arguments of a run's writes besides the document.\<close>

record save_args =
  sa_ctx :: rctx
  sa_resolvers :: "state_resolver list"
  sa_params :: "gval gomap"
  sa_data :: "gval gomap"
  sa_meta :: "string \<times> string"
  sa_skip :: "string list"
  sa_now :: nat

definition Checkpoint ::
  "manager_env \<Rightarrow> value_env \<Rightarrow> manager \<Rightarrow> save_args \<Rightarrow> state_call list \<Rightarrow> state_data option \<Rightarrow>
   state_data option \<times> state_call list \<times> state_error option" where
  "Checkpoint env ve m a hist sd =
     (if mg_config m = None \<or> sd = None \<or> \<not> hasCheckpointTargets m then (sd, hist, None)
      else (case PersistResolvers ve (sa_now a) (sa_ctx a) (sa_resolvers a) (sa_skip a) sd of
              (sd', Some e) \<Rightarrow> (sd', hist, Some e)
            | (None, None) \<Rightarrow> (None, hist, None)
            | (Some d, None) \<Rightarrow>
                (case state_write env m (sa_now a) hist d (sa_data a) (sa_params a) (sa_meta a) True of
                   (d', hist', ws, e) \<Rightarrow> (Some d', hist', e))))"

definition Save ::
  "manager_env \<Rightarrow> value_env \<Rightarrow> manager \<Rightarrow> save_args \<Rightarrow> state_call list \<Rightarrow> state_data option \<Rightarrow>
   state_data option \<times> state_call list \<times> target_write list option \<times> state_error option" where
  "Save env ve m a hist sd =
     (case sd of
        None \<Rightarrow> (None, hist, None, None)
      | Some d \<Rightarrow>
          if (case mg_config m of None \<Rightarrow> True | Some c \<Rightarrow> sc_save c = []) then (sd, hist, None, None)
          else (case PersistResolvers ve (sa_now a) (sa_ctx a) (sa_resolvers a) (sa_skip a) (Some (d\<lparr>sd_parameters := sa_params a\<rparr>)) of
                  (sd', Some e) \<Rightarrow> (sd', hist, None, Some e)
                | (None, None) \<Rightarrow> (None, hist, None, None)
                | (Some d', None) \<Rightarrow>
                    (case state_write env m (sa_now a) hist d' (sa_data a) (sa_params a) (sa_meta a) False of
                       (d'', hist', ws, e) \<Rightarrow> (Some d'', hist', Some ws, e))))"

definition manager_VerifyImmutables ::
  "value_env \<Rightarrow> manager \<Rightarrow> state_data option \<Rightarrow> rctx \<Rightarrow> state_resolver list \<Rightarrow> state_error option" where
  "manager_VerifyImmutables ve m sd ctx rs =
     (if mg_config m = None \<or> sd = None then None else VerifyImmutables ve ctx sd rs)"
section \<open>The two-phase load\<close>

lemma names_plain: "names (plain rs) = map r_name rs"
  by (simp add: names_def plain_def resolver.truncate_def)

lemma BuildPartition_known: "set (pt_known (BuildPartition env calls p rs)) = set (names rs)"
proof -
  have "set (fold (\<lambda>r known. set_insert (r_name r) known) rs acc) = set acc \<union> set (names rs)" for acc :: "string list"
    by (induction rs arbitrary: acc) (auto simp: names_def)
  then show ?thesis by (simp add: BuildPartition_def)
qed

text \<open>The names from which a resolver that uses provider \<open>p\<close> can be reached.\<close>

definition reads_provider :: "deps_env \<Rightarrow> call_def option gomap \<Rightarrow> string \<Rightarrow> resolver list \<Rightarrow> string set" where
  "reads_provider env calls p rs =
     {n. \<exists>r \<in> set rs. resolverUsesProvider calls p r \<and> (n, r_name r) \<in> (resolver_edges env rs)\<^sup>*}"

lemma BuildPartition_dependent:
  "p \<noteq> [] \<Longrightarrow> set (pt_stateDependent (BuildPartition env calls p rs)) = reads_provider env calls p rs"
  by (auto simp: BuildPartition_def ProviderDependencyClosure_def dependents_closure using_provider_set
      reads_provider_def)

definition load_refs :: "deps_env \<Rightarrow> state_config option \<Rightarrow> string set" where
  "load_refs env cfg = (\<Union>(loc, refs) \<in> set (stateConfigRefLocations env cfg). set refs)"

lemma validate_locations_iff:
  "validate_locations p ls = None \<longleftrightarrow> (\<forall>(loc, refs) \<in> set ls. \<forall>x \<in> set refs. IsKnown p x \<and> \<not> IsStateDependent p x)"
proof (induction ls)
  case (Cons l ls)
  obtain loc refs where l: "l = (loc, refs)" by fastforce
  show ?case unfolding l using Cons by (auto simp: Let_def filter_empty_conv)
qed simp

lemma validate_refs_iff:
  "ValidateStateRefs env cfg p = None \<longleftrightarrow> (\<forall>x \<in> load_refs env cfg. IsKnown p x \<and> \<not> IsStateDependent p x)"
  by (auto simp: ValidateStateRefs_def validate_locations_iff load_refs_def)

lemma roots_inner:
  "set (fold (\<lambda>x rt. if P x then set_insert x rt else rt) refs acc) = set acc \<union> {x \<in> set refs. P x}"
  by (induction refs arbitrary: acc) auto

lemma PhaseARoots_set:
  "set (PhaseARoots env cfg p) = {x \<in> load_refs env cfg. IsKnown p x \<and> \<not> IsStateDependent p x}"
proof -
  have "set (fold (\<lambda>(_, refs) roots. fold (\<lambda>x rt. if IsKnown p x \<and> \<not> IsStateDependent p x then set_insert x rt else rt)
            refs roots) ls acc) =
      set acc \<union> (\<Union>(loc, refs) \<in> set ls. {x \<in> set refs. IsKnown p x \<and> \<not> IsStateDependent p x})"
    for acc and ls :: "(string \<times> string list) list"
    by (induction ls arbitrary: acc) (auto simp: roots_inner)
  then show ?thesis by (auto simp: PhaseARoots_def load_refs_def)
qed

definition read_provider_of :: "two_phase_input \<Rightarrow> string" where
  "read_provider_of ti = (if ti_provider ti = [] then ReadProviderName else ti_provider ti)"

lemma read_provider_nonempty [simp]: "read_provider_of ti \<noteq> []"
  by (simp add: read_provider_of_def ReadProviderName_def)

lemma state_partition_known: "IsKnown (Some (state_partition ti)) x \<longleftrightarrow> x \<in> r_name ` set (ti_resolvers ti)"
  by (simp add: IsKnown_def state_partition_def BuildPartition_known names_plain)

lemma state_partition_dependent:
  "IsStateDependent (Some (state_partition ti)) x \<longleftrightarrow>
   x \<in> reads_provider (ti_deps ti) (ti_calls ti) (read_provider_of ti) (plain (ti_resolvers ti))"
  using BuildPartition_dependent [OF read_provider_nonempty]
  by (simp add: IsStateDependent_def state_partition_def read_provider_of_def)

lemma phase_a_names:
  assumes "distinct (map r_name (ti_resolvers ti))"
  shows "r_name ` set (phase_a_subset ti roots) =
    (resolver_edges (ti_deps ti) (plain (ti_resolvers ti)))\<^sup>* `` set roots \<inter> r_name ` set (ti_resolvers ti)"
  using dependencies_closure [of "plain (ti_resolvers ti)"] assms
  by (auto simp: phase_a_subset_def filterResolvers_def phase_a_set_def names_plain)

lemma reads_provider_back:
  "(x, y) \<in> (resolver_edges env rs)\<^sup>* \<Longrightarrow> y \<in> reads_provider env calls p rs \<Longrightarrow> x \<in> reads_provider env calls p rs"
  by (auto simp: reads_provider_def intro: rtrancl_trans)

lemma phase_a_independent:
  assumes "distinct (map r_name (ti_resolvers ti))"
    and "n \<in> r_name ` set (phase_a_subset ti (PhaseARoots (ti_deps ti) cfg (Some (state_partition ti))))"
  shows "n \<notin> reads_provider (ti_deps ti) (ti_calls ti) (read_provider_of ti) (plain (ti_resolvers ti))"
proof
  assume dep: "n \<in> reads_provider (ti_deps ti) (ti_calls ti) (read_provider_of ti) (plain (ti_resolvers ti))"
  from assms(2) obtain x where x: "x \<in> set (PhaseARoots (ti_deps ti) cfg (Some (state_partition ti)))"
    and e: "(x, n) \<in> (resolver_edges (ti_deps ti) (plain (ti_resolvers ti)))\<^sup>*"
    unfolding phase_a_names [OF assms(1)] by blast
  from reads_provider_back [OF e dep] have "IsStateDependent (Some (state_partition ti)) x"
    by (simp add: state_partition_dependent)
  with x show False by (simp add: PhaseARoots_set)
qed

text \<open>A rejected configuration is reported before any provider is called.\<close>

lemma two_phase_rejects:
  assumes "mg_config m \<noteq> None" "ValidateStateRefs (ti_deps ti) (mg_config m) (Some (state_partition ti)) = Some e"
  shows "LoadTwoPhase env m hist params cmd ti = (hist, Inl e)"
  using assms by (cases "mg_config m") (simp_all add: LoadTwoPhase_def Let_def)

section \<open>Locks across the writes of a run\<close>

lemma PersistResolvers_lock:
  "PersistResolvers ve now ctx rs skip (Some d) = (Some d', err) \<Longrightarrow> lock_of (sd_resolvers d) n = Some e \<Longrightarrow>
   lock_of (sd_resolvers d') n = Some e"
  using persist_all_lock [of "sd_resolvers d" n e ve now ctx skip rs]
  by (auto simp: PersistResolvers_def split: prod.splits)

lemma PersistResolvers_data:
  "PersistResolvers ve now ctx rs skip (Some d) = (Some d', err) \<Longrightarrow> sd_parameters d' = sd_parameters d"
  by (auto simp: PersistResolvers_def split: prod.splits)

lemma stamp_resolvers [simp]: "sd_resolvers (stamp m now meta d) = sd_resolvers d"
  by (simp add: stamp_def Let_def split: prod.split)

lemma stamp_parameters [simp]: "sd_parameters (stamp m now meta d) = sd_parameters d"
  by (simp add: stamp_def Let_def split: prod.split)

text \<open>A call that writes the document \<open>d\<close>, in the shape some target asks for.\<close>

definition writes_document :: "manager_env \<Rightarrow> state_data \<Rightarrow> state_call \<Rightarrow> bool" where
  "writes_document env d call =
     (map_of (sp_inputs call) ''operation'' = Some (VStr ''state_save'') \<and>
      (\<exists>t doc v. sv_provider t = sp_provider call \<and> projectState d t = Inr doc \<and> me_encode env doc = Inr v \<and>
         map_of (sp_inputs call) ''data'' = Some v))"

lemma writeTarget_calls:
  assumes "writeTarget env m hist t d data params = (hist', r)"
  obtains calls where "hist' = hist @ calls" "\<forall>c \<in> set calls. writes_document env d c" "length calls \<le> 1"
    "\<forall>w. r = Inr w \<longrightarrow> length calls = 1 \<and> tw_provider w = sv_provider t \<and> \<not> tw_skipped w"
    "\<forall>c \<in> set calls. sp_provider c = sv_provider t"
proof -
  consider (no) "hist' = hist" "isl r" | (call) inputs doc v call where
      "projectState d t = Inr doc" "me_encode env doc = Inr v" "hist' = hist @ [call]"
      "call = \<lparr>sp_provider = sv_provider t, sp_dir = mg_workingDir m,
          sp_inputs = map_put ''data'' v (map_put ''operation'' (VStr ''state_save'') inputs)\<rparr>"
      "\<forall>w. r = Inr w \<longrightarrow> tw_provider w = sv_provider t \<and> \<not> tw_skipped w"
    using assms unfolding writeTarget_def
    by (auto simp: Let_def split: if_splits sum.splits option.splits)
  then show ?thesis
  proof cases
    case no
    then show ?thesis by (intro that [of "[]"]) auto
  next
    case call
    then have "writes_document env d call" unfolding writes_document_def by auto
    then show ?thesis using call by (intro that [of "[call]"]) auto
  qed
qed
lemma PersistResolvers_some:
  fixes ve :: value_env and d :: state_data
  obtains d' x where "PersistResolvers ve now ctx rs skip (Some d) = (Some d', x)"
  by (cases "persist_all ve now ctx skip rs (sd_resolvers d)") (simp add: PersistResolvers_def)

text \<open>The targets a write is about, in declaration order.\<close>

definition selected :: "bool \<Rightarrow> save_target list \<Rightarrow> save_target list" where
  "selected cp ts = filter (\<lambda>t. \<not> (cp \<and> \<not> sv_checkpoint t)) ts"

text \<open>
  What a loop over the targets leaves: the reported writes belong to the first selected targets, one call
  was made for each of them that is not skipped, and at most one more when the loop failed.
\<close>

definition write_report ::
  "bool \<Rightarrow> save_target list \<Rightarrow> state_call list \<Rightarrow> target_write list \<Rightarrow> state_error option \<Rightarrow> bool" where
  "write_report cp ts calls ws e =
     (map tw_provider ws = map sv_provider (take (length ws) (selected cp ts)) \<and>
      length ws \<le> length (selected cp ts) \<and>
      (e = None \<longrightarrow> length ws = length (selected cp ts)) \<and>
      (\<exists>rest. map sp_provider calls = map tw_provider (filter (\<lambda>w. \<not> tw_skipped w) ws) @ rest \<and> length rest \<le> 1 \<and>
         (e = None \<longrightarrow> rest = [])))"

lemma write_targets_facts:
  "write_targets env m d data params cp i ts hist ws = (hist', ws', e) \<Longrightarrow>
   \<exists>calls new. hist' = hist @ calls \<and> ws' = ws @ new \<and> (\<forall>c \<in> set calls. writes_document env d c) \<and>
     write_report cp ts calls new e"
proof (induction ts arbitrary: i hist ws)
  case Nil
  then show ?case by (simp add: write_report_def selected_def)
next
  case (Cons t ts)
  show ?case
  proof (cases "cp \<and> \<not> sv_checkpoint t")
    case True
    with Cons.prems have "write_targets env m d data params cp (Suc i) ts hist ws = (hist', ws', e)" by simp
    moreover have "selected cp (t # ts) = selected cp ts" using True by (simp add: selected_def)
    ultimately show ?thesis using Cons.IH by (simp add: write_report_def)
  next
    case sel: False
    then have s: "selected cp (t # ts) = t # selected cp ts" by (auto simp: selected_def)
    consider (err) x where "evaluateTargetEnabled env t data params = Inl x"
      | (off) "evaluateTargetEnabled env t data params = Inr False"
      | (on) "evaluateTargetEnabled env t data params = Inr True"
      by (metis (full_types) sum.exhaust)
    then show ?thesis
    proof cases
      case err
      with Cons.prems sel show ?thesis by (auto simp: write_report_def)
    next
      case off
      let ?w = "\<lparr>tw_provider = sv_provider t, tw_location = [], tw_format = normalizeFormat (sv_format t), tw_skipped = True\<rparr>"
      from Cons.prems sel off
      have "write_targets env m d data params cp (Suc i) ts hist (ws @ [?w]) = (hist', ws', e)" by auto
      from Cons.IH [OF this] obtain calls new where c: "hist' = hist @ calls" "ws' = ws @ ?w # new"
        "\<forall>c \<in> set calls. writes_document env d c" "write_report cp ts calls new e" by auto
      then have "write_report cp (t # ts) calls (?w # new) e" by (simp add: write_report_def s)
      with c show ?thesis by blast
    next
      case on
      obtain h1 r where w: "writeTarget env m hist t d data params = (h1, r)" by fastforce
      obtain calls where c: "h1 = hist @ calls" "\<forall>c \<in> set calls. writes_document env d c" "length calls \<le> 1"
        "\<forall>w. r = Inr w \<longrightarrow> length calls = 1 \<and> tw_provider w = sv_provider t \<and> \<not> tw_skipped w"
        "\<forall>c \<in> set calls. sp_provider c = sv_provider t"
        by (rule writeTarget_calls [OF w])
      show ?thesis
      proof (cases r)
        case (Inl x)
        with Cons.prems sel on w have "hist' = h1" "ws' = ws" "e = Some (SaveFailed i x)" by auto
        then show ?thesis using c(1,2,3) by (auto simp: write_report_def)
      next
        case (Inr x)
        then have x: "length calls = 1" "tw_provider x = sv_provider t" "\<not> tw_skipped x" using c(4) by auto
        then obtain c0 where c0: "calls = [c0]" by (cases calls) auto
        from Cons.prems sel on w Inr
        have "write_targets env m d data params cp (Suc i) ts h1 (ws @ [x]) = (hist', ws', e)" by auto
        from Cons.IH [OF this] obtain more new where n: "hist' = h1 @ more" "ws' = ws @ x # new"
          "\<forall>c \<in> set more. writes_document env d c" "write_report cp ts more new e" by auto
        have "write_report cp (t # ts) (calls @ more) (x # new) e"
          using n(4) c0 c(5) x by (auto simp: write_report_def s)
        moreover have "hist' = hist @ calls @ more" using n(1) c(1) by simp
        ultimately show ?thesis using n(2,3) c(2) by (metis UnE set_append)
      qed
    qed
  qed
qed

lemma state_write_facts:
  assumes "state_write env m now hist d data params meta cp = (d', hist', ws, e)"
  shows "d' = stamp m now meta d \<and>
     (\<exists>calls. hist' = hist @ calls \<and> (\<forall>c \<in> set calls. writes_document env d' c) \<and>
        write_report cp (case mg_config m of Some c \<Rightarrow> sc_save c | None \<Rightarrow> []) calls ws e)"
  using assms write_targets_facts unfolding state_write_def Let_def by fastforce

text \<open>One write of a run, whatever its result.\<close>

inductive run_write ::
  "manager_env \<Rightarrow> value_env \<Rightarrow> manager \<Rightarrow> state_data \<times> state_call list \<Rightarrow> state_data \<times> state_call list \<Rightarrow> bool"
  for env :: manager_env and ve :: value_env and m :: manager where
  checkpoint: "Checkpoint env ve m a h (Some d) = (Some d', h', e) \<Longrightarrow> run_write env ve m (d, h) (d', h')"
| save: "Save env ve m a h (Some d) = (Some d', h', r, e) \<Longrightarrow> run_write env ve m (d, h) (d', h')"

lemma Checkpoint_facts:
  assumes "Checkpoint env ve m a h (Some d) = (Some d', h', e)"
  shows "sd_parameters d' = sd_parameters d \<and> (\<forall>n x. lock_of (sd_resolvers d) n = Some x \<longrightarrow> lock_of (sd_resolvers d') n = Some x) \<and>
    (\<exists>calls. h' = h @ calls \<and> (\<forall>c \<in> set calls. writes_document env d' c))"
proof (cases "mg_config m = None \<or> \<not> hasCheckpointTargets m")
  case True
  with assms show ?thesis by (auto simp: Checkpoint_def)
next
  case False
  obtain sd x where p: "PersistResolvers ve (sa_now a) (sa_ctx a) (sa_resolvers a) (sa_skip a) (Some d) = (Some sd, x)"
    by (rule PersistResolvers_some)
  show ?thesis
  proof (cases x)
    case None
    obtain d2 h2 ws e2 where w: "state_write env m (sa_now a) h sd (sa_data a) (sa_params a) (sa_meta a) True = (d2, h2, ws, e2)"
      by (metis prod.exhaust)
    from assms False p None w have "d2 = d'" "h2 = h'" by (auto simp: Checkpoint_def)
    with state_write_facts [OF w] PersistResolvers_lock [OF p] PersistResolvers_data [OF p] show ?thesis by auto
  next
    case (Some y)
    with assms False p have "sd = d'" "h' = h" by (auto simp: Checkpoint_def)
    with PersistResolvers_lock [OF p] PersistResolvers_data [OF p] show ?thesis by auto
  qed
qed

lemma Save_facts:
  assumes "Save env ve m a h (Some d) = (Some d', h', r, e)"
  shows "(\<forall>n x. lock_of (sd_resolvers d) n = Some x \<longrightarrow> lock_of (sd_resolvers d') n = Some x) \<and>
    (\<exists>calls. h' = h @ calls \<and> (\<forall>c \<in> set calls. writes_document env d' c))"
proof (cases "case mg_config m of None \<Rightarrow> True | Some c \<Rightarrow> sc_save c = []")
  case True
  with assms show ?thesis by (auto simp: Save_def)
next
  case False
  obtain sd x where p: "PersistResolvers ve (sa_now a) (sa_ctx a) (sa_resolvers a) (sa_skip a)
      (Some (d\<lparr>sd_parameters := sa_params a\<rparr>)) = (Some sd, x)"
    by (rule PersistResolvers_some)
  show ?thesis
  proof (cases x)
    case None
    obtain d2 h2 ws e2 where w: "state_write env m (sa_now a) h sd (sa_data a) (sa_params a) (sa_meta a) False = (d2, h2, ws, e2)"
      by (metis prod.exhaust)
    from assms False p None w have "d2 = d'" "h2 = h'" by (auto simp: Save_def)
    with state_write_facts [OF w] PersistResolvers_lock [OF p] show ?thesis by auto
  next
    case (Some y)
    with assms False p have "sd = d'" "h' = h" by (auto simp: Save_def)
    with PersistResolvers_lock [OF p] show ?thesis by auto
  qed
qed

lemma run_writes_locks:
  assumes "(run_write env ve m)\<^sup>*\<^sup>* (d, h) (d', h')" "lock_of (sd_resolvers d) n = Some e"
  shows "lock_of (sd_resolvers d') n = Some e \<and>
    (\<exists>calls. h' = h @ calls \<and> (\<forall>c \<in> set calls. \<exists>x. writes_document env x c \<and> lock_of (sd_resolvers x) n = Some e))"
  using assms
proof (induction "(d', h')" arbitrary: d' h' rule: rtranclp_induct)
  case base
  then show ?case by simp
next
  case (step y)
  obtain d1 h1 where y: "y = (d1, h1)" by fastforce
  from step.hyps(3) [OF y step.prems] obtain calls where l: "lock_of (sd_resolvers d1) n = Some e" "h1 = h @ calls"
    "\<forall>c \<in> set calls. \<exists>x. writes_document env x c \<and> lock_of (sd_resolvers x) n = Some e" by blast
  from step.hyps(2)[unfolded y] obtain more where m: "lock_of (sd_resolvers d') n = Some e" "h' = h1 @ more"
    "\<forall>c \<in> set more. writes_document env d' c"
  proof cases
    case (checkpoint a e')
    from Checkpoint_facts [OF this] l(1) that show ?thesis by blast
  next
    case (save a r e')
    from Save_facts [OF this] l(1) that show ?thesis by blast
  qed
  have "h' = h @ calls @ more" using l(2) m(2) by simp
  moreover have "\<forall>c \<in> set (calls @ more). \<exists>x. writes_document env x c \<and> lock_of (sd_resolvers x) n = Some e"
    using l(3) m(1,3) by auto
  ultimately show ?case using m(1) by blast
qed

section \<open>Properties\<close>

text \<open>C17: The pre-load set of an accepted configuration consists of exactly the resolvers that the load-time fields
  reference, directly or through dependencies, among them every referenced one, and none of them uses the
  state provider or reaches a resolver that does: it can run before the state is there.\<close>

theorem preload_is_state_independent:
  assumes "ValidateStateRefs (ti_deps ti) cfg (Some (state_partition ti)) = None"
    and "distinct (map r_name (ti_resolvers ti))"
  shows "r_name ` set (phase_a_subset ti (PhaseARoots (ti_deps ti) cfg (Some (state_partition ti)))) =
      (resolver_edges (ti_deps ti) (plain (ti_resolvers ti)))\<^sup>* `` load_refs (ti_deps ti) cfg \<inter> r_name ` set (ti_resolvers ti) \<and>
    load_refs (ti_deps ti) cfg \<subseteq> r_name ` set (ti_resolvers ti) \<and>
    r_name ` set (phase_a_subset ti (PhaseARoots (ti_deps ti) cfg (Some (state_partition ti)))) \<inter>
      reads_provider (ti_deps ti) (ti_calls ti) (read_provider_of ti) (plain (ti_resolvers ti)) = {}"
proof -
  have "set (PhaseARoots (ti_deps ti) cfg (Some (state_partition ti))) = load_refs (ti_deps ti) cfg"
    using assms(1) by (auto simp: PhaseARoots_set validate_refs_iff)
  moreover have "load_refs (ti_deps ti) cfg \<subseteq> r_name ` set (ti_resolvers ti)"
    using assms(1) by (auto simp: validate_refs_iff state_partition_known)
  ultimately show ?thesis
    using phase_a_names [OF assms(2), of "PhaseARoots (ti_deps ti) cfg (Some (state_partition ti))"]
      phase_a_independent [OF assms(2)] by blast
qed

definition step_free :: "string \<Rightarrow> string list \<Rightarrow> state_resolver" where
  "step_free n on = (sample_state_resolver n False)\<lparr>r_dependsOn := on, r_resolve := None\<rparr>"

definition sample_input :: two_phase_input where
  "sample_input = \<lparr>ti_resolvers = [step_free ''where'' [''base''], step_free ''base'' [],
       sample_state_resolver ''old'' False, step_free ''use'' [''old'']],
     ti_deps = sample_deps_env, ti_calls = [], ti_provider = ''p'', ti_run = None, ti_view = (\<lambda>_. VNil)\<rparr>"

definition sample_config :: "string \<Rightarrow> state_config" where
  "sample_config n = \<lparr>sc_enabled = Some (RefResolver n), sc_load = None, sc_save = []\<rparr>"

theorem preload_is_state_independent_witness:
  "{''where'', ''base''} \<inter>
   reads_provider sample_deps_env [] ''p'' (plain (ti_resolvers sample_input)) = {}"
proof -
  let ?cfg = "Some (sample_config ''where'')"
  have v: "ValidateStateRefs (ti_deps sample_input) ?cfg (Some (state_partition sample_input)) = None" by code_simp
  have d: "distinct (map r_name (ti_resolvers sample_input))" by code_simp
  have n: "map r_name (phase_a_subset sample_input (PhaseARoots (ti_deps sample_input) ?cfg (Some (state_partition sample_input)))) =
      [''where'', ''base'']" by code_simp
  have "r_name ` set (phase_a_subset sample_input (PhaseARoots (ti_deps sample_input) ?cfg (Some (state_partition sample_input)))) =
      {''where'', ''base''}" using arg_cong [OF n, of set] by simp
  moreover have "read_provider_of sample_input = ''p''" "ti_calls sample_input = []" "ti_deps sample_input = sample_deps_env"
    by (simp_all add: read_provider_of_def sample_input_def)
  ultimately show ?thesis using preload_is_state_independent [OF v d] by metis
qed

text \<open>A load-time configuration is accepted exactly when every resolver it references is defined and none of
  them reads state or depends on one that does; a rejected one is reported before any resolver runs or any
  provider is called.\<close>

theorem rejected_before_loading:
  assumes "mg_config m = Some c"
  shows "(ValidateStateRefs (ti_deps ti) (mg_config m) (Some (state_partition ti)) = None) =
      (\<forall>x \<in> load_refs (ti_deps ti) (mg_config m). x \<in> r_name ` set (ti_resolvers ti) \<and>
         x \<notin> reads_provider (ti_deps ti) (ti_calls ti) (read_provider_of ti) (plain (ti_resolvers ti))) \<and>
    (\<forall>e. ValidateStateRefs (ti_deps ti) (mg_config m) (Some (state_partition ti)) = Some e \<longrightarrow>
       LoadTwoPhase env m hist params cmd ti = (hist, Inl e))"
  using two_phase_rejects [of m ti _ env hist params cmd] assms
  by (simp add: validate_refs_iff state_partition_known state_partition_dependent)

definition idle_env :: manager_env where
  "idle_env = \<lparr>me_vals = sample_val_env, me_prefixVars = (\<lambda>_. None), me_registry = (\<lambda>_. Some [''state'']),
     me_exec = (\<lambda>_ _. Inr (OutMap (Some (VBool False)) None)),
     me_json = \<lparr>js_keys = (\<lambda>_. None), js_version = (\<lambda>_. Inr None), js_data = (\<lambda>_. Inr NewData)\<rparr>,
     me_marshal = (\<lambda>_. Inr []), me_encode = (\<lambda>_. Inr VNil), me_zero = (\<lambda>_. False)\<rparr>"

definition sample_manager :: "state_config \<Rightarrow> manager" where
  "sample_manager c = NewManager (Some c) \<lparr>pv_engineName = ''scafctl'', pv_engineVersion = ''1'', pv_cliName = [], pv_cliVersion = []\<rparr> []"

theorem rejected_before_loading_witness:
  "LoadTwoPhase idle_env (sample_manager (sample_config ''use'')) [] [] \<lparr>cmd_subcommand = [], cmd_parameters = []\<rparr> sample_input =
     ([], Inl (CycleError ''state.enabled'' [''use'']))"
proof -
  let ?m = "sample_manager (sample_config ''use'')"
  have c: "mg_config ?m = Some (sample_config ''use'')"
    by (simp add: sample_manager_def NewManager_def materializeExtends_def sample_config_def)
  have "ValidateStateRefs (ti_deps sample_input) (Some (sample_config ''use'')) (Some (state_partition sample_input)) =
      Some (CycleError ''state.enabled'' [''use''])" by code_simp
  with rejected_before_loading [OF c, of sample_input idle_env "[]" "[]" "\<lparr>cmd_subcommand = [], cmd_parameters = []\<rparr>"] c
  show ?thesis by simp
qed


definition sample_save :: "string \<Rightarrow> gval \<Rightarrow> save_args" where
  "sample_save n v = \<lparr>sa_ctx = sample_state_ctx n v, sa_resolvers = [sample_state_resolver n False, sample_state_resolver ''new'' True],
     sa_params = [(''p'', VInt 1)], sa_data = [], sa_meta = (''sol'', ''1.0''), sa_skip = [], sa_now = 9\<rparr>"

definition file_target :: save_target where
  "file_target = \<lparr>sv_extends = [], sv_provider = ''file'', sv_format = [], sv_parameters = None,
     sv_inputs = [(''path'', Some (RefLiteral (VStr ''s.json'')))], sv_enabled = None, sv_checkpoint = False\<rparr>"

definition saving_manager :: manager where
  "saving_manager = sample_manager \<lparr>sc_enabled = None, sc_load = None, sc_save = [file_target]\<rparr>"


text \<open>A write reports the selected targets in declaration order up to the failure, calls the provider of each
  reported target that is not skipped once and in this order, and at most one more when it fails.\<close>

theorem save_reports_targets:
  assumes "state_write env m now hist d data params meta cp = (d', hist', ws, e)" "mg_config m = Some c"
  shows "\<exists>calls. hist' = hist @ calls \<and> (\<forall>x \<in> set calls. writes_document env d' x) \<and> write_report cp (sc_save c) calls ws e"
  using state_write_facts [OF assms(1)] assms(2) by auto

theorem save_reports_targets_witness:
  "\<exists>d' h' ws. state_write idle_env saving_manager 9 [] sample_state [] [] ([], []) False = (d', h', ws, None) \<and>
     map tw_provider ws = [''file''] \<and> map sp_provider h' = [''file'']"
proof -
  let ?W = "state_write idle_env saving_manager 9 [] sample_state [] [] ([], []) False"
  obtain d' h' ws e where w: "?W = (d', h', ws, e)" by (metis prod.exhaust)
  have "snd (snd (snd ?W)) = None" by code_simp
  with w have e: "e = None" by simp
  have c: "mg_config saving_manager = Some \<lparr>sc_enabled = None, sc_load = None, sc_save = [file_target]\<rparr>"
    by (simp add: saving_manager_def sample_manager_def NewManager_def materializeExtends_def materialize_target_def)
  from save_reports_targets [OF w c] obtain calls where "h' = calls" "write_report False [file_target] calls ws None"
    using e by auto
  moreover have "map tw_skipped (fst (snd (snd ?W))) = [False]" by code_simp
  ultimately have "map tw_provider ws = [''file'']" "map sp_provider h' = map tw_provider (filter (\<lambda>w. \<not> tw_skipped w) ws)"
     "map tw_skipped ws = [False]"
    using w by (auto simp: write_report_def selected_def file_target_def)
  then have "map sp_provider h' = [''file'']" by (cases ws) auto
  with \<open>map tw_provider ws = [''file'']\<close> w [unfolded e] show ?thesis by (intro exI conjI)
qed

end
