(* ===== verification/Resolver_Graph.thy ===== *)
theory Resolver_Graph
  imports Phases
begin

text \<open>
  The rest of \<open>pkg/resolver/graph.go\<close>: transitive dependencies by \<open>dependsOn\<close>, the exported scanners for
  references, the report of template accessors, and \<open>BuildGraph\<close> with its statistics and critical path.
  The diagrams are output and left out.
\<close>

section \<open>Transitive dependencies\<close>

text \<open>The recursion as a walk: \<open>pending\<close> are the dependencies still to be looked at, in the order of the calls.\<close>

function dep_walk :: "resolver gomap \<Rightarrow> string \<Rightarrow> string list \<Rightarrow> string list \<Rightarrow> bool" where
  "dep_walk rm c [] visited = False"
| "dep_walk rm c (d # ds) visited =
     (if d = c then True
      else if d \<in> set visited then dep_walk rm c ds visited
      else (case map_of rm d of
              None \<Rightarrow> dep_walk rm c ds (d # visited)
            | Some r \<Rightarrow> dep_walk rm c (r_dependsOn r @ ds) (d # visited)))"
  by pat_completeness auto
termination
proof (relation "measures [\<lambda>(rm, c, ds, visited). card (set (map_keys rm) - set visited), \<lambda>(rm, c, ds, visited). length ds]",
    goal_cases)
  case (3 rm c d ds visited)
  have "card (set (map_keys rm) - set (d # visited)) \<le> card (set (map_keys rm) - set visited)"
    by (rule card_mono) auto
  then show ?case by auto
next
  case (4 rm c d ds visited r)
  then have "d \<in> set (map_keys rm) - set visited" using map_has_Some [of rm d] by (simp add: map_has_iff_keys)
  moreover have "set (map_keys rm) - set (d # visited) = (set (map_keys rm) - set visited) - {d}" by auto
  ultimately have "card (set (map_keys rm) - set (d # visited)) < card (set (map_keys rm) - set visited)"
    by (metis List.finite_set card_Diff1_less finite_Diff)
  then show ?case by simp
qed simp_all

definition IsTransitiveDependency :: "resolver gomap \<Rightarrow> string \<Rightarrow> string \<Rightarrow> bool" where
  "IsTransitiveDependency rm t c =
     (case map_of rm t of None \<Rightarrow> False | Some r \<Rightarrow> dep_walk rm c (r_dependsOn r) [t])"

definition depends_on :: "resolver gomap \<Rightarrow> (string \<times> string) set" where
  "depends_on rm = {(n, d). \<exists>r. map_of rm n = Some r \<and> d \<in> set (r_dependsOn r)}"

lemma dep_walk_sound:
  "dep_walk rm c ds visited \<Longrightarrow> \<exists>d \<in> set ds. (d, c) \<in> (depends_on rm)\<^sup>*"
proof (induction rm c ds visited rule: dep_walk.induct)
  case (2 rm c d ds visited)
  show ?case
  proof (cases "d = c \<or> d \<in> set visited")
    case True
    with 2 show ?thesis by auto
  next
    case False
    show ?thesis
    proof (cases "map_of rm d")
      case None
      with 2 False show ?thesis by auto
    next
      case (Some r)
      with 2 False obtain x where x: "x \<in> set (r_dependsOn r @ ds)" "(x, c) \<in> (depends_on rm)\<^sup>*" by auto
      show ?thesis
      proof (cases "x \<in> set ds")
        case False
        with x Some have "(d, x) \<in> depends_on rm" by (simp add: depends_on_def)
        then have "(d, c) \<in> (depends_on rm)\<^sup>*" using x(2) by (rule converse_rtrancl_into_rtrancl)
        then show ?thesis by simp
      qed (use x in auto)
    qed
  qed
qed simp

text \<open>A walk that finds nothing has looked at a set closed under the relation.\<close>

lemma dep_walk_complete:
  "\<not> dep_walk rm c ds visited \<Longrightarrow> C \<subseteq> set visited \<Longrightarrow> c \<notin> C \<Longrightarrow>
   depends_on rm `` set visited \<subseteq> C \<union> set ds \<Longrightarrow>
   \<exists>C'. C \<union> set ds \<subseteq> C' \<and> c \<notin> C' \<and> depends_on rm `` (C' \<union> set visited) \<subseteq> C'"
proof (induction rm c ds visited arbitrary: C rule: dep_walk.induct)
  case (1 rm c visited)
  then show ?case by (intro exI [of _ C]) auto
next
  case (2 rm c d ds visited)
  from 2(4) have dc: "d \<noteq> c" by (auto split: if_splits)
  show ?case
  proof (cases "d \<in> set visited")
    case True
    with 2(4) dc have w: "\<not> dep_walk rm c ds visited" by simp
    have sub: "insert d C \<subseteq> set visited" "c \<notin> insert d C" "depends_on rm `` set visited \<subseteq> insert d C \<union> set ds"
      using 2(5,6,7) True dc by auto
    from 2(1) [OF dc True w sub] obtain C' where C': "insert d C \<union> set ds \<subseteq> C'" "c \<notin> C'"
      "depends_on rm `` (C' \<union> set visited) \<subseteq> C'" by blast
    have "C \<union> set (d # ds) \<subseteq> C'" using C'(1) by simp
    with C'(2,3) show ?thesis by blast
  next
    case False
    have sub: "insert d C \<subseteq> set (d # visited)" "c \<notin> insert d C" using 2(5,6) dc by auto
    show ?thesis
    proof (cases "map_of rm d")
      case None
      with 2(4) dc False have w: "\<not> dep_walk rm c ds (d # visited)" by simp
      have "depends_on rm `` set (d # visited) \<subseteq> insert d C \<union> set ds"
        using 2(7) None by (auto simp: depends_on_def)
      from 2(2) [OF dc False None w sub this] obtain C' where
        C': "insert d C \<union> set ds \<subseteq> C'" "c \<notin> C'" "depends_on rm `` (C' \<union> set (d # visited)) \<subseteq> C'" by blast
      have "C \<union> set (d # ds) \<subseteq> C'" "depends_on rm `` (C' \<union> set visited) \<subseteq> C'" using C'(1,3) by (simp, auto)
      with C'(2) show ?thesis by blast
    next
      case (Some r)
      with 2(4) dc False have w: "\<not> dep_walk rm c (r_dependsOn r @ ds) (d # visited)" by simp
      have "depends_on rm `` set (d # visited) \<subseteq> insert d C \<union> set (r_dependsOn r @ ds)"
        using 2(7) Some by (auto simp: depends_on_def)
      from 2(3) [OF dc False Some w sub this] obtain C' where
        C': "insert d C \<union> set (r_dependsOn r @ ds) \<subseteq> C'" "c \<notin> C'" "depends_on rm `` (C' \<union> set (d # visited)) \<subseteq> C'" by blast
      have "C \<union> set (d # ds) \<subseteq> C'" "depends_on rm `` (C' \<union> set visited) \<subseteq> C'" using C'(1,3) by (simp, auto)
      with C'(2) show ?thesis by blast
    qed
  qed
qed

lemma transitive_dependency_iff:
  "IsTransitiveDependency rm t c \<longleftrightarrow> (t, c) \<in> (depends_on rm)\<^sup>+"
proof (cases "map_of rm t")
  case None
  then have "depends_on rm `` {t} = {}" by (auto simp: depends_on_def)
  then have "(t, c) \<notin> (depends_on rm)\<^sup>+" by (auto dest: tranclD)
  with None show ?thesis by (simp add: IsTransitiveDependency_def)
next
  case (Some r)
  then have e: "depends_on rm `` {t} = set (r_dependsOn r)" by (auto simp: depends_on_def)
  have walk: "IsTransitiveDependency rm t c = dep_walk rm c (r_dependsOn r) [t]"
    by (simp add: IsTransitiveDependency_def Some)
  show ?thesis
  proof
    assume "IsTransitiveDependency rm t c"
    then obtain d where "d \<in> set (r_dependsOn r)" "(d, c) \<in> (depends_on rm)\<^sup>*"
      using dep_walk_sound [of rm c "r_dependsOn r" "[t]"] unfolding walk by blast
    with e show "(t, c) \<in> (depends_on rm)\<^sup>+" by (auto intro: rtrancl_into_trancl2)
  next
    assume t: "(t, c) \<in> (depends_on rm)\<^sup>+"
    show "IsTransitiveDependency rm t c"
    proof (rule ccontr)
      assume "\<not> ?thesis"
      note w = this [unfolded walk]
      have "{} \<subseteq> set [t]" "c \<notin> {}" "depends_on rm `` set [t] \<subseteq> {} \<union> set (r_dependsOn r)" using e by simp_all
      from dep_walk_complete [OF w this] obtain C' where
        C': "{} \<union> set (r_dependsOn r) \<subseteq> C'" "c \<notin> C'" "depends_on rm `` (C' \<union> set [t]) \<subseteq> C'" by (elim exE conjE)
      have C: "set (r_dependsOn r) \<subseteq> C'" "c \<notin> C'" "depends_on rm `` C' \<subseteq> C'" using C' by (simp, simp, blast)
      from t obtain d where d: "(t, d) \<in> depends_on rm" "(d, c) \<in> (depends_on rm)\<^sup>*" by (auto dest: tranclD)
      with e C(1) have "d \<in> C'" by auto
      with d(2) C(3) have "c \<in> C'" using Image_closed_trancl [OF C(3)] by blast
      with C(2) show False by simp
    qed
  qed
qed

section \<open>The exported scanners\<close>

definition ExtractRefsFromValueRefs :: "deps_env \<Rightarrow> value_ref option gomap \<Rightarrow> string list" where
  "ExtractRefsFromValueRefs env ins = sort (fold (\<lambda>(_, r). extractDepsFromValueRef env r) ins [])"

definition ExtractRefsFromValueRef :: "deps_env \<Rightarrow> value_ref option \<Rightarrow> string list option \<Rightarrow> string list option" where
  "ExtractRefsFromValueRef env r deps = map_option (extractDepsFromValueRef env r) deps"

definition extractHardCelFromTemplateUnderscore :: "deps_env \<Rightarrow> string \<Rightarrow> string list \<Rightarrow> string list" where
  "extractHardCelFromTemplateUnderscore env t hard = add_all (ExtractExplicitResolverRefs (de_tmpl env) t [] []) hard"

function (sequential) extractHardCelFromLiteral :: "deps_env \<Rightarrow> gval \<Rightarrow> string list \<Rightarrow> string list"
and hard_entries :: "deps_env \<Rightarrow> (string \<times> gval) list \<Rightarrow> string list \<Rightarrow> string list"
and hard_elems :: "deps_env \<Rightarrow> gval list \<Rightarrow> string list \<Rightarrow> string list"
where
  "extractHardCelFromLiteral env (VStr s) hard =
     (if cel_like s then extractHardDepsFromExpression env s hard else hard)"
| "extractHardCelFromLiteral env (VMap m) hard =
     (let h1 = (case str_entry m ''expr'' of None \<Rightarrow> hard | Some e \<Rightarrow> extractHardDepsFromExpression env e hard);
          h2 = (case str_entry m ''rslvr'' of None \<Rightarrow> h1 | Some r \<Rightarrow> set_insert r h1);
          h3 = (case str_entry m ''tmpl'' of None \<Rightarrow> h2 | Some t \<Rightarrow> extractHardCelFromTemplateUnderscore env t h2)
      in hard_entries env m h3)"
| "extractHardCelFromLiteral env (VList vs) hard = hard_elems env vs hard"
| "extractHardCelFromLiteral env _ hard = hard"
| "hard_entries env [] hard = hard"
| "hard_entries env ((k, v) # m) hard =
     (if k = ''expr'' \<or> k = ''rslvr'' \<or> k = ''tmpl'' then hard_entries env m hard
      else hard_entries env m (extractHardCelFromLiteral env v hard))"
| "hard_elems env [] hard = hard"
| "hard_elems env (v # vs) hard = hard_elems env vs (extractHardCelFromLiteral env v hard)"
  by pat_completeness auto
termination
  by (relation "measure (\<lambda>x. case x of Inl (_, v, _) \<Rightarrow> size v
      | Inr (Inl (_, m, _)) \<Rightarrow> size_list (size_prod (\<lambda>_. 0) size) m
      | Inr (Inr (_, vs, _)) \<Rightarrow> size_list size vs)") simp_all

fun extractHardCelFromValueRef :: "deps_env \<Rightarrow> value_ref option \<Rightarrow> string list \<Rightarrow> string list" where
  "extractHardCelFromValueRef env None hard = hard"
| "extractHardCelFromValueRef env (Some (RefResolver r)) hard = set_insert r hard"
| "extractHardCelFromValueRef env (Some (RefExpr e)) hard = extractHardDepsFromExpression env e hard"
| "extractHardCelFromValueRef env (Some (RefTmpl t)) hard = extractHardCelFromTemplateUnderscore env t hard"
| "extractHardCelFromValueRef env (Some (RefLiteral v)) hard = extractHardCelFromLiteral env v hard"

definition ExtractHardCelRefsFromValueRef :: "deps_env \<Rightarrow> value_ref option \<Rightarrow> string list option \<Rightarrow> string list option" where
  "ExtractHardCelRefsFromValueRef env r hard = map_option (extractHardCelFromValueRef env r) hard"

function (sequential) extractOptionalFromLiteral :: "deps_env \<Rightarrow> gval \<Rightarrow> string list \<Rightarrow> string list"
and optional_entries :: "deps_env \<Rightarrow> (string \<times> gval) list \<Rightarrow> string list \<Rightarrow> string list"
and optional_elems :: "deps_env \<Rightarrow> gval list \<Rightarrow> string list \<Rightarrow> string list"
where
  "extractOptionalFromLiteral env (VStr s) opt =
     (if cel_like s then addOptionalFromExpression env s opt else opt)"
| "extractOptionalFromLiteral env (VMap m) opt =
     (let o1 = (case str_entry m ''expr'' of None \<Rightarrow> opt | Some e \<Rightarrow> addOptionalFromExpression env e opt)
      in if str_entry m ''expr'' \<noteq> None \<or> str_entry m ''rslvr'' \<noteq> None \<or> str_entry m ''tmpl'' \<noteq> None
         then o1 else optional_entries env m o1)"
| "extractOptionalFromLiteral env (VList vs) opt = optional_elems env vs opt"
| "extractOptionalFromLiteral env _ opt = opt"
| "optional_entries env [] opt = opt"
| "optional_entries env ((k, v) # m) opt = optional_entries env m (extractOptionalFromLiteral env v opt)"
| "optional_elems env [] opt = opt"
| "optional_elems env (v # vs) opt = optional_elems env vs (extractOptionalFromLiteral env v opt)"
  by pat_completeness auto
termination
  by (relation "measure (\<lambda>x. case x of Inl (_, v, _) \<Rightarrow> size v
      | Inr (Inl (_, m, _)) \<Rightarrow> size_list (size_prod (\<lambda>_. 0) size) m
      | Inr (Inr (_, vs, _)) \<Rightarrow> size_list size vs)") simp_all

fun extractOptionalFromValueRef :: "deps_env \<Rightarrow> value_ref option \<Rightarrow> string list \<Rightarrow> string list" where
  "extractOptionalFromValueRef env (Some (RefExpr e)) opt = addOptionalFromExpression env e opt"
| "extractOptionalFromValueRef env (Some (RefLiteral v)) opt = extractOptionalFromLiteral env v opt"
| "extractOptionalFromValueRef env _ opt = opt"

definition ExtractOptionalRefsFromValueRef :: "deps_env \<Rightarrow> value_ref option \<Rightarrow> string list option \<Rightarrow> string list option" where
  "ExtractOptionalRefsFromValueRef env r opt = map_option (extractOptionalFromValueRef env r) opt"

section \<open>Template accessors\<close>

record template_accessor =
  ta_resolver :: string
  ta_step :: string
  ta_name :: string

definition templateInputString :: "value_ref option gomap \<Rightarrow> string" where
  "templateInputString ins =
     (case map_of ins ''template'' of
        Some (Some (RefTmpl t)) \<Rightarrow> t | Some (Some (RefLiteral (VStr s))) \<Rightarrow> s | _ \<Rightarrow> [])"

definition literalStringInput :: "value_ref option gomap \<Rightarrow> string \<Rightarrow> string" where
  "literalStringInput ins k = (case map_of ins k of Some (Some (RefLiteral (VStr s))) \<Rightarrow> s | _ \<Rightarrow> [])"

definition collectUnresolvedAccessors ::
  "deps_env \<Rightarrow> string list \<Rightarrow> string \<Rightarrow> string \<Rightarrow> provider_step \<Rightarrow> template_accessor list" where
  "collectUnresolvedAccessors env known n phase s =
     (let t = templateInputString (s_inputs s) in
      if t = [] then []
      else
        (let inp = (depsInput (buildTmplScanCtx env (s_inputs s) (s_forEach s)) t)
               \<lparr>di_left := literalStringInput (s_inputs s) ''leftDelim'', di_right := literalStringInput (s_inputs s) ''rightDelim''\<rparr>
         in map (\<lambda>x. \<lparr>ta_resolver = n, ta_step = phase, ta_name = x\<rparr>)
              (fold (\<lambda>x seen. if x \<in> set known \<or> x \<in> set seen then seen else seen @ [x])
                (ExtractResolverDeps (de_tmpl env) inp) [])))"

definition UnresolvedTemplateAccessors :: "deps_env \<Rightarrow> resolver list \<Rightarrow> template_accessor list" where
  "UnresolvedTemplateAccessors env rs =
     (let known = fold (\<lambda>r. set_insert (r_name r)) rs [] in
      concat (map (\<lambda>r.
        (case r_resolve r of None \<Rightarrow> [] | Some p \<Rightarrow>
           concat (map (collectUnresolvedAccessors env known (r_name r) ''resolve'') (rp_with p))) @
        (case r_transform r of None \<Rightarrow> [] | Some p \<Rightarrow>
           concat (map (collectUnresolvedAccessors env known (r_name r) ''transform'') (tp_with p)))) rs))"
section \<open>The dependency graph\<close>

record graph_node =
  gn_name :: string
  gn_type :: string
  gn_phase :: nat
  gn_conditional :: bool
  gn_dependencies :: "(string \<times> string) list"

record graph_edge =
  ge_from :: string
  ge_to :: string
  ge_label :: string

record phase_info =
  pi_phase :: nat
  pi_resolvers :: "string list"
  pi_parallelism :: nat

text \<open>The average is the quotient of two counts (0 when there are no nodes) before it is rounded to a float.\<close>

record graph_stats =
  gs_totalResolvers :: nat
  gs_totalPhases :: nat
  gs_maxParallelism :: nat
  gs_avgDependencies :: "nat \<times> nat"
  gs_criticalPath :: "string list"
  gs_criticalDepth :: nat

record resolver_graph =
  rg_nodes :: "graph_node list"
  rg_edges :: "graph_edge list"
  rg_phases :: "phase_info list"

definition node_of :: "deps_env \<Rightarrow> nat \<Rightarrow> resolver \<Rightarrow> graph_node" where
  "node_of env ph r =
     \<lparr>gn_name = r_name r, gn_type = r_type r, gn_phase = ph, gn_conditional = (r_when r \<noteq> None),
      gn_dependencies = map (\<lambda>d. (d, d)) (extractDependencies env r)\<rparr>"

definition edges_of :: "deps_env \<Rightarrow> resolver \<Rightarrow> graph_edge list" where
  "edges_of env r = map (\<lambda>d. \<lparr>ge_from = r_name r, ge_to = d, ge_label = d\<rparr>) (extractDependencies env r)"

definition phase_info_of :: "phase_group \<Rightarrow> phase_info" where
  "phase_info_of pg =
     \<lparr>pi_phase = pg_phase pg, pi_resolvers = names (pg_resolvers pg), pi_parallelism = length (pg_resolvers pg)\<rparr>"

definition graph_of :: "deps_env \<Rightarrow> phase_group list \<Rightarrow> resolver_graph" where
  "graph_of env phases =
     \<lparr>rg_nodes = concat (map (\<lambda>pg. map (node_of env (pg_phase pg)) (pg_resolvers pg)) phases),
      rg_edges = concat (map (\<lambda>pg. concat (map (edges_of env) (pg_resolvers pg))) phases),
      rg_phases = map phase_info_of phases\<rparr>"

definition findNode :: "resolver_graph \<Rightarrow> string \<Rightarrow> graph_node option" where
  "findNode g n = find (\<lambda>x. gn_name x = n) (rg_nodes g)"

record critical =
  cp_longest :: "nat gomap"
  cp_parent :: "string gomap"
  cp_node :: string
  cp_len :: nat

definition best_dependency :: "nat gomap \<Rightarrow> (string \<times> string) list \<Rightarrow> nat \<times> string" where
  "best_dependency longest deps =
     fold (\<lambda>(d, _) (l, p).
        case map_of longest d of
          Some k \<Rightarrow> if k + 1 > l \<or> k + 1 = l \<and> d < p then (k + 1, d) else (l, p)
        | None \<Rightarrow> (l, p)) deps (1, [])"

definition critical_step :: "resolver_graph \<Rightarrow> string \<Rightarrow> critical \<Rightarrow> critical" where
  "critical_step g n c =
     (case findNode g n of
        None \<Rightarrow> c
      | Some x \<Rightarrow>
          (case best_dependency (cp_longest c) (gn_dependencies x) of
             (l, p) \<Rightarrow>
               (let c = c\<lparr>cp_longest := map_put n l (cp_longest c),
                          cp_parent := (if p \<noteq> [] then map_put n p (cp_parent c) else cp_parent c)\<rparr>
                in if l > cp_len c then c\<lparr>cp_len := l, cp_node := n\<rparr> else c)))"

definition critical_start :: critical where
  "critical_start = \<lparr>cp_longest = [], cp_parent = [], cp_node = [], cp_len = 0\<rparr>"

text \<open>The walk to the root, with as many steps as the path may have.\<close>

fun path_back :: "nat \<Rightarrow> string gomap \<Rightarrow> string \<Rightarrow> string list" where
  "path_back 0 parent n = []"
| "path_back (Suc k) parent n = (if n = [] then [] else n # path_back k parent (map_get [] parent n))"

definition computeCriticalPath :: "resolver_graph \<Rightarrow> string list" where
  "computeCriticalPath g =
     (if rg_nodes g = [] then []
      else
        (let c = fold (\<lambda>ph. fold (critical_step g) (pi_resolvers ph)) (rg_phases g) critical_start
         in if cp_len c = 0 then [] else rev (path_back (Suc (cp_len c)) (cp_parent c) (cp_node c))))"

definition calculateGraphStats :: "resolver_graph \<Rightarrow> graph_stats" where
  "calculateGraphStats g =
     (let path = computeCriticalPath g in
      \<lparr>gs_totalResolvers = length (rg_nodes g), gs_totalPhases = length (rg_phases g),
       gs_maxParallelism = fold (\<lambda>ph m. if pi_parallelism ph > m then pi_parallelism ph else m) (rg_phases g) 0,
       gs_avgDependencies = (if rg_nodes g = [] then (0, 1)
          else (fold (\<lambda>x t. t + length (gn_dependencies x)) (rg_nodes g) 0, length (rg_nodes g))),
       gs_criticalPath = path, gs_criticalDepth = length path\<rparr>)"

definition BuildGraph ::
  "(string list \<Rightarrow> nat) \<Rightarrow> deps_env \<Rightarrow> resolver list \<Rightarrow> phase_error + resolver_graph \<times> graph_stats" where
  "BuildGraph pick env rs =
     (case BuildPhasesWithCalls pick env rs of
        Inl e \<Rightarrow> Inl e
      | Inr br \<Rightarrow> (let g = graph_of env (br_phases br) in Inr (g, calculateGraphStats g)))"

subsection \<open>The critical path\<close>

lemma best_dependency_facts:
  assumes "\<forall>d k. map_of longest d = Some k \<longrightarrow> 1 \<le> k"
  shows "(case best_dependency longest deps of (l, p) \<Rightarrow>
     1 \<le> l \<and> (\<forall>(d, f) \<in> set deps. \<forall>k. map_of longest d = Some k \<longrightarrow> k < l) \<and>
     (if l = 1 then p = [] else p \<in> fst ` set deps \<and> map_of longest p = Some (l - 1)))"
proof -
  let ?f = "\<lambda>(d, _ :: string) (l, p). case map_of longest d of
          Some k \<Rightarrow> if k + 1 > l \<or> k + 1 = l \<and> d < p then (k + 1, d) else (l, p) | None \<Rightarrow> (l, p)"
  have "case fold ?f deps (l0, p0) of (l, p) \<Rightarrow>
     l0 \<le> l \<and> (\<forall>(d, f) \<in> set deps. \<forall>k. map_of longest d = Some k \<longrightarrow> k < l) \<and>
     (if l = 1 then p = [] else p \<in> fst ` (set seen \<union> set deps) \<and> map_of longest p = Some (l - 1))"
    if "1 \<le> l0" "if l0 = 1 then p0 = [] else p0 \<in> fst ` set seen \<and> map_of longest p0 = Some (l0 - 1)" for l0 p0 seen
    using that
  proof (induction deps arbitrary: l0 p0 seen)
    case Nil
    then show ?case by simp
  next
    case (Cons x deps)
    obtain d f where x: "x = (d, f)" by fastforce
    obtain l1 p1 where s: "?f x (l0, p0) = (l1, p1)" by fastforce
    have step: "l0 \<le> l1" "1 \<le> l1" "\<forall>k. map_of longest d = Some k \<longrightarrow> k < l1"
      "if l1 = 1 then p1 = [] else p1 \<in> fst ` set (x # seen) \<and> map_of longest p1 = Some (l1 - 1)"
      using s Cons.prems assms unfolding x by (auto split: option.splits if_splits)
    obtain l p where r: "fold ?f deps (l1, p1) = (l, p)" by fastforce
    note i = Cons.IH [OF step(2,4), unfolded r prod.case]
    note ih = i [THEN conjunct1] i [THEN conjunct2, THEN conjunct1] i [THEN conjunct2, THEN conjunct2]
    have "l0 \<le> l" using step(1) ih(1) by simp
    moreover have "\<forall>(d, f) \<in> set (x # deps). \<forall>k. map_of longest d = Some k \<longrightarrow> k < l"
      using ih(1,2) step(3) unfolding x by force
    moreover have e: "set (x # seen) \<union> set deps = set seen \<union> set (x # deps)" by auto
    have "if l = 1 then p = [] else p \<in> fst ` (set seen \<union> set (x # deps)) \<and> map_of longest p = Some (l - 1)"
      using ih(3) unfolding e .
    moreover have "fold ?f (x # deps) (l0, p0) = (l, p)" using s r by simp
    ultimately show ?case by simp
  qed
  from this [of 1 "[]" "[]"] show ?thesis unfolding best_dependency_def by (auto split: prod.splits)
qed
text \<open>Facts about the plan the graph is built from; \<open>ph\<close> is the phase of a resolver.\<close>

definition plan_names :: "build_result \<Rightarrow> string list" where
  "plan_names br = concat (phase_names (br_phases br))"

abbreviation phase_of :: "build_result \<Rightarrow> string \<Rightarrow> nat" where
  "phase_of br n \<equiv> GetPhaseForResolver (br_phases br) n"

lemma plan_names_facts:
  assumes ok: "BuildPhasesWithCalls pick env rs = Inr br"
  shows "distinct (plan_names br)" "set (plan_names br) = set (names rs)" "sorted (map (phase_of br) (plan_names br))"
proof -
  show "distinct (plan_names br)" "set (plan_names br) = set (names rs)"
    using phase_schedule_partition [OF BuildPhases_Inr(2) [OF ok]] by (simp_all add: plan_names_def)
  have "sorted (map f (concat xss)) \<and> (\<forall>x \<in> set (concat xss). k < f x)"
    if "\<And>i x. i < length xss \<Longrightarrow> x \<in> set (xss ! i) \<Longrightarrow> f x = Suc (i + k)" for xss and f :: "string \<Rightarrow> nat" and k
    using that
  proof (induction xss arbitrary: k)
    case (Cons xs xss)
    have hd: "\<And>x. x \<in> set xs \<Longrightarrow> f x = Suc k" using Cons.prems [of 0] by simp
    have "\<And>i x. i < length xss \<Longrightarrow> x \<in> set (xss ! i) \<Longrightarrow> f x = Suc (i + Suc k)" using Cons.prems [of "Suc i" for i] by simp
    from Cons.IH [OF this] have tl: "sorted (map f (concat xss))" "\<forall>x \<in> set (concat xss). Suc k < f x" by blast+
    have "sorted (map f xs)" using hd by (auto simp: sorted_iff_nth_mono)
    with tl hd show ?case by (auto simp: sorted_append intro: less_imp_le Suc_lessD)
  qed simp
  from this [of "phase_names (br_phases br)" "phase_of br" 0] resolver_phase(2) [OF ok]
  show "sorted (map (phase_of br) (plan_names br))" by (simp add: plan_names_def phase_names_def)
qed

lemma earlier_in_plan:
  assumes ok: "BuildPhasesWithCalls pick env rs = Inr br" and ns: "plan_names br = pre @ n # post"
    and d: "d \<in> phase_deps br n"
  shows "d \<in> set pre"
proof (rule ccontr)
  assume "d \<notin> set pre"
  have lt: "phase_of br d < phase_of br n" using dependency_phase_before [OF ok d] by simp
  have "d \<in> set (plan_names br)" using BuildPhases_Inr(6) [OF ok d] plan_names_facts(2) [OF ok] by simp
  with \<open>d \<notin> set pre\<close> have "d = n \<or> d \<in> set post" unfolding ns by simp
  then have "phase_of br n \<le> phase_of br d"
    using plan_names_facts(3) [OF ok] unfolding ns by (auto simp: sorted_append)
  with lt show False by simp
qed

lemma phase_predecessor:
  assumes ok: "BuildPhasesWithCalls pick env rs = Inr br" and n: "n \<in> set (names rs)" and k: "phase_of br n = Suc (Suc k)"
  shows "\<exists>d \<in> phase_deps br n. phase_of br d = Suc k"
proof (rule ccontr)
  assume no: "\<not> ?thesis"
  let ?f = "\<lambda>m. if m = n then k else phase_of br m - 1"
  have "?f d < ?f m" if "m \<in> set (names rs)" "d \<in> phase_deps br m" for m d
  proof -
    have lt: "0 < phase_of br d" "phase_of br d < phase_of br m" using dependency_phase_before [OF ok that(2)] by simp_all
    show ?thesis
    proof (cases "m = n")
      case True
      then have "phase_of br d \<noteq> Suc k" using no that(2) by auto
      with lt True k show ?thesis by auto
    next
      case False
      with lt k show ?thesis by auto
    qed
  qed
  from phase_minimal [OF ok n, of ?f, OF this] k show False by simp
qed

lemma phase_positive:
  "BuildPhasesWithCalls pick env rs = Inr br \<Longrightarrow> n \<in> set (names rs) \<Longrightarrow> 1 \<le> phase_of br n \<and> phase_of br n \<le> length (br_phases br)"
  using resolver_phase(1) [of pick env rs br n] by auto

text \<open>The node of a resolver and its dependencies that are resolvers.\<close>

lemma graph_of_names:
  "map gn_name (rg_nodes (graph_of env pgs)) = concat (phase_names pgs)"
  by (induction pgs) (simp_all add: graph_of_def phase_names_def names_def node_of_def comp_def)

lemma findNode_facts:
  assumes ok: "BuildPhasesWithCalls pick env rs = Inr br" and n: "n \<in> set (names rs)"
  obtains x where "findNode (graph_of env (br_phases br)) n = Some x"
    "\<And>d. d \<in> set (names rs) \<Longrightarrow> d \<in> fst ` set (gn_dependencies x) \<longleftrightarrow> d \<in> phase_deps br n"
proof -
  let ?g = "graph_of env (br_phases br)"
  have "n \<in> gn_name ` set (rg_nodes ?g)"
    using n plan_names_facts(2) [OF ok] arg_cong [OF graph_of_names [of env "br_phases br"], of set]
    by (simp add: plan_names_def)
  then have "find (\<lambda>x. gn_name x = n) (rg_nodes ?g) \<noteq> None" by (auto simp: find_None_iff)
  then obtain x where x: "findNode ?g n = Some x" by (auto simp: findNode_def)
  then have "x \<in> set (rg_nodes ?g)" "gn_name x = n" by (auto simp: findNode_def dest: find_SomeD)
  then obtain pg r where r: "pg \<in> set (br_phases br)" "r \<in> set (pg_resolvers pg)" "x = node_of env (pg_phase pg) r"
    by (auto simp: graph_of_def)
  have rn: "r \<in> set rs" "r_name r = n"
    using r BuildPhases_Inr(4) [OF ok r(1)] \<open>gn_name x = n\<close> by (auto simp: node_of_def)
  have pd: "phase_deps br n = set (effective_deps env (resolver_map rs) r)"
    using BuildPhases_Inr(5) [OF ok rn(1)] rn(2) by (simp add: phase_deps_def)
  have "fst ` set (gn_dependencies x) = set (extractDependencies env r)"
    unfolding r(3) by (simp add: node_of_def image_image)
  then have "d \<in> fst ` set (gn_dependencies x) \<longleftrightarrow> d \<in> phase_deps br n" if "d \<in> set (names rs)" for d
    unfolding pd using that by (auto simp: effective_deps_def extractDependenciesWithCalls_def resolver_map_has)
  with x show ?thesis using that by blast
qed

subsection \<open>The dynamic program\<close>

definition critical_inv :: "build_result \<Rightarrow> string list \<Rightarrow> critical \<Rightarrow> bool" where
  "critical_inv br pre c =
     ((\<forall>m. map_of (cp_longest c) m = (if m \<in> set pre then Some (phase_of br m) else None)) \<and>
      (\<forall>m. case map_of (cp_parent c) m of
         None \<Rightarrow> m \<in> set pre \<longrightarrow> phase_of br m = 1
       | Some p \<Rightarrow> m \<in> set pre \<and> p \<in> phase_deps br m \<and> Suc (phase_of br p) = phase_of br m) \<and>
      (\<forall>m \<in> set pre. phase_of br m \<le> cp_len c) \<and>
      (if pre = [] then cp_len c = 0 else cp_node c \<in> set pre \<and> phase_of br (cp_node c) = cp_len c))"

lemma critical_step_inv:
  assumes ok: "BuildPhasesWithCalls pick env rs = Inr br" and ns: "plan_names br = pre @ n # post"
    and ne: "[] \<notin> set (names rs)" and inv: "critical_inv br pre c"
  shows "critical_inv br (pre @ [n]) (critical_step (graph_of env (br_phases br)) n c)"
proof -
  have nn: "n \<in> set (names rs)" and npre: "n \<notin> set pre" and pre: "set pre \<subseteq> set (names rs)"
    using plan_names_facts(1,2) [OF ok] unfolding ns by auto
  obtain x where x: "findNode (graph_of env (br_phases br)) n = Some x"
    and deps: "\<And>d. d \<in> set (names rs) \<Longrightarrow> d \<in> fst ` set (gn_dependencies x) \<longleftrightarrow> d \<in> phase_deps br n"
    using findNode_facts [OF ok nn] by blast
  have longest: "\<And>m. map_of (cp_longest c) m = (if m \<in> set pre then Some (phase_of br m) else None)"
    using inv by (simp add: critical_inv_def)
  obtain l p where b: "best_dependency (cp_longest c) (gn_dependencies x) = (l, p)" by fastforce
  have "\<forall>d k. map_of (cp_longest c) d = Some k \<longrightarrow> 1 \<le> k"
    using phase_positive [OF ok] pre unfolding longest by (auto split: if_splits)
  note best_dependency_facts [OF this, of "gn_dependencies x", unfolded b prod.case]
  then
  have l1: "1 \<le> l" and below: "\<And>d. d \<in> fst ` set (gn_dependencies x) \<Longrightarrow> d \<in> set pre \<Longrightarrow> phase_of br d < l"
    and best: "if l = 1 then p = [] else p \<in> fst ` set (gn_dependencies x) \<and> p \<in> set pre \<and> phase_of br p = l - 1"
    by (auto simp: longest split: if_splits)
  have lp: "l = phase_of br n"
  proof (rule antisym)
    show "l \<le> phase_of br n"
    proof (cases "l = 1")
      case True
      then show ?thesis using phase_positive [OF ok nn] by simp
    next
      case False
      with best have p: "p \<in> fst ` set (gn_dependencies x)" "p \<in> set pre" "phase_of br p = l - 1" by simp_all
      then have "p \<in> phase_deps br n" using deps pre by blast
      from dependency_phase_before [OF ok this] p(3) show ?thesis by linarith
    qed
    show "phase_of br n \<le> l"
    proof (cases "phase_of br n \<le> 1")
      case False
      then obtain k where "phase_of br n = Suc (Suc k)" by (metis One_nat_def Suc_leI gr0_implies_Suc le_SucI less_eq_Suc_le not_less_eq_eq old.nat.exhaust zero_le)
      from phase_predecessor [OF ok nn this] obtain d where d: "d \<in> phase_deps br n" "phase_of br d = Suc k" by blast
      have "d \<in> set pre" by (rule earlier_in_plan [OF ok ns d(1)])
      with d below [of d] deps [of d] pre \<open>phase_of br n = Suc (Suc k)\<close> show ?thesis by auto
    qed (use l1 in simp)
  qed
  have par: "if l = 1 then p = [] else p \<noteq> [] \<and> p \<in> phase_deps br n \<and> Suc (phase_of br p) = phase_of br n"
  proof (cases "l = 1")
    case False
    with best have p: "p \<in> fst ` set (gn_dependencies x)" "p \<in> set pre" "phase_of br p = l - 1" by simp_all
    then have "p \<in> phase_deps br n" "p \<noteq> []" using deps pre ne by auto
    with False p(3) lp l1 show ?thesis by simp
  qed (use best in simp)
  let ?c = "c\<lparr>cp_longest := map_put n l (cp_longest c), cp_parent := (if p \<noteq> [] then map_put n p (cp_parent c) else cp_parent c)\<rparr>"
  have step: "critical_step (graph_of env (br_phases br)) n c = (if l > cp_len c then ?c\<lparr>cp_len := l, cp_node := n\<rparr> else ?c)"
    by (simp add: critical_step_def x b Let_def)
  have parents: "\<And>m. case map_of (cp_parent c) m of None \<Rightarrow> m \<in> set pre \<longrightarrow> phase_of br m = 1
       | Some p \<Rightarrow> m \<in> set pre \<and> p \<in> phase_deps br m \<and> Suc (phase_of br p) = phase_of br m"
    using inv by (simp add: critical_inv_def)
  have noparent: "map_of (cp_parent c) n = None" using parents [of n] npre by (auto split: option.splits)
  have "\<forall>m. case map_of (cp_parent ?c) m of
         None \<Rightarrow> m \<in> set (pre @ [n]) \<longrightarrow> phase_of br m = 1
       | Some p \<Rightarrow> m \<in> set (pre @ [n]) \<and> p \<in> phase_deps br m \<and> Suc (phase_of br p) = phase_of br m"
  proof
    fix m
    show "case map_of (cp_parent ?c) m of
         None \<Rightarrow> m \<in> set (pre @ [n]) \<longrightarrow> phase_of br m = 1
       | Some p \<Rightarrow> m \<in> set (pre @ [n]) \<and> p \<in> phase_deps br m \<and> Suc (phase_of br p) = phase_of br m"
      using parents [of m] par lp noparent by (cases "m = n"; cases "l = 1") (auto split: option.splits)
  qed
  moreover have "\<forall>m. map_of (cp_longest ?c) m = (if m \<in> set (pre @ [n]) then Some (phase_of br m) else None)"
    using longest lp by simp
  ultimately have maps: "(\<forall>m. map_of (cp_longest ?c) m = (if m \<in> set (pre @ [n]) then Some (phase_of br m) else None)) \<and>
      (\<forall>m. case map_of (cp_parent ?c) m of
         None \<Rightarrow> m \<in> set (pre @ [n]) \<longrightarrow> phase_of br m = 1
       | Some p \<Rightarrow> m \<in> set (pre @ [n]) \<and> p \<in> phase_deps br m \<and> Suc (phase_of br p) = phase_of br m)" by blast
  have le: "\<forall>m \<in> set pre. phase_of br m \<le> cp_len c"
    and node: "if pre = [] then cp_len c = 0 else cp_node c \<in> set pre \<and> phase_of br (cp_node c) = cp_len c"
    using inv by (simp_all add: critical_inv_def)
  show ?thesis
  proof (cases "l > cp_len c")
    case True
    have "\<forall>m \<in> set (pre @ [n]). phase_of br m \<le> l" using le True lp by auto
    with maps lp True show ?thesis unfolding step critical_inv_def by simp
  next
    case False
    then have "pre \<noteq> []" using node l1 by auto
    moreover have "\<forall>m \<in> set (pre @ [n]). phase_of br m \<le> cp_len c" using le False lp by auto
    ultimately show ?thesis using maps node False unfolding step critical_inv_def by simp
  qed
qed

lemma critical_fold_inv:
  assumes ok: "BuildPhasesWithCalls pick env rs = Inr br" and ne: "[] \<notin> set (names rs)"
  shows "plan_names br = pre @ post \<Longrightarrow> critical_inv br pre c \<Longrightarrow>
    critical_inv br (plan_names br) (fold (critical_step (graph_of env (br_phases br))) post c)"
proof (induction post arbitrary: pre c)
  case (Cons n post)
  from critical_step_inv [OF ok Cons.prems(1) ne Cons.prems(2)]
  show ?case using Cons.IH [of "pre @ [n]"] Cons.prems(1) by simp
qed simp

lemma path_back_facts:
  assumes inv: "critical_inv br (plan_names br) c" and ok: "BuildPhasesWithCalls pick env rs = Inr br"
    and ne: "[] \<notin> set (names rs)"
  shows "n \<in> set (names rs) \<Longrightarrow> phase_of br n \<le> k \<Longrightarrow>
    length (path_back (Suc k) (cp_parent c) n) = phase_of br n \<and>
    successively (\<lambda>x y. y \<in> phase_deps br x) (path_back (Suc k) (cp_parent c) n) \<and>
    set (path_back (Suc k) (cp_parent c) n) \<subseteq> set (names rs)"
proof (induction k arbitrary: n)
  case 0
  with phase_positive [OF ok 0(1)] show ?case by simp
next
  case (Suc k)
  have nn: "n \<noteq> []" using Suc.prems(1) ne by auto
  have pn: "case map_of (cp_parent c) n of None \<Rightarrow> phase_of br n = 1
       | Some p \<Rightarrow> p \<in> phase_deps br n \<and> Suc (phase_of br p) = phase_of br n"
    using inv Suc.prems(1) plan_names_facts(2) [OF ok] by (auto simp: critical_inv_def split: option.splits)
  show ?case
  proof (cases "map_of (cp_parent c) n")
    case None
    with pn nn Suc.prems(1) show ?thesis by (simp add: map_get_def)
  next
    case (Some p)
    with pn have p: "p \<in> phase_deps br n" "Suc (phase_of br p) = phase_of br n" by simp_all
    have pnames: "p \<in> set (names rs)" using BuildPhases_Inr(6) [OF ok p(1)] by simp
    have g: "map_get [] (cp_parent c) n = p" using Some by (simp add: map_get_def)
    have "phase_of br p \<le> k" using p(2) Suc.prems(2) by simp
    note ih = Suc.IH [OF pnames this]
    obtain ys where ys: "path_back (Suc k) (cp_parent c) p = p # ys"
      using pnames ne by (cases "p = []") auto
    have e: "path_back (Suc (Suc k)) (cp_parent c) n = n # path_back (Suc k) (cp_parent c) p"
      using nn g by simp
    show ?thesis unfolding e using ih p Suc.prems(1) unfolding ys by simp
  qed
qed

lemma chain_length:
  assumes ok: "BuildPhasesWithCalls pick env rs = Inr br"
  shows "successively (\<lambda>x y. x \<in> phase_deps br y) xs \<Longrightarrow> set xs \<subseteq> set (names rs) \<Longrightarrow> xs \<noteq> [] \<Longrightarrow>
    length xs \<le> phase_of br (last xs)"
proof (induction xs rule: rev_induct)
  case (snoc x xs)
  show ?case
  proof (cases "xs = []")
    case True
    with snoc.prems phase_positive [OF ok, of x] show ?thesis by simp
  next
    case False
    with snoc.prems have s: "successively (\<lambda>x y. x \<in> phase_deps br y) xs" "last xs \<in> phase_deps br x"
      by (auto simp: successively_append_iff)
    have "length xs \<le> phase_of br (last xs)" using snoc.IH s(1) snoc.prems(2) False by simp
    moreover have "phase_of br (last xs) < phase_of br x" using dependency_phase_before [OF ok s(2)] by simp
    ultimately show ?thesis by simp
  qed
qed simp

lemma critical_path_facts:
  assumes ok: "BuildPhasesWithCalls pick env rs = Inr br" and ne: "[] \<notin> set (names rs)"
  defines "path \<equiv> computeCriticalPath (graph_of env (br_phases br))"
  shows "length path = length (br_phases br)" "successively (\<lambda>x y. x \<in> phase_deps br y) path"
    "set path \<subseteq> set (names rs)"
proof -
  let ?g = "graph_of env (br_phases br)"
  let ?c = "fold (\<lambda>ph. fold (critical_step ?g) (pi_resolvers ph)) (rg_phases ?g) critical_start"
  have cat: "concat (map pi_resolvers (rg_phases ?g)) = plan_names br"
    by (simp add: graph_of_def plan_names_def phase_names_def phase_info_of_def comp_def)
  have "fold (\<lambda>ph. fold (critical_step ?g) (pi_resolvers ph)) phs c = fold (critical_step ?g) (concat (map pi_resolvers phs)) c"
    for phs :: "phase_info list" and c by (induction phs arbitrary: c) simp_all
  then have c: "?c = fold (critical_step ?g) (plan_names br) critical_start" unfolding cat [symmetric] by blast
  have inv: "critical_inv br (plan_names br) ?c"
    unfolding c by (rule critical_fold_inv [OF ok ne, of "[]"]) (simp_all add: critical_inv_def critical_start_def)
  have nodes: "rg_nodes ?g = [] \<longleftrightarrow> plan_names br = []"
    using graph_of_names [of env "br_phases br"] by (metis map_is_Nil_conv plan_names_def)
  have "length path = length (br_phases br) \<and> successively (\<lambda>x y. x \<in> phase_deps br y) path \<and> set path \<subseteq> set (names rs)"
  proof (cases "br_phases br = []")
    case True
    then have "plan_names br = []" by (simp add: plan_names_def phase_names_def)
    with True nodes show ?thesis by (simp add: path_def computeCriticalPath_def)
  next
    case False
    let ?last = "length (br_phases br) - 1"
    have sched: "schedule_from (set (names rs)) (phase_deps br) {} (phase_names (br_phases br))"
      using BuildPhases_Inr(2) [OF ok] by (simp add: phase_schedule_def)
    have "schedule_from N D S ps \<Longrightarrow> \<forall>p \<in> set ps. p \<noteq> []" for N S ps and D :: "string \<Rightarrow> string set"
      by (induction ps arbitrary: S) auto
    from this [OF sched] have "phase_names (br_phases br) ! ?last \<noteq> []"
      using False by (simp add: phase_names_def)
    then obtain z where z: "z \<in> set (phase_names (br_phases br) ! ?last)" by (meson last_in_set)
    have "?last < length (br_phases br)" using False by (cases "br_phases br") auto
    from resolver_phase(2) [OF ok this z] have pz: "phase_of br z = length (br_phases br)" using False by simp
    have "z \<in> set (plan_names br)" using z False \<open>?last < _\<close> by (auto simp: plan_names_def phase_names_def)
    then have ne2: "plan_names br \<noteq> []" by auto
    with inv have b: "cp_node ?c \<in> set (plan_names br)" "phase_of br (cp_node ?c) = cp_len ?c" by (simp_all add: critical_inv_def)
    have bn: "cp_node ?c \<in> set (names rs)" using b(1) plan_names_facts(2) [OF ok] by simp
    have "length (br_phases br) \<le> cp_len ?c"
      using inv pz \<open>z \<in> set (plan_names br)\<close> by (auto simp: critical_inv_def)
    moreover have "cp_len ?c \<le> length (br_phases br)" using phase_positive [OF ok bn] b(2) by simp
    ultimately have len: "cp_len ?c = length (br_phases br)" by simp
    have p: "path = rev (path_back (Suc (cp_len ?c)) (cp_parent ?c) (cp_node ?c))"
      using ne2 nodes len False by (simp add: path_def computeCriticalPath_def Let_def)
    from path_back_facts [OF inv ok ne bn] b(2) have
      "length (path_back (Suc (cp_len ?c)) (cp_parent ?c) (cp_node ?c)) = cp_len ?c"
      "successively (\<lambda>x y. y \<in> phase_deps br x) (path_back (Suc (cp_len ?c)) (cp_parent ?c) (cp_node ?c))"
      "set (path_back (Suc (cp_len ?c)) (cp_parent ?c) (cp_node ?c)) \<subseteq> set (names rs)" by simp_all
    then show ?thesis unfolding p using len by (simp add: successively_rev)
  qed
  then show "length path = length (br_phases br)" "successively (\<lambda>x y. x \<in> phase_deps br y) path"
    "set path \<subseteq> set (names rs)" by blast+
qed

section \<open>Properties\<close>

text \<open>C40: The critical path of a dependency graph is a longest chain of dependencies: it has one resolver for every
  phase of the plan, each a dependency of the next, and no chain of dependencies is longer.\<close>

theorem critical_path_is_longest:
  assumes "BuildGraph pick env rs = Inr (g, st)" "BuildPhasesWithCalls pick env rs = Inr br" "[] \<notin> set (names rs)"
  shows "gs_criticalDepth st = gs_totalPhases st \<and> length (gs_criticalPath st) = gs_criticalDepth st \<and>
    gs_totalPhases st = length (br_phases br) \<and>
    successively (\<lambda>d n. d \<in> phase_deps br n) (gs_criticalPath st) \<and>
    (\<forall>xs. successively (\<lambda>d n. d \<in> phase_deps br n) xs \<and> set xs \<subseteq> set (names rs) \<longrightarrow> length xs \<le> gs_criticalDepth st)"
proof -
  have st: "st = calculateGraphStats (graph_of env (br_phases br))"
    using assms(1,2) by (auto simp: BuildGraph_def Let_def)
  note f = critical_path_facts [OF assms(2,3)]
  have chain: "length xs \<le> length (br_phases br)"
    if "successively (\<lambda>d n. d \<in> phase_deps br n) xs" "set xs \<subseteq> set (names rs)" for xs
  proof (cases "xs = []")
    case False
    then have "last xs \<in> set (names rs)" using that(2) by auto
    with chain_length [OF assms(2) that False] phase_positive [OF assms(2)] show ?thesis by fastforce
  qed simp
  have "length (rg_phases (graph_of env (br_phases br))) = length (br_phases br)" by (simp add: graph_of_def)
  with f chain show ?thesis unfolding st calculateGraphStats_def Let_def by simp
qed

definition chain_resolvers :: "resolver list" where
  "chain_resolvers = [sample_resolver ''c'' [] (RefResolver ''b''), sample_resolver ''d'' [] (RefResolver ''a''),
     sample_resolver ''b'' [] (RefResolver ''a''), sample_resolver ''a'' [] (RefLiteral (VInt 1))]"

theorem critical_path_is_longest_witness:
  "\<exists>g st. BuildGraph (\<lambda>_. 0) sample_deps_env chain_resolvers = Inr (g, st) \<and>
     gs_criticalPath st = [''a'', ''b'', ''c''] \<and> gs_totalPhases st = 3 \<and> gs_criticalDepth st = 3"
proof -
  let ?G = "BuildGraph (\<lambda>_. 0) sample_deps_env chain_resolvers"
  let ?B = "BuildPhasesWithCalls (\<lambda>_. 0) sample_deps_env chain_resolvers"
  have e: "\<not> isl ?G" "\<not> isl ?B" "gs_criticalPath (snd (projr ?G)) = [''a'', ''b'', ''c'']" by code_simp+
  have g: "?G = Inr (fst (projr ?G), snd (projr ?G))" using Inr_projr [OF e(1)] by simp
  have n: "[] \<notin> set (names chain_resolvers)" by code_simp
  from critical_path_is_longest [OF g Inr_projr [OF e(2)] n] e(3)
  have "gs_criticalDepth (snd (projr ?G)) = 3" "gs_totalPhases (snd (projr ?G)) = 3" by simp_all
  with g e(3) show ?thesis by blast
qed

text \<open>A resolver counts as a transitive dependency of another exactly when it is reached over one or more
  \<open>dependsOn\<close> entries, on every graph, cyclic ones included.\<close>

theorem transitive_dependency_spec:
  "IsTransitiveDependency rm t c = ((t, c) \<in> (depends_on rm)\<^sup>+)"
  by (rule transitive_dependency_iff)

end
