(* ===== verification/Dag_Results.thy ===== *)
theory Dag_Results
  imports Dag_Sched "HOL-Library.Word" "HOL-Library.Signed_Division"
begin

text \<open>
  Package \<open>pkg/dag\<close>, third part: the ancestors of a node, the comparison of nodes, the child-to-parents map
  and the reports over the results of a run.  Durations are 64 bit words, an error is its message.
\<close>

section \<open>Ancestors\<close>

text \<open>The recursion as a walk: \<open>pending\<close> are the predecessors still to be looked at, in the order of the calls.\<close>

function prev_walk :: "graph \<Rightarrow> string list \<Rightarrow> string list \<Rightarrow> string list" where
  "prev_walk g [] ks = ks"
| "prev_walk g (p # ps) ks =
     (if p \<in> set ks then prev_walk g ps ks else prev_walk g (prevs g p @ ps) (ks @ [p]))"
  by pat_completeness auto
termination
proof (relation "measures [\<lambda>(g, ps, ks). card (set (map_keys (g_nodes g)) - set ks), \<lambda>(g, ps, ks). length ps]", goal_cases)
  case (3 g p ps ks)
  show ?case
  proof (cases "p \<in> set (map_keys (g_nodes g))")
    case True
    with 3 have "p \<in> set (map_keys (g_nodes g)) - set ks" by simp
    moreover have "set (map_keys (g_nodes g)) - set (ks @ [p]) = (set (map_keys (g_nodes g)) - set ks) - {p}" by auto
    ultimately have "card (set (map_keys (g_nodes g)) - set (ks @ [p])) < card (set (map_keys (g_nodes g)) - set ks)"
      by (metis List.finite_set card_Diff1_less finite_Diff)
    then show ?thesis by simp
  next
    case False
    then have "prevs g p = []" by (simp add: prevs_def node_at_def map_get_absent map_has_iff_keys no_node_def)
    moreover have "set (map_keys (g_nodes g)) - set (ks @ [p]) = set (map_keys (g_nodes g)) - set ks" using False by auto
    ultimately show ?thesis by simp
  qed
qed simp_all

definition GetAllPrevKeys :: "graph \<Rightarrow> string \<Rightarrow> string list" where
  "GetAllPrevKeys g n = sort (prev_walk g (prevs g n) [])"

definition prev_edges :: "graph \<Rightarrow> (string \<times> string) set" where
  "prev_edges g = {(n, p). p \<in> set (prevs g n)}"

lemma Image_rtrancl_subset:
  fixes R :: "('a \<times> 'a) set"
  assumes "A \<subseteq> R\<^sup>* `` B"
  shows "R\<^sup>* `` A \<subseteq> R\<^sup>* `` B"
proof
  fix y assume "y \<in> R\<^sup>* `` A"
  then obtain x where "x \<in> A" "(x, y) \<in> R\<^sup>*" by blast
  with assms obtain z where "z \<in> B" "(z, x) \<in> R\<^sup>*" by blast
  with \<open>(x, y) \<in> R\<^sup>*\<close> show "y \<in> R\<^sup>* `` B" by (meson ImageI rtrancl_trans)
qed

lemma prev_walk_distinct: "distinct ks \<Longrightarrow> distinct (prev_walk g ps ks)"
  by (induction g ps ks rule: prev_walk.induct) auto

lemma prev_walk_set:
  "prev_edges g `` set ks \<subseteq> set ks \<union> set ps \<Longrightarrow> set (prev_walk g ps ks) = (prev_edges g)\<^sup>* `` (set ks \<union> set ps)"
proof (induction g ps ks rule: prev_walk.induct)
  case (1 g ks)
  then show ?case using Image_closed_trancl [of "prev_edges g" "set ks"] by simp
next
  case (2 g p ps ks)
  show ?case
  proof (cases "p \<in> set ks")
    case True
    with 2(1,3) have "set (prev_walk g ps ks) = (prev_edges g)\<^sup>* `` (set ks \<union> set ps)" by (simp add: insert_absorb)
    with True show ?thesis by (simp add: insert_absorb)
  next
    case False
    have "prev_edges g `` set (ks @ [p]) \<subseteq> set (ks @ [p]) \<union> set (prevs g p @ ps)"
      using 2(3) by (auto simp: prev_edges_def)
    from 2(2) [OF False this]
    have "set (prev_walk g (p # ps) ks) = (prev_edges g)\<^sup>* `` (set (ks @ [p]) \<union> set (prevs g p @ ps))"
      using False by simp
    also have "\<dots> = (prev_edges g)\<^sup>* `` (set ks \<union> set (p # ps))"
    proof
      have "set (prevs g p) \<subseteq> (prev_edges g)\<^sup>* `` {p}" by (auto simp: prev_edges_def)
      then have "set (ks @ [p]) \<union> set (prevs g p @ ps) \<subseteq> (prev_edges g)\<^sup>* `` (set ks \<union> set (p # ps))" by auto
      then show "(prev_edges g)\<^sup>* `` (set (ks @ [p]) \<union> set (prevs g p @ ps)) \<subseteq> (prev_edges g)\<^sup>* `` (set ks \<union> set (p # ps))"
        by (rule Image_rtrancl_subset)
      show "(prev_edges g)\<^sup>* `` (set ks \<union> set (p # ps)) \<subseteq> (prev_edges g)\<^sup>* `` (set (ks @ [p]) \<union> set (prevs g p @ ps))"
        by (rule Image_mono) auto
    qed
    finally show ?thesis .
  qed
qed

lemma GetAllPrevKeys_facts:
  "set (GetAllPrevKeys g n) = (prev_edges g)\<^sup>+ `` {n}" "sorted (GetAllPrevKeys g n)" "distinct (GetAllPrevKeys g n)"
proof -
  have "set (GetAllPrevKeys g n) = (prev_edges g)\<^sup>* `` set (prevs g n)"
    using prev_walk_set [of g "[]" "prevs g n"] by (simp add: GetAllPrevKeys_def)
  also have "set (prevs g n) = prev_edges g `` {n}" by (auto simp: prev_edges_def)
  finally show "set (GetAllPrevKeys g n) = (prev_edges g)\<^sup>+ `` {n}"
    by (auto dest: tranclD intro: rtrancl_into_trancl2)
  show "sorted (GetAllPrevKeys g n)" "distinct (GetAllPrevKeys g n)"
    by (simp_all add: GetAllPrevKeys_def prev_walk_distinct)
qed

definition node_Compare :: "node \<Rightarrow> node \<Rightarrow> bool" where
  "node_Compare a b =
     (if n_key a \<noteq> n_key b then False
      else if length (n_prev a) \<noteq> length (n_prev b) \<or> length (n_next a) \<noteq> length (n_next b) then False
      else list_all2 (=) (n_prev a) (n_prev b) \<and> list_all2 (=) (n_next a) (n_next b))"

record child_to_parents =
  ch_child :: string
  ch_parents :: "string list"

definition ensure_child :: "string \<Rightarrow> child_to_parents gomap \<Rightarrow> child_to_parents gomap" where
  "ensure_child k m = (if map_has m k then m else map_put k \<lparr>ch_child = k, ch_parents = []\<rparr> m)"

text \<open>The nodes are visited in the order of the list.\<close>

definition BuildChildToParentsMap :: "node gomap \<Rightarrow> child_to_parents gomap" where
  "BuildChildToParentsMap nodes =
     fold (\<lambda>(_, n) m.
       let m = fold ensure_child (n_prev n) (ensure_child (n_key n) m);
           old = map_get \<lparr>ch_child = [], ch_parents = []\<rparr> m (n_key n)
       in map_put (n_key n) (old\<lparr>ch_parents := n_prev n\<rparr>) m) nodes []"

section \<open>Reports\<close>

record object_execution =
  ox_name :: string
  ox_type :: string
  ox_position :: int
  ox_totalTime :: "64 word"
  ox_error :: "string option"
  ox_phase :: int
  ox_wasExecuted :: bool

record runner_results =
  rr_totalTime :: "64 word"
  rr_order :: "object_execution list"

record analysis_item =
  ai_name :: string
  ai_position :: int
  ai_totalTime :: "64 word"
  ai_error :: "string option"
  ai_phase :: int
  ai_timeConsuming :: bool
  ai_source :: string

record analysis =
  an_totalTime :: "64 word"
  an_all :: "analysis_item list"
  an_failed :: "analysis_item list"
  an_timeConsuming :: "analysis_item list"

definition duration_Milliseconds :: "64 word \<Rightarrow> 64 word" where
  "duration_Milliseconds d = word_of_int (sint d sdiv 1000000)"

definition analysis_step :: "string \<Rightarrow> 64 word \<Rightarrow> object_execution \<Rightarrow> analysis \<Rightarrow> analysis" where
  "analysis_step src limit x a =
     (let item = \<lparr>ai_name = ox_name x, ai_position = ox_position x, ai_totalTime = duration_Milliseconds (ox_totalTime x),
                  ai_error = ox_error x, ai_phase = ox_phase x, ai_timeConsuming = (limit <s ox_totalTime x), ai_source = src\<rparr>;
          a = a\<lparr>an_all := an_all a @ [item]\<rparr>;
          a = (if ox_error x \<noteq> None then a\<lparr>an_failed := an_failed a @ [item]\<rparr> else a)
      in if limit <s ox_totalTime x then a\<lparr>an_timeConsuming := an_timeConsuming a @ [item]\<rparr> else a)"

definition ToAnalysis :: "runner_results \<Rightarrow> string \<Rightarrow> 64 word \<Rightarrow> analysis" where
  "ToAnalysis r src thr =
     fold (analysis_step src (thr * 1000000)) (rr_order r)
       \<lparr>an_totalTime = duration_Milliseconds (rr_totalTime r), an_all = [], an_failed = [], an_timeConsuming = []\<rparr>"

definition HasAnError :: "runner_results \<Rightarrow> bool" where
  "HasAnError r = list_ex (\<lambda>x. ox_error x \<noteq> None) (rr_order r)"

definition GetPhaseMap :: "runner_results \<Rightarrow> (int \<times> object_execution list) list" where
  "GetPhaseMap r = fold (\<lambda>x m. map_put (ox_phase x) (map_get [] m (ox_phase x) @ [x]) m) (rr_order r) []"

text \<open>A tree node; its children are the names of nodes of the same store.\<close>

record dependency_node =
  dn_name :: string
  dn_children :: "string list"
  dn_totalTime :: "64 word"
  dn_phase :: int

definition link_child :: "string \<Rightarrow> string list \<Rightarrow> dependency_node gomap \<Rightarrow> dependency_node gomap" where
  "link_child child ps m =
     (if \<not> map_has m child then m
      else fold (\<lambda>p m. case map_of m p of
             None \<Rightarrow> m
           | Some n \<Rightarrow> map_put p (n\<lparr>dn_children := set_insert child (dn_children n)\<rparr>) m) ps m)"

text \<open>The roots and the store of nodes they point into.\<close>

definition BuildDependencyTree ::
  "runner_results \<Rightarrow> (int \<times> object_execution list) list \<Rightarrow> child_to_parents gomap \<Rightarrow>
   dependency_node list \<times> dependency_node gomap" where
  "BuildDependencyTree r phases parents =
     (let m = fold (\<lambda>x m. map_put (ox_name x)
                \<lparr>dn_name = ox_name x, dn_children = [], dn_totalTime = ox_totalTime x, dn_phase = ox_phase x\<rparr> m) (rr_order r) [];
          m = fold (\<lambda>(child, cp). link_child child (ch_parents cp)) parents m
      in (List.map_filter (\<lambda>x. map_of m (ox_name x)) (map_get [] phases 1), m))"

lemma analysis_fold:
  fixes src :: string and limit :: "64 word" and xs :: "object_execution list" and a :: analysis
  assumes "an_failed a = filter (\<lambda>i. ai_error i \<noteq> None) (an_all a)" "an_timeConsuming a = filter ai_timeConsuming (an_all a)"
  defines "b \<equiv> fold (analysis_step src limit) xs a"
  shows "an_failed b = filter (\<lambda>i. ai_error i \<noteq> None) (an_all b) \<and> an_timeConsuming b = filter ai_timeConsuming (an_all b) \<and>
     map (\<lambda>i. (ai_name i, ai_error i)) (an_all b) = map (\<lambda>i. (ai_name i, ai_error i)) (an_all a) @ map (\<lambda>x. (ox_name x, ox_error x)) xs"
  using assms(1,2) unfolding b_def
proof (induction xs arbitrary: a)
  case (Cons x xs)
  have "an_failed (analysis_step src limit x a) = filter (\<lambda>i. ai_error i \<noteq> None) (an_all (analysis_step src limit x a))"
    "an_timeConsuming (analysis_step src limit x a) = filter ai_timeConsuming (an_all (analysis_step src limit x a))"
    "map (\<lambda>i. (ai_name i, ai_error i)) (an_all (analysis_step src limit x a)) =
       map (\<lambda>i. (ai_name i, ai_error i)) (an_all a) @ [(ox_name x, ox_error x)]"
    using Cons.prems by (simp_all add: analysis_step_def Let_def)
  with Cons.IH [of "analysis_step src limit x a"] show ?case by simp
qed simp

lemma ToAnalysis_facts:
  "an_failed (ToAnalysis r src thr) = filter (\<lambda>i. ai_error i \<noteq> None) (an_all (ToAnalysis r src thr)) \<and>
   an_timeConsuming (ToAnalysis r src thr) = filter ai_timeConsuming (an_all (ToAnalysis r src thr)) \<and>
   map (\<lambda>i. (ai_name i, ai_error i)) (an_all (ToAnalysis r src thr)) = map (\<lambda>x. (ox_name x, ox_error x)) (rr_order r)"
  using analysis_fold [of "\<lparr>an_totalTime = duration_Milliseconds (rr_totalTime r), an_all = [], an_failed = [], an_timeConsuming = []\<rparr>"
      src "thr * 1000000" "rr_order r"]
  by (simp add: ToAnalysis_def)

lemma HasAnError_analysis: "HasAnError r \<longleftrightarrow> an_failed (ToAnalysis r src thr) \<noteq> []"
proof -
  note f = ToAnalysis_facts [of r src thr]
  have "map ai_error (an_all (ToAnalysis r src thr)) = map ox_error (rr_order r)"
    using arg_cong [OF f [THEN conjunct2, THEN conjunct2], of "map snd"] by (simp only: map_map comp_def snd_conv)
  then have "ai_error ` set (an_all (ToAnalysis r src thr)) = ox_error ` set (rr_order r)"
    by (metis list.set_map)
  moreover have "an_failed (ToAnalysis r src thr) \<noteq> [] \<longleftrightarrow> (\<exists>e \<in> ai_error ` set (an_all (ToAnalysis r src thr)). e \<noteq> None)"
    unfolding f [THEN conjunct1] filter_empty_conv by blast
  ultimately show ?thesis by (auto simp: HasAnError_def list_ex_iff)
qed

lemma GetPhaseMap_of:
  "map_get [] (GetPhaseMap r) p = filter (\<lambda>x. ox_phase x = p) (rr_order r)"
proof -
  have "map_get [] (fold (\<lambda>x m. map_put (ox_phase x) (map_get [] m (ox_phase x) @ [x]) m) xs m) p =
     map_get [] m p @ filter (\<lambda>x. ox_phase x = p) xs" for xs and m :: "(int \<times> object_execution list) list"
    by (induction xs arbitrary: m) auto
  then show ?thesis by (simp add: GetPhaseMap_def)
qed

section \<open>Properties\<close>

text \<open>In a graph that Build returned, the ancestors of a node are listed once each and in order, and they are
  exactly the objects it depends on directly or through others.\<close>

theorem ancestors_of_node:
  assumes "distinct (map_keys deps)" "Build pick objs deps = Inr g"
  shows "set (GetAllPrevKeys g n) = (dep_edges deps)\<^sup>+ `` {n} \<and> sorted (GetAllPrevKeys g n) \<and>
    distinct (GetAllPrevKeys g n) \<and> n \<notin> set (GetAllPrevKeys g n)"
proof -
  have "prev_edges g = dep_edges deps"
    using Build_Inr(4) [OF assms] by (auto simp: prev_edges_def dep_edges_def)
  moreover have "(n, n) \<notin> (dep_edges deps)\<^sup>+" using Build_Inr(2) [OF assms] by (simp add: acyclic_def)
  ultimately show ?thesis using GetAllPrevKeys_facts [of g n] by auto
qed

theorem ancestors_of_node_witness:
  "\<exists>g. Build (\<lambda>_. 0) [''a'', ''b'', ''c''] [(''c'', [''b'']), (''b'', [''a''])] = Inr g \<and>
     GetAllPrevKeys g ''c'' = [''a'', ''b''] \<and> ''a'' \<in> (dep_edges [(''c'', [''b'']), (''b'', [''a''])])\<^sup>+ `` {''c''}"
proof -
  let ?deps = "[(''c'', [''b'']), (''b'', [''a''])]"
  let ?B = "Build (\<lambda>_. 0) [''a'', ''b'', ''c''] ?deps"
  have e: "\<not> isl ?B" "GetAllPrevKeys (projr ?B) ''c'' = [''a'', ''b'']" by code_simp+
  have "distinct (map_keys ?deps)" by simp
  note anc = ancestors_of_node [OF this Inr_projr [OF e(1)], of "''c''", THEN conjunct1]
  have "''a'' \<in> (dep_edges ?deps)\<^sup>+ `` {''c''}" unfolding anc [symmetric] e(2) by simp
  then show ?thesis using Inr_projr [OF e(1)] e(2) by blast
qed

text \<open>The analysis of a run lists every execution in order, the failed ones and the slow ones are exactly those
  marked so, and there are failed ones exactly when the run has an error; the executions of a phase keep their
  order.\<close>

theorem analysis_of_run:
  "an_failed (ToAnalysis r src thr) = filter (\<lambda>i. ai_error i \<noteq> None) (an_all (ToAnalysis r src thr)) \<and>
   an_timeConsuming (ToAnalysis r src thr) = filter ai_timeConsuming (an_all (ToAnalysis r src thr)) \<and>
   map ai_name (an_all (ToAnalysis r src thr)) = map ox_name (rr_order r) \<and>
   (HasAnError r = (an_failed (ToAnalysis r src thr) \<noteq> [])) \<and>
   map_get [] (GetPhaseMap r) p = filter (\<lambda>x. ox_phase x = p) (rr_order r)"
proof -
  note f = ToAnalysis_facts [of r src thr]
  have "map ai_name (an_all (ToAnalysis r src thr)) = map ox_name (rr_order r)"
    using arg_cong [OF f [THEN conjunct2, THEN conjunct2], of "map fst"] by (simp only: map_map comp_def fst_conv)
  with f show ?thesis using HasAnError_analysis [of r src thr] GetPhaseMap_of [of r p] by blast
qed

end
