(* ===== verification/Test_Types.thy ===== *)
theory Test_Types
  imports Resolver_Types Go_Strings "HOL-Library.Word"
begin

text \<open>
  \<open>pkg/solution/soltesting/types.go\<close> and \<open>assertions.go\<close>: the data of functional tests, their validation
  and the evaluation of assertions.  Parameters: the regular expression engine and the CEL engine.  A text
  that the code formats is a constructor that carries what it is made of.
\<close>

section \<open>Test cases\<close>

record skip_value =
  sk_static :: bool
  sk_expression :: string

definition skip_IsZero :: "skip_value \<Rightarrow> bool" where
  "skip_IsZero s = (\<not> sk_static s \<and> sk_expression s = [])"

definition skip_HasExpression :: "skip_value \<Rightarrow> bool" where
  "skip_HasExpression s = (sk_expression s \<noteq> [])"

definition skip_String :: "skip_value \<Rightarrow> string" where
  "skip_String s = (if sk_expression s \<noteq> [] then sk_expression s else if sk_static s then ''true'' else ''false'')"

record skip_builtins =
  sb_all :: bool
  sb_names :: "string list"

definition builtins_IsSkipped :: "skip_builtins \<Rightarrow> bool" where
  "builtins_IsSkipped s = (sb_all s \<or> sb_names s \<noteq> [])"

record mock_route =
  mr_path :: string
  mr_method :: string
  mr_bodyContains :: string
  mr_status :: int
  mr_body :: string
  mr_headers :: "string gomap"
  mr_delay :: string
  mr_echo :: bool

record exec_rule =
  xr_command :: string
  xr_pattern :: string
  xr_stdout :: string
  xr_stderr :: string
  xr_exitCode :: int

record service_config =
  sv_name :: string
  sv_type :: string
  sv_portEnv :: string
  sv_baseUrlEnv :: string
  sv_routes :: "mock_route list"
  sv_execRules :: "exec_rule list"
  sv_passthrough :: bool

record init_step =
  ip_command :: string
  ip_args :: "string list"
  ip_stdin :: string
  ip_workingDir :: string
  ip_env :: "string gomap"
  ip_timeout :: int
  ip_shell :: string

record assertion =
  as_expression :: string
  as_regex :: string
  as_contains :: string
  as_notRegex :: string
  as_notContains :: string
  as_target :: string
  as_message :: string

record snapshot_mask =
  mk_use :: string
  mk_name :: string
  mk_pattern :: string
  mk_placeholder :: string
  mk_path :: string
  mk_disabled :: bool

record test_case =
  tc_name :: string
  tc_description :: string
  tc_command :: "string list"
  tc_args :: "string list"
  tc_extends :: "string list"
  tc_tags :: "string list"
  tc_env :: "string gomap"
  tc_files :: "string list"
  tc_init :: "init_step list"
  tc_cleanup :: "init_step list"
  tc_assertions :: "assertion list"
  tc_snapshot :: string
  tc_snapshotSource :: string
  tc_masks :: "snapshot_mask list"
  tc_injectFile :: "bool option"
  tc_expectFailure :: bool
  tc_exitCode :: "int option"
  tc_timeout :: "64 word option"
  tc_skip :: skip_value
  tc_skipReason :: string
  tc_retries :: int
  tc_baseDir :: string
  tc_inputs :: "string gomap"
  tc_mocks :: "gval gomap"
  tc_services :: "service_config list"

text \<open>The composite literal \<open>&TestCase{Name: n}\<close>.\<close>

definition empty_test :: "string \<Rightarrow> test_case" where
  "empty_test n =
     \<lparr>tc_name = n, tc_description = [], tc_command = [], tc_args = [], tc_extends = [], tc_tags = [],
      tc_env = [], tc_files = [], tc_init = [], tc_cleanup = [], tc_assertions = [], tc_snapshot = [],
      tc_snapshotSource = [], tc_masks = [], tc_injectFile = None, tc_expectFailure = False, tc_exitCode = None,
      tc_timeout = None, tc_skip = \<lparr>sk_static = False, sk_expression = []\<rparr>, tc_skipReason = [], tc_retries = 0,
      tc_baseDir = [], tc_inputs = [], tc_mocks = [], tc_services = []\<rparr>"

record test_config =
  tg_skipBuiltins :: skip_builtins
  tg_env :: "string gomap"
  tg_setup :: "init_step list"
  tg_cleanup :: "init_step list"
  tg_files :: "string list"
  tg_services :: "service_config list"

definition IsTemplate :: "test_case \<Rightarrow> bool" where
  "IsTemplate t = strings_HasPrefix (tc_name t) ''_''"

definition GetInjectFile :: "test_case \<Rightarrow> bool" where
  "GetInjectFile t = (case tc_injectFile t of None \<Rightarrow> True | Some b \<Rightarrow> b)"

section \<open>Validation\<close>

record test_env =
  te_regex :: "string \<Rightarrow> bool"
  te_find :: "string \<Rightarrow> string \<Rightarrow> string option"
  te_cel :: "string \<Rightarrow> gval gomap \<Rightarrow> string + gval"

datatype test_error =
    NameRequired
  | BadTemplateName string
  | BadTestName string
  | ExitCodeAndExpectFailure
  | CommandRequired
  | AssertionRequired
  | FileFlagInArgs
  | ResolverFlagInArgs
  | EmptyInputKey
  | RetriesOutOfRange
  | BaseDirAbsolute
  | BaseDirTraversal
  | TooManyAssertions nat
  | TooManyFiles nat
  | TooManyTags nat
  | TimeoutNotPositive
  | AssertionError nat test_error
  | BadSnapshotSource
  | FilesRequireSnapshot
  | MaskError nat test_error
  | PathNeedsFiles nat
  | NoAssertionKind
  | ManyAssertionKinds nat
  | BadTarget string
  | BadRegex string
  | PresetWithPattern
  | PresetWithPath
  | UnknownPreset string
  | DisabledWithoutPreset
  | PatternAndPlaceholder

definition MaxAssertionsPerTest :: nat where "MaxAssertionsPerTest = 100"
definition MaxFilesPerTest :: nat where "MaxFilesPerTest = 50"
definition MaxTagsPerTest :: nat where "MaxTagsPerTest = 20"
definition MaxExtendsDepth :: nat where "MaxExtendsDepth = 10"
definition MaxRetries :: int where "MaxRetries = 10"

definition name_char :: "char \<Rightarrow> bool" where
  "name_char c = (is_alnum c \<or> c = CHR ''_'' \<or> c = CHR ''-'')"

definition testNameRegex :: "string \<Rightarrow> bool" where
  "testNameRegex s = (case s of [] \<Rightarrow> False | c # cs \<Rightarrow> is_alnum c \<and> list_all name_char cs)"

definition templateNameRegex :: "string \<Rightarrow> bool" where
  "templateNameRegex s = (case s of [] \<Rightarrow> False | c # cs \<Rightarrow> c = CHR ''_'' \<and> testNameRegex cs)"

definition assertion_kinds :: "assertion \<Rightarrow> nat" where
  "assertion_kinds a =
     (if as_expression a \<noteq> [] then 1 else 0) + (if as_regex a \<noteq> [] then 1 else 0) +
     (if as_contains a \<noteq> [] then 1 else 0) + (if as_notRegex a \<noteq> [] then 1 else 0) +
     (if as_notContains a \<noteq> [] then 1 else 0)"

definition validTargets :: "string list" where
  "validTargets = ['''', ''stdout'', ''stderr'', ''combined'']"

definition assertion_Validate :: "test_env \<Rightarrow> assertion \<Rightarrow> test_error option" where
  "assertion_Validate env a =
     (if assertion_kinds a = 0 then Some NoAssertionKind
      else if assertion_kinds a > 1 then Some (ManyAssertionKinds (assertion_kinds a))
      else if as_target a \<notin> set validTargets then Some (BadTarget (as_target a))
      else if as_regex a \<noteq> [] \<and> \<not> te_regex env (as_regex a) then Some (BadRegex (as_regex a))
      else if as_notRegex a \<noteq> [] \<and> \<not> te_regex env (as_notRegex a) then Some (BadRegex (as_notRegex a))
      else None)"

text \<open>The presets with the flag of the built-in ones, in the order in which they are applied.\<close>

definition presetList :: "(string \<times> bool) list" where
  "presetList =
     [(''timestamp'', True), (''uuid'', True), (''sandbox'', True), (''email'', False), (''ipv4'', False), (''mac'', False)]"

definition IsKnownPreset :: "string \<Rightarrow> bool" where
  "IsKnownPreset n = list_ex (\<lambda>p. fst p = n) presetList"

definition mask_Validate :: "test_env \<Rightarrow> snapshot_mask \<Rightarrow> test_error option" where
  "mask_Validate env m =
     (if mk_use m \<noteq> [] then
        (if mk_pattern m \<noteq> [] \<or> mk_placeholder m \<noteq> [] then Some PresetWithPattern
         else if mk_path m \<noteq> [] then Some PresetWithPath
         else if \<not> IsKnownPreset (mk_use m) then Some (UnknownPreset (mk_use m))
         else None)
      else if mk_disabled m then Some DisabledWithoutPreset
      else if mk_pattern m = [] \<or> mk_placeholder m = [] then Some PatternAndPlaceholder
      else if \<not> te_regex env (mk_pattern m) then Some (BadRegex (mk_pattern m))
      else None)"

definition err_if :: "bool \<Rightarrow> test_error \<Rightarrow> test_error list" where
  "err_if b e = (if b then [e] else [])"

definition HasWindowsDrivePrefix :: "string \<Rightarrow> bool" where
  "HasWindowsDrivePrefix p = (case p of c # d # _ \<Rightarrow> d = CHR '':'' \<and> is_letter c | _ \<Rightarrow> False)"

definition resolver_flag :: "string \<Rightarrow> bool" where
  "resolver_flag a = (a = ''-r'' \<or> strings_HasPrefix a ''-r='' \<or> a = ''--resolver'' \<or> strings_HasPrefix a ''--resolver='')"

definition name_errors :: "test_case \<Rightarrow> test_error list" where
  "name_errors t =
     (if tc_name t = [] then [NameRequired]
      else if IsTemplate t then err_if (\<not> templateNameRegex (tc_name t)) (BadTemplateName (tc_name t))
      else err_if (\<not> testNameRegex (tc_name t)) (BadTestName (tc_name t)))"

definition required_errors :: "test_case \<Rightarrow> test_error list" where
  "required_errors t =
     (if \<not> IsTemplate t \<and> tc_extends t = []
      then err_if (tc_command t = []) CommandRequired @
           err_if (tc_assertions t = [] \<and> tc_snapshot t = []) AssertionRequired
      else [])"

definition args_errors :: "test_case \<Rightarrow> test_error list" where
  "args_errors t =
     err_if (list_ex (\<lambda>a. a = ''-f'' \<or> a = ''--file'') (tc_args t)) FileFlagInArgs @
     (if tc_inputs t \<noteq> []
      then err_if (list_ex resolver_flag (tc_args t)) ResolverFlagInArgs @ err_if (map_has (tc_inputs t) []) EmptyInputKey
      else [])"

text \<open>On a system whose separator is the slash; the first segment of the cleaned path decides.\<close>

definition baseDir_errors :: "string \<Rightarrow> test_error list" where
  "baseDir_errors p =
     (if p = [] then []
      else if strings_HasPrefix p ''/'' \<or> strings_HasPrefix p [CHR 0x5C] \<or> HasWindowsDrivePrefix p then [BaseDirAbsolute]
      else (case clean_segments p of s # _ \<Rightarrow> err_if (s = ''..'') BaseDirTraversal | [] \<Rightarrow> []))"

definition limit_errors :: "test_case \<Rightarrow> test_error list" where
  "limit_errors t =
     err_if (length (tc_assertions t) > MaxAssertionsPerTest) (TooManyAssertions (length (tc_assertions t))) @
     err_if (length (tc_files t) > MaxFilesPerTest) (TooManyFiles (length (tc_files t))) @
     err_if (length (tc_tags t) > MaxTagsPerTest) (TooManyTags (length (tc_tags t)))"

definition mask_errors :: "test_env \<Rightarrow> test_case \<Rightarrow> nat \<times> snapshot_mask \<Rightarrow> test_error list" where
  "mask_errors env t = (\<lambda>(i, m).
     (case mask_Validate env m of Some e \<Rightarrow> [MaskError i e] | None \<Rightarrow> []) @
     err_if (mk_use m = [] \<and> mk_path m \<noteq> [] \<and> tc_snapshotSource t \<noteq> ''files'') (PathNeedsFiles i))"

definition test_Validate :: "test_env \<Rightarrow> test_case \<Rightarrow> test_error list" where
  "test_Validate env t =
     name_errors t @
     err_if (tc_exitCode t \<noteq> None \<and> tc_expectFailure t) ExitCodeAndExpectFailure @
     required_errors t @
     args_errors t @
     err_if (tc_retries t < 0 \<or> tc_retries t > MaxRetries) RetriesOutOfRange @
     baseDir_errors (tc_baseDir t) @
     limit_errors t @
     (case tc_timeout t of Some d \<Rightarrow> err_if (sint d \<le> 0) TimeoutNotPositive | None \<Rightarrow> []) @
     concat (map (\<lambda>(i, a). case assertion_Validate env a of Some e \<Rightarrow> [AssertionError i e] | None \<Rightarrow> [])
       (enumerate 0 (tc_assertions t))) @
     err_if (tc_snapshotSource t \<notin> {'''', ''stdout'', ''files''}) BadSnapshotSource @
     err_if (tc_snapshotSource t = ''files'' \<and> tc_snapshot t = []) FilesRequireSnapshot @
     concat (map (mask_errors env t) (enumerate 0 (tc_masks t)))"

section \<open>Evaluation of assertions\<close>

record file_info =
  fi_exists :: bool
  fi_content :: string

record command_output =
  co_stdout :: string
  co_stderr :: string
  co_exitCode :: int
  co_output :: "gval gomap option"
  co_files :: "file_info gomap"

definition BuildAssertionContext :: "command_output option \<Rightarrow> gval gomap" where
  "BuildAssertionContext co =
     (case co of
        None \<Rightarrow> [(''__stdout'', VStr ''''), (''__stderr'', VStr ''''), (''__exitCode'', VInt 0),
          (''__output'', VNil), (''__files'', VMap [])]
      | Some c \<Rightarrow> [(''__stdout'', VStr (co_stdout c)), (''__stderr'', VStr (co_stderr c)), (''__exitCode'', VInt (co_exitCode c)),
          (''__output'', case co_output c of None \<Rightarrow> VNil | Some m \<Rightarrow> VMap m),
          (''__files'', VMap (map (\<lambda>(k, f). (k, VMap [(''exists'', VBool (fi_exists f)), (''content'', VStr (fi_content f))]))
             (co_files c)))])"

datatype sub_value = SubError string | SubValue gval

datatype diagnostic =
    CompareFailed string sub_value string sub_value string
  | ValueNotTrue string gval
  | ExpectedTrue string
  | OutputIsNil
  | CelFailed string
  | NotBool gval
  | InvalidPattern string
  | PatternNotFound string string
  | TextNotFound string string
  | PatternFound string string string
  | TextFound string string
  | NoKindSet

definition evalSubExpr :: "test_env \<Rightarrow> string \<Rightarrow> gval gomap \<Rightarrow> sub_value" where
  "evalSubExpr env e ctx = (case te_cel env e ctx of Inl m \<Rightarrow> SubError m | Inr v \<Rightarrow> SubValue v)"

definition comparisons :: "string list" where
  "comparisons = ['' == '', '' != '', '' >= '', '' <= '', '' > '', '' < '']"

definition DiagnoseExpression :: "test_env \<Rightarrow> string \<Rightarrow> gval gomap \<Rightarrow> diagnostic" where
  "DiagnoseExpression env e ctx =
     (case find (\<lambda>op. strings_Cut e op \<noteq> None) comparisons of
        Some op \<Rightarrow>
          (let (l, r) = the (strings_Cut e op); l = strings_TrimSpace l; r = strings_TrimSpace r
           in CompareFailed l (evalSubExpr env l ctx) r (evalSubExpr env r ctx) (strings_TrimSpace op))
      | None \<Rightarrow> (case te_cel env e ctx of Inr v \<Rightarrow> ValueNotTrue e v | Inl _ \<Rightarrow> ExpectedTrue e))"

text \<open>The message of a result: none, or the custom text of the assertion (possibly empty) before the diagnostic.\<close>

record assertion_result =
  rs_type :: string
  rs_input :: string
  rs_passed :: bool
  rs_message :: "(string \<times> diagnostic) option"
  rs_actual :: gval

definition resolveTarget :: "command_output option \<Rightarrow> string \<Rightarrow> string" where
  "resolveTarget co target =
     (case co of None \<Rightarrow> []
      | Some c \<Rightarrow>
          if target = ''stderr'' then co_stderr c
          else if target = ''combined'' then co_stdout c @ [CHR 0x0A] @ co_stderr c
          else co_stdout c)"

definition targetName :: "string \<Rightarrow> string" where
  "targetName t = (if t = [] then ''stdout'' else t)"

definition truncate_text :: "string \<Rightarrow> nat \<Rightarrow> string" where
  "truncate_text s n = (if length s \<le> n then s else take n s @ ''...'')"

definition passed_result :: "string \<Rightarrow> string \<Rightarrow> assertion_result" where
  "passed_result ty i = \<lparr>rs_type = ty, rs_input = i, rs_passed = True, rs_message = None, rs_actual = VNil\<rparr>"

definition failed_result :: "string \<Rightarrow> string \<Rightarrow> string \<Rightarrow> diagnostic \<Rightarrow> gval \<Rightarrow> assertion_result" where
  "failed_result ty i custom d v =
     \<lparr>rs_type = ty, rs_input = i, rs_passed = False, rs_message = Some (custom, d), rs_actual = v\<rparr>"

definition evaluateExpression :: "test_env \<Rightarrow> assertion \<Rightarrow> gval gomap \<Rightarrow> assertion_result" where
  "evaluateExpression env a ctx =
     (let e = as_expression a; bad = failed_result ''expression'' e (as_message a) in
      if map_get VNil ctx ''__output'' = VNil \<and> strings_Contains e ''__output'' then bad OutputIsNil VNil
      else (case te_cel env e ctx of
              Inl m \<Rightarrow> bad (CelFailed m) VNil
            | Inr v \<Rightarrow> (case v of
                VBool b \<Rightarrow> if b then passed_result ''expression'' e else bad (DiagnoseExpression env e ctx) VNil
              | _ \<Rightarrow> bad (NotBool v) v)))"

definition evaluateRegex :: "test_env \<Rightarrow> assertion \<Rightarrow> command_output option \<Rightarrow> assertion_result" where
  "evaluateRegex env a co =
     (let r = as_regex a; target = resolveTarget co (as_target a); bad = failed_result ''regex'' r (as_message a) in
      if \<not> te_regex env r then bad (InvalidPattern r) VNil
      else if te_find env r target \<noteq> None then passed_result ''regex'' r
      else bad (PatternNotFound r (targetName (as_target a))) (VStr (truncate_text target 200)))"

definition evaluateContains :: "assertion \<Rightarrow> command_output option \<Rightarrow> assertion_result" where
  "evaluateContains a co =
     (let p = as_contains a; target = resolveTarget co (as_target a) in
      if strings_Contains target p then passed_result ''contains'' p
      else failed_result ''contains'' p (as_message a) (TextNotFound p (targetName (as_target a)))
             (VStr (truncate_text target 200)))"

text \<open>\<open>FindString\<close> gives the empty string when nothing matches.\<close>

definition FindString :: "test_env \<Rightarrow> string \<Rightarrow> string \<Rightarrow> string" where
  "FindString env r s = (case te_find env r s of None \<Rightarrow> [] | Some m \<Rightarrow> m)"

definition evaluateNotRegex :: "test_env \<Rightarrow> assertion \<Rightarrow> command_output option \<Rightarrow> assertion_result" where
  "evaluateNotRegex env a co =
     (let r = as_notRegex a; target = resolveTarget co (as_target a); bad = failed_result ''notRegex'' r (as_message a) in
      if \<not> te_regex env r then bad (InvalidPattern r) VNil
      else let m = FindString env r target in
        if m = [] then passed_result ''notRegex'' r
        else bad (PatternFound r (targetName (as_target a)) m) VNil)"

definition evaluateNotContains :: "assertion \<Rightarrow> command_output option \<Rightarrow> assertion_result" where
  "evaluateNotContains a co =
     (let p = as_notContains a; target = resolveTarget co (as_target a) in
      if \<not> strings_Contains target p then passed_result ''notContains'' p
      else failed_result ''notContains'' p (as_message a) (TextFound p (targetName (as_target a))) VNil)"

definition evaluateOne :: "test_env \<Rightarrow> assertion \<Rightarrow> command_output option \<Rightarrow> gval gomap \<Rightarrow> assertion_result" where
  "evaluateOne env a co ctx =
     (if as_expression a \<noteq> [] then evaluateExpression env a ctx
      else if as_regex a \<noteq> [] then evaluateRegex env a co
      else if as_contains a \<noteq> [] then evaluateContains a co
      else if as_notRegex a \<noteq> [] then evaluateNotRegex env a co
      else if as_notContains a \<noteq> [] then evaluateNotContains a co
      else \<lparr>rs_type = ''unknown'', rs_input = [], rs_passed = False, rs_message = Some ([], NoKindSet), rs_actual = VNil\<rparr>)"

definition EvaluateAssertions :: "test_env \<Rightarrow> assertion list \<Rightarrow> command_output option \<Rightarrow> assertion_result list" where
  "EvaluateAssertions env as co = map (\<lambda>a. evaluateOne env a co (BuildAssertionContext co)) as"

lemma prefix_split: "strings_HasPrefix s p \<longleftrightarrow> (\<exists>b. s = p @ b)"
  unfolding strings_HasPrefix_def by (metis append_eq_conv_conj append_take_drop_id)

lemma strings_Contains_iff: "strings_Contains s p \<longleftrightarrow> (\<exists>a b. s = a @ p @ b)"
proof (induction s)
  case (Cons c cs)
  have "(\<exists>a b. c # cs = a @ p @ b) \<longleftrightarrow> (\<exists>b. c # cs = p @ b) \<or> (\<exists>a b. cs = a @ p @ b)"
    by (metis append_Cons append_Nil list.sel(3) neq_Nil_conv tl_append2)
  with Cons show ?case by (simp add: prefix_split)
qed auto

text \<open>What an assertion demands of the output, by its kind.\<close>

definition assertion_holds :: "test_env \<Rightarrow> assertion \<Rightarrow> command_output \<Rightarrow> bool" where
  "assertion_holds env a c =
     (let text = resolveTarget (Some c) (as_target a); ctx = BuildAssertionContext (Some c) in
      if as_expression a \<noteq> [] then
        te_cel env (as_expression a) ctx = Inr (VBool True) \<and>
        (co_output c = None \<longrightarrow> \<not> (\<exists>l r. as_expression a = l @ ''__output'' @ r))
      else if as_regex a \<noteq> [] then te_find env (as_regex a) text \<noteq> None
      else if as_contains a \<noteq> [] then (\<exists>l r. text = l @ as_contains a @ r)
      else if as_notRegex a \<noteq> [] then \<forall>m. te_find env (as_notRegex a) text = Some m \<longrightarrow> m = []
      else \<not> (\<exists>l r. text = l @ as_notContains a @ r))"

lemma result_passed [simp]: "rs_passed (passed_result ty i)" "\<not> rs_passed (failed_result ty i c d v)"
  by (simp_all add: passed_result_def failed_result_def)

lemma context_output:
  "map_get VNil (BuildAssertionContext (Some c)) ''__output'' = VNil \<longleftrightarrow> co_output c = None"
  by (simp add: BuildAssertionContext_def map_get_def split: option.split)

lemma evaluateExpression_passed:
  "rs_passed (evaluateExpression env a (BuildAssertionContext (Some c))) \<longleftrightarrow>
     te_cel env (as_expression a) (BuildAssertionContext (Some c)) = Inr (VBool True) \<and>
     (co_output c = None \<longrightarrow> \<not> strings_Contains (as_expression a) ''__output'')"
  unfolding evaluateExpression_def Let_def context_output
  by (cases "te_cel env (as_expression a) (BuildAssertionContext (Some c))") (auto split: gval.split)

lemma assertion_Validate_kinds:
  assumes "assertion_Validate env a = None"
  shows "as_regex a = [] \<or> te_regex env (as_regex a)" "as_notRegex a = [] \<or> te_regex env (as_notRegex a)" "assertion_kinds a = 1"
  using assms by (auto simp: assertion_Validate_def split: if_splits)

lemma evaluateOne_passed:
  assumes "assertion_Validate env a = None"
  shows "rs_passed (evaluateOne env a (Some c) (BuildAssertionContext (Some c))) \<longleftrightarrow> assertion_holds env a c"
proof -
  note k = assertion_Validate_kinds [OF assms]
  consider "as_expression a \<noteq> []" | "as_expression a = []" "as_regex a \<noteq> []"
    | "as_expression a = []" "as_regex a = []" "as_contains a \<noteq> []"
    | "as_expression a = []" "as_regex a = []" "as_contains a = []" "as_notRegex a \<noteq> []"
    | "as_expression a = []" "as_regex a = []" "as_contains a = []" "as_notRegex a = []" "as_notContains a \<noteq> []"
    using k(3) by (auto simp: assertion_kinds_def split: if_splits)
  then show ?thesis
  proof cases
    case 1
    then show ?thesis
      unfolding evaluateOne_def assertion_holds_def Let_def strings_Contains_iff [symmetric]
      by (simp add: evaluateExpression_passed)
  next
    case 2
    with k(1) show ?thesis by (simp add: evaluateOne_def assertion_holds_def evaluateRegex_def Let_def)
  next
    case 3
    then show ?thesis
      unfolding evaluateOne_def assertion_holds_def Let_def strings_Contains_iff [symmetric]
      by (simp add: evaluateContains_def Let_def)
  next
    case 4
    with k(2) show ?thesis
      by (auto simp: evaluateOne_def assertion_holds_def evaluateNotRegex_def FindString_def Let_def split: option.splits)
  next
    case 5
    then show ?thesis
      unfolding evaluateOne_def assertion_holds_def Let_def strings_Contains_iff [symmetric]
      by (simp add: evaluateNotContains_def Let_def)
  qed
qed

section \<open>Properties\<close>

text \<open>Evaluating assertions that passed validation gives one result for each, in order, and a result is
  positive exactly when the output has what the assertion demands.\<close>

theorem assertions_decide:
  assumes "\<forall>a \<in> set as. assertion_Validate env a = None"
  shows "map rs_passed (EvaluateAssertions env as (Some c)) = map (\<lambda>a. assertion_holds env a c) as"
  using assms evaluateOne_passed [of env _ c] by (simp add: EvaluateAssertions_def)

definition sample_test_env :: test_env where
  "sample_test_env = \<lparr>te_regex = (\<lambda>_. True), te_find = (\<lambda>r s. if strings_Contains s r then Some r else if r = ''^$'' \<and> s = [] then Some [] else None),
     te_cel = (\<lambda>_ _. Inl ''unknown'')\<rparr>"

definition sample_assertion :: "string \<Rightarrow> string \<Rightarrow> assertion" where
  "sample_assertion r n = \<lparr>as_expression = [], as_regex = r, as_contains = [], as_notRegex = n, as_notContains = [], as_target = [], as_message = []\<rparr>"

definition sample_output :: "string \<Rightarrow> command_output" where
  "sample_output s = \<lparr>co_stdout = s, co_stderr = [], co_exitCode = 0, co_output = None, co_files = []\<rparr>"

theorem assertions_decide_witness:
  "map rs_passed (EvaluateAssertions sample_test_env [sample_assertion ''ok'' [], sample_assertion [] ''bad''] (Some (sample_output ''ok'')))
     = [assertion_holds sample_test_env (sample_assertion ''ok'' []) (sample_output ''ok''),
        assertion_holds sample_test_env (sample_assertion [] ''bad'') (sample_output ''ok'')]"
  using assertions_decide [of "[sample_assertion ''ok'' [], sample_assertion [] ''bad'']" sample_test_env "sample_output ''ok''"]
  by (simp add: assertion_Validate_def sample_assertion_def assertion_kinds_def validTargets_def sample_test_env_def)

text \<open>A \<open>notRegex\<close> assertion passes on an output that its pattern matches, when the match is the empty text:
  \<open>FindString\<close> cannot tell it from no match.\<close>

theorem notRegex_misses_empty_match:
  assumes "as_notRegex a \<noteq> []" "assertion_Validate env a = None" "te_find env (as_notRegex a) (resolveTarget (Some c) (as_target a)) = Some []"
  shows "rs_passed (evaluateOne env a (Some c) (BuildAssertionContext (Some c)))"
proof -
  have "as_expression a = []" "as_regex a = []" "as_contains a = []"
    using assertion_Validate_kinds(3) [OF assms(2)] assms(1) by (auto simp: assertion_kinds_def split: if_splits)
  with assms show ?thesis using evaluateOne_passed [OF assms(2)] by (simp add: assertion_holds_def)
qed

theorem notRegex_misses_empty_match_witness:
  "rs_passed (evaluateOne sample_test_env (sample_assertion [] ''^$'') (Some (sample_output [])) (BuildAssertionContext (Some (sample_output []))))"
  by (rule notRegex_misses_empty_match)
    (simp_all add: assertion_Validate_def sample_assertion_def assertion_kinds_def validTargets_def sample_test_env_def sample_output_def resolveTarget_def)

end
