(* ===== verification/Test_Extends.thy ===== *)
theory Test_Extends
  imports Test_Types
begin

text \<open>
  \<open>pkg/solution/soltesting/inheritance.go\<close>: inheritance of test cases.

  \<open>ResolveExtends\<close> rewrites the map of tests in place; the model passes the map along.  The lists
  \<open>o1\<close>, \<open>o2\<close>, \<open>o3\<close> are the orders in which its three loops visit the names.  The two recursions take a
  bound on their depth; \<open>None\<close> and \<open>OutOfFuel\<close> mark a bound that is too small, and the bounds of
  \<open>ResolveExtends\<close> are enough: \<open>computeExtendsDepth_total\<close>, \<open>resolveOne_error\<close>.
\<close>

lemma card_diff_less: "finite A \<Longrightarrow> x \<in> A \<Longrightarrow> x \<notin> B \<Longrightarrow> card (A - insert x B) < card (A - B)"
  by (rule psubset_card_mono) auto

section \<open>Merging\<close>

definition append_new :: "string \<Rightarrow> string list \<times> string list \<Rightarrow> string list \<times> string list" where
  "append_new s = (\<lambda>(dst, seen). if s \<notin> set seen then (dst @ [s], set_insert s seen) else (dst, seen))"

definition appendDedup :: "string list \<Rightarrow> string list \<Rightarrow> string list" where
  "appendDedup dst src = fst (fold append_new src (dst, dst))"

definition merge_map :: "'a gomap \<Rightarrow> 'a gomap \<Rightarrow> 'a gomap" where
  "merge_map dst src = fold (\<lambda>(k, v). map_put k v) src dst"

definition mergeTestCase :: "test_case \<Rightarrow> test_case \<Rightarrow> test_case" where
  "mergeTestCase dst src = dst\<lparr>
     tc_command := (if tc_command src \<noteq> [] then tc_command src else tc_command dst),
     tc_args := tc_args dst @ tc_args src,
     tc_assertions := tc_assertions dst @ tc_assertions src,
     tc_files := (if tc_files src \<noteq> [] then appendDedup (tc_files dst) (tc_files src) else tc_files dst),
     tc_init := tc_init dst @ tc_init src,
     tc_cleanup := tc_cleanup dst @ tc_cleanup src,
     tc_tags := (if tc_tags src \<noteq> [] then appendDedup (tc_tags dst) (tc_tags src) else tc_tags dst),
     tc_env := merge_map (tc_env dst) (tc_env src),
     tc_inputs := merge_map (tc_inputs dst) (tc_inputs src),
     tc_description := (if tc_description src \<noteq> [] then tc_description src else tc_description dst),
     tc_timeout := (if tc_timeout src \<noteq> None then tc_timeout src else tc_timeout dst),
     tc_expectFailure := (if tc_expectFailure src then True else tc_expectFailure dst),
     tc_exitCode := (if tc_exitCode src \<noteq> None then tc_exitCode src else tc_exitCode dst),
     tc_skip := (if \<not> skip_IsZero (tc_skip src) then tc_skip src else tc_skip dst),
     tc_skipReason := (if tc_skipReason src \<noteq> [] then tc_skipReason src else tc_skipReason dst),
     tc_injectFile := (if tc_injectFile src \<noteq> None then tc_injectFile src else tc_injectFile dst),
     tc_snapshot := (if tc_snapshot src \<noteq> [] then tc_snapshot src else tc_snapshot dst),
     tc_snapshotSource := (if tc_snapshotSource src \<noteq> [] then tc_snapshotSource src else tc_snapshotSource dst),
     tc_masks := (if tc_masks src \<noteq> [] then tc_masks src else tc_masks dst),
     tc_retries := (if tc_retries src > 0 then tc_retries src else tc_retries dst),
     tc_baseDir := (if tc_baseDir src \<noteq> [] then tc_baseDir src else tc_baseDir dst),
     tc_services := tc_services dst @ tc_services src,
     tc_mocks := merge_map (tc_mocks dst) (tc_mocks src)\<rparr>"

section \<open>Resolution\<close>

datatype extends_error =
    UnknownExtends string string
  | DepthExceeded string
  | CircularExtends string
  | OutOfFuel

text \<open>A loop whose body may fail.\<close>

primrec loop_err :: "('a \<Rightarrow> 's \<Rightarrow> 'e + 's) \<Rightarrow> 'a list \<Rightarrow> 's \<Rightarrow> 'e + 's" where
  "loop_err f [] s = Inr s"
| "loop_err f (x # xs) s = (case f x s of Inl e \<Rightarrow> Inl e | Inr s' \<Rightarrow> loop_err f xs s')"

primrec loop_opt :: "('a \<Rightarrow> 's \<Rightarrow> 's option) \<Rightarrow> 'a list \<Rightarrow> 's \<Rightarrow> 's option" where
  "loop_opt f [] s = Some s"
| "loop_opt f (x # xs) s = (case f x s of None \<Rightarrow> None | Some s' \<Rightarrow> loop_opt f xs s')"

definition extends_of :: "test_case gomap \<Rightarrow> string \<Rightarrow> string list" where
  "extends_of tests n = (case map_of tests n of None \<Rightarrow> [] | Some t \<Rightarrow> tc_extends t)"

text \<open>The depth and the names visited.\<close>

primrec computeExtendsDepth ::
  "nat \<Rightarrow> test_case gomap \<Rightarrow> string \<Rightarrow> string list \<Rightarrow> (nat \<times> string list) option" where
  "computeExtendsDepth 0 tests n visited = None"
| "computeExtendsDepth (Suc b) tests n visited =
     (if n \<in> set visited then Some (0, visited)
      else let visited = n # visited in
        if extends_of tests n = [] then Some (0, visited)
        else map_option (\<lambda>(m, vs). (m + 1, vs))
          (loop_opt (\<lambda>e (m, vs). map_option (\<lambda>(d, vs'). (max m d, vs')) (computeExtendsDepth b tests e vs))
             (extends_of tests n) (0, visited)))"

record ext_state =
  xs_tests :: "test_case gomap"
  xs_resolved :: "string list"
  xs_resolving :: "string list"

definition test_at :: "test_case gomap \<Rightarrow> string \<Rightarrow> test_case" where
  "test_at tests n = (case map_of tests n of Some t \<Rightarrow> t | None \<Rightarrow> empty_test [])"

definition merge_extends :: "test_case gomap \<Rightarrow> test_case \<Rightarrow> test_case" where
  "merge_extends tests t =
     (mergeTestCase (fold (\<lambda>e m. mergeTestCase m (test_at tests e)) (tc_extends t) (empty_test (tc_name t))) t)\<lparr>tc_extends := []\<rparr>"

primrec resolveOne :: "nat \<Rightarrow> string \<Rightarrow> ext_state \<Rightarrow> extends_error + ext_state" where
  "resolveOne 0 n s = Inl OutOfFuel"
| "resolveOne (Suc b) n s =
     (if n \<in> set (xs_resolved s) then Inr s
      else if n \<in> set (xs_resolving s) then Inl (CircularExtends n)
      else let t = test_at (xs_tests s) n in
        if tc_extends t = [] then Inr (s\<lparr>xs_resolved := n # xs_resolved s\<rparr>)
        else (case loop_err (resolveOne b) (tc_extends t) (s\<lparr>xs_resolving := n # xs_resolving s\<rparr>) of
                Inl e \<Rightarrow> Inl e
              | Inr s \<Rightarrow> Inr (s\<lparr>xs_tests := map_put n (merge_extends (xs_tests s) t) (xs_tests s),
                   xs_resolving := removeAll n (xs_resolving s),
                   xs_resolved := n # xs_resolved s\<rparr>)))"

definition missing_extends :: "test_case gomap \<Rightarrow> string \<Rightarrow> string option" where
  "missing_extends tests n = find (\<lambda>e. \<not> map_has tests e) (extends_of tests n)"

definition too_deep :: "test_case gomap \<Rightarrow> string \<Rightarrow> bool" where
  "too_deep tests n =
     (case computeExtendsDepth (length tests + 2) tests n [] of None \<Rightarrow> True | Some (d, _) \<Rightarrow> d > MaxExtendsDepth)"

definition ResolveExtends ::
  "string list \<Rightarrow> string list \<Rightarrow> string list \<Rightarrow> test_case gomap \<Rightarrow> extends_error + test_case gomap" where
  "ResolveExtends o1 o2 o3 tests =
     (case find (\<lambda>n. missing_extends tests n \<noteq> None) o1 of
        Some n \<Rightarrow> Inl (UnknownExtends n (the (missing_extends tests n)))
      | None \<Rightarrow> (case find (too_deep tests) o2 of
          Some n \<Rightarrow> Inl (DepthExceeded n)
        | None \<Rightarrow> map_sum id xs_tests
            (loop_err (resolveOne (length tests + 2)) o3 \<lparr>xs_tests = tests, xs_resolved = [], xs_resolving = []\<rparr>)))"

text \<open>The chain of first references; the flag says that it ends in a repetition.\<close>

function extends_chain :: "test_case gomap \<Rightarrow> string \<Rightarrow> string list \<Rightarrow> string list \<times> bool" where
  "extends_chain tests n visited =
     (if n \<in> set visited then (visited @ [n], True)
      else case extends_of tests n of
          [] \<Rightarrow> (visited @ [n], False)
        | e # _ \<Rightarrow> extends_chain tests e (visited @ [n]))"
  by pat_completeness auto
termination
proof (relation "measure (\<lambda>(tests, n, visited). card (set (map_keys tests) - set visited))", goal_cases)
  case (2 tests n visited e es)
  then have "n \<in> set (map_keys tests)"
    by (auto simp: extends_of_def simp flip: map_has_iff_keys intro: map_has_Some split: option.splits)
  with 2 show ?case using card_diff_less [of "set (map_keys tests)" n "set visited"] by simp
qed simp

definition ExtendsChainString :: "test_case gomap \<Rightarrow> string \<Rightarrow> string" where
  "ExtendsChainString tests n =
     (case extends_chain tests n [] of (ns, circular) \<Rightarrow>
        concat (butlast (concat (map (\<lambda>m. [m, '' -> '']) ns))) @ (if circular then '' (circular)'' else []))"

section \<open>Merging is associative\<close>

lemma append_new_fold:
  "set seen = set dst \<Longrightarrow> fst (fold append_new src (dst, seen)) = fold set_insert src dst"
  by (induction src arbitrary: dst seen) (auto simp: append_new_def set_insert_def)

lemma appendDedup_fold: "appendDedup dst src = fold set_insert src dst"
  by (simp add: appendDedup_def append_new_fold)

lemma set_fold_insert: "set (fold set_insert b a) = set a \<union> set b"
  by (induction b arbitrary: a) auto

lemma fold_insert_insert: "fold set_insert (set_insert x b) a = set_insert x (fold set_insert b a)"
  by (simp add: set_insert_def set_fold_insert)

lemma fold_insert_assoc: "fold set_insert (fold set_insert c b) a = fold set_insert c (fold set_insert b a)"
  by (induction c arbitrary: b) (simp_all add: fold_insert_insert)

lemma dedup_if: "(if src \<noteq> [] then appendDedup dst src else dst) = fold set_insert src dst"
  by (simp add: appendDedup_fold)

lemma put_put_same: "map_put k v (map_put k w m) = map_put k v m"
  unfolding map_put_def by (induction m) auto

lemma put_put_swap:
  "k \<in> set (map_keys m) \<Longrightarrow> k \<noteq> k' \<Longrightarrow> map_put k v (map_put k' v' m) = map_put k' v' (map_put k v m)"
  unfolding map_put_def map_keys_def by (induction m) auto

lemma merge_map_Cons: "merge_map a ((k, v) # r) = merge_map (map_put k v a) r"
  by (simp add: merge_map_def)

lemma put_merge_known:
  "k \<in> set (map_keys a) \<Longrightarrow> k \<notin> set (map_keys r) \<Longrightarrow> map_put k v (merge_map a r) = merge_map (map_put k v a) r"
proof (induction r arbitrary: a)
  case (Cons x r)
  obtain k' v' where x: "x = (k', v')" by (cases x)
  with Cons.prems have "k \<noteq> k'" "k \<notin> set (map_keys r)" by auto
  then show ?case
    using Cons.IH [of "map_put k' v' a"] Cons.prems(1) put_put_swap [OF Cons.prems(1), of k' v v'] by (simp add: x merge_map_Cons)
qed (simp add: merge_map_def)

lemma merge_put:
  "distinct (map_keys b) \<Longrightarrow> merge_map a (map_put k v b) = map_put k v (merge_map a b)"
proof (induction b arbitrary: a)
  case (Cons x b)
  obtain k' v' where x: "x = (k', v')" by (cases x)
  show ?case
  proof (cases "k = k'")
    case True
    have "map_put k v (x # b) = (k, v) # b" by (simp add: x True map_put_def)
    with Cons.prems show ?thesis
      using put_merge_known [of k "map_put k v' a" b v] by (simp add: x True merge_map_Cons put_put_same)
  next
    case False
    then have "map_put k v (x # b) = x # map_put k v b" by (simp add: x map_put_def)
    with Cons show ?thesis by (simp add: x merge_map_Cons)
  qed
qed (simp add: merge_map_def map_put_def)

lemma distinct_merge_map: "distinct (map_keys a) \<Longrightarrow> distinct (map_keys (merge_map a b))"
  unfolding merge_map_def by (induction b arbitrary: a) (auto intro: distinct_keys_put)

lemma merge_map_assoc:
  "distinct (map_keys b) \<Longrightarrow> merge_map a (merge_map b c) = merge_map (merge_map a b) c"
proof (induction c arbitrary: b)
  case (Cons x c)
  obtain k v where x: "x = (k, v)" by (cases x)
  from Cons.IH [OF distinct_keys_put [OF Cons.prems]] show ?case
    by (simp add: x merge_map_Cons merge_put [OF Cons.prems])
qed (simp add: merge_map_def)

definition maps_ok :: "test_case \<Rightarrow> bool" where
  "maps_ok t = (distinct (map_keys (tc_env t)) \<and> distinct (map_keys (tc_inputs t)) \<and> distinct (map_keys (tc_mocks t)))"

lemma maps_ok_empty: "maps_ok (empty_test n)"
  by (simp add: maps_ok_def empty_test_def)

lemma maps_ok_merge: "maps_ok a \<Longrightarrow> maps_ok (mergeTestCase a b)"
  by (simp add: maps_ok_def mergeTestCase_def distinct_merge_map)

lemma merge_assoc:
  "maps_ok b \<Longrightarrow> mergeTestCase a (mergeTestCase b c) = mergeTestCase (mergeTestCase a b) c"
  unfolding maps_ok_def mergeTestCase_def dedup_if
  by (rule test_case.equality) (simp_all add: fold_insert_assoc merge_map_assoc)

lemma merge_empty: "mergeTestCase a (empty_test n) = a"
  by (rule test_case.equality) (simp_all add: mergeTestCase_def empty_test_def merge_map_def skip_IsZero_def)

lemma merge_keeps [simp]:
  "tc_extends (mergeTestCase a b) = tc_extends a" "tc_name (mergeTestCase a b) = tc_name a"
  "mergeTestCase a (b\<lparr>tc_extends := es\<rparr>) = mergeTestCase a b"
  by (simp_all add: mergeTestCase_def)

lemma merge_fold:
  "maps_ok b \<Longrightarrow> mergeTestCase a (fold (\<lambda>m t. mergeTestCase t (T m)) l b) = fold (\<lambda>m t. mergeTestCase t (T m)) l (mergeTestCase a b)"
  by (induction l arbitrary: b) (simp_all add: maps_ok_merge merge_assoc)

section \<open>What resolution computes\<close>

definition extends_rel :: "test_case gomap \<Rightarrow> (string \<times> string) set" where
  "extends_rel tests = {(n, e). e \<in> set (extends_of tests n)}"

text \<open>
  The lineage of a test: the lineages of the tests it extends, from left to right, and then itself.
\<close>

inductive lineage :: "test_case gomap \<Rightarrow> string \<Rightarrow> string list \<Rightarrow> bool" for tests where
  lineage: "list_all2 (lineage tests) (extends_of tests n) ls \<Longrightarrow> lineage tests n (concat ls @ [n])"

text \<open>The test that merging a lineage in order gives; a test that extends nothing is left as it is.\<close>

definition inherited :: "test_case gomap \<Rightarrow> string \<Rightarrow> string list \<Rightarrow> test_case" where
  "inherited tests n l =
     (if extends_of tests n = [] then test_at tests n
      else fold (\<lambda>m t. mergeTestCase t (test_at tests m)) l (empty_test (tc_name (test_at tests n))))"

definition closed_tests :: "test_case gomap \<Rightarrow> bool" where
  "closed_tests tests = (\<forall>n e. e \<in> set (extends_of tests n) \<longrightarrow> map_has tests e)"

lemma extends_test_at: "tc_extends (test_at tests n) = extends_of tests n"
  by (simp add: test_at_def extends_of_def empty_test_def split: option.split)

lemma extends_of_has: "extends_of tests n \<noteq> [] \<Longrightarrow> map_has tests n"
  by (auto simp: extends_of_def map_has_def split: option.splits)

lemma choose_all2: "\<forall>x \<in> set xs. \<exists>y. P x y \<Longrightarrow> \<exists>ys. list_all2 P xs ys"
proof (induction xs)
  case (Cons x xs)
  then obtain y ys where "P x y" "list_all2 P xs ys" by auto
  then show ?case by (intro exI [of _ "y # ys"]) simp
qed (rule exI [of _ "[]"], simp)

lemma lineage_acc: "lineage tests n l \<Longrightarrow> n \<in> Wellfounded.acc ((extends_rel tests)\<inverse>)"
proof (induction rule: lineage.induct)
  case (lineage n ls)
  show ?case
  proof (rule accI)
    fix e assume "(e, n) \<in> (extends_rel tests)\<inverse>"
    then have "e \<in> set (extends_of tests n)" by (simp add: extends_rel_def)
    with lineage show "e \<in> Wellfounded.acc ((extends_rel tests)\<inverse>)"
      by (auto simp: list_all2_conv_all_nth in_set_conv_nth)
  qed
qed

lemma lineage_acyclic:
  assumes "\<forall>n. map_has tests n \<longrightarrow> (\<exists>l. lineage tests n l)"
  shows "acyclic (extends_rel tests)"
proof -
  have "n \<in> Wellfounded.acc ((extends_rel tests)\<inverse>)" for n
  proof (cases "map_has tests n")
    case True
    with assms lineage_acc show ?thesis by blast
  next
    case False
    then have "extends_of tests n = []" using extends_of_has by blast
    then show ?thesis by - (rule accI, simp add: extends_rel_def)
  qed
  then have "wf ((extends_rel tests)\<inverse>)" by (intro acc_wfI) simp
  then show ?thesis using wf_acyclic acyclic_converse by blast
qed

lemma merge_inherited:
  assumes "lineage tests p l"
  shows "mergeTestCase m (inherited tests p l) = fold (\<lambda>x t. mergeTestCase t (test_at tests x)) l m"
proof (cases "extends_of tests p = []")
  case True
  from assms obtain ls where "list_all2 (lineage tests) (extends_of tests p) ls" "l = concat ls @ [p]"
    by (rule lineage.cases) blast
  with True have "l = [p]" by simp
  with True show ?thesis by (simp add: inherited_def)
next
  case False
  then show ?thesis by (simp add: inherited_def merge_fold [OF maps_ok_empty] merge_empty)
qed

lemma merge_parents:
  assumes "list_all2 (lineage T) es ls" "list_all2 (\<lambda>e l. test_at tests e = inherited T e l) es ls"
  shows "fold (\<lambda>e m. mergeTestCase m (test_at tests e)) es m = fold (\<lambda>x t. mergeTestCase t (test_at T x)) (concat ls) m"
  using assms
proof (induction es ls arbitrary: m rule: list_all2_induct)
  case (Cons e es l ls)
  then show ?case by (simp add: merge_inherited)
qed simp

definition tests_invar :: "test_case gomap \<Rightarrow> ext_state \<Rightarrow> bool" where
  "tests_invar T s \<longleftrightarrow>
     map_keys (xs_tests s) = map_keys T \<and>
     (\<forall>n. map_has T n \<longrightarrow>
        (if n \<in> set (xs_resolved s) then \<exists>l. lineage T n l \<and> test_at (xs_tests s) n = inherited T n l
         else test_at (xs_tests s) n = test_at T n))"

definition step_ok :: "test_case gomap \<Rightarrow> ext_state \<Rightarrow> ext_state \<Rightarrow> bool" where
  "step_ok T s s' \<longleftrightarrow>
     tests_invar T s' \<and> set (xs_resolved s) \<subseteq> set (xs_resolved s') \<and> xs_resolving s' = xs_resolving s"

lemma loop_resolve:
  assumes body: "\<forall>e s s'. e \<in> set es \<longrightarrow> tests_invar T s \<longrightarrow> f e s = Inr s' \<longrightarrow> step_ok T s s' \<and> e \<in> set (xs_resolved s')"
  shows "tests_invar T s \<Longrightarrow> loop_err f es s = Inr s' \<Longrightarrow> step_ok T s s' \<and> set es \<subseteq> set (xs_resolved s')"
  using body
proof (induction es arbitrary: s)
  case (Cons e es)
  show ?case
  proof (cases "f e s")
    case (Inr s1)
    with Cons.prems(2) have l: "loop_err f es s1 = Inr s'" by simp
    have s1: "step_ok T s s1" "e \<in> set (xs_resolved s1)"
      using Cons.prems(3) [rule_format, OF _ Cons.prems(1) Inr] by auto
    have rest: "\<forall>e s s'. e \<in> set es \<longrightarrow> tests_invar T s \<longrightarrow> f e s = Inr s' \<longrightarrow> step_ok T s s' \<and> e \<in> set (xs_resolved s')"
      using Cons.prems(3) by (meson list.set_intros(2))
    have inv1: "tests_invar T s1" using s1(1) by (simp add: step_ok_def)
    have "step_ok T s1 s' \<and> set es \<subseteq> set (xs_resolved s')"
      by (rule Cons.IH [OF inv1 l rest])
    with s1 show ?thesis by (auto simp: step_ok_def)
  qed (use Cons.prems(2) in simp)
qed (simp add: step_ok_def)

lemma test_at_put: "test_at (map_put k v m) n = (if n = k then v else test_at m n)"
  by (simp add: test_at_def)

lemma keys_put_same: "map_has m k \<Longrightarrow> map_keys (map_put k v m) = map_keys m"
  unfolding map_has_iff_keys map_put_def map_keys_def by (induction m) auto

lemma same_keys_has: "map_keys a = map_keys b \<Longrightarrow> map_has a k = map_has b k"
  by (simp add: map_has_iff_keys)

lemma extends_cleared: "tc_extends t = [] \<Longrightarrow> t\<lparr>tc_extends := []\<rparr> = t"
  by (rule test_case.equality) simp_all

lemma extends_empty [simp]: "tc_extends (empty_test n) = []"
  by (simp add: empty_test_def)

lemma fold_extends [simp]:
  "tc_extends (fold (\<lambda>x t. mergeTestCase t (f x)) l m) = tc_extends m"
  "tc_name (fold (\<lambda>x t. mergeTestCase t (f x)) l m) = tc_name m"
  by (induction l arbitrary: m) auto

lemma resolved_step:
  assumes inv: "tests_invar T s1" and es: "set (extends_of T n) \<subseteq> set (xs_resolved s1)" "closed_tests T"
    and n: "map_has T n" "extends_of T n \<noteq> []"
  shows "\<exists>l. lineage T n l \<and> merge_extends (xs_tests s1) (test_at T n) = inherited T n l"
proof -
  have "\<forall>e \<in> set (extends_of T n). \<exists>l. lineage T e l \<and> test_at (xs_tests s1) e = inherited T e l"
    using inv es unfolding tests_invar_def closed_tests_def by (metis subsetD)
  from choose_all2 [OF this] obtain ls
    where "list_all2 (\<lambda>e l. lineage T e l \<and> test_at (xs_tests s1) e = inherited T e l) (extends_of T n) ls" by blast
  then have ls: "list_all2 (lineage T) (extends_of T n) ls"
      "list_all2 (\<lambda>e l. test_at (xs_tests s1) e = inherited T e l) (extends_of T n) ls"
    by (auto elim: list_all2_mono)
  have "merge_extends (xs_tests s1) (test_at T n) = inherited T n (concat ls @ [n])"
    using n(2) extends_cleared [of "mergeTestCase (fold (\<lambda>x t. mergeTestCase t (test_at T x)) (concat ls) (empty_test (tc_name (test_at T n)))) (test_at T n)"]
    by (simp add: merge_extends_def extends_test_at merge_parents [OF ls] inherited_def)
  with lineage.lineage [OF ls(1)] show ?thesis by blast
qed

lemma resolveOne_step:
  "closed_tests T \<Longrightarrow> tests_invar T s \<Longrightarrow> map_has T n \<Longrightarrow> resolveOne b n s = Inr s' \<Longrightarrow>
   step_ok T s s' \<and> n \<in> set (xs_resolved s')"
proof (induction b arbitrary: n s s')
  case (Suc b)
  show ?case
  proof (cases "n \<in> set (xs_resolved s)")
    case True
    with Suc.prems show ?thesis by (simp add: step_ok_def)
  next
    case new: False
    with Suc.prems(4) have nr: "n \<notin> set (xs_resolving s)" by (auto split: if_splits)
    have t: "test_at (xs_tests s) n = test_at T n" using Suc.prems(2,3) new by (simp add: tests_invar_def)
    show ?thesis
    proof (cases "extends_of T n = []")
      case True
      then have "lineage T n [n]" using lineage.lineage [of T n "[]"] by simp
      moreover have "inherited T n [n] = test_at T n" using True by (simp add: inherited_def)
      moreover have "s' = s\<lparr>xs_resolved := n # xs_resolved s\<rparr>"
        using Suc.prems(4) new nr True by (simp add: t extends_test_at)
      ultimately show ?thesis using Suc.prems(2) t by (auto simp: step_ok_def tests_invar_def)
    next
      case False
      let ?s0 = "s\<lparr>xs_resolving := n # xs_resolving s\<rparr>"
      obtain s1 where s1: "loop_err (resolveOne b) (extends_of T n) ?s0 = Inr s1"
        and s': "s' = s1\<lparr>xs_tests := map_put n (merge_extends (xs_tests s1) (test_at T n)) (xs_tests s1),
                   xs_resolving := removeAll n (xs_resolving s1), xs_resolved := n # xs_resolved s1\<rparr>"
        using Suc.prems(4) new nr False by (auto simp: t extends_test_at Let_def split: sum.splits)
      have inv0: "tests_invar T ?s0" using Suc.prems(2) by (simp add: tests_invar_def)
      have body: "\<forall>e s s'. e \<in> set (extends_of T n) \<longrightarrow> tests_invar T s \<longrightarrow> resolveOne b e s = Inr s' \<longrightarrow>
          step_ok T s s' \<and> e \<in> set (xs_resolved s')"
        using Suc.IH [OF Suc.prems(1)] Suc.prems(1) unfolding closed_tests_def by blast
      from loop_resolve [OF body inv0 s1]
      have l: "tests_invar T s1" "set (xs_resolved s) \<subseteq> set (xs_resolved s1)" "xs_resolving s1 = n # xs_resolving s"
        "set (extends_of T n) \<subseteq> set (xs_resolved s1)" by (auto simp: step_ok_def)
      from resolved_step [OF l(1,4) Suc.prems(1,3) False] obtain l where
        res: "lineage T n l" "merge_extends (xs_tests s1) (test_at T n) = inherited T n l" by blast
      have "map_has (xs_tests s1) n" using l(1) Suc.prems(3) same_keys_has [of "xs_tests s1" T n] by (simp add: tests_invar_def)
      then have "map_keys (xs_tests s') = map_keys T" using l(1) by (simp add: s' keys_put_same tests_invar_def)
      with l res nr show ?thesis
        by (auto simp: step_ok_def tests_invar_def s' test_at_put)
    qed
  qed
qed simp

lemma resolveOne_error:
  "closed_tests T \<Longrightarrow> tests_invar T s \<Longrightarrow> map_has T n \<Longrightarrow> resolveOne b n s = Inl e \<Longrightarrow>
   \<forall>x \<in> set (xs_resolving s). (x, n) \<in> (extends_rel T)\<^sup>+ \<Longrightarrow>
   card (set (map_keys T) - set (xs_resolving s)) < b \<Longrightarrow>
   (\<exists>m. e = CircularExtends m \<and> (m, m) \<in> (extends_rel T)\<^sup>+)"
proof (induction b arbitrary: n s)
  case (Suc b)
  from Suc.prems(4) have new: "n \<notin> set (xs_resolved s)" by (auto split: if_splits)
  show ?case
  proof (cases "n \<in> set (xs_resolving s)")
    case True
    with Suc.prems(4,5) new show ?thesis by auto
  next
    case False
    have t: "test_at (xs_tests s) n = test_at T n" using Suc.prems(2,3) new by (simp add: tests_invar_def)
    have loop: "loop_err (resolveOne b) es s1 = Inl e \<Longrightarrow> tests_invar T s1 \<Longrightarrow> xs_resolving s1 = n # xs_resolving s \<Longrightarrow>
        set es \<subseteq> set (extends_of T n) \<Longrightarrow> \<exists>m. e = CircularExtends m \<and> (m, m) \<in> (extends_rel T)\<^sup>+" for es s1
    proof (induction es arbitrary: s1)
      case (Cons x es)
      then have x: "x \<in> set (extends_of T n)" "(n, x) \<in> extends_rel T" by (auto simp: extends_rel_def)
      with Suc.prems(1) have hx: "map_has T x" by (auto simp: closed_tests_def)
      show ?case
      proof (cases "resolveOne b x s1")
        case (Inl e')
        have path: "\<forall>y \<in> set (xs_resolving s1). (y, x) \<in> (extends_rel T)\<^sup>+"
          using Suc.prems(5) x(2) Cons.prems(3) by (auto intro: trancl_into_trancl)
        have "card (set (map_keys T) - set (xs_resolving s1)) < b"
          using card_diff_less [of "set (map_keys T)" n "set (xs_resolving s)"] Suc.prems(3,6) False Cons.prems(3)
          by (simp add: map_has_iff_keys)
        moreover have "e' = e" using Inl Cons.prems(1) by simp
        ultimately show ?thesis using Suc.IH [of s1 x] Suc.prems(1) Cons.prems(2) hx Inl path by blast
      next
        case (Inr s2)
        with resolveOne_step [OF Suc.prems(1) Cons.prems(2) hx Inr] Cons show ?thesis by (simp add: step_ok_def)
      qed
    qed simp
    have "loop_err (resolveOne b) (extends_of T n) (s\<lparr>xs_resolving := n # xs_resolving s\<rparr>) = Inl e"
      using Suc.prems(4) new False by (auto simp: t extends_test_at Let_def split: sum.splits if_splits)
    then show ?thesis by (rule loop) (use Suc.prems(2) in \<open>simp_all add: tests_invar_def\<close>)
  qed
qed simp


lemma lineage_unique: "lineage T n l \<Longrightarrow> lineage T n l' \<Longrightarrow> l = l'"
proof (induction arbitrary: l' rule: lineage.induct)
  case (lineage n ls)
  from lineage.prems obtain ks where ks: "list_all2 (lineage T) (extends_of T n) ks" "l' = concat ks @ [n]"
    by (rule lineage.cases) blast
  have len: "length ls = length ks"
    using list_all2_lengthD [OF lineage.IH] list_all2_lengthD [OF ks(1)] by simp
  have "ls = ks"
  proof (rule nth_equalityI [OF len])
    fix i assume i: "i < length ls"
    from list_all2_nthD2 [OF lineage.IH i] list_all2_nthD2 [OF ks(1), of i] i len
    show "ls ! i = ks ! i" by simp
  qed
  with ks(2) show ?case by simp
qed

section \<open>The depth of a chain\<close>

lemma loop_depth:
  assumes "\<forall>e vs. e \<in> set es \<longrightarrow> set v0 \<subseteq> set vs \<longrightarrow> (\<exists>d vs'. f e vs = Some (d, vs') \<and> set vs \<subseteq> set vs')"
  shows "set v0 \<subseteq> set vs \<Longrightarrow>
    \<exists>m' vs'. loop_opt (\<lambda>e (m, vs). map_option (\<lambda>(d, vs'). (max m d, vs')) (f e vs)) es (m, vs) = Some (m', vs') \<and> set vs \<subseteq> set vs'"
  using assms
proof (induction es arbitrary: m vs)
  case (Cons e es)
  have "e \<in> set (e # es)" by simp
  from Cons.prems(2) [rule_format, OF this Cons.prems(1)] obtain d vs1
    where d: "f e vs = Some (d, vs1)" "set vs \<subseteq> set vs1" by blast
  have rest: "\<forall>e vs. e \<in> set es \<longrightarrow> set v0 \<subseteq> set vs \<longrightarrow> (\<exists>d vs'. f e vs = Some (d, vs') \<and> set vs \<subseteq> set vs')"
    using Cons.prems(2) by (meson list.set_intros(2))
  have "set v0 \<subseteq> set vs1" using Cons.prems(1) d(2) by blast
  from Cons.IH [OF this rest, of "max m d"] obtain m' vs'
    where "loop_opt (\<lambda>e (m, vs). map_option (\<lambda>(d, vs'). (max m d, vs')) (f e vs)) es (max m d, vs1) = Some (m', vs')"
      "set vs1 \<subseteq> set vs'" by blast
  with d show ?case by auto
qed simp

lemma computeExtendsDepth_total:
  "card (set (map_keys T) - set vs) + 1 < b \<Longrightarrow>
   \<exists>d vs'. computeExtendsDepth b T n vs = Some (d, vs') \<and> set vs \<subseteq> set vs'"
proof (induction b arbitrary: n vs)
  case (Suc b)
  show ?case
  proof (cases "n \<in> set vs \<or> extends_of T n = []")
    case True
    then show ?thesis by (auto simp: Let_def)
  next
    case False
    then have n: "n \<in> set (map_keys T)" using extends_of_has by (simp flip: map_has_iff_keys)
    have small: "card (set (map_keys T) - set ws) + 1 < b" if "set (n # vs) \<subseteq> set ws" for ws
    proof -
      have "card (set (map_keys T) - set ws) \<le> card (set (map_keys T) - insert n (set vs))"
        by (rule card_mono) (use that in auto)
      with card_diff_less [of "set (map_keys T)" n "set vs"] n False Suc.prems show ?thesis by simp
    qed
    from loop_depth [of "extends_of T n" "n # vs" "computeExtendsDepth b T" "n # vs" 0] Suc.IH [OF small]
    obtain m ws where "loop_opt (\<lambda>e (m, vs). map_option (\<lambda>(d, vs'). (max m d, vs')) (computeExtendsDepth b T e vs))
        (extends_of T n) (0, n # vs) = Some (m, ws)" "set (n # vs) \<subseteq> set ws" by blast
    with False show ?thesis by (auto simp: Let_def)
  qed
qed simp

lemma loop_depth_path:
  assumes "\<forall>e vs d vs'. f e vs = Some (d, vs') \<longrightarrow> (\<exists>x. (e, x) \<in> R ^^ d)"
  shows "loop_opt (\<lambda>e (m, vs). map_option (\<lambda>(d, vs'). (max m d, vs')) (f e vs)) es (m, vs) = Some (m', vs') \<Longrightarrow>
    m' = m \<or> (\<exists>e \<in> set es. \<exists>x. (e, x) \<in> R ^^ m')"
proof (induction es arbitrary: m vs)
  case (Cons e es)
  from Cons.prems obtain d vs1 where d: "f e vs = Some (d, vs1)"
    "loop_opt (\<lambda>e (m, vs). map_option (\<lambda>(d, vs'). (max m d, vs')) (f e vs)) es (max m d, vs1) = Some (m', vs')"
    by (auto split: option.splits)
  from Cons.IH [OF d(2)] assms [rule_format, OF d(1)] show ?case
    by (cases "m \<le> d") (auto simp: max_def split: if_splits)
qed simp

lemma computeExtendsDepth_path:
  "computeExtendsDepth b T n vs = Some (d, vs') \<Longrightarrow> \<exists>m. (n, m) \<in> extends_rel T ^^ d"
proof (induction b arbitrary: n vs d vs')
  case (Suc b)
  show ?case
  proof (cases "n \<in> set vs \<or> extends_of T n = []")
    case True
    with Suc.prems have "d = 0" by (auto simp: Let_def split: if_splits)
    then show ?thesis by auto
  next
    case False
    with Suc.prems obtain m where m: "d = m + 1"
      "loop_opt (\<lambda>e (m, vs). map_option (\<lambda>(d, vs'). (max m d, vs')) (computeExtendsDepth b T e vs))
        (extends_of T n) (0, n # vs) = Some (m, vs')" by (auto simp: Let_def)
    have "\<exists>e x. (n, e) \<in> extends_rel T \<and> (e, x) \<in> extends_rel T ^^ m"
    proof (cases "m = 0")
      case True
      obtain e where "e \<in> set (extends_of T n)" using False by (cases "extends_of T n") auto
      with True show ?thesis by (auto simp: extends_rel_def)
    next
      case pos: False
      have "\<forall>e vs d vs'. computeExtendsDepth b T e vs = Some (d, vs') \<longrightarrow> (\<exists>x. (e, x) \<in> extends_rel T ^^ d)"
        using Suc.IH by blast
      from loop_depth_path [OF this m(2)] pos show ?thesis by (auto simp: extends_rel_def)
    qed
    then obtain e x where "(n, e) \<in> extends_rel T" "(e, x) \<in> extends_rel T ^^ m" by blast
    then show ?thesis using relpow_Suc_I2 m(1) by (metis Suc_eq_plus1)
  qed
qed simp

lemma too_deep_iff:
  "too_deep T n \<longleftrightarrow> (\<exists>d vs. computeExtendsDepth (length T + 2) T n [] = Some (d, vs) \<and> d > MaxExtendsDepth)"
proof -
  have "card (set (map_keys T)) \<le> length T" by (metis card_length length_map map_keys_def)
  then obtain d vs where "computeExtendsDepth (length T + 2) T n [] = Some (d, vs)"
    using computeExtendsDepth_total [of T "[]" "length T + 2" n] by auto
  then show ?thesis by (simp add: too_deep_def)
qed

lemma too_deep_path: "too_deep T n \<Longrightarrow> \<exists>d m. (n, m) \<in> extends_rel T ^^ d \<and> d > MaxExtendsDepth"
  unfolding too_deep_iff using computeExtendsDepth_path by blast

section \<open>The whole resolution\<close>

definition start_state :: "test_case gomap \<Rightarrow> ext_state" where
  "start_state T = \<lparr>xs_tests = T, xs_resolved = [], xs_resolving = []\<rparr>"

lemma start_invar: "tests_invar T (start_state T)"
  by (simp add: start_state_def tests_invar_def)

lemma closed_iff: "set o1 = set (map_keys T) \<Longrightarrow> find (\<lambda>n. missing_extends T n \<noteq> None) o1 = None \<longleftrightarrow> closed_tests T"
  unfolding find_None_iff closed_tests_def missing_extends_def
  using extends_of_has [of T] map_has_iff_keys [of T] by (metis empty_iff find_None_iff list.set(1))

lemma loop_no_error:
  assumes T: "closed_tests T" "acyclic (extends_rel T)" and b: "card (set (map_keys T)) < b"
  shows "set ns \<subseteq> set (map_keys T) \<Longrightarrow> tests_invar T s \<Longrightarrow> xs_resolving s = [] \<Longrightarrow> \<exists>s'. loop_err (resolveOne b) ns s = Inr s'"
proof (induction ns arbitrary: s)
  case (Cons n ns)
  then have n: "map_has T n" by (simp add: map_has_iff_keys)
  show ?case
  proof (cases "resolveOne b n s")
    case (Inl e)
    have "\<exists>m. e = CircularExtends m \<and> (m, m) \<in> (extends_rel T)\<^sup>+"
      by (rule resolveOne_error [OF T(1) Cons.prems(2) n Inl]) (use Cons.prems(3) b in simp_all)
    with T(2) show ?thesis by (auto simp: acyclic_def)
  next
    case (Inr s1)
    with resolveOne_step [OF T(1) Cons.prems(2) n Inr] Cons show ?thesis by (simp add: step_ok_def)
  qed
qed simp

lemma resolve_all:
  assumes "closed_tests T" "set o3 = set (map_keys T)" "loop_err (resolveOne b) o3 (start_state T) = Inr s"
  shows "map_keys (xs_tests s) = map_keys T"
    "map_has T n \<Longrightarrow> \<exists>l. lineage T n l \<and> map_of (xs_tests s) n = Some (inherited T n l)"
proof -
  have "\<forall>e s s'. e \<in> set o3 \<longrightarrow> tests_invar T s \<longrightarrow> resolveOne b e s = Inr s' \<longrightarrow> step_ok T s s' \<and> e \<in> set (xs_resolved s')"
    using resolveOne_step [OF assms(1)] assms(2) map_has_iff_keys by metis
  from loop_resolve [OF this start_invar assms(3)] have s: "tests_invar T s" "set o3 \<subseteq> set (xs_resolved s)"
    by (auto simp: step_ok_def)
  then show keys: "map_keys (xs_tests s) = map_keys T" by (simp add: tests_invar_def)
  assume n: "map_has T n"
  with s assms(2) obtain l where "lineage T n l" "test_at (xs_tests s) n = inherited T n l"
    unfolding tests_invar_def map_has_iff_keys by (metis subsetD)
  moreover have "map_has (xs_tests s) n" using n same_keys_has [OF keys] by simp
  ultimately show "\<exists>l. lineage T n l \<and> map_of (xs_tests s) n = Some (inherited T n l)"
    by (auto simp: map_has_def test_at_def split: option.splits)
qed

lemma ResolveExtends_Inr:
  "ResolveExtends o1 o2 o3 T = Inr T' \<longleftrightarrow>
     find (\<lambda>n. missing_extends T n \<noteq> None) o1 = None \<and> find (too_deep T) o2 = None \<and>
     (\<exists>s. loop_err (resolveOne (length T + 2)) o3 (start_state T) = Inr s \<and> T' = xs_tests s)"
  unfolding ResolveExtends_def start_state_def
  by (cases "loop_err (resolveOne (length T + 2)) o3 \<lparr>xs_tests = T, xs_resolved = [], xs_resolving = []\<rparr>")
    (auto split: option.splits)

lemma inherited_extends: "tc_extends (inherited T n l) = []"
  by (simp add: inherited_def extends_test_at)

section \<open>Properties\<close>

text \<open>C34: Inheritance is resolved exactly when every name in an extends list exists, no computed depth is over
  the limit and no test inherits from itself; the order in which the maps are visited does not matter.\<close>

theorem extends_resolves_iff:
  assumes "set o1 = set (map_keys tests)" "set o2 = set (map_keys tests)" "set o3 = set (map_keys tests)"
  shows "(\<exists>r. ResolveExtends o1 o2 o3 tests = Inr r) \<longleftrightarrow>
    closed_tests tests \<and> (\<forall>n \<in> set (map_keys tests). \<not> too_deep tests n) \<and> acyclic (extends_rel tests)"
proof
  assume "\<exists>r. ResolveExtends o1 o2 o3 tests = Inr r"
  then obtain s where s: "closed_tests tests" "find (too_deep tests) o2 = None"
    "loop_err (resolveOne (length tests + 2)) o3 (start_state tests) = Inr s"
    unfolding ResolveExtends_Inr closed_iff [OF assms(1)] by blast
  have "acyclic (extends_rel tests)"
    using resolve_all(2) [OF s(1) assms(3) s(3)] by (intro lineage_acyclic) blast
  with s assms(2) show "closed_tests tests \<and> (\<forall>n \<in> set (map_keys tests). \<not> too_deep tests n) \<and> acyclic (extends_rel tests)"
    by (auto simp: find_None_iff)
next
  assume a: "closed_tests tests \<and> (\<forall>n \<in> set (map_keys tests). \<not> too_deep tests n) \<and> acyclic (extends_rel tests)"
  have "card (set (map_keys tests)) < length tests + 2" by (metis card_length length_map map_keys_def add_2_eq_Suc' le_imp_less_Suc less_SucI)
  then obtain s where "loop_err (resolveOne (length tests + 2)) o3 (start_state tests) = Inr s"
    using loop_no_error [of tests "length tests + 2" o3 "start_state tests"] a assms(3) start_invar by (auto simp: start_state_def)
  moreover have "find (too_deep tests) o2 = None" using a assms(2) by (simp add: find_None_iff)
  ultimately show "\<exists>r. ResolveExtends o1 o2 o3 tests = Inr r"
    unfolding ResolveExtends_Inr closed_iff [OF assms(1)] using a by blast
qed

definition sample_tests :: "test_case gomap" where
  "sample_tests = [(''child'', (empty_test ''child'')\<lparr>tc_extends := [''_a'', ''_b''], tc_args := [''c'']\<rparr>),
     (''_a'', (empty_test ''_a'')\<lparr>tc_args := [''a''], tc_command := [''run'']\<rparr>),
     (''_b'', (empty_test ''_b'')\<lparr>tc_extends := [''_a''], tc_args := [''b'']\<rparr>)]"

abbreviation sample_order :: "string list" where
  "sample_order \<equiv> [''_b'', ''child'', ''_a'']"

theorem extends_resolves_iff_witness:
  "acyclic (extends_rel sample_tests)"
proof -
  have "set sample_order = set (map_keys sample_tests)" by (auto simp: sample_tests_def map_keys_def)
  note i = extends_resolves_iff [OF this this this]
  have "\<not> isl (ResolveExtends sample_order sample_order sample_order sample_tests)" by code_simp
  then have "\<exists>r. ResolveExtends sample_order sample_order sample_order sample_tests = Inr r" by (metis isl_def sum.exhaust)
  with i show ?thesis by blast
qed

text \<open>C33: A resolved test is the merge, in order, of the one lineage it has: the lineages of the tests it extends,
  left to right, and the test itself.  Names stay, a test that extends nothing is unchanged and no reference
  is left.\<close>

theorem extends_merges_lineage:
  assumes "set o1 = set (map_keys tests)" "set o3 = set (map_keys tests)" "ResolveExtends o1 o2 o3 tests = Inr r"
  shows "map_keys r = map_keys tests \<and>
    (\<forall>n. map_has tests n \<longrightarrow> (\<exists>!l. lineage tests n l) \<and>
       (\<exists>l t. lineage tests n l \<and> map_of r n = Some t \<and> t = inherited tests n l \<and> tc_extends t = []))"
proof
  obtain s where s: "closed_tests tests" "loop_err (resolveOne (length tests + 2)) o3 (start_state tests) = Inr s" "r = xs_tests s"
    using assms(3) unfolding ResolveExtends_Inr closed_iff [OF assms(1)] by blast
  from resolve_all(1) [OF s(1) assms(2) s(2)] s(3) show "map_keys r = map_keys tests" by simp
  show "\<forall>n. map_has tests n \<longrightarrow> (\<exists>!l. lineage tests n l) \<and>
       (\<exists>l t. lineage tests n l \<and> map_of r n = Some t \<and> t = inherited tests n l \<and> tc_extends t = [])"
    using resolve_all(2) [OF s(1) assms(2) s(2)] lineage_unique inherited_extends unfolding s(3) by metis
qed

theorem extends_merges_lineage_witness:
  "\<exists>r t. ResolveExtends sample_order sample_order sample_order sample_tests = Inr r \<and> map_keys r = map_keys sample_tests \<and>
     map_of r ''child'' = Some t \<and> tc_extends t = [] \<and> tc_args t = [''a'', ''a'', ''b'', ''c'']"
proof -
  let ?R = "ResolveExtends sample_order sample_order sample_order sample_tests"
  have "set sample_order = set (map_keys sample_tests)" by (auto simp: sample_tests_def map_keys_def)
  moreover have e: "\<not> isl ?R" "map_option tc_args (map_of (projr ?R) ''child'') = Some [''a'', ''a'', ''b'', ''c'']" by code_simp+
  ultimately have r: "map_keys (projr ?R) = map_keys sample_tests \<and>
    (\<forall>n. map_has sample_tests n \<longrightarrow> (\<exists>!l. lineage sample_tests n l) \<and>
       (\<exists>l t. lineage sample_tests n l \<and> map_of (projr ?R) n = Some t \<and> t = inherited sample_tests n l \<and> tc_extends t = []))"
    using extends_merges_lineage [OF _ _ Inr_projr [OF e(1)]] by blast
  then have k: "map_keys (projr ?R) = map_keys sample_tests" by blast
  have "map_has sample_tests ''child''" by (simp add: sample_tests_def map_has_def)
  with r have "\<exists>t. map_of (projr ?R) ''child'' = Some t \<and> tc_extends t = []" by blast
  then obtain t where "map_of (projr ?R) ''child'' = Some t" "tc_extends t = []" by blast
  with e(2) k Inr_projr [OF e(1)] show ?thesis by (intro exI [of _ "projr ?R"] exI [of _ t]) simp
qed

definition chain_name :: "nat \<Rightarrow> string" where
  "chain_name i = CHR ''c'' # replicate i CHR ''x''"

definition deep_tests :: "test_case gomap" where
  "deep_tests = (''t'', (empty_test ''t'')\<lparr>tc_extends := [chain_name 1, chain_name 0]\<rparr>) #
     map (\<lambda>i. (chain_name i, (empty_test (chain_name i))\<lparr>tc_extends := (if i < 10 then [chain_name (Suc i)] else [])\<rparr>)) [0..<11]"

text \<open>The limit on the depth is not kept: a test that is first met on a short way counts for nothing on the long
  one, so that a chain of eleven references is accepted.\<close>

theorem extends_limit_exceeded:
  "\<not> isl (ResolveExtends (map_keys deep_tests) (map_keys deep_tests) (map_keys deep_tests) deep_tests) \<and>
   (''t'', chain_name 10) \<in> extends_rel deep_tests ^^ 11 \<and> MaxExtendsDepth < 11"
proof -
  have e: "\<not> isl (ResolveExtends (map_keys deep_tests) (map_keys deep_tests) (map_keys deep_tests) deep_tests)" by code_simp
  have "chain_name 0 \<in> set (extends_of deep_tests ''t'')" by code_simp
  then have first: "(''t'', chain_name 0) \<in> extends_rel deep_tests" by (simp add: extends_rel_def)
  have "list_all (\<lambda>i. chain_name (Suc i) \<in> set (extends_of deep_tests (chain_name i))) [0..<10]" by code_simp
  then have links: "\<forall>i < 10. (chain_name i, chain_name (Suc i)) \<in> extends_rel deep_tests"
    by (simp add: extends_rel_def list_all_iff)
  have "i \<le> 10 \<Longrightarrow> (chain_name 0, chain_name i) \<in> extends_rel deep_tests ^^ i" for i
    by (induction i) (use links in auto)
  from relpow_Suc_I2 [OF first this [of 10]] have "(''t'', chain_name 10) \<in> extends_rel deep_tests ^^ Suc 10" by simp
  with e show ?thesis by (simp add: MaxExtendsDepth_def numeral_eq_Suc)
qed

end
