(* ===== verification/Test_Snapshot.thy ===== *)
theory Test_Snapshot
  imports Test_Types "HOL-Library.Sublist"
begin

text \<open>
  \<open>pkg/solution/soltesting/snapshot.go\<close>: masks, the manifest of rendered files and the line diff with its
  longest common subsequence.  The regular expression engine, glob matching and the JSON re-encoding are
  parameters (\<open>mask_env\<close>); reading and writing the golden file is not modelled.
\<close>

section \<open>Masks\<close>

datatype mask_pattern = PresetPattern string | CustomPattern string

record mask_env =
  me_compiles :: "string \<Rightarrow> bool"
  me_count :: "mask_pattern \<Rightarrow> string \<Rightarrow> nat"
  me_replace :: "mask_pattern \<Rightarrow> string \<Rightarrow> string \<Rightarrow> string"
  me_glob :: "string \<Rightarrow> string \<Rightarrow> bool option"
  me_json :: "string \<Rightarrow> string option"

definition preset_placeholder :: "string \<Rightarrow> string" where
  "preset_placeholder n =
     (if n = ''timestamp'' then ''<TIMESTAMP>'' else if n = ''uuid'' then ''<UUID>''
      else if n = ''sandbox'' then ''<SANDBOX>'' else if n = ''email'' then ''<EMAIL>''
      else if n = ''ipv4'' then ''<IPV4>'' else ''<MAC>'')"

record compiled_mask =
  cm_key :: string
  cm_pattern :: string
  cm_placeholder :: string
  cm_path :: string

record mask_set =
  ms_enabled :: "bool gomap"
  ms_custom :: "compiled_mask list"

definition maskKey :: "snapshot_mask \<Rightarrow> string" where
  "maskKey m = (if mk_name m \<noteq> [] then mk_name m else mk_pattern m)"

definition add_mask :: "mask_env \<Rightarrow> snapshot_mask \<Rightarrow> mask_set \<Rightarrow> mask_set" where
  "add_mask env m ms =
     (if mk_use m \<noteq> [] then ms\<lparr>ms_enabled := map_put (mk_use m) (\<not> mk_disabled m) (ms_enabled ms)\<rparr>
      else if \<not> me_compiles env (mk_pattern m) then ms
      else ms\<lparr>ms_custom := ms_custom ms @
        [\<lparr>cm_key = maskKey m, cm_pattern = mk_pattern m, cm_placeholder = mk_placeholder m, cm_path = mk_path m\<rparr>]\<rparr>)"

definition buildMaskSet :: "mask_env \<Rightarrow> snapshot_mask list \<Rightarrow> mask_set" where
  "buildMaskSet env masks =
     fold (add_mask env) masks \<lparr>ms_enabled = fold (\<lambda>(n, b). map_put n b) presetList [], ms_custom = []\<rparr>"

type_synonym counts = "nat gomap"

definition add_count :: "string \<Rightarrow> nat \<Rightarrow> counts \<Rightarrow> counts" where
  "add_count k n cs = map_put k (map_get 0 cs k + n) cs"

text \<open>\<open>strings.Count\<close> and \<open>strings.ReplaceAll\<close> of a text that is not empty.\<close>

lemma strings_Cut_shorter: "strings_Cut s p = Some (a, b) \<Longrightarrow> p \<noteq> [] \<Longrightarrow> length b < length s"
  using strings_Cut_Some by fastforce

function strings_Count :: "string \<Rightarrow> string \<Rightarrow> nat" where
  "strings_Count s p =
     (if p = [] then 0 else case strings_Cut s p of None \<Rightarrow> 0 | Some (a, b) \<Rightarrow> Suc (strings_Count b p))"
  by pat_completeness auto
termination by (relation "measure (\<lambda>(s, p). length s)") (auto dest: strings_Cut_shorter)

function strings_ReplaceAll :: "string \<Rightarrow> string \<Rightarrow> string \<Rightarrow> string" where
  "strings_ReplaceAll s p r =
     (if p = [] then s else case strings_Cut s p of None \<Rightarrow> s | Some (a, b) \<Rightarrow> a @ r @ strings_ReplaceAll b p r)"
  by pat_completeness auto
termination by (relation "measure (\<lambda>(s, p, r). length s)") (auto dest: strings_Cut_shorter)

definition applyPreset :: "mask_env \<Rightarrow> string \<Rightarrow> string \<Rightarrow> string \<times> counts \<Rightarrow> string \<times> counts" where
  "applyPreset env sandbox p = (\<lambda>(input, cs).
     (if p = ''sandbox'' then
        (if sandbox = [] then (input, cs)
         else let n = strings_Count input sandbox in
           if n > 0 then (strings_ReplaceAll input sandbox (preset_placeholder p), add_count p n cs) else (input, cs))
      else let n = me_count env (PresetPattern p) input in
        if n > 0 then (me_replace env (PresetPattern p) input (preset_placeholder p), add_count p n cs) else (input, cs)))"

definition normalizeJSON :: "mask_env \<Rightarrow> string \<Rightarrow> string" where
  "normalizeJSON env input =
     (case strings_TrimSpace input of
        [] \<Rightarrow> input
      | c # cs \<Rightarrow>
          if c = CHR 0x7B \<or> c = CHR 0x5B then
            (case me_json env (c # cs) of
               None \<Rightarrow> input
             | Some s \<Rightarrow> if last input = CHR 0x0A then s @ [CHR 0x0A] else s)
          else input)"

definition apply_custom :: "mask_env \<Rightarrow> string \<Rightarrow> compiled_mask \<Rightarrow> string \<times> counts \<Rightarrow> string \<times> counts" where
  "apply_custom env file cm = (\<lambda>(result, cs).
     (if cm_path cm \<noteq> [] \<and> (file = [] \<or> me_glob env (cm_path cm) file \<noteq> Some True) then (result, cs)
      else let n = me_count env (CustomPattern (cm_pattern cm)) result in
        if n > 0 then (me_replace env (CustomPattern (cm_pattern cm)) result (cm_placeholder cm), add_count (cm_key cm) n cs)
        else (result, cs)))"

definition mask_apply :: "mask_env \<Rightarrow> mask_set \<Rightarrow> string \<Rightarrow> string \<Rightarrow> string \<Rightarrow> counts \<Rightarrow> string \<times> counts" where
  "mask_apply env ms input sandbox file cs =
     (let st = (normalizeJSON env input, cs);
          st = fold (\<lambda>(n, _) st. if map_get False (ms_enabled ms) n then applyPreset env sandbox n st else st) presetList st
      in fold (apply_custom env file) (ms_custom ms) st)"

definition Normalize :: "mask_env \<Rightarrow> string \<Rightarrow> string \<Rightarrow> string" where
  "Normalize env input sandbox = fst (mask_apply env (buildMaskSet env []) input sandbox [] [])"

section \<open>The manifest\<close>

definition manifest_entry ::
  "mask_env \<Rightarrow> mask_set \<Rightarrow> file_info gomap \<Rightarrow> string \<Rightarrow> string \<Rightarrow> string \<times> counts \<Rightarrow> string \<times> counts" where
  "manifest_entry env ms files sandbox p = (\<lambda>(out, cs).
     (let (t, cs) = mask_apply env ms (fi_content (map_get \<lparr>fi_exists = False, fi_content = []\<rparr> files p)) sandbox p cs
      in (out @ ''=== '' @ p @ '' ==='' @ [CHR 0x0A] @ t @ (if t \<noteq> [] \<and> last t = CHR 0x0A then [] else [CHR 0x0A]), cs)))"

definition BuildFileManifest :: "mask_env \<Rightarrow> file_info gomap \<Rightarrow> string \<Rightarrow> snapshot_mask list \<Rightarrow> string \<times> counts" where
  "BuildFileManifest env files sandbox masks =
     fold (manifest_entry env (buildMaskSet env masks) files sandbox) (sort (map_keys files)) ([], [])"

section \<open>The longest common subsequence\<close>

text \<open>
  The table by rows: the cells of a row from the row above it, whose two cells \<open>p\<close> and \<open>q\<close> are above left
  and above, and the cell to the left.
\<close>

fun dp_cells :: "string \<Rightarrow> string list \<Rightarrow> nat list \<Rightarrow> nat \<Rightarrow> nat list" where
  "dp_cells x (y # ys) (p # q # ps) left =
     (let v = if x = y then p + 1 else max q left in v # dp_cells x ys (q # ps) v)"
| "dp_cells x _ _ left = []"

primrec dp_rows :: "string list \<Rightarrow> string list \<Rightarrow> nat list \<Rightarrow> nat list list" where
  "dp_rows [] ys row = [row]"
| "dp_rows (x # xs) ys row = row # dp_rows xs ys (0 # dp_cells x ys row 0)"

definition dp_table :: "string list \<Rightarrow> string list \<Rightarrow> nat list list" where
  "dp_table a b = dp_rows a b (replicate (Suc (length b)) 0)"

text \<open>The lines found on the way back, the last first.\<close>

function backtrack :: "string list \<Rightarrow> string list \<Rightarrow> nat list list \<Rightarrow> nat \<Rightarrow> nat \<Rightarrow> string list" where
  "backtrack a b dp i j =
     (if i = 0 \<or> j = 0 then []
      else if a ! (i - 1) = b ! (j - 1) then a ! (i - 1) # backtrack a b dp (i - 1) (j - 1)
      else if dp ! (i - 1) ! j > dp ! i ! (j - 1) then backtrack a b dp (i - 1) j
      else backtrack a b dp i (j - 1))"
  by pat_completeness auto
termination by (relation "measure (\<lambda>(a, b, dp, i, j). i + j)") auto

declare backtrack.simps [simp del]

definition computeLCS :: "string list \<Rightarrow> string list \<Rightarrow> string list" where
  "computeLCS a b =
     (if length a > 0 \<and> length b > 1000000 div length a then []
      else rev (backtrack a b (dp_table a b) (length a) (length b)))"

section \<open>The diff\<close>

datatype diff_op = Same | Removed | Added

record diff_line =
  dl_op :: diff_op
  dl_line :: string

definition as_op :: "diff_op \<Rightarrow> string \<Rightarrow> diff_line" where
  "as_op d l = \<lparr>dl_op = d, dl_line = l\<rparr>"

primrec diff_walk :: "string list \<Rightarrow> string list \<Rightarrow> string list \<Rightarrow> diff_line list" where
  "diff_walk [] es as = map (as_op Removed) es @ map (as_op Added) as"
| "diff_walk (l # ls) es as =
     map (as_op Removed) (takeWhile (\<lambda>x. x \<noteq> l) es) @ map (as_op Added) (takeWhile (\<lambda>x. x \<noteq> l) as) @ [as_op Same l] @
     diff_walk ls (tl (dropWhile (\<lambda>x. x \<noteq> l) es)) (tl (dropWhile (\<lambda>x. x \<noteq> l) as))"

definition computeDiffLines :: "string list \<Rightarrow> string list \<Rightarrow> diff_line list" where
  "computeDiffLines expected actual = diff_walk (computeLCS expected actual) expected actual"

definition is_context :: "diff_line \<Rightarrow> bool" where
  "is_context c = (dl_op c = Same)"

text \<open>How many lines belong to the hunk that starts with the first of these.\<close>

function hunk_length :: "diff_line list \<Rightarrow> nat" where
  "hunk_length [] = 0"
| "hunk_length (c # cs) =
     (if \<not> is_context c then Suc (hunk_length cs)
      else let k = length (takeWhile is_context (c # cs)) in
        if k \<le> 6 \<and> k < length (c # cs) then k + hunk_length (drop k (c # cs)) else min k 3)"
  by pat_completeness auto
termination by (relation "measure length") auto

declare hunk_length.simps [simp del]

lemma hunk_length_pos: "\<not> is_context c \<Longrightarrow> 0 < hunk_length (c # cs)"
  by (simp add: hunk_length.simps)

text \<open>The lines shown: of the unchanged lines before a change the last three, then its hunk.\<close>

function hunks :: "diff_line list \<Rightarrow> diff_line list" where
  "hunks cs =
     (let before = takeWhile is_context cs; rest = dropWhile is_context cs in
      if rest = [] then []
      else drop (length before - 3) before @ take (hunk_length rest) rest @ hunks (drop (hunk_length rest) rest))"
  by pat_completeness auto
termination
proof (relation "measure length", goal_cases)
  case (2 cs before rest)
  then have "0 < hunk_length rest"
    using hd_dropWhile [of is_context cs] hunk_length_pos by (metis list.exhaust_sel)
  then have "length (drop (hunk_length rest) rest) < length rest" using 2 by simp
  moreover have "length rest \<le> length cs" using 2 by (simp add: length_dropWhile_le)
  ultimately show ?case by simp
qed simp

declare hunks.simps [simp del]

definition op_char :: "diff_op \<Rightarrow> char" where
  "op_char d = (case d of Same \<Rightarrow> CHR 0x20 | Removed \<Rightarrow> CHR 0x2D | Added \<Rightarrow> CHR 0x2B)"

definition emit_line :: "diff_line \<Rightarrow> string" where
  "emit_line c = op_char (dl_op c) # dl_line c @ [CHR 0x0A]"

fun split_lines :: "string \<Rightarrow> string list" where
  "split_lines [] = [[]]"
| "split_lines (c # cs) =
     (if c = CHR 0x0A then [] # split_lines cs
      else (case split_lines cs of [] \<Rightarrow> [[c]] | s # ss \<Rightarrow> (c # s) # ss))"

definition unifiedDiff :: "string \<Rightarrow> string \<Rightarrow> string \<Rightarrow> string" where
  "unifiedDiff expected actual path =
     ''--- expected ('' @ path @ '')'' @ [CHR 0x0A] @ ''+++ actual'' @ [CHR 0x0A] @
     concat (map emit_line (hunks (computeDiffLines (split_lines expected) (split_lines actual))))"

text \<open>\<open>None\<close> is a golden file that cannot be read; the diff is present when the texts differ.\<close>

definition compareNormalized :: "string \<Rightarrow> string option \<Rightarrow> string \<Rightarrow> string option option" where
  "compareNormalized normalized golden path =
     map_option (\<lambda>g. if normalized = g then None else Some (unifiedDiff g normalized path)) golden"

section \<open>The subsequence is longest\<close>

text \<open>The reference: the length by recursion from the front.\<close>

fun lcs_len :: "'a list \<Rightarrow> 'a list \<Rightarrow> nat" where
  "lcs_len (x # xs) (y # ys) =
     (if x = y then lcs_len xs ys + 1 else max (lcs_len xs (y # ys)) (lcs_len (x # xs) ys))"
| "lcs_len _ _ = 0"

lemma lcs_len_Nil [simp]: "lcs_len xs [] = 0"
  by (cases xs) simp_all

lemma lcs_len_greatest: "subseq s xs \<Longrightarrow> subseq s ys \<Longrightarrow> length s \<le> lcs_len xs ys"
proof (induction xs ys arbitrary: s rule: lcs_len.induct)
  case (1 x xs y ys)
  show ?case
  proof (cases s)
    case (Cons z s')
    consider "x = y" "z = x" | "x = y" "z \<noteq> x" | "x \<noteq> y" "z \<noteq> x" | "x \<noteq> y" "z \<noteq> y" by blast
    then show ?thesis
    proof cases
      case 1
      with "1.prems" have "subseq s' xs" "subseq s' ys" by (simp_all add: Cons)
      with "1.IH"(1) 1 show ?thesis by (simp add: Cons)
    next
      case 2
      with "1.prems" have "subseq s xs" "subseq s ys" by (simp_all add: Cons)
      with "1.IH"(1) 2 show ?thesis by fastforce
    next
      case 3
      with "1.prems" have "subseq s xs" by (simp add: Cons)
      from "1.IH"(2) [OF 3(1) this "1.prems"(2)] 3 show ?thesis by simp
    next
      case 4
      with "1.prems" have "subseq s ys" by (simp add: Cons)
      from "1.IH"(3) [OF 4(1) "1.prems"(1) this] 4 show ?thesis by simp
    qed
  qed simp
qed simp_all

text \<open>A row of the table; \<open>r\<close> is the reversed prefix of the second sequence.\<close>

primrec row_of :: "'a list \<Rightarrow> 'a list \<Rightarrow> 'a list \<Rightarrow> nat list" where
  "row_of P r [] = [lcs_len P r]"
| "row_of P r (y # ys) = lcs_len P r # row_of P (y # r) ys"

lemma row_of_hd: "row_of P r ys = lcs_len P r # tl (row_of P r ys)"
  by (cases ys) simp_all

lemma row_of_nth: "j \<le> length ys \<Longrightarrow> row_of P r ys ! j = lcs_len P (rev (take j ys) @ r)"
proof (induction ys arbitrary: j r)
  case (Cons y ys)
  then show ?case by (cases j) simp_all
qed simp

lemma row_of_Nil: "row_of [] r ys = replicate (Suc (length ys)) 0"
  by (induction ys arbitrary: r) simp_all

lemma dp_cells_len: "dp_cells x ys (row_of P r ys) (lcs_len (x # P) r) = tl (row_of (x # P) r ys)"
proof (induction ys arbitrary: r)
  case (Cons y ys)
  obtain ps where ps: "row_of P (y # r) ys = lcs_len P (y # r) # ps" using row_of_hd by blast
  obtain qs where qs: "row_of (x # P) (y # r) ys = lcs_len (x # P) (y # r) # qs" using row_of_hd by blast
  from Cons.IH [of "y # r"] show ?case by (simp add: Let_def ps qs)
qed simp

lemma dp_rows_len: "i \<le> length xs \<Longrightarrow> dp_rows xs b (row_of P [] b) ! i = row_of (rev (take i xs) @ P) [] b"
proof (induction xs arbitrary: i P)
  case (Cons x xs)
  have next_row: "0 # dp_cells x b (row_of P [] b) 0 = row_of (x # P) [] b"
    using dp_cells_len [of x b P "[]"] row_of_hd [of "x # P" "[]" b] by simp
  show ?case
  proof (cases i)
    case (Suc j)
    with Cons.IH [of j "x # P"] Cons.prems show ?thesis by (simp add: next_row)
  qed simp
qed simp

lemma dp_table_len:
  assumes "i \<le> length a" "j \<le> length b"
  shows "dp_table a b ! i ! j = lcs_len (rev (take i a)) (rev (take j b))"
  using dp_rows_len [OF assms(1), of b "[]"] row_of_nth [OF assms(2), of _ "[]"] row_of_Nil [of "[]" b] by (simp add: dp_table_def)

lemma subseq_rev: "subseq xs ys \<Longrightarrow> subseq (rev xs) (rev ys)"
  by (induction rule: list_emb.induct) (auto intro: subseq_rev_drop_many list_emb_append_mono)

lemma rev_take_Suc: "0 < i \<Longrightarrow> i \<le> length a \<Longrightarrow> rev (take i a) = a ! (i - 1) # rev (take (i - 1) a)"
  by (cases i) (simp_all add: take_Suc_conv_app_nth)

lemma backtrack_facts:
  "i \<le> length a \<Longrightarrow> j \<le> length b \<Longrightarrow>
   subseq (backtrack a b (dp_table a b) i j) (rev (take i a)) \<and>
   subseq (backtrack a b (dp_table a b) i j) (rev (take j b)) \<and>
   length (backtrack a b (dp_table a b) i j) = lcs_len (rev (take i a)) (rev (take j b))"
proof (induction "i + j" arbitrary: i j rule: less_induct)
  case less
  show ?case
  proof (cases "i = 0 \<or> j = 0")
    case True
    then show ?thesis by (auto simp: backtrack.simps [of a b _ i j])
  next
    case False
    then have ra: "rev (take i a) = a ! (i - 1) # rev (take (i - 1) a)" and rb: "rev (take j b) = b ! (j - 1) # rev (take (j - 1) b)"
      using rev_take_Suc less.prems by auto
    have i1: "i - 1 \<le> length a" "j - 1 \<le> length b" using less.prems by auto
    consider "a ! (i - 1) = b ! (j - 1)"
      | "a ! (i - 1) \<noteq> b ! (j - 1)" "dp_table a b ! (i - 1) ! j > dp_table a b ! i ! (j - 1)"
      | "a ! (i - 1) \<noteq> b ! (j - 1)" "\<not> dp_table a b ! (i - 1) ! j > dp_table a b ! i ! (j - 1)" by blast
    then show ?thesis
    proof cases
      case 1
      with False have e: "backtrack a b (dp_table a b) i j = a ! (i - 1) # backtrack a b (dp_table a b) (i - 1) (j - 1)"
        by (simp add: backtrack.simps [of a b _ i j])
      have "i - 1 + (j - 1) < i + j" using False by simp
      from less.hyps [OF this i1] 1 show ?thesis unfolding e ra rb by simp
    next
      case 2
      with False have e: "backtrack a b (dp_table a b) i j = backtrack a b (dp_table a b) (i - 1) j"
        by (simp add: backtrack.simps [of a b _ i j])
      have "lcs_len (rev (take i a)) (rev (take (j - 1) b)) < lcs_len (rev (take (i - 1) a)) (rev (take j b))"
        using 2(2) dp_table_len less.prems i1 by simp
      then have "lcs_len (rev (take i a)) (rev (take j b)) = lcs_len (rev (take (i - 1) a)) (rev (take j b))"
        using 2(1) unfolding ra rb by simp
      moreover have "i - 1 + j < i + j" using False by simp
      note less.hyps [OF this i1(1) less.prems(2)]
      ultimately show ?thesis unfolding e by (simp add: ra list_emb_Cons)
    next
      case 3
      with False have e: "backtrack a b (dp_table a b) i j = backtrack a b (dp_table a b) i (j - 1)"
        by (simp add: backtrack.simps [of a b _ i j])
      have "\<not> lcs_len (rev (take i a)) (rev (take (j - 1) b)) < lcs_len (rev (take (i - 1) a)) (rev (take j b))"
        using 3(2) dp_table_len less.prems i1 by simp
      then have "lcs_len (rev (take i a)) (rev (take j b)) = lcs_len (rev (take i a)) (rev (take (j - 1) b))"
        using 3(1) unfolding ra rb by simp
      moreover have "i + (j - 1) < i + j" using False by simp
      note less.hyps [OF this less.prems(1) i1(2)]
      ultimately show ?thesis unfolding e by (simp add: rb list_emb_Cons)
    qed
  qed
qed

lemma computeLCS_common: "subseq (computeLCS a b) a \<and> subseq (computeLCS a b) b"
proof -
  let ?t = "backtrack a b (dp_table a b) (length a) (length b)"
  have "subseq ?t (rev a)" "subseq ?t (rev b)"
    using backtrack_facts [of "length a" a "length b" b] by simp_all
  from this [THEN subseq_rev] show ?thesis by (simp add: computeLCS_def)
qed

lemma computeLCS_longest:
  assumes "a = [] \<or> length b \<le> 1000000 div length a" "subseq s a" "subseq s b"
  shows "length s \<le> length (computeLCS a b)"
proof -
  have "length (computeLCS a b) = lcs_len (rev a) (rev b)"
    using assms(1) backtrack_facts [of "length a" a "length b" b] by (auto simp: computeLCS_def)
  moreover have "length (rev s) \<le> lcs_len (rev a) (rev b)"
    by (rule lcs_len_greatest [OF subseq_rev [OF assms(2)] subseq_rev [OF assms(3)]])
  ultimately show ?thesis by simp
qed

section \<open>What the diff shows\<close>

fun join_lines :: "string list \<Rightarrow> string" where
  "join_lines [] = []"
| "join_lines [l] = l"
| "join_lines (l # m # ls) = l @ CHR 0x0A # join_lines (m # ls)"

lemma split_lines_nonempty: "split_lines s \<noteq> []"
  by (cases s) (auto split: list.splits)

lemma join_split: "join_lines (split_lines s) = s"
proof (induction s)
  case (Cons c cs)
  obtain l ls where "split_lines cs = l # ls" using split_lines_nonempty [of cs] by (cases "split_lines cs") auto
  with Cons show ?case by (cases ls) auto
qed simp

lemma subseq_first:
  "subseq (l # ls) xs \<Longrightarrow> xs = takeWhile (\<lambda>x. x \<noteq> l) xs @ l # tl (dropWhile (\<lambda>x. x \<noteq> l) xs) \<and> subseq ls (tl (dropWhile (\<lambda>x. x \<noteq> l) xs))"
  by (induction xs) (auto split: if_splits)

lemma filter_as_op [simp]: "filter (\<lambda>c. dl_op c \<noteq> d) (map (as_op e) xs) = (if d = e then [] else map (as_op e) xs)"
  "map dl_line (map (as_op e) xs) = xs" "dl_op (as_op e x) = e" "dl_line (as_op e x) = x"
  "filter (\<lambda>c. dl_op c = d) (map (as_op e) xs) = (if d = e then map (as_op e) xs else [])"
  by (simp_all add: as_op_def comp_def)

lemma diff_walk_facts:
  "subseq ls es \<Longrightarrow> subseq ls as \<Longrightarrow>
   map dl_line (filter (\<lambda>c. dl_op c \<noteq> Added) (diff_walk ls es as)) = es \<and>
   map dl_line (filter (\<lambda>c. dl_op c \<noteq> Removed) (diff_walk ls es as)) = as \<and>
   map dl_line (filter (\<lambda>c. dl_op c = Same) (diff_walk ls es as)) = ls"
proof (induction ls arbitrary: es as)
  case (Cons l ls)
  note e = subseq_first [OF Cons.prems(1)] and a = subseq_first [OF Cons.prems(2)]
  from Cons.IH [OF e [THEN conjunct2] a [THEN conjunct2]] e [THEN conjunct1] a [THEN conjunct1]
  show ?case by (simp del: map_map)
qed (simp del: map_map)

lemma computeDiffLines_facts:
  "map dl_line (filter (\<lambda>c. dl_op c \<noteq> Added) (computeDiffLines es as)) = es"
  "map dl_line (filter (\<lambda>c. dl_op c \<noteq> Removed) (computeDiffLines es as)) = as"
  "map dl_line (filter (\<lambda>c. dl_op c = Same) (computeDiffLines es as)) = computeLCS es as"
  using diff_walk_facts [of "computeLCS es as" es as] computeLCS_common [of es as] by (simp_all add: computeDiffLines_def)

lemma hunks_facts:
  "filter (\<lambda>c. \<not> is_context c) (hunks cs) = filter (\<lambda>c. \<not> is_context c) cs \<and> subseq (hunks cs) cs"
proof (induction cs rule: hunks.induct)
  case (1 cs)
  let ?before = "takeWhile is_context cs" and ?rest = "dropWhile is_context cs"
  have none: "filter (\<lambda>c. \<not> is_context c) ?before = []"
    by (auto simp: filter_empty_conv dest: set_takeWhileD)
  have none': "filter (\<lambda>c. \<not> is_context c) (drop k ?before) = []" for k
    using none by (auto simp: filter_empty_conv dest: in_set_dropD)
  have cs: "cs = ?before @ ?rest" by simp
  show ?case
  proof (cases "?rest = []")
    case True
    with cs have "cs = ?before" by (metis append_Nil2)
    with none True show ?thesis by (simp add: hunks.simps [of cs])
  next
    case False
    let ?n = "hunk_length ?rest"
    have h: "hunks cs = drop (length ?before - 3) ?before @ take ?n ?rest @ hunks (drop ?n ?rest)"
      unfolding hunks.simps [of cs] Let_def by (simp only: False if_False)
    from "1.IH" [OF refl refl False] have ih: "filter (\<lambda>c. \<not> is_context c) (hunks (drop ?n ?rest)) = filter (\<lambda>c. \<not> is_context c) (drop ?n ?rest)"
      "subseq (hunks (drop ?n ?rest)) (drop ?n ?rest)" by blast+
    have "filter (\<lambda>c. \<not> is_context c) (hunks cs) = filter (\<lambda>c. \<not> is_context c) (take ?n ?rest @ drop ?n ?rest)"
      unfolding h filter_append none' ih(1) by simp
    also have "\<dots> = filter (\<lambda>c. \<not> is_context c) cs"
      by (subst (2) cs, unfold filter_append none append_take_drop_id) (simp flip: filter_append)
    finally have "filter (\<lambda>c. \<not> is_context c) (hunks cs) = filter (\<lambda>c. \<not> is_context c) cs" .
    moreover have "subseq (hunks cs) (?before @ take ?n ?rest @ drop ?n ?rest)"
      unfolding h by (intro list_emb_append_mono ih(2) suffix_imp_subseq suffix_drop) simp_all
    ultimately show ?thesis by simp
  qed
qed

lemma diff_walk_same: "diff_walk ls ls ls = map (as_op Same) ls"
  by (induction ls) simp_all

lemma hunks_context: "\<forall>c \<in> set cs. is_context c \<Longrightarrow> hunks cs = []"
  using takeWhile_eq_all_conv [of is_context cs] dropWhile_eq_Nil_conv [of is_context cs] by (simp add: hunks.simps [of cs] Let_def)

lemma hunks_empty_iff:
  "hunks (computeDiffLines es as) = [] \<longleftrightarrow> computeLCS es as = es \<and> computeLCS es as = as"
proof
  assume "hunks (computeDiffLines es as) = []"
  then have same: "\<forall>c \<in> set (computeDiffLines es as). dl_op c = Same"
    using hunks_facts [of "computeDiffLines es as"] by (metis (mono_tags, lifting) filter.simps(1) filter_empty_conv is_context_def)
  then have "filter (\<lambda>c. dl_op c \<noteq> Added) (computeDiffLines es as) = computeDiffLines es as"
    "filter (\<lambda>c. dl_op c \<noteq> Removed) (computeDiffLines es as) = computeDiffLines es as"
    "filter (\<lambda>c. dl_op c = Same) (computeDiffLines es as) = computeDiffLines es as"
    by (simp_all add: filter_id_conv)
  then show "computeLCS es as = es \<and> computeLCS es as = as" using computeDiffLines_facts [of es as] by metis
next
  assume "computeLCS es as = es \<and> computeLCS es as = as"
  then have "computeDiffLines es as = map (as_op Same) es" using diff_walk_same by (metis computeDiffLines_def)
  then show "hunks (computeDiffLines es as) = []" by (intro hunks_context) (auto simp: is_context_def)
qed

section \<open>The order of the files\<close>

lemma manifest_entry_cong:
  "map_of f = map_of g \<Longrightarrow> manifest_entry env ms f sandbox = manifest_entry env ms g sandbox"
  by (rule ext) (simp add: manifest_entry_def map_get_def)

lemma manifest_same:
  assumes "distinct (map_keys f)" "distinct (map_keys g)" "map_of f = map_of g"
  shows "BuildFileManifest env f sandbox masks = BuildFileManifest env g sandbox masks"
proof -
  have "set (map_keys f) = set (map_keys g)"
    using assms(3) by (auto simp flip: map_has_iff_keys simp: map_has_def)
  then have "sort (map_keys f) = sort (map_keys g)"
    using assms(1,2) by (intro sorted_distinct_set_unique) simp_all
  then show ?thesis
    by (simp add: BuildFileManifest_def manifest_entry_cong [OF assms(3)])
qed

section \<open>Properties\<close>

text \<open>C35: The diff of two texts loses nothing: without the added lines it is the expected text, without the removed
  lines the actual one, its unchanged lines are the common subsequence; the hunks shown are a part of it, in
  order, with every changed line, and there is none exactly when the common subsequence is both texts.\<close>

theorem diff_rebuilds_texts:
  fixes expected actual :: string
  defines "d \<equiv> computeDiffLines (split_lines expected) (split_lines actual)"
  shows "join_lines (map dl_line (filter (\<lambda>c. dl_op c \<noteq> Added) d)) = expected \<and>
    join_lines (map dl_line (filter (\<lambda>c. dl_op c \<noteq> Removed) d)) = actual \<and>
    map dl_line (filter is_context d) = computeLCS (split_lines expected) (split_lines actual) \<and>
    subseq (hunks d) d \<and> filter (\<lambda>c. \<not> is_context c) (hunks d) = filter (\<lambda>c. \<not> is_context c) d \<and>
    (hunks d = [] \<longleftrightarrow> computeLCS (split_lines expected) (split_lines actual) = split_lines expected \<and>
       computeLCS (split_lines expected) (split_lines actual) = split_lines actual)"
  using hunks_facts [of d] computeDiffLines_facts [of "split_lines expected" "split_lines actual"]
    hunks_empty_iff [of "split_lines expected" "split_lines actual"]
  unfolding d_def is_context_def by (simp add: join_split)

text \<open>C36: The unchanged lines of a diff are a longest common subsequence of the two texts, unless there are more than
  a million pairs of lines.\<close>

theorem lcs_is_longest:
  assumes "a = [] \<or> length b \<le> 1000000 div length a" "subseq s a" "subseq s b"
  shows "length s \<le> length (computeLCS a b) \<and> subseq (computeLCS a b) a \<and> subseq (computeLCS a b) b"
  using computeLCS_longest [OF assms] computeLCS_common by blast

theorem lcs_is_longest_witness:
  "length [''a'', ''c''] \<le> length (computeLCS [''a'', ''b'', ''c''] [''a'', ''c'', ''d''])"
  using lcs_is_longest [of "[''a'', ''b'', ''c'']" "[''a'', ''c'', ''d'']" "[''a'', ''c'']"] by simp

text \<open>The manifest of the rendered files and the counts of the masks do not depend on the order of the map.\<close>

theorem manifest_deterministic:
  assumes "distinct (map_keys f)" "distinct (map_keys g)" "map_of f = map_of g"
  shows "BuildFileManifest env f sandbox masks = BuildFileManifest env g sandbox masks"
  using assms by (rule manifest_same)

definition sample_file :: "string \<Rightarrow> file_info" where
  "sample_file s = \<lparr>fi_exists = True, fi_content = s\<rparr>"

definition sample_mask_env :: mask_env where
  "sample_mask_env = \<lparr>me_compiles = (\<lambda>_. True), me_count = (\<lambda>_ _. 0), me_replace = (\<lambda>_ s _. s), me_glob = (\<lambda>_ _. Some True), me_json = (\<lambda>_. None)\<rparr>"

theorem manifest_deterministic_witness:
  "BuildFileManifest sample_mask_env [(''b'', sample_file ''2''), (''a'', sample_file ''1'')] [] [] =
   BuildFileManifest sample_mask_env [(''a'', sample_file ''1''), (''b'', sample_file ''2'')] [] []"
  by (rule manifest_deterministic) auto

end
