(* ===== verification/Catalog_Reference.thy ===== *)
theory Catalog_Reference
  imports Go_Strings
begin

text \<open>
  \<open>pkg/catalog/reference.go\<close> with the types of \<open>catalog.go\<close>: names, digests, local and remote references.
  Parsing and printing of semantic versions is a parameter (\<open>semver\<close>); what the third-party package
  documents of it is \<open>semver_ok\<close>.
\<close>

section \<open>Types\<close>

datatype artifact_kind = NoKind | KindSolution | KindProvider | KindAuthHandler | OtherKind string

definition kind_String :: "artifact_kind \<Rightarrow> string" where
  "kind_String k = (case k of NoKind \<Rightarrow> '''' | KindSolution \<Rightarrow> ''solution'' | KindProvider \<Rightarrow> ''provider''
     | KindAuthHandler \<Rightarrow> ''auth-handler'' | OtherKind s \<Rightarrow> s)"

definition kind_IsValid :: "artifact_kind \<Rightarrow> bool" where
  "kind_IsValid k = (k = KindSolution \<or> k = KindProvider \<or> k = KindAuthHandler)"

definition kind_Plural :: "artifact_kind \<Rightarrow> string" where
  "kind_Plural k = (case k of KindSolution \<Rightarrow> ''solutions'' | KindProvider \<Rightarrow> ''providers''
     | KindAuthHandler \<Rightarrow> ''auth-handlers'' | _ \<Rightarrow> kind_String k @ ''s'')"

definition ParseArtifactKindFromPlural :: "string \<Rightarrow> artifact_kind option" where
  "ParseArtifactKindFromPlural s =
     (if s = ''solutions'' then Some KindSolution else if s = ''providers'' then Some KindProvider
      else if s = ''auth-handlers'' then Some KindAuthHandler else None)"

record 'v reference =
  rf_kind :: artifact_kind
  rf_name :: string
  rf_version :: "'v option"
  rf_digest :: string
  rf_remote :: string
  rf_built :: bool

record 'v semver =
  sv_parse :: "string \<Rightarrow> 'v option"
  sv_print :: "'v \<Rightarrow> string"

definition ref_String :: "'v semver \<Rightarrow> 'v reference \<Rightarrow> string" where
  "ref_String sv r =
     (if rf_digest r \<noteq> [] then rf_name r @ ''@'' @ rf_digest r
      else case rf_version r of Some v \<Rightarrow> rf_name r @ ''@'' @ sv_print sv v | None \<Rightarrow> rf_name r)"

definition VersionOrDigest :: "'v semver \<Rightarrow> 'v reference \<Rightarrow> string" where
  "VersionOrDigest sv r =
     (case rf_version r of Some v \<Rightarrow> sv_print sv v
      | None \<Rightarrow> if rf_digest r \<noteq> [] then rf_digest r else ''unknown'')"

definition new_reference :: "artifact_kind \<Rightarrow> 'v reference" where
  "new_reference k = \<lparr>rf_kind = k, rf_name = [], rf_version = None, rf_digest = [], rf_remote = [], rf_built = False\<rparr>"

datatype ref_error =
    EmptyReference
  | EmptyName
  | BadName string
  | EmptyVersion string
  | BadDigest string
  | BadVersion string
  | EmptyRemote
  | NoRepository string

section \<open>Names and digests\<close>

definition is_lower :: "char \<Rightarrow> bool" where
  "is_lower c = (97 \<le> (of_char c :: nat) \<and> (of_char c :: nat) \<le> 122)"

definition IsValidName :: "string \<Rightarrow> bool" where
  "IsValidName n =
     (if n = [] \<or> length n > 128 then False
      else if \<not> is_lower (hd n) then False
      else if \<not> (is_lower (last n) \<or> is_digit (last n)) then False
      else if \<not> list_all (\<lambda>c. is_lower c \<or> is_digit c \<or> c = CHR ''-'') n then False
      else \<not> strings_Contains n ''--'')"

definition is_hex :: "char \<Rightarrow> bool" where
  "is_hex c = (is_digit c \<or> 97 \<le> (of_char c :: nat) \<and> (of_char c :: nat) \<le> 102)"

definition IsValidDigest :: "string \<Rightarrow> bool" where
  "IsValidDigest d =
     (case strings_Cut d '':'' of None \<Rightarrow> False
      | Some (alg, hex) \<Rightarrow> alg = ''sha256'' \<and> length hex = 64 \<and> list_all is_hex hex)"

definition validateName :: "string \<Rightarrow> ref_error option" where
  "validateName n = (if n = [] then Some EmptyName else if \<not> IsValidName n then Some (BadName n) else None)"

section \<open>Local references\<close>

text \<open>The parts around the last occurrence of a character, or \<open>None\<close> where \<open>strings.LastIndex\<close> is \<open>-1\<close>.\<close>

definition cut_last :: "char \<Rightarrow> string \<Rightarrow> (string \<times> string) option" where
  "cut_last c s =
     (if c \<in> set s then Some (rev (tl (dropWhile (\<lambda>x. x \<noteq> c) (rev s))), rev (takeWhile (\<lambda>x. x \<noteq> c) (rev s))) else None)"

text \<open>\<open>strings.EqualFold\<close> with a lower case text of ASCII letters.\<close>

definition to_lower :: "char \<Rightarrow> char" where
  "to_lower c = (if 65 \<le> (of_char c :: nat) \<and> (of_char c :: nat) \<le> 90 then char_of ((of_char c :: nat) + 32) else c)"

definition equal_fold :: "string \<Rightarrow> string \<Rightarrow> bool" where
  "equal_fold s t = (map to_lower s = t)"

definition ParseNameVersion :: "string \<Rightarrow> string \<times> string" where
  "ParseNameVersion input =
     (case strings_Cut input ''@sha256:'' of
        Some (n, d) \<Rightarrow> (n, ''sha256:'' @ d)
      | None \<Rightarrow> (case cut_last (CHR ''@'') input of Some (n, v) \<Rightarrow> (n, v) | None \<Rightarrow> (input, [])))"

definition ParseReference :: "'v semver \<Rightarrow> artifact_kind \<Rightarrow> string \<Rightarrow> ref_error + 'v reference" where
  "ParseReference sv kind input =
     (let input = strings_TrimSpace input; ref = new_reference kind in
      if input = [] then Inl EmptyReference
      else (case cut_last (CHR ''@'') input of
        None \<Rightarrow> (case validateName input of Some e \<Rightarrow> Inl e | None \<Rightarrow> Inr (ref\<lparr>rf_name := input\<rparr>))
      | Some (name, v) \<Rightarrow>
          (case validateName name of Some e \<Rightarrow> Inl e
           | None \<Rightarrow>
               let ref = ref\<lparr>rf_name := name\<rparr> in
               if v = [] then Inl (EmptyVersion input)
               else if CHR '':'' \<in> set v then (if IsValidDigest v then Inr (ref\<lparr>rf_digest := v\<rparr>) else Inl (BadDigest input))
               else if equal_fold v ''latest'' then Inr ref
               else (case sv_parse sv v of None \<Rightarrow> Inl (BadVersion input) | Some x \<Rightarrow> Inr (ref\<lparr>rf_version := Some x\<rparr>)))))"

section \<open>Remote references\<close>

record remote_reference =
  rr_registry :: string
  rr_repository :: string
  rr_kind :: artifact_kind
  rr_name :: string
  rr_tag :: string

fun join_slash :: "string list \<Rightarrow> string" where
  "join_slash [] = []"
| "join_slash [s] = s"
| "join_slash (s # t # ss) = s @ CHR ''/'' # join_slash (t # ss)"

text \<open>The position and kind of the first path element that is a plural, the last element left out.\<close>

fun find_kind :: "string list \<Rightarrow> (string list \<times> artifact_kind \<times> string) option" where
  "find_kind (p # q # ps) =
     (case ParseArtifactKindFromPlural p of
        Some k \<Rightarrow> Some ([], k, q)
      | None \<Rightarrow> map_option (\<lambda>(rep, k, n). (p # rep, k, n)) (find_kind (q # ps)))"
| "find_kind _ = None"

text \<open>The text before the tag and the tag.\<close>

definition split_tag :: "string \<Rightarrow> string \<times> string" where
  "split_tag input =
     (case cut_last (CHR ''@'') input of
        Some (s, tag) \<Rightarrow> (s, tag)
      | None \<Rightarrow> (case cut_last (CHR '':'') input of
          Some (s, tag) \<Rightarrow> if CHR ''/'' \<in> set s then (s, tag) else (input, [])
        | None \<Rightarrow> (input, [])))"

definition ParseRemoteReference :: "string \<Rightarrow> ref_error + remote_reference" where
  "ParseRemoteReference input =
     (let input = strings_TrimSpace input in
      if input = [] then Inl EmptyRemote
      else let (input, tag) = split_tag (strings_TrimPrefix input ''oci://''); parts = split_slash input in
        if length parts < 2 then Inl (NoRepository input)
        else (case find_kind (tl parts) of
            Some (rep, k, n) \<Rightarrow>
              Inr \<lparr>rr_registry = hd parts, rr_repository = join_slash rep, rr_kind = k, rr_name = n, rr_tag = tag\<rparr>
          | None \<Rightarrow>
              Inr \<lparr>rr_registry = hd parts, rr_repository = join_slash (butlast (tl parts)), rr_kind = NoKind,
                rr_name = last parts, rr_tag = tag\<rparr>))"

definition CanonicalRemoteCatalogID :: "string \<Rightarrow> string \<Rightarrow> string" where
  "CanonicalRemoteCatalogID reg rep = (if rep \<noteq> [] then reg @ ''/'' @ rep else reg)"

definition ToReference :: "'v semver \<Rightarrow> remote_reference \<Rightarrow> ref_error + 'v reference" where
  "ToReference sv r =
     (let ref = (new_reference (rr_kind r))\<lparr>rf_name := rr_name r, rf_remote := CanonicalRemoteCatalogID (rr_registry r) (rr_repository r)\<rparr> in
      if rr_tag r = [] \<or> equal_fold (rr_tag r) ''latest'' then Inr ref
      else if strings_HasPrefix (rr_tag r) ''sha256:'' then
        (if IsValidDigest (rr_tag r) then Inr (ref\<lparr>rf_digest := rr_tag r\<rparr>) else Inl (BadDigest (rr_tag r)))
      else (case sv_parse sv (rr_tag r) of None \<Rightarrow> Inl (BadVersion (rr_tag r)) | Some v \<Rightarrow> Inr (ref\<lparr>rf_version := Some v\<rparr>)))"

definition remote_String :: "remote_reference \<Rightarrow> string" where
  "remote_String r =
     rr_registry r @
     (if rr_repository r \<noteq> [] then ''/'' @ rr_repository r else []) @
     (if rr_kind r \<noteq> NoKind then ''/'' @ kind_Plural (rr_kind r) else []) @
     ''/'' @ rr_name r @
     (if rr_tag r \<noteq> [] then ''@'' @ rr_tag r else [])"

definition NormalizeRegistryHost :: "string \<Rightarrow> string" where
  "NormalizeRegistryHost h =
     (if h = ''docker.io'' \<or> h = ''index.docker.io'' \<or> h = ''registry-1.docker.io'' then ''docker.io'' else h)"

section \<open>Cutting and joining\<close>

lemma while_first:
  assumes "c \<notin> set b"
  shows "dropWhile (\<lambda>x. x \<noteq> c) (b @ c # z) = c # z" "takeWhile (\<lambda>x. x \<noteq> c) (b @ c # z) = b"
  using assms by (induction b) auto

lemma cut_last_append: "c \<notin> set b \<Longrightarrow> cut_last c (a @ c # b) = Some (a, b)"
  by (simp add: cut_last_def while_first)

lemma cut_last_None: "c \<notin> set s \<Longrightarrow> cut_last c s = None"
  by (simp add: cut_last_def)

lemma cut_last_Some: "cut_last c s = Some (a, b) \<Longrightarrow> s = a @ c # b \<and> c \<notin> set b"
proof -
  assume "cut_last c s = Some (a, b)"
  then have "c \<in> set s" and a: "a = rev (tl (dropWhile (\<lambda>x. x \<noteq> c) (rev s)))" and b: "b = rev (takeWhile (\<lambda>x. x \<noteq> c) (rev s))"
    by (simp_all add: cut_last_def split: if_splits)
  from \<open>c \<in> set s\<close> obtain y z where yz: "rev s = y @ c # z" "c \<notin> set y" by (metis set_rev split_list_first)
  then have "s = rev z @ c # rev y" by (metis append.assoc append_Cons append_Nil rev.simps(2) rev_append rev_rev_ident)
  with a b yz show ?thesis by (simp add: while_first)
qed

lemma split_slash_single: "CHR ''/'' \<notin> set s \<Longrightarrow> split_slash s = [s]"
  by (induction s) auto

lemma split_slash_Cons: "CHR ''/'' \<notin> set s \<Longrightarrow> split_slash (s @ CHR ''/'' # r) = s # split_slash r"
  by (induction s) auto

lemma split_join: "ss \<noteq> [] \<Longrightarrow> \<forall>s \<in> set ss. CHR ''/'' \<notin> set s \<Longrightarrow> split_slash (join_slash ss) = ss"
  by (induction ss rule: join_slash.induct) (simp_all add: split_slash_single split_slash_Cons)

lemma split_slash_nonempty: "split_slash s \<noteq> []"
  by (cases s) (auto split: list.splits)

lemma split_slash_noslash: "p \<in> set (split_slash s) \<Longrightarrow> CHR ''/'' \<notin> set p"
proof (induction s arbitrary: p)
  case (Cons c s)
  then show ?case using split_slash_nonempty [of s] by (cases "split_slash s") (auto split: if_splits)
qed simp

lemma join_split_slash: "join_slash (split_slash s) = s"
proof (induction s)
  case (Cons c s)
  obtain l ls where "split_slash s = l # ls" using split_slash_nonempty [of s] by (cases "split_slash s") auto
  with Cons show ?case by (cases ls) auto
qed simp

lemma join_append: "ss \<noteq> [] \<Longrightarrow> ts \<noteq> [] \<Longrightarrow> join_slash (ss @ ts) = join_slash ss @ CHR ''/'' # join_slash ts"
proof (induction ss rule: join_slash.induct)
  case (2 s)
  then show ?case by (cases ts) simp_all
qed simp_all

lemma trim_id: "s \<noteq> [] \<Longrightarrow> \<not> is_space (hd s) \<Longrightarrow> \<not> is_space (last s) \<Longrightarrow> strings_TrimSpace s = s"
proof -
  assume s: "s \<noteq> []" "\<not> is_space (hd s)" "\<not> is_space (last s)"
  have "dropWhile is_space s = s" using s(1,2) by (cases s) simp_all
  moreover have "dropWhile is_space (rev s) = rev s" using s(1,3) by (cases s rule: rev_cases) simp_all
  ultimately show ?thesis by (simp add: strings_TrimSpace_def)
qed

section \<open>Round trips\<close>

text \<open>What the semantic version package documents: a printed version parses to itself and has the form of the grammar.\<close>

definition semver_char :: "char \<Rightarrow> bool" where
  "semver_char c = (is_alnum c \<or> c = CHR ''.'' \<or> c = CHR ''-'' \<or> c = CHR ''+'')"

definition semver_ok :: "'v semver \<Rightarrow> bool" where
  "semver_ok sv = (\<forall>v. sv_parse sv (sv_print sv v) = Some v \<and> sv_print sv v \<noteq> [] \<and>
     is_digit (hd (sv_print sv v)) \<and> list_all semver_char (sv_print sv v))"

definition valid_ref :: "'v reference \<Rightarrow> bool" where
  "valid_ref r =
     (IsValidName (rf_name r) \<and> rf_remote r = [] \<and> \<not> rf_built r \<and>
      (rf_digest r = [] \<or> IsValidDigest (rf_digest r) \<and> rf_version r = None))"

lemmas char_class_simps = is_alnum_def is_letter_def is_digit_def is_lower_def is_hex_def is_space_def Let_def

definition ref_char :: "char \<Rightarrow> bool" where
  "ref_char c = (is_lower c \<or> is_digit c \<or> c = CHR ''-'')"

lemma ref_char_not [simp]: "\<not> ref_char (CHR ''@'')" "\<not> ref_char (CHR '':'')" "\<not> ref_char (CHR ''/'')"
  by (simp_all add: ref_char_def char_class_simps)

lemma semver_char_not [simp]: "\<not> semver_char (CHR ''@'')" "\<not> semver_char (CHR '':'')"
  by (simp_all add: semver_char_def char_class_simps)

lemma is_hex_not [simp]: "\<not> is_hex (CHR ''@'')"
  by (simp add: char_class_simps)

lemma ref_char_space: "ref_char c \<Longrightarrow> \<not> is_space c"
  by (auto simp: ref_char_def char_class_simps)

lemma semver_char_space: "semver_char c \<Longrightarrow> \<not> is_space c"
  by (auto simp: semver_char_def char_class_simps)

lemma hex_space: "is_hex c \<Longrightarrow> \<not> is_space c"
  by (auto simp: char_class_simps)

lemma valid_name_facts:
  "IsValidName n \<Longrightarrow> n \<noteq> [] \<and> list_all ref_char n"
  by (auto simp: IsValidName_def ref_char_def [abs_def] split: if_splits)

lemma list_all_notin: "list_all P s \<Longrightarrow> \<not> P c \<Longrightarrow> c \<notin> set s"
  by (auto simp: list_all_iff)

lemma valid_digest_facts:
  assumes "IsValidDigest d"
  obtains hex where "d = ''sha256:'' @ hex" "length hex = 64" "list_all is_hex hex"
proof -
  from assms obtain hex where "strings_Cut d '':'' = Some (''sha256'', hex)" "length hex = 64" "list_all is_hex hex"
    by (auto simp: IsValidDigest_def split: option.splits)
  with strings_Cut_Some [of d "'':''"] show ?thesis by (intro that [of hex]) auto
qed

lemma valid_digest_chars:
  assumes "IsValidDigest d"
  shows "d \<noteq> []" "CHR ''@'' \<notin> set d" "CHR '':'' \<in> set d" "\<not> is_space (last d)"
proof -
  obtain hex where h: "d = ''sha256:'' @ hex" "length hex = 64" "list_all is_hex hex"
    using valid_digest_facts [OF assms] .
  then have "hex \<noteq> []" by auto
  with h(3) have "is_hex (last hex)" by (simp add: list_all_iff)
  with \<open>hex \<noteq> []\<close> show "\<not> is_space (last d)" by (simp add: h(1) hex_space)
  show "d \<noteq> []" "CHR '':'' \<in> set d" by (simp_all add: h(1))
  show "CHR ''@'' \<notin> set d" using list_all_notin [OF h(3)] by (simp add: h(1))
qed

lemma validateName_None: "validateName n = None \<longleftrightarrow> IsValidName n"
  by (auto simp: validateName_def IsValidName_def)

lemma trim_name_at:
  assumes "IsValidName n" "v \<noteq> []" "\<not> is_space (last v)"
  shows "strings_TrimSpace (n @ CHR ''@'' # v) = n @ CHR ''@'' # v"
proof (rule trim_id)
  show "\<not> is_space (hd (n @ CHR ''@'' # v))"
    using valid_name_facts [OF assms(1)] ref_char_space by (cases n) auto
qed (use assms(2,3) in auto)

lemma latest_no_digit: "is_digit (hd v) \<Longrightarrow> v \<noteq> [] \<Longrightarrow> \<not> equal_fold v ''latest''"
  by (cases v) (auto simp: equal_fold_def to_lower_def is_digit_def)

lemma ParseReference_String:
  assumes sv: "semver_ok sv" and r: "valid_ref r"
  shows "ParseReference sv (rf_kind r) (ref_String sv r) = Inr r"
proof -
  have n: "IsValidName (rf_name r)" and rest: "rf_remote r = []" "\<not> rf_built r" using r by (auto simp: valid_ref_def)
  note nf = valid_name_facts [OF n]
  consider "rf_digest r \<noteq> []" "IsValidDigest (rf_digest r)" "rf_version r = None"
    | v where "rf_digest r = []" "rf_version r = Some v"
    | "rf_digest r = []" "rf_version r = None"
    using r by (cases "rf_version r") (auto simp: valid_ref_def)
  then show ?thesis
  proof cases
    case 1
    note d = valid_digest_chars [OF 1(2)]
    have e: "ref_String sv r = rf_name r @ CHR ''@'' # rf_digest r" using 1(1) by (simp add: ref_String_def)
    show ?thesis
      unfolding ParseReference_def e trim_name_at [OF n d(1,4)] Let_def cut_last_append [OF d(2)]
      using n 1 rest d by (simp add: validateName_None [THEN iffD2] new_reference_def)
  next
    case 2
    from sv have v: "sv_parse sv (sv_print sv v) = Some v" "sv_print sv v \<noteq> []" "is_digit (hd (sv_print sv v))"
      "list_all semver_char (sv_print sv v)" by (simp_all add: semver_ok_def)
    then have sp: "\<not> is_space (last (sv_print sv v))" using semver_char_space by (simp add: list_all_iff)
    have at: "CHR ''@'' \<notin> set (sv_print sv v)" "CHR '':'' \<notin> set (sv_print sv v)" using list_all_notin [OF v(4)] by simp_all
    have e: "ref_String sv r = rf_name r @ CHR ''@'' # sv_print sv v" using 2 by (simp add: ref_String_def)
    show ?thesis
      unfolding ParseReference_def e trim_name_at [OF n v(2) sp] Let_def cut_last_append [OF at(1)]
      using n 2 rest at v latest_no_digit [OF v(3,2)] by (simp add: validateName_None [THEN iffD2] new_reference_def)
  next
    case 3
    have "strings_TrimSpace (rf_name r) = rf_name r"
      using nf ref_char_space by (intro trim_id) (auto simp: list_all_iff)
    moreover have "CHR ''@'' \<notin> set (rf_name r)" using nf list_all_notin [of ref_char "rf_name r"] by simp
    ultimately show ?thesis
      using n 3 rest nf by (simp add: ParseReference_def ref_String_def Let_def cut_last_None validateName_None [THEN iffD2] new_reference_def)
  qed
qed

lemma ParseReference_valid:
  "ParseReference sv k s = Inr r \<Longrightarrow> valid_ref r \<and> rf_kind r = k"
  by (auto simp: ParseReference_def Let_def valid_ref_def new_reference_def validateName_None split: if_splits option.splits)

section \<open>Round trips of remote references\<close>

definition valid_remote :: "remote_reference \<Rightarrow> bool" where
  "valid_remote r =
     (rr_registry r \<noteq> [] \<and> rr_registry r \<noteq> ''oci:'' \<and> \<not> is_space (hd (rr_registry r)) \<and>
      CHR ''/'' \<notin> set (rr_registry r) \<and> CHR ''@'' \<notin> set (rr_registry r) \<and>
      (rr_kind r = NoKind \<or> kind_IsValid (rr_kind r)) \<and>
      list_all (\<lambda>s. ParseArtifactKindFromPlural s = None) (split_slash (rr_repository r)) \<and>
      CHR ''@'' \<notin> set (rr_repository r) \<and> CHR '':'' \<notin> set (rr_repository r) \<and>
      IsValidName (rr_name r) \<and>
      CHR ''@'' \<notin> set (rr_tag r) \<and> (rr_tag r = [] \<or> \<not> is_space (last (rr_tag r))))"

definition repo_parts :: "remote_reference \<Rightarrow> string list" where
  "repo_parts r = (if rr_repository r = [] then [] else split_slash (rr_repository r))"

definition kind_parts :: "remote_reference \<Rightarrow> string list" where
  "kind_parts r = (if rr_kind r = NoKind then [] else [kind_Plural (rr_kind r)])"

definition remote_parts :: "remote_reference \<Rightarrow> string list" where
  "remote_parts r = rr_registry r # repo_parts r @ kind_parts r @ [rr_name r]"

lemma join_repo_parts: "join_slash (repo_parts r) = rr_repository r"
  by (simp add: repo_parts_def join_split_slash)

lemma remote_String_parts:
  "remote_String r = join_slash (remote_parts r) @ (if rr_tag r \<noteq> [] then ''@'' @ rr_tag r else [])"
proof -
  have tail: "join_slash (kind_parts r @ [rr_name r]) =
      (if rr_kind r \<noteq> NoKind then kind_Plural (rr_kind r) @ CHR ''/'' # rr_name r else rr_name r)"
    by (simp add: kind_parts_def)
  have "join_slash (remote_parts r) = rr_registry r @ CHR ''/'' # join_slash (repo_parts r @ kind_parts r @ [rr_name r])"
    unfolding remote_parts_def using join_append [of "[rr_registry r]" "repo_parts r @ kind_parts r @ [rr_name r]"] by simp
  also have "join_slash (repo_parts r @ kind_parts r @ [rr_name r]) =
      (if rr_repository r = [] then [] else rr_repository r @ ''/'') @ join_slash (kind_parts r @ [rr_name r])"
  proof (cases "rr_repository r = []")
    case True
    then show ?thesis by (simp add: repo_parts_def)
  next
    case False
    then have "repo_parts r \<noteq> []" by (simp add: repo_parts_def split_slash_nonempty)
    from join_append [OF this, of "kind_parts r @ [rr_name r]"] False show ?thesis by (simp add: join_repo_parts)
  qed
  finally show ?thesis unfolding tail remote_String_def by simp
qed

lemma plural_chars:
  "kind_IsValid k \<Longrightarrow> CHR ''/'' \<notin> set (kind_Plural k) \<and> CHR ''@'' \<notin> set (kind_Plural k) \<and> CHR '':'' \<notin> set (kind_Plural k) \<and>
     ParseArtifactKindFromPlural (kind_Plural k) = Some k"
  by (auto simp: kind_IsValid_def kind_Plural_def ParseArtifactKindFromPlural_def)

lemma find_kind_none: "list_all (\<lambda>s. ParseArtifactKindFromPlural s = None) ps \<Longrightarrow> find_kind (ps @ [n]) = None"
proof (induction ps)
  case (Cons p ps)
  then show ?case by (cases "ps @ [n]") auto
qed simp

lemma find_kind_some:
  "list_all (\<lambda>s. ParseArtifactKindFromPlural s = None) ps \<Longrightarrow> ParseArtifactKindFromPlural p = Some k \<Longrightarrow>
   find_kind (ps @ [p, n]) = Some (ps, k, n)"
proof (induction ps)
  case (Cons q ps)
  then show ?case by (cases "ps @ [p, n]") auto
qed simp

lemma remote_parts_noslash:
  assumes "valid_remote r"
  shows "\<forall>p \<in> set (remote_parts r). CHR ''/'' \<notin> set p"
proof -
  have "list_all ref_char (rr_name r)" using assms valid_name_facts by (simp add: valid_remote_def)
  then have "CHR ''/'' \<notin> set (rr_name r)" by (rule list_all_notin) simp
  with assms plural_chars show ?thesis
    by (auto simp: valid_remote_def remote_parts_def repo_parts_def kind_parts_def dest: split_slash_noslash split: if_splits)
qed

lemma join_chars: "c \<in> set (join_slash ss) \<Longrightarrow> c = CHR ''/'' \<or> (\<exists>s \<in> set ss. c \<in> set s)"
  by (induction ss rule: join_slash.induct) auto

lemma split_chars: "p \<in> set (split_slash s) \<Longrightarrow> c \<in> set p \<Longrightarrow> c \<in> set s"
proof (induction s arbitrary: p)
  case (Cons d s)
  obtain l ls where l: "split_slash s = l # ls" using split_slash_nonempty [of s] by (cases "split_slash s") auto
  from Cons.prems(1) consider "p = []" | "p \<in> set (split_slash s)" | "p = d # l"
    by (auto simp: l split: if_splits)
  then show ?case
  proof cases
    case 3
    then show ?thesis using Cons.IH [of l] Cons.prems(2) l by auto
  qed (use Cons in auto)
qed simp

lemma remote_rest_chars:
  assumes "valid_remote r" "p \<in> set (tl (remote_parts r))"
  shows "CHR ''@'' \<notin> set p" "CHR '':'' \<notin> set p"
proof -
  have n: "list_all ref_char (rr_name r)" using assms(1) valid_name_facts by (simp add: valid_remote_def)
  from assms(2) consider "p \<in> set (split_slash (rr_repository r))" | "rr_kind r \<noteq> NoKind" "p = kind_Plural (rr_kind r)" | "p = rr_name r"
    by (auto simp: remote_parts_def repo_parts_def kind_parts_def split: if_splits)
  then have "CHR ''@'' \<notin> set p \<and> CHR '':'' \<notin> set p"
  proof cases
    case 1
    have "CHR ''@'' \<notin> set (rr_repository r)" "CHR '':'' \<notin> set (rr_repository r)" using assms(1) by (simp_all add: valid_remote_def)
    then show ?thesis using split_chars [OF 1] by blast
  next
    case 2
    then have "kind_IsValid (rr_kind r)" using assms(1) by (simp add: valid_remote_def)
    from plural_chars [OF this] 2 show ?thesis by simp
  next
    case 3
    show ?thesis using list_all_notin [OF n, of "CHR ''@''"] list_all_notin [OF n, of "CHR '':''"] by (simp add: 3)
  qed
  then show "CHR ''@'' \<notin> set p" "CHR '':'' \<notin> set p" by blast+
qed

lemma remote_body:
  "join_slash (remote_parts r) = rr_registry r @ CHR ''/'' # join_slash (tl (remote_parts r))"
  unfolding remote_parts_def using join_append [of "[rr_registry r]" "repo_parts r @ kind_parts r @ [rr_name r]"] by simp

lemma split_tag_String:
  assumes "valid_remote r"
  shows "split_tag (remote_String r) = (join_slash (remote_parts r), rr_tag r)"
proof (cases "rr_tag r = []")
  case False
  have "CHR ''@'' \<notin> set (rr_tag r)" using assms by (simp add: valid_remote_def)
  from cut_last_append [OF this, of "join_slash (remote_parts r)"] False show ?thesis
    by (simp add: remote_String_parts split_tag_def)
next
  case True
  let ?reg = "rr_registry r" and ?rest = "CHR ''/'' # join_slash (tl (remote_parts r))"
  have e: "remote_String r = ?reg @ ?rest" using True by (simp add: remote_String_parts remote_body)
  have chars: "CHR ''@'' \<notin> set ?rest" "CHR '':'' \<notin> set ?rest"
    using join_chars remote_rest_chars [OF assms] by auto
  have reg: "CHR ''@'' \<notin> set ?reg" "CHR ''/'' \<notin> set ?reg" using assms by (simp_all add: valid_remote_def)
  have none: "cut_last (CHR ''@'') (remote_String r) = None" unfolding e by (rule cut_last_None) (use chars reg in simp)
  show ?thesis
  proof (cases "CHR '':'' \<in> set ?reg")
    case False
    with chars have "cut_last (CHR '':'') (remote_String r) = None" unfolding e by (intro cut_last_None) simp
    with none True show ?thesis by (simp add: split_tag_def remote_String_parts)
  next
    case colon: True
    then obtain x y where xy: "?reg = x @ CHR '':'' # y" "CHR '':'' \<notin> set y" by (meson split_list_last)
    then have "cut_last (CHR '':'') (remote_String r) = Some (x, y @ ?rest)"
      unfolding e xy(1) using cut_last_append [of "CHR '':''" "y @ ?rest" x] chars(2) by simp
    moreover have "CHR ''/'' \<notin> set x" using reg(2) xy(1) by simp
    ultimately show ?thesis using none True by (simp add: split_tag_def remote_String_parts)
  qed
qed

lemma remote_not_oci:
  assumes "valid_remote r"
  shows "\<not> strings_HasPrefix (remote_String r) ''oci://''"
proof
  assume "strings_HasPrefix (remote_String r) ''oci://''"
  then obtain t where "remote_String r = ''oci:'' @ CHR ''/'' # CHR ''/'' # t"
    unfolding strings_HasPrefix_def by (metis append_Cons append_Nil append_take_drop_id)
  moreover have "remote_String r = rr_registry r @ CHR ''/'' # join_slash (tl (remote_parts r)) @ (if rr_tag r \<noteq> [] then ''@'' @ rr_tag r else [])"
    by (simp add: remote_String_parts remote_body)
  ultimately have "rr_registry r @ CHR ''/'' # join_slash (tl (remote_parts r)) @ (if rr_tag r \<noteq> [] then ''@'' @ rr_tag r else [])
      = ''oci:'' @ CHR ''/'' # CHR ''/'' # t" by simp
  from arg_cong [OF this, of "takeWhile (\<lambda>x. x \<noteq> CHR ''/'')"]
  have "takeWhile (\<lambda>x. x \<noteq> CHR ''/'') (rr_registry r @ CHR ''/'' # join_slash (tl (remote_parts r)) @ (if rr_tag r \<noteq> [] then ''@'' @ rr_tag r else [])) = ''oci:''"
    by simp
  moreover have "CHR ''/'' \<notin> set (rr_registry r)" "rr_registry r \<noteq> ''oci:''" using assms by (simp_all add: valid_remote_def)
  ultimately show False using while_first(2) [of "CHR ''/''" "rr_registry r"] by metis
qed

lemma remote_last: "valid_remote r \<Longrightarrow> remote_String r \<noteq> [] \<and> \<not> is_space (last (remote_String r)) \<and> \<not> is_space (hd (remote_String r))"
proof -
  assume r: "valid_remote r"
  then have n: "rr_name r \<noteq> []" "\<not> is_space (last (rr_name r))"
    using valid_name_facts [of "rr_name r"] ref_char_space by (auto simp: valid_remote_def list_all_iff)
  moreover have "rr_tag r \<noteq> [] \<Longrightarrow> \<not> is_space (last (rr_tag r))" "rr_registry r \<noteq> []" "\<not> is_space (hd (rr_registry r))"
    using r by (auto simp: valid_remote_def)
  ultimately show ?thesis by (simp add: remote_String_def)
qed

lemma parse_parts:
  assumes "valid_remote r"
  shows "(let (input, tag) = split_tag (remote_String r); parts = split_slash input in
        if length parts < 2 then Inl (NoRepository input)
        else (case find_kind (tl parts) of
            Some (rep, k, n) \<Rightarrow>
              Inr \<lparr>rr_registry = hd parts, rr_repository = join_slash rep, rr_kind = k, rr_name = n, rr_tag = tag\<rparr>
          | None \<Rightarrow>
              Inr \<lparr>rr_registry = hd parts, rr_repository = join_slash (butlast (tl parts)), rr_kind = NoKind,
                rr_name = last parts, rr_tag = tag\<rparr>)) = Inr r"
proof -
  have parts: "split_slash (join_slash (remote_parts r)) = remote_parts r"
    by (rule split_join) (use remote_parts_noslash [OF assms] in \<open>simp_all add: remote_parts_def\<close>)
  have len: "\<not> length (remote_parts r) < 2" by (simp add: remote_parts_def)
  have rp: "list_all (\<lambda>s. ParseArtifactKindFromPlural s = None) (repo_parts r)"
    using assms by (simp add: valid_remote_def repo_parts_def)
  show ?thesis
  proof (cases "rr_kind r = NoKind")
    case True
    then have t: "tl (remote_parts r) = repo_parts r @ [rr_name r]" "last (remote_parts r) = rr_name r" "hd (remote_parts r) = rr_registry r"
      by (simp_all add: remote_parts_def kind_parts_def)
    from find_kind_none [OF rp, of "rr_name r"] True show ?thesis
      by (simp add: split_tag_String [OF assms] parts len t join_repo_parts)
  next
    case False
    then have t: "tl (remote_parts r) = repo_parts r @ [kind_Plural (rr_kind r), rr_name r]" "hd (remote_parts r) = rr_registry r"
      by (simp_all add: remote_parts_def kind_parts_def)
    have "kind_IsValid (rr_kind r)" using assms False by (simp add: valid_remote_def)
    from find_kind_some [OF rp, of "kind_Plural (rr_kind r)" "rr_kind r" "rr_name r"] plural_chars [OF this] show ?thesis
      by (simp add: split_tag_String [OF assms] parts len t join_repo_parts)
  qed
qed

lemma ParseRemoteReference_String:
  assumes "valid_remote r"
  shows "ParseRemoteReference (remote_String r) = Inr r" "ParseRemoteReference (''oci://'' @ remote_String r) = Inr r"
proof -
  note l = remote_last [OF assms]
  have t1: "strings_TrimSpace (remote_String r) = remote_String r" using l by (intro trim_id) simp_all
  have t2: "strings_TrimSpace (''oci://'' @ remote_String r) = ''oci://'' @ remote_String r"
    by (rule trim_id) (use l in \<open>simp_all add: char_class_simps\<close>)
  have p1: "strings_TrimPrefix (remote_String r) ''oci://'' = remote_String r"
    using remote_not_oci [OF assms] by (simp add: strings_TrimPrefix_def)
  have p2: "strings_TrimPrefix (''oci://'' @ remote_String r) ''oci://'' = remote_String r"
    by (simp add: strings_TrimPrefix_def strings_HasPrefix_def)
  show "ParseRemoteReference (remote_String r) = Inr r"
    unfolding ParseRemoteReference_def t1 Let_def [of "remote_String r"] p1 using l parse_parts [OF assms] by simp
  show "ParseRemoteReference (''oci://'' @ remote_String r) = Inr r"
    unfolding ParseRemoteReference_def t2 Let_def [of "''oci://'' @ remote_String r"] p2 using parse_parts [OF assms] by simp
qed

section \<open>Properties\<close>

text \<open>C37: A reference that the parser accepts is valid and of the kind asked for, its printed form parses to it
  again, and the form splits into the name and the digest or version.\<close>

theorem reference_roundtrip:
  assumes "semver_ok sv" "ParseReference sv k s = Inr r"
  shows "valid_ref r \<and> rf_kind r = k \<and> ParseReference sv k (ref_String sv r) = Inr r"
  using ParseReference_valid [OF assms(2)] ParseReference_String [OF assms(1), of r] by simp

definition sample_semver :: "unit semver" where
  "sample_semver = \<lparr>sv_parse = (\<lambda>s. if s = ''1.0.0'' \<or> s = ''v1'' then Some () else None), sv_print = (\<lambda>_. ''1.0.0'')\<rparr>"

theorem reference_roundtrip_witness:
  "\<exists>r. ParseReference sample_semver KindSolution '' my-app@v1 '' = Inr r \<and> ref_String sample_semver r = ''my-app@1.0.0'' \<and>
     ParseReference sample_semver KindSolution ''my-app@1.0.0'' = Inr r \<and> valid_ref r"
proof -
  let ?P = "ParseReference sample_semver KindSolution '' my-app@v1 ''"
  have e: "\<not> isl ?P" "ref_String sample_semver (projr ?P) = ''my-app@1.0.0''" by code_simp+
  have "semver_ok sample_semver" by (simp add: semver_ok_def sample_semver_def semver_char_def char_class_simps)
  from reference_roundtrip [OF this Inr_projr [OF e(1)]] e Inr_projr [OF e(1)] show ?thesis by metis
qed

text \<open>A well-formed remote reference is read back from its printed form, with and without the scheme.\<close>

theorem remote_reference_roundtrip:
  assumes "valid_remote r"
  shows "ParseRemoteReference (remote_String r) = Inr r \<and> ParseRemoteReference (''oci://'' @ remote_String r) = Inr r"
  using ParseRemoteReference_String [OF assms] by blast

definition sample_remote :: remote_reference where
  "sample_remote = \<lparr>rr_registry = ''localhost:5000'', rr_repository = ''org/apps'', rr_kind = KindSolution, rr_name = ''my-app'', rr_tag = ''1.0.0''\<rparr>"

theorem remote_reference_roundtrip_witness:
  "remote_String sample_remote = ''localhost:5000/org/apps/solutions/my-app@1.0.0'' \<and>
   ParseRemoteReference ''oci://localhost:5000/org/apps/solutions/my-app@1.0.0'' = Inr sample_remote"
proof -
  have v: "valid_remote sample_remote"
    by (simp add: valid_remote_def sample_remote_def kind_IsValid_def ParseArtifactKindFromPlural_def IsValidName_def
        strings_HasPrefix_def char_class_simps)
  have e: "remote_String sample_remote = ''localhost:5000/org/apps/solutions/my-app@1.0.0''" by code_simp
  from remote_reference_roundtrip [OF v, THEN conjunct2] show ?thesis unfolding e by simp
qed

text \<open>The parser stops at the first path element that is a plural kind and takes the next one for the name: what
  follows is dropped, and different artifacts have the same reference.  A tag before a digest stays in the name.\<close>

theorem remote_reference_loses_path:
  "ParseRemoteReference ''ghcr.io/solutions/team/app@1.0.0'' = ParseRemoteReference ''ghcr.io/solutions/team/other@1.0.0'' \<and>
   map_sum id rr_name (ParseRemoteReference ''ghcr.io/solutions/team/app@1.0.0'') = Inr ''team'' \<and>
   map_sum id rr_name (ParseRemoteReference ''ghcr.io/org/app:1.0.0@sha256:ab'') = Inr ''app:1.0.0''"
  by code_simp

end
