(* ===== verification/Catalog_Chain.thy ===== *)
theory Catalog_Chain
  imports Catalog_Reference
begin

text \<open>
  \<open>pkg/catalog/chain.go\<close>: a chain of catalogs in order of priority.  The catalogs are parameters, records of
  their answers; an error is its text with the three questions that the code asks about it
  (\<open>errors.Is\<close> and \<open>errors.As\<close>, \<open>errors.go\<close>).
\<close>

section \<open>Catalogs and errors\<close>

record cat_error =
  ce_text :: string
  ce_unreachable :: bool
  ce_notFound :: bool
  ce_platform :: bool

record 'v artifact_info =
  af_reference :: "'v reference"
  af_tag :: string
  af_digest :: string
  af_imageRef :: string
  af_createdAt :: int
  af_size :: int
  af_annotations :: "string gomap"
  af_catalog :: string
  af_canonical :: string

record 'v content_digest_info =
  cd_info :: "'v artifact_info"
  cd_contentDigest :: string

record 'v platform_ops =
  po_fetch :: "'v reference \<Rightarrow> string \<Rightarrow> cat_error + string \<times> 'v artifact_info"
  po_digest :: "'v reference \<Rightarrow> string \<Rightarrow> string \<Rightarrow> cat_error + 'v content_digest_info"
  po_platforms :: "'v reference \<Rightarrow> cat_error + string list"

record 'v catalog =
  ct_name :: string
  ct_fetch :: "'v reference \<Rightarrow> cat_error + string \<times> 'v artifact_info"
  ct_bundle :: "'v reference \<Rightarrow> cat_error + string \<times> string \<times> 'v artifact_info"
  ct_layer :: "'v reference \<Rightarrow> string list \<Rightarrow> cat_error + string \<times> string gomap \<times> 'v artifact_info"
  ct_resolve :: "'v reference \<Rightarrow> cat_error + 'v artifact_info"
  ct_list :: "artifact_kind \<Rightarrow> string \<Rightarrow> cat_error + 'v artifact_info list"
  ct_exists :: "'v reference \<Rightarrow> cat_error + bool"
  ct_platform :: "'v platform_ops option"

datatype chain_mode = ChainModeStrict | ChainModeBestEffort

record 'v chain =
  ch_catalogs :: "'v catalog list"
  ch_mode :: chain_mode

definition NewChainCatalogWithMode :: "chain_mode \<Rightarrow> 'v catalog list \<Rightarrow> 'v chain option" where
  "NewChainCatalogWithMode m cats = (if cats = [] then None else Some \<lparr>ch_catalogs = cats, ch_mode = m\<rparr>)"

definition NewChainCatalog :: "'v catalog list \<Rightarrow> 'v chain option" where
  "NewChainCatalog cats = NewChainCatalogWithMode ChainModeBestEffort cats"

type_synonym outcome = "string \<times> cat_error"

text \<open>The errors of the chain; each of the first four wraps the sentinel or the error it carries.\<close>

datatype chain_error =
    NotFoundAnywhere string
  | FailedIn string "string list" cat_error
  | Unavailable string "string list" cat_error
  | UnavailableElsewhereMissing string "string list" "string list" cat_error
  | PassedOn cat_error
  | NotSupported string

definition chain_IsNotFound :: "chain_error \<Rightarrow> bool" where
  "chain_IsNotFound e =
     (case e of NotFoundAnywhere _ \<Rightarrow> True | FailedIn _ _ x \<Rightarrow> ce_notFound x | Unavailable _ _ x \<Rightarrow> ce_notFound x
      | UnavailableElsewhereMissing _ _ _ x \<Rightarrow> ce_notFound x | PassedOn x \<Rightarrow> ce_notFound x | NotSupported _ \<Rightarrow> False)"

definition is_other :: "cat_error \<Rightarrow> bool" where
  "is_other e = (\<not> ce_unreachable e \<and> \<not> ce_notFound e)"

definition aggregateChainError :: "string \<Rightarrow> outcome list \<Rightarrow> chain_error" where
  "aggregateChainError subject os =
     (let unreachable = filter (\<lambda>oc. ce_unreachable (snd oc)) os;
          notFound = filter (\<lambda>oc. \<not> ce_unreachable (snd oc) \<and> ce_notFound (snd oc)) os;
          other = filter (\<lambda>oc. is_other (snd oc)) os
      in if unreachable = [] \<and> other = [] then NotFoundAnywhere subject
         else if unreachable = [] then FailedIn subject (map fst other) (snd (hd other))
         else if notFound = [] \<and> other = [] then Unavailable subject (map fst unreachable) (snd (hd unreachable))
         else UnavailableElsewhereMissing subject (map fst unreachable) (map fst notFound @ map fst other) (snd (hd unreachable)))"

section \<open>The loops\<close>

definition haltOn :: "chain_mode \<Rightarrow> cat_error \<Rightarrow> bool" where
  "haltOn m e = (if m = ChainModeBestEffort then False else \<not> ce_notFound e)"

primrec chain_loop ::
  "chain_mode \<Rightarrow> string \<Rightarrow> ('v catalog \<Rightarrow> cat_error + 'r) \<Rightarrow> 'v catalog list \<Rightarrow> outcome list \<Rightarrow> chain_error + 'r" where
  "chain_loop m subject act [] os = Inl (aggregateChainError subject os)"
| "chain_loop m subject act (c # cs) os =
     (case act c of
        Inr r \<Rightarrow> Inr r
      | Inl e \<Rightarrow>
          let os = os @ [(ct_name c, e)] in
          if haltOn m e then Inl (aggregateChainError subject os) else chain_loop m subject act cs os)"

definition loopAndExecute :: "'v chain \<Rightarrow> string \<Rightarrow> ('v catalog \<Rightarrow> cat_error + 'r) \<Rightarrow> chain_error + 'r" where
  "loopAndExecute c subject act = chain_loop (ch_mode c) subject act (ch_catalogs c) []"

definition chain_Fetch :: "'v semver \<Rightarrow> 'v chain \<Rightarrow> 'v reference \<Rightarrow> chain_error + string \<times> 'v artifact_info" where
  "chain_Fetch sv c r = loopAndExecute c (ref_String sv r) (\<lambda>cat. ct_fetch cat r)"

definition chain_FetchWithBundle :: "'v semver \<Rightarrow> 'v chain \<Rightarrow> 'v reference \<Rightarrow> chain_error + string \<times> string \<times> 'v artifact_info" where
  "chain_FetchWithBundle sv c r = loopAndExecute c (ref_String sv r) (\<lambda>cat. ct_bundle cat r)"

definition chain_FetchWithLayer ::
  "'v semver \<Rightarrow> 'v chain \<Rightarrow> 'v reference \<Rightarrow> string list \<Rightarrow> chain_error + string \<times> string gomap \<times> 'v artifact_info" where
  "chain_FetchWithLayer sv c r types = loopAndExecute c (ref_String sv r) (\<lambda>cat. ct_layer cat r types)"

definition chain_Resolve :: "'v semver \<Rightarrow> 'v chain \<Rightarrow> 'v reference \<Rightarrow> chain_error + 'v artifact_info" where
  "chain_Resolve sv c r = loopAndExecute c (ref_String sv r) (\<lambda>cat. ct_resolve cat r)"

definition list_item :: "'v semver \<Rightarrow> 'v artifact_info \<Rightarrow> string list \<times> 'v artifact_info list \<Rightarrow> string list \<times> 'v artifact_info list" where
  "list_item sv i = (\<lambda>(seen, rs).
     (let key = ref_String sv (af_reference i) in if key \<in> set seen then (seen, rs) else (key # seen, rs @ [i])))"

definition chain_List :: "'v semver \<Rightarrow> 'v chain \<Rightarrow> artifact_kind \<Rightarrow> string \<Rightarrow> 'v artifact_info list" where
  "chain_List sv c k n =
     snd (fold (\<lambda>cat st. case ct_list cat k n of Inl _ \<Rightarrow> st | Inr items \<Rightarrow> fold (list_item sv) items st) (ch_catalogs c) ([], []))"

primrec exists_loop :: "'v semver \<Rightarrow> 'v reference \<Rightarrow> 'v catalog list \<Rightarrow> outcome list \<Rightarrow> chain_error + bool" where
  "exists_loop sv r [] os =
     (if list_ex (\<lambda>oc. ce_unreachable (snd oc)) os then Inl (aggregateChainError (ref_String sv r) os) else Inr False)"
| "exists_loop sv r (c # cs) os =
     (case ct_exists c r of
        Inl e \<Rightarrow> exists_loop sv r cs (os @ [(ct_name c, e)])
      | Inr ok \<Rightarrow> if ok then Inr True else exists_loop sv r cs os)"

definition chain_Exists :: "'v semver \<Rightarrow> 'v chain \<Rightarrow> 'v reference \<Rightarrow> chain_error + bool" where
  "chain_Exists sv c r = exists_loop sv r (ch_catalogs c) []"

text \<open>
  The loop over the catalogs that know platforms; the flags say whether a missing platform ends it and whether
  one of them was met.
\<close>

primrec platform_loop ::
  "chain_mode \<Rightarrow> bool \<Rightarrow> string \<Rightarrow> string \<Rightarrow> ('v platform_ops \<Rightarrow> cat_error + 'r) \<Rightarrow> 'v catalog list \<Rightarrow> bool \<Rightarrow> outcome list \<Rightarrow> chain_error + 'r" where
  "platform_loop m stop subject what act [] supported os =
     (if supported then Inl (aggregateChainError subject os) else Inl (NotSupported what))"
| "platform_loop m stop subject what act (c # cs) supported os =
     (case ct_platform c of
        None \<Rightarrow> platform_loop m stop subject what act cs supported os
      | Some p \<Rightarrow>
          (case act p of
             Inr r \<Rightarrow> Inr r
           | Inl e \<Rightarrow>
               if stop \<and> ce_platform e then Inl (PassedOn e)
               else let os = os @ [(ct_name c, e)] in
                 if haltOn m e then Inl (aggregateChainError subject os)
                 else platform_loop m stop subject what act cs True os))"

definition platform_subject :: "'v semver \<Rightarrow> 'v reference \<Rightarrow> string \<Rightarrow> string" where
  "platform_subject sv r platform = ref_String sv r @ '' ('' @ platform @ '')''"

definition chain_FetchByPlatform :: "'v semver \<Rightarrow> 'v chain \<Rightarrow> 'v reference \<Rightarrow> string \<Rightarrow> chain_error + string \<times> 'v artifact_info" where
  "chain_FetchByPlatform sv c r platform =
     platform_loop (ch_mode c) True (platform_subject sv r platform) (ref_String sv r) (\<lambda>p. po_fetch p r platform) (ch_catalogs c) False []"

definition chain_ResolveContentDigest ::
  "'v semver \<Rightarrow> 'v chain \<Rightarrow> 'v reference \<Rightarrow> string \<Rightarrow> string \<Rightarrow> chain_error + 'v content_digest_info" where
  "chain_ResolveContentDigest sv c r platform media =
     platform_loop (ch_mode c) True (platform_subject sv r platform) (ref_String sv r) (\<lambda>p. po_digest p r platform media) (ch_catalogs c) False []"

definition chain_ListPlatforms :: "'v semver \<Rightarrow> 'v chain \<Rightarrow> 'v reference \<Rightarrow> chain_error + string list" where
  "chain_ListPlatforms sv c r =
     platform_loop (ch_mode c) False (ref_String sv r) (ref_String sv r) (\<lambda>p. po_platforms p r) (ch_catalogs c) False []"

section \<open>What a chain returns\<close>

definition skips :: "chain_mode \<Rightarrow> (cat_error + 'r) \<Rightarrow> bool" where
  "skips m a = (case a of Inr _ \<Rightarrow> False | Inl e \<Rightarrow> \<not> haltOn m e)"

lemma chain_loop_Inr:
  "chain_loop m subject act cs os = Inr r \<longleftrightarrow>
     (\<exists>pre c post. cs = pre @ c # post \<and> act c = Inr r \<and> list_all (\<lambda>p. skips m (act p)) pre)"
proof (induction cs arbitrary: os)
  case (Cons c cs)
  show ?case
  proof (cases "act c")
    case (Inr x)
    have "(\<exists>pre d post. c # cs = pre @ d # post \<and> act d = Inr r \<and> list_all (\<lambda>p. skips m (act p)) pre) \<longleftrightarrow> x = r"
    proof
      assume "\<exists>pre d post. c # cs = pre @ d # post \<and> act d = Inr r \<and> list_all (\<lambda>p. skips m (act p)) pre"
      then obtain pre d post where p: "c # cs = pre @ d # post" "act d = Inr r" "list_all (\<lambda>p. skips m (act p)) pre" by blast
      then show "x = r" using Inr by (cases pre) (auto simp: skips_def)
    next
      assume "x = r"
      with Inr show "\<exists>pre d post. c # cs = pre @ d # post \<and> act d = Inr r \<and> list_all (\<lambda>p. skips m (act p)) pre"
        by (intro exI [of _ "[]"] exI [of _ c] exI [of _ cs]) simp
    qed
    with Inr show ?thesis by simp
  next
    case (Inl e)
    have "(\<exists>pre d post. c # cs = pre @ d # post \<and> act d = Inr r \<and> list_all (\<lambda>p. skips m (act p)) pre) \<longleftrightarrow>
        \<not> haltOn m e \<and> (\<exists>pre d post. cs = pre @ d # post \<and> act d = Inr r \<and> list_all (\<lambda>p. skips m (act p)) pre)"
    proof
      assume "\<exists>pre d post. c # cs = pre @ d # post \<and> act d = Inr r \<and> list_all (\<lambda>p. skips m (act p)) pre"
      then obtain pre d post where p: "c # cs = pre @ d # post" "act d = Inr r" "list_all (\<lambda>p. skips m (act p)) pre" by blast
      then obtain pre' where "pre = c # pre'" using Inl by (cases pre) auto
      with p Inl show "\<not> haltOn m e \<and> (\<exists>pre d post. cs = pre @ d # post \<and> act d = Inr r \<and> list_all (\<lambda>p. skips m (act p)) pre)"
        by (auto simp: skips_def)
    next
      assume "\<not> haltOn m e \<and> (\<exists>pre d post. cs = pre @ d # post \<and> act d = Inr r \<and> list_all (\<lambda>p. skips m (act p)) pre)"
      then obtain pre d post where p: "\<not> haltOn m e" "cs = pre @ d # post" "act d = Inr r" "list_all (\<lambda>p. skips m (act p)) pre" by blast
      with Inl show "\<exists>pre d post. c # cs = pre @ d # post \<and> act d = Inr r \<and> list_all (\<lambda>p. skips m (act p)) pre"
        by (intro exI [of _ "c # pre"] exI [of _ d] exI [of _ post]) (simp add: skips_def)
    qed
    with Inl Cons show ?thesis by (simp add: Let_def)
  qed
qed simp

text \<open>What \<open>errors.go\<close> intends: an unreachable catalog has not reported that the artifact is missing.\<close>

definition plain_error :: "cat_error \<Rightarrow> bool" where
  "plain_error e = (\<not> (ce_unreachable e \<and> ce_notFound e))"

lemma aggregate_notFound:
  assumes "list_all (\<lambda>oc. plain_error (snd oc)) os"
  shows "chain_IsNotFound (aggregateChainError subject os) \<longleftrightarrow> list_all (\<lambda>oc. ce_notFound (snd oc)) os"
proof -
  let ?u = "filter (\<lambda>oc. ce_unreachable (snd oc)) os" and ?x = "filter (\<lambda>oc. is_other (snd oc)) os"
  have all: "list_all (\<lambda>oc. ce_notFound (snd oc)) os \<longleftrightarrow> ?u = [] \<and> ?x = []"
    using assms by (auto simp: filter_empty_conv list_all_iff is_other_def plain_error_def)
  have u: "?u \<noteq> [] \<Longrightarrow> \<not> ce_notFound (snd (hd ?u))"
    using assms hd_in_set [of ?u] by (auto simp: list_all_iff plain_error_def)
  have x: "?x \<noteq> [] \<Longrightarrow> \<not> ce_notFound (snd (hd ?x))"
    using hd_in_set [of ?x] by (auto simp: is_other_def)
  show ?thesis unfolding all using u x by (simp add: aggregateChainError_def chain_IsNotFound_def Let_def)
qed

lemma chain_loop_notFound:
  "list_all (\<lambda>oc. plain_error (snd oc)) os \<Longrightarrow>
   list_all (\<lambda>c. case act c of Inl e \<Rightarrow> plain_error e | Inr _ \<Rightarrow> True) cs \<Longrightarrow>
   chain_loop m subject act cs os = Inl err \<Longrightarrow>
   chain_IsNotFound err \<longleftrightarrow> list_all (\<lambda>oc. ce_notFound (snd oc)) os \<and> list_all (\<lambda>c. case act c of Inl e \<Rightarrow> ce_notFound e | Inr _ \<Rightarrow> False) cs"
proof (induction cs arbitrary: os)
  case Nil
  then show ?case using aggregate_notFound [of os subject] by simp
next
  case (Cons c cs)
  show ?case
  proof (cases "act c")
    case (Inr x)
    with Cons.prems(3) show ?thesis by simp
  next
    case (Inl e)
    with Cons.prems have os: "list_all (\<lambda>oc. plain_error (snd oc)) (os @ [(ct_name c, e)])" by simp
    show ?thesis
    proof (cases "haltOn m e")
      case True
      with Inl Cons.prems(3) have "err = aggregateChainError subject (os @ [(ct_name c, e)])" by (simp add: Let_def)
      moreover have "\<not> ce_notFound e" using True by (simp add: haltOn_def split: if_splits)
      ultimately show ?thesis using aggregate_notFound [OF os, of subject] Inl by simp
    next
      case False
      with Cons.IH [OF os] Cons.prems Inl show ?thesis by (simp add: Let_def)
    qed
  qed
qed

abbreviation item_key :: "'v semver \<Rightarrow> 'v artifact_info \<Rightarrow> string" where
  "item_key sv i \<equiv> ref_String sv (af_reference i)"

definition items_ok :: "'v semver \<Rightarrow> string list \<times> 'v artifact_info list \<Rightarrow> bool" where
  "items_ok sv st = (set (fst st) = item_key sv ` set (snd st) \<and> distinct (map (item_key sv) (snd st)))"

lemma list_item_fold:
  "items_ok sv st \<Longrightarrow>
   items_ok sv (fold (list_item sv) items st) \<and>
   set (snd (fold (list_item sv) items st)) \<subseteq> set (snd st) \<union> set items \<and>
   set (fst (fold (list_item sv) items st)) = set (fst st) \<union> item_key sv ` set items"
proof (induction items arbitrary: st)
  case (Cons i items)
  obtain seen rs where st: "st = (seen, rs)" by (cases st)
  let ?st = "list_item sv i st"
  have s: "items_ok sv ?st" "set (snd ?st) \<subseteq> insert i (set (snd st))" "set (fst ?st) = insert (item_key sv i) (set (fst st))"
    using Cons.prems by (auto simp: st list_item_def items_ok_def Let_def)
  from Cons.IH [OF s(1)] s(2,3) show ?case by auto
qed simp

definition answered :: "artifact_kind \<Rightarrow> string \<Rightarrow> 'v catalog list \<Rightarrow> 'v artifact_info list" where
  "answered k n cats = concat (map (\<lambda>c. case ct_list c k n of Inl _ \<Rightarrow> [] | Inr items \<Rightarrow> items) cats)"

lemma chain_List_items:
  "set (chain_List sv c k n) \<subseteq> set (answered k n (ch_catalogs c))"
  "distinct (map (item_key sv) (chain_List sv c k n))"
  "item_key sv ` set (chain_List sv c k n) = item_key sv ` set (answered k n (ch_catalogs c))"
proof -
  have e: "fold (\<lambda>cat st. case ct_list cat k n of Inl _ \<Rightarrow> st | Inr items \<Rightarrow> fold (list_item sv) items st) cats st =
      fold (list_item sv) (answered k n cats) st" for cats st
    by (induction cats arbitrary: st) (simp_all add: answered_def split: sum.split)
  have "items_ok sv ([], [])" by (simp add: items_ok_def)
  from list_item_fold [OF this, of "answered k n (ch_catalogs c)"]
  show "set (chain_List sv c k n) \<subseteq> set (answered k n (ch_catalogs c))"
    "distinct (map (item_key sv) (chain_List sv c k n))"
    "item_key sv ` set (chain_List sv c k n) = item_key sv ` set (answered k n (ch_catalogs c))"
    by (auto simp: chain_List_def e items_ok_def)
qed

section \<open>Properties\<close>

text \<open>C38: A chain returns the answer of the first catalog that has one, and every catalog before it failed; in the
  strict mode each of these reported that the artifact does not exist.\<close>

theorem chain_provenance:
  "loopAndExecute c subject act = Inr r \<longleftrightarrow>
     (\<exists>pre cat post. ch_catalogs c = pre @ cat # post \<and> act cat = Inr r \<and>
        list_all (\<lambda>p. case act p of Inr _ \<Rightarrow> False | Inl e \<Rightarrow> ch_mode c = ChainModeBestEffort \<or> ce_notFound e) pre)"
proof -
  have "(\<lambda>p. skips (ch_mode c) (act p)) = (\<lambda>p. case act p of Inr _ \<Rightarrow> False | Inl e \<Rightarrow> ch_mode c = ChainModeBestEffort \<or> ce_notFound e)"
    by (auto simp: skips_def haltOn_def fun_eq_iff split: sum.split)
  then show ?thesis unfolding loopAndExecute_def chain_loop_Inr by simp
qed

text \<open>C39: The error of a chain counts as not found exactly when every catalog reported that the artifact does not
  exist; no other failure is disguised as a miss.\<close>

theorem chain_miss_is_genuine:
  assumes "list_all (\<lambda>cat. case act cat of Inl e \<Rightarrow> plain_error e | Inr _ \<Rightarrow> True) (ch_catalogs c)"
    "loopAndExecute c subject act = Inl err"
  shows "chain_IsNotFound err \<longleftrightarrow> list_all (\<lambda>cat. case act cat of Inl e \<Rightarrow> ce_notFound e | Inr _ \<Rightarrow> False) (ch_catalogs c)"
  using chain_loop_notFound [of "[]" act "ch_catalogs c" "ch_mode c" subject err] assms by (simp add: loopAndExecute_def)

definition sample_catalog :: "string \<Rightarrow> cat_error + unit artifact_info \<Rightarrow> cat_error + bool \<Rightarrow> cat_error + unit artifact_info list \<Rightarrow> unit catalog" where
  "sample_catalog n a e l =
     \<lparr>ct_name = n, ct_fetch = (\<lambda>_. Inl \<lparr>ce_text = [], ce_unreachable = False, ce_notFound = True, ce_platform = False\<rparr>),
      ct_bundle = (\<lambda>_. Inl \<lparr>ce_text = [], ce_unreachable = False, ce_notFound = True, ce_platform = False\<rparr>),
      ct_layer = (\<lambda>_ _. Inl \<lparr>ce_text = [], ce_unreachable = False, ce_notFound = True, ce_platform = False\<rparr>),
      ct_resolve = (\<lambda>_. a), ct_list = (\<lambda>_ _. l), ct_exists = (\<lambda>_. e), ct_platform = None\<rparr>"

definition missing_error :: cat_error where
  "missing_error = \<lparr>ce_text = ''missing'', ce_unreachable = False, ce_notFound = True, ce_platform = False\<rparr>"

definition down_error :: cat_error where
  "down_error = \<lparr>ce_text = ''down'', ce_unreachable = True, ce_notFound = False, ce_platform = False\<rparr>"

definition denied_error :: cat_error where
  "denied_error = \<lparr>ce_text = ''denied'', ce_unreachable = False, ce_notFound = False, ce_platform = False\<rparr>"

theorem chain_miss_is_genuine_witness:
  "chain_IsNotFound (projl (loopAndExecute
     \<lparr>ch_catalogs = [sample_catalog ''a'' (Inl missing_error) (Inr False) (Inr []), sample_catalog ''b'' (Inl missing_error) (Inr False) (Inr [])],
      ch_mode = ChainModeStrict\<rparr> ''x'' (\<lambda>cat. ct_resolve cat (new_reference KindSolution))))"
proof -
  let ?c = "\<lparr>ch_catalogs = [sample_catalog ''a'' (Inl missing_error) (Inr False) (Inr []), sample_catalog ''b'' (Inl missing_error) (Inr False) (Inr [])],
      ch_mode = ChainModeStrict\<rparr>"
  let ?act = "\<lambda>cat. ct_resolve cat (new_reference KindSolution) :: cat_error + unit artifact_info"
  have "list_all (\<lambda>cat. case ?act cat of Inl e \<Rightarrow> plain_error e | Inr _ \<Rightarrow> True) (ch_catalogs ?c)"
    by (simp add: sample_catalog_def missing_error_def plain_error_def)
  moreover have "loopAndExecute ?c ''x'' ?act = Inl (projl (loopAndExecute ?c ''x'' ?act))"
    by (simp add: loopAndExecute_def sample_catalog_def missing_error_def haltOn_def)
  ultimately show ?thesis using chain_miss_is_genuine [of ?act ?c "''x''"] by (simp add: sample_catalog_def missing_error_def)
qed

text \<open>A listing has one entry for each printed reference that some catalog answered, and nothing else.\<close>

theorem chain_list_spec:
  "set (chain_List sv c k n) \<subseteq> set (answered k n (ch_catalogs c)) \<and>
   distinct (map (\<lambda>i. ref_String sv (af_reference i)) (chain_List sv c k n)) \<and>
   (\<lambda>i. ref_String sv (af_reference i)) ` set (chain_List sv c k n) = (\<lambda>i. ref_String sv (af_reference i)) ` set (answered k n (ch_catalogs c))"
  using chain_List_items [of sv c k n] by blast

definition sample_info :: "artifact_kind \<Rightarrow> unit artifact_info" where
  "sample_info k = \<lparr>af_reference = (new_reference k)\<lparr>rf_name := ''app'', rf_version := Some ()\<rparr>, af_tag = [], af_digest = [], af_imageRef = [],
     af_createdAt = 0, af_size = 0, af_annotations = [], af_catalog = [], af_canonical = []\<rparr>"

definition sample_chain :: "unit chain" where
  "sample_chain = \<lparr>ch_catalogs = [sample_catalog ''official'' (Inl down_error) (Inl down_error) (Inr [sample_info KindSolution]),
     sample_catalog ''local'' (Inr (sample_info KindProvider)) (Inr True) (Inr [sample_info KindProvider])], ch_mode = ChainModeStrict\<rparr>"

text \<open>The existence test does not keep the rule of the strict mode: it passes over an unreachable catalog and answers
  from a lower one, where every fetch stops.  And the listing of all kinds drops an artifact whose name and version
  equal those of an artifact of another kind.\<close>

theorem chain_exists_ignores_mode:
  "isl (chain_Resolve sample_semver sample_chain (new_reference KindProvider)) \<and>
   chain_Exists sample_semver sample_chain (new_reference KindProvider) = Inr True \<and>
   map (\<lambda>i. rf_kind (af_reference i)) (chain_List sample_semver sample_chain NoKind ''app'') = [KindSolution]"
  by code_simp

text \<open>The error of an unreachable catalog lists a catalog that denied access among those where the artifact was not
  found.\<close>

theorem denied_reported_missing:
  "aggregateChainError s [(''a'', down_error), (''b'', denied_error)] = UnavailableElsewhereMissing s [''a''] [''b''] down_error"
  by (simp add: aggregateChainError_def down_error_def denied_error_def is_other_def)

end
