(* ===== verification/Template_Refs.thy ===== *)
theory Template_Refs
  imports Template_Deps
begin

text \<open>
  \<open>pkg/gotmpl/refs.go\<close>: the data references of a Go template, with the part of \<open>text/template\<close> they are
  about: the parse tree and its execution.

  The parser is a parameter; what it returns is a list of trees.  Literals and the functions a template
  calls are parameters of the execution, as are fields, truth, iteration and printing of values.  A
  pipeline in parentheses declares no variables here.  A missing else list is the empty list.
\<close>

section \<open>Parse trees\<close>

datatype t_arg =
    AIdent string
  | AField "string list"
  | AVar "string list"
  | ADot
  | ALit nat
  | AChain t_arg "string list"
  | APipe "t_arg list list"

text \<open>A pipeline of a node: the declared variables, whether they are assigned, the commands.\<close>

record t_pipe =
  tp_decl :: "string list"
  tp_assign :: bool
  tp_cmds :: "t_arg list list"

datatype t_node =
    NText string
  | NAction t_pipe
  | NIf t_pipe "t_node list" "t_node list"
  | NRange t_pipe "t_node list" "t_node list"
  | NWith t_pipe "t_node list" "t_node list"
  | NTemplate string "t_pipe option"
  | NBreak
  | NContinue

type_synonym t_trees = "(string \<times> t_node list) list"

section \<open>References\<close>

definition join_dots :: "string list \<Rightarrow> string" where
  "join_dots fs = concat (map (\<lambda>f. CHR ''.'' # f) fs)"

text \<open>\<open>"." + strings.Join(fs, ".")\<close>.\<close>

definition dot_join :: "string list \<Rightarrow> string" where
  "dot_join fs = (if fs = [] then ''.'' else join_dots fs)"

definition buildFieldPath :: "string list \<Rightarrow> string" where
  "buildFieldPath fs = (if fs = [] then [] else dot_join fs)"

definition isTemplateVariable :: "string \<Rightarrow> bool" where
  "isTemplateVariable p = strings_HasPrefix p ''$''"

fun extractBasePath :: "t_arg \<Rightarrow> string" where
  "extractBasePath (AField fs) = buildFieldPath fs"
| "extractBasePath ADot = ''.''"
| "extractBasePath _ = []"

definition addOrUpgradeRef :: "string \<Rightarrow> bool \<Rightarrow> tmpl_ref list \<Rightarrow> tmpl_ref list" where
  "addOrUpgradeRef p scoped refs =
     (if p \<in> set (map tr_path refs)
      then (if scoped then refs else map (\<lambda>r. if tr_path r = p then r\<lparr>tr_scoped := False\<rparr> else r) refs)
      else refs @ [\<lparr>tr_path = p, tr_scoped = scoped\<rparr>])"

definition add_ref :: "string \<Rightarrow> bool \<Rightarrow> tmpl_ref list \<Rightarrow> tmpl_ref list" where
  "add_ref p scoped refs = (if isTemplateVariable p then refs else addOrUpgradeRef p scoped refs)"

fun walkArg :: "nat \<Rightarrow> t_arg \<Rightarrow> tmpl_ref list \<Rightarrow> tmpl_ref list"
and walkCommand :: "nat \<Rightarrow> t_arg list \<Rightarrow> tmpl_ref list \<Rightarrow> tmpl_ref list"
and walkPipe :: "nat \<Rightarrow> t_arg list list \<Rightarrow> tmpl_ref list \<Rightarrow> tmpl_ref list" where
  "walkArg depth (AField fs) refs = add_ref (buildFieldPath fs) (depth > 0) refs"
| "walkArg depth (AVar xs) refs =
     (if length xs \<ge> 2 \<and> hd xs = ''$'' then add_ref (dot_join (tl xs)) False refs else refs)"
| "walkArg depth (AChain n fs) refs =
     (let refs = walkArg depth n refs in
      if fs \<noteq> [] then
        (case n of
           AVar xs \<Rightarrow> (if xs = [''$''] then add_ref (dot_join fs) False refs else refs)
         | _ \<Rightarrow> add_ref (extractBasePath n @ dot_join fs) (depth > 0) refs)
      else refs)"
| "walkArg depth (APipe cmds) refs = walkPipe depth cmds refs"
| "walkArg depth (AIdent f) refs = refs"
| "walkArg depth ADot refs = refs"
| "walkArg depth (ALit n) refs = refs"
| "walkCommand depth [] refs = refs"
| "walkCommand depth (a # as) refs = walkCommand depth as (walkArg depth a refs)"
| "walkPipe depth [] refs = refs"
| "walkPipe depth (c # cs) refs = walkPipe depth cs (walkCommand depth c refs)"

fun walkNode :: "nat \<Rightarrow> t_node \<Rightarrow> tmpl_ref list \<Rightarrow> tmpl_ref list"
and walkNodes :: "nat \<Rightarrow> t_node list \<Rightarrow> tmpl_ref list \<Rightarrow> tmpl_ref list" where
  "walkNode depth (NAction p) refs = walkPipe depth (tp_cmds p) refs"
| "walkNode depth (NIf p b e) refs = walkNodes depth e (walkNodes depth b (walkPipe depth (tp_cmds p) refs))"
| "walkNode depth (NRange p b e) refs = walkNodes depth e (walkNodes (depth + 1) b (walkPipe depth (tp_cmds p) refs))"
| "walkNode depth (NWith p b e) refs = walkNodes depth e (walkNodes (depth + 1) b (walkPipe depth (tp_cmds p) refs))"
| "walkNode depth (NTemplate n (Some p)) refs = walkPipe depth (tp_cmds p) refs"
| "walkNode depth (NTemplate n None) refs = refs"
| "walkNode depth (NText s) refs = refs"
| "walkNode depth NBreak refs = refs"
| "walkNode depth NContinue refs = refs"
| "walkNodes depth [] refs = refs"
| "walkNodes depth (n # ns) refs = walkNodes depth ns (walkNode depth n refs)"

type_synonym tree_parser = "string \<Rightarrow> string \<Rightarrow> string \<Rightarrow> t_trees option"

definition default_delim :: "string \<Rightarrow> string \<Rightarrow> string" where
  "default_delim d s = (if s = [] then d else s)"

definition GetReferences :: "tree_parser \<Rightarrow> string \<Rightarrow> string \<Rightarrow> string \<Rightarrow> tmpl_ref list option" where
  "GetReferences prs t l r =
     (if t = [] then None
      else (case prs t (default_delim ''{{'' l) (default_delim ''}}'' r) of
              None \<Rightarrow> None
            | Some trees \<Rightarrow> Some (fold (\<lambda>(_, ns). walkNodes 0 ns) trees [])))"

section \<open>Execution\<close>

record 'v t_sem =
  se_field :: "'v \<Rightarrow> string \<Rightarrow> string + 'v"
  se_apply :: "string \<Rightarrow> (string + 'v) list \<Rightarrow> string + 'v"
  se_invoke :: "'v \<Rightarrow> (string + 'v) list \<Rightarrow> string + 'v"
  se_truth :: "'v \<Rightarrow> bool"
  se_elems :: "'v \<Rightarrow> string + ('v \<times> 'v) list"
  se_print :: "'v \<Rightarrow> string + string"
  se_lit :: "nat \<Rightarrow> 'v"
  se_none :: 'v

text \<open>The variables are a stack, the innermost first.  An operand that is not needed is not evaluated by
  Go; here its result, which may be an error, is passed on for the function to ignore.\<close>

type_synonym 'v t_vars = "(string \<times> 'v) list"

definition bind :: "'e + 'a \<Rightarrow> ('a \<Rightarrow> 'e + 'b) \<Rightarrow> 'e + 'b" where
  "bind x f = (case x of Inl e \<Rightarrow> Inl e | Inr a \<Rightarrow> f a)"

primrec get_fields :: "'v t_sem \<Rightarrow> string list \<Rightarrow> 'v \<Rightarrow> string + 'v" where
  "get_fields S [] v = Inr v"
| "get_fields S (f # fs) v = bind (se_field S v f) (get_fields S fs)"

definition get_var :: "'v t_vars \<Rightarrow> string \<Rightarrow> string + 'v" where
  "get_var vars x = (case map_of vars x of None \<Rightarrow> Inl (''undefined variable: '' @ x) | Some v \<Rightarrow> Inr v)"

definition head_ident :: "t_arg \<Rightarrow> string option" where
  "head_ident a = (case a of AIdent f \<Rightarrow> Some f | _ \<Rightarrow> None)"

fun evalArg :: "'v t_sem \<Rightarrow> 'v \<Rightarrow> 'v t_vars \<Rightarrow> t_arg \<Rightarrow> string + 'v"
and evalArgs :: "'v t_sem \<Rightarrow> 'v \<Rightarrow> 'v t_vars \<Rightarrow> t_arg list \<Rightarrow> (string + 'v) list"
and evalCommand :: "'v t_sem \<Rightarrow> 'v \<Rightarrow> 'v t_vars \<Rightarrow> t_arg list \<Rightarrow> (string + 'v) list \<Rightarrow> string + 'v"
and evalCommands :: "'v t_sem \<Rightarrow> 'v \<Rightarrow> 'v t_vars \<Rightarrow> t_arg list list \<Rightarrow> (string + 'v) list \<Rightarrow> string + 'v" where
  "evalArg S dot vars (AIdent f) = se_apply S f []"
| "evalArg S dot vars (AField fs) = get_fields S fs dot"
| "evalArg S dot vars (AVar []) = Inl ''no variable''"
| "evalArg S dot vars (AVar (x # fs)) = bind (get_var vars x) (get_fields S fs)"
| "evalArg S dot vars ADot = Inr dot"
| "evalArg S dot vars (ALit n) = Inr (se_lit S n)"
| "evalArg S dot vars (AChain a fs) = bind (evalArg S dot vars a) (get_fields S fs)"
| "evalArg S dot vars (APipe cmds) = evalCommands S dot vars cmds []"
| "evalArgs S dot vars [] = []"
| "evalArgs S dot vars (a # as) = evalArg S dot vars a # evalArgs S dot vars as"
| "evalCommand S dot vars [] final = Inl ''empty command''"
| "evalCommand S dot vars (a # as) final =
     (let rest = evalArgs S dot vars as @ final in
      case head_ident a of
        Some f \<Rightarrow> se_apply S f rest
      | None \<Rightarrow> bind (evalArg S dot vars a) (\<lambda>v. if rest = [] then Inr v else se_invoke S v rest))"
| "evalCommands S dot vars [] final = (case final of [] \<Rightarrow> Inl ''empty pipeline'' | r # _ \<Rightarrow> r)"
| "evalCommands S dot vars (c # cs) final =
     bind (evalCommand S dot vars c final) (\<lambda>v. evalCommands S dot vars cs [Inr v])"

fun set_var :: "string \<Rightarrow> 'v \<Rightarrow> 'v t_vars \<Rightarrow> 'v t_vars" where
  "set_var x v [] = []"
| "set_var x v ((y, u) # vars) = (if x = y then (y, v) # vars else (y, u) # set_var x v vars)"

definition declare_vars :: "t_pipe \<Rightarrow> 'v \<Rightarrow> 'v t_vars \<Rightarrow> 'v t_vars" where
  "declare_vars p v vars = fold (\<lambda>x vs. if tp_assign p then set_var x v vs else (x, v) # vs) (tp_decl p) vars"

definition evalPipeline :: "'v t_sem \<Rightarrow> 'v \<Rightarrow> 'v t_vars \<Rightarrow> t_pipe \<Rightarrow> string + 'v \<times> 'v t_vars" where
  "evalPipeline S dot vars p = bind (evalCommands S dot vars (tp_cmds p) []) (\<lambda>v. Inr (v, declare_vars p v vars))"

datatype t_flow = GoOn | Broke | Continued

type_synonym 'v t_result = "string + t_flow \<times> string \<times> 'v t_vars"

definition pop_to :: "nat \<Rightarrow> 'v t_result \<Rightarrow> 'v t_result" where
  "pop_to mark r = map_sum id (\<lambda>(fl, out, vars). (fl, out, drop (length vars - mark) vars)) r"

definition set_top :: "nat \<Rightarrow> 'v \<Rightarrow> 'v t_vars \<Rightarrow> 'v t_vars" where
  "set_top n v vars = (if n \<le> length vars \<and> n > 0 then vars[n - 1 := (fst (vars ! (n - 1)), v)] else vars)"

text \<open>The variables of one iteration over \<open>(index, elem)\<close>.\<close>

definition iteration_vars :: "t_pipe \<Rightarrow> 'v \<times> 'v \<Rightarrow> 'v t_vars \<Rightarrow> 'v t_vars" where
  "iteration_vars p ie vars =
     (case tp_decl p of
        [] \<Rightarrow> vars
      | [x] \<Rightarrow> if tp_assign p then set_var x (snd ie) vars else set_top 1 (snd ie) vars
      | x # y # _ \<Rightarrow> if tp_assign p then set_var y (snd ie) (set_var x (fst ie) vars)
                       else set_top 2 (fst ie) (set_top 1 (snd ie) vars))"

fun range_loop ::
  "('v \<Rightarrow> 'v t_vars \<Rightarrow> 'v t_result) \<Rightarrow> t_pipe \<Rightarrow> ('v \<times> 'v) list \<Rightarrow> 'v t_vars \<Rightarrow> 'v t_result" where
  "range_loop f p [] vars = Inr (GoOn, [], vars)"
| "range_loop f p (ie # ies) vars =
     bind (pop_to (length vars) (f (snd ie) (iteration_vars p ie vars))) (\<lambda>(fl, out, vars).
       if fl = Broke then Inr (GoOn, out, vars)
       else bind (range_loop f p ies vars) (\<lambda>(fl, out', vars). Inr (fl, out @ out', vars)))"

text \<open>\<open>call\<close> executes another template of the set.\<close>

fun walk :: "'v t_sem \<Rightarrow> (string \<Rightarrow> 'v \<Rightarrow> string + string) \<Rightarrow> 'v \<Rightarrow> 'v t_vars \<Rightarrow> t_node \<Rightarrow> 'v t_result"
and walk_list :: "'v t_sem \<Rightarrow> (string \<Rightarrow> 'v \<Rightarrow> string + string) \<Rightarrow> 'v \<Rightarrow> 'v t_vars \<Rightarrow> t_node list \<Rightarrow> 'v t_result" where
  "walk S call dot vars (NText s) = Inr (GoOn, s, vars)"
| "walk S call dot vars (NAction p) =
     bind (evalPipeline S dot vars p) (\<lambda>(v, vars).
       if tp_decl p = [] then bind (se_print S v) (\<lambda>s. Inr (GoOn, s, vars)) else Inr (GoOn, [], vars))"
| "walk S call dot vars (NIf p b e) =
     pop_to (length vars) (bind (evalPipeline S dot vars p) (\<lambda>(v, vars).
       if se_truth S v then walk_list S call dot vars b else walk_list S call dot vars e))"
| "walk S call dot vars (NWith p b e) =
     pop_to (length vars) (bind (evalPipeline S dot vars p) (\<lambda>(v, vars).
       if se_truth S v then walk_list S call v vars b else walk_list S call dot vars e))"
| "walk S call dot vars (NRange p b e) =
     pop_to (length vars) (bind (evalPipeline S dot vars p) (\<lambda>(v, vars).
       bind (se_elems S v) (\<lambda>ies.
         if ies = [] then walk_list S call dot vars e
         else range_loop (\<lambda>dot vars. walk_list S call dot vars b) p ies vars)))"
| "walk S call dot vars (NTemplate n None) = bind (call n (se_none S)) (\<lambda>s. Inr (GoOn, s, vars))"
| "walk S call dot vars (NTemplate n (Some p)) =
     bind (evalPipeline S dot vars p) (\<lambda>(v, vars). bind (call n v) (\<lambda>s. Inr (GoOn, s, vars)))"
| "walk S call dot vars NBreak = Inr (Broke, [], vars)"
| "walk S call dot vars NContinue = Inr (Continued, [], vars)"
| "walk_list S call dot vars [] = Inr (GoOn, [], vars)"
| "walk_list S call dot vars (n # ns) =
     bind (walk S call dot vars n) (\<lambda>(fl, out, vars).
       if fl = GoOn then bind (walk_list S call dot vars ns) (\<lambda>(fl, out', vars). Inr (fl, out @ out', vars))
       else Inr (fl, out, vars))"

text \<open>The depth of template calls is bounded by \<open>maxExecDepth\<close>.\<close>

primrec exec_template :: "'v t_sem \<Rightarrow> t_trees \<Rightarrow> nat \<Rightarrow> string \<Rightarrow> 'v \<Rightarrow> string + string" where
  "exec_template S trees 0 n dot = Inl ''exceeded maximum template depth''"
| "exec_template S trees (Suc d) n dot =
     (case map_of trees n of
        None \<Rightarrow> Inl (''template not defined: '' @ n)
      | Some ns \<Rightarrow> bind (walk_list S (exec_template S trees d) dot [(''$'', dot)] ns) (\<lambda>(_, out, _). Inr out))"

end
