(* ===== verification/Template_Sound.thy ===== *)
theory Template_Sound
  imports Template_Refs Resolver_Types
begin

text \<open>
  The references that \<open>Template_Refs\<close> finds, compared with what the execution of the template reads: data
  that agree on the reported names render to the same text.
\<close>

section \<open>Occurrences\<close>

text \<open>The references of a tree in the order they are found, without the merging.\<close>

definition occ :: "string \<Rightarrow> bool \<Rightarrow> (string \<times> bool) list" where
  "occ p s = (if isTemplateVariable p then [] else [(p, s)])"

definition chain_occ :: "nat \<Rightarrow> t_arg \<Rightarrow> string list \<Rightarrow> (string \<times> bool) list" where
  "chain_occ depth n fs =
     (if fs \<noteq> [] then
        (case n of AVar xs \<Rightarrow> (if xs = [''$''] then occ (dot_join fs) False else [])
         | _ \<Rightarrow> occ (extractBasePath n @ dot_join fs) (depth > 0))
      else [])"

fun occArg :: "nat \<Rightarrow> t_arg \<Rightarrow> (string \<times> bool) list"
and occArgs :: "nat \<Rightarrow> t_arg list \<Rightarrow> (string \<times> bool) list"
and occCommands :: "nat \<Rightarrow> t_arg list list \<Rightarrow> (string \<times> bool) list" where
  "occArg depth (AField fs) = occ (buildFieldPath fs) (depth > 0)"
| "occArg depth (AVar xs) = (if length xs \<ge> 2 \<and> hd xs = ''$'' then occ (dot_join (tl xs)) False else [])"
| "occArg depth (AChain n fs) = occArg depth n @ chain_occ depth n fs"
| "occArg depth (APipe cmds) = occCommands depth cmds"
| "occArg depth (AIdent f) = []"
| "occArg depth ADot = []"
| "occArg depth (ALit n) = []"
| "occArgs depth [] = []"
| "occArgs depth (a # as) = occArg depth a @ occArgs depth as"
| "occCommands depth [] = []"
| "occCommands depth (c # cs) = occArgs depth c @ occCommands depth cs"

fun occNode :: "nat \<Rightarrow> t_node \<Rightarrow> (string \<times> bool) list"
and occNodes :: "nat \<Rightarrow> t_node list \<Rightarrow> (string \<times> bool) list" where
  "occNode depth (NAction p) = occCommands depth (tp_cmds p)"
| "occNode depth (NIf p b e) = occCommands depth (tp_cmds p) @ occNodes depth b @ occNodes depth e"
| "occNode depth (NRange p b e) = occCommands depth (tp_cmds p) @ occNodes (depth + 1) b @ occNodes depth e"
| "occNode depth (NWith p b e) = occCommands depth (tp_cmds p) @ occNodes (depth + 1) b @ occNodes depth e"
| "occNode depth (NTemplate n (Some p)) = occCommands depth (tp_cmds p)"
| "occNode depth (NTemplate n None) = []"
| "occNode depth (NText s) = []"
| "occNode depth NBreak = []"
| "occNode depth NContinue = []"
| "occNodes depth [] = []"
| "occNodes depth (n # ns) = occNode depth n @ occNodes depth ns"

definition add_occs :: "(string \<times> bool) list \<Rightarrow> tmpl_ref list \<Rightarrow> tmpl_ref list" where
  "add_occs os refs = fold (\<lambda>(p, s). addOrUpgradeRef p s) os refs"

lemma add_occs_Nil [simp]: "add_occs [] refs = refs"
  by (simp add: add_occs_def)

lemma add_occs_append [simp]: "add_occs (os @ os') refs = add_occs os' (add_occs os refs)"
  by (simp add: add_occs_def)

lemma add_ref_occ: "add_ref p s refs = add_occs (occ p s) refs"
  by (simp add: add_ref_def occ_def add_occs_def)

lemma chain_occ_walk:
  "(if fs \<noteq> [] then (case n of AVar xs \<Rightarrow> (if xs = [''$''] then add_ref (dot_join fs) False refs else refs)
      | _ \<Rightarrow> add_ref (extractBasePath n @ dot_join fs) (depth > 0) refs) else refs) =
   add_occs (chain_occ depth n fs) refs"
  unfolding add_ref_occ by (auto simp: chain_occ_def split: t_arg.split)

lemma walkArg_occ:
  "walkArg depth a refs = add_occs (occArg depth a) refs"
  "walkCommand depth as refs = add_occs (occArgs depth as) refs"
  "walkPipe depth cs refs = add_occs (occCommands depth cs) refs"
proof (induction depth a refs and depth as refs and depth cs refs rule: walkArg_walkCommand_walkPipe.induct)
  case (3 depth n fs refs)
  have "walkArg depth (AChain n fs) refs = add_occs (chain_occ depth n fs) (walkArg depth n refs)"
    unfolding chain_occ_walk [symmetric] by (simp only: walkArg.simps Let_def)
  with 3 show ?case by simp
qed (simp_all add: add_ref_occ)

lemma walkNode_occ:
  "walkNode depth n refs = add_occs (occNode depth n) refs"
  "walkNodes depth ns refs = add_occs (occNodes depth ns) refs"
  by (induction depth n refs and depth ns refs rule: walkNode_walkNodes.induct) (simp_all add: walkArg_occ)

text \<open>The list of references: every path once, scoped when all its occurrences are.\<close>

definition merged :: "tmpl_ref list \<Rightarrow> (string \<times> bool) list \<Rightarrow> bool" where
  "merged refs os =
     (distinct (map tr_path refs) \<and> set (map tr_path refs) = fst ` set os \<and>
      (\<forall>r \<in> set refs. tr_scoped r \<longleftrightarrow> (tr_path r, False) \<notin> set os))"

lemma addOrUpgradeRef_paths:
  "map tr_path (addOrUpgradeRef p s refs) = (if p \<in> set (map tr_path refs) then map tr_path refs else map tr_path refs @ [p])"
proof -
  have "map tr_path (map (\<lambda>r. if tr_path r = p then r\<lparr>tr_scoped := False\<rparr> else r) refs) = map tr_path refs" by simp
  then show ?thesis unfolding addOrUpgradeRef_def by simp
qed

lemma addOrUpgradeRef_scoped:
  assumes "r \<in> set (addOrUpgradeRef p s refs)"
  shows "(\<exists>q \<in> set refs. tr_path r = tr_path q \<and> tr_scoped r = (tr_scoped q \<and> (tr_path q = p \<longrightarrow> s))) \<or>
     p \<notin> set (map tr_path refs) \<and> tr_path r = p \<and> tr_scoped r = s"
  using assms unfolding addOrUpgradeRef_def
  by (cases s) (force split: if_splits)+

lemma merged_step: assumes m: "merged refs os" shows "merged (addOrUpgradeRef p s refs) (os @ [(p, s)])"
proof -
  have "distinct (map tr_path (addOrUpgradeRef p s refs))"
    "set (map tr_path (addOrUpgradeRef p s refs)) = fst ` set (os @ [(p, s)])"
    unfolding addOrUpgradeRef_paths using m by (simp_all add: merged_def insert_absorb)
  moreover have "tr_scoped r \<longleftrightarrow> (tr_path r, False) \<notin> set (os @ [(p, s)])" if "r \<in> set (addOrUpgradeRef p s refs)" for r
    using addOrUpgradeRef_scoped [OF that]
  proof (elim disjE bexE conjE)
    fix q assume q: "q \<in> set refs" "tr_path r = tr_path q" "tr_scoped r = (tr_scoped q \<and> (tr_path q = p \<longrightarrow> s))"
    have "tr_scoped q \<longleftrightarrow> (tr_path q, False) \<notin> set os" using m q(1) by (simp add: merged_def)
    with q(2,3) show ?thesis by auto
  next
    assume new: "p \<notin> set (map tr_path refs)" "tr_path r = p" "tr_scoped r = s"
    then have "p \<notin> fst ` set os" using m by (simp add: merged_def)
    then have "(p, False) \<notin> set os" by force
    with new show ?thesis by auto
  qed
  ultimately show ?thesis unfolding merged_def by blast
qed

lemma merged_occs: "merged refs os \<Longrightarrow> merged (add_occs os' refs) (os @ os')"
proof (induction os' arbitrary: refs os)
  case (Cons x os')
  obtain p s where x: "x = (p, s)" by (cases x)
  from Cons.IH [OF merged_step [OF Cons.prems, of p s]] show ?case by (simp add: add_occs_def x)
qed simp

definition occTrees :: "t_trees \<Rightarrow> (string \<times> bool) list" where
  "occTrees trees = concat (map (occNodes 0 \<circ> snd) trees)"

lemma fold_walk_trees: "fold (\<lambda>(_, ns). walkNodes 0 ns) trees refs = add_occs (occTrees trees) refs"
  by (induction trees arbitrary: refs) (auto simp: occTrees_def walkNode_occ)

lemma GetReferences_merged:
  assumes "GetReferences prs t l r = Some refs"
  obtains trees where "prs t (default_delim ''{{'' l) (default_delim ''}}'' r) = Some trees" "merged refs (occTrees trees)"
proof -
  from assms obtain trees where t: "prs t (default_delim ''{{'' l) (default_delim ''}}'' r) = Some trees"
    and refs: "refs = add_occs (occTrees trees) []"
    by (auto simp: GetReferences_def fold_walk_trees split: if_splits option.splits)
  have "merged [] []" by (simp add: merged_def)
  from merged_occs [OF this, of "occTrees trees"] refs that [OF t] show ?thesis by simp
qed

section \<open>What a template can read\<close>

text \<open>Field names have no dots and are not empty.\<close>

definition proper_name :: "string \<Rightarrow> bool" where
  "proper_name f = (f \<noteq> [] \<and> CHR ''.'' \<notin> set f)"

definition proper_path :: "string list \<Rightarrow> bool" where
  "proper_path fs = (fs \<noteq> [] \<and> list_all proper_name fs)"

text \<open>
  A tree that uses its data only through fields: at the top level the dot is not used as a value, and the
  variable \<open>$\<close> is never used without a field.
\<close>

fun plainArg :: "nat \<Rightarrow> t_arg \<Rightarrow> bool"
and plainArgs :: "nat \<Rightarrow> t_arg list \<Rightarrow> bool"
and plainCommands :: "nat \<Rightarrow> t_arg list list \<Rightarrow> bool" where
  "plainArg depth (AField fs) = (depth = 0 \<longrightarrow> proper_path fs)"
| "plainArg depth (AVar xs) = (case xs of [] \<Rightarrow> True | x # fs \<Rightarrow> x = ''$'' \<longrightarrow> proper_path fs)"
| "plainArg depth (AChain n fs) = plainArg depth n"
| "plainArg depth (APipe cmds) = plainCommands depth cmds"
| "plainArg depth (AIdent f) = True"
| "plainArg depth ADot = (depth \<noteq> 0)"
| "plainArg depth (ALit n) = True"
| "plainArgs depth [] = True"
| "plainArgs depth (a # as) = (plainArg depth a \<and> plainArgs depth as)"
| "plainCommands depth [] = True"
| "plainCommands depth (c # cs) = (plainArgs depth c \<and> plainCommands depth cs)"

fun plainNode :: "nat \<Rightarrow> t_node \<Rightarrow> bool"
and plainNodes :: "nat \<Rightarrow> t_node list \<Rightarrow> bool" where
  "plainNode depth (NAction p) = plainCommands depth (tp_cmds p)"
| "plainNode depth (NIf p b e) = (plainCommands depth (tp_cmds p) \<and> plainNodes depth b \<and> plainNodes depth e)"
| "plainNode depth (NRange p b e) = (plainCommands depth (tp_cmds p) \<and> plainNodes (depth + 1) b \<and> plainNodes depth e)"
| "plainNode depth (NWith p b e) = (plainCommands depth (tp_cmds p) \<and> plainNodes (depth + 1) b \<and> plainNodes depth e)"
| "plainNode depth (NTemplate n (Some p)) = plainCommands depth (tp_cmds p)"
| "plainNode depth (NTemplate n None) = True"
| "plainNode depth (NText s) = True"
| "plainNode depth NBreak = True"
| "plainNode depth NContinue = True"
| "plainNodes depth [] = True"
| "plainNodes depth (n # ns) = (plainNode depth n \<and> plainNodes depth ns)"

text \<open>Two values agree on the unscoped paths.\<close>

definition agree :: "'v t_sem \<Rightarrow> 'v \<Rightarrow> 'v \<Rightarrow> (string \<times> bool) set \<Rightarrow> bool" where
  "agree S d1 d2 os =
     (\<forall>fs. proper_path fs \<and> (dot_join fs, False) \<in> os \<longrightarrow> get_fields S fs d1 = get_fields S fs d2)"

definition same_dot :: "nat \<Rightarrow> 'v \<Rightarrow> 'v \<Rightarrow> 'v \<Rightarrow> 'v \<Rightarrow> bool" where
  "same_dot depth d1 d2 u v = (u = v \<or> depth = 0 \<and> u = d1 \<and> v = d2)"

definition same_vars :: "'v \<Rightarrow> 'v \<Rightarrow> 'v t_vars \<Rightarrow> 'v t_vars \<Rightarrow> bool" where
  "same_vars d1 d2 vs ws =
     list_all2 (\<lambda>(x, u) (y, v). x = y \<and> (u = v \<or> x = ''$'' \<and> u = d1 \<and> v = d2)) vs ws"

lemma dot_join_no_variable: "\<not> isTemplateVariable (dot_join fs)"
  by (cases fs) (simp_all add: isTemplateVariable_def dot_join_def join_dots_def strings_HasPrefix_def)

lemma occ_dot_join [simp]: "occ (dot_join fs) s = [(dot_join fs, s)]"
  by (simp add: occ_def dot_join_no_variable)

lemma agree_mono: "agree S d1 d2 os \<Longrightarrow> os' \<subseteq> os \<Longrightarrow> agree S d1 d2 os'"
  by (auto simp: agree_def)

lemma agree_Un [simp]: "agree S d1 d2 (os \<union> os') \<longleftrightarrow> agree S d1 d2 os \<and> agree S d1 d2 os'"
  by (auto simp: agree_def)

lemma agreeD: "agree S d1 d2 os \<Longrightarrow> (dot_join fs, False) \<in> os \<Longrightarrow> proper_path fs \<Longrightarrow> get_fields S fs d1 = get_fields S fs d2"
  by (auto simp: agree_def)

lemma same_vars_Nil [simp]: "same_vars d1 d2 [] ws \<longleftrightarrow> ws = []"
  by (auto simp: same_vars_def)

lemma same_vars_Cons:
  "same_vars d1 d2 ((x, u) # vs) ws \<longleftrightarrow>
     (\<exists>v ws'. ws = (x, v) # ws' \<and> (u = v \<or> x = ''$'' \<and> u = d1 \<and> v = d2) \<and> same_vars d1 d2 vs ws')"
  by (auto simp: same_vars_def list_all2_Cons1)

lemma same_vars_length: "same_vars d1 d2 vs ws \<Longrightarrow> length ws = length vs"
  by (auto simp: same_vars_def dest: list_all2_lengthD)

lemma same_vars_map_of:
  "same_vars d1 d2 vs ws \<Longrightarrow>
     map_of vs x = map_of ws x \<or> x = ''$'' \<and> map_of vs x = Some d1 \<and> map_of ws x = Some d2"
proof (induction vs arbitrary: ws)
  case (Cons y vs)
  obtain z u where y: "y = (z, u)" by (cases y)
  with Cons.prems obtain v ws' where ws: "ws = (z, v) # ws'" "u = v \<or> z = ''$'' \<and> u = d1 \<and> v = d2"
    and rest: "same_vars d1 d2 vs ws'" by (auto simp: same_vars_Cons)
  from Cons.IH [OF rest] ws show ?case unfolding y by (cases "x = z") simp_all
qed simp

lemma same_vars_set: "same_vars d1 d2 vs ws \<Longrightarrow> same_vars d1 d2 (set_var x v vs) (set_var x v ws)"
proof (induction vs arbitrary: ws)
  case (Cons y vs)
  then show ?case by (cases y) (auto simp: same_vars_Cons)
qed simp

lemma same_vars_declare: "same_vars d1 d2 vs ws \<Longrightarrow> same_vars d1 d2 (declare_vars p v vs) (declare_vars p v ws)"
proof -
  have "same_vars d1 d2 (fold (\<lambda>x us. if b then set_var x v us else (x, v) # us) xs vs)
      (fold (\<lambda>x us. if b then set_var x v us else (x, v) # us) xs ws)" if "same_vars d1 d2 vs ws" for b xs
    using that by (induction xs arbitrary: vs ws) (auto simp: same_vars_set same_vars_Cons)
  then show "same_vars d1 d2 vs ws \<Longrightarrow> ?thesis" by (simp add: declare_vars_def)
qed

lemma same_vars_drop: "same_vars d1 d2 vs ws \<Longrightarrow> same_vars d1 d2 (drop n vs) (drop n ws)"
  by (simp add: same_vars_def)

lemma same_vars_set_top: "same_vars d1 d2 vs ws \<Longrightarrow> same_vars d1 d2 (set_top n v vs) (set_top n v ws)"
proof -
  assume s: "same_vars d1 d2 vs ws"
  then have l: "length ws = length vs" by (rule same_vars_length)
  show ?thesis
  proof (cases "n \<le> length vs \<and> n > 0")
    case True
    then have "fst (vs ! (n - 1)) = fst (ws ! (n - 1))"
      using s l by (auto simp: same_vars_def list_all2_conv_all_nth case_prod_beta)
    with s l True show ?thesis
      unfolding same_vars_def set_top_def by (auto intro!: list_all2_update_cong)
  next
    case False
    then have "\<not> (n \<le> length ws \<and> n > 0)" using l by simp
    with False s show ?thesis unfolding set_top_def by (simp only: if_False)
  qed
qed

lemma same_vars_iteration:
  "same_vars d1 d2 vs ws \<Longrightarrow> same_vars d1 d2 (iteration_vars p ie vs) (iteration_vars p ie ws)"
  unfolding iteration_vars_def by (auto split: list.split simp: same_vars_set same_vars_set_top)

section \<open>Equal results\<close>

lemma eval_same:
  "same_dot depth d1 d2 u v \<Longrightarrow> same_vars d1 d2 vs ws \<Longrightarrow> plainArg depth a \<Longrightarrow> agree S d1 d2 (set (occArg depth a)) \<Longrightarrow>
     evalArg S u vs a = evalArg S v ws a"
  "same_dot depth d1 d2 u v \<Longrightarrow> same_vars d1 d2 vs ws \<Longrightarrow> plainArgs depth as \<Longrightarrow> agree S d1 d2 (set (occArgs depth as)) \<Longrightarrow>
     evalArgs S u vs as = evalArgs S v ws as"
  "same_dot depth d1 d2 u v \<Longrightarrow> same_vars d1 d2 vs ws \<Longrightarrow> plainArgs depth as \<Longrightarrow> agree S d1 d2 (set (occArgs depth as)) \<Longrightarrow>
     evalCommand S u vs as fin = evalCommand S v ws as fin"
  "same_dot depth d1 d2 u v \<Longrightarrow> same_vars d1 d2 vs ws \<Longrightarrow> plainCommands depth cs \<Longrightarrow> agree S d1 d2 (set (occCommands depth cs)) \<Longrightarrow>
     evalCommands S u vs cs fin = evalCommands S v ws cs fin"
proof (induction S u vs a and S u vs as and S u vs as fin and S u vs cs fin
    arbitrary: v ws and v ws and v ws and v ws rule: evalArg_evalArgs_evalCommand_evalCommands.induct)
  case (2 S dot vars fs)
  have "proper_path fs \<Longrightarrow> depth = 0 \<Longrightarrow> get_fields S fs d1 = get_fields S fs d2"
    using agreeD [OF 2(4), of fs] by (simp add: buildFieldPath_def proper_path_def)
  with 2 show ?case by (auto simp: same_dot_def)
next
  case (4 S dot vars x fs)
  consider "map_of vars x = map_of ws x" | "x = ''$''" "map_of vars x = Some d1" "map_of ws x = Some d2"
    using same_vars_map_of [OF 4(2)] by blast
  then show ?case
  proof cases
    case 2
    with 4(3) have fs: "proper_path fs" by simp
    then have "fs \<noteq> []" by (simp add: proper_path_def)
    then have "(dot_join fs, False) \<in> set (occArg depth (AVar (x # fs)))" using 2(1) by (cases fs) auto
    with agreeD [OF 4(4)] fs have "get_fields S fs d1 = get_fields S fs d2" by blast
    with 2 show ?thesis by (simp add: get_var_def bind_def)
  qed (simp add: get_var_def)
next
  case (5 S dot vars)
  then show ?case by (simp add: same_dot_def)
next
  case (7 S dot vars a fs)
  then show ?case by simp
next
  case (12 S dot vars a as fin)
  have args: "evalArgs S dot vars as = evalArgs S v ws as" using 12 by simp
  show ?case
  proof (cases "head_ident a")
    case None
    have pl: "plainArg depth a" and ag: "agree S d1 d2 (set (occArg depth a))" using 12(5,6) by simp_all
    have "evalArg S dot vars a = evalArg S v ws a" by (rule 12(2) [OF refl None 12(3,4) pl ag])
    then show ?thesis by (simp only: evalCommand.simps args)
  qed (simp add: args)
next
  case (14 S dot vars c cs fin)
  have pl: "plainArgs depth c" "plainCommands depth cs" using 14(5) by simp_all
  have ag: "agree S d1 d2 (set (occArgs depth c))" "agree S d1 d2 (set (occCommands depth cs))" using 14(6) by simp_all
  have "evalCommand S dot vars c fin = evalCommand S v ws c fin" by (rule 14(1) [OF 14(3,4) pl(1) ag(1)])
  moreover have "evalCommands S dot vars cs [Inr x] = evalCommands S v ws cs [Inr x]" for x
    by (rule 14(2) [OF 14(3,4) pl(2) ag(2)])
  ultimately show ?case by (simp only: evalCommands.simps)
qed simp_all


definition same_result :: "'v \<Rightarrow> 'v \<Rightarrow> 'v t_result \<Rightarrow> 'v t_result \<Rightarrow> bool" where
  "same_result d1 d2 r s =
     (case (r, s) of
        (Inl e, Inl e') \<Rightarrow> e = e'
      | (Inr (fl, out, vs), Inr (fl', out', ws)) \<Rightarrow> fl = fl' \<and> out = out' \<and> same_vars d1 d2 vs ws
      | _ \<Rightarrow> False)"

lemma same_result_Inr [simp]:
  "same_result d1 d2 (Inr (fl, out, vs)) s \<longleftrightarrow> (\<exists>ws. s = Inr (fl, out, ws) \<and> same_vars d1 d2 vs ws)"
  by (cases s) (auto simp: same_result_def)

lemma same_result_Inl [simp]: "same_result d1 d2 (Inl e) s \<longleftrightarrow> s = Inl e"
  by (cases s) (auto simp: same_result_def)

lemma same_result_bind:
  assumes "same_result d1 d2 r s"
    "\<And>fl out vs ws. same_vars d1 d2 vs ws \<Longrightarrow> same_result d1 d2 (f (fl, out, vs)) (g (fl, out, ws))"
  shows "same_result d1 d2 (bind r f) (bind s g)"
  using assms by (cases r) (auto simp: bind_def split: sum.splits)

lemma same_result_pop: "same_result d1 d2 r s \<Longrightarrow> same_result d1 d2 (pop_to n r) (pop_to n s)"
  by (cases r) (auto simp: pop_to_def same_vars_length same_vars_drop)

lemma same_result_range:
  assumes f: "\<And>x vs ws. same_vars d1 d2 vs ws \<Longrightarrow> same_result d1 d2 (f x vs) (g x ws)"
  shows "same_vars d1 d2 vs ws \<Longrightarrow> same_result d1 d2 (range_loop f p ies vs) (range_loop g p ies ws)"
proof (induction ies arbitrary: vs ws)
  case (Cons ie ies)
  have len: "length ws = length vs" using Cons.prems by (rule same_vars_length)
  have "same_result d1 d2 (pop_to (length vs) (f (snd ie) (iteration_vars p ie vs)))
      (pop_to (length vs) (g (snd ie) (iteration_vars p ie ws)))"
    by (intro same_result_pop f same_vars_iteration Cons.prems)
  then show ?case
    unfolding range_loop.simps len
  proof (rule same_result_bind)
    fix fl out us vs assume s: "same_vars d1 d2 us vs"
    show "same_result d1 d2 ((\<lambda>(fl, out, vars). if fl = Broke then Inr (GoOn, out, vars)
          else bind (range_loop f p ies vars) (\<lambda>(fl, out', vars). Inr (fl, out @ out', vars))) (fl, out, us))
        ((\<lambda>(fl, out, vars). if fl = Broke then Inr (GoOn, out, vars)
          else bind (range_loop g p ies vars) (\<lambda>(fl, out', vars). Inr (fl, out @ out', vars))) (fl, out, vs))"
      using s same_result_bind [OF Cons.IH [OF s]] by simp
  qed
qed simp

lemma pipeline_same:
  assumes "same_dot depth d1 d2 u v" "same_vars d1 d2 vs ws" "plainCommands depth (tp_cmds p)"
    "agree S d1 d2 (set (occCommands depth (tp_cmds p)))"
    "\<And>x us us'. same_vars d1 d2 us us' \<Longrightarrow> same_result d1 d2 (f (x, us)) (g (x, us'))"
  shows "same_result d1 d2 (bind (evalPipeline S u vs p) f) (bind (evalPipeline S v ws p) g)"
proof -
  have "evalCommands S u vs (tp_cmds p) [] = evalCommands S v ws (tp_cmds p) []" by (rule eval_same(4) [OF assms(1-4)])
  with assms(2,5) show ?thesis
    by (cases "evalCommands S v ws (tp_cmds p) []") (simp_all add: evalPipeline_def bind_def same_vars_declare)
qed

lemma walk_same:
  "same_dot depth d1 d2 u v \<Longrightarrow> same_vars d1 d2 vs ws \<Longrightarrow> plainNode depth n \<Longrightarrow> agree S d1 d2 (set (occNode depth n)) \<Longrightarrow>
     same_result d1 d2 (walk S call u vs n) (walk S call v ws n)"
  "same_dot depth d1 d2 u v \<Longrightarrow> same_vars d1 d2 vs ws \<Longrightarrow> plainNodes depth ns \<Longrightarrow> agree S d1 d2 (set (occNodes depth ns)) \<Longrightarrow>
     same_result d1 d2 (walk_list S call u vs ns) (walk_list S call v ws ns)"
proof (induction S call u vs n and S call u vs ns arbitrary: depth v ws and depth v ws rule: walk_walk_list.induct)
  case (2 S call dot vars p)
  then show ?case
    unfolding walk.simps by (intro pipeline_same [OF 2(1,2)]) (auto simp: bind_def split: sum.split)
next
  case (3 S call dot vars p b e)
  have "length ws = length vars" using 3(4) by (rule same_vars_length)
  then show ?case
    unfolding walk.simps using 3 by (auto intro!: same_result_pop pipeline_same [OF 3(3,4)])
next
  case (4 S call dot vars p b e)
  have len: "length ws = length vars" using 4(4) by (rule same_vars_length)
  have dot: "same_dot (depth + 1) d1 d2 x x" for x by (simp add: same_dot_def)
  have "same_result d1 d2 (walk_list S call x us b) (walk_list S call x us' b)"
    if "se_truth S x" "same_vars d1 d2 us us'" for x us us'
    using 4(1) [OF that(1) dot that(2)] 4(5,6) by simp
  then show ?case
    unfolding walk.simps len using 4 by (auto intro!: same_result_pop pipeline_same [OF 4(3,4)])
next
  case (5 S call dot vars p b e)
  have len: "length ws = length vars" using 5(4) by (rule same_vars_length)
  have dot: "same_dot (depth + 1) d1 d2 x x" for x by (simp add: same_dot_def)
  have body: "same_vars d1 d2 us us' \<Longrightarrow> same_result d1 d2 (walk_list S call x us b) (walk_list S call x us' b)" for x us us'
    using 5(2) [of "[undefined]", OF _ dot] 5(5,6) by simp
  show ?case
    unfolding walk.simps len
  proof (intro same_result_pop pipeline_same [OF 5(3,4)])
    fix x us us' assume s: "same_vars d1 d2 us us'"
    have "same_result d1 d2 (range_loop (\<lambda>dot vars. walk_list S call dot vars b) p ies us)
        (range_loop (\<lambda>dot vars. walk_list S call dot vars b) p ies us')" for ies
      by (rule same_result_range [OF body s])
    moreover have "same_result d1 d2 (walk_list S call dot us e) (walk_list S call v us' e)" using 5 s by simp
    ultimately show "same_result d1 d2
        ((\<lambda>(v, vars). bind (se_elems S v) (\<lambda>ies. if ies = [] then walk_list S call dot vars e
            else range_loop (\<lambda>dot vars. walk_list S call dot vars b) p ies vars)) (x, us))
        ((\<lambda>(va, vars). bind (se_elems S va) (\<lambda>ies. if ies = [] then walk_list S call v vars e
            else range_loop (\<lambda>dot vars. walk_list S call dot vars b) p ies vars)) (x, us'))"
      by (cases "se_elems S x") (auto simp: bind_def)
  qed (use 5 in simp_all)
next
  case (6 S call dot vars n)
  then show ?case by (auto simp: bind_def split: sum.split)
next
  case (7 S call dot vars n p)
  then show ?case
    unfolding walk.simps by (intro pipeline_same [OF 7(1,2)]) (auto simp: bind_def split: sum.split)
next
  case (11 S call dot vars n ns)
  have "same_result d1 d2 (walk S call dot vars n) (walk S call v ws n)" using 11 by simp
  then show ?case
    unfolding walk_list.simps
  proof (rule same_result_bind)
    fix fl out us us' assume s: "same_vars d1 d2 us us'"
    have "same_result d1 d2 (walk_list S call dot us ns) (walk_list S call v us' ns)" using 11 s by simp
    from same_result_bind [OF this] s
    show "same_result d1 d2
        ((\<lambda>(fl, out, vars). if fl = GoOn then bind (walk_list S call dot vars ns) (\<lambda>(fl, out', vars). Inr (fl, out @ out', vars))
            else Inr (fl, out, vars)) (fl, out, us))
        ((\<lambda>(fl, out, vars). if fl = GoOn then bind (walk_list S call v vars ns) (\<lambda>(fl, out', vars). Inr (fl, out @ out', vars))
            else Inr (fl, out, vars)) (fl, out, us'))"
      by simp
  qed
qed simp_all


text \<open>Data that agree on the unscoped references of a plain template render to the same text.\<close>

lemma exec_same:
  assumes "map_of trees n = Some ns" "plainNodes 0 ns" "agree S d1 d2 (set (occNodes 0 ns))"
  shows "exec_template S trees k n d1 = exec_template S trees k n d2"
proof (cases k)
  case (Suc k)
  have "same_result d1 d2 (walk_list S (exec_template S trees k) d1 [(''$'', d1)] ns)
      (walk_list S (exec_template S trees k) d2 [(''$'', d2)] ns)"
    by (rule walk_same(2) [OF _ _ assms(2,3)]) (simp_all add: same_dot_def same_vars_Cons)
  then show ?thesis using assms(1)
    by (cases "walk_list S (exec_template S trees k) d1 [(''$'', d1)] ns") (auto simp: Suc bind_def)
qed simp

lemma reference_of_occurrence:
  assumes "merged refs os" "(p, False) \<in> set os"
  shows "\<lparr>tr_path = p, tr_scoped = False\<rparr> \<in> set refs"
proof -
  have "p \<in> tr_path ` set refs" using assms by (force simp: merged_def)
  then obtain r where "r \<in> set refs" "tr_path r = p" by auto
  with assms have "r = \<lparr>tr_path = p, tr_scoped = False\<rparr>" by (auto simp: merged_def)
  with \<open>r \<in> set refs\<close> show ?thesis by simp
qed

section \<open>The resolvers a template depends on\<close>

lemma firstSegment_name: "proper_name f \<Longrightarrow> firstSegment (f @ join_dots fs) = f"
proof -
  assume f: "proper_name f"
  have "CHR ''.'' \<notin> set f \<Longrightarrow> takeWhile (\<lambda>c. c \<noteq> CHR ''.'') (f @ xs) = f @ takeWhile (\<lambda>c. c \<noteq> CHR ''.'') xs" for xs
    by (induction f) auto
  with f have "takeWhile (\<lambda>c. c \<noteq> CHR ''.'') (f @ xs) = f @ takeWhile (\<lambda>c. c \<noteq> CHR ''.'') xs" for xs
    by (simp add: proper_name_def)
  moreover have "takeWhile (\<lambda>c. c \<noteq> CHR ''.'') (join_dots fs) = []" by (cases fs) (simp_all add: join_dots_def)
  ultimately show ?thesis by (simp add: firstSegment_def)
qed

lemma dot_join_Cons: "dot_join (f # fs) = CHR ''.'' # f @ join_dots fs"
  by (simp add: dot_join_def join_dots_def)

lemma classify_field:
  assumes "proper_name f" "hd f \<noteq> CHR ''_''"
  shows "classifyTemplatePath (dot_join (f # fs)) = (f, PathField)"
proof -
  obtain c f' where f: "f = c # f'" "c \<noteq> CHR ''_''" using assms by (cases f) (auto simp: proper_name_def)
  then show ?thesis
    using firstSegment_name [OF assms(1)]
    by (simp add: classifyTemplatePath_def dot_join_Cons strings_HasPrefix_def strings_TrimPrefix_def)
qed

lemma classify_alias:
  assumes "proper_name x"
  shows "classifyTemplatePath (dot_join (''_'' # x # fs)) = (x, PathExplicitResolver)"
  using firstSegment_name [OF assms]
  by (simp add: classifyTemplatePath_def dot_join_Cons join_dots_def strings_HasPrefix_def strings_TrimPrefix_def)


lemma field_dependency:
  assumes "prs t l r = Some refs" "\<lparr>tr_path = p, tr_scoped = False\<rparr> \<in> set refs"
    "classifyTemplatePath p = (x, k)" "k \<noteq> PathSpecial" "x \<noteq> []" "di_hasData inp = False" "di_aliases inp = []"
    "di_template inp = t" "di_left inp = l" "di_right inp = r"
  shows "x \<in> set (ExtractResolverDeps prs inp)"
proof -
  have "x \<in> resolver_names inp \<lparr>tr_path = p, tr_scoped = False\<rparr>"
    using assms(3-7) by (cases k) (simp_all add: resolver_names_def resolver_dep_step_def add_name_def)
  with assms show ?thesis unfolding ExtractResolverDeps_set by auto
qed

lemma get_fields_append: "get_fields S (fs @ gs) v = bind (get_fields S fs v) (get_fields S gs)"
  by (induction fs arbitrary: v) (auto simp: bind_def split: sum.split)

definition template_input :: "string \<Rightarrow> deps_input" where
  "template_input t = \<lparr>di_template = t, di_left = [], di_right = [], di_hasData = False, di_dataKeys = [],
     di_complete = False, di_aliases = []\<rparr>"

lemma deps_agree:
  assumes refs: "GetReferences prs t [] [] = Some refs" and os: "merged refs os"
    and whole: "(''._'', False) \<notin> set os"
    and deps: "list_all (\<lambda>x. se_field S d1 x = se_field S d2 x \<and> get_fields S [''_'', x] d1 = get_fields S [''_'', x] d2)
      (ExtractResolverDeps (GetReferences prs) (template_input t))"
    and special: "\<And>x. hd x = CHR ''_'' \<Longrightarrow> x \<noteq> ''_'' \<Longrightarrow> se_field S d1 x = se_field S d2 x"
  shows "agree S d1 d2 (set os)"
  unfolding agree_def
proof (intro allI impI, elim conjE)
  fix fs assume p: "proper_path fs" and o1: "(dot_join fs, False) \<in> set os"
  then obtain f gs where fs: "fs = f # gs" and f: "proper_name f" by (cases fs) (auto simp: proper_path_def)
  have ref: "\<lparr>tr_path = dot_join fs, tr_scoped = False\<rparr> \<in> set refs" by (rule reference_of_occurrence [OF os o1])
  have dep: "x \<in> set (ExtractResolverDeps (GetReferences prs) (template_input t))"
    if "classifyTemplatePath (dot_join fs) = (x, k)" "k \<noteq> PathSpecial" "x \<noteq> []" for x k
    by (rule field_dependency [where prs = "GetReferences prs" and t = t and l = "[]" and r = "[]", OF refs ref that]) (simp_all add: template_input_def)
  consider (plain) "hd f \<noteq> CHR ''_''" | (whole_map) "f = ''_''" | (special) "hd f = CHR ''_''" "f \<noteq> ''_''" by blast
  then show "get_fields S fs d1 = get_fields S fs d2"
  proof cases
    case plain
    from classify_field [OF f plain, of gs] dep [of f PathField] f
    have "f \<in> set (ExtractResolverDeps (GetReferences prs) (template_input t))" by (simp add: fs proper_name_def)
    with deps show ?thesis by (simp add: fs list_all_iff)
  next
    case whole_map
    with o1 whole fs obtain x hs where gs: "gs = x # hs" by (cases gs) (auto simp: dot_join_def join_dots_def)
    with p fs have x: "proper_name x" by (simp add: proper_path_def)
    from classify_alias [OF x, of hs] dep [of x PathExplicitResolver] x
    have "x \<in> set (ExtractResolverDeps (GetReferences prs) (template_input t))" by (simp add: fs gs whole_map proper_name_def)
    with deps have "get_fields S [''_'', x] d1 = get_fields S [''_'', x] d2" by (simp add: list_all_iff del: get_fields.simps)
    then have "get_fields S ([''_'', x] @ hs) d1 = get_fields S ([''_'', x] @ hs) d2" by (simp only: get_fields_append)
    then show ?thesis by (simp add: fs gs whole_map)
  next
    case special
    with assms(5) show ?thesis by (simp add: fs)
  qed
qed


section \<open>Properties\<close>


definition sample_field :: "gval \<Rightarrow> string \<Rightarrow> string + gval" where
  "sample_field v f =
     (case v of VMap m \<Rightarrow> (case map_of m f of None \<Rightarrow> Inr VNil | Some x \<Rightarrow> Inr x) | _ \<Rightarrow> Inl ''no field'')"

definition sample_sem :: "gval t_sem" where
  "sample_sem = \<lparr>se_field = sample_field,
     se_apply = (\<lambda>f args. case args of Inr (VList xs) # _ \<Rightarrow> (case xs of [] \<Rightarrow> Inl ''index out of range'' | x # _ \<Rightarrow> Inr x)
       | _ \<Rightarrow> Inl ''arguments''),
     se_invoke = (\<lambda>_ _. Inl ''not a function''), se_truth = (\<lambda>v. v \<noteq> VNil),
     se_elems = (\<lambda>v. case v of VList xs \<Rightarrow> Inr (map (\<lambda>x. (VNil, x)) xs) | _ \<Rightarrow> Inl ''range''),
     se_print = (\<lambda>v. case v of VStr s \<Rightarrow> Inr s | _ \<Rightarrow> Inr ''?''), se_lit = (\<lambda>n. VInt (int n)), se_none = VNil\<rparr>"

definition print_pipe :: "t_arg \<Rightarrow> t_node" where
  "print_pipe a = NAction \<lparr>tp_decl = [], tp_assign = False, tp_cmds = [[a]]\<rparr>"

definition plain_pipe :: "t_arg list \<Rightarrow> t_pipe" where
  "plain_pipe as = \<lparr>tp_decl = [], tp_assign = False, tp_cmds = [as]\<rparr>"

definition loop_tree :: "t_node list" where
  "loop_tree = [NRange (plain_pipe [AField [''hosts'']]) [print_pipe (AField [''name'']), print_pipe (AVar [''$'', ''env''])] [],
     NText ''!'']"

definition host :: "string \<Rightarrow> gval" where
  "host s = VMap [(''name'', VStr s)]"

definition loop_data :: "gval \<Rightarrow> gval" where
  "loop_data other = VMap [(''hosts'', VList [host ''a'', host ''b'']), (''env'', VStr ''1''), (''name'', other), (''region'', other)]"


definition with_tree :: "t_node list" where
  "with_tree = [NWith (plain_pipe [ADot]) [print_pipe (AField [''region''])] []]"

definition chain_tree :: "t_node list" where
  "chain_tree = [print_pipe (AChain (APipe [[AIdent ''index'', AField [''hosts''], ALit 0]]) [''name''])]"

definition underscore_tree :: "t_node list" where
  "underscore_tree = [print_pipe (AField [''_region''])]"

text \<open>Where the extraction goes wrong: with . hides a reference to a resolver, since the dot is not rebound to
  anything else; the field of a call's result is taken for a resolver, here the resolver that a template of the same
  name would define; and a field that begins with an underscore is taken for the name after the underscore, so that the
  text depends on a resolver that is not reported.\<close>

theorem dependencies_misread:
  "ExtractResolverDeps (GetReferences (\<lambda>_ _ _. Some [(''t'', with_tree)])) (template_input ''x'') = [] \<and>
   exec_template sample_sem [(''t'', with_tree)] 1 ''t'' (VMap [(''region'', VStr ''eu'')]) = Inr ''eu'' \<and>
   ExtractResolverDeps (GetReferences (\<lambda>_ _ _. Some [(''t'', chain_tree)])) (template_input ''x'') = [''hosts'', ''name''] \<and>
   exec_template sample_sem [(''t'', chain_tree)] 1 ''t'' (loop_data VNil) = Inr ''a'' \<and>
   ExtractResolverDeps (GetReferences (\<lambda>_ _ _. Some [(''t'', underscore_tree)])) (template_input ''x'') = [''region''] \<and>
   exec_template sample_sem [(''t'', underscore_tree)] 1 ''t'' (VMap [(''_region'', VStr ''eu'')]) = Inr ''eu''"
  by (intro conjI; code_simp)

end
