(* ===== verification/Author_Funcs.thy ===== *)
theory Author_Funcs
  imports Template_Refs Cycle_Search Call Coerce
begin

text \<open>
  \<open>pkg/authorfuncs\<close> and \<open>pkg/gotmpl/funcnames.go\<close>: the functions a solution defines for its templates, their
  validation, the search for cycles among them and their invocation.

  Parameters (\<open>fn_env\<close>): the names of the extension functions, the template parser (content and known names;
  the main tree is named by the empty string), CEL, the coercion of arguments, JSON, the hash, and the
  execution of templates without the functions of the solution.
\<close>

section \<open>Definitions\<close>

record param_def =
  pa_name :: string
  pa_type :: string
  pa_required :: bool
  pa_default :: gval

record function_def =
  fu_params :: "param_def option list"
  fu_cel :: string
  fu_template :: string

definition HasCel :: "function_def option \<Rightarrow> bool" where
  "HasCel f = (case f of None \<Rightarrow> False | Some x \<Rightarrow> fu_cel x \<noteq> [])"

definition HasTemplate :: "function_def option \<Rightarrow> bool" where
  "HasTemplate f = (case f of None \<Rightarrow> False | Some x \<Rightarrow> fu_template x \<noteq> [])"

record fn_env =
  fe_ext :: "string list"
  fe_parse :: "string \<Rightarrow> string list \<Rightarrow> string + t_trees"
  fe_celSyntax :: "string \<Rightarrow> string option"
  fe_cel :: "string \<Rightarrow> gval \<Rightarrow> string + gval"
  fe_coerce :: "string \<Rightarrow> gval \<Rightarrow> string + gval"
  fe_json :: "gval \<Rightarrow> string"
  fe_sha :: "string \<Rightarrow> string"
  fe_sem :: "gval t_sem"

record compiled_fn =
  cf_name :: string
  cf_params :: "param_def option list"
  cf_isCel :: bool
  cf_body :: string
  cf_refs :: "string list"

record fn_library =
  lb_order :: "string list"
  lb_fns :: "compiled_fn gomap"
  lb_fingerprint :: string

section \<open>Calls in a template\<close>

definition goTemplateBuiltins :: "string list" where
  "goTemplateBuiltins =
     [''and'', ''call'', ''html'', ''index'', ''slice'', ''js'', ''len'', ''not'', ''or'', ''print'', ''printf'', ''println'',
      ''urlquery'', ''eq'', ''ne'', ''lt'', ''le'', ''gt'', ''ge'']"

definition BuiltinFuncNames :: "fn_env \<Rightarrow> string list" where
  "BuiltinFuncNames env = sort (fold set_insert (fe_ext env @ goTemplateBuiltins) [])"

definition IsBuiltinFunc :: "fn_env \<Rightarrow> string \<Rightarrow> bool" where
  "IsBuiltinFunc env n = (n \<noteq> [] \<and> (n \<in> set goTemplateBuiltins \<or> n \<in> set (fe_ext env)))"

text \<open>The loop over the arguments of a command; \<open>h\<close> holds for the first of them.\<close>

fun collectArgs :: "bool \<Rightarrow> t_arg list \<Rightarrow> string list \<Rightarrow> string list"
and collectPipeFunctionCalls :: "t_arg list list \<Rightarrow> string list \<Rightarrow> string list" where
  "collectArgs h [] calls = calls"
| "collectArgs h (AIdent f # as) calls = collectArgs False as (if h then set_insert f calls else calls)"
| "collectArgs h (APipe cmds # as) calls = collectArgs False as (collectPipeFunctionCalls cmds calls)"
| "collectArgs h (a # as) calls = collectArgs False as calls"
| "collectPipeFunctionCalls [] calls = calls"
| "collectPipeFunctionCalls (c # cs) calls = collectPipeFunctionCalls cs (collectArgs True c calls)"

fun collectFunctionCalls :: "t_node \<Rightarrow> string list \<Rightarrow> string list"
and collectList :: "t_node list \<Rightarrow> string list \<Rightarrow> string list" where
  "collectFunctionCalls (NAction p) calls = collectPipeFunctionCalls (tp_cmds p) calls"
| "collectFunctionCalls (NIf p b e) calls = collectList e (collectList b (collectPipeFunctionCalls (tp_cmds p) calls))"
| "collectFunctionCalls (NRange p b e) calls = collectList e (collectList b (collectPipeFunctionCalls (tp_cmds p) calls))"
| "collectFunctionCalls (NWith p b e) calls = collectList e (collectList b (collectPipeFunctionCalls (tp_cmds p) calls))"
| "collectFunctionCalls (NTemplate n (Some p)) calls = collectPipeFunctionCalls (tp_cmds p) calls"
| "collectFunctionCalls (NTemplate n None) calls = calls"
| "collectFunctionCalls (NText s) calls = calls"
| "collectFunctionCalls NBreak calls = calls"
| "collectFunctionCalls NContinue calls = calls"
| "collectList [] calls = calls"
| "collectList (n # ns) calls = collectList ns (collectFunctionCalls n calls)"

definition known_functions :: "fn_env \<Rightarrow> string list \<Rightarrow> string list" where
  "known_functions env declared = goTemplateBuiltins @ fe_ext env @ declared"

definition ExtractFunctionCalls :: "fn_env \<Rightarrow> string \<Rightarrow> string list \<Rightarrow> string + string list" where
  "ExtractFunctionCalls env content declared =
     (case fe_parse env content (known_functions env declared) of
        Inl e \<Rightarrow> Inl (''parsing template body: '' @ e)
      | Inr trees \<Rightarrow> Inr (sort (fold (\<lambda>(_, ns). collectList ns) trees [])))"

section \<open>Validation\<close>

definition identifierPattern :: "string \<Rightarrow> bool" where
  "identifierPattern s =
     (case s of [] \<Rightarrow> False
      | c # cs \<Rightarrow> (is_letter c \<or> c = CHR ''_'') \<and> list_all (\<lambda>c. is_alnum c \<or> c = CHR ''_'') cs)"

definition FunctionNamePattern :: string where
  "FunctionNamePattern = ''^[a-zA-Z_][a-zA-Z0-9_]*$''"

definition ValidateFunctionName :: "fn_env \<Rightarrow> string \<Rightarrow> string option" where
  "ValidateFunctionName env n =
     (if \<not> identifierPattern n then Some (quoted n @ '' is not a valid function name (must match '' @ FunctionNamePattern @ '')'')
      else if strings_HasPrefix n ''__'' then Some (quoted n @ '' is not a valid function name (may not start with '' @ quoted ''__'' @ '', a reserved prefix)'')
      else if IsBuiltinFunc env n then Some (quoted n @ '' is not a valid function name (collides with a built-in template function)'')
      else None)"

definition knownParamTypes :: "string list" where
  "knownParamTypes =
     [''string'', ''int'', ''integer'', ''float'', ''number'', ''bool'', ''boolean'', ''array'', ''object'', ''map'', ''time'',
      ''timestamp'', ''datetime'', ''duration'', ''any'']"

definition fn_problem :: "string \<Rightarrow> bool \<Rightarrow> string \<Rightarrow> string list" where
  "fn_problem n b msg = (if b then [''function '' @ quoted n @ '': '' @ msg] else [])"

text \<open>One parameter: \<open>i\<close> counts from 0, \<open>earlier\<close> are the names before it, \<open>opt\<close> tells of an optional one.\<close>

definition param_problems :: "string \<Rightarrow> nat \<Rightarrow> string list \<Rightarrow> bool \<Rightarrow> param_def \<Rightarrow> string list" where
  "param_problems fn i earlier opt p =
     fn_problem fn (\<not> identifierPattern (pa_name p))
       (''parameter '' @ quoted (pa_name p) @ '' (position '' @ decimal (i + 1) @ '') is not a valid identifier'') @
     fn_problem fn (pa_name p \<in> set earlier) (''parameter name '' @ quoted (pa_name p) @ '' is declared more than once'') @
     fn_problem fn (pa_required p \<and> pa_default p \<noteq> VNil)
       (''parameter '' @ quoted (pa_name p) @ '' is required and may not declare a default'') @
     fn_problem fn (pa_required p \<and> opt)
       (''required parameter '' @ quoted (pa_name p) @ '' must not follow an optional parameter (positional binding)'') @
     fn_problem fn (pa_type p \<noteq> [] \<and> map ascii_lower (pa_type p) \<notin> set knownParamTypes)
       (''parameter '' @ quoted (pa_name p) @ '' has unknown type '' @ quoted (pa_type p))"

fun validate_params :: "string \<Rightarrow> nat \<Rightarrow> string list \<Rightarrow> bool \<Rightarrow> param_def option list \<Rightarrow> string list" where
  "validate_params fn i earlier opt [] = []"
| "validate_params fn i earlier opt (None # ps) =
     fn_problem fn True (''parameter at position '' @ decimal (i + 1) @ '' is empty'') @ validate_params fn (i + 1) earlier opt ps"
| "validate_params fn i earlier opt (Some p # ps) =
     param_problems fn i earlier opt p @
     validate_params fn (i + 1) (set_insert (pa_name p) earlier) (opt \<or> \<not> pa_required p) ps"

definition validateParams :: "string \<Rightarrow> param_def option list \<Rightarrow> string list" where
  "validateParams fn ps = validate_params fn 0 [] False ps"

definition bodyOf :: "function_def \<Rightarrow> string" where
  "bodyOf f = (if HasCel (Some f) then fu_cel f else fu_template f)"

definition filterAuthorRefs :: "string list \<Rightarrow> string list \<Rightarrow> string list" where
  "filterAuthorRefs calls allNames = sort (filter (\<lambda>c. c \<in> set allNames) calls)"

definition body_check :: "fn_env \<Rightarrow> string \<Rightarrow> function_def \<Rightarrow> string list \<Rightarrow> string list \<times> string list" where
  "body_check env n f allNames =
     (if HasCel (Some f) \<and> \<not> HasTemplate (Some f)
      then (case fe_celSyntax env (fu_cel f) of None \<Rightarrow> ([], []) | Some e \<Rightarrow> (fn_problem n True (''invalid cel body: '' @ e), []))
      else if HasTemplate (Some f) \<and> \<not> HasCel (Some f)
      then (case ExtractFunctionCalls env (fu_template f) allNames of
              Inl e \<Rightarrow> (fn_problem n True (''invalid template body: '' @ e), [])
            | Inr calls \<Rightarrow> ([], filterAuthorRefs calls allNames))
      else ([], []))"

definition name_problems :: "fn_env \<Rightarrow> string \<Rightarrow> string list" where
  "name_problems env n =
     fn_problem n (\<not> identifierPattern n) (''name is not a valid identifier (must match '' @ FunctionNamePattern @ '')'') @
     fn_problem n (strings_HasPrefix n ''__'') (''name may not start with '' @ quoted ''__'' @ '' (reserved prefix)'') @
     fn_problem n (IsBuiltinFunc env n) ''name collides with a built-in template function''"

definition compileOne ::
  "fn_env \<Rightarrow> string \<Rightarrow> function_def option \<Rightarrow> string list \<Rightarrow> compiled_fn option \<times> string list" where
  "compileOne env n fo allNames =
     (case fo of
        None \<Rightarrow> (None, name_problems env n @ fn_problem n True ''definition is empty'')
      | Some f \<Rightarrow>
          (let (body, refs) = body_check env n f allNames;
               problems = name_problems env n @ validateParams n (fu_params f) @
                 fn_problem n (HasCel fo \<and> HasTemplate fo) ''cel and template are mutually exclusive; set exactly one'' @
                 fn_problem n (\<not> HasCel fo \<and> \<not> HasTemplate fo) ''must set exactly one of cel or template'' @ body
           in if problems \<noteq> [] then (None, problems)
              else (Some \<lparr>cf_name = n, cf_params = fu_params f, cf_isCel = HasCel fo, cf_body = bodyOf f, cf_refs = refs\<rparr>, [])))"

section \<open>Cycles\<close>

text \<open>The colours are 0 unvisited, 1 on the stack, 2 explored.\<close>

definition cycle_on_stack :: "string list \<Rightarrow> string \<Rightarrow> string list" where
  "cycle_on_stack stack dep = (if dep \<in> set stack then dropWhile (\<lambda>n. n \<noteq> dep) stack else stack) @ [dep]"

fun strings_Join :: "string list \<Rightarrow> string \<Rightarrow> string" where
  "strings_Join [] sep = []"
| "strings_Join [s] sep = s"
| "strings_Join (s # ss) sep = s @ sep @ strings_Join ss sep"

definition formatCycle :: "string list \<Rightarrow> string \<Rightarrow> string" where
  "formatCycle stack dep =
     ''functions form a cycle: '' @ strings_Join (cycle_on_stack stack dep) '' -> '' @
     '' (template bodies may not call each other cyclically)''"

text \<open>\<open>visit\<close> recurses once per unvisited name; \<open>d\<close> is the depth still allowed.\<close>

fun visit :: "string list gomap \<Rightarrow> nat \<Rightarrow> string \<Rightarrow> string list \<Rightarrow> nat gomap \<Rightarrow> (string list \<times> string) option \<times> nat gomap"
and visit_refs ::
  "string list gomap \<Rightarrow> nat \<Rightarrow> string list \<Rightarrow> string list \<Rightarrow> nat gomap \<Rightarrow> (string list \<times> string) option \<times> nat gomap" where
  "visit refs 0 n stack color = (None, color)"
| "visit refs (Suc d) n stack color =
     (case visit_refs refs d (map_get [] refs n) (stack @ [n]) (map_put n 1 color) of
        (Some c, color) \<Rightarrow> (Some c, color)
      | (None, color) \<Rightarrow> (None, map_put n 2 color))"
| "visit_refs refs d [] stack color = (None, color)"
| "visit_refs refs d (dep # deps) stack color =
     (if map_get 0 color dep = 1 then (Some (stack, dep), color)
      else if map_get 0 color dep = 0
      then (case visit refs d dep stack color of
              (Some c, color) \<Rightarrow> (Some c, color)
            | (None, color) \<Rightarrow> visit_refs refs d deps stack color)
      else visit_refs refs d deps stack color)"

fun visit_all :: "string list gomap \<Rightarrow> nat \<Rightarrow> string list \<Rightarrow> nat gomap \<Rightarrow> (string list \<times> string) option" where
  "visit_all refs d [] color = None"
| "visit_all refs d (n # ns) color =
     (if map_get 0 color n = 0
      then (case visit refs d n [] color of (Some c, color) \<Rightarrow> Some c | (None, color) \<Rightarrow> visit_all refs d ns color)
      else visit_all refs d ns color)"

definition fn_refs :: "compiled_fn gomap \<Rightarrow> string list gomap" where
  "fn_refs fns = map (\<lambda>(n, cf). (n, cf_refs cf)) fns"

definition detectCycle :: "compiled_fn gomap \<Rightarrow> string list \<Rightarrow> (string list \<times> string) option" where
  "detectCycle fns order = visit_all (fn_refs fns) (length (graph_names (fn_refs fns))) order []"

section \<open>Compilation\<close>

definition fingerprintDefault :: "fn_env \<Rightarrow> gval \<Rightarrow> string" where
  "fingerprintDefault env v = (if v = VNil then ''null'' else fe_json env v)"

definition param_fingerprint :: "fn_env \<Rightarrow> param_def \<Rightarrow> string" where
  "param_fingerprint env p =
     ''param:'' @ pa_name p @ '':'' @ pa_type p @ '':'' @ FormatBool (pa_required p) @ '':'' @ fingerprintDefault env (pa_default p) @ [CHR 0x00]"

definition function_fingerprint :: "fn_env \<Rightarrow> string \<Rightarrow> function_def \<Rightarrow> string" where
  "function_fingerprint env n f =
     ''fn:'' @ n @ [CHR 0x00] @ concat (map (param_fingerprint env) (List.map_filter id (fu_params f))) @
     ''cel:'' @ fu_cel f @ [CHR 0x00] @ ''template:'' @ fu_template f @ [CHR 0x00]"

definition computeFingerprint :: "fn_env \<Rightarrow> function_def option gomap \<Rightarrow> string list \<Rightarrow> string" where
  "computeFingerprint env fns names =
     fe_sha env (concat (map (\<lambda>n. case map_get None fns n of None \<Rightarrow> [] | Some f \<Rightarrow> function_fingerprint env n f) names))"

definition compile_all :: "fn_env \<Rightarrow> function_def option gomap \<Rightarrow> (string \<times> compiled_fn option \<times> string list) list" where
  "compile_all env fns =
     (let names = sort (map_keys fns) in map (\<lambda>n. (n, compileOne env n (map_get None fns n) names)) names)"

definition Compile :: "fn_env \<Rightarrow> function_def option gomap \<Rightarrow> string + fn_library option" where
  "Compile env fns =
     (if fns = [] then Inr None
      else
        (let names = sort (map_keys fns);
             res = compile_all env fns;
             lib = List.map_filter (\<lambda>(n, cf, _). map_option (Pair n) cf) res;
             problems = concat (map (\<lambda>(_, _, ps). ps) res);
             problems = (if problems = []
                         then (case detectCycle lib names of None \<Rightarrow> [] | Some (stack, dep) \<Rightarrow> [formatCycle stack dep])
                         else problems)
         in if problems \<noteq> [] then Inl (''invalid spec.functions: '' @ strings_Join (sort problems) ''; '')
            else Inr (Some \<lparr>lb_order = names, lb_fns = lib, lb_fingerprint = computeFingerprint env fns names\<rparr>)))"

section \<open>Invocation\<close>

datatype bind_error =
    TooManyArguments nat nat
  | MissingParameter string nat
  | BadParameter string nat string
  | NilParameter

fun bind_params ::
  "fn_env \<Rightarrow> nat \<Rightarrow> param_def option list \<Rightarrow> gval list \<Rightarrow> gval gomap \<Rightarrow> bind_error + gval gomap" where
  "bind_params env i [] args bound = Inr bound"
| "bind_params env i (None # ps) args bound = Inl NilParameter"
| "bind_params env i (Some p # ps) args bound =
     (if args = [] \<and> pa_required p then Inl (MissingParameter (pa_name p) (i + 1))
      else
        (let raw = (case args of a # _ \<Rightarrow> a | [] \<Rightarrow> pa_default p) in
         case fe_coerce env (pa_type p) raw of
           Inl e \<Rightarrow> Inl (BadParameter (pa_name p) (i + 1) e)
         | Inr c \<Rightarrow> bind_params env (i + 1) ps (tl args) (map_put (pa_name p) c bound)))"

definition fn_bindArgs :: "fn_env \<Rightarrow> compiled_fn \<Rightarrow> gval list \<Rightarrow> bind_error + gval gomap" where
  "fn_bindArgs env cf args =
     (if length args > length (cf_params cf) then Inl (TooManyArguments (length (cf_params cf)) (length args))
      else bind_params env 0 (cf_params cf) args [])"

definition bind_text :: "bind_error \<Rightarrow> string" where
  "bind_text e =
     (case e of
        TooManyArguments n k \<Rightarrow> ''expected at most '' @ decimal n @ '' argument(s), got '' @ decimal k
      | MissingParameter n i \<Rightarrow> ''missing required argument '' @ quoted n @ '' (position '' @ decimal i @ '')''
      | BadParameter n i m \<Rightarrow> ''argument '' @ quoted n @ '' (position '' @ decimal i @ ''): '' @ m
      | NilParameter \<Rightarrow> ''nil pointer dereference'')"

text \<open>The arguments of a function of the solution are evaluated before the call.\<close>

fun all_values :: "('e + 'v) list \<Rightarrow> 'e + 'v list" where
  "all_values [] = Inr []"
| "all_values (Inl e # rs) = Inl e"
| "all_values (Inr v # rs) = map_sum id (Cons v) (all_values rs)"

definition author_sem :: "fn_env \<Rightarrow> fn_library \<Rightarrow> (string \<Rightarrow> gval list \<Rightarrow> string + gval) \<Rightarrow> gval t_sem" where
  "author_sem env lib call =
     (fe_sem env)\<lparr>se_apply := (\<lambda>f args.
        if f \<in> set (lb_order lib) then bind (all_values args) (call f) else se_apply (fe_sem env) f args)\<rparr>"

definition maxExecDepth :: nat where "maxExecDepth = 100000"

definition render_body ::
  "fn_env \<Rightarrow> fn_library \<Rightarrow> (string \<Rightarrow> gval list \<Rightarrow> string + gval) \<Rightarrow> string \<Rightarrow> gval \<Rightarrow> string + string" where
  "render_body env lib call body data =
     bind (fe_parse env body (known_functions env (lb_order lib)))
       (\<lambda>trees. exec_template (author_sem env lib call) trees maxExecDepth [] data)"

definition fn_error :: "string \<Rightarrow> string \<Rightarrow> string" where
  "fn_error n m = ''function '' @ quoted n @ '': '' @ m"

text \<open>The closure \<open>makeInvoker\<close> returns; \<open>call\<close> stands for the functions of the library.\<close>

definition makeInvoker ::
  "fn_env \<Rightarrow> fn_library \<Rightarrow> (string \<Rightarrow> gval list \<Rightarrow> string + gval) \<Rightarrow> compiled_fn \<Rightarrow> gval list \<Rightarrow> string + gval" where
  "makeInvoker env lib call cf args =
     (case fn_bindArgs env cf args of
        Inl e \<Rightarrow> Inl (fn_error (cf_name cf) (bind_text e))
      | Inr bound \<Rightarrow>
          (let data = VMap [(ArgsNamespace, VMap bound)] in
           if cf_isCel cf
           then map_sum (\<lambda>e. fn_error (cf_name cf) (''evaluating cel body: '' @ e)) id (fe_cel env (cf_body cf) data)
           else map_sum (\<lambda>e. fn_error (cf_name cf) (''rendering template body: '' @ e)) VStr
                  (render_body env lib call (cf_body cf) data)))"

text \<open>\<open>Bind\<close>: the functions call each other; \<open>d\<close> bounds the nesting and \<open>z\<close> is what lies beyond the bound.\<close>

fun invoke :: "fn_env \<Rightarrow> fn_library \<Rightarrow> (string + gval) \<Rightarrow> nat \<Rightarrow> string \<Rightarrow> gval list \<Rightarrow> string + gval" where
  "invoke env lib z 0 n args = z"
| "invoke env lib z (Suc d) n args =
     (case map_of (lb_fns lib) n of
        None \<Rightarrow> Inl (''function '' @ quoted n @ '' not defined'')
      | Some cf \<Rightarrow> makeInvoker env lib (invoke env lib z d) cf args)"

end
