(* ===== verification/Author_Sound.thy ===== *)
theory Author_Sound
  imports Author_Funcs
begin

text \<open>
  What \<open>Author_Funcs\<close> guarantees: the compiler accepts the valid definitions without a cycle, what it reports
  is a cycle, arguments are bound by position, and the invocations of a compiled library end.
\<close>

section \<open>The search for cycles\<close>

text \<open>It colours the names as the search of \<open>pkg/action\<close> does.\<close>

lemma visit_search:
  "\<And>st. cy_state st = color \<Longrightarrow>
     (fst (visit refs d n stack color) = None \<longleftrightarrow> fst (search_node N refs d n st) = None) \<and>
     cy_state (snd (search_node N refs d n st)) = snd (visit refs d n stack color)"
  "\<And>st m. cy_state st = color \<Longrightarrow>
     (fst (visit_refs refs d deps stack color) = None \<longleftrightarrow> fst (search_deps N refs d m deps st) = None) \<and>
     cy_state (snd (search_deps N refs d m deps st)) = snd (visit_refs refs d deps stack color)"
proof (induction refs d n stack color and refs d deps stack color rule: visit_visit_refs.induct)
  case (2 refs d n stack color)
  let ?st = "st\<lparr>cy_state := map_put n 1 (cy_state st)\<rparr>"
  have "cy_state ?st = map_put n 1 color" using 2(2) by simp
  from 2(1) [OF this, of n] show ?case
    by (auto simp: Let_def split: prod.splits option.splits)
next
  case (4 refs d dep deps stack color)
  let ?st = "st\<lparr>cy_parent := map_put dep m (cy_parent st)\<rparr>"
  consider "map_get 0 color dep = 1" | "map_get 0 color dep \<noteq> 1" "map_get 0 color dep \<noteq> 0"
    | (white) "map_get 0 color dep = 0" by blast
  then show ?case
  proof cases
    case white
    have st: "cy_state ?st = color" using 4(4) by simp
    have w: "map_get 0 color dep \<noteq> 1" using white by simp
    obtain q color1 where v: "visit refs d dep stack color = (q, color1)" by fastforce
    obtain r st1 where c: "search_node N refs d dep ?st = (r, st1)" by fastforce
    have eq: "(q = None) = (r = None)" "cy_state st1 = color1" using 4(1) [OF w white st] by (simp_all add: v c)
    show ?thesis
    proof (cases q)
      case None
      with eq have "r = None" by simp
      with 4(2) [OF w white v [symmetric] None eq(2), of m] white 4(4) v c None show ?thesis by simp
    next
      case (Some a)
      with eq white 4(4) v c show ?thesis by auto
    qed
  qed (use 4 in auto)
qed auto

lemma visit_all_search:
  "cy_state st = color \<Longrightarrow> visit_all refs d ns color = None \<longleftrightarrow> search_all d refs ns st = None" for d
proof (induction ns arbitrary: st color)
  case (Cons n ns)
  obtain q color1 where v: "visit refs d n [] color = (q, color1)" by fastforce
  obtain r st1 where c: "search_node d refs d n st = (r, st1)" by fastforce
  from visit_search(1) [OF Cons.prems, of refs d n "[]" d]
  have "(q = None) = (r = None)" "cy_state st1 = color1" by (simp_all add: v c)
  with Cons v c show ?case by (cases q) (auto split: option.splits)
qed simp

lemma detectCycle_None:
  assumes "set order = set (map_keys fns)"
  shows "detectCycle fns order = None \<longleftrightarrow> acyclic (dep_relation (fn_refs fns))"
proof -
  let ?st = "\<lparr>cy_state = [], cy_parent = []\<rparr>"
  have keys: "map_keys (fn_refs fns) = map_keys fns" by (simp add: fn_refs_def map_keys_def case_prod_beta)
  have "detectCycle fns order = None \<longleftrightarrow>
      search_all (length (graph_names (fn_refs fns))) (fn_refs fns) order ?st = None"
    unfolding detectCycle_def by (rule visit_all_search) simp
  with search_order_spec [of order "fn_refs fns"] reported_not_acyclic [of "fn_refs fns"] assms keys show ?thesis
    by (auto split: option.splits)
qed

text \<open>What is reported is a cycle: the stack is a path of references.\<close>

definition stack_ok :: "string list gomap \<Rightarrow> string list \<Rightarrow> nat gomap \<Rightarrow> bool" where
  "stack_ok refs stack color =
     ((\<forall>x. map_get 0 color x = 1 \<longleftrightarrow> x \<in> set stack) \<and> successively (\<lambda>x y. (x, y) \<in> dep_relation refs) stack)"

definition found_cycle :: "string list gomap \<Rightarrow> string list \<Rightarrow> string \<Rightarrow> bool" where
  "found_cycle refs stack dep =
     (\<exists>xs. cycle_on_stack stack dep = dep # xs @ [dep] \<and> successively (\<lambda>x y. (x, y) \<in> dep_relation refs) (dep # xs @ [dep]))"

lemma found_cycleI:
  assumes "successively (\<lambda>x y. (x, y) \<in> dep_relation refs) stack" "dep \<in> set stack" "(last stack, dep) \<in> dep_relation refs"
  shows "found_cycle refs stack dep"
proof -
  obtain pre post where s: "stack = pre @ dep # post" "dep \<notin> set pre" using assms(2) by (meson split_list_first)
  then have "dropWhile (\<lambda>n. n \<noteq> dep) stack = dep # post" by (auto simp: dropWhile_append)
  moreover have "successively (\<lambda>x y. (x, y) \<in> dep_relation refs) (dep # post)"
    using assms(1) s(1) by (simp add: successively_append_iff)
  moreover have "last (dep # post) = last stack" using s(1) by simp
  ultimately have "cycle_on_stack stack dep = dep # post @ [dep]"
    "successively (\<lambda>x y. (x, y) \<in> dep_relation refs) ((dep # post) @ [dep])"
    using assms unfolding successively_append_iff by (simp_all add: cycle_on_stack_def)
  then show ?thesis unfolding found_cycle_def by auto
qed

lemma visit_finds:
  "stack_ok refs stack color \<Longrightarrow> map_get 0 color n = 0 \<Longrightarrow> (stack \<noteq> [] \<Longrightarrow> (last stack, n) \<in> dep_relation refs) \<Longrightarrow>
     case visit refs d n stack color of (Some (s, dep), _) \<Rightarrow> found_cycle refs s dep | (None, color') \<Rightarrow> stack_ok refs stack color'"
  "stack_ok refs stack color \<Longrightarrow> stack \<noteq> [] \<Longrightarrow> set deps \<subseteq> set (map_get [] refs (last stack)) \<Longrightarrow>
     case visit_refs refs d deps stack color of (Some (s, dep), _) \<Rightarrow> found_cycle refs s dep | (None, color') \<Rightarrow> stack_ok refs stack color'"
proof (induction refs d n stack color and refs d deps stack color rule: visit_visit_refs.induct)
  case (2 refs d n stack color)
  have "n \<notin> set stack"
  proof
    assume "n \<in> set stack"
    with 2(2) have "map_get 0 color n = 1" by (simp add: stack_ok_def)
    with 2(3) show False by simp
  qed
  have push: "stack_ok refs (stack @ [n]) (map_put n 1 color)"
    using 2(2-4) by (auto simp: stack_ok_def successively_append_iff)
  have "case visit_refs refs d (map_get [] refs n) (stack @ [n]) (map_put n 1 color) of
      (Some (s, dep), _) \<Rightarrow> found_cycle refs s dep | (None, color') \<Rightarrow> stack_ok refs (stack @ [n]) color'"
    by (rule 2(1) [OF push]) simp_all
  moreover have "stack_ok refs stack (map_put n 2 color')" if "stack_ok refs (stack @ [n]) color'" for color'
    using that \<open>n \<notin> set stack\<close> by (auto simp: stack_ok_def successively_append_iff)
  ultimately show ?case by (auto split: prod.splits option.splits)
next
  case (4 refs d dep deps stack color)
  have e: "(last stack, dep) \<in> dep_relation refs" using 4(6) by (auto simp: dep_relation_def)
  consider (grey) "map_get 0 color dep = 1" | (white) "map_get 0 color dep = 0"
    | (black) "map_get 0 color dep \<noteq> 1" "map_get 0 color dep \<noteq> 0" by blast
  then show ?case
  proof cases
    case grey
    then have "found_cycle refs stack dep" using 4(4) e by (intro found_cycleI) (auto simp: stack_ok_def)
    with grey show ?thesis by simp
  next
    case white
    then have w: "map_get 0 color dep \<noteq> 1" by simp
    obtain q color1 where v: "visit refs d dep stack color = (q, color1)" by fastforce
    from 4(1) [OF w white 4(4) white e]
    have one: "case q of Some (s, dep) \<Rightarrow> found_cycle refs s dep | None \<Rightarrow> stack_ok refs stack color1"
      by (auto simp: v split: option.splits)
    show ?thesis
    proof (cases q)
      case None
      have "set deps \<subseteq> set (map_get [] refs (last stack))" using 4(6) by simp
      from 4(2) [OF w white v [symmetric] None _ 4(5) this] one white v None show ?thesis by simp
    qed (use one white v in \<open>auto split: prod.splits\<close>)
  next
    case black
    have "set deps \<subseteq> set (map_get [] refs (last stack))" using 4(6) by simp
    from 4(3) [OF black 4(4,5) this] black show ?thesis by simp
  qed
qed simp_all

lemma visit_all_finds:
  "stack_ok refs [] color \<Longrightarrow> visit_all refs d ns color = Some (s, dep) \<Longrightarrow> found_cycle refs s dep"
proof (induction ns arbitrary: color)
  case (Cons n ns)
  obtain q color1 where v: "visit refs d n [] color = (q, color1)" by fastforce
  show ?case
  proof (cases "map_get 0 color n = 0")
    case True
    from visit_finds(1) [OF Cons.prems(1) True, of d]
    have "case q of Some (s, dep) \<Rightarrow> found_cycle refs s dep | None \<Rightarrow> stack_ok refs [] color1"
      by (auto simp: v split: option.splits)
    with Cons True v show ?thesis by (cases q) auto
  next
    case False
    with Cons show ?thesis by simp
  qed
qed simp

lemma detectCycle_Some: "detectCycle fns order = Some (s, dep) \<Longrightarrow> found_cycle (fn_refs fns) s dep"
  unfolding detectCycle_def by (rule visit_all_finds) (simp_all add: stack_ok_def)


section \<open>What a template calls\<close>

text \<open>The functions a tree can call: every identifier, wherever it stands.\<close>

fun calledArg :: "t_arg \<Rightarrow> string list"
and calledArgs :: "t_arg list \<Rightarrow> string list"
and calledCommands :: "t_arg list list \<Rightarrow> string list" where
  "calledArg (AIdent f) = [f]"
| "calledArg (AChain n fs) = calledArg n"
| "calledArg (APipe cmds) = calledCommands cmds"
| "calledArg _ = []"
| "calledArgs [] = []"
| "calledArgs (a # as) = calledArg a @ calledArgs as"
| "calledCommands [] = []"
| "calledCommands (c # cs) = calledArgs c @ calledCommands cs"

fun calledNode :: "t_node \<Rightarrow> string list"
and calledNodes :: "t_node list \<Rightarrow> string list" where
  "calledNode (NAction p) = calledCommands (tp_cmds p)"
| "calledNode (NIf p b e) = calledCommands (tp_cmds p) @ calledNodes b @ calledNodes e"
| "calledNode (NRange p b e) = calledCommands (tp_cmds p) @ calledNodes b @ calledNodes e"
| "calledNode (NWith p b e) = calledCommands (tp_cmds p) @ calledNodes b @ calledNodes e"
| "calledNode (NTemplate n (Some p)) = calledCommands (tp_cmds p)"
| "calledNode (NTemplate n None) = []"
| "calledNode (NText s) = []"
| "calledNode NBreak = []"
| "calledNode NContinue = []"
| "calledNodes [] = []"
| "calledNodes (n # ns) = calledNode n @ calledNodes ns"

text \<open>Trees in which a function is called only at the head of a command, and no field is taken of a pipeline.\<close>

fun heads_only :: "bool \<Rightarrow> t_arg list \<Rightarrow> bool"
and heads_only_pipe :: "t_arg list list \<Rightarrow> bool" where
  "heads_only h [] = True"
| "heads_only h (AIdent f # as) = (h \<and> heads_only False as)"
| "heads_only h (APipe cmds # as) = (heads_only_pipe cmds \<and> heads_only False as)"
| "heads_only h (a # as) = (calledArg a = [] \<and> heads_only False as)"
| "heads_only_pipe [] = True"
| "heads_only_pipe (c # cs) = (heads_only True c \<and> heads_only_pipe cs)"

fun heads_only_node :: "t_node \<Rightarrow> bool"
and heads_only_nodes :: "t_node list \<Rightarrow> bool" where
  "heads_only_node (NAction p) = heads_only_pipe (tp_cmds p)"
| "heads_only_node (NIf p b e) = (heads_only_pipe (tp_cmds p) \<and> heads_only_nodes b \<and> heads_only_nodes e)"
| "heads_only_node (NRange p b e) = (heads_only_pipe (tp_cmds p) \<and> heads_only_nodes b \<and> heads_only_nodes e)"
| "heads_only_node (NWith p b e) = (heads_only_pipe (tp_cmds p) \<and> heads_only_nodes b \<and> heads_only_nodes e)"
| "heads_only_node (NTemplate n (Some p)) = heads_only_pipe (tp_cmds p)"
| "heads_only_node (NTemplate n None) = True"
| "heads_only_node (NText s) = True"
| "heads_only_node NBreak = True"
| "heads_only_node NContinue = True"
| "heads_only_nodes [] = True"
| "heads_only_nodes (n # ns) = (heads_only_node n \<and> heads_only_nodes ns)"

lemma collect_called:
  "heads_only h as \<Longrightarrow> set (collectArgs h as calls) = set calls \<union> set (calledArgs as)"
  "heads_only_pipe cs \<Longrightarrow> set (collectPipeFunctionCalls cs calls) = set calls \<union> set (calledCommands cs)"
  by (induction h as calls and cs calls rule: collectArgs_collectPipeFunctionCalls.induct) auto

lemma collect_called_nodes:
  "heads_only_node n \<Longrightarrow> set (collectFunctionCalls n calls) = set calls \<union> set (calledNode n)"
  "heads_only_nodes ns \<Longrightarrow> set (collectList ns calls) = set calls \<union> set (calledNodes ns)"
  by (induction n calls and ns calls rule: collectFunctionCalls_collectList.induct)
    (auto simp: collect_called)

definition calledTrees :: "t_trees \<Rightarrow> string set" where
  "calledTrees trees = (\<Union>x \<in> set trees. set (calledNodes (snd x)))"

lemma collect_trees:
  "list_all (heads_only_nodes \<circ> snd) trees \<Longrightarrow>
     set (fold (\<lambda>(_, ns). collectList ns) trees calls) = set calls \<union> calledTrees trees"
  by (induction trees arbitrary: calls) (auto simp: collect_called_nodes calledTrees_def)

text \<open>The execution depends only on the functions that are called.\<close>

lemma get_fields_apply: "get_fields (S\<lparr>se_apply := g\<rparr>) fs v = get_fields S fs v"
  by (induction fs arbitrary: v) (simp_all add: bind_def split: sum.split)

lemma eval_apply:
  "\<forall>f \<in> set (calledArg a). se_apply S f = g f \<Longrightarrow> evalArg (S\<lparr>se_apply := g\<rparr>) dot vars a = evalArg S dot vars a"
  "\<forall>f \<in> set (calledArgs as). se_apply S f = g f \<Longrightarrow> evalArgs (S\<lparr>se_apply := g\<rparr>) dot vars as = evalArgs S dot vars as"
  "\<forall>f \<in> set (calledArgs as). se_apply S f = g f \<Longrightarrow>
     evalCommand (S\<lparr>se_apply := g\<rparr>) dot vars as fin = evalCommand S dot vars as fin"
  "\<forall>f \<in> set (calledCommands cs). se_apply S f = g f \<Longrightarrow>
     evalCommands (S\<lparr>se_apply := g\<rparr>) dot vars cs fin = evalCommands S dot vars cs fin"
proof (induction S dot vars a and S dot vars as and S dot vars as fin and S dot vars cs fin
    rule: evalArg_evalArgs_evalCommand_evalCommands.induct)
  case (4 S dot vars x fs)
  show ?case by (simp add: bind_def get_fields_apply split: sum.split)
next
  case (7 S dot vars a fs)
  then show ?case by (simp add: bind_def get_fields_apply split: sum.split)
next
  case (12 S dot vars a as fin)
  have args: "evalArgs (S\<lparr>se_apply := g\<rparr>) dot vars as = evalArgs S dot vars as" using 12 by simp
  show ?case
  proof (cases "head_ident a")
    case None
    have "evalArg (S\<lparr>se_apply := g\<rparr>) dot vars a = evalArg S dot vars a" by (rule 12(2) [OF refl None]) (use 12(3) in simp)
    then show ?thesis by (simp add: Let_def args None cong: if_cong)
  next
    case (Some f)
    then have "a = AIdent f" by (auto simp: head_ident_def split: t_arg.splits)
    with 12(3) show ?thesis by (simp add: Let_def args head_ident_def)
  qed
next
  case (14 S dot vars c cs fin)
  have "evalCommand (S\<lparr>se_apply := g\<rparr>) dot vars c fin = evalCommand S dot vars c fin" by (rule 14(1)) (use 14(3) in simp)
  moreover have "evalCommands (S\<lparr>se_apply := g\<rparr>) dot vars cs [Inr x] = evalCommands S dot vars cs [Inr x]" for x
    by (rule 14(2)) (use 14(3) in simp)
  ultimately show ?case by (simp only: evalCommands.simps)
qed (simp_all add: get_fields_apply)

lemma pipeline_apply:
  "\<forall>f \<in> set (calledCommands (tp_cmds p)). se_apply S f = g f \<Longrightarrow>
     evalPipeline (S\<lparr>se_apply := g\<rparr>) dot vars p = evalPipeline S dot vars p"
  unfolding evalPipeline_def by (simp add: eval_apply(4))

lemma range_loop_cong: "(\<And>x vs. f x vs = g x vs) \<Longrightarrow> range_loop f p ies vars = range_loop g p ies vars"
proof -
  assume "\<And>x vs. f x vs = g x vs"
  then have "f = g" by (intro ext)
  then show ?thesis by simp
qed

lemma walk_apply:
  "\<forall>f \<in> set (calledNode n). se_apply S f = g f \<Longrightarrow> walk (S\<lparr>se_apply := g\<rparr>) call dot vars n = walk S call dot vars n"
  "\<forall>f \<in> set (calledNodes ns). se_apply S f = g f \<Longrightarrow>
     walk_list (S\<lparr>se_apply := g\<rparr>) call dot vars ns = walk_list S call dot vars ns"
proof (induction S call dot vars n and S call dot vars ns rule: walk_walk_list.induct)
  case (3 S call dot vars p b e)
  have "evalPipeline (S\<lparr>se_apply := g\<rparr>) dot vars p = evalPipeline S dot vars p" by (rule pipeline_apply) (use 3(3) in simp)
  with 3 show ?case by (auto simp: bind_def split: sum.split)
next
  case (4 S call dot vars p b e)
  have "evalPipeline (S\<lparr>se_apply := g\<rparr>) dot vars p = evalPipeline S dot vars p" by (rule pipeline_apply) (use 4(3) in simp)
  with 4 show ?case by (auto simp: bind_def split: sum.split)
next
  case (5 S call dot vars p b e)
  have p: "evalPipeline (S\<lparr>se_apply := g\<rparr>) dot vars p = evalPipeline S dot vars p" by (rule pipeline_apply) (use 5(3) in simp)
  have body: "walk_list (S\<lparr>se_apply := g\<rparr>) call x us b = walk_list S call x us b" for x us
    using 5(2) [of "[undefined]"] 5(3) by simp
  have else_: "walk_list (S\<lparr>se_apply := g\<rparr>) call dot us e = walk_list S call dot us e" for us
    using 5(1) [of "[]"] 5(3) by simp
  show ?case unfolding walk.simps p by (simp add: body else_ cong: if_cong)
next
  case (11 S call dot vars n ns)
  then show ?case by (auto simp: bind_def split: sum.split)
qed (auto simp: pipeline_apply cong: if_cong)

lemma exec_apply:
  assumes "\<forall>f \<in> calledTrees trees. se_apply S f = g f"
  shows "exec_template (S\<lparr>se_apply := g\<rparr>) trees k n dot = exec_template S trees k n dot"
proof (induction k arbitrary: n dot)
  case (Suc k)
  have call: "exec_template (S\<lparr>se_apply := g\<rparr>) trees k = exec_template S trees k" by (intro ext Suc)
  show ?case
  proof (cases "map_of trees n")
    case (Some ns)
    have "\<forall>f \<in> set (calledNodes ns). se_apply S f = g f"
      using assms map_of_SomeD [OF Some] by (force simp: calledTrees_def)
    from walk_apply(2) [OF this] Some call show ?thesis by simp
  qed simp
qed simp


section \<open>Compiled libraries\<close>

lemma fn_problem_Nil [simp]: "fn_problem n b m = [] \<longleftrightarrow> \<not> b"
  by (simp add: fn_problem_def)

text \<open>A valid definition: what \<open>compileOne\<close> accepts.\<close>

definition valid_function_name :: "fn_env \<Rightarrow> string \<Rightarrow> bool" where
  "valid_function_name env n = (identifierPattern n \<and> \<not> strings_HasPrefix n ''__'' \<and> \<not> IsBuiltinFunc env n)"

definition valid_param :: "string list \<Rightarrow> bool \<Rightarrow> param_def \<Rightarrow> bool" where
  "valid_param earlier opt p =
     (identifierPattern (pa_name p) \<and> pa_name p \<notin> set earlier \<and> (pa_required p \<longrightarrow> pa_default p = VNil \<and> \<not> opt) \<and>
      (pa_type p = [] \<or> map ascii_lower (pa_type p) \<in> set knownParamTypes))"

fun valid_params :: "string list \<Rightarrow> bool \<Rightarrow> param_def option list \<Rightarrow> bool" where
  "valid_params earlier opt [] = True"
| "valid_params earlier opt (None # ps) = False"
| "valid_params earlier opt (Some p # ps) =
     (valid_param earlier opt p \<and> valid_params (pa_name p # earlier) (opt \<or> \<not> pa_required p) ps)"

definition valid_body :: "fn_env \<Rightarrow> string list \<Rightarrow> function_def \<Rightarrow> bool" where
  "valid_body env names f =
     (if fu_cel f \<noteq> [] then fu_template f = [] \<and> fe_celSyntax env (fu_cel f) = None
      else fu_template f \<noteq> [] \<and> \<not> isl (fe_parse env (fu_template f) (known_functions env names)))"

definition valid_function :: "fn_env \<Rightarrow> string list \<Rightarrow> string \<Rightarrow> function_def option \<Rightarrow> bool" where
  "valid_function env names n f =
     (case f of None \<Rightarrow> False
      | Some f \<Rightarrow> valid_function_name env n \<and> valid_params [] False (fu_params f) \<and> valid_body env names f)"

lemma name_problems_Nil: "name_problems env n = [] \<longleftrightarrow> valid_function_name env n"
  by (auto simp: name_problems_def valid_function_name_def)

lemma validate_params_Nil: "set xs = set ys \<Longrightarrow> validate_params fn i xs opt ps = [] \<longleftrightarrow> valid_params ys opt ps"
proof (induction fn i xs opt ps arbitrary: ys rule: validate_params.induct)
  case (3 fn i xs opt p ps)
  have "param_problems fn i xs opt p = [] \<longleftrightarrow> valid_param ys opt p"
    using 3(2) by (auto simp: param_problems_def valid_param_def)
  moreover have "set (set_insert (pa_name p) xs) = set (pa_name p # ys)" using 3(2) by simp
  from 3(1) [OF this] have "validate_params fn (i + 1) (set_insert (pa_name p) xs) (opt \<or> \<not> pa_required p) ps = [] \<longleftrightarrow>
      valid_params (pa_name p # ys) (opt \<or> \<not> pa_required p) ps" .
  ultimately show ?case by simp
qed simp_all

definition all_problems :: "fn_env \<Rightarrow> string \<Rightarrow> function_def \<Rightarrow> string list \<Rightarrow> string list" where
  "all_problems env n x names =
     name_problems env n @ validateParams n (fu_params x) @
     fn_problem n (HasCel (Some x) \<and> HasTemplate (Some x)) ''cel and template are mutually exclusive; set exactly one'' @
     fn_problem n (\<not> HasCel (Some x) \<and> \<not> HasTemplate (Some x)) ''must set exactly one of cel or template'' @
     fst (body_check env n x names)"

definition compiled :: "fn_env \<Rightarrow> string list \<Rightarrow> string \<Rightarrow> function_def \<Rightarrow> compiled_fn" where
  "compiled env names n x =
     \<lparr>cf_name = n, cf_params = fu_params x, cf_isCel = HasCel (Some x), cf_body = bodyOf x,
      cf_refs = snd (body_check env n x names)\<rparr>"

lemma all_problems_Nil: "all_problems env n x names = [] \<longleftrightarrow> valid_function env names n (Some x)"
proof -
  have "fst (body_check env n x names) = [] \<and> (HasCel (Some x) \<longleftrightarrow> \<not> HasTemplate (Some x)) \<longleftrightarrow> valid_body env names x"
    by (auto simp: body_check_def valid_body_def HasCel_def HasTemplate_def ExtractFunctionCalls_def isl_def
        split: option.splits sum.splits)
  then show ?thesis
    unfolding all_problems_def validateParams_def valid_function_def option.case append_is_Nil_conv name_problems_Nil
      validate_params_Nil [OF refl] fn_problem_Nil by blast
qed

lemma compileOne_Some:
  "compileOne env n (Some x) names =
     (if valid_function env names n (Some x) then (Some (compiled env names n x), []) else (None, all_problems env n x names))"
  unfolding all_problems_Nil [symmetric]
  by (simp add: compileOne_def case_prod_beta Let_def all_problems_def compiled_def)

lemma compileOne_Nil: "snd (compileOne env n f names) = [] \<longleftrightarrow> valid_function env names n f"
proof (cases f)
  case None
  then show ?thesis by (simp add: compileOne_def fn_problem_def valid_function_def)
next
  case (Some x)
  then show ?thesis by (simp add: compileOne_Some all_problems_Nil)
qed

lemma Compile_spec:
  fixes env :: fn_env and fns :: "function_def option gomap"
  assumes ne: "fns \<noteq> []"
  defines "names \<equiv> sort (map_keys fns)"
  defines "lib \<equiv> map (\<lambda>n. (n, compiled env names n (the (map_get None fns n)))) names"
  shows "(\<exists>l. Compile env fns = Inr l) \<longleftrightarrow>
      list_all (\<lambda>n. valid_function env names n (map_get None fns n)) names \<and> acyclic (dep_relation (fn_refs lib))"
    "Compile env fns = Inr l \<Longrightarrow> \<exists>fp. l = Some \<lparr>lb_order = names, lb_fns = lib, lb_fingerprint = fp\<rparr>"
proof -
  let ?res = "compile_all env fns"
  let ?ok = "list_all (\<lambda>n. valid_function env names n (map_get None fns n)) names"
  have res: "?res = map (\<lambda>n. (n, compileOne env n (map_get None fns n) names)) names"
    by (simp add: compile_all_def names_def Let_def)
  have ps: "concat (map (\<lambda>(_, _, ps). ps) ?res) = [] \<longleftrightarrow> ?ok"
    by (simp add: res comp_def case_prod_beta compileOne_Nil list_all_iff)
  have one: "compileOne env n (map_get None fns n) names = (Some (compiled env names n (the (map_get None fns n))), [])"
    if "valid_function env names n (map_get None fns n)" for n
    using that by (cases "map_get None fns n") (simp_all add: compileOne_Some valid_function_def)
  have fns: "List.map_filter (\<lambda>(n, cf, _). map_option (Pair n) cf) ?res = lib" if ?ok
  proof -
    have "List.map_filter (\<lambda>(n, cf, _). map_option (Pair n) cf) (map (\<lambda>n. (n, compileOne env n (map_get None fns n) names)) xs) =
        map (\<lambda>n. (n, compiled env names n (the (map_get None fns n)))) xs"
      if "list_all (\<lambda>n. valid_function env names n (map_get None fns n)) xs" for xs
      using that by (induction xs) (simp_all add: map_filter_simps one)
    with that show ?thesis by (simp add: res lib_def)
  qed
  have cyc: "detectCycle lib names = None \<longleftrightarrow> acyclic (dep_relation (fn_refs lib))"
    by (rule detectCycle_None) (simp add: lib_def map_keys_def comp_def)
  define P where "P = concat (map (\<lambda>(_, _, ps). ps) ?res)"
  define L where "L = List.map_filter (\<lambda>(n, cf, _). map_option (Pair n) cf) ?res"
  define C where "C = (case detectCycle L names of None \<Rightarrow> [] | Some (stack, dep) \<Rightarrow> [formatCycle stack dep])"
  have P: "P = [] \<longleftrightarrow> ?ok" unfolding P_def by (rule ps)
  have L: "L = lib" if ?ok unfolding L_def by (rule fns [OF that])
  have C: "C = [] \<longleftrightarrow> detectCycle L names = None" by (auto simp: C_def split: option.splits)
  have c: "Compile env fns =
      (if (if P = [] then C else P) \<noteq> []
       then Inl (''invalid spec.functions: '' @ strings_Join (sort (if P = [] then C else P)) ''; '')
       else Inr (Some \<lparr>lb_order = names, lb_fns = L, lb_fingerprint = computeFingerprint env fns names\<rparr>))"
    using ne by (simp only: Compile_def P_def L_def C_def names_def Let_def if_False)
  show "(\<exists>l. Compile env fns = Inr l) \<longleftrightarrow> ?ok \<and> acyclic (dep_relation (fn_refs lib))"
    unfolding c using P L C cyc by (cases "P = []"; cases "C = []") simp_all
  show "Compile env fns = Inr l \<Longrightarrow> \<exists>fp. l = Some \<lparr>lb_order = names, lb_fns = lib, lb_fingerprint = fp\<rparr>"
    unfolding c using P L by (cases "P = []"; cases "C = []") auto
qed


section \<open>Invocations end\<close>

definition heads_only_body :: "fn_env \<Rightarrow> fn_library \<Rightarrow> compiled_fn \<Rightarrow> bool" where
  "heads_only_body env lib cf =
     (cf_isCel cf \<or>
      (case fe_parse env (cf_body cf) (known_functions env (lb_order lib)) of
         Inl _ \<Rightarrow> True | Inr trees \<Rightarrow> list_all (heads_only_nodes \<circ> snd) trees))"

text \<open>The functions that a name reaches.\<close>

definition reach_count :: "fn_library \<Rightarrow> string \<Rightarrow> nat" where
  "reach_count lib n = card {m. (n, m) \<in> (dep_relation (fn_refs (lb_fns lib)))\<^sup>+}"

lemma map_of_fn_refs: "map_of (fn_refs fns) n = map_option cf_refs (map_of fns n)"
  by (induction fns) (auto simp: fn_refs_def)

lemma fn_refs_edge: "map_of fns n = Some cf \<Longrightarrow> (n, m) \<in> dep_relation (fn_refs fns) \<longleftrightarrow> m \<in> set (cf_refs cf)"
  by (simp add: dep_relation_def map_get_def map_of_fn_refs)

lemma body_check_refs:
  "set (snd (body_check env n f names)) \<subseteq> set names"
  "\<not> HasCel (Some f) \<Longrightarrow> fe_parse env (fu_template f) (known_functions env names) = Inr trees \<Longrightarrow> HasTemplate (Some f) \<Longrightarrow>
     list_all (heads_only_nodes \<circ> snd) trees \<Longrightarrow> set (snd (body_check env n f names)) = calledTrees trees \<inter> set names"
  by (auto simp: body_check_def filterAuthorRefs_def ExtractFunctionCalls_def collect_trees split: option.split sum.split)

lemma library_facts:
  assumes "Compile env fns = Inr (Some lib)" "map_of (lb_fns lib) n = Some cf"
  shows "acyclic (dep_relation (fn_refs (lb_fns lib)))" "n \<in> set (lb_order lib)" "set (cf_refs cf) \<subseteq> set (lb_order lib)"
    "\<exists>x. valid_function env (lb_order lib) n (Some x) \<and> cf = compiled env (lb_order lib) n x \<and> map_get None fns n = Some x"
proof -
  have ne: "fns \<noteq> []" using assms(1) by (auto simp: Compile_def)
  let ?names = "sort (map_keys fns)"
  note spec = Compile_spec [OF ne, of env]
  from spec(2) [OF assms(1)] have lib: "lb_order lib = ?names"
    "lb_fns lib = map (\<lambda>n. (n, compiled env ?names n (the (map_get None fns n)))) ?names" by auto
  from spec(1) assms(1) have ok: "list_all (\<lambda>n. valid_function env ?names n (map_get None fns n)) ?names"
    and ac: "acyclic (dep_relation (fn_refs (lb_fns lib)))" by (auto simp: lib)
  show "acyclic (dep_relation (fn_refs (lb_fns lib)))" by (rule ac)
  have n: "n \<in> set ?names" "cf = compiled env ?names n (the (map_get None fns n))"
    using map_of_SomeD [OF assms(2)] by (auto simp: lib)
  then show "n \<in> set (lb_order lib)" "set (cf_refs cf) \<subseteq> set (lb_order lib)"
    using body_check_refs(1) [of env n "the (map_get None fns n)" ?names] by (simp_all add: lib compiled_def)
  from ok n(1) have v: "valid_function env ?names n (map_get None fns n)" by (simp add: list_all_iff)
  then obtain x where x: "map_get None fns n = Some x" by (cases "map_get None fns n") (auto simp: valid_function_def)
  with v n lib show "\<exists>x. valid_function env (lb_order lib) n (Some x) \<and> cf = compiled env (lb_order lib) n x \<and> map_get None fns n = Some x"
    by auto
qed

lemma reach_in_order:
  assumes "Compile env fns = Inr (Some lib)" "(n, m) \<in> (dep_relation (fn_refs (lb_fns lib)))\<^sup>+"
  shows "m \<in> set (lb_order lib)"
  using assms(2)
proof (cases rule: tranclE)
  case (step y)
  then obtain cf where "map_of (lb_fns lib) y = Some cf" "m \<in> set (cf_refs cf)"
    by (cases "map_of (lb_fns lib) y") (auto simp: dep_relation_def map_get_def map_of_fn_refs)
  with library_facts(3) [OF assms(1)] show ?thesis by blast
next
  case base
  then obtain cf where "map_of (lb_fns lib) n = Some cf" "m \<in> set (cf_refs cf)"
    by (cases "map_of (lb_fns lib) n") (auto simp: dep_relation_def map_get_def map_of_fn_refs)
  with library_facts(3) [OF assms(1)] show ?thesis by blast
qed

lemma reach_count_decreases:
  assumes "Compile env fns = Inr (Some lib)" "map_of (lb_fns lib) n = Some cf" "m \<in> set (cf_refs cf)"
  shows "reach_count lib m < reach_count lib n"
proof -
  let ?E = "dep_relation (fn_refs (lb_fns lib))"
  have e: "(n, m) \<in> ?E" using assms(2,3) by (simp add: fn_refs_edge)
  have fin: "finite {k. (n, k) \<in> ?E\<^sup>+}"
    by (rule finite_subset [of _ "set (lb_order lib)"]) (use reach_in_order [OF assms(1)] in auto)
  have "(m, m) \<notin> ?E\<^sup>+" using library_facts(1) [OF assms(1,2)] by (simp add: acyclic_def)
  moreover have "{k. (m, k) \<in> ?E\<^sup>+} \<subseteq> {k. (n, k) \<in> ?E\<^sup>+}" using e by (auto intro: trancl_into_trancl2)
  ultimately have "{k. (m, k) \<in> ?E\<^sup>+} \<subset> {k. (n, k) \<in> ?E\<^sup>+}" using e by blast
  from psubset_card_mono [OF fin this] show ?thesis by (simp add: reach_count_def)
qed

lemma reach_count_bound:
  assumes "Compile env fns = Inr (Some lib)" "map_of (lb_fns lib) n = Some cf"
  shows "reach_count lib n < length (lb_order lib)"
proof -
  let ?E = "dep_relation (fn_refs (lb_fns lib))"
  have "{k. (n, k) \<in> ?E\<^sup>+} \<subseteq> set (lb_order lib) - {n}"
    using reach_in_order [OF assms(1)] library_facts(1) [OF assms] by (auto simp: acyclic_def)
  then have "reach_count lib n \<le> card (set (lb_order lib) - {n})" unfolding reach_count_def by (intro card_mono) auto
  also have "\<dots> < card (set (lb_order lib))" using library_facts(2) [OF assms] by (intro card_Diff1_less) auto
  also have "\<dots> \<le> length (lb_order lib)" by (rule card_length)
  finally show ?thesis .
qed

lemma render_body_cong:
  assumes "\<And>trees f. fe_parse env body (known_functions env (lb_order lib)) = Inr trees \<Longrightarrow> f \<in> calledTrees trees \<Longrightarrow>
      f \<in> set (lb_order lib) \<Longrightarrow> call f = call' f"
  shows "render_body env lib call body data = render_body env lib call' body data"
proof (cases "fe_parse env body (known_functions env (lb_order lib))")
  case (Inr trees)
  let ?g = "\<lambda>f args. if f \<in> set (lb_order lib) then bind (all_values args) (call f) else se_apply (fe_sem env) f args"
  have "\<forall>f \<in> calledTrees trees. se_apply (author_sem env lib call') f = ?g f"
  proof
    fix f assume f: "f \<in> calledTrees trees"
    show "se_apply (author_sem env lib call') f = ?g f"
    proof (cases "f \<in> set (lb_order lib)")
      case True
      with assms [OF Inr f] show ?thesis by (simp add: author_sem_def)
    qed (simp add: author_sem_def)
  qed
  from exec_apply [OF this] Inr show ?thesis by (simp add: render_body_def bind_def author_sem_def)
qed (simp add: render_body_def bind_def)

lemma invoke_stable:
  assumes lib: "Compile env fns = Inr (Some lib)" and heads: "list_all (\<lambda>x. heads_only_body env lib (snd x)) (lb_fns lib)"
  shows "reach_count lib n < d \<Longrightarrow> reach_count lib n < d' \<Longrightarrow> invoke env lib z d n args = invoke env lib z' d' n args"
proof (induction "reach_count lib n" arbitrary: n d d' args rule: less_induct)
  case less
  obtain k k' where d: "d = Suc k" "d' = Suc k'" using less.prems by (cases d; cases d') auto
  show ?case
  proof (cases "map_of (lb_fns lib) n")
    case (Some cf)
    from library_facts(4) [OF lib Some] obtain x where v: "valid_function env (lb_order lib) n (Some x)"
      and cf: "cf = compiled env (lb_order lib) n x" by blast
    have calls: "invoke env lib z k f = invoke env lib z' k' f" if "f \<in> set (cf_refs cf)" for f
    proof
      fix as
      have "reach_count lib f < reach_count lib n" by (rule reach_count_decreases [OF lib Some that])
      then show "invoke env lib z k f as = invoke env lib z' k' f as"
        using less.prems d by (intro less.hyps) simp_all
    qed
    have "render_body env lib (invoke env lib z k) (cf_body cf) data = render_body env lib (invoke env lib z' k') (cf_body cf) data"
      if cel: "\<not> cf_isCel cf" for data
    proof (rule render_body_cong)
      fix trees f
      assume p: "fe_parse env (cf_body cf) (known_functions env (lb_order lib)) = Inr trees"
        and f: "f \<in> calledTrees trees" "f \<in> set (lb_order lib)"
      have cel': "\<not> HasCel (Some x)" and body: "cf_body cf = fu_template x" using cel by (simp_all add: cf compiled_def bodyOf_def)
      with v have tmpl: "HasTemplate (Some x)" by (auto simp: valid_function_def valid_body_def HasCel_def HasTemplate_def)
      have "list_all (heads_only_nodes \<circ> snd) trees"
        using bspec [OF heads [unfolded list_all_iff] map_of_SomeD [OF Some]] cel p by (simp add: heads_only_body_def)
      from body_check_refs(2) [OF cel' p [unfolded body] tmpl this] f have "f \<in> set (cf_refs cf)" by (simp add: cf compiled_def)
      then show "invoke env lib z k f = invoke env lib z' k' f" by (rule calls)
    qed
    then show ?thesis by (simp add: d Some makeInvoker_def Let_def split: sum.split)
  qed (simp add: d)
qed

section \<open>Arguments\<close>

definition required_count :: "param_def option list \<Rightarrow> nat" where
  "required_count ps = length (filter (\<lambda>p. case p of None \<Rightarrow> False | Some x \<Rightarrow> pa_required x) ps)"

text \<open>In a valid list the required parameters come first.\<close>

lemma valid_params_optional: "valid_params xs True ps \<Longrightarrow> required_count ps = 0"
proof (induction xs "True" ps rule: valid_params.induct)
  case (3 xs p ps)
  then show ?case by (auto simp: required_count_def valid_param_def)
qed (simp_all add: required_count_def)

lemma bind_params_spec:
  "valid_params xs opt ps \<Longrightarrow> set (map_keys bound) \<subseteq> set xs \<Longrightarrow>
   (case bind_params env i ps args bound of
      Inr b \<Rightarrow> required_count ps \<le> length args \<and> map_keys b = map_keys bound @ map (pa_name \<circ> the) ps
    | Inl (MissingParameter n k) \<Rightarrow> length args < required_count ps \<and> k = i + length args + 1
    | Inl (BadParameter n k m) \<Rightarrow> True
    | Inl _ \<Rightarrow> False)"
proof (induction env i ps args bound arbitrary: xs opt rule: bind_params.induct)
  case (3 env i p ps args bound)
  let ?raw = "case args of [] \<Rightarrow> pa_default p | a # _ \<Rightarrow> a"
  have vp: "valid_param xs opt p" "valid_params (pa_name p # xs) (opt \<or> \<not> pa_required p) ps" using 3(2) by simp_all
  have new: "pa_name p \<notin> set (map_keys bound)" using vp(1) 3(3) by (auto simp: valid_param_def)
  show ?case
  proof (cases "args = [] \<and> pa_required p")
    case True
    then show ?thesis by (simp add: required_count_def)
  next
    case False
    show ?thesis
    proof (cases "fe_coerce env (pa_type p) ?raw")
      case (Inl e)
      with False show ?thesis by (auto simp: Let_def split: list.splits)
    next
      case (Inr c)
      have put: "map_keys (map_put (pa_name p) c bound) = map_keys bound @ [pa_name p]"
        using new by (induction bound) (auto simp: map_put_def map_keys_def)
      have sub: "set (map_keys (map_put (pa_name p) c bound)) \<subseteq> set (pa_name p # xs)" using 3(3) by auto
      have eq: "bind_params env i (Some p # ps) args bound = bind_params env (i + 1) ps (tl args) (map_put (pa_name p) c bound)"
        using False Inr by (cases "args = []") (simp_all add: Let_def)
      have zero: "required_count ps = 0" if "\<not> pa_required p" using vp(2) that valid_params_optional by simp
      have count: "required_count (Some p # ps) = (if pa_required p then Suc (required_count ps) else 0)"
        using zero by (simp add: required_count_def)
      note ih = 3(1) [OF False refl Inr vp(2) sub]
      show ?thesis
        unfolding eq count using ih False zero
        by (cases args) (auto simp: put split: sum.splits bind_error.splits)
    qed
  qed
qed (auto simp: required_count_def)

section \<open>Properties\<close>


definition sample_trees :: "string \<Rightarrow> t_node list" where
  "sample_trees c =
     (if c = ''greet'' then [NText ''hi '', NAction \<lparr>tp_decl = [], tp_assign = False, tp_cmds = [[AField [''args'', ''who'']]]\<rparr>]
      else if c = ''shout'' then [NAction \<lparr>tp_decl = [], tp_assign = False, tp_cmds = [[AIdent ''greet'', AField [''args'', ''who'']]]\<rparr>, NText ''!'']
      else if c = ''loop'' then [NAction \<lparr>tp_decl = [], tp_assign = False, tp_cmds = [[AIdent ''f'']]\<rparr>]
      else if c = ''print f'' then [NAction \<lparr>tp_decl = [], tp_assign = False, tp_cmds = [[AIdent ''print'', AIdent ''f'']]\<rparr>]
      else [])"

definition sample_fn_env :: fn_env where
  "sample_fn_env = \<lparr>fe_ext = [], fe_parse = (\<lambda>c _. Inr [([], sample_trees c)]), fe_celSyntax = (\<lambda>_. None),
     fe_cel = (\<lambda>_ v. Inr v), fe_coerce = (\<lambda>_ v. Inr v), fe_json = (\<lambda>_. []), fe_sha = id,
     fe_sem = \<lparr>se_field = (\<lambda>v f. case v of VMap m \<Rightarrow> (case map_of m f of None \<Rightarrow> Inl ''no entry'' | Some x \<Rightarrow> Inr x) | _ \<Rightarrow> Inl ''no field''),
       se_apply = (\<lambda>f args. case args of r # _ \<Rightarrow> r | [] \<Rightarrow> Inl ''no argument''), se_invoke = (\<lambda>_ _. Inl ''not a function''),
       se_truth = (\<lambda>v. v \<noteq> VNil), se_elems = (\<lambda>_. Inl ''range''),
       se_print = (\<lambda>v. case v of VStr s \<Rightarrow> Inr s | _ \<Rightarrow> Inr ''?''), se_lit = (\<lambda>n. VInt (int n)), se_none = VNil\<rparr>\<rparr>"

definition template_fn :: "string list \<Rightarrow> string \<Rightarrow> function_def option" where
  "template_fn ps t = Some \<lparr>fu_params = map (\<lambda>p. Some \<lparr>pa_name = p, pa_type = ''string'', pa_required = True, pa_default = VNil\<rparr>) ps,
     fu_cel = [], fu_template = t\<rparr>"

definition sample_functions :: "function_def option gomap" where
  "sample_functions = [(''shout'', template_fn [''who''] ''shout''), (''greet'', template_fn [''who''] ''greet'')]"

definition sample_library :: fn_library where
  "sample_library = (case Compile sample_fn_env sample_functions of Inr (Some lib) \<Rightarrow> lib | _ \<Rightarrow> \<lparr>lb_order = [], lb_fns = [], lb_fingerprint = []\<rparr>)"

lemma sample_library_compiles: "Compile sample_fn_env sample_functions = Inr (Some sample_library)"
proof -
  have "\<not> isl (Compile sample_fn_env sample_functions)" by code_simp
  moreover have "projr (Compile sample_fn_env sample_functions) \<noteq> None" by code_simp
  ultimately show ?thesis
    by (cases "Compile sample_fn_env sample_functions") (auto simp: sample_library_def)
qed




text \<open>A function whose body calls itself as an argument of \<open>print\<close>.\<close>

definition unseen_library :: fn_library where
  "unseen_library =
     (case Compile sample_fn_env [(''f'', template_fn [] ''print f'')] of
        Inr (Some lib) \<Rightarrow> lib | _ \<Rightarrow> \<lparr>lb_order = [], lb_fns = [], lb_fingerprint = []\<rparr>)"

lemma unseen_library_facts:
  "Compile sample_fn_env [(''f'', template_fn [] ''print f'')] = Inr (Some unseen_library)"
  "lb_order unseen_library = [''f'']"
  "map_of (lb_fns unseen_library) ''f'' =
     Some \<lparr>cf_name = ''f'', cf_params = [], cf_isCel = False, cf_body = ''print f'', cf_refs = []\<rparr>"
proof -
  let ?C = "Compile sample_fn_env [(''f'', template_fn [] ''print f'')]"
  have "\<not> isl ?C" "projr ?C \<noteq> None" by code_simp+
  then show "?C = Inr (Some unseen_library)" by (cases ?C) (auto simp: unseen_library_def)
  show "lb_order unseen_library = [''f'']"
    "map_of (lb_fns unseen_library) ''f'' =
       Some \<lparr>cf_name = ''f'', cf_params = [], cf_isCel = False, cf_body = ''print f'', cf_refs = []\<rparr>" by code_simp+
qed

lemma exec_maxExecDepth:
  "exec_template S trees maxExecDepth n dot =
     (case map_of trees n of
        None \<Rightarrow> Inl (''template not defined: '' @ n)
      | Some ns \<Rightarrow> bind (walk_list S (exec_template S trees 99999) dot [(''$'', dot)] ns) (\<lambda>(_, out, _). Inr out))"
proof -
  have d: "maxExecDepth = Suc 99999" by (simp add: maxExecDepth_def)
  show ?thesis unfolding d exec_template.simps(2) by (rule refl)
qed

lemma unseen_invoke: "invoke sample_fn_env unseen_library (Inr (VStr s)) d ''f'' [] = Inr (VStr s)"
proof (induction d)
  case (Suc d)
  let ?call = "invoke sample_fn_env unseen_library (Inr (VStr s)) d"
  have "render_body sample_fn_env unseen_library ?call ''print f'' data = Inr s" for data
    using Suc
    by (simp add: render_body_def sample_fn_env_def sample_trees_def exec_maxExecDepth bind_def author_sem_def
        unseen_library_facts(2) evalPipeline_def declare_vars_def head_ident_def)
  then show ?case
    by (simp add: unseen_library_facts(3) makeInvoker_def fn_bindArgs_def Let_def)
qed simp

text \<open>A call that is not at the head of a command is not seen: a function whose body is \<open>print f\<close> with its own name
  as the argument is accepted, and its invocation never comes to an end; whatever depth is allowed, the result is what
  lies beyond it.\<close>

theorem unseen_call_never_returns:
  "\<exists>lib. Compile sample_fn_env [(''f'', template_fn [] ''print f'')] = Inr (Some lib) \<and>
     (\<forall>d s. invoke sample_fn_env lib (Inr (VStr s)) d ''f'' [] = Inr (VStr s)) \<and>
     isl (Compile sample_fn_env [(''f'', template_fn [] ''loop'')])"
proof -
  have "isl (Compile sample_fn_env [(''f'', template_fn [] ''loop'')])" by code_simp
  with unseen_library_facts(1) unseen_invoke show ?thesis by blast
qed



end
