(* ===== verification/Call_Validation.thy ===== *)
theory Call_Validation
  imports Resolver_Graph Action_Exec Author_Sound
begin

text \<open>
  \<open>pkg/solution/call_validation.go\<close>: the checks of call definitions and call sites when a solution is loaded,
  and what they guarantee to the executor of actions.  A problem is a constructor that carries what its text
  is made of.
\<close>

record call_site =
  si_location :: "string \<times> string \<times> nat"
  si_call :: string
  si_provider :: string
  si_args :: "value_ref option gomap"

record solution_spec =
  so_resolvers :: "resolver option gomap"
  so_workflow :: "workflow option"
  so_calls :: "call_def option gomap"
  so_functions :: "function_def option gomap"

datatype call_problem =
    NullCall string
  | NoCallProvider string
  | RequiredWithDefault string string
  | ReferencesResolver string string
  | ArgsWithoutCall "string \<times> string \<times> nat"
  | CallAndProvider "string \<times> string \<times> nat" string string
  | UndefinedCall "string \<times> string \<times> nat" string
  | UnknownArgument "string \<times> string \<times> nat" string string
  | MissingArgument "string \<times> string \<times> nat" string string

section \<open>Definitions\<close>

definition problem_if :: "bool \<Rightarrow> call_problem \<Rightarrow> call_problem list" where
  "problem_if b p = (if b then [p] else [])"

definition arg_problems :: "string \<Rightarrow> call_def \<Rightarrow> string \<Rightarrow> call_problem list" where
  "arg_problems name def a =
     (case map_get None (cd_args def) a of None \<Rightarrow> []
      | Some d \<Rightarrow> problem_if (ad_required d \<and> ad_default d \<noteq> VNil) (RequiredWithDefault name a))"

definition definition_problems :: "deps_env \<Rightarrow> solution_spec \<Rightarrow> string \<Rightarrow> call_problem list" where
  "definition_problems env s name =
     (case map_get None (so_calls s) name of
        None \<Rightarrow> [NullCall name]
      | Some def \<Rightarrow>
          problem_if (cd_provider def = []) (NoCallProvider name) @
          concat (map (arg_problems name def) (sort (map_keys (cd_args def)))) @
          concat (map (\<lambda>r. problem_if (r \<noteq> ArgsNamespace \<and> map_has (so_resolvers s) r) (ReferencesResolver name r))
            (ExtractRefsFromValueRefs env (cd_inputs def))))"

definition validateCallDefinitions :: "deps_env \<Rightarrow> solution_spec \<Rightarrow> call_problem list" where
  "validateCallDefinitions env s = concat (map (definition_problems env s) (sort (map_keys (so_calls s))))"

section \<open>Sites\<close>

definition step_site :: "string \<Rightarrow> string \<Rightarrow> nat \<Rightarrow> 'a step_base_scheme \<Rightarrow> call_site" where
  "step_site name phase i st =
     \<lparr>si_location = (phase, name, i), si_call = s_call st, si_provider = s_provider st, si_args = s_args st\<rparr>"

definition step_sites :: "string \<Rightarrow> string \<Rightarrow> 'a step_base_scheme list \<Rightarrow> call_site list" where
  "step_sites name phase sts = map (\<lambda>(i, st). step_site name phase i st) (enumerate 0 sts)"

definition resolverCallSites :: "string \<Rightarrow> resolver \<Rightarrow> call_site list" where
  "resolverCallSites name r =
     (case r_resolve r of None \<Rightarrow> [] | Some p \<Rightarrow> step_sites name ''resolve'' (rp_with p)) @
     (case r_transform r of None \<Rightarrow> [] | Some p \<Rightarrow> step_sites name ''transform'' (tp_with p)) @
     (case r_validate r of None \<Rightarrow> [] | Some p \<Rightarrow> step_sites name ''validate'' (vp_with p))"

definition action_site :: "string \<Rightarrow> string \<Rightarrow> action \<Rightarrow> call_site" where
  "action_site kind name a =
     \<lparr>si_location = (kind, name, 0), si_call = a_call a, si_provider = a_provider a, si_args = a_args a\<rparr>"

definition actionCallSites :: "string \<Rightarrow> action option gomap \<Rightarrow> call_site list" where
  "actionCallSites kind as =
     concat (map (\<lambda>n. case map_get None as n of None \<Rightarrow> [] | Some a \<Rightarrow> [action_site kind n a]) (sort (map_keys as)))"

definition collectCallSites :: "solution_spec \<Rightarrow> call_site list" where
  "collectCallSites s =
     concat (map (\<lambda>n. case map_get None (so_resolvers s) n of None \<Rightarrow> [] | Some r \<Rightarrow> resolverCallSites n r)
       (sort (map_keys (so_resolvers s)))) @
     (case so_workflow s of None \<Rightarrow> []
      | Some w \<Rightarrow> actionCallSites ''action'' (w_actions w) @ actionCallSites ''finally action'' (w_finally w))"

definition validateSiteArgs :: "call_site \<Rightarrow> call_def \<Rightarrow> call_problem list" where
  "validateSiteArgs site def =
     concat (map (\<lambda>a. problem_if (\<not> map_has (cd_args def) a) (UnknownArgument (si_location site) a (si_call site)))
       (sort (map_keys (si_args site)))) @
     concat (map (\<lambda>a. case map_get None (cd_args def) a of None \<Rightarrow> []
         | Some d \<Rightarrow> problem_if (ad_required d \<and> \<not> map_has (si_args site) a) (MissingArgument (si_location site) a (si_call site)))
       (sort (map_keys (cd_args def))))"

definition validateCallSite :: "solution_spec \<Rightarrow> call_site \<Rightarrow> call_problem list" where
  "validateCallSite s site =
     (if si_call site = [] then problem_if (si_args site \<noteq> []) (ArgsWithoutCall (si_location site))
      else problem_if (si_provider site \<noteq> []) (CallAndProvider (si_location site) (si_call site) (si_provider site)) @
        (case map_get None (so_calls s) (si_call site) of
           None \<Rightarrow> [UndefinedCall (si_location site) (si_call site)]
         | Some def \<Rightarrow> validateSiteArgs site def))"

definition validateCallSites :: "solution_spec \<Rightarrow> call_problem list" where
  "validateCallSites s = concat (map (validateCallSite s) (collectCallSites s))"

definition validateCalls :: "deps_env \<Rightarrow> solution_spec option \<Rightarrow> call_problem list" where
  "validateCalls env s = (case s of None \<Rightarrow> [] | Some s \<Rightarrow> validateCallDefinitions env s @ validateCallSites s)"

section \<open>What an accepted solution satisfies\<close>

definition isolated_call :: "deps_env \<Rightarrow> solution_spec \<Rightarrow> call_def \<Rightarrow> bool" where
  "isolated_call env s def = (set (ExtractRefsFromValueRefs env (cd_inputs def)) \<inter> set (map_keys (so_resolvers s)) \<subseteq> {ArgsNamespace})"

definition valid_call :: "deps_env \<Rightarrow> solution_spec \<Rightarrow> call_def option \<Rightarrow> bool" where
  "valid_call env s d =
     (case d of None \<Rightarrow> False
      | Some def \<Rightarrow> cd_provider def \<noteq> [] \<and> isolated_call env s def \<and>
          (\<forall>a. case map_get None (cd_args def) a of None \<Rightarrow> True | Some x \<Rightarrow> \<not> (ad_required x \<and> ad_default x \<noteq> VNil)))"

definition valid_site :: "solution_spec \<Rightarrow> call_site \<Rightarrow> bool" where
  "valid_site s site =
     (if si_call site = [] then si_args site = []
      else si_provider site = [] \<and>
        (case map_get None (so_calls s) (si_call site) of None \<Rightarrow> False
         | Some def \<Rightarrow> set (map_keys (si_args site)) \<subseteq> set (map_keys (cd_args def)) \<and>
             (\<forall>a. case map_get None (cd_args def) a of None \<Rightarrow> True | Some x \<Rightarrow> ad_required x \<longrightarrow> map_has (si_args site) a)))"

lemma problem_if_Nil [simp]: "problem_if b p = [] \<longleftrightarrow> \<not> b"
  by (simp add: problem_if_def)

lemma map_get_has: "map_get None m k = Some v \<Longrightarrow> k \<in> set (map_keys m)"
  by (metis map_get_absent map_has_iff_keys option.distinct(1))

lemma definition_problems_Nil:
  "definition_problems env s name = [] \<longleftrightarrow> valid_call env s (map_get None (so_calls s) name)"
proof (cases "map_get None (so_calls s) name")
  case None
  then show ?thesis by (simp add: definition_problems_def valid_call_def)
next
  case (Some def)
  have "concat (map (arg_problems name def) (sort (map_keys (cd_args def)))) = [] \<longleftrightarrow>
      (\<forall>a. case map_get None (cd_args def) a of None \<Rightarrow> True | Some x \<Rightarrow> \<not> (ad_required x \<and> ad_default x \<noteq> VNil))"
    (is "?l \<longleftrightarrow> ?r")
  proof
    assume l: ?l
    show ?r
    proof
      fix a
      show "case map_get None (cd_args def) a of None \<Rightarrow> True | Some x \<Rightarrow> \<not> (ad_required x \<and> ad_default x \<noteq> VNil)"
      proof (cases "map_get None (cd_args def) a")
        case (Some x)
        from map_get_has [OF this] l have "arg_problems name def a = []" by simp
        with Some show ?thesis by (simp add: arg_problems_def)
      qed simp
    qed
  next
    assume ?r
    then show ?l by (auto simp: arg_problems_def split: option.splits)
  qed
  moreover have "concat (map (\<lambda>r. problem_if (r \<noteq> ArgsNamespace \<and> map_has (so_resolvers s) r) (ReferencesResolver name r))
      (ExtractRefsFromValueRefs env (cd_inputs def))) = [] \<longleftrightarrow> isolated_call env s def"
    by (auto simp: isolated_call_def map_has_iff_keys)
  ultimately show ?thesis using Some by (auto simp: definition_problems_def valid_call_def)
qed

lemma validateSiteArgs_Nil:
  "validateSiteArgs site def = [] \<longleftrightarrow>
     set (map_keys (si_args site)) \<subseteq> set (map_keys (cd_args def)) \<and>
     (\<forall>a. case map_get None (cd_args def) a of None \<Rightarrow> True | Some x \<Rightarrow> ad_required x \<longrightarrow> map_has (si_args site) a)"
  (is "_ \<longleftrightarrow> ?sub \<and> ?req")
proof -
  have "concat (map (\<lambda>a. problem_if (\<not> map_has (cd_args def) a) (UnknownArgument (si_location site) a (si_call site)))
       (sort (map_keys (si_args site)))) = [] \<longleftrightarrow> ?sub" by (auto simp: map_has_iff_keys)
  moreover have "concat (map (\<lambda>a. case map_get None (cd_args def) a of None \<Rightarrow> []
         | Some d \<Rightarrow> problem_if (ad_required d \<and> \<not> map_has (si_args site) a) (MissingArgument (si_location site) a (si_call site)))
       (sort (map_keys (cd_args def)))) = [] \<longleftrightarrow> ?req" (is "?l \<longleftrightarrow> _")
  proof
    assume l: ?l
    show ?req
    proof
      fix a
      show "case map_get None (cd_args def) a of None \<Rightarrow> True | Some x \<Rightarrow> ad_required x \<longrightarrow> map_has (si_args site) a"
      proof (cases "map_get None (cd_args def) a")
        case (Some x)
        from map_get_has [OF this] l Some show ?thesis by (fastforce split: option.splits)
      qed simp
    qed
  next
    assume ?req
    then show ?l by (auto split: option.splits)
  qed
  ultimately show ?thesis by (simp add: validateSiteArgs_def)
qed

lemma validateCallSite_Nil: "validateCallSite s site = [] \<longleftrightarrow> valid_site s site"
  by (cases "map_get None (so_calls s) (si_call site)")
    (simp_all add: validateCallSite_def valid_site_def validateSiteArgs_Nil)

lemma validateCalls_Nil:
  "validateCalls env (Some s) = [] \<longleftrightarrow>
     list_all (\<lambda>n. valid_call env s (map_get None (so_calls s) n)) (map_keys (so_calls s)) \<and>
     list_all (valid_site s) (collectCallSites s)"
  by (simp add: validateCalls_def validateCallDefinitions_def validateCallSites_def definition_problems_Nil
      validateCallSite_Nil list_all_iff)

section \<open>What the executor may rely on\<close>

lemma resolve_args_keys:
  "resolve_args env vars n args out = Inr res \<Longrightarrow> set (map_keys res) = set (map_keys out) \<union> set (map_keys args)"
proof (induction env vars n args out rule: resolve_args.induct)
  case (3 env vars n a r as out)
  then show ?case by (auto split: sum.splits)
qed simp_all

lemma bind_loop_error:
  "bind_loop coerce def resolved ns bound = Inl x \<Longrightarrow> \<exists>n. x = MissingArg n \<or> (\<exists>t m. x = BadArg n t m)"
proof (induction ns arbitrary: bound)
  case (Cons n ns)
  then show ?case by (auto simp: Let_def arg_value_def split: sum.splits option.splits if_splits)
qed simp

lemma bind_valid_args:
  assumes "set (map_keys resolved) \<subseteq> set (map_keys (cd_args def))"
    "\<forall>a. case map_get None (cd_args def) a of None \<Rightarrow> True | Some x \<Rightarrow> ad_required x \<longrightarrow> map_has resolved a"
    "BindArgs coerce (Some def) resolved = Inl x"
  shows "\<exists>n t m. x = BadArg n t m"
proof -
  have "filter (\<lambda>n. \<not> map_has (cd_args def) n) (map_keys resolved) = []"
    using assms(1) by (auto simp: filter_empty_conv map_has_iff_keys)
  then have "checkUnknownArgs def resolved = None" by (simp add: checkUnknownArgs_def)
  with assms(3) have b: "bind_loop coerce def resolved (declaredArgNames def) [] = Inl x" by (simp add: BindArgs_def)
  have "x \<noteq> MissingArg n" for n
  proof
    assume "x = MissingArg n"
    from bind_loop_missing [OF b [unfolded this]] have n: "ad_required (arg_definition def n)" "map_of resolved n = None" by auto
    then obtain d where "map_get None (cd_args def) n = Some d" "ad_required d"
      by (auto simp: arg_definition_def empty_arg_def split: option.splits)
    with assms(2) have "map_has resolved n" by (metis (no_types, lifting) option.simps(5))
    with n(2) show False by (simp add: map_has_def)
  qed
  with bind_loop_error [OF b] show ?thesis by blast
qed

lemma action_site_collected:
  assumes "so_workflow s = Some w" "map_get None (w_actions w) n = Some a \<or> map_get None (w_finally w) n = Some a"
  shows "\<exists>kind. action_site kind n a \<in> set (collectCallSites s)"
proof -
  have "action_site kind n a \<in> set (actionCallSites kind as)" if "map_get None as n = Some a" for kind as
    using map_get_has [OF that] that by (auto simp: actionCallSites_def intro!: bexI [of _ n])
  with assms(2) consider "action_site ''action'' n a \<in> set (actionCallSites ''action'' (w_actions w))"
    | "action_site ''finally action'' n a \<in> set (actionCallSites ''finally action'' (w_finally w))" by blast
  then show ?thesis
    by cases (use assms(1) in \<open>simp_all add: collectCallSites_def, blast+\<close>)
qed

end
