(* ===== verification/Solution_Load.thy ===== *)
theory Solution_Load
  imports Call_Validation State_Manager Action_Validation
begin

text \<open>
  \<open>pkg/solution/solution.go\<close>, \<open>spec.go\<close>, \<open>spec_validation.go\<close> and \<open>functions.go\<close>: loading a solution, the defaults,
  the validation that decides whether it may run, and the providers it names.  Fields that this code does not
  read are left out.  The YAML and JSON decoders are parameters.
\<close>

section \<open>Solutions\<close>

record plugin_source =
  pls_registry :: string
  pls_artifact :: string
  pls_built :: bool

record plugin_dependency =
  pl_name :: string
  pl_kind :: string
  pl_version :: string
  pl_catalog :: string
  pl_source :: "plugin_source option"

record solution =
  sol_apiVersion :: string
  sol_kind :: string
  sol_name :: string
  sol_version :: "string option"
  sol_visibility :: string
  sol_include :: "string list"
  sol_plugins :: "plugin_dependency list"
  sol_state :: "state_config option"
  sol_spec :: solution_spec

definition DefaultAPIVersion :: string where "DefaultAPIVersion = ''scafctl.io/v1''"
definition SolutionKind :: string where "SolutionKind = ''Solution''"
definition defaultVersion :: string where "defaultVersion = ''0.0.0-dev''"
definition PluginKindProvider :: string where "PluginKindProvider = ''provider''"
definition PluginKindAuthHandler :: string where "PluginKindAuthHandler = ''auth-handler''"

section \<open>Plugins\<close>

definition bundle_IsEmpty :: "solution \<Rightarrow> bool" where
  "bundle_IsEmpty s = (sol_include s = [] \<and> sol_plugins s = [])"

definition HasRegistry :: "plugin_dependency \<Rightarrow> bool" where
  "HasRegistry p = (case pl_source p of None \<Rightarrow> False | Some x \<Rightarrow> pls_registry x \<noteq> [])"

definition HasBuilt :: "plugin_dependency \<Rightarrow> bool" where
  "HasBuilt p = (case pl_source p of None \<Rightarrow> False | Some x \<Rightarrow> pls_built x)"

definition LocalName :: "plugin_dependency \<Rightarrow> string" where
  "LocalName p = pl_name p"

definition ArtifactName :: "plugin_dependency \<Rightarrow> string" where
  "ArtifactName p = (case pl_source p of None \<Rightarrow> pl_name p | Some x \<Rightarrow> if pls_artifact x \<noteq> [] then pls_artifact x else pl_name p)"

definition plugin_Registry :: "plugin_dependency \<Rightarrow> string" where
  "plugin_Registry p = (case pl_source p of None \<Rightarrow> [] | Some x \<Rightarrow> pls_registry x)"

datatype source_error = RegistryAndBuilt string | NoOrigin string

definition ValidateSource :: "plugin_dependency \<Rightarrow> source_error option" where
  "ValidateSource p =
     (case pl_source p of None \<Rightarrow> None
      | Some x \<Rightarrow>
          if pls_registry x \<noteq> [] \<and> pls_built x then Some (RegistryAndBuilt (pl_name p))
          else if pls_registry x = [] \<and> \<not> pls_built x then Some (NoOrigin (pl_name p)) else None)"

definition IsAliased :: "plugin_dependency \<Rightarrow> bool" where
  "IsAliased p = (pl_name p \<noteq> ArtifactName p)"

definition DisplayName :: "plugin_dependency \<Rightarrow> string" where
  "DisplayName p = (if IsAliased p then LocalName p @ '' ('' @ ArtifactName p @ '')'' else LocalName p)"

definition plugin_kind_IsValid :: "string \<Rightarrow> bool" where
  "plugin_kind_IsValid k = (k = PluginKindProvider \<or> k = PluginKindAuthHandler)"

section \<open>The parts of a spec\<close>

definition ResolversToSlice :: "solution_spec \<Rightarrow> resolver list" where
  "ResolversToSlice s = List.map_filter (\<lambda>(n, r). map_option (\<lambda>r. r\<lparr>r_name := n\<rparr>) r) (so_resolvers s)"

definition HasResolvers :: "solution_spec \<Rightarrow> bool" where
  "HasResolvers s = (so_resolvers s \<noteq> [])"

definition HasCalls :: "solution_spec \<Rightarrow> bool" where
  "HasCalls s = (so_calls s \<noteq> [])"

definition HasFunctions :: "solution_spec \<Rightarrow> bool" where
  "HasFunctions s = (so_functions s \<noteq> [])"

definition HasActions :: "solution_spec \<Rightarrow> bool" where
  "HasActions s = (case so_workflow s of None \<Rightarrow> False | Some w \<Rightarrow> w_actions w \<noteq> [] \<or> w_finally w \<noteq> [])"

text \<open>The set \<open>seen\<close> of provider names; the result is \<open>None\<close> where a nil pointer is dereferenced.\<close>

definition add_provider :: "string \<Rightarrow> string list \<Rightarrow> string list" where
  "add_provider p acc = (if p \<noteq> [] then set_insert p acc else acc)"

definition phase_steps :: "resolver \<Rightarrow> (string \<times> value_ref option gomap) list" where
  "phase_steps r =
     (case r_resolve r of None \<Rightarrow> [] | Some p \<Rightarrow> map (\<lambda>st. (s_provider st, s_inputs st)) (rp_with p)) @
     (case r_transform r of None \<Rightarrow> [] | Some p \<Rightarrow> map (\<lambda>st. (s_provider st, s_inputs st)) (tp_with p)) @
     (case r_validate r of None \<Rightarrow> [] | Some p \<Rightarrow> map (\<lambda>st. (s_provider st, s_inputs st)) (vp_with p))"

definition resolver_providers :: "string \<times> resolver option \<Rightarrow> string list \<Rightarrow> string list" where
  "resolver_providers = (\<lambda>(_, r) acc. case r of None \<Rightarrow> acc | Some r \<Rightarrow> fold (add_provider \<circ> fst) (phase_steps r) acc)"

definition call_providers :: "string \<times> call_def option \<Rightarrow> string list \<Rightarrow> string list" where
  "call_providers = (\<lambda>(_, c) acc. case c of None \<Rightarrow> acc | Some c \<Rightarrow> add_provider (cd_provider c) acc)"

fun action_providers :: "action option gomap \<Rightarrow> string list \<Rightarrow> string list option" where
  "action_providers [] acc = Some acc"
| "action_providers ((_, None) # as) acc = None"
| "action_providers ((_, Some a) # as) acc = action_providers as (add_provider (a_provider a) acc)"

definition spec_ReferencedProviderNames :: "solution_spec \<Rightarrow> string list option" where
  "spec_ReferencedProviderNames s =
     (let acc = fold call_providers (so_calls s) (fold resolver_providers (so_resolvers s) []) in
      map_option sort
        (case so_workflow s of None \<Rightarrow> Some acc
         | Some w \<Rightarrow> (case action_providers (w_actions w) acc of None \<Rightarrow> None | Some acc \<Rightarrow> action_providers (w_finally w) acc)))"

definition add_name_once :: "string \<Rightarrow> string list \<Rightarrow> string list" where
  "add_name_once p merged = (if p \<noteq> [] \<and> p \<notin> set merged then merged @ [p] else merged)"

definition ReferencedProviderNames :: "solution \<Rightarrow> string list option" where
  "ReferencedProviderNames s =
     (case spec_ReferencedProviderNames (sol_spec s) of None \<Rightarrow> None
      | Some ns \<Rightarrow>
          (case sol_state s of None \<Rightarrow> Some ns
           | Some c \<Rightarrow>
               (let merged = (case sc_load c of None \<Rightarrow> ns | Some l \<Rightarrow> add_name_once (lc_provider l) ns);
                    merged = fold (add_name_once \<circ> sv_provider) (sc_save c) merged
                in Some (if length merged = length ns then ns else sort merged))))"

definition identity_handler :: "string \<times> value_ref option gomap \<Rightarrow> string list \<Rightarrow> string list" where
  "identity_handler = (\<lambda>(p, ins) acc.
     (if p \<noteq> ''identity'' then acc
      else (case map_get None ins ''handler'' of
              Some (RefLiteral (VStr h)) \<Rightarrow> add_provider h acc
            | _ \<Rightarrow> acc)))"

definition ReferencedAuthHandlerNames :: "solution_spec \<Rightarrow> string list" where
  "ReferencedAuthHandlerNames s =
     sort (fold (\<lambda>(_, r) acc. case r of None \<Rightarrow> acc | Some r \<Rightarrow> fold identity_handler (phase_steps r) acc) (so_resolvers s) [])"

section \<open>Validation of the spec\<close>

datatype name_problem = NameEmpty | NameUnderscore | NameReserved | NameBlank

definition validateResolverName :: "string \<Rightarrow> name_problem option" where
  "validateResolverName n =
     (if n = [] then Some NameEmpty
      else if n = ''_'' then Some NameUnderscore
      else if strings_HasPrefix n ''__'' then Some NameReserved
      else if list_ex is_space n then Some NameBlank
      else None)"

datatype spec_problem =
    CallProblem call_problem
  | FunctionProblem string
  | NameProblem string name_problem
  | NullResolver string
  | EmptyDependsOn string
  | SelfDependsOn string
  | UnknownDependsOn string string
  | DependencyProblem phase_error

text \<open>\<open>strings.Split\<close> at a separator that is not empty.\<close>

function strings_Split :: "string \<Rightarrow> string \<Rightarrow> string list" where
  "strings_Split s sep =
     (if sep = [] then [s]
      else case strings_Cut s sep of None \<Rightarrow> [s] | Some (a, b) \<Rightarrow> a # strings_Split b sep)"
  by auto
termination
  by (relation "measure (\<lambda>(s, _). length s)") (auto dest: strings_Cut_Some)

declare strings_Split.simps [simp del]

definition validateFunctions :: "fn_env \<Rightarrow> solution_spec \<Rightarrow> spec_problem list" where
  "validateFunctions fe s =
     (if \<not> HasFunctions s then []
      else (case Compile fe (so_functions s) of
              Inr _ \<Rightarrow> []
            | Inl m \<Rightarrow> map FunctionProblem (strings_Split (strings_TrimPrefix m ''invalid spec.functions: '') ''; '')))"

record load_env =
  le_pick :: "string list \<Rightarrow> nat"
  le_deps :: deps_env
  le_fns :: fn_env
  le_yaml :: "string \<Rightarrow> solution \<times> string option"
  le_json :: "string \<Rightarrow> solution \<Rightarrow> solution \<times> string option"

definition depends_problems :: "bool gomap \<Rightarrow> string \<Rightarrow> resolver \<Rightarrow> spec_problem list" where
  "depends_problems valid n r =
     concat (map (\<lambda>d. if d = [] then [EmptyDependsOn n] else if d = n then [SelfDependsOn n]
        else if \<not> map_get False valid d then [UnknownDependsOn n d] else []) (r_dependsOn r))"

text \<open>One resolver; \<open>valid\<close> is the map \<open>resolverNames\<close>, false for the null resolvers met so far.\<close>

definition resolver_problems ::
  "string \<times> resolver option \<Rightarrow> spec_problem list \<times> bool gomap \<Rightarrow> spec_problem list \<times> bool gomap" where
  "resolver_problems = (\<lambda>(n, r) (problems, valid).
     (let problems = problems @ (case validateResolverName n of None \<Rightarrow> [] | Some e \<Rightarrow> [NameProblem n e]) in
      case r of None \<Rightarrow> (problems @ [NullResolver n], map_put n False valid)
      | Some r \<Rightarrow> (problems @ depends_problems valid n r, valid)))"

definition ValidateSpec :: "load_env \<Rightarrow> solution_spec \<Rightarrow> spec_problem list" where
  "ValidateSpec env s =
     (if \<not> HasResolvers s \<and> \<not> HasCalls s \<and> \<not> HasFunctions s \<and> \<not> HasActions s then []
      else
        (let problems = map CallProblem (validateCalls (le_deps env) (Some s)) @ validateFunctions (le_fns env) s in
         if \<not> HasResolvers s then problems
         else
           (let (problems, valid) = fold resolver_problems (so_resolvers s)
                  (problems, fold (\<lambda>n. map_put n True) (map_keys (so_resolvers s)) []);
                hasNilResolvers = list_ex (\<lambda>(_, v). \<not> v) valid;
                rs = ResolversToSlice s
            in if \<not> hasNilResolvers \<and> rs \<noteq> []
               then (case BuildPhasesWithCalls (le_pick env) ((le_deps env)\<lparr>de_lookup := None\<rparr>) rs of
                       Inl e \<Rightarrow> problems @ [DependencyProblem e]
                     | Inr _ \<Rightarrow> problems)
               else problems)))"

section \<open>Validation of the envelope\<close>

datatype solution_problem =
    BadApiVersion
  | BadKind
  | NameRequired
  | BadVisibility
  | LoadProviderRequired
  | SaveProviderRequired nat
  | SaveExtendsUnknown nat
  | SaveExclusive nat
  | SaveExtendsNoLoad nat

definition target_problems :: "state_config \<Rightarrow> nat \<times> save_target \<Rightarrow> solution_problem list" where
  "target_problems cfg = (\<lambda>(i, t).
     (if sv_extends t = [] \<and> sv_provider t = [] then [SaveProviderRequired i]
      else if sv_extends t = [] then []
      else if sv_extends t \<noteq> ExtendsLoad then [SaveExtendsUnknown i]
      else if sv_provider t \<noteq> [] then [SaveExclusive i]
      else if sc_load cfg = None then [SaveExtendsNoLoad i]
      else []))"

definition stateConfigProblems :: "state_config option \<Rightarrow> solution_problem list" where
  "stateConfigProblems c =
     (case c of None \<Rightarrow> []
      | Some cfg \<Rightarrow>
          (case sc_load cfg of None \<Rightarrow> [] | Some l \<Rightarrow> if lc_provider l = [] then [LoadProviderRequired] else []) @
          concat (map (target_problems cfg) (enumerate 0 (sc_save cfg))))"

datatype load_error =
    NoDataToLoad
  | UnmarshalFailed string
  | EnvelopeInvalid "solution_problem list"
  | SpecInvalid "spec_problem list"

definition envelope_problems :: "solution \<Rightarrow> solution_problem list" where
  "envelope_problems s =
     (if sol_apiVersion s \<noteq> DefaultAPIVersion then [BadApiVersion] else []) @
     (if sol_kind s \<noteq> SolutionKind then [BadKind] else []) @
     (if sol_name s = [] then [NameRequired] else []) @
     (if sol_visibility s \<noteq> [] \<and> sol_visibility s \<notin> {''public'', ''private'', ''internal''} then [BadVisibility] else []) @
     stateConfigProblems (sol_state s)"

definition solution_Validate :: "load_env \<Rightarrow> solution \<Rightarrow> load_error option" where
  "solution_Validate env s =
     (if envelope_problems s \<noteq> [] then Some (EnvelopeInvalid (envelope_problems s))
      else (let ps = ValidateSpec env (sol_spec s) in if ps \<noteq> [] then Some (SpecInvalid ps) else None))"

definition ApplyDefaults :: "solution \<Rightarrow> solution" where
  "ApplyDefaults s =
     s\<lparr>sol_apiVersion := (if sol_apiVersion s = [] then DefaultAPIVersion else sol_apiVersion s),
       sol_kind := (if sol_kind s = [] then SolutionKind else sol_kind s),
       sol_version := (if sol_version s = None then Some defaultVersion else sol_version s),
       sol_visibility := (if sol_visibility s = [] then ''private'' else sol_visibility s),
       sol_plugins := map (\<lambda>p. if pl_kind p = [] then p\<lparr>pl_kind := PluginKindProvider\<rparr> else p) (sol_plugins s)\<rparr>"

text \<open>A decoder leaves in the receiver what it could read; JSON goes on from there.\<close>

definition UnmarshalFromBytes :: "load_env \<Rightarrow> string \<Rightarrow> load_error + solution" where
  "UnmarshalFromBytes env bytes =
     (if bytes = [] then Inl NoDataToLoad
      else
        (case le_yaml env bytes of
           (s, None) \<Rightarrow> Inr s
         | (s, Some yamlErr) \<Rightarrow>
             (let trimmed = strings_TrimSpace bytes in
              if trimmed \<noteq> [] \<and> (hd trimmed = CHR ''{'' \<or> hd trimmed = CHR ''['')
              then (case le_json env bytes s of (s, None) \<Rightarrow> Inr s | _ \<Rightarrow> Inl (UnmarshalFailed yamlErr))
              else Inl (UnmarshalFailed yamlErr))))"

text \<open>\<open>ResolversToSlice\<close> writes the keys into the resolvers, which the loaded solution keeps: a validation without a
  problem has called it on the resolvers.\<close>

definition name_resolvers :: "solution_spec \<Rightarrow> solution_spec" where
  "name_resolvers s = s\<lparr>so_resolvers := map (\<lambda>(n, r). (n, map_option (\<lambda>r. r\<lparr>r_name := n\<rparr>) r)) (so_resolvers s)\<rparr>"

definition LoadFromBytes :: "load_env \<Rightarrow> string \<Rightarrow> load_error + solution" where
  "LoadFromBytes env bytes =
     (case UnmarshalFromBytes env bytes of Inl e \<Rightarrow> Inl e
      | Inr s \<Rightarrow>
          (let s = ApplyDefaults s in
           case solution_Validate env s of Some e \<Rightarrow> Inl e | None \<Rightarrow> Inr (s\<lparr>sol_spec := name_resolvers (sol_spec s)\<rparr>)))"

definition LoadFromBytesLenient :: "load_env \<Rightarrow> string \<Rightarrow> load_error + solution" where
  "LoadFromBytesLenient env bytes = map_sum id ApplyDefaults (UnmarshalFromBytes env bytes)"

section \<open>Valid solutions\<close>

definition valid_resolver :: "solution_spec \<Rightarrow> string \<Rightarrow> resolver option \<Rightarrow> bool" where
  "valid_resolver s n r =
     (validateResolverName n = None \<and>
      (case r of None \<Rightarrow> False
       | Some r \<Rightarrow> list_all (\<lambda>d. d \<noteq> [] \<and> d \<noteq> n \<and> map_has (so_resolvers s) d) (r_dependsOn r)))"

definition valid_spec :: "load_env \<Rightarrow> solution_spec \<Rightarrow> bool" where
  "valid_spec env s =
     (list_all (\<lambda>n. valid_call (le_deps env) s (map_get None (so_calls s) n)) (map_keys (so_calls s)) \<and>
      list_all (valid_site s) (collectCallSites s) \<and>
      (so_functions s = [] \<or> \<not> isl (Compile (le_fns env) (so_functions s))) \<and>
      list_all (\<lambda>(n, r). valid_resolver s n r) (so_resolvers s) \<and>
      \<not> isl (BuildPhasesWithCalls (le_pick env) ((le_deps env)\<lparr>de_lookup := None\<rparr>) (ResolversToSlice s)))"

definition valid_target :: "state_config \<Rightarrow> save_target \<Rightarrow> bool" where
  "valid_target cfg t =
     (if sv_extends t = [] then sv_provider t \<noteq> [] else sv_extends t = ExtendsLoad \<and> sv_provider t = [] \<and> sc_load cfg \<noteq> None)"

definition valid_state :: "state_config option \<Rightarrow> bool" where
  "valid_state c =
     (case c of None \<Rightarrow> True
      | Some cfg \<Rightarrow> (case sc_load cfg of None \<Rightarrow> True | Some l \<Rightarrow> lc_provider l \<noteq> []) \<and> list_all (valid_target cfg) (sc_save cfg))"

definition valid_solution :: "load_env \<Rightarrow> solution \<Rightarrow> bool" where
  "valid_solution env s =
     (sol_apiVersion s = DefaultAPIVersion \<and> sol_kind s = SolutionKind \<and> sol_name s \<noteq> [] \<and>
      sol_visibility s \<in> {[], ''public'', ''private'', ''internal''} \<and> valid_state (sol_state s) \<and> valid_spec env (sol_spec s))"

lemma strings_Split_not_Nil [simp]: "strings_Split s sep \<noteq> []"
  by (subst strings_Split.simps) (auto split: option.split)

lemma validateFunctions_Nil:
  "validateFunctions fe s = [] \<longleftrightarrow> so_functions s = [] \<or> \<not> isl (Compile fe (so_functions s))"
  by (auto simp: validateFunctions_def HasFunctions_def isl_def split: sum.split)

lemma resolver_problems_grow: "fst (fold resolver_problems xs (ps, v)) = [] \<Longrightarrow> ps = []"
proof (induction xs arbitrary: ps v)
  case (Cons x xs)
  obtain ps' v' where x: "resolver_problems x (ps, v) = (ps', v')" by fastforce
  have "ps' = []" using Cons.IH [of ps' v'] Cons.prems x by simp
  with x show ?case by (cases x; cases "snd x") (auto simp: resolver_problems_def Let_def)
qed simp

lemma resolver_problems_Nil:
  "(\<And>d. map_get False v d = map_has (so_resolvers s) d) \<Longrightarrow>
   fst (fold resolver_problems xs (ps, v)) = [] \<longleftrightarrow> ps = [] \<and> list_all (\<lambda>(n, r). valid_resolver s n r) xs"
proof (induction xs arbitrary: ps)
  case (Cons x xs)
  obtain n r where x: "x = (n, r)" by (cases x)
  let ?np = "case validateResolverName n of None \<Rightarrow> [] | Some e \<Rightarrow> [NameProblem n e]"
  have np: "?np = [] \<longleftrightarrow> validateResolverName n = None" by (auto split: option.split)
  show ?case
  proof (cases r)
    case None
    have "fst (fold resolver_problems (x # xs) (ps, v)) \<noteq> []"
      using resolver_problems_grow [of xs "ps @ ?np @ [NullResolver n]" "map_put n False v"]
      by (auto simp: x None resolver_problems_def)
    then show ?thesis by (simp add: x None valid_resolver_def)
  next
    case (Some y)
    have "concat (map (\<lambda>d. if d = [] then [EmptyDependsOn n] else if d = n then [SelfDependsOn n]
          else if \<not> map_get False v d then [UnknownDependsOn n d] else []) ds) = [] \<longleftrightarrow>
        list_all (\<lambda>d. d \<noteq> [] \<and> d \<noteq> n \<and> map_has (so_resolvers s) d) ds" for ds
      by (induction ds) (auto simp: Cons.prems)
    then have "depends_problems v n y = [] \<longleftrightarrow> list_all (\<lambda>d. d \<noteq> [] \<and> d \<noteq> n \<and> map_has (so_resolvers s) d) (r_dependsOn y)"
      by (simp add: depends_problems_def)
    with np have one: "?np @ depends_problems v n y = [] \<longleftrightarrow> valid_resolver s n r"
      by (auto simp: valid_resolver_def Some)
    have "resolver_problems x (ps, v) = (ps @ ?np @ depends_problems v n y, v)" by (simp add: x Some resolver_problems_def)
    with Cons.IH [OF Cons.prems, of "ps @ ?np @ depends_problems v n y"] one show ?thesis by (auto simp: x)
  qed
qed simp

lemma resolver_problems_valid:
  "list_all (\<lambda>(n, r). r \<noteq> None) xs \<Longrightarrow> snd (fold resolver_problems xs (ps, v)) = v"
proof (induction xs arbitrary: ps)
  case (Cons x xs)
  then show ?case by (cases x) (auto simp: resolver_problems_def)
qed simp

lemma all_true_map:
  fixes ns :: "string list"
  shows "map_get False (fold (\<lambda>n. map_put n True) ns []) d = (d \<in> set ns)"
  "list_all snd (fold (\<lambda>n. map_put n True) ns [])"
proof -
  have "map_get False (fold (\<lambda>n. map_put n True) ns m) d = (d \<in> set ns \<or> map_get False m d)" for m
    by (induction ns arbitrary: m) auto
  then show "map_get False (fold (\<lambda>n. map_put n True) ns []) d = (d \<in> set ns)" by simp
  have put: "list_all snd m \<Longrightarrow> list_all snd (map_put n True m)" for n :: string and m
    unfolding map_put_def by (induction m) auto
  have "list_all snd m \<Longrightarrow> list_all snd (fold (\<lambda>n. map_put n True) ns m)" for m
    by (induction ns arbitrary: m) (simp_all add: put)
  then show "list_all snd (fold (\<lambda>n. map_put n True) ns [])" by simp
qed

lemma BuildPhases_Nil: "\<not> isl (BuildPhasesWithCalls pick env [])"
  by (simp add: BuildPhasesWithCalls_def)

lemma ValidateSpec_Nil: "ValidateSpec env s = [] \<longleftrightarrow> valid_spec env s"
proof -
  let ?calls = "list_all (\<lambda>n. valid_call (le_deps env) s (map_get None (so_calls s) n)) (map_keys (so_calls s)) \<and>
      list_all (valid_site s) (collectCallSites s)"
  let ?fns = "so_functions s = [] \<or> \<not> isl (Compile (le_fns env) (so_functions s))"
  let ?ps = "map CallProblem (validateCalls (le_deps env) (Some s)) @ validateFunctions (le_fns env) s"
  have ps: "?ps = [] \<longleftrightarrow> ?calls \<and> ?fns" by (simp add: validateCalls_Nil validateFunctions_Nil)
  show ?thesis
  proof (cases "HasResolvers s")
    case False
    then have rs: "so_resolvers s = []" "ResolversToSlice s = []" by (simp_all add: HasResolvers_def ResolversToSlice_def map_filter_simps)
    have spec: "valid_spec env s \<longleftrightarrow> ?calls \<and> ?fns" by (simp add: valid_spec_def rs BuildPhases_Nil)
    show ?thesis
    proof (cases "HasCalls s \<or> HasFunctions s \<or> HasActions s")
      case True
      then have "ValidateSpec env s = ?ps" using False by (auto simp: ValidateSpec_def)
      with ps spec show ?thesis by simp
    next
      case none: False
      then have "collectCallSites s = []" "so_calls s = []" "so_functions s = []"
        using False by (auto simp: collectCallSites_def HasResolvers_def HasCalls_def HasFunctions_def HasActions_def actionCallSites_def
            rs split: option.splits)
      with spec False none show ?thesis by (simp add: ValidateSpec_def)
    qed
  next
    case True
    define v0 where "v0 = fold (\<lambda>n. map_put n True) (map_keys (so_resolvers s)) []"
    let ?all = "list_all (\<lambda>(n, r). valid_resolver s n r) (so_resolvers s)"
    obtain ps1 v1 where f: "fold resolver_problems (so_resolvers s) (?ps, v0) = (ps1, v1)" by fastforce
    have v0: "map_get False v0 d = map_has (so_resolvers s) d" for d
      unfolding v0_def all_true_map(1) by (simp add: map_has_iff_keys)
    have ps1: "ps1 = [] \<longleftrightarrow> ?ps = [] \<and> ?all"
      using resolver_problems_Nil [of v0 s "so_resolvers s" ?ps, OF v0] by (simp add: f)
    let ?rs = "ResolversToSlice s"
    let ?B = "BuildPhasesWithCalls (le_pick env) ((le_deps env)\<lparr>de_lookup := None\<rparr>) ?rs"
    have v: "ValidateSpec env s =
        (if \<not> list_ex (\<lambda>(_, v). \<not> v) v1 \<and> ?rs \<noteq> [] then (case ?B of Inl e \<Rightarrow> ps1 @ [DependencyProblem e] | Inr _ \<Rightarrow> ps1) else ps1)"
      using True f by (simp add: ValidateSpec_def Let_def v0_def)
    show ?thesis
    proof (cases "ps1 = []")
      case False
      then have "ValidateSpec env s \<noteq> []" unfolding v by (auto split: sum.split)
      moreover have "\<not> valid_spec env s" using False ps1 ps by (auto simp: valid_spec_def)
      ultimately show ?thesis by simp
    next
      case Nil: True
      then have all: ?all and ps0: "?ps = []" using ps1 by simp_all
      have some: "list_all (\<lambda>(n, r). r \<noteq> None) (so_resolvers s)"
        using all by (auto simp: list_all_iff valid_resolver_def split: option.splits)
      have "v1 = v0" using resolver_problems_valid [OF some, of ?ps v0] by (simp add: f)
      then have hn: "\<not> list_ex (\<lambda>(_, v). \<not> v) v1"
        using all_true_map(2) [of "map_keys (so_resolvers s)"] by (auto simp: v0_def list_ex_iff list_all_iff)
      have ne: "?rs \<noteq> []"
        using True some by (cases "so_resolvers s") (auto simp: HasResolvers_def ResolversToSlice_def map_filter_simps)
      have "ValidateSpec env s = [] \<longleftrightarrow> \<not> isl ?B" unfolding v using hn ne Nil by (cases ?B) simp_all
      moreover have "valid_spec env s \<longleftrightarrow> \<not> isl ?B" using all ps0 ps by (simp add: valid_spec_def)
      ultimately show ?thesis by simp
    qed
  qed
qed

lemma stateConfigProblems_Nil: "stateConfigProblems c = [] \<longleftrightarrow> valid_state c"
proof (cases c)
  case (Some cfg)
  have t: "target_problems cfg (i, t) = [] \<longleftrightarrow> valid_target cfg t" for i t
    by (auto simp: target_problems_def valid_target_def)
  have "concat (map (target_problems cfg) (enumerate k ts)) = [] \<longleftrightarrow> list_all (valid_target cfg) ts" for k ts
    by (induction ts arbitrary: k) (simp_all add: t)
  then show ?thesis by (auto simp: stateConfigProblems_def valid_state_def Some split: option.splits)
qed (simp add: stateConfigProblems_def valid_state_def)

lemma solution_Validate_None: "solution_Validate env s = None \<longleftrightarrow> valid_solution env s"
proof -
  have "envelope_problems s = [] \<longleftrightarrow> sol_apiVersion s = DefaultAPIVersion \<and> sol_kind s = SolutionKind \<and> sol_name s \<noteq> [] \<and>
      sol_visibility s \<in> {[], ''public'', ''private'', ''internal''} \<and> valid_state (sol_state s)"
    unfolding envelope_problems_def append_is_Nil_conv stateConfigProblems_Nil by auto
  then show ?thesis using ValidateSpec_Nil [of env "sol_spec s"]
    by (auto simp: solution_Validate_def valid_solution_def Let_def)
qed

lemma name_resolvers_slice [simp]: "ResolversToSlice (name_resolvers s) = ResolversToSlice s"
proof -
  have "List.map_filter (\<lambda>(n, r). map_option (\<lambda>r. r\<lparr>r_name := n\<rparr>) r) (map (\<lambda>(n, r). (n, map_option (\<lambda>r. r\<lparr>r_name := n\<rparr>) r)) xs) =
      List.map_filter (\<lambda>(n, r). map_option (\<lambda>r. r\<lparr>r_name := n\<rparr>) r) xs" for xs :: "(string \<times> resolver option) list"
    by (induction xs) (auto simp: map_filter_simps split: option.splits)
  then show ?thesis by (simp add: ResolversToSlice_def name_resolvers_def)
qed

lemma named_by_key:
  assumes "list_all (\<lambda>(n, r). r \<noteq> None) (so_resolvers s)"
  shows "list_all (\<lambda>(n, r). case r of None \<Rightarrow> False | Some r \<Rightarrow> r_name r = n) (so_resolvers (name_resolvers s))"
  using assms by (auto simp: name_resolvers_def list_all_iff)

text \<open>The targets of an accepted configuration can be written to, whatever overrides a run is given.\<close>

definition writable_target :: "save_target \<Rightarrow> bool" where
  "writable_target t = (sv_extends t = [] \<and> sv_provider t \<noteq> [])"

lemma materialized_valid:
  assumes "valid_state (Some c)"
  shows "list_all writable_target (map (materialize_target (sc_load c)) (sc_save c))"
proof -
  have "writable_target (materialize_target (sc_load c) t)" if t: "t \<in> set (sc_save c)" for t
  proof -
    have v: "valid_target c t" using assms t by (simp add: valid_state_def list_all_iff)
    show ?thesis
    proof (cases "sv_extends t = []")
      case True
      with v show ?thesis
        by (cases "sc_load c") (simp_all add: valid_target_def writable_target_def materialize_target_def ExtendsLoad_def)
    next
      case False
      with v obtain l where l: "sc_load c = Some l" "sv_extends t = ExtendsLoad" by (auto simp: valid_target_def)
      moreover have "lc_provider l \<noteq> []" using assms l(1) by (simp add: valid_state_def)
      ultimately show ?thesis by (simp add: writable_target_def materialize_target_def)
    qed
  qed
  then show ?thesis by (simp add: list_all_iff)
qed

lemma materialize_writable: "writable_target t \<Longrightarrow> materialize_target l t = t"
  by (cases l) (auto simp: writable_target_def materialize_target_def ExtendsLoad_def)

lemma overrides_writable:
  assumes "valid_state cfg" "ApplyOverrides cfg ov = Inr cfg'"
  shows "case materializeExtends cfg' of None \<Rightarrow> True | Some c \<Rightarrow> list_all writable_target (sc_save c)"
proof (cases cfg)
  case None
  with assms(2) show ?thesis
    by (auto simp: ApplyOverrides_def materializeExtends_def Let_def empty_config_def writable_target_def
        materialize_target_def ExtendsLoad_def FileProviderName_def split: if_splits)
next
  case (Some c)
  note w = materialized_valid [OF assms(1) [unfolded Some]]
  have written: "writable_target \<lparr>sv_extends = [], sv_provider = FileProviderName, sv_format = FormatFull,
      sv_parameters = None, sv_inputs = i, sv_enabled = None, sv_checkpoint = False\<rparr>" for i
    by (simp add: writable_target_def FileProviderName_def)
  have again: "list_all writable_target (map (materialize_target l) ts)" if "list_all writable_target ts" for l ts
    using that by (induction ts) (simp_all add: materialize_writable)
  show ?thesis
  proof (cases "overrides_IsZero ov")
    case True
    with assms(2) w show ?thesis by (auto simp: ApplyOverrides_def materializeExtends_def Some split: if_splits)
  next
    case False
    with assms(2) show ?thesis
      using again [OF w] again [of "[_]", simplified, OF written]
      by (auto simp: ApplyOverrides_def materializeExtends_def Some Let_def split: if_splits)
  qed
qed

section \<open>Problems of a call\<close>

definition argument_problem :: "problem \<Rightarrow> bool" where
  "argument_problem p = (case p of ProbCall _ \<Rightarrow> False | ProbCallMissing _ \<Rightarrow> False | _ \<Rightarrow> True)"

lemma resolve_args_problem:
  "resolve_args env vars n args out = Inl p \<Longrightarrow> argument_problem p"
proof (induction env vars n args out rule: resolve_args.induct)
  case (3 env vars n a r as out)
  then show ?case
    by (auto simp: argument_problem_def resolveArgRef_def lift_err_def split: sum.splits if_splits value_ref.splits)
qed (auto simp: argument_problem_def)

lemma resolve_call_inputs_problem:
  "resolve_call_inputs env data n ins out = Inl p \<Longrightarrow> argument_problem p"
proof (induction env data n ins out rule: resolve_call_inputs.induct)
  case (3 env data n a r as out)
  then show ?case by (auto simp: argument_problem_def split: sum.splits)
qed (auto simp: argument_problem_def)

lemma argument_problem_allowed:
  "argument_problem p \<Longrightarrow> (case p of ProbCallMissing _ \<Rightarrow> False | ProbCall (BadArg _ _ _) \<Rightarrow> True | ProbCall _ \<Rightarrow> False | _ \<Rightarrow> True)"
  by (cases p) (simp_all add: argument_problem_def)

section \<open>Properties\<close>



definition sample_call :: call_def where
  "sample_call = \<lparr>cd_args = [(''x'', Some \<lparr>ad_type = ''string'', ad_required = True, ad_default = VNil\<rparr>)], cd_provider = ''http'',
     cd_inputs = [(''url'', Some (RefExpr ''args''))], cd_dedup = False\<rparr>"

definition calling_action :: action where
  "calling_action = (sample_action [] [])\<lparr>a_call := ''get'', a_provider := [], a_inputs := [], a_args := [(''x'', Some (RefLiteral (VStr ''v'')))]\<rparr>"

definition sample_spec :: solution_spec where
  "sample_spec = \<lparr>so_resolvers = [(''b'', Some (sample_resolver ''b'' [''a''] (RefResolver ''a''))), (''a'', Some (sample_resolver ''a'' [] (RefLiteral (VInt 1))))],
     so_workflow = Some \<lparr>w_actions = [(''deploy'', Some calling_action)], w_finally = [], w_schemaMode = SchemaUnset\<rparr>,
     so_calls = [(''get'', Some sample_call)], so_functions = [(''greet'', template_fn [''who''] ''greet'')]\<rparr>"

definition sample_solution :: solution where
  "sample_solution = \<lparr>sol_apiVersion = [], sol_kind = [], sol_name = ''s'', sol_version = None, sol_visibility = [], sol_include = [],
     sol_plugins = [], sol_state = Some \<lparr>sc_enabled = None, sc_load = Some sample_load, sc_save = [extends_target]\<rparr>,
     sol_spec = sample_spec\<rparr>"

definition sample_load_env :: "solution \<Rightarrow> load_env" where
  "sample_load_env s = \<lparr>le_pick = (\<lambda>_. 0), le_deps = sample_deps_env, le_fns = sample_fn_env,
     le_yaml = (\<lambda>_. (s, None)), le_json = (\<lambda>_ s. (s, None))\<rparr>"



definition call_env :: exec_env where
  "call_env = \<lparr>xe_val = sample_val_env, xe_retry = undefined, xe_data = [], xe_execution = None, xe_cwd = ''/w'',
     xe_max = 1, xe_timeout = 0, xe_schemaMode = SchemaUnset, xe_validate = (\<lambda>_ _. None), xe_rfc3339 = (\<lambda>_. []),
     xe_registry = None, xe_calls = [(''get'', Some sample_call)], xe_coerce = (\<lambda>_ v. Inr v),
     xe_json = (\<lambda>_. Inr ''k''), xe_fingerprints = False, xe_noCache = False, xe_text = (\<lambda>_. ''problem'')\<rparr>"

definition calling_expanded :: expanded_action where
  "calling_expanded = \<lparr>ea_action = calling_action, ea_name = ''deploy'', ea_materialized = [], ea_deferred = [], ea_section = ''actions'',
     ea_forEach = None, ea_dependencies = [], ea_crossRefs = [], ea_whenSkipped = False, ea_exclusive = []\<rparr>"


definition nil_action_solution :: solution where
  "nil_action_solution = sample_solution\<lparr>sol_spec := sample_spec\<lparr>so_workflow :=
     Some \<lparr>w_actions = [(''deploy'', None)], w_finally = [], w_schemaMode = SchemaUnset\<rparr>\<rparr>\<rparr>"

lemma sample_load:
  assumes "\<not> isl (LoadFromBytes (sample_load_env s) ''yaml'')"
  shows "projr (LoadFromBytes (sample_load_env s) ''yaml'') =
    (ApplyDefaults s)\<lparr>sol_spec := name_resolvers (sol_spec (ApplyDefaults s))\<rparr>"
  using assms
  by (auto simp: LoadFromBytes_def UnmarshalFromBytes_def sample_load_env_def Let_def split: option.splits)

text \<open>The providers a solution names are collected without repetition and in order, unless an action is null: a
  solution with a null action is loaded without complaint, then the collection of its providers dereferences the nil
  pointer, while the validation of the workflow would have refused it.\<close>

theorem null_action_panics:
  "\<not> isl (LoadFromBytes (sample_load_env nil_action_solution) ''yaml'') \<and>
   ReferencedProviderNames (projr (LoadFromBytes (sample_load_env nil_action_solution) ''yaml'')) = None \<and>
   ReferencedProviderNames (projr (LoadFromBytes (sample_load_env sample_solution) ''yaml'')) = Some [''file'', ''http'', ''p''] \<and>
   ValidateWorkflow sample_validation_env (so_workflow (sol_spec nil_action_solution)) \<noteq> []"
proof -
  have ok: "\<not> isl (LoadFromBytes (sample_load_env nil_action_solution) ''yaml'')"
    "\<not> isl (LoadFromBytes (sample_load_env sample_solution) ''yaml'')" by code_simp+
  let ?named = "\<lambda>s. (ApplyDefaults s)\<lparr>sol_spec := name_resolvers (sol_spec (ApplyDefaults s))\<rparr>"
  have "ReferencedProviderNames (?named nil_action_solution) = None" by code_simp
  moreover have "ReferencedProviderNames (?named sample_solution) = Some [''file'', ''http'', ''p'']" by code_simp
  moreover have "ValidateWorkflow sample_validation_env (so_workflow (sol_spec nil_action_solution)) \<noteq> []" by code_simp
  ultimately show ?thesis using ok sample_load [OF ok(1)] sample_load [OF ok(2)] by simp
qed

end
