(* ===== verification/Flag_Params.thy ===== *)
theory Flag_Params
  imports Catalog_Reference Resolver_Types
begin

text \<open>
  \<open>pkg/flags\<close>: key-value flags with quoting and commas (\<open>flags.go\<close>) and the parameters of \<open>-r\<close> flags with
  files and standard input (\<open>params.go\<close>).  Files, YAML and JSON decoding are parameters.  Strings are bytes; a
  loop over the characters of a valid UTF-8 text is a loop over its bytes, except that the position of the
  last character is the last position only when it has one byte.
\<close>

section \<open>Splitting at commas\<close>

datatype flag_error =
    UnterminatedQuote string
  | ValueWithoutKey string
  | MissingSeparator string
  | EmptyKey string
  | BlankInKey string
  | StdinTwice
  | NoStdin
  | ReadFailed string
  | TooLarge string
  | NoData string
  | ParseFailed string
  | FlagNeedsValue string
  | SingleDash string
  | UnexpectedArgument string

definition supportedSchemes :: "string list" where
  "supportedSchemes = [''json://'', ''yaml://'', ''base64://'', ''http://'', ''https://'', ''file://'']"

definition isValidKeyChar :: "char \<Rightarrow> bool" where
  "isValidKeyChar c = (is_alnum c \<or> c = CHR ''-'' \<or> c = CHR ''_'')"

definition looksLikeKeyValue :: "string \<Rightarrow> bool" where
  "looksLikeKeyValue s =
     (case strings_Cut s ''='' of None \<Rightarrow> False | Some (key, _) \<Rightarrow> key \<noteq> [] \<and> list_all isValidKeyChar key)"

record csv_state =
  cv_current :: string
  cv_inQuote :: bool
  cv_quote :: "char option"
  cv_escaped :: bool
  cv_scheme :: bool
  cv_result :: "string list"

definition add_entry :: "csv_state \<Rightarrow> csv_state" where
  "add_entry st =
     (let e = strings_TrimSpace (cv_current st) in if e \<noteq> [] then st\<lparr>cv_result := cv_result st @ [e]\<rparr> else st)"

definition write_char :: "char \<Rightarrow> csv_state \<Rightarrow> csv_state" where
  "write_char c st = st\<lparr>cv_current := cv_current st @ [c]\<rparr>"

definition flush_entry :: "csv_state \<Rightarrow> csv_state" where
  "flush_entry st = (add_entry st)\<lparr>cv_current := []\<rparr>"

text \<open>The part of the loop body after the quotes have been handled; \<open>rest\<close> is what follows the character.\<close>

definition csv_plain :: "char \<Rightarrow> string \<Rightarrow> csv_state \<Rightarrow> csv_state" where
  "csv_plain c rest st =
     (let st = (if \<not> cv_inQuote st \<and> \<not> cv_scheme st \<and> c = CHR ''='' \<and> list_ex (strings_HasPrefix rest) supportedSchemes
                then st\<lparr>cv_scheme := True\<rparr> else st) in
      if c = CHR '','' \<and> \<not> cv_inQuote st then
        (if cv_scheme st then
           (if looksLikeKeyValue (strings_TrimSpace rest) then flush_entry (st\<lparr>cv_scheme := False\<rparr>)
            else write_char c st)
         else flush_entry st)
      else (let st = write_char c st in
        if rest = [] \<and> (of_char c :: nat) < 128 then add_entry st else st))"

definition csv_step :: "char \<Rightarrow> string \<Rightarrow> csv_state \<Rightarrow> csv_state" where
  "csv_step c rest st =
     (if cv_inQuote st \<and> \<not> cv_scheme st \<and> cv_escaped st then write_char c (st\<lparr>cv_escaped := False\<rparr>)
      else if cv_inQuote st \<and> \<not> cv_scheme st \<and> c = CHR 0x5C then st\<lparr>cv_escaped := True\<rparr>
      else if \<not> cv_scheme st \<and> (c = CHR 0x22 \<or> c = CHR 0x27) \<and> \<not> cv_inQuote st \<and> \<not> cv_escaped st
        then st\<lparr>cv_inQuote := True, cv_quote := Some c\<rparr>
      else if \<not> cv_scheme st \<and> cv_quote st = Some c \<and> cv_inQuote st \<and> \<not> cv_escaped st
        then st\<lparr>cv_inQuote := False\<rparr>
      else csv_plain c rest st)"

primrec csv_loop :: "string \<Rightarrow> csv_state \<Rightarrow> csv_state" where
  "csv_loop [] st = st"
| "csv_loop (c # cs) st = csv_loop cs (csv_step c cs st)"

definition csv_start :: csv_state where
  "csv_start = \<lparr>cv_current = [], cv_inQuote = False, cv_quote = None, cv_escaped = False, cv_scheme = False, cv_result = []\<rparr>"

definition splitCSV :: "string \<Rightarrow> flag_error + string list" where
  "splitCSV s =
     (let s = strings_TrimSpace s; st = csv_loop s csv_start in
      if cv_inQuote st then Inl (UnterminatedQuote s)
      else if cv_current st \<noteq> [] then
        (let e = strings_TrimSpace (cv_current st) in
         if e \<noteq> [] \<and> (cv_result st = [] \<or> last (cv_result st) \<noteq> e) then Inr (cv_result st @ [e]) else Inr (cv_result st))
      else Inr (cv_result st))"

text \<open>An entry without a key belongs to the last key of its flag.\<close>

fun expand_entries :: "string \<Rightarrow> string list \<Rightarrow> flag_error + string list" where
  "expand_entries key [] = Inr []"
| "expand_entries key (e # es) =
     (case strings_Cut e ''='' of
        Some (k, _) \<Rightarrow> map_sum id (Cons e) (expand_entries (strings_TrimSpace k) es)
      | None \<Rightarrow> if key = [] then Inl (ValueWithoutKey e) else map_sum id (Cons (key @ ''='' @ e)) (expand_entries key es))"

fun splitCSVEntries :: "string list \<Rightarrow> flag_error + string list" where
  "splitCSVEntries [] = Inr []"
| "splitCSVEntries (p # ps) =
     (case splitCSV p of Inl e \<Rightarrow> Inl e
      | Inr es \<Rightarrow> (case expand_entries [] es of Inl e \<Rightarrow> Inl e | Inr xs \<Rightarrow> map_sum id (append xs) (splitCSVEntries ps)))"

definition is_blank :: "char \<Rightarrow> bool" where
  "is_blank c = (c \<in> {CHR 0x20, CHR 0x09, CHR 0x0A, CHR 0x0D})"

definition splitKeyValue :: "string \<Rightarrow> flag_error + string \<times> string" where
  "splitKeyValue pair =
     (case strings_Cut pair ''='' of None \<Rightarrow> Inl (MissingSeparator pair)
      | Some (k, v) \<Rightarrow>
          let k = strings_TrimSpace k in
          if k = [] then Inl (EmptyKey pair) else if list_ex is_blank k then Inl (BlankInKey k) else Inr (k, v))"

fun parse_pairs :: "string list \<Rightarrow> string list gomap \<Rightarrow> flag_error + string list gomap" where
  "parse_pairs [] m = Inr m"
| "parse_pairs (p # ps) m =
     (case splitKeyValue p of Inl e \<Rightarrow> Inl e | Inr (k, v) \<Rightarrow> parse_pairs ps (map_put k (map_get [] m k @ [v]) m))"

definition ParseKeyValue :: "string list \<Rightarrow> flag_error + string list gomap" where
  "ParseKeyValue ps = parse_pairs ps []"

definition ParseKeyValueCSV :: "string list \<Rightarrow> flag_error + string list gomap" where
  "ParseKeyValueCSV ps = (case splitCSVEntries ps of Inl e \<Rightarrow> Inl e | Inr es \<Rightarrow> ParseKeyValue es)"

definition GetFirst :: "string list gomap \<Rightarrow> string \<Rightarrow> string" where
  "GetFirst m k = (case map_get [] m k of [] \<Rightarrow> [] | v # _ \<Rightarrow> v)"

section \<open>Parameters\<close>

text \<open>The values: a nil, a slice of anything, a slice of strings, and everything else.\<close>

datatype go_any = AnyNil | AnyList "go_any list" | AnyStrings "string list" | AnyOther gval

definition any_string :: "string \<Rightarrow> go_any" where
  "any_string s = AnyOther (VStr s)"

definition MergeValue :: "go_any \<Rightarrow> go_any \<Rightarrow> go_any" where
  "MergeValue old new =
     (case old of
        AnyNil \<Rightarrow> new
      | AnyList e \<Rightarrow> (case new of AnyList n \<Rightarrow> AnyList (e @ n) | n \<Rightarrow> AnyList (e @ [n]))
      | AnyStrings e \<Rightarrow>
          (let e = map any_string e in
           case new of AnyList n \<Rightarrow> AnyList (e @ n) | AnyStrings n \<Rightarrow> AnyList (e @ map any_string n) | n \<Rightarrow> AnyList (e @ [n]))
      | AnyOther x \<Rightarrow> (case new of AnyList n \<Rightarrow> AnyList (AnyOther x # n) | n \<Rightarrow> AnyList [AnyOther x, n]))"

record param_env =
  pe_readFile :: "string \<Rightarrow> string option"
  pe_stat :: "string \<Rightarrow> (bool \<times> nat) option"
  pe_yaml :: "string \<Rightarrow> go_any gomap \<times> bool"
  pe_json :: "string \<Rightarrow> go_any gomap \<Rightarrow> go_any gomap option"

definition maxRawReadSize :: nat where "maxRawReadSize = 1048576"

text \<open>YAML fills the map and says whether it succeeded; JSON continues with what is in it.\<close>

definition parseYAMLOrJSON :: "param_env \<Rightarrow> string \<Rightarrow> string \<Rightarrow> flag_error + go_any gomap" where
  "parseYAMLOrJSON env d source =
     (let (m, ok) = pe_yaml env d in
      if ok then Inr m else (case pe_json env d m of Some m \<Rightarrow> Inr m | None \<Rightarrow> Inl (ParseFailed source)))"

text \<open>\<open>filepath.Ext\<close>, in lower case.\<close>

definition lower_ext :: "string \<Rightarrow> string" where
  "lower_ext p =
     (case cut_last (CHR ''.'') (last (split_slash p)) of None \<Rightarrow> [] | Some (_, e) \<Rightarrow> map to_lower (CHR ''.'' # e))"

definition LoadParameterFile :: "param_env \<Rightarrow> string \<Rightarrow> flag_error + go_any gomap" where
  "LoadParameterFile env p =
     (case pe_readFile env p of None \<Rightarrow> Inl (ReadFailed p)
      | Some d \<Rightarrow>
          (let ext = lower_ext p in
           if ext = ''.yaml'' \<or> ext = ''.yml'' then (let (m, ok) = pe_yaml env d in if ok then Inr m else Inl (ParseFailed p))
           else if ext = ''.json'' then (case pe_json env d [] of Some m \<Rightarrow> Inr m | None \<Rightarrow> Inl (ParseFailed p))
           else parseYAMLOrJSON env d p))"

definition LoadParameterReader :: "param_env \<Rightarrow> string \<Rightarrow> string \<Rightarrow> flag_error + go_any gomap" where
  "LoadParameterReader env d source =
     (if length d > maxRawReadSize then Inl (TooLarge source)
      else if strings_TrimSpace d = [] then Inl (NoData source)
      else parseYAMLOrJSON env d source)"

definition parseValueRef :: "string \<Rightarrow> (string \<times> string) option" where
  "parseValueRef s =
     (case strings_Cut s ''='' of None \<Rightarrow> None
      | Some (k, v) \<Rightarrow>
          if k = [] \<or> list_ex is_blank k then None
          else if \<not> strings_HasPrefix v ''@'' \<or> length v < 2 then None else Some (k, tl v))"

definition trim_suffix_char :: "char \<Rightarrow> string \<Rightarrow> string" where
  "trim_suffix_char c s = (if s \<noteq> [] \<and> last s = c then butlast s else s)"

definition readRawReader :: "string \<Rightarrow> string \<Rightarrow> flag_error + string" where
  "readRawReader d source =
     (if length d > maxRawReadSize then Inl (TooLarge source)
      else if strings_TrimSpace d = [] then Inl (NoData source)
      else Inr (trim_suffix_char (CHR 0x0D) (trim_suffix_char (CHR 0x0A) d)))"

definition readRawFile :: "param_env \<Rightarrow> string \<Rightarrow> flag_error + string" where
  "readRawFile env p =
     (case pe_stat env p of None \<Rightarrow> Inl (ReadFailed p)
      | Some (regular, n) \<Rightarrow>
          if regular \<and> n > maxRawReadSize then Inl (TooLarge p)
          else (case pe_readFile env p of None \<Rightarrow> Inl (ReadFailed p) | Some d \<Rightarrow> readRawReader d p))"

text \<open>The state of the loop: the parameters and whether standard input has been read.\<close>

type_synonym param_state = "go_any gomap \<times> bool"

definition merge_key :: "string \<Rightarrow> go_any \<Rightarrow> go_any gomap \<Rightarrow> go_any gomap" where
  "merge_key k v m = map_put k (MergeValue (map_get AnyNil m k) v) m"

definition merge_all :: "go_any gomap \<Rightarrow> go_any gomap \<Rightarrow> go_any gomap" where
  "merge_all ps m = fold (\<lambda>(k, v). merge_key k v) ps m"

definition with_stdin ::
  "string option \<Rightarrow> (string \<Rightarrow> flag_error + 'a) \<Rightarrow> bool \<Rightarrow> flag_error + 'a" where
  "with_stdin stdin f used =
     (if used then Inl StdinTwice else case stdin of None \<Rightarrow> Inl NoStdin | Some d \<Rightarrow> f d)"

definition flag_step :: "param_env \<Rightarrow> string option \<Rightarrow> string \<Rightarrow> param_state \<Rightarrow> flag_error + param_state" where
  "flag_step env stdin v = (\<lambda>(m, used).
     (if strings_HasPrefix v ''@'' then
        (if tl v = ''-'' then map_sum id (\<lambda>ps. (merge_all ps m, True)) (with_stdin stdin (\<lambda>d. LoadParameterReader env d ''stdin'') used)
         else map_sum id (\<lambda>ps. (merge_all ps m, used)) (LoadParameterFile env (tl v)))
      else (case parseValueRef v of
        Some (k, r) \<Rightarrow>
          if r = ''-'' then map_sum id (\<lambda>s. (merge_key k (any_string s) m, True)) (with_stdin stdin (\<lambda>d. readRawReader d ''stdin'') used)
          else map_sum id (\<lambda>s. (merge_key k (any_string s) m, used)) (readRawFile env r)
      | None \<Rightarrow> map_sum id (\<lambda>ps. (fold (\<lambda>(k, ss) m. fold (\<lambda>s. merge_key k (any_string s)) ss m) ps m, used)) (ParseKeyValue [v]))))"

primrec flag_loop :: "param_env \<Rightarrow> string option \<Rightarrow> string list \<Rightarrow> param_state \<Rightarrow> flag_error + param_state" where
  "flag_loop env stdin [] st = Inr st"
| "flag_loop env stdin (v # vs) st = (case flag_step env stdin v st of Inl e \<Rightarrow> Inl e | Inr st \<Rightarrow> flag_loop env stdin vs st)"

definition ParseResolverFlagsWithStdin :: "param_env \<Rightarrow> string list \<Rightarrow> string option \<Rightarrow> flag_error + go_any gomap" where
  "ParseResolverFlagsWithStdin env vs stdin = map_sum id fst (flag_loop env stdin vs ([], False))"

definition ParseResolverFlags :: "param_env \<Rightarrow> string list \<Rightarrow> flag_error + go_any gomap" where
  "ParseResolverFlags env vs = ParseResolverFlagsWithStdin env vs None"

fun ParseDynamicInputArgs :: "string list \<Rightarrow> flag_error + string list" where
  "ParseDynamicInputArgs [] = Inr []"
| "ParseDynamicInputArgs (a # as) =
     (if strings_HasPrefix a ''--'' \<and> strings_Contains a ''='' then map_sum id (Cons (strings_TrimPrefix a ''--'')) (ParseDynamicInputArgs as)
      else if strings_HasPrefix a ''--'' then Inl (FlagNeedsValue a)
      else if strings_HasPrefix a ''-'' then Inl (SingleDash a)
      else if strings_HasPrefix a ''@'' then map_sum id (Cons a) (ParseDynamicInputArgs as)
      else if strings_Contains a ''='' then map_sum id (Cons a) (ParseDynamicInputArgs as)
      else Inl (UnexpectedArgument a))"

definition is_stdin_ref :: "string \<Rightarrow> bool" where
  "is_stdin_ref v = (v = ''@-'' \<or> (case parseValueRef v of Some (_, r) \<Rightarrow> r = ''-'' | None \<Rightarrow> False))"

definition ContainsStdinRef :: "string list \<Rightarrow> bool" where
  "ContainsStdinRef vs = list_ex is_stdin_ref vs"

section \<open>Quoted entries\<close>

text \<open>A value in double quotes, with backslashes before quotes and backslashes.\<close>

definition csv_escape :: "string \<Rightarrow> string" where
  "csv_escape v = concat (map (\<lambda>c. if c = CHR 0x22 \<or> c = CHR 0x5C then [CHR 0x5C, c] else [c]) v)"

definition csv_entry :: "string \<times> string \<Rightarrow> string" where
  "csv_entry = (\<lambda>(k, v). k @ ''='' @ [CHR 0x22] @ csv_escape v @ [CHR 0x22])"

fun csv_join :: "string list \<Rightarrow> string" where
  "csv_join [] = []"
| "csv_join [e] = e"
| "csv_join (e # es) = e @ '','' @ csv_join es"

definition plain_entry :: "string \<times> string \<Rightarrow> string" where
  "plain_entry = (\<lambda>(k, v). k @ ''='' @ v)"

text \<open>A proper key, and a value that does not end in a blank.\<close>

definition csv_ok :: "string \<times> string \<Rightarrow> bool" where
  "csv_ok = (\<lambda>(k, v). k \<noteq> [] \<and> list_all isValidKeyChar k \<and> (v = [] \<or> \<not> is_space (last v)))"

definition csv_open :: "csv_state \<Rightarrow> bool" where
  "csv_open st = (\<not> cv_inQuote st \<and> \<not> cv_escaped st \<and> \<not> cv_scheme st)"

lemma key_char_facts:
  assumes "isValidKeyChar c"
  shows "c \<noteq> CHR 0x22" "c \<noteq> CHR 0x27" "c \<noteq> CHR 0x5C" "c \<noteq> CHR '',''" "c \<noteq> CHR ''=''" "\<not> is_space c"
  using assms by (auto simp: isValidKeyChar_def is_alnum_def is_letter_def is_digit_def is_space_def Let_def)

lemma csv_plain_char:
  assumes "csv_open st" "c \<noteq> CHR '',''" "c \<noteq> CHR 0x22" "c \<noteq> CHR 0x27" "rest \<noteq> []"
    "c = CHR ''='' \<Longrightarrow> hd rest = CHR 0x22"
  shows "csv_step c rest st = write_char c st" "csv_open (write_char c st)"
proof -
  have "\<not> (c = CHR ''='' \<and> list_ex (strings_HasPrefix rest) supportedSchemes)"
    using assms(5,6) by (cases rest) (auto simp: supportedSchemes_def strings_HasPrefix_def)
  with assms(1-5) show "csv_step c rest st = write_char c st" "csv_open (write_char c st)"
    by (auto simp: csv_step_def csv_plain_def csv_open_def write_char_def)
qed

lemma csv_loop_key:
  assumes "list_all isValidKeyChar k" "csv_open st" "ys \<noteq> []"
  shows "csv_loop (k @ ys) st = csv_loop ys (st\<lparr>cv_current := cv_current st @ k\<rparr>)"
  using assms
proof (induction k arbitrary: st)
  case (Cons c k)
  have c: "isValidKeyChar c" and k: "list_all isValidKeyChar k" using Cons.prems(1) by simp_all
  have s: "csv_step c (k @ ys) st = write_char c st" "csv_open (write_char c st)"
    using csv_plain_char [OF Cons.prems(2), of c "k @ ys"] key_char_facts [OF c] Cons.prems(3) by auto
  with Cons.IH [OF k s(2) Cons.prems(3)] show ?case by (simp add: write_char_def)
qed simp

text \<open>Inside the quotes every character comes out as it was written.\<close>

lemma csv_loop_quoted:
  assumes "cv_inQuote st" "\<not> cv_scheme st" "\<not> cv_escaped st" "cv_quote st = Some (CHR 0x22)" "ys \<noteq> []"
  shows "csv_loop (csv_escape v @ ys) st = csv_loop ys (st\<lparr>cv_current := cv_current st @ v\<rparr>)"
  using assms
proof (induction v arbitrary: st)
  case Nil
  then show ?case by (simp add: csv_escape_def)
next
  case (Cons c v)
  let ?st = "st\<lparr>cv_current := cv_current st @ [c]\<rparr>"
  have ih: "csv_loop (csv_escape v @ ys) ?st = csv_loop ys (st\<lparr>cv_current := cv_current st @ c # v\<rparr>)"
    using Cons.IH [of ?st] Cons.prems by simp
  show ?case
  proof (cases "c = CHR 0x22 \<or> c = CHR 0x5C")
    case True
    then have "csv_escape (c # v) = CHR 0x5C # c # csv_escape v" by (simp add: csv_escape_def)
    moreover have "csv_step (CHR 0x5C) rest st = st\<lparr>cv_escaped := True\<rparr>" for rest
      using Cons.prems by (simp add: csv_step_def)
    moreover have "csv_step c rest (st\<lparr>cv_escaped := True\<rparr>) = ?st" for rest
      using Cons.prems by (cases st) (simp add: csv_step_def write_char_def)
    ultimately show ?thesis using ih by simp
  next
    case False
    then have "csv_escape (c # v) = c # csv_escape v" by (simp add: csv_escape_def)
    moreover have "csv_step c (csv_escape v @ ys) st = ?st"
      using Cons.prems False by (auto simp: csv_step_def csv_plain_def write_char_def)
    ultimately show ?thesis using ih by simp
  qed
qed

lemma csv_loop_entry:
  assumes "csv_ok kv" "csv_open st"
  shows "csv_loop (csv_entry kv @ ys) st =
    csv_loop ys (st\<lparr>cv_current := cv_current st @ plain_entry kv, cv_quote := Some (CHR 0x22)\<rparr>)"
proof -
  obtain k v where kv: "kv = (k, v)" by (cases kv)
  have k: "list_all isValidKeyChar k" using assms(1) by (simp add: kv csv_ok_def)
  let ?q = "CHR 0x22 # csv_escape v @ CHR 0x22 # ys"
  have "csv_loop (csv_entry kv @ ys) st = csv_loop (CHR ''='' # ?q) (st\<lparr>cv_current := cv_current st @ k\<rparr>)"
    using csv_loop_key [OF k assms(2), of "CHR ''='' # ?q"] by (simp add: kv csv_entry_def)
  also have "\<dots> = csv_loop ?q (st\<lparr>cv_current := cv_current st @ k @ ''=''\<rparr>)"
    using csv_plain_char(1) [of "st\<lparr>cv_current := cv_current st @ k\<rparr>" "CHR ''=''" ?q] assms(2)
    by (simp add: csv_open_def write_char_def)
  also have "\<dots> = csv_loop (csv_escape v @ CHR 0x22 # ys)
      (st\<lparr>cv_current := cv_current st @ k @ ''='', cv_inQuote := True, cv_quote := Some (CHR 0x22)\<rparr>)"
    using assms(2) by (simp add: csv_step_def csv_open_def)
  also have "\<dots> = csv_loop (CHR 0x22 # ys)
      (st\<lparr>cv_current := (cv_current st @ k @ ''='') @ v, cv_inQuote := True, cv_quote := Some (CHR 0x22)\<rparr>)"
    using csv_loop_quoted [of "st\<lparr>cv_current := cv_current st @ k @ ''='', cv_inQuote := True, cv_quote := Some (CHR 0x22)\<rparr>"
        "CHR 0x22 # ys" v] assms(2) by (cases st) (simp add: csv_open_def)
  also have "\<dots> = csv_loop ys (st\<lparr>cv_current := cv_current st @ plain_entry kv, cv_quote := Some (CHR 0x22)\<rparr>)"
    using assms(2) by (cases st) (simp add: csv_step_def csv_open_def plain_entry_def kv)
  finally show ?thesis .
qed

lemma trim_ends:
  assumes "s \<noteq> []" "\<not> is_space (hd s)" "\<not> is_space (last s)"
  shows "strings_TrimSpace s = s"
proof -
  have d: "dropWhile is_space t = t" if "t \<noteq> []" "\<not> is_space (hd t)" for t using that by (cases t) auto
  have "dropWhile is_space (rev s) = rev s" by (rule d) (use assms in \<open>simp_all add: hd_rev\<close>)
  then show ?thesis using d [OF assms(1,2)] by (simp add: strings_TrimSpace_def)
qed

lemma entry_ends:
  assumes "csv_ok kv"
  shows "plain_entry kv \<noteq> []" "\<not> is_space (hd (plain_entry kv))" "\<not> is_space (last (plain_entry kv))"
proof -
  obtain k v where kv: "kv = (k, v)" by (cases kv)
  with assms have k: "k \<noteq> []" "list_all isValidKeyChar k" and v: "v = [] \<or> \<not> is_space (last v)" by (simp_all add: csv_ok_def)
  show "plain_entry kv \<noteq> []" using k by (simp add: plain_entry_def kv)
  show "\<not> is_space (hd (plain_entry kv))" using k key_char_facts(6) by (cases k) (auto simp: plain_entry_def kv)
  have "\<not> is_space (CHR ''='')" by (simp add: is_space_def)
  with v show "\<not> is_space (last (plain_entry kv))" by (auto simp: plain_entry_def kv)
qed

lemmas trim_entry = trim_ends [OF entry_ends]

lemma csv_loop_join:
  assumes "list_all csv_ok kvs" "kvs \<noteq> []" "csv_open st" "cv_current st = []"
  shows "\<exists>st'. csv_loop (csv_join (map csv_entry kvs)) st = st' \<and> cv_result st' = cv_result st @ map plain_entry (butlast kvs) \<and>
    cv_current st' = plain_entry (last kvs) \<and> \<not> cv_inQuote st'"
  using assms
proof (induction kvs arbitrary: st)
  case (Cons kv kvs)
  have ok: "csv_ok kv" "list_all csv_ok kvs" using Cons.prems(1) by simp_all
  show ?case
  proof (cases kvs)
    case Nil
    then show ?thesis using csv_loop_entry [OF ok(1) Cons.prems(3), of "[]"] Cons.prems(3,4) by (simp add: csv_open_def)
  next
    case (Cons kv' kvs')
    let ?st = "st\<lparr>cv_current := plain_entry kv, cv_quote := Some (CHR 0x22)\<rparr>"
    let ?rest = "csv_join (map csv_entry kvs)"
    have "csv_loop (csv_join (map csv_entry (kv # kvs))) st = csv_loop (CHR '','' # ?rest) ?st"
      using csv_loop_entry [OF ok(1) Cons.prems(3), of "CHR '','' # ?rest"] Cons.prems(4) Cons by simp
    also have "\<dots> = csv_loop ?rest (flush_entry ?st)"
      using Cons.prems(3) by (simp add: csv_step_def csv_plain_def csv_open_def Let_def)
    finally have step: "csv_loop (csv_join (map csv_entry (kv # kvs))) st = csv_loop ?rest (flush_entry ?st)" .
    have "csv_open (flush_entry ?st)" "cv_current (flush_entry ?st) = []"
      "cv_result (flush_entry ?st) = cv_result st @ [plain_entry kv]"
      using Cons.prems(3) trim_entry [OF ok(1) ok(1) ok(1)] entry_ends(1) [OF ok(1)] by (simp_all add: flush_entry_def add_entry_def csv_open_def Let_def)
    from Cons.IH [OF ok(2) _ this(1,2)] this(3) show ?thesis unfolding step using Cons by simp
  qed
qed simp

lemma joined_ends:
  assumes "list_all csv_ok kvs" "kvs \<noteq> []"
  shows "strings_TrimSpace (csv_join (map csv_entry kvs)) = csv_join (map csv_entry kvs)"
proof (rule trim_ends)
  show ne: "csv_join (map csv_entry kvs) \<noteq> []" using assms(2)
    by (cases kvs; cases "tl kvs") (auto simp: csv_entry_def split: prod.splits)
  have "\<not> is_space (hd (csv_join (map csv_entry kvs)))" if "kvs = kv # kvs'" for kv kvs'
  proof -
    obtain k v where kv: "kv = (k, v)" by (cases kv)
    with assms(1) that have "k \<noteq> []" "list_all isValidKeyChar k" by (simp_all add: csv_ok_def)
    then obtain c k' where "k = c # k'" "\<not> is_space c" using key_char_facts(6) by (cases k) auto
    then show ?thesis using that by (cases kvs') (simp_all add: kv csv_entry_def)
  qed
  then show "\<not> is_space (hd (csv_join (map csv_entry kvs)))" using assms(2) by (cases kvs) auto
  have "last (csv_join (map csv_entry kvs)) = CHR 0x22" using assms(2)
  proof (induction kvs)
    case (Cons kv kvs)
    have q: "last (csv_entry kv) = CHR 0x22" for kv by (cases kv) (simp add: csv_entry_def)
    have ne: "csv_join (map csv_entry xs) \<noteq> []" if "xs \<noteq> []" for xs
      using that by (cases xs; cases "tl xs") (auto simp: csv_entry_def split: prod.splits)
    show ?case
    proof (cases kvs)
      case Nil
      then show ?thesis by (simp add: q)
    next
      case (Cons x xs)
      then have "csv_join (map csv_entry (kv # kvs)) = (csv_entry kv @ '','') @ csv_join (map csv_entry kvs)" by simp
      then show ?thesis using Cons.IH Cons ne [of kvs] by (simp only: last_append) simp
    qed
  qed simp
  then show "\<not> is_space (last (csv_join (map csv_entry kvs)))" by (simp add: is_space_def)
qed

text \<open>The last entry is lost when it repeats the one before.\<close>

definition csv_distinct_end :: "(string \<times> string) list \<Rightarrow> bool" where
  "csv_distinct_end kvs = (length kvs < 2 \<or> last (butlast kvs) \<noteq> last kvs)"

lemma cut_entry:
  assumes "list_all isValidKeyChar k"
  shows "strings_Cut (k @ ''='' @ v) ''='' = Some (k, v)"
  using assms
proof (induction k)
  case (Cons c k)
  then show ?case using key_char_facts(5) [of c] by (auto simp: strings_HasPrefix_def)
qed (simp add: strings_HasPrefix_def)

lemma plain_entry_inj:
  assumes "csv_ok x" "csv_ok y" "plain_entry x = plain_entry y"
  shows "x = y"
proof -
  have "strings_Cut (plain_entry z) ''='' = Some z" if "csv_ok z" for z
    using that cut_entry by (cases z) (simp add: csv_ok_def plain_entry_def)
  with assms show ?thesis by (metis option.inject)
qed

lemma splitCSV_join:
  assumes "list_all csv_ok kvs" "kvs \<noteq> []" "csv_distinct_end kvs"
  shows "splitCSV (csv_join (map csv_entry kvs)) = Inr (map plain_entry kvs)"
proof -
  have start: "csv_open csv_start" "cv_current csv_start = []" "cv_result csv_start = []"
    by (simp_all add: csv_open_def csv_start_def)
  from csv_loop_join [OF assms(1,2) start(1,2)] obtain st' where st':
    "csv_loop (csv_join (map csv_entry kvs)) csv_start = st'" "cv_result st' = map plain_entry (butlast kvs)"
    "cv_current st' = plain_entry (last kvs)" "\<not> cv_inQuote st'" using start(3) by auto
  have ok: "csv_ok (last kvs)" using assms(1,2) by (simp add: list_all_iff)
  have fresh: "butlast kvs = [] \<or> plain_entry (last (butlast kvs)) \<noteq> plain_entry (last kvs)"
  proof (cases "butlast kvs = []")
    case False
    then have "last (butlast kvs) \<in> set kvs" by (meson in_set_butlastD last_in_set)
    with assms(1) have "csv_ok (last (butlast kvs))" by (simp add: list_all_iff)
    moreover have "last (butlast kvs) \<noteq> last kvs" using assms(3) False by (cases kvs; cases "tl kvs") (auto simp: csv_distinct_end_def)
    ultimately show ?thesis using plain_entry_inj ok by blast
  qed simp
  have "map plain_entry (butlast kvs) @ [plain_entry (last kvs)] = map plain_entry kvs"
    using assms(2) by (metis append_butlast_last_id list.simps(8) list.simps(9) map_append)
  with fresh show ?thesis
    using st' trim_entry [OF ok ok ok] entry_ends(1) [OF ok]
    by (auto simp: splitCSV_def joined_ends [OF assms(1,2)] Let_def last_map)
qed

lemma expand_plain:
  "list_all csv_ok kvs \<Longrightarrow> expand_entries key (map plain_entry kvs) = Inr (map plain_entry kvs)"
proof (induction kvs arbitrary: key)
  case (Cons kv kvs)
  obtain k v where kv: "kv = (k, v)" by (cases kv)
  with Cons.prems have "strings_Cut (plain_entry kv) ''='' = Some (k, v)" using cut_entry by (simp add: csv_ok_def plain_entry_def)
  with Cons show ?case by simp
qed simp

lemma splitKeyValue_plain:
  assumes "csv_ok (k, v)"
  shows "splitKeyValue (plain_entry (k, v)) = Inr (k, v)"
proof -
  have k: "k \<noteq> []" "list_all isValidKeyChar k" using assms by (simp_all add: csv_ok_def)
  have "c \<in> set k \<Longrightarrow> \<not> is_space c" for c using k(2) key_char_facts(6) by (simp add: list_all_iff)
  moreover have "is_blank c \<Longrightarrow> is_space c" for c by (auto simp: is_blank_def is_space_def)
  then have "\<not> list_ex is_blank k" using calculation by (auto simp: list_ex_iff)
  ultimately show ?thesis using k cut_entry [OF k(2)] trim_ends [OF k(1)]
    by (simp add: splitKeyValue_def plain_entry_def Let_def)
qed

definition values_of :: "string \<Rightarrow> (string \<times> string) list \<Rightarrow> string list" where
  "values_of k kvs = map snd (filter (\<lambda>kv. fst kv = k) kvs)"

lemma parse_plain:
  "list_all csv_ok kvs \<Longrightarrow>
   \<exists>m'. parse_pairs (map plain_entry kvs) m = Inr m' \<and> (\<forall>k. map_get [] m' k = map_get [] m k @ values_of k kvs)"
proof (induction kvs arbitrary: m)
  case (Cons kv kvs)
  obtain k v where kv: "kv = (k, v)" by (cases kv)
  let ?m = "map_put k (map_get [] m k @ [v]) m"
  from Cons obtain m' where m': "parse_pairs (map plain_entry kvs) ?m = Inr m'"
    "\<forall>x. map_get [] m' x = map_get [] ?m x @ values_of x kvs" by fastforce
  have "parse_pairs (map plain_entry (kv # kvs)) m = Inr m'"
    using m'(1) splitKeyValue_plain [of k v] Cons.prems by (simp add: kv)
  moreover have "map_get [] m' x = map_get [] m x @ values_of x (kv # kvs)" for x
    using m'(2) by (simp add: kv values_of_def)
  ultimately show ?case by blast
qed (simp add: values_of_def)

section \<open>Standard input\<close>

text \<open>The values of which the loop reads standard input.\<close>

definition reads_stdin :: "string \<Rightarrow> bool" where
  "reads_stdin v =
     (if strings_HasPrefix v ''@'' then tl v = ''-'' else (case parseValueRef v of Some (_, r) \<Rightarrow> r = ''-'' | None \<Rightarrow> False))"

lemma reads_stdin_ref: "reads_stdin v \<Longrightarrow> is_stdin_ref v"
  by (cases v) (auto simp: reads_stdin_def is_stdin_ref_def strings_HasPrefix_def split: if_splits)

lemma with_stdin_Inr: "with_stdin stdin f used = Inr x \<Longrightarrow> \<not> used \<and> stdin \<noteq> None"
  by (cases stdin) (auto simp: with_stdin_def split: if_splits)

lemma map_sum_Inr: "map_sum id g x = Inr y \<longleftrightarrow> (\<exists>z. x = Inr z \<and> y = g z)"
  by (cases x) auto

lemma flag_step_used:
  assumes "flag_step env stdin v (m, used) = Inr (m', used')"
  shows "used' = (used \<or> reads_stdin v)" "reads_stdin v \<Longrightarrow> \<not> used \<and> stdin \<noteq> None"
  using assms
  by (auto simp: flag_step_def reads_stdin_def map_sum_Inr dest!: with_stdin_Inr split: if_splits option.splits)

lemma flag_step_free: "\<not> reads_stdin v \<Longrightarrow> flag_step env stdin v st = flag_step env None v st"
  by (cases st) (auto simp: flag_step_def reads_stdin_def split: option.splits)

lemma flag_loop_reads:
  "flag_loop env stdin vs (m, used) = Inr (m', used') \<Longrightarrow>
   length (filter reads_stdin vs) \<le> (if used then 0 else case stdin of None \<Rightarrow> 0 | Some _ \<Rightarrow> 1)"
proof (induction vs arbitrary: m used)
  case (Cons v vs)
  from Cons.prems obtain m1 used1 where s: "flag_step env stdin v (m, used) = Inr (m1, used1)"
    and l: "flag_loop env stdin vs (m1, used1) = Inr (m', used')" by (auto split: sum.splits)
  from Cons.IH [OF l] flag_step_used [OF s] show ?case by (cases stdin) (auto split: if_splits)
qed simp

lemma flag_loop_free:
  "list_all (\<lambda>v. \<not> reads_stdin v) vs \<Longrightarrow> flag_loop env stdin vs st = flag_loop env None vs st"
proof (induction vs arbitrary: st)
  case (Cons v vs)
  then show ?case using flag_step_free [of v env stdin st] by (auto split: sum.split)
qed simp

section \<open>Input keys\<close>

text \<open>\<open>validate.go\<close>; the distance of strings is a parameter.  An error has the unknown keys with the suggestion
  for each of them, empty when there is none, and the valid keys.\<close>

definition maxSuggestionDistance :: nat where "maxSuggestionDistance = 3"

definition closer :: "(string \<Rightarrow> nat) \<Rightarrow> string \<Rightarrow> string \<times> nat \<Rightarrow> string \<times> nat" where
  "closer dist c = (\<lambda>(best, d). if dist c < d then (c, dist c) else (best, d))"

definition closestKey :: "(string \<Rightarrow> string \<Rightarrow> nat) \<Rightarrow> string \<Rightarrow> string list \<Rightarrow> string" where
  "closestKey dist key valid = fst (fold (closer (dist key)) valid ([], maxSuggestionDistance + 1))"

definition ValidateInputKeys ::
  "(string \<Rightarrow> string \<Rightarrow> nat) \<Rightarrow> 'v gomap \<Rightarrow> string list \<Rightarrow> ((string \<times> string) list \<times> string list) option" where
  "ValidateInputKeys dist inputs valid =
     (if inputs = [] \<or> valid = [] then None
      else (let unknown = filter (\<lambda>k. k \<notin> set valid) (map_keys inputs) in
        if unknown = [] then None else Some (map (\<lambda>k. (k, closestKey dist k valid)) (sort unknown), sort valid)))"

lemma closest_fold:
  "(case fold (closer dist) cs (best, d) of (b, e) \<Rightarrow>
     (e = d \<and> b = best \<or> e < d \<and> b \<in> set cs \<and> dist b = e) \<and> list_all (\<lambda>c. e \<le> dist c) cs \<and> e \<le> d)"
proof (induction cs arbitrary: best d)
  case (Cons c cs)
  obtain b1 d1 where one: "closer dist c (best, d) = (b1, d1)" by fastforce
  then have "d1 \<le> d" "d1 \<le> dist c" "d1 = d \<and> b1 = best \<or> d1 < d \<and> b1 = c \<and> dist c = d1"
    by (auto simp: closer_def split: if_splits)
  with Cons.IH [where best = b1 and d = d1] one show ?case by (auto split: prod.splits)
qed simp

lemma closestKey_nearest:
  assumes "list_all (\<lambda>c. c \<noteq> []) valid"
  shows "if list_ex (\<lambda>c. dist key c \<le> maxSuggestionDistance) valid
    then closestKey dist key valid \<in> set valid \<and> list_all (\<lambda>c. dist key (closestKey dist key valid) \<le> dist key c) valid
    else closestKey dist key valid = []"
  using closest_fold [where dist = "dist key" and cs = valid and best = "[]" and d = "maxSuggestionDistance + 1"] assms
  by (auto simp: closestKey_def list_all_iff list_ex_iff split: prod.splits)

section \<open>Properties\<close>



text \<open>C29: Standard input is read at most once, and not at all when it is not available: a second use is an error.
  Where \<open>ContainsStdinRef\<close> finds no reference the parameters do not depend on standard input.\<close>

theorem stdin_read_once:
  "(case ParseResolverFlagsWithStdin env vs stdin of
      Inl _ \<Rightarrow> True | Inr _ \<Rightarrow> length (filter reads_stdin vs) \<le> (case stdin of None \<Rightarrow> 0 | Some _ \<Rightarrow> 1)) \<and>
   (ContainsStdinRef vs \<or> ParseResolverFlagsWithStdin env vs stdin = ParseResolverFlags env vs)"
proof
  show "case ParseResolverFlagsWithStdin env vs stdin of
      Inl _ \<Rightarrow> True | Inr _ \<Rightarrow> length (filter reads_stdin vs) \<le> (case stdin of None \<Rightarrow> 0 | Some _ \<Rightarrow> 1)"
    using flag_loop_reads [of env stdin vs "[]" False]
    by (auto simp: ParseResolverFlagsWithStdin_def map_sum_Inr split: sum.split)
  have "list_all (\<lambda>v. \<not> reads_stdin v) vs" if "\<not> ContainsStdinRef vs"
    using that reads_stdin_ref by (auto simp: ContainsStdinRef_def list_all_iff list_ex_iff)
  then show "ContainsStdinRef vs \<or> ParseResolverFlagsWithStdin env vs stdin = ParseResolverFlags env vs"
    using flag_loop_free [of vs env stdin "([], False)"]
    by (cases "ContainsStdinRef vs") (simp_all add: ParseResolverFlags_def ParseResolverFlagsWithStdin_def)
qed

end
