(* ===== verification/Resolver_Diff.thy ===== *)
theory Resolver_Diff
  imports Resolver_Types
begin

text \<open>
  \<open>pkg/resolver/diff.go\<close> with the data of \<open>snapshot.go\<close>: the comparison of two snapshots of a run.
  \<open>reflect.DeepEqual\<close> on values is a parameter.
\<close>

section \<open>Snapshots\<close>

record runtime_component =
  rc_name :: string
  rc_version :: string

record snapshot_metadata =
  sm_solution :: string
  sm_version :: string
  sm_timestamp :: int
  sm_engine :: runtime_component
  sm_cli :: runtime_component
  sm_totalDuration :: string
  sm_status :: string

record snapshot_attempt =
  sa_provider :: string
  sa_sourceStep :: int
  sa_error :: string
  sa_duration :: string
  sa_timestamp :: string

record snapshot_resolver =
  sr_value :: gval
  sr_status :: string
  sr_phase :: int
  sr_duration :: string
  sr_providerCalls :: int
  sr_valueSizeBytes :: int
  sr_sensitive :: bool
  sr_error :: string
  sr_failedAttempts :: "snapshot_attempt list"

record snapshot_phase =
  sp_phase :: int
  sp_duration :: string
  sp_resolvers :: "string list"

record snapshot =
  sn_metadata :: snapshot_metadata
  sn_parameters :: "gval gomap"
  sn_resolvers :: "snapshot_resolver gomap"
  sn_phases :: "snapshot_phase list"

section \<open>Differences\<close>

datatype diff_type = DiffTypeAdded | DiffTypeRemoved | DiffTypeModified | DiffTypeUnchanged

record field_change =
  fc_field :: string
  fc_before :: gval
  fc_after :: gval

record resolver_diff =
  rd_type :: diff_type
  rd_before :: "snapshot_resolver option"
  rd_after :: "snapshot_resolver option"
  rd_changes :: "field_change list"

record diff_summary =
  ds_total :: int
  ds_added :: int
  ds_removed :: int
  ds_modified :: int
  ds_unchanged :: int

record snapshot_diff =
  sd_before :: snapshot_metadata
  sd_after :: snapshot_metadata
  sd_resolvers :: "resolver_diff gomap"
  sd_summary :: diff_summary

definition change_if :: "bool \<Rightarrow> string \<Rightarrow> gval \<Rightarrow> gval \<Rightarrow> field_change list" where
  "change_if b f x y = (if b then [\<lparr>fc_field = f, fc_before = x, fc_after = y\<rparr>] else [])"

definition compareResolvers :: "(gval \<Rightarrow> gval \<Rightarrow> bool) \<Rightarrow> snapshot_resolver \<Rightarrow> snapshot_resolver \<Rightarrow> field_change list" where
  "compareResolvers eq b a =
     change_if (\<not> eq (sr_value b) (sr_value a)) ''value'' (sr_value b) (sr_value a) @
     change_if (sr_status b \<noteq> sr_status a) ''status'' (VStr (sr_status b)) (VStr (sr_status a)) @
     change_if (sr_phase b \<noteq> sr_phase a) ''phase'' (VInt (sr_phase b)) (VInt (sr_phase a)) @
     change_if (sr_duration b \<noteq> sr_duration a) ''duration'' (VStr (sr_duration b)) (VStr (sr_duration a)) @
     change_if (sr_providerCalls b \<noteq> sr_providerCalls a) ''providerCalls'' (VInt (sr_providerCalls b)) (VInt (sr_providerCalls a)) @
     change_if (sr_valueSizeBytes b \<noteq> sr_valueSizeBytes a) ''valueSizeBytes'' (VInt (sr_valueSizeBytes b)) (VInt (sr_valueSizeBytes a)) @
     change_if (sr_error b \<noteq> sr_error a) ''error'' (VStr (sr_error b)) (VStr (sr_error a)) @
     change_if (length (sr_failedAttempts b) \<noteq> length (sr_failedAttempts a)) ''failedAttempts''
       (VInt (int (length (sr_failedAttempts b)))) (VInt (int (length (sr_failedAttempts a))))"

definition diff_one ::
  "(gval \<Rightarrow> gval \<Rightarrow> bool) \<Rightarrow> snapshot \<Rightarrow> snapshot \<Rightarrow> string \<Rightarrow> resolver_diff" where
  "diff_one eq before after n =
     (case (map_of (sn_resolvers before) n, map_of (sn_resolvers after) n) of
        (None, a) \<Rightarrow> \<lparr>rd_type = DiffTypeAdded, rd_before = None, rd_after = a, rd_changes = []\<rparr>
      | (Some b, None) \<Rightarrow> \<lparr>rd_type = DiffTypeRemoved, rd_before = Some b, rd_after = None, rd_changes = []\<rparr>
      | (Some b, Some a) \<Rightarrow>
          (let changes = compareResolvers eq b a in
           if changes \<noteq> [] then \<lparr>rd_type = DiffTypeModified, rd_before = Some b, rd_after = Some a, rd_changes = changes\<rparr>
           else \<lparr>rd_type = DiffTypeUnchanged, rd_before = Some b, rd_after = Some a, rd_changes = []\<rparr>))"

definition count_type :: "diff_type \<Rightarrow> diff_summary \<Rightarrow> diff_summary" where
  "count_type t s = (case t of
      DiffTypeAdded \<Rightarrow> s\<lparr>ds_added := ds_added s + 1\<rparr> | DiffTypeRemoved \<Rightarrow> s\<lparr>ds_removed := ds_removed s + 1\<rparr>
    | DiffTypeModified \<Rightarrow> s\<lparr>ds_modified := ds_modified s + 1\<rparr> | DiffTypeUnchanged \<Rightarrow> s\<lparr>ds_unchanged := ds_unchanged s + 1\<rparr>)"

definition diff_step :: "(gval \<Rightarrow> gval \<Rightarrow> bool) \<Rightarrow> snapshot \<Rightarrow> snapshot \<Rightarrow> string \<Rightarrow> snapshot_diff \<Rightarrow> snapshot_diff" where
  "diff_step eq before after n d =
     (let rd = diff_one eq before after n in
      d\<lparr>sd_resolvers := map_put n rd (sd_resolvers d), sd_summary := count_type (rd_type rd) (sd_summary d)\<rparr>)"

definition all_names :: "snapshot \<Rightarrow> snapshot \<Rightarrow> string list" where
  "all_names before after = fold set_insert (map_keys (sn_resolvers before) @ map_keys (sn_resolvers after)) []"

definition DiffSnapshots :: "(gval \<Rightarrow> gval \<Rightarrow> bool) \<Rightarrow> snapshot \<Rightarrow> snapshot \<Rightarrow> snapshot_diff" where
  "DiffSnapshots eq before after =
     (let names = all_names before after;
          d = fold (diff_step eq before after) names
            \<lparr>sd_before = sn_metadata before, sd_after = sn_metadata after, sd_resolvers = [],
             sd_summary = \<lparr>ds_total = 0, ds_added = 0, ds_removed = 0, ds_modified = 0, ds_unchanged = 0\<rparr>\<rparr>
      in d\<lparr>sd_summary := (sd_summary d)\<lparr>ds_total := int (length names)\<rparr>\<rparr>)"

section \<open>Options\<close>

record diff_options =
  do_ignoreUnchanged :: bool
  do_ignoreFields :: "string list"
  do_resolverFilter :: string

definition ignore_step :: "string list \<Rightarrow> string \<times> resolver_diff \<Rightarrow> snapshot_diff \<Rightarrow> snapshot_diff" where
  "ignore_step ignored = (\<lambda>(n, rd) d.
     (if rd_type rd = DiffTypeModified then
        (let left = filter (\<lambda>c. fc_field c \<notin> set ignored) (rd_changes rd); rd = rd\<lparr>rd_changes := left\<rparr> in
         if left = [] then
           d\<lparr>sd_resolvers := map_put n (rd\<lparr>rd_type := DiffTypeUnchanged\<rparr>) (sd_resolvers d),
             sd_summary := (sd_summary d)\<lparr>ds_modified := ds_modified (sd_summary d) - 1, ds_unchanged := ds_unchanged (sd_summary d) + 1\<rparr>\<rparr>
         else d\<lparr>sd_resolvers := map_put n rd (sd_resolvers d)\<rparr>)
      else d))"

definition DiffSnapshotsWithOptions ::
  "(gval \<Rightarrow> gval \<Rightarrow> bool) \<Rightarrow> snapshot \<Rightarrow> snapshot \<Rightarrow> diff_options option \<Rightarrow> snapshot_diff" where
  "DiffSnapshotsWithOptions eq before after opts =
     (let d = DiffSnapshots eq before after in
      case opts of None \<Rightarrow> d
      | Some op \<Rightarrow>
          (let d = (if do_ignoreUnchanged op
                    then d\<lparr>sd_resolvers := filter (\<lambda>(_, rd). rd_type rd \<noteq> DiffTypeUnchanged) (sd_resolvers d)\<rparr> else d)
           in if do_ignoreFields op \<noteq> [] then fold (ignore_step (do_ignoreFields op)) (sd_resolvers d) d else d))"

section \<open>The counts\<close>

definition of_type :: "diff_type \<Rightarrow> resolver_diff gomap \<Rightarrow> int" where
  "of_type t m = int (length (filter (\<lambda>(_, rd). rd_type rd = t) m))"

lemma map_put_new: "k \<notin> set (map_keys m) \<Longrightarrow> map_put k v m = m @ [(k, v)]"
  unfolding map_put_def map_keys_def by (induction m) auto

lemma all_names_facts:
  "distinct (all_names b a)" "set (all_names b a) = set (map_keys (sn_resolvers b)) \<union> set (map_keys (sn_resolvers a))"
proof -
  have "distinct (fold set_insert xs ys) = distinct ys" "set (fold set_insert xs ys) = set xs \<union> set ys" for xs ys :: "string list"
    by (induction xs arbitrary: ys) auto
  then show "distinct (all_names b a)" "set (all_names b a) = set (map_keys (sn_resolvers b)) \<union> set (map_keys (sn_resolvers a))"
    by (simp_all add: all_names_def)
qed

definition summary_ok :: "snapshot_diff \<Rightarrow> bool" where
  "summary_ok d =
     (ds_added (sd_summary d) = of_type DiffTypeAdded (sd_resolvers d) \<and>
      ds_removed (sd_summary d) = of_type DiffTypeRemoved (sd_resolvers d) \<and>
      ds_modified (sd_summary d) = of_type DiffTypeModified (sd_resolvers d))"

definition unchanged_ok :: "snapshot_diff \<Rightarrow> bool" where
  "unchanged_ok d = (ds_unchanged (sd_summary d) = of_type DiffTypeUnchanged (sd_resolvers d))"

lemma diff_fold:
  "distinct ns \<Longrightarrow> set ns \<inter> set (map_keys (sd_resolvers d)) = {} \<Longrightarrow> summary_ok d \<Longrightarrow> unchanged_ok d \<Longrightarrow>
   sd_resolvers (fold (diff_step eq b a) ns d) = sd_resolvers d @ map (\<lambda>n. (n, diff_one eq b a n)) ns \<and>
   summary_ok (fold (diff_step eq b a) ns d) \<and> unchanged_ok (fold (diff_step eq b a) ns d)"
proof (induction ns arbitrary: d)
  case (Cons n ns)
  let ?d = "diff_step eq b a n d"
  have new: "sd_resolvers ?d = sd_resolvers d @ [(n, diff_one eq b a n)]"
    using Cons.prems(2) by (simp add: diff_step_def Let_def map_put_new)
  have ok: "summary_ok ?d" "unchanged_ok ?d"
    using Cons.prems(3,4) unfolding summary_ok_def unchanged_ok_def new of_type_def
    by (cases "rd_type (diff_one eq b a n)"; simp add: diff_step_def Let_def count_type_def)+
  have "set ns \<inter> set (map_keys (sd_resolvers ?d)) = {}"
    using Cons.prems(1,2) by (auto simp: new map_keys_def)
  with Cons.IH [OF _ this ok] Cons.prems(1) show ?case by (simp add: new)
qed simp

lemma DiffSnapshots_facts:
  "sd_resolvers (DiffSnapshots eq b a) = map (\<lambda>n. (n, diff_one eq b a n)) (all_names b a)"
  "summary_ok (DiffSnapshots eq b a)" "unchanged_ok (DiffSnapshots eq b a)"
  "ds_total (sd_summary (DiffSnapshots eq b a)) = int (length (all_names b a))"
proof -
  let ?d = "\<lparr>sd_before = sn_metadata b, sd_after = sn_metadata a, sd_resolvers = [],
             sd_summary = \<lparr>ds_total = 0, ds_added = 0, ds_removed = 0, ds_modified = 0, ds_unchanged = 0\<rparr>\<rparr>"
  have "summary_ok ?d" "unchanged_ok ?d" by (simp_all add: summary_ok_def unchanged_ok_def of_type_def)
  from diff_fold [OF all_names_facts(1) _ this, of b a eq]
  show "sd_resolvers (DiffSnapshots eq b a) = map (\<lambda>n. (n, diff_one eq b a n)) (all_names b a)"
    "summary_ok (DiffSnapshots eq b a)" "unchanged_ok (DiffSnapshots eq b a)"
    "ds_total (sd_summary (DiffSnapshots eq b a)) = int (length (all_names b a))"
    by (simp_all add: DiffSnapshots_def Let_def summary_ok_def unchanged_ok_def)
qed

section \<open>The counts with options\<close>

definition total_ok :: "snapshot_diff \<Rightarrow> bool" where
  "total_ok d = (ds_total (sd_summary d) =
     ds_added (sd_summary d) + ds_removed (sd_summary d) + ds_modified (sd_summary d) + ds_unchanged (sd_summary d))"

lemma of_type_simps [simp]:
  "of_type t [] = 0"
  "of_type t ((k, rd) # m) = of_type t m + (if rd_type rd = t then 1 else 0)"
  by (simp_all add: of_type_def)

lemma of_type_put:
  "distinct (map_keys m) \<Longrightarrow> (n, rd) \<in> set m \<Longrightarrow>
   of_type t (map_put n rd' m) = of_type t m - (if rd_type rd = t then 1 else 0) + (if rd_type rd' = t then 1 else 0)"
  unfolding map_put_def map_keys_def
proof (induction m)
  case (Cons x m)
  obtain k rd0 where x: "x = (k, rd0)" by (cases x)
  show ?case
  proof (cases "k = n")
    case True
    with Cons.prems have "rd0 = rd" by (force simp: x)
    with True show ?thesis by (simp add: x)
  next
    case False
    with Cons show ?thesis by (simp add: x)
  qed
qed simp

lemma in_put_other: "k \<noteq> n \<Longrightarrow> (k, v) \<in> set m \<Longrightarrow> (k, v) \<in> set (map_put n w m)"
  unfolding map_put_def by (induction m) auto

lemma ignore_step_ok:
  assumes "distinct (map_keys (sd_resolvers d))" "(n, rd) \<in> set (sd_resolvers d)" "summary_ok d" "total_ok d"
  shows "summary_ok (ignore_step fs (n, rd) d) \<and> total_ok (ignore_step fs (n, rd) d) \<and>
    distinct (map_keys (sd_resolvers (ignore_step fs (n, rd) d)))"
proof (cases "rd_type rd = DiffTypeModified")
  case True
  with assms show ?thesis
    by (simp add: ignore_step_def Let_def summary_ok_def total_ok_def of_type_put [OF assms(1,2)] distinct_keys_put)
qed (use assms in \<open>simp add: ignore_step_def\<close>)

lemma ignore_step_other:
  "k \<noteq> n \<Longrightarrow> (k, v) \<in> set (sd_resolvers d) \<Longrightarrow> (k, v) \<in> set (sd_resolvers (ignore_step fs (n, rd) d))"
  by (simp add: ignore_step_def Let_def in_put_other)

lemma ignore_fold:
  "distinct (map_keys xs) \<Longrightarrow> set xs \<subseteq> set (sd_resolvers d) \<Longrightarrow> distinct (map_keys (sd_resolvers d)) \<Longrightarrow>
   summary_ok d \<Longrightarrow> total_ok d \<Longrightarrow>
   summary_ok (fold (ignore_step fs) xs d) \<and> total_ok (fold (ignore_step fs) xs d)"
proof (induction xs arbitrary: d)
  case (Cons x xs)
  obtain n rd where x: "x = (n, rd)" by (cases x)
  let ?d = "ignore_step fs (n, rd) d"
  have "k \<noteq> n" if "(k, v) \<in> set xs" for k v using Cons.prems(1) that by (force simp: x map_keys_def)
  then have "set xs \<subseteq> set (sd_resolvers ?d)" using Cons.prems(2) ignore_step_other by (fastforce simp: x)
  moreover have "(n, rd) \<in> set (sd_resolvers d)" using Cons.prems(2) by (simp add: x)
  ultimately show ?case
    using Cons.IH [of ?d] Cons.prems ignore_step_ok [of d n rd fs] by (simp add: x map_keys_def)
qed simp

text \<open>Whatever is ignored, the summary counts the resolvers it lists as added, removed and modified, and the four
  counts add up to the number of resolvers compared.\<close>

theorem snapshot_diff_summary:
  "summary_ok (DiffSnapshotsWithOptions eq before after opts) \<and> total_ok (DiffSnapshotsWithOptions eq before after opts)"
proof -
  let ?d = "DiffSnapshots eq before after"
  note f = DiffSnapshots_facts [of eq before after]
  have keys: "distinct (map_keys (sd_resolvers ?d))" using all_names_facts(1) by (simp add: f(1) map_keys_def comp_def)
  have sum: "int (length m) = of_type DiffTypeAdded m + of_type DiffTypeRemoved m + of_type DiffTypeModified m + of_type DiffTypeUnchanged m"
    for m :: "resolver_diff gomap"
  proof (induction m)
    case (Cons x m)
    then show ?case by (cases x; cases "rd_type (snd x)") simp_all
  qed simp
  have len: "length (all_names before after) = length (sd_resolvers ?d)" by (simp add: f(1))
  have total: "total_ok ?d" using f(2,3,4) sum [of "sd_resolvers ?d"] len
    by (simp add: total_ok_def summary_ok_def unchanged_ok_def)
  show ?thesis
  proof (cases opts)
    case None
    with f(2) total show ?thesis by (simp add: DiffSnapshotsWithOptions_def)
  next
    case (Some op)
    let ?d' = "if do_ignoreUnchanged op
      then ?d\<lparr>sd_resolvers := filter (\<lambda>(_, rd). rd_type rd \<noteq> DiffTypeUnchanged) (sd_resolvers ?d)\<rparr> else ?d"
    have drop: "of_type t (filter (\<lambda>(_, rd). rd_type rd \<noteq> DiffTypeUnchanged) m) = of_type t m" if "t \<noteq> DiffTypeUnchanged"
      for t m using that by (induction m) auto
    have "summary_ok ?d'" "total_ok ?d'" using f(2) total by (auto simp: summary_ok_def total_ok_def drop)
    moreover have "distinct (map_keys (sd_resolvers ?d'))" using keys by (simp add: map_keys_def distinct_map_filter)
    ultimately show ?thesis using ignore_fold [of "sd_resolvers ?d'" ?d' "do_ignoreFields op"]
      by (auto simp: DiffSnapshotsWithOptions_def Some Let_def)
  qed
qed

end
